(* ===== verification/Prelude.thy ===== *)
theory Prelude
  imports Main "HOL-Library.Word"
begin

unbundle bit_operations_syntax

section \<open>Shared vocabulary of the Ariel OS development\<close>

text \<open>
  This theory holds what every component of the model shares: the ways a Rust function can
  panic, the sequencing of steps that may panic, checked array accesses, the \<open>as u8\<close> cast,
  and generic facts about lists, rings and words that the component proofs use.

  A Rust function that may panic returns a value of \<open>panic + 'a\<close>: \<open>Inl\<close> is the
  panic (the firmware aborts, so the state at that point is not observed any more) and
  \<open>Inr\<close> the normal result.  The model follows the release profile: \<open>debug_assert!\<close>
  is compiled out and integer overflow wraps, which is written out where it can happen.
\<close>

named_theorems panic_simps "evaluation of steps that may panic"
named_theorems result_simps "how a computation with early returns can have succeeded"

datatype panic =
    IndexOutOfBounds    \<comment> \<open>an array or slice index past the end\<close>
  | AssertFailed        \<comment> \<open>a failed \<open>assert!\<close> or \<open>assert_eq!\<close>\<close>
  | UnwrapNone          \<comment> \<open>\<open>unwrap\<close> or \<open>expect\<close> of \<open>None\<close> or \<open>Err\<close>\<close>
  | UnreachableCode     \<comment> \<open>an \<open>unreachable!\<close> that is reached\<close>
  | ExplicitPanic       \<comment> \<open>\<open>panic!\<close>\<close>
  | UninitRead          \<comment> \<open>undefined behaviour: reading memory that was never written\<close>

fun bnd :: "'e + 'a \<Rightarrow> ('a \<Rightarrow> 'e + 'b) \<Rightarrow> 'e + 'b" where
  "bnd (Inl e) f = Inl e"
| "bnd (Inr x) f = f x"

lemma bnd_eq_Inr [panic_simps]: "bnd m f = Inr y \<longleftrightarrow> (\<exists>x. m = Inr x \<and> f x = Inr y)"
  by (cases m) auto

lemma bnd_eq_Inl [panic_simps]: "bnd m f = Inl e \<longleftrightarrow> m = Inl e \<or> (\<exists>x. m = Inr x \<and> f x = Inl e)"
  by (cases m) auto

lemma bnd_Inr_right [simp]: "bnd m Inr = m"
  by (cases m) auto

lemma bnd_assoc: "bnd (bnd m f) g = bnd m (\<lambda>x. bnd (f x) g)"
  by (cases m) auto

lemma bnd_cong [fundef_cong]:
  "m = m' \<Longrightarrow> (\<And>x. m' = Inr x \<Longrightarrow> f x = f' x) \<Longrightarrow> bnd m f = bnd m' f'"
  by (cases m') auto

text \<open>
  A computation with a loop that might not end returns a value of \<open>('e + 'a) option\<close>:
  \<open>None\<close> never returns.
\<close>

fun obnd :: "('e + 'a) option \<Rightarrow> ('a \<Rightarrow> ('e + 'b) option) \<Rightarrow> ('e + 'b) option" where
  "obnd None f = None"
| "obnd (Some (Inl e)) f = Some (Inl e)"
| "obnd (Some (Inr x)) f = f x"

lemma obnd_eq_Inr [panic_simps]: "obnd m f = Some (Inr y) \<longleftrightarrow> (\<exists>x. m = Some (Inr x) \<and> f x = Some (Inr y))"
  by (cases "(m, f)" rule: obnd.cases) auto

lemma obnd_cong [fundef_cong]:
  "m = m' \<Longrightarrow> (\<And>x. m' = Some (Inr x) \<Longrightarrow> f x = f' x) \<Longrightarrow> obnd m f = obnd m' f'"
  by (cases "(m', f')" rule: obnd.cases) auto

text \<open>Checked accesses: \<open>xs[i]\<close> and \<open>xs[i] = v\<close> of Rust, and \<open>assert!\<close>.\<close>

definition idx :: "'a list \<Rightarrow> nat \<Rightarrow> panic + 'a" where
  "idx xs i = (if i < length xs then Inr (xs ! i) else Inl IndexOutOfBounds)"

definition upd :: "'a list \<Rightarrow> nat \<Rightarrow> 'a \<Rightarrow> panic + 'a list" where
  "upd xs i v = (if i < length xs then Inr (xs[i := v]) else Inl IndexOutOfBounds)"

definition require :: "bool \<Rightarrow> panic + unit" where
  "require b = (if b then Inr () else Inl AssertFailed)"

definition unwrap :: "'a option \<Rightarrow> panic + 'a" where
  "unwrap x = (case x of None \<Rightarrow> Inl UnwrapNone | Some v \<Rightarrow> Inr v)"

lemma idx_in [simp]: "i < length xs \<Longrightarrow> idx xs i = Inr (xs ! i)"
  by (simp add: idx_def)

lemma idx_out [simp]: "\<not> i < length xs \<Longrightarrow> idx xs i = Inl IndexOutOfBounds"
  by (simp add: idx_def)

lemma upd_in [simp]: "i < length xs \<Longrightarrow> upd xs i v = Inr (xs[i := v])"
  by (simp add: upd_def)

lemma upd_out [simp]: "\<not> i < length xs \<Longrightarrow> upd xs i v = Inl IndexOutOfBounds"
  by (simp add: upd_def)

lemma idx_eq_Inr [panic_simps]: "idx xs i = Inr x \<longleftrightarrow> i < length xs \<and> x = xs ! i"
  by (auto simp: idx_def)

lemma upd_eq_Inr [panic_simps]: "upd xs i v = Inr ys \<longleftrightarrow> i < length xs \<and> ys = xs[i := v]"
  by (auto simp: upd_def)

lemma require_simps [simp]: "require True = Inr ()" "require False = Inl AssertFailed"
  by (simp_all add: require_def)

lemma require_eq_Inr [panic_simps]: "require b = Inr u \<longleftrightarrow> b"
  by (auto simp: require_def)

lemma unwrap_simps [simp]: "unwrap None = Inl UnwrapNone" "unwrap (Some v) = Inr v"
  by (simp_all add: unwrap_def)

lemma unwrap_eq_Inr [panic_simps]: "unwrap x = Inr v \<longleftrightarrow> x = Some v"
  by (cases x) auto

text \<open>
  A function that returns a \<open>Result\<close> and may panic has a value of \<open>panic + ('e + 'a)\<close>, and one
  that also changes a state \<open>'s\<close> a value of \<open>panic + 's \<times> ('e + 'a)\<close>.  \<open>rbnd\<close> sequences calls of
  the first kind; \<open>leave s r k\<close> is the \<open>?\<close> operator on a result \<open>r\<close> in state \<open>s\<close>: an error is
  returned at once, with the state as it is.
\<close>

definition ok_or :: "'e \<Rightarrow> 'a option \<Rightarrow> 'e + 'a" where
  "ok_or e x = (case x of None \<Rightarrow> Inl e | Some a \<Rightarrow> Inr a)"

definition map_err :: "('e \<Rightarrow> 'f) \<Rightarrow> 'e + 'a \<Rightarrow> 'f + 'a" where
  "map_err f r = (case r of Inl e \<Rightarrow> Inl (f e) | Inr a \<Rightarrow> Inr a)"

definition rbnd :: "panic + ('e + 'a) \<Rightarrow> ('a \<Rightarrow> panic + ('e + 'b)) \<Rightarrow> panic + ('e + 'b)" where
  "rbnd m k = bnd m (\<lambda>r. case r of Inl e \<Rightarrow> Inr (Inl e) | Inr a \<Rightarrow> k a)"

definition leave :: "'s \<Rightarrow> 'e + 'a \<Rightarrow> ('a \<Rightarrow> panic + 's \<times> ('e + 'b)) \<Rightarrow> panic + 's \<times> ('e + 'b)" where
  "leave s r k = (case r of Inl e \<Rightarrow> Inr (s, Inl e) | Inr a \<Rightarrow> k a)"

lemma ok_or_simps [simp]: "ok_or e None = Inl e" "ok_or e (Some a) = Inr a"
  by (simp_all add: ok_or_def)

lemma ok_or_eq_Inr [panic_simps]: "ok_or e x = Inr a \<longleftrightarrow> x = Some a"
  by (cases x) auto

lemma ok_or_eq_Inl [panic_simps]: "ok_or e x = Inl e' \<longleftrightarrow> x = None \<and> e' = e"
  by (cases x) auto

lemma map_err_simps [simp]: "map_err f (Inl e) = Inl (f e)" "map_err f (Inr a) = Inr a"
  by (simp_all add: map_err_def)

lemma map_err_eq_Inr [panic_simps]: "map_err f r = Inr a \<longleftrightarrow> r = Inr a"
  by (cases r) auto

lemma rbnd_simps [simp]:
  "rbnd (Inl p) k = Inl p" "rbnd (Inr (Inl e)) k = Inr (Inl e)" "rbnd (Inr (Inr a)) k = k a"
  by (simp_all add: rbnd_def)

lemma rbnd_eq_ok [panic_simps]: "rbnd m k = Inr (Inr b) \<longleftrightarrow> (\<exists>a. m = Inr (Inr a) \<and> k a = Inr (Inr b))"
  by (cases m) (auto simp: rbnd_def split: sum.splits)

lemma leave_simps [simp]: "leave s (Inl e) k = Inr (s, Inl e)" "leave s (Inr a) k = k a"
  by (simp_all add: leave_def)

lemma leave_eq_Inr [panic_simps]:
  "leave s r k = Inr y \<longleftrightarrow> (\<exists>e. r = Inl e \<and> y = (s, Inl e)) \<or> (\<exists>a. r = Inr a \<and> k a = Inr y)"
  by (cases r) auto

lemma early_return [result_simps]:
  "(if c then Inl e else m) = Inr y \<longleftrightarrow> \<not> c \<and> m = Inr y"
  "(if c then Inr (Inl e') else n) = Inr (Inr z) \<longleftrightarrow> \<not> c \<and> n = Inr (Inr z)"
  "(if c then Inr y' else Inl e) = Inr y \<longleftrightarrow> c \<and> y' = y"
  "(case x of None \<Rightarrow> Inl e | Some a \<Rightarrow> k a) = Inr y \<longleftrightarrow> (\<exists>a. x = Some a \<and> k a = Inr y)"
  "(case x of None \<Rightarrow> Inr (Inl e') | Some a \<Rightarrow> l a) = Inr (Inr z) \<longleftrightarrow> (\<exists>a. x = Some a \<and> l a = Inr (Inr z))"
  "(case x of None \<Rightarrow> n | Some a \<Rightarrow> Inr (Inl e')) = Inr (Inr z) \<longleftrightarrow> x = None \<and> n = Inr (Inr z)"
  by (auto split: option.splits)

lemmas [result_simps] = bnd_eq_Inr rbnd_eq_ok ok_or_eq_Inr map_err_eq_Inr

text \<open>
  \<open>outcome bad m Q\<close>: the call \<open>m\<close> panics only if \<open>bad\<close>, and otherwise its result satisfies \<open>Q\<close>.
  The rules below compute it along a sequence of calls.
\<close>

definition outcome :: "bool \<Rightarrow> 'p + 'a \<Rightarrow> ('a \<Rightarrow> bool) \<Rightarrow> bool" where
  "outcome bad m Q = (case m of Inl p \<Rightarrow> bad | Inr x \<Rightarrow> Q x)"

named_theorems outcome_rules "outcomes of the ways calls are put together"

lemma outcome_simps [simp]: "outcome bad (Inl p) Q = bad" "outcome bad (Inr x) Q = Q x"
  by (simp_all add: outcome_def)

lemma outcome_bnd [outcome_rules]: "outcome bad m (\<lambda>x. outcome bad (f x) Q) \<Longrightarrow> outcome bad (bnd m f) Q"
  by (cases m) auto

lemma outcome_rbnd [outcome_rules]:
  "outcome bad m (\<lambda>r. case r of Inl e \<Rightarrow> Q (Inl e) | Inr a \<Rightarrow> outcome bad (f a) Q) \<Longrightarrow> outcome bad (rbnd m f) Q"
  by (cases m) (auto split: sum.splits)

lemma outcome_leave [outcome_rules]:
  "(\<And>e. r = Inl e \<Longrightarrow> Q (s, Inl e)) \<Longrightarrow> (\<And>a. r = Inr a \<Longrightarrow> outcome bad (k a) Q) \<Longrightarrow> outcome bad (leave s r k) Q"
  by (cases r) auto

lemma outcome_mono: "outcome bad m Q \<Longrightarrow> (bad \<Longrightarrow> bad') \<Longrightarrow> (\<And>x. Q x \<Longrightarrow> Q' x) \<Longrightarrow> outcome bad' m Q'"
  by (cases m) auto

lemma outcome_weaken: "outcome False m Q \<Longrightarrow> (\<And>x. Q x \<Longrightarrow> Q' x) \<Longrightarrow> outcome bad m Q'"
  by (cases m) auto

lemma outcome_InrD: "outcome bad m Q \<Longrightarrow> m = Inr x \<Longrightarrow> Q x"
  by simp

lemma outcome_total: "outcome bad m Q \<Longrightarrow> \<not> bad \<Longrightarrow> \<exists>x. m = Inr x \<and> Q x"
  by (cases m) auto

lemma outcome_ex: "\<exists>x. m = Inr x \<and> Q x \<Longrightarrow> outcome bad m Q"
  by auto

text \<open>The cast \<open>x as u8\<close> of a \<open>usize\<close> keeps the low eight bits.\<close>

definition as_u8 :: "nat \<Rightarrow> nat" where
  "as_u8 n = n mod 256"

lemma as_u8_id [simp]: "n < 256 \<Longrightarrow> as_u8 n = n"
  by (simp add: as_u8_def)

lemma as_u8_less [simp]: "as_u8 n < 256"
  by (simp add: as_u8_def)

subsection \<open>Words\<close>

lemma unat32_less [simp]: "unat (w :: 32 word) < 4294967296"
  using unsigned_less[of w] by simp

lemma unat32_of_nat [simp]: "n < 4294967296 \<Longrightarrow> unat (word_of_nat n :: 32 word) = n"
  by (simp add: unat_of_nat)

subsection \<open>Lists\<close>

lemma last_neq_butlast:
  "distinct xs \<Longrightarrow> xs \<noteq> [] \<Longrightarrow> x \<in> set (butlast xs) \<Longrightarrow> x \<noteq> last xs"
  by (metis append_butlast_last_id disjoint_insert(1) distinct_append list.simps(15))

lemma last_bound: "set xs \<subseteq> {..<n::nat} \<Longrightarrow> xs \<noteq> [] \<Longrightarrow> last xs < n"
  using last_in_set by blast

lemma remove1_last: "x \<notin> set xs \<Longrightarrow> remove1 x (xs @ x # ys) = xs @ ys"
  by (simp add: remove1_append)

lemma distinct_remove1_split:
  "distinct (xs @ x # ys) \<Longrightarrow> remove1 x (xs @ x # ys) = xs @ ys"
  by (simp add: remove1_append)

lemma find_append: "find P (xs @ ys) = (case find P xs of None \<Rightarrow> find P ys | Some x \<Rightarrow> Some x)"
  by (induction xs) auto

lemma find_SomeD: "find P xs = Some x \<Longrightarrow> P x \<and> x \<in> set xs"
  by (induction xs) (auto split: if_splits)

end
