(* ===== verification/Clist.thy ===== *)
theory Clist
  imports Prelude
begin

section \<open>Circular lists over one array (\<open>runqueue.rs\<close>, module \<open>clist\<close>)\<close>

text \<open>
  \<open>CList<N_QUEUES, N_THREADS>\<close> keeps \<open>N_QUEUES\<close> circular linked lists in one array of
  next pointers.  The const generics are the lengths of the two arrays.  A \<open>u8\<close> is a
  natural number, its casts written with \<^const>\<open>as_u8\<close>; \<open>0xFF\<close> marks an empty
  list in \<open>tail\<close> and an unlinked element in \<open>next_idxs\<close>.
\<close>

record clist =
  tail :: "nat list"
  next_idxs :: "nat list"

definition sentinel :: nat where
  "sentinel = 255"

definition clist_new :: "nat \<Rightarrow> nat \<Rightarrow> clist" where
  "clist_new n_queues n_threads =
     \<lparr>tail = replicate n_queues sentinel, next_idxs = replicate n_threads sentinel\<rparr>"

definition clist_is_empty :: "clist \<Rightarrow> nat \<Rightarrow> panic + bool" where
  "clist_is_empty c rq = bnd (idx (tail c) rq) (\<lambda>t. Inr (t = sentinel))"

definition clist_peek_head :: "clist \<Rightarrow> nat \<Rightarrow> panic + nat option" where
  "clist_peek_head c rq =
     bnd (clist_is_empty c rq) (\<lambda>e.
       if e then Inr None
       else bnd (idx (tail c) rq) (\<lambda>t. bnd (idx (next_idxs c) t) (\<lambda>h. Inr (Some h))))"

definition clist_peek_next :: "clist \<Rightarrow> nat \<Rightarrow> panic + nat" where
  "clist_peek_next c cur = idx (next_idxs c) cur"

definition clist_push :: "clist \<Rightarrow> nat \<Rightarrow> nat \<Rightarrow> panic + clist" where
  "clist_push c n rq =
     bnd (require (n < sentinel)) (\<lambda>_.
     bnd (idx (next_idxs c) n) (\<lambda>nx.
       if nx \<noteq> sentinel then Inr c
       else bnd (clist_peek_head c rq) (\<lambda>ho.
         case ho of
           Some head \<Rightarrow>
             bnd (upd (next_idxs c) n head) (\<lambda>ns.
             bnd (idx (tail c) rq) (\<lambda>t.
             bnd (upd ns t n) (\<lambda>ns.
             bnd (upd (tail c) rq n) (\<lambda>ts.
               Inr (c\<lparr>tail := ts, next_idxs := ns\<rparr>)))))
         | None \<Rightarrow>
             bnd (upd (tail c) rq n) (\<lambda>ts.
             bnd (upd (next_idxs c) n n) (\<lambda>ns.
               Inr (c\<lparr>tail := ts, next_idxs := ns\<rparr>))))))"

text \<open>The helper \<open>position\<close>: the loop of the source, from index \<open>i\<close> on.\<close>

function position_from :: "nat \<Rightarrow> nat list \<Rightarrow> nat \<Rightarrow> nat" where
  "position_from i arr item =
     (if i < length arr \<and> arr ! i \<noteq> item then position_from (i + 1) arr item else i)"
  by pat_completeness auto
termination
  by (relation "measure (\<lambda>(i, arr, item). length arr - i)") auto

declare position_from.simps [simp del]

definition position :: "nat list \<Rightarrow> nat \<Rightarrow> nat option" where
  "position arr item =
     (let i = position_from 0 arr item in if i < length arr then Some i else None)"

definition clist_del :: "clist \<Rightarrow> nat \<Rightarrow> panic + clist \<times> nat option" where
  "clist_del c n =
     bnd (idx (next_idxs c) n) (\<lambda>nx.
       if nx = sentinel then Inr (c, None)
       else case position (next_idxs c) n of
         None \<Rightarrow> Inr (c, None)
       | Some prev \<Rightarrow>
           bnd (case position (tail c) n of
                  None \<Rightarrow> Inr (tail c, None)
                | Some rq \<Rightarrow>
                    if prev = n
                    then bnd (upd (tail c) rq sentinel) (\<lambda>ts. Inr (ts, Some (as_u8 rq)))
                    else bnd (upd (tail c) rq (as_u8 prev)) (\<lambda>ts. Inr (ts, None)))
             (\<lambda>(ts, empty_runqueue).
           bnd (upd (next_idxs c) prev nx) (\<lambda>ns.
           bnd (upd ns n sentinel) (\<lambda>ns.
             Inr (c\<lparr>tail := ts, next_idxs := ns\<rparr>, empty_runqueue)))))"

definition clist_pop_head :: "clist \<Rightarrow> nat \<Rightarrow> panic + clist \<times> nat option" where
  "clist_pop_head c rq =
     bnd (clist_peek_head c rq) (\<lambda>ho.
       case ho of
         None \<Rightarrow> Inr (c, None)
       | Some head \<Rightarrow>
           bnd (idx (tail c) rq) (\<lambda>t.
           bnd (if head = t
                then bnd (upd (tail c) rq sentinel) (\<lambda>ts. Inr (ts, next_idxs c))
                else bnd (idx (next_idxs c) head) (\<lambda>second.
                     bnd (upd (next_idxs c) t second) (\<lambda>ns. Inr (tail c, ns))))
             (\<lambda>(ts, ns).
           bnd (upd ns head sentinel) (\<lambda>ns.
             Inr (c\<lparr>tail := ts, next_idxs := ns\<rparr>, Some head)))))"

definition clist_advance :: "clist \<Rightarrow> nat \<Rightarrow> panic + clist \<times> bool" where
  "clist_advance c rq =
     bnd (idx (tail c) rq) (\<lambda>t.
       if length (next_idxs c) \<le> t then Inr (c, False)
       else bnd (idx (next_idxs c) t) (\<lambda>head.
         if t = head then Inr (c, False)
         else bnd (upd (tail c) rq head) (\<lambda>ts. Inr (c\<lparr>tail := ts\<rparr>, True))))"


subsection \<open>Rings\<close>

text \<open>
  \<open>ring ns xs\<close>: following the next pointers \<open>ns\<close> from the elements of \<open>xs\<close> walks
  \<open>xs\<close> in order and closes the circle.
\<close>

definition ring :: "nat list \<Rightarrow> nat list \<Rightarrow> bool" where
  "ring ns xs \<longleftrightarrow> map (\<lambda>i. ns ! i) xs = rotate1 xs"

lemma ring_Nil [simp]: "ring ns []"
  by (simp add: ring_def)

lemma ring_iff:
  assumes "xs \<noteq> []"
  shows "ring ns xs \<longleftrightarrow> map (\<lambda>i. ns ! i) (butlast xs) = tl xs \<and> ns ! last xs = hd xs"
proof -
  have "map (\<lambda>i. ns ! i) xs = map (\<lambda>i. ns ! i) (butlast xs) @ [ns ! last xs]"
    by (metis assms append_butlast_last_id list.simps(8,9) map_append)
  moreover have "rotate1 xs = tl xs @ [hd xs]"
    using assms by (cases xs) auto
  ultimately show ?thesis
    by (simp add: ring_def)
qed

lemma ring_next_in: "ring ns xs \<Longrightarrow> i \<in> set xs \<Longrightarrow> ns ! i \<in> set xs"
  by (metis image_eqI list.set_map ring_def set_rotate1)

lemma ring_inj: "ring ns xs \<Longrightarrow> distinct xs \<Longrightarrow> inj_on (\<lambda>i. ns ! i) (set xs)"
  by (metis distinct_map distinct_rotate ring_def rotate1_rotate_swap rotate_Suc distinct1_rotate)

lemma ring_upd_other: "i \<notin> set xs \<Longrightarrow> ring (ns[i := v]) xs = ring ns xs"
  unfolding ring_def by (rule arg_cong2[where f = "(=)"], rule map_cong) (auto intro!: nth_list_update_neq)

lemma ring_rotate1: "ring ns xs \<Longrightarrow> ring ns (rotate1 xs)"
  by (simp add: ring_def flip: rotate1_map)

lemma ring_swap: "ring ns (as @ bs) \<Longrightarrow> ring ns (bs @ as)"
proof -
  assume r: "ring ns (as @ bs)"
  have "ring ns (rotate k (as @ bs))" for k
    by (induction k) (auto simp: r ring_rotate1)
  from this[of "length as"] show ?thesis
    by (simp add: rotate_append)
qed

lemma ring_push:
  assumes "ring ns xs" "xs \<noteq> []" "distinct xs" "n \<notin> set xs" "n < length ns"
    and "set xs \<subseteq> {..<length ns}"
  shows "ring (ns[n := hd xs, last xs := n]) (xs @ [n])"
proof -
  have last: "last xs \<in> set xs" "last xs < length ns" "last xs \<noteq> n"
    using assms by (auto simp: last_bound)
  have "ns[n := hd xs, last xs := n] ! i = ns ! i" if "i \<in> set (butlast xs)" for i
    using that assms in_set_butlastD[OF that] last_neq_butlast[OF _ _ that]
    by (metis nth_list_update_neq)
  then have "map (\<lambda>i. ns[n := hd xs, last xs := n] ! i) (butlast xs) = tl xs"
    using assms(1,2) by (simp add: ring_iff cong: map_cong)
  moreover have "ns[n := hd xs, last xs := n] ! last xs = n"
    using last by simp
  ultimately have "map (\<lambda>i. ns[n := hd xs, last xs := n] ! i) (butlast xs @ [last xs]) = tl xs @ [n]"
    using assms(1,2) by (simp add: ring_iff del: append_butlast_last_id)
  then have "map (\<lambda>i. ns[n := hd xs, last xs := n] ! i) xs = tl xs @ [n]"
    using assms(2) by simp
  then show ?thesis
    using assms last by (simp add: ring_iff nth_list_update)
qed

lemma ring_pop:
  assumes "ring ns (h # ys)" "ys \<noteq> []" "distinct (h # ys)" "set (h # ys) \<subseteq> {..<length ns}"
  shows "ring (ns[last ys := ns ! h, h := v]) ys"
proof -
  have *: "ns ! h # map (\<lambda>i. ns ! i) (butlast ys) = ys" "ns ! last ys = h"
    using assms(1,2) by (simp_all add: ring_iff)
  have last: "last ys \<in> set ys" "last ys < length ns" "last ys \<noteq> h"
    using assms by (auto simp: last_bound)
  have "ns[last ys := ns ! h, h := v] ! i = ns ! i" if "i \<in> set (butlast ys)" for i
    using that assms in_set_butlastD[OF that] last_neq_butlast[OF _ _ that]
    by (metis distinct.simps(2) nth_list_update_neq)
  then have "map (\<lambda>i. ns[last ys := ns ! h, h := v] ! i) (butlast ys) = tl ys"
    using *(1) by (metis (no_types, lifting) list.sel(3) map_cong)
  moreover have "ns[last ys := ns ! h, h := v] ! last ys = hd ys"
    using last *(1) by (metis length_list_update list.sel(1) nth_list_update_eq nth_list_update_neq)
  ultimately show ?thesis
    using assms(2) by (simp add: ring_iff)
qed

lemma ring_remove:
  assumes r: "ring ns (as @ n # bs)" and ne: "as @ bs \<noteq> []" and d: "distinct (as @ n # bs)"
    and b: "set (as @ n # bs) \<subseteq> {..<length ns}"
    and p: "p \<in> set (as @ n # bs)" "ns ! p = n"
  shows "ring (ns[p := ns ! n, n := v]) (as @ bs) \<and> p = last (bs @ as)"
proof -
  from ring_swap[OF r] have r': "ring ns (n # bs @ as)"
    by simp
  from r' have "ns ! last (n # bs @ as) = n"
    by (simp add: ring_iff)
  moreover have "inj_on (\<lambda>i. ns ! i) (set (as @ n # bs))"
    using ring_inj[OF r d] .
  moreover have "last (n # bs @ as) \<in> set (as @ n # bs)"
    using last_in_set[of "n # bs @ as"] by auto
  ultimately have pl: "p = last (n # bs @ as)"
    using p by (metis inj_onD)
  have "ring (ns[last (bs @ as) := ns ! n, n := v]) (bs @ as)"
    using ring_pop[OF r', of v] ne d b by auto
  then show ?thesis
    using pl ne by (auto dest: ring_swap)
qed

subsection \<open>The queues a \<open>CList\<close> stands for\<close>

text \<open>
  \<open>clist_rep c Q\<close>: the two arrays of \<open>c\<close> represent the queues \<open>Q\<close>, one list of
  elements per queue number, head first.  Every element is in one queue at most, and exactly
  the unlinked elements carry the sentinel.
\<close>

definition clist_rep :: "clist \<Rightarrow> (nat \<Rightarrow> nat list) \<Rightarrow> bool" where
  "clist_rep c Q \<longleftrightarrow>
     length (next_idxs c) \<le> 255 \<and> length (tail c) \<le> 256 \<and>
     (\<forall>q. length (tail c) \<le> q \<longrightarrow> Q q = []) \<and>
     (\<forall>q. distinct (Q q) \<and> set (Q q) \<subseteq> {..<length (next_idxs c)}) \<and>
     (\<forall>p q. p \<noteq> q \<longrightarrow> set (Q p) \<inter> set (Q q) = {}) \<and>
     (\<forall>q<length (tail c). tail c ! q = (if Q q = [] then sentinel else last (Q q))) \<and>
     (\<forall>q. ring (next_idxs c) (Q q)) \<and>
     (\<forall>n<length (next_idxs c). next_idxs c ! n \<noteq> sentinel \<longrightarrow> (\<exists>q. n \<in> set (Q q)))"

lemma clist_repD:
  assumes "clist_rep c Q"
  shows "length (next_idxs c) \<le> 255" "length (tail c) \<le> 256"
    and "length (tail c) \<le> q \<Longrightarrow> Q q = []"
    and "distinct (Q q)" "set (Q q) \<subseteq> {..<length (next_idxs c)}"
    and "p \<noteq> q \<Longrightarrow> set (Q p) \<inter> set (Q q) = {}"
    and "q < length (tail c) \<Longrightarrow> tail c ! q = (if Q q = [] then sentinel else last (Q q))"
    and "ring (next_idxs c) (Q q)"
  using assms by (simp_all add: clist_rep_def)

lemma clist_rep_linked:
  assumes "clist_rep c Q" "n < length (next_idxs c)"
  shows "next_idxs c ! n = sentinel \<longleftrightarrow> (\<forall>q. n \<notin> set (Q q))"
proof
  assume s: "next_idxs c ! n = sentinel"
  show "\<forall>q. n \<notin> set (Q q)"
  proof (rule allI, rule notI)
    fix q assume "n \<in> set (Q q)"
    then have "next_idxs c ! n \<in> set (Q q)"
      using ring_next_in clist_repD(8)[OF assms(1)] by blast
    then show False
      using s clist_repD(1)[OF assms(1)] clist_repD(5)[OF assms(1), of q] by (auto simp: sentinel_def)
  qed
next
  assume "\<forall>q. n \<notin> set (Q q)"
  then show "next_idxs c ! n = sentinel"
    using assms by (auto simp: clist_rep_def)
qed

lemma clist_rep_same_queue:
  "clist_rep c Q \<Longrightarrow> n \<in> set (Q p) \<Longrightarrow> n \<in> set (Q q) \<Longrightarrow> p = q"
  by (metis clist_repD(6) disjoint_iff)

lemma clist_rep_less: "clist_rep c Q \<Longrightarrow> n \<in> set (Q q) \<Longrightarrow> n < length (next_idxs c)"
  using clist_repD(5) by blast

lemma clist_rep_queue_less: "clist_rep c Q \<Longrightarrow> n \<in> set (Q q) \<Longrightarrow> q < length (tail c)"
  using clist_repD(3)[of c Q q] by (metis empty_iff empty_set not_le_imp_less)

lemma clist_rep_new:
  "n_threads \<le> 255 \<Longrightarrow> n_queues \<le> 256 \<Longrightarrow> clist_rep (clist_new n_queues n_threads) (\<lambda>_. [])"
  by (simp add: clist_rep_def clist_new_def)

lemma clist_is_empty_spec:
  assumes "clist_rep c Q" "rq < length (tail c)"
  shows "clist_is_empty c rq = Inr (Q rq = [])"
proof -
  have "last (Q rq) \<noteq> sentinel" if "Q rq \<noteq> []"
    using last_bound[OF clist_repD(5)[OF assms(1)] that] clist_repD(1)[OF assms(1)]
    by (simp add: sentinel_def)
  then show ?thesis
    using assms by (simp add: clist_is_empty_def clist_repD(7))
qed

lemma clist_peek_head_spec:
  assumes "clist_rep c Q" "rq < length (tail c)"
  shows "clist_peek_head c rq = Inr (case Q rq of [] \<Rightarrow> None | h # _ \<Rightarrow> Some h)"
proof (cases "Q rq")
  case Nil
  then show ?thesis
    using assms by (simp add: clist_peek_head_def clist_is_empty_spec)
next
  case (Cons h ys)
  have "last (Q rq) < length (next_idxs c)"
    using last_bound[OF clist_repD(5)[OF assms(1), of rq]] Cons by simp
  moreover have "next_idxs c ! last (Q rq) = h"
    using clist_repD(8)[OF assms(1), of rq] Cons by (simp add: ring_iff)
  moreover have "tail c ! rq = last (Q rq)"
    using clist_repD(7)[OF assms] Cons by simp
  ultimately show ?thesis
    using assms Cons by (simp add: clist_peek_head_def clist_is_empty_spec)
qed

lemma clist_peek_next_spec:
  assumes "clist_rep c Q" "Q q = xs @ a # b # ys"
  shows "clist_peek_next c a = Inr b"
proof -
  have "ring (next_idxs c) (a # b # ys @ xs)"
    using clist_repD(8)[OF assms(1), of q] assms(2) ring_swap[of _ xs "a # b # ys"] by simp
  then have "next_idxs c ! a = b"
    by (simp add: ring_iff)
  moreover have "a < length (next_idxs c)"
    using clist_rep_less[OF assms(1), of a q] assms(2) by simp
  ultimately show ?thesis
    by (simp add: clist_peek_next_def)
qed

lemma clist_peek_next_last:
  assumes "clist_rep c Q" "Q q \<noteq> []"
  shows "clist_peek_next c (last (Q q)) = Inr (hd (Q q))"
  using clist_repD(8)[OF assms(1), of q] assms(2) last_bound[OF clist_repD(5)[OF assms(1)] assms(2)]
  by (simp add: ring_iff clist_peek_next_def)

subsection \<open>Each operation on the represented queues\<close>

lemma clist_push_dup:
  assumes "clist_rep c Q" "n \<in> set (Q q)"
  shows "clist_push c n rq = Inr c"
proof -
  have "n < length (next_idxs c)" "next_idxs c ! n \<noteq> sentinel"
    using clist_rep_less[OF assms] clist_rep_linked[OF assms(1)] assms(2) by blast+
  then show ?thesis
    using clist_repD(1)[OF assms(1)] by (simp add: clist_push_def sentinel_def)
qed

text \<open>
  Every operation rewrites one queue: the frame condition on the next pointers gives the
  representation of all the others.
\<close>

lemma ring_cong: "(\<And>i. i \<in> set xs \<Longrightarrow> ns ! i = ns' ! i) \<Longrightarrow> ring ns xs = ring ns' xs"
  unfolding ring_def by (simp cong: map_cong)

lemma clist_rep_update:
  assumes r: "clist_rep c Q" and rq: "rq < length (tail c)"
    and ts: "tail c' = (tail c)[rq := (if xs = [] then sentinel else last xs)]"
    and len: "length (next_idxs c') = length (next_idxs c)"
    and xs: "distinct xs" "set xs \<subseteq> {..<length (next_idxs c)}"
    and disj: "\<And>q. q \<noteq> rq \<Longrightarrow> set xs \<inter> set (Q q) = {}"
    and rg: "ring (next_idxs c') xs"
    and frame: "\<And>i. i \<notin> set (Q rq) \<Longrightarrow> i \<notin> set xs \<Longrightarrow> next_idxs c' ! i = next_idxs c ! i"
    and gone: "\<And>i. i \<in> set (Q rq) \<Longrightarrow> i \<notin> set xs \<Longrightarrow> next_idxs c' ! i = sentinel"
  shows "clist_rep c' (Q(rq := xs))"
proof -
  have "ring (next_idxs c') (Q q)" if "q \<noteq> rq" for q
    using clist_repD(8)[OF r, of q] ring_cong[of "Q q" "next_idxs c'" "next_idxs c"]
      clist_repD(6)[OF r that] disj[OF that] frame by (auto simp: disjoint_iff)
  moreover have "\<exists>q. i \<in> set ((Q(rq := xs)) q)"
    if "i < length (next_idxs c)" "next_idxs c' ! i \<noteq> sentinel" for i
  proof (cases "i \<in> set xs")
    case False
    then have i: "i \<notin> set (Q rq)" "next_idxs c ! i \<noteq> sentinel"
      using that gone frame by metis+
    then obtain q where "i \<in> set (Q q)"
      using clist_rep_linked[OF r] \<open>i < length (next_idxs c)\<close> by auto
    then show ?thesis
      using i by (intro exI[of _ q]) auto
  qed (auto intro: exI[of _ rq])
  moreover have "set ((Q(rq := xs)) p) \<inter> set ((Q(rq := xs)) q) = {}" if "p \<noteq> q" for p q
    using that disj[of p] disj[of q] clist_repD(6)[OF r that] by auto
  moreover have "tail c' ! q = (if (Q(rq := xs)) q = [] then sentinel else last ((Q(rq := xs)) q))"
    if "q < length (tail c)" for q
    using that ts rq clist_repD(7)[OF r that] by (simp add: nth_list_update)
  ultimately show ?thesis
    unfolding clist_rep_def len using ts xs rg rq clist_repD(1-5)[OF r] by simp
qed

lemma clist_push_new:
  assumes r: "clist_rep c Q" and n: "n < length (next_idxs c)" "\<forall>q. n \<notin> set (Q q)"
    and rq: "rq < length (tail c)"
  shows "\<exists>c'. clist_push c n rq = Inr c' \<and> clist_rep c' (Q(rq := Q rq @ [n]))
    \<and> length (next_idxs c') = length (next_idxs c) \<and> length (tail c') = length (tail c)"
proof -
  have nx: "next_idxs c ! n = sentinel" "n < sentinel"
    using clist_rep_linked[OF r n(1)] n clist_repD(1)[OF r] by (auto simp: sentinel_def)
  have rep: "clist_rep c' (Q(rq := Q rq @ [n]))"
    if "tail c' = (tail c)[rq := n]" "length (next_idxs c') = length (next_idxs c)"
      "ring (next_idxs c') (Q rq @ [n])"
      "\<And>i. i \<notin> set (Q rq) \<Longrightarrow> i \<noteq> n \<Longrightarrow> next_idxs c' ! i = next_idxs c ! i" for c'
    by (rule clist_rep_update[OF r rq])
      (use that n clist_repD(4,5)[OF r, of rq] clist_repD(6)[OF r, of rq] in auto)
  show ?thesis
  proof (cases "Q rq = []")
    case True
    let ?c = "c\<lparr>tail := (tail c)[rq := n], next_idxs := (next_idxs c)[n := n]\<rparr>"
    have "clist_push c n rq = Inr ?c"
      using True nx n rq r by (simp add: clist_push_def clist_peek_head_spec)
    moreover have "clist_rep ?c (Q(rq := Q rq @ [n]))"
      by (rule rep) (use True n in \<open>auto simp: ring_iff\<close>)
    ultimately show ?thesis by simp
  next
    case False
    let ?t = "last (Q rq)" and ?h = "hd (Q rq)"
    let ?c = "c\<lparr>tail := (tail c)[rq := n], next_idxs := (next_idxs c)[n := ?h, ?t := n]\<rparr>"
    have tq: "?t \<in> set (Q rq)"
      using False by simp
    have t: "?t < length (next_idxs c)" "tail c ! rq = ?t" "?t \<noteq> n"
      using clist_rep_less[OF r tq] clist_repD(7)[OF r rq] False n(2)[rule_format, of rq] tq
      by (simp_all del: last_in_set) (metis last_in_set)
    have "clist_push c n rq = Inr ?c"
      using False nx n rq r t by (cases "Q rq") (simp_all add: clist_push_def clist_peek_head_spec)
    moreover have "clist_rep ?c (Q(rq := Q rq @ [n]))"
    proof (rule rep)
      show "ring (next_idxs ?c) (Q rq @ [n])"
        using ring_push[OF clist_repD(8)[OF r] False] clist_repD(4,5)[OF r] n by simp
      show "next_idxs ?c ! i = next_idxs c ! i" if "i \<notin> set (Q rq)" "i \<noteq> n" for i
      proof -
        have "i \<noteq> ?t" using that(1) tq by blast
        then show ?thesis using that(2) by simp
      qed
    qed simp_all
    ultimately show ?thesis by simp
  qed
qed

lemma clist_pop_head_empty:
  "clist_rep c Q \<Longrightarrow> rq < length (tail c) \<Longrightarrow> Q rq = [] \<Longrightarrow> clist_pop_head c rq = Inr (c, None)"
  by (simp add: clist_pop_head_def clist_peek_head_spec)

lemma clist_pop_head_spec:
  assumes r: "clist_rep c Q" and rq: "rq < length (tail c)" and q: "Q rq = h # ys"
  shows "\<exists>c'. clist_pop_head c rq = Inr (c', Some h) \<and> clist_rep c' (Q(rq := ys))
    \<and> length (next_idxs c') = length (next_idxs c) \<and> length (tail c') = length (tail c)"
proof -
  have h: "h < length (next_idxs c)"
    using clist_rep_less[OF r, of h rq] q by simp
  have d: "h \<notin> set ys" "distinct ys" "set ys \<subseteq> {..<length (next_idxs c)}"
    using clist_repD(4,5)[OF r, of rq] q by simp_all
  have tl: "tail c ! rq = last (h # ys)"
    using clist_repD(7)[OF r rq] q by simp
  have rep: "clist_rep c' (Q(rq := ys))"
    if "tail c' = (tail c)[rq := (if ys = [] then sentinel else last ys)]"
      "length (next_idxs c') = length (next_idxs c)" "ring (next_idxs c') ys"
      "\<And>i. i \<notin> set (h # ys) \<Longrightarrow> next_idxs c' ! i = next_idxs c ! i"
      "next_idxs c' ! h = sentinel" for c'
    by (rule clist_rep_update[OF r rq])
      (use that d q clist_repD(6)[OF r, of rq] in auto)
  show ?thesis
  proof (cases "ys = []")
    case True
    let ?c = "c\<lparr>tail := (tail c)[rq := sentinel], next_idxs := (next_idxs c)[h := sentinel]\<rparr>"
    have "clist_pop_head c rq = Inr (?c, Some h)"
      using True rq r q tl h by (simp add: clist_pop_head_def clist_peek_head_spec)
    moreover have "clist_rep ?c (Q(rq := ys))"
      by (rule rep) (use True h in auto)
    ultimately show ?thesis by simp
  next
    case False
    let ?ns = "(next_idxs c)[last ys := next_idxs c ! h, h := sentinel]"
    let ?c = "c\<lparr>next_idxs := ?ns\<rparr>"
    have l: "last ys < length (next_idxs c)" "last ys \<in> set ys" "last ys \<noteq> h"
      using last_bound[OF d(3) False] False d by auto
    have "clist_pop_head c rq = Inr (?c, Some h)"
      using False rq r q tl h l by (simp add: clist_pop_head_def clist_peek_head_spec)
    moreover have "clist_rep ?c (Q(rq := ys))"
    proof (rule rep)
      show "ring (next_idxs ?c) ys"
        using ring_pop[of "next_idxs c" h ys] clist_repD(8)[OF r, of rq] q False d h by simp
      show "tail ?c = (tail c)[rq := (if ys = [] then sentinel else last ys)]"
        using tl False by simp (metis list_update_id)
    qed (use h l in \<open>auto simp: nth_list_update\<close>)
    ultimately show ?thesis by simp
  qed
qed

lemma clist_advance_spec:
  assumes r: "clist_rep c Q" and rq: "rq < length (tail c)"
  shows "\<exists>c'. clist_advance c rq = Inr (c', 1 < length (Q rq)) \<and> clist_rep c' (Q(rq := rotate1 (Q rq)))
    \<and> length (next_idxs c') = length (next_idxs c) \<and> length (tail c') = length (tail c)"
proof (cases "Q rq")
  case Nil
  then have "tail c ! rq = 255"
    using clist_repD(7)[OF r rq] by (simp add: sentinel_def)
  then show ?thesis
    using Nil r rq clist_repD(1)[OF r] by (simp add: clist_advance_def fun_upd_idem)
next
  case (Cons h ys)
  have t: "tail c ! rq = last (h # ys)" "last (h # ys) < length (next_idxs c)"
    using clist_repD(7)[OF r rq] last_bound[OF clist_repD(5)[OF r, of rq]] Cons by simp_all
  have nh: "next_idxs c ! last (h # ys) = h"
    using clist_repD(8)[OF r, of rq] Cons by (simp add: ring_iff)
  show ?thesis
  proof (cases "ys = []")
    case True
    then show ?thesis
      using Cons t nh r rq by (simp add: clist_advance_def fun_upd_idem)
  next
    case False
    let ?c = "c\<lparr>tail := (tail c)[rq := h]\<rparr>"
    from False have "last (h # ys) \<noteq> h"
      using clist_repD(4)[OF r, of rq] Cons by auto
    then have "clist_advance c rq = Inr (?c, True)"
      using t nh rq by (simp add: clist_advance_def)
    moreover have "clist_rep ?c (Q(rq := rotate1 (Q rq)))"
      by (rule clist_rep_update[OF r rq])
        (use Cons clist_repD(4,5,8)[OF r, of rq] clist_repD(6)[OF r, of rq] ring_rotate1[of _ "h # ys"] in auto)
    moreover have "1 < length (Q rq)"
      using False Cons by (cases ys) simp_all
    ultimately show ?thesis by auto
  qed
qed

subsection \<open>Deletion\<close>

lemma position_from_spec:
  "i \<le> position_from i arr x \<and> (\<forall>j. i \<le> j \<and> j < position_from i arr x \<longrightarrow> arr ! j \<noteq> x)
   \<and> (position_from i arr x < length arr \<longrightarrow> arr ! position_from i arr x = x)
   \<and> (i \<le> length arr \<longrightarrow> position_from i arr x \<le> length arr)"
proof (induction i arr x rule: position_from.induct)
  case (1 i arr x)
  show ?case
  proof (cases "i < length arr \<and> arr ! i \<noteq> x")
    case True
    note IH = 1[OF True]
    have "arr ! j \<noteq> x" if "i \<le> j" "j < position_from (i + 1) arr x" for j
      using IH True that by (cases "j = i") auto
    then show ?thesis
      using IH True by (auto simp: position_from.simps[of i])
  next
    case False
    then show ?thesis by (auto simp: position_from.simps[of i])
  qed
qed

lemma position_None: "position arr x = None \<longleftrightarrow> x \<notin> set arr"
  using position_from_spec[of 0 arr x]
  by (auto simp: position_def Let_def in_set_conv_nth)

lemma position_Some: "position arr x = Some i \<Longrightarrow> i < length arr \<and> arr ! i = x"
  using position_from_spec[of 0 arr x] by (auto simp: position_def Let_def split: if_splits)

lemma position_unique:
  assumes "i < length arr" "arr ! i = x" "\<And>j. j < length arr \<Longrightarrow> arr ! j = x \<Longrightarrow> j = i"
  shows "position arr x = Some i"
  using assms position_None[of arr x] position_Some[of arr x]
  by (metis in_set_conv_nth not_None_eq)

lemma clist_del_absent:
  assumes "clist_rep c Q" "n < length (next_idxs c)" "\<forall>q. n \<notin> set (Q q)"
  shows "clist_del c n = Inr (c, None)"
  using assms clist_rep_linked[OF assms(1,2)] by (simp add: clist_del_def)

lemma clist_del_prev:
  assumes r: "clist_rep c Q" and n: "n \<in> set (Q q)"
  obtains p where "position (next_idxs c) n = Some p" "p \<in> set (Q q)" "next_idxs c ! p = n"
proof -
  have "n \<in> set (map (\<lambda>i. next_idxs c ! i) (Q q))"
    using clist_repD(8)[OF r, of q] n by (simp add: ring_def)
  then obtain p where p: "p \<in> set (Q q)" "next_idxs c ! p = n"
    by auto
  have "j = p" if j: "j < length (next_idxs c)" "next_idxs c ! j = n" for j
  proof -
    have "next_idxs c ! j \<noteq> sentinel"
      using j clist_rep_less[OF r n] clist_repD(1)[OF r] by (simp add: sentinel_def)
    then obtain q' where q': "j \<in> set (Q q')"
      using clist_rep_linked[OF r j(1)] by auto
    then have "n \<in> set (Q q')"
      using ring_next_in[OF clist_repD(8)[OF r] q'] j by simp
    then have "q' = q"
      using clist_rep_same_queue[OF r] n by blast
    then show ?thesis
      using ring_inj[OF clist_repD(8,4)[OF r], of q] p q' j by (simp add: inj_on_def)
  qed
  then have "position (next_idxs c) n = Some p"
    using position_unique[of p "next_idxs c" n] p clist_rep_less[OF r p(1)] by blast
  then show ?thesis
    using that p by blast
qed

lemma clist_del_tail:
  assumes r: "clist_rep c Q" and n: "n \<in> set (Q q)"
  shows "position (tail c) n = (if last (Q q) = n then Some q else None)"
proof -
  have q: "q < length (tail c)" "tail c ! q = last (Q q)"
    using clist_rep_queue_less[OF r n] clist_repD(7)[OF r, of q] n by auto
  have nn: "n \<noteq> sentinel"
    using clist_rep_less[OF r n] clist_repD(1)[OF r] by (simp add: sentinel_def)
  have u: "j = q" if "j < length (tail c)" "tail c ! j = n" for j
    using that clist_repD(7)[OF r that(1)] nn clist_rep_same_queue[OF r, of n j q] n
    by (metis last_in_set)
  show ?thesis
  proof (cases "last (Q q) = n")
    case True
    then show ?thesis
      using position_unique[of q "tail c" n, OF q(1)] q(2) u by simp
  next
    case False
    then have "n \<notin> set (tail c)"
      using u q(2) by (metis in_set_conv_nth)
    then show ?thesis
      using False position_None[of "tail c" n] by simp
  qed
qed

lemma clist_del_spec:
  assumes r: "clist_rep c Q" and n: "n \<in> set (Q q)"
  shows "\<exists>c'. clist_del c n = Inr (c', if Q q = [n] then Some q else None)
    \<and> clist_rep c' (Q(q := remove1 n (Q q)))
    \<and> length (next_idxs c') = length (next_idxs c) \<and> length (tail c') = length (tail c)"
proof -
  obtain as bs where ab: "Q q = as @ n # bs" and na: "n \<notin> set as"
    using split_list_first[OF n] by blast
  have d: "distinct (as @ n # bs)" and b: "set (as @ n # bs) \<subseteq> {..<length (next_idxs c)}"
    using clist_repD(4,5)[OF r, of q] ab by simp_all
  have nl: "n < length (next_idxs c)" and q: "q < length (tail c)"
    using clist_rep_less[OF r n] clist_rep_queue_less[OF r n] .
  have q256: "q < 256" and s: "next_idxs c ! n \<noteq> sentinel"
    using q clist_repD(2)[OF r] clist_rep_linked[OF r nl] n by auto
  obtain p where p: "position (next_idxs c) n = Some p" "p \<in> set (Q q)" "next_idxs c ! p = n"
    using clist_del_prev[OF r n] .
  have p256: "p < 256" and pl: "p < length (next_idxs c)"
    using clist_rep_less[OF r p(2)] clist_repD(1)[OF r] by simp_all
  have ts: "tail c ! q = last (Q q)"
    using clist_repD(7)[OF r q] n by auto
  have rm: "remove1 n (Q q) = as @ bs"
    using ab d by (simp add: remove1_append)
  let ?ns = "(next_idxs c)[p := next_idxs c ! n, n := sentinel]"
  let ?ts = "(tail c)[q := (if as @ bs = [] then sentinel else last (as @ bs))]"
  let ?c = "c\<lparr>tail := ?ts, next_idxs := ?ns\<rparr>"
  have rr: "ring ?ns (as @ bs) \<and> p = last (bs @ as)" if "as @ bs \<noteq> []"
  proof (rule ring_remove[OF _ that d b])
    show "ring (next_idxs c) (as @ n # bs)" "p \<in> set (as @ n # bs)" "next_idxs c ! p = n"
      using clist_repD(8)[OF r, of q] p ab by simp_all
  qed
  have ring: "ring ?ns (as @ bs)"
    using rr by (cases "as @ bs = []") (simp, blast)
  have pe: "p = last (bs @ as)" if "as @ bs \<noteq> []"
    using rr[OF that] by blast
  have "clist_del c n = Inr (?c, if Q q = [n] then Some q else None)"
  proof (cases "as @ bs = []")
    case True
    then have "Q q = [n]" "p = n"
      using ab p(2) by simp_all
    then show ?thesis
      using True s nl q q256 p(1) clist_del_tail[OF r n] by (simp add: clist_del_def)
  next
    case False
    have "Q q \<noteq> [n]"
      using ab False by (auto simp: append_eq_Cons_conv)
    moreover have "p \<noteq> n"
      using pe[OF False] False d last_in_set[of "bs @ as"] by auto
    moreover have "last (Q q) = n \<Longrightarrow> p = last (as @ bs)"
      using pe[OF False] ab d False last_in_set[of bs] by (cases bs) auto
    moreover have "last (Q q) \<noteq> n \<Longrightarrow> last (as @ bs) = tail c ! q"
      using ab ts by (cases bs) auto
    ultimately show ?thesis
      using False s nl q q256 p256 pl p(1) clist_del_tail[OF r n]
      by (cases "last (Q q) = n") (auto simp: clist_del_def)
  qed
  moreover have "clist_rep ?c (Q(q := remove1 n (Q q)))"
    unfolding rm
  proof (rule clist_rep_update[OF r q])
    show "next_idxs ?c ! i = next_idxs c ! i" if "i \<notin> set (Q q)" "i \<notin> set (as @ bs)" for i
    proof -
      have "i \<noteq> p" "i \<noteq> n" using that(1) p(2) n by auto
      then show ?thesis by simp
    qed
    show "next_idxs ?c ! i = sentinel" if "i \<in> set (Q q)" "i \<notin> set (as @ bs)" for i
      using that ab nl by simp
    show "set (as @ bs) \<inter> set (Q q') = {}" if "q' \<noteq> q" for q'
      using clist_repD(6)[OF r that] ab by auto
  qed (use d b ring in auto)
  ultimately show ?thesis by simp
qed

end
