(* ===== verification/RunQueue.thy ===== *)
theory RunQueue
  imports Clist
begin

section \<open>The run queue (\<open>ariel-os-runqueue/src/runqueue.rs\<close>)\<close>

text \<open>
  \<open>RunQueue<N_QUEUES, N_THREADS>\<close>: the circular lists of \<open>Clist\<close> plus a bit cache
  with one bit per non-empty queue.  \<open>usize\<close> is 32 bits wide, as on the microcontrollers the
  code runs on.  \<open>1 << n\<close> masks its shift amount, as the release profile does.
\<close>

definition usize_bits :: nat where
  "usize_bits = 32"

record runqueue =
  bitcache :: "32 word"
  queues :: clist

definition shl1 :: "nat \<Rightarrow> 32 word" where
  "shl1 n = push_bit (n mod usize_bits) 1"

text \<open>\<open>leading_zeros\<close>, scanned from the most significant bit.\<close>

fun leading_zeros_below :: "nat \<Rightarrow> 32 word \<Rightarrow> nat" where
  "leading_zeros_below 0 w = 0"
| "leading_zeros_below (Suc n) w = (if bit w n then 0 else Suc (leading_zeros_below n w))"

definition ffs :: "32 word \<Rightarrow> nat" where
  "ffs val = usize_bits - leading_zeros_below usize_bits val"

definition rq_new :: "nat \<Rightarrow> nat \<Rightarrow> runqueue" where
  "rq_new n_queues n_threads = \<lparr>bitcache = 0, queues = clist_new n_queues n_threads\<rparr>"

definition rq_add :: "runqueue \<Rightarrow> nat \<Rightarrow> nat \<Rightarrow> panic + runqueue" where
  "rq_add r n rq =
     bnd (clist_push (queues r) n rq) (\<lambda>c.
       Inr (r\<lparr>bitcache := bitcache r OR shl1 rq, queues := c\<rparr>))"

definition rq_peek_head :: "runqueue \<Rightarrow> nat \<Rightarrow> panic + nat option" where
  "rq_peek_head r rq = clist_peek_head (queues r) rq"

definition rq_clear_if_empty :: "runqueue \<Rightarrow> nat \<Rightarrow> panic + runqueue" where
  "rq_clear_if_empty r rq =
     bnd (clist_is_empty (queues r) rq) (\<lambda>e.
       Inr (if e then r\<lparr>bitcache := bitcache r AND NOT (shl1 rq)\<rparr> else r))"

definition rq_pop_head :: "runqueue \<Rightarrow> nat \<Rightarrow> nat \<Rightarrow> panic + runqueue" where
  "rq_pop_head r n rq =
     bnd (clist_pop_head (queues r) rq) (\<lambda>(c, popped).
     bnd (require (popped = Some n)) (\<lambda>_.
       rq_clear_if_empty (r\<lparr>queues := c\<rparr>) rq))"

definition rq_del :: "runqueue \<Rightarrow> nat \<Rightarrow> panic + runqueue" where
  "rq_del r n =
     bnd (clist_del (queues r) n) (\<lambda>(c, emptied).
       Inr (case emptied of
              Some rq \<Rightarrow> r\<lparr>bitcache := bitcache r AND NOT (shl1 rq), queues := c\<rparr>
            | None \<Rightarrow> r\<lparr>queues := c\<rparr>))"

definition rq_get_next_with_rq :: "runqueue \<Rightarrow> panic + (nat \<times> nat) option" where
  "rq_get_next_with_rq r =
     (let rq_ffs = ffs (bitcache r) in
      if rq_ffs = 0 then Inr None
      else let rq = as_u8 rq_ffs - 1 in
        bnd (clist_peek_head (queues r) rq) (\<lambda>h. Inr (map_option (\<lambda>t. (t, rq)) h)))"

definition rq_get_next :: "runqueue \<Rightarrow> panic + nat option" where
  "rq_get_next r = bnd (rq_get_next_with_rq r) (\<lambda>x. Inr (map_option fst x))"

definition rq_pop_next :: "runqueue \<Rightarrow> panic + runqueue \<times> nat option" where
  "rq_pop_next r =
     (let rq_ffs = ffs (bitcache r) in
      if rq_ffs = 0 then Inr (r, None)
      else let rq = as_u8 (rq_ffs - 1) in
        bnd (clist_pop_head (queues r) rq) (\<lambda>(c, head).
        bnd (rq_clear_if_empty (r\<lparr>queues := c\<rparr>) rq) (\<lambda>r'. Inr (r', head))))"

definition rq_advance :: "runqueue \<Rightarrow> nat \<Rightarrow> panic + runqueue \<times> bool" where
  "rq_advance r rq =
     bnd (clist_advance (queues r) rq) (\<lambda>(c, moved). Inr (r\<lparr>queues := c\<rparr>, moved))"

definition rq_is_empty :: "runqueue \<Rightarrow> nat \<Rightarrow> panic + bool" where
  "rq_is_empty r rq = clist_is_empty (queues r) rq"

subsection \<open>The iterator\<close>

record rq_iter =
  it_queues :: clist
  it_prev :: nat
  it_rq_head :: "nat option"
  it_bitcache :: "32 word"

text \<open>
  \<open>iter_from\<close> clears the higher priority queues with \<open>bitcache % (1 << (rq + 1))\<close>.
  A remainder by zero cannot happen: \<^const>\<open>shl1\<close> is never zero.
\<close>

definition rq_iter_from :: "runqueue \<Rightarrow> nat \<Rightarrow> nat \<Rightarrow> panic + rq_iter" where
  "rq_iter_from r start rq =
     bnd (clist_peek_head (queues r) rq) (\<lambda>h.
       Inr \<lparr>it_queues = queues r, it_prev = start, it_rq_head = h,
            it_bitcache = bitcache r mod shl1 (as_u8 (rq + 1))\<rparr>)"

text \<open>The \<open>u8\<close> subtraction \<open>ffs(..) as u8 - 1\<close> wraps to 255 when no bit is set.\<close>

definition rq_iter_next :: "rq_iter \<Rightarrow> panic + rq_iter \<times> nat option" where
  "rq_iter_next it =
     bnd (clist_peek_next (it_queues it) (it_prev it)) (\<lambda>nxt.
       case it_rq_head it of
         None \<Rightarrow> Inr (it, None)
       | Some h \<Rightarrow>
           if nxt = h then
             (let rq = as_u8 (as_u8 (ffs (it_bitcache it)) + 255);
                  bits = it_bitcache it AND NOT (shl1 rq)
              in bnd (if bits > 0
                      then clist_peek_head (it_queues it) (as_u8 (as_u8 (ffs bits) + 255))
                      else Inr None) (\<lambda>rh.
                   let it' = it\<lparr>it_bitcache := bits, it_rq_head := rh\<rparr> in
                   case rh of
                     None \<Rightarrow> Inr (it', None)
                   | Some n \<Rightarrow> Inr (it'\<lparr>it_prev := n\<rparr>, Some n)))
           else Inr (it\<lparr>it_prev := nxt\<rparr>, Some nxt))"

text \<open>
  \<open>Iterator::find\<close> calls \<open>next\<close> until an element satisfies the predicate.  \<open>None\<close>
  would be a search that never returns.
\<close>

partial_function (option) rq_iter_find :: "(nat \<Rightarrow> bool) \<Rightarrow> rq_iter \<Rightarrow> (panic + nat option) option" where
  "rq_iter_find P it =
     (case rq_iter_next it of
        Inl e \<Rightarrow> Some (Inl e)
      | Inr (it', None) \<Rightarrow> Some (Inr None)
      | Inr (it', Some t) \<Rightarrow> if P t then Some (Inr (Some t)) else rq_iter_find P it')"

definition rq_get_next_filter :: "(nat \<Rightarrow> bool) \<Rightarrow> runqueue \<Rightarrow> (panic + nat option) option" where
  "rq_get_next_filter P r =
     (case rq_get_next_with_rq r of
        Inl e \<Rightarrow> Some (Inl e)
      | Inr None \<Rightarrow> Some (Inr None)
      | Inr (Some (nxt, prio)) \<Rightarrow>
          if P nxt then Some (Inr (Some nxt))
          else (case rq_iter_from r nxt prio of
                  Inl e \<Rightarrow> Some (Inl e)
                | Inr it \<Rightarrow> rq_iter_find P it))"

subsection \<open>Bits\<close>

lemma leading_zeros_below_spec:
  "leading_zeros_below n w \<le> n \<and>
   (\<forall>j. n - leading_zeros_below n w \<le> j \<and> j < n \<longrightarrow> \<not> bit w j) \<and>
   (leading_zeros_below n w < n \<longrightarrow> bit w (n - leading_zeros_below n w - 1))"
proof (induction n)
  case (Suc n)
  then show ?case
    by (auto simp: Suc_diff_le less_Suc_eq)
qed simp

lemma ffs_le: "ffs w \<le> 32"
  by (simp add: ffs_def usize_bits_def)

lemma bit_above_32: "bit (w :: 32 word) j \<Longrightarrow> j < 32"
  using bit_imp_le_length[of w j] by simp

lemma ffs_eq_0: "ffs w = 0 \<longleftrightarrow> w = 0"
proof
  assume "ffs w = 0"
  then have "\<not> bit w j" for j
    using leading_zeros_below_spec[of 32 w] bit_above_32[of w j]
    by (auto simp: ffs_def usize_bits_def)
  then show "w = 0"
    by (simp add: bit_eq_iff)
next
  assume "w = 0"
  then have "leading_zeros_below n w = n" for n
    by (induction n) auto
  then show "ffs w = 0"
    by (simp add: ffs_def)
qed

lemma ffs_highest:
  assumes "bit w k" "\<And>j. k < j \<Longrightarrow> \<not> bit w j"
  shows "ffs w = Suc k"
proof -
  let ?z = "leading_zeros_below 32 w"
  have k: "k < 32"
    using assms(1) bit_above_32 by blast
  have "w \<noteq> 0"
    using assms(1) by auto
  then have z: "?z < 32"
    using ffs_eq_0[of w] by (simp add: ffs_def usize_bits_def)
  then have b: "bit w (32 - ?z - 1)" and n: "\<forall>j. 32 - ?z \<le> j \<and> j < 32 \<longrightarrow> \<not> bit w j"
    using leading_zeros_below_spec[of 32 w] by blast+
  have "\<not> 32 - ?z \<le> k"
    using n k assms(1) by blast
  moreover have "\<not> k < 32 - ?z - 1"
    using b assms(2) by blast
  ultimately show ?thesis
    using z by (simp add: ffs_def usize_bits_def)
qed

lemma bit_shl1: "k < 32 \<Longrightarrow> bit (shl1 k) j \<longleftrightarrow> j = k"
  by (auto simp: shl1_def usize_bits_def bit_exp_iff possible_bit_word)

lemma shl1_mod: "k < 32 \<Longrightarrow> bit (w mod shl1 k) j \<longleftrightarrow> bit w j \<and> j < k"
  by (simp add: shl1_def usize_bits_def push_bit_eq_mult bit_take_bit_iff conj_commute flip: take_bit_eq_mod)

subsection \<open>The queues a run queue stands for\<close>

text \<open>
  \<open>rq_rep n_queues n_threads r Q\<close>: the lists represent \<open>Q\<close> and the bit cache has exactly
  the bits of the non-empty queues.  \<open>ready_order n Q\<close> is the order in which threads of
  queues below \<open>n\<close> are ready: higher queues first, each queue from its head.
\<close>

definition rq_rep :: "nat \<Rightarrow> nat \<Rightarrow> runqueue \<Rightarrow> (nat \<Rightarrow> nat list) \<Rightarrow> bool" where
  "rq_rep n_queues n_threads r Q \<longleftrightarrow>
     clist_rep (queues r) Q \<and> length (tail (queues r)) = n_queues \<and>
     length (next_idxs (queues r)) = n_threads \<and> n_queues \<le> 32 \<and>
     (\<forall>j<32. bit (bitcache r) j \<longleftrightarrow> Q j \<noteq> [])"

definition ready_order :: "nat \<Rightarrow> (nat \<Rightarrow> nat list) \<Rightarrow> nat list" where
  "ready_order n Q = concat (map Q (rev [0..<n]))"

definition first_ready :: "nat \<Rightarrow> (nat \<Rightarrow> nat list) \<Rightarrow> nat option" where
  "first_ready n Q = (case ready_order n Q of [] \<Rightarrow> None | t # _ \<Rightarrow> Some t)"

lemma ready_order_Suc: "ready_order (Suc n) Q = Q n @ ready_order n Q"
  by (simp add: ready_order_def)

lemma ready_order_0 [simp]: "ready_order 0 Q = []"
  by (simp add: ready_order_def)

lemma ready_order_skip: "q \<le> n \<Longrightarrow> (\<And>j. q \<le> j \<Longrightarrow> j < n \<Longrightarrow> Q j = []) \<Longrightarrow> ready_order n Q = ready_order q Q"
proof (induction n)
  case (Suc n)
  then show ?case
    by (cases "q = Suc n") (auto simp: ready_order_Suc)
qed simp

lemma ready_order_highest:
  assumes "q < n" "\<And>j. q < j \<Longrightarrow> j < n \<Longrightarrow> Q j = []"
  shows "ready_order n Q = Q q @ ready_order q Q"
  using assms ready_order_skip[of "Suc q" n Q] by (simp add: ready_order_Suc)

lemma set_ready_order: "set (ready_order n Q) = (\<Union>q<n. set (Q q))"
  by (auto simp: ready_order_def)

lemma ready_order_Nil: "ready_order n Q = [] \<longleftrightarrow> (\<forall>q<n. Q q = [])"
  by (auto simp: ready_order_def)

lemma rq_repD:
  assumes "rq_rep nq nt r Q"
  shows "clist_rep (queues r) Q" "length (tail (queues r)) = nq"
    and "length (next_idxs (queues r)) = nt" "nq \<le> 32" "nt \<le> 255"
    and "j < 32 \<Longrightarrow> bit (bitcache r) j \<longleftrightarrow> Q j \<noteq> []"
    and "nq \<le> q \<Longrightarrow> Q q = []"
    and "distinct (Q q)" "set (Q q) \<subseteq> {..<nt}"
    and "p \<noteq> q \<Longrightarrow> set (Q p) \<inter> set (Q q) = {}"
  using assms clist_repD[of "queues r" Q] by (auto simp: rq_rep_def)

lemma rq_rep_queue_less: "rq_rep nq nt r Q \<Longrightarrow> Q q \<noteq> [] \<Longrightarrow> q < nq"
  using rq_repD(7) not_less by blast

lemma rq_rep_bit: "rq_rep nq nt r Q \<Longrightarrow> bit (bitcache r) j \<longleftrightarrow> Q j \<noteq> []"
  using rq_repD(4,6) rq_rep_queue_less bit_above_32[of "bitcache r" j] by (meson less_le_trans)

lemma rq_rep_same: "rq_rep nq nt r Q \<Longrightarrow> t \<in> set (Q p) \<Longrightarrow> t \<in> set (Q q) \<Longrightarrow> p = q"
  using clist_rep_same_queue rq_repD(1) by blast

lemma rq_rep_new: "nq \<le> 32 \<Longrightarrow> nt \<le> 255 \<Longrightarrow> rq_rep nq nt (rq_new nq nt) (\<lambda>_. [])"
  by (simp add: rq_rep_def rq_new_def clist_rep_new) (simp add: clist_new_def)

lemma shl1_or_bit: "k < 32 \<Longrightarrow> bit (w OR shl1 k) j \<longleftrightarrow> bit w j \<or> j = k"
  by (auto simp: bit_or_iff bit_shl1)

lemma shl1_clear_bit: "k < 32 \<Longrightarrow> bit (w AND NOT (shl1 k)) j \<longleftrightarrow> bit w j \<and> j \<noteq> k"
  using bit_above_32[of w j] by (auto simp: bit_and_iff bit_not_iff bit_shl1 possible_bit_word)

lemma rq_add_new:
  assumes r: "rq_rep nq nt r Q" and "n < nt" "\<forall>q. n \<notin> set (Q q)" "rq < nq"
  shows "\<exists>r'. rq_add r n rq = Inr r' \<and> rq_rep nq nt r' (Q(rq := Q rq @ [n]))"
proof -
  obtain c where c: "clist_push (queues r) n rq = Inr c" "clist_rep c (Q(rq := Q rq @ [n]))"
    "length (next_idxs c) = nt" "length (tail c) = nq"
    using clist_push_new[OF rq_repD(1)[OF r], of n rq] assms rq_repD(2,3)[OF r] by auto
  have "rq < 32"
    using assms(4) rq_repD(4)[OF r] by simp
  then show ?thesis
    using c rq_repD(4)[OF r] rq_rep_bit[OF r] by (simp add: rq_add_def rq_rep_def shl1_or_bit)
qed

lemma rq_add_same:
  assumes r: "rq_rep nq nt r Q" and "n \<in> set (Q rq)"
  shows "rq_add r n rq = Inr r"
proof -
  have "rq < 32"
    using rq_rep_queue_less[OF r, of rq] rq_repD(4)[OF r] assms(2) by fastforce
  then have "bitcache r OR shl1 rq = bitcache r"
  proof (intro bit_word_eqI)
    show "bit (bitcache r OR shl1 rq) j \<longleftrightarrow> bit (bitcache r) j" for j
      using \<open>rq < 32\<close> rq_rep_bit[OF r, of rq] assms(2) by (cases "j = rq") (auto simp: shl1_or_bit)
  qed
  then show ?thesis
    using clist_push_dup[OF rq_repD(1)[OF r] assms(2)] by (simp add: rq_add_def)
qed

lemma rq_peek_head_spec:
  "rq_rep nq nt r Q \<Longrightarrow> rq < nq \<Longrightarrow>
   rq_peek_head r rq = Inr (case Q rq of [] \<Rightarrow> None | h # _ \<Rightarrow> Some h)"
  by (simp add: rq_peek_head_def clist_peek_head_spec rq_repD(1,2))

lemma rq_is_empty_spec: "rq_rep nq nt r Q \<Longrightarrow> rq < nq \<Longrightarrow> rq_is_empty r rq = Inr (Q rq = [])"
  by (simp add: rq_is_empty_def clist_is_empty_spec rq_repD(1,2))

text \<open>Clearing the bit of a queue that became empty restores the cache.\<close>

lemma rq_clear_if_empty_spec:
  assumes "clist_rep c Q" "length (tail c) = nq" "length (next_idxs c) = nt" "nq \<le> 32" "rq < nq"
    and "queues r = c" "\<And>j. j < 32 \<Longrightarrow> j \<noteq> rq \<Longrightarrow> bit (bitcache r) j \<longleftrightarrow> Q j \<noteq> []"
    and "bit (bitcache r) rq"
  shows "\<exists>r'. rq_clear_if_empty r rq = Inr r' \<and> rq_rep nq nt r' Q"
  using assms by (auto simp: rq_clear_if_empty_def clist_is_empty_spec rq_rep_def shl1_clear_bit)

lemma rq_pop_head_spec:
  assumes r: "rq_rep nq nt r Q" and q: "Q rq = n # ys"
  shows "\<exists>r'. rq_pop_head r n rq = Inr r' \<and> rq_rep nq nt r' (Q(rq := ys))"
proof -
  have rq: "rq < nq"
    using rq_rep_queue_less[OF r] q by simp
  obtain c where c: "clist_pop_head (queues r) rq = Inr (c, Some n)" "clist_rep c (Q(rq := ys))"
    "length (next_idxs c) = nt" "length (tail c) = nq"
    using clist_pop_head_spec[OF rq_repD(1)[OF r] _ q] rq rq_repD(2,3)[OF r] by auto
  then show ?thesis
    using rq_clear_if_empty_spec[OF c(2,4,3) rq_repD(4)[OF r] rq, of "r\<lparr>queues := c\<rparr>"]
      rq_rep_bit[OF r] q by (simp add: rq_pop_head_def)
qed

lemma rq_pop_head_panics:
  assumes r: "rq_rep nq nt r Q" and rq: "rq < nq" and "\<And>ys. Q rq \<noteq> n # ys"
  shows "rq_pop_head r n rq = Inl AssertFailed"
proof (cases "Q rq")
  case Nil
  then show ?thesis
    using clist_pop_head_empty[OF rq_repD(1)[OF r], of rq] rq rq_repD(2)[OF r]
    by (simp add: rq_pop_head_def)
next
  case (Cons h ys)
  then show ?thesis
    using clist_pop_head_spec[OF rq_repD(1)[OF r] _ Cons] assms(3)[of ys] rq rq_repD(2)[OF r]
    by (auto simp: rq_pop_head_def)
qed

lemma rq_del_spec:
  assumes r: "rq_rep nq nt r Q" and n: "n < nt"
  shows "\<exists>r'. rq_del r n = Inr r' \<and> rq_rep nq nt r' (\<lambda>q. remove1 n (Q q))"
proof (cases "\<exists>q. n \<in> set (Q q)")
  case False
  then have "(\<lambda>q. remove1 n (Q q)) = Q"
    by (auto simp: remove1_idem)
  then show ?thesis
    using False clist_del_absent[OF rq_repD(1)[OF r], of n] r n rq_repD(3)[OF r]
    by (simp add: rq_del_def)
next
  case True
  then obtain q where q: "n \<in> set (Q q)" by blast
  have q32: "q < 32"
    using rq_rep_queue_less[OF r, of q] rq_repD(4)[OF r] q by fastforce
  have eq: "(\<lambda>p. remove1 n (Q p)) = Q(q := remove1 n (Q q))"
  proof
    fix p
    have "p \<noteq> q \<Longrightarrow> n \<notin> set (Q p)"
      using rq_rep_same[OF r q] by blast
    then show "remove1 n (Q p) = (Q(q := remove1 n (Q q))) p"
      by (simp add: remove1_idem)
  qed
  obtain c where c: "clist_del (queues r) n = Inr (c, if Q q = [n] then Some q else None)"
    "clist_rep c (Q(q := remove1 n (Q q)))" "length (next_idxs c) = nt" "length (tail c) = nq"
    using clist_del_spec[OF rq_repD(1)[OF r] q] rq_repD(2,3)[OF r] by auto
  have "remove1 n (Q q) = [] \<longleftrightarrow> Q q = [n]"
    using q by (cases "Q q") auto
  then show ?thesis
    unfolding eq using c rq_repD(4)[OF r] q32 q
    by (cases "Q q = [n]") (auto simp: rq_del_def rq_rep_def shl1_clear_bit rq_rep_bit[OF r])
qed

lemma rq_advance_spec:
  assumes r: "rq_rep nq nt r Q" and rq: "rq < nq"
  shows "\<exists>r'. rq_advance r rq = Inr (r', 1 < length (Q rq)) \<and> rq_rep nq nt r' (Q(rq := rotate1 (Q rq)))"
  using clist_advance_spec[OF rq_repD(1)[OF r], of rq] rq rq_repD(2,3,4)[OF r] rq_rep_bit[OF r]
  by (auto simp: rq_advance_def rq_rep_def)

subsection \<open>Selecting the next thread\<close>

lemma rq_ffs:
  assumes r: "rq_rep nq nt r Q"
  shows "ffs (bitcache r) = 0 \<Longrightarrow> \<forall>q. Q q = []"
    and "ffs (bitcache r) = Suc k \<Longrightarrow> k < nq \<and> Q k \<noteq> [] \<and> (\<forall>j>k. Q j = [])"
proof -
  show "ffs (bitcache r) = 0 \<Longrightarrow> \<forall>q. Q q = []"
    using rq_rep_bit[OF r] by (auto simp: ffs_eq_0)
  assume f: "ffs (bitcache r) = Suc k"
  have ne: "\<exists>q. Q q \<noteq> []"
  proof (rule ccontr)
    assume "\<nexists>q. Q q \<noteq> []"
    then have "bitcache r = 0"
      using rq_rep_bit[OF r] by (intro bit_word_eqI) simp
    then show False
      using f ffs_eq_0[of "bitcache r"] by simp
  qed
  define m where "m = Max {q. Q q \<noteq> []}"
  have "{q. Q q \<noteq> []} \<subseteq> {..<nq}"
    using rq_rep_queue_less[OF r] by auto
  then have fin: "finite {q. Q q \<noteq> []}"
    using finite_subset by blast
  have "m \<in> {q. Q q \<noteq> []}"
    unfolding m_def using Max_in[OF fin] ne by blast
  then have m: "Q m \<noteq> []"
    by simp
  have above: "Q j = []" if "m < j" for j
  proof (rule ccontr)
    assume "Q j \<noteq> []"
    then show False
      using Max_ge[OF fin, of j] that unfolding m_def by simp
  qed
  have "ffs (bitcache r) = Suc m"
    by (rule ffs_highest) (simp_all add: rq_rep_bit[OF r] m above)
  then have "k = m"
    using f by simp
  then show "k < nq \<and> Q k \<noteq> [] \<and> (\<forall>j>k. Q j = [])"
    using m above rq_rep_queue_less[OF r m] by blast
qed

lemma rq_rep_highest:
  assumes "rq_rep nq nt r Q"
  obtains (idle) "\<forall>q. Q q = []" "ffs (bitcache r) = 0" "ready_order nq Q = []"
    | (ready) k t ts where "Q k = t # ts" "\<forall>j>k. Q j = []" "k < nq" "ffs (bitcache r) = Suc k"
        "ready_order nq Q = t # ts @ ready_order k Q"
proof (cases "ffs (bitcache r)")
  case 0
  then show ?thesis
    using rq_ffs(1)[OF assms] idle by (simp add: ready_order_Nil)
next
  case (Suc k)
  then have k: "k < nq" "Q k \<noteq> []" "\<forall>j>k. Q j = []"
    using rq_ffs(2)[OF assms] by blast+
  then obtain t ts where "Q k = t # ts"
    by (cases "Q k") auto
  then show ?thesis
    using ready k Suc ready_order_highest[of k nq Q] by simp
qed

lemma rq_get_next_with_rq_idle: "ffs (bitcache r) = 0 \<Longrightarrow> rq_get_next_with_rq r = Inr None"
  by (simp add: rq_get_next_with_rq_def)

lemma rq_get_next_with_rq_ready:
  assumes r: "rq_rep nq nt r Q" and k: "Q k = t # ts" "ffs (bitcache r) = Suc k"
  shows "rq_get_next_with_rq r = Inr (Some (t, k))"
proof -
  have "k < nq"
    using rq_rep_queue_less[OF r] k by simp
  then have "clist_peek_head (queues r) k = Inr (Some t)" "k < 32"
    using clist_peek_head_spec[OF rq_repD(1)[OF r], of k] k rq_repD(2,4)[OF r] by simp_all
  then show ?thesis
    using k by (simp add: rq_get_next_with_rq_def)
qed

lemma rq_get_next_spec:
  assumes r: "rq_rep nq nt r Q"
  shows "rq_get_next r = Inr (first_ready nq Q)"
  by (rule rq_rep_highest[OF r])
    (simp_all add: rq_get_next_def rq_get_next_with_rq_idle rq_get_next_with_rq_ready[OF r] first_ready_def)

lemma rq_pop_next_spec:
  assumes r: "rq_rep nq nt r Q"
  shows "\<exists>r'. rq_pop_next r = Inr (r', first_ready nq Q) \<and>
    rq_rep nq nt r' (case first_ready nq Q of None \<Rightarrow> Q | Some t \<Rightarrow> (\<lambda>q. remove1 t (Q q)))"
proof (rule rq_rep_highest[OF r])
  assume "ffs (bitcache r) = 0" "ready_order nq Q = []"
  then show ?thesis
    using r by (simp add: rq_pop_next_def first_ready_def)
next
  fix k t ts
  assume k: "Q k = t # ts" "k < nq" "ffs (bitcache r) = Suc k"
    and o: "ready_order nq Q = t # ts @ ready_order k Q"
  have k32: "k < 32"
    using k rq_repD(4)[OF r] by simp
  obtain c where c: "clist_pop_head (queues r) k = Inr (c, Some t)" "clist_rep c (Q(k := ts))"
    "length (next_idxs c) = nt" "length (tail c) = nq"
    using clist_pop_head_spec[OF rq_repD(1)[OF r] _ k(1)] k(2) rq_repD(2,3)[OF r] by auto
  obtain r' where r': "rq_clear_if_empty (r\<lparr>queues := c\<rparr>) k = Inr r'" "rq_rep nq nt r' (Q(k := ts))"
    using rq_clear_if_empty_spec[OF c(2,4,3) rq_repD(4)[OF r] k(2), of "r\<lparr>queues := c\<rparr>"]
      rq_rep_bit[OF r] k(1) by auto
  have "(\<lambda>q. remove1 t (Q q)) = Q(k := ts)"
  proof
    fix q
    have "q \<noteq> k \<Longrightarrow> t \<notin> set (Q q)"
      using rq_rep_same[OF r, of t k q] k(1) by auto
    then show "remove1 t (Q q) = (Q(k := ts)) q"
      using k(1) by (simp add: remove1_idem)
  qed
  then show ?thesis
    using c(1) r' k(3) k32 o by (simp add: rq_pop_next_def first_ready_def)
qed

subsection \<open>The iterator visits the ready threads in order\<close>

text \<open>
  \<open>it_rep nq nt it Q q rest\<close>: the iterator stands in queue \<open>q\<close>, just after a thread, and
  has \<open>rest\<close> to visit: what follows in this queue and then all lower queues.
\<close>

definition it_rep :: "nat \<Rightarrow> rq_iter \<Rightarrow> (nat \<Rightarrow> nat list) \<Rightarrow> nat \<Rightarrow> nat list \<Rightarrow> bool" where
  "it_rep nq it Q q rest \<longleftrightarrow>
     clist_rep (it_queues it) Q \<and> length (tail (it_queues it)) = nq \<and> q < nq \<and> nq \<le> 32 \<and>
     it_rq_head it = Some (hd (Q q)) \<and>
     (\<forall>j. bit (it_bitcache it) j \<longleftrightarrow> j \<le> q \<and> Q j \<noteq> []) \<and>
     (\<exists>xs ys. Q q = xs @ it_prev it # ys \<and> rest = ys @ ready_order q Q)"

lemma ready_order_next:
  assumes "ready_order q Q \<noteq> []"
  obtains m t ts where "m < q" "Q m = t # ts" "\<forall>j. m < j \<and> j < q \<longrightarrow> Q j = []"
    "ready_order q Q = t # ts @ ready_order m Q"
proof -
  define m where "m = Max {j. j < q \<and> Q j \<noteq> []}"
  have fin: "finite {j. j < q \<and> Q j \<noteq> []}" by simp
  have "m \<in> {j. j < q \<and> Q j \<noteq> []}"
    unfolding m_def using Max_in[OF fin] assms by (auto simp: ready_order_Nil)
  then have m: "m < q" "Q m \<noteq> []"
    by auto
  have top: "Q j = []" if "m < j" "j < q" for j
    using Max_ge[OF fin, of j] that unfolding m_def by fastforce
  obtain t ts where t: "Q m = t # ts"
    using m(2) by (cases "Q m") auto
  have "ready_order q Q = t # ts @ ready_order m Q"
    using ready_order_highest[OF m(1), of Q] top t by simp
  then show ?thesis
    using that[OF m(1) t] top by blast
qed

lemma it_rep_next_same:
  assumes rep: "it_rep nq it Q q rest" and Q: "Q q = xs @ it_prev it # y # zs" "rest = y # zs @ ready_order q Q"
  shows "rq_iter_next it = Inr (it\<lparr>it_prev := y\<rparr>, Some y)" "it_rep nq (it\<lparr>it_prev := y\<rparr>) Q q (zs @ ready_order q Q)"
proof -
  have c: "clist_rep (it_queues it) Q" and h: "it_rq_head it = Some (hd (Q q))"
    using rep by (simp_all add: it_rep_def)
  have "clist_peek_next (it_queues it) (it_prev it) = Inr y"
    using clist_peek_next_spec[OF c, of q xs _ y zs] Q(1) by simp
  moreover have "y \<noteq> hd (Q q)"
    using clist_repD(4)[OF c, of q] Q(1) by (cases xs) auto
  ultimately show "rq_iter_next it = Inr (it\<lparr>it_prev := y\<rparr>, Some y)"
    using h by (simp add: rq_iter_next_def)
  show "it_rep nq (it\<lparr>it_prev := y\<rparr>) Q q (zs @ ready_order q Q)"
    using rep Q(1) unfolding it_rep_def
    by (auto intro!: exI[of _ "xs @ [it_prev it]"] exI[of _ zs])
qed

lemma it_rep_next_lower:
  assumes rep: "it_rep nq it Q q rest" and Q: "Q q = xs @ [it_prev it]"
  shows "(ready_order q Q = [] \<and> (\<exists>it'. rq_iter_next it = Inr (it', None))) \<or>
    (\<exists>t rest' it' q'. ready_order q Q = t # rest' \<and> rq_iter_next it = Inr (it', Some t) \<and> it_rep nq it' Q q' rest')"
proof -
  have c: "clist_rep (it_queues it) Q" "length (tail (it_queues it)) = nq" and q: "q < nq" "nq \<le> 32"
    and h: "it_rq_head it = Some (hd (Q q))" and b: "\<And>j. bit (it_bitcache it) j \<longleftrightarrow> j \<le> q \<and> Q j \<noteq> []"
    using rep unfolding it_rep_def by blast+
  have n: "clist_peek_next (it_queues it) (it_prev it) = Inr (hd (Q q))"
    using clist_peek_next_last[OF c(1), of q] Q by simp
  have "ffs (it_bitcache it) = Suc q"
    by (rule ffs_highest) (use b Q in auto)
  then have rq: "as_u8 (as_u8 (ffs (it_bitcache it)) + 255) = q"
    using q by (simp add: as_u8_def)
  let ?bits = "it_bitcache it AND NOT (shl1 q)"
  have bits: "bit ?bits j \<longleftrightarrow> j < q \<and> Q j \<noteq> []" for j
    using b[of j] q by (auto simp: shl1_clear_bit)
  show ?thesis
  proof (cases "ready_order q Q = []")
    case True
    then have "?bits = 0"
      by (intro bit_word_eqI) (auto simp: bits ready_order_Nil)
    then show ?thesis
      using n h rq True by (simp add: rq_iter_next_def Let_def)
  next
    case False
    then obtain m t ts where m: "m < q" "Q m = t # ts" and top: "\<forall>j. m < j \<and> j < q \<longrightarrow> Q j = []"
      and order: "ready_order q Q = t # ts @ ready_order m Q"
      by (rule ready_order_next)
    have f: "ffs ?bits = Suc m"
      by (rule ffs_highest) (use bits m top in auto)
    then have "?bits > 0"
      using ffs_eq_0[of ?bits] by (metis nat.simps(3) word_neq_0_conv)
    moreover have "as_u8 (as_u8 (ffs ?bits) + 255) = m"
      using f m(1) q by (simp add: as_u8_def)
    moreover have "clist_peek_head (it_queues it) m = Inr (Some t)"
      using clist_peek_head_spec[OF c(1), of m] c(2) m q(1) by simp
    ultimately have "rq_iter_next it =
        Inr (it\<lparr>it_bitcache := ?bits, it_rq_head := Some t, it_prev := t\<rparr>, Some t)"
      using n h rq by (simp add: rq_iter_next_def Let_def)
    moreover have "bit ?bits j \<longleftrightarrow> j \<le> m \<and> Q j \<noteq> []" for j
      using bits[of j] m(1) top by (cases "j \<le> m") auto
    then have "it_rep nq (it\<lparr>it_bitcache := ?bits, it_rq_head := Some t, it_prev := t\<rparr>) Q m (ts @ ready_order m Q)"
      unfolding it_rep_def using c q m by (auto intro!: exI[of _ "[]"] exI[of _ ts])
    ultimately show ?thesis
      using order by auto
  qed
qed

lemma it_rep_next:
  assumes rep: "it_rep nq it Q q rest"
  shows "(rest = [] \<and> (\<exists>it'. rq_iter_next it = Inr (it', None))) \<or>
    (\<exists>t rest' it' q'. rest = t # rest' \<and> rq_iter_next it = Inr (it', Some t) \<and> it_rep nq it' Q q' rest')"
proof -
  obtain xs ys where Q: "Q q = xs @ it_prev it # ys" "rest = ys @ ready_order q Q"
    using rep unfolding it_rep_def by blast
  show ?thesis
  proof (cases ys)
    case (Cons y zs)
    then show ?thesis
      using it_rep_next_same[OF rep, of xs y zs] Q by auto
  next
    case Nil
    then show ?thesis
      using it_rep_next_lower[OF rep, of xs] Q by simp
  qed
qed

lemma rq_iter_find_spec: "it_rep nq it Q q rest \<Longrightarrow> rq_iter_find P it = Some (Inr (find P rest))"
proof (induction rest arbitrary: it q)
  case Nil
  then show ?case
    using it_rep_next[OF Nil] by (auto simp: rq_iter_find.simps[of P it])
next
  case (Cons t rest)
  then show ?case
    using it_rep_next[OF Cons.prems] by (auto simp: rq_iter_find.simps[of P it])
qed

text \<open>
  \<open>iter_from\<close> masks the bit cache with \<open>1 << (rq + 1)\<close>, which overflows for queue 31:
  the search is complete for run queues of at most 31 priority levels.
\<close>

lemma rq_get_next_filter_spec:
  assumes r: "rq_rep nq nt r Q" and nq: "nq \<le> 31"
  shows "rq_get_next_filter P r = Some (Inr (find P (ready_order nq Q)))"
proof (rule rq_rep_highest[OF r])
  assume "ffs (bitcache r) = 0" "ready_order nq Q = []"
  then show ?thesis
    using rq_get_next_with_rq_idle by (simp add: rq_get_next_filter_def)
next
  fix k t ts
  assume k: "Q k = t # ts" "\<forall>j>k. Q j = []" "k < nq" "ffs (bitcache r) = Suc k"
    and o: "ready_order nq Q = t # ts @ ready_order k Q"
  have g: "rq_get_next_with_rq r = Inr (Some (t, k))"
    using rq_get_next_with_rq_ready[OF r k(1,4)] .
  have "clist_peek_head (queues r) k = Inr (Some t)"
    using clist_peek_head_spec[OF rq_repD(1)[OF r], of k] k rq_repD(2)[OF r] by simp
  moreover define it where "it = \<lparr>it_queues = queues r, it_prev = t, it_rq_head = Some t,
    it_bitcache = bitcache r mod shl1 (Suc k)\<rparr>"
  ultimately have it: "rq_iter_from r t k = Inr it"
    using k(3) nq by (simp add: rq_iter_from_def)
  have "bit (it_bitcache it) j \<longleftrightarrow> j \<le> k \<and> Q j \<noteq> []" for j
    using k(3) nq rq_rep_bit[OF r] by (auto simp: shl1_mod it_def)
  then have "it_rep nq it Q k (ts @ ready_order k Q)"
    unfolding it_rep_def using k rq_repD(1,2,4)[OF r]
    by (auto simp: it_def intro!: exI[of _ "[]"] exI[of _ ts])
  from rq_iter_find_spec[OF this, of P] show ?thesis
    using g it o by (simp add: rq_get_next_filter_def)
qed

subsection \<open>The interface the scheduler relies on\<close>

text \<open>
  A ready queue with \<open>nq\<close> priority levels for threads below \<open>nt\<close>.  The laws say what each
  operation does to the represented queues; the lemmas are what a scheduler needs from them.
\<close>

lemma first_ready_cases:
  obtains (idle) "first_ready n Q = None" "\<forall>q<n. Q q = []"
    | (ready) k t ts where "first_ready n Q = Some t" "k < n" "Q k = t # ts" "\<forall>j<n. k < j \<longrightarrow> Q j = []"
proof (cases "\<forall>q<n. Q q = []")
  case True
  then show ?thesis
    using idle ready_order_Nil[of n Q] by (simp add: first_ready_def)
next
  case False
  define k where "k = Max {q. q < n \<and> Q q \<noteq> []}"
  have fin: "finite {q. q < n \<and> Q q \<noteq> []}" by simp
  have "k \<in> {q. q < n \<and> Q q \<noteq> []}"
    unfolding k_def using Max_in[OF fin] False by blast
  then have k: "k < n" "Q k \<noteq> []" by auto
  have above: "Q j = []" if "j < n" "k < j" for j
    using Max_ge[OF fin, of j] that unfolding k_def by fastforce
  obtain t ts where t: "Q k = t # ts"
    using k(2) by (cases "Q k") auto
  then have "first_ready n Q = Some t"
    using ready_order_highest[OF k(1), of Q] above by (simp add: first_ready_def)
  then show ?thesis
    using ready t k(1) above by blast
qed

lemma first_readyI:
  assumes "k < n" "Q k = t # ts" "\<And>j. j < n \<Longrightarrow> k < j \<Longrightarrow> Q j = []"
  shows "first_ready n Q = Some t"
  using ready_order_highest[OF assms(1), of Q] assms(2,3) by (simp add: first_ready_def)

lemma first_ready_Some:
  assumes "first_ready n Q = Some t"
  obtains k ts where "k < n" "Q k = t # ts" "\<forall>j<n. k < j \<longrightarrow> Q j = []"
  using assms by (cases rule: first_ready_cases[of n Q]) auto

lemma first_ready_None: "first_ready n Q = None \<longleftrightarrow> (\<forall>q<n. Q q = [])"
  by (cases rule: first_ready_cases[of n Q]) auto

locale ready_queue =
  fixes rep :: "'q \<Rightarrow> (nat \<Rightarrow> nat list) \<Rightarrow> bool"
    and nq :: nat and nt :: nat
    and add :: "'q \<Rightarrow> nat \<Rightarrow> nat \<Rightarrow> 'e + 'q"
    and peek_head :: "'q \<Rightarrow> nat \<Rightarrow> 'e + nat option"
    and pop_head :: "'q \<Rightarrow> nat \<Rightarrow> nat \<Rightarrow> 'e + 'q"
    and del :: "'q \<Rightarrow> nat \<Rightarrow> 'e + 'q"
    and advance :: "'q \<Rightarrow> nat \<Rightarrow> 'e + 'q \<times> bool"
    and get_next :: "'q \<Rightarrow> 'e + nat option"
  assumes rep_wf: "rep r Q \<Longrightarrow> distinct (Q q) \<and> set (Q q) \<subseteq> {..<nt} \<and> (nq \<le> q \<longrightarrow> Q q = [])"
    and rep_disjoint: "rep r Q \<Longrightarrow> p \<noteq> q \<Longrightarrow> set (Q p) \<inter> set (Q q) = {}"
    and add_new: "rep r Q \<Longrightarrow> n < nt \<Longrightarrow> \<forall>q. n \<notin> set (Q q) \<Longrightarrow> p < nq \<Longrightarrow>
      \<exists>r'. add r n p = Inr r' \<and> rep r' (Q(p := Q p @ [n]))"
    and add_same: "rep r Q \<Longrightarrow> n \<in> set (Q p) \<Longrightarrow> add r n p = Inr r"
    and peek_head: "rep r Q \<Longrightarrow> p < nq \<Longrightarrow>
      peek_head r p = Inr (case Q p of [] \<Rightarrow> None | h # _ \<Rightarrow> Some h)"
    and pop_head: "rep r Q \<Longrightarrow> Q p = n # ys \<Longrightarrow> \<exists>r'. pop_head r n p = Inr r' \<and> rep r' (Q(p := ys))"
    and del: "rep r Q \<Longrightarrow> n < nt \<Longrightarrow> \<exists>r'. del r n = Inr r' \<and> rep r' (\<lambda>q. remove1 n (Q q))"
    and advance: "rep r Q \<Longrightarrow> p < nq \<Longrightarrow>
      \<exists>r'. advance r p = Inr (r', 1 < length (Q p)) \<and> rep r' (Q(p := rotate1 (Q p)))"
    and get_next: "rep r Q \<Longrightarrow> get_next r = Inr (first_ready nq Q)"
begin

lemma in_one_queue: "rep r Q \<Longrightarrow> t \<in> set (Q p) \<Longrightarrow> t \<in> set (Q q) \<Longrightarrow> p = q"
  using rep_disjoint by (metis disjoint_iff)

lemma queue_less: "rep r Q \<Longrightarrow> t \<in> set (Q p) \<Longrightarrow> p < nq \<and> t < nt"
  using rep_wf[of r Q p] by (cases "nq \<le> p") auto

text \<open>Adding twice is adding once: the thread keeps its place.\<close>

lemma add_idem:
  assumes "rep r Q" "n < nt" "\<forall>q. n \<notin> set (Q q)" "p < nq"
  shows "bnd (add r n p) (\<lambda>r'. add r' n p) = add r n p"
proof -
  obtain r' where r': "add r n p = Inr r'" "rep r' (Q(p := Q p @ [n]))"
    using add_new[OF assms] by blast
  then show ?thesis
    using add_same[OF r'(2), of n p] by simp
qed

text \<open>A thread that is appended to a queue runs next only if nothing as high is ready.\<close>

lemma next_after_add:
  assumes "first_ready nq Q = Some c" "c \<in> set (Q k)" "rep r Q" "p \<le> k"
  shows "first_ready nq (Q(p := Q p @ [n])) = Some c"
proof -
  obtain j ts where j: "j < nq" "Q j = c # ts" "\<forall>i<nq. j < i \<longrightarrow> Q i = []"
    using first_ready_Some[OF assms(1)] by blast
  have "j = k"
    using in_one_queue[OF assms(3), of c j k] j(2) assms(2) by simp
  then show ?thesis
    using j assms(4) by (intro first_readyI[of j _ _ _ "if p = j then ts @ [n] else ts"]) auto
qed

lemma next_after_add_higher:
  assumes "first_ready nq Q = Some c" "c \<in> set (Q k)" "rep r Q" "k < p" "p < nq"
  shows "first_ready nq (Q(p := Q p @ [n])) = Some n"
proof -
  obtain j ts where j: "j < nq" "Q j = c # ts" "\<forall>i<nq. j < i \<longrightarrow> Q i = []"
    using first_ready_Some[OF assms(1)] by blast
  have "j = k"
    using in_one_queue[OF assms(3), of c j k] j(2) assms(2) by simp
  then show ?thesis
    using j assms(4,5) by (intro first_readyI[of p _ _ _ "[]"]) auto
qed

lemma next_after_remove:
  assumes "first_ready nq Q = Some c" "t \<noteq> c"
  shows "first_ready nq (Q(p := remove1 t (Q p))) = Some c"
proof -
  obtain j ts where j: "j < nq" "Q j = c # ts" "\<forall>i<nq. j < i \<longrightarrow> Q i = []"
    using first_ready_Some[OF assms(1)] by blast
  then show ?thesis
    using assms(2) by (intro first_readyI[of j _ _ _ "if p = j then remove1 t ts else ts"]) auto
qed

text \<open>A thread that is moved down or beside does not overtake, one that moves up stays first.\<close>

lemma next_after_move:
  assumes "rep r Q" "first_ready nq Q = Some c" "c \<in> set (Q k)" "t \<noteq> c" "p' \<le> k" "p' \<noteq> p" "t \<in> set (Q p)"
  shows "first_ready nq (Q(p := remove1 t (Q p), p' := Q p' @ [t])) = Some c"
proof -
  obtain j ts where j: "j < nq" "Q j = c # ts" "\<forall>i<nq. j < i \<longrightarrow> Q i = []"
    using first_ready_Some[OF assms(2)] by blast
  have "j = k"
    using in_one_queue[OF assms(1), of c j k] j(2) assms(3) by simp
  then show ?thesis
    using j assms(4-6)
    by (intro first_readyI[of j _ _ _ "if p' = j then ts @ [t] else if p = j then remove1 t ts else ts"]) auto
qed

lemma next_after_raise:
  assumes "rep r Q" "first_ready nq Q = Some c" "c \<in> set (Q k)" "k < p'" "p' < nq"
  shows "first_ready nq (Q(k := remove1 c (Q k), p' := Q p' @ [c])) = Some c"
proof -
  obtain j ts where j: "j < nq" "Q j = c # ts" "\<forall>i<nq. j < i \<longrightarrow> Q i = []"
    using first_ready_Some[OF assms(2)] by blast
  have "j = k"
    using in_one_queue[OF assms(1), of c j k] j(2) assms(3) by simp
  then show ?thesis
    using j assms(4,5) by (intro first_readyI[of p' _ _ _ "[]"]) auto
qed

text \<open>Taking a thread out, by \<open>pop_head\<close> when it is a head and by \<open>del\<close> otherwise.\<close>

lemma take_out:
  assumes "rep r Q" "t \<in> set (Q p)"
  shows "\<exists>r'. bnd (peek_head r p) (\<lambda>h. if h = Some t then pop_head r t p else del r t) = Inr r'
    \<and> rep r' (Q(p := remove1 t (Q p)))"
proof (cases "\<exists>ys. Q p = t # ys")
  case True
  then obtain ys where "Q p = t # ys" by blast
  then show ?thesis
    using pop_head[OF assms(1)] peek_head[OF assms(1), of p] queue_less[OF assms] by auto
next
  case False
  then have "peek_head r p = Inr (case Q p of [] \<Rightarrow> None | h # _ \<Rightarrow> Some h)"
    and h: "(case Q p of [] \<Rightarrow> None | h # _ \<Rightarrow> Some h) \<noteq> Some t"
    using peek_head[OF assms(1), of p] queue_less[OF assms] by (auto split: list.splits)
  moreover have "(\<lambda>q. remove1 t (Q q)) = Q(p := remove1 t (Q p))"
  proof
    fix q
    have "q \<noteq> p \<Longrightarrow> t \<notin> set (Q q)"
      using in_one_queue[OF assms] by blast
    then show "remove1 t (Q q) = (Q(p := remove1 t (Q p))) q"
      by (simp add: remove1_idem)
  qed
  ultimately show ?thesis
    using del[OF assms(1), of t] queue_less[OF assms] by auto
qed

text \<open>Moving a thread to the tail of another queue.\<close>

lemma move:
  assumes "rep r Q" "t \<in> set (Q p)" "p' < nq" "p' \<noteq> p"
  shows "\<exists>r'. bnd (bnd (peek_head r p) (\<lambda>h. if h = Some t then pop_head r t p else del r t))
      (\<lambda>r. add r t p') = Inr r' \<and> rep r' (Q(p := remove1 t (Q p), p' := Q p' @ [t]))"
proof -
  obtain r1 where r1: "bnd (peek_head r p) (\<lambda>h. if h = Some t then pop_head r t p else del r t) = Inr r1"
    "rep r1 (Q(p := remove1 t (Q p)))"
    using take_out[OF assms(1,2)] by blast
  have "t \<notin> set ((Q(p := remove1 t (Q p))) q)" for q
    using in_one_queue[OF assms(1,2), of q] rep_wf[OF assms(1), of p] by (cases "q = p") auto
  then obtain r' where "add r1 t p' = Inr r'"
    "rep r' (Q(p := remove1 t (Q p), p' := (Q(p := remove1 t (Q p))) p' @ [t]))"
    using add_new[OF r1(2), of t p'] queue_less[OF assms(1,2)] assms(3) by blast
  then show ?thesis
    using r1(1) assms(4) by simp
qed

end

interpretation rq: ready_queue "rq_rep nq nt" nq nt rq_add rq_peek_head rq_pop_head rq_del rq_advance rq_get_next
  for nq nt
proof unfold_locales
  fix r :: runqueue and Q :: "nat \<Rightarrow> nat list" and p q :: nat
  assume r: "rq_rep nq nt r Q"
  show "distinct (Q q) \<and> set (Q q) \<subseteq> {..<nt} \<and> (nq \<le> q \<longrightarrow> Q q = [])"
    using rq_repD(7-9)[OF r] by blast
  show "set (Q p) \<inter> set (Q q) = {}" if "p \<noteq> q"
    using rq_repD(10)[OF r that] .
qed (auto simp: rq_add_same rq_peek_head_spec rq_get_next_spec simp del: One_nat_def
    intro: rq_add_new rq_pop_head_spec rq_del_spec rq_advance_spec)

subsection \<open>Draining and searching a run queue\<close>

primrec pop_times :: "nat \<Rightarrow> runqueue \<Rightarrow> panic + runqueue \<times> nat list" where
  "pop_times 0 r = Inr (r, [])"
| "pop_times (Suc n) r =
     bnd (rq_pop_next r) (\<lambda>(r, t). bnd (pop_times n r) (\<lambda>(r, ts). Inr (r, case t of Some t \<Rightarrow> t # ts | None \<Rightarrow> ts)))"

lemma ready_order_pop:
  assumes "rq_rep nq nt r Q" "ready_order nq Q = t # rest"
  shows "ready_order nq (\<lambda>q. remove1 t (Q q)) = rest"
proof (rule rq_rep_highest[OF assms(1)])
  assume "ready_order nq Q = []"
  then show ?thesis
    using assms(2) by simp
next
  fix k s ss
  assume k: "Q k = s # ss" "\<forall>j>k. Q j = []" "k < nq" and o: "ready_order nq Q = s # ss @ ready_order k Q"
  have st: "s = t" "rest = ss @ ready_order k Q"
    using o assms(2) by simp_all
  have other: "remove1 t (Q q) = Q q" if "q \<noteq> k" for q
    using rq_rep_same[OF assms(1), of t k q] k(1) st(1) that by (auto intro: remove1_idem)
  have "ready_order k (\<lambda>q. remove1 t (Q q)) = ready_order k Q"
    unfolding ready_order_def by (intro arg_cong[where f = concat] map_cong refl other) auto
  moreover have "ready_order nq (\<lambda>q. remove1 t (Q q)) = ready_order (Suc k) (\<lambda>q. remove1 t (Q q))"
    using k(2,3) by (intro ready_order_skip) auto
  ultimately show ?thesis
    using k(1) st by (simp add: ready_order_Suc)
qed

lemma pop_times_order:
  "rq_rep nq nt r Q \<Longrightarrow> ready_order nq Q = ts \<Longrightarrow>
   \<exists>r' Q'. pop_times (length ts) r = Inr (r', ts) \<and> rq_rep nq nt r' Q' \<and> ready_order nq Q' = []"
proof (induction ts arbitrary: r Q)
  case (Cons t ts)
  have f: "first_ready nq Q = Some t"
    using Cons.prems(2) by (simp add: first_ready_def)
  then obtain r1 where r1: "rq_pop_next r = Inr (r1, Some t)" "rq_rep nq nt r1 (\<lambda>q. remove1 t (Q q))"
    using rq_pop_next_spec[OF Cons.prems(1)] by auto
  then show ?case
    using Cons.IH[OF r1(2) ready_order_pop[OF Cons.prems]] by auto
qed auto

text \<open>
  Popping repeatedly takes the threads out in priority order, higher queues first and each queue
  in the order it was filled, each thread once, without a panic; afterwards the queue answers that
  nothing is ready.
\<close>

theorem runqueue_drain:
  assumes "rq_rep nq nt r Q"
  shows "\<exists>r'. pop_times (length (ready_order nq Q)) r = Inr (r', ready_order nq Q) \<and> rq_get_next r' = Inr None"
  using pop_times_order[OF assms refl] by (auto simp: rq_get_next_spec first_ready_def)

text \<open>
  With at most 31 priority levels, \<open>get_next_filter\<close> returns, and gives the first thread in
  priority order that satisfies the filter, or \<open>None\<close> when no ready thread does.
\<close>

theorem runqueue_filter_complete:
  assumes "rq_rep nq nt r Q" "nq \<le> 31"
  shows "rq_get_next_filter P r = Some (Inr (find P (ready_order nq Q)))"
  using rq_get_next_filter_spec[OF assms] .

text \<open>
  With 32 priority levels, which the documentation allows, the filter misses threads: \<open>iter_from\<close>
  shifts by 32 when the highest queue is 31, the shift wraps to a mask of nothing, and a ready thread
  of a lower queue that satisfies the filter is not found.
\<close>

theorem runqueue_filter_overflow:
  "\<exists>r. bnd (rq_add (rq_new 32 4) 0 31) (\<lambda>r. rq_add r 1 3) = Inr r \<and>
     rq_peek_head r 3 = Inr (Some 1) \<and> rq_get_next_filter (\<lambda>t. t = 1) r = Some (Inr None)"
proof -
  define r where "r = projr (bnd (rq_add (rq_new 32 4) 0 31) (\<lambda>r. rq_add r 1 3))"
  have 1: "bnd (rq_add (rq_new 32 4) 0 31) (\<lambda>r. rq_add r 1 3) = Inr r"
    unfolding r_def by code_simp
  have 2: "rq_peek_head r 3 = Inr (Some 1)"
    unfolding r_def by code_simp
  have 3: "rq_get_next_with_rq r = Inr (Some (0, 31))"
    unfolding r_def by code_simp
  define it where "it = projr (rq_iter_from r 0 31)"
  have 4: "rq_iter_from r 0 31 = Inr it"
    unfolding it_def r_def by code_simp
  have 5: "snd (projr (rq_iter_next it)) = None \<and> isl (rq_iter_next it) = False"
    unfolding it_def r_def by code_simp
  then obtain it' where "rq_iter_next it = Inr (it', None)"
    by (cases "rq_iter_next it") auto
  then show ?thesis
    using 1 2 3 4 by (auto simp: rq_get_next_filter_def rq_iter_find.simps[of _ it])
qed

lemma two_ready:
  "\<exists>r. rq_rep 3 4 r ((\<lambda>_. [])(1 := [2], 2 := [3]))"
proof -
  obtain r1 where r1: "rq_rep 3 4 r1 ((\<lambda>_. [])(1 := [2]))"
    using rq_add_new[OF rq_rep_new[of 3 4], of 2 1] by auto
  then show ?thesis
    using rq_add_new[OF r1, of 3 2] by auto
qed

theorem runqueue_drain_witness: "\<exists>r r'. pop_times 2 r = Inr (r', [3, 2]) \<and> rq_get_next r' = Inr None"
proof -
  obtain r where "rq_rep 3 4 r ((\<lambda>_. [])(1 := [2], 2 := [3]))"
    using two_ready by blast
  from runqueue_drain[OF this] show ?thesis
    by (simp add: ready_order_def upt_rec numeral_eq_Suc del: pop_times.simps) blast
qed

theorem runqueue_filter_complete_witness: "\<exists>r. rq_get_next_filter (\<lambda>t. t < 3) r = Some (Inr (Some 2))"
proof -
  obtain r where "rq_rep 3 4 r ((\<lambda>_. [])(1 := [2], 2 := [3]))"
    using two_ready by blast
  from runqueue_filter_complete[OF this, of "\<lambda>t. t < 3"] show ?thesis
    by (auto simp: ready_order_def upt_rec)
qed

end
