(* ===== verification/Stack.thy ===== *)
theory Stack
  imports Prelude
begin

section \<open>Stack memory: painting, measuring and exception frames\<close>

text \<open>
  The part of memory the thread stacks live in, byte-addressed, and the code that writes to it:
  \<open>Thread::stack_paint_init\<close> of \<open>ariel-os-threads/src/thread.rs\<close>, the exception frame of
  \<open>Cpu::setup_stack\<close> (\<open>arch/cortex_m.rs\<close>) and the stack usage helpers of
  \<open>ariel-os-rt/src/stack.rs\<close>.  Addresses and \<open>usize\<close> are 32 bits wide and their
  arithmetic wraps, as in the release profile.
\<close>

type_synonym memory = "32 word \<Rightarrow> 8 word"

definition stack_paint_color :: "8 word" where
  "stack_paint_color = 0xCC"

text \<open>The loop \<open>for pos in lo..hi\<close> that writes the paint; it is the body of \<open>repaint\<close> too.\<close>

definition stack_paint_init :: "32 word \<Rightarrow> 32 word \<Rightarrow> memory \<Rightarrow> memory" where
  "stack_paint_init stack_lowest sp m =
     fold (\<lambda>pos m. m(word_of_nat pos := stack_paint_color)) [unat stack_lowest..<unat sp] m"

text \<open>\<open>write_volatile\<close> of a \<open>usize\<close> (little-endian), and what the hardware reads back.\<close>

definition write_word :: "memory \<Rightarrow> 32 word \<Rightarrow> 32 word \<Rightarrow> memory" where
  "write_word m a v =
     m(a := ucast v, a + 1 := ucast (drop_bit 8 v),
       a + 2 := ucast (drop_bit 16 v), a + 3 := ucast (drop_bit 24 v))"

definition read_word :: "memory \<Rightarrow> 32 word \<Rightarrow> 32 word" where
  "read_word m a =
     ucast (m a) OR push_bit 8 (ucast (m (a + 1))) OR
     push_bit 16 (ucast (m (a + 2))) OR push_bit 24 (ucast (m (a + 3)))"

fun write_words :: "memory \<Rightarrow> 32 word \<Rightarrow> 32 word list \<Rightarrow> memory" where
  "write_words m a [] = m"
| "write_words m a (v # vs) = write_words (write_word m a v) (a + 4) vs"

text \<open>The basic exception frame: \<open>r0\<close>-\<open>r3\<close>, \<open>r12\<close>, \<open>LR\<close>, \<open>PC\<close> and \<open>APSR\<close>.\<close>

definition exception_frame :: "32 word \<Rightarrow> 32 word option \<Rightarrow> 32 word \<Rightarrow> 32 word list" where
  "exception_frame func arg cleanup_fn =
     [case arg of None \<Rightarrow> 0 | Some a \<Rightarrow> a, 1, 2, 3, 12, cleanup_fn, func, 0x01000000]"

subsection \<open>The usage helpers of \<open>ariel-os-rt\<close>\<close>

record stack =
  lowest :: "32 word"
  highest :: "32 word"

definition stack_paint_ignore :: "32 word" where
  "stack_paint_ignore = 0"

definition stack_is_empty :: "stack \<Rightarrow> bool" where
  "stack_is_empty st \<longleftrightarrow> lowest st = highest st"

definition stack_default :: stack where
  "stack_default = \<lparr>lowest = 0, highest = 0\<rparr>"

text \<open>\<open>Stack::get\<close>, given the stack pointer and what \<open>arch::stack()\<close> returns.\<close>

definition stack_get :: "32 word \<Rightarrow> stack \<Rightarrow> panic + stack" where
  "stack_get sp st =
     (if stack_is_empty st then Inr st
      else bnd (require (lowest st \<le> highest st)) (\<lambda>_.
           bnd (require (lowest st \<le> sp \<and> sp \<le> highest st)) (\<lambda>_. Inr st)))"

definition stack_size :: "stack \<Rightarrow> 32 word" where
  "stack_size st = highest st - lowest st"

definition current_usage :: "32 word \<Rightarrow> stack \<Rightarrow> 32 word" where
  "current_usage sp st = highest st - (sp - stack_paint_ignore)"

definition current_free_space :: "32 word \<Rightarrow> stack \<Rightarrow> 32 word" where
  "current_free_space sp st = stack_size st - current_usage sp st"

function free_min_from :: "memory \<Rightarrow> nat \<Rightarrow> nat \<Rightarrow> 32 word \<Rightarrow> 32 word" where
  "free_min_from m pos hi free =
     (if pos < hi then
        (if m (word_of_nat pos) = 0xCC then free_min_from m (pos + 1) hi (free + 1) else free)
      else free)"
  by pat_completeness auto
termination
  by (relation "measure (\<lambda>(m, pos, hi, free). hi - pos)") auto

declare free_min_from.simps [simp del]

definition free_min :: "memory \<Rightarrow> stack \<Rightarrow> 32 word" where
  "free_min m st = free_min_from m (unat (lowest st)) (unat (highest st)) 0"

definition peak_usage :: "memory \<Rightarrow> stack \<Rightarrow> 32 word" where
  "peak_usage m st = stack_size st - free_min m st"

definition repaint :: "32 word \<Rightarrow> memory \<Rightarrow> stack \<Rightarrow> panic + memory" where
  "repaint sp0 m st =
     (let sp = sp0 - stack_paint_ignore in
      if stack_is_empty st then Inr m
      else bnd (require (lowest st \<le> sp \<and> sp \<le> highest st)) (\<lambda>_.
             Inr (stack_paint_init (lowest st) sp m)))"

subsection \<open>Painting\<close>

lemma paint_fold:
  "b \<le> 4294967296 \<Longrightarrow> fold (\<lambda>pos m. m(word_of_nat pos := c)) [a..<b] m (x :: 32 word) =
    (if a \<le> unat x \<and> unat x < b then c else m x)"
proof (induction b)
  case (Suc b)
  have "unat (word_of_nat b :: 32 word) = b"
    using Suc.prems by simp
  then have "x = word_of_nat b \<longleftrightarrow> unat x = b"
    by (auto intro: word_unat_eq_iff[THEN iffD2])
  then show ?case
    using Suc by (cases "a \<le> b") auto
qed simp

lemma stack_paint_init_spec:
  "stack_paint_init lo sp m x = (if lo \<le> x \<and> x < sp then stack_paint_color else m x)"
  using less_imp_le[OF unat32_less[of sp]] paint_fold[of "unat sp" stack_paint_color "unat lo" m x]
  by (simp add: stack_paint_init_def word_le_nat_alt word_less_nat_alt)

subsection \<open>Writing words\<close>

lemma read_write_word [simp]: "read_word (write_word m a v) a = v"
proof -
  have "read_word (write_word m a v) a =
      ucast (ucast v :: 8 word) OR push_bit 8 (ucast (ucast (drop_bit 8 v) :: 8 word)) OR
      push_bit 16 (ucast (ucast (drop_bit 16 v) :: 8 word)) OR
      push_bit 24 (ucast (ucast (drop_bit 24 v) :: 8 word))"
    by (simp add: read_word_def write_word_def)
  also have "\<dots> = v"
  proof (rule bit_word_eqI)
    fix n assume n: "n < LENGTH(32)"
    then have "n < 8 \<or> 8 \<le> n \<and> n < 16 \<or> 16 \<le> n \<and> n < 24 \<or> 24 \<le> n \<and> n < 32"
      by auto
    then show "bit (ucast (ucast v :: 8 word) OR push_bit 8 (ucast (ucast (drop_bit 8 v) :: 8 word)) OR
        push_bit 16 (ucast (ucast (drop_bit 16 v) :: 8 word)) OR
        push_bit 24 (ucast (ucast (drop_bit 24 v) :: 8 word)) :: 32 word) n \<longleftrightarrow> bit v n"
      by (auto simp: bit_or_iff bit_push_bit_iff bit_unsigned_iff bit_drop_bit_eq possible_bit_word)
  qed
  finally show ?thesis .
qed

lemma unat_add_small:
  "unat a + k < 4294967296 \<Longrightarrow> unat (a + word_of_nat k :: 32 word) = unat a + k"
  by (subst unat_add_lem[THEN iffD1]) auto

lemma write_word_other:
  assumes "unat a + 4 \<le> 4294967296" "unat x < unat a \<or> unat a + 4 \<le> unat x"
  shows "write_word m a v x = m x"
proof -
  have "unat (a + 1) = unat a + 1" "unat (a + 2) = unat a + 2" "unat (a + 3) = unat a + 3"
    using unat_add_small[of a 1] unat_add_small[of a 2] unat_add_small[of a 3] assms(1) by simp_all
  then have "x \<noteq> a" "x \<noteq> a + 1" "x \<noteq> a + 2" "x \<noteq> a + 3"
    using assms(2) by auto
  then show ?thesis
    by (simp add: write_word_def)
qed

lemma read_word_cong:
  assumes "m a = m' a" "m (a + 1) = m' (a + 1)" "m (a + 2) = m' (a + 2)" "m (a + 3) = m' (a + 3)"
  shows "read_word m a = read_word m' a"
  using assms by (simp add: read_word_def)

lemma read_write_word_other:
  assumes "unat a + 4 \<le> 4294967296" "unat b + 4 \<le> 4294967296"
    and "unat b + 4 \<le> unat a \<or> unat a + 4 \<le> unat b"
  shows "read_word (write_word m a v) b = read_word m b"
proof -
  have "unat (b + 1) = unat b + 1" "unat (b + 2) = unat b + 2" "unat (b + 3) = unat b + 3"
    using unat_add_small[of b 1] unat_add_small[of b 2] unat_add_small[of b 3] assms(2) by simp_all
  then show ?thesis
    using assms(3) by (intro read_word_cong write_word_other[OF assms(1)]) auto
qed

lemma write_words_other:
  "unat a + 4 * length vs \<le> 4294967296 \<Longrightarrow> unat x < unat a \<or> unat a + 4 * length vs \<le> unat x \<Longrightarrow>
   write_words m a vs x = m x"
proof (induction vs arbitrary: m a)
  case (Cons v vs)
  show ?case
  proof (cases vs)
    case Nil
    then show ?thesis
      using Cons.prems by (simp add: write_word_other)
  next
    case (Cons w ws)
    then have "unat (a + 4) = unat a + 4"
      using unat_add_small[of a 4] Cons.prems(1) by simp
    then show ?thesis
      using Cons.prems Cons.IH[of "a + 4" "write_word m a v"] write_word_other[of a x m v] by auto
  qed
qed simp

lemma read_write_words_below:
  "unat a + 4 * length vs \<le> 4294967296 \<Longrightarrow> unat b + 4 \<le> unat a \<Longrightarrow>
   read_word (write_words m a vs) b = read_word m b"
proof (induction vs arbitrary: m a)
  case (Cons v vs)
  show ?case
  proof (cases vs)
    case Nil
    then show ?thesis
      using Cons.prems by (simp add: read_write_word_other)
  next
    case (Cons w ws)
    then have "unat (a + 4) = unat a + 4"
      using unat_add_small[of a 4] Cons.prems(1) by simp
    then show ?thesis
      using Cons.prems Cons.IH[of "a + 4" "write_word m a v"] read_write_word_other[of a b m v] by auto
  qed
qed simp

lemma read_write_words:
  "unat a + 4 * length vs \<le> 4294967296 \<Longrightarrow> i < length vs \<Longrightarrow>
   read_word (write_words m a vs) (a + 4 * word_of_nat i) = vs ! i"
proof (induction vs arbitrary: m a i)
  case (Cons v vs)
  have a4: "unat (a + 4) = unat a + 4" if "vs \<noteq> []"
  proof (cases vs)
    case (Cons w ws)
    then show ?thesis
      using unat_add_small[of a 4] Cons.prems(1) by simp
  qed (use that in simp)
  show ?case
  proof (cases i)
    case 0
    show ?thesis
    proof (cases "vs = []")
      case False
      then show ?thesis
        using 0 a4 Cons.prems(1) read_write_words_below[of "a + 4" vs a "write_word m a v"] by simp
    qed (use 0 in simp)
  next
    case (Suc j)
    then have j: "j < length vs" "vs \<noteq> []"
      using Cons.prems(2) by auto
    then have "read_word (write_words (write_word m a v) (a + 4) vs) (a + 4 + 4 * word_of_nat j) = vs ! j"
      using Cons.IH[of "a + 4" j "write_word m a v"] a4 Cons.prems(1) by simp
    then show ?thesis
      using Suc by (simp add: algebra_simps)
  qed
qed simp

subsection \<open>Measuring\<close>

lemma free_min_from_spec:
  assumes "pos \<le> k" "k \<le> hi" "hi < 4294967296"
    and "\<And>i. pos \<le> i \<Longrightarrow> i < k \<Longrightarrow> m (word_of_nat i) = 0xCC"
    and "k < hi \<Longrightarrow> m (word_of_nat k) \<noteq> 0xCC"
  shows "free_min_from m pos hi free = free + word_of_nat (k - pos)"
  using assms
proof (induction "k - pos" arbitrary: pos free)
  case 0
  then show ?case
    by (subst free_min_from.simps) auto
next
  case (Suc d)
  have "m (word_of_nat pos) = 0xCC"
    using Suc.prems(4)[of pos] Suc.hyps(2) by simp
  moreover have "pos < hi"
    using Suc.prems(2) Suc.hyps(2) by linarith
  ultimately have "free_min_from m pos hi free = free_min_from m (pos + 1) hi (free + 1)"
    by (subst free_min_from.simps) simp
  also have "\<dots> = free + 1 + word_of_nat (k - (pos + 1))"
    using Suc.hyps Suc.prems by (intro Suc.hyps(1)) auto
  also have "\<dots> = free + word_of_nat (k - pos)"
  proof -
    have "k - pos = Suc (k - (pos + 1))"
      using Suc.hyps(2) by linarith
    then show ?thesis by simp
  qed
  finally show ?case .
qed

text \<open>The high-water mark: the first byte from below that does not hold the paint.\<close>

lemma peak_usage_mark:
  assumes "lowest st \<le> w" "w \<le> highest st"
    and "\<And>x. lowest st \<le> x \<Longrightarrow> x < w \<Longrightarrow> m x = stack_paint_color"
    and "w < highest st \<Longrightarrow> m w \<noteq> stack_paint_color"
  shows "peak_usage m st = highest st - w"
proof -
  have "free_min m st = 0 + word_of_nat (unat w - unat (lowest st))"
    unfolding free_min_def
  proof (rule free_min_from_spec)
    fix i assume i: "unat (lowest st) \<le> i" "i < unat w"
    then have "unat (word_of_nat i :: 32 word) = i"
      using unat32_less[of w] by (intro unat32_of_nat) linarith
    then show "m (word_of_nat i) = 0xCC"
      using assms(3)[of "word_of_nat i"] i
      by (simp add: word_le_nat_alt word_less_nat_alt stack_paint_color_def)
  qed (use assms in
      \<open>auto simp: word_le_nat_alt word_less_nat_alt stack_paint_color_def\<close>)
  also have "\<dots> = w - lowest st"
    using assms(1) by (simp add: word_le_nat_alt of_nat_diff)
  finally show ?thesis
    by (simp add: peak_usage_def stack_size_def)
qed

lemma free_min_from_le:
  assumes "pos \<le> k" "k < hi" "m (word_of_nat k) \<noteq> 0xCC"
  shows "\<exists>d\<le>k - pos. free_min_from m pos hi free = free + word_of_nat d"
  using assms
proof (induction "k - pos" arbitrary: pos free)
  case 0
  then show ?case
    by (subst free_min_from.simps) auto
next
  case (Suc d)
  show ?case
  proof (cases "m (word_of_nat pos) = 0xCC")
    case True
    then have "free_min_from m pos hi free = free_min_from m (pos + 1) hi (free + 1)"
      using Suc.prems Suc.hyps(2) by (subst free_min_from.simps) simp
    moreover obtain e where "e \<le> k - (pos + 1)"
      "free_min_from m (pos + 1) hi (free + 1) = free + 1 + word_of_nat e"
      using Suc.hyps(1)[of "pos + 1" "free + 1"] Suc.hyps(2) Suc.prems by fastforce
    ultimately show ?thesis
      using Suc.hyps(2) by (intro exI[of _ "Suc e"]) (simp add: add.assoc)
  next
    case False
    then show ?thesis
      using Suc.prems by (subst free_min_from.simps) (auto intro!: exI[of _ 0])
  qed
qed

text \<open>A byte that was overwritten with anything but the paint is counted as used.\<close>

lemma peak_usage_covers:
  assumes "lowest st \<le> x" "x < highest st" "m x \<noteq> stack_paint_color"
  shows "highest st - x \<le> peak_usage m st" "peak_usage m st \<le> stack_size st"
proof -
  let ?l = "unat (lowest st)" and ?h = "unat (highest st)" and ?x = "unat x"
  have x: "?l \<le> ?x" "?x < ?h" "?h < 4294967296"
    using assms by (auto simp: word_le_nat_alt word_less_nat_alt)
  obtain d where d: "d \<le> ?x - ?l" "free_min m st = word_of_nat d"
    using free_min_from_le[of ?l ?x ?h m 0] assms(3) x
    unfolding free_min_def stack_paint_color_def by auto
  have ud: "unat (word_of_nat d :: 32 word) = d"
    using d(1) x by (intro unat32_of_nat) linarith
  have size: "unat (stack_size st) = ?h - ?l"
    using x by (simp add: stack_size_def unat_sub_if')
  have p: "unat (peak_usage m st) = ?h - ?l - d"
    using d x ud size by (simp add: peak_usage_def unat_sub_if')
  have hx: "unat (highest st - x) = ?h - ?x"
    using x by (simp add: unat_sub_if')
  show "highest st - x \<le> peak_usage m st" "peak_usage m st \<le> stack_size st"
    using p size hx d(1) x by (auto simp: word_le_nat_alt)
qed

end
