(* ===== verification/Scheduler.thy ===== *)
theory Scheduler
  imports RunQueue Stack
begin

section \<open>Threads and the scheduler (\<open>ariel-os-threads\<close>, single core, Cortex-M)\<close>

text \<open>
  \<open>struct Scheduler\<close> with its thread table, run queue and wait-list links, the operations of
  \<open>lib.rs\<close> under the \<open>single-core\<close> feature, and the PendSV handler of
  \<open>arch/cortex_m.rs\<close> that performs the context switch.  Every operation runs inside a critical
  section, so it is one atomic step of the model.  \<open>pending\<close> is the PendSV bit: it is set by
  \<open>schedule()\<close> and stays set until the handler has chosen a thread.
\<close>

definition thread_count :: nat where
  "thread_count = 16"

definition sched_prio_levels :: nat where
  "sched_prio_levels = thread_count"

text \<open>\<open>WaitMode\<close> and \<open>ThreadState\<close>.  A pointer payload is an address.\<close>

datatype wait_mode = WaitAny "16 word" | WaitAll "16 word"

datatype thread_state =
    Invalid
  | Running
  | Parked
  | LockBlocked
  | FlagBlocked wait_mode
  | ChannelRxBlocked nat
  | ChannelTxBlocked nat
  | WaitQueueBlocked

record thread =
  t_state :: thread_state
  t_prio :: nat
  t_tid :: nat
  t_flags :: "16 word"
  t_sp :: "32 word"               \<comment> \<open>\<open>data.sp\<close>\<close>
  t_high_regs :: "32 word list"   \<comment> \<open>\<open>data.high_regs\<close>\<close>
  t_deadline :: "nat option"
  t_stack_lowest :: "32 word"
  t_stack_highest :: "32 word"

definition thread_default :: thread where
  "thread_default =
     \<lparr>t_state = Invalid, t_prio = 0, t_tid = 0, t_flags = 0, t_sp = 0,
      t_high_regs = replicate 8 0, t_deadline = None, t_stack_lowest = 0, t_stack_highest = 0\<rparr>"

text \<open>
  The scheduler state; the last four fields are the machine's: the PendSV bit, the process
  stack pointer, the callee-saved registers \<open>r4\<close>-\<open>r11\<close> and the stack memory.
\<close>

record scheduler =
  runq :: runqueue
  threads :: "thread list"
  thread_blocklist :: "nat option list"
  current_thread :: "nat option"
  pending :: bool
  psp :: "32 word"
  high_regs :: "32 word list"
  mem :: memory                   \<comment> \<open>the memory of the thread stacks\<close>

definition scheduler_new :: scheduler where
  "scheduler_new =
     \<lparr>runq = rq_new sched_prio_levels thread_count,
      threads = replicate thread_count thread_default,
      thread_blocklist = replicate thread_count None,
      current_thread = None, pending = False, psp = 0, high_regs = replicate 8 0,
      mem = (\<lambda>_. 0)\<rparr>"

subsection \<open>Access to thread data\<close>

definition schedule :: "scheduler \<Rightarrow> scheduler" where
  "schedule s = s\<lparr>pending := True\<rparr>"

definition get_unchecked :: "scheduler \<Rightarrow> nat \<Rightarrow> panic + thread" where
  "get_unchecked s t = idx (threads s) t"

definition upd_thread :: "scheduler \<Rightarrow> nat \<Rightarrow> (thread \<Rightarrow> thread) \<Rightarrow> panic + scheduler" where
  "upd_thread s t f =
     bnd (get_unchecked s t) (\<lambda>th. Inr (s\<lparr>threads := (threads s)[t := f th]\<rparr>))"

definition current_tid :: "scheduler \<Rightarrow> nat option" where
  "current_tid s = current_thread s"

definition current :: "scheduler \<Rightarrow> panic + thread option" where
  "current s =
     (case current_tid s of
        None \<Rightarrow> Inr None
      | Some t \<Rightarrow> bnd (get_unchecked s t) (\<lambda>th. Inr (Some th)))"

definition is_valid_tid :: "scheduler \<Rightarrow> nat \<Rightarrow> panic + bool" where
  "is_valid_tid s t =
     (if thread_count \<le> t then Inr False
      else bnd (get_unchecked s t) (\<lambda>th. Inr (t_state th \<noteq> Invalid)))"

definition get_state :: "scheduler \<Rightarrow> nat \<Rightarrow> panic + thread_state option" where
  "get_state s t =
     bnd (is_valid_tid s t) (\<lambda>v.
       if v then bnd (get_unchecked s t) (\<lambda>th. Inr (Some (t_state th))) else Inr None)"

definition get_priority :: "scheduler \<Rightarrow> nat \<Rightarrow> panic + nat option" where
  "get_priority s t =
     bnd (is_valid_tid s t) (\<lambda>v.
       if v then bnd (get_unchecked s t) (\<lambda>th. Inr (Some (t_prio th))) else Inr None)"

definition is_running :: "scheduler \<Rightarrow> nat \<Rightarrow> nat option" where
  "is_running s t = (if current_tid s = Some t then Some 0 else None)"

definition current_stack_limits :: "scheduler \<Rightarrow> panic + (32 word \<times> 32 word) option" where
  "current_stack_limits s =
     bnd (current s) (\<lambda>c. Inr (map_option (\<lambda>th. (t_stack_lowest th, t_stack_highest th)) c))"

subsection \<open>Changing thread states\<close>

definition schedule_if_higher_prio :: "scheduler \<Rightarrow> nat \<Rightarrow> nat \<Rightarrow> panic + scheduler" where
  "schedule_if_higher_prio s t prio =
     bnd (current s) (\<lambda>c.
       Inr (case c of
              Some th \<Rightarrow> if t_prio th < prio then schedule s else s
            | None \<Rightarrow> s))"

definition set_state :: "scheduler \<Rightarrow> nat \<Rightarrow> thread_state \<Rightarrow> panic + scheduler \<times> thread_state" where
  "set_state s t st =
     bnd (get_unchecked s t) (\<lambda>th.
     let old_state = t_state th; prio = t_prio th;
         s = s\<lparr>threads := (threads s)[t := th\<lparr>t_state := st\<rparr>]\<rparr>
     in if st = Running then
          bnd (rq_add (runq s) t prio) (\<lambda>r.
          bnd (schedule_if_higher_prio (s\<lparr>runq := r\<rparr>) t prio) (\<lambda>s. Inr (s, old_state)))
        else if old_state = Running then
          bnd (rq_pop_head (runq s) t prio) (\<lambda>r. Inr (schedule (s\<lparr>runq := r\<rparr>), old_state))
        else Inr (s, old_state))"

definition set_priority :: "scheduler \<Rightarrow> nat \<Rightarrow> nat \<Rightarrow> panic + scheduler" where
  "set_priority s t prio =
     bnd (is_valid_tid s t) (\<lambda>v.
     if \<not> v then Inr s
     else bnd (get_unchecked s t) (\<lambda>th.
       let old_prio = t_prio th in
       if old_prio = prio then Inr s
       else let s = s\<lparr>threads := (threads s)[t := th\<lparr>t_prio := prio\<rparr>]\<rparr> in
         if t_state th \<noteq> Running then Inr s
         else
           bnd (bnd (rq_peek_head (runq s) old_prio) (\<lambda>h.
                  if h = Some t then rq_pop_head (runq s) t old_prio else rq_del (runq s) t)) (\<lambda>r.
           bnd (rq_add r t prio) (\<lambda>r.
           let s = s\<lparr>runq := r\<rparr> in
           case is_running s t of
             Some _ \<Rightarrow> if prio < old_prio then Inr (schedule s) else Inr s
           | None \<Rightarrow>
               if old_prio < prio then schedule_if_higher_prio s t prio else Inr s))))"

subsection \<open>Creating threads\<close>

text \<open>The loop of \<open>get_unused\<close>, from slot \<open>i\<close> on.\<close>

function get_unused_from :: "scheduler \<Rightarrow> nat \<Rightarrow> panic + nat option" where
  "get_unused_from s i =
     (if i < thread_count then
        bnd (get_unchecked s i) (\<lambda>th.
          if t_state th = Invalid then Inr (Some i) else get_unused_from s (i + 1))
      else Inr None)"
  by pat_completeness auto
termination
  by (relation "measure (\<lambda>(s, i). thread_count - i)") auto

declare get_unused_from.simps [simp del]

definition get_unused :: "scheduler \<Rightarrow> panic + nat option" where
  "get_unused s = get_unused_from s 0"

text \<open>
  \<open>setup_stack\<close>: the stack grows down from the 8-byte aligned end of the slice, and 32 bytes are
  reserved for the exception frame the handler returns through; what is below is painted.
  \<open>cleanup_fn\<close> is the address of the function \<open>cleanup\<close>.
\<close>

definition setup_stack ::
    "32 word \<Rightarrow> thread \<Rightarrow> memory \<Rightarrow> 32 word \<Rightarrow> 32 word \<Rightarrow> 32 word \<Rightarrow> 32 word option \<Rightarrow> thread \<times> memory" where
  "setup_stack cleanup_fn th m stack_start stack_len func arg =
     (let stack_highest = (stack_start + stack_len) AND 0xFFFFFFF8;
          stack_pos = stack_highest - 32;
          m = write_words m stack_pos (exception_frame func arg cleanup_fn);
          th = th\<lparr>t_sp := stack_pos, t_stack_lowest := stack_start, t_stack_highest := stack_highest\<rparr>
      in (th, stack_paint_init stack_start stack_pos m))"

definition create ::
    "32 word \<Rightarrow> scheduler \<Rightarrow> 32 word \<Rightarrow> 32 word option \<Rightarrow> 32 word \<Rightarrow> 32 word \<Rightarrow> nat \<Rightarrow>
     panic + scheduler \<times> nat option" where
  "create cleanup_fn s func arg stack_start stack_len prio =
     bnd (get_unused s) (\<lambda>u.
       case u of
         None \<Rightarrow> Inr (s, None)
       | Some t \<Rightarrow>
           bnd (get_unchecked s t) (\<lambda>th.
           let (th, m) = setup_stack cleanup_fn (th\<lparr>t_prio := prio, t_tid := t, t_state := Parked\<rparr>)
                 (mem s) stack_start stack_len func arg
           in Inr (s\<lparr>threads := (threads s)[t := th], mem := m\<rparr>, Some t)))"

definition create_raw ::
    "32 word \<Rightarrow> scheduler \<Rightarrow> 32 word \<Rightarrow> 32 word option \<Rightarrow> 32 word \<Rightarrow> 32 word \<Rightarrow> nat \<Rightarrow>
     panic + scheduler \<times> nat" where
  "create_raw cleanup_fn s func arg stack_start stack_len prio =
     bnd (create cleanup_fn s func arg stack_start stack_len prio) (\<lambda>(s, r).
     bnd (unwrap r) (\<lambda>t.
     bnd (set_state s t Running) (\<lambda>(s, _). Inr (s, t))))"

subsection \<open>The calls a thread makes\<close>

text \<open>
  \<open>cleanup\<close> runs when a thread function returns.  The \<open>unreachable!()\<close> after its critical
  section is executed only if the thread is ever scheduled again.
\<close>

definition cleanup :: "scheduler \<Rightarrow> panic + scheduler" where
  "cleanup s =
     bnd (unwrap (current_tid s)) (\<lambda>t. bnd (set_state s t Invalid) (\<lambda>(s, _). Inr s))"

definition yield_same :: "scheduler \<Rightarrow> panic + scheduler" where
  "yield_same s =
     bnd (current s) (\<lambda>c.
       case c of
         None \<Rightarrow> Inr s
       | Some th \<Rightarrow>
           bnd (rq_advance (runq s) (t_prio th)) (\<lambda>(r, moved).
             Inr (if moved then schedule (s\<lparr>runq := r\<rparr>) else s\<lparr>runq := r\<rparr>)))"

definition park :: "scheduler \<Rightarrow> panic + scheduler" where
  "park s =
     (case current_tid s of
        None \<Rightarrow> Inr s
      | Some t \<Rightarrow> bnd (set_state s t Parked) (\<lambda>(s, _). Inr s))"

definition unpark :: "scheduler \<Rightarrow> nat \<Rightarrow> panic + scheduler \<times> bool" where
  "unpark s t =
     bnd (get_state s t) (\<lambda>st.
       if st = Some Parked then bnd (set_state s t Running) (\<lambda>(s, _). Inr (s, True))
       else Inr (s, False))"

subsection \<open>The context switch\<close>

text \<open>
  One round of the loop in \<open>sched\<close>: \<open>None\<close> when no thread is ready (the core sleeps until
  the next interrupt and tries again).  The pair is the two pointers returned in \<open>r0\<close> and
  \<open>r1\<close>: whose registers to save and whose to load.
\<close>

definition sched :: "scheduler \<Rightarrow> panic + (scheduler \<times> nat option \<times> nat option) option" where
  "sched s =
     bnd (rq_get_next (runq s)) (\<lambda>n.
       case n of
         None \<Rightarrow> Inr None
       | Some next_tid \<Rightarrow>
           (case current_thread s of
              Some cur \<Rightarrow>
                if next_tid = cur then Inr (Some (s, None, None))
                else
                  bnd (upd_thread (s\<lparr>current_thread := Some next_tid\<rparr>) cur (\<lambda>th. th\<lparr>t_sp := psp s\<rparr>)) (\<lambda>s.
                  bnd (get_unchecked s next_tid) (\<lambda>nx.
                    Inr (Some (s\<lparr>psp := t_sp nx\<rparr>, Some cur, Some next_tid))))
            | None \<Rightarrow>
                bnd (get_unchecked s next_tid) (\<lambda>nx.
                  Inr (Some (s\<lparr>current_thread := Some next_tid, psp := t_sp nx\<rparr>, None, Some next_tid)))))"

text \<open>
  The handler around it: with a null \<open>r0\<close> no registers are moved, otherwise \<open>r4\<close>-\<open>r11\<close>
  are stored to the old thread and loaded from the new one.
\<close>

definition pend_sv :: "scheduler \<Rightarrow> panic + scheduler option" where
  "pend_sv s =
     bnd (sched s) (\<lambda>res.
       case res of
         None \<Rightarrow> Inr None
       | Some (s, None, _) \<Rightarrow> Inr (Some (s\<lparr>pending := False\<rparr>))
       | Some (s, Some cur, None) \<Rightarrow> Inr (Some (s\<lparr>pending := False\<rparr>))
       | Some (s, Some cur, Some nx) \<Rightarrow>
           bnd (upd_thread s cur (\<lambda>th. th\<lparr>t_high_regs := high_regs s\<rparr>)) (\<lambda>s.
           bnd (get_unchecked s nx) (\<lambda>th.
             Inr (Some (s\<lparr>high_regs := t_high_regs th, pending := False\<rparr>)))))"

subsection \<open>The scheduler invariant\<close>

text \<open>
  \<open>sched_inv s Q\<close>: the run queue represents the queues \<open>Q\<close>, and a thread is in queue
  \<open>p\<close> exactly when its state is \<open>Running\<close> and its priority is \<open>p\<close>.  When no switch is
  pending, the current thread is the first ready one.
\<close>

abbreviation th_of :: "scheduler \<Rightarrow> nat \<Rightarrow> thread" where
  "th_of s t \<equiv> threads s ! t"

definition queued :: "scheduler \<Rightarrow> (nat \<Rightarrow> nat list) \<Rightarrow> bool" where
  "queued s Q \<longleftrightarrow>
     (\<forall>t<thread_count. \<forall>p. t \<in> set (Q p) \<longleftrightarrow> t_state (th_of s t) = Running \<and> t_prio (th_of s t) = p)"

definition sched_inv :: "scheduler \<Rightarrow> (nat \<Rightarrow> nat list) \<Rightarrow> bool" where
  "sched_inv s Q \<longleftrightarrow>
     rq_rep sched_prio_levels thread_count (runq s) Q \<and>
     length (threads s) = thread_count \<and> length (thread_blocklist s) = thread_count \<and>
     queued s Q \<and>
     (\<forall>t<thread_count. t_prio (th_of s t) < sched_prio_levels
        \<and> (t_state (th_of s t) \<noteq> Invalid \<longrightarrow> t_tid (th_of s t) = t)) \<and>
     (\<forall>c. current_thread s = Some c \<longrightarrow>
        c < thread_count \<and> (\<not> pending s \<longrightarrow> first_ready sched_prio_levels Q = Some c))"

lemma sched_invD:
  assumes "sched_inv s Q"
  shows "rq_rep sched_prio_levels thread_count (runq s) Q"
    and "length (threads s) = thread_count" "length (thread_blocklist s) = thread_count"
    and "t < thread_count \<Longrightarrow> t \<in> set (Q p) \<longleftrightarrow> t_state (th_of s t) = Running \<and> t_prio (th_of s t) = p"
    and "t < thread_count \<Longrightarrow> t_prio (th_of s t) < sched_prio_levels"
    and "t < thread_count \<Longrightarrow> t_state (th_of s t) \<noteq> Invalid \<Longrightarrow> t_tid (th_of s t) = t"
    and "current_thread s = Some c \<Longrightarrow> c < thread_count"
    and "current_thread s = Some c \<Longrightarrow> \<not> pending s \<Longrightarrow> first_ready sched_prio_levels Q = Some c"
  using assms unfolding sched_inv_def queued_def by blast+

lemma sched_inv_queued:
  assumes "sched_inv s Q" "t \<in> set (Q p)"
  shows "t < thread_count" "p < sched_prio_levels" "t_state (th_of s t) = Running" "t_prio (th_of s t) = p"
  using rq.queue_less[OF sched_invD(1)[OF assms(1)] assms(2)] sched_invD(4)[OF assms(1), of t p] assms(2)
  by auto

lemma sched_inv_new: "sched_inv scheduler_new (\<lambda>_. [])"
  by (auto simp: sched_inv_def scheduler_new_def queued_def thread_default_def sched_prio_levels_def
      thread_count_def intro: rq_rep_new)

text \<open>
  An operation that rewrites one thread keeps the invariant if its new queue position matches
  its new state and priority, and the current thread stays first unless a switch is pending.
\<close>

lemma sched_inv_update:
  assumes inv: "sched_inv s Q" and t: "t < thread_count"
    and s': "threads s' = (threads s)[t := th]" "thread_blocklist s' = bl" "length bl = thread_count"
      "current_thread s' = current_thread s"
    and r: "rq_rep sched_prio_levels thread_count (runq s') Q'"
    and q: "\<And>p. t \<in> set (Q' p) \<longleftrightarrow> t_state th = Running \<and> t_prio th = p"
    and other: "\<And>u p. u \<noteq> t \<Longrightarrow> u \<in> set (Q' p) \<longleftrightarrow> u \<in> set (Q p)"
    and th: "t_prio th < sched_prio_levels" "t_state th \<noteq> Invalid \<Longrightarrow> t_tid th = t"
    and cur: "\<And>c. current_thread s = Some c \<Longrightarrow> \<not> pending s' \<Longrightarrow>
      first_ready sched_prio_levels Q' = Some c"
  shows "sched_inv s' Q'"
  unfolding sched_inv_def
proof (intro conjI allI impI)
  note l = sched_invD(2)[OF inv]
  show "queued s' Q'"
    unfolding queued_def
  proof (intro allI impI)
    fix u p assume u: "u < thread_count"
    show "u \<in> set (Q' p) \<longleftrightarrow> t_state (th_of s' u) = Running \<and> t_prio (th_of s' u) = p"
      using q[of p] other[of u p] sched_invD(4)[OF inv u, of p] s'(1) t l by (cases "u = t") auto
  qed
  fix u assume u: "u < thread_count"
  show "t_prio (th_of s' u) < sched_prio_levels"
    using sched_invD(5)[OF inv u] th(1) s'(1) t l by (cases "u = t") auto
  show "t_tid (th_of s' u) = u" if "t_state (th_of s' u) \<noteq> Invalid"
    using sched_invD(6)[OF inv u] th(2) s'(1) t l that by (cases "u = t") auto
qed (use r s' cur sched_invD(2,7)[OF inv] in auto)

text \<open>Fields the invariant does not look at.\<close>

lemma sched_inv_blocklist:
  "sched_inv s Q \<Longrightarrow> length bl = thread_count \<Longrightarrow> sched_inv (s\<lparr>thread_blocklist := bl\<rparr>) Q"
  unfolding sched_inv_def queued_def by simp

lemma sched_inv_thread_data:
  assumes "sched_inv s Q" "t < thread_count"
    and "t_state th = t_state (th_of s t)" "t_prio th = t_prio (th_of s t)" "t_tid th = t_tid (th_of s t)"
  shows "sched_inv (s\<lparr>threads := (threads s)[t := th]\<rparr>) Q"
  by (rule sched_inv_update[where th = th, OF assms(1,2)])
    (use assms sched_invD[OF assms(1)] in auto)

lemma sched_inv_pending: "sched_inv s Q \<Longrightarrow> sched_inv (schedule s) Q"
  unfolding sched_inv_def queued_def schedule_def by simp

lemma get_unchecked_ok [simp]: "sched_inv s Q \<Longrightarrow> t < thread_count \<Longrightarrow> get_unchecked s t = Inr (th_of s t)"
  by (simp add: get_unchecked_def sched_invD(2))

lemma current_ok:
  "sched_inv s Q \<Longrightarrow> current s = Inr (map_option (\<lambda>c. th_of s c) (current_thread s))"
  using sched_invD(7)[of s Q] by (auto simp: current_def current_tid_def split: option.splits)

lemma is_valid_tid_ok:
  "sched_inv s Q \<Longrightarrow> is_valid_tid s t = Inr (t < thread_count \<and> t_state (th_of s t) \<noteq> Invalid)"
  by (auto simp: is_valid_tid_def)

lemma get_state_ok:
  "sched_inv s Q \<Longrightarrow> get_state s t =
    Inr (if t < thread_count \<and> t_state (th_of s t) \<noteq> Invalid then Some (t_state (th_of s t)) else None)"
  by (auto simp: get_state_def is_valid_tid_ok)

lemma get_priority_ok:
  "sched_inv s Q \<Longrightarrow> get_priority s t =
    Inr (if t < thread_count \<and> t_state (th_of s t) \<noteq> Invalid then Some (t_prio (th_of s t)) else None)"
  by (auto simp: get_priority_def is_valid_tid_ok)

subsection \<open>\<open>set_state\<close> on every branch\<close>

text \<open>Whether a thread becoming ready with priority \<open>p\<close> preempts the current thread.\<close>

definition preempts :: "scheduler \<Rightarrow> nat \<Rightarrow> bool" where
  "preempts s p \<longleftrightarrow> (\<exists>c. current_thread s = Some c \<and> t_prio (th_of s c) < p)"

lemma schedule_if_higher_prio_ok:
  "\<forall>c. current_thread s = Some c \<longrightarrow> c < length (threads s) \<Longrightarrow>
   schedule_if_higher_prio s t p = Inr (if preempts s p then schedule s else s)"
  by (auto simp: schedule_if_higher_prio_def current_def current_tid_def get_unchecked_def preempts_def
      split: option.splits)

lemma sched_inv_first_ready_running:
  assumes "sched_inv s Q" "current_thread s = Some c" "\<not> pending s"
  shows "c \<in> set (Q (t_prio (th_of s c)))" "t_state (th_of s c) = Running"
proof -
  obtain k ts where "Q k = c # ts"
    using first_ready_Some[OF sched_invD(8)[OF assms]] by blast
  then have "c \<in> set (Q k)" by simp
  then show "c \<in> set (Q (t_prio (th_of s c)))" "t_state (th_of s c) = Running"
    using sched_inv_queued[OF assms(1)] by auto
qed

lemma preempts_threads_upd:
  "length (threads s) = thread_count \<Longrightarrow> t < thread_count \<Longrightarrow> t_prio th = t_prio (th_of s t) \<Longrightarrow>
   preempts (s\<lparr>threads := (threads s)[t := th], runq := r\<rparr>) p = preempts s p"
  by (auto simp: preempts_def nth_list_update)

lemma set_state_running:
  assumes inv: "sched_inv s Q" and t: "t < thread_count"
  defines "p \<equiv> t_prio (th_of s t)" and "old \<equiv> t_state (th_of s t)"
  assumes valid: "t_tid (th_of s t) = t"
  shows "\<exists>r. set_state s t Running =
      Inr (s\<lparr>threads := (threads s)[t := (th_of s t)\<lparr>t_state := Running\<rparr>], runq := r,
             pending := pending s \<or> preempts s p\<rparr>, old)
    \<and> sched_inv (s\<lparr>threads := (threads s)[t := (th_of s t)\<lparr>t_state := Running\<rparr>], runq := r,
             pending := pending s \<or> preempts s p\<rparr>)
        (if old = Running then Q else Q(p := Q p @ [t]))"
proof -
  let ?Q = "if old = Running then Q else Q(p := Q p @ [t])"
  let ?th = "(th_of s t)\<lparr>t_state := Running\<rparr>"
  have p: "p < sched_prio_levels"
    using sched_invD(5)[OF inv t] p_def by simp
  obtain r where r: "rq_add (runq s) t p = Inr r" "rq_rep sched_prio_levels thread_count r ?Q"
  proof (cases "old = Running")
    case True
    then have "t \<in> set (Q p)"
      using sched_invD(4)[OF inv t] p_def old_def by simp
    then show ?thesis
      using that[of "runq s"] rq.add_same[OF sched_invD(1)[OF inv]] sched_invD(1)[OF inv] True by simp
  next
    case False
    then have "\<forall>q. t \<notin> set (Q q)"
      using sched_invD(4)[OF inv t] old_def by simp
    then show ?thesis
      using that rq.add_new[OF sched_invD(1)[OF inv] t _ p] False by auto
  qed
  let ?s1 = "s\<lparr>threads := (threads s)[t := ?th], runq := r\<rparr>"
  let ?s2 = "s\<lparr>threads := (threads s)[t := ?th], runq := r, pending := pending s \<or> preempts s p\<rparr>"
  have pre: "preempts ?s1 p = preempts s p"
    using preempts_threads_upd[OF sched_invD(2)[OF inv] t] by simp
  have eq: "(if preempts s p then schedule ?s1 else ?s1) = ?s2"
    by (cases s) (simp add: schedule_def)
  have "set_state s t Running = Inr (?s2, old)"
    using r(1) inv t schedule_if_higher_prio_ok[of ?s1 t p] sched_invD(2,7)[OF inv] pre eq
    by (simp add: set_state_def Let_def p_def old_def)
  moreover have "sched_inv ?s2 ?Q"
  proof (rule sched_inv_update[OF inv t])
    show "first_ready sched_prio_levels ?Q = Some c"
      if c: "current_thread s = Some c" "\<not> pending ?s2" for c
    proof -
      have np: "\<not> pending s" "t_prio (th_of s c) \<ge> p"
        using c by (auto simp: preempts_def)
      have f: "first_ready sched_prio_levels Q = Some c"
        using sched_invD(8)[OF inv c(1) np(1)] .
      show ?thesis
        using rq.next_after_add[OF f sched_inv_first_ready_running(1)[OF inv c(1) np(1)] sched_invD(1)[OF inv] np(2)]
          f by simp
    qed
    show "t \<in> set (?Q q) \<longleftrightarrow> t_state ?th = Running \<and> t_prio ?th = q" for q
      using sched_invD(4)[OF inv t, of q] p_def old_def by auto
  qed (use r(2) p valid p_def sched_invD(3)[OF inv] in \<open>auto split: if_splits\<close>)
  ultimately show ?thesis by blast
qed

lemma set_state_stop:
  assumes inv: "sched_inv s Q" and t: "t < thread_count" and st: "st \<noteq> Running"
    and q: "Q (t_prio (th_of s t)) = t # ys"
  shows "\<exists>r. set_state s t st =
      Inr (s\<lparr>threads := (threads s)[t := (th_of s t)\<lparr>t_state := st\<rparr>], runq := r, pending := True\<rparr>, Running)
    \<and> sched_inv (s\<lparr>threads := (threads s)[t := (th_of s t)\<lparr>t_state := st\<rparr>], runq := r, pending := True\<rparr>)
        (Q(t_prio (th_of s t) := ys))"
proof -
  let ?p = "t_prio (th_of s t)" and ?th = "(th_of s t)\<lparr>t_state := st\<rparr>"
  have tq: "t \<in> set (Q ?p)"
    using q by simp
  have run: "t_state (th_of s t) = Running"
    using sched_inv_queued(3)[OF inv tq] .
  obtain r where r: "rq_pop_head (runq s) t ?p = Inr r"
    "rq_rep sched_prio_levels thread_count r (Q(?p := ys))"
    using rq.pop_head[OF sched_invD(1)[OF inv] q] by blast
  have "set_state s t st = Inr (s\<lparr>threads := (threads s)[t := ?th], runq := r, pending := True\<rparr>, Running)"
    using inv t st run r(1) by (simp add: set_state_def Let_def schedule_def)
  moreover have "sched_inv (s\<lparr>threads := (threads s)[t := ?th], runq := r, pending := True\<rparr>) (Q(?p := ys))"
  proof (rule sched_inv_update[OF inv t])
    have d: "distinct (Q ?p)"
      using rq.rep_wf[OF sched_invD(1)[OF inv], of ?p] by blast
    show "t \<in> set ((Q(?p := ys)) p) \<longleftrightarrow> t_state ?th = Running \<and> t_prio ?th = p" for p
      using d q st sched_invD(4)[OF inv t, of p] by auto
  qed (use r(2) q run sched_invD(3,5,6)[OF inv] t in auto)
  ultimately show ?thesis by blast
qed

lemma set_state_other:
  assumes inv: "sched_inv s Q" and t: "t < thread_count" and st: "st \<noteq> Running"
    and old: "t_state (th_of s t) \<noteq> Running" and valid: "st \<noteq> Invalid \<Longrightarrow> t_tid (th_of s t) = t"
  shows "set_state s t st =
      Inr (s\<lparr>threads := (threads s)[t := (th_of s t)\<lparr>t_state := st\<rparr>]\<rparr>, t_state (th_of s t))"
    and "sched_inv (s\<lparr>threads := (threads s)[t := (th_of s t)\<lparr>t_state := st\<rparr>]\<rparr>) Q"
proof -
  show "set_state s t st =
      Inr (s\<lparr>threads := (threads s)[t := (th_of s t)\<lparr>t_state := st\<rparr>]\<rparr>, t_state (th_of s t))"
    using inv t st old by (simp add: set_state_def Let_def)
  show "sched_inv (s\<lparr>threads := (threads s)[t := (th_of s t)\<lparr>t_state := st\<rparr>]\<rparr>) Q"
    by (rule sched_inv_update[OF inv t])
      (use st old valid t sched_invD[OF inv] in auto)
qed

end
