(* ===== verification/SchedulerSpec.thy ===== *)
theory SchedulerSpec
  imports Scheduler
begin

section \<open>What the scheduler operations guarantee\<close>

text \<open>
  For every operation of \<open>Scheduler\<close>: under the invariant it does not panic, its effect on
  the thread table and the run queue is the one stated, and it keeps the invariant.
\<close>

subsection \<open>Priorities\<close>

text \<open>
  A running thread moves from the queue of its old priority to the one of the new, and a switch is requested
  when the current thread may not be the best one any more.
\<close>

lemma moved_first:
  assumes inv: "sched_inv s Q" and t: "t < thread_count" "t_state (th_of s t) = Running"
    and p: "p < sched_prio_levels" "p \<noteq> t_prio (th_of s t)"
    and cur: "current_thread s = Some c" "\<not> pending s"
    and np: "if c = t then t_prio (th_of s t) < p else t_prio (th_of s t) < p \<longrightarrow> p \<le> t_prio (th_of s c)"
  shows "first_ready sched_prio_levels (Q(t_prio (th_of s t) := remove1 t (Q (t_prio (th_of s t))), p := Q p @ [t])) = Some c"
proof -
  let ?o = "t_prio (th_of s t)"
  note rep = sched_invD(1)[OF inv] and f = sched_invD(8)[OF inv cur]
  note cq = sched_inv_first_ready_running(1)[OF inv cur]
  have tq: "t \<in> set (Q ?o)"
    using sched_invD(4)[OF inv t(1)] t(2) by simp
  show ?thesis
  proof (cases "c = t")
    case True
    then show ?thesis
      using rq.next_after_raise[OF rep f, of ?o p] p(1) tq np by simp
  next
    case False
    have "?o \<le> t_prio (th_of s c)"
    proof (rule ccontr)
      assume "\<not> ?o \<le> t_prio (th_of s c)"
      then show False
        using first_ready_Some[OF f] tq cq rq.in_one_queue[OF rep cq]
        by (metis list.set_intros(1) not_le empty_iff empty_set rq.queue_less[OF rep tq])
    qed
    then have "p \<le> t_prio (th_of s c)"
      using np False p(2) by (auto simp: not_less)
    then show ?thesis
      using rq.next_after_move[OF rep f cq] False p(2) tq by auto
  qed
qed

lemma set_priority_running:
  assumes inv: "sched_inv s Q" and p: "p < sched_prio_levels" "p \<noteq> t_prio (th_of s t)"
    and t: "t < thread_count" and run: "t_state (th_of s t) = Running"
  defines "th \<equiv> (th_of s t)\<lparr>t_prio := p\<rparr>" and "old \<equiv> t_prio (th_of s t)"
  defines "Q' \<equiv> Q(old := remove1 t (Q old), p := Q p @ [t])"
  shows "\<exists>r pend. set_priority s t p = Inr (s\<lparr>threads := (threads s)[t := th], runq := r, pending := pending s \<or> pend\<rparr>) \<and>
    sched_inv (s\<lparr>threads := (threads s)[t := th], runq := r, pending := pending s \<or> pend\<rparr>) Q'"
proof -
  have tq: "t \<in> set (Q old)" and tid: "t_tid (th_of s t) = t"
    using sched_invD(4,6)[OF inv t] run by (simp_all add: old_def)
  obtain r r1 where r1: "bnd (rq_peek_head (runq s) old)
      (\<lambda>h. if h = Some t then rq_pop_head (runq s) t old else rq_del (runq s) t) = Inr r1"
    "rq_add r1 t p = Inr r" and r: "rq_rep sched_prio_levels thread_count r Q'"
    using rq.move[OF sched_invD(1)[OF inv] tq p(1) p(2)[folded old_def]] unfolding bnd_eq_Inr Q'_def by blast
  let ?s2 = "s\<lparr>threads := (threads s)[t := th], runq := r\<rparr>"
  define pend where "pend = (if current_thread s = Some t then p < old else old < p \<and> preempts ?s2 p)"
  let ?s3 = "s\<lparr>threads := (threads s)[t := th], runq := r, pending := pending s \<or> pend\<rparr>"
  have s2: "(if pend then schedule ?s2 else ?s2) = ?s3"
    by (cases s) (simp add: schedule_def)
  have "\<forall>c. current_thread ?s2 = Some c \<longrightarrow> c < length (threads ?s2)"
    using sched_invD(2,7)[OF inv] by simp
  from schedule_if_higher_prio_ok[OF this, of t p] have "set_priority s t p = Inr (if pend then schedule ?s2 else ?s2)"
    using inv t p run r1
    by (simp add: set_priority_def is_valid_tid_ok Let_def is_running_def current_tid_def pend_def old_def th_def
        cong: if_cong)
  moreover have "sched_inv ?s3 Q'"
  proof (rule sched_inv_update[where th = th, OF inv t])
    fix q
    have "t \<notin> set (Q q)" if "q \<noteq> old"
      using sched_invD(4)[OF inv t, of q] that by (simp add: old_def)
    moreover have "distinct (Q old)"
      using rq.rep_wf[OF sched_invD(1)[OF inv], of old] by blast
    ultimately show "t \<in> set (Q' q) \<longleftrightarrow> t_state th = Running \<and> t_prio th = q"
      using run p(2) by (auto simp: Q'_def th_def old_def fun_upd_def)
    show "u \<in> set (Q' q) \<longleftrightarrow> u \<in> set (Q q)" if "u \<noteq> t" for u
      using that by (auto simp: Q'_def in_set_remove1)
  next
    fix c assume c: "current_thread s = Some c" "\<not> pending ?s3"
    then have np: "if c = t then t_prio (th_of s t) < p else t_prio (th_of s t) < p \<longrightarrow> p \<le> t_prio (th_of s c)"
      using p(2) t sched_invD(2)[OF inv] by (auto simp: pend_def old_def preempts_def nth_list_update)
    show "first_ready sched_prio_levels Q' = Some c"
      unfolding Q'_def old_def by (rule moved_first[OF inv t run p c(1) _ np]) (use c(2) in simp)
  qed (use r tid p(1) sched_invD(3)[OF inv] in \<open>auto simp: th_def\<close>)
  ultimately show ?thesis
    unfolding s2 by blast
qed

lemma set_priority_ok:
  assumes inv: "sched_inv s Q" and p: "p < sched_prio_levels"
  shows "\<exists>s' Q'. set_priority s t p = Inr s' \<and> sched_inv s' Q' \<and>
    current_thread s' = current_thread s \<and> thread_blocklist s' = thread_blocklist s \<and>
    (pending s \<longrightarrow> pending s') \<and>
    threads s' = (if t < thread_count \<and> t_state (th_of s t) \<noteq> Invalid
      then (threads s)[t := (th_of s t)\<lparr>t_prio := p\<rparr>] else threads s)"
proof -
  let ?th = "(th_of s t)\<lparr>t_prio := p\<rparr>"
  let ?s1 = "s\<lparr>threads := (threads s)[t := ?th]\<rparr>"
  consider (invalid) "\<not> (t < thread_count \<and> t_state (th_of s t) \<noteq> Invalid)"
    | (same) "t < thread_count" "t_state (th_of s t) \<noteq> Invalid" "p = t_prio (th_of s t)"
    | (stopped) "t < thread_count" "t_state (th_of s t) \<noteq> Invalid" "p \<noteq> t_prio (th_of s t)" "t_state (th_of s t) \<noteq> Running"
    | (running) "t < thread_count" "p \<noteq> t_prio (th_of s t)" "t_state (th_of s t) = Running"
    by blast
  then show ?thesis
  proof cases
    case invalid
    then show ?thesis using inv by (auto simp: set_priority_def is_valid_tid_ok)
  next
    case same
    then have "?th = th_of s t" by (cases "th_of s t") simp
    then show ?thesis using inv same by (auto simp: set_priority_def is_valid_tid_ok)
  next
    case stopped
    then have "set_priority s t p = Inr ?s1"
      using inv by (auto simp: set_priority_def is_valid_tid_ok Let_def)
    moreover have "sched_inv ?s1 Q"
      by (rule sched_inv_update[where th = ?th, OF inv stopped(1)])
        (use stopped p sched_invD[OF inv] sched_invD(6)[OF inv stopped(1)] in auto)
    ultimately show ?thesis using stopped by auto
  next
    case running
    then show ?thesis using set_priority_running[OF inv p running(2,1,3)] by auto
  qed
qed

subsection \<open>Creating threads\<close>

definition free_slot :: "scheduler \<Rightarrow> nat option" where
  "free_slot s = find (\<lambda>t. t_state (th_of s t) = Invalid) [0..<thread_count]"

lemma get_unused_from_ok:
  assumes "sched_inv s Q"
  shows "get_unused_from s i = Inr (find (\<lambda>t. t_state (th_of s t) = Invalid) [i..<thread_count])"
proof (induction "thread_count - i" arbitrary: i)
  case (Suc d)
  then have "i < thread_count" by linarith
  then show ?case
    using Suc.hyps(1)[of "Suc i"] Suc.hyps(2) assms
    by (subst get_unused_from.simps) (simp add: upt_conv_Cons)
qed (simp add: get_unused_from.simps)

lemma get_unused_ok: "sched_inv s Q \<Longrightarrow> get_unused s = Inr (free_slot s)"
  by (simp add: get_unused_def free_slot_def get_unused_from_ok)

lemma free_slotD: "free_slot s = Some t \<Longrightarrow> t < thread_count \<and> t_state (th_of s t) = Invalid"
  unfolding free_slot_def by (drule find_SomeD) auto

lemma free_slot_None: "free_slot s = None \<longleftrightarrow> (\<forall>t<thread_count. t_state (th_of s t) \<noteq> Invalid)"
  by (auto simp: free_slot_def find_None_iff)

lemma create_full: "sched_inv s Q \<Longrightarrow> free_slot s = None \<Longrightarrow> create cl s f a st len p = Inr (s, None)"
  by (simp add: create_def get_unused_ok)

lemma sched_inv_mem: "sched_inv s Q \<Longrightarrow> sched_inv (s\<lparr>mem := m\<rparr>) Q"
  unfolding sched_inv_def queued_def by simp

lemma setup_stack_fields:
  "setup_stack cl th m st len f a = (th', m') \<Longrightarrow>
   t_state th' = t_state th \<and> t_prio th' = t_prio th \<and> t_tid th' = t_tid th \<and>
   t_flags th' = t_flags th \<and> t_deadline th' = t_deadline th"
  by (auto simp: setup_stack_def Let_def)

lemma create_ok:
  fixes cl st len f :: "32 word" and a :: "32 word option" and t p :: nat and s :: scheduler
  assumes inv: "sched_inv s Q" and free: "free_slot s = Some t" and p: "p < sched_prio_levels"
  defines "res \<equiv> setup_stack cl ((th_of s t)\<lparr>t_prio := p, t_tid := t, t_state := Parked\<rparr>) (mem s) st len f a"
  shows "create cl s f a st len p =
      Inr (s\<lparr>threads := (threads s)[t := fst res], mem := snd res\<rparr>, Some t)"
    and "sched_inv (s\<lparr>threads := (threads s)[t := fst res], mem := snd res\<rparr>) Q"
proof -
  have t: "t < thread_count" "t_state (th_of s t) = Invalid"
    using free_slotD[OF free] by auto
  show "create cl s f a st len p =
      Inr (s\<lparr>threads := (threads s)[t := fst res], mem := snd res\<rparr>, Some t)"
    using inv free t by (simp add: create_def get_unused_ok res_def split: prod.splits)
  have fld: "t_state (fst res) = Parked" "t_prio (fst res) = p" "t_tid (fst res) = t"
    using setup_stack_fields[of cl _ "mem s" st len f a "fst res" "snd res"] by (auto simp: res_def)
  show "sched_inv (s\<lparr>threads := (threads s)[t := fst res], mem := snd res\<rparr>) Q"
    by (rule sched_inv_update[where th = "fst res", OF inv t(1)])
      (use fld p t sched_invD[OF inv] in auto)
qed

lemma create_raw_ok:
  assumes inv: "sched_inv s Q" and free: "free_slot s = Some t" and p: "p < sched_prio_levels"
  shows "\<exists>s' th. create_raw cl s f a st len p = Inr (s', t) \<and> sched_inv s' (Q(p := Q p @ [t])) \<and>
    setup_stack cl ((th_of s t)\<lparr>t_prio := p, t_tid := t, t_state := Parked\<rparr>) (mem s) st len f a = (th, mem s') \<and>
    threads s' = (threads s)[t := th\<lparr>t_state := Running\<rparr>] \<and> current_thread s' = current_thread s \<and>
    (pending s' \<longleftrightarrow> pending s \<or> preempts s p)"
proof -
  let ?res = "setup_stack cl ((th_of s t)\<lparr>t_prio := p, t_tid := t, t_state := Parked\<rparr>) (mem s) st len f a"
  let ?th = "fst ?res" and ?m = "snd ?res"
  let ?s = "s\<lparr>threads := (threads s)[t := ?th], mem := ?m\<rparr>"
  have t: "t < thread_count" "t_state (th_of s t) = Invalid"
    using free_slotD[OF free] by auto
  note l = sched_invD(2)[OF inv]
  have fld: "t_state ?th = Parked" "t_prio ?th = p" "t_tid ?th = t"
    using setup_stack_fields[of cl _ "mem s" st len f a ?th ?m] by auto
  have inv': "sched_inv ?s Q"
    using create_ok(2)[OF inv free p] .
  have th: "th_of ?s t = ?th"
    using t l by simp
  have pre: "preempts ?s p \<longleftrightarrow> preempts s p"
    if "current_thread s \<noteq> Some t"
    using that by (auto simp: preempts_def nth_list_update l)
  have pre': "pending s \<or> preempts ?s p \<longleftrightarrow> pending s \<or> preempts s p"
  proof (cases "current_thread s = Some t \<and> \<not> pending s")
    case True
    then show ?thesis
      using sched_inv_first_ready_running(2)[OF inv, of t] t(2) by simp
  next
    case False
    then show ?thesis
      using pre by blast
  qed
  obtain r where r: "set_state ?s t Running = Inr (?s\<lparr>threads := (threads ?s)[t := (th_of ?s t)\<lparr>t_state := Running\<rparr>],
      runq := r, pending := pending ?s \<or> preempts ?s p\<rparr>, Parked)"
    "sched_inv (?s\<lparr>threads := (threads ?s)[t := (th_of ?s t)\<lparr>t_state := Running\<rparr>],
      runq := r, pending := pending ?s \<or> preempts ?s p\<rparr>) (Q(p := Q p @ [t]))"
    using set_state_running[OF inv' t(1)] fld th by auto
  then show ?thesis
    using create_ok(1)[OF inv free p, where cl = cl and st = st and len = len and f = f and a = a] l t pre'
    by (auto simp: create_raw_def intro!: exI[of _ "fst ?res"])
qed

lemma create_raw_full:
  "sched_inv s Q \<Longrightarrow> free_slot s = None \<Longrightarrow> create_raw cl s f a st len p = Inl UnwrapNone"
  by (simp add: create_raw_def create_full)

subsection \<open>Yielding, parking and ending\<close>

lemma yield_same_ok:
  assumes inv: "sched_inv s Q" and c: "current_thread s = Some c"
  defines "p \<equiv> t_prio (th_of s c)"
  shows "\<exists>r. yield_same s = Inr (s\<lparr>runq := r, pending := pending s \<or> 1 < length (Q p)\<rparr>) \<and>
    sched_inv (s\<lparr>runq := r, pending := pending s \<or> 1 < length (Q p)\<rparr>) (Q(p := rotate1 (Q p)))"
proof -
  have p: "p < sched_prio_levels"
    using sched_invD(5)[OF inv sched_invD(7)[OF inv c]] p_def by simp
  obtain r where r: "rq_advance (runq s) p = Inr (r, 1 < length (Q p))"
    "rq_rep sched_prio_levels thread_count r (Q(p := rotate1 (Q p)))"
    using rq.advance[OF sched_invD(1)[OF inv] p] by blast
  let ?s = "s\<lparr>runq := r, pending := pending s \<or> 1 < length (Q p)\<rparr>"
  have "(if 1 < length (Q p) then schedule (s\<lparr>runq := r\<rparr>) else s\<lparr>runq := r\<rparr>) = ?s"
    by (cases s) (simp add: schedule_def)
  then have "yield_same s = Inr ?s"
    using current_ok[OF inv] c r(1) by (simp add: yield_same_def p_def)
  moreover have "sched_inv ?s (Q(p := rotate1 (Q p)))"
    unfolding sched_inv_def
  proof (intro conjI allI impI)
    show "queued ?s (Q(p := rotate1 (Q p)))"
      using inv unfolding sched_inv_def queued_def by (auto simp del: One_nat_def)
    fix d assume d: "current_thread ?s = Some d" "\<not> pending ?s"
    then have "rotate1 (Q p) = Q p"
      by (cases "Q p" rule: list.exhaust) (auto split: list.splits)
    then show "first_ready sched_prio_levels (Q(p := rotate1 (Q p))) = Some d"
      using d sched_invD(8)[OF inv, of d] by simp
  qed (use r(2) sched_invD[OF inv] in auto)
  ultimately show ?thesis by blast
qed

lemma yield_same_idle: "sched_inv s Q \<Longrightarrow> current_thread s = None \<Longrightarrow> yield_same s = Inr s"
  by (simp add: yield_same_def current_ok)

text \<open>The current thread, when no switch is pending, heads its queue.\<close>

lemma current_heads_queue:
  assumes "sched_inv s Q" "current_thread s = Some c" "\<not> pending s"
  obtains ys where "Q (t_prio (th_of s c)) = c # ys" "c < thread_count"
    "\<forall>j < sched_prio_levels. t_prio (th_of s c) < j \<longrightarrow> Q j = []"
proof -
  obtain k ys where k: "Q k = c # ys" "\<forall>j < sched_prio_levels. k < j \<longrightarrow> Q j = []"
    using first_ready_Some[OF sched_invD(8)[OF assms]] by blast
  then have "t_prio (th_of s c) = k"
    using sched_inv_queued(4)[OF assms(1), of c k] by simp
  then show ?thesis
    using that k sched_invD(7)[OF assms(1,2)] by blast
qed

text \<open>
  The running thread blocks or ends: what \<open>park\<close>, \<open>cleanup\<close> and every blocking operation
  of the synchronisation primitives do.
\<close>

lemma set_state_current:
  assumes inv: "sched_inv s Q" and c: "current_thread s = Some c" "\<not> pending s" and st: "st \<noteq> Running"
  shows "\<exists>s' Q'. set_state s c st = Inr (s', Running) \<and> sched_inv s' Q' \<and> pending s' \<and>
    threads s' = (threads s)[c := (th_of s c)\<lparr>t_state := st\<rparr>] \<and> current_thread s' = Some c \<and>
    thread_blocklist s' = thread_blocklist s \<and> Q' = Q(t_prio (th_of s c) := tl (Q (t_prio (th_of s c))))"
proof -
  obtain ys where ys: "Q (t_prio (th_of s c)) = c # ys" "c < thread_count"
    using current_heads_queue[OF inv c] by blast
  then show ?thesis
    using set_state_stop[OF inv ys(2) st ys(1)] c(1) by auto
qed

lemma park_ok:
  assumes "sched_inv s Q" "current_thread s = Some c" "\<not> pending s"
  shows "\<exists>s' Q'. park s = Inr s' \<and> sched_inv s' Q' \<and> pending s' \<and>
    threads s' = (threads s)[c := (th_of s c)\<lparr>t_state := Parked\<rparr>] \<and> current_thread s' = Some c \<and>
    Q' = Q(t_prio (th_of s c) := tl (Q (t_prio (th_of s c))))"
  using set_state_current[OF assms, of Parked] assms(2) by (auto simp: park_def current_tid_def)

lemma cleanup_ok:
  assumes "sched_inv s Q" "current_thread s = Some c" "\<not> pending s"
  shows "\<exists>s' Q'. cleanup s = Inr s' \<and> sched_inv s' Q' \<and> pending s' \<and>
    threads s' = (threads s)[c := (th_of s c)\<lparr>t_state := Invalid\<rparr>] \<and> current_thread s' = Some c \<and>
    Q' = Q(t_prio (th_of s c) := tl (Q (t_prio (th_of s c))))"
  using set_state_current[OF assms, of Invalid] assms(2) by (auto simp: cleanup_def current_tid_def)

text \<open>Waking a thread that is not running and not \<open>Invalid\<close>.\<close>

lemma set_state_wake:
  assumes inv: "sched_inv s Q" and t: "t < thread_count"
    and st: "t_state (th_of s t) \<noteq> Invalid" "t_state (th_of s t) \<noteq> Running"
  defines "p \<equiv> t_prio (th_of s t)"
  shows "\<exists>s' Q'. set_state s t Running = Inr (s', t_state (th_of s t)) \<and> sched_inv s' Q' \<and>
    Q' = Q(p := Q p @ [t]) \<and> threads s' = (threads s)[t := (th_of s t)\<lparr>t_state := Running\<rparr>] \<and>
    current_thread s' = current_thread s \<and> thread_blocklist s' = thread_blocklist s \<and>
    (pending s' \<longleftrightarrow> pending s \<or> preempts s p)"
  using set_state_running[OF inv t sched_invD(6)[OF inv t st(1)]] st(2) unfolding p_def by auto

lemma unpark_ok:
  fixes s :: scheduler and t :: nat
  assumes inv: "sched_inv s Q"
  defines "parked \<equiv> t < thread_count \<and> t_state (th_of s t) = Parked"
  shows "\<exists>s' Q'. unpark s t = Inr (s', parked) \<and> sched_inv s' Q' \<and> current_thread s' = current_thread s \<and>
    threads s' = (if parked then (threads s)[t := (th_of s t)\<lparr>t_state := Running\<rparr>] else threads s) \<and>
    (pending s' \<longleftrightarrow> pending s \<or> parked \<and> preempts s (t_prio (th_of s t)))"
proof (cases parked)
  case True
  then have "t < thread_count" "t_state (th_of s t) = Parked"
    by (auto simp: parked_def)
  then show ?thesis
    using set_state_wake[OF inv, of t] True inv by (auto simp: unpark_def get_state_ok)
next
  case False
  then have "unpark s t = Inr (s, False)"
    using inv by (auto simp: unpark_def get_state_ok parked_def)
  then show ?thesis
    using False inv by auto
qed

subsection \<open>The context switch\<close>

definition saved_ctx :: "scheduler \<Rightarrow> nat \<Rightarrow> 32 word \<times> 32 word list" where
  "saved_ctx s t = (t_sp (th_of s t), t_high_regs (th_of s t))"

lemma pend_sv_idle:
  assumes "sched_inv s Q" "first_ready sched_prio_levels Q = None"
  shows "pend_sv s = Inr None"
  using rq.get_next[OF sched_invD(1)[OF assms(1)]] assms(2) by (simp add: pend_sv_def sched_def)

lemma pend_sv_same:
  assumes "sched_inv s Q" "first_ready sched_prio_levels Q = Some n" "current_thread s = Some n"
  shows "pend_sv s = Inr (Some (s\<lparr>pending := False\<rparr>))"
  using rq.get_next[OF sched_invD(1)[OF assms(1)]] assms(2,3) by (simp add: pend_sv_def sched_def)

lemma first_ready_less:
  "sched_inv s Q \<Longrightarrow> first_ready sched_prio_levels Q = Some n \<Longrightarrow> n < thread_count"
  by (metis first_ready_Some list.set_intros(1) sched_inv_queued(1))

lemma pend_sv_first:
  assumes "sched_inv s Q" "first_ready sched_prio_levels Q = Some n" "current_thread s = None"
  shows "pend_sv s = Inr (Some (s\<lparr>current_thread := Some n, psp := t_sp (th_of s n), pending := False\<rparr>))"
  using rq.get_next[OF sched_invD(1)[OF assms(1)]] assms first_ready_less[OF assms(1,2)]
  by (simp add: pend_sv_def sched_def)

lemma pend_sv_switch:
  assumes inv: "sched_inv s Q" and n: "first_ready sched_prio_levels Q = Some n"
    and c: "current_thread s = Some c" "n \<noteq> c"
  shows "pend_sv s = Inr (Some (s\<lparr>threads := (threads s)[c := (th_of s c)\<lparr>t_sp := psp s, t_high_regs := high_regs s\<rparr>],
      current_thread := Some n, psp := fst (saved_ctx s n), high_regs := snd (saved_ctx s n), pending := False\<rparr>))"
proof -
  have cn: "c < thread_count" "n < thread_count"
    using sched_invD(7)[OF inv c(1)] first_ready_less[OF inv n] by auto
  note l = sched_invD(2)[OF inv]
  have "sched s = Inr (Some (s\<lparr>current_thread := Some n, threads := (threads s)[c := (th_of s c)\<lparr>t_sp := psp s\<rparr>],
      psp := t_sp (th_of s n)\<rparr>, Some c, Some n))"
    using rq.get_next[OF sched_invD(1)[OF inv]] n c cn l
    by (simp add: sched_def upd_thread_def get_unchecked_def)
  then show ?thesis
    using c cn l by (cases s) (simp add: pend_sv_def upd_thread_def get_unchecked_def saved_ctx_def)
qed

text \<open>What every round of the handler that finds a ready thread establishes.\<close>

lemma pend_sv_ok:
  assumes inv: "sched_inv s Q" and n: "first_ready sched_prio_levels Q = Some n"
  shows "\<exists>s'. pend_sv s = Inr (Some s') \<and> sched_inv s' Q \<and> current_thread s' = Some n \<and> \<not> pending s' \<and>
    runq s' = runq s \<and> thread_blocklist s' = thread_blocklist s \<and>
    (\<forall>t. t_state (th_of s' t) = t_state (th_of s t) \<and> t_prio (th_of s' t) = t_prio (th_of s t))"
proof -
  have inv0: "sched_inv (s'\<lparr>current_thread := Some n, psp := x, high_regs := y, pending := False\<rparr>) Q"
    if "sched_inv s' Q" for s' x y
    using that n first_ready_less[OF that n] unfolding sched_inv_def queued_def by simp
  have inv1: "sched_inv (s'\<lparr>current_thread := Some n, psp := x, pending := False\<rparr>) Q"
    if "sched_inv s' Q" for s' x
    using that n first_ready_less[OF that n] unfolding sched_inv_def queued_def by simp
  have inv2: "sched_inv (s\<lparr>pending := False\<rparr>) Q" if "current_thread s = Some n"
    using inv n first_ready_less[OF inv n] that unfolding sched_inv_def queued_def by simp
  consider "current_thread s = None" | "current_thread s = Some n"
    | c where "current_thread s = Some c" "n \<noteq> c"
    by (cases "current_thread s") auto
  then show ?thesis
  proof cases
    case 1
    then show ?thesis
      using pend_sv_first[OF inv n] inv1[OF inv] by simp
  next
    case 2
    then show ?thesis
      using pend_sv_same[OF inv n] inv2 by simp
  next
    case 3
    let ?th = "(th_of s c)\<lparr>t_sp := psp s, t_high_regs := high_regs s\<rparr>"
    have c: "c < thread_count"
      using sched_invD(7)[OF inv 3(1)] .
    have "sched_inv (s\<lparr>threads := (threads s)[c := ?th]\<rparr>) Q"
      by (rule sched_inv_thread_data[OF inv c]) auto
    from inv0[OF this, where x = "fst (saved_ctx s n)" and y = "snd (saved_ctx s n)"] show ?thesis
      using pend_sv_switch[OF inv n 3] c sched_invD(2)[OF inv] by (auto simp: nth_list_update)
  qed
qed

lemma first_ready_highest:
  assumes inv: "sched_inv s Q" and n: "first_ready sched_prio_levels Q = Some n"
    and t: "t < thread_count" "t_state (th_of s t) = Running"
  shows "t_prio (th_of s t) \<le> t_prio (th_of s n)"
proof -
  obtain k ts where k: "k < sched_prio_levels" "Q k = n # ts" "\<forall>j < sched_prio_levels. k < j \<longrightarrow> Q j = []"
    using first_ready_Some[OF n] by blast
  have "t_prio (th_of s n) = k"
    using sched_inv_queued(4)[OF inv, of n k] k(2) by simp
  moreover have "Q (t_prio (th_of s t)) \<noteq> []"
    using sched_invD(4)[OF inv t(1), of "t_prio (th_of s t)"] t(2) by auto
  ultimately show ?thesis
    using k(3) sched_invD(5)[OF inv t(1)] not_le by blast
qed

lemma first_ready_None_iff:
  assumes inv: "sched_inv s Q"
  shows "first_ready sched_prio_levels Q = None \<longleftrightarrow> (\<forall>t<thread_count. t_state (th_of s t) \<noteq> Running)"
proof -
  have "(\<exists>q < sched_prio_levels. Q q \<noteq> []) \<longleftrightarrow> (\<exists>t<thread_count. t_state (th_of s t) = Running)"
  proof
    assume "\<exists>q < sched_prio_levels. Q q \<noteq> []"
    then obtain q where "hd (Q q) \<in> set (Q q)"
      by (meson hd_in_set)
    then show "\<exists>t<thread_count. t_state (th_of s t) = Running"
      using sched_inv_queued[OF inv] by blast
  next
    assume "\<exists>t<thread_count. t_state (th_of s t) = Running"
    then obtain t where t: "t < thread_count" "t_state (th_of s t) = Running" by blast
    then have "t \<in> set (Q (t_prio (th_of s t)))"
      using sched_invD(4)[OF inv] by simp
    then show "\<exists>q < sched_prio_levels. Q q \<noteq> []"
      using sched_invD(5)[OF inv t(1)] by (metis empty_iff empty_set)
  qed
  then show ?thesis
    by (auto simp: first_ready_None)
qed

end
