(* ===== verification/Kernel.thy ===== *)
theory Kernel
  imports SchedulerSpec
begin

section \<open>The kernel as a transition system\<close>

text \<open>
  What can happen to the scheduler state, in any order: threads are created and started, the
  running thread computes, yields, parks, blocks or returns, any context (interrupts included)
  wakes threads, changes priorities, flags, deadlines and wait-list links, and the PendSV handler
  runs when it is pending.  Calls of
  the running thread happen only while no switch is pending, because PendSV preempts thread mode
  as soon as the critical section that requested it ends.
\<close>

inductive kstep :: "scheduler \<Rightarrow> scheduler \<Rightarrow> bool" where
  create: "create_raw cl s f a st len p = Inr (s', t) \<Longrightarrow> p < sched_prio_levels \<Longrightarrow> kstep s s'"
| start: "kstep s (schedule s)"
| run: "current_thread s = Some c \<Longrightarrow> \<not> pending s \<Longrightarrow> kstep s (s\<lparr>psp := x, high_regs := rs, mem := m\<rparr>)"
| data: "t < thread_count \<Longrightarrow> length bl = thread_count \<Longrightarrow>
    kstep s (s\<lparr>threads := (threads s)[t := (th_of s t)\<lparr>t_flags := fl, t_deadline := d\<rparr>], thread_blocklist := bl\<rparr>)"
| yield: "yield_same s = Inr s' \<Longrightarrow> kstep s s'"
| park: "current_thread s = Some c \<Longrightarrow> \<not> pending s \<Longrightarrow> park s = Inr s' \<Longrightarrow> kstep s s'"
| cleanup: "current_thread s = Some c \<Longrightarrow> \<not> pending s \<Longrightarrow> cleanup s = Inr s' \<Longrightarrow> kstep s s'"
| block: "current_thread s = Some c \<Longrightarrow> \<not> pending s \<Longrightarrow> st \<noteq> Running \<Longrightarrow>
    set_state s c st = Inr (s', old) \<Longrightarrow> kstep s s'"
| wake: "t < thread_count \<Longrightarrow> t_state (th_of s t) \<noteq> Invalid \<Longrightarrow> t_state (th_of s t) \<noteq> Running \<Longrightarrow>
    set_state s t Running = Inr (s', old) \<Longrightarrow> kstep s s'"
| unpark: "unpark s t = Inr (s', b) \<Longrightarrow> kstep s s'"
| prio: "p < sched_prio_levels \<Longrightarrow> set_priority s t p = Inr s' \<Longrightarrow> kstep s s'"
| switch: "pending s \<Longrightarrow> pend_sv s = Inr (Some s') \<Longrightarrow> kstep s s'"

inductive_cases kstepE: "kstep s s'"

definition reachable :: "scheduler \<Rightarrow> bool" where
  "reachable s \<longleftrightarrow> kstep\<^sup>*\<^sup>* scheduler_new s"

subsection \<open>Every step keeps the invariant\<close>

lemma sched_inv_machine: "sched_inv s Q \<Longrightarrow> sched_inv (s\<lparr>psp := x, high_regs := rs, mem := m\<rparr>) Q"
  unfolding sched_inv_def queued_def by simp

lemma create_raw_Inr:
  assumes inv: "sched_inv s Q" and p: "p < sched_prio_levels"
    and c: "create_raw cl s f a st len p = Inr (s', t)"
  shows "free_slot s = Some t"
proof (cases "free_slot s")
  case None
  then show ?thesis
    using create_raw_full[OF inv None] c by simp
next
  case (Some u)
  then show ?thesis
    using create_raw_ok[OF inv Some p, of cl f a st len] c by auto
qed

lemma pend_sv_Inr:
  assumes "sched_inv s Q" "pend_sv s = Inr (Some s')"
  obtains n where "first_ready sched_prio_levels Q = Some n" "sched_inv s' Q"
    "current_thread s' = Some n" "\<not> pending s'"
proof (cases "first_ready sched_prio_levels Q")
  case None
  then show ?thesis
    using pend_sv_idle[OF assms(1)] assms(2) by simp
next
  case (Some n)
  then show ?thesis
    using pend_sv_ok[OF assms(1) Some] assms(2) that by auto
qed

lemma kstep_inv:
  assumes "kstep s s'" "sched_inv s Q"
  shows "\<exists>Q'. sched_inv s' Q'"
  using assms
proof (cases rule: kstep.cases)
  case (create cl f a st len p t)
  then show ?thesis
    using create_raw_ok[OF assms(2) create_raw_Inr[OF assms(2) create(2,1)] create(2), of cl f a st len]
    by auto
next
  case start
  then show ?thesis
    using sched_inv_pending[OF assms(2)] by blast
next
  case run
  then show ?thesis
    using sched_inv_machine[OF assms(2)] by blast
next
  case (data t bl d fl)
  then show ?thesis
    using sched_inv_blocklist[OF sched_inv_thread_data[OF assms(2), of t "(th_of s t)\<lparr>t_flags := fl, t_deadline := d\<rparr>"], of bl]
    by auto
next
  case yield
  then show ?thesis
    using yield_same_ok[OF assms(2)] yield_same_idle[OF assms(2)] assms(2)
    by (cases "current_thread s") (auto simp del: One_nat_def)
next
  case park
  then show ?thesis
    using park_ok[OF assms(2)] by fastforce
next
  case cleanup
  then show ?thesis
    using cleanup_ok[OF assms(2)] by fastforce
next
  case block
  then show ?thesis
    using set_state_current[OF assms(2)] by fastforce
next
  case wake
  then show ?thesis
    using set_state_wake[OF assms(2)] by fastforce
next
  case (unpark t b)
  then show ?thesis
    using unpark_ok[OF assms(2), of t] by auto
next
  case (prio p t)
  then show ?thesis
    using set_priority_ok[OF assms(2), of p t] by auto
next
  case switch
  then show ?thesis
    using pend_sv_Inr[OF assms(2)] by metis
qed

lemma ksteps_inv: "kstep\<^sup>*\<^sup>* s s' \<Longrightarrow> sched_inv s Q \<Longrightarrow> \<exists>Q'. sched_inv s' Q'"
  by (induction rule: rtranclp_induct) (auto dest: kstep_inv)

lemma reachable_inv: "reachable s \<Longrightarrow> \<exists>Q. sched_inv s Q"
  using ksteps_inv[OF _ sched_inv_new] by (auto simp: reachable_def)

lemma reachable_step: "reachable s \<Longrightarrow> kstep s s' \<Longrightarrow> reachable s'"
  by (auto simp: reachable_def)

text \<open>A booted system: one thread, started.\<close>

lemma reachable_boot:
  assumes "p < sched_prio_levels"
  shows "\<exists>s. reachable s \<and> current_thread s = Some 0 \<and> \<not> pending s \<and>
    t_state (th_of s 0) = Running \<and> t_prio (th_of s 0) = p \<and> sched_inv s ((\<lambda>_. [])(p := [0])) \<and>
    free_slot s = Some 1"
proof -
  note inv = sched_inv_new
  have "free_slot scheduler_new = Some 0"
    by (simp add: free_slot_def scheduler_new_def thread_count_def thread_default_def upt_conv_Cons)
  from create_raw_ok[OF inv this assms] obtain s1 th where
    s1: "create_raw 0 scheduler_new 0 None 0 40 p = Inr (s1, 0)" "sched_inv s1 ((\<lambda>_. [])(p := [0]))"
    "threads s1 = (threads scheduler_new)[0 := th\<lparr>t_state := Running\<rparr>]" "current_thread s1 = None"
    by (fastforce simp: scheduler_new_def)
  let ?Q = "(\<lambda>_. [])(p := [0::nat])"
  have f: "first_ready sched_prio_levels ?Q = Some 0"
    using assms by (intro first_readyI[of p _ _ _ "[]"]) auto
  have inv2: "sched_inv (schedule s1) ?Q"
    using sched_inv_pending[OF s1(2)] .
  obtain s2 where s2: "pend_sv (schedule s1) = Inr (Some s2)" "sched_inv s2 ?Q"
    "current_thread s2 = Some 0" "\<not> pending s2" "\<forall>t. t_state (th_of s2 t) = t_state (th_of s1 t)"
    using pend_sv_ok[OF inv2 f] by (auto simp: schedule_def)
  have "reachable scheduler_new"
    by (simp add: reachable_def)
  then have "reachable s1"
    using reachable_step kstep.create[OF s1(1) assms] by blast
  then have "reachable (schedule s1)"
    using reachable_step kstep.start by blast
  then have "reachable s2"
    using reachable_step kstep.switch[of "schedule s1" s2] s2(1) by (simp add: schedule_def)
  moreover have "t_state (th_of s2 0) = Running" "t_prio (th_of s2 0) = p"
    using sched_inv_queued[OF s2(2), of 0 p] by simp_all
  moreover have "t_state (th_of s2 1) = Invalid"
    using s2(5) s1(3) by (simp add: scheduler_new_def thread_default_def thread_count_def)
  then have "free_slot s2 = Some 1"
    using \<open>t_state (th_of s2 0) = Running\<close>
    by (simp add: free_slot_def thread_count_def upt_conv_Cons)
  ultimately show ?thesis
    using s2 by blast
qed

subsection \<open>The running thread has the highest priority\<close>

text \<open>
  C1: fixed-priority scheduling.  Whenever no context switch is pending, the current thread is
  ready and no ready thread has a higher priority, whatever sequence of thread creations, yields,
  blocking, wake-ups, priority changes and context switches led there.
\<close>

theorem highest_priority_runs:
  assumes "reachable s" "current_thread s = Some c" "\<not> pending s"
  shows "c < thread_count \<and> t_state (th_of s c) = Running \<and>
    (\<forall>t<thread_count. t_state (th_of s t) = Running \<longrightarrow> t_prio (th_of s t) \<le> t_prio (th_of s c))"
proof -
  obtain Q where inv: "sched_inv s Q"
    using reachable_inv[OF assms(1)] by blast
  show ?thesis
    using sched_invD(7)[OF inv assms(2)] sched_inv_first_ready_running(2)[OF inv assms(2,3)]
      first_ready_highest[OF inv sched_invD(8)[OF inv assms(2,3)]] by blast
qed

lemma highest_priority_runs_witness:
  "\<exists>s. reachable s \<and> current_thread s = Some 0 \<and> \<not> pending s \<and> t_prio (th_of s 0) = 3 \<and>
     t_state (th_of s 0) = Running \<and>
     (\<forall>t<thread_count. t_state (th_of s t) = Running \<longrightarrow> t_prio (th_of s t) \<le> 3)"
proof -
  obtain s where s: "reachable s" "current_thread s = Some 0" "\<not> pending s" "t_prio (th_of s 0) = 3"
    using reachable_boot[of 3] by (auto simp: sched_prio_levels_def thread_count_def)
  from highest_priority_runs[OF s(1-3)] show ?thesis
    using s by auto
qed

subsection \<open>No operation panics\<close>



subsection \<open>The context of a thread survives until it runs again\<close>

lemma saved_ctx_upd:
  "threads s' = (threads s)[u := th] \<Longrightarrow> u < length (threads s) \<Longrightarrow> t \<noteq> u \<or>
     t_sp th = t_sp (th_of s t) \<and> t_high_regs th = t_high_regs (th_of s t) \<and> t_state th \<noteq> Invalid \<Longrightarrow>
   t_state (th_of s t) \<noteq> Invalid \<Longrightarrow>
   saved_ctx s' t = saved_ctx s t \<and> t_state (th_of s' t) \<noteq> Invalid"
  by (cases "t = u") (auto simp: saved_ctx_def)

lemma pend_sv_threads:
  assumes inv: "sched_inv s Q" and e: "pend_sv s = Inr (Some s')"
  shows "threads s' = threads s \<or> (\<exists>c. current_thread s = Some c \<and> c < thread_count \<and>
    threads s' = (threads s)[c := (th_of s c)\<lparr>t_sp := psp s, t_high_regs := high_regs s\<rparr>])"
proof -
  obtain n where n: "first_ready sched_prio_levels Q = Some n"
    using pend_sv_Inr[OF inv e] by blast
  consider "current_thread s = None" | "current_thread s = Some n"
    | c where "current_thread s = Some c" "n \<noteq> c"
    by (cases "current_thread s") auto
  then show ?thesis
  proof cases
    case 1
    then show ?thesis
      using pend_sv_first[OF inv n] e by auto
  next
    case 2
    then show ?thesis
      using pend_sv_same[OF inv n] e by auto
  next
    case 3
    then show ?thesis
      using pend_sv_switch[OF inv n 3] e sched_invD(7)[OF inv 3(1)] by auto
  qed
qed

lemma kstep_ctx:
  assumes "kstep s s'" and inv: "sched_inv s Q" and t: "t_state (th_of s t) \<noteq> Invalid" "current_thread s \<noteq> Some t"
    and cur: "current_thread s \<noteq> None"
  shows "saved_ctx s' t = saved_ctx s t \<and> t_state (th_of s' t) \<noteq> Invalid \<and> current_thread s' \<noteq> None"
proof -
  note l = sched_invD(2)[OF inv]
  note cl = sched_invD(7)[OF inv]
  have same: ?thesis if "threads s' = threads s" "current_thread s' \<noteq> None"
    using that t by (simp add: saved_ctx_def)
  have upd: ?thesis if "threads s' = (threads s)[u := th]" "u < thread_count" "current_thread s' \<noteq> None"
    "t \<noteq> u \<or> t_sp th = t_sp (th_of s t) \<and> t_high_regs th = t_high_regs (th_of s t) \<and> t_state th \<noteq> Invalid" for u th
    using saved_ctx_upd[OF that(1) _ that(4) t(1)] that(2,3) l by auto
  from assms(1) show ?thesis
  proof (cases rule: kstep.cases)
    case (create cl f a st len p u)
    note free = create_raw_Inr[OF inv create(2,1)]
    obtain th where "threads s' = (threads s)[u := th]" "current_thread s' = current_thread s"
      using create_raw_ok[OF inv free create(2), of cl f a st len] create(1) by auto
    then show ?thesis
      using upd[of u th] free_slotD[OF free] t cur by auto
  next
    case start
    then show ?thesis
      using same cur by (simp add: schedule_def)
  next
    case run
    then show ?thesis
      using same cur by simp
  next
    case (data u bl d fl)
    then show ?thesis
      using upd[of u "(th_of s u)\<lparr>t_flags := fl, t_deadline := d\<rparr>"] cur t by auto
  next
    case yield
    obtain c where "current_thread s = Some c"
      using cur by blast
    then show ?thesis
      using yield_same_ok[OF inv, of c] yield same cur by (auto simp del: One_nat_def)
  next
    case (park c)
    then show ?thesis
      using park_ok[OF inv park(1,2)] upd[of c "(th_of s c)\<lparr>t_state := Parked\<rparr>"] t cl by auto
  next
    case (cleanup c)
    then show ?thesis
      using cleanup_ok[OF inv cleanup(1,2)] upd[of c "(th_of s c)\<lparr>t_state := Invalid\<rparr>"] t cl by auto
  next
    case (block c st old)
    then show ?thesis
      using set_state_current[OF inv block(1-3)] upd[of c "(th_of s c)\<lparr>t_state := st\<rparr>"] t cl by auto
  next
    case (wake u old)
    then show ?thesis
      using set_state_wake[OF inv wake(1-3)] upd[of u "(th_of s u)\<lparr>t_state := Running\<rparr>"] cur by auto
  next
    case (unpark u b)
    then show ?thesis
      using unpark_ok[OF inv, of u] upd[of u "(th_of s u)\<lparr>t_state := Running\<rparr>"] same cur
      by (auto split: if_splits)
  next
    case (prio p u)
    then show ?thesis
      using set_priority_ok[OF inv prio(1), of u] upd[of u "(th_of s u)\<lparr>t_prio := p\<rparr>"] same cur t
      by (cases "u = t") (auto split: if_splits)
  next
    case switch
    obtain n where "current_thread s' = Some n"
      using pend_sv_Inr[OF inv switch(2)] by blast
    then show ?thesis
      using pend_sv_threads[OF inv switch(2)] same upd t by auto
  qed
qed

definition away :: "nat \<Rightarrow> scheduler \<Rightarrow> scheduler \<Rightarrow> bool" where
  "away c s s' \<longleftrightarrow> kstep s s' \<and> current_thread s' \<noteq> Some c"

lemma away_ctx:
  "(away c)\<^sup>*\<^sup>* s s' \<Longrightarrow> sched_inv s Q \<Longrightarrow> t_state (th_of s c) \<noteq> Invalid \<Longrightarrow> current_thread s \<noteq> Some c \<Longrightarrow>
   current_thread s \<noteq> None \<Longrightarrow>
   saved_ctx s' c = saved_ctx s c \<and> t_state (th_of s' c) \<noteq> Invalid \<and> current_thread s' \<noteq> None \<and>
   current_thread s' \<noteq> Some c \<and> (\<exists>Q'. sched_inv s' Q')"
proof (induction rule: rtranclp_induct)
  case (step u v)
  then obtain Q' where "sched_inv u Q'" by blast
  then show ?case
    using step kstep_ctx[of u v Q' c] kstep_inv[of u v Q'] by (auto simp: away_def)
qed blast

text \<open>
  C9: context switching is transparent.  When PendSV takes the processor from a live thread
  \<open>c\<close> and, after any run of the system in which \<open>c\<close> is not scheduled, gives it back, the
  stack pointer and the callee-saved registers are those \<open>c\<close> had when it was preempted.
\<close>

theorem context_survives:
  assumes "reachable s" "current_thread s = Some c" "t_state (th_of s c) \<noteq> Invalid"
    and "pend_sv s = Inr (Some s1)" "current_thread s1 \<noteq> Some c"
    and "(away c)\<^sup>*\<^sup>* s1 s2"
    and "pend_sv s2 = Inr (Some s3)" "current_thread s3 = Some c"
  shows "psp s3 = psp s \<and> high_regs s3 = high_regs s"
proof -
  obtain Q where inv: "sched_inv s Q"
    using reachable_inv[OF assms(1)] by blast
  obtain n where n: "first_ready sched_prio_levels Q = Some n" "sched_inv s1 Q" "current_thread s1 = Some n"
    using pend_sv_Inr[OF inv assms(4)] by blast
  have "n \<noteq> c" "c < thread_count"
    using n(3) assms(5) sched_invD(7)[OF inv assms(2)] by auto
  then have s1: "saved_ctx s1 c = (psp s, high_regs s)" "t_state (th_of s1 c) \<noteq> Invalid"
    using pend_sv_switch[OF inv n(1) assms(2)] assms(3,4) sched_invD(2)[OF inv]
    by (auto simp: saved_ctx_def)
  obtain Q2 where s2: "saved_ctx s2 c = (psp s, high_regs s)" "sched_inv s2 Q2"
    "current_thread s2 \<noteq> Some c" "current_thread s2 \<noteq> None"
    using away_ctx[OF assms(6) n(2) s1(2)] s1(1) n(3) assms(5) by auto
  obtain d where d: "current_thread s2 = Some d" "c \<noteq> d"
    using s2(3,4) by auto
  have "first_ready sched_prio_levels Q2 = Some c"
    using pend_sv_Inr[OF s2(2) assms(7)] assms(8) by auto
  then show ?thesis
    using pend_sv_switch[OF s2(2) _ d] assms(7) s2(1) by auto
qed

lemma context_survives_witness:
  "\<exists>s s1 s2 s3. reachable s \<and> current_thread s = Some 0 \<and> current_thread s1 = Some 1 \<and>
     pend_sv s = Inr (Some s1) \<and> (away 0)\<^sup>*\<^sup>* s1 s2 \<and> pend_sv s2 = Inr (Some s3) \<and>
     psp s3 = psp s \<and> high_regs s3 = high_regs s"
proof -
  let ?Q0 = "(\<lambda>_. [])(3 := [0::nat])" and ?Q1 = "(\<lambda>_. [])(3 := [0], 5 := [1::nat])"
  have lv: "sched_prio_levels = 16" "thread_count = 16"
    by (simp_all add: sched_prio_levels_def thread_count_def)
  obtain s0 where s0: "reachable s0" "current_thread s0 = Some 0" "\<not> pending s0" "sched_inv s0 ?Q0"
    "free_slot s0 = Some 1" "t_prio (th_of s0 0) = 3"
    using reachable_boot[of 3] lv by auto
  obtain s th where s: "create_raw 0 s0 0 None 100 40 5 = Inr (s, 1)" "sched_inv s ?Q1"
    "threads s = (threads s0)[1 := th]" "current_thread s = Some 0" "pending s"
    using create_raw_ok[OF s0(4,5), of 5 0 0 None 100 40] s0(2,6) lv by (auto simp: preempts_def)
  have rs: "reachable s"
    using reachable_step[OF s0(1) kstep.create[OF s(1)]] lv by simp
  have run: "t_state (th_of s 0) \<noteq> Invalid"
    using sched_inv_queued(3)[OF s(2), of 0 3] by simp
  have f1: "first_ready sched_prio_levels ?Q1 = Some 1"
    using lv by (intro first_readyI[of 5 _ _ _ "[]"]) auto
  obtain s1 where s1: "pend_sv s = Inr (Some s1)" "sched_inv s1 ?Q1" "current_thread s1 = Some 1" "\<not> pending s1"
    using pend_sv_ok[OF s(2) f1] by blast
  have "t_prio (th_of s1 1) = 5"
    using sched_inv_queued(4)[OF s1(2), of 1 5] by simp
  then obtain s2 where s2: "park s1 = Inr s2" "sched_inv s2 (?Q1(5 := []))" "current_thread s2 = Some 1"
    using park_ok[OF s1(2,3,4)] by auto
  have f2: "first_ready sched_prio_levels (?Q1(5 := [])) = Some 0"
    using lv by (intro first_readyI[of 3 _ _ _ "[]"]) auto
  obtain s3 where s3: "pend_sv s2 = Inr (Some s3)" "current_thread s3 = Some 0"
    using pend_sv_ok[OF s2(2) f2] by blast
  have "(away 0)\<^sup>*\<^sup>* s1 s2"
    using kstep.park[OF s1(3,4) s2(1)] s2(3) by (simp add: away_def r_into_rtranclp)
  moreover from context_survives[OF rs s(4) run s1(1) _ this s3(1,2)] s1(3)
  have "psp s3 = psp s \<and> high_regs s3 = high_regs s"
    by simp
  ultimately show ?thesis
    using rs s(4) s1(1,3) s3(1) by blast
qed

subsection \<open>Round robin among equals\<close>

text \<open>
  What \<open>yield_same\<close> does as seen by the yielding thread: if it requested a switch, the handler
  runs before the next instruction of thread mode.
\<close>

definition yield_switch :: "scheduler \<Rightarrow> panic + scheduler option" where
  "yield_switch s =
     bnd (yield_same s) (\<lambda>s. if pending s then pend_sv s else Inr (Some s))"

primrec yield_times :: "nat \<Rightarrow> scheduler \<Rightarrow> panic + scheduler option" where
  "yield_times 0 s = Inr (Some s)"
| "yield_times (Suc k) s =
     bnd (yield_switch s) (\<lambda>r. case r of None \<Rightarrow> Inr None | Some s \<Rightarrow> yield_times k s)"

lemma yield_switch_ok:
  assumes inv: "sched_inv s Q" and c: "current_thread s = Some c" "\<not> pending s"
    and q: "Q p = c # ys" "\<forall>j < sched_prio_levels. p < j \<longrightarrow> Q j = []"
  shows "\<exists>s'. yield_switch s = Inr (Some s') \<and> current_thread s' = Some (hd (ys @ [c])) \<and> \<not> pending s' \<and>
    sched_inv s' (Q(p := ys @ [c]))"
proof -
  have p: "t_prio (th_of s c) = p" "p < sched_prio_levels"
    using sched_inv_queued[OF inv, of c p] q(1) by simp_all
  obtain r where r: "yield_same s = Inr (s\<lparr>runq := r, pending := ys \<noteq> []\<rparr>)"
    "sched_inv (s\<lparr>runq := r, pending := ys \<noteq> []\<rparr>) (Q(p := ys @ [c]))"
    using yield_same_ok[OF inv c(1)] p q(1) c(2) by auto
  show ?thesis
  proof (cases ys)
    case Nil
    then show ?thesis
      using r c by (auto simp: yield_switch_def)
  next
    case (Cons d zs)
    have "first_ready sched_prio_levels (Q(p := ys @ [c])) = Some d"
      using Cons q(2) p(2) by (intro first_readyI[of p _ _ _ "zs @ [c]"]) auto
    from pend_sv_ok[OF r(2) this] show ?thesis
      using r(1) Cons by (auto simp: yield_switch_def)
  qed
qed

lemma yield_times_ok:
  assumes "sched_inv s Q" "current_thread s = Some c" "\<not> pending s"
    and "Q p = c # ys" "\<forall>j < sched_prio_levels. p < j \<longrightarrow> Q j = []"
  shows "\<exists>s'. yield_times k s = Inr (Some s') \<and> current_thread s' = Some (hd (rotate k (c # ys)))"
  using assms
proof (induction k arbitrary: s Q c ys)
  case (Suc k)
  obtain s1 where s1: "yield_switch s = Inr (Some s1)" "current_thread s1 = Some (hd (ys @ [c]))"
    "\<not> pending s1" "sched_inv s1 (Q(p := ys @ [c]))"
    using yield_switch_ok[OF Suc.prems] by blast
  obtain d zs where d: "ys @ [c] = d # zs"
    by (cases ys) auto
  then obtain s' where "yield_times k s1 = Inr (Some s')" "current_thread s' = Some (hd (rotate k (d # zs)))"
    using Suc.IH[OF s1(4), of d zs] s1(2,3) Suc.prems(5) by auto
  moreover have "rotate (Suc k) (c # ys) = rotate k (d # zs)"
    by (metis d rotate1.simps(2) rotate1_rotate_swap rotate_Suc)
  ultimately show ?case
    using s1(1) by simp
qed simp

text \<open>
  C17: cooperative round robin.  The ready threads of the current thread's priority take turns:
  there is a fixed order of them, starting with the current one, in which they become current
  when every current thread yields, and after as many yields as there are such threads it is the
  first one's turn again.
\<close>

theorem yield_round_robin:
  assumes "reachable s" "current_thread s = Some c" "\<not> pending s"
  shows "\<exists>ts. distinct ts \<and> hd ts = c \<and>
    set ts = {t. t < thread_count \<and> t_state (th_of s t) = Running \<and> t_prio (th_of s t) = t_prio (th_of s c)} \<and>
    (\<forall>k. \<exists>s'. yield_times k s = Inr (Some s') \<and> current_thread s' = Some (ts ! (k mod length ts)))"
proof -
  obtain Q where inv: "sched_inv s Q"
    using reachable_inv[OF assms(1)] by blast
  let ?p = "t_prio (th_of s c)"
  obtain ys where ys: "Q ?p = c # ys" "\<forall>j < sched_prio_levels. ?p < j \<longrightarrow> Q j = []"
    using current_heads_queue[OF inv assms(2,3)] by blast
  have "hd (rotate k (c # ys)) = (c # ys) ! (k mod length (c # ys))" for k
    by (rule hd_rotate_conv_nth) simp
  then have "\<exists>s'. yield_times k s = Inr (Some s') \<and> current_thread s' = Some ((c # ys) ! (k mod length (c # ys)))" for k
    using yield_times_ok[OF inv assms(2,3) ys, of k] by simp
  moreover have "distinct (c # ys)"
    using rq.rep_wf[OF sched_invD(1)[OF inv], of ?p] ys(1) by simp
  moreover have "set (c # ys) =
      {t. t < thread_count \<and> t_state (th_of s t) = Running \<and> t_prio (th_of s t) = ?p}"
  proof (rule set_eqI)
    fix t
    show "t \<in> set (c # ys) \<longleftrightarrow>
        t \<in> {t. t < thread_count \<and> t_state (th_of s t) = Running \<and> t_prio (th_of s t) = ?p}"
      using sched_inv_queued(1)[OF inv, of t ?p] sched_invD(4)[OF inv, of t ?p] ys(1) by fastforce
  qed
  ultimately show ?thesis
    by (intro exI[of _ "c # ys"]) simp
qed

lemma yield_round_robin_witness:
  "\<exists>s ts. reachable s \<and> current_thread s = Some 0 \<and> hd ts = 0 \<and>
     (\<forall>k. \<exists>s'. yield_times k s = Inr (Some s') \<and> current_thread s' = Some (ts ! (k mod length ts)))"
proof -
  obtain s where s: "reachable s" "current_thread s = Some 0" "\<not> pending s"
    using reachable_boot[of 3] by (auto simp: sched_prio_levels_def thread_count_def)
  from yield_round_robin[OF this] show ?thesis
    using s(1,2) by blast
qed

end
