(* ===== verification/Smp.thy ===== *)
theory Smp
  imports Scheduler "HOL-Library.Option_ord"
begin

unbundle bit_operations_syntax

section \<open>The multi-core scheduler (\<open>ariel-os-threads\<close>, two Cortex-M cores)\<close>

text \<open>
  \<open>lib.rs\<close> under the features \<open>multi-core\<close> and \<open>core-affinity\<close>, \<open>core_affinity.rs\<close>, and the chip
  support of \<open>smp/rp.rs\<close>.  A core's number is an argument of every call made on it.  Every
  operation runs in a critical section that excludes the other core; what a core does outside of
  one, moving the registers after \<open>sched\<close>, is a step of its own.
\<close>

subsection \<open>Cores and affinities\<close>

definition CORES :: nat where
  "CORES = 2"

definition no_affinity :: "8 word" where
  "no_affinity = 2 ^ CORES - 1"

definition affinity_one :: "nat \<Rightarrow> 8 word" where
  "affinity_one core = push_bit core 1"

definition affinity_contains :: "8 word \<Rightarrow> nat \<Rightarrow> bool" where
  "affinity_contains a core \<longleftrightarrow> a AND push_bit core 1 > 0"

record mthread = thread +
  core_affinity :: "8 word"

definition mthread_default :: mthread where
  "mthread_default = thread.extend thread_default \<lparr>core_affinity = no_affinity\<rparr>"

text \<open>
  The scheduler, and per core the machine: the PendSV bit, the tokens the other core has sent
  through the FIFO, the process stack pointer, the callee-saved registers, and the two pointers the
  handler got from \<open>sched\<close> while it has not moved the registers yet.  \<open>fifo_depth\<close> is the capacity
  of the hardware's FIFO.
\<close>

record smp =
  m_runq :: runqueue
  m_threads :: "mthread list"
  m_blocklist :: "nat option list"
  current_threads :: "nat option list"
  m_pendsv :: "bool list"
  m_fifo :: "32 word list list"
  m_psp :: "32 word list"
  m_regs :: "32 word list list"
  m_moving :: "(nat \<times> nat) option list"
  m_mem :: memory
  fifo_depth :: nat

definition smp_new :: "nat \<Rightarrow> smp" where
  "smp_new depth =
     \<lparr>m_runq = rq_new sched_prio_levels thread_count,
      m_threads = replicate thread_count mthread_default,
      m_blocklist = replicate thread_count None,
      current_threads = replicate CORES None,
      m_pendsv = replicate CORES False, m_fifo = replicate CORES [],
      m_psp = replicate CORES 0, m_regs = replicate CORES (replicate 8 0),
      m_moving = replicate CORES None, m_mem = (\<lambda>_. 0), fifo_depth = depth\<rparr>"

subsection \<open>Triggering the scheduler on a core (\<open>smp/rp.rs\<close>)\<close>

definition SCHEDULE_TOKEN :: "32 word" where
  "SCHEDULE_TOKEN = 0x11"

text \<open>\<open>Cpu::schedule()\<close> on core \<open>c\<close>.\<close>

definition m_schedule :: "nat \<Rightarrow> smp \<Rightarrow> smp" where
  "m_schedule c s = s\<lparr>m_pendsv := (m_pendsv s)[c := True]\<rparr>"

definition schedule_other_core :: "nat \<Rightarrow> smp \<Rightarrow> smp" where
  "schedule_other_core c s =
     (let other = 1 - c in
      if fifo_depth s \<le> length (m_fifo s ! other) then s
      else s\<lparr>m_fifo := (m_fifo s)[other := m_fifo s ! other @ [SCHEDULE_TOKEN]]\<rparr>)"

definition chip_schedule :: "nat \<Rightarrow> smp \<Rightarrow> smp" where
  "chip_schedule c s = (if m_pendsv s ! c then schedule_other_core c s else m_schedule c s)"

definition schedule_on_core :: "nat \<Rightarrow> nat \<Rightarrow> smp \<Rightarrow> smp" where
  "schedule_on_core c target s = (if target = c then chip_schedule c s else schedule_other_core c s)"

definition handle_fifo_token :: "nat \<Rightarrow> 32 word \<Rightarrow> smp \<Rightarrow> smp \<times> bool" where
  "handle_fifo_token c token s =
     (if token \<noteq> SCHEDULE_TOKEN then (s, False) else (m_schedule c s, True))"

text \<open>The interrupt that reads one message.\<close>

definition fifo_interrupt :: "nat \<Rightarrow> smp \<Rightarrow> smp" where
  "fifo_interrupt c s =
     (case m_fifo s ! c of
        [] \<Rightarrow> s
      | token # tokens \<Rightarrow> fst (handle_fifo_token c token (s\<lparr>m_fifo := (m_fifo s)[c := tokens]\<rparr>)))"

subsection \<open>Access to threads\<close>

definition m_get_unchecked :: "smp \<Rightarrow> nat \<Rightarrow> panic + mthread" where
  "m_get_unchecked s t = idx (m_threads s) t"

definition m_current_tid :: "nat \<Rightarrow> smp \<Rightarrow> panic + nat option" where
  "m_current_tid c s = idx (current_threads s) c"

definition m_current :: "nat \<Rightarrow> smp \<Rightarrow> panic + mthread option" where
  "m_current c s =
     bnd (m_current_tid c s) (\<lambda>cur.
       case cur of
         None \<Rightarrow> Inr None
       | Some t \<Rightarrow> bnd (m_get_unchecked s t) (\<lambda>th. Inr (Some th)))"

definition m_is_valid_tid :: "smp \<Rightarrow> nat \<Rightarrow> panic + bool" where
  "m_is_valid_tid s t =
     (if thread_count \<le> t then Inr False
      else bnd (m_get_unchecked s t) (\<lambda>th. Inr (t_state th \<noteq> Invalid)))"

definition m_get_state :: "smp \<Rightarrow> nat \<Rightarrow> panic + thread_state option" where
  "m_get_state s t =
     bnd (m_is_valid_tid s t) (\<lambda>v.
       if v then bnd (m_get_unchecked s t) (\<lambda>th. Inr (Some (t_state th))) else Inr None)"

text \<open>\<open>position\<close> over the current threads.\<close>

definition m_is_running :: "smp \<Rightarrow> nat \<Rightarrow> nat option" where
  "m_is_running s t = find (\<lambda>c. current_threads s ! c = Some t) [0..<length (current_threads s)]"

text \<open>
  The priority on a core, and the first core of lowest priority; an idle core, which is the case
  only during start-up, comes before all priorities.
\<close>

definition running_prio :: "smp \<Rightarrow> nat \<Rightarrow> panic + nat option" where
  "running_prio s c = bnd (m_current c s) (\<lambda>cur. Inr (map_option t_prio cur))"

fun min_core :: "smp \<Rightarrow> nat list \<Rightarrow> panic + (nat \<times> nat option) option" where
  "min_core s [] = Inr None"
| "min_core s (c # cs) =
     bnd (running_prio s c) (\<lambda>p.
     bnd (min_core s cs) (\<lambda>r.
       Inr (Some (case r of
                    None \<Rightarrow> (c, p)
                  | Some (c', p') \<Rightarrow> if p' < p then (c', p') else (c, p)))))"

definition lowest_running_prio :: "smp \<Rightarrow> nat \<Rightarrow> panic + nat \<times> nat option" where
  "lowest_running_prio s t =
     bnd (m_get_unchecked s t) (\<lambda>th.
     bnd (min_core s (filter (affinity_contains (core_affinity th)) [0..<length (current_threads s)])) unwrap)"

definition is_affine_to :: "nat \<Rightarrow> smp \<Rightarrow> nat \<Rightarrow> bool" where
  "is_affine_to c s t =
     (case m_get_unchecked s t of
        Inl _ \<Rightarrow> False
      | Inr th \<Rightarrow> affinity_contains (core_affinity th) c)"

subsection \<open>Changing threads\<close>

definition m_schedule_if_higher_prio :: "nat \<Rightarrow> smp \<Rightarrow> nat \<Rightarrow> nat \<Rightarrow> panic + smp" where
  "m_schedule_if_higher_prio c s t prio =
     bnd (lowest_running_prio s t) (\<lambda>(core, lowest).
       Inr (case lowest of
              Some lowest_prio \<Rightarrow> if lowest_prio < prio then schedule_on_core c core s else s
            | None \<Rightarrow> s))"

text \<open>A thread that stops running is not in the run queue, unlike on a single core.\<close>

definition m_set_state :: "nat \<Rightarrow> smp \<Rightarrow> nat \<Rightarrow> thread_state \<Rightarrow> panic + smp \<times> thread_state" where
  "m_set_state c s t st =
     bnd (m_get_unchecked s t) (\<lambda>th.
     let old_state = t_state th; prio = t_prio th;
         s = s\<lparr>m_threads := (m_threads s)[t := th\<lparr>t_state := st\<rparr>]\<rparr>
     in if st = Running then
          bnd (rq_add (m_runq s) t prio) (\<lambda>r.
          bnd (m_schedule_if_higher_prio c (s\<lparr>m_runq := r\<rparr>) t prio) (\<lambda>s. Inr (s, old_state)))
        else if old_state = Running then Inr (m_schedule c s, old_state)
        else Inr (s, old_state))"

definition m_set_priority :: "nat \<Rightarrow> smp \<Rightarrow> nat \<Rightarrow> nat \<Rightarrow> panic + smp" where
  "m_set_priority c s t prio =
     bnd (m_is_valid_tid s t) (\<lambda>v.
     if \<not> v then Inr s
     else bnd (m_get_unchecked s t) (\<lambda>th.
       let old_prio = t_prio th in
       if old_prio = prio then Inr s
       else let s = s\<lparr>m_threads := (m_threads s)[t := th\<lparr>t_prio := prio\<rparr>]\<rparr> in
         if t_state th \<noteq> Running then Inr s
         else
           (case m_is_running s t of
              Some core \<Rightarrow> if prio < old_prio then Inr (schedule_on_core c core s) else Inr s
            | None \<Rightarrow>
                bnd (bnd (rq_peek_head (m_runq s) old_prio) (\<lambda>h.
                       if h = Some t then rq_pop_head (m_runq s) t old_prio else rq_del (m_runq s) t)) (\<lambda>r.
                bnd (rq_add r t prio) (\<lambda>r.
                let s = s\<lparr>m_runq := r\<rparr> in
                if old_prio < prio then m_schedule_if_higher_prio c s t prio else Inr s)))))"

subsection \<open>Creating threads\<close>

function m_get_unused_from :: "smp \<Rightarrow> nat \<Rightarrow> panic + nat option" where
  "m_get_unused_from s i =
     (if i < thread_count then
        bnd (m_get_unchecked s i) (\<lambda>th.
          if t_state th = Invalid then Inr (Some i) else m_get_unused_from s (i + 1))
      else Inr None)"
  by pat_completeness auto
termination
  by (relation "measure (\<lambda>(s, i). thread_count - i)") auto

declare m_get_unused_from.simps [simp del]

definition m_create ::
    "32 word \<Rightarrow> smp \<Rightarrow> 32 word \<Rightarrow> 32 word option \<Rightarrow> 32 word \<Rightarrow> 32 word \<Rightarrow> nat \<Rightarrow> 8 word option \<Rightarrow>
     panic + smp \<times> nat option" where
  "m_create cleanup_fn s func arg stack_start stack_len prio affinity =
     bnd (m_get_unused_from s 0) (\<lambda>u.
       case u of
         None \<Rightarrow> Inr (s, None)
       | Some t \<Rightarrow>
           bnd (m_get_unchecked s t) (\<lambda>th.
           let (th', m) = setup_stack cleanup_fn ((thread.truncate th)\<lparr>t_prio := prio, t_tid := t, t_state := Parked\<rparr>)
                 (m_mem s) stack_start stack_len func arg;
               a = (case affinity of None \<Rightarrow> no_affinity | Some a \<Rightarrow> a)
           in Inr (s\<lparr>m_threads := (m_threads s)[t := thread.extend th' \<lparr>core_affinity = a\<rparr>], m_mem := m\<rparr>, Some t)))"

definition m_create_raw ::
    "nat \<Rightarrow> 32 word \<Rightarrow> smp \<Rightarrow> 32 word \<Rightarrow> 32 word option \<Rightarrow> 32 word \<Rightarrow> 32 word \<Rightarrow> nat \<Rightarrow> 8 word option \<Rightarrow>
     panic + smp \<times> nat" where
  "m_create_raw c cleanup_fn s func arg stack_start stack_len prio affinity =
     bnd (m_create cleanup_fn s func arg stack_start stack_len prio affinity) (\<lambda>(s, r).
     bnd (unwrap r) (\<lambda>t.
     bnd (m_set_state c s t Running) (\<lambda>(s, _). Inr (s, t))))"

text \<open>\<open>create_noarg\<close>, and one idle thread per core with the lowest priority.\<close>

definition m_create_noarg ::
    "nat \<Rightarrow> 32 word \<Rightarrow> smp \<Rightarrow> 32 word \<Rightarrow> 32 word \<Rightarrow> 32 word \<Rightarrow> nat \<Rightarrow> 8 word option \<Rightarrow> panic + smp \<times> nat" where
  "m_create_noarg c cleanup_fn s func stack_start stack_len prio affinity =
     m_create_raw c cleanup_fn s func None stack_start stack_len prio affinity"

definition IDLE_THREAD_STACK_SIZE :: "32 word" where
  "IDLE_THREAD_STACK_SIZE = 256"

fun setup_idle_threads :: "32 word \<Rightarrow> 32 word \<Rightarrow> 32 word list \<Rightarrow> smp \<Rightarrow> panic + smp \<times> nat list" where
  "setup_idle_threads cleanup_fn idle_fn [] s = Inr (s, [])"
| "setup_idle_threads cleanup_fn idle_fn (stack # stacks) s =
     bnd (m_create_noarg 0 cleanup_fn s idle_fn stack IDLE_THREAD_STACK_SIZE 0 None) (\<lambda>(s, t).
     bnd (setup_idle_threads cleanup_fn idle_fn stacks s) (\<lambda>(s, ts). Inr (s, t # ts)))"

text \<open>
  Start-up on the first core: the functions of \<open>THREAD_FNS\<close>, each of which creates one thread
  (\<open>autostart_thread!\<close>: function, stack, priority, affinity), then the idle threads.
\<close>

type_synonym autostart = "32 word \<times> 32 word \<times> 32 word \<times> nat \<times> 8 word option"

fun autostart_threads :: "32 word \<Rightarrow> autostart list \<Rightarrow> smp \<Rightarrow> panic + smp" where
  "autostart_threads cleanup_fn [] s = Inr s"
| "autostart_threads cleanup_fn ((func, stack, len, prio, affinity) # fns) s =
     bnd (m_create_noarg 0 cleanup_fn s func stack len prio affinity) (\<lambda>(s, _).
       autostart_threads cleanup_fn fns s)"

definition start_up ::
    "32 word \<Rightarrow> autostart list \<Rightarrow> 32 word \<Rightarrow> 32 word list \<Rightarrow> smp \<Rightarrow> panic + smp \<times> nat list" where
  "start_up cleanup_fn fns idle_fn stacks s =
     bnd (autostart_threads cleanup_fn fns s) (setup_idle_threads cleanup_fn idle_fn stacks)"

subsection \<open>The calls a thread makes\<close>

definition m_cleanup :: "nat \<Rightarrow> smp \<Rightarrow> panic + smp" where
  "m_cleanup c s =
     bnd (bnd (m_current_tid c s) unwrap) (\<lambda>t. bnd (m_set_state c s t Invalid) (\<lambda>(s, _). Inr s))"

definition m_yield_same :: "nat \<Rightarrow> smp \<Rightarrow> panic + smp" where
  "m_yield_same c s =
     bnd (m_current c s) (\<lambda>cur.
       case cur of
         None \<Rightarrow> Inr s
       | Some th \<Rightarrow>
           bnd (rq_is_empty (m_runq s) (t_prio th)) (\<lambda>empty.
             if empty then Inr s
             else
               let s = m_schedule c s in
               if core_affinity th = no_affinity then m_schedule_if_higher_prio c s (t_tid th) (t_prio th)
               else Inr s))"

definition m_park :: "nat \<Rightarrow> smp \<Rightarrow> panic + smp" where
  "m_park c s =
     bnd (m_current_tid c s) (\<lambda>cur.
       case cur of
         None \<Rightarrow> Inr s
       | Some t \<Rightarrow> bnd (m_set_state c s t Parked) (\<lambda>(s, _). Inr s))"

definition m_unpark :: "nat \<Rightarrow> smp \<Rightarrow> nat \<Rightarrow> panic + smp \<times> bool" where
  "m_unpark c s t =
     bnd (m_get_state s t) (\<lambda>st.
       if st = Some Parked then bnd (m_set_state c s t Running) (\<lambda>(s, _). Inr (s, True))
       else Inr (s, False))"

subsection \<open>The context switch\<close>

definition add_current_thread_to_rq :: "nat \<Rightarrow> smp \<Rightarrow> panic + smp" where
  "add_current_thread_to_rq c s =
     bnd (m_current c s) (\<lambda>cur.
       case cur of
         None \<Rightarrow> Inr s
       | Some th \<Rightarrow>
           if t_state th \<noteq> Running then Inr s
           else bnd (rq_add (m_runq s) (t_tid th) (t_prio th)) (\<lambda>r. Inr (s\<lparr>m_runq := r\<rparr>)))"

text \<open>With core affinities, and without.  The search is a loop; \<open>None\<close> would be one that never ends.\<close>

definition get_next_tid :: "nat \<Rightarrow> smp \<Rightarrow> (panic + smp \<times> nat option) option" where
  "get_next_tid c s =
     obnd (rq_get_next_filter (is_affine_to c s) (m_runq s)) (\<lambda>n.
       case n of
         None \<Rightarrow> Some (Inr (s, None))
       | Some t \<Rightarrow> Some (bnd (rq_del (m_runq s) t) (\<lambda>r. Inr (s\<lparr>m_runq := r\<rparr>, Some t))))"

definition get_next_tid_no_affinity :: "smp \<Rightarrow> panic + smp \<times> nat option" where
  "get_next_tid_no_affinity s = bnd (rq_pop_next (m_runq s)) (\<lambda>(r, n). Inr (s\<lparr>m_runq := r\<rparr>, n))"

definition m_upd_thread :: "smp \<Rightarrow> nat \<Rightarrow> (mthread \<Rightarrow> mthread) \<Rightarrow> panic + smp" where
  "m_upd_thread s t f =
     bnd (m_get_unchecked s t) (\<lambda>th. Inr (s\<lparr>m_threads := (m_threads s)[t := f th]\<rparr>))"

text \<open>
  \<open>sched\<close> on core \<open>c\<close>: the two pointers are null (\<open>None\<close>) when nothing is to be moved.
\<close>

definition m_switch :: "nat \<Rightarrow> smp \<Rightarrow> nat \<Rightarrow> panic + smp \<times> (nat \<times> nat) option" where
  "m_switch c s next_tid =
     bnd (m_current_tid c s) (\<lambda>cur.
       case cur of
         Some old_tid \<Rightarrow>
           if next_tid = old_tid then Inr (s, None)
           else
             bnd (m_upd_thread (s\<lparr>current_threads := (current_threads s)[c := Some next_tid]\<rparr>) old_tid
                    (\<lambda>th. th\<lparr>t_sp := m_psp s ! c\<rparr>)) (\<lambda>s.
             bnd (m_get_unchecked s next_tid) (\<lambda>nx.
               Inr (s\<lparr>m_psp := (m_psp s)[c := t_sp nx]\<rparr>, Some (old_tid, next_tid))))
       | None \<Rightarrow>
           let s = s\<lparr>current_threads := (current_threads s)[c := Some next_tid]\<rparr> in
           bnd (m_get_unchecked s next_tid) (\<lambda>nx.
             Inr (s\<lparr>m_psp := (m_psp s)[c := t_sp nx]\<rparr>, None)))"

definition m_sched :: "nat \<Rightarrow> smp \<Rightarrow> (panic + smp \<times> (nat \<times> nat) option) option" where
  "m_sched c s =
     obnd (Some (add_current_thread_to_rq c s)) (\<lambda>s.
     obnd (get_next_tid c s) (\<lambda>(s, n).
       case n of
         None \<Rightarrow> Some (Inl UnreachableCode)
       | Some next_tid \<Rightarrow> Some (m_switch c s next_tid)))"

text \<open>
  The handler: entering it clears the PendSV bit, and \<open>r4\<close>-\<open>r11\<close> are moved after the critical
  section of \<open>sched\<close>.
\<close>

definition pend_sv_enter :: "nat \<Rightarrow> smp \<Rightarrow> (panic + smp) option" where
  "pend_sv_enter c s =
     obnd (m_sched c (s\<lparr>m_pendsv := (m_pendsv s)[c := False]\<rparr>)) (\<lambda>(s, ptrs).
       Some (Inr (s\<lparr>m_moving := (m_moving s)[c := ptrs]\<rparr>)))"

definition pend_sv_move :: "nat \<Rightarrow> smp \<Rightarrow> panic + smp" where
  "pend_sv_move c s =
     (case m_moving s ! c of
        None \<Rightarrow> Inr s
      | Some (old, nxt) \<Rightarrow>
          bnd (m_upd_thread s old (\<lambda>th. th\<lparr>t_high_regs := m_regs s ! c\<rparr>)) (\<lambda>s.
          bnd (m_get_unchecked s nxt) (\<lambda>th.
            Inr (s\<lparr>m_regs := (m_regs s)[c := t_high_regs th], m_moving := (m_moving s)[c := None]\<rparr>))))"

end
