(* ===== verification/SmpInvariant.thy ===== *)
theory SmpInvariant
  imports Smp
begin

section \<open>Both cores in any interleaving\<close>

text \<open>
  What can happen on either core, as events, and the invariant of the scheduler along runs that are
  orderly: no thread is made ready while it is still the current thread of a core.  Such a thread
  has asked to stop, and the context switch of its core has not happened yet.  The code does not
  ensure this; \<open>SmpRaces\<close> shows what happens otherwise.
\<close>

subsection \<open>Events\<close>

datatype event =
    Start nat   \<comment> \<open>\<open>Cpu::start_threading\<close>\<close>
  | Create nat "32 word" "32 word option" "32 word" "32 word" nat "8 word option"
  | Park nat
  | Yield nat
  | Exit nat   \<comment> \<open>the thread function returns\<close>
  | Wake nat nat   \<comment> \<open>core, thread: \<open>unpark\<close>\<close>
  | Prio nat nat nat   \<comment> \<open>core, thread, priority\<close>
  | Compute nat "32 word" "32 word list"   \<comment> \<open>the thread changes its stack pointer and registers\<close>
  | Token nat   \<comment> \<open>interrupt of the FIFO\<close>
  | Enter nat   \<comment> \<open>PendSV up to the end of \<open>sched\<close>\<close>
  | Move nat   \<comment> \<open>the rest of PendSV\<close>

primrec event_core :: "event \<Rightarrow> nat" where
  "event_core (Start c) = c"
| "event_core (Create c f a st len p aff) = c"
| "event_core (Park c) = c"
| "event_core (Yield c) = c"
| "event_core (Exit c) = c"
| "event_core (Wake c t) = c"
| "event_core (Prio c t p) = c"
| "event_core (Compute c x rs) = c"
| "event_core (Token c) = c"
| "event_core (Enter c) = c"
| "event_core (Move c) = c"

text \<open>The affinities that can be made: \<open>CoreAffinity::no_affinity\<close> and \<open>CoreAffinity::one\<close>.\<close>

definition affinity_ok :: "8 word option \<Rightarrow> bool" where
  "affinity_ok aff \<longleftrightarrow>
     (case aff of None \<Rightarrow> True | Some a \<Rightarrow> a = no_affinity \<or> (\<exists>core\<in>set [0..<CORES]. a = affinity_one core))"

text \<open>
  A thread runs on a core while no PendSV is pending there, as that preempts it at once, and the
  handler is not active.  Idle threads (\<open>idle\<close>) only wait for interrupts.
\<close>

definition thread_runs :: "nat \<Rightarrow> smp \<Rightarrow> bool" where
  "thread_runs c s \<longleftrightarrow> current_threads s ! c \<noteq> None \<and> \<not> m_pendsv s ! c \<and> m_moving s ! c = None"

definition enabled :: "nat list \<Rightarrow> smp \<Rightarrow> event \<Rightarrow> bool" where
  "enabled idle s e \<longleftrightarrow> event_core e < CORES \<and>
     (case e of
        Create c f a st len p aff \<Rightarrow> p < sched_prio_levels \<and> affinity_ok aff
      | Park c \<Rightarrow> thread_runs c s \<and> the (current_threads s ! c) \<notin> set idle
      | Exit c \<Rightarrow> thread_runs c s \<and> the (current_threads s ! c) \<notin> set idle
      | Yield c \<Rightarrow> thread_runs c s
      | Compute c x rs \<Rightarrow> thread_runs c s
      | Prio c t p \<Rightarrow> p < sched_prio_levels
      | Enter c \<Rightarrow> m_pendsv s ! c \<and> m_moving s ! c = None
      | Move c \<Rightarrow> m_moving s ! c \<noteq> None
      | _ \<Rightarrow> True)"

definition perform :: "32 word \<Rightarrow> smp \<Rightarrow> event \<Rightarrow> (panic + smp) option" where
  "perform cleanup_fn s e =
     (case e of
        Start c \<Rightarrow> Some (Inr (m_schedule c s))
      | Create c f a st len p aff \<Rightarrow> Some (bnd (m_create_raw c cleanup_fn s f a st len p aff) (\<lambda>(s, t). Inr s))
      | Park c \<Rightarrow> Some (m_park c s)
      | Yield c \<Rightarrow> Some (m_yield_same c s)
      | Exit c \<Rightarrow> Some (m_cleanup c s)
      | Wake c t \<Rightarrow> Some (bnd (m_unpark c s t) (\<lambda>(s, b). Inr s))
      | Prio c t p \<Rightarrow> Some (m_set_priority c s t p)
      | Compute c x rs \<Rightarrow> Some (Inr (s\<lparr>m_psp := (m_psp s)[c := x], m_regs := (m_regs s)[c := rs]\<rparr>))
      | Token c \<Rightarrow> Some (Inr (fifo_interrupt c s))
      | Enter c \<Rightarrow> pend_sv_enter c s
      | Move c \<Rightarrow> Some (pend_sv_move c s))"

text \<open>Start-up is done, no core has started.\<close>

definition booted :: "32 word \<Rightarrow> nat list \<Rightarrow> smp \<Rightarrow> bool" where
  "booted cleanup_fn idle s \<longleftrightarrow>
     (\<exists>depth fns idle_fn stacks. length stacks = CORES \<and>
        (\<forall>(func, stack, len, prio, aff)\<in>set fns. prio < sched_prio_levels \<and> affinity_ok aff) \<and>
        start_up cleanup_fn fns idle_fn stacks (smp_new depth) = Inr (s, idle))"

inductive smp_reach :: "32 word \<Rightarrow> nat list \<Rightarrow> smp \<Rightarrow> bool" for cleanup_fn idle where
  boot: "booted cleanup_fn idle s \<Longrightarrow> smp_reach cleanup_fn idle s"
| step: "smp_reach cleanup_fn idle s \<Longrightarrow> enabled idle s e \<Longrightarrow> perform cleanup_fn s e = Some (Inr s') \<Longrightarrow>
    smp_reach cleanup_fn idle s'"

text \<open>The thread an event makes ready is not current anywhere.\<close>

definition not_current :: "smp \<Rightarrow> nat \<Rightarrow> bool" where
  "not_current s t \<longleftrightarrow> Some t \<notin> set (current_threads s)"

definition orderly :: "smp \<Rightarrow> event \<Rightarrow> bool" where
  "orderly s e \<longleftrightarrow>
     (case e of
        Wake c t \<Rightarrow> not_current s t
      | Create c f a st len p aff \<Rightarrow> (case m_get_unused_from s 0 of Inr (Some t) \<Rightarrow> not_current s t | _ \<Rightarrow> True)
      | _ \<Rightarrow> True)"

inductive smp_orderly :: "32 word \<Rightarrow> nat list \<Rightarrow> smp \<Rightarrow> bool" for cleanup_fn idle where
  boot: "booted cleanup_fn idle s \<Longrightarrow> smp_orderly cleanup_fn idle s"
| step: "smp_orderly cleanup_fn idle s \<Longrightarrow> enabled idle s e \<Longrightarrow> orderly s e \<Longrightarrow>
    perform cleanup_fn s e = Some (Inr s') \<Longrightarrow> smp_orderly cleanup_fn idle s'"

subsection \<open>The invariant\<close>

abbreviation mth :: "smp \<Rightarrow> nat \<Rightarrow> mthread" where
  "mth s t \<equiv> m_threads s ! t"

text \<open>
  A ready thread is either current on one core or in the queue of its priority; a current thread
  that is not ready has its core's PendSV pending.
\<close>

definition smp_queued :: "smp \<Rightarrow> (nat \<Rightarrow> nat list) \<Rightarrow> bool" where
  "smp_queued s Q \<longleftrightarrow>
     (\<forall>t<thread_count. \<forall>p.
        t \<in> set (Q p) \<longleftrightarrow> t_state (mth s t) = Running \<and> t_prio (mth s t) = p \<and> not_current s t)"

definition mthread_ok :: "nat \<Rightarrow> mthread \<Rightarrow> bool" where
  "mthread_ok t th \<longleftrightarrow> t_prio th < sched_prio_levels \<and> (t_state th \<noteq> Invalid \<longrightarrow> t_tid th = t) \<and>
     (\<exists>core<CORES. affinity_contains (core_affinity th) core)"

definition smp_threads :: "smp \<Rightarrow> bool" where
  "smp_threads s \<longleftrightarrow> length (m_threads s) = thread_count \<and> (\<forall>t<thread_count. mthread_ok t (mth s t))"

definition smp_cores :: "smp \<Rightarrow> bool" where
  "smp_cores s \<longleftrightarrow> length (current_threads s) = CORES \<and> length (m_pendsv s) = CORES \<and> length (m_moving s) = CORES \<and>
     (\<forall>c<CORES. \<forall>a b. m_moving s ! c = Some (a, b) \<longrightarrow> a < thread_count \<and> b < thread_count) \<and>
     (\<forall>c<CORES. \<forall>t. current_threads s ! c = Some t \<longrightarrow>
        t < thread_count \<and> (t_state (mth s t) \<noteq> Running \<longrightarrow> m_pendsv s ! c) \<and>
        (\<forall>c'<CORES. current_threads s ! c' = Some t \<longrightarrow> c' = c))"

definition smp_idle :: "nat list \<Rightarrow> smp \<Rightarrow> bool" where
  "smp_idle idle s \<longleftrightarrow> distinct idle \<and>
     (\<forall>t\<in>set idle. t < thread_count \<and> t_state (mth s t) = Running \<and> core_affinity (mth s t) = no_affinity)"

definition smp_inv :: "nat list \<Rightarrow> smp \<Rightarrow> (nat \<Rightarrow> nat list) \<Rightarrow> bool" where
  "smp_inv idle s Q \<longleftrightarrow>
     rq_rep sched_prio_levels thread_count (m_runq s) Q \<and> smp_queued s Q \<and> smp_threads s \<and> smp_cores s \<and>
     smp_idle idle s"

lemma smp_invD:
  assumes "smp_inv idle s Q"
  shows "rq_rep sched_prio_levels thread_count (m_runq s) Q"
    and "length (m_threads s) = thread_count" "length (current_threads s) = CORES" "length (m_pendsv s) = CORES"
    and "t < thread_count \<Longrightarrow>
      t \<in> set (Q p) \<longleftrightarrow> t_state (mth s t) = Running \<and> t_prio (mth s t) = p \<and> not_current s t"
    and "t < thread_count \<Longrightarrow> mthread_ok t (mth s t)"
    and "c < CORES \<Longrightarrow> current_threads s ! c = Some t \<Longrightarrow> t < thread_count"
    and "c < CORES \<Longrightarrow> current_threads s ! c = Some t \<Longrightarrow> t_state (mth s t) \<noteq> Running \<Longrightarrow> m_pendsv s ! c"
    and "c < CORES \<Longrightarrow> current_threads s ! c = Some t \<Longrightarrow> c' < CORES \<Longrightarrow> current_threads s ! c' = Some t \<Longrightarrow> c' = c"
    and "distinct idle" "t \<in> set idle \<Longrightarrow> t < thread_count \<and> t_state (mth s t) = Running \<and> core_affinity (mth s t) = no_affinity"
    and "length (m_moving s) = CORES" "c < CORES \<Longrightarrow> m_moving s ! c = Some (a, b) \<Longrightarrow> a < thread_count \<and> b < thread_count"
  using assms unfolding smp_inv_def smp_queued_def smp_threads_def smp_cores_def smp_idle_def by blast+

lemma mthread_okD:
  assumes "mthread_ok t th"
  shows "t_prio th < sched_prio_levels" "t_state th \<noteq> Invalid \<Longrightarrow> t_tid th = t"
    "\<exists>core<CORES. affinity_contains (core_affinity th) core"
  using assms by (auto simp: mthread_ok_def)

lemma not_current_iff:
  "length (current_threads s) = CORES \<Longrightarrow> not_current s t \<longleftrightarrow> (\<forall>c<CORES. current_threads s ! c \<noteq> Some t)"
  by (auto simp: not_current_def in_set_conv_nth)

text \<open>Setting PendSV bits, and changes of tokens, registers and memory.\<close>

definition same_sched :: "smp \<Rightarrow> smp \<Rightarrow> bool" where
  "same_sched s s' \<longleftrightarrow>
     m_runq s' = m_runq s \<and> m_threads s' = m_threads s \<and> current_threads s' = current_threads s \<and>
     m_moving s' = m_moving s \<and> length (m_pendsv s') = length (m_pendsv s) \<and> (\<forall>c<length (m_pendsv s). m_pendsv s ! c \<longrightarrow> m_pendsv s' ! c)"

lemma same_sched_inv:
  assumes "smp_inv idle s Q" "same_sched s s'"
  shows "smp_inv idle s' Q"
proof -
  note s = assms(2)[unfolded same_sched_def]
  have "not_current s' t = not_current s t" for t
    using s by (simp add: not_current_def)
  moreover have "smp_cores s'"
    using assms(1) s unfolding smp_inv_def smp_cores_def by metis
  ultimately show ?thesis
    using assms(1) s by (simp add: smp_inv_def smp_queued_def smp_threads_def smp_idle_def)
qed

lemma same_sched_trans: "same_sched s s' \<Longrightarrow> same_sched s' s'' \<Longrightarrow> same_sched s s''"
  unfolding same_sched_def by auto

lemma set_bit_nth: "i < length bs \<Longrightarrow> bs[c := True] ! i \<longleftrightarrow> c = i \<or> bs ! i"
  by (cases "c < length bs") (auto simp: nth_list_update)

lemma same_schedI [simp, intro]:
  "same_sched s s"
  "same_sched s (m_schedule c s)"
  "same_sched s (schedule_other_core c s)"
  "same_sched s (chip_schedule c s)"
  "same_sched s (schedule_on_core c target s)"
  "same_sched s (fifo_interrupt c s)"
  "same_sched s (s\<lparr>m_psp := x, m_regs := rs\<rparr>)"
  by (auto simp: same_sched_def m_schedule_def schedule_other_core_def chip_schedule_def schedule_on_core_def
      fifo_interrupt_def handle_fifo_token_def Let_def set_bit_nth split: list.split)

subsection \<open>Reading the state\<close>

lemma m_get_ok [simp]: "smp_inv idle s Q \<Longrightarrow> t < thread_count \<Longrightarrow> m_get_unchecked s t = Inr (mth s t)"
  by (simp add: m_get_unchecked_def smp_invD(2))

lemma m_current_ok:
  "smp_inv idle s Q \<Longrightarrow> c < CORES \<Longrightarrow> m_current c s = Inr (map_option (mth s) (current_threads s ! c))"
  using smp_invD(7)[of idle s Q c]
  by (auto simp: m_current_def m_current_tid_def smp_invD(3) split: option.split)

lemma m_valid_ok:
  "smp_inv idle s Q \<Longrightarrow> m_is_valid_tid s t = Inr (t < thread_count \<and> t_state (mth s t) \<noteq> Invalid)"
  by (auto simp: m_is_valid_tid_def)

lemma m_state_ok:
  "smp_inv idle s Q \<Longrightarrow> m_get_state s t =
    Inr (if t < thread_count \<and> t_state (mth s t) \<noteq> Invalid then Some (t_state (mth s t)) else None)"
  by (auto simp: m_get_state_def m_valid_ok)

text \<open>The core of lowest priority exists for every thread, and asking for it changes flags only.\<close>

definition threads_fit :: "smp \<Rightarrow> bool" where
  "threads_fit s \<longleftrightarrow> length (m_threads s) = thread_count \<and> length (current_threads s) = CORES \<and>
     (\<forall>c<CORES. \<forall>t. current_threads s ! c = Some t \<longrightarrow> t < thread_count)"

lemma running_prio_ok: "threads_fit s \<Longrightarrow> c < CORES \<Longrightarrow> \<exists>p. running_prio s c = Inr p"
  by (auto simp: running_prio_def m_current_def m_current_tid_def m_get_unchecked_def threads_fit_def
      split: option.split)

lemma min_core_ok: "threads_fit s \<Longrightarrow> set cs \<subseteq> {..<CORES} \<Longrightarrow> \<exists>r. min_core s cs = Inr r \<and> (r = None \<longleftrightarrow> cs = [])"
proof (induction cs)
  case (Cons c cs)
  then obtain r p where "min_core s cs = Inr r" "running_prio s c = Inr p"
    using running_prio_ok[of s c] by auto
  then show ?case
    by simp
qed simp

lemma lowest_ok:
  assumes "threads_fit s" "t < thread_count" "mthread_ok t (mth s t)"
  shows "\<exists>core p. lowest_running_prio s t = Inr (core, p)"
proof -
  let ?cs = "filter (affinity_contains (core_affinity (mth s t))) [0..<length (current_threads s)]"
  have "set ?cs \<subseteq> {..<CORES}" "?cs \<noteq> []"
    using assms mthread_okD(3)[OF assms(3)] by (auto simp: threads_fit_def filter_empty_conv)
  then obtain r where "min_core s ?cs = Inr (Some r)"
    using min_core_ok[OF assms(1), of ?cs] by auto
  then show ?thesis
    using assms(1,2) by (cases r) (auto simp: lowest_running_prio_def m_get_unchecked_def threads_fit_def)
qed

lemma higher_prio_ok:
  assumes "threads_fit s" "t < thread_count" "mthread_ok t (mth s t)"
  shows "\<exists>s'. m_schedule_if_higher_prio c s t p = Inr s' \<and> same_sched s s'"
  using lowest_ok[OF assms] by (auto simp: m_schedule_if_higher_prio_def split: option.split)

lemma inv_fit: "smp_inv idle s Q \<Longrightarrow> threads_fit s"
  using smp_invD(2,3,7)[of idle s Q] by (auto simp: threads_fit_def)

subsection \<open>Rewriting one thread\<close>

lemma smp_inv_update:
  assumes inv: "smp_inv idle s Q" and t: "t < thread_count"
    and s': "m_threads s' = (m_threads s)[t := th]" "current_threads s' = current_threads s" "m_pendsv s' = m_pendsv s"
      "m_moving s' = m_moving s"
    and r: "rq_rep sched_prio_levels thread_count (m_runq s') Q'"
    and q: "\<And>p. t \<in> set (Q' p) \<longleftrightarrow> t_state th = Running \<and> t_prio th = p \<and> not_current s t"
    and other: "\<And>u p. u \<noteq> t \<Longrightarrow> u \<in> set (Q' p) \<longleftrightarrow> u \<in> set (Q p)"
    and th: "mthread_ok t th"
    and stop: "t_state th \<noteq> Running \<Longrightarrow> not_current s t \<or> (\<exists>c<CORES. current_threads s ! c = Some t \<and> m_pendsv s ! c)"
    and idle: "t \<in> set idle \<Longrightarrow> t_state th = Running \<and> core_affinity th = no_affinity"
  shows "smp_inv idle s' Q'"
proof -
  have nth: "mth s' u = (if u = t then th else mth s u)" if "u < thread_count" for u
    using s'(1) t smp_invD(2)[OF inv] that by (simp add: nth_list_update)
  have nc: "not_current s' u = not_current s u" for u
    using s'(2) by (simp add: not_current_def)
  have "smp_queued s' Q'"
    unfolding smp_queued_def
  proof (intro allI impI)
    fix u p assume u: "u < thread_count"
    show "u \<in> set (Q' p) \<longleftrightarrow> t_state (mth s' u) = Running \<and> t_prio (mth s' u) = p \<and> not_current s' u"
      using q[of p] other[of u p] smp_invD(5)[OF inv u, of p] nth[OF u] nc[of u] by (cases "u = t") auto
  qed
  moreover have "smp_threads s'"
  proof -
    have "mthread_ok u (mth s' u)" if "u < thread_count" for u
      unfolding nth[OF that] using smp_invD(6)[OF inv that] th by simp
    then show ?thesis
      using smp_invD(2)[OF inv] s'(1) by (simp add: smp_threads_def)
  qed
  moreover have "smp_cores s'"
    unfolding smp_cores_def
  proof (intro conjI allI impI)
    fix c u assume c: "c < CORES" "current_threads s' ! c = Some u"
    note u = smp_invD(7)[OF inv c(1)] smp_invD(8)[OF inv c(1)] smp_invD(9)[OF inv c(1)]
    show "u < thread_count"
      using u(1) c(2) s'(2) by simp
    show "c' = c" if "c' < CORES" "current_threads s' ! c' = Some u" for c'
      using u(3) c(2) s'(2) that by simp
    have cu: "current_threads s ! c = Some u"
      using c(2) s'(2) by simp
    show "m_pendsv s' ! c" if st: "t_state (mth s' u) \<noteq> Running"
    proof (cases "u = t")
      case True
      then have "t_state th \<noteq> Running"
        using st nth[OF t] by simp
      then obtain c' where "c' < CORES" "current_threads s ! c' = Some t" "m_pendsv s ! c'"
        using stop cu c(1) True not_current_iff[OF smp_invD(3)[OF inv], of t] by blast
      then show ?thesis
        using u(3)[OF cu] True s'(3) by simp
    next
      case False
      then show ?thesis
        using u(2)[OF cu] st nth[OF u(1)[OF cu]] s'(3) by simp
    qed
  next
    fix c a b assume "c < CORES" "m_moving s' ! c = Some (a, b)"
    then show "a < thread_count" "b < thread_count"
      using smp_invD(13)[OF inv] s'(4) by auto
  qed (use smp_invD(3,4,12)[OF inv] s'(2-4) in simp_all)
  moreover have "smp_idle idle s'"
    unfolding smp_idle_def using smp_invD(10,11)[OF inv] nth idle by auto
  ultimately show ?thesis
    using r by (simp add: smp_inv_def)
qed

text \<open>Data the scheduler does not look at.\<close>

lemma smp_inv_data:
  assumes inv: "smp_inv idle s Q" and t: "t < thread_count"
    and th: "t_state th = t_state (mth s t)" "t_prio th = t_prio (mth s t)" "t_tid th = t_tid (mth s t)"
      "core_affinity th = core_affinity (mth s t)"
  shows "smp_inv idle (s\<lparr>m_threads := (m_threads s)[t := th]\<rparr>) Q"
proof (rule smp_inv_update[OF inv t])
  show "mthread_ok t th"
    using smp_invD(6)[OF inv t] th by (simp add: mthread_ok_def)
  show "not_current s t \<or> (\<exists>c<CORES. current_threads s ! c = Some t \<and> m_pendsv s ! c)" if "t_state th \<noteq> Running"
    using smp_invD(8)[OF inv] that th(1) not_current_iff[OF smp_invD(3)[OF inv]] by metis
  show "t \<in> set (Q p) \<longleftrightarrow> t_state th = Running \<and> t_prio th = p \<and> not_current s t" for p
    using smp_invD(5)[OF inv t] th by simp
  show "t_state th = Running \<and> core_affinity th = no_affinity" if "t \<in> set idle"
    using smp_invD(11)[OF inv that] th by simp
qed (use smp_invD(1)[OF inv] in simp_all)

subsection \<open>Changing the state of a thread\<close>

lemma threads_fit_upd: "threads_fit s \<Longrightarrow> threads_fit (s\<lparr>m_threads := (m_threads s)[t := th], m_runq := r\<rparr>)"
  by (simp add: threads_fit_def)

lemma m_set_state_ready:
  assumes inv: "smp_inv idle s Q" and t: "t < thread_count" and nc: "not_current s t"
    and old: "t_state (mth s t) \<noteq> Running" "t_state (mth s t) \<noteq> Invalid"
  shows "\<exists>s' Q'. m_set_state c s t Running = Inr (s', t_state (mth s t)) \<and> smp_inv idle s' Q' \<and>
    m_threads s' = (m_threads s)[t := (mth s t)\<lparr>t_state := Running\<rparr>] \<and> current_threads s' = current_threads s"
proof -
  let ?p = "t_prio (mth s t)" and ?th = "(mth s t)\<lparr>t_state := Running\<rparr>"
  note ok = smp_invD(6)[OF inv t]
  have ok': "mthread_ok t ?th"
    using ok old(2) by (simp add: mthread_ok_def)
  have "\<forall>q. t \<notin> set (Q q)"
    using smp_invD(5)[OF inv t] old(1) by simp
  then obtain r where r: "rq_add (m_runq s) t ?p = Inr r"
    "rq_rep sched_prio_levels thread_count r (Q(?p := Q ?p @ [t]))"
    using rq.add_new[OF smp_invD(1)[OF inv] t _ mthread_okD(1)[OF ok]] by blast
  let ?s1 = "s\<lparr>m_threads := (m_threads s)[t := ?th], m_runq := r\<rparr>"
  have inv1: "smp_inv idle ?s1 (Q(?p := Q ?p @ [t]))"
    by (rule smp_inv_update[OF inv t])
      (use r(2) ok' nc old smp_invD(5)[OF inv t] smp_invD(11)[OF inv, of t] in \<open>auto split: if_splits\<close>)
  have "mth ?s1 t = ?th"
    using t smp_invD(2)[OF inv] by simp
  then obtain s' where s': "m_schedule_if_higher_prio c ?s1 t ?p = Inr s'" "same_sched ?s1 s'"
    using higher_prio_ok[OF inv_fit[OF inv1] t, of c ?p] ok' by auto
  have "m_set_state c s t Running = Inr (s', t_state (mth s t))"
    using inv t r(1) s'(1) by (simp add: m_set_state_def Let_def)
  then show ?thesis
    using same_sched_inv[OF inv1 s'(2)] s'(2) by (auto simp: same_sched_def)
qed

lemma m_set_state_stop:
  assumes inv: "smp_inv idle s Q" and c: "c < CORES" and t: "current_threads s ! c = Some t"
    and st: "st \<noteq> Running" and run: "t_state (mth s t) = Running" and idle: "t \<notin> set idle"
  shows "\<exists>s'. m_set_state c s t st = Inr (s', Running) \<and> smp_inv idle s' Q"
proof -
  have t16: "t < thread_count"
    using smp_invD(7)[OF inv c t] .
  let ?th = "(mth s t)\<lparr>t_state := st\<rparr>" and ?s0 = "m_schedule c s"
  have inv0: "smp_inv idle ?s0 Q"
    using same_sched_inv[OF inv] by blast
  have cur: "\<not> not_current s t"
    using c t not_current_iff[OF smp_invD(3)[OF inv]] by blast
  have f: "m_threads ?s0 = m_threads s" "current_threads ?s0 = current_threads s" "m_pendsv ?s0 ! c"
    "m_runq ?s0 = m_runq s"
    using c smp_invD(4)[OF inv] by (simp_all add: m_schedule_def)
  have "smp_inv idle (?s0\<lparr>m_threads := (m_threads s)[t := ?th]\<rparr>) Q"
  proof (rule smp_inv_update[OF inv0 t16])
    show "t \<in> set (Q p) \<longleftrightarrow> t_state ?th = Running \<and> t_prio ?th = p \<and> not_current ?s0 t" for p
      using smp_invD(5)[OF inv t16, of p] cur st by (simp add: not_current_def f)
    show "mthread_ok t ?th"
      using smp_invD(6)[OF inv t16] run by (simp add: mthread_ok_def)
    show "not_current ?s0 t \<or> (\<exists>c<CORES. current_threads ?s0 ! c = Some t \<and> m_pendsv ?s0 ! c)"
      using c t f by auto
  qed (use idle smp_invD(1)[OF inv] in \<open>simp_all add: f\<close>)
  moreover have "m_schedule c (s\<lparr>m_threads := x\<rparr>) = ?s0\<lparr>m_threads := x\<rparr>" for x
    by (simp add: m_schedule_def)
  ultimately show ?thesis
    using inv t16 st run by (simp add: m_set_state_def Let_def)
qed

lemma m_unpark_ok:
  assumes inv: "smp_inv idle s Q" and o: "not_current s t"
  shows "\<exists>s' b Q'. m_unpark c s t = Inr (s', b) \<and> smp_inv idle s' Q'"
proof (cases "t < thread_count \<and> t_state (mth s t) = Parked")
  case True
  then show ?thesis
    using m_set_state_ready[OF inv _ o, of c] by (auto simp: m_unpark_def m_state_ok[OF inv])
next
  case False
  then show ?thesis
    using inv by (auto simp: m_unpark_def m_state_ok[OF inv])
qed

text \<open>A thread that runs is ready.\<close>

lemma running_ready:
  assumes "smp_inv idle s Q" "c < CORES" "thread_runs c s"
  obtains t where "current_threads s ! c = Some t" "t < thread_count" "t_state (mth s t) = Running"
proof -
  obtain t where "current_threads s ! c = Some t"
    using assms(3) by (auto simp: thread_runs_def)
  then show ?thesis
    using that smp_invD(7,8)[OF assms(1,2)] assms(3) by (auto simp: thread_runs_def)
qed

lemma m_park_ok:
  assumes inv: "smp_inv idle s Q" and c: "c < CORES" and "thread_runs c s" "the (current_threads s ! c) \<notin> set idle"
  shows "\<exists>s'. m_park c s = Inr s' \<and> smp_inv idle s' Q"
proof -
  obtain t where t: "current_threads s ! c = Some t" "t_state (mth s t) = Running"
    using running_ready[OF assms(1-3)] by blast
  then show ?thesis
    using m_set_state_stop[OF inv c t(1), of Parked] assms(4) c smp_invD(3)[OF inv]
    by (auto simp: m_park_def m_current_tid_def)
qed

lemma m_cleanup_ok:
  assumes inv: "smp_inv idle s Q" and c: "c < CORES" and "thread_runs c s" "the (current_threads s ! c) \<notin> set idle"
  shows "\<exists>s'. m_cleanup c s = Inr s' \<and> smp_inv idle s' Q"
proof -
  obtain t where t: "current_threads s ! c = Some t" "t_state (mth s t) = Running"
    using running_ready[OF assms(1-3)] by blast
  then show ?thesis
    using m_set_state_stop[OF inv c t(1), of Invalid] assms(4) c smp_invD(3)[OF inv]
    by (auto simp: m_cleanup_def m_current_tid_def)
qed

lemma m_yield_ok:
  assumes inv: "smp_inv idle s Q" and c: "c < CORES" and "thread_runs c s"
  shows "\<exists>s'. m_yield_same c s = Inr s' \<and> smp_inv idle s' Q"
proof -
  obtain t where t: "current_threads s ! c = Some t" "t < thread_count" "t_state (mth s t) = Running"
    using running_ready[OF assms] by blast
  note ok = smp_invD(6)[OF inv t(2)]
  have e: "rq_is_empty (m_runq s) (t_prio (mth s t)) = Inr (Q (t_prio (mth s t)) = [])"
    using rq_is_empty_spec[OF smp_invD(1)[OF inv] mthread_okD(1)[OF ok]] .
  have inv1: "smp_inv idle (m_schedule c s) Q"
    using same_sched_inv[OF inv] by blast
  have "mth (m_schedule c s) t = mth s t"
    by (simp add: m_schedule_def)
  then obtain s' where s': "m_schedule_if_higher_prio c (m_schedule c s) t (t_prio (mth s t)) = Inr s'"
    "same_sched (m_schedule c s) s'"
    using higher_prio_ok[OF inv_fit[OF inv1] t(2)] ok by auto
  then have "smp_inv idle s' Q"
    using same_sched_inv[OF inv1] by blast
  moreover have "t_tid (mth s t) = t"
    using mthread_okD(2)[OF ok] t(3) by simp
  ultimately show ?thesis
    using t inv1 inv e s'(1) by (simp add: m_yield_same_def m_current_ok[OF inv c] Let_def)
qed

subsection \<open>Changing a priority\<close>

lemma m_is_running_iff: "smp_inv idle s Q \<Longrightarrow> m_is_running s t = None \<longleftrightarrow> not_current s t"
  using not_current_iff[OF smp_invD(3)] by (auto simp: m_is_running_def find_None_iff smp_invD(3))

text \<open>A thread that is not in the queue only changes its number.\<close>

lemma prio_unqueued:
  assumes inv: "smp_inv idle s Q" and t: "t < thread_count" and p: "p < sched_prio_levels"
    and q: "t_state (mth s t) \<noteq> Running \<or> \<not> not_current s t"
  shows "smp_inv idle (s\<lparr>m_threads := (m_threads s)[t := (mth s t)\<lparr>t_prio := p\<rparr>]\<rparr>) Q"
proof (rule smp_inv_update[OF inv t])
  let ?th = "(mth s t)\<lparr>t_prio := p\<rparr>"
  show "t \<in> set (Q p') \<longleftrightarrow> t_state ?th = Running \<and> t_prio ?th = p' \<and> not_current s t" for p'
    using smp_invD(5)[OF inv t, of p'] q by auto
  show "mthread_ok t ?th"
    using smp_invD(6)[OF inv t] p by (simp add: mthread_ok_def)
  show "not_current s t \<or> (\<exists>c<CORES. current_threads s ! c = Some t \<and> m_pendsv s ! c)" if "t_state ?th \<noteq> Running"
    using smp_invD(8)[OF inv] that not_current_iff[OF smp_invD(3)[OF inv], of t] by auto
  show "t_state ?th = Running \<and> core_affinity ?th = no_affinity" if "t \<in> set idle"
    using smp_invD(11)[OF inv that] by simp
qed (use smp_invD(1)[OF inv] in simp_all)

lemma prio_queued:
  assumes inv: "smp_inv idle s Q" and t: "t < thread_count" and p: "p < sched_prio_levels"
    and st: "t_state (mth s t) = Running" and nc: "not_current s t" and diff: "p \<noteq> t_prio (mth s t)"
    and r: "rq_rep sched_prio_levels thread_count r
      (Q(t_prio (mth s t) := remove1 t (Q (t_prio (mth s t))), p := Q p @ [t]))" (is "rq_rep _ _ _ ?Q")
  shows "smp_inv idle (s\<lparr>m_threads := (m_threads s)[t := (mth s t)\<lparr>t_prio := p\<rparr>], m_runq := r\<rparr>) ?Q"
proof (rule smp_inv_update[OF inv t])
  let ?th = "(mth s t)\<lparr>t_prio := p\<rparr>"
  show "t \<in> set (?Q q) \<longleftrightarrow> t_state ?th = Running \<and> t_prio ?th = q \<and> not_current s t" for q
    using smp_invD(5)[OF inv t] rq.rep_wf[OF smp_invD(1)[OF inv]] st nc diff by auto
  show "u \<in> set (?Q q) \<longleftrightarrow> u \<in> set (Q q)" if "u \<noteq> t" for u q
    using that by (auto simp: in_set_remove1)
  show "mthread_ok t ?th"
    using smp_invD(6)[OF inv t] p by (simp add: mthread_ok_def)
  show "t_state ?th = Running \<and> core_affinity ?th = no_affinity" if "t \<in> set idle"
    using smp_invD(11)[OF inv that] by simp
qed (use r st in simp_all)

lemma m_set_priority_ok:
  assumes inv: "smp_inv idle s Q" and p: "p < sched_prio_levels"
  shows "\<exists>s' Q'. m_set_priority c s t p = Inr s' \<and> smp_inv idle s' Q'"
proof (cases "t < thread_count \<and> t_state (mth s t) \<noteq> Invalid \<and> t_prio (mth s t) \<noteq> p")
  case False
  then show ?thesis
    using inv by (auto simp: m_set_priority_def m_valid_ok[OF inv] Let_def)
next
  case True
  let ?o = "t_prio (mth s t)" and ?th = "(mth s t)\<lparr>t_prio := p\<rparr>"
  let ?s1 = "s\<lparr>m_threads := (m_threads s)[t := ?th]\<rparr>"
  have t: "t < thread_count" and v: "m_is_valid_tid s t = Inr True"
    using True m_valid_ok[OF inv] by auto
  have run: "m_is_running ?s1 t = m_is_running s t"
    by (simp add: m_is_running_def)
  show ?thesis
  proof (cases "t_state (mth s t) \<noteq> Running \<or> \<not> not_current s t")
    case unq: True
    have inv1: "smp_inv idle ?s1 Q"
      by (rule prio_unqueued[OF inv t p unq])
    have "\<exists>s'. m_set_priority c s t p = Inr s' \<and> same_sched ?s1 s'"
      using v True unq m_is_running_iff[OF inv, of t] run
      by (cases "m_is_running s t") (auto simp: m_set_priority_def m_get_ok[OF inv] Let_def)
    then show ?thesis
      using same_sched_inv[OF inv1] by blast
  next
    case que: False
    then have tq: "t \<in> set (Q ?o)"
      using smp_invD(5)[OF inv t] by simp
    let ?Q = "Q(?o := remove1 t (Q ?o), p := Q p @ [t])"
    obtain r where r: "bnd (bnd (rq_peek_head (m_runq s) ?o)
          (\<lambda>h. if h = Some t then rq_pop_head (m_runq s) t ?o else rq_del (m_runq s) t)) (\<lambda>r. rq_add r t p) = Inr r"
      "rq_rep sched_prio_levels thread_count r ?Q"
      using rq.move[OF smp_invD(1)[OF inv] tq p] True by blast
    let ?s2 = "s\<lparr>m_threads := (m_threads s)[t := ?th], m_runq := r\<rparr>"
    have inv2: "smp_inv idle ?s2 ?Q"
      using prio_queued[OF inv t p _ _ _ r(2)] que True by auto
    have "mth ?s2 t = ?th" "m_is_running s t = None"
      using t smp_invD(2)[OF inv] m_is_running_iff[OF inv, of t] que by simp_all
    then obtain s' where s': "m_schedule_if_higher_prio c ?s2 t p = Inr s'" "same_sched ?s2 s'"
      using higher_prio_ok[OF inv_fit[OF inv2] t, of c p] smp_invD(6)[OF inv2 t] by auto
    obtain r1 where r1: "bnd (rq_peek_head (m_runq s) ?o)
          (\<lambda>h. if h = Some t then rq_pop_head (m_runq s) t ?o else rq_del (m_runq s) t) = Inr r1"
        "rq_add r1 t p = Inr r"
      using r(1) unfolding bnd_eq_Inr by blast
    have "m_set_priority c s t p = Inr (if ?o < p then s' else ?s2)"
      using v True que run \<open>m_is_running s t = None\<close> r1 s'(1)
      by (simp add: m_set_priority_def m_get_ok[OF inv t] Let_def cong: if_cong)
    then show ?thesis
      using same_sched_inv[OF inv2 s'(2)] inv2 by auto
  qed
qed

end
