(* ===== verification/SmpSwitch.thy ===== *)
theory SmpSwitch
  imports SmpInvariant SchedulerSpec
begin

section \<open>Creation, start-up and the context switch on two cores\<close>

text \<open>
  The rest of the invariant: a created thread, the two idle threads at start-up, and the scheduler,
  which always finds a thread for its core because one idle thread is free.  At the end, every
  event of an orderly run keeps the invariant and none panics, except a creation without a free slot.
\<close>

subsection \<open>Creating threads\<close>

lemma m_get_unused_ok:
  "smp_inv idle s Q \<Longrightarrow> \<exists>u. m_get_unused_from s i = Inr u \<and>
     (\<forall>t. u = Some t \<longrightarrow> t < thread_count \<and> t_state (mth s t) = Invalid)"
proof (induction "thread_count - i" arbitrary: i)
  case 0
  then show ?case
    by (subst m_get_unused_from.simps) simp
next
  case (Suc n)
  then have "i < thread_count"
    by simp
  then show ?case
    using Suc.hyps(1)[of "i + 1"] Suc.hyps(2) Suc.prems by (subst m_get_unused_from.simps) auto
qed

lemma affinity_contains_ok:
  "c < CORES \<Longrightarrow> affinity_contains no_affinity c" "c < CORES \<Longrightarrow> affinity_contains (affinity_one c) c"
  "affinity_ok aff \<Longrightarrow> \<exists>c<CORES. affinity_contains (case aff of None \<Rightarrow> no_affinity | Some a \<Rightarrow> a) c"
proof -
  show a: "c < CORES \<Longrightarrow> affinity_contains no_affinity c" "c < CORES \<Longrightarrow> affinity_contains (affinity_one c) c" for c
    by (auto simp: affinity_contains_def no_affinity_def affinity_one_def CORES_def less_2_cases_iff)
  show "affinity_ok aff \<Longrightarrow> \<exists>c<CORES. affinity_contains (case aff of None \<Rightarrow> no_affinity | Some a \<Rightarrow> a) c"
  proof -
    assume "affinity_ok aff"
    moreover have "0 < CORES"
      by (simp add: CORES_def)
    ultimately show ?thesis
      using a by (cases aff) (auto simp: affinity_ok_def)
  qed
qed

lemma m_create_ok:
  fixes cl st len f :: "32 word" and a :: "32 word option"
  assumes inv: "smp_inv idle s Q" and free: "m_get_unused_from s 0 = Inr (Some t)" and nc: "not_current s t"
    and p: "p < sched_prio_levels" and aff: "affinity_ok aff"
  shows "\<exists>s' th. m_create cl s f a st len p aff = Inr (s', Some t) \<and> smp_inv idle s' Q \<and>
    m_threads s' = (m_threads s)[t := th] \<and> current_threads s' = current_threads s \<and> t_state th = Parked \<and>
    core_affinity th = (case aff of None \<Rightarrow> no_affinity | Some a \<Rightarrow> a) \<and> t < thread_count \<and> t \<notin> set idle"
proof -
  have t: "t < thread_count" "t_state (mth s t) = Invalid"
    using m_get_unused_ok[OF inv, of 0] free by auto
  let ?a = "case aff of None \<Rightarrow> no_affinity | Some a \<Rightarrow> a"
  obtain th m where th: "setup_stack cl ((thread.truncate (mth s t))\<lparr>t_prio := p, t_tid := t, t_state := Parked\<rparr>)
      (m_mem s) st len f a = (th, m)"
    by fastforce
  have f: "t_prio th = p" "t_tid th = t" "t_state th = Parked"
    using setup_stack_fields[OF th] by simp_all
  let ?th = "thread.extend th \<lparr>core_affinity = ?a\<rparr>"
  have fields: "t_prio ?th = p" "t_tid ?th = t" "t_state ?th = Parked" "core_affinity ?th = ?a"
    using f by (simp_all add: thread.defs)
  have idle: "t \<notin> set idle"
    using smp_invD(11)[OF inv] t(2) by auto
  let ?s = "s\<lparr>m_threads := (m_threads s)[t := ?th], m_mem := m\<rparr>"
  have "smp_inv idle ?s Q"
  proof (rule smp_inv_update[OF inv t(1)])
    show "t \<in> set (Q q) \<longleftrightarrow> t_state ?th = Running \<and> t_prio ?th = q \<and> not_current s t" for q
      using smp_invD(5)[OF inv t(1), of q] t(2) fields(3) by simp
    show "mthread_ok t ?th"
      using fields p affinity_contains_ok(3)[OF aff] by (simp add: mthread_ok_def)
  qed (use smp_invD(1)[OF inv] nc idle in simp_all)
  moreover have "m_create cl s f a st len p aff = Inr (?s, Some t)"
    using free th inv t(1) by (simp add: m_create_def)
  ultimately show ?thesis
    using fields t(1) idle by fastforce
qed

lemma m_create_raw_ok:
  fixes cl st len f :: "32 word" and a :: "32 word option"
  assumes inv: "smp_inv idle s Q" and free: "m_get_unused_from s 0 = Inr (Some t)" and nc: "not_current s t"
    and p: "p < sched_prio_levels" and aff: "affinity_ok aff"
  shows "\<exists>s' Q'. m_create_raw c cl s f a st len p aff = Inr (s', t) \<and> smp_inv idle s' Q' \<and>
    t_state (mth s' t) = Running \<and> core_affinity (mth s' t) = (case aff of None \<Rightarrow> no_affinity | Some a \<Rightarrow> a) \<and>
    current_threads s' = current_threads s \<and> t < thread_count \<and> t \<notin> set idle"
proof -
  obtain s1 th where s1: "m_create cl s f a st len p aff = Inr (s1, Some t)" "smp_inv idle s1 Q"
    "m_threads s1 = (m_threads s)[t := th]" "current_threads s1 = current_threads s" "t_state th = Parked"
    "core_affinity th = (case aff of None \<Rightarrow> no_affinity | Some a \<Rightarrow> a)" "t < thread_count" "t \<notin> set idle"
    using m_create_ok[OF assms] by blast
  have th: "mth s1 t = th"
    using s1(3,7) smp_invD(2)[OF inv] by simp
  have "not_current s1 t"
    using nc s1(4) by (simp add: not_current_def)
  then obtain s' Q' where s': "m_set_state c s1 t Running = Inr (s', t_state (mth s1 t))" "smp_inv idle s' Q'"
    "m_threads s' = (m_threads s1)[t := (mth s1 t)\<lparr>t_state := Running\<rparr>]" "current_threads s' = current_threads s1"
    using m_set_state_ready[OF s1(2,7), of c] th s1(5) by auto
  then show ?thesis
    using s1 th smp_invD(2)[OF s1(2)] by (auto simp: m_create_raw_def)
qed

subsection \<open>Start-up\<close>

lemma smp_new_inv: "smp_inv [] (smp_new depth) (\<lambda>_. [])"
proof -
  have c: "affinity_contains no_affinity 0" "0 < CORES"
    by (rule affinity_contains_ok) (simp_all add: CORES_def)
  have "rq_rep sched_prio_levels thread_count (rq_new sched_prio_levels thread_count) (\<lambda>_. [])"
    by (rule rq_rep_new) (simp_all add: sched_prio_levels_def thread_count_def)
  moreover have "mthread_ok t mthread_default" for t
    using c by (auto simp: mthread_ok_def mthread_default_def thread_default_def thread.defs sched_prio_levels_def
        thread_count_def)
  ultimately show ?thesis
    by (auto simp: smp_inv_def smp_new_def smp_queued_def smp_threads_def smp_cores_def smp_idle_def
        mthread_default_def thread_default_def thread.defs)
qed

lemma m_create_noarg_inv:
  fixes cl func stack len :: "32 word"
  assumes c: "m_create_noarg c cl s func stack len p aff = Inr (s', t)" and inv: "smp_inv ids s Q"
    and nc: "\<And>u. not_current s u" and ok: "p < sched_prio_levels" "affinity_ok aff"
  shows "\<exists>Q'. smp_inv ids s' Q'" "t_state (mth s' t) = Running" "aff = None \<Longrightarrow> core_affinity (mth s' t) = no_affinity"
    "t < thread_count" "t \<notin> set ids" "current_threads s' = current_threads s"
proof -
  obtain u where u: "m_get_unused_from s 0 = Inr u"
    using m_get_unused_ok[OF inv] by blast
  have "u \<noteq> None"
    using c u by (cases u) (simp_all add: m_create_noarg_def m_create_raw_def m_create_def)
  then obtain t' where t': "m_get_unused_from s 0 = Inr (Some t')"
    using u by blast
  obtain s1 Q1 where s1: "m_create_raw c cl s func None stack len p aff = Inr (s1, t')" "smp_inv ids s1 Q1"
    "t_state (mth s1 t') = Running" "core_affinity (mth s1 t') = (case aff of None \<Rightarrow> no_affinity | Some a \<Rightarrow> a)"
    "current_threads s1 = current_threads s" "t' < thread_count" "t' \<notin> set ids"
    using m_create_raw_ok[OF inv t' nc ok, of c cl func None stack len] by blast
  then have "s1 = s'" "t' = t"
    using c by (simp_all add: m_create_noarg_def)
  then show "\<exists>Q'. smp_inv ids s' Q'" "t_state (mth s' t) = Running" "aff = None \<Longrightarrow> core_affinity (mth s' t) = no_affinity"
    "t < thread_count" "t \<notin> set ids" "current_threads s' = current_threads s"
    using s1(2-7) by auto
qed

lemma autostart_ok:
  fixes cl :: "32 word"
  assumes "autostart_threads cl fns s = Inr s'" "smp_inv ids s Q" "\<And>t. not_current s t"
    "\<forall>(func, stack, len, prio, aff)\<in>set fns. prio < sched_prio_levels \<and> affinity_ok aff"
  shows "(\<exists>Q'. smp_inv ids s' Q') \<and> current_threads s' = current_threads s"
  using assms
proof (induction fns arbitrary: s Q)
  case (Cons fn fns)
  obtain func stack len p aff where fn: "fn = (func, stack, len, p, aff)"
    by (cases fn)
  obtain s1 t where s1: "m_create_noarg 0 cl s func stack len p aff = Inr (s1, t)" "autostart_threads cl fns s1 = Inr s'"
    using Cons.prems(1) by (auto simp: fn bnd_eq_Inr)
  note ok = m_create_noarg_inv[OF s1(1) Cons.prems(2,3)]
  obtain Q1 where "smp_inv ids s1 Q1" "current_threads s1 = current_threads s"
    using ok(1,6) Cons.prems(4) by (auto simp: fn)
  moreover from this(2) have "not_current s1 u" for u
    using Cons.prems(3) by (simp add: not_current_def)
  ultimately show ?case
    using Cons.IH[OF s1(2)] Cons.prems(4) by auto
qed auto

lemma idle_threads_ok:
  fixes cl idle_fn :: "32 word"
  assumes "setup_idle_threads cl idle_fn stacks s = Inr (s', ts)" "smp_inv ids s Q" "\<And>t. not_current s t"
  shows "\<exists>Q'. smp_inv (ids @ ts) s' Q' \<and> current_threads s' = current_threads s \<and> length ts = length stacks"
  using assms
proof (induction stacks arbitrary: ids s Q ts)
  case (Cons stack stacks)
  obtain s1 t ts' where s1: "m_create_noarg 0 cl s idle_fn stack IDLE_THREAD_STACK_SIZE 0 None = Inr (s1, t)"
    and ts': "setup_idle_threads cl idle_fn stacks s1 = Inr (s', ts')" "ts = t # ts'"
    using Cons.prems(1) by (auto simp: bnd_eq_Inr)
  have "0 < sched_prio_levels" "affinity_ok None"
    by (simp_all add: sched_prio_levels_def thread_count_def affinity_ok_def)
  note ok = m_create_noarg_inv[OF s1 Cons.prems(2,3) this]
  obtain Q1 where "smp_inv (ids @ [t]) s1 Q1"
    using ok(1-5) by (auto simp: smp_inv_def smp_idle_def)
  moreover have "not_current s1 u" for u
    using Cons.prems(3) ok(6) by (simp add: not_current_def)
  ultimately show ?case
    using Cons.IH[OF ts'(1)] ts'(2) ok(6) by fastforce
qed auto

lemma booted_inv:
  assumes "booted cl idle s"
  shows "(\<exists>Q. smp_inv idle s Q) \<and> length idle = CORES"
proof -
  obtain depth fns idle_fn stacks s1 where b: "length stacks = CORES"
    "\<forall>(func, stack, len, prio, aff)\<in>set fns. prio < sched_prio_levels \<and> affinity_ok aff"
    "autostart_threads cl fns (smp_new depth) = Inr s1" "setup_idle_threads cl idle_fn stacks s1 = Inr (s, idle)"
    using assms by (auto simp: booted_def start_up_def bnd_eq_Inr)
  have nc: "not_current (smp_new depth) t" for t
    by (simp add: not_current_def smp_new_def)
  obtain Q1 where "smp_inv [] s1 Q1" "current_threads s1 = current_threads (smp_new depth)"
    using autostart_ok[OF b(3) smp_new_inv nc b(2)] by blast
  moreover from this(2) have "not_current s1 t" for t
    using nc by (simp add: not_current_def)
  ultimately show ?thesis
    using idle_threads_ok[OF b(4)] b(1) by fastforce
qed

subsection \<open>The context switch\<close>

text \<open>A thread no other core has.\<close>

definition free_for :: "smp \<Rightarrow> nat \<Rightarrow> nat \<Rightarrow> bool" where
  "free_for s c t \<longleftrightarrow> (\<forall>c'<CORES. c' \<noteq> c \<longrightarrow> current_threads s ! c' \<noteq> Some t)"

lemma free_for_iff:
  assumes "smp_inv idle s Q" "c < CORES"
  shows "free_for s c t \<longleftrightarrow> not_current s t \<or> current_threads s ! c = Some t"
  using not_current_iff[OF smp_invD(3)[OF assms(1)], of t] smp_invD(9)[OF assms] assms(2)
  unfolding free_for_def by metis

lemma m_current_cong: "m_current c (s\<lparr>m_pendsv := x\<rparr>) = m_current c s"
  by (simp add: m_current_def m_current_tid_def m_get_unchecked_def cong: option.case_cong)

text \<open>After adding the current thread, the queues hold the ready threads no other core has.\<close>

definition switch_queue :: "smp \<Rightarrow> nat \<Rightarrow> (nat \<Rightarrow> nat list) \<Rightarrow> bool" where
  "switch_queue s c Q \<longleftrightarrow>
     (\<forall>t<thread_count. \<forall>p. t \<in> set (Q p) \<longleftrightarrow> t_state (mth s t) = Running \<and> t_prio (mth s t) = p \<and> free_for s c t)"

lemma add_current_ok:
  assumes inv: "smp_inv idle s Q" and c: "c < CORES"
  shows "\<exists>r Q'. add_current_thread_to_rq c (s\<lparr>m_pendsv := x\<rparr>) = Inr (s\<lparr>m_pendsv := x, m_runq := r\<rparr>) \<and>
    rq_rep sched_prio_levels thread_count r Q' \<and> switch_queue s c Q'"
proof (cases "\<exists>t. current_threads s ! c = Some t \<and> t_state (mth s t) = Running")
  case False
  have "switch_queue s c Q"
    unfolding switch_queue_def using smp_invD(5)[OF inv] free_for_iff[OF inv c] False by blast
  moreover have "add_current_thread_to_rq c (s\<lparr>m_pendsv := x\<rparr>) = Inr (s\<lparr>m_pendsv := x, m_runq := m_runq s\<rparr>)"
    using False by (cases "current_threads s ! c")
      (auto simp: add_current_thread_to_rq_def m_current_cong m_current_ok[OF inv c])
  ultimately show ?thesis
    using smp_invD(1)[OF inv] by blast
next
  case True
  then obtain t where t: "current_threads s ! c = Some t" "t_state (mth s t) = Running"
    by blast
  let ?p = "t_prio (mth s t)"
  have t16: "t < thread_count" and nc: "\<not> not_current s t"
    using smp_invD(7)[OF inv c t(1)] not_current_iff[OF smp_invD(3)[OF inv]] c t(1) by auto
  have "\<forall>q. t \<notin> set (Q q)"
    using smp_invD(5)[OF inv t16] nc by simp
  then obtain r where r: "rq_add (m_runq s) t ?p = Inr r"
    "rq_rep sched_prio_levels thread_count r (Q(?p := Q ?p @ [t]))"
    using rq.add_new[OF smp_invD(1)[OF inv] t16 _ mthread_okD(1)[OF smp_invD(6)[OF inv t16]]] by blast
  have "switch_queue s c (Q(?p := Q ?p @ [t]))"
    unfolding switch_queue_def
  proof (intro allI impI)
    fix u p assume u: "u < thread_count"
    show "u \<in> set ((Q(?p := Q ?p @ [t])) p) \<longleftrightarrow> t_state (mth s u) = Running \<and> t_prio (mth s u) = p \<and> free_for s c u"
      using smp_invD(5)[OF inv u, of p] free_for_iff[OF inv c, of u] t nc by (cases "u = t") auto
  qed
  moreover have "t_tid (mth s t) = t"
    using mthread_okD(2)[OF smp_invD(6)[OF inv t16]] t(2) by simp
  then have "add_current_thread_to_rq c (s\<lparr>m_pendsv := x\<rparr>) = Inr (s\<lparr>m_pendsv := x, m_runq := r\<rparr>)"
    using t r(1) by (simp add: add_current_thread_to_rq_def m_current_cong m_current_ok[OF inv c])
  ultimately show ?thesis
    using r(2) by blast
qed

text \<open>An idle thread is always among them.\<close>

lemma idle_free:
  assumes inv: "smp_inv idle s Q" and c: "c < CORES" and n: "length idle = CORES"
  obtains t where "t \<in> set idle" "free_for s c t"
proof (rule ccontr)
  assume "\<not> thesis"
  then have "\<forall>t\<in>set idle. \<exists>c'\<in>{..<CORES} - {c}. current_threads s ! c' = Some t"
    using that by (auto simp: free_for_def)
  then have "set idle \<subseteq> (\<lambda>c'. the (current_threads s ! c')) ` ({..<CORES} - {c})"
    by force
  then have "card (set idle) \<le> card ({..<CORES} - {c})"
    by (meson card_image_le card_mono finite_Diff finite_imageI finite_lessThan order_trans)
  then show False
    using n c distinct_card[OF smp_invD(10)[OF inv]] by simp
qed

lemma find_ready_highest:
  "find P (ready_order n Q) = Some t \<Longrightarrow>
    \<exists>p<n. t \<in> set (Q p) \<and> P t \<and> (\<forall>q<n. \<forall>u\<in>set (Q q). P u \<longrightarrow> q \<le> p)"
proof (induction n)
  case (Suc n)
  have append: "find P (xs @ ys) = (case find P xs of None \<Rightarrow> find P ys | Some x \<Rightarrow> Some x)" for xs ys
    by (induction xs) auto
  show ?case
  proof (cases "find P (Q n)")
    case None
    then have "find P (ready_order n Q) = Some t"
      using Suc.prems by (simp add: ready_order_Suc append)
    then obtain p where p: "p < n" "t \<in> set (Q p)" "P t" "\<forall>q<n. \<forall>u\<in>set (Q q). P u \<longrightarrow> q \<le> p"
      using Suc.IH by blast
    moreover have "\<forall>u\<in>set (Q n). \<not> P u"
      using None by (simp add: find_None_iff)
    ultimately show ?thesis
      using less_Suc_eq by auto
  next
    case (Some u)
    then have "u = t"
      using Suc.prems by (simp add: ready_order_Suc append)
    moreover have "u \<in> set (Q n)" "P u"
      using Some by (auto simp: find_Some_iff)
    ultimately show ?thesis
      by auto
  qed
qed simp

text \<open>The thread chosen for a core: the highest priority among the ready threads it may run.\<close>

definition best_for :: "smp \<Rightarrow> nat \<Rightarrow> nat \<Rightarrow> bool" where
  "best_for s c t \<longleftrightarrow> t < thread_count \<and> t_state (mth s t) = Running \<and> free_for s c t \<and>
     affinity_contains (core_affinity (mth s t)) c \<and>
     (\<forall>u<thread_count. t_state (mth s u) = Running \<longrightarrow> free_for s c u \<longrightarrow>
        affinity_contains (core_affinity (mth s u)) c \<longrightarrow> t_prio (mth s u) \<le> t_prio (mth s t))"

lemma get_next_ok:
  assumes inv: "smp_inv idle s Q" and c: "c < CORES" and n: "length idle = CORES"
    and s1: "m_threads s1 = m_threads s"
    and r: "rq_rep sched_prio_levels thread_count (m_runq s1) Q1" and q: "switch_queue s c Q1"
  shows "\<exists>t r2. get_next_tid c s1 = Some (Inr (s1\<lparr>m_runq := r2\<rparr>, Some t)) \<and>
    rq_rep sched_prio_levels thread_count r2 (\<lambda>p. remove1 t (Q1 p)) \<and> best_for s c t"
proof -
  have aff: "is_affine_to c s1 u \<longleftrightarrow> affinity_contains (core_affinity (mth s u)) c" if "u < thread_count" for u
    using that smp_invD(2)[OF inv] by (simp add: is_affine_to_def m_get_unchecked_def s1)
  have find: "rq_get_next_filter P (m_runq s1) = Some (Inr (find P (ready_order sched_prio_levels Q1)))" for P
    by (rule rq_get_next_filter_spec[OF r]) (simp add: sched_prio_levels_def thread_count_def)
  have queued: "u \<in> set (Q1 (t_prio (mth s u)))" "t_prio (mth s u) < sched_prio_levels"
    if "u < thread_count" "t_state (mth s u) = Running" "free_for s c u" for u
    using q that mthread_okD(1)[OF smp_invD(6)[OF inv that(1)]] by (auto simp: switch_queue_def)
  obtain i where i: "i \<in> set idle" "free_for s c i"
    using idle_free[OF inv c n] by blast
  then have "i \<in> set (ready_order sched_prio_levels Q1)" "is_affine_to c s1 i"
    using smp_invD(11)[OF inv i(1)] queued[of i] aff[of i] affinity_contains_ok(1)[OF c]
    by (auto simp: set_ready_order)
  then obtain t where t: "find (is_affine_to c s1) (ready_order sched_prio_levels Q1) = Some t"
    by (cases "find (is_affine_to c s1) (ready_order sched_prio_levels Q1)") (auto simp: find_None_iff)
  obtain p where p: "p < sched_prio_levels" "t \<in> set (Q1 p)" "is_affine_to c s1 t"
    "\<forall>q < sched_prio_levels. \<forall>u\<in>set (Q1 q). is_affine_to c s1 u \<longrightarrow> q \<le> p"
    using find_ready_highest[OF t] by blast
  have t16: "t < thread_count"
    using rq.queue_less[OF r p(2)] by blast
  then have tp: "t_prio (mth s t) = p" "t_state (mth s t) = Running" "free_for s c t"
    using q p(2) by (auto simp: switch_queue_def)
  have "best_for s c t"
    unfolding best_for_def using t16 tp p(3,4) queued aff by blast
  moreover obtain r2 where "rq_del (m_runq s1) t = Inr r2" "rq_rep sched_prio_levels thread_count r2 (\<lambda>p. remove1 t (Q1 p))"
    using rq.del[OF r t16] by blast
  ultimately show ?thesis
    using t by (auto simp: get_next_tid_def find)
qed

text \<open>What the scheduler reads of a thread.\<close>

definition same_thread :: "mthread \<Rightarrow> mthread \<Rightarrow> bool" where
  "same_thread th th' \<longleftrightarrow> t_state th' = t_state th \<and> t_prio th' = t_prio th \<and> t_tid th' = t_tid th \<and>
     core_affinity th' = core_affinity th"

lemma same_thread_ok: "same_thread th th' \<Longrightarrow> mthread_ok t th' \<longleftrightarrow> mthread_ok t th"
  by (simp add: same_thread_def mthread_ok_def)

lemma m_switch_ok:
  assumes fit: "threads_fit s" and c: "c < CORES" and t: "t < thread_count"
  shows "\<exists>s' ptrs. m_switch c s t = Inr (s', ptrs) \<and>
    length (m_threads s') = thread_count \<and> (\<forall>u<thread_count. same_thread (mth s u) (mth s' u)) \<and>
    current_threads s' = (current_threads s)[c := Some t] \<and> m_pendsv s' = m_pendsv s \<and>
    m_runq s' = m_runq s \<and> m_moving s' = m_moving s \<and>
    (\<forall>a b. ptrs = Some (a, b) \<longrightarrow> a < thread_count \<and> b < thread_count)"
proof (cases "current_threads s ! c")
  case None
  then show ?thesis
    using assms by (auto simp: m_switch_def m_current_tid_def m_get_unchecked_def threads_fit_def same_thread_def Let_def)
next
  case (Some u)
  then have u: "u < thread_count" "current_threads s = (current_threads s)[c := Some u]"
    using fit c by (auto simp: threads_fit_def) (metis list_update_id)
  then show ?thesis
    using assms Some by (cases "t = u")
      (auto simp: m_switch_def m_current_tid_def m_upd_thread_def m_get_unchecked_def threads_fit_def same_thread_def
        nth_list_update)
qed

lemma switch_inv:
  assumes inv: "smp_inv idle s Q" and c: "c < CORES" and best: "best_for s c t"
    and q: "switch_queue s c Q1" and r: "rq_rep sched_prio_levels thread_count (m_runq s') (\<lambda>p. remove1 t (Q1 p))"
    and dist: "\<And>p. distinct (Q1 p)"
    and ths: "length (m_threads s') = thread_count" "\<And>u. u < thread_count \<Longrightarrow> same_thread (mth s u) (mth s' u)"
    and cur: "current_threads s' = (current_threads s)[c := Some t]" and pend: "m_pendsv s' = (m_pendsv s)[c := False]"
    and mov: "length (m_moving s') = CORES"
      "\<And>c a b. c < CORES \<Longrightarrow> m_moving s' ! c = Some (a, b) \<Longrightarrow> a < thread_count \<and> b < thread_count"
  shows "smp_inv idle s' (\<lambda>p. remove1 t (Q1 p))"
proof -
  have len: "length (current_threads s) = CORES"
    using smp_invD(3)[OF inv] .
  have nc: "not_current s' u \<longleftrightarrow> u \<noteq> t \<and> free_for s c u" for u
    using c len by (auto simp: not_current_iff cur free_for_def nth_list_update)
  have f: "t_state (mth s' u) = t_state (mth s u)" "t_prio (mth s' u) = t_prio (mth s u)"
    "core_affinity (mth s' u) = core_affinity (mth s u)" if "u < thread_count" for u
    using ths(2)[OF that] by (simp_all add: same_thread_def)
  have "smp_queued s' (\<lambda>p. remove1 t (Q1 p))"
    unfolding smp_queued_def using q f nc dist by (auto simp: switch_queue_def)
  moreover have "smp_threads s'"
    unfolding smp_threads_def using ths same_thread_ok smp_invD(6)[OF inv] by blast
  moreover have "smp_cores s'"
    unfolding smp_cores_def
  proof (intro conjI allI impI)
    fix c' u assume c': "c' < CORES" "current_threads s' ! c' = Some u"
    have old: "current_threads s ! c' = Some u" if "c' \<noteq> c"
      using c'(2) that by (simp add: cur)
    have new: "u = t" if "c' = c"
      using c'(2) that c len by (simp add: cur)
    show u: "u < thread_count"
      using old new best smp_invD(7)[OF inv c'(1)] by (cases "c' = c") (auto simp: best_for_def)
    show "m_pendsv s' ! c'" if "t_state (mth s' u) \<noteq> Running"
      using that old new best smp_invD(8)[OF inv c'(1)] f(1)[OF u] by (cases "c' = c") (auto simp: best_for_def pend)
    show "d = c'" if d: "d < CORES" "current_threads s' ! d = Some u" for d
    proof -
      have "current_threads s ! d = Some u" if "d \<noteq> c"
        using d(2) that by (simp add: cur)
      moreover have "u = t" if "d = c"
        using d(2) that c len by (simp add: cur)
      ultimately show ?thesis
        using old new best c'(1) d(1) smp_invD(9)[OF inv c'(1)] unfolding best_for_def free_for_def by metis
    qed
  next
    fix d a b assume "d < CORES" "m_moving s' ! d = Some (a, b)"
    then show "a < thread_count" "b < thread_count"
      using mov(2) by blast+
  qed (use len smp_invD(4)[OF inv] mov(1) in \<open>simp_all add: cur pend\<close>)
  moreover have "smp_idle idle s'"
    unfolding smp_idle_def using smp_invD(10,11)[OF inv] f by auto
  ultimately show ?thesis
    using r by (simp add: smp_inv_def)
qed

lemma pend_sv_enter_ok:
  assumes inv: "smp_inv idle s Q" and c: "c < CORES" and n: "length idle = CORES"
  shows "\<exists>s' Q' t. pend_sv_enter c s = Some (Inr s') \<and> smp_inv idle s' Q' \<and> best_for s c t \<and>
    current_threads s' = (current_threads s)[c := Some t] \<and> (\<forall>u<thread_count. same_thread (mth s u) (mth s' u))"
proof -
  let ?s0 = "s\<lparr>m_pendsv := (m_pendsv s)[c := False]\<rparr>"
  obtain r1 Q1 where r1: "add_current_thread_to_rq c ?s0 = Inr (?s0\<lparr>m_runq := r1\<rparr>)"
    "rq_rep sched_prio_levels thread_count r1 Q1" "switch_queue s c Q1"
    using add_current_ok[OF inv c, of "(m_pendsv s)[c := False]"] by auto
  obtain t r2 where t: "get_next_tid c (?s0\<lparr>m_runq := r1\<rparr>) = Some (Inr (?s0\<lparr>m_runq := r2\<rparr>, Some t))"
    "rq_rep sched_prio_levels thread_count r2 (\<lambda>p. remove1 t (Q1 p))" "best_for s c t"
    using get_next_ok[OF inv c n, of "?s0\<lparr>m_runq := r1\<rparr>" Q1] r1(2,3) by auto
  let ?s2 = "?s0\<lparr>m_runq := r2\<rparr>"
  have fit: "threads_fit ?s2"
    using inv_fit[OF inv] by (simp add: threads_fit_def)
  obtain s3 ptrs where s3: "m_switch c ?s2 t = Inr (s3, ptrs)"
    "length (m_threads s3) = thread_count" "\<forall>u<thread_count. same_thread (mth s u) (mth s3 u)"
    "current_threads s3 = (current_threads s)[c := Some t]" "m_pendsv s3 = (m_pendsv s)[c := False]"
    "m_runq s3 = r2" "m_moving s3 = m_moving s"
    "\<forall>a b. ptrs = Some (a, b) \<longrightarrow> a < thread_count \<and> b < thread_count"
    using m_switch_ok[OF fit c, of t] t(3) by (auto simp: best_for_def)
  let ?s4 = "s3\<lparr>m_moving := (m_moving s)[c := ptrs]\<rparr>"
  have "smp_inv idle ?s4 (\<lambda>p. remove1 t (Q1 p))"
  proof (rule switch_inv[OF inv c t(3) r1(3)])
    show "distinct (Q1 p)" for p
      using rq.rep_wf[OF r1(2)] by blast
    show "a < thread_count \<and> b < thread_count" if "d < CORES" "m_moving ?s4 ! d = Some (a, b)" for d a b
      using that s3(8) smp_invD(13)[OF inv that(1)] smp_invD(12)[OF inv] by (cases "d = c") auto
  qed (use s3 t(2) smp_invD(12)[OF inv] in simp_all)
  moreover have "pend_sv_enter c s = Some (Inr ?s4)"
    using r1(1) t(1) s3(1,7) by (simp add: pend_sv_enter_def m_sched_def)
  ultimately show ?thesis
    using t(3) s3(3,4) by (intro exI[of _ ?s4]) auto
qed

text \<open>Moving the registers.\<close>

lemma smp_inv_moved:
  "smp_inv idle s Q \<Longrightarrow> smp_inv idle (s\<lparr>m_regs := x, m_moving := (m_moving s)[c := None]\<rparr>) Q"
  (is "_ \<Longrightarrow> smp_inv idle ?s Q")
proof -
  assume inv: "smp_inv idle s Q"
  have mov: "m_moving ?s ! d = Some (a, b) \<Longrightarrow> m_moving s ! d = Some (a, b)" if "d < CORES" for d a b
    using smp_invD(12)[OF inv] that by (cases "d = c") simp_all
  have "smp_cores ?s"
    unfolding smp_cores_def
  proof (intro conjI allI impI)
    fix d a b assume "d < CORES" "m_moving ?s ! d = Some (a, b)"
    then show "a < thread_count" "b < thread_count"
      using mov smp_invD(13)[OF inv] by blast+
  next
    fix d u assume d: "d < CORES" "current_threads ?s ! d = Some u"
    then show "u < thread_count" "t_state (mth ?s u) \<noteq> Running \<Longrightarrow> m_pendsv ?s ! d"
      using smp_invD(7,8)[OF inv] by simp_all
    show "c' = d" if "c' < CORES" "current_threads ?s ! c' = Some u" for c'
      using smp_invD(9)[OF inv d(1)] d that by simp
  qed (use smp_invD(3,4,12)[OF inv] in simp_all)
  moreover have "not_current ?s t = not_current s t" for t
    by (simp add: not_current_def)
  ultimately show ?thesis
    using inv by (simp add: smp_inv_def smp_queued_def smp_threads_def smp_idle_def)
qed

lemma pend_sv_move_ok:
  assumes inv: "smp_inv idle s Q" and c: "c < CORES"
  shows "\<exists>s'. pend_sv_move c s = Inr s' \<and> smp_inv idle s' Q"
proof (cases "m_moving s ! c")
  case None
  then show ?thesis
    using inv by (simp add: pend_sv_move_def)
next
  case (Some p)
  obtain a b where p: "p = (a, b)"
    by fastforce
  then have ab: "a < thread_count" "b < thread_count"
    using smp_invD(13)[OF inv c] Some by auto
  let ?s1 = "s\<lparr>m_threads := (m_threads s)[a := (mth s a)\<lparr>t_high_regs := m_regs s ! c\<rparr>]\<rparr>"
  have inv1: "smp_inv idle ?s1 Q"
    by (rule smp_inv_data[OF inv ab(1)]) simp_all
  have "pend_sv_move c s = Inr (?s1\<lparr>m_regs := (m_regs s)[c := t_high_regs (mth ?s1 b)], m_moving := (m_moving s)[c := None]\<rparr>)"
    using Some p ab inv inv1 by (simp add: pend_sv_move_def m_upd_thread_def)
  then show ?thesis
    using smp_inv_moved[OF inv1] by auto
qed

subsection \<open>All events\<close>

text \<open>\<open>create_raw\<close> unwraps the free slot.\<close>

definition has_room :: "smp \<Rightarrow> event \<Rightarrow> bool" where
  "has_room s e \<longleftrightarrow> (case e of Create c f a st len p aff \<Rightarrow> m_get_unused_from s 0 \<noteq> Inr None | _ \<Rightarrow> True)"

lemma perform_ok:
  assumes inv: "smp_inv idle s Q" and n: "length idle = CORES"
    and e: "enabled idle s e" "orderly s e" "has_room s e"
  shows "\<exists>s' Q'. perform cl s e = Some (Inr s') \<and> smp_inv idle s' Q'"
proof (cases e)
  case (Create c f a st len p aff)
  obtain u where "m_get_unused_from s 0 = Inr u"
    using m_get_unused_ok[OF inv] by blast
  then obtain t where t: "m_get_unused_from s 0 = Inr (Some t)"
    using e(3) Create by (cases u) (auto simp: has_room_def)
  moreover have "not_current s t" "p < sched_prio_levels" "affinity_ok aff"
    using e(1,2) Create t by (simp_all add: orderly_def enabled_def)
  ultimately show ?thesis
    using m_create_raw_ok[OF inv t, of p aff c cl f a st len] Create by (auto simp: perform_def)
next
  case (Start c)
  then show ?thesis
    using same_sched_inv[OF inv, of "m_schedule c s"] by (auto simp: perform_def)
next
  case (Park c)
  then show ?thesis
    using m_park_ok[OF inv, of c] e(1) by (simp add: perform_def enabled_def) blast
next
  case (Yield c)
  then show ?thesis
    using m_yield_ok[OF inv, of c] e(1) by (simp add: perform_def enabled_def) blast
next
  case (Exit c)
  then show ?thesis
    using m_cleanup_ok[OF inv, of c] e(1) by (simp add: perform_def enabled_def) blast
next
  case (Wake c t)
  then have "not_current s t"
    using e(2) by (simp add: orderly_def)
  then obtain s' b Q' where "m_unpark c s t = Inr (s', b)" "smp_inv idle s' Q'"
    using m_unpark_ok[OF inv, of t c] by blast
  then show ?thesis
    using Wake by (auto simp: perform_def)
next
  case (Prio c t p)
  then show ?thesis
    using m_set_priority_ok[OF inv, of p c t] e(1) by (auto simp: perform_def enabled_def)
next
  case (Compute c x rs)
  then show ?thesis
    using same_sched_inv[OF inv, of "s\<lparr>m_psp := (m_psp s)[c := x], m_regs := (m_regs s)[c := rs]\<rparr>"]
    by (auto simp: perform_def)
next
  case (Token c)
  then show ?thesis
    using same_sched_inv[OF inv, of "fifo_interrupt c s"] by (auto simp: perform_def)
next
  case (Enter c)
  then show ?thesis
    using pend_sv_enter_ok[OF inv _ n, of c] e(1) by (auto simp: perform_def enabled_def)
next
  case (Move c)
  then show ?thesis
    using pend_sv_move_ok[OF inv, of c] e(1) by (auto simp: perform_def enabled_def)
qed

lemma no_room: "\<not> has_room s e \<Longrightarrow> perform cl s e = Some (Inl UnwrapNone)"
  by (cases e) (auto simp: has_room_def perform_def m_create_raw_def m_create_def)

lemma smp_orderly_inv: "smp_orderly cl idle s \<Longrightarrow> (\<exists>Q. smp_inv idle s Q) \<and> length idle = CORES"
proof (induction rule: smp_orderly.induct)
  case (boot s)
  then show ?case
    by (rule booted_inv)
next
  case (step s e s')
  then obtain Q where "smp_inv idle s Q" "length idle = CORES"
    by blast
  moreover have "has_room s e"
    using step.hyps(4) no_room[of s e cl] by auto
  ultimately show ?case
    using perform_ok[of idle s Q e cl] step.hyps(2-4) by auto
qed

lemma smp_orderly_reach: "smp_orderly cl idle s \<Longrightarrow> smp_reach cl idle s"
  by (induction rule: smp_orderly.induct) (auto intro: smp_reach.intros)

end
