(* ===== verification/SmpRaces.thy ===== *)
theory SmpRaces
  imports SmpSwitch
begin

section \<open>What the two cores guarantee, and where they race\<close>

text \<open>
  The properties of the multi-core scheduler: those of orderly runs, and runs in which a thread ends
  up on both cores, is resumed with old registers, or waits although a core runs a thread of lower
  priority.
\<close>

subsection \<open>Runs of several events\<close>

declare rq_iter_find.simps [code]

lemma stack_paint_init_code [code]:
  "stack_paint_init lo sp m = (\<lambda>x. if lo \<le> x \<and> x < sp then stack_paint_color else m x)"
  by (auto simp: stack_paint_init_spec)

fun perform_all :: "(smp \<Rightarrow> event \<Rightarrow> bool) \<Rightarrow> 32 word \<Rightarrow> smp \<Rightarrow> event list \<Rightarrow> (panic + smp) option" where
  "perform_all guard cleanup_fn s [] = Some (Inr s)"
| "perform_all guard cleanup_fn s (e # es) =
     (if guard s e then obnd (perform cleanup_fn s e) (\<lambda>s. perform_all guard cleanup_fn s es) else None)"

lemma perform_all_reach:
  "smp_reach cl idle s \<Longrightarrow> perform_all (enabled idle) cl s es = Some (Inr s') \<Longrightarrow> smp_reach cl idle s'"
  by (induction es arbitrary: s) (auto simp: obnd_eq_Inr split: if_splits intro: smp_reach.step)

abbreviation keeps_order :: "nat list \<Rightarrow> smp \<Rightarrow> event \<Rightarrow> bool" where
  "keeps_order idle s e \<equiv> enabled idle s e \<and> orderly s e"

lemma perform_all_orderly:
  "smp_orderly cl idle s \<Longrightarrow> perform_all (keeps_order idle) cl s es = Some (Inr s') \<Longrightarrow> smp_orderly cl idle s'"
  by (induction es arbitrary: s) (auto simp: obnd_eq_Inr split: if_splits intro: smp_orderly.step)

text \<open>
  Two threads with the priorities \<open>p\<close> and \<open>q\<close>, no affinities, then the two idle threads: the numbers
  of the threads are 0 to 3.
\<close>

definition two_threads :: "nat \<Rightarrow> nat \<Rightarrow> panic + smp \<times> nat list" where
  "two_threads p q = start_up 0x80 [(0x100, 0, 64, p, None), (0x200, 64, 64, q, None)] 0x300 [128, 384] (smp_new 8)"

lemma two_threads_booted:
  assumes "two_threads p q = Inr (s, idle)" "p < sched_prio_levels" "q < sched_prio_levels"
  shows "booted 0x80 idle s"
  unfolding booted_def using assms
  by (intro exI[of _ 8] exI[of _ "[(0x100, 0, 64, p, None), (0x200, 64, 64, q, None)]"] exI[of _ "0x300"]
      exI[of _ "[128, 384]"]) (auto simp: two_threads_def CORES_def affinity_ok_def)

definition run_two :: "nat \<Rightarrow> nat \<Rightarrow> (nat list \<Rightarrow> smp \<Rightarrow> event \<Rightarrow> bool) \<Rightarrow> event list \<Rightarrow> (panic + smp \<times> nat list) option" where
  "run_two p q guard es =
     obnd (Some (two_threads p q)) (\<lambda>(s, idle).
     obnd (perform_all (guard idle) 0x80 s es) (\<lambda>s. Some (Inr (s, idle))))"

lemma run_two_reach:
  assumes "run_two p q enabled es = Some (Inr (s, idle))" "p < sched_prio_levels" "q < sched_prio_levels"
  shows "smp_reach 0x80 idle s"
proof -
  obtain s0 where "two_threads p q = Inr (s0, idle)" "perform_all (enabled idle) 0x80 s0 es = Some (Inr s)"
    using assms(1) by (auto simp: run_two_def obnd_eq_Inr)
  then show ?thesis
    using perform_all_reach smp_reach.boot two_threads_booted assms(2,3) by blast
qed

lemma run_two_orderly:
  assumes "run_two p q keeps_order es = Some (Inr (s, idle))" "p < sched_prio_levels" "q < sched_prio_levels"
  shows "smp_orderly 0x80 idle s"
proof -
  obtain s0 where "two_threads p q = Inr (s0, idle)" "perform_all (keeps_order idle) 0x80 s0 es = Some (Inr s)"
    using assms(1) by (auto simp: run_two_def obnd_eq_Inr)
  then show ?thesis
    using perform_all_orderly smp_orderly.boot two_threads_booted assms(2,3) by blast
qed

text \<open>What a run shows of its last state.\<close>

lemma shown:
  assumes "map_option (map_sum id (\<lambda>(s, idle). f s)) r = Some (Inr x)"
  obtains s idle where "r = Some (Inr (s, idle))" "f s = x"
  using assms by (cases r; cases "the r") auto

definition show_cores :: "smp \<Rightarrow> nat option list \<times> bool list \<times> (nat \<times> nat) option list \<times> 32 word list list" where
  "show_cores s = (current_threads s, m_pendsv s, m_moving s, m_fifo s)"

text \<open>Both cores started: threads 0 and 1 run.\<close>

definition both_started :: "event list" where
  "both_started = [Start 0, Enter 0, Start 1, Enter 1]"

text \<open>Parked, and woken by the other core before the context switch.\<close>

lemma race_evaluated:
  "map_option (map_sum id (\<lambda>(s, idle). show_cores s))
     (run_two 5 4 enabled (both_started @ [Park 0, Wake 1 0, Enter 1, Move 1, Enter 0])) =
   Some (Inr ([Some 0, Some 0], [False, False], [None, None], [[], []]))"
  by code_simp

definition registers :: "32 word list" where
  "registers = [1, 2, 3, 4, 5, 6, 7, 8]"

text \<open>A thread created for core 0 replaces thread 0, which core 1 takes before its registers are saved.\<close>

lemma stale_evaluated:
  "map_option (map_sum id (\<lambda>(s, idle). (show_cores s, m_regs s, t_high_regs (mth s 0))))
     (run_two 5 4 keeps_order (both_started @
       [Compute 0 40 registers, Create 1 0x400 None 640 64 6 (Some (affinity_one 0)), Token 0, Enter 0,
        Park 1, Enter 1, Move 1, Move 0])) =
   Some (Inr (([Some 4, Some 0], [False, False], [None, None], [[], []]), [replicate 8 0, replicate 8 0], registers))"
  by code_simp

text \<open>Two threads created in a row on core 0 wake core 1 twice.\<close>

lemma inversion_evaluated:
  "map_option (map_sum id (\<lambda>(s, idle). (show_cores s, t_prio (mth s 0), t_state (mth s 5), t_prio (mth s 5), core_affinity (mth s 5))))
     (run_two 4 3 keeps_order (both_started @
       [Create 0 0x400 None 640 64 6 None, Create 0 0x500 None 704 64 5 None, Token 1, Enter 1, Move 1, Token 1, Enter 1])) =
   Some (Inr (([Some 0, Some 4], [False, False], [None, None], [[], []]), 4, Running, 5, no_affinity))"
  by code_simp

subsection \<open>What orderly runs guarantee\<close>

text \<open>
  C2: In an orderly run no thread is current on both cores, and the run queue holds exactly the
  ready threads that run on neither, each in the queue of its priority: no ready thread is lost.
\<close>

theorem smp_exclusive:
  assumes "smp_orderly cl idle s"
  shows "(\<forall>t. current_threads s \<noteq> [Some t, Some t]) \<and>
    (\<exists>Q. rq_rep sched_prio_levels thread_count (m_runq s) Q \<and>
      (\<forall>t<thread_count. \<forall>p. t \<in> set (Q p) \<longleftrightarrow>
        t_state (m_threads s ! t) = Running \<and> t_prio (m_threads s ! t) = p \<and> Some t \<notin> set (current_threads s)))"
proof -
  obtain Q where inv: "smp_inv idle s Q"
    using smp_orderly_inv[OF assms] by blast
  have "current_threads s \<noteq> [Some t, Some t]" for t
    using smp_invD(9)[OF inv, of 0 t 1] by (auto simp: CORES_def)
  then show ?thesis
    using smp_invD(1,5)[OF inv] by (auto simp: not_current_def)
qed

lemma stale_run:
  obtains s idle where "smp_orderly 0x80 idle s" "current_threads s = [Some 4, Some 0]" "m_pendsv s = [False, False]"
    "m_moving s = [None, None]" "m_regs s ! 1 = replicate 8 0" "t_high_regs (mth s 0) = registers"
proof -
  obtain s idle where r: "run_two 5 4 keeps_order (both_started @
       [Compute 0 40 registers, Create 1 0x400 None 640 64 6 (Some (affinity_one 0)), Token 0, Enter 0,
        Park 1, Enter 1, Move 1, Move 0]) = Some (Inr (s, idle))"
    "(show_cores s, m_regs s, t_high_regs (mth s 0)) =
      (([Some 4, Some 0], [False, False], [None, None], [[], []]), [replicate 8 0, replicate 8 0], registers)"
    using shown[OF stale_evaluated] by blast
  then show ?thesis
    using that[OF run_two_orderly[OF r(1)]] r(2) by (simp add: show_cores_def sched_prio_levels_def thread_count_def)
qed

theorem smp_exclusive_witness:
  "\<exists>idle s. smp_orderly 0x80 idle s \<and> current_threads s = [Some 4, Some 0] \<and> (4::nat) \<noteq> 0 \<and>
    (\<exists>Q. rq_rep sched_prio_levels thread_count (m_runq s) Q \<and> (\<forall>p. 0 \<notin> set (Q p)))"
proof -
  obtain s idle where s: "smp_orderly 0x80 idle s" "current_threads s = [Some 4, Some 0]"
    by (rule stale_run)
  show ?thesis
    using smp_exclusive[OF s(1)] s by (fastforce simp: thread_count_def)
qed

text \<open>
  C6: In an orderly run no event panics and the scheduler's \<open>unreachable!\<close> is never reached, with one
  exception: a thread created while all slots are taken.
\<close>

theorem smp_calls_return:
  assumes "smp_orderly cl idle s" "enabled idle s e" "orderly s e"
  shows "(\<exists>s'. perform cl s e = Some (Inr s')) \<or>
    ((\<exists>c f a st len p aff. e = Create c f a st len p aff) \<and> m_get_unused_from s 0 = Inr None \<and>
      perform cl s e = Some (Inl UnwrapNone))"
proof (cases "has_room s e")
  case True
  then show ?thesis
    using smp_orderly_inv[OF assms(1)] perform_ok[OF _ _ assms(2,3)] by blast
next
  case False
  then show ?thesis
    using no_room[OF False] by (cases e) (auto simp: has_room_def)
qed

theorem smp_calls_return_witness: "\<exists>idle s s'. smp_orderly 0x80 idle s \<and> perform 0x80 s (Yield 1) = Some (Inr s')"
proof -
  obtain s idle where s: "smp_orderly 0x80 idle s" "current_threads s = [Some 4, Some 0]" "m_pendsv s = [False, False]"
    "m_moving s = [None, None]"
    by (rule stale_run)
  then have "enabled idle s (Yield 1)" "orderly s (Yield 1)"
    by (simp_all add: enabled_def orderly_def thread_runs_def CORES_def)
  from smp_calls_return[OF s(1) this] show ?thesis
    using s(1) by auto
qed



text \<open>
  C30: Where no thread has an affinity, the filtered search with deletion gives the thread that the
  scheduler without affinities pops, and leaves the same queues.
\<close>

theorem no_affinity_same_thread:
  assumes "rq_rep sched_prio_levels thread_count (m_runq s) Q" "length (m_threads s) = thread_count"
    "\<forall>t<thread_count. core_affinity (m_threads s ! t) = no_affinity" "c < CORES"
  shows "\<exists>r r' t Q'. get_next_tid c s = Some (Inr (s\<lparr>m_runq := r\<rparr>, t)) \<and>
    get_next_tid_no_affinity s = Inr (s\<lparr>m_runq := r'\<rparr>, t) \<and>
    rq_rep sched_prio_levels thread_count r Q' \<and> rq_rep sched_prio_levels thread_count r' Q'"
proof -
  have aff: "is_affine_to c s t" if "t \<in> set (ready_order sched_prio_levels Q)" for t
    using that rq.queue_less[OF assms(1)] affinity_contains_ok(1)[OF assms(4)] assms(2,3)
    by (force simp: set_ready_order is_affine_to_def m_get_unchecked_def)
  have find: "rq_get_next_filter P (m_runq s) = Some (Inr (find P (ready_order sched_prio_levels Q)))" for P
    by (rule rq_get_next_filter_spec[OF assms(1)]) (simp add: sched_prio_levels_def thread_count_def)
  have "find P xs = (case xs of [] \<Rightarrow> None | t # _ \<Rightarrow> Some t)" if "\<forall>t\<in>set xs. P t" for P and xs :: "nat list"
    using that by (cases xs) auto
  then have n: "find (is_affine_to c s) (ready_order sched_prio_levels Q) = first_ready sched_prio_levels Q"
    using aff by (simp add: first_ready_def)
  obtain r' where r': "rq_pop_next (m_runq s) = Inr (r', first_ready sched_prio_levels Q)"
    "rq_rep sched_prio_levels thread_count r'
      (case first_ready sched_prio_levels Q of None \<Rightarrow> Q | Some t \<Rightarrow> (\<lambda>q. remove1 t (Q q)))"
    using rq_pop_next_spec[OF assms(1)] by blast
  show ?thesis
  proof (cases "first_ready sched_prio_levels Q")
    case None
    then have "get_next_tid c s = Some (Inr (s\<lparr>m_runq := m_runq s\<rparr>, None))"
      "get_next_tid_no_affinity s = Inr (s\<lparr>m_runq := r'\<rparr>, None)"
      using r'(1) by (simp_all add: get_next_tid_def get_next_tid_no_affinity_def find n)
    then show ?thesis
      using None r'(2) assms(1) by (metis option.case(1))
  next
    case (Some t)
    then have "t < thread_count"
      using rq.queue_less[OF assms(1)] by (metis first_ready_Some list.set_intros(1))
    then obtain r where "rq_del (m_runq s) t = Inr r" "rq_rep sched_prio_levels thread_count r (\<lambda>q. remove1 t (Q q))"
      using rq.del[OF assms(1)] by blast
    then show ?thesis
      using Some r' by (auto simp: get_next_tid_def get_next_tid_no_affinity_def find n)
  qed
qed

theorem no_affinity_same_thread_witness:
  "\<exists>s r r'. get_next_tid 1 s = Some (Inr (s\<lparr>m_runq := r\<rparr>, Some 0)) \<and>
    get_next_tid_no_affinity s = Inr (s\<lparr>m_runq := r'\<rparr>, Some 0)"
proof -
  have rep: "rq_rep sched_prio_levels thread_count (rq_new sched_prio_levels thread_count) (\<lambda>_. [])"
    by (rule rq_rep_new) (simp_all add: sched_prio_levels_def thread_count_def)
  have "0 < thread_count" "3 < sched_prio_levels"
    by (simp_all add: sched_prio_levels_def thread_count_def)
  then obtain q where q: "rq_rep sched_prio_levels thread_count q ((\<lambda>_. [])(3 := [0]))"
    using rq.add_new[OF rep, of 0 3] by auto
  define s where "s = (smp_new 8)\<lparr>m_runq := q\<rparr>"
  have "rq_rep sched_prio_levels thread_count (m_runq s) ((\<lambda>_. [])(3 := [0]))"
    "length (m_threads s) = thread_count" "\<forall>t<thread_count. core_affinity (m_threads s ! t) = no_affinity"
    using q by (simp_all add: s_def smp_new_def mthread_default_def thread.defs)
  then obtain r r' t where t: "get_next_tid 1 s = Some (Inr (s\<lparr>m_runq := r\<rparr>, t))"
    "get_next_tid_no_affinity s = Inr (s\<lparr>m_runq := r'\<rparr>, t)"
    using no_affinity_same_thread[of s "(\<lambda>_. [])(3 := [0])" 1] by (fastforce simp: CORES_def)
  have "first_ready sched_prio_levels ((\<lambda>_. [])(3 := [0])) = Some 0"
    by (simp add: first_ready_def ready_order_def sched_prio_levels_def thread_count_def numeral_eq_Suc)
  then have "t = Some 0"
    using t(2) rq_pop_next_spec[OF q] by (auto simp: get_next_tid_no_affinity_def s_def)
  then show ?thesis
    using t by blast
qed

subsection \<open>Where the cores race\<close>



text \<open>
  On the RP2040 two wake-ups in a row from one core trigger the other core twice, as the choice of
  the core does not know that it will switch: a ready thread of priority 5 waits while core 0 runs a
  thread of priority 4, and nothing is pending on either core.
\<close>

theorem smp_priority_inversion:
  "\<exists>idle s. smp_orderly 0x80 idle s \<and> current_threads s = [Some 0, Some 4] \<and>
    m_pendsv s = [False, False] \<and> m_moving s = [None, None] \<and> m_fifo s = [[], []] \<and>
    t_state (m_threads s ! 5) = Running \<and> core_affinity (m_threads s ! 5) = no_affinity \<and>
    t_prio (m_threads s ! 5) = 5 \<and> t_prio (m_threads s ! 0) = 4"
proof -
  obtain s idle where r: "run_two 4 3 keeps_order (both_started @
      [Create 0 0x400 None 640 64 6 None, Create 0 0x500 None 704 64 5 None, Token 1, Enter 1, Move 1, Token 1, Enter 1]) =
      Some (Inr (s, idle))"
    "(show_cores s, t_prio (mth s 0), t_state (mth s 5), t_prio (mth s 5), core_affinity (mth s 5)) =
      (([Some 0, Some 4], [False, False], [None, None], [[], []]), 4, Running, 5, no_affinity)"
    using shown[OF inversion_evaluated] by blast
  then show ?thesis
    using run_two_orderly[OF r(1)] by (auto simp: show_cores_def sched_prio_levels_def thread_count_def)
qed

end
