(* ===== verification/ThreadStack.thy ===== *)
theory ThreadStack
  imports Scheduler
begin

section \<open>The stack a thread starts on\<close>

text \<open>
  What \<^const>\<open>setup_stack\<close> writes, byte by byte, and what the usage helpers of
  \<open>ariel-os-rt\<close> measure on it.
\<close>

subsection \<open>The stack of a new thread\<close>

lemma align8:
  fixes w :: "32 word"
  shows "unat (w AND 0xFFFFFFF8) = 8 * (unat w div 8)"
proof -
  have "w AND 0xFFFFFFF8 = push_bit 3 (drop_bit 3 w)"
  proof (rule bit_word_eqI)
    fix n assume "n < LENGTH(32)"
    then have n: "n < 32" by simp
    have "(0xFFFFFFF8 :: 32 word) = NOT (mask 3)"
      by (simp add: mask_eq_decr_exp)
    then have "bit (0xFFFFFFF8 :: 32 word) n \<longleftrightarrow> 3 \<le> n"
      using n by (simp only: bit_not_iff bit_mask_iff possible_bit_word) auto
    then show "bit (w AND 0xFFFFFFF8) n \<longleftrightarrow> bit (push_bit 3 (drop_bit 3 w)) n"
      using n by (cases "3 \<le> n") (auto simp: bit_and_iff bit_push_bit_iff bit_drop_bit_eq possible_bit_word)
  qed
  moreover have "unat (push_bit 3 (drop_bit 3 w)) = 8 * (unat w div 8)"
  proof -
    have "8 * (unat w div 8) < 4294967296"
      using unat32_less[of w] by linarith
    then have "unat (word_of_nat (8 * (unat w div 8)) :: 32 word) = 8 * (unat w div 8)"
      by (rule unat32_of_nat)
    moreover have "push_bit 3 (drop_bit 3 w) = word_of_nat (8 * (unat w div 8))"
      by (simp add: push_bit_eq_mult drop_bit_eq_div word_arith_nat_div mult.commute)
    ultimately show ?thesis by simp
  qed
  ultimately show ?thesis by simp
qed

lemma below_top: "unat s + k = unat (h :: 32 word) \<Longrightarrow> unat s + k \<le> 4294967296"
  using unat32_less[of h] by linarith

text \<open>A slice that is large enough and does not wrap around.\<close>

definition stack_room :: "32 word \<Rightarrow> 32 word \<Rightarrow> bool" where
  "stack_room start len \<longleftrightarrow> unat start + unat len < 4294967296 \<and> 40 \<le> unat len"

lemma setup_stack_pointers:
  assumes room: "stack_room start len" and e: "setup_stack cl th m start len f a = (th', m')"
  shows "t_stack_lowest th' = start" "t_stack_highest th' = t_sp th' + 32"
    and "unat (t_sp th') + 32 = unat (t_stack_highest th')" "8 dvd unat (t_stack_highest th')"
    and "unat start \<le> unat (t_sp th')"
    and "unat start + unat len < unat (t_stack_highest th') + 8"
    and "unat (t_stack_highest th') \<le> unat start + unat len"
    and "m' = stack_paint_init start (t_sp th') (write_words m (t_sp th') (exception_frame f a cl))"
proof -
  let ?h = "(start + len) AND 0xFFFFFFF8"
  have sum: "unat (start + len) = unat start + unat len"
    using room unfolding stack_room_def by (subst unat_add_lem[THEN iffD1]) auto
  have h: "unat ?h = 8 * ((unat start + unat len) div 8)"
    using align8[of "start + len"] sum by simp
  then have hb: "unat start + unat len < unat ?h + 8" "unat ?h \<le> unat start + unat len"
    by linarith+
  then have "32 \<le> unat ?h"
    using room unfolding stack_room_def by linarith
  then have sp: "unat (?h - 32) + 32 = unat ?h"
    by (simp add: unat_sub_if')
  have lo: "unat start \<le> unat (?h - 32)"
    using sp hb(1) room unfolding stack_room_def by linarith
  have th': "th' = th\<lparr>t_sp := ?h - 32, t_stack_lowest := start, t_stack_highest := ?h\<rparr>"
    and m': "m' = stack_paint_init start (?h - 32) (write_words m (?h - 32) (exception_frame f a cl))"
    using e by (simp_all add: setup_stack_def Let_def)
  show "t_stack_lowest th' = start" "t_stack_highest th' = t_sp th' + 32"
    "unat (t_sp th') + 32 = unat (t_stack_highest th')" "8 dvd unat (t_stack_highest th')"
    "unat start \<le> unat (t_sp th')"
    "unat start + unat len < unat (t_stack_highest th') + 8"
    "unat (t_stack_highest th') \<le> unat start + unat len"
    "m' = stack_paint_init start (t_sp th') (write_words m (t_sp th') (exception_frame f a cl))"
    using th' m' h hb sp lo by simp_all
qed

lemma setup_stack_bytes:
  assumes room: "stack_room start len" and e: "setup_stack cl th m start len f a = (th', m')"
  shows "start \<le> x \<Longrightarrow> x < t_sp th' \<Longrightarrow> m' x = stack_paint_color"
    and "t_sp th' \<le> x \<Longrightarrow> m' x = write_words m (t_sp th') (exception_frame f a cl) x"
    and "unat x < unat start \<or> unat start + unat len \<le> unat x \<Longrightarrow> m' x = m x"
proof -
  note p = setup_stack_pointers[OF room e]
  have fit: "unat (t_sp th') + 4 * length (exception_frame f a cl) \<le> 4294967296"
    using below_top[OF p(3)] by (simp add: exception_frame_def)
  show "m' x = stack_paint_color" if "start \<le> x" "x < t_sp th'"
    unfolding p(8) stack_paint_init_spec using that by simp
  show "m' x = write_words m (t_sp th') (exception_frame f a cl) x" if "t_sp th' \<le> x"
    unfolding p(8) stack_paint_init_spec using that by auto
  show "m' x = m x" if x: "unat x < unat start \<or> unat start + unat len \<le> unat x"
  proof -
    have "unat x < unat (t_sp th') \<or> unat (t_sp th') + 4 * length (exception_frame f a cl) \<le> unat x"
      using x p(3,5,7) by (simp add: exception_frame_def) linarith
    then have "write_words m (t_sp th') (exception_frame f a cl) x = m x"
      by (rule write_words_other[OF fit])
    moreover have "\<not> (start \<le> x \<and> x < t_sp th')"
      using x p(3,5,7) by (auto simp: word_le_nat_alt word_less_nat_alt)
    ultimately show ?thesis
      unfolding p(8) stack_paint_init_spec by (simp only: if_False)
  qed
qed

lemma setup_stack_frame:
  assumes room: "stack_room start len" and e: "setup_stack cl th m start len f a = (th', m')" and i: "i < 8"
  shows "read_word m' (t_sp th' + 4 * word_of_nat i) = exception_frame f a cl ! i"
proof -
  note p = setup_stack_pointers[OF room e]
  let ?fr = "exception_frame f a cl"
  have fit: "unat (t_sp th') + 4 * length ?fr \<le> 4294967296"
    using below_top[OF p(3)] by (simp add: exception_frame_def)
  have u: "t_sp th' \<le> t_sp th' + 4 * word_of_nat i + word_of_nat k" if "k < 4" for k
  proof -
    have "unat (t_sp th' + word_of_nat (4 * i + k)) = unat (t_sp th') + (4 * i + k)"
      using that i p(3) unat32_less[of "t_stack_highest th'"] by (intro unat_add_small) linarith
    then show ?thesis
      by (simp add: word_le_nat_alt add.assoc)
  qed
  from u[of 0] u[of 1] u[of 2] u[of 3]
  have "read_word m' (t_sp th' + 4 * word_of_nat i) = read_word (write_words m (t_sp th') ?fr) (t_sp th' + 4 * word_of_nat i)"
    by (intro read_word_cong setup_stack_bytes(2)[OF room e]) simp_all
  then show ?thesis
    using read_write_words[OF fit, of i] i by (simp add: exception_frame_def)
qed

text \<open>
  the stack of a new thread.  For a slice of at least 40 bytes that does not wrap around the
  address space, the stack pointer is 8-byte aligned and leaves room for exactly one exception
  frame at the top; the frame makes the thread start at its function with its argument in
  \<open>r0\<close> and return to \<open>cleanup\<close>; the rest of the stack holds the paint; and no byte outside the
  slice is written.
\<close>

theorem setup_stack_layout:
  assumes "stack_room start len" "setup_stack cl th m start len f a = (th', m')"
  shows "8 dvd unat (t_stack_highest th') \<and> t_stack_lowest th' = start \<and>
    t_stack_highest th' = t_sp th' + 32 \<and> unat start \<le> unat (t_sp th') \<and>
    unat start + unat len < unat (t_stack_highest th') + 8 \<and> unat (t_stack_highest th') \<le> unat start + unat len \<and>
    map (\<lambda>i. read_word m' (t_sp th' + 4 * word_of_nat i)) [0..<8] = exception_frame f a cl \<and>
    (\<forall>x. start \<le> x \<and> x < t_sp th' \<longrightarrow> m' x = stack_paint_color) \<and>
    (\<forall>x. unat x < unat start \<or> unat start + unat len \<le> unat x \<longrightarrow> m' x = m x)"
proof -
  have "map (\<lambda>i. read_word m' (t_sp th' + 4 * word_of_nat i)) [0..<8] = exception_frame f a cl"
    using setup_stack_frame[OF assms] by (intro nth_equalityI) (auto simp: exception_frame_def)
  then show ?thesis
    using setup_stack_pointers[OF assms] setup_stack_bytes[OF assms] by blast
qed

lemma setup_stack_layout_witness:
  "\<exists>th' m'. setup_stack 7 thread_default (\<lambda>_. 0) 100 44 9 None = (th', m') \<and>
     t_sp th' = 112 \<and> m' 99 = 0 \<and> m' 111 = stack_paint_color \<and> read_word m' 136 = 9"
proof -
  obtain th' m' where e: "setup_stack 7 thread_default (\<lambda>_. 0) 100 44 9 None = (th', m')"
    by fastforce
  then have sp: "t_sp th' = 112"
    by (auto simp: setup_stack_def Let_def)
  have "map (\<lambda>i. read_word m' (t_sp th' + 4 * word_of_nat i)) [0..<8] = exception_frame 9 None 7 \<and>
    (\<forall>x. 100 \<le> x \<and> x < t_sp th' \<longrightarrow> m' x = stack_paint_color) \<and>
    (\<forall>x. unat x < 100 \<or> 144 \<le> unat x \<longrightarrow> m' x = 0)"
    using setup_stack_layout[OF _ e] by (simp add: stack_room_def)
  then show ?thesis
    using e sp by (auto simp: upt_conv_Cons exception_frame_def)
qed

text \<open>
  right after its stack was set up, a thread whose argument does not start with the paint
  byte is measured to have used exactly its exception frame, on its own painted stack.
\<close>

theorem fresh_stack_usage:
  assumes room: "stack_room start len" and e: "setup_stack cl th m start len f (Some a) = (th', m')"
    and a: "ucast a \<noteq> stack_paint_color"
  shows "peak_usage m' \<lparr>lowest = t_stack_lowest th', highest = t_stack_highest th'\<rparr> = 32"
proof -
  note p = setup_stack_pointers[OF room e]
  have "m' (t_sp th') = write_words m (t_sp th') (exception_frame f (Some a) cl) (t_sp th')"
    using setup_stack_bytes(2)[OF room e, of "t_sp th'"] by simp
  moreover have "\<dots> = write_word m (t_sp th') a (t_sp th')"
  proof -
    have "unat (t_sp th' + 4) = unat (t_sp th') + 4"
      using unat_add_small[of "t_sp th'" 4] p(3) unat32_less[of "t_stack_highest th'"] by simp
    moreover obtain vs where "exception_frame f (Some a) cl = a # vs" "length vs = 7"
      by (simp add: exception_frame_def)
    ultimately show ?thesis
      using below_top[OF p(3)] by (simp add: write_words_other)
  qed
  ultimately have "m' (t_sp th') \<noteq> stack_paint_color"
    using a by (simp add: write_word_def)
  then show ?thesis
    using peak_usage_mark[of "\<lparr>lowest = t_stack_lowest th', highest = t_stack_highest th'\<rparr>" "t_sp th'" m']
      p setup_stack_bytes(1)[OF room e] by (simp add: word_le_nat_alt)
qed

lemma fresh_stack_usage_witness:
  "\<exists>th' m'. setup_stack 7 thread_default (\<lambda>_. 0) 100 44 9 (Some 5) = (th', m') \<and>
     peak_usage m' \<lparr>lowest = 100, highest = 144\<rparr> = 32"
proof -
  obtain th' m' where e: "setup_stack 7 thread_default (\<lambda>_. 0) 100 44 9 (Some 5) = (th', m')"
    by fastforce
  then have "t_stack_lowest th' = 100" "t_stack_highest th' = 144"
    by (auto simp: setup_stack_def Let_def)
  then show ?thesis
    using fresh_stack_usage[OF _ e] e by (simp add: stack_room_def stack_paint_color_def)
qed

end
