(* ===== verification/ThreadFlags.thy ===== *)
theory ThreadFlags
  imports Kernel
begin

section \<open>Thread flags (\<open>ariel-os-threads/src/thread_flags.rs\<close>)\<close>

text \<open>
  Every thread has 16 flags.  Any context sets flags of a thread; the running thread waits for
  all, any or one of a mask.  A wait function is a loop: each round is one critical section that
  either takes the flags or blocks the thread, and the next round starts when the thread runs
  again.  The rounds are the definitions here; the loop is \<open>flag_wait_loop\<close>, whose parameter
  \<open>env\<close> is what the rest of the system does to the scheduler while the thread is blocked.
\<close>

text \<open>\<open>current().unwrap()\<close>: the current thread's slot and data.\<close>

definition current_thread_data :: "scheduler \<Rightarrow> panic + nat \<times> thread" where
  "current_thread_data s =
     bnd (unwrap (current_tid s)) (\<lambda>c. bnd (get_unchecked s c) (\<lambda>th. Inr (c, th)))"

definition set_flags :: "scheduler \<Rightarrow> nat \<Rightarrow> thread \<Rightarrow> 16 word \<Rightarrow> scheduler" where
  "set_flags s c th f = s\<lparr>threads := (threads s)[c := th\<lparr>t_flags := f\<rparr>]\<rparr>"

definition flag_wakes :: "thread_state \<Rightarrow> 16 word \<Rightarrow> bool" where
  "flag_wakes st flags =
     (case st of
        FlagBlocked (WaitAny bits) \<Rightarrow> flags AND bits \<noteq> 0
      | FlagBlocked (WaitAll bits) \<Rightarrow> flags AND bits = bits
      | _ \<Rightarrow> False)"

definition flag_set :: "scheduler \<Rightarrow> nat \<Rightarrow> 16 word \<Rightarrow> panic + scheduler" where
  "flag_set s t m =
     bnd (get_unchecked s t) (\<lambda>th.
       let flags = t_flags th OR m; s = set_flags s t th flags
       in if flag_wakes (t_state th) flags
          then bnd (set_state s t Running) (\<lambda>(s, _). Inr s)
          else Inr s)"

definition flag_block :: "scheduler \<Rightarrow> nat \<Rightarrow> wait_mode \<Rightarrow> panic + scheduler \<times> 16 word option" where
  "flag_block s t mode = bnd (set_state s t (FlagBlocked mode)) (\<lambda>(s, _). Inr (s, None))"

definition flag_wait_all :: "scheduler \<Rightarrow> 16 word \<Rightarrow> panic + scheduler \<times> 16 word option" where
  "flag_wait_all s m =
     bnd (current_thread_data s) (\<lambda>(c, th).
       if t_flags th AND m = m
       then Inr (set_flags s c th (t_flags th AND NOT m), Some m)
       else flag_block s (t_tid th) (WaitAll m))"

definition flag_wait_any :: "scheduler \<Rightarrow> 16 word \<Rightarrow> panic + scheduler \<times> 16 word option" where
  "flag_wait_any s m =
     bnd (current_thread_data s) (\<lambda>(c, th).
       if t_flags th AND m \<noteq> 0
       then let res = t_flags th AND m
            in Inr (set_flags s c th (t_flags th AND NOT res), Some res)
       else flag_block s (t_tid th) (WaitAny m))"

definition flag_wait_one :: "scheduler \<Rightarrow> 16 word \<Rightarrow> panic + scheduler \<times> 16 word option" where
  "flag_wait_one s m =
     bnd (current_thread_data s) (\<lambda>(c, th).
       if t_flags th AND m \<noteq> 0
       then let res = t_flags th AND m; res = res AND (NOT res + 1)
            in Inr (set_flags s c th (t_flags th AND NOT res), Some res)
       else flag_block s (t_tid th) (WaitAny m))"

definition flag_clear :: "scheduler \<Rightarrow> 16 word \<Rightarrow> panic + scheduler \<times> 16 word" where
  "flag_clear s m =
     bnd (current_thread_data s) (\<lambda>(c, th).
       let res = t_flags th AND m
       in Inr (set_flags s c th (t_flags th AND NOT m), res))"

definition flag_get :: "scheduler \<Rightarrow> panic + 16 word" where
  "flag_get s = bnd (current_thread_data s) (\<lambda>(c, th). Inr (t_flags th))"

text \<open>The loops of \<open>wait_all\<close>, \<open>wait_any\<close> and \<open>wait_one\<close>; \<open>None\<close> is a wait that never ends.\<close>

partial_function (option) flag_wait_loop ::
    "(scheduler \<Rightarrow> panic + scheduler \<times> 16 word option) \<Rightarrow> (scheduler \<Rightarrow> scheduler) \<Rightarrow> scheduler \<Rightarrow>
     (panic + scheduler \<times> 16 word) option" where
  "flag_wait_loop attempt env s =
     (case attempt s of
        Inl e \<Rightarrow> Some (Inl e)
      | Inr (s', Some flags) \<Rightarrow> Some (Inr (s', flags))
      | Inr (s', None) \<Rightarrow> flag_wait_loop attempt env (env s'))"

definition wait_all :: "(scheduler \<Rightarrow> scheduler) \<Rightarrow> scheduler \<Rightarrow> 16 word \<Rightarrow> (panic + scheduler \<times> 16 word) option" where
  "wait_all env s m = flag_wait_loop (\<lambda>s. flag_wait_all s m) env s"

definition wait_any :: "(scheduler \<Rightarrow> scheduler) \<Rightarrow> scheduler \<Rightarrow> 16 word \<Rightarrow> (panic + scheduler \<times> 16 word) option" where
  "wait_any env s m = flag_wait_loop (\<lambda>s. flag_wait_any s m) env s"

definition wait_one :: "(scheduler \<Rightarrow> scheduler) \<Rightarrow> scheduler \<Rightarrow> 16 word \<Rightarrow> (panic + scheduler \<times> 16 word) option" where
  "wait_one env s m = flag_wait_loop (\<lambda>s. flag_wait_one s m) env s"

subsection \<open>The lowest set bit\<close>

lemma odd_and_minus:
  fixes u :: "16 word"
  assumes "odd u"
  shows "bit (u AND - u) i \<longleftrightarrow> i = 0"
proof (cases i)
  case 0
  then show ?thesis
    using assms by (simp add: bit_0 even_and_iff)
next
  case (Suc j)
  have "bit u i \<longleftrightarrow> bit (u - 1) i"
    using odd_bit_iff_bit_pred[OF assms, of i] Suc by simp
  then show ?thesis
    using Suc by (simp add: bit_and_iff bit_minus_iff)
qed

lemma lowest_bit:
  fixes w :: "16 word"
  assumes "bit w k" "\<And>j. j < k \<Longrightarrow> \<not> bit w j"
  shows "w AND (NOT w + 1) = push_bit k 1"
proof -
  define u where "u = drop_bit k w"
  have w: "w = push_bit k u"
  proof (rule bit_word_eqI)
    fix n assume "n < LENGTH(16)"
    then show "bit w n \<longleftrightarrow> bit (push_bit k u) n"
      using assms(2)[of n]
      by (cases "k \<le> n") (auto simp: u_def bit_push_bit_iff bit_drop_bit_eq possible_bit_word)
  qed
  have odd: "odd u"
    using assms(1) by (simp add: u_def bit_drop_bit_eq flip: bit_0)
  have "w AND (NOT w + 1) = push_bit k u AND push_bit k (- u)"
    by (simp add: w minus_eq_not_plus_1[symmetric] push_bit_eq_mult)
  also have "\<dots> = push_bit k (u AND - u)"
    by simp
  also have "\<dots> = push_bit k 1"
  proof (rule bit_word_eqI)
    fix n assume "n < LENGTH(16)"
    then show "bit (push_bit k (u AND - u)) n \<longleftrightarrow> bit (push_bit k 1 :: 16 word) n"
      unfolding bit_push_bit_iff odd_and_minus[OF odd] by (simp add: bit_1_iff)
  qed
  finally show ?thesis .
qed

lemma lowest_bit_exists:
  fixes w :: "16 word"
  assumes "w \<noteq> 0"
  obtains k where "k < 16" "bit w k" "\<And>j. j < k \<Longrightarrow> \<not> bit w j" "w AND (NOT w + 1) = push_bit k 1"
proof -
  have "\<exists>k. bit w k"
    using assms bit_word_eqI[of w 0] by auto
  define k where "k = (LEAST k. bit w k)"
  have k: "bit w k"
    using \<open>\<exists>k. bit w k\<close> LeastI_ex unfolding k_def by blast
  have "\<not> bit w j" if "j < k" for j
    using not_less_Least that unfolding k_def by blast
  then show ?thesis
    using that lowest_bit[OF k] k bit_imp_le_length[OF k] by auto
qed

subsection \<open>What the rounds do\<close>

lemma current_thread_data_ok:
  "sched_inv s Q \<Longrightarrow> current_thread s = Some c \<Longrightarrow> current_thread_data s = Inr (c, th_of s c)"
  using sched_invD(7)[of s Q c] by (simp add: current_thread_data_def current_tid_def)

lemma set_flags_inv:
  "sched_inv s Q \<Longrightarrow> t < thread_count \<Longrightarrow> sched_inv (set_flags s t (th_of s t) f) Q"
  unfolding set_flags_def by (rule sched_inv_thread_data) auto

lemma set_flags_fields [simp]:
  "current_thread (set_flags s t th f) = current_thread s" "pending (set_flags s t th f) = pending s"
  "runq (set_flags s t th f) = runq s" "thread_blocklist (set_flags s t th f) = thread_blocklist s"
  "threads (set_flags s t th f) = (threads s)[t := th\<lparr>t_flags := f\<rparr>]"
  by (simp_all add: set_flags_def)

lemma flag_wakes_state: "flag_wakes st f \<Longrightarrow> st \<noteq> Invalid \<and> st \<noteq> Running"
  by (auto simp: flag_wakes_def)

lemma flag_set_ok:
  fixes s :: scheduler and m :: "16 word" and t :: nat
  assumes inv: "sched_inv s Q" and t: "t < thread_count"
  defines "flags \<equiv> t_flags (th_of s t) OR m" and "woken \<equiv> flag_wakes (t_state (th_of s t)) (t_flags (th_of s t) OR m)"
  shows "\<exists>s' Q'. flag_set s t m = Inr s' \<and> sched_inv s' Q' \<and> current_thread s' = current_thread s \<and>
    thread_blocklist s' = thread_blocklist s \<and>
    threads s' = (threads s)[t := (th_of s t)\<lparr>t_flags := flags,
      t_state := if woken then Running else t_state (th_of s t)\<rparr>] \<and>
    (pending s' \<longleftrightarrow> pending s \<or> woken \<and> preempts s (t_prio (th_of s t)))"
proof -
  let ?s = "set_flags s t (th_of s t) flags"
  note l = sched_invD(2)[OF inv]
  have inv': "sched_inv ?s Q"
    using set_flags_inv[OF inv t] .
  have th: "th_of ?s t = (th_of s t)\<lparr>t_flags := flags\<rparr>"
    using t l by simp
  have pre: "preempts ?s p = preempts s p" for p
    using t l by (auto simp: preempts_def nth_list_update)
  show ?thesis
  proof (cases woken)
    case True
    then have "t_state (th_of ?s t) \<noteq> Invalid" "t_state (th_of ?s t) \<noteq> Running"
      using flag_wakes_state th by (auto simp: woken_def)
    from set_state_wake[OF inv' t this] show ?thesis
      using True t l th pre by (auto simp: flag_set_def get_unchecked_def Let_def woken_def flags_def)
  next
    case False
    then show ?thesis
      using inv' t l by (auto simp: flag_set_def get_unchecked_def Let_def woken_def flags_def)
  qed
qed

lemma flag_block_ok:
  assumes "sched_inv s Q" "current_thread s = Some c" "\<not> pending s"
  shows "\<exists>s' Q'. flag_block s (t_tid (th_of s c)) mode = Inr (s', None) \<and> sched_inv s' Q' \<and> pending s' \<and>
    threads s' = (threads s)[c := (th_of s c)\<lparr>t_state := FlagBlocked mode\<rparr>] \<and> current_thread s' = Some c"
proof -
  have "t_tid (th_of s c) = c"
    using sched_invD(6,7)[OF assms(1)] sched_inv_first_ready_running(2)[OF assms] assms(2) by simp
  then show ?thesis
    using set_state_current[OF assms, of "FlagBlocked mode"] by (auto simp: flag_block_def)
qed

subsection \<open>No wake-up is lost\<close>

text \<open>
  \<open>flags_ok\<close>: no thread is blocked on flags it already has.  Then a blocked thread is always
  woken by the call that completes what it waits for.
\<close>

definition flags_ok :: "scheduler \<Rightarrow> bool" where
  "flags_ok s \<longleftrightarrow> (\<forall>t<thread_count. \<not> flag_wakes (t_state (th_of s t)) (t_flags (th_of s t)))"

lemma flags_okD: "flags_ok s \<Longrightarrow> t < thread_count \<Longrightarrow> \<not> flag_wakes (t_state (th_of s t)) (t_flags (th_of s t))"
  by (simp add: flags_ok_def)

lemma flags_ok_upd:
  assumes "flags_ok s" "length (threads s) = thread_count" "threads s' = (threads s)[t := th]"
    and "\<not> flag_wakes (t_state th) (t_flags th)"
  shows "flags_ok s'"
  unfolding flags_ok_def
proof (intro allI impI)
  fix u assume u: "u < thread_count"
  then show "\<not> flag_wakes (t_state (th_of s' u)) (t_flags (th_of s' u))"
    using assms flags_okD[OF assms(1) u] by (cases "u = t") auto
qed

lemma flag_wakes_simps [simp]:
  "flag_wakes (FlagBlocked (WaitAny b)) f \<longleftrightarrow> f AND b \<noteq> 0"
  "flag_wakes (FlagBlocked (WaitAll b)) f \<longleftrightarrow> f AND b = b"
  "\<not> flag_wakes Running f" "\<not> flag_wakes Parked f" "\<not> flag_wakes Invalid f" "\<not> flag_wakes LockBlocked f"
  "\<not> flag_wakes (ChannelRxBlocked p) f" "\<not> flag_wakes (ChannelTxBlocked p) f" "\<not> flag_wakes WaitQueueBlocked f"
  by (simp_all add: flag_wakes_def)

text \<open>
  setting flags loses no wake-up.  The flags are recorded; the thread becomes ready exactly
  when it was blocked on flags and the condition of its wait is now met, and then a switch is
  requested if it has a higher priority than the current thread; otherwise its state is unchanged.
  Afterwards again no thread is blocked on flags it already has.
\<close>

theorem flag_set_wakes:
  assumes inv: "sched_inv s Q" and ok: "flags_ok s" and t: "t < thread_count"
  shows "\<exists>s' Q'. flag_set s t m = Inr s' \<and> sched_inv s' Q' \<and> flags_ok s' \<and>
    t_flags (th_of s' t) = t_flags (th_of s t) OR m \<and>
    t_state (th_of s' t) = (if flag_wakes (t_state (th_of s t)) (t_flags (th_of s t) OR m)
      then Running else t_state (th_of s t)) \<and>
    (\<forall>u. u \<noteq> t \<longrightarrow> th_of s' u = th_of s u) \<and>
    (pending s' \<longleftrightarrow> pending s \<or> flag_wakes (t_state (th_of s t)) (t_flags (th_of s t) OR m) \<and>
      preempts s (t_prio (th_of s t)))"
proof -
  let ?w = "flag_wakes (t_state (th_of s t)) (t_flags (th_of s t) OR m)"
  obtain s' Q' where s': "flag_set s t m = Inr s'" "sched_inv s' Q'"
    "threads s' = (threads s)[t := (th_of s t)\<lparr>t_flags := t_flags (th_of s t) OR m,
      t_state := if ?w then Running else t_state (th_of s t)\<rparr>]"
    "pending s' \<longleftrightarrow> pending s \<or> ?w \<and> preempts s (t_prio (th_of s t))"
    using flag_set_ok[OF inv t, of m] by blast
  have "flags_ok s'"
    by (rule flags_ok_upd[OF ok sched_invD(2)[OF inv] s'(3)]) simp
  then show ?thesis
    using s' t sched_invD(2)[OF inv] by auto
qed

lemma sched_inv_one_blocked:
  "st \<noteq> Running \<Longrightarrow>
   sched_inv (scheduler_new\<lparr>threads := (threads scheduler_new)[0 := thread_default\<lparr>t_state := st, t_flags := f\<rparr>]\<rparr>)
     (\<lambda>_. [])"
  by (auto simp: sched_inv_def scheduler_new_def queued_def thread_default_def sched_prio_levels_def
      thread_count_def nth_list_update intro: rq_rep_new)

lemma flag_set_wakes_witness:
  "\<exists>s'. flag_set (scheduler_new\<lparr>threads := (threads scheduler_new)[0 :=
       thread_default\<lparr>t_state := FlagBlocked (WaitAll 6), t_flags := 4\<rparr>]\<rparr>) 0 2 = Inr s' \<and>
     t_state (th_of s' 0) = Running \<and> t_flags (th_of s' 0) = 6 \<and> flags_ok s'"
proof -
  let ?s = "scheduler_new\<lparr>threads := (threads scheduler_new)[0 :=
       thread_default\<lparr>t_state := FlagBlocked (WaitAll 6), t_flags := 4\<rparr>]\<rparr>"
  have ok: "flags_ok ?s"
    by (auto simp: flags_ok_def scheduler_new_def thread_default_def nth_list_update)
  have th: "th_of ?s 0 = thread_default\<lparr>t_state := FlagBlocked (WaitAll 6), t_flags := 4\<rparr>"
    by (simp add: scheduler_new_def thread_count_def)
  show ?thesis
    using flag_set_wakes[OF sched_inv_one_blocked ok, of 0 2] unfolding th
    by (auto simp: thread_count_def)
qed

text \<open>
  waiting for all flags of a mask.  When all are set the call returns the mask and clears
  exactly these flags; otherwise the calling thread is blocked on the mask with its flags kept, and
  a switch is pending.
\<close>

theorem flag_wait_all_spec:
  fixes s :: scheduler and m :: "16 word" and c :: nat
  assumes inv: "sched_inv s Q" and c: "current_thread s = Some c" "\<not> pending s"
  defines "f \<equiv> t_flags (th_of s c)"
  shows "if f AND m = m
    then flag_wait_all s m = Inr (set_flags s c (th_of s c) (f AND NOT m), Some m)
    else \<exists>s' Q'. flag_wait_all s m = Inr (s', None) \<and> sched_inv s' Q' \<and> pending s' \<and>
      threads s' = (threads s)[c := (th_of s c)\<lparr>t_state := FlagBlocked (WaitAll m)\<rparr>] \<and>
      \<not> flag_wakes (FlagBlocked (WaitAll m)) f"
  using current_thread_data_ok[OF inv c(1)] flag_block_ok[OF inv c, of "WaitAll m"]
  by (auto simp: flag_wait_all_def f_def)

lemma flag_wait_all_spec_witness:
  "\<exists>s. reachable s \<and> current_thread s = Some 0 \<and>
     flag_wait_all s 0 = Inr (set_flags s 0 (th_of s 0) (t_flags (th_of s 0)), Some 0)"
proof -
  obtain s Q where s: "reachable s" "current_thread s = Some 0" "\<not> pending s" "sched_inv s Q"
    using reachable_boot[of 3] by (auto simp: sched_prio_levels_def thread_count_def)
  then show ?thesis
    using flag_wait_all_spec[OF s(4,2,3), of 0] by auto
qed

text \<open>
  waiting for one flag of a mask.  When some are set the call returns exactly one flag, the
  lowest of the mask that is set, and clears only that flag; otherwise the calling thread is
  blocked until any of them is set.
\<close>

theorem flag_wait_one_spec:
  fixes s :: scheduler and m :: "16 word" and c :: nat
  assumes inv: "sched_inv s Q" and c: "current_thread s = Some c" "\<not> pending s"
  defines "f \<equiv> t_flags (th_of s c)"
  shows "if f AND m = 0
    then \<exists>s' Q'. flag_wait_one s m = Inr (s', None) \<and> sched_inv s' Q' \<and> pending s' \<and>
      threads s' = (threads s)[c := (th_of s c)\<lparr>t_state := FlagBlocked (WaitAny m)\<rparr>]
    else \<exists>k<16. bit f k \<and> bit m k \<and> (\<forall>j<k. \<not> (bit f j \<and> bit m j)) \<and>
      flag_wait_one s m = Inr (set_flags s c (th_of s c) (f AND NOT (push_bit k 1)), Some (push_bit k 1))"
proof (cases "f AND m = 0")
  case True
  then show ?thesis
    using current_thread_data_ok[OF inv c(1)] flag_block_ok[OF inv c, of "WaitAny m"]
    by (auto simp: flag_wait_one_def f_def)
next
  case False
  obtain k where k: "k < 16" "bit (f AND m) k" "\<And>j. j < k \<Longrightarrow> \<not> bit (f AND m) j"
    "(f AND m) AND (NOT (f AND m) + 1) = push_bit k 1"
    using lowest_bit_exists[OF False] by blast
  have "flag_wait_one s m = Inr (set_flags s c (th_of s c) (f AND NOT (push_bit k 1)), Some (push_bit k 1))"
    unfolding flag_wait_one_def current_thread_data_ok[OF inv c(1)] bnd.simps prod.case Let_def
    using False k(4) by (simp only: f_def if_True simp_thms)
  then show ?thesis
    using False k(1-3) by (auto simp: bit_and_iff intro!: exI[of _ k])
qed

lemma flag_wait_one_spec_witness:
  "\<exists>s s'. sched_inv s ((\<lambda>_. [])(3 := [0])) \<and> t_flags (th_of s 0) = 6 \<and>
     flag_wait_one s 4 = Inr (s', Some 4) \<and> t_flags (th_of s' 0) = 2"
proof -
  let ?Q = "(\<lambda>_. [])(3 := [0::nat])"
  obtain s0 where s0: "current_thread s0 = Some 0" "\<not> pending s0" "sched_inv s0 ?Q"
    using reachable_boot[of 3] by (auto simp: sched_prio_levels_def thread_count_def)
  let ?s = "set_flags s0 0 (th_of s0 0) 6"
  have inv: "sched_inv ?s ?Q"
    using set_flags_inv[OF s0(3), of 0 6] by (simp add: thread_count_def)
  have l: "0 < length (threads s0)"
    using sched_invD(2)[OF s0(3)] by (simp add: thread_count_def)
  have th: "t_flags (th_of ?s 0) = 6"
    using l by simp
  have "(6 :: 16 word) AND 4 = 4" by simp
  then have n: "t_flags (th_of ?s 0) AND 4 \<noteq> 0"
    unfolding th by simp
  obtain k where k: "k < 16" "bit (4 :: 16 word) k"
    "flag_wait_one ?s 4 = Inr (set_flags ?s 0 (th_of ?s 0) (6 AND NOT (push_bit k 1)), Some (push_bit k 1))"
    using flag_wait_one_spec[OF inv, of 0 4] s0(1,2) n unfolding th by auto
  have "bit (push_bit 2 (1 :: 16 word)) k"
    using k(2) by simp
  then have "k = 2"
    by (simp only: bit_push_bit_iff bit_1_iff) auto
  then show ?thesis
    using k(3) inv th l
    by (intro exI[of _ ?s] exI[of _ "set_flags ?s 0 (th_of ?s 0) 2"]) auto
qed

end
