(* ===== verification/WaitList.thy ===== *)
theory WaitList
  imports ThreadFlags
begin

section \<open>Lists of waiting threads (\<open>ariel-os-threads/src/threadlist.rs\<close>)\<close>

text \<open>
  A \<open>ThreadList\<close> is the head of a chain through the scheduler's \<open>thread_blocklist\<close>: the
  entry of a waiting thread is the thread behind it.  \<open>put_current\<close> inserts the running thread
  behind all waiters of at least its priority and blocks it; \<open>pop\<close> wakes the head;
  \<open>remove_current\<close> unlinks the running thread after a timeout.  Walking the chain is a loop
  over links, hence the \<open>option\<close> results.
\<close>

record threadlist =
  tl_head :: "nat option"

definition tl_new :: threadlist where
  "tl_new = \<lparr>tl_head = None\<rparr>"

definition tl_is_empty :: "threadlist \<Rightarrow> bool" where
  "tl_is_empty l \<longleftrightarrow> tl_head l = None"

text \<open>The search loop of \<open>put_current\<close>: the last waiter to stay in front, and the next one.\<close>

partial_function (option) tl_find_pos ::
    "scheduler \<Rightarrow> nat \<Rightarrow> nat option \<Rightarrow> nat option \<Rightarrow> (panic + nat option \<times> nat option) option" where
  "tl_find_pos s prio cur nxt =
     (case nxt of
        None \<Rightarrow> Some (Inr (cur, None))
      | Some n \<Rightarrow>
          (case get_unchecked s n of
             Inl e \<Rightarrow> Some (Inl e)
           | Inr th \<Rightarrow>
               if t_prio th < prio then Some (Inr (cur, nxt))
               else (case idx (thread_blocklist s) n of
                       Inl e \<Rightarrow> Some (Inl e)
                     | Inr nxt' \<Rightarrow> tl_find_pos s prio nxt nxt')))"

definition tl_put_current ::
    "threadlist \<Rightarrow> scheduler \<Rightarrow> thread_state \<Rightarrow> (panic + threadlist \<times> scheduler \<times> nat option) option" where
  "tl_put_current l s st =
     obnd (Some (current_thread_data s)) (\<lambda>(_, th).
     let tid = t_tid th; prio = t_prio th in
     obnd (tl_find_pos s prio None (tl_head l)) (\<lambda>(cur, nxt).
     Some (
       bnd (upd (thread_blocklist s) tid nxt) (\<lambda>bl.
       bnd (case cur of
              Some c \<Rightarrow> bnd (upd bl c (Some tid)) (\<lambda>bl. Inr (l, bl, None))
            | None \<Rightarrow> Inr (l\<lparr>tl_head := Some tid\<rparr>, bl, Some prio)) (\<lambda>(l, bl, inherit_priority).
       bnd (set_state (s\<lparr>thread_blocklist := bl\<rparr>) tid st) (\<lambda>(s, _).
         Inr (l, s, inherit_priority)))))))"

definition tl_pop ::
    "threadlist \<Rightarrow> scheduler \<Rightarrow> panic + threadlist \<times> scheduler \<times> (nat \<times> thread_state) option" where
  "tl_pop l s =
     (case tl_head l of
        None \<Rightarrow> Inr (l, s, None)
      | Some h \<Rightarrow>
          bnd (idx (thread_blocklist s) h) (\<lambda>nxt.
          bnd (set_state (s\<lparr>thread_blocklist := (thread_blocklist s)[h := None]\<rparr>) h Running) (\<lambda>(s, old_state).
            Inr (l\<lparr>tl_head := nxt\<rparr>, s, Some (h, old_state)))))"

text \<open>The loop of \<open>remove_inner\<close> behind the head; the flag says whether the thread was found.\<close>

partial_function (option) tl_unlink :: "scheduler \<Rightarrow> nat \<Rightarrow> nat \<Rightarrow> (panic + scheduler \<times> bool) option" where
  "tl_unlink s tid cur =
     (case idx (thread_blocklist s) cur of
        Inl e \<Rightarrow> Some (Inl e)
      | Inr None \<Rightarrow> Some (Inr (s, False))
      | Inr (Some nxt) \<Rightarrow>
          if nxt = tid then
            Some (bnd (idx (thread_blocklist s) nxt) (\<lambda>after.
                  bnd (set_state (s\<lparr>thread_blocklist := (thread_blocklist s)[nxt := None, cur := after]\<rparr>) nxt Running)
                    (\<lambda>(s, _). Inr (s, True))))
          else tl_unlink s tid nxt)"

definition tl_remove_inner ::
    "threadlist \<Rightarrow> scheduler \<Rightarrow> nat \<Rightarrow> (panic + threadlist \<times> scheduler \<times> bool) option" where
  "tl_remove_inner l s tid =
     (case tl_head l of
        None \<Rightarrow> Some (Inr (l, s, False))
      | Some h \<Rightarrow>
          if h = tid then
            Some (bnd (tl_pop l s) (\<lambda>(l, s, _). Inr (l, s, True)))
          else obnd (tl_unlink s tid h) (\<lambda>(s, found). Some (Inr (l, s, found))))"

definition tl_remove_current ::
    "threadlist \<Rightarrow> scheduler \<Rightarrow> (panic + threadlist \<times> scheduler \<times> bool) option" where
  "tl_remove_current l s =
     obnd (Some (unwrap (current_tid s))) (\<lambda>tid. tl_remove_inner l s tid)"

subsection \<open>Chains\<close>

fun chain :: "nat option list \<Rightarrow> nat option \<Rightarrow> nat list \<Rightarrow> bool" where
  "chain bl h [] \<longleftrightarrow> h = None"
| "chain bl h (x # xs) \<longleftrightarrow> h = Some x \<and> x < length bl \<and> chain bl (bl ! x) xs"

lemma chain_cong:
  "chain bl h xs \<Longrightarrow> length bl' = length bl \<Longrightarrow> (\<And>x. x \<in> set xs \<Longrightarrow> bl' ! x = bl ! x) \<Longrightarrow> chain bl' h xs"
  by (induction xs arbitrary: h) auto

lemma chain_upd: "chain bl h xs \<Longrightarrow> t \<notin> set xs \<Longrightarrow> chain (bl[t := v]) h xs"
  by (induction xs arbitrary: h) auto

lemma chain_bound: "chain bl h xs \<Longrightarrow> x \<in> set xs \<Longrightarrow> x < length bl"
  by (induction xs arbitrary: h) auto

lemma chain_head: "chain bl h xs \<Longrightarrow> h = (case xs of [] \<Rightarrow> None | x # _ \<Rightarrow> Some x)"
  by (cases xs) auto

text \<open>Linking \<open>t\<close> in between, and unlinking what follows \<open>c\<close>.\<close>

lemma chain_insert:
  assumes "chain bl h (xs @ ys)" "distinct (xs @ ys)" "t < length bl" "t \<notin> set (xs @ ys)"
    and "nxt = (case ys of [] \<Rightarrow> None | y # _ \<Rightarrow> Some y)"
  shows "if xs = [] then chain (bl[t := nxt]) (Some t) (t # ys)
    else chain (bl[t := nxt, last xs := Some t]) h (xs @ t # ys)"
  using assms
proof (induction xs arbitrary: h)
  case Nil
  then show ?case
    using chain_head[of bl h ys] chain_upd[of bl nxt ys t nxt] by simp
next
  case (Cons x xs)
  let ?bl = "\<lambda>l. bl[t := nxt, l := Some t]"
  have x: "h = Some x" "x < length bl" "chain bl (bl ! x) (xs @ ys)" "x \<noteq> t"
    using Cons.prems by auto
  show ?case
  proof (cases "xs = []")
    case True
    have y: "chain bl nxt ys"
      using x(3) True Cons.prems(5) chain_head[of bl "bl ! x" ys] by simp
    have "chain (?bl x) nxt ys"
      using chain_upd[OF chain_upd[OF y]] Cons.prems(2,4) by simp
    then show ?thesis
      using True x Cons.prems(3) by simp
  next
    case False
    then have "last xs \<noteq> x"
      using Cons.prems(2) last_in_set[of xs] by auto
    then show ?thesis
      using Cons.IH[OF x(3)] Cons.prems x False by simp
  qed
qed

lemma chain_unlink:
  assumes "chain bl h (xs @ c # t # ys)" "distinct (xs @ c # t # ys)"
  shows "chain (bl[t := None, c := bl ! t]) h (xs @ c # ys)"
  using assms
proof (induction xs arbitrary: h)
  case Nil
  then have "chain bl (bl ! t) ys" by simp
  then have "chain (bl[t := None, c := bl ! t]) (bl ! t) ys"
    using chain_upd[OF chain_upd] Nil by simp
  then show ?case
    using Nil by simp
next
  case (Cons x xs)
  then show ?case by auto
qed

subsection \<open>The waiters a list stands for\<close>

definition tl_rep :: "scheduler \<Rightarrow> threadlist \<Rightarrow> nat list \<Rightarrow> bool" where
  "tl_rep s l xs \<longleftrightarrow> chain (thread_blocklist s) (tl_head l) xs \<and> distinct xs \<and>
     (\<forall>x\<in>set xs. t_state (th_of s x) \<noteq> Invalid)"

definition sched_ok :: "scheduler \<Rightarrow> bool" where
  "sched_ok s \<longleftrightarrow> (\<exists>Q. sched_inv s Q)"

lemma sched_ok_len: "sched_ok s \<Longrightarrow> length (threads s) = thread_count"
  "sched_ok s \<Longrightarrow> length (thread_blocklist s) = thread_count"
  using sched_invD(2,3) by (auto simp: sched_ok_def)

lemma tl_rep_bound: "sched_ok s \<Longrightarrow> tl_rep s l xs \<Longrightarrow> x \<in> set xs \<Longrightarrow> x < thread_count"
  using chain_bound sched_ok_len by (metis tl_rep_def)

lemma tl_rep_new: "tl_rep s tl_new []"
  by (simp add: tl_rep_def tl_new_def)

lemma tl_rep_empty: "tl_rep s l xs \<Longrightarrow> tl_is_empty l \<longleftrightarrow> xs = []"
  by (cases xs) (auto simp: tl_rep_def tl_is_empty_def)

text \<open>Highest priority first.\<close>

definition prio_sorted :: "scheduler \<Rightarrow> nat list \<Rightarrow> bool" where
  "prio_sorted s xs \<longleftrightarrow> sorted_wrt (\<lambda>x y. t_prio (th_of s y) \<le> t_prio (th_of s x)) xs"

lemma prio_sorted_cong:
  "\<forall>x\<in>set xs. t_prio (th_of s' x) = t_prio (th_of s x) \<Longrightarrow> prio_sorted s' xs = prio_sorted s xs"
  by (induction xs) (auto simp: prio_sorted_def)

text \<open>Where a thread of priority \<open>p\<close> goes.\<close>

definition in_front :: "scheduler \<Rightarrow> nat \<Rightarrow> nat list \<Rightarrow> nat list" where
  "in_front s p xs = takeWhile (\<lambda>x. p \<le> t_prio (th_of s x)) xs"

definition behind :: "scheduler \<Rightarrow> nat \<Rightarrow> nat list \<Rightarrow> nat list" where
  "behind s p xs = dropWhile (\<lambda>x. p \<le> t_prio (th_of s x)) xs"

lemma in_front_behind [simp]: "in_front s p xs @ behind s p xs = xs"
  by (simp add: in_front_def behind_def)

lemma set_in_front_behind: "set (in_front s p xs) \<union> set (behind s p xs) = set xs"
  by (metis in_front_behind set_append)

lemma tl_find_pos_spec:
  assumes "length (threads s) = thread_count" "length (thread_blocklist s) = thread_count"
  shows "chain (thread_blocklist s) nxt xs \<Longrightarrow>
   tl_find_pos s p cur nxt = Some (Inr (
     (if in_front s p xs = [] then cur else Some (last (in_front s p xs))),
     (case behind s p xs of [] \<Rightarrow> None | y # _ \<Rightarrow> Some y)))"
proof (induction xs arbitrary: cur nxt)
  case Nil
  then show ?case
    by (subst tl_find_pos.simps) (simp add: in_front_def behind_def)
next
  case (Cons x xs)
  then have x: "nxt = Some x" "x < thread_count" "chain (thread_blocklist s) (thread_blocklist s ! x) xs"
    using assms by auto
  then show ?case
    using Cons.IH[OF x(3), of nxt] assms
    by (subst tl_find_pos.simps) (auto simp: get_unchecked_def in_front_def behind_def)
qed

lemma prio_sorted_insert:
  assumes "prio_sorted s xs" "t_prio (th_of s t) = p"
  shows "prio_sorted s (in_front s p xs @ t # behind s p xs)"
proof -
  have "prio_sorted s (in_front s p xs @ behind s p xs)"
    using assms(1) by simp
  then have s: "sorted_wrt (\<lambda>x y. t_prio (th_of s y) \<le> t_prio (th_of s x)) (in_front s p xs)"
    "sorted_wrt (\<lambda>x y. t_prio (th_of s y) \<le> t_prio (th_of s x)) (behind s p xs)"
    "\<forall>x\<in>set (in_front s p xs). \<forall>y\<in>set (behind s p xs). t_prio (th_of s y) \<le> t_prio (th_of s x)"
    unfolding prio_sorted_def sorted_wrt_append by blast+
  have f: "\<forall>x\<in>set (in_front s p xs). p \<le> t_prio (th_of s x)"
    by (auto simp: in_front_def dest: set_takeWhileD)
  have b: "\<forall>y\<in>set (behind s p xs). t_prio (th_of s y) \<le> p"
  proof (cases "behind s p xs")
    case (Cons y ys)
    then have "\<not> p \<le> t_prio (th_of s y)"
      using hd_dropWhile[of "\<lambda>x. p \<le> t_prio (th_of s x)" xs] unfolding behind_def by force
    then show ?thesis
      using s(2) Cons by auto
  qed simp
  show ?thesis
    unfolding prio_sorted_def sorted_wrt_append sorted_wrt.simps list.set
    using s f b assms(2) by auto
qed

subsection \<open>What the operations do\<close>

text \<open>\<open>woken s s' X\<close>: the threads of \<open>X\<close> became ready, nothing else changed for any thread.\<close>

definition woken :: "scheduler \<Rightarrow> scheduler \<Rightarrow> nat set \<Rightarrow> bool" where
  "woken s s' X \<longleftrightarrow> length (threads s') = length (threads s) \<and>
     (\<forall>t<thread_count. th_of s' t = (if t \<in> X then (th_of s t)\<lparr>t_state := Running\<rparr> else th_of s t)) \<and>
     current_thread s' = current_thread s \<and> (pending s \<longrightarrow> pending s')"

lemma woken_refl: "woken s s {}"
  by (simp add: woken_def)

lemma woken_trans: "woken s s1 X \<Longrightarrow> woken s1 s2 Y \<Longrightarrow> woken s s2 (X \<union> Y)"
  by (auto simp: woken_def)

lemma wokenD:
  assumes "woken s s' X" "t < thread_count"
  shows "t_prio (th_of s' t) = t_prio (th_of s t)" "t_flags (th_of s' t) = t_flags (th_of s t)"
    "t_deadline (th_of s' t) = t_deadline (th_of s t)"
    "t_state (th_of s' t) = (if t \<in> X then Running else t_state (th_of s t))"
    "current_thread s' = current_thread s" "pending s \<Longrightarrow> pending s'"
  using assms by (auto simp: woken_def)

lemma wake_ok:
  assumes ok: "sched_ok s" and t: "t < thread_count" "t_state (th_of s t) \<noteq> Invalid"
  shows "\<exists>s'. set_state s t Running = Inr (s', t_state (th_of s t)) \<and> sched_ok s' \<and> woken s s' {t} \<and>
    thread_blocklist s' = thread_blocklist s \<and>
    (pending s' \<longleftrightarrow> pending s \<or> preempts s (t_prio (th_of s t)))"
proof -
  obtain Q where inv: "sched_inv s Q"
    using ok by (auto simp: sched_ok_def)
  show ?thesis
    using set_state_running[OF inv t(1) sched_invD(6)[OF inv t]] t(1) sched_invD(2)[OF inv]
    by (fastforce simp: sched_ok_def woken_def nth_list_update)
qed

lemma block_ok:
  assumes ok: "sched_ok s" and c: "current_thread s = Some c" "\<not> pending s" and st: "st \<noteq> Running"
  shows "\<exists>s'. set_state s c st = Inr (s', Running) \<and> sched_ok s' \<and> pending s' \<and> current_thread s' = Some c \<and>
    threads s' = (threads s)[c := (th_of s c)\<lparr>t_state := st\<rparr>] \<and> thread_blocklist s' = thread_blocklist s"
proof -
  obtain Q where inv: "sched_inv s Q"
    using ok by (auto simp: sched_ok_def)
  show ?thesis
    using set_state_current[OF inv c st] by (auto simp: sched_ok_def)
qed

lemma sched_ok_blocklist: "sched_ok s \<Longrightarrow> length bl = thread_count \<Longrightarrow> sched_ok (s\<lparr>thread_blocklist := bl\<rparr>)"
  using sched_inv_blocklist by (auto simp: sched_ok_def)

lemma sched_ok_current:
  assumes "sched_ok s" "current_thread s = Some c" "\<not> pending s"
  shows "c < thread_count" "t_state (th_of s c) = Running" "t_tid (th_of s c) = c"
    "current_thread_data s = Inr (c, th_of s c)"
proof -
  obtain Q where inv: "sched_inv s Q"
    using assms by (auto simp: sched_ok_def)
  show "c < thread_count" "t_state (th_of s c) = Running"
    using sched_invD(7)[OF inv assms(2)] sched_inv_first_ready_running(2)[OF inv assms(2,3)] by auto
  then show "t_tid (th_of s c) = c" "current_thread_data s = Inr (c, th_of s c)"
    using sched_invD(6)[OF inv] current_thread_data_ok[OF inv assms(2)] by auto
qed

text \<open>A list is only affected by changes to its own waiters and links.\<close>

lemma tl_rep_frame:
  assumes "tl_rep s l xs" "length (thread_blocklist s') = length (thread_blocklist s)"
    and "\<And>x. x \<in> set xs \<Longrightarrow> thread_blocklist s' ! x = thread_blocklist s ! x"
    and "\<And>x. x \<in> set xs \<Longrightarrow> t_state (th_of s' x) \<noteq> Invalid"
  shows "tl_rep s' l xs"
  using assms chain_cong unfolding tl_rep_def by blast

lemma tl_pop_empty: "tl_rep s l [] \<Longrightarrow> tl_pop l s = Inr (l, s, None)"
  by (simp add: tl_pop_def tl_rep_def)

lemma tl_pop_ok:
  assumes ok: "sched_ok s" and rep: "tl_rep s l (x # xs)"
  shows "\<exists>l' s'. tl_pop l s = Inr (l', s', Some (x, t_state (th_of s x))) \<and> sched_ok s' \<and> tl_rep s' l' xs \<and>
    woken s s' {x} \<and> thread_blocklist s' = (thread_blocklist s)[x := None] \<and>
    (pending s' \<longleftrightarrow> pending s \<or> preempts s (t_prio (th_of s x)))"
proof -
  let ?bl = "(thread_blocklist s)[x := None]"
  let ?s = "s\<lparr>thread_blocklist := ?bl\<rparr>"
  note l = sched_ok_len[OF ok]
  have x: "x < thread_count" "t_state (th_of s x) \<noteq> Invalid" "tl_head l = Some x"
    "chain (thread_blocklist s) (thread_blocklist s ! x) xs" "distinct (x # xs)"
    using rep tl_rep_bound[OF ok rep] by (auto simp: tl_rep_def)
  have ok1: "sched_ok ?s"
    using sched_ok_blocklist[OF ok] l by simp
  obtain s' where s': "set_state ?s x Running = Inr (s', t_state (th_of s x))" "sched_ok s'" "woken ?s s' {x}"
    "thread_blocklist s' = ?bl" "pending s' \<longleftrightarrow> pending s \<or> preempts ?s (t_prio (th_of s x))"
    using wake_ok[OF ok1 x(1)] x(2) by auto
  have "chain ?bl (thread_blocklist s ! x) xs"
    using chain_upd[OF x(4)] x(5) by simp
  moreover have "t_state (th_of s' y) \<noteq> Invalid" if "y \<in> set xs" for y
    using wokenD(4)[OF s'(3)] tl_rep_bound[OF ok rep, of y] rep that by (auto simp: tl_rep_def)
  ultimately have "tl_rep s' (l\<lparr>tl_head := thread_blocklist s ! x\<rparr>) xs"
    using s'(4) x(5) by (simp add: tl_rep_def)
  moreover have "woken s s' {x}"
    using s'(3) by (simp add: woken_def)
  moreover have "preempts ?s p = preempts s p" for p
    by (simp add: preempts_def)
  ultimately show ?thesis
    using s' x l by (simp add: tl_pop_def)
qed

text \<open>
  The running thread joins behind all waiters of at least its priority; it reports its priority
  when it is the new head.
\<close>

lemma tl_put_current_ok:
  assumes ok: "sched_ok s" and c: "current_thread s = Some c" "\<not> pending s" and rep: "tl_rep s l xs"
    and st: "st \<noteq> Running" "st \<noteq> Invalid" and new: "c \<notin> set xs"
  defines "p \<equiv> t_prio (th_of s c)"
  shows "\<exists>l' s'. tl_put_current l s st =
      Some (Inr (l', s', if in_front s p xs = [] then Some p else None)) \<and>
    sched_ok s' \<and> tl_rep s' l' (in_front s p xs @ c # behind s p xs) \<and> pending s' \<and> current_thread s' = Some c \<and>
    threads s' = (threads s)[c := (th_of s c)\<lparr>t_state := st\<rparr>] \<and>
    (\<forall>y. y \<noteq> c \<and> y \<notin> set xs \<longrightarrow> thread_blocklist s' ! y = thread_blocklist s ! y)"
proof -
  let ?as = "in_front s p xs" and ?bs = "behind s p xs"
  let ?nxt = "case ?bs of [] \<Rightarrow> None | y # _ \<Rightarrow> Some y"
  let ?bl0 = "(thread_blocklist s)[c := ?nxt]"
  define bl where "bl = (if ?as = [] then ?bl0 else ?bl0[last ?as := Some c])"
  define l' where "l' = (if ?as = [] then l\<lparr>tl_head := Some c\<rparr> else l)"
  note l = sched_ok_len[OF ok]
  note cur = sched_ok_current[OF ok c]
  have ch: "chain (thread_blocklist s) (tl_head l) (?as @ ?bs)" "distinct (?as @ ?bs)"
    using rep by (simp_all add: tl_rep_def)
  have ok1: "sched_ok (s\<lparr>thread_blocklist := bl\<rparr>)"
    using sched_ok_blocklist[OF ok] l by (simp add: bl_def)
  obtain s' where s': "set_state (s\<lparr>thread_blocklist := bl\<rparr>) c st = Inr (s', Running)" "sched_ok s'"
    "pending s'" "current_thread s' = Some c" "threads s' = (threads s)[c := (th_of s c)\<lparr>t_state := st\<rparr>]"
    "thread_blocklist s' = bl"
    using block_ok[OF ok1, of c st] c st(1) by auto
  have find: "tl_find_pos s p None (tl_head l) = Some (Inr (if ?as = [] then None else Some (last ?as), ?nxt))"
    using tl_find_pos_spec[OF l, of "tl_head l" xs p None] rep by (simp add: tl_rep_def)
  have last: "?as \<noteq> [] \<Longrightarrow> last ?as < thread_count \<and> last ?as \<in> set xs"
    using tl_rep_bound[OF ok rep] last_in_set[of ?as] set_takeWhileD by (metis in_front_def)
  have "tl_put_current l s st = Some (Inr (l', s', if ?as = [] then Some p else None))"
    using cur find s'(1) l last
    by (cases "?as = []") (auto simp: tl_put_current_def Let_def p_def[symmetric] bl_def l'_def)
  moreover have "tl_rep s' l' (?as @ c # ?bs)"
  proof -
    have "chain bl (tl_head l') (?as @ c # ?bs)"
      using chain_insert[OF ch, of c ?nxt] new cur(1) l by (auto simp: bl_def l'_def split: if_splits)
    moreover have "t_state (th_of s' x) \<noteq> Invalid" if "x \<in> set (?as @ c # ?bs)" for x
    proof (cases "x = c")
      case False
      have "x \<in> set xs"
        using that False set_in_front_behind[of s p xs] by auto
      then show ?thesis
        using rep False s'(5) by (auto simp: tl_rep_def)
    qed (use s'(5) cur(1) l st(2) in simp)
    moreover have "distinct (?as @ c # ?bs)"
    proof -
      have "c \<notin> set ?as" "c \<notin> set ?bs"
        using new set_in_front_behind[of s p xs] by auto
      then show ?thesis
        using ch(2)[unfolded distinct_append] by auto
    qed
    ultimately show ?thesis
      using s'(6) by (simp add: tl_rep_def)
  qed
  moreover have "thread_blocklist s' ! y = thread_blocklist s ! y" if "y \<noteq> c" "y \<notin> set xs" for y
    using that s'(6) last by (cases "last ?as = y") (auto simp: bl_def)
  ultimately show ?thesis
    using s' by blast
qed

lemma tl_unlink_spec:
  assumes ok: "sched_ok s"
  shows "chain (thread_blocklist s) (Some cur) (cur # xs) \<Longrightarrow> distinct (cur # xs) \<Longrightarrow> tid \<noteq> cur \<Longrightarrow>
    tid \<in> set xs \<longrightarrow> t_state (th_of s tid) \<noteq> Invalid \<Longrightarrow>
    if tid \<in> set xs
    then \<exists>s' as c bs. tl_unlink s tid cur = Some (Inr (s', True)) \<and> sched_ok s' \<and> woken s s' {tid} \<and>
      cur # xs = as @ c # tid # bs \<and> thread_blocklist s' = (thread_blocklist s)[tid := None, c := thread_blocklist s ! tid]
    else tl_unlink s tid cur = Some (Inr (s, False))"
proof (induction xs arbitrary: cur)
  case Nil
  then show ?case
    by (subst tl_unlink.simps) auto
next
  case (Cons x xs)
  note l = sched_ok_len[OF ok]
  have x: "thread_blocklist s ! cur = Some x" "cur < thread_count" "x < thread_count"
    "chain (thread_blocklist s) (Some x) (x # xs)" "distinct (x # xs)"
    using Cons.prems l by auto
  show ?case
  proof (cases "x = tid")
    case True
    let ?bl = "(thread_blocklist s)[tid := None, cur := thread_blocklist s ! tid]"
    have "sched_ok (s\<lparr>thread_blocklist := ?bl\<rparr>)"
      using sched_ok_blocklist[OF ok] l by simp
    from wake_ok[OF this, of tid] obtain s' where s': "set_state (s\<lparr>thread_blocklist := ?bl\<rparr>) tid Running =
        Inr (s', t_state (th_of s tid))" "sched_ok s'" "woken (s\<lparr>thread_blocklist := ?bl\<rparr>) s' {tid}"
      "thread_blocklist s' = ?bl"
      using Cons.prems(4) True x(3) by auto
    then have "tl_unlink s tid cur = Some (Inr (s', True))"
      using x True l by (subst tl_unlink.simps) simp
    moreover have "woken s s' {tid}"
      using s'(3) by (simp add: woken_def)
    moreover have "cur # x # xs = [] @ cur # tid # xs"
      using True by simp
    ultimately show ?thesis
      using s' True by (metis list.set_intros(1))
  next
    case False
    have eq: "tl_unlink s tid cur = tl_unlink s tid x"
      using x False l by (subst tl_unlink.simps) simp
    show ?thesis
    proof (cases "tid \<in> set xs")
      case True
      then obtain s' as c bs where "tl_unlink s tid x = Some (Inr (s', True))" "sched_ok s'" "woken s s' {tid}"
        "x # xs = as @ c # tid # bs" "thread_blocklist s' = (thread_blocklist s)[tid := None, c := thread_blocklist s ! tid]"
        using Cons.IH[OF x(4,5)] Cons.prems(4) False by auto
      moreover have "cur # x # xs = (cur # as) @ c # tid # bs"
        using calculation(4) by simp
      ultimately show ?thesis
        using eq True by (metis list.set_intros(2))
    next
      case notin: False
      then show ?thesis
        using Cons.IH[OF x(4,5)] False eq by simp
    qed
  qed
qed

lemma tl_remove_inner_ok:
  assumes ok: "sched_ok s" and rep: "tl_rep s l xs"
  shows "\<exists>l' s'. tl_remove_inner l s t = Some (Inr (l', s', t \<in> set xs)) \<and> sched_ok s' \<and>
    tl_rep s' l' (remove1 t xs) \<and> woken s s' (if t \<in> set xs then {t} else {}) \<and>
    (\<forall>y. y \<notin> set xs \<longrightarrow> thread_blocklist s' ! y = thread_blocklist s ! y)"
proof (cases xs)
  case Nil
  then show ?thesis
    using ok rep by (auto simp: tl_remove_inner_def tl_rep_def woken_refl)
next
  case (Cons x ys)
  have h: "tl_head l = Some x"
    using rep Cons by (simp add: tl_rep_def)
  show ?thesis
  proof (cases "t = x")
    case True
    obtain l' s' where "tl_pop l s = Inr (l', s', Some (x, t_state (th_of s x)))" "sched_ok s'" "tl_rep s' l' ys"
      "woken s s' {x}" "thread_blocklist s' = (thread_blocklist s)[x := None]"
      using tl_pop_ok[OF ok rep[unfolded Cons]] by blast
    then show ?thesis
      using True h Cons by (auto simp: tl_remove_inner_def)
  next
    case False
    have pre: "chain (thread_blocklist s) (Some x) (x # ys)" "distinct (x # ys)"
      "t \<in> set ys \<longrightarrow> t_state (th_of s t) \<noteq> Invalid"
      using rep Cons h by (auto simp: tl_rep_def)
    show ?thesis
    proof (cases "t \<in> set ys")
      case True
      obtain s' as c bs where u: "tl_unlink s t x = Some (Inr (s', True))" "sched_ok s'" "woken s s' {t}"
        "x # ys = as @ c # t # bs" "thread_blocklist s' = (thread_blocklist s)[t := None, c := thread_blocklist s ! t]"
        using tl_unlink_spec[OF ok pre(1,2) False pre(3)] True by auto
      have r: "remove1 t (x # ys) = as @ c # bs"
        using pre(2) u(4) by (metis append.assoc append_Cons append_Nil distinct_remove1_split)
      have "chain (thread_blocklist s') (tl_head l) (as @ c # bs)"
        using chain_unlink[of "thread_blocklist s" "tl_head l" as c t bs] pre h u(4,5) by simp
      moreover have "t_state (th_of s' y) \<noteq> Invalid" if "y \<in> set (x # ys)" for y
        using wokenD(4)[OF u(3)] tl_rep_bound[OF ok rep, of y] rep that Cons by (auto simp: tl_rep_def)
      moreover have "set (as @ c # bs) \<subseteq> set (x # ys)" "distinct (as @ c # bs)"
        using r set_remove1_subset[of t "x # ys"] distinct_remove1[OF pre(2), of t] by simp_all
      ultimately have "tl_rep s' l (remove1 t (x # ys))"
        unfolding r tl_rep_def by blast
      moreover have "c \<in> set (x # ys)"
        using u(4) by simp
      ultimately show ?thesis
        using u h False True Cons by (auto simp: tl_remove_inner_def)
    next
      case notin: False
      then have "tl_unlink s t x = Some (Inr (s, False))"
        using tl_unlink_spec[OF ok pre(1,2) False pre(3)] by simp
      then show ?thesis
        using h False notin ok rep Cons by (auto simp: tl_remove_inner_def woken_refl remove1_idem)
    qed
  qed
qed

text \<open>
  who waits is served by priority, and first come first served among equals.  Blocking the
  running thread on a list that is ordered by priority puts it behind every waiter of at least its
  priority and in front of all others, keeps the order and the other waiters' order, and reports
  the priority exactly when the thread is the new head.
\<close>

theorem put_current_keeps_order:
  assumes "sched_ok s" "current_thread s = Some c" "\<not> pending s" "tl_rep s l xs" "prio_sorted s xs"
    and "st \<noteq> Running" "st \<noteq> Invalid" "c \<notin> set xs"
  shows "\<exists>l' s' as bs. xs = as @ bs \<and> tl_rep s' l' (as @ c # bs) \<and> prio_sorted s' (as @ c # bs) \<and>
    (\<forall>x\<in>set as. t_prio (th_of s c) \<le> t_prio (th_of s x)) \<and>
    (\<forall>x\<in>set bs. t_prio (th_of s x) < t_prio (th_of s c)) \<and>
    tl_put_current l s st = Some (Inr (l', s', if as = [] then Some (t_prio (th_of s c)) else None)) \<and>
    sched_ok s' \<and> pending s' \<and> t_state (th_of s' c) = st"
proof -
  let ?p = "t_prio (th_of s c)"
  let ?as = "in_front s ?p xs" and ?bs = "behind s ?p xs"
  obtain l' s' where s': "tl_put_current l s st = Some (Inr (l', s', if ?as = [] then Some ?p else None))"
    "sched_ok s'" "tl_rep s' l' (?as @ c # ?bs)" "pending s'"
    "threads s' = (threads s)[c := (th_of s c)\<lparr>t_state := st\<rparr>]"
    using tl_put_current_ok[OF assms(1-4,6-8)] by blast
  have c: "c < length (threads s)"
    using sched_ok_current(1)[OF assms(1-3)] sched_ok_len[OF assms(1)] by simp
  have prio: "t_prio (th_of s' t) = t_prio (th_of s t)" for t
    using s'(5) c by (cases "t = c") auto
  have "prio_sorted s' (?as @ c # ?bs)"
    using prio_sorted_insert[OF assms(5), of c] unfolding prio_sorted_def prio by simp
  moreover have "\<forall>x\<in>set ?as. ?p \<le> t_prio (th_of s x)"
    by (auto simp: in_front_def dest: set_takeWhileD)
  moreover have "\<forall>x\<in>set ?bs. t_prio (th_of s x) < ?p"
  proof (cases ?bs)
    case (Cons y ys)
    then have y: "t_prio (th_of s y) < ?p"
      using hd_dropWhile[of "\<lambda>x. ?p \<le> t_prio (th_of s x)" xs] unfolding behind_def by force
    have "prio_sorted s (?as @ y # ys)"
      using assms(5) Cons in_front_behind[of s ?p xs] by metis
    then have "\<forall>x\<in>set ys. t_prio (th_of s x) \<le> t_prio (th_of s y)"
      by (simp add: prio_sorted_def sorted_wrt_append)
    then show ?thesis
      using y Cons by auto
  qed simp
  moreover have "t_state (th_of s' c) = st"
    using s'(5) c by simp
  ultimately show ?thesis
    using s' in_front_behind[of s ?p xs, symmetric] by blast
qed

lemma put_current_keeps_order_witness:
  "\<exists>s l' s'. reachable s \<and> tl_put_current tl_new s LockBlocked = Some (Inr (l', s', Some 3)) \<and>
     tl_rep s' l' [0] \<and> t_state (th_of s' 0) = LockBlocked"
proof -
  obtain s Q where s: "reachable s" "current_thread s = Some 0" "\<not> pending s" "sched_inv s Q"
    "t_prio (th_of s 0) = 3"
    using reachable_boot[of 3] by (auto simp: sched_prio_levels_def thread_count_def)
  then have "sched_ok s"
    by (auto simp: sched_ok_def)
  from put_current_keeps_order[OF this s(2,3) tl_rep_new, of LockBlocked] show ?thesis
    using s(1,5) by (auto simp: prio_sorted_def)
qed

subsection \<open>The interface the synchronisation primitives rely on\<close>

text \<open>
  A list of waiters over a system state: \<open>rep s l xs\<close> says which threads wait, in which order,
  \<open>wk s s' X\<close> that the threads of \<open>X\<close> became ready.  \<open>pop_all\<close> is the loop
  \<open>while waiters.pop(cs).is_some() {}\<close>.
\<close>

partial_function (option) pop_all ::
    "('l \<Rightarrow> 's \<Rightarrow> 'e + 'l \<times> 's \<times> 'r option) \<Rightarrow> 'l \<Rightarrow> 's \<Rightarrow> ('e + 'l \<times> 's) option" where
  "pop_all pop l s =
     (case pop l s of
        Inl e \<Rightarrow> Some (Inl e)
      | Inr (l', s', None) \<Rightarrow> Some (Inr (l', s'))
      | Inr (l', s', Some _) \<Rightarrow> pop_all pop l' s')"

locale waiters =
  fixes ok :: "'s \<Rightarrow> bool"
    and rep :: "'s \<Rightarrow> 'l \<Rightarrow> nat list \<Rightarrow> bool"
    and wk :: "'s \<Rightarrow> 's \<Rightarrow> nat set \<Rightarrow> bool"
    and new :: "'l"
    and is_empty :: "'l \<Rightarrow> bool"
    and pop :: "'l \<Rightarrow> 's \<Rightarrow> 'e + 'l \<times> 's \<times> (nat \<times> 'st) option"
    and state_of :: "'s \<Rightarrow> nat \<Rightarrow> 'st"
  assumes rep_new: "rep s new []"
    and empty: "rep s l xs \<Longrightarrow> is_empty l \<longleftrightarrow> xs = []"
    and wk_refl: "wk s s {}"
    and wk_trans: "wk s s1 X \<Longrightarrow> wk s1 s2 Y \<Longrightarrow> wk s s2 (X \<union> Y)"
    and pop_empty: "rep s l [] \<Longrightarrow> pop l s = Inr (l, s, None)"
    and pop_cons: "ok s \<Longrightarrow> rep s l (x # xs) \<Longrightarrow>
      \<exists>l' s'. pop l s = Inr (l', s', Some (x, state_of s x)) \<and> ok s' \<and> rep s' l' xs \<and> wk s s' {x}"
begin

text \<open>Popping until empty ends, and wakes exactly the waiters.\<close>

lemma pop_all_spec:
  "ok s \<Longrightarrow> rep s l xs \<Longrightarrow>
   \<exists>l' s'. pop_all pop l s = Some (Inr (l', s')) \<and> ok s' \<and> rep s' l' [] \<and> wk s s' (set xs)"
proof (induction xs arbitrary: s l)
  case Nil
  then show ?case
    using pop_empty[OF Nil(2)] wk_refl by (subst pop_all.simps) auto
next
  case (Cons x xs)
  obtain l1 s1 where s1: "pop l s = Inr (l1, s1, Some (x, state_of s x))" "ok s1" "rep s1 l1 xs" "wk s s1 {x}"
    using pop_cons[OF Cons.prems] by blast
  obtain l' s' where s': "pop_all pop l1 s1 = Some (Inr (l', s'))" "ok s'" "rep s' l' []" "wk s1 s' (set xs)"
    using Cons.IH[OF s1(2,3)] by blast
  then show ?case
    using s1(1) wk_trans[OF s1(4) s'(4)] by (subst pop_all.simps) auto
qed

text \<open>A pop that finds nobody leaves everything as it was; one that finds somebody wakes one.\<close>

lemma pop_total:
  assumes "ok s" "rep s l xs"
  shows "\<exists>l' s' r. pop l s = Inr (l', s', r) \<and> ok s' \<and> rep s' l' (tl xs) \<and>
    wk s s' (set (take 1 xs)) \<and> (r = None \<longleftrightarrow> is_empty l)"
proof (cases xs)
  case Nil
  then show ?thesis
    using assms pop_empty empty wk_refl by auto
next
  case (Cons x ys)
  then have "\<not> is_empty l"
    using empty[OF assms(2)] by simp
  then show ?thesis
    using pop_cons[OF assms(1) assms(2)[unfolded Cons]] Cons by auto
qed

end

interpretation wl: waiters sched_ok tl_rep woken tl_new tl_is_empty tl_pop "\<lambda>s t. t_state (th_of s t)"
proof unfold_locales
  fix s :: scheduler and l :: threadlist and x :: nat and xs :: "nat list"
  assume "sched_ok s" "tl_rep s l (x # xs)"
  then show "\<exists>l' s'. tl_pop l s = Inr (l', s', Some (x, t_state (th_of s x))) \<and> sched_ok s' \<and>
      tl_rep s' l' xs \<and> woken s s' {x}"
    using tl_pop_ok by blast
qed (auto simp: tl_rep_new tl_rep_empty woken_refl tl_pop_empty intro: woken_trans)

end
