(* ===== verification/Locks.thy ===== *)
theory Locks
  imports WaitList
begin

section \<open>Locks, events and wait queues (\<open>ariel-os-threads/src/sync\<close>)\<close>

text \<open>
  The primitives of \<open>lock.rs\<close>, \<open>event.rs\<close> and \<open>wait_queue.rs\<close>: each is a
  \<open>ThreadList\<close>, in the first two inside a \<open>LockState\<close>.  Every call is one critical section.
  A call that blocks returns here at the end of its critical section; the thread goes on when it
  is scheduled again.
\<close>

datatype lock_state = Unlocked | Locked threadlist

subsection \<open>Lock\<close>

definition lock_new :: lock_state where
  "lock_new = Unlocked"

definition lock_new_locked :: lock_state where
  "lock_new_locked = Locked tl_new"

definition lock_is_locked :: "lock_state \<Rightarrow> bool" where
  "lock_is_locked k \<longleftrightarrow> (case k of Unlocked \<Rightarrow> False | Locked _ \<Rightarrow> True)"

definition lock_acquire :: "lock_state \<Rightarrow> scheduler \<Rightarrow> (panic + lock_state \<times> scheduler) option" where
  "lock_acquire k s =
     (case k of
        Unlocked \<Rightarrow> Some (Inr (Locked tl_new, s))
      | Locked w \<Rightarrow> obnd (tl_put_current w s LockBlocked) (\<lambda>(w, s, _). Some (Inr (Locked w, s))))"

definition lock_try_acquire :: "lock_state \<Rightarrow> lock_state \<times> bool" where
  "lock_try_acquire k =
     (case k of Unlocked \<Rightarrow> (Locked tl_new, True) | Locked w \<Rightarrow> (Locked w, False))"

definition lock_release :: "lock_state \<Rightarrow> scheduler \<Rightarrow> panic + lock_state \<times> scheduler" where
  "lock_release k s =
     (case k of
        Unlocked \<Rightarrow> Inr (Unlocked, s)
      | Locked w \<Rightarrow>
          bnd (tl_pop w s) (\<lambda>(w, s, r).
            Inr (case r of None \<Rightarrow> (Unlocked, s) | Some _ \<Rightarrow> (Locked w, s))))"

subsection \<open>Event\<close>

definition event_new :: lock_state where
  "event_new = Locked tl_new"

definition event_new_set :: lock_state where
  "event_new_set = Unlocked"

definition event_is_set :: "lock_state \<Rightarrow> bool" where
  "event_is_set e \<longleftrightarrow> (case e of Unlocked \<Rightarrow> True | Locked _ \<Rightarrow> False)"

definition event_wait :: "lock_state \<Rightarrow> scheduler \<Rightarrow> (panic + lock_state \<times> scheduler) option" where
  "event_wait e s =
     (case e of
        Unlocked \<Rightarrow> Some (Inr (Unlocked, s))
      | Locked w \<Rightarrow> obnd (tl_put_current w s LockBlocked) (\<lambda>(w, s, _). Some (Inr (Locked w, s))))"

definition event_clear :: "lock_state \<Rightarrow> lock_state \<times> bool" where
  "event_clear e = (case e of Unlocked \<Rightarrow> (Locked tl_new, True) | Locked w \<Rightarrow> (Locked w, False))"

definition event_set :: "lock_state \<Rightarrow> scheduler \<Rightarrow> (panic + lock_state \<times> scheduler) option" where
  "event_set e s =
     (case e of
        Unlocked \<Rightarrow> Some (Inr (Unlocked, s))
      | Locked w \<Rightarrow> obnd (pop_all tl_pop w s) (\<lambda>(_, s). Some (Inr (Unlocked, s))))"

subsection \<open>Wait queue\<close>

definition wq_new :: threadlist where
  "wq_new = tl_new"

definition wq_wait_cs :: "threadlist \<Rightarrow> scheduler \<Rightarrow> (panic + threadlist \<times> scheduler) option" where
  "wq_wait_cs w s = obnd (tl_put_current w s WaitQueueBlocked) (\<lambda>(w, s, _). Some (Inr (w, s)))"

definition wq_notify_all :: "threadlist \<Rightarrow> scheduler \<Rightarrow> (panic + threadlist \<times> scheduler) option" where
  "wq_notify_all w s = pop_all tl_pop w s"

definition wq_notify_one :: "threadlist \<Rightarrow> scheduler \<Rightarrow> panic + threadlist \<times> scheduler" where
  "wq_notify_one w s = bnd (tl_pop w s) (\<lambda>(w, s, _). Inr (w, s))"

subsection \<open>Handing the lock over\<close>

text \<open>\<open>lock_rep s k W\<close>: \<open>None\<close> for a free lock, the waiters in order for a taken one.\<close>

definition lock_rep :: "scheduler \<Rightarrow> lock_state \<Rightarrow> nat list option \<Rightarrow> bool" where
  "lock_rep s k W \<longleftrightarrow>
     (case (k, W) of
        (Unlocked, None) \<Rightarrow> True
      | (Locked w, Some xs) \<Rightarrow> tl_rep s w xs
      | _ \<Rightarrow> False)"

lemma lock_rep_simps [simp]:
  "lock_rep s Unlocked W \<longleftrightarrow> W = None"
  "lock_rep s (Locked w) W \<longleftrightarrow> (\<exists>xs. W = Some xs \<and> tl_rep s w xs)"
  by (auto simp: lock_rep_def split: option.splits)

text \<open>
  a lock is handed over without a gap.  \<open>release\<close> of a lock with waiters leaves it locked
  with the remaining waiters and makes exactly the first waiter ready; only a release without
  waiters unlocks, and it wakes nobody; \<open>try_acquire\<close> succeeds exactly on an unlocked lock,
  leaves the lock taken and the waiters as they were.
\<close>

theorem lock_hand_over:
  assumes ok: "sched_ok s" and rep: "lock_rep s k W"
  shows "(\<exists>k' s'. lock_release k s = Inr (k', s') \<and> sched_ok s' \<and>
      (case W of
         Some (x # xs) \<Rightarrow> lock_rep s' k' (Some xs) \<and> woken s s' {x} \<and> t_state (th_of s' x) = Running
       | _ \<Rightarrow> k' = Unlocked \<and> s' = s)) \<and>
    snd (lock_try_acquire k) = (W = None) \<and> lock_is_locked (fst (lock_try_acquire k)) \<and>
    lock_rep s (fst (lock_try_acquire k)) (Some (case W of None \<Rightarrow> [] | Some xs \<Rightarrow> xs))"
proof (cases k)
  case Unlocked
  then show ?thesis
    using ok rep by (simp add: lock_release_def lock_try_acquire_def lock_is_locked_def tl_rep_new)
next
  case (Locked w)
  then obtain xs where W: "W = Some xs" "tl_rep s w xs"
    using rep by auto
  have tr: "snd (lock_try_acquire k) = (W = None) \<and> lock_is_locked (fst (lock_try_acquire k)) \<and>
    lock_rep s (fst (lock_try_acquire k)) (Some (case W of None \<Rightarrow> [] | Some xs \<Rightarrow> xs))"
    using Locked W by (simp add: lock_try_acquire_def lock_is_locked_def)
  show ?thesis
  proof (cases xs)
    case Nil
    then show ?thesis
      using tr W Locked ok wl.pop_empty[of s w] by (simp add: lock_release_def)
  next
    case (Cons x ys)
    obtain l' s' where "tl_pop w s = Inr (l', s', Some (x, t_state (th_of s x)))" "sched_ok s'"
      "tl_rep s' l' ys" "woken s s' {x}"
      using wl.pop_cons[OF ok W(2)[unfolded Cons]] by blast
    moreover have "t_state (th_of s' x) = Running"
      using wokenD(4)[OF calculation(4), of x] tl_rep_bound[OF ok W(2), of x] Cons by simp
    ultimately show ?thesis
      using tr W Locked Cons by (simp add: lock_release_def)
  qed
qed

text \<open>A thread waiting on a lock, alone in the system.\<close>

lemma one_waiter:
  fixes st :: thread_state and f :: "16 word"
  assumes "st \<noteq> Running" "st \<noteq> Invalid"
  defines "s \<equiv> scheduler_new\<lparr>threads := (threads scheduler_new)[0 := thread_default\<lparr>t_state := st, t_flags := f\<rparr>]\<rparr>"
  shows "sched_ok s \<and> tl_rep s \<lparr>tl_head = Some 0\<rparr> [0]"
  using sched_inv_one_blocked[OF assms(1), of f] assms(2) unfolding s_def
  by (auto simp: sched_ok_def tl_rep_def scheduler_new_def thread_count_def)

text \<open>Thread 0 running and thread 1 waiting in a given state.\<close>

lemma boot_with_waiter:
  assumes "st \<noteq> Running" "st \<noteq> Invalid"
  shows "\<exists>s. sched_ok s \<and> current_thread s = Some 0 \<and> \<not> pending s \<and> t_prio (th_of s 0) = 3 \<and>
    t_state (th_of s 1) = st \<and> t_prio (th_of s 1) = 0 \<and> tl_rep s \<lparr>tl_head = Some 1\<rparr> [1]"
proof -
  obtain s Q where s: "current_thread s = Some 0" "\<not> pending s" "sched_inv s Q" "t_prio (th_of s 0) = 3"
    "free_slot s = Some 1"
    using reachable_boot[of 3] by (auto simp: sched_prio_levels_def thread_count_def)
  let ?th = "thread_default\<lparr>t_state := st, t_tid := 1\<rparr>"
  let ?s = "s\<lparr>threads := (threads s)[1 := ?th], thread_blocklist := replicate thread_count None\<rparr>"
  have t1: "(1::nat) < thread_count" "t_state (th_of s 1) = Invalid" "length (threads s) = thread_count"
    using free_slotD[OF s(5)] sched_invD(2)[OF s(3)] by auto
  have "t_prio ?th < sched_prio_levels"
    by (simp add: thread_default_def sched_prio_levels_def thread_count_def)
  then have "sched_inv ?s Q"
    by (intro sched_inv_update[where s' = ?s and th = ?th and bl = "replicate thread_count None", OF s(3) t1(1)])
      (use assms s(1,2) t1 sched_invD[OF s(3)] in auto)
  then show ?thesis
    using s t1 assms by (intro exI[of _ ?s]) (auto simp: sched_ok_def tl_rep_def thread_default_def)
qed

lemma lock_hand_over_witness:
  "\<exists>k' s'. lock_release (Locked \<lparr>tl_head = Some 0\<rparr>)
     (scheduler_new\<lparr>threads := (threads scheduler_new)[0 := thread_default\<lparr>t_state := LockBlocked, t_flags := 0\<rparr>]\<rparr>) =
     Inr (k', s') \<and> lock_is_locked k' \<and> t_state (th_of s' 0) = Running"
proof -
  let ?s = "scheduler_new\<lparr>threads := (threads scheduler_new)[0 := thread_default\<lparr>t_state := LockBlocked, t_flags := 0\<rparr>]\<rparr>"
  have r: "lock_rep ?s (Locked \<lparr>tl_head = Some 0\<rparr>) (Some [0])" "sched_ok ?s"
    using one_waiter[of LockBlocked 0] by auto
  have "\<And>k' s'. lock_rep s' k' (Some []) \<Longrightarrow> lock_is_locked k'"
    by (auto simp: lock_rep_def lock_is_locked_def split: lock_state.splits)
  then show ?thesis
    using lock_hand_over[OF r(2,1)] by auto
qed

lemma lock_acquire_ok:
  assumes ok: "sched_ok s" and c: "current_thread s = Some c" "\<not> pending s" and rep: "lock_rep s k W"
    and new: "\<And>xs. W = Some xs \<Longrightarrow> c \<notin> set xs"
  shows "\<exists>k' s'. lock_acquire k s = Some (Inr (k', s')) \<and> sched_ok s' \<and>
    (case W of
       None \<Rightarrow> s' = s \<and> lock_rep s' k' (Some [])
     | Some xs \<Rightarrow> pending s' \<and> t_state (th_of s' c) = LockBlocked \<and>
         lock_rep s' k' (Some (in_front s (t_prio (th_of s c)) xs @ c # behind s (t_prio (th_of s c)) xs)))"
proof (cases k)
  case Unlocked
  then show ?thesis
    using ok rep by (simp add: lock_acquire_def tl_rep_new)
next
  case (Locked w)
  then obtain ys where W: "W = Some ys" "tl_rep s w ys"
    using rep by auto
  have "c < length (threads s)"
    using sched_ok_current(1)[OF ok c] sched_ok_len[OF ok] by simp
  then show ?thesis
    using tl_put_current_ok[OF ok c W(2), of LockBlocked] W Locked new[OF W(1)]
    by (auto simp: lock_acquire_def)
qed

text \<open>
  setting an event wakes all its waiters and nobody else, ends, and leaves the event set, so
  that a later \<open>wait\<close> returns at once without a switch; clearing it makes later waiters block
  again.
\<close>

theorem event_set_wakes_all:
  assumes ok: "sched_ok s" and rep: "tl_rep s w xs"
  shows "\<exists>s'. event_set (Locked w) s = Some (Inr (Unlocked, s')) \<and> sched_ok s' \<and> woken s s' (set xs) \<and>
    (\<forall>x\<in>set xs. t_state (th_of s' x) = Running) \<and>
    event_is_set Unlocked \<and> event_wait Unlocked s' = Some (Inr (Unlocked, s')) \<and>
    event_clear Unlocked = (event_new, True)"
proof -
  obtain w' s' where "pop_all tl_pop w s = Some (Inr (w', s'))" "sched_ok s'" "woken s s' (set xs)"
    using wl.pop_all_spec[OF ok rep] by blast
  moreover have "\<forall>x\<in>set xs. t_state (th_of s' x) = Running"
    using wokenD(4)[OF calculation(3)] tl_rep_bound[OF ok rep] by simp
  ultimately show ?thesis
    by (simp add: event_set_def event_is_set_def event_wait_def event_clear_def event_new_def)
qed

lemma event_set_wakes_all_witness:
  "\<exists>s'. event_set (Locked \<lparr>tl_head = Some 0\<rparr>)
     (scheduler_new\<lparr>threads := (threads scheduler_new)[0 := thread_default\<lparr>t_state := LockBlocked, t_flags := 0\<rparr>]\<rparr>) =
     Some (Inr (Unlocked, s')) \<and> t_state (th_of s' 0) = Running"
  using event_set_wakes_all[of _ "\<lparr>tl_head = Some 0\<rparr>" "[0]"] one_waiter[of LockBlocked 0] by auto

text \<open>Notifying a wait queue: one waiter, the first, or all of them.\<close>

lemma wq_notify_one_ok:
  assumes "sched_ok s" "tl_rep s w xs"
  shows "\<exists>w' s'. wq_notify_one w s = Inr (w', s') \<and> sched_ok s' \<and> tl_rep s' w' (tl xs) \<and>
    woken s s' (set (take 1 xs))"
  using wl.pop_total[OF assms] by (auto simp: wq_notify_one_def)

lemma wq_notify_all_ok:
  assumes "sched_ok s" "tl_rep s w xs"
  shows "\<exists>w' s'. wq_notify_all w s = Some (Inr (w', s')) \<and> sched_ok s' \<and> tl_rep s' w' [] \<and>
    woken s s' (set xs)"
  using wl.pop_all_spec[OF assms] by (simp add: wq_notify_all_def)

end
