(* ===== verification/Mutex.thy ===== *)
theory Mutex
  imports Locks
begin

section \<open>The mutex with priority inheritance (\<open>ariel-os-threads/src/sync/mutex.rs\<close>)\<close>

text \<open>
  \<open>LockState\<close> of \<open>mutex.rs\<close> carries the owner, its priority before it inherited any, and the
  waiters.  The protected data is not modelled: it is accessed only through a guard, and the
  theorem on mutual exclusion says that there is never more than one.
\<close>

datatype mutex_state =
    MutexUnlocked
  | MutexLocked nat nat threadlist   \<comment> \<open>\<open>owner_id\<close>, \<open>owner_prio\<close>, \<open>waiters\<close>\<close>

definition mutex_new :: mutex_state where
  "mutex_new = MutexUnlocked"

definition mutex_is_locked :: "mutex_state \<Rightarrow> bool" where
  "mutex_is_locked m \<longleftrightarrow> (case m of MutexUnlocked \<Rightarrow> False | MutexLocked _ _ _ \<Rightarrow> True)"

definition locked_with_current :: "scheduler \<Rightarrow> panic + mutex_state" where
  "locked_with_current s =
     bnd (current_thread_data s) (\<lambda>(_, th). Inr (MutexLocked (t_tid th) (t_prio th) tl_new))"

definition mutex_lock :: "mutex_state \<Rightarrow> scheduler \<Rightarrow> (panic + mutex_state \<times> scheduler) option" where
  "mutex_lock m s =
     (case m of
        MutexUnlocked \<Rightarrow> Some (bnd (locked_with_current s) (\<lambda>m. Inr (m, s)))
      | MutexLocked owner_id owner_prio w \<Rightarrow>
          obnd (tl_put_current w s LockBlocked) (\<lambda>(w, s, inherit_priority).
          Some (
            case inherit_priority of
              Some waiter_prio \<Rightarrow>
                if owner_prio < waiter_prio then
                  bnd (set_priority s owner_id waiter_prio) (\<lambda>s. Inr (MutexLocked owner_id owner_prio w, s))
                else Inr (MutexLocked owner_id owner_prio w, s)
            | None \<Rightarrow> Inr (MutexLocked owner_id owner_prio w, s))))"

definition mutex_try_lock :: "mutex_state \<Rightarrow> scheduler \<Rightarrow> panic + mutex_state \<times> bool" where
  "mutex_try_lock m s =
     (case m of
        MutexUnlocked \<Rightarrow> bnd (locked_with_current s) (\<lambda>m. Inr (m, True))
      | MutexLocked _ _ _ \<Rightarrow> Inr (m, False))"

text \<open>\<open>release\<close>, which dropping the guard calls.\<close>

definition mutex_release :: "mutex_state \<Rightarrow> scheduler \<Rightarrow> panic + mutex_state \<times> scheduler" where
  "mutex_release m s =
     (case m of
        MutexUnlocked \<Rightarrow> Inr (m, s)
      | MutexLocked owner_id owner_prio w \<Rightarrow>
          bnd (set_priority s owner_id owner_prio) (\<lambda>s.
          bnd (tl_pop w s) (\<lambda>(w, s, r).
            case r of
              Some (tid, _) \<Rightarrow>
                bnd (get_unchecked s tid) (\<lambda>th. Inr (MutexLocked tid (t_prio th) w, s))
            | None \<Rightarrow> Inr (MutexUnlocked, s))))"

subsection \<open>The invariant of a mutex\<close>

text \<open>
  \<open>mutex_inv m s xs\<close>: the threads \<open>xs\<close> wait, highest priority first, blocked; the owner is
  another, live thread and runs with the larger of its own priority and that of the first waiter.
\<close>

definition inherited :: "scheduler \<Rightarrow> nat \<Rightarrow> nat list \<Rightarrow> nat" where
  "inherited s p xs = (case xs of [] \<Rightarrow> p | x # _ \<Rightarrow> max p (t_prio (th_of s x)))"

definition mutex_inv :: "mutex_state \<Rightarrow> scheduler \<Rightarrow> nat list \<Rightarrow> bool" where
  "mutex_inv m s xs \<longleftrightarrow>
     (case m of
        MutexUnlocked \<Rightarrow> xs = []
      | MutexLocked owner_id owner_prio w \<Rightarrow>
          tl_rep s w xs \<and> prio_sorted s xs \<and> (\<forall>x\<in>set xs. t_state (th_of s x) = LockBlocked) \<and>
          owner_id < thread_count \<and> owner_id \<notin> set xs \<and> t_state (th_of s owner_id) \<noteq> Invalid \<and>
          owner_prio < sched_prio_levels \<and> t_prio (th_of s owner_id) = inherited s owner_prio xs)"

lemma mutex_inv_simps [simp]:
  "mutex_inv MutexUnlocked s xs \<longleftrightarrow> xs = []"
  "mutex_inv (MutexLocked owner_id owner_prio w) s xs \<longleftrightarrow>
     tl_rep s w xs \<and> prio_sorted s xs \<and> (\<forall>x\<in>set xs. t_state (th_of s x) = LockBlocked) \<and>
     owner_id < thread_count \<and> owner_id \<notin> set xs \<and> t_state (th_of s owner_id) \<noteq> Invalid \<and>
     owner_prio < sched_prio_levels \<and> t_prio (th_of s owner_id) = inherited s owner_prio xs"
  by (simp_all add: mutex_inv_def)

lemma inherited_ge: "prio_sorted s xs \<Longrightarrow> p \<le> inherited s p xs \<and> (\<forall>x\<in>set xs. t_prio (th_of s x) \<le> inherited s p xs)"
  by (cases xs) (auto simp: inherited_def prio_sorted_def)

lemma sched_ok_prio: "sched_ok s \<Longrightarrow> t < thread_count \<Longrightarrow> t_prio (th_of s t) < sched_prio_levels"
  using sched_invD(5) by (auto simp: sched_ok_def)

lemma set_prio_ok:
  assumes "sched_ok s" "p < sched_prio_levels" "t < thread_count" "t_state (th_of s t) \<noteq> Invalid"
  shows "\<exists>s'. set_priority s t p = Inr s' \<and> sched_ok s' \<and> current_thread s' = current_thread s \<and>
    thread_blocklist s' = thread_blocklist s \<and> (pending s \<longrightarrow> pending s') \<and>
    threads s' = (threads s)[t := (th_of s t)\<lparr>t_prio := p\<rparr>]"
proof -
  obtain Q where inv: "sched_inv s Q"
    using assms(1) by (auto simp: sched_ok_def)
  show ?thesis
    using set_priority_ok[OF inv assms(2), of t] assms(3,4) by (auto simp: sched_ok_def)
qed

lemma mutex_lock_free:
  assumes ok: "sched_ok s" and c: "current_thread s = Some c" "\<not> pending s"
  shows "mutex_lock MutexUnlocked s = Some (Inr (MutexLocked c (t_prio (th_of s c)) tl_new, s)) \<and>
    mutex_inv (MutexLocked c (t_prio (th_of s c)) tl_new) s []"
  using sched_ok_current[OF ok c] sched_ok_prio[OF ok]
  by (simp add: mutex_lock_def locked_with_current_def tl_rep_new prio_sorted_def inherited_def)

text \<open>A new waiter raises the inherited priority to its own at least, and exactly when \<open>lock\<close> raises that of the owner.\<close>

lemma inherited_insert:
  assumes "t_prio (th_of s c) = q"
  shows "inherited s p (in_front s q xs @ c # behind s q xs) = max (inherited s p xs) q"
  using assms by (cases xs) (auto simp: inherited_def in_front_def)

lemma inherited_raise:
  "(if in_front s q xs = [] \<and> p < q then q else inherited s p xs) = max (inherited s p xs) q"
  by (cases xs) (auto simp: inherited_def in_front_def)

lemma inherited_cong: "\<forall>x\<in>set xs. t_prio (th_of s' x) = t_prio (th_of s x) \<Longrightarrow> inherited s' p xs = inherited s p xs"
  by (cases xs) (auto simp: inherited_def)

lemma mutex_lock_put:
  assumes put: "tl_put_current w s LockBlocked = Some (Inr (w', s1, inherit))"
    and ok: "sched_ok s1" and o: "owner < thread_count" "t_state (th_of s1 owner) \<noteq> Invalid"
    and q: "\<And>q. inherit = Some q \<Longrightarrow> q < sched_prio_levels"
  obtains s2 where "mutex_lock (MutexLocked owner p w) s = Some (Inr (MutexLocked owner p w', s2))" "sched_ok s2"
    "pending s1 \<Longrightarrow> pending s2" "current_thread s2 = current_thread s1" "thread_blocklist s2 = thread_blocklist s1"
    "threads s2 = (case inherit of None \<Rightarrow> threads s1
       | Some q \<Rightarrow> if p < q then (threads s1)[owner := (th_of s1 owner)\<lparr>t_prio := q\<rparr>] else threads s1)"
proof (cases "\<exists>q. inherit = Some q \<and> p < q")
  case True
  then obtain q where "inherit = Some q" "p < q" by blast
  with set_prio_ok[OF ok assms(5) o] that put show ?thesis by (fastforce simp: mutex_lock_def)
next
  case False
  then show ?thesis using that[of s1] put ok by (auto simp: mutex_lock_def split: option.splits)
qed

lemma mutex_lock_taken:
  assumes ok: "sched_ok s" and c: "current_thread s = Some c" "\<not> pending s"
    and inv: "mutex_inv (MutexLocked owner p w) s xs" and new: "c \<notin> set xs" "c \<noteq> owner"
  defines "ys \<equiv> in_front s (t_prio (th_of s c)) xs @ c # behind s (t_prio (th_of s c)) xs"
  shows "\<exists>w' s'. mutex_lock (MutexLocked owner p w) s = Some (Inr (MutexLocked owner p w', s')) \<and>
    sched_ok s' \<and> pending s' \<and> current_thread s' = Some c \<and> mutex_inv (MutexLocked owner p w') s' ys \<and>
    t_prio (th_of s' owner) = max (t_prio (th_of s owner)) (t_prio (th_of s c)) \<and>
    t_state (th_of s' c) = LockBlocked \<and>
    (\<forall>t. t \<noteq> c \<longrightarrow> t_state (th_of s' t) = t_state (th_of s t)) \<and>
    (\<forall>t. t \<noteq> owner \<longrightarrow> t_prio (th_of s' t) = t_prio (th_of s t)) \<and>
    (\<forall>y. y \<noteq> c \<and> y \<notin> set xs \<longrightarrow> thread_blocklist s' ! y = thread_blocklist s ! y)"
proof -
  let ?p = "t_prio (th_of s c)"
  let ?as = "in_front s ?p xs"
  have m: "tl_rep s w xs" "prio_sorted s xs" "\<forall>x\<in>set xs. t_state (th_of s x) = LockBlocked"
    "owner < thread_count" "owner \<notin> set xs" "t_state (th_of s owner) \<noteq> Invalid" "p < sched_prio_levels"
    "t_prio (th_of s owner) = inherited s p xs"
    using inv by auto
  note l = sched_ok_len[OF ok] and cc = sched_ok_current[OF ok c]
  obtain w' s1 where s1: "tl_put_current w s LockBlocked =
      Some (Inr (w', s1, if ?as = [] then Some ?p else None))"
    "sched_ok s1" "tl_rep s1 w' ys" "pending s1" "current_thread s1 = Some c"
    "threads s1 = (threads s)[c := (th_of s c)\<lparr>t_state := LockBlocked\<rparr>]"
    "\<forall>y. y \<noteq> c \<and> y \<notin> set xs \<longrightarrow> thread_blocklist s1 ! y = thread_blocklist s ! y"
    using tl_put_current_ok[OF ok c m(1), of LockBlocked] new(1) unfolding ys_def by auto
  have th1: "t_prio (th_of s1 t) = t_prio (th_of s t)"
    "t_state (th_of s1 t) = (if t = c then LockBlocked else t_state (th_of s t))" for t
    using s1(6) cc(1) l by (cases "t = c"; simp)+
  define raise where "raise = (?as = [] \<and> p < ?p)"
  obtain s2 where s2: "mutex_lock (MutexLocked owner p w) s = Some (Inr (MutexLocked owner p w', s2))"
    "sched_ok s2" "pending s2" "current_thread s2 = Some c" "thread_blocklist s2 = thread_blocklist s1"
    "threads s2 = (if raise then (threads s1)[owner := (th_of s1 owner)\<lparr>t_prio := ?p\<rparr>] else threads s1)"
    by (rule mutex_lock_put[OF s1(1,2) m(4), where p = p])
      (use th1 m(6) new(2) s1(4,5) sched_ok_prio[OF ok cc(1)] in \<open>auto simp: raise_def split: if_splits\<close>)
  have th2: "t_state (th_of s2 t) = (if t = c then LockBlocked else t_state (th_of s t))"
    "t_prio (th_of s2 t) = (if t = owner \<and> raise then ?p else t_prio (th_of s t))" for t
    using s2(6) th1 m(4) sched_ok_len(1)[OF s1(2)] by (cases "t = owner"; auto)+
  have own: "t_prio (th_of s2 owner) = max (inherited s p xs) ?p"
    using inherited_raise[of s ?p xs p, symmetric] th2(2)[of owner] m(8) by (simp add: raise_def)
  have set_ys: "set ys = insert c (set xs)"
    using set_in_front_behind[of s ?p xs] by (auto simp: ys_def)
  then have prio_ys: "\<forall>x\<in>set ys. t_prio (th_of s2 x) = t_prio (th_of s x)"
    using th2(2) m(5) new(2) by auto
  have "prio_sorted s2 ys"
    using prio_sorted_insert[OF m(2), of c] prio_sorted_cong[OF prio_ys] by (simp add: ys_def)
  moreover have "t_prio (th_of s2 owner) = inherited s2 p ys"
    using inherited_cong[OF prio_ys, of p] own inherited_insert[of s c ?p p xs] by (simp add: ys_def)
  moreover have "tl_rep s2 w' ys"
    using s1(3) s2(5) th1(2) th2(1) unfolding tl_rep_def by auto
  ultimately have "mutex_inv (MutexLocked owner p w') s2 ys"
    using m(3-7) th2(1) set_ys new(2) by auto
  then show ?thesis
    using s2 own m(8) th2 s1(7) by auto
qed

lemma mutex_release_taken:
  assumes ok: "sched_ok s" and inv: "mutex_inv (MutexLocked owner p w) s xs"
  shows "\<exists>m' s'. mutex_release (MutexLocked owner p w) s = Inr (m', s') \<and> sched_ok s' \<and>
    mutex_inv m' s' (tl xs) \<and> current_thread s' = current_thread s \<and> t_prio (th_of s' owner) = p \<and>
    (case xs of
       [] \<Rightarrow> m' = MutexUnlocked \<and> (\<forall>t. t_state (th_of s' t) = t_state (th_of s t))
     | x # ys \<Rightarrow> (\<exists>w'. m' = MutexLocked x (t_prio (th_of s x)) w') \<and> t_state (th_of s' x) = Running \<and>
         (\<forall>t<thread_count. t \<noteq> x \<longrightarrow> t_state (th_of s' t) = t_state (th_of s t))) \<and>
    (\<forall>t<thread_count. t \<noteq> owner \<longrightarrow> t_prio (th_of s' t) = t_prio (th_of s t)) \<and>
    (\<forall>y. xs = [] \<or> y \<noteq> hd xs \<longrightarrow> thread_blocklist s' ! y = thread_blocklist s ! y)"
proof -
  have m: "tl_rep s w xs" "prio_sorted s xs" "\<forall>x\<in>set xs. t_state (th_of s x) = LockBlocked"
    "owner < thread_count" "owner \<notin> set xs" "t_state (th_of s owner) \<noteq> Invalid" "p < sched_prio_levels"
    using inv by auto
  note l = sched_ok_len[OF ok]
  obtain s1 where s1: "set_priority s owner p = Inr s1" "sched_ok s1" "current_thread s1 = current_thread s"
    "thread_blocklist s1 = thread_blocklist s" "threads s1 = (threads s)[owner := (th_of s owner)\<lparr>t_prio := p\<rparr>]"
    using set_prio_ok[OF ok m(7,4,6)] by blast
  have th1: "t_state (th_of s1 t) = t_state (th_of s t)"
    "t_prio (th_of s1 t) = (if t = owner then p else t_prio (th_of s t))" for t
    using s1(5) m(4) l by (cases "t = owner"; simp)+
  have rep1: "tl_rep s1 w xs"
    using m(1) s1(4) th1(1) by (simp add: tl_rep_def)
  show ?thesis
  proof (cases xs)
    case Nil
    then show ?thesis
      using s1 th1 wl.pop_empty[of s1 w] rep1 by (auto simp: mutex_release_def)
  next
    case (Cons x ys)
    obtain w' s2 where s2: "tl_pop w s1 = Inr (w', s2, Some (x, t_state (th_of s1 x)))" "sched_ok s2"
      "tl_rep s2 w' ys" "woken s1 s2 {x}" "thread_blocklist s2 = (thread_blocklist s1)[x := None]"
      using tl_pop_ok[OF s1(2) rep1[unfolded Cons]] by blast
    have x: "x < thread_count" "x \<noteq> owner" "x \<notin> set ys" "owner \<notin> set ys"
      using tl_rep_bound[OF ok m(1), of x] m(1,5) Cons by (auto simp: tl_rep_def)
    have ys: "y \<in> set ys \<Longrightarrow> y < thread_count" for y
      using tl_rep_bound[OF s2(2,3)] by blast
    have th2: "t < thread_count \<Longrightarrow> t_state (th_of s2 t) = (if t = x then Running else t_state (th_of s t))"
      "t < thread_count \<Longrightarrow> t_prio (th_of s2 t) = (if t = owner then p else t_prio (th_of s t))" for t
      using wokenD(1,4)[OF s2(4), of t] th1[of t] by auto
    have rel: "mutex_release (MutexLocked owner p w) s = Inr (MutexLocked x (t_prio (th_of s x)) w', s2)"
      using s1(1) s2(1) x(1,2) th2(2)[OF x(1)] sched_ok_len[OF s2(2)]
      by (simp add: mutex_release_def get_unchecked_def)
    have prio_ys: "\<forall>y\<in>set (x # ys). t_prio (th_of s2 y) = t_prio (th_of s y)"
      using th2(2) ys x by auto
    have sorted: "prio_sorted s2 (x # ys)"
      using m(2) Cons prio_sorted_cong[OF prio_ys] by simp
    then have "t_prio (th_of s2 x) = inherited s2 (t_prio (th_of s x)) ys"
      using prio_ys by (cases ys) (auto simp: inherited_def prio_sorted_def)
    moreover have "prio_sorted s2 ys"
      using sorted by (simp add: prio_sorted_def)
    moreover have "\<forall>y\<in>set ys. t_state (th_of s2 y) = LockBlocked"
      using m(3) Cons ys th2(1) x(3) by auto
    ultimately have "mutex_inv (MutexLocked x (t_prio (th_of s x)) w') s2 ys"
      using s2(3) x th2(1)[OF x(1)] sched_ok_prio[OF ok x(1)] by simp
    moreover have "current_thread s2 = current_thread s"
      using wokenD(5)[OF s2(4) x(1)] s1(3) by simp
    moreover have "t_prio (th_of s2 owner) = p" "t_state (th_of s2 x) = Running"
      using th2 x(1) m(4) by simp_all
    moreover have "\<forall>t<thread_count. t \<noteq> x \<longrightarrow> t_state (th_of s2 t) = t_state (th_of s t)"
      "\<forall>t<thread_count. t \<noteq> owner \<longrightarrow> t_prio (th_of s2 t) = t_prio (th_of s t)"
      using th2 by simp_all
    moreover have "\<forall>y. y \<noteq> x \<longrightarrow> thread_blocklist s2 ! y = thread_blocklist s ! y"
      using s2(5) s1(4) by simp
    ultimately show ?thesis
      unfolding Cons using rel s2(2)
      by (intro exI[of _ "MutexLocked x (t_prio (th_of s x)) w'"] exI[of _ s2]) simp
  qed
qed

subsection \<open>Mutual exclusion\<close>

text \<open>
  A mutex used by any number of threads, with anything else going on in the system.  Beside the
  mutex and the scheduler the state has two ghost sets: the threads inside a call of \<open>lock\<close> and
  the threads that hold a guard.  A thread leaves the call, with the guard, when it is running
  again.  The rest of the system may do whatever the kernel does, except changing the state or the
  links of threads inside \<open>lock\<close>, or the priority of these and of holders (which the
  documentation of \<open>lock\<close> forbids), or ending a thread that holds the guard.
\<close>

record mutex_sys =
  ms_mutex :: mutex_state
  ms_sched :: scheduler
  ms_waiting :: "nat set"
  ms_holding :: "nat set"

definition running_thread :: "mutex_sys \<Rightarrow> nat \<Rightarrow> bool" where
  "running_thread x c \<longleftrightarrow> current_thread (ms_sched x) = Some c \<and> \<not> pending (ms_sched x)"

definition undisturbed :: "nat set \<Rightarrow> nat set \<Rightarrow> scheduler \<Rightarrow> scheduler \<Rightarrow> bool" where
  "undisturbed W H s s' \<longleftrightarrow>
     (\<forall>t\<in>W. t_state (th_of s' t) = t_state (th_of s t) \<and> thread_blocklist s' ! t = thread_blocklist s ! t) \<and>
     (\<forall>t\<in>W \<union> H. t_prio (th_of s' t) = t_prio (th_of s t)) \<and>
     (\<forall>t\<in>H. t_state (th_of s' t) \<noteq> Invalid)"

inductive mutex_step :: "mutex_sys \<Rightarrow> mutex_sys \<Rightarrow> bool" where
  lock_free: "running_thread x c \<Longrightarrow> c \<notin> ms_waiting x \<union> ms_holding x \<Longrightarrow> ms_mutex x = MutexUnlocked \<Longrightarrow>
    mutex_lock (ms_mutex x) (ms_sched x) = Some (Inr (m', s')) \<Longrightarrow>
    mutex_step x (x\<lparr>ms_mutex := m', ms_sched := s', ms_holding := insert c (ms_holding x)\<rparr>)"
| lock_wait: "running_thread x c \<Longrightarrow> c \<notin> ms_waiting x \<union> ms_holding x \<Longrightarrow> ms_mutex x \<noteq> MutexUnlocked \<Longrightarrow>
    mutex_lock (ms_mutex x) (ms_sched x) = Some (Inr (m', s')) \<Longrightarrow>
    mutex_step x (x\<lparr>ms_mutex := m', ms_sched := s', ms_waiting := insert c (ms_waiting x)\<rparr>)"
| lock_return: "running_thread x c \<Longrightarrow> c \<in> ms_waiting x \<Longrightarrow>
    mutex_step x (x\<lparr>ms_waiting := ms_waiting x - {c}, ms_holding := insert c (ms_holding x)\<rparr>)"
| try_lock: "running_thread x c \<Longrightarrow> c \<notin> ms_waiting x \<union> ms_holding x \<Longrightarrow>
    mutex_try_lock (ms_mutex x) (ms_sched x) = Inr (m', b) \<Longrightarrow>
    mutex_step x (x\<lparr>ms_mutex := m', ms_holding := if b then insert c (ms_holding x) else ms_holding x\<rparr>)"
| release: "running_thread x c \<Longrightarrow> c \<in> ms_holding x \<Longrightarrow>
    mutex_release (ms_mutex x) (ms_sched x) = Inr (m', s') \<Longrightarrow>
    mutex_step x (x\<lparr>ms_mutex := m', ms_sched := s', ms_holding := ms_holding x - {c}\<rparr>)"
| other: "kstep (ms_sched x) s' \<Longrightarrow> undisturbed (ms_waiting x) (ms_holding x) (ms_sched x) s' \<Longrightarrow>
    mutex_step x (x\<lparr>ms_sched := s'\<rparr>)"

definition mutex_init :: "scheduler \<Rightarrow> mutex_sys" where
  "mutex_init s = \<lparr>ms_mutex = mutex_new, ms_sched = s, ms_waiting = {}, ms_holding = {}\<rparr>"

text \<open>With \<open>xs\<close> the threads that wait in the list; the owner may still be about to return from \<open>lock\<close>.\<close>

definition mutex_sys_at :: "mutex_sys \<Rightarrow> nat list \<Rightarrow> bool" where
  "mutex_sys_at x xs \<longleftrightarrow> sched_ok (ms_sched x) \<and> mutex_inv (ms_mutex x) (ms_sched x) xs \<and>
     (case ms_mutex x of
        MutexUnlocked \<Rightarrow> ms_waiting x = {} \<and> ms_holding x = {}
      | MutexLocked owner_id _ _ \<Rightarrow>
          ms_holding x = {owner_id} \<and> ms_waiting x = set xs \<or>
          ms_holding x = {} \<and> ms_waiting x = insert owner_id (set xs) \<and>
          t_state (th_of (ms_sched x) owner_id) = Running)"

definition mutex_sys_inv :: "mutex_sys \<Rightarrow> bool" where
  "mutex_sys_inv x \<longleftrightarrow> (\<exists>xs. mutex_sys_at x xs)"

lemma mutex_sys_atD:
  assumes "mutex_sys_at x xs"
  shows "sched_ok (ms_sched x)" "mutex_inv (ms_mutex x) (ms_sched x) xs"
  using assms by (simp_all add: mutex_sys_at_def)

lemma running_thread_ok:
  assumes "mutex_sys_at x xs" "running_thread x c"
  shows "current_thread (ms_sched x) = Some c" "\<not> pending (ms_sched x)" "t_state (th_of (ms_sched x) c) = Running"
  using assms sched_ok_current(2)[of "ms_sched x" c] by (simp_all add: running_thread_def mutex_sys_at_def)

lemma mutex_inv_undisturbed:
  assumes ok: "sched_ok s" "sched_ok s'" and inv: "mutex_inv (MutexLocked owner p w) s xs"
    and u: "undisturbed W H s s'" "set xs \<subseteq> W" "owner \<in> W \<union> H"
  shows "mutex_inv (MutexLocked owner p w) s' xs"
proof -
  have prio: "\<forall>x\<in>set xs. t_prio (th_of s' x) = t_prio (th_of s x)" "t_prio (th_of s' owner) = t_prio (th_of s owner)"
    and st: "\<forall>x\<in>set xs. t_state (th_of s' x) = t_state (th_of s x)"
    and bl: "\<forall>x\<in>set xs. thread_blocklist s' ! x = thread_blocklist s ! x"
    and own: "t_state (th_of s' owner) \<noteq> Invalid"
    using u inv unfolding undisturbed_def by auto
  have "tl_rep s' w xs"
    by (rule tl_rep_frame[of s]) (use inv bl st sched_ok_len(2) ok in auto)
  moreover have "inherited s' p xs = inherited s p xs"
    using prio(1) by (cases xs) (auto simp: inherited_def)
  ultimately show ?thesis
    using inv prio st own prio_sorted_cong[OF prio(1)] by simp
qed

lemma lock_free_inv:
  assumes inv: "mutex_sys_at x xs" and c: "running_thread x c" and free: "ms_mutex x = MutexUnlocked"
  shows "mutex_lock (ms_mutex x) (ms_sched x) = Some (Inr (m', s')) \<Longrightarrow>
      mutex_sys_at (x\<lparr>ms_mutex := m', ms_sched := s', ms_holding := insert c (ms_holding x)\<rparr>) []"
    and "mutex_try_lock (ms_mutex x) (ms_sched x) = Inr (m', b) \<Longrightarrow>
      b \<and> mutex_sys_at (x\<lparr>ms_mutex := m', ms_holding := insert c (ms_holding x)\<rparr>) []"
  using mutex_lock_free[OF mutex_sys_atD(1)[OF inv] running_thread_ok(1,2)[OF inv c]] inv free
  by (auto simp: mutex_sys_at_def mutex_try_lock_def mutex_lock_def bnd_eq_Inr)

lemma lock_wait_inv:
  assumes inv: "mutex_sys_at x xs" and c: "running_thread x c" "c \<notin> ms_waiting x \<union> ms_holding x"
    and taken: "ms_mutex x \<noteq> MutexUnlocked" and lock: "mutex_lock (ms_mutex x) (ms_sched x) = Some (Inr (m', s'))"
  shows "mutex_sys_inv (x\<lparr>ms_mutex := m', ms_sched := s', ms_waiting := insert c (ms_waiting x)\<rparr>)"
proof -
  let ?s = "ms_sched x"
  obtain owner p w where m: "ms_mutex x = MutexLocked owner p w"
    using taken by (cases "ms_mutex x") auto
  have new: "c \<notin> set xs" "c \<noteq> owner"
    using inv c(2) m by (auto simp: mutex_sys_at_def)
  define ys where "ys = in_front ?s (t_prio (th_of ?s c)) xs @ c # behind ?s (t_prio (th_of ?s c)) xs"
  obtain w' where w': "m' = MutexLocked owner p w'" "sched_ok s'" "mutex_inv m' s' ys"
    "\<forall>t. t \<noteq> c \<longrightarrow> t_state (th_of s' t) = t_state (th_of ?s t)"
    using mutex_lock_taken[OF mutex_sys_atD(1)[OF inv] running_thread_ok(1,2)[OF inv c(1)]
        mutex_sys_atD(2)[OF inv, unfolded m] new] lock m unfolding ys_def by auto
  have "set ys = insert c (set xs)"
    using set_in_front_behind[of ?s "t_prio (th_of ?s c)" xs] by (auto simp: ys_def)
  then have "mutex_sys_at (x\<lparr>ms_mutex := m', ms_sched := s', ms_waiting := insert c (ms_waiting x)\<rparr>) ys"
    using w' inv m new by (auto simp: mutex_sys_at_def)
  then show ?thesis unfolding mutex_sys_inv_def ..
qed

lemma lock_return_inv:
  assumes inv: "mutex_sys_at x xs" and c: "running_thread x c" "c \<in> ms_waiting x"
  shows "mutex_sys_at (x\<lparr>ms_waiting := ms_waiting x - {c}, ms_holding := insert c (ms_holding x)\<rparr>) xs"
proof (cases "ms_mutex x")
  case MutexUnlocked
  then show ?thesis using inv c(2) by (simp add: mutex_sys_at_def)
next
  case (MutexLocked owner p w)
  then have "c \<notin> set xs"
    using inv running_thread_ok(3)[OF inv c(1)] by (auto simp: mutex_sys_at_def)
  then have "c = owner" "ms_holding x = {}" "ms_waiting x = insert owner (set xs)"
    using inv c(2) MutexLocked by (auto simp: mutex_sys_at_def)
  then show ?thesis using inv MutexLocked by (auto simp: mutex_sys_at_def)
qed

lemma release_inv:
  assumes inv: "mutex_sys_at x xs" and c: "c \<in> ms_holding x" and rel: "mutex_release (ms_mutex x) (ms_sched x) = Inr (m', s')"
  shows "mutex_sys_at (x\<lparr>ms_mutex := m', ms_sched := s', ms_holding := ms_holding x - {c}\<rparr>) (tl xs)"
proof -
  obtain owner p w where m: "ms_mutex x = MutexLocked owner p w"
    using inv c by (cases "ms_mutex x") (auto simp: mutex_sys_at_def)
  have h: "ms_holding x = {owner}" "c = owner" "ms_waiting x = set xs"
    using inv m c by (auto simp: mutex_sys_at_def)
  from mutex_release_taken[OF mutex_sys_atD(1)[OF inv] mutex_sys_atD(2)[OF inv, unfolded m]] rel m
  have "sched_ok s'" "mutex_inv m' s' (tl xs)"
    "case xs of [] \<Rightarrow> m' = MutexUnlocked | y # ys \<Rightarrow> (\<exists>w'. m' = MutexLocked y (t_prio (th_of (ms_sched x) y)) w') \<and>
       t_state (th_of s' y) = Running"
    by (auto split: list.splits)
  then show ?thesis using h by (cases xs) (auto simp: mutex_sys_at_def)
qed

lemma other_inv:
  assumes inv: "mutex_sys_at x xs" and s': "kstep (ms_sched x) s'" "undisturbed (ms_waiting x) (ms_holding x) (ms_sched x) s'"
  shows "mutex_sys_at (x\<lparr>ms_sched := s'\<rparr>) xs"
proof -
  have ok': "sched_ok s'"
    using kstep_inv[OF s'(1)] mutex_sys_atD(1)[OF inv] by (auto simp: sched_ok_def)
  show ?thesis
  proof (cases "ms_mutex x")
    case MutexUnlocked
    then show ?thesis using ok' inv by (auto simp: mutex_sys_at_def)
  next
    case (MutexLocked owner p w)
    have "mutex_inv (MutexLocked owner p w) s' xs"
      by (rule mutex_inv_undisturbed[OF mutex_sys_atD(1)[OF inv] ok' _ s'(2)])
        (use inv MutexLocked in \<open>auto simp: mutex_sys_at_def\<close>)
    moreover have "owner \<in> ms_waiting x \<Longrightarrow> t_state (th_of s' owner) = t_state (th_of (ms_sched x) owner)"
      using s'(2) by (auto simp: undisturbed_def)
    ultimately show ?thesis
      using ok' inv MutexLocked by (auto simp: mutex_sys_at_def)
  qed
qed

lemma mutex_step_inv:
  assumes "mutex_step x x'" "mutex_sys_inv x"
  shows "mutex_sys_inv x'"
proof -
  obtain xs where inv: "mutex_sys_at x xs"
    using assms(2) unfolding mutex_sys_inv_def ..
  from assms(1) show ?thesis
  proof (cases rule: mutex_step.cases)
    case (lock_return c)
    then show ?thesis using lock_return_inv[OF inv] unfolding mutex_sys_inv_def by blast
  next
    case (release c m' s')
    then show ?thesis using release_inv[OF inv] unfolding mutex_sys_inv_def by blast
  next
    case (other s')
    then show ?thesis using other_inv[OF inv] unfolding mutex_sys_inv_def by blast
  next
    case (try_lock c m' b)
    show ?thesis
    proof (cases "ms_mutex x")
      case MutexUnlocked
      then show ?thesis
        using lock_free_inv(2)[OF inv try_lock(2) _ try_lock(4)] try_lock(1) by (auto simp: mutex_sys_inv_def)
    next
      case (MutexLocked owner p w)
      then show ?thesis
        using try_lock(1,4) assms(2) by (cases x) (auto simp: mutex_try_lock_def)
    qed
  qed (use lock_free_inv(1)[OF inv] lock_wait_inv[OF inv] in \<open>auto simp: mutex_sys_inv_def\<close>)
qed

lemma mutex_steps_inv: "mutex_step\<^sup>*\<^sup>* x x' \<Longrightarrow> mutex_sys_inv x \<Longrightarrow> mutex_sys_inv x'"
  by (induction rule: rtranclp_induct) (auto dest: mutex_step_inv)

lemma mutex_init_inv: "sched_ok s \<Longrightarrow> mutex_sys_inv (mutex_init s)"
  by (simp add: mutex_sys_inv_def mutex_sys_at_def mutex_init_def mutex_new_def)



subsection \<open>Priority inheritance\<close>


text \<open>
  C16: releasing restores and hands over.  The owner gets back the priority it had when it took
  the mutex; without waiters the mutex is unlocked; otherwise the waiter of highest priority, the
  one that waited longest among equals, becomes the owner, is made ready, and no other thread
  changes state.
\<close>

theorem mutex_release_hands_over:
  assumes "sched_ok s" "mutex_inv (MutexLocked owner p w) s xs"
  shows "\<exists>m' s'. mutex_release (MutexLocked owner p w) s = Inr (m', s') \<and> mutex_inv m' s' (tl xs) \<and>
    t_prio (th_of s' owner) = p \<and>
    (case xs of
       [] \<Rightarrow> m' = MutexUnlocked \<and> (\<forall>t. t_state (th_of s' t) = t_state (th_of s t))
     | x # ys \<Rightarrow> (\<exists>w'. m' = MutexLocked x (t_prio (th_of s x)) w') \<and> t_state (th_of s' x) = Running \<and>
         (\<forall>y\<in>set ys. t_prio (th_of s y) \<le> t_prio (th_of s x)) \<and>
         (\<forall>t<thread_count. t \<noteq> x \<longrightarrow> t_state (th_of s' t) = t_state (th_of s t)))"
proof -
  have "xs = x # ys \<Longrightarrow> \<forall>y\<in>set ys. t_prio (th_of s y) \<le> t_prio (th_of s x)" for x ys
    using assms(2) by (simp add: prio_sorted_def)
  then show ?thesis
    using mutex_release_taken[OF assms] by (cases xs) (simp; blast)+
qed

text \<open>A mutex held by thread 1, with thread 0 running, ready to lock it.\<close>

lemma mutex_contended:
  "\<exists>s. sched_ok s \<and> current_thread s = Some 0 \<and> \<not> pending s \<and> t_prio (th_of s 0) = 3 \<and>
     mutex_inv (MutexLocked 1 2 tl_new) s []"
proof -
  obtain s Q where s: "current_thread s = Some 0" "\<not> pending s" "sched_inv s Q" "t_prio (th_of s 0) = 3"
    "free_slot s = Some 1"
    using reachable_boot[of 3] by (auto simp: sched_prio_levels_def thread_count_def)
  have lv: "2 < sched_prio_levels" "1 < thread_count" "length (threads s) = thread_count"
    using sched_invD(2)[OF s(3)] by (simp_all add: sched_prio_levels_def thread_count_def)
  let ?res = "setup_stack 0 ((th_of s 1)\<lparr>t_prio := 2, t_tid := 1, t_state := Parked\<rparr>) (mem s) 0 40 0 None"
  let ?s = "s\<lparr>threads := (threads s)[1 := fst ?res], mem := snd ?res\<rparr>"
  have inv: "sched_inv ?s Q"
    by (rule create_ok(2)[OF s(3,5) lv(1)])
  have "t_state (fst ?res) = Parked" "t_prio (fst ?res) = 2"
    using setup_stack_fields[of 0 _ "mem s" 0 40 0 None "fst ?res" "snd ?res"] by auto
  then have "sched_ok ?s \<and> current_thread ?s = Some 0 \<and> \<not> pending ?s \<and> t_prio (th_of ?s 0) = 3 \<and>
      mutex_inv (MutexLocked 1 2 tl_new) ?s []"
    using s lv inv by (auto simp: sched_ok_def tl_rep_new prio_sorted_def inherited_def)
  then show ?thesis by blast
qed


lemma mutex_release_hands_over_witness:
  "\<exists>s s'. mutex_release (MutexLocked 1 2 tl_new) s = Inr (MutexUnlocked, s') \<and> t_prio (th_of s' 1) = 2"
proof -
  obtain s where "sched_ok s" "mutex_inv (MutexLocked 1 2 tl_new) s []"
    using mutex_contended by blast
  from mutex_release_hands_over[OF this] show ?thesis
    by auto
qed

text \<open>
  the priority is inherited per mutex only.  A thread that holds two mutexes, the outer one
  with a waiter of higher priority, loses what it inherited when it drops the inner guard:
  \<open>release\<close> sets the priority recorded in the inner mutex, below that of the thread still blocked
  on the outer one.
\<close>

theorem nested_release_drops_inheritance:
  assumes "sched_ok s" "mutex_inv (MutexLocked owner p w) s xs" "x \<in> set xs"
    and "tl_rep s w_inner []" "p_inner < t_prio (th_of s x)"
  shows "t_prio (th_of s x) \<le> t_prio (th_of s owner) \<and>
    (\<exists>s'. mutex_release (MutexLocked owner p_inner w_inner) s = Inr (MutexUnlocked, s') \<and>
      t_state (th_of s' x) = LockBlocked \<and> t_prio (th_of s' owner) < t_prio (th_of s' x))"
proof -
  have m: "owner < thread_count" "owner \<notin> set xs" "t_state (th_of s owner) \<noteq> Invalid" "tl_rep s w xs"
    "t_state (th_of s x) = LockBlocked"
    using assms(2,3) by auto
  have x: "x < thread_count" "x \<noteq> owner"
    using tl_rep_bound[OF assms(1) m(4) assms(3)] assms(3) m(2) by auto
  have "p_inner < sched_prio_levels"
    using assms(5) sched_ok_prio[OF assms(1) x(1)] by simp
  from set_prio_ok[OF assms(1) this m(1,3)] obtain s' where
    s': "set_priority s owner p_inner = Inr s'" "threads s' = (threads s)[owner := (th_of s owner)\<lparr>t_prio := p_inner\<rparr>]"
    by blast
  have "mutex_release (MutexLocked owner p_inner w_inner) s = Inr (MutexUnlocked, s')"
    using s'(1) assms(4) by (simp add: mutex_release_def tl_pop_def tl_rep_def)
  moreover have "t_prio (th_of s x) \<le> t_prio (th_of s owner)"
    using inherited_ge[of s xs p] assms(2,3) by simp
  ultimately show ?thesis
    using s'(2) x m(1,5) assms(5) sched_ok_len(1)[OF assms(1)] by auto
qed

lemma nested_release_drops_inheritance_witness:
  "\<exists>s s'. mutex_release (MutexLocked 1 2 tl_new) s = Inr (MutexUnlocked, s') \<and> t_prio (th_of s 1) = 3 \<and>
     t_prio (th_of s' 1) < t_prio (th_of s' 0) \<and> t_state (th_of s' 0) = LockBlocked"
proof -
  obtain s where s: "sched_ok s" "current_thread s = Some 0" "\<not> pending s" "t_prio (th_of s 0) = 3"
    "mutex_inv (MutexLocked 1 2 tl_new) s []"
    using mutex_contended by blast
  obtain w' s' where s': "sched_ok s'" "mutex_inv (MutexLocked 1 2 w') s' [0]"
    "t_prio (th_of s' 1) = max (t_prio (th_of s 1)) (t_prio (th_of s 0))"
    "\<forall>t. t \<noteq> 1 \<longrightarrow> t_prio (th_of s' t) = t_prio (th_of s t)"
    using mutex_lock_taken[OF s(1-3,5)] by (auto simp: in_front_def behind_def)
  have "t_prio (th_of s' 0) = 3" "t_prio (th_of s' 1) = 3"
    using s'(3,4) s(4,5) by (auto simp: inherited_def)
  then show ?thesis
    using nested_release_drops_inheritance[OF s'(1,2), of 0 tl_new 2] tl_rep_new by auto
qed

end
