(* ===== verification/Channel.thy ===== *)
theory Channel
  imports Locks
begin

section \<open>The synchronous channel (\<open>ariel-os-threads/src/sync/channel.rs\<close>)\<close>

text \<open>
  A sender and a receiver meet: the first to come waits, with the address of its value or of its
  result in its thread state, and the second copies the value.  \<open>cells\<close> is the memory the
  pointers lead to: \<open>cells a\<close> is the initialised value of the channel's type at address
  \<open>a\<close>, \<open>None\<close> if there is none (reading it is undefined behaviour, \<^const>\<open>UninitRead\<close>).
\<close>

type_synonym 'v cells = "nat \<Rightarrow> 'v option"

datatype channel_state =
    Idle
  | SendersWaiting threadlist
  | ReceiversWaiting threadlist

definition channel_new :: channel_state where
  "channel_new = Idle"

definition read_cell :: "'v cells \<Rightarrow> nat \<Rightarrow> panic + 'v" where
  "read_cell m a = (case m a of None \<Rightarrow> Inl UninitRead | Some v \<Rightarrow> Inr v)"

text \<open>The common part of the branches that find a partner: pop it and reset the state.\<close>

definition channel_meet ::
    "(threadlist \<Rightarrow> channel_state) \<Rightarrow> threadlist \<Rightarrow> scheduler \<Rightarrow>
     (channel_state \<Rightarrow> scheduler \<Rightarrow> thread_state \<Rightarrow> panic + 'r) \<Rightarrow> panic + 'r" where
  "channel_meet K w s cont =
     bnd (tl_pop w s) (\<lambda>(w, s, r).
       case r of
         None \<Rightarrow> Inl UnreachableCode
       | Some (_, head_state) \<Rightarrow> cont (if tl_is_empty w then Idle else K w) s head_state)"

text \<open>\<open>send\<close>: \<open>self_addr\<close> is the address of the channel, \<open>something\<close> that of the value.\<close>

definition channel_send ::
    "nat \<Rightarrow> nat \<Rightarrow> channel_state \<Rightarrow> scheduler \<Rightarrow> 'v cells \<Rightarrow>
     (panic + channel_state \<times> scheduler \<times> 'v cells) option" where
  "channel_send self_addr something ch s m =
     (case ch of
        Idle \<Rightarrow>
          obnd (tl_put_current tl_new s (ChannelTxBlocked something)) (\<lambda>(w, s, _).
            Some (Inr (SendersWaiting w, s, m)))
      | ReceiversWaiting w \<Rightarrow>
          Some (channel_meet ReceiversWaiting w s (\<lambda>ch s head_state.
            case head_state of
              ChannelRxBlocked ptr \<Rightarrow>
                bnd (read_cell m something) (\<lambda>v. Inr (ch, s, m(ptr := Some v)))
            | _ \<Rightarrow> Inl UnreachableCode))
      | SendersWaiting w \<Rightarrow>
          obnd (tl_put_current w s (ChannelTxBlocked self_addr)) (\<lambda>(w, s, _).
            Some (Inr (SendersWaiting w, s, m))))"

definition channel_try_send ::
    "nat \<Rightarrow> channel_state \<Rightarrow> scheduler \<Rightarrow> 'v cells \<Rightarrow>
     panic + channel_state \<times> scheduler \<times> 'v cells \<times> bool" where
  "channel_try_send something ch s m =
     (case ch of
        ReceiversWaiting w \<Rightarrow>
          channel_meet ReceiversWaiting w s (\<lambda>ch s head_state.
            case head_state of
              ChannelRxBlocked ptr \<Rightarrow>
                bnd (read_cell m something) (\<lambda>v. Inr (ch, s, m(ptr := Some v), True))
            | _ \<Rightarrow> Inl UnreachableCode)
      | _ \<Rightarrow> Inr (ch, s, m, False))"

text \<open>
  \<open>recv\<close> up to the end of its critical section; \<open>ptr\<close> is the address of the uninitialised
  \<open>res\<close>.  When the thread runs again it returns \<open>res.assume_init()\<close>, \<open>channel_recv_result\<close>.
\<close>

definition channel_recv ::
    "nat \<Rightarrow> channel_state \<Rightarrow> scheduler \<Rightarrow> 'v cells \<Rightarrow>
     (panic + channel_state \<times> scheduler \<times> 'v cells) option" where
  "channel_recv ptr ch s m0 =
     (let m = m0(ptr := None) in
      case ch of
        Idle \<Rightarrow>
          obnd (tl_put_current tl_new s (ChannelRxBlocked ptr)) (\<lambda>(w, s, _).
            Some (Inr (ReceiversWaiting w, s, m)))
      | ReceiversWaiting w \<Rightarrow>
          obnd (tl_put_current w s (ChannelRxBlocked ptr)) (\<lambda>(w, s, _).
            Some (Inr (ReceiversWaiting w, s, m)))
      | SendersWaiting w \<Rightarrow>
          Some (channel_meet SendersWaiting w s (\<lambda>ch s head_state.
            case head_state of
              ChannelTxBlocked other_ptr \<Rightarrow>
                bnd (read_cell m other_ptr) (\<lambda>v. Inr (ch, s, m(ptr := Some v)))
            | _ \<Rightarrow> Inl UnreachableCode)))"

definition channel_recv_result :: "nat \<Rightarrow> 'v cells \<Rightarrow> panic + 'v" where
  "channel_recv_result ptr m = read_cell m ptr"

definition channel_try_recv ::
    "nat \<Rightarrow> channel_state \<Rightarrow> scheduler \<Rightarrow> 'v cells \<Rightarrow>
     panic + channel_state \<times> scheduler \<times> 'v cells \<times> 'v option" where
  "channel_try_recv ptr ch s m0 =
     (let m = m0(ptr := None) in
      case ch of
        SendersWaiting w \<Rightarrow>
          channel_meet SendersWaiting w s (\<lambda>ch s head_state.
            case head_state of
              ChannelTxBlocked other_ptr \<Rightarrow>
                bnd (read_cell m other_ptr) (\<lambda>v.
                bnd (channel_recv_result ptr (m(ptr := Some v))) (\<lambda>r.
                  Inr (ch, s, m(ptr := Some v), Some r)))
            | _ \<Rightarrow> Inl UnreachableCode)
      | _ \<Rightarrow> Inr (ch, s, m, None))"

subsection \<open>Who waits\<close>

text \<open>
  \<open>channel_rep s ch Tx Rx\<close>: the waiting senders and receivers, in order; never both, and a
  state with a list is left as soon as the list is empty.
\<close>

definition channel_rep :: "scheduler \<Rightarrow> channel_state \<Rightarrow> nat list \<Rightarrow> nat list \<Rightarrow> bool" where
  "channel_rep s ch Tx Rx \<longleftrightarrow>
     (case ch of
        Idle \<Rightarrow> Tx = [] \<and> Rx = []
      | SendersWaiting w \<Rightarrow> tl_rep s w Tx \<and> Tx \<noteq> [] \<and> Rx = [] \<and>
          (\<forall>t\<in>set Tx. \<exists>a. t_state (th_of s t) = ChannelTxBlocked a)
      | ReceiversWaiting w \<Rightarrow> tl_rep s w Rx \<and> Rx \<noteq> [] \<and> Tx = [] \<and>
          (\<forall>t\<in>set Rx. \<exists>a. t_state (th_of s t) = ChannelRxBlocked a))"

lemma channel_rep_simps [simp]:
  "channel_rep s Idle Tx Rx \<longleftrightarrow> Tx = [] \<and> Rx = []"
  "channel_rep s (SendersWaiting w) Tx Rx \<longleftrightarrow> tl_rep s w Tx \<and> Tx \<noteq> [] \<and> Rx = [] \<and>
     (\<forall>t\<in>set Tx. \<exists>a. t_state (th_of s t) = ChannelTxBlocked a)"
  "channel_rep s (ReceiversWaiting w) Tx Rx \<longleftrightarrow> tl_rep s w Rx \<and> Rx \<noteq> [] \<and> Tx = [] \<and>
     (\<forall>t\<in>set Rx. \<exists>a. t_state (th_of s t) = ChannelRxBlocked a)"
  by (simp_all add: channel_rep_def)

lemma channel_meet_eq:
  "tl_pop w s = Inr (w', s', Some (x, st)) \<Longrightarrow>
   channel_meet K w s cont = cont (if tl_is_empty w' then Idle else K w') s' st"
  by (simp add: channel_meet_def)

lemma channel_pop_ok:
  assumes ok: "sched_ok s" and rep: "tl_rep s w (x # xs)"
  shows "\<exists>w' s'. tl_pop w s = Inr (w', s', Some (x, t_state (th_of s x))) \<and> (tl_is_empty w' \<longleftrightarrow> xs = []) \<and>
    sched_ok s' \<and> woken s s' {x} \<and> tl_rep s' w' xs \<and>
    (\<forall>t\<in>set xs. t_state (th_of s' t) = t_state (th_of s t)) \<and> t_state (th_of s' x) = Running"
proof -
  obtain w' s' where s': "tl_pop w s = Inr (w', s', Some (x, t_state (th_of s x)))" "sched_ok s'"
    "tl_rep s' w' xs" "woken s s' {x}"
    using tl_pop_ok[OF ok rep] by blast
  have "x \<notin> set xs"
    using rep by (simp add: tl_rep_def)
  then have "\<forall>t\<in>set xs. t_state (th_of s' t) = t_state (th_of s t)" "t_state (th_of s' x) = Running"
    using wokenD(4)[OF s'(4)] tl_rep_bound[OF ok rep] by auto
  then show ?thesis
    using s' tl_rep_empty[OF s'(3)] by blast
qed

lemma channel_block_ok:
  assumes ok: "sched_ok s" and c: "current_thread s = Some c" "\<not> pending s" and rep: "tl_rep s w xs"
    and st: "st \<noteq> Running" "st \<noteq> Invalid" and new: "c \<notin> set xs"
  obtains w' s' ys inh where "tl_put_current w s st = Some (Inr (w', s', inh))" "sched_ok s'" "pending s'"
    "tl_rep s' w' ys" "set ys = insert c (set xs)" "ys \<noteq> []" "t_state (th_of s' c) = st"
    "\<And>t. t \<noteq> c \<Longrightarrow> t_state (th_of s' t) = t_state (th_of s t)"
proof -
  have c': "c < length (threads s)"
    using sched_ok_current(1)[OF ok c] sched_ok_len[OF ok] by simp
  let ?ys = "in_front s (t_prio (th_of s c)) xs @ c # behind s (t_prio (th_of s c)) xs"
  have ys: "set ?ys = insert c (set xs)" "?ys \<noteq> []"
    using set_in_front_behind[of s "t_prio (th_of s c)" xs] by auto
  obtain w' s' where s': "tl_put_current w s st =
      Some (Inr (w', s', if in_front s (t_prio (th_of s c)) xs = [] then Some (t_prio (th_of s c)) else None))"
    "sched_ok s'" "tl_rep s' w' ?ys" "pending s'" "threads s' = (threads s)[c := (th_of s c)\<lparr>t_state := st\<rparr>]"
    using tl_put_current_ok[OF ok c rep st new] by blast
  show ?thesis
    by (rule that[OF s'(1,2,4,3) ys]) (use s'(5) c' in auto)
qed

lemma one_waiter_in:
  assumes "st \<noteq> Running" "st \<noteq> Invalid"
  obtains s where "sched_ok s" "tl_rep s \<lparr>tl_head = Some 0\<rparr> [0]" "t_state (th_of s 0) = st"
proof -
  let ?s = "scheduler_new\<lparr>threads := (threads scheduler_new)[0 := thread_default\<lparr>t_state := st, t_flags := 0\<rparr>]\<rparr>"
  have "t_state (th_of ?s 0) = st"
    by (simp add: scheduler_new_def thread_count_def)
  then show ?thesis
    using that[of ?s] one_waiter[OF assms, of 0] by blast
qed

subsection \<open>The rendezvous\<close>

text \<open>
  C24: sending to a waiting receiver.  The value arrives in the result cell of the receiver that
  is first in the list and in no other cell, that receiver and nobody else becomes ready and will
  return the value, and the sender does not block; the other receivers keep waiting in order.
\<close>

theorem channel_send_delivers:
  assumes "sched_ok s" "channel_rep s ch [] (x # xs)" "t_state (th_of s x) = ChannelRxBlocked ptr"
    and "m something = Some v"
  shows "\<exists>ch' s'. channel_send self_addr something ch s m = Some (Inr (ch', s', m(ptr := Some v))) \<and>
    channel_try_send something ch s m = Inr (ch', s', m(ptr := Some v), True) \<and>
    channel_recv_result ptr (m(ptr := Some v)) = Inr v \<and>
    sched_ok s' \<and> channel_rep s' ch' [] xs \<and> woken s s' {x} \<and> t_state (th_of s' x) = Running"
proof -
  obtain w where w: "ch = ReceiversWaiting w" "tl_rep s w (x # xs)"
    "\<forall>t\<in>set xs. \<exists>a. t_state (th_of s t) = ChannelRxBlocked a"
    using assms(2) by (cases ch) auto
  obtain w' s' where s': "tl_pop w s = Inr (w', s', Some (x, ChannelRxBlocked ptr))" "tl_is_empty w' \<longleftrightarrow> xs = []"
    "sched_ok s'" "woken s s' {x}" "tl_rep s' w' xs"
    "\<forall>t\<in>set xs. t_state (th_of s' t) = t_state (th_of s t)" "t_state (th_of s' x) = Running"
    using channel_pop_ok[OF assms(1) w(2)] assms(3) by auto
  have "channel_rep s' (if xs = [] then Idle else ReceiversWaiting w') [] xs"
    using s' w(3) by auto
  then show ?thesis
    using s' w(1) assms(4)
    by (auto simp: channel_send_def channel_try_send_def channel_meet_eq[OF s'(1)] read_cell_def channel_recv_result_def)
qed

lemma channel_send_delivers_witness:
  "\<exists>s ch' s'. t_state (th_of s 0) = ChannelRxBlocked 8 \<and>
     channel_send 100 4 (ReceiversWaiting \<lparr>tl_head = Some 0\<rparr>) s [4 \<mapsto> CHR 0x41] =
     Some (Inr (ch', s', [4 \<mapsto> CHR 0x41, 8 \<mapsto> CHR 0x41])) \<and> t_state (th_of s' 0) = Running"
proof -
  obtain s where s: "sched_ok s" "tl_rep s \<lparr>tl_head = Some 0\<rparr> [0]" "t_state (th_of s 0) = ChannelRxBlocked 8"
    using one_waiter_in[of "ChannelRxBlocked 8"] by auto
  then have rep: "channel_rep s (ReceiversWaiting \<lparr>tl_head = Some 0\<rparr>) [] [0]"
    by simp
  have "[4 \<mapsto> CHR 0x41] (4::nat) = Some (CHR 0x41)"
    by simp
  from channel_send_delivers[where m = "[4 \<mapsto> CHR 0x41]" and something = 4 and self_addr = 100, OF s(1) rep s(3) this]
  show ?thesis
    using s(3) by blast
qed

text \<open>
  receiving from a waiting sender.  The receiver gets the value at the address the first
  sender registered, without blocking; that sender alone becomes ready; no cell but the result
  changes; reading through a pointer that leads to no value is the only way this can fail.
\<close>

theorem channel_recv_takes:
  assumes "sched_ok s" "channel_rep s ch (x # xs) []" "t_state (th_of s x) = ChannelTxBlocked a" "a \<noteq> ptr"
  shows "case m a of
      Some v \<Rightarrow> \<exists>ch' s'. channel_recv ptr ch s m = Some (Inr (ch', s', m(ptr := Some v))) \<and>
        channel_try_recv ptr ch s m = Inr (ch', s', m(ptr := Some v), Some v) \<and>
        sched_ok s' \<and> channel_rep s' ch' xs [] \<and> woken s s' {x} \<and> t_state (th_of s' x) = Running
    | None \<Rightarrow> channel_recv ptr ch s m = Some (Inl UninitRead)"
proof -
  obtain w where w: "ch = SendersWaiting w" "tl_rep s w (x # xs)"
    "\<forall>t\<in>set xs. \<exists>a. t_state (th_of s t) = ChannelTxBlocked a"
    using assms(2) by (cases ch) auto
  obtain w' s' where s': "tl_pop w s = Inr (w', s', Some (x, ChannelTxBlocked a))" "tl_is_empty w' \<longleftrightarrow> xs = []"
    "sched_ok s'" "woken s s' {x}" "tl_rep s' w' xs"
    "\<forall>t\<in>set xs. t_state (th_of s' t) = t_state (th_of s t)" "t_state (th_of s' x) = Running"
    using channel_pop_ok[OF assms(1) w(2)] assms(3) by auto
  have "channel_rep s' (if xs = [] then Idle else SendersWaiting w') xs []"
    using s' w(3) by auto
  then show ?thesis
    using s' w(1) assms(4)
    by (auto simp: channel_recv_def channel_try_recv_def channel_meet_eq[OF s'(1)] read_cell_def
        channel_recv_result_def Let_def split: option.splits)
qed

lemma channel_recv_takes_witness:
  "\<exists>s ch' s'. t_state (th_of s 0) = ChannelTxBlocked 4 \<and>
     channel_recv 8 (SendersWaiting \<lparr>tl_head = Some 0\<rparr>) s [4 \<mapsto> CHR 0x41] =
     Some (Inr (ch', s', [4 \<mapsto> CHR 0x41, 8 \<mapsto> CHR 0x41])) \<and> t_state (th_of s' 0) = Running"
proof -
  obtain s where s: "sched_ok s" "tl_rep s \<lparr>tl_head = Some 0\<rparr> [0]" "t_state (th_of s 0) = ChannelTxBlocked 4"
    using one_waiter_in[of "ChannelTxBlocked 4"] by auto
  then have rep: "channel_rep s (SendersWaiting \<lparr>tl_head = Some 0\<rparr>) [0] []"
    by simp
  have "(4::nat) \<noteq> 8"
    by simp
  from channel_recv_takes[OF s(1) rep s(3) this, of "[4 \<mapsto> CHR 0x41]"] have
    "\<exists>ch' s'. channel_recv 8 (SendersWaiting \<lparr>tl_head = Some 0\<rparr>) s [4 \<mapsto> CHR 0x41] =
     Some (Inr (ch', s', [4 \<mapsto> CHR 0x41, 8 \<mapsto> CHR 0x41])) \<and> t_state (th_of s' 0) = Running"
    by fastforce
  then show ?thesis
    using s(3) by blast
qed

text \<open>
  the first sender's value reaches the receiver.  A thread that sends on an idle channel
  blocks with the address of its value, and whenever the channel, with this sender at the head,
  is later received from while the value is still in place, the receiver gets that value.
\<close>

theorem channel_first_sender_served:
  assumes "sched_ok s" "current_thread s = Some c" "\<not> pending s"
  shows "\<exists>ch' s'. channel_send self_addr something Idle s m = Some (Inr (ch', s', m)) \<and>
    channel_rep s' ch' [c] [] \<and> pending s' \<and> sched_ok s' \<and>
    (\<forall>s2 ch2 m2 xs ptr v. sched_ok s2 \<and> channel_rep s2 ch2 (c # xs) [] \<and>
       t_state (th_of s2 c) = t_state (th_of s' c) \<and> m2 something = Some v \<and> ptr \<noteq> something \<longrightarrow>
       (\<exists>ch3 s3. channel_recv ptr ch2 s2 m2 = Some (Inr (ch3, s3, m2(ptr := Some v))) \<and>
          t_state (th_of s3 c) = Running))"
proof -
  obtain w' s' ys inh where s': "tl_put_current tl_new s (ChannelTxBlocked something) = Some (Inr (w', s', inh))"
    "sched_ok s'" "pending s'" "tl_rep s' w' ys" "set ys = insert c (set [])" "ys \<noteq> []"
    "t_state (th_of s' c) = ChannelTxBlocked something"
    by (rule channel_block_ok[OF assms tl_rep_new, of "ChannelTxBlocked something"]) auto
  have ys: "ys = [c]"
  proof (cases ys)
    case (Cons y zs)
    then have "distinct (y # zs)" "set (y # zs) = {c}"
      using s'(4,5) by (simp_all add: tl_rep_def)
    then show ?thesis
      using Cons by (cases zs) auto
  qed (use s'(6) in simp)
  have "\<exists>ch3 s3. channel_recv ptr ch2 s2 m2 = Some (Inr (ch3, s3, m2(ptr := Some v))) \<and> t_state (th_of s3 c) = Running"
    if s2: "sched_ok s2" "channel_rep s2 ch2 (c # xs) []" "t_state (th_of s2 c) = t_state (th_of s' c)"
      "m2 something = Some v" "ptr \<noteq> something" for s2 ch2 m2 xs ptr v
  proof -
    obtain w where w: "ch2 = SendersWaiting w" "tl_rep s2 w (c # xs)"
      using s2(2) by (cases ch2) auto
    obtain w3 s3 where "tl_pop w s2 = Inr (w3, s3, Some (c, ChannelTxBlocked something))" "t_state (th_of s3 c) = Running"
      using channel_pop_ok[OF s2(1) w(2)] s2(3) s'(7) by auto
    then show ?thesis
      using w(1) s2(4,5) by (simp add: channel_recv_def channel_meet_eq Let_def read_cell_def)
  qed
  moreover have "channel_rep s' (SendersWaiting w') [c] []"
    using s' ys by simp
  ultimately show ?thesis
    using s' by (intro exI[of _ "SendersWaiting w'"] exI[of _ s']) (auto simp: channel_send_def)
qed

lemma channel_first_sender_served_witness:
  "\<exists>s ch' s'. reachable s \<and> channel_send 100 4 Idle s [4 \<mapsto> CHR 0x41] = Some (Inr (ch', s', [4 \<mapsto> CHR 0x41])) \<and>
     (\<exists>ch3 s3. channel_recv 8 ch' s' [4 \<mapsto> CHR 0x41] =
        Some (Inr (ch3, s3, [4 \<mapsto> CHR 0x41, 8 \<mapsto> CHR 0x41])) \<and> t_state (th_of s3 0) = Running)"
proof -
  obtain s Q where s: "reachable s" "current_thread s = Some 0" "\<not> pending s" "sched_inv s Q"
    using reachable_boot[of 3] by (auto simp: sched_prio_levels_def thread_count_def)
  then have ok: "sched_ok s"
    by (auto simp: sched_ok_def)
  from channel_first_sender_served[OF this s(2,3), of 100 4 "[4 \<mapsto> CHR 0x41]"] show ?thesis
  proof (elim exE conjE)
    fix ch' s'
    assume r: "channel_send 100 4 Idle s [4 \<mapsto> CHR 0x41] = Some (Inr (ch', s', [4 \<mapsto> CHR 0x41]))"
      "channel_rep s' ch' [0] []" "sched_ok s'"
    assume served: "\<forall>s2 ch2 m2 xs ptr v. sched_ok s2 \<and> channel_rep s2 ch2 (0 # xs) [] \<and>
       t_state (th_of s2 0) = t_state (th_of s' 0) \<and> m2 4 = Some (v :: char) \<and> ptr \<noteq> 4 \<longrightarrow>
       (\<exists>ch3 s3. channel_recv ptr ch2 s2 m2 = Some (Inr (ch3, s3, m2(ptr := Some v))) \<and>
          t_state (th_of s3 0) = Running)"
    have "\<exists>ch3 s3. channel_recv 8 ch' s' [4 \<mapsto> CHR 0x41] =
        Some (Inr (ch3, s3, [4 \<mapsto> CHR 0x41, 8 \<mapsto> CHR 0x41])) \<and> t_state (th_of s3 0) = Running"
      by (rule served[rule_format]) (use r in simp)
    then show ?thesis
      using s(1) r(1) by blast
  qed
qed

text \<open>
  C31: a sender that finds other senders waiting registers the address of the channel instead of
  the address of its value: when its turn comes, the receiver gets whatever the memory holds at
  the channel's own address, and reading it is undefined behaviour unless a value happens to be
  there.  The value that was passed to \<open>send\<close> is never read.
\<close>

theorem channel_second_sender_lost:
  assumes "sched_ok s" "current_thread s = Some c" "\<not> pending s" "channel_rep s ch (x # xs) []" "c \<notin> set (x # xs)"
  shows "\<exists>ch' s' Tx. channel_send self_addr something ch s m = Some (Inr (ch', s', m)) \<and>
    channel_rep s' ch' Tx [] \<and> set Tx = insert c (set (x # xs)) \<and>
    t_state (th_of s' c) = ChannelTxBlocked self_addr \<and>
    (\<forall>s2 ch2 m2 ys ptr. sched_ok s2 \<and> channel_rep s2 ch2 (c # ys) [] \<and>
       t_state (th_of s2 c) = t_state (th_of s' c) \<and> m2 self_addr = None \<longrightarrow>
       channel_recv ptr ch2 s2 m2 = Some (Inl UninitRead))"
proof -
  obtain w where w: "ch = SendersWaiting w" "tl_rep s w (x # xs)"
    "\<forall>t\<in>set (x # xs). \<exists>a. t_state (th_of s t) = ChannelTxBlocked a"
    using assms(4) by (cases ch) auto
  obtain w' s' ys inh where s': "tl_put_current w s (ChannelTxBlocked self_addr) = Some (Inr (w', s', inh))"
    "tl_rep s' w' ys" "set ys = insert c (set (x # xs))" "ys \<noteq> []"
    "t_state (th_of s' c) = ChannelTxBlocked self_addr" "\<And>t. t \<noteq> c \<Longrightarrow> t_state (th_of s' t) = t_state (th_of s t)"
    by (rule channel_block_ok[OF assms(1-3) w(2), of "ChannelTxBlocked self_addr"]) (use assms(5) in auto)
  have "channel_recv ptr ch2 s2 m2 = Some (Inl UninitRead)"
    if s2: "sched_ok s2" "channel_rep s2 ch2 (c # zs) []" "t_state (th_of s2 c) = t_state (th_of s' c)"
      "m2 self_addr = None" for s2 ch2 m2 zs ptr
  proof -
    obtain w2 where w2: "ch2 = SendersWaiting w2" "tl_rep s2 w2 (c # zs)"
      using s2(2) by (cases ch2) auto
    obtain w3 s3 where "tl_pop w2 s2 = Inr (w3, s3, Some (c, ChannelTxBlocked self_addr))"
      using channel_pop_ok[OF s2(1) w2(2)] s2(3) s'(5) by auto
    then show ?thesis
      using w2(1) s2(4) by (simp add: channel_recv_def channel_meet_eq Let_def read_cell_def)
  qed
  moreover have "\<exists>a. t_state (th_of s' t) = ChannelTxBlocked a" if "t \<in> set ys" for t
    using s'(3,5,6) w(3) that by (cases "t = c") auto
  then have "channel_rep s' (SendersWaiting w') ys []"
    using s' by simp
  ultimately show ?thesis
    using s' w(1) by (intro exI[of _ "SendersWaiting w'"] exI[of _ s'] exI[of _ ys]) (auto simp: channel_send_def)
qed

lemma channel_second_sender_lost_witness:
  "\<exists>s ch' s'. sched_ok s \<and> t_state (th_of s 1) = ChannelTxBlocked 6 \<and>
     channel_send 100 4 (SendersWaiting \<lparr>tl_head = Some 1\<rparr>) s [4 \<mapsto> CHR 0x41, 6 \<mapsto> CHR 0x42] =
     Some (Inr (ch', s', [4 \<mapsto> CHR 0x41, 6 \<mapsto> CHR 0x42])) \<and> t_state (th_of s' 0) = ChannelTxBlocked 100"
proof -
  obtain s where s: "sched_ok s" "current_thread s = Some 0" "\<not> pending s" "t_state (th_of s 1) = ChannelTxBlocked 6"
    "tl_rep s \<lparr>tl_head = Some 1\<rparr> [1]"
    using boot_with_waiter[of "ChannelTxBlocked 6"] by auto
  then have "channel_rep s (SendersWaiting \<lparr>tl_head = Some 1\<rparr>) [1] []"
    by simp
  from channel_second_sender_lost[OF s(1-3) this, of 100 4 "[4 \<mapsto> CHR 0x41, 6 \<mapsto> CHR 0x42]"]
  have "\<exists>ch' s'. channel_send 100 4 (SendersWaiting \<lparr>tl_head = Some 1\<rparr>) s [4 \<mapsto> CHR 0x41, 6 \<mapsto> CHR 0x42] =
     Some (Inr (ch', s', [4 \<mapsto> CHR 0x41, 6 \<mapsto> CHR 0x42])) \<and> t_state (th_of s' 0) = ChannelTxBlocked 100"
    by simp blast
  then show ?thesis
    using s(1,4) by blast
qed

end
