(* ===== verification/Timeout.thy ===== *)
theory Timeout
  imports Locks
begin

section \<open>Timeouts (\<open>ariel-os-threads/src/timeout.rs\<close> and the timed waits of \<open>wait_queue.rs\<close>)\<close>

text \<open>
  A thread has at most one deadline.  The timer is \<open>embassy_time_driver\<close>, which is not part of
  the repository: \<open>schedule_wake\<close> registers a waker for a point in time and may call it at once
  when that time has passed.  It is the parameter \<open>driver\<close> of the definitions: \<open>driver at\<close> is
  \<open>None\<close> if the waker is queued and \<open>Some now\<close> if it is called right away, at time \<open>now\<close>.
  A queued waker is a later call of \<open>wake\<close>.
\<close>

type_synonym time_driver = "nat \<Rightarrow> nat option"

definition thread_flag_timeout :: "16 word" where
  "thread_flag_timeout = 2"

definition wake :: "nat \<Rightarrow> nat \<Rightarrow> scheduler \<Rightarrow> panic + scheduler" where
  "wake now t s =
     bnd (get_unchecked s t) (\<lambda>th.
       case t_deadline th of
         None \<Rightarrow> Inr s
       | Some deadline \<Rightarrow>
           if deadline \<le> now then
             bnd (upd_thread s t (\<lambda>th. th\<lparr>t_deadline := None\<rparr>)) (\<lambda>s.
             bnd (flag_set s t thread_flag_timeout) (\<lambda>s.
             bnd (get_state s t) (\<lambda>st.
               if st = Some Running then Inr s
               else bnd (set_state s t Running) (\<lambda>(s, _). Inr s))))
           else Inr s)"

definition schedule_thread_wakeup :: "time_driver \<Rightarrow> nat \<Rightarrow> nat \<Rightarrow> scheduler \<Rightarrow> panic + scheduler" where
  "schedule_thread_wakeup driver t deadline s =
     (case driver deadline of None \<Rightarrow> Inr s | Some now \<Rightarrow> wake now t s)"

definition set_deadline :: "time_driver \<Rightarrow> nat \<Rightarrow> scheduler \<Rightarrow> panic + scheduler \<times> bool" where
  "set_deadline driver deadline s =
     bnd (current_thread_data s) (\<lambda>(c, th).
     let s = s\<lparr>threads := (threads s)[c := th\<lparr>t_deadline := Some deadline,
                 t_flags := t_flags th AND NOT thread_flag_timeout\<rparr>]\<rparr>
     in bnd (schedule_thread_wakeup driver (t_tid th) deadline s) (\<lambda>s.
        bnd (current_thread_data s) (\<lambda>(_, th). Inr (s, t_deadline th \<noteq> None))))"

definition clear_deadline :: "time_driver \<Rightarrow> scheduler \<Rightarrow> panic + scheduler \<times> bool" where
  "clear_deadline driver s =
     bnd (current_thread_data s) (\<lambda>(c, th).
     let did_clear = (t_deadline th \<noteq> None);
         s = s\<lparr>threads := (threads s)[c := th\<lparr>t_deadline := None\<rparr>]\<rparr>
     in if did_clear then bnd (schedule_thread_wakeup driver (t_tid th) 0 s) (\<lambda>s. Inr (s, True))
        else Inr (s, False))"

text \<open>
  The two critical sections of the functions with a deadline; in between the thread is blocked and
  \<open>env\<close> is what the rest of the system does until it runs again.  \<open>'w\<close> is the state the
  function and the timeout handler work on beside the scheduler.
\<close>

definition with_deadline ::
    "time_driver \<Rightarrow> ('w \<times> scheduler \<Rightarrow> 'w \<times> scheduler) \<Rightarrow> nat \<Rightarrow>
     ('w \<times> scheduler \<Rightarrow> (panic + 'w \<times> scheduler) option) \<Rightarrow>
     ('w \<times> scheduler \<Rightarrow> (panic + ('w \<times> scheduler) \<times> bool) option) \<Rightarrow>
     'w \<times> scheduler \<Rightarrow> (panic + ('w \<times> scheduler) \<times> bool) option" where
  "with_deadline driver env deadline f on_timeout x =
     obnd (Some (set_deadline driver deadline (snd x))) (\<lambda>(s, future).
       if future then
         obnd (f (fst x, s)) (\<lambda>y.
         let y = env y in
         obnd (Some (clear_deadline driver (snd y))) (\<lambda>(s, cleared).
           if cleared then Some (Inr ((fst y, s), False)) else on_timeout (fst y, s)))
       else Some (Inr ((fst x, s), False)))"

definition with_deadline_check ::
    "time_driver \<Rightarrow> ('w \<times> scheduler \<Rightarrow> 'w \<times> scheduler) \<Rightarrow> nat \<Rightarrow>
     ('w \<times> scheduler \<Rightarrow> panic + ('w \<times> scheduler) \<times> bool) \<Rightarrow>
     ('w \<times> scheduler \<Rightarrow> (panic + 'w \<times> scheduler) option) \<Rightarrow>
     ('w \<times> scheduler \<Rightarrow> (panic + 'w \<times> scheduler) option) \<Rightarrow>
     'w \<times> scheduler \<Rightarrow> (panic + ('w \<times> scheduler) \<times> bool) option" where
  "with_deadline_check driver env deadline check wait on_timeout x =
     obnd (Some (check x)) (\<lambda>(x, success).
       if success then Some (Inr (x, True))
       else obnd (Some (set_deadline driver deadline (snd x))) (\<lambda>(s, future).
         if future then
           obnd (wait (fst x, s)) (\<lambda>y.
           let y = env y in
           obnd (Some (clear_deadline driver (snd y))) (\<lambda>(s, cleared).
             obnd (if cleared then Some (Inr (fst y, s)) else on_timeout (fst y, s)) (\<lambda>z.
               Some (check z))))
         else Some (Inr ((fst x, s), False))))"

definition sleep_until :: "time_driver \<Rightarrow> nat \<Rightarrow> scheduler \<Rightarrow> panic + scheduler" where
  "sleep_until driver deadline s =
     bnd (set_deadline driver deadline s) (\<lambda>(s, future). if future then park s else Inr s)"

text \<open>\<open>Instant::saturating_add\<close> on 64-bit ticks.\<close>

definition sleep :: "time_driver \<Rightarrow> nat \<Rightarrow> nat \<Rightarrow> scheduler \<Rightarrow> panic + scheduler" where
  "sleep driver now duration s = sleep_until driver (min (now + duration) (2 ^ 64 - 1)) s"

subsection \<open>The timed waits of the wait queue\<close>

definition wq_on_timeout ::
    "threadlist \<times> scheduler \<Rightarrow> (panic + (threadlist \<times> scheduler) \<times> bool) option" where
  "wq_on_timeout x =
     obnd (tl_remove_current (fst x) (snd x)) (\<lambda>(w, s, removed). Some (Inr ((w, s), removed)))"

definition wq_wait_until ::
    "time_driver \<Rightarrow> (threadlist \<times> scheduler \<Rightarrow> threadlist \<times> scheduler) \<Rightarrow> nat \<Rightarrow>
     threadlist \<times> scheduler \<Rightarrow> (panic + (threadlist \<times> scheduler) \<times> bool) option" where
  "wq_wait_until driver env deadline x =
     with_deadline driver env deadline (\<lambda>(w, s). wq_wait_cs w s)
       (\<lambda>x. obnd (wq_on_timeout x) (\<lambda>(y, removed). Some (Inr (y, \<not> removed)))) x"

text \<open>\<open>'d\<close> is the data, beside the list of waiters, that the check reads and changes.\<close>

definition wq_wait_until_with_check ::
    "time_driver \<Rightarrow> (('d \<times> threadlist) \<times> scheduler \<Rightarrow> ('d \<times> threadlist) \<times> scheduler) \<Rightarrow> nat \<Rightarrow>
     (('d \<times> threadlist) \<times> scheduler \<Rightarrow> panic + (('d \<times> threadlist) \<times> scheduler) \<times> bool) \<Rightarrow>
     ('d \<times> threadlist) \<times> scheduler \<Rightarrow> (panic + (('d \<times> threadlist) \<times> scheduler) \<times> bool) option" where
  "wq_wait_until_with_check driver env deadline check x =
     with_deadline_check driver env deadline check
       (\<lambda>((d, w), s). obnd (wq_wait_cs w s) (\<lambda>(w, s). Some (Inr ((d, w), s))))
       (\<lambda>((d, w), s). obnd (wq_on_timeout (w, s)) (\<lambda>((w, s), _). Some (Inr ((d, w), s)))) x"

subsection \<open>Setting and clearing deadlines\<close>

lemma sched_ok_thread_data:
  assumes "sched_ok s" "t < thread_count"
    and "t_state th = t_state (th_of s t)" "t_prio th = t_prio (th_of s t)" "t_tid th = t_tid (th_of s t)"
  shows "sched_ok (s\<lparr>threads := (threads s)[t := th]\<rparr>)"
  using assms sched_inv_thread_data unfolding sched_ok_def by blast

lemma sched_ok_get: "sched_ok s \<Longrightarrow> t < thread_count \<Longrightarrow> get_unchecked s t = Inr (th_of s t)"
  using get_unchecked_ok by (auto simp: sched_ok_def)

lemma sched_ok_cur: "sched_ok s \<Longrightarrow> current_thread s = Some c \<Longrightarrow> c < thread_count \<and>
  current_thread_data s = Inr (c, th_of s c)"
  using current_thread_data_ok sched_invD(7) by (auto simp: sched_ok_def)

text \<open>A driver that does not call a waker before its time.\<close>

definition timely :: "time_driver \<Rightarrow> nat \<Rightarrow> bool" where
  "timely driver now \<longleftrightarrow> (\<forall>at. driver at = (if at \<le> now then Some now else None))"

lemma wake_early: "sched_ok s \<Longrightarrow> t < thread_count \<Longrightarrow> \<forall>d. t_deadline (th_of s t) = Some d \<longrightarrow> now < d \<Longrightarrow>
  wake now t s = Inr s"
  by (auto simp: wake_def sched_ok_get split: option.splits)

lemma get_state_sched_ok:
  "sched_ok s \<Longrightarrow> t < thread_count \<Longrightarrow> get_state s t =
    Inr (if t_state (th_of s t) \<noteq> Invalid then Some (t_state (th_of s t)) else None)"
  using get_state_ok by (auto simp: sched_ok_def)

lemma wake_expired:
  assumes ok: "sched_ok s" and t: "t < thread_count" "t_tid (th_of s t) = t"
    and d: "t_deadline (th_of s t) = Some d" "d \<le> now"
  shows "\<exists>s'. wake now t s = Inr s' \<and> sched_ok s' \<and> current_thread s' = current_thread s \<and>
    (pending s \<longrightarrow> pending s') \<and> thread_blocklist s' = thread_blocklist s \<and>
    threads s' = (threads s)[t := (th_of s t)\<lparr>t_deadline := None,
      t_flags := t_flags (th_of s t) OR thread_flag_timeout, t_state := Running\<rparr>]"
proof -
  note l = sched_ok_len[OF ok]
  let ?th1 = "(th_of s t)\<lparr>t_deadline := None\<rparr>"
  let ?s1 = "s\<lparr>threads := (threads s)[t := ?th1]\<rparr>"
  let ?f = "t_flags (th_of s t) OR thread_flag_timeout"
  have ok1: "sched_ok ?s1"
    by (rule sched_ok_thread_data[OF ok t(1)]) auto
  then obtain Q1 where inv1: "sched_inv ?s1 Q1"
    by (auto simp: sched_ok_def)
  have th1: "th_of ?s1 t = ?th1"
    using t l by simp
  obtain s2 Q2 where s2: "flag_set ?s1 t thread_flag_timeout = Inr s2" "sched_inv s2 Q2"
    "current_thread s2 = current_thread s" "thread_blocklist s2 = thread_blocklist s" "pending s \<longrightarrow> pending s2"
    "threads s2 = (threads s)[t := ?th1\<lparr>t_flags := ?f, t_state :=
       if flag_wakes (t_state (th_of s t)) ?f then Running else t_state (th_of s t)\<rparr>]"
    using flag_set_ok[OF inv1 t(1), of thread_flag_timeout] unfolding th1
    by (auto cong: if_cong)
  have th2: "t_tid (th_of s2 t) = t" "t_flags (th_of s2 t) = ?f" "t_deadline (th_of s2 t) = None"
    using s2(6) t l by simp_all
  obtain s3 where s3: "(if t_state (th_of s2 t) = Running then Inr s2
      else bnd (set_state s2 t Running) (\<lambda>(s, _). Inr s)) = Inr s3" "sched_ok s3"
    "current_thread s3 = current_thread s" "thread_blocklist s3 = thread_blocklist s" "pending s \<longrightarrow> pending s3"
    "threads s3 = (threads s2)[t := (th_of s2 t)\<lparr>t_state := Running\<rparr>]"
  proof (cases "t_state (th_of s2 t) = Running")
    case True
    have "(th_of s2 t)\<lparr>t_state := Running\<rparr> = th_of s2 t"
      using True by (cases "th_of s2 t") simp
    then show ?thesis
      using that[of s2] True s2 by (auto simp: sched_ok_def)
  next
    case False
    obtain r where r: "set_state s2 t Running = Inr (s2\<lparr>threads := (threads s2)[t := (th_of s2 t)\<lparr>t_state := Running\<rparr>],
        runq := r, pending := pending s2 \<or> preempts s2 (t_prio (th_of s2 t))\<rparr>, t_state (th_of s2 t))"
      "sched_ok (s2\<lparr>threads := (threads s2)[t := (th_of s2 t)\<lparr>t_state := Running\<rparr>],
        runq := r, pending := pending s2 \<or> preempts s2 (t_prio (th_of s2 t))\<rparr>)"
      using set_state_running[OF s2(2) t(1) th2(1)] unfolding sched_ok_def by blast
    show ?thesis
      by (rule that[OF _ r(2)]) (use r(1) s2(3-5) False in simp_all)
  qed
  have "wake now t s = Inr s3"
  proof (cases "t_state (th_of s2 t) = Invalid")
    case True
    then show ?thesis
      using s2(1,2) s3(1) d t l get_state_ok[OF s2(2), of t]
      by (simp add: wake_def upd_thread_def get_unchecked_def)
  next
    case False
    then show ?thesis
      using s2(1,2) s3(1) d t l get_state_ok[OF s2(2), of t]
      by (simp add: wake_def upd_thread_def get_unchecked_def)
  qed
  moreover have "threads s3 = (threads s)[t := (th_of s t)\<lparr>t_deadline := None, t_flags := ?f, t_state := Running\<rparr>]"
    using s3(6) s2(6) t l by (simp add: thread.defs)
  ultimately show ?thesis
    using s3 by blast
qed

text \<open>What \<open>set_deadline\<close> does when the deadline is ahead, and when it has passed.\<close>

lemma set_deadline_future:
  assumes ok: "sched_ok s" and c: "current_thread s = Some c" and d: "driver deadline = None"
  defines "s' \<equiv> s\<lparr>threads := (threads s)[c := (th_of s c)\<lparr>t_deadline := Some deadline,
      t_flags := t_flags (th_of s c) AND NOT thread_flag_timeout\<rparr>]\<rparr>"
  shows "set_deadline driver deadline s = Inr (s', True)" "sched_ok s'"
proof -
  have cc: "c < thread_count" "current_thread_data s = Inr (c, th_of s c)"
    using sched_ok_cur[OF ok c] by auto
  show ok': "sched_ok s'"
    unfolding s'_def by (rule sched_ok_thread_data[OF ok cc(1)]) auto
  have "current_thread_data s' = Inr (c, th_of s' c)"
    using sched_ok_cur[OF ok'] c by (simp add: s'_def)
  then show "set_deadline driver deadline s = Inr (s', True)"
    using cc d sched_ok_len(1)[OF ok]
    by (simp add: set_deadline_def schedule_thread_wakeup_def s'_def Let_def)
qed

lemma set_deadline_past:
  assumes ok: "sched_ok s" and c: "current_thread s = Some c" "\<not> pending s"
    and d: "driver deadline = Some now" "deadline \<le> now"
  shows "\<exists>s'. set_deadline driver deadline s = Inr (s', False) \<and> sched_ok s' \<and>
    t_state (th_of s' c) = Running \<and> t_deadline (th_of s' c) = None"
proof -
  let ?th = "(th_of s c)\<lparr>t_deadline := Some deadline, t_flags := t_flags (th_of s c) AND NOT thread_flag_timeout\<rparr>"
  let ?s1 = "s\<lparr>threads := (threads s)[c := ?th]\<rparr>"
  note cc = sched_ok_current[OF ok c]
  note l = sched_ok_len[OF ok]
  have ok1: "sched_ok ?s1"
    by (rule sched_ok_thread_data[OF ok cc(1)]) auto
  obtain s' where s': "wake now c ?s1 = Inr s'" "sched_ok s'" "current_thread s' = Some c"
    "threads s' = (threads ?s1)[c := (th_of ?s1 c)\<lparr>t_deadline := None,
      t_flags := t_flags (th_of ?s1 c) OR thread_flag_timeout, t_state := Running\<rparr>]"
    using wake_expired[OF ok1 cc(1), of deadline now] cc l c d(2) by auto
  have th': "t_state (th_of s' c) = Running" "t_deadline (th_of s' c) = None"
    using s'(4) cc(1) l by simp_all
  have "current_thread_data s' = Inr (c, th_of s' c)"
    using sched_ok_cur[OF s'(2,3)] by blast
  then have "set_deadline driver deadline s = Inr (s', False)"
    using cc d(1) s'(1) th' by (simp add: set_deadline_def schedule_thread_wakeup_def Let_def)
  then show ?thesis
    using s' th' by blast
qed

lemma clear_deadline_ok:
  assumes ok: "sched_ok s" and c: "current_thread s = Some c" "\<not> pending s"
  defines "s' \<equiv> s\<lparr>threads := (threads s)[c := (th_of s c)\<lparr>t_deadline := None\<rparr>]\<rparr>"
  shows "clear_deadline driver s = Inr (s', t_deadline (th_of s c) \<noteq> None)" "sched_ok s'"
proof -
  note cc = sched_ok_current[OF ok c]
  show ok': "sched_ok s'"
    unfolding s'_def by (rule sched_ok_thread_data[OF ok cc(1)]) auto
  have "wake now c s' = Inr s'" for now
    using wake_early[OF ok' cc(1), of now] sched_ok_len(1)[OF ok] cc(1) by (simp add: s'_def)
  then have "schedule_thread_wakeup driver c 0 s' = Inr s'"
    by (simp add: schedule_thread_wakeup_def split: option.splits)
  then show "clear_deadline driver s = Inr (s', t_deadline (th_of s c) \<noteq> None)"
    using cc unfolding s'_def clear_deadline_def by (simp add: Let_def)
qed

subsection \<open>Sleeping\<close>

text \<open>The timer reaches a sleeping thread's deadline.\<close>

lemma wake_sleeper:
  assumes "sched_ok s" "t < thread_count" "t_tid (th_of s t) = t" "t_deadline (th_of s t) = Some deadline" "deadline \<le> now"
  shows "\<exists>s2. wake now t s = Inr s2 \<and> sched_ok s2 \<and> t_state (th_of s2 t) = Running \<and>
    t_deadline (th_of s2 t) = None \<and> t_flags (th_of s2 t) AND thread_flag_timeout = thread_flag_timeout"
proof -
  obtain s2 where "wake now t s = Inr s2" "sched_ok s2"
    "threads s2 = (threads s)[t := (th_of s t)\<lparr>t_deadline := None,
      t_flags := t_flags (th_of s t) OR thread_flag_timeout, t_state := Running\<rparr>]"
    using wake_expired[OF assms] by blast
  moreover have "(x OR thread_flag_timeout) AND thread_flag_timeout = thread_flag_timeout" for x
    by (intro bit_word_eqI) (auto simp: bit_and_iff bit_or_iff)
  ultimately show ?thesis
    using assms(2) sched_ok_len(1)[OF assms(1)] by auto
qed

text \<open>
  sleeping.  With a deadline ahead the calling thread is parked with that deadline; a timer
  call before the deadline changes nothing; the first one at or after it makes the thread ready,
  clears the deadline and leaves the timeout flag.  With a deadline that has passed the thread
  stays ready.
\<close>

theorem sleep_until_spec:
  assumes ok: "sched_ok s" and c: "current_thread s = Some c" "\<not> pending s"
  shows "(driver deadline = None \<longrightarrow>
      (\<exists>s'. sleep_until driver deadline s = Inr s' \<and> sched_ok s' \<and> pending s' \<and>
        t_state (th_of s' c) = Parked \<and> t_deadline (th_of s' c) = Some deadline \<and>
        (\<forall>now<deadline. wake now c s' = Inr s') \<and>
        (\<forall>now\<ge>deadline. \<exists>s2. wake now c s' = Inr s2 \<and> sched_ok s2 \<and> t_state (th_of s2 c) = Running \<and>
           t_deadline (th_of s2 c) = None \<and> t_flags (th_of s2 c) AND thread_flag_timeout = thread_flag_timeout))) \<and>
    (\<forall>now\<ge>deadline. driver deadline = Some now \<longrightarrow>
      (\<exists>s'. sleep_until driver deadline s = Inr s' \<and> sched_ok s' \<and> t_state (th_of s' c) = Running))"
proof (intro conjI impI allI)
  note cc = sched_ok_current[OF ok c]
  note l = sched_ok_len[OF ok]
  assume d: "driver deadline = None"
  let ?s1 = "s\<lparr>threads := (threads s)[c := (th_of s c)\<lparr>t_deadline := Some deadline,
      t_flags := t_flags (th_of s c) AND NOT thread_flag_timeout\<rparr>]\<rparr>"
  have s1: "set_deadline driver deadline s = Inr (?s1, True)" "sched_ok ?s1"
    using set_deadline_future[where driver = driver and deadline = deadline, OF ok c(1) d] by auto
  obtain s' where s': "set_state ?s1 c Parked = Inr (s', Running)" "sched_ok s'" "pending s'"
    "threads s' = (threads ?s1)[c := (th_of ?s1 c)\<lparr>t_state := Parked\<rparr>]"
    using block_ok[OF s1(2), of c Parked] c by auto
  have th': "t_state (th_of s' c) = Parked" "t_deadline (th_of s' c) = Some deadline" "t_tid (th_of s' c) = c"
    using s'(4) cc l by simp_all
  have "sleep_until driver deadline s = Inr s'"
    using s1(1) s'(1) c by (simp add: sleep_until_def park_def current_tid_def)
  moreover have "wake now c s' = Inr s'" if "now < deadline" for now
    using wake_early[OF s'(2) cc(1)] th' that by simp
  moreover have "\<exists>s2. wake now c s' = Inr s2 \<and> sched_ok s2 \<and> t_state (th_of s2 c) = Running \<and>
      t_deadline (th_of s2 c) = None \<and> t_flags (th_of s2 c) AND thread_flag_timeout = thread_flag_timeout"
    if "deadline \<le> now" for now
    using wake_sleeper[OF s'(2) cc(1) th'(3,2) that] .
  ultimately show "\<exists>s'. sleep_until driver deadline s = Inr s' \<and> sched_ok s' \<and> pending s' \<and>
      t_state (th_of s' c) = Parked \<and> t_deadline (th_of s' c) = Some deadline \<and>
      (\<forall>now<deadline. wake now c s' = Inr s') \<and>
      (\<forall>now\<ge>deadline. \<exists>s2. wake now c s' = Inr s2 \<and> sched_ok s2 \<and> t_state (th_of s2 c) = Running \<and>
         t_deadline (th_of s2 c) = None \<and> t_flags (th_of s2 c) AND thread_flag_timeout = thread_flag_timeout)"
    using s'(2,3) th'(1,2) by blast
next
  fix now assume "deadline \<le> now" "driver deadline = Some now"
  then show "\<exists>s'. sleep_until driver deadline s = Inr s' \<and> sched_ok s' \<and> t_state (th_of s' c) = Running"
    using set_deadline_past[OF ok c] by (fastforce simp: sleep_until_def)
qed

lemma sleep_until_spec_witness:
  "\<exists>s s' s2. reachable s \<and> sleep_until (\<lambda>at. if at \<le> 5 then Some 5 else None) 9 s = Inr s' \<and>
     t_state (th_of s' 0) = Parked \<and> wake 8 0 s' = Inr s' \<and> wake 9 0 s' = Inr s2 \<and> t_state (th_of s2 0) = Running"
proof -
  obtain s Q where s: "reachable s" "current_thread s = Some 0" "\<not> pending s" "sched_inv s Q"
    using reachable_boot[of 3] by (auto simp: sched_prio_levels_def thread_count_def)
  then have "sched_ok s"
    by (auto simp: sched_ok_def)
  from sleep_until_spec[OF this s(2,3), of "\<lambda>at. if at \<le> 5 then Some 5 else None" 9] s(1) show ?thesis
    by (simp, elim exE conjE) (metis order_refl less_add_one numeral_plus_one semiring_norm(5) semiring_norm(2))
qed

text \<open>A thread that once slept, was unparked early and now waits for a lock.\<close>

lemma stale_waiter:
  "\<exists>s. sched_ok s \<and> t_deadline (th_of s 0) = Some 9 \<and> tl_rep s \<lparr>tl_head = Some 0\<rparr> [0] \<and>
     t_state (th_of s 0) = LockBlocked \<and> t_tid (th_of s 0) = 0"
proof -
  let ?s0 = "scheduler_new\<lparr>threads := (threads scheduler_new)[0 := thread_default\<lparr>t_state := LockBlocked, t_flags := 0\<rparr>]\<rparr>"
  let ?th = "(th_of ?s0 0)\<lparr>t_deadline := Some 9\<rparr>"
  have z: "(0::nat) < thread_count" "length (threads ?s0) = thread_count"
    by (simp_all add: thread_count_def scheduler_new_def)
  have ok: "sched_ok ?s0" "tl_rep ?s0 \<lparr>tl_head = Some 0\<rparr> [0]"
    using one_waiter[of LockBlocked 0] by auto
  have st: "t_state ?th = LockBlocked" "t_tid ?th = 0"
    by (simp_all add: scheduler_new_def thread_count_def thread_default_def)
  have "sched_ok (?s0\<lparr>threads := (threads ?s0)[0 := ?th]\<rparr>)"
    by (rule sched_ok_thread_data[OF ok(1) z(1)]) auto
  moreover have "th_of (?s0\<lparr>threads := (threads ?s0)[0 := ?th]\<rparr>) 0 = ?th"
    using z by simp
  moreover have "tl_rep (?s0\<lparr>threads := (threads ?s0)[0 := ?th]\<rparr>) \<lparr>tl_head = Some 0\<rparr> [0]"
    using ok(2) st(1) calculation(2) by (simp add: tl_rep_def)
  ultimately show ?thesis
    using st by (intro exI[of _ "?s0\<lparr>threads := (threads ?s0)[0 := ?th]\<rparr>"]) simp
qed



subsection \<open>Waiting with a deadline\<close>

text \<open>The second half of a timed wait: the thread runs again in \<open>s2\<close>.\<close>

lemma timed_wait_resumes:
  assumes set_dl: "set_deadline driver deadline s = Inr (s0, True)" and wait: "wq_wait_cs w s0 = Some (Inr (w1, s1))"
    and c: "c < thread_count" and e: "env (w1, s1) = (w2, s2)" "sched_ok s2" "current_thread s2 = Some c"
    "\<not> pending s2" "tl_rep s2 w2 zs"
  shows "\<exists>w3 s3. wq_wait_until driver env deadline (w, s) =
      Some (Inr ((w3, s3), t_deadline (th_of s2 c) = None \<and> c \<notin> set zs)) \<and>
    sched_ok s3 \<and> t_deadline (th_of s3 c) = None \<and>
    tl_rep s3 w3 (if t_deadline (th_of s2 c) = None then remove1 c zs else zs)"
proof -
  let ?s3 = "s2\<lparr>threads := (threads s2)[c := (th_of s2 c)\<lparr>t_deadline := None\<rparr>]\<rparr>"
  note l2 = sched_ok_len[OF e(2)]
  have s3: "clear_deadline driver s2 = Inr (?s3, t_deadline (th_of s2 c) \<noteq> None)" "sched_ok ?s3"
    using clear_deadline_ok[OF e(2-4)] by auto
  have "t_state (th_of ?s3 x) = t_state (th_of s2 x)" for x
    using c l2 by (cases "x = c") auto
  then have rep3: "tl_rep ?s3 w2 zs"
    using e(5) by (simp add: tl_rep_def)
  have dl3: "t_deadline (th_of ?s3 c) = None"
    using c l2 by simp
  show ?thesis
  proof (cases "t_deadline (th_of s2 c) = None")
    case False
    then have "wq_wait_until driver env deadline (w, s) = Some (Inr ((w2, ?s3), False))"
      using set_dl wait e(1) s3(1) by (simp add: wq_wait_until_def with_deadline_def)
    then show ?thesis
      using False s3(2) dl3 rep3 by auto
  next
    case True
    obtain w4 s4 where s4: "tl_remove_inner w2 ?s3 c = Some (Inr (w4, s4, c \<in> set zs))" "sched_ok s4"
      "tl_rep s4 w4 (remove1 c zs)" "woken ?s3 s4 (if c \<in> set zs then {c} else {})"
      using tl_remove_inner_ok[OF s3(2) rep3, of c] by blast
    have "wq_wait_until driver env deadline (w, s) = Some (Inr ((w4, s4), c \<notin> set zs))"
      using set_dl wait e(1,3) s3(1) s4(1) True
      by (simp add: wq_wait_until_def with_deadline_def wq_on_timeout_def tl_remove_current_def current_tid_def)
    moreover have "t_deadline (th_of s4 c) = None"
      using wokenD(3)[OF s4(4) c] dl3 by simp
    ultimately show ?thesis
      using True s4(2,3) by auto
  qed
qed

text \<open>
  a timed wait on a wait queue.  With a deadline ahead the thread joins the waiters with that
  deadline; when it runs again its deadline is cleared, and if the deadline had expired it is taken
  out of the list, so it is never left behind in it.  The result is true only when the deadline
  expired and the thread was no longer in the list: a notification before the deadline yields
  false.
\<close>

theorem wait_until_spec:
  assumes ok: "sched_ok s" and c: "current_thread s = Some c" "\<not> pending s"
    and rep: "tl_rep s w xs" "c \<notin> set xs" and d: "driver deadline = None"
  shows "\<exists>w1 s1 ys1. tl_rep s1 w1 ys1 \<and> set ys1 = insert c (set xs) \<and> sched_ok s1 \<and> pending s1 \<and>
    t_state (th_of s1 c) = WaitQueueBlocked \<and> t_deadline (th_of s1 c) = Some deadline \<and>
    (\<forall>env w2 s2 ys. env (w1, s1) = (w2, s2) \<and> sched_ok s2 \<and> current_thread s2 = Some c \<and> \<not> pending s2 \<and>
       tl_rep s2 w2 ys \<longrightarrow>
       (\<exists>w3 s3. wq_wait_until driver env deadline (w, s) =
            Some (Inr ((w3, s3), t_deadline (th_of s2 c) = None \<and> c \<notin> set ys)) \<and>
          sched_ok s3 \<and> t_deadline (th_of s3 c) = None \<and>
          tl_rep s3 w3 (if t_deadline (th_of s2 c) = None then remove1 c ys else ys)))"
proof -
  note cc = sched_ok_current[OF ok c]
  note l = sched_ok_len[OF ok]
  let ?s0 = "s\<lparr>threads := (threads s)[c := (th_of s c)\<lparr>t_deadline := Some deadline,
      t_flags := t_flags (th_of s c) AND NOT thread_flag_timeout\<rparr>]\<rparr>"
  have s0: "set_deadline driver deadline s = Inr (?s0, True)" "sched_ok ?s0"
    using set_deadline_future[where driver = driver and deadline = deadline, OF ok c(1) d] by auto
  have x: "t_state (th_of ?s0 x) = t_state (th_of s x)" for x
    using cc(1) l by (cases "x = c") auto
  have rep0: "tl_rep ?s0 w xs"
    using rep(1) x by (simp add: tl_rep_def)
  let ?ys = "in_front ?s0 (t_prio (th_of ?s0 c)) xs @ c # behind ?s0 (t_prio (th_of ?s0 c)) xs"
  obtain w1 s1 where s1: "tl_put_current w ?s0 WaitQueueBlocked = Some (Inr (w1, s1,
      if in_front ?s0 (t_prio (th_of ?s0 c)) xs = [] then Some (t_prio (th_of ?s0 c)) else None))"
    "sched_ok s1" "tl_rep s1 w1 ?ys" "pending s1" "threads s1 = (threads ?s0)[c := (th_of ?s0 c)\<lparr>t_state := WaitQueueBlocked\<rparr>]"
    using tl_put_current_ok[OF s0(2) _ _ rep0, of c WaitQueueBlocked] c rep(2) by auto
  have wait: "wq_wait_cs w ?s0 = Some (Inr (w1, s1))"
    using s1(1) by (simp add: wq_wait_cs_def)
  have th1: "t_state (th_of s1 c) = WaitQueueBlocked" "t_deadline (th_of s1 c) = Some deadline"
    using s1(5) cc(1) l by simp_all
  have ys: "set ?ys = insert c (set xs)"
    using set_in_front_behind[of ?s0 "t_prio (th_of ?s0 c)" xs] by auto
  note resume = timed_wait_resumes[OF s0(1) wait cc(1)]
  show ?thesis
    using s1(2-4) th1 ys resume by blast
qed

lemma wait_until_spec_witness:
  "\<exists>s env w3 s3. reachable s \<and> wq_wait_until (\<lambda>_. None) env 9 (tl_new, s) = Some (Inr ((w3, s3), False)) \<and>
     tl_rep s3 w3 [] \<and> t_deadline (th_of s3 0) = None"
proof -
  obtain s Q where s: "reachable s" "current_thread s = Some 0" "\<not> pending s" "sched_inv s Q"
    using reachable_boot[of 3] by (auto simp: sched_prio_levels_def thread_count_def)
  then have ok: "sched_ok s"
    by (auto simp: sched_ok_def)
  let ?s2 = "s\<lparr>threads := (threads s)[0 := (th_of s 0)\<lparr>t_deadline := Some 9,
      t_flags := t_flags (th_of s 0) AND NOT thread_flag_timeout\<rparr>]\<rparr>"
  have s2: "sched_ok ?s2" "t_deadline (th_of ?s2 0) = Some 9" "tl_rep ?s2 tl_new []"
    using set_deadline_future(2)[where driver = "\<lambda>_. None" and deadline = 9, OF ok s(2)] sched_ok_len(1)[OF ok]
    by (simp_all add: thread_count_def tl_rep_new)
  let ?env = "\<lambda>_. (tl_new, ?s2)"
  from wait_until_spec[where driver = "\<lambda>_. None" and deadline = 9 and w = tl_new and xs = "[]", OF ok s(2,3) tl_rep_new]
  obtain w1 s1 where r: "\<forall>env w2 s2 ys. env (w1, s1) = (w2, s2) \<and> sched_ok s2 \<and> current_thread s2 = Some 0 \<and> \<not> pending s2 \<and>
       tl_rep s2 w2 ys \<longrightarrow>
       (\<exists>w3 s3. wq_wait_until (\<lambda>_. None) env 9 (tl_new, s) =
            Some (Inr ((w3, s3), t_deadline (th_of s2 0) = None \<and> 0 \<notin> set ys)) \<and>
          sched_ok s3 \<and> t_deadline (th_of s3 0) = None \<and>
          tl_rep s3 w3 (if t_deadline (th_of s2 0) = None then remove1 0 ys else ys))"
    by auto
  have "\<exists>w3 s3. wq_wait_until (\<lambda>_. None) ?env 9 (tl_new, s) =
            Some (Inr ((w3, s3), t_deadline (th_of ?s2 0) = None \<and> (0 :: nat) \<notin> set [])) \<and>
          sched_ok s3 \<and> t_deadline (th_of s3 0) = None \<and>
          tl_rep s3 w3 (if t_deadline (th_of ?s2 0) = None then remove1 0 [] else [])"
    by (rule r[rule_format]) (use s2 s(2,3) in simp)
  then show ?thesis
    using s(1) s2(2) by auto
qed

end
