(* ===== verification/RingBuffer.thy ===== *)
theory RingBuffer
  imports Prelude
begin

section \<open>Ring buffer indexes and ring buffer (\<open>lib/rbi\<close>, \<open>lib/ringbuffer\<close>)\<close>

text \<open>
  \<open>RingBufferIndex\<close> hands out the slots of a ring of a power-of-two size with two free-running
  \<open>u8\<close> counters that wrap around.  \<open>RingBuffer\<close> adds the backing array.  The counters are
  8-bit words, so that the wrap-around is the code's own.
\<close>

subsection \<open>\<open>RingBufferIndex\<close>\<close>

record rbi =
  reads :: "8 word"
  writes :: "8 word"
  idx_mask :: "8 word"

definition is_power_of_two :: "8 word \<Rightarrow> bool" where
  "is_power_of_two w \<longleftrightarrow> w \<noteq> 0 \<and> w AND (w - 1) = 0"

text \<open>
  \<open>u8::next_power_of_two\<close>: the smallest power of two not below the argument; the release profile
  wraps to 0 when that is 256.
\<close>

definition next_power_of_two :: "8 word \<Rightarrow> 8 word" where
  "next_power_of_two w =
     (case find (\<lambda>k. unat w \<le> 2 ^ k) [0..<8] of Some k \<Rightarrow> 2 ^ k | None \<Rightarrow> 0)"

definition next_smaller_power_of_two :: "8 word \<Rightarrow> 8 word" where
  "next_smaller_power_of_two val =
     (if is_power_of_two val then val else next_power_of_two (drop_bit 1 val + 1))"

definition rbi_new :: "8 word \<Rightarrow> rbi" where
  "rbi_new sz = \<lparr>reads = 0, writes = 0, idx_mask = next_smaller_power_of_two sz - 1\<rparr>"

definition rbi_available :: "rbi \<Rightarrow> 8 word" where
  "rbi_available r = writes r - reads r"

definition rbi_is_empty :: "rbi \<Rightarrow> bool" where
  "rbi_is_empty r \<longleftrightarrow> writes r - reads r = 0"

definition rbi_is_full :: "rbi \<Rightarrow> bool" where
  "rbi_is_full r \<longleftrightarrow> idx_mask r = 0 \<or> rbi_available r > idx_mask r"

definition rbi_get :: "rbi \<Rightarrow> rbi \<times> 8 word option" where
  "rbi_get r =
     (if \<not> rbi_is_empty r then (r\<lparr>reads := reads r + 1\<rparr>, Some (reads r AND idx_mask r)) else (r, None))"

definition rbi_peek :: "rbi \<Rightarrow> 8 word option" where
  "rbi_peek r = (if \<not> rbi_is_empty r then Some (reads r AND idx_mask r) else None)"

definition rbi_put :: "rbi \<Rightarrow> rbi \<times> 8 word option" where
  "rbi_put r =
     (if \<not> rbi_is_full r then (r\<lparr>writes := writes r + 1\<rparr>, Some (writes r AND idx_mask r)) else (r, None))"

definition rbi_capacity :: "rbi \<Rightarrow> nat" where
  "rbi_capacity r = (if idx_mask r > 0 then unat (idx_mask r) + 1 else 0)"

subsection \<open>\<open>RingBuffer\<close>\<close>

text \<open>
  A slot of the backing array is \<open>MaybeUninit\<close>: \<open>None\<close> until it is written.
  \<open>assume_init\<close> of an unwritten slot is undefined behaviour, which is a panic of the model.
\<close>

record 'a ringbuf =
  index :: rbi
  slots :: "'a option list option"

definition rb_new :: "'a ringbuf" where
  "rb_new = \<lparr>index = rbi_new 0, slots = None\<rparr>"

definition rb_new_with :: "'a option list \<Rightarrow> 'a ringbuf" where
  "rb_new_with arr = \<lparr>index = rbi_new (of_nat (length arr)), slots = Some arr\<rparr>"

definition rb_put :: "'a ringbuf \<Rightarrow> 'a \<Rightarrow> panic + 'a ringbuf \<times> bool" where
  "rb_put rb x =
     (case rbi_put (index rb) of
        (ix, Some pos) \<Rightarrow>
          bnd (unwrap (slots rb)) (\<lambda>arr.
          bnd (upd arr (unat pos) (Some x)) (\<lambda>arr'.
            Inr (rb\<lparr>index := ix, slots := Some arr'\<rparr>, True)))
      | (ix, None) \<Rightarrow> Inr (rb\<lparr>index := ix\<rparr>, False))"

definition rb_get_pos :: "'a ringbuf \<Rightarrow> nat \<Rightarrow> panic + 'a" where
  "rb_get_pos rb pos =
     bnd (unwrap (slots rb)) (\<lambda>arr. bnd (idx arr pos) (\<lambda>v.
       case v of Some x \<Rightarrow> Inr x | None \<Rightarrow> Inl UninitRead))"

definition rb_get :: "'a ringbuf \<Rightarrow> panic + 'a ringbuf \<times> 'a option" where
  "rb_get rb =
     (case rbi_get (index rb) of
        (ix, Some pos) \<Rightarrow>
          bnd (rb_get_pos rb (unat pos)) (\<lambda>x. Inr (rb\<lparr>index := ix\<rparr>, Some x))
      | (ix, None) \<Rightarrow> Inr (rb\<lparr>index := ix\<rparr>, None))"

definition rb_peek :: "'a ringbuf \<Rightarrow> panic + 'a option" where
  "rb_peek rb =
     (case rbi_peek (index rb) of
        Some pos \<Rightarrow> bnd (rb_get_pos rb (unat pos)) (\<lambda>x. Inr (Some x))
      | None \<Rightarrow> Inr None)"

definition rb_available :: "'a ringbuf \<Rightarrow> nat" where
  "rb_available rb = unat (rbi_available (index rb))"

definition rb_capacity :: "'a ringbuf \<Rightarrow> nat" where
  "rb_capacity rb = rbi_capacity (index rb)"

definition rb_is_full :: "'a ringbuf \<Rightarrow> bool" where
  "rb_is_full rb = rbi_is_full (index rb)"

definition rb_is_empty :: "'a ringbuf \<Rightarrow> bool" where
  "rb_is_empty rb = rbi_is_empty (index rb)"

definition rb_set_backing_array :: "'a ringbuf \<Rightarrow> 'a option list option \<Rightarrow> 'a ringbuf" where
  "rb_set_backing_array rb arr =
     (let len = (case arr of Some a \<Rightarrow> length a | None \<Rightarrow> 0)
      in rb\<lparr>slots := arr, index := rbi_new (of_nat len)\<rparr>)"

subsection \<open>Sizes\<close>

text \<open>The largest power of two not above a size, and 1 for size 0: decided for all 256 sizes.\<close>

definition pow2_floor_ok :: "nat \<Rightarrow> bool" where
  "pow2_floor_ok n \<longleftrightarrow>
     (\<exists>k\<in>set [0..<8]. next_smaller_power_of_two (of_nat n) = 2 ^ k
        \<and> (2 ^ k \<le> n \<or> n = 0 \<and> k = 0) \<and> n < 2 * 2 ^ k)"

lemma pow2_floor_all: "list_all pow2_floor_ok [0..<256]"
  by code_simp

lemma u8_less: "unat (w :: 8 word) < 256"
  using unsigned_less[of w] by simp

lemma next_smaller_power_of_two_spec:
  obtains k where "k < 8" "next_smaller_power_of_two w = 2 ^ k"
    "2 ^ k \<le> unat w \<or> unat w = 0 \<and> k = 0" "unat w < 2 * 2 ^ k"
proof -
  have "pow2_floor_ok (unat w)"
    using pow2_floor_all u8_less[of w] by (auto simp: list_all_iff)
  then show ?thesis
    using that by (auto simp: pow2_floor_ok_def)
qed

subsection \<open>The used slots\<close>

text \<open>
  \<open>rbi_rep r k\<close>: the ring has \<open>2 ^ k\<close> slots and not more than its capacity are in use.
  \<open>used r k\<close> lists them, oldest first.
\<close>

definition rbi_rep :: "rbi \<Rightarrow> nat \<Rightarrow> bool" where
  "rbi_rep r k \<longleftrightarrow> k < 8 \<and> idx_mask r = 2 ^ k - 1 \<and> unat (rbi_available r) \<le> rbi_capacity r"

definition used :: "rbi \<Rightarrow> nat \<Rightarrow> nat list" where
  "used r k = map (\<lambda>i. (unat (reads r) + i) mod 2 ^ k) [0..<unat (rbi_available r)]"

lemma unat_mask:
  assumes "k < 8"
  shows "unat (2 ^ k - 1 :: 8 word) = 2 ^ k - 1"
proof -
  have "k \<in> {0, 1, 2, 3, 4, 5, 6, 7}"
    using assms by auto
  then show ?thesis by auto
qed

lemma unat_and_mask: "unat (w AND (2 ^ k - 1) :: 8 word) = unat w mod 2 ^ k"
proof -
  have "w AND (2 ^ k - 1) = take_bit k w"
    by (simp add: take_bit_eq_mask mask_eq_exp_minus_1)
  moreover have "unat (take_bit k w) = take_bit k (unat w)"
    by (rule unsigned_take_bit_eq)
  ultimately show ?thesis
    by (metis take_bit_eq_mod)
qed

lemma pow2_le_128: "k < 8 \<Longrightarrow> (2 :: nat) ^ k \<le> 128"
  using power_increasing[of k 7 "2 :: nat"] by simp

lemma pow2_dvd_256: "k < 8 \<Longrightarrow> (2 :: nat) ^ k dvd 256"
  using le_imp_power_dvd[of k 8 "2 :: nat"] by simp

lemma rbi_capacity_pow2:
  assumes "rbi_rep r k"
  shows "rbi_capacity r = (if k = 0 then 0 else 2 ^ k)"
proof (cases "k = 0")
  case True
  then show ?thesis
    using assms by (simp add: rbi_rep_def rbi_capacity_def)
next
  case False
  then have "unat (idx_mask r) = 2 ^ k - 1" "1 < (2 :: nat) ^ k"
    using assms unat_mask[of k] one_less_power[of "2 :: nat" k] by (simp_all add: rbi_rep_def)
  then show ?thesis
    using False by (auto simp: rbi_capacity_def word_greater_zero_iff)
qed

text \<open>The write counter is the read counter plus the number of used slots, modulo 256.\<close>

lemma rbi_writes: "unat (writes r) = (unat (reads r) + unat (rbi_available r)) mod 256"
proof -
  have "writes r = reads r + rbi_available r"
    by (simp add: rbi_available_def)
  then show ?thesis
    by (simp add: unat_word_ariths)
qed

lemma rbi_is_empty_used: "rbi_is_empty r \<longleftrightarrow> used r k = []"
  by (auto simp: rbi_is_empty_def used_def rbi_available_def unat_eq_zero)

lemma rbi_is_full_iff:
  assumes "rbi_rep r k"
  shows "rbi_is_full r \<longleftrightarrow> unat (rbi_available r) = rbi_capacity r"
proof (cases "k = 0")
  case True
  then show ?thesis
    using assms by (auto simp: rbi_rep_def rbi_is_full_def rbi_capacity_def)
next
  case False
  have k: "k < 8" "idx_mask r = 2 ^ k - 1" "unat (rbi_available r) \<le> 2 ^ k"
    using assms rbi_capacity_pow2[OF assms] False by (auto simp: rbi_rep_def)
  have "1 < (2 :: nat) ^ k"
    using False one_less_power[of "2 :: nat" k] by simp
  then have "unat (idx_mask r) \<noteq> 0" "unat (idx_mask r) = 2 ^ k - 1"
    using unat_mask[OF k(1)] k(2) by simp_all
  then show ?thesis
    using k rbi_capacity_pow2[OF assms] False
    by (auto simp: rbi_is_full_def word_less_nat_alt unat_eq_zero)
qed

lemma used_Cons:
  assumes "\<not> rbi_is_empty r" "k < 8"
  shows "used r k = unat (reads r) mod 2 ^ k # used (r\<lparr>reads := reads r + 1\<rparr>) k"
proof -
  let ?a = "unat (rbi_available r)"
  have a: "0 < ?a"
    using assms(1) by (auto simp: rbi_is_empty_def rbi_available_def unat_gt_0)
  have a': "unat (rbi_available (r\<lparr>reads := reads r + 1\<rparr>)) = ?a - 1"
  proof -
    have "rbi_available (r\<lparr>reads := reads r + 1\<rparr>) = rbi_available r - 1"
      by (simp add: rbi_available_def)
    moreover have "rbi_available r \<noteq> 0"
      using a by auto
    ultimately show ?thesis
      by (metis unat_minus_one)
  qed
  have "(unat (reads r + 1) + i) mod 2 ^ k = (unat (reads r) + Suc i) mod 2 ^ k" for i
  proof -
    have "unat (reads r + 1) mod 2 ^ k = (unat (reads r) + 1) mod 2 ^ k"
      using pow2_dvd_256[OF assms(2)] by (simp add: unat_word_ariths mod_mod_cancel)
    then show ?thesis
      by (metis add.commute add_Suc_right mod_add_left_eq plus_1_eq_Suc)
  qed
  moreover have "[0..<?a] = 0 # map Suc [0..<?a - 1]"
    using a by (simp add: map_Suc_upt upt_conv_Cons)
  ultimately show ?thesis
    by (simp add: used_def a' o_def)
qed

lemma used_snoc:
  assumes "rbi_rep r k" "\<not> rbi_is_full r"
  shows "used (r\<lparr>writes := writes r + 1\<rparr>) k = used r k @ [unat (writes r) mod 2 ^ k]"
    and "rbi_rep (r\<lparr>writes := writes r + 1\<rparr>) k"
proof -
  let ?a = "unat (rbi_available r)" and ?r = "r\<lparr>writes := writes r + 1\<rparr>"
  have k: "k < 8" and a: "?a < rbi_capacity r" "rbi_capacity r \<le> 128"
    using assms rbi_is_full_iff[OF assms(1)] rbi_capacity_pow2[OF assms(1)] pow2_le_128[of k]
    by (auto simp: rbi_rep_def)
  have "rbi_available ?r = rbi_available r + 1"
    by (simp add: rbi_available_def)
  then have a': "unat (rbi_available ?r) = Suc ?a"
    using a by (simp add: unat_word_ariths)
  have "unat (writes r) mod 2 ^ k = (unat (reads r) + ?a) mod 2 ^ k"
    using pow2_dvd_256[OF k] by (simp add: rbi_writes mod_mod_cancel)
  then show "used ?r k = used r k @ [unat (writes r) mod 2 ^ k]"
    by (simp add: used_def a')
  have "rbi_capacity ?r = rbi_capacity r"
    by (simp add: rbi_capacity_def)
  then show "rbi_rep ?r k"
    using assms(1) a a' by (simp add: rbi_rep_def)
qed

lemma used_distinct:
  assumes "rbi_rep r k"
  shows "distinct (used r k)" "set (used r k) \<subseteq> {..<2 ^ k}" "length (used r k) \<le> 2 ^ k"
proof -
  let ?a = "unat (rbi_available r)"
  have a: "?a \<le> 2 ^ k"
    using assms rbi_capacity_pow2[OF assms] by (auto simp: rbi_rep_def split: if_splits)
  have "inj_on (\<lambda>i. (unat (reads r) + i) mod 2 ^ k) {..<?a}"
  proof (rule linorder_inj_onI)
    fix i j assume ij: "i < j" "i \<in> {..<?a}" "j \<in> {..<?a}"
    show "(unat (reads r) + i) mod 2 ^ k \<noteq> (unat (reads r) + j) mod 2 ^ k"
    proof
      assume "(unat (reads r) + i) mod 2 ^ k = (unat (reads r) + j) mod 2 ^ k"
      then have "2 ^ k dvd (unat (reads r) + j) - (unat (reads r) + i)"
        using ij(1) by (metis mod_eq_dvd_iff_nat add_le_mono1 add.commute less_imp_le)
      then have "2 ^ k dvd j - i" "0 < j - i" "j - i < 2 ^ k"
        using ij a by auto
      then show False
        using nat_dvd_not_less by blast
    qed
  qed auto
  then show "distinct (used r k)"
    by (simp add: used_def distinct_map atLeast_upt inj_on_def lessThan_def)
  show "set (used r k) \<subseteq> {..<2 ^ k}" "length (used r k) \<le> 2 ^ k"
    using a by (auto simp: used_def)
qed

subsection \<open>The buffer is a bounded FIFO\<close>

definition rb_rep :: "'a ringbuf \<Rightarrow> 'a list \<Rightarrow> bool" where
  "rb_rep rb xs \<longleftrightarrow>
     (\<exists>k. rbi_rep (index rb) k \<and> (k = 0 \<or> (\<exists>arr. slots rb = Some arr \<and> 2 ^ k \<le> length arr)) \<and>
          map (\<lambda>i. the (slots rb) ! i) (used (index rb) k) = map Some xs)"

lemma rbi_rep_new:
  obtains k where "rbi_rep (rbi_new w) k" "used (rbi_new w) k = []" "2 ^ k \<le> unat w \<or> k = 0"
    "rbi_capacity (rbi_new w) = (if k = 0 then 0 else 2 ^ k)" "unat w < 2 * 2 ^ k"
proof (rule next_smaller_power_of_two_spec[of w])
  fix k
  assume k: "k < 8" "next_smaller_power_of_two w = 2 ^ k" "2 ^ k \<le> unat w \<or> unat w = 0 \<and> k = 0"
    "unat w < 2 * 2 ^ k"
  have r: "rbi_rep (rbi_new w) k"
    using k by (simp add: rbi_rep_def rbi_new_def rbi_available_def)
  then show thesis
    using that[OF r] k rbi_capacity_pow2[OF r] by (auto simp: used_def rbi_new_def rbi_available_def)
qed

lemma rb_rep_new_with: "rb_rep (rb_new_with arr) []"
proof (rule rbi_rep_new[of "of_nat (length arr)"])
  fix k
  assume k: "rbi_rep (rbi_new (of_nat (length arr))) k" "used (rbi_new (of_nat (length arr))) k = []"
    "2 ^ k \<le> unat (of_nat (length arr) :: 8 word) \<or> k = 0"
  have "unat (of_nat (length arr) :: 8 word) \<le> length arr"
    by (simp add: unat_of_nat)
  then show ?thesis
    using k by (auto simp: rb_rep_def rb_new_with_def intro!: exI[of _ k])
qed

lemma rb_rep_length: "rb_rep rb xs \<Longrightarrow> length xs = rb_available rb \<and> length xs \<le> rb_capacity rb"
  by (auto simp: rb_rep_def rb_available_def rb_capacity_def used_def rbi_rep_def
      dest!: arg_cong[of _ _ length])

lemma rb_is_empty_spec: "rb_rep rb xs \<Longrightarrow> rb_is_empty rb = (xs = [])"
  using rb_rep_length[of rb xs]
  by (auto simp: rb_is_empty_def rb_available_def rbi_is_empty_def rbi_available_def unat_eq_zero)

lemma rb_is_full_spec: "rb_rep rb xs \<Longrightarrow> rb_is_full rb = (length xs = rb_capacity rb)"
  using rb_rep_length[of rb xs] rbi_is_full_iff[of "index rb"]
  by (auto simp: rb_rep_def rb_is_full_def rb_available_def rb_capacity_def)

lemma rb_put_full:
  "rb_rep rb xs \<Longrightarrow> length xs = rb_capacity rb \<Longrightarrow> rb_put rb x = Inr (rb, False)"
  using rb_is_full_spec[of rb xs] by (simp add: rb_put_def rbi_put_def rb_is_full_def)

lemma rb_put_spec:
  assumes r: "rb_rep rb xs" and nf: "length xs < rb_capacity rb"
  shows "\<exists>rb'. rb_put rb x = Inr (rb', True) \<and> rb_rep rb' (xs @ [x]) \<and> rb_capacity rb' = rb_capacity rb"
proof -
  obtain k where k: "rbi_rep (index rb) k" "k = 0 \<or> (\<exists>arr. slots rb = Some arr \<and> 2 ^ k \<le> length arr)"
    "map (\<lambda>i. the (slots rb) ! i) (used (index rb) k) = map Some xs"
    using r by (auto simp: rb_rep_def)
  have full: "\<not> rbi_is_full (index rb)"
    using rb_is_full_spec[OF r] nf by (simp add: rb_is_full_def)
  have "k \<noteq> 0"
    using rbi_capacity_pow2[OF k(1)] nf unfolding rb_capacity_def by (metis not_less_zero)
  then obtain arr where arr: "slots rb = Some arr" "2 ^ k \<le> length arr"
    using k(2) by auto
  let ?ix = "(index rb)\<lparr>writes := writes (index rb) + 1\<rparr>"
    and ?w = "unat (writes (index rb)) mod 2 ^ k"
  have w: "?w < length arr"
    using arr(2) by (rule less_le_trans[rotated]) simp
  have pos: "unat (writes (index rb) AND idx_mask (index rb)) = ?w"
    using k(1) unat_and_mask by (simp add: rbi_rep_def)
  note sn = used_snoc[OF k(1) full]
  have fresh: "?w \<notin> set (used (index rb) k)"
    using used_distinct(1)[OF sn(2)] sn(1) by simp
  let ?rb = "rb\<lparr>index := ?ix, slots := Some (arr[?w := Some x])\<rparr>"
  have "rb_put rb x = Inr (?rb, True)"
    using full arr w pos by (simp add: rb_put_def rbi_put_def)
  moreover have "map (\<lambda>i. arr[?w := Some x] ! i) (used (index rb) k) = map Some xs"
    using k(3) arr(1) fresh by (metis (no_types, lifting) map_cong nth_list_update_neq option.sel)
  then have "rb_rep ?rb (xs @ [x])"
    unfolding rb_rep_def using sn arr(2) w by (auto intro!: exI[of _ k])
  moreover have "rb_capacity ?rb = rb_capacity rb"
    by (simp add: rb_capacity_def rbi_capacity_def)
  ultimately show ?thesis by blast
qed

lemma rb_get_pos_spec:
  assumes "rb_rep rb (x # xs)"
  shows "rb_get_pos rb (unat (reads (index rb) AND idx_mask (index rb))) = Inr x"
    and "rb_rep (rb\<lparr>index := (index rb)\<lparr>reads := reads (index rb) + 1\<rparr>\<rparr>) xs"
proof -
  obtain k where k: "rbi_rep (index rb) k" "k = 0 \<or> (\<exists>arr. slots rb = Some arr \<and> 2 ^ k \<le> length arr)"
    "map (\<lambda>i. the (slots rb) ! i) (used (index rb) k) = map Some (x # xs)"
    using assms by (auto simp: rb_rep_def)
  let ?ix = "(index rb)\<lparr>reads := reads (index rb) + 1\<rparr>"
  have ne: "\<not> rbi_is_empty (index rb)"
    using rb_is_empty_spec[OF assms] by (simp add: rb_is_empty_def)
  have "k \<noteq> 0"
    using rbi_capacity_pow2[OF k(1)] rb_rep_length[OF assms] unfolding rb_capacity_def
    by (metis le_zero_eq length_Cons nat.simps(3))
  then obtain arr where arr: "slots rb = Some arr" "2 ^ k \<le> length arr"
    using k(2) by auto
  have k8: "k < 8"
    using k(1) by (simp add: rbi_rep_def)
  note uc = used_Cons[OF ne k8]
  have "unat (reads (index rb)) mod 2 ^ k < length arr"
    using arr(2) by (rule less_le_trans[rotated]) simp
  moreover have "unat (reads (index rb) AND idx_mask (index rb)) = unat (reads (index rb)) mod 2 ^ k"
    using k(1) unat_and_mask by (simp add: rbi_rep_def)
  ultimately show "rb_get_pos rb (unat (reads (index rb) AND idx_mask (index rb))) = Inr x"
    using k(3) arr(1) uc by (simp add: rb_get_pos_def)
  have "length (used (index rb) k) = Suc (length (used ?ix k))"
    using uc by simp
  then have "unat (rbi_available ?ix) \<le> unat (rbi_available (index rb))"
    by (simp add: used_def)
  moreover have "rbi_capacity ?ix = rbi_capacity (index rb)"
    by (simp add: rbi_capacity_def)
  ultimately have "rbi_rep ?ix k"
    using k(1) by (simp add: rbi_rep_def)
  then show "rb_rep (rb\<lparr>index := ?ix\<rparr>) xs"
    unfolding rb_rep_def using k(3) arr uc by (auto intro!: exI[of _ k])
qed

lemma rb_get_empty: "rb_rep rb [] \<Longrightarrow> rb_get rb = Inr (rb, None)"
  using rb_is_empty_spec[of rb "[]"] by (simp add: rb_get_def rbi_get_def rb_is_empty_def)

lemma rb_get_spec:
  assumes "rb_rep rb (x # xs)"
  shows "\<exists>rb'. rb_get rb = Inr (rb', Some x) \<and> rb_rep rb' xs \<and> rb_capacity rb' = rb_capacity rb"
  using rb_get_pos_spec[OF assms] rb_is_empty_spec[OF assms]
  by (simp add: rb_get_def rbi_get_def rb_is_empty_def rb_capacity_def rbi_capacity_def)

lemma rb_peek_spec: "rb_rep rb xs \<Longrightarrow> rb_peek rb = Inr (case xs of [] \<Rightarrow> None | x # _ \<Rightarrow> Some x)"
  using rb_is_empty_spec[of rb xs] rb_get_pos_spec(1)[of rb]
  by (cases xs) (simp_all add: rb_peek_def rbi_peek_def rb_is_empty_def)

subsection \<open>The interface: a bounded FIFO\<close>

text \<open>What a user of the buffer relies on, and what follows from it for runs of operations.\<close>

text \<open>Writing a list of elements (counting those accepted) and reading \<open>n\<close> times.\<close>

primrec put_all :: "('q \<Rightarrow> 'a \<Rightarrow> 'e + 'q \<times> bool) \<Rightarrow> 'q \<Rightarrow> 'a list \<Rightarrow> 'e + 'q \<times> nat" where
  "put_all put q [] = Inr (q, 0)"
| "put_all put q (x # xs) =
     bnd (put q x) (\<lambda>(q', ok). bnd (put_all put q' xs) (\<lambda>(q'', n). Inr (q'', if ok then Suc n else n)))"

primrec get_n :: "('q \<Rightarrow> 'e + 'q \<times> 'a option) \<Rightarrow> 'q \<Rightarrow> nat \<Rightarrow> 'e + 'q \<times> 'a list" where
  "get_n get q 0 = Inr (q, [])"
| "get_n get q (Suc n) =
     bnd (get q) (\<lambda>(q', y). bnd (get_n get q' n) (\<lambda>(q'', ys). Inr (q'', case y of Some v \<Rightarrow> v # ys | None \<Rightarrow> ys)))"

locale bounded_fifo =
  fixes rep :: "'q \<Rightarrow> 'a list \<Rightarrow> bool"
    and cap :: "'q \<Rightarrow> nat"
    and put :: "'q \<Rightarrow> 'a \<Rightarrow> 'e + 'q \<times> bool"
    and get :: "'q \<Rightarrow> 'e + 'q \<times> 'a option"
  assumes rep_cap: "rep q xs \<Longrightarrow> length xs \<le> cap q"
    and put_ok: "rep q xs \<Longrightarrow> length xs < cap q \<Longrightarrow>
      \<exists>q'. put q x = Inr (q', True) \<and> rep q' (xs @ [x]) \<and> cap q' = cap q"
    and put_full: "rep q xs \<Longrightarrow> length xs = cap q \<Longrightarrow> put q x = Inr (q, False)"
    and get_ok: "rep q (x # xs) \<Longrightarrow> \<exists>q'. get q = Inr (q', Some x) \<and> rep q' xs \<and> cap q' = cap q"
    and get_empty: "rep q [] \<Longrightarrow> get q = Inr (q, None)"
begin

lemma put_all_spec:
  "rep q xs \<Longrightarrow>
   \<exists>q'. put_all put q ys = Inr (q', min (length ys) (cap q - length xs))
     \<and> rep q' (xs @ take (cap q - length xs) ys) \<and> cap q' = cap q"
proof (induction ys arbitrary: q xs)
  case (Cons y ys)
  show ?case
  proof (cases "length xs < cap q")
    case True
    then obtain q1 where q1: "put q y = Inr (q1, True)" "rep q1 (xs @ [y])" "cap q1 = cap q"
      using put_ok[OF Cons.prems] by blast
    have "cap q - length xs = Suc (cap q - length (xs @ [y]))"
      using True by simp
    then show ?thesis
      using Cons.IH[OF q1(2)] q1 by auto
  next
    case False
    then have f: "length xs = cap q"
      using rep_cap[OF Cons.prems] by simp
    then show ?thesis
      using Cons.IH[OF Cons.prems] put_full[OF Cons.prems f] by auto
  qed
qed auto

lemma get_n_spec:
  "rep q xs \<Longrightarrow> \<exists>q'. get_n get q n = Inr (q', take n xs) \<and> rep q' (drop n xs) \<and> cap q' = cap q"
proof (induction n arbitrary: q xs)
  case (Suc n)
  show ?case
  proof (cases xs)
    case Nil
    then show ?thesis
      using get_empty Suc.prems Suc.IH[OF Suc.prems] by auto
  next
    case (Cons x ys)
    then obtain q1 where "get q = Inr (q1, Some x)" "rep q1 ys" "cap q1 = cap q"
      using get_ok Suc.prems by blast
    then show ?thesis
      using Suc.IH[of q1 ys] Cons by auto
  qed
qed auto

text \<open>Round trip: what fits is read back in the order it was written, and nothing else.\<close>

lemma put_get_roundtrip:
  assumes "rep q []"
  shows "\<exists>q1 n. put_all put q ys = Inr (q1, n) \<and> n = min (length ys) (cap q)
    \<and> (\<exists>q2. get_n get q1 (length ys) = Inr (q2, take (cap q) ys) \<and> rep q2 [])"
proof -
  obtain q1 where q1: "put_all put q ys = Inr (q1, min (length ys) (cap q))" "rep q1 (take (cap q) ys)"
    using put_all_spec[OF assms, of ys] by auto
  then show ?thesis
    using get_n_spec[OF q1(2), of "length ys"] by (auto simp: take_all drop_all min_def)
qed

end

interpretation rb: bounded_fifo rb_rep rb_capacity rb_put rb_get
  by unfold_locales
    (use rb_rep_length in \<open>auto simp: rb_put_full rb_get_empty intro: rb_put_spec rb_get_spec\<close>)

lemma capacity_new_with:
  assumes "length arr < 256"
  shows "\<exists>k. (2 ^ k \<le> length arr \<or> k = 0) \<and> length arr < 2 * 2 ^ k \<and>
    rb_capacity (rb_new_with arr) = (if k = 0 then 0 else 2 ^ k)"
proof (rule rbi_rep_new[of "of_nat (length arr)"])
  fix k
  assume k: "2 ^ k \<le> unat (of_nat (length arr) :: 8 word) \<or> k = 0"
    "rbi_capacity (rbi_new (of_nat (length arr))) = (if k = 0 then 0 else 2 ^ k)"
    "unat (of_nat (length arr) :: 8 word) < 2 * 2 ^ k"
  then show ?thesis
    using assms by (intro exI[of _ k]) (simp add: rb_capacity_def rb_new_with_def unat_of_nat)
qed

text \<open>
  A ring buffer over a backing array is a bounded queue: of the elements put into it the first
  \<open>capacity\<close> many are accepted and the others refused, getting gives exactly the accepted ones in
  the order they were put, then nothing, and nothing panics; the 8-bit counters may wrap meanwhile.
\<close>

theorem ring_buffer_round_trip:
  "\<exists>rb1 rb2. put_all rb_put (rb_new_with arr) ys =
       Inr (rb1, min (length ys) (rb_capacity (rb_new_with arr))) \<and>
     get_n rb_get rb1 (length ys) = Inr (rb2, take (rb_capacity (rb_new_with arr)) ys) \<and>
     rb_is_empty rb2"
proof -
  obtain rb1 n rb2 where "put_all rb_put (rb_new_with arr) ys = Inr (rb1, n)"
    "n = min (length ys) (rb_capacity (rb_new_with arr))"
    "get_n rb_get rb1 (length ys) = Inr (rb2, take (rb_capacity (rb_new_with arr)) ys)" "rb_rep rb2 []"
    using rb.put_get_roundtrip[OF rb_rep_new_with] by blast
  then show ?thesis
    using rb_is_empty_spec by auto
qed

text \<open>
  The capacity over an array of \<open>n < 256\<close> elements is the greatest power of two that is at most
  \<open>n\<close>, except that an array of one element gives a capacity of 0, like an empty one.
\<close>

theorem ring_buffer_capacity:
  assumes "length arr < 256"
  shows "rb_capacity (rb_new_with arr) =
    (if length arr \<le> 1 then 0 else GREATEST c. c \<le> length arr \<and> (\<exists>k. c = 2 ^ k))"
proof -
  obtain k where k: "2 ^ k \<le> length arr \<or> k = 0" "length arr < 2 * 2 ^ k"
    "rb_capacity (rb_new_with arr) = (if k = 0 then 0 else 2 ^ k)"
    using capacity_new_with[OF assms] by blast
  show ?thesis
  proof (cases "k = 0")
    case True
    then show ?thesis
      using k by simp
  next
    case False
    have "(GREATEST c. c \<le> length arr \<and> (\<exists>k. c = 2 ^ k)) = 2 ^ k"
    proof (rule Greatest_equality)
      show "2 ^ k \<le> length arr \<and> (\<exists>j. 2 ^ k = (2 :: nat) ^ j)"
        using k(1) False by auto
      fix c :: nat
      assume "c \<le> length arr \<and> (\<exists>j. c = 2 ^ j)"
      then obtain j where j: "c = 2 ^ j" "2 ^ j < (2 :: nat) ^ Suc k"
        using k(2) by auto
      then have "j < Suc k"
        using power_less_imp_less_exp[of "2 :: nat" j "Suc k"] by simp
      then show "c \<le> 2 ^ k"
        using j(1) by simp
    qed
    moreover have "1 < length arr"
      using k(1) False one_less_power[of "2 :: nat" k] by linarith
    ultimately show ?thesis
      using k(3) False by simp
  qed
qed

theorem ring_buffer_capacity_witness:
  "rb_capacity (rb_new_with [None, None, None :: nat option]) = (GREATEST c. c \<le> 3 \<and> (\<exists>k. c = 2 ^ k))"
  using ring_buffer_capacity[of "[None, None, None :: nat option]"] by (simp add: numeral_3_eq_3)

end
