(* ===== verification/EspRadio.thy ===== *)
theory EspRadio
  imports Timeout
begin

unbundle bit_operations_syntax

section \<open>The radio driver's threads, wait queues and semaphores (\<open>ariel-os-esp\<close>)\<close>

text \<open>
  \<open>scheduler.rs\<close>, \<open>semaphore.rs\<close> and \<open>wait_queue.rs\<close> give the radio driver of the ESP chips the
  operating system it asks for.  A thread is a non-null pointer to it: its number plus one.  What a
  blocked thread finds when it runs again is a parameter (\<open>env\<close>), as for the timed waits.
\<close>

subsection \<open>Threads (\<open>scheduler.rs\<close>)\<close>

type_synonym thread_ptr = nat

definition thread_id_to_ptr :: "nat \<Rightarrow> thread_ptr" where
  "thread_id_to_ptr t = t + 1"

definition thread_ptr_to_id :: "thread_ptr \<Rightarrow> nat" where
  "thread_ptr_to_id p = (p - 1) mod 256"

definition esp_yield_task :: "scheduler \<Rightarrow> panic + scheduler" where
  "esp_yield_task s = yield_same s"

definition max_task_priority :: nat where
  "max_task_priority = sched_prio_levels - 1"

definition current_task :: "scheduler \<Rightarrow> panic + thread_ptr" where
  "current_task s = bnd (unwrap (current_tid s)) (\<lambda>t. Inr (thread_id_to_ptr t))"

text \<open>
  \<open>task_create\<close>: the stack is what the allocator gave.  A core to pin to is checked by
  \<open>CoreId::new\<close>, with one core here, and has no further effect.
\<close>

definition task_create ::
    "32 word \<Rightarrow> scheduler \<Rightarrow> 32 word \<Rightarrow> 32 word \<Rightarrow> nat \<Rightarrow> 32 word option \<Rightarrow> 32 word \<Rightarrow> 32 word \<Rightarrow>
     panic + scheduler \<times> thread_ptr" where
  "task_create cleanup_fn s task param priority pin_to_core stack task_stack_size =
     (let priority = if priority \<le> max_task_priority then priority else max_task_priority in
      bnd (case pin_to_core of None \<Rightarrow> Inr () | Some x \<Rightarrow> require (ucast x < (1 :: 8 word))) (\<lambda>_.
      bnd (create_raw cleanup_fn s task (Some param) stack task_stack_size (priority mod 256)) (\<lambda>(s, t).
        Inr (s, thread_id_to_ptr t))))"

definition task_priority :: "scheduler \<Rightarrow> thread_ptr \<Rightarrow> panic + nat" where
  "task_priority s p = bnd (get_priority s (thread_ptr_to_id p)) unwrap"

definition set_task_priority :: "scheduler \<Rightarrow> thread_ptr \<Rightarrow> nat \<Rightarrow> panic + scheduler" where
  "set_task_priority s p priority = set_priority s (thread_ptr_to_id p) (priority mod 256)"

definition usleep :: "time_driver \<Rightarrow> nat \<Rightarrow> nat \<Rightarrow> scheduler \<Rightarrow> panic + scheduler" where
  "usleep driver now us s = sleep driver now us s"

definition usleep_until :: "time_driver \<Rightarrow> nat \<Rightarrow> scheduler \<Rightarrow> panic + scheduler" where
  "usleep_until driver target s = sleep_until driver target s"

text \<open>The semaphore of the current thread, made when it is first asked for; \<open>new\<close> is what is made.\<close>

definition current_task_thread_semaphore ::
    "scheduler \<Rightarrow> nat option list \<Rightarrow> nat \<Rightarrow> panic + nat option list \<times> nat" where
  "current_task_thread_semaphore s semaphores new =
     bnd (unwrap (current_tid s)) (\<lambda>t.
     bnd (idx semaphores t) (\<lambda>cur.
       case cur of
         None \<Rightarrow> Inr (semaphores[t := Some new], new)
       | Some p \<Rightarrow> Inr (semaphores, p)))"

subsection \<open>Wait queues (\<open>wait_queue.rs\<close>)\<close>

definition esp_wait_until ::
    "time_driver \<Rightarrow> (threadlist \<times> scheduler \<Rightarrow> threadlist \<times> scheduler) \<Rightarrow> nat option \<Rightarrow>
     threadlist \<times> scheduler \<Rightarrow> (panic + threadlist \<times> scheduler) option" where
  "esp_wait_until driver env deadline x =
     (case deadline of
        Some micros \<Rightarrow> obnd (wq_wait_until driver env micros x) (\<lambda>(x, _). Some (Inr x))
      | None \<Rightarrow> obnd (wq_wait_cs (fst x) (snd x)) (\<lambda>y. Some (Inr (env y))))"

definition esp_notify :: "threadlist \<Rightarrow> scheduler \<Rightarrow> panic + threadlist \<times> scheduler" where
  "esp_notify w s = wq_notify_one w s"

subsection \<open>Semaphores (\<open>semaphore.rs\<close>)\<close>

datatype sem_inner =
    Counting "32 word" "32 word"   \<comment> \<open>current, max\<close>
  | SemMutex bool "thread_ptr option" nat "32 word"
      \<comment> \<open>\<open>recursive\<close>, \<open>owner\<close>, \<open>original_priority\<close>, \<open>lock_counter\<close>\<close>

fun sem_try_take :: "sem_inner \<Rightarrow> scheduler \<Rightarrow> panic + (sem_inner \<times> scheduler) \<times> bool" where
  "sem_try_take (Counting avail limit) s =
     (if 0 < avail then Inr ((Counting (avail - 1) limit, s), True) else Inr ((Counting avail limit, s), False))"
| "sem_try_take (SemMutex recursive owner original_priority lock_counter) s =
     bnd (current_task s) (\<lambda>me.
       case owner of
         Some owner' \<Rightarrow>
           if owner' = me \<and> recursive then
             Inr ((SemMutex recursive owner original_priority (lock_counter + 1), s), True)
           else
             bnd (task_priority s me) (\<lambda>current_priority.
             bnd (task_priority s owner') (\<lambda>owner_priority.
             bnd (if owner_priority < current_priority then set_task_priority s owner' current_priority else Inr s) (\<lambda>s.
               Inr ((SemMutex recursive owner original_priority lock_counter, s), False))))
       | None \<Rightarrow>
           bnd (task_priority s me) (\<lambda>original_priority.
             Inr ((SemMutex recursive (Some me) original_priority (lock_counter + 1), s), True)))"

text \<open>\<open>NonNull::dangling()\<close> of a type of alignment 1.\<close>

definition isr_owner :: thread_ptr where
  "isr_owner = 1"

fun sem_try_take_from_isr :: "sem_inner \<Rightarrow> sem_inner \<times> bool" where
  "sem_try_take_from_isr (Counting avail limit) =
     (if 0 < avail then (Counting (avail - 1) limit, True) else (Counting avail limit, False))"
| "sem_try_take_from_isr (SemMutex recursive owner original_priority lock_counter) =
     (case owner of
        Some owner' \<Rightarrow>
          if owner' = isr_owner \<and> recursive then (SemMutex recursive owner original_priority (lock_counter + 1), True)
          else (SemMutex recursive owner original_priority lock_counter, False)
      | None \<Rightarrow> (SemMutex recursive (Some isr_owner) original_priority (lock_counter + 1), True))"

fun sem_try_give :: "sem_inner \<Rightarrow> scheduler \<Rightarrow> panic + (sem_inner \<times> scheduler) \<times> bool" where
  "sem_try_give (Counting avail limit) s =
     (if avail < limit then Inr ((Counting (avail + 1) limit, s), True) else Inr ((Counting avail limit, s), False))"
| "sem_try_give (SemMutex recursive owner original_priority lock_counter) s =
     bnd (current_task s) (\<lambda>me.
       if owner = Some me \<and> 0 < lock_counter then
         if lock_counter - 1 = 0 then
           bnd (set_task_priority s me original_priority) (\<lambda>s.
             Inr ((SemMutex recursive None original_priority (lock_counter - 1), s), True))
         else Inr ((SemMutex recursive owner original_priority (lock_counter - 1), s), True)
       else Inr ((SemMutex recursive owner original_priority lock_counter, s), False))"

fun sem_try_give_from_isr :: "sem_inner \<Rightarrow> sem_inner \<times> bool" where
  "sem_try_give_from_isr (Counting avail limit) =
     (if avail < limit then (Counting (avail + 1) limit, True) else (Counting avail limit, False))"
| "sem_try_give_from_isr (SemMutex recursive owner original_priority lock_counter) =
     (if owner = Some isr_owner \<and> 0 < lock_counter then
        (SemMutex recursive (if lock_counter - 1 = 0 then None else owner) original_priority (lock_counter - 1), True)
      else (SemMutex recursive owner original_priority lock_counter, False))"

fun sem_current_count :: "sem_inner \<Rightarrow> panic + 32 word" where
  "sem_current_count (Counting avail limit) = Inr avail"
| "sem_current_count (SemMutex recursive owner original_priority lock_counter) = Inl ExplicitPanic"

text \<open>A semaphore and its queue of waiters.\<close>

datatype sem_kind = KindCounting "32 word" "32 word" | KindMutex | KindRecursiveMutex

definition new_counting :: "32 word \<Rightarrow> 32 word \<Rightarrow> sem_inner \<times> threadlist" where
  "new_counting initial limit = (Counting initial limit, wq_new)"

definition new_mutex :: "bool \<Rightarrow> sem_inner \<times> threadlist" where
  "new_mutex recursive = (SemMutex recursive None 0 0, wq_new)"

fun sem_create :: "sem_kind \<Rightarrow> sem_inner \<times> threadlist" where
  "sem_create (KindCounting limit initial) = new_counting initial limit"
| "sem_create KindMutex = new_mutex False"
| "sem_create KindRecursiveMutex = new_mutex True"

definition sem_give ::
    "(sem_inner \<times> threadlist) \<times> scheduler \<Rightarrow> panic + ((sem_inner \<times> threadlist) \<times> scheduler) \<times> bool" where
  "sem_give x =
     (case x of ((d, w), s) \<Rightarrow>
        bnd (sem_try_give d s) (\<lambda>((d, s), given).
          if given then bnd (wq_notify_one w s) (\<lambda>(w, s). Inr (((d, w), s), True))
          else Inr (((d, w), s), False)))"

definition sem_give_from_isr ::
    "(sem_inner \<times> threadlist) \<times> scheduler \<Rightarrow> panic + ((sem_inner \<times> threadlist) \<times> scheduler) \<times> bool" where
  "sem_give_from_isr x =
     (case x of ((d, w), s) \<Rightarrow>
        let (d, given) = sem_try_give_from_isr d in
        if given then bnd (wq_notify_one w s) (\<lambda>(w, s). Inr (((d, w), s), True))
        else Inr (((d, w), s), False))"

definition sem_check ::
    "(sem_inner \<times> threadlist) \<times> scheduler \<Rightarrow> panic + ((sem_inner \<times> threadlist) \<times> scheduler) \<times> bool" where
  "sem_check x =
     (case x of ((d, w), s) \<Rightarrow> bnd (sem_try_take d s) (\<lambda>((d, s), taken). Inr (((d, w), s), taken)))"

text \<open>
  The loop of \<open>take_with_deadline\<close>.  For its \<open>i\<close>-th round, \<open>driver i\<close> is the timer, \<open>env i\<close> what happens
  while the thread is blocked, \<open>clock i\<close> what \<open>now()\<close> gives after it, and \<open>gap i\<close> what other threads do
  before the next round.
\<close>

type_synonym sem_state = "(sem_inner \<times> threadlist) \<times> scheduler"

partial_function (option) sem_take_loop ::
    "(nat \<Rightarrow> time_driver) \<Rightarrow> (nat \<Rightarrow> sem_state \<Rightarrow> sem_state) \<Rightarrow> (nat \<Rightarrow> sem_state \<Rightarrow> sem_state) \<Rightarrow> (nat \<Rightarrow> nat) \<Rightarrow>
     nat \<Rightarrow> nat \<Rightarrow> sem_state \<Rightarrow> (panic + sem_state \<times> bool) option" where
  "sem_take_loop driver env gap clock deadline i x =
     (case wq_wait_until_with_check (driver i) (env i) deadline sem_check x of
        None \<Rightarrow> None
      | Some (Inl e) \<Rightarrow> Some (Inl e)
      | Some (Inr (x, taken)) \<Rightarrow>
          if taken then Some (Inr (x, True))
          else if deadline < clock i then Some (Inr (x, False))
          else sem_take_loop driver env gap clock deadline (i + 1) (gap i x))"

definition sem_take_with_deadline ::
    "(nat \<Rightarrow> time_driver) \<Rightarrow> (nat \<Rightarrow> sem_state \<Rightarrow> sem_state) \<Rightarrow> (nat \<Rightarrow> sem_state \<Rightarrow> sem_state) \<Rightarrow> (nat \<Rightarrow> nat) \<Rightarrow>
     nat option \<Rightarrow> sem_state \<Rightarrow> (panic + sem_state \<times> bool) option" where
  "sem_take_with_deadline driver env gap clock deadline x =
     sem_take_loop driver env gap clock (case deadline of None \<Rightarrow> 2 ^ 64 - 1 | Some d \<Rightarrow> d) 0 x"

definition sem_take ::
    "(nat \<Rightarrow> time_driver) \<Rightarrow> (nat \<Rightarrow> sem_state \<Rightarrow> sem_state) \<Rightarrow> (nat \<Rightarrow> sem_state \<Rightarrow> sem_state) \<Rightarrow> (nat \<Rightarrow> nat) \<Rightarrow>
     nat \<Rightarrow> nat option \<Rightarrow> sem_state \<Rightarrow> (panic + sem_state \<times> bool) option" where
  "sem_take driver env gap clock now timeout_us x =
     sem_take_with_deadline driver env gap clock (map_option (\<lambda>us. (now + us) mod 2 ^ 64) timeout_us) x"

end
