(* ===== verification/EspSemaphore.thy ===== *)
theory EspSemaphore
  imports EspRadio Mutex
begin

section \<open>What the radio driver's semaphores guarantee\<close>

lemma ptr_id [simp]: "t < 256 \<Longrightarrow> thread_ptr_to_id (thread_id_to_ptr t) = t"
  by (simp add: thread_ptr_to_id_def thread_id_to_ptr_def)

lemma ptr_inj: "thread_id_to_ptr t = thread_id_to_ptr u \<longleftrightarrow> t = u"
  by (simp add: thread_id_to_ptr_def)

lemma current_task_ok: "current_thread s = Some c \<Longrightarrow> current_task s = Inr (thread_id_to_ptr c)"
  by (simp add: current_task_def current_tid_def)

lemma thread_count_256: "t < thread_count \<Longrightarrow> t < 256"
  by (simp add: thread_count_def)

lemma task_priority_ok:
  assumes "sched_ok s" "t < thread_count" "t_state (th_of s t) \<noteq> Invalid"
  shows "task_priority s (thread_id_to_ptr t) = Inr (t_prio (th_of s t))"
  using assms thread_count_256[OF assms(2)]
  by (simp add: task_priority_def get_priority_def is_valid_tid_def sched_ok_get)

lemma set_task_priority_ok:
  assumes "sched_ok s" "t < thread_count" "t_state (th_of s t) \<noteq> Invalid" "p < sched_prio_levels"
  shows "\<exists>s'. set_task_priority s (thread_id_to_ptr t) p = Inr s' \<and> sched_ok s' \<and> current_thread s' = current_thread s \<and>
    thread_blocklist s' = thread_blocklist s \<and> (pending s \<longrightarrow> pending s') \<and>
    threads s' = (threads s)[t := (th_of s t)\<lparr>t_prio := p\<rparr>]"
proof -
  have "p mod 256 = p"
    using assms(4) by (simp add: sched_prio_levels_def thread_count_def)
  then show ?thesis
    using set_prio_ok[OF assms(1,4,2,3)] thread_count_256[OF assms(2)] by (simp add: set_task_priority_def)
qed

subsection \<open>Counting\<close>

datatype sem_op = Take | Give | TakeIsr | GiveIsr

text \<open>The operations that do not block, and how many of each kind succeed.\<close>

fun sem_perform :: "sem_op \<Rightarrow> sem_inner \<Rightarrow> scheduler \<Rightarrow> panic + (sem_inner \<times> scheduler) \<times> bool" where
  "sem_perform Take d s = sem_try_take d s"
| "sem_perform Give d s = sem_try_give d s"
| "sem_perform TakeIsr d s = (let (d, b) = sem_try_take_from_isr d in Inr ((d, s), b))"
| "sem_perform GiveIsr d s = (let (d, b) = sem_try_give_from_isr d in Inr ((d, s), b))"

fun is_take :: "sem_op \<Rightarrow> bool" where
  "is_take Take = True"
| "is_take TakeIsr = True"
| "is_take Give = False"
| "is_take GiveIsr = False"

fun sem_ops :: "sem_op list \<Rightarrow> sem_inner \<Rightarrow> scheduler \<Rightarrow> panic + (sem_inner \<times> scheduler) \<times> bool list" where
  "sem_ops [] d s = Inr ((d, s), [])"
| "sem_ops (a # as) d s =
     bnd (sem_perform a d s) (\<lambda>((d, s), b). bnd (sem_ops as d s) (\<lambda>(x, bs). Inr (x, b # bs)))"

definition successes :: "(sem_op \<Rightarrow> bool) \<Rightarrow> sem_op list \<Rightarrow> bool list \<Rightarrow> nat" where
  "successes k as bs = length (filter (\<lambda>(a, b). k a \<and> b) (zip as bs))"

lemma successes_simps [simp]:
  "successes k [] bs = 0"
  "successes k (a # as) (b # bs) = (if k a \<and> b then 1 else 0) + successes k as bs"
  by (simp_all add: successes_def)

lemma counting_op:
  assumes "sem_perform a (Counting n m) s = Inr ((d, s'), b)" "n \<le> m"
  obtains n' where "d = Counting n' m" "s' = s" "n' \<le> m"
    "unat n' + (if is_take a \<and> b then 1 else 0) = unat n + (if \<not> is_take a \<and> b then 1 else 0)"
    "b \<longleftrightarrow> (if is_take a then 0 < n else n < m)"
proof -
  have dec: "unat (n - 1) + 1 = unat n" "n - 1 \<le> m" if "0 < n"
  proof -
    have "unat (n - 1) = unat n - 1" "0 < unat n"
      using that by (simp_all add: unat_sub word_less_nat_alt word_le_nat_alt)
    then show "unat (n - 1) + 1 = unat n" "n - 1 \<le> m"
      using assms(2) by (simp_all add: word_le_nat_alt)
  qed
  have inc: "unat (n + 1) = unat n + 1" "n + 1 \<le> m" if "n < m"
    using that by unat_arith+
  show ?thesis
    using assms that dec inc by (cases a) (auto split: if_splits)
qed

text \<open>
  The count of a counting semaphore never leaves the range from 0 to its maximum, and is the initial
  count plus the successful gives minus the successful takes, by threads and interrupts in any order; a
  take fails exactly at 0 and a give exactly at the maximum, so no permit is lost or made up.
\<close>

theorem counting_conserves_permits:
  assumes "sem_ops as (Counting n m) s = Inr ((d, s'), bs)" "n \<le> m"
  shows "\<exists>n'. d = Counting n' m \<and> n' \<le> m \<and> s' = s \<and>
    unat n' + successes is_take as bs = unat n + successes (\<lambda>a. \<not> is_take a) as bs \<and>
    (\<forall>a. \<exists>d2. sem_perform a d s' = Inr ((d2, s'), if is_take a then 0 < n' else n' < m))"
  using assms
proof (induction as arbitrary: n s bs)
  case (Cons a as)
  obtain d1 s1 b bs' where 1: "sem_perform a (Counting n m) s = Inr ((d1, s1), b)"
    "sem_ops as d1 s1 = Inr ((d, s'), bs')" "bs = b # bs'"
    using Cons.prems(1) by (auto simp: bnd_eq_Inr)
  then obtain n1 where n1: "d1 = Counting n1 m" "s1 = s" "n1 \<le> m"
    "unat n1 + (if is_take a \<and> b then 1 else 0) = unat n + (if \<not> is_take a \<and> b then 1 else 0)"
    using counting_op[OF 1(1) Cons.prems(2)] by metis
  show ?case
    using Cons.IH[OF 1(2)[unfolded n1(1)] n1(3)] n1(2,4) 1(3) by (auto split: if_splits)
next
  case Nil
  have "\<exists>d2. sem_perform a (Counting n m) s = Inr ((d2, s), if is_take a then 0 < n else n < m)" for a
    by (cases a) auto
  then show ?case
    using Nil by (intro exI[of _ n]) (auto simp del: split_paired_Ex)
qed

subsection \<open>Mutexes\<close>

text \<open>
  Threads that take and give a mutex, in any interleaving; \<open>held\<close> counts how often each thread has it.
  Between these calls the scheduler may do anything (\<open>Other\<close>).  A lock counter of 32 bits is taken
  not to overflow.
\<close>

record mutex_users =
  mu_sem :: sem_inner
  mu_sched :: scheduler
  held :: "nat \<Rightarrow> nat"

definition current_of :: "mutex_users \<Rightarrow> nat" where
  "current_of x = the (current_thread (mu_sched x))"

inductive mutex_user_step :: "mutex_users \<Rightarrow> mutex_users \<Rightarrow> bool" where
  Take: "sem_try_take (mu_sem x) (mu_sched x) = Inr ((d, s), b) \<Longrightarrow>
    (\<forall>r ow p n. mu_sem x = SemMutex r ow p n \<longrightarrow> n < 2 ^ 32 - 1) \<Longrightarrow>
    mutex_user_step x \<lparr>mu_sem = d, mu_sched = s,
      held = (if b then (held x)(current_of x := held x (current_of x) + 1) else held x)\<rparr>"
| Give: "sem_try_give (mu_sem x) (mu_sched x) = Inr ((d, s), b) \<Longrightarrow>
    mutex_user_step x \<lparr>mu_sem = d, mu_sched = s,
      held = (if b then (held x)(current_of x := held x (current_of x) - 1) else held x)\<rparr>"
| Other: "mutex_user_step x (x\<lparr>mu_sched := s\<rparr>)"

definition mutex_users_init :: "bool \<Rightarrow> scheduler \<Rightarrow> mutex_users" where
  "mutex_users_init r s = \<lparr>mu_sem = fst (new_mutex r), mu_sched = s, held = (\<lambda>_. 0)\<rparr>"

definition mutex_users_inv :: "bool \<Rightarrow> mutex_users \<Rightarrow> bool" where
  "mutex_users_inv r x \<longleftrightarrow>
     (\<exists>p. mu_sem x = SemMutex r None p 0 \<and> held x = (\<lambda>_. 0)) \<or>
     (\<exists>p n t. mu_sem x = SemMutex r (Some (thread_id_to_ptr t)) p n \<and> 0 < n \<and> (n = 1 \<or> r) \<and>
        held x = (\<lambda>_. 0)(t := unat n))"

lemma unat_plus_one: "n < 2 ^ 32 - 1 \<Longrightarrow> unat (n + 1 :: 32 word) = unat n + 1 \<and> 0 < n + 1"
  by (simp add: word_less_nat_alt unat_word_ariths)

lemma unat_minus_one': "0 < n \<Longrightarrow> unat (n - 1 :: 32 word) = unat n - 1"
  by (simp add: unat_sub word_less_nat_alt word_le_nat_alt)

text \<open>What a call on a mutex can have done.\<close>

lemma try_take_mutex_cases:
  assumes "sem_try_take (SemMutex r ow p n) s = Inr ((d, s'), b)"
  obtains (taken) c q where "current_thread s = Some c" "ow = None" "b" "d = SemMutex r (Some (thread_id_to_ptr c)) q (n + 1)"
    | (again) c where "current_thread s = Some c" "ow = Some (thread_id_to_ptr c)" "r" "b" "d = SemMutex r ow p (n + 1)"
    | (refused) "ow \<noteq> None" "\<not> b" "d = SemMutex r ow p n"
  using assms
  by (cases ow) (auto simp: current_task_def current_tid_def bnd_eq_Inr unwrap_eq_Inr split: if_splits)

lemma try_give_mutex_cases:
  assumes "sem_try_give (SemMutex r ow p n) s = Inr ((d, s'), b)"
  obtains (released) c where "current_thread s = Some c" "ow = Some (thread_id_to_ptr c)" "b" "n = 1" "d = SemMutex r None p 0"
    | (still) c where "current_thread s = Some c" "ow = Some (thread_id_to_ptr c)" "b" "0 < n" "n \<noteq> 1"
        "d = SemMutex r ow p (n - 1)"
    | (refused) "\<not> b" "d = SemMutex r ow p n"
  using assms
  by (auto simp: current_task_def current_tid_def bnd_eq_Inr unwrap_eq_Inr split: if_splits)

lemma mutex_users_inv_cases:
  assumes "mutex_users_inv r x"
  obtains (free) p where "mu_sem x = SemMutex r None p 0" "held x = (\<lambda>_. 0)"
    | (held) p n t where "mu_sem x = SemMutex r (Some (thread_id_to_ptr t)) p n" "0 < n" "n = 1 \<or> r"
        "held x = (\<lambda>_. 0)(t := unat n)"
  using assms unfolding mutex_users_inv_def by blast

lemma mutex_users_invI:
  "d = SemMutex r None p 0 \<Longrightarrow> h = (\<lambda>_. 0) \<Longrightarrow> mutex_users_inv r \<lparr>mu_sem = d, mu_sched = s, held = h\<rparr>"
  "d = SemMutex r (Some (thread_id_to_ptr t)) p n \<Longrightarrow> 0 < n \<Longrightarrow> n = 1 \<or> r \<Longrightarrow> h = (\<lambda>_. 0)(t := unat n) \<Longrightarrow>
    mutex_users_inv r \<lparr>mu_sem = d, mu_sched = s, held = h\<rparr>"
  unfolding mutex_users_inv_def by auto

lemma mutex_take_inv:
  assumes "sem_try_take (mu_sem x) (mu_sched x) = Inr ((d, s), b)" "mutex_users_inv r x"
    and "\<forall>r ow p n. mu_sem x = SemMutex r ow p n \<longrightarrow> n < 2 ^ 32 - 1"
  shows "mutex_users_inv r \<lparr>mu_sem = d, mu_sched = s,
    held = (if b then (held x)(current_of x := held x (current_of x) + 1) else held x)\<rparr>"
  using assms(2)
proof (cases rule: mutex_users_inv_cases)
  case (free p)
  from assms(1)[unfolded free(1)] show ?thesis
    by (cases rule: try_take_mutex_cases) (auto simp: free current_of_def fun_eq_iff intro!: mutex_users_invI(2))
next
  case (held p n t)
  have n: "unat (n + 1) = unat n + 1" "0 < n + 1"
    using assms(3) held(1) unat_plus_one[of n] by auto
  from assms(1)[unfolded held(1)] show ?thesis
  proof (cases rule: try_take_mutex_cases)
    case (again c)
    then show ?thesis
      using n held by (intro mutex_users_invI(2)) (auto simp: current_of_def ptr_inj fun_eq_iff)
  next
    case refused
    then show ?thesis
      using held by (intro mutex_users_invI(2)) auto
  qed simp
qed

lemma mutex_give_inv:
  assumes "sem_try_give (mu_sem x) (mu_sched x) = Inr ((d, s), b)" "mutex_users_inv r x"
  shows "mutex_users_inv r \<lparr>mu_sem = d, mu_sched = s,
    held = (if b then (held x)(current_of x := held x (current_of x) - 1) else held x)\<rparr>"
  using assms(2)
proof (cases rule: mutex_users_inv_cases)
  case (free p)
  from assms(1)[unfolded free(1)] show ?thesis
    by (cases rule: try_give_mutex_cases) (auto simp: free intro!: mutex_users_invI(1))
next
  case (held p n t)
  from assms(1)[unfolded held(1)] show ?thesis
  proof (cases rule: try_give_mutex_cases)
    case (released c)
    then show ?thesis
      using held by (intro mutex_users_invI(1)) (auto simp: current_of_def ptr_inj fun_eq_iff)
  next
    case (still c)
    then have "0 < n - 1"
      by (simp add: word_gt_0)
    then show ?thesis
      using still held unat_minus_one'[of n] by (intro mutex_users_invI(2)) (auto simp: current_of_def ptr_inj fun_eq_iff)
  next
    case refused
    then show ?thesis
      using held by (intro mutex_users_invI(2)) auto
  qed
qed

lemma mutex_user_step_inv: "mutex_user_step x x' \<Longrightarrow> mutex_users_inv r x \<Longrightarrow> mutex_users_inv r x'"
proof (induction rule: mutex_user_step.induct)
  case (Take x d s b)
  then show ?case
    using mutex_take_inv by blast
next
  case (Give x d s b)
  then show ?case
    using mutex_give_inv by blast
next
  case (Other x s)
  then show ?case
    by (simp add: mutex_users_inv_def)
qed

lemma mutex_users_reach_inv:
  "mutex_user_step\<^sup>*\<^sup>* (mutex_users_init r s) x \<Longrightarrow> mutex_users_inv r x"
proof (induction rule: rtranclp_induct)
  case base
  then show ?case
    by (simp add: mutex_users_inv_def mutex_users_init_def new_mutex_def)
next
  case (step y z)
  then show ?case
    using mutex_user_step_inv by blast
qed


text \<open>A scheduler with thread 0 running at priority 3.\<close>

lemma running_scheduler:
  obtains s where "sched_ok s" "current_thread s = Some 0" "\<not> pending s" "t_prio (th_of s 0) = 3"
  using boot_with_waiter[of Parked] by auto

lemma take_free_mutex:
  assumes "sched_ok s" "current_thread s = Some c" "\<not> pending s"
  shows "sem_try_take (SemMutex r None p n) s =
    Inr ((SemMutex r (Some (thread_id_to_ptr c)) (t_prio (th_of s c)) (n + 1), s), True)"
  using task_priority_ok[OF assms(1)] sched_ok_current[OF assms] by (simp add: current_task_ok[OF assms(2)])


theorem counting_conserves_permits_witness:
  "\<exists>s d bs. sem_ops [TakeIsr, Take, GiveIsr, Take] (Counting 1 4) s = Inr ((d, s), bs) \<and> d = Counting 0 4 \<and>
    successes is_take [TakeIsr, Take, GiveIsr, Take] bs = 2"
proof -
  have r: "sem_ops [TakeIsr, Take, GiveIsr, Take] (Counting 1 4) s = Inr ((Counting 0 4, s), [True, False, True, True])" for s
    by simp
  show ?thesis
    using counting_conserves_permits[OF r[of scheduler_new]] r[of scheduler_new] by fastforce
qed

text \<open>
  Interrupts use \<open>NonNull::dangling()\<close> as the owner of a mutex, which is the address 1 and so the
  pointer of thread 0: an interrupt takes a recursive mutex that thread 0 holds, and thread 0 releases a
  mutex that an interrupt holds.
\<close>

theorem isr_owner_is_thread_0:
  assumes "sched_ok s" "current_thread s = Some 0" "\<not> pending s" "p < sched_prio_levels"
  shows "(\<exists>m m'. sem_try_take (SemMutex True None p 0) s = Inr ((m, s), True) \<and> sem_try_take_from_isr m = (m', True)) \<and>
    (\<exists>m s'. sem_try_take_from_isr (SemMutex r None p 0) = (m, True) \<and>
      sem_try_give m s = Inr ((SemMutex r None p 0, s'), True))"
proof -
  have isr: "thread_id_to_ptr 0 = isr_owner"
    by (simp add: isr_owner_def thread_id_to_ptr_def)
  have "\<exists>s'. set_task_priority s isr_owner p = Inr s'"
    using set_task_priority_ok[OF assms(1) _ _ assms(4), of 0] sched_ok_current[OF assms(1-3)] isr by auto
  then have "\<exists>m s'. sem_try_take_from_isr (SemMutex r None p 0) = (m, True) \<and>
      sem_try_give m s = Inr ((SemMutex r None p 0, s'), True)"
    using current_task_ok[OF assms(2)] isr by auto
  then show ?thesis
    using take_free_mutex[OF assms(1-3), of True p 0] isr by auto
qed

theorem isr_owner_is_thread_0_witness:
  "\<exists>s m s'. sem_try_take_from_isr (SemMutex False None 3 0) = (m, True) \<and>
    sem_try_give m s = Inr ((SemMutex False None 3 0, s'), True)"
proof -
  obtain s where "sched_ok s" "current_thread s = Some 0" "\<not> pending s"
    by (rule running_scheduler)
  from isr_owner_is_thread_0[OF this, of 3 False] show ?thesis
    by (auto simp: sched_prio_levels_def thread_count_def)
qed

subsection \<open>Taking with a deadline\<close>

text \<open>Raising a priority up to that of the running thread requests no context switch.\<close>

lemma set_priority_pending:
  assumes "set_priority s t p = Inr s'" "current_thread s = Some c" "c \<noteq> t" "c < length (threads s)" "p \<le> t_prio (th_of s c)"
    "t_prio (th_of s t) < p"
  shows "pending s' = pending s"
  using assms unfolding set_priority_def
  by (auto simp: bnd_eq_Inr Let_def is_running_def current_tid_def schedule_if_higher_prio_def current_def get_unchecked_def
      idx_eq_Inr is_valid_tid_def split: if_splits)

text \<open>The owner of a mutex is a live thread.\<close>

definition owner_ok :: "sem_inner \<Rightarrow> scheduler \<Rightarrow> bool" where
  "owner_ok d s \<longleftrightarrow> (\<forall>r ow p n. d = SemMutex r (Some ow) p n \<longrightarrow>
     (\<exists>t<thread_count. ow = thread_id_to_ptr t \<and> t_state (th_of s t) \<noteq> Invalid))"

definition runs :: "nat \<Rightarrow> scheduler \<Rightarrow> bool" where
  "runs c s \<longleftrightarrow> sched_ok s \<and> current_thread s = Some c \<and> t_state (th_of s c) = Running"

lemma runsI: "sched_ok s \<Longrightarrow> current_thread s = Some c \<Longrightarrow> \<not> pending s \<Longrightarrow> runs c s"
  using sched_ok_current by (simp add: runs_def)

lemma try_take_ok:
  assumes run: "runs c s" and d: "owner_ok d s"
  shows "\<exists>d' s' b. sem_try_take d s = Inr ((d', s'), b) \<and> runs c s' \<and> owner_ok d' s' \<and> pending s' = pending s \<and>
    thread_blocklist s' = thread_blocklist s \<and>
    (\<forall>t. t_state (th_of s' t) = t_state (th_of s t) \<and> t_deadline (th_of s' t) = t_deadline (th_of s t))"
proof (cases d)
  case (Counting n m)
  then show ?thesis
    using run by (cases "0 < n") (auto simp: owner_ok_def)
next
  case (SemMutex r ow p n)
  note s = run[unfolded runs_def]
  have c: "c < thread_count" "t_state (th_of s c) = Running"
    using sched_ok_cur s by auto
  note cp = task_priority_ok[of s c] current_task_ok[of s c]
  show ?thesis
  proof (cases ow)
    case None
    then show ?thesis
      using SemMutex s c cp by (auto simp: owner_ok_def runs_def)
  next
    case (Some q)
    then obtain t where t: "t < thread_count" "q = thread_id_to_ptr t" "t_state (th_of s t) \<noteq> Invalid"
      using d SemMutex by (auto simp: owner_ok_def)
    note tp = task_priority_ok[of s t, OF _ t(1,3)]
    show ?thesis
    proof (cases "(t = c \<and> r) \<or> \<not> t_prio (th_of s t) < t_prio (th_of s c)")
      case True
      then show ?thesis
        using SemMutex Some s c cp tp t by (auto simp: owner_ok_def runs_def ptr_inj)
    next
      case False
      have pc: "t_prio (th_of s c) < sched_prio_levels"
        using sched_ok_prio s c by blast
      obtain s' where s': "set_task_priority s q (t_prio (th_of s c)) = Inr s'" "sched_ok s'"
        "current_thread s' = Some c" "thread_blocklist s' = thread_blocklist s"
        "threads s' = (threads s)[t := (th_of s t)\<lparr>t_prio := t_prio (th_of s c)\<rparr>]"
        using set_task_priority_ok[of s t "t_prio (th_of s c)"] s t pc by auto
      have "set_priority s t (t_prio (th_of s c)) = Inr s'"
        using s'(1) t pc thread_count_256 by (simp add: set_task_priority_def sched_prio_levels_def thread_count_def)
      then have "pending s' = pending s"
        using set_priority_pending[of s t _ s' c] False s c sched_ok_len(1)[of s] by auto
      moreover have "t_state (th_of s' u) = t_state (th_of s u) \<and> t_deadline (th_of s' u) = t_deadline (th_of s u)" for u
        using s'(5) t(1) sched_ok_len(1)[of s] s by (cases "u = t") auto
      moreover have "sem_try_take d s = Inr ((d, s'), False)"
        using SemMutex Some False s c cp tp s'(1) t by (auto simp: ptr_inj)
      ultimately show ?thesis
        using s'(2-4) s d by (auto simp: runs_def owner_ok_def)
    qed
  qed
qed

text \<open>
  What the rest of the system owes to the thread \<open>c\<close>: \<open>blocked\<close> is what it leaves behind when it blocks,
  \<open>resumed\<close> what it finds when it runs again, in the list of waiters only if its deadline has expired.
  \<open>at_work\<close> is its state between rounds, out of the list, when it can run.
\<close>

definition blocked :: "nat \<Rightarrow> nat \<Rightarrow> sem_state \<Rightarrow> bool" where
  "blocked c deadline x \<longleftrightarrow> (case x of ((d, w), s) \<Rightarrow>
     sched_ok s \<and> current_thread s = Some c \<and> pending s \<and> t_state (th_of s c) = WaitQueueBlocked \<and>
     t_deadline (th_of s c) = Some deadline \<and> owner_ok d s \<and> (\<exists>xs. tl_rep s w xs \<and> c \<in> set xs))"

definition resumed :: "nat \<Rightarrow> sem_state \<Rightarrow> bool" where
  "resumed c x \<longleftrightarrow> (case x of ((d, w), s) \<Rightarrow>
     runs c s \<and> \<not> pending s \<and> owner_ok d s \<and> (\<exists>xs. tl_rep s w xs \<and> (c \<in> set xs \<longrightarrow> t_deadline (th_of s c) = None)))"

definition out_of_list :: "nat \<Rightarrow> sem_state \<Rightarrow> bool" where
  "out_of_list c x \<longleftrightarrow> (case x of ((d, w), s) \<Rightarrow>
     runs c s \<and> owner_ok d s \<and> (\<exists>xs. tl_rep s w xs \<and> c \<notin> set xs))"

definition at_work :: "nat \<Rightarrow> sem_state \<Rightarrow> bool" where
  "at_work c x \<longleftrightarrow> out_of_list c x \<and> \<not> pending (snd x)"

lemma tl_rep_states:
  assumes "tl_rep s w xs" "thread_blocklist s' = thread_blocklist s" "\<And>t. t_state (th_of s' t) = t_state (th_of s t)"
  shows "tl_rep s' w xs"
  using tl_rep_frame[OF assms(1), of s'] assms(1,2,3) by (auto simp: tl_rep_def)

lemma check_ok:
  assumes "runs c s" "owner_ok d s" "tl_rep s w xs" "c \<notin> set xs"
  shows "\<exists>d' s' b. sem_check ((d, w), s) = Inr (((d', w), s'), b) \<and> out_of_list c ((d', w), s') \<and> runs c s' \<and>
    pending s' = pending s \<and> owner_ok d' s' \<and> tl_rep s' w xs \<and> (b \<longrightarrow> sem_try_take d s = Inr ((d', s'), True))"
proof -
  obtain d' s' b where t: "sem_try_take d s = Inr ((d', s'), b)" "runs c s'" "owner_ok d' s'" "pending s' = pending s"
    "thread_blocklist s' = thread_blocklist s" "\<And>t. t_state (th_of s' t) = t_state (th_of s t)"
    using try_take_ok[OF assms(1,2)] by blast
  have "tl_rep s' w xs"
    using tl_rep_states[OF assms(3) t(5,6)] .
  then show ?thesis
    using t assms(4) by (auto simp: sem_check_def out_of_list_def)
qed

text \<open>A deadline that has passed only changes the deadline and the flags of a thread that runs.\<close>

lemma set_deadline_past_running:
  assumes "runs c s" "driver deadline = Some now" "deadline \<le> now"
  shows "\<exists>f. set_deadline driver deadline s =
    Inr (s\<lparr>threads := (threads s)[c := (th_of s c)\<lparr>t_deadline := None, t_flags := f\<rparr>]\<rparr>, False)"
proof -
  have c: "c < thread_count" "t_state (th_of s c) = Running" "length (threads s) = thread_count"
    "current_thread s = Some c" "current_thread_data s = Inr (c, th_of s c)"
    using assms(1) sched_ok_cur sched_ok_len by (auto simp: runs_def)
  moreover have "t_tid (th_of s c) = c"
    using assms(1) c(1,2) sched_invD(6)[of s] by (auto simp: runs_def sched_ok_def)
  ultimately show ?thesis
    using assms(2,3)
    by (auto simp: set_deadline_def schedule_thread_wakeup_def wake_def Let_def get_unchecked_def upd_thread_def flag_set_def
        set_flags_def flag_wakes_def get_state_def is_valid_tid_def current_thread_data_def current_tid_def current_def)
qed

text \<open>One round: the check, and when it fails the wait and the second check.\<close>

lemma round_resumes:
  assumes set_dl: "set_deadline driver deadline s = Inr (s0, True)"
    and wait: "wq_wait_cs w s0 = Some (Inr (w1, s1))" and check: "sem_check x = Inr (((d, w), s), False)"
    and env: "resumed c (env ((d, w1), s1))"
  shows "\<exists>x' b. wq_wait_until_with_check driver env deadline sem_check x = Some (Inr (x', b)) \<and> out_of_list c x' \<and>
    (b \<longrightarrow> (\<exists>d s. sem_try_take d s = Inr ((fst (fst x'), snd x'), True)))"
proof -
  obtain d2 w2 s2 zs where e: "env ((d, w1), s1) = ((d2, w2), s2)" "runs c s2" "\<not> pending s2" "owner_ok d2 s2" "tl_rep s2 w2 zs"
    "c \<in> set zs \<Longrightarrow> t_deadline (th_of s2 c) = None"
    using env by (cases "env ((d, w1), s1)") (auto simp: resumed_def split: prod.splits)
  note r2 = e(2)[unfolded runs_def]
  let ?s3 = "s2\<lparr>threads := (threads s2)[c := (th_of s2 c)\<lparr>t_deadline := None\<rparr>]\<rparr>"
  have c: "c < thread_count" and l2: "length (threads s2) = thread_count"
    using r2 sched_ok_cur sched_ok_len by auto
  have s3: "clear_deadline driver s2 = Inr (?s3, t_deadline (th_of s2 c) \<noteq> None)" "runs c ?s3"
    using clear_deadline_ok[of s2 c] r2 e(3) c l2 by (auto simp: runs_def)
  have st: "t_state (th_of ?s3 t) = t_state (th_of s2 t)" for t
    using c l2 by (cases "t = c") auto
  have rep3: "tl_rep ?s3 w2 zs" and own3: "owner_ok d2 ?s3"
    using tl_rep_states[OF e(5), of ?s3] st e(4) by (simp_all add: owner_ok_def)
  show ?thesis
  proof (cases "t_deadline (th_of s2 c) = None")
    case False
    then obtain d4 s4 b where "sem_check ((d2, w2), ?s3) = Inr (((d4, w2), s4), b)" "out_of_list c ((d4, w2), s4)"
      "b \<longrightarrow> sem_try_take d2 ?s3 = Inr ((d4, s4), True)"
      using check_ok[OF s3(2) own3 rep3] e(6) False by blast
    then show ?thesis
      using check set_dl wait e(1) s3(1) False
      by (auto simp: wq_wait_until_with_check_def with_deadline_check_def)
  next
    case True
    obtain w4 s4 where s4: "tl_remove_inner w2 ?s3 c = Some (Inr (w4, s4, c \<in> set zs))" "sched_ok s4"
      "tl_rep s4 w4 (remove1 c zs)" "woken ?s3 s4 (if c \<in> set zs then {c} else {})"
      using tl_remove_inner_ok[OF _ rep3, of c] s3(2) by (auto simp: runs_def)
    have "runs c s4"
      using s4(2) wokenD(4,5)[OF s4(4) c] s3(2) by (auto simp: runs_def)
    moreover have "owner_ok d2 s4"
      unfolding owner_ok_def
    proof (intro allI impI)
      fix r ow p n assume "d2 = SemMutex r (Some ow) p n"
      then obtain t where "t < thread_count" "ow = thread_id_to_ptr t" "t_state (th_of ?s3 t) \<noteq> Invalid"
        using own3 by (auto simp: owner_ok_def)
      then show "\<exists>t<thread_count. ow = thread_id_to_ptr t \<and> t_state (th_of s4 t) \<noteq> Invalid"
        using wokenD(4)[OF s4(4)] by (intro exI[of _ t]) (auto split: if_splits)
    qed
    moreover have "c \<notin> set (remove1 c zs)"
      using rep3 by (simp add: tl_rep_def)
    ultimately obtain d5 s5 b where "sem_check ((d2, w4), s4) = Inr (((d5, w4), s5), b)" "out_of_list c ((d5, w4), s5)"
      "b \<longrightarrow> sem_try_take d2 s4 = Inr ((d5, s5), True)"
      using check_ok[OF _ _ s4(3)] by blast
    then show ?thesis
      using check set_dl wait e(1) s3(1) True s4(1) r2
      by (auto simp: wq_wait_until_with_check_def with_deadline_check_def wq_on_timeout_def tl_remove_current_def current_tid_def)
  qed
qed

lemma round_ok:
  assumes x: "at_work c x"
    and env: "\<And>y. blocked c deadline y \<Longrightarrow> resumed c (env y)"
    and driver: "\<And>now. driver deadline = Some now \<Longrightarrow> deadline \<le> now"
  shows "\<exists>x' b. wq_wait_until_with_check driver env deadline sem_check x = Some (Inr (x', b)) \<and> out_of_list c x' \<and>
    (b \<longrightarrow> (\<exists>d s. sem_try_take d s = Inr ((fst (fst x'), snd x'), True)))"
proof -
  obtain d0 w s00 xs where x0: "x = ((d0, w), s00)" "runs c s00" "\<not> pending s00" "owner_ok d0 s00" "tl_rep s00 w xs" "c \<notin> set xs"
    using x by (cases x) (auto simp: at_work_def out_of_list_def split: prod.splits)
  obtain d s b where ch: "sem_check x = Inr (((d, w), s), b)" "out_of_list c ((d, w), s)" "runs c s" "\<not> pending s"
    "owner_ok d s" "tl_rep s w xs" "b \<longrightarrow> sem_try_take d0 s00 = Inr ((d, s), True)"
    using check_ok[OF x0(2,4-6)] x0(1,3) by auto
  show ?thesis
  proof (cases b)
    case True
    then show ?thesis
      using ch by (auto simp: wq_wait_until_with_check_def with_deadline_check_def)
  next
    case False
    note s = ch(3)[unfolded runs_def]
    have c: "c < thread_count" and l: "length (threads s) = thread_count"
      using s sched_ok_cur sched_ok_len by auto
    show ?thesis
    proof (cases "driver deadline")
      case (Some now)
      obtain f where f: "set_deadline driver deadline s =
          Inr (s\<lparr>threads := (threads s)[c := (th_of s c)\<lparr>t_deadline := None, t_flags := f\<rparr>]\<rparr>, False)" (is "_ = Inr (?s, False)")
        using set_deadline_past_running[of c s driver deadline now] ch(3) driver[OF Some] Some by auto
      have st: "t_state (th_of ?s t) = t_state (th_of s t)" for t
        using c l by (cases "t = c") auto
      have "out_of_list c ((d, w), ?s)"
        using tl_rep_states[OF ch(6), of ?s] st s sched_ok_thread_data[of s c] c x0(6) ch(5)
        by (auto simp: out_of_list_def runs_def owner_ok_def)
      then show ?thesis
        using ch(1) f False by (auto simp: wq_wait_until_with_check_def with_deadline_check_def)
    next
      case None
      obtain s0 where s0: "set_deadline driver deadline s = Inr (s0, True)" "sched_ok s0"
        "s0 = s\<lparr>threads := (threads s)[c := (th_of s c)\<lparr>t_deadline := Some deadline,
          t_flags := t_flags (th_of s c) AND NOT thread_flag_timeout\<rparr>]\<rparr>"
        using set_deadline_future[of s c driver deadline, OF _ _ None] s by blast
      have st: "t_state (th_of s0 t) = t_state (th_of s t)" for t
        using c l s0(3) by (cases "t = c") auto
      have rep0: "tl_rep s0 w xs"
        using tl_rep_states[OF ch(6), of s0] st s0(3) by simp
      obtain w1 s1 where s1: "tl_put_current w s0 WaitQueueBlocked = Some (Inr (w1, s1,
          if in_front s0 (t_prio (th_of s0 c)) xs = [] then Some (t_prio (th_of s0 c)) else None))"
        "sched_ok s1" "tl_rep s1 w1 (in_front s0 (t_prio (th_of s0 c)) xs @ c # behind s0 (t_prio (th_of s0 c)) xs)"
        "pending s1" "current_thread s1 = Some c"
        "threads s1 = (threads s0)[c := (th_of s0 c)\<lparr>t_state := WaitQueueBlocked\<rparr>]"
        using tl_put_current_ok[OF s0(2) _ _ rep0, of c WaitQueueBlocked] s s0(3) ch(4) x0(6) by auto
      have "t_state (th_of s1 t) = (if t = c then WaitQueueBlocked else t_state (th_of s t))" for t
        using s1(6) s0(3) c l by (cases "t = c") auto
      then have "owner_ok d s1"
        using ch(5) by (fastforce simp: owner_ok_def)
      then have "blocked c deadline ((d, w1), s1)"
        unfolding blocked_def using s1 s0(3) c l by auto
      moreover have "wq_wait_cs w s0 = Some (Inr (w1, s1))"
        using s1(1) by (simp add: wq_wait_cs_def)
      ultimately show ?thesis
        using round_resumes[of driver deadline s s0 w w1 s1 x d c env] s0(1) ch(1) False env by simp
    qed
  qed
qed



end
