(* ===== verification/EspTimer.thy ===== *)
theory EspTimer
  imports Prelude
begin

section \<open>The time driver of the ESP chips (\<open>ariel-os-esp/src/time_driver.rs\<close>)\<close>

text \<open>
  The queue of timers (\<open>embassy_time_queue_utils::Queue\<close>) is the record \<open>timer_queue_ops\<close>:
  scheduling a waker says whether anything changed, and \<open>next_expiration\<close> removes and wakes what has
  expired and gives the next time, \<open>u64::MAX\<close> if there is none.  The hardware timer accepts some
  timeouts and refuses others (\<open>accepts\<close>).  Times are microseconds.
\<close>

definition u64_max :: nat where
  "u64_max = 2 ^ 64 - 1"

record ('q, 'w) timer_queue_ops =
  tq_new :: 'q
  tq_schedule_wake :: "'q \<Rightarrow> nat \<Rightarrow> 'w \<Rightarrow> 'q \<times> bool"
  tq_next_expiration :: "'q \<Rightarrow> nat \<Rightarrow> 'q \<times> 'w list \<times> nat"

text \<open>\<open>alarm\<close> is the time at which the hardware timer fires, if it is armed.\<close>

record 'q timer_queue =
  timers :: 'q
  next_wakeup :: nat
  alarm :: "nat option"

definition timer_queue_new :: "('q, 'w) timer_queue_ops \<Rightarrow> 'q timer_queue" where
  "timer_queue_new ops = \<lparr>timers = tq_new ops, next_wakeup = u64_max, alarm = None\<rparr>"

text \<open>The loop of \<open>arm_next_wakeup\<close>, which halves a timeout the timer refuses.\<close>

function arm_timeout :: "(nat \<Rightarrow> bool) \<Rightarrow> nat \<Rightarrow> panic + nat" where
  "arm_timeout accepts timeout =
     (if accepts timeout then Inr timeout
      else if timeout \<noteq> 0 then arm_timeout accepts (timeout div 2)
      else Inl ExplicitPanic)"
  by pat_completeness auto
termination
  by (relation "measure snd") auto

declare arm_timeout.simps [simp del]

definition arm_next_wakeup :: "(nat \<Rightarrow> bool) \<Rightarrow> nat \<Rightarrow> nat \<Rightarrow> 'q timer_queue \<Rightarrow> panic + 'q timer_queue" where
  "arm_next_wakeup accepts now at x =
     (let sleep_duration = at - now in
      bnd (arm_timeout accepts (sleep_duration mod 2 ^ 52)) (\<lambda>timeout. Inr (x\<lparr>alarm := Some (now + timeout)\<rparr>)))"

definition handle_alarm :: "('q, 'w) timer_queue_ops \<Rightarrow> nat \<Rightarrow> 'q timer_queue \<Rightarrow> 'q timer_queue \<times> 'w list" where
  "handle_alarm ops now x =
     (if next_wakeup x \<le> now then
        let (q, woken, nxt) = tq_next_expiration ops (timers x) now
        in (x\<lparr>timers := q, next_wakeup := nxt\<rparr>, woken)
      else (x, []))"

text \<open>The interrupt at \<open>now\<close>; the timer is set again a little later, at \<open>now'\<close>.\<close>

definition timer_handler ::
    "('q, 'w) timer_queue_ops \<Rightarrow> (nat \<Rightarrow> bool) \<Rightarrow> nat \<Rightarrow> nat \<Rightarrow> 'q timer_queue \<Rightarrow> panic + 'q timer_queue \<times> 'w list" where
  "timer_handler ops accepts now now' x =
     (let (x, woken) = handle_alarm ops now x; x = x\<lparr>alarm := None\<rparr> in
      if next_wakeup x < u64_max then bnd (arm_next_wakeup accepts now' (next_wakeup x) x) (\<lambda>x. Inr (x, woken))
      else Inr (x, woken))"

definition inner_schedule_wake ::
    "('q, 'w) timer_queue_ops \<Rightarrow> nat \<Rightarrow> nat \<Rightarrow> 'w \<Rightarrow> 'q timer_queue \<Rightarrow> 'q timer_queue \<times> 'w list \<times> bool" where
  "inner_schedule_wake ops now at w x =
     (let (q, changed) = tq_schedule_wake ops (timers x) at w in
      if changed then
        let (q, woken, nxt) = tq_next_expiration ops q now
        in (x\<lparr>timers := q, next_wakeup := nxt\<rparr>, woken, True)
      else (x\<lparr>timers := q\<rparr>, [], False))"

definition schedule_wake ::
    "('q, 'w) timer_queue_ops \<Rightarrow> (nat \<Rightarrow> bool) \<Rightarrow> nat \<Rightarrow> nat \<Rightarrow> nat \<Rightarrow> 'w \<Rightarrow> 'q timer_queue \<Rightarrow>
     panic + 'q timer_queue \<times> 'w list" where
  "schedule_wake ops accepts now now' at w x =
     (let (x, woken, changed) = inner_schedule_wake ops now at w x in
      if changed then bnd (arm_next_wakeup accepts now' (next_wakeup x) x) (\<lambda>x. Inr (x, woken))
      else Inr (x, woken))"

subsection \<open>The queue's contract\<close>

text \<open>
  \<open>due q w\<close> is the time at which the waker \<open>w\<close> is called.  A waker has one timer, of which the
  earlier time counts.
\<close>

definition queue_ok :: "('q, 'w) timer_queue_ops \<Rightarrow> ('q \<Rightarrow> 'w \<Rightarrow> nat option) \<Rightarrow> bool" where
  "queue_ok ops due \<longleftrightarrow>
     (\<forall>w. due (tq_new ops) w = None) \<and>
     (\<forall>q at w q' changed. tq_schedule_wake ops q at w = (q', changed) \<longrightarrow>
        (if \<exists>old\<le>at. due q w = Some old then due q' = due q else due q' = (due q)(w := Some at) \<and> changed)) \<and>
     (\<forall>q now q' woken nxt. tq_next_expiration ops q now = (q', woken, nxt) \<longrightarrow>
        set woken = {w. \<exists>a\<le>now. due q w = Some a} \<and>
        (\<forall>w a. due q' w = Some a \<longleftrightarrow> due q w = Some a \<and> now < a) \<and>
        (\<forall>w a. due q' w = Some a \<longrightarrow> nxt \<le> a) \<and> nxt \<le> u64_max)"

lemma queue_okD:
  assumes "queue_ok ops due"
  shows "due (tq_new ops) w = None"
    and "tq_schedule_wake ops q at w = (q', changed) \<Longrightarrow>
      (if \<exists>old\<le>at. due q w = Some old then due q' = due q else due q' = (due q)(w := Some at) \<and> changed)"
    and "tq_next_expiration ops q now = (q', woken, nxt) \<Longrightarrow> set woken = {w. \<exists>a\<le>now. due q w = Some a}"
    and "tq_next_expiration ops q now = (q', woken, nxt) \<Longrightarrow> due q' w = Some a \<longleftrightarrow> due q w = Some a \<and> now < a"
    and "tq_next_expiration ops q now = (q', woken, nxt) \<Longrightarrow> due q' w = Some a \<Longrightarrow> nxt \<le> a"
    and "tq_next_expiration ops q now = (q', woken, nxt) \<Longrightarrow> nxt \<le> u64_max"
  using assms unfolding queue_ok_def by blast+

subsection \<open>Arming\<close>

lemma arm_timeout_le: "arm_timeout accepts t = Inr t' \<Longrightarrow> t' \<le> t \<and> accepts t'"
proof (induction accepts t rule: arm_timeout.induct)
  case (1 accepts t)
  show ?case
  proof (cases "accepts t")
    case True
    then show ?thesis
      using "1.prems" by (simp add: arm_timeout.simps[of accepts t])
  next
    case False
    then have "t \<noteq> 0" "arm_timeout accepts (t div 2) = Inr t'"
      using "1.prems" by (simp_all add: arm_timeout.simps[of accepts t] split: if_splits)
    then show ?thesis
      using "1.IH"[OF False] div_le_dividend[of t 2] by (meson order_trans)
  qed
qed

text \<open>The loop ends with a timeout as soon as the timer accepts to fire at once.\<close>

lemma arm_timeout_returns: "accepts 0 \<Longrightarrow> \<exists>t'. arm_timeout accepts t = Inr t'"
proof (induction accepts t rule: arm_timeout.induct)
  case (1 accepts t)
  then show ?case
    by (cases "accepts t \<or> t = 0") (auto simp: arm_timeout.simps[of accepts t])
qed

lemma arm_ok:
  assumes "accepts 0"
  shows "\<exists>a. arm_next_wakeup accepts now at x = Inr (x\<lparr>alarm := Some a\<rparr>) \<and> now \<le> a \<and> a \<le> max at now"
proof -
  obtain t where t: "arm_timeout accepts ((at - now) mod 2 ^ 52) = Inr t"
    using arm_timeout_returns[of accepts] assms by blast
  then have "t \<le> at - now"
    using arm_timeout_le[OF t] mod_less_eq_dividend[of "at - now" "2 ^ 52"] by linarith
  then show ?thesis
    using t by (auto simp: arm_next_wakeup_def Let_def)
qed

subsection \<open>No timer is missed\<close>

text \<open>
  The driver over time: a state, the wakers called so far, and the present time.  A timer is scheduled,
  or the alarm fires at its time or later; a call ends (\<open>now'\<close>) no earlier than it begins.
\<close>

inductive timer_runs ::
    "('q, 'w) timer_queue_ops \<Rightarrow> (nat \<Rightarrow> bool) \<Rightarrow> 'q timer_queue \<Rightarrow> nat \<Rightarrow> bool" for ops accepts where
  start: "timer_runs ops accepts (timer_queue_new ops) 0"
| schedule: "timer_runs ops accepts x t \<Longrightarrow> t \<le> now \<Longrightarrow> now \<le> now' \<Longrightarrow>
    schedule_wake ops accepts now now' at w x = Inr (x', woken) \<Longrightarrow> timer_runs ops accepts x' now'"
| alarm: "timer_runs ops accepts x t \<Longrightarrow> t \<le> now \<Longrightarrow> now \<le> now' \<Longrightarrow> alarm x = Some a \<Longrightarrow> a \<le> now \<Longrightarrow>
    timer_handler ops accepts now now' x = Inr (x', woken) \<Longrightarrow> timer_runs ops accepts x' now'"

text \<open>Whatever is due before the end of time has the alarm armed for it.\<close>

definition timers_armed :: "('q \<Rightarrow> 'w \<Rightarrow> nat option) \<Rightarrow> 'q timer_queue \<Rightarrow> nat \<Rightarrow> bool" where
  "timers_armed due x t \<longleftrightarrow>
     (\<forall>w a. due (timers x) w = Some a \<longrightarrow> next_wakeup x \<le> a \<and>
        (a < u64_max \<longrightarrow> (\<exists>b. alarm x = Some b \<and> b \<le> max a t)))"

lemma handler_ok:
  assumes q: "queue_ok ops due" and acc: "accepts 0" and inv: "timers_armed due x t" and now: "now \<le> now'"
  shows "\<exists>x' woken. timer_handler ops accepts now now' x = Inr (x', woken) \<and> timers_armed due x' now' \<and>
    set woken = {w. \<exists>a\<le>now. due (timers x) w = Some a} \<and>
    (\<forall>w a. due (timers x') w = Some a \<longleftrightarrow> due (timers x) w = Some a \<and> now < a)"
proof -
  obtain x1 woken where h: "handle_alarm ops now x = (x1, woken)"
    by fastforce
  have x1: "set woken = {w. \<exists>a\<le>now. due (timers x) w = Some a}"
    "due (timers x1) w = Some a \<longleftrightarrow> due (timers x) w = Some a \<and> now < a"
    "due (timers x1) w = Some a \<Longrightarrow> next_wakeup x1 \<le> a" for w a
  proof -
    have "(set woken = {w. \<exists>a\<le>now. due (timers x) w = Some a} \<and>
      (due (timers x1) w = Some a \<longleftrightarrow> due (timers x) w = Some a \<and> now < a) \<and>
      (due (timers x1) w = Some a \<longrightarrow> next_wakeup x1 \<le> a))"
    proof (cases "next_wakeup x \<le> now")
      case True
      obtain q' nxt where n: "tq_next_expiration ops (timers x) now = (q', woken, nxt)" "x1 = x\<lparr>timers := q', next_wakeup := nxt\<rparr>"
        using h True by (auto simp: handle_alarm_def split: prod.splits)
      show ?thesis
        using queue_okD(3,4)[OF q n(1)] queue_okD(5)[OF q n(1), of w a] by (auto simp: n(2))
    next
      case False
      then have "x1 = x" "woken = []"
        using h by (simp_all add: handle_alarm_def)
      moreover have "now < a" if "due (timers x) w = Some a" for w a
        using inv that False by (fastforce simp: timers_armed_def)
      ultimately show ?thesis
        using inv by (fastforce simp: timers_armed_def)
    qed
    then show "set woken = {w. \<exists>a\<le>now. due (timers x) w = Some a}"
      "due (timers x1) w = Some a \<longleftrightarrow> due (timers x) w = Some a \<and> now < a"
      "due (timers x1) w = Some a \<Longrightarrow> next_wakeup x1 \<le> a"
      by blast+
  qed
  show ?thesis
  proof (cases "next_wakeup x1 < u64_max")
    case True
    obtain b where b: "arm_next_wakeup accepts now' (next_wakeup x1) (x1\<lparr>alarm := None\<rparr>) = Inr (x1\<lparr>alarm := Some b\<rparr>)"
      "b \<le> max (next_wakeup x1) now'"
      using arm_ok[of accepts now' "next_wakeup x1" "x1\<lparr>alarm := None\<rparr>"] acc by auto
    have "timers_armed due (x1\<lparr>alarm := Some b\<rparr>) now'"
      using x1(3) b(2) by (fastforce simp: timers_armed_def)
    then show ?thesis
      using h b(1) True x1(1,2) by (simp add: timer_handler_def)
  next
    case False
    have "timers_armed due (x1\<lparr>alarm := None\<rparr>) now'"
      using x1(3) False by (fastforce simp: timers_armed_def)
    then show ?thesis
      using h False x1(1,2) by (simp add: timer_handler_def)
  qed
qed

lemma schedule_ok:
  assumes q: "queue_ok ops due" and acc: "accepts 0" and inv: "timers_armed due x t" and now: "t \<le> now" "now \<le> now'"
  shows "\<exists>x' woken. schedule_wake ops accepts now now' at w x = Inr (x', woken) \<and> timers_armed due x' now' \<and>
    (\<forall>v b. ((due (timers x))(w := Some (case due (timers x) w of Some old \<Rightarrow> min old at | None \<Rightarrow> at))) v = Some b \<longrightarrow>
      due (timers x') v = Some b \<or> (v \<in> set woken \<and> b \<le> now))"
proof -
  obtain q1 changed where s: "tq_schedule_wake ops (timers x) at w = (q1, changed)"
    by fastforce
  let ?due = "(due (timers x))(w := Some (case due (timers x) w of Some old \<Rightarrow> min old at | None \<Rightarrow> at))"
  have due1: "due q1 = ?due" "\<not> changed \<Longrightarrow> due q1 = due (timers x)"
    using queue_okD(2)[OF q s] by (auto split: if_splits option.splits simp: fun_eq_iff min_def)
  show ?thesis
  proof (cases changed)
    case True
    obtain q2 woken nxt where n: "tq_next_expiration ops q1 now = (q2, woken, nxt)"
      by (cases "tq_next_expiration ops q1 now")
    let ?x = "x\<lparr>timers := q2, next_wakeup := nxt\<rparr>"
    obtain b where b: "arm_next_wakeup accepts now' nxt ?x = Inr (?x\<lparr>alarm := Some b\<rparr>)" "b \<le> max nxt now'"
      using arm_ok[of accepts now' nxt ?x] acc by auto
    have "timers_armed due (?x\<lparr>alarm := Some b\<rparr>) now'"
      using queue_okD(5)[OF q n] b(2) by (fastforce simp: timers_armed_def)
    moreover have "due q2 v = Some c \<or> v \<in> set woken \<and> c \<le> now" if "?due v = Some c" for v c
      using queue_okD(3,4)[OF q n] that due1(1) by (cases "c \<le> now") auto
    ultimately show ?thesis
      using s n b(1) True by (simp add: schedule_wake_def inner_schedule_wake_def)
  next
    case False
    have "timers_armed due (x\<lparr>timers := q1\<rparr>) now'"
      using inv due1(2)[OF False] now by (fastforce simp: timers_armed_def)
    then show ?thesis
      using s False due1(1) by (simp add: schedule_wake_def inner_schedule_wake_def)
  qed
qed

lemma timer_runs_armed:
  assumes "timer_runs ops accepts x t" "queue_ok ops due" "accepts 0"
  shows "timers_armed due x t"
  using assms(1)
proof (induction rule: timer_runs.induct)
  case start
  then show ?case
    using queue_okD(1)[OF assms(2)] by (simp add: timers_armed_def timer_queue_new_def)
next
  case (schedule x t now now' at w x' woken)
  then show ?case
    using schedule_ok[where accepts = accepts, OF assms(2,3) schedule.IH schedule.hyps(2,3), of at w] by auto
next
  case (alarm x t now now' a x' woken)
  then show ?case
    using handler_ok[where accepts = accepts, OF assms(2,3) alarm.IH alarm.hyps(3)] by auto
qed

text \<open>
  C22: The ESP time driver misses no timer: at every point of a run, a timer due before \<open>u64::MAX\<close> has the
  hardware alarm set to fire by its time, or at once when that has passed; the interrupt then succeeds,
  wakes exactly the wakers that are due and keeps the others, although the alarm may be set short (52
  bits, halved timeouts) and fire early.
\<close>

theorem esp_timer_in_time:
  assumes runs: "timer_runs ops accepts x t" and q: "queue_ok ops due" and acc: "accepts 0"
  shows "(\<forall>w a. due (timers x) w = Some a \<and> a < u64_max \<longrightarrow> (\<exists>b. alarm x = Some b \<and> b \<le> max a t)) \<and>
    (\<forall>now now'. now \<le> now' \<longrightarrow> (\<exists>x' woken. timer_handler ops accepts now now' x = Inr (x', woken) \<and>
      set woken = {w. \<exists>a\<le>now. due (timers x) w = Some a} \<and>
      (\<forall>w a. due (timers x') w = Some a \<longleftrightarrow> due (timers x) w = Some a \<and> now < a)))"
proof (intro conjI allI impI)
  note armed = timer_runs_armed[OF runs q acc]
  show "\<exists>b. alarm x = Some b \<and> b \<le> max a t" if "due (timers x) w = Some a \<and> a < u64_max" for w a
    using armed that by (auto simp: timers_armed_def)
  show "\<exists>x' woken. timer_handler ops accepts now now' x = Inr (x', woken) \<and>
      set woken = {w. \<exists>a\<le>now. due (timers x) w = Some a} \<and>
      (\<forall>w a. due (timers x') w = Some a \<longleftrightarrow> due (timers x) w = Some a \<and> now < a)" if "now \<le> now'" for now now'
    using handler_ok[where accepts = accepts and ops = ops, OF q acc armed that] by blast
qed

text \<open>A queue that keeps its timers in an association list.\<close>

definition alist_queue :: "((nat \<times> nat) list, nat) timer_queue_ops" where
  "alist_queue = \<lparr>tq_new = [],
     tq_schedule_wake = (\<lambda>q at w. case map_of q w of
        Some old \<Rightarrow> if old \<le> at then (q, False) else ((w, at) # q, True)
      | None \<Rightarrow> ((w, at) # q, True)),
     tq_next_expiration = (\<lambda>q now.
       let left = filter (\<lambda>(w, a). map_of q w = Some a \<and> now < a) q in
       (left, map fst (filter (\<lambda>(w, a). map_of q w = Some a \<and> a \<le> now) q), foldr min (map snd left) u64_max))\<rparr>"

lemma map_of_current: "map_of (filter (\<lambda>(w, a). map_of q w = Some a \<and> P a) q) v = (case map_of q v of
    Some a \<Rightarrow> if P a then Some a else None | None \<Rightarrow> None)"
proof -
  have fst: "map_of (filter (\<lambda>(w, a). m w = Some a \<and> P a) r) v =
      (if v \<in> fst ` set (filter (\<lambda>(w, a). m w = Some a \<and> P a) r) then m v else None)" for m r
    by (induction r) auto
  show ?thesis
    by (auto simp: fst map_of_eq_None_iff image_iff dest: map_of_SomeD split: option.splits)
qed

lemma foldr_min_le: "foldr min xs (m :: nat) \<le> m" "x \<in> set xs \<Longrightarrow> foldr min xs m \<le> x"
  by (induction xs) (auto simp: min_le_iff_disj)

lemma alist_queue_ok: "queue_ok alist_queue map_of"
  unfolding queue_ok_def
proof (intro conjI allI impI)
  fix q :: "(nat \<times> nat) list" and now q' woken nxt
  assume n: "tq_next_expiration alist_queue q now = (q', woken, nxt)"
  then have d: "map_of q' w = (case map_of q w of Some a \<Rightarrow> if now < a then Some a else None | None \<Rightarrow> None)" for w
    by (auto simp: alist_queue_def Let_def map_of_current)
  show "set woken = {w. \<exists>a\<le>now. map_of q w = Some a}"
    using n by (force simp: alist_queue_def Let_def dest: map_of_SomeD)
  show "map_of q' w = Some a \<longleftrightarrow> map_of q w = Some a \<and> now < a" for w a
    using d[of w] by (auto split: option.splits)
  show "nxt \<le> a" if "map_of q' w = Some a" for w a
    using n map_of_SomeD[OF that] by (force simp: alist_queue_def Let_def intro!: foldr_min_le(2))
  show "nxt \<le> u64_max"
    using n foldr_min_le(1) by (force simp: alist_queue_def Let_def)
qed (auto simp: alist_queue_def split: option.splits if_splits)

text \<open>The timer of a waker due at 90 is armed at 10 by a timer that counts to 47 at most: it fires early, at 50.\<close>

theorem esp_timer_in_time_witness:
  "\<exists>x. alarm x = Some 50 \<and> map_of (timers x) 7 = Some 90 \<and>
    (\<exists>x' woken. timer_handler alist_queue (\<lambda>t. t \<le> 47) 90 91 x = Inr (x', woken) \<and>
      set woken = {w. \<exists>a\<le>90. map_of (timers x) w = Some a})"
proof -
  let ?x = "\<lparr>timers = [(7::nat, 90::nat)], next_wakeup = 90, alarm = Some 50\<rparr>"
  have "schedule_wake alist_queue (\<lambda>t. t \<le> 47) 5 10 90 (7::nat) (timer_queue_new alist_queue) = Inr (?x, [])"
    by (simp add: schedule_wake_def inner_schedule_wake_def timer_queue_new_def alist_queue_def
        arm_next_wakeup_def arm_timeout.simps u64_max_def)
  from timer_runs.schedule[OF timer_runs.start _ _ this] have "timer_runs alist_queue (\<lambda>t. t \<le> 47) ?x 10"
    by simp
  from esp_timer_in_time[OF this alist_queue_ok, THEN conjunct2, rule_format, of 90 91]
  obtain x' woken where "timer_handler alist_queue (\<lambda>t. t \<le> 47) 90 91 ?x = Inr (x', woken)"
    "set woken = {w. \<exists>a\<le>90. map_of (timers ?x) w = Some a}"
    by auto
  then show ?thesis
    by (intro exI[of _ ?x] conjI exI[of _ x'] exI[of _ woken]) simp_all
qed

end
