(* ===== verification/OrderedPool.thy ===== *)
theory OrderedPool
  imports Prelude "HOL-Library.Multiset"
begin

section \<open>The pool of security contexts (\<open>coapcore/src/oluru.rs\<close>)\<close>

text \<open>
  \<open>OrderedPool<T, N, L>\<close>: at most \<open>N\<close> entries, ordered by priority level (0 is the highest)
  and, within a level, by how recently they were used.  \<open>entries\<close> are the values, \<open>sorted\<close> the
  order as a vector of indices into them.  \<open>level\<close> is the \<open>PriorityLevel\<close> implementation, a
  parameter of every operation.  Indices are \<open>u16\<close> in the code; capacities are below
  \<open>u16::MAX\<close>, which \<open>new\<close> asserts.
\<close>

record 'a pool =
  entries :: "'a list"
  sorted_idx :: "nat list"   \<comment> \<open>\<open>sorted\<close>\<close>

definition pool_new :: "nat \<Rightarrow> nat \<Rightarrow> panic + 'a pool" where
  "pool_new n levels =
     bnd (require (n < 65535)) (\<lambda>_. bnd (require (levels < 65535)) (\<lambda>_.
       Inr \<lparr>entries = [], sorted_idx = []\<rparr>))"

text \<open>\<open>entries[sorted[p]].level()\<close>, with the checks of the two accesses.\<close>

definition level_at :: "('a \<Rightarrow> nat) \<Rightarrow> 'a pool \<Rightarrow> nat \<Rightarrow> panic + nat" where
  "level_at level q p =
     bnd (idx (sorted_idx q) p) (\<lambda>i. bnd (idx (entries q) i) (\<lambda>e. Inr (level e)))"

text \<open>The first loop of \<open>touch\<close>: towards the front while the level before is not higher.\<close>

fun touch_front :: "('a \<Rightarrow> nat) \<Rightarrow> 'a pool \<Rightarrow> nat \<Rightarrow> nat \<Rightarrow> panic + nat" where
  "touch_front level q lvl 0 = Inr 0"
| "touch_front level q lvl (Suc n) =
     bnd (level_at level q n) (\<lambda>l. if lvl \<le> l then touch_front level q lvl n else Inr (Suc n))"

text \<open>The second loop: towards the rear while the level behind is higher.\<close>

function touch_rear :: "('a \<Rightarrow> nat) \<Rightarrow> 'a pool \<Rightarrow> nat \<Rightarrow> nat \<Rightarrow> panic + nat" where
  "touch_rear level q lvl p =
     (if p < length (sorted_idx q) - 1 then
        bnd (level_at level q (p + 1)) (\<lambda>l. if l < lvl then touch_rear level q lvl (p + 1) else Inr p)
      else Inr p)"
  by pat_completeness auto
termination
  by (relation "measure (\<lambda>(level, q, lvl, p). length (sorted_idx q) - p)") auto

declare touch_rear.simps [simp del]

text \<open>\<open>slice[a..=b].rotate_left(1)\<close> and \<open>rotate_right(1)\<close>.\<close>

definition rotate_left_in :: "nat \<Rightarrow> nat \<Rightarrow> 'b list \<Rightarrow> 'b list" where
  "rotate_left_in a b xs = take a xs @ rotate1 (drop a (take (b + 1) xs)) @ drop (b + 1) xs"

definition rotate_right_in :: "nat \<Rightarrow> nat \<Rightarrow> 'b list \<Rightarrow> 'b list" where
  "rotate_right_in a b xs =
     take a xs @ (let ys = drop a (take (b + 1) xs) in last ys # butlast ys) @ drop (b + 1) xs"

definition touch :: "('a \<Rightarrow> nat) \<Rightarrow> 'a pool \<Rightarrow> nat \<Rightarrow> panic + 'a pool" where
  "touch level q position =
     bnd (level_at level q position) (\<lambda>lvl.
     bnd (touch_front level q lvl position) (\<lambda>front.
       if front = position then
         bnd (touch_rear level q lvl position) (\<lambda>rear.
           Inr (if rear \<noteq> position then q\<lparr>sorted_idx := rotate_left_in position rear (sorted_idx q)\<rparr> else q))
       else Inr (q\<lparr>sorted_idx := rotate_right_in front position (sorted_idx q)\<rparr>)))"

text \<open>
  The loop of \<open>lookup\<close> from position \<open>p\<close> on.  \<open>f_use\<close> returns the mutated entry and a result.
\<close>

function lookup_from ::
    "('a \<Rightarrow> nat) \<Rightarrow> ('a \<Rightarrow> bool) \<Rightarrow> ('a \<Rightarrow> 'a \<times> 'r) \<Rightarrow> 'a pool \<Rightarrow> nat \<Rightarrow> panic + 'a pool \<times> 'r option" where
  "lookup_from level f_test f_use q p =
     (if p < length (sorted_idx q) then
        bnd (idx (entries q) (sorted_idx q ! p)) (\<lambda>e.
          if f_test e then
            (let (e', r) = f_use e in
             bnd (touch level (q\<lparr>entries := (entries q)[sorted_idx q ! p := e']\<rparr>) p) (\<lambda>q. Inr (q, Some r)))
          else lookup_from level f_test f_use q (p + 1))
      else Inr (q, None))"
  by pat_completeness auto
termination
  by (relation "measure (\<lambda>(level, t, u, q, p). length (sorted_idx q) - p)") auto

declare lookup_from.simps [simp del]

definition pool_lookup ::
    "('a \<Rightarrow> nat) \<Rightarrow> ('a \<Rightarrow> bool) \<Rightarrow> ('a \<Rightarrow> 'a \<times> 'r) \<Rightarrow> 'a pool \<Rightarrow> panic + 'a pool \<times> 'r option" where
  "pool_lookup level f_test f_use q = lookup_from level f_test f_use q 0"

text \<open>The part of the two insertions for a pool that is not full.\<close>

definition pool_append :: "('a \<Rightarrow> nat) \<Rightarrow> 'a pool \<Rightarrow> 'a \<Rightarrow> panic + 'a pool" where
  "pool_append level q new =
     touch level (q\<lparr>entries := entries q @ [new], sorted_idx := sorted_idx q @ [length (entries q)]\<rparr>)
       (length (entries q))"

text \<open>\<open>insert\<close>: \<open>Inl\<close> inside the result is Rust's \<open>Err\<close>, which gives the element back.\<close>

definition pool_insert :: "('a \<Rightarrow> nat) \<Rightarrow> nat \<Rightarrow> 'a pool \<Rightarrow> 'a \<Rightarrow> panic + 'a pool \<times> ('a + 'a option)" where
  "pool_insert level n q new =
     (if length (entries q) < n then
        bnd (pool_append level q new) (\<lambda>q. Inr (q, Inr None))
      else
        bnd (unwrap (if sorted_idx q = [] then None else Some (last (sorted_idx q)))) (\<lambda>i.
        bnd (idx (entries q) i) (\<lambda>last_slot.
          if level new \<le> level last_slot then
            bnd (touch level (q\<lparr>entries := (entries q)[i := new]\<rparr>) (n - 1)) (\<lambda>q.
              Inr (q, Inr (Some last_slot)))
          else Inr (q, Inl new))))"

definition pool_force_insert :: "('a \<Rightarrow> nat) \<Rightarrow> nat \<Rightarrow> 'a pool \<Rightarrow> 'a \<Rightarrow> panic + 'a pool \<times> 'a option" where
  "pool_force_insert level n q new =
     (if length (entries q) < n then
        bnd (pool_append level q new) (\<lambda>q. Inr (q, None))
      else
        bnd (unwrap (if sorted_idx q = [] then None else Some (last (sorted_idx q)))) (\<lambda>i.
        bnd (idx (entries q) i) (\<lambda>last_slot.
        bnd (touch level (q\<lparr>entries := (entries q)[i := new]\<rparr>) (n - 1)) (\<lambda>q.
          Inr (q, Some last_slot)))))"

definition pool_iter :: "'a pool \<Rightarrow> 'a list" where
  "pool_iter q = entries q"

subsection \<open>The documented invariants, and the order an entry is put in\<close>

text \<open>
  \<open>pool_rep level n q xs\<close>: the order vector is a permutation of the index space, there are at
  most \<open>n\<close> entries, and the entries in order are \<open>xs\<close>, sorted by level.  \<open>place\<close> puts an entry
  in front of the entries of its level.
\<close>

definition pool_wf :: "nat \<Rightarrow> 'a pool \<Rightarrow> bool" where
  "pool_wf n q \<longleftrightarrow> length (sorted_idx q) = length (entries q) \<and> length (entries q) \<le> n \<and>
     distinct (sorted_idx q) \<and> set (sorted_idx q) = {..<length (entries q)}"

definition pool_view :: "'a pool \<Rightarrow> 'a list" where
  "pool_view q = map (\<lambda>i. entries q ! i) (sorted_idx q)"

definition pool_rep :: "('a \<Rightarrow> nat) \<Rightarrow> nat \<Rightarrow> 'a pool \<Rightarrow> 'a list \<Rightarrow> bool" where
  "pool_rep level n q xs \<longleftrightarrow> pool_wf n q \<and> pool_view q = xs \<and> sorted (map level xs)"

definition place :: "('b \<Rightarrow> nat) \<Rightarrow> 'b \<Rightarrow> 'b list \<Rightarrow> 'b list" where
  "place level x xs = takeWhile (\<lambda>y. level y < level x) xs @ x # dropWhile (\<lambda>y. level y < level x) xs"

lemma mset_place: "mset (place level x xs) = add_mset x (mset xs)"
  by (induction xs) (auto simp: place_def)

lemma set_place: "set (place level x xs) = insert x (set xs)"
  using arg_cong[OF mset_place, of set_mset level x xs] by simp

lemma place_sorted: "sorted (map level xs) \<Longrightarrow> sorted (map level (place level x xs))"
proof (induction xs)
  case (Cons y ys)
  then have y: "\<forall>z\<in>set ys. level y \<le> level z" and ys: "sorted (map level (place level x ys))"
    by auto
  show ?case
  proof (cases "level y < level x")
    case True
    then have "place level x (y # ys) = y # place level x ys"
      by (simp add: place_def)
    then show ?thesis
      using y ys True by (simp add: set_place)
  next
    case False
    then have "place level x (y # ys) = x # y # ys"
      by (simp add: place_def)
    then show ?thesis
      using Cons.prems y False by fastforce
  qed
qed (simp add: place_def)

lemma distinct_place: "distinct (x # xs) \<Longrightarrow> distinct (place level x xs)"
  by (metis mset_place mset_eq_imp_distinct_iff mset.simps(2))

lemma length_place: "length (place level x xs) = Suc (length xs)"
  using arg_cong[OF mset_place, of size level x xs] by simp

lemma map_place:
  "\<forall>y\<in>insert x (set xs). lev (f y) = level y \<Longrightarrow> map f (place level x xs) = place lev (f x) (map f xs)"
proof -
  assume a: "\<forall>y\<in>insert x (set xs). lev (f y) = level y"
  then have "takeWhile (\<lambda>y. lev y < lev (f x)) (map f xs) = map f (takeWhile (\<lambda>y. level y < level x) xs)"
    "dropWhile (\<lambda>y. lev y < lev (f x)) (map f xs) = map f (dropWhile (\<lambda>y. level y < level x) xs)"
    by (simp_all add: takeWhile_map dropWhile_map comp_def cong: takeWhile_cong dropWhile_cong)
  then show ?thesis
    by (simp add: place_def)
qed

subsection \<open>Moving an entry to its place\<close>

lemma rotate_left_in_split:
  "rotate_left_in (length as) (length as + length bs) (as @ x # bs @ cs) = as @ bs @ x # cs"
  by (simp add: rotate_left_in_def)

lemma rotate_right_in_split:
  "rotate_right_in (length as) (length as + length bs) (as @ bs @ x # cs) = as @ x # bs @ cs"
  by (simp add: rotate_right_in_def Let_def)

lemma level_at_ok:
  "p < length (sorted_idx q) \<Longrightarrow> sorted_idx q ! p < length (entries q) \<Longrightarrow>
   level_at level q p = Inr (level (entries q ! (sorted_idx q ! p)))"
  by (simp add: level_at_def)

lemma touch_rear_spec:
  assumes "set (sorted_idx q) \<subseteq> {..<length (entries q)}"
  shows "sorted_idx q = xs @ ys \<Longrightarrow> length xs = Suc r \<Longrightarrow>
   touch_rear level q lvl r = Inr (r + length (takeWhile (\<lambda>i. level (entries q ! i) < lvl) ys))"
proof (induction ys arbitrary: xs r)
  case Nil
  then show ?case
    by (subst touch_rear.simps) simp
next
  case (Cons y ys)
  have y: "sorted_idx q ! Suc r = y" "Suc r < length (sorted_idx q)" "y < length (entries q)"
    using Cons.prems assms by (auto simp: nth_append)
  then have l: "level_at level q (r + 1) = Inr (level (entries q ! y))"
    by (simp add: level_at_ok)
  show ?case
    using y l Cons.IH[of "xs @ [y]" "Suc r"] Cons.prems
    by (subst touch_rear.simps) auto
qed

lemma sorted_takeWhile_less:
  assumes "sorted (map L xs)" "j < length xs"
  shows "j < length (takeWhile (\<lambda>i. L i < v) xs) \<longleftrightarrow> L (xs ! j) < (v :: nat)"
proof
  assume "j < length (takeWhile (\<lambda>i. L i < v) xs)"
  then show "L (xs ! j) < v"
    by (metis (mono_tags, lifting) nth_mem set_takeWhileD takeWhile_nth)
next
  assume a: "L (xs ! j) < v"
  show "j < length (takeWhile (\<lambda>i. L i < v) xs)"
  proof (rule ccontr)
    let ?k = "length (takeWhile (\<lambda>i. L i < v) xs)"
    assume "\<not> j < ?k"
    then have k: "?k \<le> j" "?k < length xs"
      using assms(2) by auto
    then have "\<not> L (xs ! ?k) < v"
      using nth_length_takeWhile[of "\<lambda>i. L i < v" xs] by simp
    moreover have "L (xs ! ?k) \<le> L (xs ! j)"
      using sorted_nth_mono[OF assms(1), of ?k j] k assms(2) by simp
    ultimately show False
      using a by simp
  qed
qed

lemma touch_front_spec:
  assumes "set (sorted_idx q) \<subseteq> {..<length (entries q)}" "sorted_idx q = xs @ ys"
    and "sorted (map (\<lambda>i. level (entries q ! i)) xs)"
  shows "n \<le> length xs \<Longrightarrow> touch_front level q lvl n =
    Inr (min n (length (takeWhile (\<lambda>i. level (entries q ! i) < lvl) xs)))"
proof (induction n)
  case (Suc n)
  let ?k = "length (takeWhile (\<lambda>i. level (entries q ! i) < lvl) xs)"
  have n: "sorted_idx q ! n = xs ! n" "n < length (sorted_idx q)" "n < length xs"
    using Suc.prems assms(2) by (auto simp: nth_append)
  then have "xs ! n < length (entries q)"
    using assms(1,2) nth_mem[OF n(3)] by (metis lessThan_iff n(1,2) nth_mem subsetD)
  then have "level_at level q n = Inr (level (entries q ! (xs ! n)))"
    using n by (simp add: level_at_ok)
  moreover have "n < ?k \<longleftrightarrow> level (entries q ! (xs ! n)) < lvl"
    using sorted_takeWhile_less[OF assms(3) n(3)] .
  ultimately show ?case
    using Suc by auto
qed simp

lemma touch_spec:
  assumes idx: "set (sorted_idx q) \<subseteq> {..<length (entries q)}"
    and q: "sorted_idx q = xs @ i # ys"
    and sorted: "sorted (map (\<lambda>i. level (entries q ! i)) (xs @ ys))"
  shows "touch level q (length xs) = Inr (q\<lparr>sorted_idx := place (\<lambda>i. level (entries q ! i)) i (xs @ ys)\<rparr>)"
proof -
  let ?L = "\<lambda>i. level (entries q ! i)"
  define as where "as = takeWhile (\<lambda>j. ?L j < ?L i) xs"
  define bs where "bs = dropWhile (\<lambda>j. ?L j < ?L i) xs"
  have ab: "xs = as @ bs"
    by (simp add: as_def bs_def)
  have i: "i < length (entries q)"
    using idx q by auto
  then have l: "level_at level q (length xs) = Inr (?L i)"
    using q by (simp add: level_at_ok)
  have f: "touch_front level q (?L i) (length xs) = Inr (length as)"
    using touch_front_spec[OF idx q, of level "length xs" "?L i"] sorted
    by (simp add: sorted_append length_takeWhile_le as_def)
  show ?thesis
  proof (cases "bs = []")
    case False
    then have "place ?L i (xs @ ys) = as @ i # bs @ ys"
    proof -
      obtain b bs' where b: "bs = b # bs'"
        using False by (cases bs) auto
      then have "\<not> ?L b < ?L i"
        using hd_dropWhile[of "\<lambda>j. ?L j < ?L i" xs] unfolding bs_def by force
      moreover have "\<forall>x\<in>set as. ?L x < ?L i"
        by (auto simp: as_def dest: set_takeWhileD)
      ultimately show ?thesis
        using b ab by (simp add: place_def)
    qed
    then show ?thesis
      using l f q ab False rotate_right_in_split[of as bs i ys] by (simp add: touch_def)
  next
    case True
    then have as: "as = xs" and all: "\<forall>x\<in>set xs. ?L x < ?L i"
      using ab by (auto simp: as_def dest: set_takeWhileD) (metis set_takeWhileD as_def ab append_Nil2 True)
    define cs where "cs = takeWhile (\<lambda>j. ?L j < ?L i) ys"
    define ds where "ds = dropWhile (\<lambda>j. ?L j < ?L i) ys"
    have cd: "ys = cs @ ds"
      by (simp add: cs_def ds_def)
    have r: "touch_rear level q (?L i) (length xs) = Inr (length xs + length cs)"
      using touch_rear_spec[OF idx, of "xs @ [i]" ys "length xs" level "?L i"] q by (simp add: cs_def)
    have p: "place ?L i (xs @ ys) = xs @ cs @ i # ds"
      using all by (simp add: place_def cs_def ds_def)
    show ?thesis
    proof (cases "cs = []")
      case True
      then have "xs @ i # ys = place ?L i (xs @ ys)"
        using p cd by simp
      then show ?thesis
        using l f r as q True by (simp add: touch_def)
    next
      case False
      then show ?thesis
        using l f r as q p cd rotate_left_in_split[of xs cs i ds] by (simp add: touch_def)
    qed
  qed
qed

subsection \<open>Operations on the ordered view\<close>

lemma touch_rep:
  assumes wf: "pool_wf n q" and q: "sorted_idx q = is @ i # js"
    and view: "map ((!) (entries q)) is = xs" "map ((!) (entries q)) js = ys"
    and sorted: "sorted (map level (xs @ ys))"
  shows "\<exists>q'. touch level q (length is) = Inr q' \<and> pool_rep level n q' (place level (entries q ! i) (xs @ ys))"
proof -
  let ?L = "\<lambda>i. level (entries q ! i)"
  let ?s = "place ?L i (is @ js)"
  have "map ?L (is @ js) = map level (xs @ ys)"
    by (simp add: view[symmetric])
  then have "sorted (map ?L (is @ js))"
    using sorted by simp
  then have t: "touch level q (length is) = Inr (q\<lparr>sorted_idx := ?s\<rparr>)"
    using touch_spec[OF _ q] wf by (simp add: pool_wf_def)
  have "mset ?s = mset (sorted_idx q)"
    using q by (simp add: mset_place)
  then have "length ?s = length (sorted_idx q)" "set ?s = set (sorted_idx q)"
    "distinct ?s = distinct (sorted_idx q)"
    by (fact mset_eq_length, fact mset_eq_setD, fact mset_eq_imp_distinct_iff)
  then have "pool_wf n (q\<lparr>sorted_idx := ?s\<rparr>)"
    using wf unfolding pool_wf_def by simp
  moreover have "map ((!) (entries q)) ?s = place level (entries q ! i) (xs @ ys)"
    using map_place[of i "is @ js" level "(!) (entries q)" ?L] by (simp add: view)
  then have "pool_view (q\<lparr>sorted_idx := ?s\<rparr>) = place level (entries q ! i) (xs @ ys)"
    by (simp add: pool_view_def)
  ultimately have "pool_rep level n (q\<lparr>sorted_idx := ?s\<rparr>) (place level (entries q ! i) (xs @ ys))"
    using place_sorted[OF sorted, of "entries q ! i"] unfolding pool_rep_def by blast
  then show ?thesis
    using t by blast
qed

lemma view_upd:
  assumes "distinct (is @ i # js)" "i < length es"
  shows "map ((!) (es[i := e])) is = map ((!) es) is" "map ((!) (es[i := e])) js = map ((!) es) js"
  using assms by (auto simp: nth_list_update intro!: map_cong)

lemma sorted_minus:
  assumes "sorted (map f (as @ e # bs))"
  shows "sorted (map f (as @ bs))"
  using assms sorted_append[of "map f as" "map f (e # bs)"] sorted_append[of "map f as" "map f bs"] by simp

text \<open>An entry rewritten in place, and touched, goes to the place of its new value.\<close>

lemma rewrite_touch_rep:
  assumes rep: "pool_rep level n q (xs @ e # ys)"
  shows "\<exists>q'. touch level (q\<lparr>entries := (entries q)[sorted_idx q ! length xs := e']\<rparr>) (length xs) = Inr q' \<and>
    pool_rep level n q' (place level e' (xs @ ys))"
    and "sorted_idx q ! length xs < length (entries q)" "entries q ! (sorted_idx q ! length xs) = e"
    "length xs < length (sorted_idx q)"
proof -
  have wf: "pool_wf n q" and view: "map ((!) (entries q)) (sorted_idx q) = xs @ e # ys"
    and sorted: "sorted (map level (xs @ e # ys))"
    using rep by (simp_all add: pool_rep_def pool_view_def)
  obtain "is" i js where s: "sorted_idx q = is @ i # js"
    and v: "map ((!) (entries q)) is = xs" "entries q ! i = e" "map ((!) (entries q)) js = ys"
    using view by (auto simp: map_eq_append_conv)
  have l: "length is = length xs"
    using v(1) by auto
  have i: "i < length (entries q)" "sorted_idx q ! length xs = i"
    using wf s l by (auto simp: pool_wf_def nth_append)
  have d: "distinct (is @ i # js)"
    using wf s by (simp add: pool_wf_def)
  let ?q = "q\<lparr>entries := (entries q)[i := e']\<rparr>"
  have "pool_wf n ?q"
    using wf by (simp add: pool_wf_def)
  then have "\<exists>q'. touch level ?q (length is) = Inr q' \<and> pool_rep level n q' (place level (entries ?q ! i) (xs @ ys))"
    by (rule touch_rep[where js = js]) (use s v view_upd[OF d i(1), of e'] sorted_minus[OF sorted] in auto)
  then show "\<exists>q'. touch level (q\<lparr>entries := (entries q)[sorted_idx q ! length xs := e']\<rparr>) (length xs) = Inr q' \<and>
    pool_rep level n q' (place level e' (xs @ ys))"
    using i l by simp
  show "sorted_idx q ! length xs < length (entries q)" "entries q ! (sorted_idx q ! length xs) = e"
    "length xs < length (sorted_idx q)"
    using i v s l by auto
qed

lemma pool_view_length: "pool_rep level n q xs \<Longrightarrow> length (sorted_idx q) = length xs \<and> length (entries q) = length xs"
proof -
  assume r: "pool_rep level n q xs"
  have "length (pool_view q) = length (sorted_idx q)"
    by (simp add: pool_view_def)
  then show ?thesis
    using r unfolding pool_rep_def pool_wf_def by metis
qed

lemma pool_append_rep:
  assumes rep: "pool_rep level n q xs" and n: "length xs < n"
  shows "\<exists>q'. pool_append level q new = Inr q' \<and> pool_rep level n q' (place level new xs)"
proof -
  let ?q = "q\<lparr>entries := entries q @ [new], sorted_idx := sorted_idx q @ [length (entries q)]\<rparr>"
  have wf: "pool_wf n q" and view: "map ((!) (entries q)) (sorted_idx q) = xs" and sorted: "sorted (map level xs)"
    and l: "length (sorted_idx q) = length (entries q)" "length (entries q) = length xs"
    using rep pool_view_length[OF rep] by (simp_all add: pool_rep_def pool_view_def)
  have "set (sorted_idx q) = {..<length (entries q)}" "distinct (sorted_idx q)"
    using wf by (simp_all add: pool_wf_def)
  then have "pool_wf n ?q"
    using n l by (simp add: pool_wf_def lessThan_Suc)
  moreover have "map ((!) (entries q @ [new])) (sorted_idx q) = map ((!) (entries q)) (sorted_idx q)"
    by (rule map_cong) (use wf in \<open>simp_all add: pool_wf_def nth_append\<close>)
  ultimately have "\<exists>q'. touch level ?q (length (sorted_idx q)) = Inr q' \<and>
      pool_rep level n q' (place level (entries ?q ! length (entries q)) (xs @ []))"
    by (intro touch_rep[where js = "[]"]) (simp_all add: view sorted)
  moreover have "(entries q @ [new]) ! length xs = new"
    using l by (simp add: nth_append)
  ultimately show ?thesis
    using l by (simp add: pool_append_def)
qed

lemma lookup_from_rep:
  assumes rep: "pool_rep level n q (as @ bs)"
  shows "\<exists>q'. lookup_from level f_test f_use q (length as) =
      Inr (q', case dropWhile (Not \<circ> f_test) bs of [] \<Rightarrow> None | e # _ \<Rightarrow> Some (snd (f_use e))) \<and>
    pool_rep level n q' (case dropWhile (Not \<circ> f_test) bs of [] \<Rightarrow> as @ bs
      | e # cs \<Rightarrow> place level (fst (f_use e)) (as @ takeWhile (Not \<circ> f_test) bs @ cs))"
  using rep
proof (induction bs arbitrary: as)
  case Nil
  then show ?case
    using pool_view_length[OF Nil] by (subst lookup_from.simps) simp
next
  case (Cons e bs)
  obtain q' where t: "touch level (q\<lparr>entries := (entries q)[sorted_idx q ! length as := fst (f_use e)]\<rparr>) (length as) = Inr q'"
    "pool_rep level n q' (place level (fst (f_use e)) (as @ bs))"
    using rewrite_touch_rep(1)[OF Cons.prems] by blast
  note facts = rewrite_touch_rep(2-4)[OF Cons.prems]
  show ?case
  proof (cases "f_test e")
    case True
    then show ?thesis
      using t facts by (subst lookup_from.simps) (simp add: case_prod_beta)
  next
    case False
    then show ?thesis
      using facts Cons.IH[of "as @ [e]"] Cons.prems False by (subst lookup_from.simps) (simp add: comp_def cong: list.case_cong)
  qed
qed

subsection \<open>The contract of the pool\<close>

text \<open>
  What the three public operations do to the entries in order.  The element found by a lookup, or
  inserted, goes to the front of its level; what is dropped is the last entry in the order.
\<close>

definition spec_lookup :: "('a \<Rightarrow> nat) \<Rightarrow> ('a \<Rightarrow> bool) \<Rightarrow> ('a \<Rightarrow> 'a \<times> 'r) \<Rightarrow> 'a list \<Rightarrow> 'a list \<times> 'r option" where
  "spec_lookup level f_test f_use xs =
     (case dropWhile (Not \<circ> f_test) xs of
        [] \<Rightarrow> (xs, None)
      | e # ys \<Rightarrow> (place level (fst (f_use e)) (takeWhile (Not \<circ> f_test) xs @ ys), Some (snd (f_use e))))"

definition spec_insert :: "('a \<Rightarrow> nat) \<Rightarrow> nat \<Rightarrow> 'a \<Rightarrow> 'a list \<Rightarrow> 'a list \<times> ('a + 'a option)" where
  "spec_insert level n new xs =
     (if length xs < n then (place level new xs, Inr None)
      else if level new \<le> level (last xs) then (place level new (butlast xs), Inr (Some (last xs)))
      else (xs, Inl new))"

definition spec_force_insert :: "('a \<Rightarrow> nat) \<Rightarrow> nat \<Rightarrow> 'a \<Rightarrow> 'a list \<Rightarrow> 'a list \<times> 'a option" where
  "spec_force_insert level n new xs =
     (if length xs < n then (place level new xs, None)
      else (place level new (butlast xs), Some (last xs)))"

text \<open>The last slot of a full pool.\<close>

lemma full_pool:
  assumes rep: "pool_rep level n q xs" and full: "\<not> length (entries q) < n" and n: "0 < n"
  shows "sorted_idx q \<noteq> []" "xs \<noteq> []" "last (sorted_idx q) < length (entries q)"
    "entries q ! last (sorted_idx q) = last xs" "\<not> length xs < n"
    "\<exists>q'. touch level (q\<lparr>entries := (entries q)[last (sorted_idx q) := new]\<rparr>) (n - 1) = Inr q' \<and>
       pool_rep level n q' (place level new (butlast xs))"
proof -
  have l: "length (sorted_idx q) = length xs" "length (entries q) = length xs"
    using pool_view_length[OF rep] by simp_all
  have "length (entries q) \<le> n"
    using rep by (simp add: pool_rep_def pool_wf_def)
  then have x: "length xs = n" "xs \<noteq> []" "sorted_idx q \<noteq> []"
    using full n l by auto
  then have r: "pool_rep level n q (butlast xs @ last xs # [])"
    using rep by simp
  have "sorted_idx q ! length (butlast xs) = last (sorted_idx q)"
    using x l by (simp add: last_conv_nth)
  then show "last (sorted_idx q) < length (entries q)" "entries q ! last (sorted_idx q) = last xs"
    "\<exists>q'. touch level (q\<lparr>entries := (entries q)[last (sorted_idx q) := new]\<rparr>) (n - 1) = Inr q' \<and>
       pool_rep level n q' (place level new (butlast xs))"
    using rewrite_touch_rep[OF r] x(1) by simp_all
  show "sorted_idx q \<noteq> []" "xs \<noteq> []" "\<not> length xs < n"
    using x by simp_all
qed

lemma pool_lookup_rep:
  assumes "pool_rep level n q xs"
  shows "\<exists>q'. pool_lookup level f_test f_use q = Inr (q', snd (spec_lookup level f_test f_use xs)) \<and>
    pool_rep level n q' (fst (spec_lookup level f_test f_use xs))"
proof (cases "dropWhile (Not \<circ> f_test) xs")
  case Nil
  then show ?thesis
    using lookup_from_rep[of level n q "[]" xs f_test f_use] assms
    unfolding pool_lookup_def spec_lookup_def Nil by simp
next
  case (Cons e ys)
  then show ?thesis
    using lookup_from_rep[of level n q "[]" xs f_test f_use] assms
    unfolding pool_lookup_def spec_lookup_def Cons by simp
qed

lemma pool_insert_rep:
  assumes "pool_rep level n q xs" "0 < n"
  shows "\<exists>q'. pool_insert level n q new = Inr (q', snd (spec_insert level n new xs)) \<and>
    pool_rep level n q' (fst (spec_insert level n new xs))"
proof (cases "length (entries q) < n")
  case True
  then have "length xs < n"
    using pool_view_length[OF assms(1)] by simp
  then show ?thesis
    using pool_append_rep[OF assms(1), of new] True by (auto simp: pool_insert_def spec_insert_def)
next
  case False
  note f = full_pool(1-5)[OF assms(1) False assms(2)] full_pool(6)[OF assms(1) False assms(2), of new]
  then show ?thesis
    using assms(1) False by (auto simp: pool_insert_def spec_insert_def)
qed

lemma pool_force_insert_rep:
  assumes "pool_rep level n q xs" "0 < n"
  shows "\<exists>q'. pool_force_insert level n q new = Inr (q', snd (spec_force_insert level n new xs)) \<and>
    pool_rep level n q' (fst (spec_force_insert level n new xs))"
proof (cases "length (entries q) < n")
  case True
  then have "length xs < n"
    using pool_view_length[OF assms(1)] by simp
  then show ?thesis
    using pool_append_rep[OF assms(1), of new] True by (auto simp: pool_force_insert_def spec_force_insert_def)
next
  case False
  note f = full_pool(1-5)[OF assms(1) False assms(2)] full_pool(6)[OF assms(1) False assms(2), of new]
  then show ?thesis
    using assms(1) False by (auto simp: pool_force_insert_def spec_force_insert_def)
qed

text \<open>
  C28: Looking an entry up never panics and implements the contract: on a pool whose order vector
  is a permutation and whose entries in order are \<open>xs\<close>, \<open>OrderedPool::lookup\<close> calls \<open>f_use\<close> on the
  first entry in that order which passes the test, answers its result, moves the (possibly
  mutated) entry in front of all entries of its new level, and leaves the others in order; when no
  entry passes, nothing changes.  The documented invariants hold again afterwards.
\<close>

theorem pool_lookup_refines:
  assumes "pool_rep level n q xs"
  shows "\<exists>q'. pool_lookup level f_test f_use q = Inr (q', snd (spec_lookup level f_test f_use xs)) \<and>
    pool_rep level n q' (fst (spec_lookup level f_test f_use xs))"
  using assms by (rule pool_lookup_rep)

text \<open>
  \<open>OrderedPool::insert\<close> and \<open>force_insert\<close> never panic for a capacity \<open>n > 0\<close> and implement the
  contract: with room left the element is put in front of its level; a full pool drops the last
  entry in the order and returns it, except that \<open>insert\<close> gives an element of a strictly lower
  priority than that entry back as an error and changes nothing.
\<close>

theorem pool_insert_refines:
  assumes "pool_rep level n q xs" "0 < n"
  shows "(\<exists>q'. pool_insert level n q new = Inr (q', snd (spec_insert level n new xs)) \<and>
      pool_rep level n q' (fst (spec_insert level n new xs))) \<and>
    (\<exists>q'. pool_force_insert level n q new = Inr (q', snd (spec_force_insert level n new xs)) \<and>
      pool_rep level n q' (fst (spec_force_insert level n new xs)))"
  using pool_insert_rep[OF assms] pool_force_insert_rep[OF assms] by blast

text \<open>
  The documentation's example with two levels: numbers below 10 have level 0.
\<close>

definition two_levels :: "nat \<Rightarrow> nat" where
  "two_levels x = (if x < 10 then 0 else 1)"

definition pool_example :: "nat pool" where
  "pool_example = \<lparr>entries = [1, 2, 30], sorted_idx = [1, 0, 2]\<rparr>"

lemma pool_example_rep: "pool_rep two_levels 3 pool_example [2, 1, 30]"
  by (auto simp: pool_rep_def pool_wf_def pool_view_def pool_example_def two_levels_def)

theorem pool_lookup_refines_witness:
  "\<exists>q'. pool_lookup two_levels (\<lambda>x. x = 1) (\<lambda>x. (x + 40, x)) pool_example = Inr (q', Some 1) \<and>
     pool_rep two_levels 3 q' [2, 41, 30]"
  using pool_lookup_refines[OF pool_example_rep, of "\<lambda>x. x = 1" "\<lambda>x. (x + 40, x)"]
  by (simp add: spec_lookup_def place_def two_levels_def)

theorem pool_insert_refines_witness:
  "\<exists>q'. pool_insert two_levels 3 pool_example 4 = Inr (q', Inr (Some 30)) \<and>
     pool_rep two_levels 3 q' [4, 2, 1]"
  using pool_insert_refines[OF pool_example_rep, of 4]
  by (simp add: spec_insert_def place_def two_levels_def)

end
