(* ===== verification/ConnIds.thy ===== *)
theory ConnIds
  imports Prelude
begin

unbundle bit_operations_syntax

section \<open>Own connection identifiers (\<open>coapcore/src/helpers.rs\<close>)\<close>

text \<open>
  A \<open>COwn\<close> is one byte: an identifier the server gives a security context.  \<open>not_in_iter\<close> finds one
  no present context has, by marking the identifiers seen in two 32-bit sets.
\<close>

type_synonym cown = "8 word"

definition generatable_values :: nat where
  "generatable_values = 48"

text \<open>\<open>u32::trailing_ones\<close>.\<close>

definition trailing_ones :: "32 word \<Rightarrow> nat" where
  "trailing_ones w = length (takeWhile (bit w) [0..<32])"

text \<open>The body of the loop: one identifier marked.\<close>

definition mark_seen :: "cown \<Rightarrow> 32 word \<times> 32 word \<Rightarrow> 32 word \<times> 32 word" where
  "mark_seen i seen =
     (let major = drop_bit 5 i; b = push_bit (unat (i AND 0x1f)) 1
      in if major = 0 then (fst seen OR b, snd seen) else (fst seen, snd seen OR b))"

text \<open>
  \<open>hint\<close> is the upper bound of the iterator's \<open>size_hint\<close>, \<open>items\<close> what it produces.
\<close>

definition not_in_iter :: "nat option \<Rightarrow> cown list \<Rightarrow> panic + cown" where
  "not_in_iter hint items =
     bnd (require (case hint of Some v \<Rightarrow> v < generatable_values | None \<Rightarrow> False)) (\<lambda>_.
       let (seen_pos, seen_neg) = foldl (\<lambda>seen i. mark_seen i seen) (0, 0) items;
           pos_to = trailing_ones seen_pos
       in if pos_to < 24 then Inr (of_nat pos_to)
          else let neg_to = trailing_ones seen_neg
               in if neg_to < 24 then Inr (0x20 OR of_nat neg_to) else Inl UnreachableCode)"

fun from_kid :: "8 word list \<Rightarrow> cown option" where
  "from_kid [first] = (if first \<le> 0x17 \<or> (0x20 \<le> first \<and> first \<le> 0x37) then Some first else None)"
| "from_kid _ = None"

definition as_slice :: "cown \<Rightarrow> 8 word list" where
  "as_slice c = [c]"

subsection \<open>What is marked\<close>

definition minor :: "cown \<Rightarrow> nat" where
  "minor i = unat (i AND 0x1f)"

lemma minor_less: "minor i < 32"
  using word_and_le1[of i "0x1f"] by (simp add: minor_def word_le_nat_alt)

lemma mark_bits:
  assumes "k < 32"
  shows "bit (fst (mark_seen i seen)) k \<longleftrightarrow> bit (fst seen) k \<or> (drop_bit 5 i = 0 \<and> minor i = k)"
    "bit (snd (mark_seen i seen)) k \<longleftrightarrow> bit (snd seen) k \<or> (drop_bit 5 i \<noteq> 0 \<and> minor i = k)"
  using assms by (auto simp: mark_seen_def Let_def minor_def bit_or_iff bit_exp_iff)

lemma fold_bits:
  assumes "k < 32"
  shows "bit (fst (foldl (\<lambda>seen i. mark_seen i seen) seen items)) k \<longleftrightarrow>
      bit (fst seen) k \<or> (\<exists>i\<in>set items. drop_bit 5 i = 0 \<and> minor i = k)"
    "bit (snd (foldl (\<lambda>seen i. mark_seen i seen) seen items)) k \<longleftrightarrow>
      bit (snd seen) k \<or> (\<exists>i\<in>set items. drop_bit 5 i \<noteq> 0 \<and> minor i = k)"
  by (induction items arbitrary: seen) (auto simp: mark_bits[OF assms])

lemma trailing_ones_bit: "trailing_ones w < 32 \<Longrightarrow> \<not> bit w (trailing_ones w)"
  using nth_length_takeWhile[of "bit w" "[0..<32]"] by (simp add: trailing_ones_def)

lemma trailing_ones_all: "k < trailing_ones w \<Longrightarrow> bit w k"
proof -
  assume k: "k < trailing_ones w"
  then have "[0..<32] ! k \<in> set (takeWhile (bit w) [0..<32])"
    by (metis nth_mem takeWhile_nth trailing_ones_def)
  moreover have "k < 32"
    using k length_takeWhile_le[of "bit w" "[0..<32]"] by (simp add: trailing_ones_def)
  ultimately show ?thesis
    by (metis add_0 nth_upt set_takeWhileD)
qed

text \<open>Marking 24 different values takes 24 different identifiers.\<close>

lemma marked_card:
  assumes "\<And>k. k < 24 \<Longrightarrow> \<exists>i\<in>A. minor i = k" "finite A"
  shows "24 \<le> card A"
proof -
  have "{..<24} \<subseteq> minor ` A"
    using assms(1) by (auto simp: image_iff)
  then have "card {..<24 :: nat} \<le> card (minor ` A)"
    using assms(2) by (intro card_mono) auto
  then show ?thesis
    using card_image_le[OF assms(2), of minor] by simp
qed

lemma small_minor: "n < 24 \<Longrightarrow> drop_bit 5 (of_nat n :: cown) = 0 \<and> minor (of_nat n) = n"
proof -
  assume n: "n < 24"
  have "\<forall>n\<in>{..<24}. drop_bit 5 (of_nat n :: cown) = 0 \<and> minor (of_nat n) = n"
    unfolding minor_def by code_simp
  then show ?thesis
    using n by blast
qed

lemma small_neg: "n < 24 \<Longrightarrow> drop_bit 5 (0x20 OR of_nat n :: cown) \<noteq> 0 \<and> minor (0x20 OR of_nat n) = n \<and>
   from_kid [0x20 OR of_nat n] = Some (0x20 OR of_nat n)"
proof -
  assume n: "n < 24"
  have "\<forall>n\<in>{..<24}. drop_bit 5 (0x20 OR of_nat n :: cown) \<noteq> 0 \<and> minor (0x20 OR of_nat n) = n \<and>
     from_kid [0x20 OR of_nat n] = Some (0x20 OR of_nat n)"
    unfolding minor_def by code_simp
  then show ?thesis
    using n by blast
qed

lemma small_kid: "n < 24 \<Longrightarrow> from_kid [of_nat n] = Some (of_nat n)"
proof -
  assume n: "n < 24"
  have "\<forall>n\<in>{..<24}. from_kid [of_nat n] = Some (of_nat n)"
    by code_simp
  then show ?thesis
    using n by blast
qed

lemma not_in_iter_fresh:
  assumes hint: "hint = Some v" "v < generatable_values" and len: "length items < 48"
  shows "\<exists>c. not_in_iter hint items = Inr c \<and> c \<notin> set items \<and> from_kid [c] = Some c"
proof -
  define pos neg where "pos = fst (foldl (\<lambda>seen i. mark_seen i seen) (0, 0) items)"
    and "neg = snd (foldl (\<lambda>seen i. mark_seen i seen) (0, 0) items)"
  have p: "bit pos k \<longleftrightarrow> (\<exists>i\<in>set items. drop_bit 5 i = 0 \<and> minor i = k)" if "k < 32" for k
    using fold_bits(1)[OF that, of "(0, 0)" items] by (simp add: pos_def)
  have n: "bit neg k \<longleftrightarrow> (\<exists>i\<in>set items. drop_bit 5 i \<noteq> 0 \<and> minor i = k)" if "k < 32" for k
    using fold_bits(2)[OF that, of "(0, 0)" items] by (simp add: neg_def)
  have run: "not_in_iter hint items =
    (if trailing_ones pos < 24 then Inr (of_nat (trailing_ones pos))
     else if trailing_ones neg < 24 then Inr (0x20 OR of_nat (trailing_ones neg)) else Inl UnreachableCode)"
    using hint by (simp add: not_in_iter_def require_def Let_def pos_def neg_def case_prod_beta)
  have pf: "of_nat (trailing_ones pos) \<notin> set items" if "trailing_ones pos < 24"
    using p[of "trailing_ones pos"] trailing_ones_bit[of pos] small_minor[OF that] that by auto
  have nf: "0x20 OR of_nat (trailing_ones neg) \<notin> set items" if "trailing_ones neg < 24"
    using n[of "trailing_ones neg"] trailing_ones_bit[of neg] small_neg[OF that] that by auto
  have "trailing_ones pos < 24 \<or> trailing_ones neg < 24"
  proof (rule ccontr)
    assume c: "\<not> ?thesis"
    let ?P = "{i \<in> set items. drop_bit 5 i = 0}" and ?N = "{i \<in> set items. drop_bit 5 i \<noteq> 0}"
    have "24 \<le> card ?P"
    proof (rule marked_card)
      fix k :: nat
      assume k: "k < 24"
      then have "bit pos k"
        using c by (intro trailing_ones_all) simp
      then show "\<exists>i\<in>?P. minor i = k"
        using p[of k] k by auto
    qed simp
    moreover have "24 \<le> card ?N"
    proof (rule marked_card)
      fix k :: nat
      assume k: "k < 24"
      then have "bit neg k"
        using c by (intro trailing_ones_all) simp
      then show "\<exists>i\<in>?N. minor i = k"
        using n[of k] k by auto
    qed simp
    moreover have "card ?P + card ?N = card (set items)"
    proof -
      have "set items = ?P \<union> ?N" "?P \<inter> ?N = {}"
        by blast+
      then show ?thesis
        by (metis (no_types, lifting) List.finite_set card_Un_disjoint finite_Un)
    qed
    ultimately show False
      using card_length[of items] len by linarith
  qed
  then show ?thesis
    using run pf nf small_kid small_neg by (cases "trailing_ones pos < 24") auto
qed

text \<open>
  Choosing an own connection identifier: for an iterator whose size hint promises fewer than 48
  items, and which keeps that promise, \<open>not_in_iter\<close> returns, never reaches its \<open>unreachable!\<close>,
  and its result is none of the items and one of the 48 one-byte identifiers \<open>from_kid\<close> accepts, so
  a request that carries it as its key identifier finds the new context and no other.
\<close>

theorem not_in_iter_finds_free:
  assumes "v < generatable_values" "length items \<le> v"
  shows "\<exists>c. not_in_iter (Some v) items = Inr c \<and> c \<notin> set items \<and> from_kid (as_slice c) = Some c"
  using not_in_iter_fresh[OF refl, of v items] assms by (simp add: generatable_values_def as_slice_def)

theorem not_in_iter_finds_free_witness:
  "\<exists>c. not_in_iter (Some 4) [0, 1, 0x20, 2] = Inr c \<and> c \<notin> {0, 1, 0x20, 2} \<and> from_kid (as_slice c) = Some c"
  using not_in_iter_finds_free[of 4 "[0, 1, 0x20, 2]"] by (simp add: generatable_values_def)

end
