(* ===== verification/Scope.thy ===== *)
theory Scope
  imports Prelude
begin

unbundle bit_operations_syntax

section \<open>Access policy of a security context (\<open>coapcore/src/scope.rs\<close>, \<open>time.rs\<close>, \<open>generalclaims.rs\<close>)\<close>

text \<open>
  Strings and byte slices are \<open>string\<close>: an Isabelle \<open>char\<close> is one byte, and a Rust \<open>str\<close> its UTF-8
  bytes.  A request is its code and its options in order.  The CBOR decoder (\<open>minicbor\<close>) is a
  parameter \<open>cbor\<close>: on a buffer it gives \<open>None\<close> when \<open>array_iter\<close> fails, and otherwise the items of
  the array, each \<open>None\<close> (an error) or a path with its permission bits.
\<close>

type_synonym cbor_decoder = "string \<Rightarrow> (string \<times> 32 word) option list option"

record request =
  code :: "8 word"
  options :: "(nat \<times> string) list"

definition uri_path :: nat where
  "uri_path = 11"

definition pathopts :: "request \<Rightarrow> string list" where
  "pathopts r = map snd (filter (\<lambda>(number, _). number = uri_path) (options r))"

definition AIF_SCOPE_MAX_LEN :: nat where
  "AIF_SCOPE_MAX_LEN = 64"

definition starts_with_slash :: "string \<Rightarrow> bool" where
  "starts_with_slash path = (case path of c # _ \<Rightarrow> c = CHR ''/'' | [] \<Rightarrow> False)"

datatype invalid_scope = InvalidScope

text \<open>\<open>AifValue\<close>: the bytes, padded with zeros to the fixed length.\<close>

type_synonym aif_value = string

definition aif_buffer :: "string \<Rightarrow> string" where
  "aif_buffer bytes = bytes @ replicate (AIF_SCOPE_MAX_LEN - length bytes) (CHR 0x00)"

fun aif_items_ok :: "(string \<times> 32 word) option list \<Rightarrow> bool" where
  "aif_items_ok [] = True"
| "aif_items_ok (None # items) = False"
| "aif_items_ok (Some (path, perms) # items) = (if \<not> starts_with_slash path then False else aif_items_ok items)"

definition aif_parse :: "cbor_decoder \<Rightarrow> string \<Rightarrow> invalid_scope + aif_value" where
  "aif_parse cbor bytes =
     (if length bytes > AIF_SCOPE_MAX_LEN then Inl InvalidScope
      else case cbor bytes of
        None \<Rightarrow> Inl InvalidScope
      | Some items \<Rightarrow> if aif_items_ok items then Inr (aif_buffer bytes) else Inl InvalidScope)"

text \<open>\<open>str::split_once('/')\<close>.\<close>

fun split_once :: "string \<Rightarrow> (string \<times> string) option" where
  "split_once [] = None"
| "split_once (c # cs) =
     (if c = CHR ''/'' then Some ([], cs)
      else case split_once cs of None \<Rightarrow> None | Some (a, b) \<Rightarrow> Some (c # a, b))"

text \<open>
  The inner loop: the record's remaining path against the request's remaining options.  \<open>None\<close> is
  \<open>continue 'outer\<close>, otherwise the options left over.
\<close>

function match_path :: "string \<Rightarrow> string list \<Rightarrow> string list option" where
  "match_path remainder opts =
     (if remainder = [] then Some opts
      else
        let (next_part, next_remainder) =
              (case split_once remainder of Some (a, b) \<Rightarrow> (a, b) | None \<Rightarrow> (remainder, []))
        in case opts of
             [] \<Rightarrow> None
           | this_opt # opts' \<Rightarrow> if this_opt \<noteq> next_part then None else match_path next_remainder opts')"
  by pat_completeness auto
termination
  by (relation "measure (\<lambda>(r, opts). length opts)") auto

declare match_path.simps [simp del]

text \<open>The outer loop over the records.\<close>

fun aif_loop :: "32 word \<Rightarrow> string list \<Rightarrow> (string \<times> 32 word) option list \<Rightarrow> panic + bool" where
  "aif_loop codebit opts [] = Inr False"
| "aif_loop codebit opts (None # items) = Inl UnwrapNone"
| "aif_loop codebit opts (Some (path, perms) # items) =
     (if perms AND codebit = 0 then aif_loop codebit opts items
      else if path = ''/'' \<and> opts = [] then Inr True
      else bnd (require (starts_with_slash path)) (\<lambda>_.
        case match_path (tl path) opts of
          None \<Rightarrow> aif_loop codebit opts items
        | Some rest \<Rightarrow> if rest = [] then Inr True else aif_loop codebit opts items))"

definition aif_request_is_allowed :: "cbor_decoder \<Rightarrow> aif_value \<Rightarrow> request \<Rightarrow> panic + bool" where
  "aif_request_is_allowed cbor aif request =
     bnd (unwrap (if unat (code request) = 0 then None else Some (unat (code request) - 1))) (\<lambda>shift.
       if 32 \<le> shift then Inr False
       else bnd (unwrap (cbor aif)) (\<lambda>items. aif_loop (push_bit shift 1) (pathopts request) items))"

datatype union_scope = AifValue aif_value | AllowAll | DenyAll

definition union_request_is_allowed :: "cbor_decoder \<Rightarrow> union_scope \<Rightarrow> request \<Rightarrow> panic + bool" where
  "union_request_is_allowed cbor scope request =
     (case scope of
        AifValue v \<Rightarrow> aif_request_is_allowed cbor v request
      | AllowAll \<Rightarrow> Inr True
      | DenyAll \<Rightarrow> Inr False)"

subsection \<open>Time constraints\<close>

text \<open>A clock gives the earliest and, if known, the latest present time.\<close>

definition time_unknown_now :: "nat \<times> nat option" where
  "time_unknown_now = (0, None)"

record time_constraint =
  exp_at :: "nat option"   \<comment> \<open>\<open>exp\<close>\<close>

definition unbounded :: time_constraint where
  "unbounded = \<lparr>exp_at = None\<rparr>"

definition from_claims_set :: "nat \<Rightarrow> time_constraint" where
  "from_claims_set exp = \<lparr>exp_at = Some exp\<rparr>"

definition is_valid_with :: "time_constraint \<Rightarrow> nat \<times> nat option \<Rightarrow> bool" where
  "is_valid_with tc now =
     (case exp_at tc of
        None \<Rightarrow> True
      | Some e \<Rightarrow> (case now of (now_early, _) \<Rightarrow> e > now_early))"

text \<open>\<open>GeneralClaims for Unlimited\<close>: no bound in time, and never important.\<close>

definition unlimited_time_constraint :: "'s \<Rightarrow> time_constraint" where
  "unlimited_time_constraint s = unbounded"

definition general_is_important :: "'c \<Rightarrow> bool" where
  "general_is_important c = False"

subsection \<open>Which paths a record covers\<close>

text \<open>
  The path segments of a record: split at every slash, without a last empty segment.
\<close>

fun segments :: "string \<Rightarrow> string list" where
  "segments [] = []"
| "segments (c # cs) =
     (if c = CHR ''/'' then [] # segments cs
      else case segments cs of
             [] \<Rightarrow> [[c]]
           | seg # segs \<Rightarrow> if cs \<noteq> [] \<and> hd cs = CHR ''/'' then [c] # segs else (c # seg) # segs)"

lemma segments_Nil [simp]: "segments s = [] \<longleftrightarrow> s = []"
  by (cases s) (auto split: list.splits)

lemma segments_split:
  "s \<noteq> [] \<Longrightarrow> segments s =
    (case split_once s of Some (a, b) \<Rightarrow> a # segments b | None \<Rightarrow> [s])"
proof (induction s)
  case (Cons c cs)
  show ?case
  proof (cases cs)
    case Nil
    then show ?thesis
      by simp
  next
    case (Cons d ds)
    then have ih: "segments cs = (case split_once cs of Some (a, b) \<Rightarrow> a # segments b | None \<Rightarrow> [cs])"
      using Cons.IH by simp
    show ?thesis
    proof (cases "d = CHR ''/''")
      case True
      then show ?thesis
        using Cons by simp
    next
      case False
      then have "segments (c # cs) =
          (if c = CHR ''/'' then [] # segments cs else (c # hd (segments cs)) # tl (segments cs))"
        using Cons segments_Nil[of cs] by (auto split: list.splits)
      then show ?thesis
        using ih by (auto split: option.splits)
    qed
  qed
qed simp

lemma match_path_segments: "match_path s opts = Some [] \<longleftrightarrow> opts = segments s"
proof (induction s opts rule: match_path.induct)
  case (1 s opts)
  show ?case
  proof (cases "s = []")
    case True
    then show ?thesis
      by (subst match_path.simps) auto
  next
    case False
    obtain a b where ab: "(case split_once s of Some (a, b) \<Rightarrow> (a, b) | None \<Rightarrow> (s, [])) = (a, b)"
      by fastforce
    then have "segments s = a # segments b"
      using segments_split[OF False] by (auto split: option.splits)
    then show ?thesis
      using False 1[OF False ab[symmetric]] ab by (subst match_path.simps) (auto split: list.splits)
  qed
qed

text \<open>
  A decoder reads no further than the item it decodes: what follows a complete array is ignored.
\<close>

definition cbor_ignores_trailing :: "cbor_decoder \<Rightarrow> bool" where
  "cbor_ignores_trailing cbor \<longleftrightarrow>
     (\<forall>bs items k. cbor bs = Some items \<and> None \<notin> set items \<longrightarrow>
        cbor (bs @ replicate k (CHR 0x00)) = Some items)"

definition covers :: "32 word \<Rightarrow> string list \<Rightarrow> string \<times> 32 word \<Rightarrow> bool" where
  "covers codebit opts r \<longleftrightarrow> snd r AND codebit \<noteq> 0 \<and> opts = segments (tl (fst r))"

lemma aif_items_ok_iff:
  "aif_items_ok items \<longleftrightarrow> None \<notin> set items \<and> (\<forall>r. Some r \<in> set items \<longrightarrow> starts_with_slash (fst r))"
  by (induction items rule: aif_items_ok.induct) auto

lemma starts_with_slash_Cons: "starts_with_slash p \<longleftrightarrow> (\<exists>q. p = CHR ''/'' # q)"
  by (simp add: starts_with_slash_def split: list.splits)

lemma aif_loop_covers:
  "aif_items_ok items \<Longrightarrow>
   aif_loop codebit opts items = Inr (\<exists>r. Some r \<in> set items \<and> covers codebit opts r)"
proof (induction codebit opts items rule: aif_loop.induct)
  case (3 codebit opts path perms items)
  then have ok: "aif_items_ok items" and "starts_with_slash path"
    by (auto split: if_splits)
  then obtain q where q: "path = CHR ''/'' # q"
    by (auto simp: starts_with_slash_Cons)
  have m: "match_path q opts = Some [] \<longleftrightarrow> opts = segments q"
    by (rule match_path_segments)
  have c: "covers codebit opts (path, perms) \<longleftrightarrow> perms AND codebit \<noteq> 0 \<and> opts = segments q"
    by (simp add: covers_def q)
  have slash: "path = ''/'' \<longleftrightarrow> q = []"
    by (simp add: q)
  have split: "(\<exists>r. Some r \<in> set (Some (path, perms) # items) \<and> covers codebit opts r) \<longleftrightarrow>
      covers codebit opts (path, perms) \<or> (\<exists>r. Some r \<in> set items \<and> covers codebit opts r)"
    by auto
  show ?case
  proof (cases "perms AND codebit = 0")
    case True
    then show ?thesis
      using 3(1)[OF _ ok] c unfolding split by simp
  next
    case bit: False
    show ?thesis
    proof (cases "opts = segments q")
      case True
      then show ?thesis
        using bit c m \<open>starts_with_slash path\<close> unfolding split by (simp add: q)
    next
      case False
      then have "\<not> (path = ''/'' \<and> opts = [])" "match_path q opts \<noteq> Some []"
        using m slash by auto
      then show ?thesis
        using bit False c 3(2,3) ok \<open>starts_with_slash path\<close> unfolding split
        by (auto simp: q split: option.splits)
    qed
  qed
qed simp_all

lemma single_bit: "k < 32 \<Longrightarrow> w AND push_bit k 1 \<noteq> 0 \<longleftrightarrow> bit (w :: 32 word) k"
proof -
  assume k: "k < 32"
  have "bit (w AND push_bit k 1) n \<longleftrightarrow> n = k \<and> bit w k" for n
    using k by (auto simp: bit_and_iff bit_exp_iff)
  then show ?thesis
    by (metis bit_0_eq bot_apply bot_bool_def bit_eqI)
qed

lemma aif_decision:
  assumes "cbor_ignores_trailing cbor" "aif_parse cbor bytes = Inr aif" "cbor bytes = Some items"
    and "unat (code request) \<noteq> 0"
  shows "aif_request_is_allowed cbor aif request =
    Inr (unat (code request) \<le> 32 \<and>
      (\<exists>path perms. Some (path, perms) \<in> set items \<and> bit perms (unat (code request) - 1) \<and>
         pathopts request = segments (tl path)))"
proof -
  have ok: "aif_items_ok items" and aif: "aif = aif_buffer bytes"
    using assms(2,3) by (auto simp: aif_parse_def split: if_splits)
  then have "cbor aif = Some items"
    using assms(1,3) by (simp add: cbor_ignores_trailing_def aif_items_ok_iff aif_buffer_def)
  then show ?thesis
    using assms(4) aif_loop_covers[OF ok] single_bit[of "unat (code request) - 1"]
    by (auto simp: aif_request_is_allowed_def covers_def)
qed

lemma aif_returns:
  "cbor_ignores_trailing cbor \<Longrightarrow> aif_parse cbor bytes = Inr aif \<Longrightarrow> cbor bytes = Some items \<Longrightarrow>
   unat (code request) \<noteq> 0 \<Longrightarrow> \<exists>b. aif_request_is_allowed cbor aif request = Inr b"
  using aif_decision by blast


text \<open>
  A record whose path ends in a slash, such as \<open>/foo/\<close>, grants its permissions on \<open>/foo\<close> (the
  single Uri-Path option \<open>foo\<close>) and does not grant them on the path it names, \<open>/foo/\<close>, which CoAP
  encodes with a second, empty option: the loop stops when nothing follows the last slash.
\<close>

theorem aif_trailing_slash:
  assumes "cbor_ignores_trailing cbor" "aif_parse cbor bytes = Inr aif" "cbor bytes = Some [Some (''/foo/'', perms)]"
    and "unat c \<noteq> 0" "unat c \<le> 32" "bit perms (unat c - 1)"
  shows "aif_request_is_allowed cbor aif \<lparr>code = c, options = [(uri_path, ''foo'')]\<rparr> = Inr True \<and>
    aif_request_is_allowed cbor aif \<lparr>code = c, options = [(uri_path, ''foo''), (uri_path, [])]\<rparr> = Inr False"
proof -
  have ok: "aif_items_ok [Some (''/foo/'', perms)]" and aif: "aif = aif_buffer bytes"
    using assms(2,3) by (auto simp: aif_parse_def split: if_splits)
  then have "cbor aif = Some [Some (''/foo/'', perms)]"
    using assms(1,3) by (simp add: cbor_ignores_trailing_def aif_items_ok_iff aif_buffer_def)
  then show ?thesis
    using assms(4-6) aif_loop_covers[OF ok] single_bit[of "unat c - 1" perms]
    by (auto simp: aif_request_is_allowed_def covers_def pathopts_def uri_path_def simp del: aif_loop.simps)
qed

text \<open>
  A decoder for one buffer, for the examples: \<open>X\<close> stands for the array of one record that grants
  GET on \<open>/a/b\<close>, \<open>Y\<close> for one on \<open>/foo/\<close>.
\<close>

definition example_cbor :: cbor_decoder where
  "example_cbor bs =
     (if bs \<noteq> [] \<and> hd bs = CHR ''X'' then Some [Some (''/a/b'', 1)]
      else if bs \<noteq> [] \<and> hd bs = CHR ''Y'' then Some [Some (''/foo/'', 1)]
      else None)"

lemma example_cbor_ok: "cbor_ignores_trailing example_cbor"
proof -
  have "example_cbor (bs @ zs) = Some items" if "example_cbor bs = Some items" for bs zs items
    using that by (simp add: example_cbor_def split: if_splits)
  then show ?thesis
    by (simp add: cbor_ignores_trailing_def)
qed


theorem aif_trailing_slash_witness:
  "aif_request_is_allowed example_cbor (aif_buffer ''Y'') \<lparr>code = 1, options = [(uri_path, ''foo'')]\<rparr> = Inr True"
proof -
  have "aif_parse example_cbor ''Y'' = Inr (aif_buffer ''Y'')" "example_cbor ''Y'' = Some [Some (''/foo/'', 1)]"
    by (simp_all add: aif_parse_def example_cbor_def AIF_SCOPE_MAX_LEN_def starts_with_slash_def)
  then show ?thesis
    using aif_trailing_slash[OF example_cbor_ok, of "''Y''" "aif_buffer ''Y''" 1 1] by simp
qed

end
