(* ===== verification/Storage.thy ===== *)
theory Storage
  imports Prelude
begin

section \<open>Persistent storage (\<open>ariel-os-storage\<close>)\<close>

text \<open>
  Keys and values in flash memory.  The map in flash is the crate \<open>sequential_storage\<close>, a parameter:
  a record of its operations on the flash contents, with the contract \<open>seq_storage_ok\<close>, in which
  \<open>items\<close> is the map that flash contents stand for.  Every operation may fail.  The serialisation
  \<open>postcard\<close> is a parameter for each type of values.  The global operations hold a mutex from end to
  end, so they are atomic; \<open>None\<close> is a caller that waits for the initialisation.
\<close>

subsection \<open>Values (\<open>postcard_value.rs\<close>)\<close>

datatype serialization_error = SerBufferTooSmall | SerInvalidData | SerCustom int

datatype postcard_error = SerializeBufferFull | DeserializeUnexpectedEnd | PostcardOther

record 'v postcard =
  pc_to_slice :: "'v \<Rightarrow> nat \<Rightarrow> postcard_error + 8 word list"
  pc_from_bytes :: "8 word list \<Rightarrow> postcard_error + 'v"

text \<open>
  The trait \<open>Value\<close>: serialisation into a buffer of some length gives the bytes used; deserialisation
  gives the value and the number of bytes read.
\<close>

record 'v value_ops =
  serialize_into :: "'v \<Rightarrow> nat \<Rightarrow> serialization_error + 8 word list"
  deserialize_from :: "8 word list \<Rightarrow> serialization_error + 'v \<times> nat"

definition postcard_serialize_into :: "'v postcard \<Rightarrow> 'v \<Rightarrow> nat \<Rightarrow> serialization_error + 8 word list" where
  "postcard_serialize_into pc value buffer =
     (case pc_to_slice pc value buffer of
        Inl e \<Rightarrow> Inl (case e of SerializeBufferFull \<Rightarrow> SerBufferTooSmall | _ \<Rightarrow> SerCustom 0)
      | Inr used \<Rightarrow> Inr used)"

definition postcard_deserialize_from :: "'v postcard \<Rightarrow> 8 word list \<Rightarrow> serialization_error + 'v \<times> nat" where
  "postcard_deserialize_from pc buffer =
     (case pc_from_bytes pc buffer of
        Inl e \<Rightarrow> Inl (case e of DeserializeUnexpectedEnd \<Rightarrow> SerInvalidData | _ \<Rightarrow> SerCustom 0)
      | Inr value \<Rightarrow> Inr (value, length buffer))"

definition postcard_value :: "'v postcard \<Rightarrow> 'v value_ops" where
  "postcard_value pc = \<lparr>serialize_into = postcard_serialize_into pc, deserialize_from = postcard_deserialize_from pc\<rparr>"

subsection \<open>The map in flash\<close>

type_synonym flash_range = "32 word \<times> 32 word"

datatype 'e seq_error = SerializationFailed serialization_error | SequentialStorage 'e

record ('d, 'e) seq_storage =
  ss_fetch :: "'d \<Rightarrow> flash_range \<Rightarrow> nat \<Rightarrow> string \<Rightarrow> 'd \<times> ('e + 8 word list option)"
  ss_value_room :: "nat \<Rightarrow> string \<Rightarrow> nat"
  ss_store :: "'d \<Rightarrow> flash_range \<Rightarrow> string \<Rightarrow> 8 word list \<Rightarrow> 'd \<times> ('e + unit)"
  ss_remove :: "'d \<Rightarrow> flash_range \<Rightarrow> nat \<Rightarrow> string \<Rightarrow> 'd \<times> ('e + unit)"
  ss_erase_all :: "'d \<Rightarrow> flash_range \<Rightarrow> 'd \<times> ('e + unit)"

text \<open>How the crate calls the trait: the value gets what the key leaves of the buffer.\<close>

definition fetch_item ::
    "('d, 'e) seq_storage \<Rightarrow> 'v value_ops \<Rightarrow> 'd \<Rightarrow> flash_range \<Rightarrow> nat \<Rightarrow> string \<Rightarrow> 'd \<times> ('e seq_error + 'v option)" where
  "fetch_item ss vo flash rng buffer key =
     (case ss_fetch ss flash rng buffer key of
        (flash, Inl e) \<Rightarrow> (flash, Inl (SequentialStorage e))
      | (flash, Inr None) \<Rightarrow> (flash, Inr None)
      | (flash, Inr (Some bytes)) \<Rightarrow>
          (flash, case deserialize_from vo bytes of
             Inl e \<Rightarrow> Inl (SerializationFailed e)
           | Inr (value, _) \<Rightarrow> Inr (Some value)))"

definition store_item ::
    "('d, 'e) seq_storage \<Rightarrow> 'v value_ops \<Rightarrow> 'd \<Rightarrow> flash_range \<Rightarrow> nat \<Rightarrow> string \<Rightarrow> 'v \<Rightarrow> 'd \<times> ('e seq_error + unit)" where
  "store_item ss vo flash rng buffer key value =
     (case serialize_into vo value (ss_value_room ss buffer key) of
        Inl e \<Rightarrow> (flash, Inl (SerializationFailed e))
      | Inr bytes \<Rightarrow> apsnd (map_sum SequentialStorage id) (ss_store ss flash rng key bytes))"

subsection \<open>\<open>Storage\<close> (\<open>storage.rs\<close>)\<close>

definition MAX_KEY_LEN :: nat where "MAX_KEY_LEN = 64"
definition DATA_BUFFER_SIZE :: nat where "DATA_BUFFER_SIZE = 128"

record 'd storage =
  st_flash :: 'd
  st_range :: flash_range

definition storage_new :: "'d \<Rightarrow> flash_range \<Rightarrow> 'd storage" where
  "storage_new flash storage_range = \<lparr>st_flash = flash, st_range = storage_range\<rparr>"

text \<open>\<open>ArrayString::<MAX_KEY_LEN>::from(key).unwrap()\<close>.\<close>

definition key_string :: "string \<Rightarrow> panic + string" where
  "key_string key = (if length key \<le> MAX_KEY_LEN then Inr key else Inl UnwrapNone)"

definition storage_get_raw ::
    "('d, 'e) seq_storage \<Rightarrow> 'v value_ops \<Rightarrow> string \<Rightarrow> 'd storage \<Rightarrow> panic + 'd storage \<times> ('e seq_error + 'v option)" where
  "storage_get_raw ss vo key s =
     bnd (key_string key) (\<lambda>key.
       case fetch_item ss vo (st_flash s) (st_range s) DATA_BUFFER_SIZE key of
         (flash, r) \<Rightarrow> Inr (s\<lparr>st_flash := flash\<rparr>, r))"

definition storage_insert_raw ::
    "('d, 'e) seq_storage \<Rightarrow> 'v value_ops \<Rightarrow> string \<Rightarrow> 'v \<Rightarrow> 'd storage \<Rightarrow> panic + 'd storage \<times> ('e seq_error + unit)" where
  "storage_insert_raw ss vo key value s =
     bnd (key_string key) (\<lambda>key.
       case store_item ss vo (st_flash s) (st_range s) DATA_BUFFER_SIZE key value of
         (flash, r) \<Rightarrow> Inr (s\<lparr>st_flash := flash\<rparr>, r))"

definition storage_insert ::
    "('d, 'e) seq_storage \<Rightarrow> 'v postcard \<Rightarrow> string \<Rightarrow> 'v \<Rightarrow> 'd storage \<Rightarrow> panic + 'd storage \<times> ('e seq_error + unit)" where
  "storage_insert ss pc key value s = storage_insert_raw ss (postcard_value pc) key value s"

definition storage_get ::
    "('d, 'e) seq_storage \<Rightarrow> 'v postcard \<Rightarrow> string \<Rightarrow> 'd storage \<Rightarrow> panic + 'd storage \<times> ('e seq_error + 'v option)" where
  "storage_get ss pc key s =
     bnd (key_string key) (\<lambda>key.
       case fetch_item ss (postcard_value pc) (st_flash s) (st_range s) DATA_BUFFER_SIZE key of
         (flash, Inl e) \<Rightarrow> Inr (s\<lparr>st_flash := flash\<rparr>, Inl e)
       | (flash, Inr value) \<Rightarrow> Inr (s\<lparr>st_flash := flash\<rparr>, Inr value))"

definition storage_erase_all :: "('d, 'e) seq_storage \<Rightarrow> 'd storage \<Rightarrow> 'd storage \<times> ('e seq_error + unit)" where
  "storage_erase_all ss s =
     (case ss_erase_all ss (st_flash s) (st_range s) of
        (flash, r) \<Rightarrow> (s\<lparr>st_flash := flash\<rparr>, map_sum SequentialStorage id r))"

definition storage_remove ::
    "('d, 'e) seq_storage \<Rightarrow> string \<Rightarrow> 'd storage \<Rightarrow> panic + 'd storage \<times> ('e seq_error + unit)" where
  "storage_remove ss key s =
     bnd (key_string key) (\<lambda>key.
       case ss_remove ss (st_flash s) (st_range s) DATA_BUFFER_SIZE key of
         (flash, r) \<Rightarrow> Inr (s\<lparr>st_flash := flash\<rparr>, map_sum SequentialStorage id r))"

subsection \<open>The global storage (\<open>lib.rs\<close>)\<close>

definition MARKER_KEY :: string where "MARKER_KEY = ''ARIEL_INIT_MARK''"
definition MARKER_VALUE :: "8 word" where "MARKER_VALUE = 0"

datatype flash_context = Nrf | Nrf5340Net | Rp | Stm32 | PlatformIndependent

fun flash_offset :: "flash_context \<Rightarrow> 32 word" where
  "flash_offset Nrf = 0"
| "flash_offset Nrf5340Net = 0x01000000"
| "flash_offset Rp = 0x10000000"
| "flash_offset Stm32 = 0x08000000"
| "flash_offset PlatformIndependent = 0"

definition flash_range_from_linker :: "flash_context \<Rightarrow> 32 word \<Rightarrow> 32 word \<Rightarrow> flash_range" where
  "flash_range_from_linker ctx storage_start storage_end =
     (storage_start - flash_offset ctx, storage_end - flash_offset ctx)"

text \<open>The static \<open>STORAGE\<close> is \<open>None\<close> until it is initialised; a second initialisation has no effect.\<close>

type_synonym 'd global_storage = "'d storage option"

definition global_init_flash :: "flash_range \<Rightarrow> 'd \<Rightarrow> 'd global_storage \<Rightarrow> 'd global_storage" where
  "global_init_flash rng flash g =
     (case g of None \<Rightarrow> Some (storage_new flash rng) | Some s \<Rightarrow> Some s)"

definition with_storage ::
    "('d storage \<Rightarrow> panic + 'd storage \<times> 'r) \<Rightarrow> 'd global_storage \<Rightarrow> (panic + 'd global_storage \<times> 'r) option" where
  "with_storage f g =
     (case g of None \<Rightarrow> None | Some s \<Rightarrow> Some (bnd (f s) (\<lambda>(s, r). Inr (Some s, r))))"

definition global_insert ::
    "('d, 'e) seq_storage \<Rightarrow> 'v postcard \<Rightarrow> string \<Rightarrow> 'v \<Rightarrow> 'd global_storage \<Rightarrow>
     (panic + 'd global_storage \<times> ('e seq_error + unit)) option" where
  "global_insert ss pc key value = with_storage (storage_insert ss pc key value)"

definition global_get ::
    "('d, 'e) seq_storage \<Rightarrow> 'v postcard \<Rightarrow> string \<Rightarrow> 'd global_storage \<Rightarrow>
     (panic + 'd global_storage \<times> ('e seq_error + 'v option)) option" where
  "global_get ss pc key = with_storage (storage_get ss pc key)"

definition global_remove ::
    "('d, 'e) seq_storage \<Rightarrow> string \<Rightarrow> 'd global_storage \<Rightarrow>
     (panic + 'd global_storage \<times> ('e seq_error + unit)) option" where
  "global_remove ss key = with_storage (storage_remove ss key)"

definition global_erase_all ::
    "('d, 'e) seq_storage \<Rightarrow> (8 word) postcard \<Rightarrow> 'd global_storage \<Rightarrow>
     (panic + 'd global_storage \<times> ('e seq_error + unit)) option" where
  "global_erase_all ss pc8 =
     with_storage (\<lambda>s. case storage_erase_all ss s of
         (s, Inl e) \<Rightarrow> Inr (s, Inl e)
       | (s, Inr _) \<Rightarrow> storage_insert ss pc8 MARKER_KEY MARKER_VALUE s)"

definition global_init ::
    "('d, 'e) seq_storage \<Rightarrow> (8 word) postcard \<Rightarrow> flash_range \<Rightarrow> 'd \<Rightarrow> 'd global_storage \<Rightarrow>
     (panic + 'd global_storage) option" where
  "global_init ss pc8 rng flash g =
     obnd (global_get ss pc8 MARKER_KEY (global_init_flash rng flash g)) (\<lambda>(g, marker).
       if marker = Inr (Some MARKER_VALUE) then Some (Inr g)
       else obnd (global_erase_all ss pc8 g) (\<lambda>(g, r).
         case r of Inl _ \<Rightarrow> Some (Inl UnwrapNone) | Inr _ \<Rightarrow> Some (Inr g)))"

section \<open>What is stored stays\<close>

definition seq_storage_ok :: "('d, 'e) seq_storage \<Rightarrow> (flash_range \<Rightarrow> 'd \<Rightarrow> string \<rightharpoonup> 8 word list) \<Rightarrow> bool" where
  "seq_storage_ok ss items \<longleftrightarrow>
     (\<forall>d rng n key d' r. ss_fetch ss d rng n key = (d', r) \<longrightarrow>
        items rng d' = items rng d \<and> (\<forall>x. r = Inr x \<longrightarrow> x = items rng d key)) \<and>
     (\<forall>d rng key bytes d' r. ss_store ss d rng key bytes = (d', r) \<longrightarrow>
        (\<forall>k. k \<noteq> key \<longrightarrow> items rng d' k = items rng d k) \<and> (r = Inr () \<longrightarrow> items rng d' key = Some bytes)) \<and>
     (\<forall>d rng n key d' r. ss_remove ss d rng n key = (d', r) \<longrightarrow>
        (\<forall>k. k \<noteq> key \<longrightarrow> items rng d' k = items rng d k) \<and> (r = Inr () \<longrightarrow> items rng d' key = None)) \<and>
     (\<forall>d rng d'. ss_erase_all ss d rng = (d', Inr ()) \<longrightarrow> items rng d' = Map.empty)"

definition postcard_ok :: "'v postcard \<Rightarrow> bool" where
  "postcard_ok pc \<longleftrightarrow> (\<forall>v n bytes. pc_to_slice pc v n = Inr bytes \<longrightarrow> pc_from_bytes pc bytes = Inr v)"

definition stored :: "(flash_range \<Rightarrow> 'd \<Rightarrow> string \<rightharpoonup> 8 word list) \<Rightarrow> 'd storage \<Rightarrow> string \<rightharpoonup> 8 word list" where
  "stored items s = items (st_range s) (st_flash s)"

text \<open>
  The steps of a device after start-up: other parts of the program use keys in \<open>others\<close>, and the
  device restarts.  Of a restart it is said whether the marker could be read (\<open>clean\<close>).
\<close>

inductive storage_step ::
    "('d, 'e) seq_storage \<Rightarrow> (8 word) postcard \<Rightarrow> 'v value_ops \<Rightarrow> string set \<Rightarrow> 'd storage \<Rightarrow> 'd storage \<Rightarrow> bool"
  for ss pc8 vo others where
  st_get: "storage_get_raw ss vo key s = Inr (s', r) \<Longrightarrow> storage_step ss pc8 vo others s s'"
| st_insert: "storage_insert_raw ss vo key v s = Inr (s', r) \<Longrightarrow> key \<in> others \<Longrightarrow> storage_step ss pc8 vo others s s'"
| st_remove: "storage_remove ss key s = Inr (s', r) \<Longrightarrow> key \<in> others \<Longrightarrow> storage_step ss pc8 vo others s s'"
| st_restart: "global_init ss pc8 (st_range s) (st_flash s) None = Some (Inr (Some s')) \<Longrightarrow>
    storage_get ss pc8 MARKER_KEY s = Inr (s1, Inr marker) \<Longrightarrow> storage_step ss pc8 vo others s s'"

definition initialised ::
    "(8 word) postcard \<Rightarrow> (flash_range \<Rightarrow> 'd \<Rightarrow> string \<rightharpoonup> 8 word list) \<Rightarrow> 'd storage \<Rightarrow> bool" where
  "initialised pc8 items s \<longleftrightarrow> (\<exists>bytes. stored items s MARKER_KEY = Some bytes \<and> pc_from_bytes pc8 bytes = Inr MARKER_VALUE)"

lemma seq_storage_okD:
  assumes "seq_storage_ok ss items"
  shows "ss_fetch ss d rng n key = (d', f) \<Longrightarrow> items rng d' = items rng d \<and> (\<forall>x. f = Inr x \<longrightarrow> x = items rng d key)"
    "ss_store ss d rng key bytes = (d', r) \<Longrightarrow>
      (\<forall>k. k \<noteq> key \<longrightarrow> items rng d' k = items rng d k) \<and> (r = Inr () \<longrightarrow> items rng d' key = Some bytes)"
    "ss_remove ss d rng n key = (d', r) \<Longrightarrow> (\<forall>k. k \<noteq> key \<longrightarrow> items rng d' k = items rng d k)"
    "ss_erase_all ss d rng = (d', Inr ()) \<Longrightarrow> items rng d' = Map.empty"
  using assms unfolding seq_storage_ok_def by (simp_all only: simp_thms) (metis (no_types))+

lemma key_string_Inr [panic_simps]: "key_string key = Inr k \<longleftrightarrow> k = key \<and> length key \<le> MAX_KEY_LEN"
  by (auto simp: key_string_def)

lemma marker_key_fits [simp]: "key_string MARKER_KEY = Inr MARKER_KEY"
  by (simp add: key_string_def MARKER_KEY_def MAX_KEY_LEN_def)

lemma storage_get_is_raw: "storage_get ss pc key s = storage_get_raw ss (postcard_value pc) key s"
  by (cases "key_string key") (simp_all add: storage_get_def storage_get_raw_def split: prod.split sum.split)

text \<open>The effect of each operation on the map.\<close>

lemma get_raw_effect:
  assumes "seq_storage_ok ss items" "storage_get_raw ss vo key s = Inr (s', r)"
  shows "st_range s' = st_range s \<and> stored items s' = stored items s \<and>
    (\<forall>x. r = Inr x \<longrightarrow> (case stored items s key of
       None \<Rightarrow> x = None
     | Some bytes \<Rightarrow> \<exists>v n. deserialize_from vo bytes = Inr (v, n) \<and> x = Some v))"
proof -
  obtain d f where f: "ss_fetch ss (st_flash s) (st_range s) DATA_BUFFER_SIZE key = (d, f)"
    by fastforce
  show ?thesis
    using assms(2) seq_storage_okD(1)[OF assms(1) f]
    by (auto simp: storage_get_raw_def fetch_item_def panic_simps stored_def f split: sum.splits option.splits prod.splits)
qed

lemma insert_raw_effect:
  assumes "seq_storage_ok ss items" "storage_insert_raw ss vo key v s = Inr (s', r)"
  shows "st_range s' = st_range s \<and> (\<forall>k. k \<noteq> key \<longrightarrow> stored items s' k = stored items s k) \<and>
    (r = Inr () \<longrightarrow> (\<exists>n bytes. serialize_into vo v n = Inr bytes \<and> stored items s' key = Some bytes))"
proof -
  obtain d r' where st: "store_item ss vo (st_flash s) (st_range s) DATA_BUFFER_SIZE key v = (d, r')"
    by fastforce
  then have s': "s' = s\<lparr>st_flash := d\<rparr>" "r = r'"
    using assms(2) by (auto simp: storage_insert_raw_def panic_simps)
  show ?thesis
  proof (cases "serialize_into vo v (ss_value_room ss DATA_BUFFER_SIZE key)")
    case (Inl e)
    then show ?thesis
      using st s' by (auto simp: store_item_def stored_def)
  next
    case (Inr bytes)
    obtain r'' where st': "ss_store ss (st_flash s) (st_range s) key bytes = (d, r'')" "r' = map_sum SequentialStorage id r''"
      using st Inr by (auto simp: store_item_def apsnd_def map_prod_def split: prod.splits)
    have "r'' = Inr ()" if "r' = Inr ()"
      using st'(2) that by (cases r'') auto
    then show ?thesis
      using seq_storage_okD(2)[OF assms(1) st'(1)] Inr s' by (auto simp: stored_def)
  qed
qed

lemma remove_effect:
  assumes "seq_storage_ok ss items" "storage_remove ss key s = Inr (s', r)" "k \<noteq> key"
  shows "stored items s' k = stored items s k"
proof -
  obtain d r' where rm: "ss_remove ss (st_flash s) (st_range s) DATA_BUFFER_SIZE key = (d, r')"
    by fastforce
  then show ?thesis
    using assms(2,3) seq_storage_okD(3)[OF assms(1) rm] by (auto simp: storage_remove_def panic_simps stored_def)
qed

lemma erase_effect:
  assumes "seq_storage_ok ss items" "storage_erase_all ss s = (s', Inr u)"
  shows "stored items s' = Map.empty" "st_range s' = st_range s"
proof -
  obtain d r where e: "ss_erase_all ss (st_flash s) (st_range s) = (d, r)"
    by fastforce
  then have "r = Inr ()" and s': "s' = s\<lparr>st_flash := d\<rparr>"
    using assms(2) by (cases r; simp add: storage_erase_all_def)+
  then show "stored items s' = Map.empty" "st_range s' = st_range s"
    using seq_storage_okD(4)[OF assms(1)] e by (simp_all add: stored_def)
qed

lemma postcard_serialized:
  "postcard_ok pc \<Longrightarrow> serialize_into (postcard_value pc) v n = Inr bytes \<Longrightarrow>
    pc_from_bytes pc bytes = Inr v \<and> deserialize_from (postcard_value pc) bytes = Inr (v, length bytes)"
  by (auto simp: postcard_value_def postcard_serialize_into_def postcard_deserialize_from_def postcard_ok_def split: sum.splits)

text \<open>
  Start-up: with the marker in place and readable, nothing is changed; in every other case, also
  when the flash could not be read, everything is erased and the marker written.
\<close>

lemma init_course:
  assumes ok: "seq_storage_ok ss items" "postcard_ok pc8"
    and init: "global_init ss pc8 rng flash None = Some (Inr g)"
  obtains (kept) s where "g = Some s" "st_range s = rng" "stored items s = items rng flash" "initialised pc8 items s"
      "storage_get ss pc8 MARKER_KEY (storage_new flash rng) = Inr (s, Inr (Some MARKER_VALUE))"
  | (erased) s s1 r where "g = Some s" "st_range s = rng" "initialised pc8 items s"
      "\<forall>k. k \<noteq> MARKER_KEY \<longrightarrow> stored items s k = None"
      "storage_get ss pc8 MARKER_KEY (storage_new flash rng) = Inr (s1, r)" "r \<noteq> Inr (Some MARKER_VALUE)"
proof -
  let ?s0 = "storage_new flash rng"
  obtain s1 marker where get: "storage_get ss pc8 MARKER_KEY ?s0 = Inr (s1, marker)"
    using init by (auto simp: global_init_def global_get_def with_storage_def global_init_flash_def panic_simps)
  note eff = get_raw_effect[OF ok(1) get[unfolded storage_get_is_raw]]
  have s0: "stored items ?s0 = items rng flash" "st_range ?s0 = rng"
    by (simp_all add: stored_def storage_new_def)
  show thesis
  proof (cases "marker = Inr (Some MARKER_VALUE)")
    case True
    then obtain bytes n where "items rng flash MARKER_KEY = Some bytes" "deserialize_from (postcard_value pc8) bytes = Inr (MARKER_VALUE, n)"
      using eff s0 by (auto split: option.splits)
    then have "initialised pc8 items s1"
      using eff s0 by (auto simp: initialised_def postcard_value_def postcard_deserialize_from_def split: sum.splits)
    moreover have "g = Some s1"
      using init get True by (simp add: global_init_def global_get_def with_storage_def global_init_flash_def)
    ultimately show ?thesis
      using kept eff s0 get True by simp
  next
    case False
    have "obnd (global_erase_all ss pc8 (Some s1)) (\<lambda>(g, r). case r of Inl _ \<Rightarrow> Some (Inl UnwrapNone) | Inr _ \<Rightarrow> Some (Inr g)) =
        Some (Inr g)"
      using init get False by (simp add: global_init_def global_get_def with_storage_def global_init_flash_def)
    then obtain g' r where "global_erase_all ss pc8 (Some s1) = Some (Inr (g', r))"
      and "(case r of Inl _ \<Rightarrow> Some (Inl UnwrapNone) | Inr _ \<Rightarrow> Some (Inr g')) = Some (Inr g)"
      by (auto simp: panic_simps)
    then have er: "global_erase_all ss pc8 (Some s1) = Some (Inr (g, Inr ()))"
      by (cases r) auto
    obtain s2 e where e': "storage_erase_all ss s1 = (s2, e)"
      by fastforce
    then have e: "storage_erase_all ss s1 = (s2, Inr ())"
      using er by (cases e) (auto simp: global_erase_all_def with_storage_def)
    obtain s3 where i: "storage_insert ss pc8 MARKER_KEY MARKER_VALUE s2 = Inr (s3, Inr ())" and g: "g = Some s3"
      using er by (auto simp: global_erase_all_def with_storage_def e panic_simps)
    note ins = insert_raw_effect[OF ok(1) i[unfolded storage_insert_def]]
    obtain n bytes where "serialize_into (postcard_value pc8) MARKER_VALUE n = Inr bytes" "stored items s3 MARKER_KEY = Some bytes"
      using ins by auto
    then have "initialised pc8 items s3"
      using postcard_serialized[OF ok(2)] by (auto simp: initialised_def)
    moreover have "\<forall>k. k \<noteq> MARKER_KEY \<longrightarrow> stored items s3 k = None"
      using ins erase_effect(1)[OF ok(1) e] by simp
    moreover have "st_range s3 = rng"
      using ins erase_effect(2)[OF ok(1) e] eff s0 by simp
    ultimately show ?thesis
      using erased g get False by blast
  qed
qed

text \<open>What a step does to a key that nobody else uses: nothing.\<close>

lemma step_keeps:
  assumes ok: "seq_storage_ok ss items" "postcard_ok pc8"
    and step: "storage_step ss pc8 vo others s s'" and init: "initialised pc8 items s" and keys: "MARKER_KEY \<notin> others" "k \<notin> others"
  shows "initialised pc8 items s' \<and> stored items s' k = stored items s k \<and> st_range s' = st_range s"
  using step
proof cases
  case (st_get key r)
  then show ?thesis
    using get_raw_effect[OF ok(1) st_get] init by (simp add: initialised_def)
next
  case (st_insert key v r)
  then show ?thesis
    using insert_raw_effect[OF ok(1) st_insert(1)] init keys by (auto simp: initialised_def)
next
  case (st_remove key r)
  then have "k' \<noteq> key \<Longrightarrow> stored items s' k' = stored items s k'" for k'
    using remove_effect[OF ok(1) st_remove(1)] by simp
  moreover have "st_range s' = st_range s"
    using st_remove(1) by (auto simp: storage_remove_def panic_simps split: prod.splits)
  ultimately show ?thesis
    using init keys st_remove(2) by (metis initialised_def)
next
  case (st_restart s1 marker)
  have s: "storage_new (st_flash s) (st_range s) = s"
    by (simp add: storage_new_def)
  obtain bytes where b: "stored items s MARKER_KEY = Some bytes" "pc_from_bytes pc8 bytes = Inr MARKER_VALUE"
    using init by (auto simp: initialised_def)
  have "marker = Some MARKER_VALUE"
    using get_raw_effect[OF ok(1) st_restart(2)[unfolded storage_get_is_raw]] b
    by (auto simp: postcard_value_def postcard_deserialize_from_def)
  then show ?thesis
    using st_restart(2) by (cases rule: init_course[OF ok st_restart(1)]) (auto simp: s stored_def)
qed

lemma steps_keep:
  assumes "seq_storage_ok ss items" "postcard_ok pc8" "(storage_step ss pc8 vo others)\<^sup>*\<^sup>* s s'"
    and "initialised pc8 items s" "MARKER_KEY \<notin> others" "k \<notin> others"
  shows "initialised pc8 items s' \<and> stored items s' k = stored items s k \<and> st_range s' = st_range s"
  using assms(3)
proof (induction rule: rtranclp_induct)
  case (step y z)
  then show ?case
    using step_keeps[OF assms(1,2) step(2) _ assms(5,6)] by simp
qed (simp add: assms(4))

lemma init_initialised:
  assumes "seq_storage_ok ss items" "postcard_ok pc8" "global_init ss pc8 rng flash None = Some (Inr (Some s))"
  shows "initialised pc8 items s"
  using init_course[OF assms] by (metis option.inject)

lemma insert_keeps_initialised:
  assumes "seq_storage_ok ss items" "storage_insert_raw ss vo key v s = Inr (s', r)" "key \<noteq> MARKER_KEY" "initialised pc8 items s"
  shows "initialised pc8 items s'"
  using insert_raw_effect[OF assms(1,2)] assms(3,4) by (auto simp: initialised_def)

text \<open>
  C38: A stored value is there until it is overwritten: whatever is done to other keys afterwards, and
  however often the device restarts with a readable marker, reading the key gives that value, or
  fails with an error.
\<close>

theorem stored_value_read_back:
  assumes "seq_storage_ok ss items" "postcard_ok pc8" "postcard_ok pc"
    and "global_init ss pc8 rng flash None = Some (Inr (Some s0))"
    and "MARKER_KEY \<notin> others" "key \<notin> others" "key \<noteq> MARKER_KEY"
    and "(storage_step ss pc8 vo others)\<^sup>*\<^sup>* s0 s1"
    and "storage_insert ss pc key v s1 = Inr (s2, Inr ())"
    and "(storage_step ss pc8 vo others)\<^sup>*\<^sup>* s2 s3"
  shows "\<exists>s4 r. storage_get ss pc key s3 = Inr (s4, r) \<and> (\<forall>x. r = Inr x \<longrightarrow> x = Some v)"
proof -
  note ok = assms(1,2)
  have "initialised pc8 items s1"
    using steps_keep[OF ok assms(8) _ assms(5,6)] init_initialised[OF ok assms(4)] by blast
  then have s2: "initialised pc8 items s2"
    using insert_keeps_initialised[OF ok(1) assms(9)[unfolded storage_insert_def] assms(7)] by blast
  obtain n bytes where b: "serialize_into (postcard_value pc) v n = Inr bytes" "stored items s2 key = Some bytes"
    using insert_raw_effect[OF ok(1) assms(9)[unfolded storage_insert_def]] by auto
  then have "stored items s3 key = Some bytes"
    using steps_keep[OF ok assms(10) s2 assms(5,6)] by simp
  moreover have "length key \<le> MAX_KEY_LEN"
    using assms(9) by (auto simp: storage_insert_def storage_insert_raw_def panic_simps)
  then obtain s4 r where g: "storage_get_raw ss (postcard_value pc) key s3 = Inr (s4, r)"
    by (fastforce simp: storage_get_raw_def key_string_def split: prod.splits)
  ultimately show ?thesis
    using get_raw_effect[OF ok(1) g] postcard_serialized[OF assms(3) b(1)]
    by (auto simp: storage_get_is_raw split: option.splits)
qed

text \<open>
  A single read error of the marker at start-up erases everything: then no item is left, whatever
  was stored.
\<close>

theorem init_erases_on_read_error:
  assumes "seq_storage_ok ss items" "postcard_ok pc8"
    and "storage_get ss pc8 MARKER_KEY (storage_new flash rng) = Inr (s1, Inl e)"
    and "global_init ss pc8 rng flash None = Some (Inr (Some s))" "k \<noteq> MARKER_KEY"
  shows "stored items s k = None"
  using init_course[OF assms(1,2,4)] assms(3,5) by (metis Pair_inject option.inject sum.inject(2) sum.distinct(1))

section \<open>An instance\<close>

text \<open>A map in memory, whose first read fails if the flag is set.\<close>

type_synonym sim_flash = "(string \<rightharpoonup> 8 word list) \<times> bool"

fun byte_from_bytes :: "8 word list \<Rightarrow> postcard_error + 8 word" where
  "byte_from_bytes (b # _) = Inr b"
| "byte_from_bytes [] = Inl DeserializeUnexpectedEnd"

definition byte_postcard :: "(8 word) postcard" where
  "byte_postcard = \<lparr>pc_to_slice = (\<lambda>v n. if 1 \<le> n then Inr [v] else Inl SerializeBufferFull), pc_from_bytes = byte_from_bytes\<rparr>"

definition sim_seq :: "(sim_flash, unit) seq_storage" where
  "sim_seq = \<lparr>ss_fetch = (\<lambda>(m, bad) _ _ k. ((m, False), if bad then Inl () else Inr (m k))),
     ss_value_room = (\<lambda>n key. n - length key),
     ss_store = (\<lambda>(m, bad) _ k bs. ((m(k \<mapsto> bs), bad), Inr ())),
     ss_remove = (\<lambda>(m, bad) _ _ k. ((m(k := None), bad), Inr ())),
     ss_erase_all = (\<lambda>(m, bad) _. ((Map.empty, bad), Inr ()))\<rparr>"

definition sim_items :: "flash_range \<Rightarrow> sim_flash \<Rightarrow> string \<rightharpoonup> 8 word list" where
  "sim_items rng d = fst d"

lemma sim_seq_ok: "seq_storage_ok sim_seq sim_items" "postcard_ok byte_postcard"
  by (auto simp: seq_storage_ok_def sim_seq_def sim_items_def postcard_ok_def byte_postcard_def)

definition sim_store :: "(string \<rightharpoonup> 8 word list) \<Rightarrow> sim_flash storage" where
  "sim_store m = \<lparr>st_flash = (m, False), st_range = (0, 4096)\<rparr>"

lemmas sim_store_defs = sim_store_def sim_seq_def byte_postcard_def storage_get_def storage_insert_def storage_insert_raw_def
  global_init_def global_get_def with_storage_def global_init_flash_def storage_new_def fetch_item_def store_item_def
  global_erase_all_def storage_erase_all_def postcard_value_def postcard_serialize_into_def postcard_deserialize_from_def
  key_string_def MARKER_KEY_def MARKER_VALUE_def MAX_KEY_LEN_def DATA_BUFFER_SIZE_def

lemma sim_first_start:
  "global_init sim_seq byte_postcard (0, 4096) (Map.empty, False) None = Some (Inr (Some (sim_store [MARKER_KEY \<mapsto> [0]])))"
  by (simp add: sim_store_defs)

lemma sim_insert: "storage_insert sim_seq byte_postcard ''k'' 7 (sim_store m) = Inr (sim_store (m(''k'' \<mapsto> [7])), Inr ())"
  by (simp add: sim_store_defs)

lemma sim_restart:
  assumes "m MARKER_KEY = Some [0]"
  shows "storage_step sim_seq byte_postcard (postcard_value byte_postcard) {} (sim_store m) (sim_store m)"
proof (rule st_restart)
  show "storage_get sim_seq byte_postcard MARKER_KEY (sim_store m) = Inr (sim_store m, Inr (Some 0))"
    using assms by (simp add: sim_store_defs)
  show "global_init sim_seq byte_postcard (st_range (sim_store m)) (st_flash (sim_store m)) None = Some (Inr (Some (sim_store m)))"
    using assms by (simp add: sim_store_defs)
qed

theorem stored_value_read_back_witness:
  "\<exists>s4. storage_get sim_seq byte_postcard ''k'' (sim_store [MARKER_KEY \<mapsto> [0], ''k'' \<mapsto> [7]]) = Inr (s4, Inr (Some 7))"
proof -
  have k: "''k'' \<noteq> MARKER_KEY"
    by (simp add: MARKER_KEY_def)
  have steps: "(storage_step sim_seq byte_postcard (postcard_value byte_postcard) {})\<^sup>*\<^sup>*
      (sim_store [MARKER_KEY \<mapsto> [0], ''k'' \<mapsto> [7]]) (sim_store [MARKER_KEY \<mapsto> [0], ''k'' \<mapsto> [7]])"
    using k by (intro r_into_rtranclp[of "storage_step _ _ _ _"] sim_restart) simp
  note run = stored_value_read_back[OF sim_seq_ok sim_seq_ok(2) sim_first_start _ _ k rtranclp.rtrancl_refl sim_insert steps]
  obtain s4 r where g: "storage_get sim_seq byte_postcard ''k'' (sim_store [MARKER_KEY \<mapsto> [0], ''k'' \<mapsto> [7]]) = Inr (s4, r)"
    and r: "\<forall>x. r = Inr x \<longrightarrow> x = Some 7"
    using run by auto
  moreover from g have "r \<noteq> Inl e" for e
    by (auto simp: sim_store_defs)
  ultimately show ?thesis
    by (cases r) auto
qed

theorem init_erases_on_read_error_witness:
  "\<exists>s. global_init sim_seq byte_postcard (0, 4096) ([MARKER_KEY \<mapsto> [0], ''k'' \<mapsto> [7]], True) None = Some (Inr (Some s)) \<and>
     stored sim_items s ''k'' = None"
proof -
  let ?d = "([MARKER_KEY \<mapsto> [0], ''k'' \<mapsto> [7]], True)"
  have "storage_get sim_seq byte_postcard MARKER_KEY (storage_new ?d (0, 4096)) = Inr (sim_store (fst ?d), Inl (SequentialStorage ()))"
    by (simp add: sim_store_defs)
  moreover have "global_init sim_seq byte_postcard (0, 4096) ?d None = Some (Inr (Some (sim_store [MARKER_KEY \<mapsto> [0]])))"
    by (simp add: sim_store_defs)
  ultimately show ?thesis
    using init_erases_on_read_error[OF sim_seq_ok, of ?d "(0, 4096)" _ _ _ "''k''"] by (auto simp: MARKER_KEY_def)
qed

end
