(* ===== verification/Ace.thy ===== *)
theory Ace
  imports Scope ConnIds
begin

section \<open>Tokens and credentials (\<open>coapcore/src/error.rs\<close>, \<open>iana.rs\<close>, \<open>ace.rs\<close>)\<close>

text \<open>
  The ACE, COSE and CWT structures, the steps from a token to its claims, and the trait
  \<open>ServerSecurityConfig\<close> through which they ask the configuration for keys.  Byte strings are
  \<open>string\<close>, as in \<open>Scope\<close>; key identifiers are converted to the \<open>u8\<close> words of \<open>ConnIds\<close>.

  Other crates are parameters, one record of functions per crate: \<open>minicbor\<close> (CBOR), \<open>liboscore\<close>
  (OSCORE) and, below, \<open>lakers\<close> (EDHOC).  A decoding function answers \<open>None\<close> for every decoding
  error, as \<open>From<minicbor::decode::Error>\<close> discards its details.
\<close>

type_synonym bytes = string

definition words_of :: "bytes \<Rightarrow> 8 word list" where
  "words_of bs = map (\<lambda>c. word_of_nat (of_char c)) bs"

definition bytes_of :: "8 word list \<Rightarrow> bytes" where
  "bytes_of ws = map (\<lambda>w. char_of (unat w)) ws"

lemma words_of_bytes_of [simp]: "words_of (bytes_of ws) = ws"
proof -
  have "word_of_nat (of_char (char_of (unat w) :: char)) = w" for w :: "8 word"
  proof -
    have "unat w < 256"
      by (rule order_less_le_trans[OF unsigned_less]) simp
    then show ?thesis
      by simp
  qed
  then show ?thesis
    by (simp add: words_of_def bytes_of_def comp_def)
qed

lemma length_bytes_of [simp]: "length (bytes_of ws) = length ws"
  by (simp add: bytes_of_def)

subsection \<open>Errors\<close>

datatype credential_error_detail =
    ProtocolViolation
  | UnsupportedExtension
  | UnsupportedAlgorithm
  | ConstraintExceeded
  | InconsistentDetails
  | KeyNotPresent
  | VerifyFailed

record credential_error =
  err_detail :: credential_error_detail
  err_position :: "nat option"

text \<open>The three \<open>From\<close> implementations.\<close>

definition from_detail :: "credential_error_detail \<Rightarrow> credential_error" where
  "from_detail value = \<lparr>err_detail = value, err_position = None\<rparr>"

definition from_decode_error :: credential_error where
  "from_decode_error = \<lparr>err_detail = UnsupportedExtension, err_position = None\<rparr>"

definition from_encode_error :: credential_error where
  "from_encode_error = \<lparr>err_detail = ConstraintExceeded, err_position = None\<rparr>"

subsection \<open>Constants\<close>

definition OWN_NONCE_LEN :: nat where
  "OWN_NONCE_LEN = 8"

definition MAX_SUPPORTED_PEER_NONCE_LEN :: nat where
  "MAX_SUPPORTED_PEER_NONCE_LEN = 16"

definition MAX_SUPPORTED_ACCESSTOKEN_LEN :: nat where
  "MAX_SUPPORTED_ACCESSTOKEN_LEN = 256"

definition MAX_SUPPORTED_ENCRYPT_PROTECTED_LEN :: nat where
  "MAX_SUPPORTED_ENCRYPT_PROTECTED_LEN = 32"

definition AADSIZE :: nat where
  "AADSIZE = 1 + 1 + 8 + 1 + MAX_SUPPORTED_ENCRYPT_PROTECTED_LEN + 1"

definition ead_acetoken :: nat where   \<comment> \<open>\<open>edhoc_ead::ACETOKEN\<close>\<close>
  "ead_acetoken = 20"

definition ead_cred_by_value :: nat where   \<comment> \<open>\<open>edhoc_ead::CRED_BY_VALUE\<close>\<close>
  "ead_cred_by_value = 15"

definition HKDF_HMAC256256 :: int where
  "HKDF_HMAC256256 = 5"

definition AES_CCM_16_64_128 :: int where
  "AES_CCM_16_64_128 = 10"

subsection \<open>ACE, COSE and CWT structures\<close>

record ace_cbor =
  access_token :: "bytes option"
  nonce1 :: "bytes option"
  nonce2 :: "bytes option"
  ace_client_recipientid :: "bytes option"
  ace_server_recipientid :: "bytes option"

record header_map =
  hm_alg :: "int option"
  hm_iv :: "bytes option"

text \<open>\<open>Option::or\<close>.\<close>

definition option_or :: "'a option \<Rightarrow> 'a option \<Rightarrow> 'a option" where
  "option_or a b = (case a of Some x \<Rightarrow> Some x | None \<Rightarrow> b)"

definition updated_with :: "header_map \<Rightarrow> header_map \<Rightarrow> header_map" where
  "updated_with self other =
     \<lparr>hm_alg = option_or (hm_alg self) (hm_alg other), hm_iv = option_or (hm_iv self) (hm_iv other)\<rparr>"

record cose_key =
  key_kty :: int
  key_kid :: "bytes option"
  key_alg :: "int option"
  key_crv :: "int option"
  key_x :: "bytes option"
  key_y :: "bytes option"

record cose_encrypt0 =
  ce_protected :: bytes
  ce_unprotected :: header_map
  ce_encrypted :: bytes

record encrypt0 =
  e0_context :: string
  e0_protected :: bytes
  e0_external_aad :: bytes

record cose_sign1 =
  cs_protected :: bytes
  cs_unprotected :: header_map
  cs_payload :: bytes
  cs_signature :: bytes

record sig_structure =
  ss_context :: string
  ss_body_protected :: bytes
  ss_external_aad :: bytes
  ss_payload :: bytes

record oscore_input_material =
  om_id :: bytes
  om_ms :: bytes

text \<open>The key of a confirmation is kept as parsed and in its encoded form (\<open>WithOpaque\<close>).\<close>

record with_opaque =
  opaque :: bytes
  parsed :: cose_key

record confirmation =
  cnf_osc :: "oscore_input_material option"
  cnf_cose_key :: "with_opaque option"

record cwt_claims_set =
  cl_aud :: "string option"
  cl_exp :: nat
  cl_iat :: nat
  cl_cnf :: confirmation
  cl_scope :: bytes

text \<open>What the code uses of \<open>minicbor\<close>.\<close>

record minicbor =
  decode_ace_cbor :: "bytes \<Rightarrow> ace_cbor option"
  decode_header_map :: "bytes \<Rightarrow> header_map option"
  decode_encrypt0 :: "bytes \<Rightarrow> cose_encrypt0 option"
  decode_sign1 :: "bytes \<Rightarrow> cose_sign1 option"
  decode_claims :: "bytes \<Rightarrow> cwt_claims_set option"
  decode_byte_slice :: "bytes \<Rightarrow> nat option"   \<comment> \<open>the position after a leading byte string\<close>
  decode_aif :: cbor_decoder
  encode_bytes :: "bytes \<Rightarrow> bytes"
  encode_encrypt0 :: "encrypt0 \<Rightarrow> bytes"
  encode_sig_structure :: "sig_structure \<Rightarrow> bytes"
  encode_ace_cbor :: "ace_cbor \<Rightarrow> bytes"

text \<open>Writing into a \<open>heapless::Vec\<close> of capacity \<open>n\<close>.\<close>

definition write_heapless :: "nat \<Rightarrow> bytes \<Rightarrow> credential_error + bytes" where
  "write_heapless n bs = (if length bs \<le> n then Inr bs else Inl from_encode_error)"

subsection \<open>Preparing a decryption\<close>

definition prepare_decryption ::
    "minicbor \<Rightarrow> cose_encrypt0 \<Rightarrow> credential_error + header_map \<times> bytes \<times> bytes" where
  "prepare_decryption mc enc =
     bnd (ok_or from_decode_error (decode_header_map mc (ce_protected enc))) (\<lambda>protected.
     let headers = updated_with (ce_unprotected enc) protected;
         aad = \<lparr>e0_context = ''Encrypt0'', e0_protected = ce_protected enc, e0_external_aad = []\<rparr> in
     bnd (map_err (\<lambda>_. from_detail ConstraintExceeded) (write_heapless AADSIZE (encode_encrypt0 mc aad)))
       (\<lambda>aad_encoded.
     bnd (map_err (\<lambda>_. from_detail ConstraintExceeded)
            (write_heapless MAX_SUPPORTED_ACCESSTOKEN_LEN (ce_encrypted enc)))
       (\<lambda>buffer. Inr (headers, aad_encoded, buffer))))"

subsection \<open>Deriving an OSCORE context\<close>

text \<open>
  What the code uses of \<open>liboscore\<close>.  \<open>'alg\<close> are its algorithm numbers, \<open>'imm\<close> and \<open>'o\<close> the
  immutable and the full security context, \<open>'opt\<close> a parsed OSCORE option, \<open>'corr\<close> the correlation
  of a request.  \<open>unprotect_request\<close> answers the context as it is afterwards and, on success, the
  correlation and the inner message, on which the code's closure is then called once.
  \<open>protect_response\<close> is split in the same way, into what comes before its closure and after it.
\<close>

record message = request +
  payload :: bytes

record ('alg, 'imm, 'o, 'opt, 'corr, 'm) liboscore =
  hkdf_from_number :: "int \<Rightarrow> 'alg option"
  aead_from_number :: "int \<Rightarrow> 'alg option"
  derive_immutables :: "'alg \<Rightarrow> bytes \<Rightarrow> bytes \<Rightarrow> bytes option \<Rightarrow> 'alg \<Rightarrow> bytes \<Rightarrow> bytes \<Rightarrow> 'imm option"
  new_from_fresh_material :: "'imm \<Rightarrow> 'o"
  recipient_id :: "'o \<Rightarrow> bytes"
  parse_option :: "bytes \<Rightarrow> 'opt option"
  option_kid :: "'opt \<Rightarrow> bytes option"
  unprotect_request :: "message \<Rightarrow> 'opt \<Rightarrow> 'o \<Rightarrow> 'o \<times> ('corr \<times> message) option"
  protect_begin :: "'m \<Rightarrow> 'o \<Rightarrow> 'corr \<Rightarrow> 'm \<times> 'o \<times> bool"
  protect_end :: "'m \<Rightarrow> 'o \<Rightarrow> 'm \<times> bool"

definition SALT_LEN :: nat where
  "SALT_LEN = 1 + 2 + MAX_SUPPORTED_PEER_NONCE_LEN + 2 + OWN_NONCE_LEN"

definition derive ::
    "minicbor \<Rightarrow> ('alg, 'imm, 'o, 'opt, 'corr, 'm) liboscore \<Rightarrow> oscore_input_material \<Rightarrow>
     bytes \<Rightarrow> bytes \<Rightarrow> bytes \<Rightarrow> bytes \<Rightarrow> credential_error + 'o" where
  "derive mc lo material n1 n2 sender recipient =
     bnd (ok_or (from_detail UnsupportedAlgorithm) (hkdf_from_number lo 5)) (\<lambda>hkdf.
     bnd (ok_or (from_detail UnsupportedAlgorithm) (aead_from_number lo 10)) (\<lambda>aead.
     bnd (write_heapless SALT_LEN (encode_bytes mc [] @ encode_bytes mc n1 @ encode_bytes mc n2)) (\<lambda>salt.
     bnd (ok_or (from_detail UnsupportedAlgorithm)
            (derive_immutables lo hkdf (om_ms material) salt None aead sender recipient))
       (\<lambda>immutables. Inr (new_from_fresh_material lo immutables)))))"

subsection \<open>The trait \<open>ServerSecurityConfig\<close>\<close>

text \<open>
  An implementation is a record of its constants and methods, with those of its associated type
  \<open>GeneralClaims\<close> (\<open>'a\<close>).  \<open>'cred\<close>, \<open>'key\<close> and \<open>'idc\<close> are the credentials, keys and credential
  identifiers of \<open>lakers\<close>, \<open>'m\<close> the response messages.  \<open>render_not_allowed\<close> answers the message
  and whether it succeeded.
\<close>

record ('a, 'cred, 'key, 'idc, 'm) authorities =
  PARSES_TOKENS :: bool
  HAS_EDHOC :: bool
  decrypt_symmetric_token :: "header_map \<Rightarrow> bytes \<Rightarrow> bytes \<Rightarrow> credential_error + 'a \<times> cwt_claims_set"
  verify_asymmetric_token :: "header_map \<Rightarrow> bytes \<Rightarrow> bytes \<Rightarrow> bytes \<Rightarrow> credential_error + 'a \<times> cwt_claims_set"
  own_edhoc_credential :: "('cred \<times> 'key) option"
  expand_id_cred_x :: "'idc \<Rightarrow> ('cred \<times> 'a) option"
  nosec_authorization :: "'a option"
  render_not_allowed :: "'m \<Rightarrow> 'm \<times> bool"
  claims_request_is_allowed :: "'a \<Rightarrow> request \<Rightarrow> panic + bool"
  claims_time_constraint :: "'a \<Rightarrow> time_constraint"
  claims_is_important :: "'a \<Rightarrow> bool"

subsection \<open>Tokens posted to \<open>/authz-info\<close>\<close>

record authz_info_response =
  resp_nonce2 :: bytes
  resp_server_recipientid :: cown

definition process_acecbor_authz_info ::
    "minicbor \<Rightarrow> ('alg, 'imm, 'o, 'opt, 'corr, 'm) liboscore \<Rightarrow> ('a, 'cred, 'key, 'idc, 'm) authorities \<Rightarrow>
     bytes \<Rightarrow> bytes \<Rightarrow> (bytes \<Rightarrow> panic + cown) \<Rightarrow>
     panic + (credential_error + authz_info_response \<times> 'o \<times> 'a)" where
  "process_acecbor_authz_info mc lo auth token own_nonce server_recipient_id =
     rbnd (Inr (ok_or from_decode_error (decode_ace_cbor mc token))) (\<lambda>decoded.
     case (access_token decoded, nonce1 decoded, ace_client_recipientid decoded) of
       (Some tok, Some n1, Some client_id) \<Rightarrow>
         rbnd (Inr (ok_or from_decode_error (decode_encrypt0 mc tok))) (\<lambda>enc.
         rbnd (Inr (prepare_decryption mc enc)) (\<lambda>(headers, aad_encoded, buffer).
         if hm_alg headers \<noteq> Some 31 then Inr (Inl (from_detail UnsupportedAlgorithm))
         else rbnd (Inr (decrypt_symmetric_token auth headers aad_encoded buffer)) (\<lambda>(processed, claims).
         case (cnf_osc (cl_cnf claims), cnf_cose_key (cl_cnf claims)) of
           (Some osc, None) \<Rightarrow>
             bnd (server_recipient_id client_id) (\<lambda>server_id.
             rbnd (Inr (derive mc lo osc n1 own_nonce client_id (bytes_of (as_slice server_id)))) (\<lambda>derived.
             Inr (Inr (\<lparr>resp_nonce2 = own_nonce, resp_server_recipientid = server_id\<rparr>, derived, processed))))
         | _ \<Rightarrow> Inr (Inl (from_detail InconsistentDetails)))))
     | _ \<Rightarrow> Inr (Inl (from_detail ProtocolViolation)))"

subsection \<open>The response to a token\<close>

text \<open>
  What is used of a writable CoAP message: setting a code (which may not be representable), setting
  a payload, and the three steps of writing a payload in place.  A failing step leaves the message
  in some state, as there is no rewinding.
\<close>

record ('m, 'ue) writable =
  set_code :: "8 word \<Rightarrow> 'm \<Rightarrow> 'm \<times> ('ue + unit)"
  set_payload :: "bytes \<Rightarrow> 'm \<Rightarrow> 'm \<times> ('ue + unit)"
  payload_mut_with_len :: "nat \<Rightarrow> 'm \<Rightarrow> 'm \<times> ('ue + unit)"
  write_payload :: "bytes \<Rightarrow> 'm \<Rightarrow> 'm"
  truncate_payload :: "nat \<Rightarrow> 'm \<Rightarrow> 'm \<times> ('ue + unit)"

text \<open>Codes of \<open>coap_numbers\<close>: 2.04, 4.01, 5.00 and POST.\<close>

definition CHANGED :: "8 word" where "CHANGED = 0x44"
definition UNAUTHORIZED :: "8 word" where "UNAUTHORIZED = 0x81"
definition INTERNAL_SERVER_ERROR :: "8 word" where "INTERNAL_SERVER_ERROR = 0xA0"
definition POST :: "8 word" where "POST = 2"

text \<open>The \<open>?\<close> operator on a step that changes the message.\<close>

definition mstep :: "'m \<times> ('ue + unit) \<Rightarrow> ('m \<Rightarrow> panic + 'm \<times> ('ue + unit)) \<Rightarrow> panic + 'm \<times> ('ue + unit)" where
  "mstep r k = (case r of (m, Inl e) \<Rightarrow> Inr (m, Inl e) | (m, Inr _) \<Rightarrow> k m)"

definition MAX_SLICE_LEN :: nat where
  "MAX_SLICE_LEN = 1"

definition required_len :: nat where
  "required_len = 1 + 2 + 2 + OWN_NONCE_LEN + 2 + 2 + MAX_SLICE_LEN"

definition response_cbor :: "authz_info_response \<Rightarrow> ace_cbor" where
  "response_cbor r =
     \<lparr>access_token = None, nonce1 = None, nonce2 = Some (resp_nonce2 r),
      ace_client_recipientid = None,
      ace_server_recipientid = Some (bytes_of (as_slice (resp_server_recipientid r)))\<rparr>"

definition render_authz_info ::
    "minicbor \<Rightarrow> ('m, 'ue) writable \<Rightarrow> authz_info_response \<Rightarrow> 'm \<Rightarrow> panic + 'm \<times> ('ue + unit)" where
  "render_authz_info mc wr r msg =
     mstep (set_code wr CHANGED msg) (\<lambda>msg.
     mstep (payload_mut_with_len wr required_len msg) (\<lambda>msg.
     let encoded = encode_ace_cbor mc (response_cbor r) in
     bnd (unwrap (if length encoded \<le> required_len then Some () else None)) (\<lambda>_.
       Inr (truncate_payload wr (length encoded) (write_payload wr encoded msg)))))"

subsection \<open>Tokens sent in EDHOC message 3\<close>

text \<open>
  \<open>lakers::Credential::new_ccs\<close> and the capacity of its buffer are parameters; the first
  \<open>unwrap\<close> is of the four prefix bytes placed in that buffer.
\<close>

definition ccs_prefix :: bytes where
  "ccs_prefix = [CHR 0xA1, CHR 0x08, CHR 0xA1, CHR 0x01]"

definition token_credential ::
    "nat \<Rightarrow> (bytes \<Rightarrow> bytes \<Rightarrow> 'cred) \<Rightarrow> with_opaque \<Rightarrow> panic + (credential_error + 'cred)" where
  "token_credential max_cred new_ccs key =
     bnd (unwrap (if length ccs_prefix \<le> max_cred then Some ccs_prefix else None)) (\<lambda>prefixed.
     if max_cred < length prefixed + length (opaque key) then Inr (Inl (from_detail ConstraintExceeded))
     else case key_x (parsed key) of
       None \<Rightarrow> Inr (Inl (from_detail InconsistentDetails))
     | Some x \<Rightarrow>
         if length x \<noteq> 32 then Inr (Inl (from_detail InconsistentDetails))
         else Inr (Inr (new_ccs (prefixed @ opaque key) x)))"

definition token_claims ::
    "minicbor \<Rightarrow> ('a, 'cred, 'key, 'idc, 'm) authorities \<Rightarrow> bytes \<Rightarrow> credential_error + 'a \<times> cwt_claims_set" where
  "token_claims mc auth ead3 =
     (case decode_encrypt0 mc ead3 of
        Some enc \<Rightarrow>
          bnd (prepare_decryption mc enc) (\<lambda>(headers, aad_encoded, buffer).
            decrypt_symmetric_token auth headers aad_encoded buffer)
      | None \<Rightarrow>
          (case decode_sign1 mc ead3 of
             Some sign \<Rightarrow>
               bnd (ok_or from_decode_error (decode_header_map mc (cs_protected sign))) (\<lambda>protected.
               let headers = updated_with (cs_unprotected sign) protected;
                   aad = \<lparr>ss_context = ''Signature1'', ss_body_protected = cs_protected sign,
                          ss_external_aad = [], ss_payload = cs_payload sign\<rparr> in
               bnd (write_heapless MAX_SUPPORTED_ACCESSTOKEN_LEN (encode_sig_structure mc aad)) (\<lambda>buffer.
                 verify_asymmetric_token auth headers buffer (cs_signature sign) (cs_payload sign)))
           | None \<Rightarrow> Inl (from_detail UnsupportedExtension)))"

definition process_edhoc_token ::
    "minicbor \<Rightarrow> nat \<Rightarrow> (bytes \<Rightarrow> bytes \<Rightarrow> 'cred) \<Rightarrow> ('a, 'cred, 'key, 'idc, 'm) authorities \<Rightarrow> bytes \<Rightarrow>
     panic + (credential_error + 'cred \<times> 'a)" where
  "process_edhoc_token mc max_cred new_ccs auth ead3 =
     rbnd (Inr (token_claims mc auth ead3)) (\<lambda>(processed, claims).
     case (cnf_osc (cl_cnf claims), cnf_cose_key (cl_cnf claims)) of
       (None, Some key) \<Rightarrow>
         rbnd (token_credential max_cred new_ccs key) (\<lambda>credential. Inr (Inr (credential, processed)))
     | _ \<Rightarrow> Inr (Inl (from_detail InconsistentDetails)))"

subsection \<open>Encoded lengths\<close>

text \<open>
  The length of a CBOR byte or text string of \<open>n\<close> bytes, and what \<open>minicbor\<close> documents of the
  encoders used: a structure derived as an array is the array header followed by its items, one
  derived as a map leaves absent fields out, and keys from 24 to 255 take two bytes.
\<close>

definition cbor_str_len :: "nat \<Rightarrow> nat" where
  "cbor_str_len n = n + (if n < 24 then 1 else if n < 256 then 2 else if n < 65536 then 3 else 5)"

definition encrypt0_len :: "encrypt0 \<Rightarrow> nat" where
  "encrypt0_len e = 1 + cbor_str_len (length (e0_context e)) + cbor_str_len (length (e0_protected e)) +
     cbor_str_len (length (e0_external_aad e))"

definition field_len :: "nat \<Rightarrow> bytes option \<Rightarrow> nat" where
  "field_len key_len f = (case f of None \<Rightarrow> 0 | Some bs \<Rightarrow> key_len + cbor_str_len (length bs))"

definition ace_cbor_len :: "ace_cbor \<Rightarrow> nat" where
  "ace_cbor_len c = 1 + field_len 1 (access_token c) + field_len 2 (nonce1 c) + field_len 2 (nonce2 c) +
     field_len 2 (ace_client_recipientid c) + field_len 2 (ace_server_recipientid c)"

definition cbor_lengths :: "minicbor \<Rightarrow> bool" where
  "cbor_lengths mc \<longleftrightarrow>
     (\<forall>e. length (encode_encrypt0 mc e) = encrypt0_len e) \<and>
     (\<forall>c. length (encode_ace_cbor mc c) = ace_cbor_len c) \<and>
     (\<forall>bs. length (encode_bytes mc bs) = cbor_str_len (length bs))"

lemma aad_fits:
  assumes "cbor_lengths mc"
  shows "length (encode_encrypt0 mc \<lparr>e0_context = ''Encrypt0'', e0_protected = p, e0_external_aad = []\<rparr>) \<le> AADSIZE
    \<longleftrightarrow> length p \<le> 31"
  using assms
  by (auto simp: cbor_lengths_def encrypt0_len_def cbor_str_len_def AADSIZE_def
      MAX_SUPPORTED_ENCRYPT_PROTECTED_LEN_def)

lemma response_fits:
  assumes "cbor_lengths mc" "length (resp_nonce2 r) = OWN_NONCE_LEN"
  shows "length (encode_ace_cbor mc (response_cbor r)) = 16"
  using assms
  by (simp add: cbor_lengths_def ace_cbor_len_def field_len_def cbor_str_len_def response_cbor_def
      OWN_NONCE_LEN_def as_slice_def)

text \<open>Rendering a token response never panics: 16 bytes are written into the 18 requested.\<close>

lemma render_authz_info_total:
  assumes "cbor_lengths mc" "length (resp_nonce2 r) = OWN_NONCE_LEN"
  shows "\<exists>m res. render_authz_info mc wr r msg = Inr (m, res)"
  using response_fits[OF assms]
  by (auto simp: render_authz_info_def mstep_def Let_def required_len_def OWN_NONCE_LEN_def MAX_SLICE_LEN_def
      split: prod.splits sum.splits)

text \<open>
  Preparing a decryption, on every branch.  A protected header that does not decode is an
  unsupported extension.  Otherwise the step succeeds exactly when the protected header has at most
  31 bytes and the ciphertext at most 256, and passes the ciphertext on unchanged.  So a protected
  header of 32 bytes, the documented maximum \<open>MAX_SUPPORTED_ENCRYPT_PROTECTED_LEN\<close>, is refused: its
  CBOR length takes two bytes, and \<open>AADSIZE\<close> counts one.
\<close>

theorem prepare_decryption_spec:
  assumes "cbor_lengths mc"
  shows "prepare_decryption mc enc =
    (case decode_header_map mc (ce_protected enc) of
       None \<Rightarrow> Inl (from_detail UnsupportedExtension)
     | Some protected \<Rightarrow>
         if length (ce_protected enc) < MAX_SUPPORTED_ENCRYPT_PROTECTED_LEN \<and>
           length (ce_encrypted enc) \<le> MAX_SUPPORTED_ACCESSTOKEN_LEN
         then Inr (updated_with (ce_unprotected enc) protected,
           encode_encrypt0 mc \<lparr>e0_context = ''Encrypt0'', e0_protected = ce_protected enc, e0_external_aad = []\<rparr>,
           ce_encrypted enc)
         else Inl (from_detail ConstraintExceeded))"
  using aad_fits[OF assms, of "ce_protected enc"]
  by (auto simp: prepare_decryption_def write_heapless_def from_decode_error_def from_detail_def Let_def
      MAX_SUPPORTED_ENCRYPT_PROTECTED_LEN_def split: option.split)

text \<open>
  Algorithm and IV of a token come from its unprotected header whenever that has them: what the
  protected, authenticated header says is then not looked at.  The documentation of
  \<open>updated_with\<close>, called on the unprotected header with the protected one as argument, says that
  the latter wins in case of a conflict.
\<close>

theorem unprotected_header_wins:
  assumes "prepare_decryption mc enc = Inr (headers, aad, buffer)"
    and "hm_alg (ce_unprotected enc) = Some a" "hm_iv (ce_unprotected enc) = Some i"
  shows "\<exists>protected. decode_header_map mc (ce_protected enc) = Some protected \<and>
    headers = \<lparr>hm_alg = Some a, hm_iv = Some i\<rparr>"
  using assms
  by (auto simp: prepare_decryption_def Let_def panic_simps updated_with_def option_or_def)

text \<open>
  An encoder and decoder for the examples: every encoding is of the documented length, and the
  decoder knows one protected header.
\<close>

definition example_minicbor :: minicbor where
  "example_minicbor =
     \<lparr>decode_ace_cbor = (\<lambda>_. None), decode_header_map = (\<lambda>_. Some \<lparr>hm_alg = Some 10, hm_iv = None\<rparr>),
      decode_encrypt0 = (\<lambda>_. None), decode_sign1 = (\<lambda>_. None), decode_claims = (\<lambda>_. None),
      decode_byte_slice = (\<lambda>_. Some 1), decode_aif = (\<lambda>_. None),
      encode_bytes = (\<lambda>bs. replicate (cbor_str_len (length bs)) (CHR 0x00)),
      encode_encrypt0 = (\<lambda>e. replicate (encrypt0_len e) (CHR 0x00)),
      encode_sig_structure = (\<lambda>_. []),
      encode_ace_cbor = (\<lambda>c. replicate (ace_cbor_len c) (CHR 0x00))\<rparr>"

lemma example_minicbor_lengths: "cbor_lengths example_minicbor"
  by (simp add: cbor_lengths_def example_minicbor_def)

definition example_token :: "nat \<Rightarrow> cose_encrypt0" where
  "example_token n =
     \<lparr>ce_protected = replicate n (CHR 0x01),
      ce_unprotected = \<lparr>hm_alg = Some 31, hm_iv = Some (replicate 13 (CHR 0x02))\<rparr>,
      ce_encrypted = replicate 20 (CHR 0x03)\<rparr>"

theorem prepare_decryption_spec_witness:
  "prepare_decryption example_minicbor (example_token 32) = Inl (from_detail ConstraintExceeded)"
  using prepare_decryption_spec[OF example_minicbor_lengths, of "example_token 32"]
  by (simp add: example_minicbor_def example_token_def MAX_SUPPORTED_ENCRYPT_PROTECTED_LEN_def)

lemma example_prepared:
  "prepare_decryption example_minicbor (example_token 5) =
     Inr (\<lparr>hm_alg = Some 31, hm_iv = Some (replicate 13 (CHR 0x02))\<rparr>, replicate 17 (CHR 0x00), replicate 20 (CHR 0x03))"
  by (simp add: prepare_decryption_def example_minicbor_def example_token_def updated_with_def option_or_def
      write_heapless_def encrypt0_len_def cbor_str_len_def AADSIZE_def MAX_SUPPORTED_ENCRYPT_PROTECTED_LEN_def
      MAX_SUPPORTED_ACCESSTOKEN_LEN_def Let_def numeral_eq_Suc)

theorem unprotected_header_wins_witness:
  "\<exists>protected. decode_header_map example_minicbor (ce_protected (example_token 5)) = Some protected \<and>
     hm_alg protected = Some 10"
  using unprotected_header_wins[OF example_prepared, of 31 "replicate 13 (CHR 0x02)"]
  by (simp add: example_token_def example_minicbor_def)

end
