(* ===== verification/SecConfig.thy ===== *)
theory SecConfig
  imports Ace
begin

section \<open>Sources of trust (\<open>coapcore/src/seccfg.rs\<close>)\<close>

text \<open>
  The default methods of the trait \<open>ServerSecurityConfig\<close>, the configurations \<open>DenyAll\<close>, \<open>AllowAll\<close>
  and \<open>ConfigBuilder\<close> as values of the record \<open>authorities\<close>, and the builder methods.  The crates
  \<open>ccm\<close> and \<open>p256\<close> and the credential operations of \<open>lakers\<close> are parameters.
\<close>

subsection \<open>Claims and defaults\<close>

record config_builder_claims =
  cb_scope :: union_scope
  cb_time_constraint :: time_constraint
  cb_is_important :: bool

text \<open>
  The trait with its default methods, around a claims type given by its three methods.
\<close>

definition default_config ::
    "('a \<Rightarrow> request \<Rightarrow> panic + bool) \<Rightarrow> ('a \<Rightarrow> time_constraint) \<Rightarrow> ('a \<Rightarrow> bool) \<Rightarrow>
     ('a, 'cred, 'key, 'idc, 'm) authorities" where
  "default_config allowed time important =
     \<lparr>PARSES_TOKENS = False, HAS_EDHOC = False,
      decrypt_symmetric_token = (\<lambda>headers aad buffer. Inl (from_detail KeyNotPresent)),
      verify_asymmetric_token = (\<lambda>headers sd sig pl. Inl (from_detail KeyNotPresent)),
      own_edhoc_credential = None,
      expand_id_cred_x = (\<lambda>id_cred_x. None),
      nosec_authorization = None,
      render_not_allowed = (\<lambda>msg. (msg, False)),
      claims_request_is_allowed = allowed,
      claims_time_constraint = time,
      claims_is_important = important\<rparr>"

text \<open>
  \<open>DenyAll\<close>: its claims type \<open>Infallible\<close> has no value; the methods on it are never called.
\<close>

definition infallible_allowed :: "unit \<Rightarrow> request \<Rightarrow> panic + bool" where
  "infallible_allowed self r = Inl UnreachableCode"

definition deny_all :: "(unit, 'cred, 'key, 'idc, 'm) authorities" where
  "deny_all = default_config infallible_allowed unlimited_time_constraint general_is_important"

text \<open>\<open>AllowAll\<close>: every request is allowed, without EDHOC or tokens.\<close>

definition allow_all_allowed :: "unit \<Rightarrow> request \<Rightarrow> panic + bool" where
  "allow_all_allowed self r = Inr True"

definition allow_all :: "(unit, 'cred, 'key, 'idc, 'm) authorities" where
  "allow_all = (default_config allow_all_allowed unlimited_time_constraint general_is_important)
     \<lparr>nosec_authorization := Some ()\<rparr>"

subsection \<open>The builder\<close>

record ('cred, 'key) config_builder =
  as_key_31 :: "bytes option"
  as_key_neg7 :: "(bytes \<times> bytes \<times> string) option"
  unauthenticated_scope :: "union_scope option"
  cfg_own_credential :: "('cred \<times> 'key) option"
  known_edhoc_clients :: "('cred \<times> union_scope) option"
  request_creation_hints :: bytes

definition config_new :: "('cred, 'key) config_builder" where
  "config_new =
     \<lparr>as_key_31 = None, as_key_neg7 = None, unauthenticated_scope = None, cfg_own_credential = None,
      known_edhoc_clients = None, request_creation_hints = []\<rparr>"

definition with_aif_symmetric_as_aesccm256 :: "bytes \<Rightarrow> ('cred, 'key) config_builder \<Rightarrow> ('cred, 'key) config_builder" where
  "with_aif_symmetric_as_aesccm256 key self = self\<lparr>as_key_31 := Some key\<rparr>"

definition with_aif_asymmetric_es256 ::
    "bytes \<Rightarrow> bytes \<Rightarrow> string \<Rightarrow> ('cred, 'key) config_builder \<Rightarrow> ('cred, 'key) config_builder" where
  "with_aif_asymmetric_es256 x y audience self = self\<lparr>as_key_neg7 := Some (x, y, audience)\<rparr>"

definition with_known_edhoc_credential ::
    "'cred \<Rightarrow> union_scope \<Rightarrow> ('cred, 'key) config_builder \<Rightarrow> ('cred, 'key) config_builder" where
  "with_known_edhoc_credential credential scope self = self\<lparr>known_edhoc_clients := Some (credential, scope)\<rparr>"

definition with_own_edhoc_credential ::
    "'cred \<Rightarrow> 'key \<Rightarrow> ('cred, 'key) config_builder \<Rightarrow> ('cred, 'key) config_builder" where
  "with_own_edhoc_credential credential key self = self\<lparr>cfg_own_credential := Some (credential, key)\<rparr>"

definition allow_unauthenticated :: "union_scope \<Rightarrow> ('cred, 'key) config_builder \<Rightarrow> ('cred, 'key) config_builder" where
  "allow_unauthenticated scope self = self\<lparr>unauthenticated_scope := Some scope\<rparr>"

definition with_request_creation_hints :: "bytes \<Rightarrow> ('cred, 'key) config_builder \<Rightarrow> ('cred, 'key) config_builder" where
  "with_request_creation_hints hints self = self\<lparr>request_creation_hints := hints\<rparr>"

subsection \<open>The methods of \<open>ConfigBuilder\<close>\<close>

text \<open>
  AES-CCM (key, nonce, additional data, ciphertext, tag) answers the plaintext when the tag is
  right; of ES256, a key and a signature may be malformed, and a signature may be wrong.
\<close>

record ('vk, 'sig) crypto =
  ccm_decrypt :: "bytes \<Rightarrow> bytes \<Rightarrow> bytes \<Rightarrow> bytes \<Rightarrow> bytes \<Rightarrow> bytes option"
  verifying_key :: "bytes \<Rightarrow> bytes \<Rightarrow> 'vk option"
  signature_from_slice :: "bytes \<Rightarrow> 'sig option"
  p256_verify :: "'vk \<Rightarrow> bytes \<Rightarrow> 'sig \<Rightarrow> bool"

record ('cred, 'idc) credentials =
  by_kid :: "'cred \<Rightarrow> 'idc option"
  by_value :: "'cred \<Rightarrow> 'idc option"
  reference_only :: "'idc \<Rightarrow> bool"
  get_ccs :: "'idc \<Rightarrow> 'cred option"

definition TAG_SIZE :: nat where
  "TAG_SIZE = 16"

definition NONCE_SIZE :: nat where
  "NONCE_SIZE = 13"

text \<open>The common end of both token methods: the claims are parsed into the builder's claims.\<close>

definition claims_of_set :: "minicbor \<Rightarrow> cwt_claims_set \<Rightarrow> credential_error + config_builder_claims \<times> cwt_claims_set" where
  "claims_of_set mc claims =
     bnd (map_err (\<lambda>_. from_detail UnsupportedExtension) (aif_parse (decode_aif mc) (cl_scope claims))) (\<lambda>aif.
       Inr (\<lparr>cb_scope = AifValue aif, cb_time_constraint = from_claims_set (cl_exp claims),
             cb_is_important = False\<rparr>, claims))"

definition cfg_decrypt_symmetric_token ::
    "minicbor \<Rightarrow> ('vk, 'sig) crypto \<Rightarrow> ('cred, 'key) config_builder \<Rightarrow> header_map \<Rightarrow> bytes \<Rightarrow> bytes \<Rightarrow>
     credential_error + config_builder_claims \<times> cwt_claims_set" where
  "cfg_decrypt_symmetric_token mc cr self headers aad buffer =
     bnd (ok_or (from_detail KeyNotPresent) (as_key_31 self)) (\<lambda>key.
     bnd (ok_or (from_detail InconsistentDetails) (hm_iv headers)) (\<lambda>nonce.
     if length nonce \<noteq> NONCE_SIZE then Inl (from_detail InconsistentDetails)
     else if length buffer < TAG_SIZE then Inl (from_detail InconsistentDetails)
     else
       let ciphertext = take (length buffer - TAG_SIZE) buffer;
           tag = drop (length buffer - TAG_SIZE) buffer in
       bnd (ok_or (from_detail VerifyFailed) (ccm_decrypt cr key nonce aad ciphertext tag)) (\<lambda>plaintext.
       bnd (ok_or (from_detail UnsupportedExtension) (decode_claims mc plaintext)) (claims_of_set mc))))"

definition cfg_verify_asymmetric_token ::
    "minicbor \<Rightarrow> ('vk, 'sig) crypto \<Rightarrow> ('cred, 'key) config_builder \<Rightarrow> header_map \<Rightarrow> bytes \<Rightarrow> bytes \<Rightarrow> bytes \<Rightarrow>
     credential_error + config_builder_claims \<times> cwt_claims_set" where
  "cfg_verify_asymmetric_token mc cr self headers signed_data signature_bytes signed_payload =
     (if hm_alg headers \<noteq> Some (- 7) then Inl (from_detail UnsupportedAlgorithm)
      else case as_key_neg7 self of
        None \<Rightarrow> Inl (from_detail KeyNotPresent)
      | Some (x, y, rs_audience) \<Rightarrow>
          bnd (ok_or (from_detail InconsistentDetails) (verifying_key cr x y)) (\<lambda>as_key.
          bnd (ok_or (from_detail InconsistentDetails) (signature_from_slice cr signature_bytes)) (\<lambda>signature.
          if \<not> p256_verify cr as_key signed_data signature then Inl (from_detail VerifyFailed)
          else bnd (ok_or (from_detail UnsupportedExtension) (decode_claims mc signed_payload)) (\<lambda>claims.
            if cl_aud claims \<noteq> Some rs_audience then Inl (from_detail VerifyFailed)
            else claims_of_set mc claims))))"

definition cfg_nosec_authorization :: "('cred, 'key) config_builder \<Rightarrow> config_builder_claims option" where
  "cfg_nosec_authorization self =
     map_option (\<lambda>scope. \<lparr>cb_scope = scope, cb_time_constraint = unbounded, cb_is_important = False\<rparr>)
       (unauthenticated_scope self)"

definition known_client_claims :: "union_scope \<Rightarrow> config_builder_claims" where
  "known_client_claims scope = \<lparr>cb_scope = scope, cb_time_constraint = unbounded, cb_is_important = True\<rparr>"

text \<open>
  The \<open>?\<close> in the head of the loop returns from the whole method when no client is known.
\<close>

definition cfg_expand_id_cred_x ::
    "('cred, 'idc) credentials \<Rightarrow> ('cred, 'key) config_builder \<Rightarrow> 'idc \<Rightarrow> ('cred \<times> config_builder_claims) option" where
  "cfg_expand_id_cred_x cs self id_cred_x =
     (case known_edhoc_clients self of
        None \<Rightarrow> None
      | Some (credential, scope) \<Rightarrow>
          if reference_only cs id_cred_x \<and> by_kid cs credential = Some id_cred_x then
            Some (credential, known_client_claims scope)
          else if \<not> reference_only cs id_cred_x \<and> by_value cs credential = Some id_cred_x then
            Some (credential, known_client_claims scope)
          else case cfg_nosec_authorization self of
            None \<Rightarrow> None
          | Some unauthorized_claims \<Rightarrow>
              (case get_ccs cs id_cred_x of
                 None \<Rightarrow> None
               | Some credential_by_value \<Rightarrow> Some (credential_by_value, unauthorized_claims)))"

definition cfg_render_not_allowed :: "('m, 'ue) writable \<Rightarrow> ('cred, 'key) config_builder \<Rightarrow> 'm \<Rightarrow> 'm \<times> bool" where
  "cfg_render_not_allowed wr self msg =
     (case set_code wr UNAUTHORIZED msg of
        (msg, Inl _) \<Rightarrow> (msg, False)
      | (msg, Inr _) \<Rightarrow>
          (case set_payload wr (request_creation_hints self) msg of
             (msg, Inl _) \<Rightarrow> (msg, False)
           | (msg, Inr _) \<Rightarrow> (msg, True)))"

definition config_authorities ::
    "minicbor \<Rightarrow> ('vk, 'sig) crypto \<Rightarrow> ('cred, 'idc) credentials \<Rightarrow> ('m, 'ue) writable \<Rightarrow>
     ('cred, 'key) config_builder \<Rightarrow> (config_builder_claims, 'cred, 'key, 'idc, 'm) authorities" where
  "config_authorities mc cr cs wr self =
     \<lparr>PARSES_TOKENS = True, HAS_EDHOC = True,
      decrypt_symmetric_token = cfg_decrypt_symmetric_token mc cr self,
      verify_asymmetric_token = cfg_verify_asymmetric_token mc cr self,
      own_edhoc_credential = cfg_own_credential self,
      expand_id_cred_x = cfg_expand_id_cred_x cs self,
      nosec_authorization = cfg_nosec_authorization self,
      render_not_allowed = cfg_render_not_allowed wr self,
      claims_request_is_allowed = (\<lambda>c. union_request_is_allowed (decode_aif mc) (cb_scope c)),
      claims_time_constraint = cb_time_constraint,
      claims_is_important = cb_is_important\<rparr>"

subsection \<open>What accepted tokens are\<close>

text \<open>
  What the handler relies on of an authority that accepts tokens: the claims it makes of a token
  end with the token and are not important.
\<close>

locale token_authority =
  fixes auth :: "('a, 'cred, 'key, 'idc, 'm) authorities"
  assumes decrypt_limits: "decrypt_symmetric_token auth headers aad buffer = Inr (a, claims) \<Longrightarrow>
      claims_time_constraint auth a = from_claims_set (cl_exp claims) \<and> \<not> claims_is_important auth a"
    and verify_limits: "verify_asymmetric_token auth headers sd signature_bytes signed_payload = Inr (a, claims) \<Longrightarrow>
      claims_time_constraint auth a = from_claims_set (cl_exp claims) \<and> \<not> claims_is_important auth a"
begin

lemma acecbor_limits:
  assumes "process_acecbor_authz_info mc lo auth token own_nonce rid = Inr (Inr (r, ctx, a))"
  shows "(\<exists>e. claims_time_constraint auth a = \<lparr>exp_at = Some e\<rparr>) \<and> \<not> claims_is_important auth a"
proof -
  obtain headers aad buffer claims where "decrypt_symmetric_token auth headers aad buffer = Inr (a, claims)"
    using assms unfolding process_acecbor_authz_info_def by (auto simp: result_simps)
  then show ?thesis
    using decrypt_limits by (auto simp: from_claims_set_def)
qed

lemma edhoc_token_limits:
  assumes "process_edhoc_token mc max_cred new_ccs auth ead3 = Inr (Inr (cred, a))"
  shows "(\<exists>e. claims_time_constraint auth a = \<lparr>exp_at = Some e\<rparr>) \<and> \<not> claims_is_important auth a"
proof -
  obtain claims where "token_claims mc auth ead3 = Inr (a, claims)"
    using assms unfolding process_edhoc_token_def by (auto simp: result_simps)
  then have "(\<exists>headers aad buffer. decrypt_symmetric_token auth headers aad buffer = Inr (a, claims)) \<or>
      (\<exists>headers sd sig pl. verify_asymmetric_token auth headers sd sig pl = Inr (a, claims))"
    unfolding token_claims_def Let_def by (auto simp: result_simps split: option.splits)
  then show ?thesis
    using decrypt_limits verify_limits by (auto simp: from_claims_set_def)
qed

end

lemma claims_of_set_ok:
  "claims_of_set mc claims = Inr (a, claims') \<longleftrightarrow>
    claims' = claims \<and> (\<exists>aif. aif_parse (decode_aif mc) (cl_scope claims) = Inr aif \<and>
      a = \<lparr>cb_scope = AifValue aif, cb_time_constraint = from_claims_set (cl_exp claims), cb_is_important = False\<rparr>)"
  by (auto simp: claims_of_set_def panic_simps)

lemma cfg_decrypt_ok:
  "cfg_decrypt_symmetric_token mc cr self headers aad buffer = Inr (a, claims) \<longleftrightarrow>
    (\<exists>key nonce plaintext.
      as_key_31 self = Some key \<and> hm_iv headers = Some nonce \<and> length nonce = NONCE_SIZE \<and>
      TAG_SIZE \<le> length buffer \<and>
      ccm_decrypt cr key nonce aad (take (length buffer - TAG_SIZE) buffer) (drop (length buffer - TAG_SIZE) buffer) =
        Some plaintext \<and>
      decode_claims mc plaintext = Some claims \<and> claims_of_set mc claims = Inr (a, claims))"
  unfolding cfg_decrypt_symmetric_token_def Let_def
  by (auto simp: result_simps claims_of_set_ok not_less)

lemma cfg_verify_ok:
  "cfg_verify_asymmetric_token mc cr self headers sd signature_bytes signed_payload = Inr (a, claims) \<longleftrightarrow>
    hm_alg headers = Some (- 7) \<and>
    (\<exists>x y key signature.
      as_key_neg7 self = Some (x, y, the (cl_aud claims)) \<and> cl_aud claims \<noteq> None \<and>
      verifying_key cr x y = Some key \<and> signature_from_slice cr signature_bytes = Some signature \<and>
      p256_verify cr key sd signature \<and> decode_claims mc signed_payload = Some claims \<and>
      claims_of_set mc claims = Inr (a, claims))"
  unfolding cfg_verify_asymmetric_token_def
  by (auto simp: result_simps claims_of_set_ok)

interpretation cfg: token_authority "config_authorities mc cr cs wr self" for mc cr cs wr self
  by unfold_locales
    (auto simp: config_authorities_def cfg_decrypt_ok cfg_verify_ok claims_of_set_ok)

interpretation deny: token_authority "deny_all"
  by unfold_locales (simp_all add: deny_all_def default_config_def)

interpretation allow: token_authority "allow_all"
  by unfold_locales (simp_all add: allow_all_def default_config_def)

lemma config_sel [simp]:
  "decrypt_symmetric_token (config_authorities mc cr cs wr self) = cfg_decrypt_symmetric_token mc cr self"
  "verify_asymmetric_token (config_authorities mc cr cs wr self) = cfg_verify_asymmetric_token mc cr self"
  "nosec_authorization (config_authorities mc cr cs wr self) = cfg_nosec_authorization self"
  "own_edhoc_credential (config_authorities mc cr cs wr self) = cfg_own_credential self"
  "expand_id_cred_x (config_authorities mc cr cs wr self) = cfg_expand_id_cred_x cs self"
  "claims_time_constraint (config_authorities mc cr cs wr self) = cb_time_constraint"
  "claims_is_important (config_authorities mc cr cs wr self) = cb_is_important"
  "PARSES_TOKENS (config_authorities mc cr cs wr self)" "HAS_EDHOC (config_authorities mc cr cs wr self)"
  by (simp_all add: config_authorities_def)

text \<open>
  C25: A token posted to \<open>/authz-info\<close> is accepted only when it is encrypted under the configured
  symmetric key: algorithm 31, an IV of 13 bytes, at least the 16 bytes of a tag, and a tag that is
  right for the header as sent; its claims must name an OSCORE secret and no key, and carry a valid
  AIF scope.  The authorization of the new context is exactly that scope, it expires with the
  token, and it is never important.
\<close>

theorem symmetric_token_accepted:
  assumes "process_acecbor_authz_info mc lo (config_authorities mc cr cs wr self) token own_nonce rid =
    Inr (Inr (r, ctx, a))"
  shows "\<exists>decoded tok enc (headers :: header_map) aad buffer key nonce plaintext claims aif.
    decode_ace_cbor mc token = Some decoded \<and> access_token decoded = Some tok \<and>
    decode_encrypt0 mc tok = Some enc \<and> prepare_decryption mc enc = Inr (headers, aad, buffer) \<and>
    as_key_31 self = Some key \<and> hm_alg headers = Some 31 \<and> hm_iv headers = Some nonce \<and>
    length nonce = 13 \<and> 16 \<le> length buffer \<and>
    ccm_decrypt cr key nonce aad (take (length buffer - 16) buffer) (drop (length buffer - 16) buffer) = Some plaintext \<and>
    decode_claims mc plaintext = Some claims \<and>
    cnf_osc (cl_cnf claims) \<noteq> None \<and> cnf_cose_key (cl_cnf claims) = None \<and>
    aif_parse (decode_aif mc) (cl_scope claims) = Inr aif \<and>
    a = \<lparr>cb_scope = AifValue aif, cb_time_constraint = \<lparr>exp_at = Some (cl_exp claims)\<rparr>, cb_is_important = False\<rparr>"
proof -
  obtain decoded tok enc headers aad buffer claims where
      t: "decode_ace_cbor mc token = Some decoded" "access_token decoded = Some tok"
      "decode_encrypt0 mc tok = Some enc" "prepare_decryption mc enc = Inr (headers, aad, buffer)"
    and d: "cfg_decrypt_symmetric_token mc cr self headers aad buffer = Inr (a, claims)"
    and h: "hm_alg headers = Some 31"
    and c: "cnf_osc (cl_cnf claims) \<noteq> None" "cnf_cose_key (cl_cnf claims) = None"
    using assms unfolding process_acecbor_authz_info_def by (auto simp: result_simps)
  show ?thesis
    using t d h c unfolding cfg_decrypt_ok claims_of_set_ok TAG_SIZE_def NONCE_SIZE_def from_claims_set_def
    by blast
qed

text \<open>
  A signed token sent in EDHOC is accepted only when it names the algorithm ES256, its signature
  verifies under the configured key over protected header and payload, and its audience is the
  configured one; a configuration without that key accepts none.
\<close>

theorem asymmetric_token_accepted:
  assumes "token_claims mc (config_authorities mc cr cs wr self) ead3 = Inr (a, claims)"
    and "decode_encrypt0 mc ead3 = None"
  shows "\<exists>sign x y audience key signature sd.
    decode_sign1 mc ead3 = Some sign \<and> as_key_neg7 self = Some (x, y, audience) \<and>
    verifying_key cr x y = Some key \<and> signature_from_slice cr (cs_signature sign) = Some signature \<and>
    sd = encode_sig_structure mc \<lparr>ss_context = ''Signature1'', ss_body_protected = cs_protected sign,
      ss_external_aad = [], ss_payload = cs_payload sign\<rparr> \<and>
    p256_verify cr key sd signature \<and> decode_claims mc (cs_payload sign) = Some claims \<and>
    cl_aud claims = Some audience \<and> cb_time_constraint a = \<lparr>exp_at = Some (cl_exp claims)\<rparr>"
proof -
  obtain sign headers where s: "decode_sign1 mc ead3 = Some sign"
    and v: "cfg_verify_asymmetric_token mc cr self headers
      (encode_sig_structure mc \<lparr>ss_context = ''Signature1'', ss_body_protected = cs_protected sign,
        ss_external_aad = [], ss_payload = cs_payload sign\<rparr>) (cs_signature sign) (cs_payload sign) = Inr (a, claims)"
    using assms unfolding token_claims_def Let_def
    by (auto simp: result_simps write_heapless_def)
  show ?thesis
    using s v unfolding cfg_verify_ok claims_of_set_ok from_claims_set_def by force
qed

text \<open>
  The branch for unauthenticated clients is dead without a preconfigured client: when no client
  credential is known, \<open>expand_id_cred_x\<close> refuses every peer, also one that presents its credential
  by value while unauthenticated access is allowed.  With any client known, the same peer is
  accepted with the unauthenticated scope.
\<close>

theorem expand_needs_known_client:
  assumes "unauthenticated_scope self = Some scope" "get_ccs cs peer = Some credential"
    and "\<not> reference_only cs peer" "by_value cs known \<noteq> Some peer"
  shows "cfg_expand_id_cred_x cs (self\<lparr>known_edhoc_clients := None\<rparr>) peer = None \<and>
    cfg_expand_id_cred_x cs (self\<lparr>known_edhoc_clients := Some (known, DenyAll)\<rparr>) peer =
      Some (credential, \<lparr>cb_scope = scope, cb_time_constraint = unbounded, cb_is_important = False\<rparr>)"
  using assms by (simp add: cfg_expand_id_cred_x_def cfg_nosec_authorization_def)

end
