(* ===== verification/SecContext.thy ===== *)
theory SecContext
  imports SecConfig OrderedPool
begin

section \<open>Security contexts and the wrapping handler (\<open>coapcore/src/seccontext.rs\<close>)\<close>

text \<open>
  \<open>OscoreEdhocHandler\<close> keeps a pool of security contexts in front of an inner CoAP handler.  A
  request is recognised by its options as plain, as an EDHOC message 1, as a token, or as protected
  by OSCORE, possibly with an EDHOC message 3 in front, and is answered in a second step from what
  the first left.  The crates \<open>lakers\<close> and \<open>liboscore\<close>, the inner handler and the messages are
  parameters.  The reading of the clock, at most one per request, and the random nonce are
  arguments.
\<close>

subsection \<open>Contexts\<close>

text \<open>\<open>'r\<close> stands for the states of a \<open>lakers\<close> responder, \<open>'o\<close> for an OSCORE context.\<close>

datatype ('r, 'o) sec_context_stage =
    Empty
  | EdhocResponderProcessedM1 'r cown bytes bool   \<comment> \<open>responder, c_r, c_i, requested_cred_by_value\<close>
  | EdhocResponderSentM2 'r cown bytes   \<comment> \<open>responder, c_r, c_i\<close>
  | Oscore 'o

record ('a, 'r, 'o) sec_context_state =
  authorization :: "'a option"
  protocol_stage :: "('r, 'o) sec_context_stage"

definition sec_context_default :: "('a, 'r, 'o) sec_context_state" where
  "sec_context_default = \<lparr>authorization = None, protocol_stage = Empty\<rparr>"

definition MAX_CONTEXTS :: nat where "MAX_CONTEXTS = 4"
definition LEVEL_ADMIN :: nat where "LEVEL_ADMIN = 0"
definition LEVEL_AUTHENTICATED :: nat where "LEVEL_AUTHENTICATED = 1"
definition LEVEL_ONGOING :: nat where "LEVEL_ONGOING = 2"
definition LEVEL_EMPTY :: nat where "LEVEL_EMPTY = 3"
definition LEVEL_COUNT :: nat where "LEVEL_COUNT = 4"

lemmas level_defs = LEVEL_ADMIN_def LEVEL_AUTHENTICATED_def LEVEL_ONGOING_def LEVEL_EMPTY_def LEVEL_COUNT_def

definition context_level :: "('a \<Rightarrow> bool) \<Rightarrow> ('a, 'r, 'o) sec_context_state \<Rightarrow> nat" where
  "context_level is_important c =
     (case protocol_stage c of
        Empty \<Rightarrow> LEVEL_EMPTY
      | EdhocResponderProcessedM1 _ _ _ _ \<Rightarrow> LEVEL_ONGOING
      | EdhocResponderSentM2 _ _ _ \<Rightarrow> LEVEL_ONGOING
      | Oscore _ \<Rightarrow>
          (if (case authorization c of None \<Rightarrow> False | Some a \<Rightarrow> is_important a) then LEVEL_ADMIN
           else LEVEL_AUTHENTICATED))"

definition corresponding_cown :: "('o \<Rightarrow> bytes) \<Rightarrow> ('a, 'r, 'o) sec_context_state \<Rightarrow> cown option" where
  "corresponding_cown rid c =
     (case protocol_stage c of
        Empty \<Rightarrow> None
      | EdhocResponderProcessedM1 _ c_r _ _ \<Rightarrow> Some c_r
      | EdhocResponderSentM2 _ c_r _ \<Rightarrow> Some c_r
      | Oscore ctx \<Rightarrow> from_kid (words_of (rid ctx)))"

subsection \<open>Other crates and the inner handler\<close>

text \<open>Errors of \<open>coap-message-utils\<close>, by their constructors.\<close>

datatype coap_error =
    NotFound
  | BadRequest
  | BadRequestRbep nat
  | BadOption nat
  | CoapUnauthorized
  | MethodNotAllowed
  | InternalServerError

datatype message_buffer_error = BufferAlreadyFull | SliceTooLong

definition too_small :: "message_buffer_error \<Rightarrow> coap_error" where
  "too_small e = (case e of BufferAlreadyFull \<Rightarrow> BadRequest | SliceTooLong \<Rightarrow> BadRequest)"

datatype edhoc_error =
    UnexpectedCredential
  | MissingIdentity
  | IdentityAlreadySet
  | MacVerificationFailed
  | UnsupportedMethod
  | UnsupportedCipherSuite
  | ParsingError
  | EncodingError
  | CredentialTooLongError
  | EadLabelTooLongError
  | EadTooLongError
  | EADUnprocessable
  | AccessDenied
  | OtherEdhocError

definition render_error :: "edhoc_error \<Rightarrow> coap_error" where
  "render_error e = BadRequest"

record ead_item =
  ead_label :: nat
  ead_is_critical :: bool
  ead_value :: "bytes option"

datatype credential_transfer = ByValue | ByReference

text \<open>
  The responder of \<open>lakers\<close>: \<open>process_message_1\<close> includes its creation with the own key and
  credential.
\<close>

record ('r, 'cred, 'key, 'idc) lakers =
  message_buffer :: "bytes \<Rightarrow> message_buffer_error + bytes"
  process_message_1 :: "'key \<Rightarrow> 'cred \<Rightarrow> bytes \<Rightarrow> edhoc_error + 'r \<times> bytes \<times> ead_item option"
  prepare_message_2 :: "'r \<Rightarrow> credential_transfer \<Rightarrow> bytes \<Rightarrow> edhoc_error + 'r \<times> bytes"
  parse_message_3 :: "'r \<Rightarrow> bytes \<Rightarrow> edhoc_error + 'r \<times> 'idc \<times> ead_item option"
  verify_message_3 :: "'r \<Rightarrow> 'cred \<Rightarrow> edhoc_error + 'r"
  completed_without_message_4 :: "'r \<Rightarrow> edhoc_error + 'r"
  edhoc_exporter :: "'r \<Rightarrow> nat \<Rightarrow> bytes \<Rightarrow> nat \<Rightarrow> bytes"
  new_ccs :: "bytes \<Rightarrow> bytes \<Rightarrow> 'cred"
  max_cred_len :: nat
  max_buffer_len :: nat

text \<open>
  The inner handler with its state \<open>'h\<close>: \<open>'rd\<close> is its request data, \<open>'ee\<close> and \<open>'be\<close> its errors.
  Rendering an error may fail with an error that can be rendered in turn.
\<close>

record ('h, 'rd, 'ee, 'be, 'fe, 'm) handler =
  inner_extract :: "'h \<Rightarrow> message \<Rightarrow> 'h \<times> ('ee + 'rd)"
  inner_build :: "'h \<Rightarrow> 'rd \<Rightarrow> 'm \<Rightarrow> 'h \<times> 'm \<times> ('be + unit)"
  inner_estimate :: "'h \<Rightarrow> 'rd \<Rightarrow> nat"
  render_extract_error :: "'ee \<Rightarrow> 'm \<Rightarrow> 'm \<times> ('fe + unit)"
  render_build_error :: "'be \<Rightarrow> 'm \<Rightarrow> 'm \<times> ('fe + unit)"
  render_failure :: "'fe \<Rightarrow> 'm \<Rightarrow> 'm \<times> bool"

text \<open>
  The remaining pieces of the CoAP crates: whether options, and then a payload, can be written into
  a buffer of a given size, the rendering of a \<open>coap_error\<close>, the cast to the one response type
  OSCORE supports, whose codes are plain \<open>u8\<close>, and the check of options nobody consumed, which ends
  the iteration at the first option it rejects.
\<close>

record ('m, 'ue) coap =
  writable :: "('m, 'ue) writable"
  options_fit :: "nat \<Rightarrow> (nat \<times> bytes) list \<Rightarrow> bool"
  payload_fits :: "nat \<Rightarrow> (nat \<times> bytes) list \<Rightarrow> bytes \<Rightarrow> bool"
  render_coap_error :: "coap_error \<Rightarrow> 'm \<Rightarrow> 'm \<times> ('ue + unit)"
  downcast_from :: "'m \<Rightarrow> 'm option"
  set_u8_code :: "8 word \<Rightarrow> 'm \<Rightarrow> 'm"
  not_ignored :: "nat \<times> bytes \<Rightarrow> coap_error option"

subsection \<open>The handler\<close>

definition has_oscore :: "('a, 'cred, 'key, 'idc, 'm) authorities \<Rightarrow> bool" where
  "has_oscore auth \<longleftrightarrow> HAS_EDHOC auth \<or> PARSES_TOKENS auth"

definition EDHOC_COPY_BUFFER_SIZE :: nat where
  "EDHOC_COPY_BUFFER_SIZE = 1152"

text \<open>Option numbers of \<open>coap_numbers\<close>.\<close>

definition opt_oscore :: nat where "opt_oscore = 9"
definition opt_content_format :: nat where "opt_content_format = 12"
definition opt_accept :: nat where "opt_accept = 17"
definition opt_edhoc :: nat where "opt_edhoc = 21"

lemmas opt_defs = opt_oscore_def opt_content_format_def opt_accept_def opt_edhoc_def uri_path_def

record ('a, 'r, 'o, 'h) oe_handler =
  ctx_pool :: "('a, 'r, 'o) sec_context_state pool"
  inner :: 'h

definition oe_handler_new :: "'h \<Rightarrow> panic + ('a, 'r, 'o, 'h) oe_handler" where
  "oe_handler_new h = bnd (pool_new MAX_CONTEXTS LEVEL_COUNT) (\<lambda>q. Inr \<lparr>ctx_pool = q, inner = h\<rparr>)"

datatype ('rd) authorization_checked = Allowed 'rd | NotAllowed

datatype ('x, 'corr) own_request_data =
    EdhocOkSend2 cown
  | EdhocOscoreRequest cown 'corr "'x authorization_checked"
  | ProcessedToken authz_info_response

datatype ('own, 'inn) or_inner = Own 'own | Inner 'inn

text \<open>
  \<open>cown_but_not\<close>: the upper bound of the size hint is one per pool entry, plus the peer's own
  identifier if it is one of ours.
\<close>

definition pool_cowns :: "('o \<Rightarrow> bytes) \<Rightarrow> ('a, 'r, 'o) sec_context_state pool \<Rightarrow> cown list" where
  "pool_cowns rid q = List.map_filter (corresponding_cown rid) (pool_iter q)"

definition cown_but_not :: "('o \<Rightarrow> bytes) \<Rightarrow> ('a, 'r, 'o) sec_context_state pool \<Rightarrow> bytes \<Rightarrow> panic + cown" where
  "cown_but_not rid q c_peer =
     (let peer = (case from_kid (words_of c_peer) of None \<Rightarrow> [] | Some c \<Rightarrow> [c]) in
      not_in_iter (Some (length (pool_iter q) + length peer)) (pool_cowns rid q @ peer))"

abbreviation auth_level :: "('a, 'cred, 'key, 'idc, 'm) authorities \<Rightarrow> ('a, 'r, 'o) sec_context_state \<Rightarrow> nat" where
  "auth_level auth \<equiv> context_level (claims_is_important auth)"

text \<open>\<open>force_insert\<close> into the handler's pool; the evicted entry is dropped.\<close>

definition store_context ::
    "('a, 'cred, 'key, 'idc, 'm) authorities \<Rightarrow> ('a, 'r, 'o, 'h) oe_handler \<Rightarrow> ('a, 'r, 'o) sec_context_state \<Rightarrow>
     panic + ('a, 'r, 'o, 'h) oe_handler" where
  "store_context auth st c =
     bnd (pool_force_insert (auth_level auth) MAX_CONTEXTS (ctx_pool st) c) (\<lambda>(q, evicted).
       Inr (st\<lparr>ctx_pool := q\<rparr>))"

subsection \<open>EDHOC message 1\<close>

definition check_ead_1 :: "ead_item option \<Rightarrow> coap_error + bool" where
  "check_ead_1 ead_1 =
     (case ead_1 of
        None \<Rightarrow> Inr False
      | Some ead \<Rightarrow>
          if ead_label ead = ead_cred_by_value then Inr True
          else if ead_is_critical ead then Inl BadRequest
          else Inr False)"

definition extract_edhoc ::
    "('r, 'cred, 'key, 'idc) lakers \<Rightarrow> ('alg, 'imm, 'o, 'opt, 'corr, 'm) liboscore \<Rightarrow>
     ('a, 'cred, 'key, 'idc, 'm) authorities \<Rightarrow> ('a, 'r, 'o, 'h) oe_handler \<Rightarrow> message \<Rightarrow>
     panic + ('a, 'r, 'o, 'h) oe_handler \<times> (coap_error + ('x, 'corr) own_request_data)" where
  "extract_edhoc lk lo auth st request =
     leave st (ok_or NotFound (own_edhoc_credential auth)) (\<lambda>own_identity.
     leave st (ok_or BadRequest (case payload request of [] \<Rightarrow> None | b # bs \<Rightarrow> Some (b, bs))) (\<lambda>(first_byte, edhoc_m1).
     if first_byte = CHR 0xF5 then
       leave st (map_err too_small (message_buffer lk edhoc_m1)) (\<lambda>message_1.
       leave st (map_err render_error (process_message_1 lk (snd own_identity) (fst own_identity) message_1))
         (\<lambda>(responder, c_i, ead_1).
       leave st (check_ead_1 ead_1) (\<lambda>requested_cred_by_value.
       bnd (cown_but_not (recipient_id lo) (ctx_pool st) c_i) (\<lambda>c_r.
       bnd (store_context auth st
             \<lparr>authorization = nosec_authorization auth,
              protocol_stage = EdhocResponderProcessedM1 responder c_r c_i requested_cred_by_value\<rparr>) (\<lambda>st.
       Inr (st, Inr (EdhocOkSend2 c_r)))))))
     else Inr (st, Inl BadRequest)))"

subsection \<open>EDHOC message 2\<close>

text \<open>
  The \<open>f_use\<close> of the lookup: the entry is taken, and is put back only when message 2 could be
  prepared.  The result is the panic of \<open>todo!()\<close>, an EDHOC error, or the message.
\<close>

definition prepare_m2 ::
    "('r, 'cred, 'key, 'idc) lakers \<Rightarrow> cown \<Rightarrow> ('a, 'r, 'o) sec_context_state \<Rightarrow>
     ('a, 'r, 'o) sec_context_state \<times> (panic + (edhoc_error + bytes))" where
  "prepare_m2 lk c_r matched =
     (case protocol_stage matched of
        EdhocResponderProcessedM1 taken matched_c_r c_i requested_cred_by_value \<Rightarrow>
          (case prepare_message_2 lk taken
                  (if requested_cred_by_value then ByValue else ByReference) (bytes_of (as_slice c_r)) of
             Inl e \<Rightarrow> (sec_context_default, Inr (Inl e))
           | Inr (responder, message_2) \<Rightarrow>
               (\<lparr>authorization = authorization matched, protocol_stage = EdhocResponderSentM2 responder c_r c_i\<rparr>,
                Inr (Inr message_2)))
      | _ \<Rightarrow> (sec_context_default, Inl UnreachableCode))"

text \<open>
  The error of a response is a \<open>CoAPError\<close> (\<open>Inr\<close>) or one of the message (\<open>Inl\<close>); here it is
  always the latter.
\<close>

definition build_edhoc_message_2 ::
    "('r, 'cred, 'key, 'idc) lakers \<Rightarrow> ('alg, 'imm, 'o, 'opt, 'corr, 'm) liboscore \<Rightarrow>
     ('a, 'cred, 'key, 'idc, 'm) authorities \<Rightarrow> ('m, 'ue) coap \<Rightarrow> ('a, 'r, 'o, 'h) oe_handler \<Rightarrow> 'm \<Rightarrow> cown \<Rightarrow>
     panic + ('a, 'r, 'o, 'h) oe_handler \<times> 'm \<times> ('ue + unit)" where
  "build_edhoc_message_2 lk lo auth cp st response c_r =
     bnd (pool_lookup (auth_level auth) (\<lambda>c. corresponding_cown (recipient_id lo) c = Some c_r)
            (prepare_m2 lk c_r) (ctx_pool st)) (\<lambda>(q, found).
     let st = st\<lparr>ctx_pool := q\<rparr> in
     case found of
       Some (Inl p) \<Rightarrow> Inl p
     | Some (Inr (Inl e)) \<Rightarrow> Inr (st, render_coap_error cp (render_error e) response)
     | None \<Rightarrow> Inr (st, set_code (writable cp) INTERNAL_SERVER_ERROR response)
     | Some (Inr (Inr message_2)) \<Rightarrow>
         bnd (mstep (set_code (writable cp) CHANGED response) (\<lambda>response.
           Inr (set_payload (writable cp) message_2 response))) (\<lambda>r. Inr (st, r)))"

subsection \<open>EDHOC message 3\<close>

text \<open>
  \<open>Option::take\<close> answers the value and leaves \<open>None\<close>.
\<close>

definition option_take :: "'b option \<Rightarrow> 'b option \<times> 'b option" where
  "option_take slot = (slot, None)"

text \<open>The token of an ACE-OAuth EAD item, if it can be processed.\<close>

definition credential_of_token ::
    "minicbor \<Rightarrow> ('r, 'cred, 'key, 'idc) lakers \<Rightarrow> ('a, 'cred, 'key, 'idc, 'm) authorities \<Rightarrow>
     ead_item option \<Rightarrow> panic + ('cred \<times> 'a) option" where
  "credential_of_token mc lk auth ead =
     (case ead of
        None \<Rightarrow> Inr None
      | Some item \<Rightarrow>
          if ead_label item = ead_acetoken then
            (case ead_value item of
               None \<Rightarrow> Inr None
             | Some v \<Rightarrow>
                 bnd (process_edhoc_token mc (max_cred_len lk) (new_ccs lk) auth v) (\<lambda>r.
                   Inr (case r of Inr ci_and_a \<Rightarrow> Some ci_and_a | Inl e \<Rightarrow> None)))
          else Inr None)"

definition edhoc_oscore_context ::
    "('r, 'cred, 'key, 'idc) lakers \<Rightarrow> ('alg, 'imm, 'o, 'opt, 'corr, 'm) liboscore \<Rightarrow> 'r \<Rightarrow> cown \<Rightarrow> bytes \<Rightarrow> panic + 'o" where
  "edhoc_oscore_context lk lo responder c_r c_i =
     (let oscore_secret = take 16 (edhoc_exporter lk responder 0 [] 16);
          oscore_salt = take 8 (edhoc_exporter lk responder 1 [] 8) in
      bnd (unwrap (hkdf_from_number lo HKDF_HMAC256256)) (\<lambda>hkdf.
      bnd (unwrap (aead_from_number lo AES_CCM_16_64_128)) (\<lambda>aead.
      bnd (unwrap (derive_immutables lo hkdf oscore_secret oscore_salt None aead c_i (bytes_of (as_slice c_r))))
        (\<lambda>immutables. Inr (new_from_fresh_material lo immutables)))))"

definition process_message_3 ::
    "minicbor \<Rightarrow> ('r, 'cred, 'key, 'idc) lakers \<Rightarrow> ('alg, 'imm, 'o, 'opt, 'corr, 'm) liboscore \<Rightarrow>
     ('a, 'cred, 'key, 'idc, 'm) authorities \<Rightarrow> bytes \<Rightarrow> 'r \<Rightarrow> cown \<Rightarrow> bytes \<Rightarrow>
     panic + (coap_error + ('a, 'r, 'o) sec_context_state)" where
  "process_message_3 mc lk lo auth msg responder c_r c_i =
     rbnd (Inr (map_err too_small (message_buffer lk msg))) (\<lambda>msg_3.
     rbnd (Inr (map_err render_error (parse_message_3 lk responder msg_3))) (\<lambda>(responder, id_cred_i, ead_3).
     let (taken, ead_3) = option_take ead_3 in
     bnd (credential_of_token mc lk auth taken) (\<lambda>from_token.
     let cred_i_and_authorization =
           (case from_token of None \<Rightarrow> expand_id_cred_x auth id_cred_i | Some ca \<Rightarrow> Some ca) in
     rbnd (Inr (ok_or BadRequest cred_i_and_authorization)) (\<lambda>(cred_i, a).
     if (case ead_3 of None \<Rightarrow> False | Some item \<Rightarrow> ead_is_critical item) then Inr (Inl BadRequest)
     else
       rbnd (Inr (map_err render_error (verify_message_3 lk responder cred_i))) (\<lambda>responder.
       rbnd (Inr (map_err render_error (completed_without_message_4 lk responder))) (\<lambda>responder.
       bnd (edhoc_oscore_context lk lo responder c_r c_i) (\<lambda>context.
       Inr (Inr \<lparr>authorization = Some a, protocol_stage = Oscore context\<rparr>))))))))"

definition process_edhoc_in_payload ::
    "minicbor \<Rightarrow> ('r, 'cred, 'key, 'idc) lakers \<Rightarrow> ('alg, 'imm, 'o, 'opt, 'corr, 'm) liboscore \<Rightarrow>
     ('a, 'cred, 'key, 'idc, 'm) authorities \<Rightarrow> bytes \<Rightarrow> ('a, 'r, 'o) sec_context_state \<Rightarrow>
     panic + (coap_error + ('a, 'r, 'o) sec_context_state \<times> nat)" where
  "process_edhoc_in_payload mc lk lo auth pl c =
     rbnd (Inr (ok_or BadRequest (decode_byte_slice mc pl))) (\<lambda>cutoff.
     case protocol_stage c of
       EdhocResponderSentM2 responder c_r c_i \<Rightarrow>
         if length pl < cutoff then Inl IndexOutOfBounds
         else rbnd (process_message_3 mc lk lo auth (take cutoff pl) responder c_r c_i) (\<lambda>c. Inr (Inr (c, cutoff)))
     | _ \<Rightarrow> Inr (Inr (c, cutoff)))"

subsection \<open>Requests protected by OSCORE\<close>

definition take_context ::
    "('a, 'cred, 'key, 'idc, 'm) authorities \<Rightarrow> ('o \<Rightarrow> bytes) \<Rightarrow> ('a, 'r, 'o, 'h) oe_handler \<Rightarrow> cown \<Rightarrow>
     panic + ('a, 'r, 'o, 'h) oe_handler \<times> ('a, 'r, 'o) sec_context_state option" where
  "take_context auth rid st kid =
     bnd (pool_lookup (auth_level auth) (\<lambda>c. corresponding_cown rid c = Some kid)
            (\<lambda>c. (sec_context_default, c)) (ctx_pool st)) (\<lambda>(q, found).
       Inr (st\<lparr>ctx_pool := q\<rparr>, found))"

text \<open>The closure called on the decrypted request.\<close>

definition check_and_extract ::
    "('a, 'cred, 'key, 'idc, 'm) authorities \<Rightarrow> ('h, 'rd, 'ee, 'be, 'fe, 'm) handler \<Rightarrow> 'a \<Rightarrow> 'h \<Rightarrow> message \<Rightarrow>
     panic + 'h \<times> ('ee + 'rd) authorization_checked" where
  "check_and_extract auth ih a h request =
     bnd (claims_request_is_allowed auth a (request.truncate request)) (\<lambda>allowed.
       if allowed then (let (h, r) = inner_extract ih h request in Inr (h, Allowed r))
       else Inr (h, NotAllowed))"

definition without_edhoc :: "(nat \<times> bytes) list \<Rightarrow> (nat \<times> bytes) list" where
  "without_edhoc opts = filter (\<lambda>(number, _). number \<noteq> opt_edhoc) opts"

text \<open>What follows once the context and its authorization are at hand and have not expired.\<close>

definition unprotect_and_extract ::
    "('alg, 'imm, 'o, 'opt, 'corr, 'm) liboscore \<Rightarrow> ('a, 'cred, 'key, 'idc, 'm) authorities \<Rightarrow>
     ('h, 'rd, 'ee, 'be, 'fe, 'm) handler \<Rightarrow> ('m, 'ue) coap \<Rightarrow> ('a, 'r, 'o, 'h) oe_handler \<Rightarrow> message \<Rightarrow>
     'opt \<Rightarrow> cown \<Rightarrow> 'o \<Rightarrow> 'a \<Rightarrow> nat \<Rightarrow>
     panic + ('a, 'r, 'o, 'h) oe_handler \<times> (coap_error + ('ee + 'rd, 'corr) own_request_data)" where
  "unprotect_and_extract lo auth ih cp st request opt kid ctx a front_trim =
     (let opts = without_edhoc (options request); rest = drop front_trim (payload request) in
      if \<not> options_fit cp EDHOC_COPY_BUFFER_SIZE opts then Inr (st, Inl InternalServerError)
      else if length (payload request) < front_trim then Inl IndexOutOfBounds
      else if \<not> payload_fits cp EDHOC_COPY_BUFFER_SIZE opts rest then Inr (st, Inl InternalServerError)
      else
        let (ctx, decrypted) =
              unprotect_request lo \<lparr>code = code request, options = opts, payload = rest\<rparr> opt ctx;
            kept = \<lparr>authorization = Some a, protocol_stage = Oscore ctx\<rparr> in
        (case decrypted of
           None \<Rightarrow> bnd (store_context auth st kept) (\<lambda>st. Inr (st, Inl CoapUnauthorized))
         | Some (correlation, inner_request) \<Rightarrow>
             bnd (check_and_extract auth ih a (inner st) inner_request) (\<lambda>(h, extracted).
             bnd (store_context auth (st\<lparr>inner := h\<rparr>) kept) (\<lambda>st.
               Inr (st, Inr (EdhocOscoreRequest kid correlation extracted))))))"

text \<open>The taken context has to be an OSCORE context whose authorization has not expired.\<close>

definition continue_oscore ::
    "('alg, 'imm, 'o, 'opt, 'corr, 'm) liboscore \<Rightarrow> ('a, 'cred, 'key, 'idc, 'm) authorities \<Rightarrow>
     ('h, 'rd, 'ee, 'be, 'fe, 'm) handler \<Rightarrow> ('m, 'ue) coap \<Rightarrow> nat \<times> nat option \<Rightarrow>
     ('a, 'r, 'o, 'h) oe_handler \<Rightarrow> message \<Rightarrow> 'opt \<Rightarrow> cown \<Rightarrow> ('a, 'r, 'o) sec_context_state \<times> nat \<Rightarrow>
     panic + ('a, 'r, 'o, 'h) oe_handler \<times> (coap_error + ('ee + 'rd, 'corr) own_request_data)" where
  "continue_oscore lo auth ih cp now st request opt kid taken =
     (case (protocol_stage (fst taken), authorization (fst taken)) of
        (Oscore ctx, Some a) \<Rightarrow>
          if \<not> is_valid_with (claims_time_constraint auth a) now then Inr (st, Inl BadRequest)
          else unprotect_and_extract lo auth ih cp st request opt kid ctx a (snd taken)
      | _ \<Rightarrow> Inr (st, Inl BadRequest))"

definition process_taken ::
    "minicbor \<Rightarrow> ('r, 'cred, 'key, 'idc) lakers \<Rightarrow> ('alg, 'imm, 'o, 'opt, 'corr, 'm) liboscore \<Rightarrow>
     ('a, 'cred, 'key, 'idc, 'm) authorities \<Rightarrow> message \<Rightarrow> bool \<Rightarrow> ('a, 'r, 'o) sec_context_state \<Rightarrow>
     panic + (coap_error + ('a, 'r, 'o) sec_context_state \<times> nat)" where
  "process_taken mc lk lo auth request with_edhoc taken =
     (if with_edhoc then
        (if \<not> HAS_EDHOC auth then Inl UnreachableCode
         else process_edhoc_in_payload mc lk lo auth (payload request) taken)
      else Inr (Inr (taken, 0)))"

definition extract_oscore_edhoc ::
    "minicbor \<Rightarrow> ('r, 'cred, 'key, 'idc) lakers \<Rightarrow> ('alg, 'imm, 'o, 'opt, 'corr, 'm) liboscore \<Rightarrow>
     ('a, 'cred, 'key, 'idc, 'm) authorities \<Rightarrow> ('h, 'rd, 'ee, 'be, 'fe, 'm) handler \<Rightarrow> ('m, 'ue) coap \<Rightarrow>
     nat \<times> nat option \<Rightarrow> ('a, 'r, 'o, 'h) oe_handler \<Rightarrow> message \<Rightarrow> bytes \<Rightarrow> bool \<Rightarrow>
     panic + ('a, 'r, 'o, 'h) oe_handler \<times> (coap_error + ('ee + 'rd, 'corr) own_request_data)" where
  "extract_oscore_edhoc mc lk lo auth ih cp now st request oscore_option with_edhoc =
     leave st (ok_or (BadOption opt_oscore) (parse_option lo oscore_option)) (\<lambda>opt.
     leave st (ok_or (BadOption opt_oscore) (option_kid lo opt)) (\<lambda>kid_bytes.
     leave st (ok_or BadRequest (from_kid (words_of kid_bytes))) (\<lambda>kid.
     bnd (take_context auth (recipient_id lo) st kid) (\<lambda>(st, found).
     leave st (ok_or BadRequest found) (\<lambda>taken.
     bnd (process_taken mc lk lo auth request with_edhoc taken) (\<lambda>r.
     leave st r (continue_oscore lo auth ih cp now st request opt kid)))))))"

text \<open>The closure that writes the inner response: every failure is rendered once or twice, then dropped.\<close>

definition write_response ::
    "('a, 'cred, 'key, 'idc, 'm) authorities \<Rightarrow> ('h, 'rd, 'ee, 'be, 'fe, 'm) handler \<Rightarrow> ('m, 'ue) coap \<Rightarrow>
     'h \<Rightarrow> 'm \<Rightarrow> ('ee + 'rd) authorization_checked \<Rightarrow> 'h \<times> 'm" where
  "write_response auth ih cp h response extracted =
     (case extracted of
        Allowed (Inr data) \<Rightarrow>
          (case inner_build ih h data response of
             (h, response, Inr _) \<Rightarrow> (h, response)
           | (h, response, Inl e) \<Rightarrow>
               (case render_build_error ih e response of
                  (response, Inr _) \<Rightarrow> (h, response)
                | (response, Inl _) \<Rightarrow> (h, set_u8_code cp INTERNAL_SERVER_ERROR response)))
      | Allowed (Inl inner_request_error) \<Rightarrow>
          (case render_extract_error ih inner_request_error response of
             (response, Inr _) \<Rightarrow> (h, response)
           | (response, Inl e) \<Rightarrow>
               (case render_failure ih e response of
                  (response, True) \<Rightarrow> (h, response)
                | (response, False) \<Rightarrow> (h, set_u8_code cp INTERNAL_SERVER_ERROR response)))
      | NotAllowed \<Rightarrow>
          (case render_not_allowed auth response of
             (response, True) \<Rightarrow> (h, response)
           | (response, False) \<Rightarrow> (h, set_u8_code cp UNAUTHORIZED response)))"

text \<open>
  The \<open>f_use\<close> of the second lookup: the context advances, and the result holds the inner handler,
  the response and the error of a context that has vanished.
\<close>

definition protect_in_context ::
    "('alg, 'imm, 'o, 'opt, 'corr, 'm) liboscore \<Rightarrow> ('a, 'cred, 'key, 'idc, 'm) authorities \<Rightarrow>
     ('h, 'rd, 'ee, 'be, 'fe, 'm) handler \<Rightarrow> ('m, 'ue) coap \<Rightarrow> 'h \<Rightarrow> 'm \<Rightarrow> 'corr \<Rightarrow>
     ('ee + 'rd) authorization_checked \<Rightarrow> ('a, 'r, 'o) sec_context_state \<Rightarrow>
     ('a, 'r, 'o) sec_context_state \<times> (panic + 'h \<times> 'm \<times> (coap_error + unit))" where
  "protect_in_context lo auth ih cp h response correlation extracted matched =
     (case protocol_stage matched of
        Oscore ctx \<Rightarrow>
          (case downcast_from cp response of
             None \<Rightarrow> (matched, Inl UnwrapNone)
           | Some response \<Rightarrow>
               let (response, ctx, ok) = protect_begin lo (set_u8_code cp CHANGED response) ctx correlation;
                   matched = matched\<lparr>protocol_stage := Oscore ctx\<rparr> in
               if \<not> ok then (matched, Inr (h, response, Inr ()))
               else
                 let (h, response) = write_response auth ih cp h response extracted;
                     (response, _) = protect_end lo response ctx in
                 (matched, Inr (h, response, Inr ())))
      | _ \<Rightarrow> (matched, Inr (h, response, Inl InternalServerError)))"

text \<open>The error of a response: one of the message (\<open>Inl\<close>) or a \<open>CoAPError\<close> (\<open>Inr\<close>).\<close>

definition build_oscore_response ::
    "('alg, 'imm, 'o, 'opt, 'corr, 'm) liboscore \<Rightarrow> ('a, 'cred, 'key, 'idc, 'm) authorities \<Rightarrow>
     ('h, 'rd, 'ee, 'be, 'fe, 'm) handler \<Rightarrow> ('m, 'ue) coap \<Rightarrow> ('a, 'r, 'o, 'h) oe_handler \<Rightarrow> 'm \<Rightarrow>
     cown \<Rightarrow> 'corr \<Rightarrow> ('ee + 'rd) authorization_checked \<Rightarrow>
     panic + ('a, 'r, 'o, 'h) oe_handler \<times> 'm \<times> (('ue + coap_error) + unit)" where
  "build_oscore_response lo auth ih cp st response kid correlation extracted =
     (case set_code (writable cp) CHANGED response of
        (response, Inl x) \<Rightarrow> Inr (st, response, Inl (Inl x))
      | (response, Inr _) \<Rightarrow>
          bnd (pool_lookup (auth_level auth) (\<lambda>c. corresponding_cown (recipient_id lo) c = Some kid)
                 (protect_in_context lo auth ih cp (inner st) response correlation extracted) (ctx_pool st))
            (\<lambda>(q, found).
          let st = st\<lparr>ctx_pool := q\<rparr> in
          case found of
            None \<Rightarrow> Inr (st, response, Inr ())
          | Some r \<Rightarrow>
              bnd r (\<lambda>(h, response, res). Inr (st\<lparr>inner := h\<rparr>, response, map_err Inr res))))"

subsection \<open>Tokens\<close>

definition extract_token ::
    "minicbor \<Rightarrow> ('alg, 'imm, 'o, 'opt, 'corr, 'm) liboscore \<Rightarrow> ('a, 'cred, 'key, 'idc, 'm) authorities \<Rightarrow>
     bytes \<Rightarrow> ('a, 'r, 'o, 'h) oe_handler \<Rightarrow> bytes \<Rightarrow>
     panic + ('a, 'r, 'o, 'h) oe_handler \<times> (coap_error + authz_info_response)" where
  "extract_token mc lo auth own_nonce st pl =
     bnd (process_acecbor_authz_info mc lo auth pl own_nonce
            (\<lambda>peer. cown_but_not (recipient_id lo) (ctx_pool st) peer)) (\<lambda>r.
     leave st (map_err (\<lambda>e. case err_position e of None \<Rightarrow> BadRequest | Some p \<Rightarrow> BadRequestRbep p) r)
       (\<lambda>(response, oscore, generalclaims).
     bnd (store_context auth st \<lparr>authorization = Some generalclaims, protocol_stage = Oscore oscore\<rparr>)
       (\<lambda>st. Inr (st, Inr response))))"

subsection \<open>Recognising a request by its options\<close>

datatype recognition =
    Start
  | SeenOscore bytes   \<comment> \<open>\<open>Oscore\<close>\<close>
  | SeenEdhoc bytes   \<comment> \<open>\<open>Edhoc\<close>\<close>
  | WellKnown
  | WellKnownEdhoc
  | AuthzInfo
  | Unencrypted

definition OSCORE_OPTION_LEN :: nat where
  "OSCORE_OPTION_LEN = 16"

definition recognition_update ::
    "('a, 'cred, 'key, 'idc, 'm) authorities \<Rightarrow> recognition \<Rightarrow> nat \<times> bytes \<Rightarrow> recognition \<times> bool" where
  "recognition_update auth state opt =
     (case state of
        Start \<Rightarrow>
          if fst opt = opt_oscore \<and> has_oscore auth then
            (if length (snd opt) \<le> OSCORE_OPTION_LEN then (SeenOscore (snd opt), False) else (Start, True))
          else if fst opt = uri_path \<and> snd opt = ''.well-known'' \<and> HAS_EDHOC auth then (WellKnown, False)
          else if fst opt = uri_path \<and> snd opt = ''authz-info'' \<and> PARSES_TOKENS auth then (AuthzInfo, False)
          else if fst opt = uri_path then (Unencrypted, True)
          else (Start, True)
      | SeenOscore oscore \<Rightarrow>
          if fst opt = opt_edhoc \<and> snd opt = [] \<and> HAS_EDHOC auth then (SeenEdhoc oscore, True)
          else (state, True)
      | WellKnown \<Rightarrow>
          if fst opt = uri_path \<and> snd opt = ''edhoc'' \<and> HAS_EDHOC auth then (WellKnownEdhoc, False)
          else (state, True)
      | AuthzInfo \<Rightarrow>
          if (fst opt = opt_content_format \<or> fst opt = opt_accept) \<and> snd opt = [CHR 0x13] \<and> PARSES_TOKENS auth
          then (AuthzInfo, False)
          else (state, True)
      | _ \<Rightarrow> (state, True))"

definition errors_handled_here :: "recognition \<Rightarrow> bool" where
  "errors_handled_here state =
     (case state of
        WellKnownEdhoc \<Rightarrow> True
      | AuthzInfo \<Rightarrow> True
      | _ \<Rightarrow> False)"

text \<open>
  The options are filtered lazily, and checking what remains ends at the first rejected option, so
  the state is the one reached there.
\<close>

fun recognise ::
    "('a, 'cred, 'key, 'idc, 'm) authorities \<Rightarrow> (nat \<times> bytes \<Rightarrow> coap_error option) \<Rightarrow> recognition \<Rightarrow>
     (nat \<times> bytes) list \<Rightarrow> recognition \<times> (coap_error + unit)" where
  "recognise auth rejects state [] = (state, Inr ())"
| "recognise auth rejects state (opt # opts) =
     (let (new_state, remains) = recognition_update auth state opt in
      case (if remains then rejects opt else None) of
        Some e \<Rightarrow> (new_state, Inl e)
      | None \<Rightarrow> recognise auth rejects new_state opts)"

subsection \<open>The three methods of the handler\<close>

definition require_post :: "message \<Rightarrow> coap_error + unit" where
  "require_post request = (if code request = POST then Inr () else Inl MethodNotAllowed)"

text \<open>The plain path: the scope of unauthenticated peers decides.\<close>

definition nosec_allows ::
    "('a, 'cred, 'key, 'idc, 'm) authorities \<Rightarrow> nat \<times> nat option \<Rightarrow> message \<Rightarrow> panic + bool" where
  "nosec_allows auth now request =
     (case nosec_authorization auth of
        None \<Rightarrow> Inr False
      | Some s \<Rightarrow>
          bnd (claims_request_is_allowed auth s (request.truncate request)) (\<lambda>allowed.
            Inr (allowed \<and> is_valid_with (claims_time_constraint auth s) now)))"

definition own_result ::
    "panic + 's \<times> (coap_error + 'own) \<Rightarrow> panic + 's \<times> ((coap_error, 'ee) or_inner + ('own, 'inn) or_inner)" where
  "own_result m = bnd m (\<lambda>(st, r). Inr (st, case r of Inl e \<Rightarrow> Inl (Own e) | Inr d \<Rightarrow> Inr (Own d)))"

definition extract_request_data ::
    "minicbor \<Rightarrow> ('r, 'cred, 'key, 'idc) lakers \<Rightarrow> ('alg, 'imm, 'o, 'opt, 'corr, 'm) liboscore \<Rightarrow>
     ('a, 'cred, 'key, 'idc, 'm) authorities \<Rightarrow> ('h, 'rd, 'ee, 'be, 'fe, 'm) handler \<Rightarrow> ('m, 'ue) coap \<Rightarrow>
     nat \<times> nat option \<Rightarrow> bytes \<Rightarrow> ('a, 'r, 'o, 'h) oe_handler \<Rightarrow> message \<Rightarrow>
     panic + ('a, 'r, 'o, 'h) oe_handler \<times>
       ((coap_error, 'ee) or_inner + (('ee + 'rd, 'corr) own_request_data, 'rd authorization_checked) or_inner)" where
  "extract_request_data mc lk lo auth ih cp now own_nonce st request =
     (case recognise auth (not_ignored cp) Start (options request) of
        (state, extra_options) \<Rightarrow>
          (case (if errors_handled_here state then extra_options else Inr ()) of
             Inl e \<Rightarrow> Inr (st, Inl (Own e))
           | Inr _ \<Rightarrow>
               (case state of
                  WellKnownEdhoc \<Rightarrow>
                    if \<not> HAS_EDHOC auth then Inl UnreachableCode
                    else own_result (leave st (require_post request) (\<lambda>_. extract_edhoc lk lo auth st request))
                | AuthzInfo \<Rightarrow>
                    if \<not> PARSES_TOKENS auth then Inl UnreachableCode
                    else own_result (leave st (require_post request) (\<lambda>_.
                      bnd (extract_token mc lo auth own_nonce st (payload request)) (\<lambda>(st, r).
                        Inr (st, bnd r (\<lambda>resp. Inr (ProcessedToken resp))))))
                | SeenEdhoc oscore \<Rightarrow>
                    if \<not> HAS_EDHOC auth then Inl UnreachableCode
                    else own_result (extract_oscore_edhoc mc lk lo auth ih cp now st request oscore True)
                | SeenOscore oscore \<Rightarrow>
                    if \<not> has_oscore auth then Inl UnreachableCode
                    else own_result (extract_oscore_edhoc mc lk lo auth ih cp now st request oscore False)
                | _ \<Rightarrow>
                    bnd (nosec_allows auth now request) (\<lambda>allowed.
                      if allowed then
                        (case inner_extract ih (inner st) request of
                           (h, Inl e) \<Rightarrow> Inr (st\<lparr>inner := h\<rparr>, Inl (Inner e))
                         | (h, Inr extracted) \<Rightarrow> Inr (st\<lparr>inner := h\<rparr>, Inr (Inner (Allowed extracted))))
                      else Inr (st, Inr (Inner NotAllowed))))))"

definition estimate_length ::
    "('r, 'cred, 'key, 'idc) lakers \<Rightarrow> ('h, 'rd, 'ee, 'be, 'fe, 'm) handler \<Rightarrow> ('a, 'r, 'o, 'h) oe_handler \<Rightarrow>
     (('ee + 'rd, 'corr) own_request_data, 'rd authorization_checked) or_inner \<Rightarrow> nat" where
  "estimate_length lk ih st req =
     (case req of
        Own _ \<Rightarrow> 2 + max_buffer_len lk
      | Inner (Allowed i) \<Rightarrow> inner_estimate ih (inner st) i
      | Inner NotAllowed \<Rightarrow> 1)"

definition build_response ::
    "minicbor \<Rightarrow> ('r, 'cred, 'key, 'idc) lakers \<Rightarrow> ('alg, 'imm, 'o, 'opt, 'corr, 'm) liboscore \<Rightarrow>
     ('a, 'cred, 'key, 'idc, 'm) authorities \<Rightarrow> ('h, 'rd, 'ee, 'be, 'fe, 'm) handler \<Rightarrow> ('m, 'ue) coap \<Rightarrow>
     ('a, 'r, 'o, 'h) oe_handler \<Rightarrow> 'm \<Rightarrow>
     (('ee + 'rd, 'corr) own_request_data, 'rd authorization_checked) or_inner \<Rightarrow>
     panic + ('a, 'r, 'o, 'h) oe_handler \<times> 'm \<times> (('ue + coap_error, 'be) or_inner + unit)" where
  "build_response mc lk lo auth ih cp st response req =
     (case req of
        Own (EdhocOkSend2 c_r) \<Rightarrow>
          if \<not> HAS_EDHOC auth then Inl UnreachableCode
          else bnd (build_edhoc_message_2 lk lo auth cp st response c_r) (\<lambda>(st, m, r).
            Inr (st, m, map_err (\<lambda>e. Own (Inl e)) r))
      | Own (ProcessedToken resp) \<Rightarrow>
          if \<not> PARSES_TOKENS auth then Inl UnreachableCode
          else bnd (render_authz_info mc (writable cp) resp response) (\<lambda>(m, r).
            Inr (st, m, map_err (\<lambda>e. Own (Inl e)) r))
      | Own (EdhocOscoreRequest kid correlation extracted) \<Rightarrow>
          if \<not> has_oscore auth then Inl UnreachableCode
          else bnd (build_oscore_response lo auth ih cp st response kid correlation extracted) (\<lambda>(st, m, r).
            Inr (st, m, map_err Own r))
      | Inner (Allowed i) \<Rightarrow>
          (case inner_build ih (inner st) i response of
             (h, m, r) \<Rightarrow> Inr (st\<lparr>inner := h\<rparr>, m, map_err Inner r))
      | Inner NotAllowed \<Rightarrow>
          (case render_not_allowed auth response of
             (m, True) \<Rightarrow> Inr (st, m, Inr ())
           | (m, False) \<Rightarrow> Inr (st, m, Inl (Own (Inr CoapUnauthorized)))))"

end
