(* ===== verification/SecInvariant.thy ===== *)
theory SecInvariant
  imports SecContext
begin

section \<open>What the security contexts in the pool satisfy\<close>

text \<open>
  The invariant of the wrapping handler: the pool is well-formed, own identifiers are pairwise
  distinct and valid, an OSCORE context has an authorization, and all authorizations satisfy the
  predicate \<open>good\<close> an implementation of \<open>ServerSecurityConfig\<close> guarantees.  Each operation is
  shown to keep it, with the conditions under which it does not panic.
\<close>

subsection \<open>Identifiers of a list of contexts\<close>

definition cowns :: "('o \<Rightarrow> bytes) \<Rightarrow> ('a, 'r, 'o) sec_context_state list \<Rightarrow> cown list" where
  "cowns rid xs = List.map_filter (corresponding_cown rid) xs"

lemma cowns_simps [simp]:
  "cowns rid [] = []"
  "cowns rid (c # xs) = (case corresponding_cown rid c of None \<Rightarrow> cowns rid xs | Some k \<Rightarrow> k # cowns rid xs)"
  "cowns rid (xs @ ys) = cowns rid xs @ cowns rid ys"
  by (auto simp: cowns_def map_filter_def split: option.splits)

lemma in_cowns: "k \<in> set (cowns rid xs) \<longleftrightarrow> (\<exists>c\<in>set xs. corresponding_cown rid c = Some k)"
  by (induction xs) (auto split: option.splits)

lemma mset_cowns: "mset xs = mset ys \<Longrightarrow> mset (cowns rid xs) = mset (cowns rid ys)"
  by (simp add: cowns_def map_filter_def)

lemma distinct_cowns: "mset xs = mset ys \<Longrightarrow> distinct (cowns rid xs) \<longleftrightarrow> distinct (cowns rid ys)"
  by (rule mset_eq_imp_distinct_iff) (rule mset_cowns)

lemma distinct_place_cowns: "distinct (cowns rid (place level c xs)) \<longleftrightarrow> distinct (cowns rid (c # xs))"
  by (rule distinct_cowns) (simp add: mset_place)

lemma distinct_replace:
  assumes "distinct (cowns rid (as @ c # bs))" "corresponding_cown rid c' \<in> {None, corresponding_cown rid c}"
  shows "distinct (cowns rid (c' # as @ bs))"
proof -
  have "distinct (cowns rid (c # as @ bs))"
    using assms(1) distinct_cowns[of "as @ c # bs" "c # as @ bs" rid] by simp
  then show ?thesis
    using assms(2) by (auto split: option.splits)
qed

lemma default_context [simp]:
  "corresponding_cown rid sec_context_default = None" "protocol_stage sec_context_default = Empty"
  "authorization sec_context_default = None"
  by (simp_all add: sec_context_default_def corresponding_cown_def)

subsection \<open>The invariant\<close>

definition ctx_ok :: "('a \<Rightarrow> bool) \<Rightarrow> ('o \<Rightarrow> bytes) \<Rightarrow> ('a, 'r, 'o) sec_context_state \<Rightarrow> bool" where
  "ctx_ok good rid c \<longleftrightarrow>
     (case authorization c of None \<Rightarrow> True | Some a \<Rightarrow> good a) \<and>
     (case protocol_stage c of
        Empty \<Rightarrow> True
      | EdhocResponderProcessedM1 _ c_r _ _ \<Rightarrow> from_kid [c_r] = Some c_r
      | EdhocResponderSentM2 _ c_r _ \<Rightarrow> from_kid [c_r] = Some c_r
      | Oscore ctx \<Rightarrow> authorization c \<noteq> None \<and> from_kid (words_of (rid ctx)) \<noteq> None)"

definition pool_inv ::
    "('a, 'cred, 'key, 'idc, 'm) authorities \<Rightarrow> ('a \<Rightarrow> bool) \<Rightarrow> ('o \<Rightarrow> bytes) \<Rightarrow>
     ('a, 'r, 'o) sec_context_state pool \<Rightarrow> ('a, 'r, 'o) sec_context_state list \<Rightarrow> bool" where
  "pool_inv auth good rid q xs \<longleftrightarrow>
     pool_rep (auth_level auth) MAX_CONTEXTS q xs \<and> (\<forall>c\<in>set xs. ctx_ok good rid c) \<and> distinct (cowns rid xs)"

definition handler_inv ::
    "('a, 'cred, 'key, 'idc, 'm) authorities \<Rightarrow> ('a \<Rightarrow> bool) \<Rightarrow> ('o \<Rightarrow> bytes) \<Rightarrow> ('a, 'r, 'o, 'h) oe_handler \<Rightarrow> bool" where
  "handler_inv auth good rid st \<longleftrightarrow> (\<exists>xs. pool_inv auth good rid (ctx_pool st) xs)"

lemma ctx_ok_default [simp]: "ctx_ok good rid sec_context_default"
  by (simp add: ctx_ok_def)

lemma context_level_less: "context_level imp c < LEVEL_COUNT"
  by (simp add: context_level_def level_defs split: sec_context_stage.splits)

subsection \<open>Inserting and looking up\<close>

lemma force_insert_inv:
  assumes inv: "pool_inv auth good rid q xs" and c: "ctx_ok good rid c"
    and fresh: "\<forall>k. corresponding_cown rid c = Some k \<longrightarrow> k \<notin> set (cowns rid xs)"
  shows "\<exists>q'. pool_force_insert (auth_level auth) MAX_CONTEXTS q c =
      Inr (q', snd (spec_force_insert (auth_level auth) MAX_CONTEXTS c xs)) \<and>
    pool_inv auth good rid q' (fst (spec_force_insert (auth_level auth) MAX_CONTEXTS c xs))"
proof -
  let ?l = "auth_level auth"
  have rep: "pool_rep ?l MAX_CONTEXTS q xs" and ok: "\<forall>c\<in>set xs. ctx_ok good rid c" and d: "distinct (cowns rid xs)"
    using inv by (simp_all add: pool_inv_def)
  obtain q' where q': "pool_force_insert ?l MAX_CONTEXTS q c = Inr (q', snd (spec_force_insert ?l MAX_CONTEXTS c xs))"
    "pool_rep ?l MAX_CONTEXTS q' (fst (spec_force_insert ?l MAX_CONTEXTS c xs))"
    using pool_force_insert_rep[OF rep, of c] by (auto simp: MAX_CONTEXTS_def)
  define ys where "ys = (if length xs < MAX_CONTEXTS then xs else butlast xs)"
  then have ys: "fst (spec_force_insert ?l MAX_CONTEXTS c xs) = place ?l c ys" "ys = xs \<or> ys = butlast xs"
    by (simp_all add: spec_force_insert_def)
  have "distinct (cowns rid ys) \<and> set (cowns rid ys) \<subseteq> set (cowns rid xs)"
  proof (cases "xs = []")
    case False
    then have "cowns rid xs = cowns rid (butlast xs) @ cowns rid [last xs]"
      using cowns_simps(3)[of rid "butlast xs" "[last xs]"] by simp
    then show ?thesis
      using d ys(2) by auto
  qed (use ys(2) in auto)
  then have "distinct (cowns rid (c # ys))"
    using fresh by (auto split: option.splits)
  moreover have "set ys \<subseteq> set xs"
    using ys(2) by (auto dest: in_set_butlastD)
  then have "\<forall>e\<in>set (place ?l c ys). ctx_ok good rid e"
    using ok c by (auto simp: set_place)
  ultimately have "pool_inv auth good rid q' (place ?l c ys)"
    using q'(2) ys(1) by (simp add: pool_inv_def distinct_place_cowns)
  then show ?thesis
    using q'(1) ys(1) by auto
qed

lemma lookup_inv:
  assumes inv: "pool_inv auth good rid q xs"
    and f_use: "\<forall>e\<in>set xs. f_test e \<longrightarrow> ctx_ok good rid (fst (f_use e)) \<and>
      corresponding_cown rid (fst (f_use e)) \<in> {None, corresponding_cown rid e}"
  shows "\<exists>q'. pool_lookup (auth_level auth) f_test f_use q = Inr (q', snd (spec_lookup (auth_level auth) f_test f_use xs)) \<and>
    pool_inv auth good rid q' (fst (spec_lookup (auth_level auth) f_test f_use xs))"
proof -
  let ?l = "auth_level auth"
  have rep: "pool_rep ?l MAX_CONTEXTS q xs" and ok: "\<forall>c\<in>set xs. ctx_ok good rid c" and d: "distinct (cowns rid xs)"
    using inv by (simp_all add: pool_inv_def)
  obtain q' where q': "pool_lookup ?l f_test f_use q = Inr (q', snd (spec_lookup ?l f_test f_use xs))"
    "pool_rep ?l MAX_CONTEXTS q' (fst (spec_lookup ?l f_test f_use xs))"
    using pool_lookup_rep[OF rep] by blast
  have "(\<forall>c\<in>set (fst (spec_lookup ?l f_test f_use xs)). ctx_ok good rid c) \<and>
      distinct (cowns rid (fst (spec_lookup ?l f_test f_use xs)))"
  proof (cases "dropWhile (Not \<circ> f_test) xs")
    case Nil
    then show ?thesis
      unfolding spec_lookup_def Nil using ok d by simp
  next
    case (Cons e bs)
    let ?as = "takeWhile (Not \<circ> f_test) xs"
    have xs: "xs = ?as @ e # bs"
      using takeWhile_dropWhile_id[of "Not \<circ> f_test" xs] Cons by simp
    have "f_test e"
      using hd_dropWhile[of "Not \<circ> f_test" xs] Cons by simp
    then have u: "ctx_ok good rid (fst (f_use e))"
      "corresponding_cown rid (fst (f_use e)) \<in> {None, corresponding_cown rid e}"
      using f_use xs by (metis in_set_conv_decomp)+
    have "distinct (cowns rid (fst (f_use e) # ?as @ bs))"
      by (rule distinct_replace[OF _ u(2)]) (use d xs in simp)
    moreover have "set ?as \<subseteq> set xs" "set bs \<subseteq> set xs"
      using xs by (metis set_append Un_upper1, metis Un_upper2 list.set_intros(2) set_append subsetI subset_trans)
    then have "\<forall>c\<in>set (place ?l (fst (f_use e)) (?as @ bs)). ctx_ok good rid c"
      using ok u(1) unfolding set_place by auto
    ultimately show ?thesis
      unfolding spec_lookup_def Cons by (simp add: distinct_place_cowns)
  qed
  then show ?thesis
    using q' by (auto simp: pool_inv_def)
qed

subsection \<open>Choosing an identifier\<close>

lemma pool_inv_entries:
  assumes "pool_inv auth good rid q xs"
  shows "set (entries q) = set xs" "length (entries q) = length xs" "length xs \<le> MAX_CONTEXTS"
proof -
  have rep: "pool_rep (auth_level auth) MAX_CONTEXTS q xs"
    using assms by (simp add: pool_inv_def)
  then show l: "length (entries q) = length xs"
    using pool_view_length by blast
  have wf: "pool_wf MAX_CONTEXTS q" and xs: "xs = map ((!) (entries q)) (sorted_idx q)"
    using rep by (simp_all add: pool_rep_def pool_view_def)
  then show "length xs \<le> MAX_CONTEXTS"
    using l by (simp add: pool_wf_def)
  have "set (sorted_idx q) = {..<length (entries q)}"
    using wf by (simp add: pool_wf_def)
  then have "set xs = (!) (entries q) ` {0..<length (entries q)}"
    using arg_cong[OF xs, of set] by (simp add: lessThan_atLeast0)
  then show "set (entries q) = set xs"
    by (simp add: nth_image)
qed

lemma cown_but_not_fresh:
  assumes inv: "pool_inv auth good rid q xs"
  shows "\<exists>c. cown_but_not rid q peer = Inr c \<and> c \<notin> set (cowns rid xs) \<and> from_kid (words_of peer) \<noteq> Some c \<and>
    from_kid [c] = Some c"
proof -
  define ps where "ps = (case from_kid (words_of peer) of None \<Rightarrow> [] | Some c \<Rightarrow> [c])"
  have ps: "length ps \<le> 1" "from_kid (words_of peer) = Some c \<Longrightarrow> c \<in> set ps" for c
    by (simp_all add: ps_def split: option.splits)
  have e: "set (entries q) = set xs" "length (entries q) \<le> 4"
    using pool_inv_entries[OF inv] by (simp_all add: MAX_CONTEXTS_def)
  have "length (pool_cowns rid q) \<le> length (entries q)"
    by (simp add: pool_cowns_def pool_iter_def map_filter_def)
  then have l: "length (pool_cowns rid q @ ps) < 48" "length (pool_iter q) + length ps < generatable_values"
    using e(2) ps(1) by (simp_all add: pool_iter_def generatable_values_def)
  have s: "set (pool_cowns rid q) = set (cowns rid xs)"
    using e(1) by (simp add: pool_cowns_def pool_iter_def cowns_def map_filter_def)
  obtain c where "not_in_iter (Some (length (pool_iter q) + length ps)) (pool_cowns rid q @ ps) = Inr c"
    "c \<notin> set (pool_cowns rid q @ ps)" "from_kid [c] = Some c"
    using not_in_iter_fresh[OF refl l(2) l(1)] by blast
  then show ?thesis
    using ps(2) s by (intro exI[of _ c]) (auto simp: cown_but_not_def ps_def[symmetric] simp del: from_kid.simps)
qed

subsection \<open>Assumptions on the other crates\<close>

text \<open>
  What \<open>liboscore\<close> documents of recipient identifiers: a derived context has the one it was given,
  and using a context does not change it.
\<close>

definition liboscore_ok :: "('alg, 'imm, 'o, 'opt, 'corr, 'm) liboscore \<Rightarrow> bool" where
  "liboscore_ok lo \<longleftrightarrow>
     (\<forall>hkdf ms salt cid aead s r imm. derive_immutables lo hkdf ms salt cid aead s r = Some imm \<longrightarrow>
        recipient_id lo (new_from_fresh_material lo imm) = r) \<and>
     (\<forall>msg opt ctx. recipient_id lo (fst (unprotect_request lo msg opt ctx)) = recipient_id lo ctx) \<and>
     (\<forall>m ctx corr. recipient_id lo (fst (snd (protect_begin lo m ctx corr))) = recipient_id lo ctx)"

text \<open>
  What the handler relies on in order not to panic: the scope check of a good authorization returns
  for every request code but 0.00, a decoder's position is inside its input, the credential buffer
  takes the prefix, the algorithms EDHOC settles on are supported, and the protected requests that
  are accepted have a code other than 0.00.
\<close>

definition scopes_total :: "('a, 'cred, 'key, 'idc, 'm) authorities \<Rightarrow> ('a \<Rightarrow> bool) \<Rightarrow> bool" where
  "scopes_total auth good \<longleftrightarrow>
     (\<forall>a r. good a \<and> code r \<noteq> 0 \<longrightarrow> (\<exists>b. claims_request_is_allowed auth a r = Inr b))"

definition crates_total ::
    "minicbor \<Rightarrow> ('r, 'cred, 'key, 'idc) lakers \<Rightarrow> ('alg, 'imm, 'o, 'opt, 'corr, 'm) liboscore \<Rightarrow> bool" where
  "crates_total mc lk lo \<longleftrightarrow>
     (\<forall>bs n. decode_byte_slice mc bs = Some n \<longrightarrow> n \<le> length bs) \<and> 4 \<le> max_cred_len lk \<and>
     hkdf_from_number lo HKDF_HMAC256256 \<noteq> None \<and> aead_from_number lo AES_CCM_16_64_128 \<noteq> None \<and>
     (\<forall>hkdf ms salt cid aead s r. derive_immutables lo hkdf ms salt cid aead s r \<noteq> None) \<and>
     (\<forall>msg opt ctx ctx' corr request. unprotect_request lo msg opt ctx = (ctx', Some (corr, request)) \<longrightarrow> code request \<noteq> 0)"

definition contracts ::
    "('a, 'cred, 'key, 'idc, 'm) authorities \<Rightarrow> ('a \<Rightarrow> bool) \<Rightarrow> minicbor \<Rightarrow> ('r, 'cred, 'key, 'idc) lakers \<Rightarrow>
     ('alg, 'imm, 'o, 'opt, 'corr, 'm) liboscore \<Rightarrow> bool" where
  "contracts auth good mc lk lo \<longleftrightarrow> scopes_total auth good \<and> crates_total mc lk lo"

text \<open>
  The law the handler needs of every configuration: whatever authorization it hands out is good.
\<close>

locale sound_authority =
  fixes auth :: "('a, 'cred, 'key, 'idc, 'm) authorities" and good :: "'a \<Rightarrow> bool"
  assumes decrypt_good: "decrypt_symmetric_token auth headers aad buffer = Inr (a, claims) \<Longrightarrow> good a"
    and verify_good: "verify_asymmetric_token auth headers sd signature_bytes pl = Inr (a, claims) \<Longrightarrow> good a"
    and expand_good: "expand_id_cred_x auth id_cred_x = Some (cred, a) \<Longrightarrow> good a"
    and nosec_good: "nosec_authorization auth = Some a \<Longrightarrow> good a"
begin

lemma store_outcome:
  assumes "pool_inv auth good rid (ctx_pool st) xs" "ctx_ok good rid c"
    and "\<And>k. corresponding_cown rid c = Some k \<Longrightarrow> k \<notin> set (cowns rid xs)"
  shows "outcome bad (store_context auth st c) (\<lambda>st'. inner st' = inner st \<and>
    pool_inv auth good rid (ctx_pool st') (fst (spec_force_insert (auth_level auth) MAX_CONTEXTS c xs)))"
  using force_insert_inv[OF assms(1,2)] assms(3) by (auto simp: store_context_def)

lemma store_outcome_inv:
  assumes "pool_inv auth good rid (ctx_pool st) xs" "ctx_ok good rid c"
    and "\<And>k. corresponding_cown rid c = Some k \<Longrightarrow> k \<notin> set (cowns rid xs)"
  shows "outcome bad (store_context auth st c) (\<lambda>st'. handler_inv auth good rid st' \<and> inner st' = inner st)"
  by (rule outcome_mono[OF store_outcome[OF assms]]) (auto simp: handler_inv_def)

text \<open>Taking a context out leaves an empty one, and the identifier is free.\<close>

lemma take_outcome:
  assumes inv: "pool_inv auth good rid (ctx_pool st) xs"
  shows "outcome bad (take_context auth rid st kid) (\<lambda>(st', found). inner st' = inner st \<and>
    (case found of
       None \<Rightarrow> pool_inv auth good rid (ctx_pool st') xs
     | Some c \<Rightarrow> ctx_ok good rid c \<and> corresponding_cown rid c = Some kid \<and>
         (\<exists>as bs. xs = as @ c # bs \<and> kid \<notin> set (cowns rid (as @ bs)) \<and>
           pool_inv auth good rid (ctx_pool st') (place (auth_level auth) sec_context_default (as @ bs)))))"
proof -
  let ?l = "auth_level auth" and ?t = "\<lambda>c. corresponding_cown rid c = Some kid"
  obtain q' where q': "pool_lookup ?l ?t (\<lambda>c. (sec_context_default, c)) (ctx_pool st) =
      Inr (q', snd (spec_lookup ?l ?t (\<lambda>c. (sec_context_default, c)) xs))"
    "pool_inv auth good rid q' (fst (spec_lookup ?l ?t (\<lambda>c. (sec_context_default, c)) xs))"
    using lookup_inv[OF inv, of ?t "\<lambda>c. (sec_context_default, c)"] by auto
  show ?thesis
  proof (cases "dropWhile (Not \<circ> ?t) xs")
    case Nil
    then show ?thesis
      using q' unfolding spec_lookup_def Nil by (simp add: take_context_def)
  next
    case (Cons c bs)
    let ?as = "takeWhile (Not \<circ> ?t) xs"
    have xs: "xs = ?as @ c # bs"
      using takeWhile_dropWhile_id[of "Not \<circ> ?t" xs] Cons by simp
    have c: "corresponding_cown rid c = Some kid"
      using hd_dropWhile[of "Not \<circ> ?t" xs] Cons by simp
    have "distinct (cowns rid (?as @ c # bs))" "ctx_ok good rid c"
      using inv xs by (simp add: pool_inv_def, metis in_set_conv_decomp inv pool_inv_def xs)
    then have "kid \<notin> set (cowns rid (?as @ bs))" "ctx_ok good rid c"
      using c by auto
    moreover have "pool_lookup ?l ?t (\<lambda>c. (sec_context_default, c)) (ctx_pool st) = Inr (q', Some c)"
      "pool_inv auth good rid q' (place ?l sec_context_default (?as @ bs))"
      using q' unfolding spec_lookup_def Cons by simp_all
    ultimately show ?thesis
      using c xs by (simp add: take_context_def) blast
  qed
qed

lemma take_found:
  assumes inv: "pool_inv auth good rid (ctx_pool st) xs" and t: "take_context auth rid st kid = Inr (st', Some c)"
  shows "c \<in> set (pool_iter (ctx_pool st))" "inner st' = inner st"
proof -
  have t': "inner st' = inner st \<and> (\<exists>as bs. xs = as @ c # bs)"
    using outcome_InrD[OF take_outcome[OF inv, where bad = True] t] unfolding prod.case option.case by blast
  then have "c \<in> set xs"
    by (metis in_set_conv_decomp)
  then show "c \<in> set (pool_iter (ctx_pool st))"
    by (simp add: pool_iter_def pool_inv_entries(1)[OF inv])
  show "inner st' = inner st"
    using t' by (rule conjunct1)
qed

lemma token_good:
  assumes "process_edhoc_token mc n ccs auth ead3 = Inr (Inr (cred, a))"
  shows "good a"
proof -
  obtain claims where "token_claims mc auth ead3 = Inr (a, claims)"
    using assms unfolding process_edhoc_token_def by (auto simp: result_simps)
  then have "(\<exists>headers aad buffer. decrypt_symmetric_token auth headers aad buffer = Inr (a, claims)) \<or>
      (\<exists>headers sd sig pl. verify_asymmetric_token auth headers sd sig pl = Inr (a, claims))"
    unfolding token_claims_def Let_def by (auto simp: result_simps split: option.splits)
  then show ?thesis
    using decrypt_good verify_good by auto
qed

lemma token_outcome:
  "outcome (max_cred < 4) (process_edhoc_token mc max_cred ccs auth ead3) (\<lambda>r. \<forall>cred a. r = Inr (cred, a) \<longrightarrow> good a)"
proof (cases "process_edhoc_token mc max_cred ccs auth ead3")
  case (Inl p)
  then show ?thesis
    by (auto simp: process_edhoc_token_def rbnd_def token_credential_def panic_simps ccs_prefix_def
        split: sum.splits option.splits if_splits prod.splits) (metis old.sum.exhaust)+
next
  case (Inr r)
  then show ?thesis
    using token_good by auto
qed

end

subsection \<open>Extracting a request\<close>

definition is_processed_m1 :: "('a, 'r, 'o) sec_context_state \<Rightarrow> bool" where
  "is_processed_m1 c \<longleftrightarrow> (\<exists>r c_r c_i v. protocol_stage c = EdhocResponderProcessedM1 r c_r c_i v)"

text \<open>
  The request data of a response about to be built: its kind is one the configuration has, the
  context a message 2 is prepared from is still in that stage, and a nonce has its fixed length.
\<close>

definition ready ::
    "('a, 'cred, 'key, 'idc, 'm) authorities \<Rightarrow> ('o \<Rightarrow> bytes) \<Rightarrow> ('a, 'r, 'o, 'h) oe_handler \<Rightarrow>
     ('x, 'corr) own_request_data \<Rightarrow> bool" where
  "ready auth rid st d \<longleftrightarrow>
     (case d of
        EdhocOkSend2 c_r \<Rightarrow> HAS_EDHOC auth \<and>
          (\<forall>c\<in>set (pool_iter (ctx_pool st)). corresponding_cown rid c = Some c_r \<longrightarrow> is_processed_m1 c)
      | EdhocOscoreRequest _ _ _ \<Rightarrow> has_oscore auth
      | ProcessedToken resp \<Rightarrow> PARSES_TOKENS auth \<and> length (resp_nonce2 resp) = OWN_NONCE_LEN)"

text \<open>The kinds of request a configuration knows.\<close>

definition supported :: "('a, 'cred, 'key, 'idc, 'm) authorities \<Rightarrow> recognition \<Rightarrow> bool" where
  "supported auth s \<longleftrightarrow>
     (case s of
        Start \<Rightarrow> True
      | SeenOscore _ \<Rightarrow> has_oscore auth
      | SeenEdhoc _ \<Rightarrow> HAS_EDHOC auth
      | WellKnown \<Rightarrow> HAS_EDHOC auth
      | WellKnownEdhoc \<Rightarrow> HAS_EDHOC auth
      | AuthzInfo \<Rightarrow> PARSES_TOKENS auth
      | Unencrypted \<Rightarrow> True)"

lemma update_supported: "supported auth s \<Longrightarrow> supported auth (fst (recognition_update auth s opt))"
  by (auto simp: supported_def recognition_update_def split: recognition.splits)

lemma recognise_supported: "supported auth s \<Longrightarrow> supported auth (fst (recognise auth rejects s opts))"
proof (induction opts arbitrary: s)
  case (Cons opt opts)
  then show ?case
    using update_supported[OF Cons.prems, of opt] by (auto split: option.split prod.splits)
qed simp

lemma own_result_outcome:
  "outcome bad m (\<lambda>(st, r). Q (st, case r of Inl e \<Rightarrow> Inl (Own e) | Inr d \<Rightarrow> Inr (Own d))) \<Longrightarrow>
   outcome bad (own_result m) Q"
  unfolding own_result_def by (intro outcome_bnd) (auto elim!: outcome_mono)

context sound_authority
begin

lemma extract_edhoc_inv:
  fixes st :: "('a, 'r, 'o, 'h) oe_handler"
  assumes inv: "handler_inv auth good (recipient_id lo) st" and has: "HAS_EDHOC auth"
  shows "outcome False (extract_edhoc lk lo auth st request) (\<lambda>(st', r).
    handler_inv auth good (recipient_id lo) st' \<and> inner st' = inner st \<and>
    (\<forall>d. r = Inr d \<longrightarrow> ready auth (recipient_id lo) st' d))"
proof -
  let ?rid = "recipient_id lo"
  obtain xs where xs: "pool_inv auth good ?rid (ctx_pool st) xs"
    using inv by (auto simp: handler_inv_def)
  have main: "outcome False (bnd (cown_but_not ?rid (ctx_pool st) c_i) (\<lambda>c_r.
      bnd (store_context auth st \<lparr>authorization = nosec_authorization auth,
        protocol_stage = EdhocResponderProcessedM1 responder c_r c_i v\<rparr>) (\<lambda>st'. Inr (st', Inr (EdhocOkSend2 c_r)))))
    (\<lambda>(st', r). handler_inv auth good ?rid st' \<and> inner st' = inner st \<and> (\<forall>d. r = Inr d \<longrightarrow> ready auth ?rid st' d))"
    for responder c_i v
  proof -
    obtain c_r where c: "cown_but_not ?rid (ctx_pool st) c_i = Inr c_r" "c_r \<notin> set (cowns ?rid xs)"
      "from_kid [c_r] = Some c_r"
      using cown_but_not_fresh[OF xs, of c_i] by blast
    define new :: "('a, 'r, 'o) sec_context_state" where "new = \<lparr>authorization = nosec_authorization auth,
      protocol_stage = EdhocResponderProcessedM1 responder c_r c_i v\<rparr>"
    let ?ys = "fst (spec_force_insert (auth_level auth) MAX_CONTEXTS new xs)"
    have new: "ctx_ok good ?rid new" "corresponding_cown ?rid new = Some c_r" "is_processed_m1 new"
      using c(3) nosec_good
      by (auto simp: new_def ctx_ok_def corresponding_cown_def is_processed_m1_def split: option.split)
    have "set ?ys \<subseteq> insert new (set xs)"
      by (auto simp: spec_force_insert_def set_place dest: in_set_butlastD)
    then have only: "is_processed_m1 e" if "e \<in> set ?ys" "corresponding_cown ?rid e = Some c_r" for e
      using that new(3) c(2) by (auto simp: in_cowns)
    have "outcome False (store_context auth st new) (\<lambda>st'. inner st' = inner st \<and> pool_inv auth good ?rid (ctx_pool st') ?ys)"
      using store_outcome[OF xs new(1)] new(2) c(2) by auto
    then have "outcome False (store_context auth st new) (\<lambda>st'. handler_inv auth good ?rid st' \<and> inner st' = inner st \<and>
        ready auth ?rid st' (EdhocOkSend2 c_r))"
    proof (rule outcome_mono)
      fix st' :: "('a, 'r, 'o, 'h) oe_handler"
      assume st': "inner st' = inner st \<and> pool_inv auth good ?rid (ctx_pool st') ?ys"
      then have "set (entries (ctx_pool st')) = set ?ys"
        using pool_inv_entries(1) by blast
      then show "handler_inv auth good ?rid st' \<and> inner st' = inner st \<and> ready auth ?rid st' (EdhocOkSend2 c_r)"
        using st' only has by (auto simp: handler_inv_def ready_def pool_iter_def)
    qed simp
    then show ?thesis
      unfolding c(1) new_def by (auto intro!: outcome_bnd elim!: outcome_mono)
  qed
  show ?thesis
    unfolding extract_edhoc_def
    by (intro outcome_leave) (use inv main in \<open>auto intro!: outcome_leave\<close>)
qed

lemma edhoc_context_outcome:
  assumes "liboscore_ok lo" "from_kid [c_r] = Some c_r"
  shows "outcome (\<not> contracts auth good mc lk lo) (edhoc_oscore_context lk lo responder c_r c_i)
    (\<lambda>ctx. words_of (recipient_id lo ctx) = [c_r])"
  using assms(1) unfolding edhoc_oscore_context_def Let_def
  by (auto simp: contracts_def crates_total_def liboscore_ok_def unwrap_def as_slice_def intro!: outcome_bnd split: option.splits)
    blast

lemma message_3_outcome:
  assumes lo: "liboscore_ok lo" and c: "from_kid [c_r] = Some c_r"
  shows "outcome (\<not> contracts auth good mc lk lo) (process_message_3 mc lk lo auth msg responder c_r c_i)
    (\<lambda>r. \<forall>c. r = Inr c \<longrightarrow> ctx_ok good (recipient_id lo) c \<and> corresponding_cown (recipient_id lo) c = Some c_r)"
    (is "outcome _ _ ?Q")
proof -
  let ?bad = "\<not> contracts auth good mc lk lo"
  have token: "outcome ?bad (credential_of_token mc lk auth ead) (\<lambda>t. \<forall>cred a. t = Some (cred, a) \<longrightarrow> good a)" for ead
  proof -
    have "outcome ?bad (process_edhoc_token mc (max_cred_len lk) (new_ccs lk) auth v)
        (\<lambda>r. \<forall>cred a. r = Inr (cred, a) \<longrightarrow> good a)" for v
      by (rule outcome_mono[OF token_outcome]) (auto simp: contracts_def crates_total_def)
    then show ?thesis
      unfolding credential_of_token_def
      by (auto split: option.split sum.splits intro!: outcome_bnd elim!: outcome_mono)
  qed
  have rest: "outcome ?bad (bnd (edhoc_oscore_context lk lo responder c_r c_i) (\<lambda>context.
        Inr (Inr \<lparr>authorization = Some a, protocol_stage = Oscore context\<rparr>))) ?Q"
    if "good a" for responder a
    using that c by (intro outcome_bnd outcome_mono[OF edhoc_context_outcome[OF lo c, of mc]])
      (auto simp: ctx_ok_def corresponding_cown_def)
  have "good a" if "(case t of None \<Rightarrow> expand_id_cred_x auth i | Some ca \<Rightarrow> Some ca) = Some (cred, a)"
    "\<forall>cred a. t = Some (cred, a) \<longrightarrow> good a" for t i cred a
    using that expand_good by (auto split: option.splits)
  then show ?thesis
    unfolding process_message_3_def option_take_def Let_def prod.case
    by (auto intro!: outcome_rbnd outcome_bnd outcome_mono[OF token] rest
        split: sum.splits prod.splits simp: panic_simps)
qed

lemma contracts_slice: "contracts auth good mc lk lo \<Longrightarrow> decode_byte_slice mc bs = Some n \<Longrightarrow> \<not> length bs < n \<and> n \<le> length bs"
  by (auto simp: contracts_def crates_total_def not_less)

lemma payload_outcome:
  assumes lo: "liboscore_ok lo" and c: "ctx_ok good (recipient_id lo) c"
    "corresponding_cown (recipient_id lo) c = Some kid"
  shows "outcome (\<not> contracts auth good mc lk lo) (process_edhoc_in_payload mc lk lo auth pl c)
    (\<lambda>r. \<forall>c' n. r = Inr (c', n) \<longrightarrow> ctx_ok good (recipient_id lo) c' \<and>
      corresponding_cown (recipient_id lo) c' = Some kid \<and> (contracts auth good mc lk lo \<longrightarrow> n \<le> length pl))"
proof (cases "protocol_stage c")
  case (EdhocResponderSentM2 responder c_r c_i)
  then have k: "from_kid [kid] = Some kid" "c_r = kid"
    using c by (auto simp: ctx_ok_def corresponding_cown_def simp del: from_kid.simps)
  show ?thesis
    unfolding process_edhoc_in_payload_def EdhocResponderSentM2 sec_context_stage.case k(2)
    by (auto intro!: outcome_rbnd outcome_mono[OF message_3_outcome[OF lo k(1), of mc]]
        dest!: contracts_slice simp: panic_simps not_less split: sum.splits)
qed (use c in \<open>auto simp: process_edhoc_in_payload_def panic_simps dest: contracts_slice intro!: outcome_rbnd split: sum.splits\<close>)

lemma allowed_outcome:
  assumes "good a"
  shows "outcome (code request = 0 \<or> \<not> scopes_total auth good)
    (claims_request_is_allowed auth a (request.truncate request)) (\<lambda>_. True)"
proof (cases "code request = 0 \<or> \<not> scopes_total auth good")
  case False
  then have "code (request.truncate request) \<noteq> 0" "scopes_total auth good"
    by (simp_all add: request.defs)
  then have "\<exists>b. claims_request_is_allowed auth a (request.truncate request) = Inr b"
    using assms unfolding scopes_total_def by blast
  then show ?thesis
    by auto
next
  case True
  then show ?thesis
    by (cases "claims_request_is_allowed auth a (request.truncate request)") auto
qed

lemma check_outcome:
  assumes "good a"
  shows "outcome (code request = 0 \<or> \<not> scopes_total auth good) (check_and_extract auth ih a h request) (\<lambda>_. True)"
  unfolding check_and_extract_def
  by (rule outcome_bnd, rule outcome_mono[OF allowed_outcome[OF assms]]) (auto simp: Let_def split: prod.split)

lemma unprotect_outcome:
  assumes lo: "liboscore_ok lo" and inv: "pool_inv auth good (recipient_id lo) (ctx_pool st) xs"
    and free: "kid \<notin> set (cowns (recipient_id lo) xs)"
    and ctx: "from_kid (words_of (recipient_id lo ctx)) = Some kid" and a: "good a"
    and n: "contracts auth good mc lk lo \<longrightarrow> n \<le> length (payload request)" and has: "has_oscore auth"
  shows "outcome (\<not> contracts auth good mc lk lo) (unprotect_and_extract lo auth ih cp st request opt kid ctx a n)
    (\<lambda>(st', r). handler_inv auth good (recipient_id lo) st' \<and> (\<forall>d. r = Inr d \<longrightarrow> ready auth (recipient_id lo) st' d))"
proof -
  let ?rid = "recipient_id lo"
  obtain ctx' dec where u: "unprotect_request lo \<lparr>code = code request, options = without_edhoc (options request),
      payload = drop n (payload request)\<rparr> opt ctx = (ctx', dec)"
    by fastforce
  then have "?rid ctx' = ?rid ctx"
    using lo unfolding liboscore_ok_def by (metis fst_conv)
  then have kept: "ctx_ok good ?rid \<lparr>authorization = Some a, protocol_stage = Oscore ctx'\<rparr>"
    "corresponding_cown ?rid \<lparr>authorization = Some a, protocol_stage = Oscore ctx'\<rparr> = Some kid"
    using a ctx by (simp_all add: ctx_ok_def corresponding_cown_def)
  have store: "outcome bad (store_context auth (st\<lparr>inner := h\<rparr>) \<lparr>authorization = Some a, protocol_stage = Oscore ctx'\<rparr>)
      (\<lambda>st'. handler_inv auth good ?rid st')" for bad h
  proof (rule outcome_mono[OF store_outcome_inv[OF _ kept(1)]])
    show "pool_inv auth good ?rid (ctx_pool (st\<lparr>inner := h\<rparr>)) xs"
      using inv by simp
    show "k \<notin> set (cowns ?rid xs)"
      if "corresponding_cown ?rid \<lparr>authorization = Some a, protocol_stage = Oscore ctx'\<rparr> = Some k" for k
      using that free kept(2) by (metis option.inject)
  qed auto
  have st: "st = st\<lparr>inner := inner st\<rparr>"
    by simp
  have dec: "code m \<noteq> 0" if "contracts auth good mc lk lo" "dec = Some (corr, m)" for corr m
    using that u unfolding contracts_def crates_total_def by blast
  show ?thesis
  proof (cases dec)
    case None
    then show ?thesis
      using n store[of _ "inner st"] inv u unfolding unprotect_and_extract_def Let_def
      by (auto intro!: outcome_bnd elim!: outcome_mono simp: handler_inv_def)
  next
    case (Some p)
    obtain corr m where p: "p = (corr, m)"
      by fastforce
    have "outcome (\<not> contracts auth good mc lk lo) (check_and_extract auth ih a (inner st) m) (\<lambda>_. True)"
      using dec Some p by (intro outcome_mono[OF check_outcome[OF a, of m ih]]) (auto simp: contracts_def)
    then show ?thesis
      using n inv u Some p has unfolding unprotect_and_extract_def Let_def
      by (auto intro!: outcome_bnd outcome_mono[OF store] elim!: outcome_mono simp: handler_inv_def ready_def)
  qed
qed

lemma continue_outcome:
  assumes lo: "liboscore_ok lo" and inv: "pool_inv auth good (recipient_id lo) (ctx_pool st) xs"
    and free: "kid \<notin> set (cowns (recipient_id lo) xs)"
    and c: "ctx_ok good (recipient_id lo) c" "corresponding_cown (recipient_id lo) c = Some kid"
    and n: "contracts auth good mc lk lo \<longrightarrow> n \<le> length (payload request)" and has: "has_oscore auth"
  shows "outcome (\<not> contracts auth good mc lk lo) (continue_oscore lo auth ih cp now st request opt kid (c, n))
    (\<lambda>(st', r). handler_inv auth good (recipient_id lo) st' \<and> (\<forall>d. r = Inr d \<longrightarrow> ready auth (recipient_id lo) st' d))"
  using unprotect_outcome[OF lo inv free _ _ n has, of _ _ ih cp opt] inv c
  by (auto simp: continue_oscore_def ctx_ok_def corresponding_cown_def handler_inv_def
      split: sec_context_stage.split option.split)

lemma taken_outcome:
  assumes lo: "liboscore_ok lo" and c: "ctx_ok good (recipient_id lo) c"
    "corresponding_cown (recipient_id lo) c = Some kid" and edhoc: "with_edhoc \<Longrightarrow> HAS_EDHOC auth"
  shows "outcome (\<not> contracts auth good mc lk lo) (process_taken mc lk lo auth request with_edhoc c)
    (\<lambda>r. \<forall>c' n. r = Inr (c', n) \<longrightarrow> ctx_ok good (recipient_id lo) c' \<and>
      corresponding_cown (recipient_id lo) c' = Some kid \<and> (contracts auth good mc lk lo \<longrightarrow> n \<le> length (payload request)))"
  using payload_outcome[OF lo c, of mc lk "payload request"] c edhoc by (auto simp: process_taken_def)

lemma extract_oscore_inv:
  fixes st :: "('a, 'r, 'o, 'h) oe_handler"
  assumes lo: "liboscore_ok lo" and inv: "handler_inv auth good (recipient_id lo) st"
    and edhoc: "with_edhoc \<Longrightarrow> HAS_EDHOC auth" and has: "has_oscore auth"
  shows "outcome (\<not> contracts auth good mc lk lo) (extract_oscore_edhoc mc lk lo auth ih cp now st request opt with_edhoc)
    (\<lambda>(st', r). handler_inv auth good (recipient_id lo) st' \<and> (\<forall>d. r = Inr d \<longrightarrow> ready auth (recipient_id lo) st' d))"
    (is "outcome ?bad _ ?Q")
proof -
  let ?rid = "recipient_id lo"
  obtain xs where xs: "pool_inv auth good ?rid (ctx_pool st) xs"
    using inv by (auto simp: handler_inv_def)
  have main: "outcome ?bad (bnd (take_context auth ?rid st kid) (\<lambda>(st, found).
     leave st (ok_or BadRequest found) (\<lambda>taken.
     bnd (process_taken mc lk lo auth request with_edhoc taken) (\<lambda>r.
     leave st r (continue_oscore lo auth ih cp now st request po kid))))) ?Q" for po kid
  proof (rule outcome_bnd, rule outcome_mono[OF take_outcome[OF xs, where bad = ?bad]], assumption, clarify)
    fix st' :: "('a, 'r, 'o, 'h) oe_handler" and found
    assume found: "case found of
       None \<Rightarrow> pool_inv auth good ?rid (ctx_pool st') xs
     | Some c \<Rightarrow> ctx_ok good ?rid c \<and> corresponding_cown ?rid c = Some kid \<and>
         (\<exists>as bs. xs = as @ c # bs \<and> kid \<notin> set (cowns ?rid (as @ bs)) \<and>
           pool_inv auth good ?rid (ctx_pool st') (place (auth_level auth) sec_context_default (as @ bs)))"
    show "outcome ?bad (leave st' (ok_or BadRequest found) (\<lambda>taken.
       bnd (process_taken mc lk lo auth request with_edhoc taken) (\<lambda>r.
       leave st' r (continue_oscore lo auth ih cp now st' request po kid)))) ?Q"
    proof (cases found)
      case None
      then show ?thesis
        using found by (auto simp: handler_inv_def)
    next
      case (Some c)
      then obtain ys where c: "ctx_ok good ?rid c" "corresponding_cown ?rid c = Some kid"
        and ys: "pool_inv auth good ?rid (ctx_pool st') ys" "kid \<notin> set (cowns ?rid ys)"
        using found by (fastforce simp: in_cowns set_place)
      have "?Q (st', Inl e)" for e
        using ys(1) by (auto simp: handler_inv_def)
      then show ?thesis
        unfolding Some ok_or_simps leave_simps
        by (intro outcome_bnd outcome_mono[OF taken_outcome[OF lo c, where mc = mc]])
          (auto intro!: outcome_leave continue_outcome[OF lo ys] simp: edhoc has)
    qed
  qed
  show ?thesis
    unfolding extract_oscore_edhoc_def
    by (intro outcome_leave main) (use inv in auto)
qed

lemma authz_info_outcome:
  assumes lo: "liboscore_ok lo" and inv: "pool_inv auth good (recipient_id lo) q xs"
  shows "outcome False (process_acecbor_authz_info mc lo auth pl own_nonce (\<lambda>peer. cown_but_not (recipient_id lo) q peer))
    (\<lambda>r. \<forall>resp ctx a. r = Inr (resp, ctx, a) \<longrightarrow> good a \<and> resp_nonce2 resp = own_nonce \<and>
      (\<exists>k. words_of (recipient_id lo ctx) = [k] \<and> from_kid [k] = Some k \<and> k \<notin> set (cowns (recipient_id lo) xs)))"
    (is "outcome _ ?m ?Q")
proof (cases ?m)
  case (Inl p)
  have "cown_but_not (recipient_id lo) q peer \<noteq> Inl p" for peer
    using cown_but_not_fresh[OF inv, of peer] by auto
  then have "?m \<noteq> Inl p"
    by (auto simp: process_acecbor_authz_info_def rbnd_def panic_simps split: sum.splits option.splits)
  then show ?thesis
    using Inl by simp
next
  case (Inr r)
  have "?Q r"
  proof (clarify)
    fix resp ctx a assume "r = Inr (resp, ctx, a)"
    then obtain headers aad buffer claims osc n1 peer k where
        d: "decrypt_symmetric_token auth headers aad buffer = Inr (a, claims)"
      and k: "cown_but_not (recipient_id lo) q peer = Inr k"
      and ctx: "derive mc lo osc n1 own_nonce peer (bytes_of (as_slice k)) = Inr ctx"
      and resp: "resp = \<lparr>resp_nonce2 = own_nonce, resp_server_recipientid = k\<rparr>"
      using Inr unfolding process_acecbor_authz_info_def by (auto simp: result_simps)
    have "recipient_id lo ctx = bytes_of [k]"
      using ctx lo by (auto simp: derive_def result_simps liboscore_ok_def as_slice_def)
    then show "good a \<and> resp_nonce2 resp = own_nonce \<and>
      (\<exists>k. words_of (recipient_id lo ctx) = [k] \<and> from_kid [k] = Some k \<and> k \<notin> set (cowns (recipient_id lo) xs))"
      using decrypt_good[OF d] resp k cown_but_not_fresh[OF inv, of peer]
      by (auto simp del: from_kid.simps)
  qed
  then show ?thesis
    using Inr by simp
qed

lemma extract_token_inv:
  fixes st :: "('a, 'r, 'o, 'h) oe_handler"
  assumes lo: "liboscore_ok lo" and inv: "handler_inv auth good (recipient_id lo) st"
  shows "outcome False (extract_token mc lo auth own_nonce st pl) (\<lambda>(st', r).
    handler_inv auth good (recipient_id lo) st' \<and> inner st' = inner st \<and>
    (\<forall>resp. r = Inr resp \<longrightarrow> resp_nonce2 resp = own_nonce))"
    (is "outcome _ _ ?Q")
proof -
  let ?rid = "recipient_id lo"
  obtain xs where xs: "pool_inv auth good ?rid (ctx_pool st) xs"
    using inv by (auto simp: handler_inv_def)
  show ?thesis
    unfolding extract_token_def
  proof (rule outcome_bnd, rule outcome_mono[OF authz_info_outcome[OF lo xs]], assumption, rule outcome_leave)
    show "?Q (st, Inl e)" for e
      using inv by simp
    fix r and p :: "authz_info_response \<times> 'o \<times> 'a"
    assume r: "\<forall>resp ctx a. r = Inr (resp, ctx, a) \<longrightarrow> good a \<and> resp_nonce2 resp = own_nonce \<and>
        (\<exists>k. words_of (?rid ctx) = [k] \<and> from_kid [k] = Some k \<and> k \<notin> set (cowns ?rid xs))"
      and "map_err (\<lambda>e. case err_position e of None \<Rightarrow> BadRequest | Some p \<Rightarrow> BadRequestRbep p) r = Inr p"
    obtain resp ctx a where p: "p = (resp, ctx, a)"
      by (cases p) auto
    then have "r = Inr (resp, ctx, a)"
      using \<open>map_err _ r = Inr p\<close> by (simp add: panic_simps)
    then obtain k where k: "good a" "resp_nonce2 resp = own_nonce" "words_of (?rid ctx) = [k]" "from_kid [k] = Some k"
      "k \<notin> set (cowns ?rid xs)"
      using r by blast
    let ?c = "\<lparr>authorization = Some a, protocol_stage = Oscore ctx\<rparr> :: ('a, 'r, 'o) sec_context_state"
    have "ctx_ok good ?rid ?c" "corresponding_cown ?rid ?c = Some k"
      using k by (simp_all add: ctx_ok_def corresponding_cown_def del: from_kid.simps)
    then have "outcome False (store_context auth st ?c) (\<lambda>st'. handler_inv auth good ?rid st' \<and> inner st' = inner st)"
      using k(5) by (intro store_outcome_inv[OF xs]) simp_all
    then show "outcome False (case p of (response, oscore, generalclaims) \<Rightarrow>
        bnd (store_context auth st \<lparr>authorization = Some generalclaims, protocol_stage = Oscore oscore\<rparr>)
          (\<lambda>st. Inr (st, Inr response))) ?Q"
      using p k(2) by (auto intro!: outcome_bnd elim!: outcome_mono)
  qed
qed

lemma nosec_outcome:
  "outcome (code request = 0 \<or> \<not> scopes_total auth good) (nosec_allows auth now request) (\<lambda>_. True)"
  unfolding nosec_allows_def
  by (cases "nosec_authorization auth")
    (auto intro!: outcome_bnd outcome_mono[OF allowed_outcome[OF nosec_good]])

text \<open>
  A request as a whole: it panics only if a crate breaks its contract or the request has the code
  0.00, and it keeps the invariant.
\<close>

lemma extract_request_inv:
  fixes st :: "('a, 'r, 'o, 'h) oe_handler"
  assumes lo: "liboscore_ok lo" and inv: "handler_inv auth good (recipient_id lo) st"
  shows "outcome (\<not> contracts auth good mc lk lo \<or> code request = 0)
    (extract_request_data mc lk lo auth ih cp now own_nonce st request) (\<lambda>(st', r).
    handler_inv auth good (recipient_id lo) st' \<and>
    (length own_nonce = OWN_NONCE_LEN \<longrightarrow> (\<forall>d. r = Inr (Own d) \<longrightarrow> ready auth (recipient_id lo) st' d)))"
    (is "outcome ?bad _ ?Q")
proof -
  obtain s extra where rec: "recognise auth (not_ignored cp) Start (options request) = (s, extra)"
    by fastforce
  then have sup: "supported auth s"
    using recognise_supported[of auth Start "not_ignored cp" "options request"] by (simp add: supported_def)
  have edhoc: "outcome ?bad (own_result (leave st (require_post request) (\<lambda>_. extract_edhoc lk lo auth st request))) ?Q"
    if "HAS_EDHOC auth"
    by (rule own_result_outcome, rule outcome_leave)
      (use inv in \<open>auto split: sum.split intro!: outcome_weaken[OF extract_edhoc_inv[OF inv that]]\<close>)
  have token: "outcome ?bad (own_result (leave st (require_post request) (\<lambda>_.
        bnd (extract_token mc lo auth own_nonce st (payload request)) (\<lambda>(st, r).
          Inr (st, bnd r (\<lambda>resp. Inr (ProcessedToken resp))))))) ?Q"
    if "PARSES_TOKENS auth"
    by (rule own_result_outcome, rule outcome_leave)
      (use inv that in \<open>auto split: sum.split simp: ready_def panic_simps
        intro!: outcome_bnd outcome_weaken[OF extract_token_inv[OF lo inv]]\<close>)
  have oscore: "outcome ?bad (own_result (extract_oscore_edhoc mc lk lo auth ih cp now st request opt we)) ?Q"
    if "has_oscore auth" "we \<Longrightarrow> HAS_EDHOC auth" for opt we
    by (rule own_result_outcome, rule outcome_mono[OF extract_oscore_inv[OF lo inv that(2,1), where mc = mc]])
      (auto split: sum.split)
  have plain: "outcome ?bad (bnd (nosec_allows auth now request) (\<lambda>allowed.
      if allowed then
        (case inner_extract ih (inner st) request of
           (h, Inl e) \<Rightarrow> Inr (st\<lparr>inner := h\<rparr>, Inl (Inner e))
         | (h, Inr extracted) \<Rightarrow> Inr (st\<lparr>inner := h\<rparr>, Inr (Inner (Allowed extracted))))
      else Inr (st, Inr (Inner NotAllowed)))) ?Q"
    by (rule outcome_bnd, rule outcome_mono[OF nosec_outcome])
      (use inv in \<open>auto simp: handler_inv_def contracts_def split: prod.split sum.split\<close>)
  show ?thesis
    unfolding extract_request_data_def rec prod.case
    using sup edhoc token oscore plain inv
    by (auto simp: supported_def has_oscore_def errors_handled_here_def split: recognition.split sum.split)
qed

end

end
