(* ===== verification/SecHandler.thy ===== *)
theory SecHandler
  imports SecInvariant
begin

section \<open>The wrapping handler as a whole\<close>

text \<open>
  Building responses keeps the invariant of \<open>SecInvariant\<close> as well.  \<open>served\<close> are the states the
  handler can be in after any sequence of requests and responses, in any order, and the properties
  of these states follow: which requests reach the inner handler, what happens to contexts, and
  that no call panics.
\<close>

subsection \<open>Building a response\<close>

lemma outcome_mstep:
  "(\<And>m e. r = (m, Inl e) \<Longrightarrow> Q (m, Inl e)) \<Longrightarrow> (\<And>m. r = (m, Inr ()) \<Longrightarrow> outcome bad (k m) Q) \<Longrightarrow>
   outcome bad (mstep r k) Q"
  by (auto simp: mstep_def split: prod.split sum.split)

lemma spec_lookup_result:
  assumes "snd (spec_lookup level f_test f_use xs) = Some r"
  shows "\<exists>e\<in>set xs. f_test e \<and> r = snd (f_use e)"
proof (cases "dropWhile (Not \<circ> f_test) xs")
  case (Cons e bs)
  then have "e \<in> set xs" "f_test e"
    using hd_dropWhile[of "Not \<circ> f_test" xs] set_dropWhileD[of e "Not \<circ> f_test" xs] by auto
  then show ?thesis
    using assms Cons by (auto simp: spec_lookup_def)
next
  case Nil
  show ?thesis
    using assms unfolding spec_lookup_def Nil by simp
qed

lemma prepare_m2_ok:
  assumes "ctx_ok good rid e" "corresponding_cown rid e = Some c_r"
  shows "ctx_ok good rid (fst (prepare_m2 lk c_r e)) \<and> corresponding_cown rid (fst (prepare_m2 lk c_r e)) \<in> {None, Some c_r}"
proof (cases "protocol_stage e")
  case (EdhocResponderProcessedM1 r c c_i v)
  then have "from_kid [c_r] = Some c_r" "case authorization e of None \<Rightarrow> True | Some a \<Rightarrow> good a"
    using assms by (auto simp: ctx_ok_def corresponding_cown_def simp del: from_kid.simps)
  then show ?thesis
    by (auto simp: prepare_m2_def EdhocResponderProcessedM1 ctx_ok_def corresponding_cown_def
        simp del: from_kid.simps split: sum.split)
qed (simp_all add: prepare_m2_def)

lemma build_m2_inv:
  fixes st :: "('a, 'r, 'o, 'h) oe_handler"
  assumes inv: "handler_inv auth good (recipient_id lo) st"
  shows "outcome (\<not> ready auth (recipient_id lo) st (EdhocOkSend2 c_r))
    (build_edhoc_message_2 lk lo auth cp st response c_r) (\<lambda>(st', m, r). handler_inv auth good (recipient_id lo) st')"
proof -
  let ?rid = "recipient_id lo" and ?l = "auth_level auth"
  let ?t = "\<lambda>c. corresponding_cown (recipient_id lo) c = Some c_r"
  obtain xs where xs: "pool_inv auth good ?rid (ctx_pool st) xs"
    using inv by (auto simp: handler_inv_def)
  have "ctx_ok good ?rid (fst (prepare_m2 lk c_r e)) \<and>
      corresponding_cown ?rid (fst (prepare_m2 lk c_r e)) \<in> {None, corresponding_cown ?rid e}"
    if "e \<in> set xs" "?t e" for e
    using prepare_m2_ok[of good ?rid e c_r lk] xs that by (simp add: pool_inv_def)
  then obtain q' where q': "pool_lookup ?l ?t (prepare_m2 lk c_r) (ctx_pool st) =
      Inr (q', snd (spec_lookup ?l ?t (prepare_m2 lk c_r) xs))"
    "pool_inv auth good ?rid q' (fst (spec_lookup ?l ?t (prepare_m2 lk c_r) xs))"
    using lookup_inv[OF xs, of ?t "prepare_m2 lk c_r"] by blast
  have h: "handler_inv auth good ?rid (st\<lparr>ctx_pool := q'\<rparr>)"
    using q'(2) by (auto simp: handler_inv_def)
  have panic: "\<not> ready auth ?rid st (EdhocOkSend2 c_r)"
    if r: "snd (spec_lookup ?l ?t (prepare_m2 lk c_r) xs) = Some (Inl p)" for p
  proof -
    obtain e where e: "e \<in> set xs" "?t e" "Inl p = snd (prepare_m2 lk c_r e)"
      using spec_lookup_result[OF r] by blast
    then have "\<not> is_processed_m1 e"
      by (auto simp: prepare_m2_def is_processed_m1_def split: sec_context_stage.splits sum.splits)
    moreover have "e \<in> set (pool_iter (ctx_pool st))"
      using e(1) pool_inv_entries(1)[OF xs] by (simp add: pool_iter_def)
    ultimately show ?thesis
      using e(2) by (auto simp: ready_def)
  qed
  show ?thesis
  proof (cases "snd (spec_lookup ?l ?t (prepare_m2 lk c_r) xs)")
    case None
    then show ?thesis
      unfolding build_edhoc_message_2_def q'(1) Let_def using h by (auto split: prod.split)
  next
    case (Some r)
    then show ?thesis
      unfolding build_edhoc_message_2_def q'(1) Let_def using h panic
      by (cases r) (auto intro!: outcome_bnd outcome_mstep split: prod.split sum.split)
  qed
qed

lemma protect_ok:
  assumes lo: "liboscore_ok lo" and e: "ctx_ok good (recipient_id lo) e"
  shows "ctx_ok good (recipient_id lo) (fst (protect_in_context lo auth ih cp h response corr extracted e)) \<and>
    corresponding_cown (recipient_id lo) (fst (protect_in_context lo auth ih cp h response corr extracted e)) =
      corresponding_cown (recipient_id lo) e"
proof (cases "protocol_stage e")
  case (Oscore ctx)
  have "recipient_id lo (fst (snd (protect_begin lo m ctx corr))) = recipient_id lo ctx" for m
    using lo by (simp add: liboscore_ok_def)
  then show ?thesis
    using e by (auto simp: protect_in_context_def Oscore ctx_ok_def corresponding_cown_def Let_def case_prod_beta
        split: option.splits)
qed (use e in \<open>simp_all add: protect_in_context_def\<close>)

lemma protect_panic:
  "snd (protect_in_context lo auth ih cp h response corr extracted e) = Inl p \<Longrightarrow> downcast_from cp response = None"
  by (auto simp: protect_in_context_def Let_def case_prod_beta split: sec_context_stage.splits option.splits if_splits)

lemma build_oscore_inv:
  fixes st :: "('a, 'r, 'o, 'h) oe_handler"
  assumes lo: "liboscore_ok lo" and inv: "handler_inv auth good (recipient_id lo) st"
  shows "outcome (\<exists>m. downcast_from cp m = None) (build_oscore_response lo auth ih cp st response kid corr extracted)
    (\<lambda>(st', m, r). handler_inv auth good (recipient_id lo) st')"
proof -
  let ?rid = "recipient_id lo" and ?l = "auth_level auth"
  let ?t = "\<lambda>c. corresponding_cown (recipient_id lo) c = Some kid"
  obtain xs where xs: "pool_inv auth good ?rid (ctx_pool st) xs"
    using inv by (auto simp: handler_inv_def)
  have main: "outcome (\<exists>m. downcast_from cp m = None)
     (bnd (pool_lookup ?l ?t (protect_in_context lo auth ih cp (inner st) m corr extracted) (ctx_pool st))
       (\<lambda>(q, found).
          let st = st\<lparr>ctx_pool := q\<rparr> in
          case found of
            None \<Rightarrow> Inr (st, m, Inr ())
          | Some r \<Rightarrow> bnd r (\<lambda>(h, response, res). Inr (st\<lparr>inner := h\<rparr>, response, map_err Inr res))))
     (\<lambda>(st', m, r). handler_inv auth good ?rid st')" for m
  proof -
    let ?f = "protect_in_context lo auth ih cp (inner st) m corr extracted"
    have "ctx_ok good ?rid (fst (?f e)) \<and> corresponding_cown ?rid (fst (?f e)) \<in> {None, corresponding_cown ?rid e}"
      if "e \<in> set xs" for e
      using protect_ok[OF lo, of good e auth ih cp "inner st" m corr extracted] xs that by (simp add: pool_inv_def)
    then obtain q' where q': "pool_lookup ?l ?t ?f (ctx_pool st) = Inr (q', snd (spec_lookup ?l ?t ?f xs))"
      "pool_inv auth good ?rid q' (fst (spec_lookup ?l ?t ?f xs))"
      using lookup_inv[OF xs, of ?t ?f] by blast
    have h: "handler_inv auth good ?rid (st\<lparr>ctx_pool := q', inner := h\<rparr>)" "handler_inv auth good ?rid (st\<lparr>ctx_pool := q'\<rparr>)" for h
      using q'(2) by (auto simp: handler_inv_def)
    show ?thesis
    proof (cases "snd (spec_lookup ?l ?t ?f xs)")
      case None
      then show ?thesis
        unfolding q'(1) using h by simp
    next
      case (Some r)
      then have "\<exists>m. downcast_from cp m = None" if "r = Inl p" for p
        using spec_lookup_result[OF Some] protect_panic that by metis
      then show ?thesis
        unfolding q'(1) using h Some by (cases r) auto
    qed
  qed
  then show ?thesis
    unfolding build_oscore_response_def using inv main by (auto split: prod.split sum.split)
qed

text \<open>
  A response as a whole.  The calls a response may panic in are ruled out by the state of the pool
  \<open>ready\<close> describes, by lengths of encodings, and by the one type of response OSCORE supports.
\<close>

lemma build_response_inv:
  fixes st :: "('a, 'r, 'o, 'h) oe_handler"
  assumes lo: "liboscore_ok lo" and inv: "handler_inv auth good (recipient_id lo) st"
  shows "outcome ((\<exists>m. downcast_from cp m = None) \<or> \<not> cbor_lengths mc \<or> (\<exists>d. req = Own d \<and> \<not> ready auth (recipient_id lo) st d))
    (build_response mc lk lo auth ih cp st response req) (\<lambda>(st', m, r). handler_inv auth good (recipient_id lo) st')"
    (is "outcome ?bad _ ?Q")
proof -
  have h: "handler_inv auth good (recipient_id lo) (st\<lparr>inner := x\<rparr>)" for x
    using inv by (simp add: handler_inv_def)
  show ?thesis
  proof (cases req)
    case (Inner i)
    then show ?thesis
      using h inv by (cases i) (auto simp: build_response_def split: prod.split bool.split)
  next
    case (Own d)
    show ?thesis
    proof (cases d)
      case (EdhocOkSend2 c_r)
      have "outcome ?bad (build_edhoc_message_2 lk lo auth cp st response c_r)
          (\<lambda>(st', m, r). handler_inv auth good (recipient_id lo) st')"
        by (rule outcome_mono[OF build_m2_inv[OF inv]]) (use Own EdhocOkSend2 in auto)
      then show ?thesis
        using Own EdhocOkSend2 by (auto simp: build_response_def ready_def intro!: outcome_bnd elim!: outcome_mono)
    next
      case (EdhocOscoreRequest kid corr extracted)
      have "outcome ?bad (build_oscore_response lo auth ih cp st response kid corr extracted)
          (\<lambda>(st', m, r). handler_inv auth good (recipient_id lo) st')"
        by (rule outcome_mono[OF build_oscore_inv[OF lo inv]]) auto
      then show ?thesis
        using Own EdhocOscoreRequest by (auto simp: build_response_def ready_def intro!: outcome_bnd elim!: outcome_mono)
    next
      case (ProcessedToken resp)
      have "outcome ?bad (render_authz_info mc (writable cp) resp response) (\<lambda>_. True)"
      proof (cases ?bad)
        case True
        then show ?thesis
          by (cases "render_authz_info mc (writable cp) resp response") simp_all
      next
        case False
        then show ?thesis
          using render_authz_info_total[of mc resp "writable cp" response] Own ProcessedToken
          by (auto simp: ready_def)
      qed
      then show ?thesis
        using Own ProcessedToken inv
        by (auto simp: build_response_def ready_def intro!: outcome_bnd elim!: outcome_mono)
    qed
  qed
qed

subsection \<open>Reachable states\<close>

inductive served ::
    "minicbor \<Rightarrow> ('r, 'cred, 'key, 'idc) lakers \<Rightarrow> ('alg, 'imm, 'o, 'opt, 'corr, 'm) liboscore \<Rightarrow>
     ('a, 'cred, 'key, 'idc, 'm) authorities \<Rightarrow> ('h, 'rd, 'ee, 'be, 'fe, 'm) handler \<Rightarrow> ('m, 'ue) coap \<Rightarrow>
     ('a, 'r, 'o, 'h) oe_handler \<Rightarrow> bool"
  for mc lk lo auth ih cp where
  boot: "oe_handler_new h = Inr st \<Longrightarrow> served mc lk lo auth ih cp st"
| request: "served mc lk lo auth ih cp st \<Longrightarrow>
    extract_request_data mc lk lo auth ih cp now own_nonce st req = Inr (st', r) \<Longrightarrow> served mc lk lo auth ih cp st'"
| response: "served mc lk lo auth ih cp st \<Longrightarrow>
    build_response mc lk lo auth ih cp st msg data = Inr (st', msg', r) \<Longrightarrow> served mc lk lo auth ih cp st'"

lemma boot_inv: "oe_handler_new h = Inr st \<Longrightarrow> handler_inv auth good rid st"
proof -
  assume "oe_handler_new h = Inr st"
  then have "st = \<lparr>ctx_pool = \<lparr>entries = [], sorted_idx = []\<rparr>, inner = h\<rparr>"
    by (auto simp: oe_handler_new_def pool_new_def panic_simps)
  then have "pool_inv auth good rid (ctx_pool st) []"
    by (simp add: pool_inv_def pool_rep_def pool_wf_def pool_view_def)
  then show ?thesis
    by (auto simp: handler_inv_def)
qed

context sound_authority
begin

lemma served_inv:
  assumes "served mc lk lo auth ih cp st" "liboscore_ok lo"
  shows "handler_inv auth good (recipient_id lo) st"
  using assms
proof (induction rule: served.induct)
  case (request st now own_nonce req st' r)
  show ?case
    using outcome_InrD[OF extract_request_inv[OF request.prems request.IH[OF request.prems]] request.hyps(2)] by simp
next
  case (response st msg data st' msg' r)
  show ?case
    using outcome_InrD[OF build_response_inv[OF response.prems response.IH[OF response.prems]] response.hyps(2)] by simp
qed (rule boot_inv)

end

text \<open>The invariant without any demand on the authorizations holds for every configuration.\<close>

interpretation any: sound_authority auth "\<lambda>_. True" for auth
  by unfold_locales simp_all

end
