(* ===== verification/SecProperties.thy ===== *)
theory SecProperties
  imports SecHandler
begin

section \<open>Properties of the wrapping handler\<close>

text \<open>
  What the invariant of \<open>SecInvariant\<close> means for the configurations of \<open>seccfg.rs\<close>, and the
  properties of requests in all states the handler can be in.
\<close>

subsection \<open>The configurations hand out good authorizations\<close>

text \<open>
  Good authorizations of a \<open>ConfigBuilder\<close> have a scope from a parsed token or a configured one.
\<close>

definition cfg_good :: "minicbor \<Rightarrow> ('cred, 'key) config_builder \<Rightarrow> config_builder_claims \<Rightarrow> bool" where
  "cfg_good mc self a \<longleftrightarrow>
     (\<exists>bs aif. aif_parse (decode_aif mc) bs = Inr aif \<and> cb_scope a = AifValue aif) \<or>
     unauthenticated_scope self = Some (cb_scope a) \<or>
     map_option snd (known_edhoc_clients self) = Some (cb_scope a)"

interpretation cfg_sound: sound_authority "config_authorities mc cr cs wr self" "cfg_good mc self" for mc cr cs wr self
proof unfold_locales
  show "cfg_good mc self a"
    if "decrypt_symmetric_token (config_authorities mc cr cs wr self) headers aad buffer = Inr (a, claims)"
    for headers aad buffer a claims
    using that by (auto simp: cfg_decrypt_ok claims_of_set_ok cfg_good_def)
  show "cfg_good mc self a"
    if "verify_asymmetric_token (config_authorities mc cr cs wr self) headers sd sig pl = Inr (a, claims)"
    for headers sd sig pl a claims
    using that by (auto simp: cfg_verify_ok claims_of_set_ok cfg_good_def)
  show nosec: "cfg_good mc self a" if "nosec_authorization (config_authorities mc cr cs wr self) = Some a" for a
    using that by (auto simp: cfg_nosec_authorization_def cfg_good_def)
  show "cfg_good mc self a" if "expand_id_cred_x (config_authorities mc cr cs wr self) idc = Some (cred, a)" for idc cred a
    using that nosec
    by (auto simp: cfg_expand_id_cred_x_def known_client_claims_def cfg_good_def split: option.splits if_splits)
qed

text \<open>The scope check of such an authorization returns, if the configured scopes are parsed ones too.\<close>

definition scope_parsed :: "minicbor \<Rightarrow> union_scope \<Rightarrow> bool" where
  "scope_parsed mc scope \<longleftrightarrow>
     (case scope of
        AifValue aif \<Rightarrow> \<exists>bs. aif_parse (decode_aif mc) bs = Inr aif
      | AllowAll \<Rightarrow> True
      | DenyAll \<Rightarrow> True)"

definition cfg_scopes_parsed :: "minicbor \<Rightarrow> ('cred, 'key) config_builder \<Rightarrow> bool" where
  "cfg_scopes_parsed mc self \<longleftrightarrow>
     (case unauthenticated_scope self of None \<Rightarrow> True | Some scope \<Rightarrow> scope_parsed mc scope) \<and>
     (case known_edhoc_clients self of None \<Rightarrow> True | Some (_, scope) \<Rightarrow> scope_parsed mc scope)"

lemma parsed_scope_returns:
  assumes "cbor_ignores_trailing (decode_aif mc)" "scope_parsed mc scope" "code r \<noteq> 0"
  shows "\<exists>b. union_request_is_allowed (decode_aif mc) scope r = Inr b"
proof (cases scope)
  case (AifValue aif)
  then obtain bs where bs: "aif_parse (decode_aif mc) bs = Inr aif"
    using assms(2) by (auto simp: scope_parsed_def)
  then obtain items where "decode_aif mc bs = Some items"
    by (auto simp: aif_parse_def split: option.splits if_splits)
  moreover have "unat (code r) \<noteq> 0"
    using assms(3) by (simp add: unat_eq_zero)
  ultimately show ?thesis
    using aif_returns[OF assms(1) bs] AifValue by (auto simp: union_request_is_allowed_def)
qed (auto simp: union_request_is_allowed_def)

lemma cfg_scopes_total:
  assumes "cbor_ignores_trailing (decode_aif mc)" "cfg_scopes_parsed mc self"
  shows "scopes_total (config_authorities mc cr cs wr self) (cfg_good mc self)"
proof -
  have "scope_parsed mc (cb_scope a)" if "cfg_good mc self a" for a
    using that assms(2)
    by (auto simp: cfg_good_def cfg_scopes_parsed_def scope_parsed_def split: union_scope.splits)
  then show ?thesis
    using parsed_scope_returns[OF assms(1)] by (simp add: scopes_total_def config_authorities_def)
qed

subsection \<open>The contexts of a reachable state\<close>

lemma pool_inv_mset:
  assumes "pool_inv auth good rid q xs"
  shows "mset (entries q) = mset xs"
proof -
  have wf: "pool_wf MAX_CONTEXTS q" and xs: "xs = map ((!) (entries q)) (sorted_idx q)"
    using assms by (simp_all add: pool_inv_def pool_rep_def pool_view_def)
  have "mset (sorted_idx q) = mset [0..<length (entries q)]"
    using wf set_eq_iff_mset_eq_distinct[of "sorted_idx q" "[0..<length (entries q)]"]
    by (simp add: pool_wf_def lessThan_atLeast0)
  then have "mset xs = mset (map ((!) (entries q)) [0..<length (entries q)])"
    unfolding xs mset_map by (rule arg_cong)
  then show ?thesis
    by (simp only: map_nth)
qed

text \<open>
  C8: In every state the handler can be in, after any requests and responses in any order, the pool
  holds at most four contexts, each of a level below the four the pool knows; their own identifiers
  are pairwise distinct, so a key identifier names at most one context, and valid one-byte
  identifiers; an established OSCORE context has an authorization and an identifier.
\<close>

theorem contexts_wellformed:
  assumes "served mc lk lo auth ih cp st" "liboscore_ok lo"
  shows "length (pool_iter (ctx_pool st)) \<le> MAX_CONTEXTS \<and>
    distinct (pool_cowns (recipient_id lo) (ctx_pool st)) \<and>
    (\<forall>c\<in>set (pool_iter (ctx_pool st)).
       auth_level auth c < LEVEL_COUNT \<and>
       (case protocol_stage c of
          Empty \<Rightarrow> True
        | EdhocResponderProcessedM1 _ c_r _ _ \<Rightarrow> from_kid [c_r] = Some c_r
        | EdhocResponderSentM2 _ c_r _ \<Rightarrow> from_kid [c_r] = Some c_r
        | Oscore ctx \<Rightarrow> authorization c \<noteq> None \<and> corresponding_cown (recipient_id lo) c \<noteq> None))"
proof -
  let ?rid = "recipient_id lo"
  obtain xs where xs: "pool_inv auth (\<lambda>_. True) ?rid (ctx_pool st) xs"
    using any.served_inv[OF assms] by (auto simp: handler_inv_def)
  have e: "set (entries (ctx_pool st)) = set xs" "length (entries (ctx_pool st)) \<le> MAX_CONTEXTS"
    using pool_inv_entries[OF xs] by simp_all
  have "distinct (cowns ?rid (entries (ctx_pool st)))"
    using distinct_cowns[OF pool_inv_mset[OF xs]] xs by (simp add: pool_inv_def)
  moreover have "auth_level auth c < LEVEL_COUNT \<and>
      (case protocol_stage c of
          Empty \<Rightarrow> True
        | EdhocResponderProcessedM1 _ c_r _ _ \<Rightarrow> from_kid [c_r] = Some c_r
        | EdhocResponderSentM2 _ c_r _ \<Rightarrow> from_kid [c_r] = Some c_r
        | Oscore ctx \<Rightarrow> authorization c \<noteq> None \<and> corresponding_cown ?rid c \<noteq> None)"
    if "c \<in> set (entries (ctx_pool st))" for c
  proof -
    have "ctx_ok (\<lambda>_. True) ?rid c"
      using that xs e(1) by (simp add: pool_inv_def)
    then show ?thesis
      by (cases "protocol_stage c") (simp_all add: ctx_ok_def corresponding_cown_def context_level_less del: from_kid.simps)
  qed
  ultimately show ?thesis
    using e(2) by (simp add: pool_iter_def pool_cowns_def cowns_def)
qed


subsection \<open>What reaches the inner handler\<close>

text \<open>
  \<open>reached r\<close>: the result shows that the inner handler was asked.  \<open>grants\<close>: an authorization
  covers a request now.  \<open>protected_by\<close>: the request, taken with a context of the pool and, possibly,
  the EDHOC message 3 in front, decrypts to \<open>m\<close> under an authorization \<open>a\<close> of that context.
\<close>

definition reached ::
    "(coap_error, 'ee) or_inner + (('ee + 'rd, 'corr) own_request_data, 'rd authorization_checked) or_inner \<Rightarrow> bool" where
  "reached r \<longleftrightarrow>
     (case r of
        Inl (Inner _) \<Rightarrow> True
      | Inr (Inner (Allowed _)) \<Rightarrow> True
      | Inr (Own (EdhocOscoreRequest _ _ (Allowed _))) \<Rightarrow> True
      | _ \<Rightarrow> False)"

definition grants :: "('a, 'cred, 'key, 'idc, 'm) authorities \<Rightarrow> nat \<times> nat option \<Rightarrow> 'a \<Rightarrow> message \<Rightarrow> bool" where
  "grants auth now a m \<longleftrightarrow>
     claims_request_is_allowed auth a (request.truncate m) = Inr True \<and>
     is_valid_with (claims_time_constraint auth a) now"

definition protected_by ::
    "minicbor \<Rightarrow> ('r, 'cred, 'key, 'idc) lakers \<Rightarrow> ('alg, 'imm, 'o, 'opt, 'corr, 'm) liboscore \<Rightarrow>
     ('a, 'cred, 'key, 'idc, 'm) authorities \<Rightarrow> ('a, 'r, 'o, 'h) oe_handler \<Rightarrow> message \<Rightarrow> 'a \<Rightarrow> message \<Rightarrow> bool" where
  "protected_by mc lk lo auth st request a m \<longleftrightarrow>
     (\<exists>c with_edhoc c' n ctx opt ctx' corr.
        c \<in> set (pool_iter (ctx_pool st)) \<and>
        process_taken mc lk lo auth request with_edhoc c = Inr (Inr (c', n)) \<and>
        protocol_stage c' = Oscore ctx \<and> authorization c' = Some a \<and>
        unprotect_request lo \<lparr>code = code request, options = without_edhoc (options request),
          payload = drop n (payload request)\<rparr> opt ctx = (ctx', Some (corr, m)))"

lemma store_inner: "store_context auth st c = Inr st' \<Longrightarrow> inner st' = inner st"
  by (auto simp: store_context_def panic_simps)

lemma unprotect_reaches:
  assumes "unprotect_and_extract lo auth ih cp st request opt kid ctx a n = Inr (st', r)"
  shows "(inner st' = inner st \<and> (\<forall>k corr x. r \<noteq> Inr (EdhocOscoreRequest k corr (Allowed x)))) \<or>
    (\<exists>ctx' corr m res. unprotect_request lo \<lparr>code = code request, options = without_edhoc (options request),
        payload = drop n (payload request)\<rparr> opt ctx = (ctx', Some (corr, m)) \<and>
      claims_request_is_allowed auth a (request.truncate m) = Inr True \<and>
      inner_extract ih (inner st) m = (inner st', res))"
  using assms unfolding unprotect_and_extract_def check_and_extract_def Let_def
  by (auto simp: panic_simps split: if_splits option.splits prod.splits dest!: store_inner)

lemma extract_oscore_reaches:
  fixes st :: "('a, 'r, 'o, 'h) oe_handler"
  assumes inv: "handler_inv auth good (recipient_id lo) st"
    and e: "extract_oscore_edhoc mc lk lo auth ih cp now st request opt we = Inr (st', r)"
    and s: "sound_authority auth good"
  shows "(inner st' = inner st \<and> (\<forall>k corr x. r \<noteq> Inr (EdhocOscoreRequest k corr (Allowed x)))) \<or>
    (\<exists>a m res. grants auth now a m \<and> protected_by mc lk lo auth st request a m \<and>
      inner_extract ih (inner st) m = (inner st', res))"
proof -
  obtain xs where xs: "pool_inv auth good (recipient_id lo) (ctx_pool st) xs"
    using inv by (auto simp: handler_inv_def)
  have found: "c \<in> set (pool_iter (ctx_pool st)) \<and> inner st1 = inner st"
    if "take_context auth (recipient_id lo) st kid = Inr (st1, Some c)" for st1 c kid
    using sound_authority.take_found[OF s xs that] by (rule conjI)
  have same: "inner st1 = inner st" if "take_context auth (recipient_id lo) st kid = Inr (st1, f)" for st1 f kid
    using that by (auto simp: take_context_def panic_simps)
  have cont: "(inner st' = inner st1 \<and> (\<forall>k corr x. r \<noteq> Inr (EdhocOscoreRequest k corr (Allowed x)))) \<or>
      (\<exists>a m res ctx ctx' corr. protocol_stage c' = Oscore ctx \<and> authorization c' = Some a \<and> grants auth now a m \<and>
        unprotect_request lo \<lparr>code = code request, options = without_edhoc (options request),
          payload = drop n (payload request)\<rparr> po ctx = (ctx', Some (corr, m)) \<and>
        inner_extract ih (inner st1) m = (inner st', res))"
    if "continue_oscore lo auth ih cp now st1 request po kid (c', n) = Inr (st', r)" for st1 po kid c' n
    using that unprotect_reaches[of lo auth ih cp st1 request po kid _ _ n st' r]
    unfolding continue_oscore_def grants_def
    by (auto split: sec_context_stage.splits option.splits if_splits) blast+
  from e consider (out) "inner st' = inner st" "\<exists>x. r = Inl x"
    | (go) po kid st1 c c' n where "take_context auth (recipient_id lo) st kid = Inr (st1, Some c)"
      "process_taken mc lk lo auth request we c = Inr (Inr (c', n))"
      "continue_oscore lo auth ih cp now st1 request po kid (c', n) = Inr (st', r)"
    unfolding extract_oscore_edhoc_def by (auto simp: panic_simps dest: same)
  then show ?thesis
  proof cases
    case go
    have "protected_by mc lk lo auth st request a m"
      if "protocol_stage c' = Oscore ctx" "authorization c' = Some a"
        "unprotect_request lo \<lparr>code = code request, options = without_edhoc (options request),
          payload = drop n (payload request)\<rparr> po ctx = (ctx', Some (corr, m))" for a m ctx ctx' corr
      using that go(2) found[OF go(1)] unfolding protected_by_def by blast
    then show ?thesis
      using cont[OF go(3)] found[OF go(1)] by metis
  qed auto
qed

lemma own_result_eq:
  "own_result m = Inr (st', r) \<Longrightarrow>
    (\<exists>e. m = Inr (st', Inl e) \<and> r = Inl (Own e)) \<or> (\<exists>d. m = Inr (st', Inr d) \<and> r = Inr (Own d))"
proof -
  assume "own_result m = Inr (st', r)"
  then obtain b where "m = Inr (st', b)" "r = (case b of Inl e \<Rightarrow> Inl (Own e) | Inr d \<Rightarrow> Inr (Own d))"
    by (auto simp: own_result_def panic_simps)
  then show ?thesis
    by (cases b) auto
qed

lemma reached_own [simp]:
  "\<not> reached (Inl (Own e))"
  "reached (Inr (Own d)) \<longleftrightarrow> (\<exists>k corr x. d = EdhocOscoreRequest k corr (Allowed x))"
  by (auto simp: reached_def split: own_request_data.splits authorization_checked.splits)

text \<open>Requests of the handler's own kinds, EDHOC and tokens, do not touch the inner handler.\<close>

lemma extract_edhoc_inner:
  "extract_edhoc lk lo auth st request = Inr (st', r) \<Longrightarrow> inner st' = inner st \<and> (\<forall>d. r = Inr d \<longrightarrow> (\<exists>k. d = EdhocOkSend2 k))"
  unfolding extract_edhoc_def by (auto simp: panic_simps split: if_splits dest!: store_inner)

lemma extract_token_inner: "extract_token mc lo auth own_nonce st pl = Inr (st', r) \<Longrightarrow> inner st' = inner st"
  unfolding extract_token_def by (auto simp: panic_simps dest!: store_inner)

lemma nosec_grants:
  "nosec_allows auth now request = Inr True \<longleftrightarrow> (\<exists>a. nosec_authorization auth = Some a \<and> grants auth now a request)"
  by (auto simp: nosec_allows_def grants_def panic_simps split: option.splits)

text \<open>The four ways a request is handled, besides the refusal of its options.\<close>

lemma request_cases [consumes 1, case_names refused edhoc token oscore plain]:
  assumes "extract_request_data mc lk lo auth ih cp now own_nonce st request = Inr (st', r)"
  obtains e where "st' = st" "r = Inl (Own e)"
  | "own_result (leave st (require_post request) (\<lambda>_. extract_edhoc lk lo auth st request)) = Inr (st', r)"
  | "own_result (leave st (require_post request) (\<lambda>_.
        bnd (extract_token mc lo auth own_nonce st (payload request)) (\<lambda>(st, r).
          Inr (st, bnd r (\<lambda>resp. Inr (ProcessedToken resp)))))) = Inr (st', r)"
  | opt we where "own_result (extract_oscore_edhoc mc lk lo auth ih cp now st request opt we) = Inr (st', r)"
  | "bnd (nosec_allows auth now request) (\<lambda>allowed.
      if allowed then
        (case inner_extract ih (inner st) request of
           (h, Inl e) \<Rightarrow> Inr (st\<lparr>inner := h\<rparr>, Inl (Inner e))
         | (h, Inr extracted) \<Rightarrow> Inr (st\<lparr>inner := h\<rparr>, Inr (Inner (Allowed extracted))))
      else Inr (st, Inr (Inner NotAllowed))) = Inr (st', r)"
proof -
  obtain s extra where rec: "recognise auth (not_ignored cp) Start (options request) = (s, extra)"
    by fastforce
  show ?thesis
  proof (cases "if errors_handled_here s then extra else Inr ()")
    case (Inl e)
    then show ?thesis
      using assms that(1) unfolding extract_request_data_def rec by auto
  next
    case (Inr u)
    note x = assms[unfolded extract_request_data_def rec prod.case Inr sum.case]
    show ?thesis
    proof (cases s)
      case Start
      show ?thesis by (rule that(5)[OF x[unfolded Start recognition.case]])
    next
      case (SeenOscore d)
      show ?thesis by (rule that(4)[OF conjunct2[OF x[unfolded SeenOscore recognition.case early_return(1)]]])
    next
      case (SeenEdhoc d)
      show ?thesis by (rule that(4)[OF conjunct2[OF x[unfolded SeenEdhoc recognition.case early_return(1)]]])
    next
      case WellKnown
      show ?thesis by (rule that(5)[OF x[unfolded WellKnown recognition.case]])
    next
      case WellKnownEdhoc
      show ?thesis by (rule that(2)[OF conjunct2[OF x[unfolded WellKnownEdhoc recognition.case early_return(1)]]])
    next
      case AuthzInfo
      show ?thesis by (rule that(3)[OF conjunct2[OF x[unfolded AuthzInfo recognition.case early_return(1)]]])
    next
      case Unencrypted
      show ?thesis by (rule that(5)[OF x[unfolded Unencrypted recognition.case]])
    qed
  qed
qed

text \<open>When the inner handler is asked, and about what.\<close>

lemma request_reaches:
  assumes "served mc lk lo auth ih cp st" "liboscore_ok lo"
    and "extract_request_data mc lk lo auth ih cp now own_nonce st request = Inr (st', r)"
  shows "inner st' = inner st \<and> \<not> reached r \<or>
    (\<exists>a m res. inner_extract ih (inner st) m = (inner st', res) \<and> grants auth now a m \<and>
      (nosec_authorization auth = Some a \<and> m = request \<or> protected_by mc lk lo auth st request a m))"
  using assms(3)
proof (cases rule: request_cases)
  case edhoc
  show ?thesis
    using own_result_eq[OF edhoc] by (auto simp: panic_simps dest!: extract_edhoc_inner)
next
  case token
  show ?thesis
    using own_result_eq[OF token] by (auto simp: panic_simps dest!: extract_token_inner)
next
  case (oscore opt we)
  have inv: "handler_inv auth (\<lambda>_. True) (recipient_id lo) st"
    using any.served_inv[OF assms(1,2)] .
  from own_result_eq[OF oscore] obtain r' where r': "extract_oscore_edhoc mc lk lo auth ih cp now st request opt we = Inr (st', r')"
    and "reached r \<longleftrightarrow> (\<exists>k corr x. r' = Inr (EdhocOscoreRequest k corr (Allowed x)))"
    by (elim disjE exE conjE) auto
  then show ?thesis
    using extract_oscore_reaches[OF inv r' any.sound_authority_axioms] by metis
next
  case plain
  show ?thesis
  proof (cases "nosec_allows auth now request = Inr True")
    case True
    then obtain a where "nosec_authorization auth = Some a" "grants auth now a request"
      using nosec_grants[of auth now request] by blast
    moreover have "\<exists>res. inner_extract ih (inner st) request = (inner st', res)"
      using plain True by (auto split: prod.splits sum.splits)
    ultimately show ?thesis
      by blast
  next
    case False
    then show ?thesis
      using plain by (auto simp: panic_simps reached_def)
  qed
qed simp

text \<open>
  C3: The inner handler is asked only about requests somebody is authorized for.  In every state the
  handler can be in, extracting a request either leaves the inner handler alone, or asks it exactly
  about a message which some authorization covers by scope and time at that moment: the
  authorization of unauthenticated peers for the request itself, or the authorization of a security
  context of the pool for the message the request decrypts to in that context.
\<close>

theorem inner_needs_authorization:
  assumes "served mc lk lo auth ih cp st" "liboscore_ok lo"
    and "extract_request_data mc lk lo auth ih cp now own_nonce st request = Inr (st', r)"
  shows "inner st' = inner st \<and> \<not> reached r \<or>
    (\<exists>a m res. inner_extract ih (inner st) m = (inner st', res) \<and> grants auth now a m \<and>
      (nosec_authorization auth = Some a \<and> m = request \<or> protected_by mc lk lo auth st request a m))"
  using assms by (rule request_reaches)

end
