(* ===== verification/SecLifetime.thy ===== *)
theory SecLifetime
  imports SecProperties
begin

section \<open>How long security contexts live\<close>

text \<open>
  Which contexts a request may remove from the pool: the one a protected request names, when it can
  not be used any more, and otherwise only entries that are of less value than those that stay.
\<close>

subsection \<open>What an insertion removes\<close>

lemma spec_keeps:
  assumes "sorted (map level xs)" "e \<in> set xs" "e' \<in> set xs" "level e < level e'"
  shows "e \<in> set (fst (spec_force_insert level n c xs))"
proof -
  have "xs \<noteq> []"
    using assms(2) by auto
  then have split: "xs = butlast xs @ [last xs]"
    by simp
  then have "sorted (map level (butlast xs) @ [level (last xs)])"
    using assms(1) by (metis list.simps(8,9) map_append)
  moreover have "x \<in> set (butlast xs) \<or> x = last xs" if "x \<in> set xs" for x
    using that split by (metis Un_iff empty_iff insert_iff list.set(1,2) set_append)
  ultimately have "\<forall>x\<in>set xs. level x \<le> level (last xs)"
    by (fastforce simp: sorted_append)
  then have "level e < level (last xs)"
    using assms(3,4) by (meson order_less_le_trans)
  then have "e \<in> set (butlast xs)"
    using assms(2) split by (metis Un_iff empty_iff insert_iff list.set(1,2) nat_neq_iff set_append)
  then show ?thesis
    using assms(2) by (auto simp: spec_force_insert_def set_place)
qed

lemma pool_inv_sorted: "pool_inv auth good rid q xs \<Longrightarrow> sorted (map (auth_level auth) xs)"
  by (simp add: pool_inv_def pool_rep_def)

lemma pool_iter_inv: "pool_inv auth good rid q xs \<Longrightarrow> set (pool_iter q) = set xs"
  by (simp add: pool_iter_def pool_inv_entries(1))

text \<open>Storing a context while an empty entry is there removes no other.\<close>

lemma store_keeps:
  assumes xs: "pool_inv auth good rid (ctx_pool st) xs" and empty: "sec_context_default \<in> set xs"
    and c: "ctx_ok good rid c" "\<forall>k. corresponding_cown rid c = Some k \<longrightarrow> k \<notin> set (cowns rid xs)"
    and st': "store_context auth st c = Inr st'"
    and e: "e \<in> set (pool_iter (ctx_pool st))" "protocol_stage e \<noteq> Empty"
  shows "e \<in> set (pool_iter (ctx_pool st'))"
proof -
  let ?l = "auth_level auth"
  have "pool_inv auth good rid (ctx_pool st') (fst (spec_force_insert ?l MAX_CONTEXTS c xs))"
    using force_insert_inv[OF xs c] st' by (auto simp: store_context_def)
  then have "set (pool_iter (ctx_pool st')) = set (fst (spec_force_insert ?l MAX_CONTEXTS c xs))"
    by (rule pool_iter_inv)
  moreover have "?l e < ?l sec_context_default"
    using e(2) by (simp add: context_level_def level_defs split: sec_context_stage.split)
  ultimately show ?thesis
    using spec_keeps[OF pool_inv_sorted[OF xs] _ empty] e(1) pool_iter_inv[OF xs] by simp
qed

text \<open>The end of a protected request: the pool is left alone, or the context is stored again.\<close>

lemma continue_pool:
  assumes "continue_oscore lo auth ih cp now st request opt kid (c, n) = Inr (st', r)"
  shows "ctx_pool st' = ctx_pool st \<or>
    (\<exists>st0 ctx a dec ctx'. ctx_pool st0 = ctx_pool st \<and> protocol_stage c = Oscore ctx \<and> authorization c = Some a \<and>
      unprotect_request lo \<lparr>code = code request, options = without_edhoc (options request),
        payload = drop n (payload request)\<rparr> opt ctx = (ctx', dec) \<and>
      store_context auth st0 \<lparr>authorization = Some a, protocol_stage = Oscore ctx'\<rparr> = Inr st')"
proof -
  have "ctx_pool (st\<lparr>inner := h\<rparr>) = ctx_pool st" for h
    by simp
  then show ?thesis
    using assms unfolding continue_oscore_def unprotect_and_extract_def Let_def
    by (auto simp: panic_simps split: sec_context_stage.splits option.splits if_splits prod.splits)
qed

lemma continue_keeps:
  fixes st :: "('a, 'r, 'o, 'h) oe_handler"
  assumes lo: "liboscore_ok lo" and ys: "pool_inv auth (\<lambda>_. True) (recipient_id lo) (ctx_pool st) ys"
    and empty: "sec_context_default \<in> set ys" and free: "kid \<notin> set (cowns (recipient_id lo) ys)"
    and c: "ctx_ok (\<lambda>_. True) (recipient_id lo) c" "corresponding_cown (recipient_id lo) c = Some kid"
    and run: "continue_oscore lo auth ih cp now st request opt kid (c, n) = Inr (st', r)"
    and e: "e \<in> set (pool_iter (ctx_pool st))" "protocol_stage e \<noteq> Empty"
  shows "e \<in> set (pool_iter (ctx_pool st'))"
  using continue_pool[OF run]
proof (elim disjE exE conjE)
  fix st0 ctx a dec ctx'
  let ?rid = "recipient_id lo" and ?kept = "\<lparr>authorization = Some a, protocol_stage = Oscore ctx'\<rparr> :: ('a, 'r, 'o) sec_context_state"
  assume st0: "ctx_pool st0 = ctx_pool st" "protocol_stage c = Oscore ctx"
    and u: "unprotect_request lo \<lparr>code = code request, options = without_edhoc (options request),
       payload = drop n (payload request)\<rparr> opt ctx = (ctx', dec)"
    and store: "store_context auth st0 ?kept = Inr st'"
  have "?rid ctx' = ?rid ctx"
    using lo u unfolding liboscore_ok_def by (metis fst_conv)
  then have k: "ctx_ok (\<lambda>_. True) ?rid ?kept" "corresponding_cown ?rid ?kept = Some kid"
    using c st0(2) by (simp_all add: ctx_ok_def corresponding_cown_def)
  then have "\<forall>k. corresponding_cown ?rid ?kept = Some k \<longrightarrow> k \<notin> set (cowns ?rid ys)"
    using free by simp
  moreover have "pool_inv auth (\<lambda>_. True) ?rid (ctx_pool st0) ys"
    using ys st0(1) by simp
  ultimately show ?thesis
    using store_keeps[OF _ empty k(1) _ store] e st0(1) by metis
qed (use e in simp)

text \<open>
  C18: A protected request costs no context but its own.  Whatever its outcome, decryption failure,
  expired authorization, unusable EDHOC message 3 or success, every context that is in use in the
  pool and whose identifier is not the one the request names is still there afterwards: storing the
  taken context again evicts only the empty entry that was left for it.
\<close>

theorem oscore_keeps_other_contexts:
  fixes st :: "('a, 'r, 'o, 'h) oe_handler"
  assumes "served mc lk lo auth ih cp st" and lo: "liboscore_ok lo"
    and e: "extract_oscore_edhoc mc lk lo auth ih cp now st request val with_edhoc = Inr (st', r)"
    and kid: "parse_option lo val = Some opt" "option_kid lo opt = Some kid_bytes" "from_kid (words_of kid_bytes) = Some kid"
  shows "\<forall>c\<in>set (pool_iter (ctx_pool st)). protocol_stage c \<noteq> Empty \<and> corresponding_cown (recipient_id lo) c \<noteq> Some kid \<longrightarrow>
    c \<in> set (pool_iter (ctx_pool st'))"
proof clarify
  fix c assume c: "c \<in> set (pool_iter (ctx_pool st))" "protocol_stage c \<noteq> Empty"
    "corresponding_cown (recipient_id lo) c \<noteq> Some kid"
  let ?rid = "recipient_id lo" and ?l = "auth_level auth"
  obtain xs where xs: "pool_inv auth (\<lambda>_. True) ?rid (ctx_pool st) xs"
    using any.served_inv[OF assms(1) lo] by (auto simp: handler_inv_def)
  obtain st1 found where t: "take_context auth ?rid st kid = Inr (st1, found)"
    using outcome_total[OF any.take_outcome[OF xs, where bad = False and kid = kid]] by auto
  note taken = outcome_InrD[OF any.take_outcome[OF xs, where bad = True] t]
  show "c \<in> set (pool_iter (ctx_pool st'))"
  proof (cases found)
    case None
    then have "ctx_pool st' = ctx_pool st1" "pool_inv auth (\<lambda>_. True) ?rid (ctx_pool st1) xs"
      using e kid t taken by (auto simp: extract_oscore_edhoc_def panic_simps)
    then show ?thesis
      using c(1) pool_iter_inv xs by metis
  next
    case (Some d)
    then obtain as bs where d: "ctx_ok (\<lambda>_. True) ?rid d" "corresponding_cown ?rid d = Some kid"
      and sp: "xs = as @ d # bs" "kid \<notin> set (cowns ?rid (as @ bs))"
      and ys: "pool_inv auth (\<lambda>_. True) ?rid (ctx_pool st1) (place ?l sec_context_default (as @ bs))"
      using taken by auto
    have c1: "c \<in> set (pool_iter (ctx_pool st1))"
      using c d(2) sp(1) pool_iter_inv[OF xs] pool_iter_inv[OF ys] by (auto simp: set_place)
    obtain r1 where r1: "process_taken mc lk lo auth request with_edhoc d = Inr r1"
      using e kid t Some by (auto simp: extract_oscore_edhoc_def panic_simps)
    have "with_edhoc \<Longrightarrow> HAS_EDHOC auth"
      using r1 by (auto simp: process_taken_def split: if_splits)
    note r1_ok = outcome_InrD[OF any.taken_outcome[OF lo d this, where mc = mc] r1]
    show ?thesis
    proof (cases r1)
      case (Inl x)
      then show ?thesis
        using e kid t Some r1 c1 by (auto simp: extract_oscore_edhoc_def panic_simps)
    next
      case (Inr p)
      obtain c' n where p: "p = (c', n)"
        by fastforce
      then have c': "ctx_ok (\<lambda>_. True) ?rid c'" "corresponding_cown ?rid c' = Some kid"
        using r1_ok Inr by auto
      have "continue_oscore lo auth ih cp now st1 request opt kid (c', n) = Inr (st', r)"
        using e kid t Some r1 Inr p by (auto simp: extract_oscore_edhoc_def panic_simps)
      moreover have "kid \<notin> set (cowns ?rid (place ?l sec_context_default (as @ bs)))"
        using sp(2) by (auto simp: in_cowns set_place)
      ultimately show ?thesis
        using continue_keeps[OF lo ys _ _ c' _ c1 c(2)] by (simp add: set_place)
    qed
  qed
qed

subsection \<open>Handshakes do not push out established contexts\<close>

definition is_oscore :: "('a, 'r, 'o) sec_context_state \<Rightarrow> bool" where
  "is_oscore c = (case protocol_stage c of Oscore _ \<Rightarrow> True | _ \<Rightarrow> False)"

definition oscore_contexts :: "('a, 'r, 'o) sec_context_state pool \<Rightarrow> ('a, 'r, 'o) sec_context_state multiset" where
  "oscore_contexts q = mset (filter is_oscore (pool_iter q))"

text \<open>Any number of EDHOC messages 1, answered or not.\<close>

inductive handshakes ::
    "('r, 'cred, 'key, 'idc) lakers \<Rightarrow> ('alg, 'imm, 'o, 'opt, 'corr, 'm) liboscore \<Rightarrow>
     ('a, 'cred, 'key, 'idc, 'm) authorities \<Rightarrow> ('m, 'ue) coap \<Rightarrow>
     ('a, 'r, 'o, 'h) oe_handler \<Rightarrow> ('a, 'r, 'o, 'h) oe_handler \<Rightarrow> bool"
  for lk lo auth cp st where
  none: "handshakes lk lo auth cp st st"
| message_1: "handshakes lk lo auth cp st st1 \<Longrightarrow>
    extract_edhoc lk lo auth st1 request = Inr (st2, r :: coap_error + (unit, 'corr) own_request_data) \<Longrightarrow>
    handshakes lk lo auth cp st st2"
| message_2: "handshakes lk lo auth cp st st1 \<Longrightarrow>
    build_edhoc_message_2 lk lo auth cp st1 response c_r = Inr (st2, m, e) \<Longrightarrow> handshakes lk lo auth cp st st2"

lemma is_oscore_level: "is_oscore c \<longleftrightarrow> auth_level auth c < LEVEL_ONGOING"
  by (simp add: is_oscore_def context_level_def level_defs split: sec_context_stage.split)

lemma not_oscore [simp]:
  "\<not> is_oscore sec_context_default"
  "\<not> is_oscore \<lparr>authorization = a, protocol_stage = EdhocResponderProcessedM1 r c_r c_i v\<rparr>"
  "\<not> is_oscore \<lparr>authorization = a, protocol_stage = EdhocResponderSentM2 r c_r c_i\<rparr>"
  by (simp_all add: is_oscore_def)

lemma oscore_contexts_rep: "pool_inv auth good rid q xs \<Longrightarrow> oscore_contexts q = filter_mset is_oscore (mset xs)"
  using pool_inv_mset[of auth good rid q xs] by (simp add: oscore_contexts_def pool_iter_def)

text \<open>An insertion that is less valuable than the kept entries evicts none of them while one other is there.\<close>

lemma force_insert_filter:
  assumes "sorted (map level xs)" and P: "\<And>e. P e \<longleftrightarrow> level e < k" and "\<not> P c"
    and "size (filter_mset P (mset xs)) < n" "length xs \<le> n"
  shows "filter_mset P (mset (fst (spec_force_insert level n c xs))) = filter_mset P (mset xs)"
proof (cases "length xs < n")
  case True
  then show ?thesis
    using assms(3) by (simp add: spec_force_insert_def mset_place)
next
  case False
  then have "xs \<noteq> []"
    using assms(4) by auto
  then obtain ys y where xs: "xs = ys @ [y]"
    by (metis append_butlast_last_id)
  have "\<not> P y"
  proof
    assume "P y"
    then have "\<forall>e\<in>set xs. P e"
      using assms(1) P unfolding xs by (auto simp: sorted_append)
    then have "filter P xs = xs"
      by simp
    then show False
      using assms(4) False by (metis mset_filter size_mset)
  qed
  then show ?thesis
    using assms(3) False by (simp add: spec_force_insert_def mset_place xs)
qed

lemma lookup_filter:
  assumes "\<And>e. e \<in> set xs \<Longrightarrow> f_test e \<Longrightarrow> snd (spec_lookup level f_test f_use xs) = Some (snd (f_use e)) \<Longrightarrow>
    \<not> P e \<and> \<not> P (fst (f_use e))"
  shows "filter_mset P (mset (fst (spec_lookup level f_test f_use xs))) = filter_mset P (mset xs)"
proof (cases "dropWhile (Not \<circ> f_test) xs")
  case Nil
  show ?thesis
    unfolding spec_lookup_def Nil by simp
next
  case (Cons e bs)
  then have xs: "xs = takeWhile (Not \<circ> f_test) xs @ e # bs"
    using takeWhile_dropWhile_id[of "Not \<circ> f_test" xs] by simp
  have "f_test e" "e \<in> set xs"
    using hd_dropWhile[of "Not \<circ> f_test" xs] set_dropWhileD[of e "Not \<circ> f_test" xs] Cons by auto
  then have e: "\<not> P e" "\<not> P (fst (f_use e))"
    using assms[of e] unfolding spec_lookup_def Cons by simp_all
  have "mset xs = mset (takeWhile (Not \<circ> f_test) xs) + add_mset e (mset bs)"
    using arg_cong[OF xs, of mset] by simp
  then show ?thesis
    using e unfolding spec_lookup_def Cons by (simp add: mset_place)
qed

lemma store_oscore:
  assumes xs: "pool_inv auth good rid (ctx_pool st) xs" and c: "\<not> is_oscore c"
    and st': "store_context auth st c = Inr st'" and n: "size (oscore_contexts (ctx_pool st)) < MAX_CONTEXTS"
    and inv: "handler_inv auth good rid st'"
  shows "oscore_contexts (ctx_pool st') = oscore_contexts (ctx_pool st)"
proof -
  have rep: "pool_rep (auth_level auth) MAX_CONTEXTS (ctx_pool st) xs"
    using xs by (simp add: pool_inv_def)
  obtain q' where q': "pool_force_insert (auth_level auth) MAX_CONTEXTS (ctx_pool st) c =
      Inr (q', snd (spec_force_insert (auth_level auth) MAX_CONTEXTS c xs))"
    "pool_rep (auth_level auth) MAX_CONTEXTS q' (fst (spec_force_insert (auth_level auth) MAX_CONTEXTS c xs))"
    using pool_force_insert_rep[OF rep, of c] by (auto simp: MAX_CONTEXTS_def)
  then have "ctx_pool st' = q'"
    using st' by (auto simp: store_context_def)
  moreover obtain ys where ys: "pool_inv auth good rid (ctx_pool st') ys"
    using inv by (auto simp: handler_inv_def)
  ultimately have "ys = fst (spec_force_insert (auth_level auth) MAX_CONTEXTS c xs)"
    using q'(2) by (simp add: pool_inv_def pool_rep_def)
  then show ?thesis
    using force_insert_filter[OF pool_inv_sorted[OF xs] is_oscore_level[of _ auth] c, of MAX_CONTEXTS] n
      pool_inv_entries(3)[OF xs]
    by (simp add: oscore_contexts_rep[OF xs] oscore_contexts_rep[OF ys])
qed

lemma message_1_oscore:
  assumes inv: "handler_inv auth (\<lambda>_. True) (recipient_id lo) st" and has: "HAS_EDHOC auth"
    and e: "extract_edhoc lk lo auth st request = Inr (st', r)"
    and n: "size (oscore_contexts (ctx_pool st)) < MAX_CONTEXTS"
  shows "handler_inv auth (\<lambda>_. True) (recipient_id lo) st' \<and> oscore_contexts (ctx_pool st') = oscore_contexts (ctx_pool st)"
proof -
  obtain xs where xs: "pool_inv auth (\<lambda>_. True) (recipient_id lo) (ctx_pool st) xs"
    using inv by (auto simp: handler_inv_def)
  have inv': "handler_inv auth (\<lambda>_. True) (recipient_id lo) st'"
    using outcome_InrD[OF any.extract_edhoc_inv[OF inv has] e] by simp
  from e have "st' = st \<or> (\<exists>c. \<not> is_oscore c \<and> store_context auth st c = Inr st')"
    unfolding extract_edhoc_def by (auto simp: panic_simps split: if_splits) (metis not_oscore(2))
  then show ?thesis
    using store_oscore[OF xs _ _ n inv'] inv' by auto
qed

lemma message_2_oscore:
  assumes inv: "handler_inv auth (\<lambda>_. True) (recipient_id lo) st"
    and e: "build_edhoc_message_2 lk lo auth cp st response c_r = Inr (st', m, r)"
  shows "handler_inv auth (\<lambda>_. True) (recipient_id lo) st' \<and> oscore_contexts (ctx_pool st') = oscore_contexts (ctx_pool st)"
proof -
  let ?t = "\<lambda>c. corresponding_cown (recipient_id lo) c = Some c_r"
  obtain xs where xs: "pool_inv auth (\<lambda>_. True) (recipient_id lo) (ctx_pool st) xs"
    using inv by (auto simp: handler_inv_def)
  have inv': "handler_inv auth (\<lambda>_. True) (recipient_id lo) st'"
    using outcome_InrD[OF build_m2_inv[OF inv] e] by simp
  have rep: "pool_rep (auth_level auth) MAX_CONTEXTS (ctx_pool st) xs"
    using xs by (simp add: pool_inv_def)
  let ?s = "spec_lookup (auth_level auth) ?t (prepare_m2 lk c_r) xs"
  obtain q' where q': "pool_lookup (auth_level auth) ?t (prepare_m2 lk c_r) (ctx_pool st) = Inr (q', snd ?s)"
    "pool_rep (auth_level auth) MAX_CONTEXTS q' (fst ?s)"
    using pool_lookup_rep[OF rep, of ?t "prepare_m2 lk c_r"] by blast
  have "ctx_pool st' = q'" and ok: "\<forall>p. snd ?s \<noteq> Some (Inl p)"
    using e unfolding build_edhoc_message_2_def q'(1) Let_def
    by (auto simp: panic_simps mstep_def split: option.splits sum.splits prod.splits)
  moreover obtain ys where ys: "pool_inv auth (\<lambda>_. True) (recipient_id lo) (ctx_pool st') ys"
    using inv' by (auto simp: handler_inv_def)
  ultimately have "ys = fst ?s"
    using q'(2) by (simp add: pool_inv_def pool_rep_def)
  moreover have "\<not> is_oscore e \<and> \<not> is_oscore (fst (prepare_m2 lk c_r e))"
    if "e \<in> set xs" "?t e" "snd ?s = Some (snd (prepare_m2 lk c_r e))" for e
    using ok that(3)
    by (auto simp: prepare_m2_def is_oscore_def split: sec_context_stage.splits sum.splits)
  then have "filter_mset is_oscore (mset (fst ?s)) = filter_mset is_oscore (mset xs)"
    by (rule lookup_filter)
  ultimately show ?thesis
    using inv' by (simp add: oscore_contexts_rep[OF xs] oscore_contexts_rep[OF ys])
qed

text \<open>
  C15: Unauthenticated peers can not displace established contexts.  As long as OSCORE contexts do
  not fill the whole pool, any sequence of EDHOC messages 1 and answers to them leaves the OSCORE
  contexts of the pool as they are: a handshake only ever evicts an unfinished handshake or an empty
  entry.
\<close>

theorem handshakes_keep_contexts:
  assumes "served mc lk lo auth ih cp st" "liboscore_ok lo" "HAS_EDHOC auth"
    and "size (oscore_contexts (ctx_pool st)) < MAX_CONTEXTS"
    and "handshakes lk lo auth cp st st'"
  shows "oscore_contexts (ctx_pool st') = oscore_contexts (ctx_pool st)"
proof -
  have inv: "handler_inv auth (\<lambda>_. True) (recipient_id lo) st"
    using any.served_inv[OF assms(1,2)] .
  from assms(5) have "handler_inv auth (\<lambda>_. True) (recipient_id lo) st' \<and>
      oscore_contexts (ctx_pool st') = oscore_contexts (ctx_pool st)"
  proof induction
    case none
    then show ?case
      using inv by simp
  next
    case (message_1 st1 request st2 r)
    then show ?case
      using message_1_oscore[OF _ assms(3) message_1.hyps(2)] assms(4) by simp
  next
    case (message_2 st1 response c_r st2 m e)
    then show ?case
      using message_2_oscore[OF _ message_2.hyps(2)] by simp
  qed
  then show ?thesis ..
qed

end
