(* ===== verification/SecRequests.thy ===== *)
theory SecRequests
  imports SecLifetime
begin

section \<open>How requests are told apart, and when they are refused\<close>

text \<open>
  Which path the options of a request choose, what becomes of a context whose authorization has
  run out, which parts of an EDHOC message 3 are not looked at, and what a configuration without
  any credentials answers.
\<close>

subsection \<open>The path a request takes\<close>

text \<open>
  The options that leave the start state alone and are not rejected: neither \<open>Uri-Path\<close> nor OSCORE.
\<close>

definition passes :: "('m, 'ue) coap \<Rightarrow> nat \<times> bytes \<Rightarrow> bool" where
  "passes cp opt \<longleftrightarrow> fst opt \<noteq> opt_oscore \<and> fst opt \<noteq> uri_path \<and> not_ignored cp opt = None"

lemma recognise_passes:
  "\<forall>opt\<in>set pre. passes cp opt \<Longrightarrow>
    recognise auth (not_ignored cp) Start (pre @ opts) = recognise auth (not_ignored cp) Start opts"
  by (induction pre) (simp_all add: passes_def recognition_update_def)

lemma recognise_edhoc: "fst (recognise auth rejects (SeenEdhoc val) opts) = SeenEdhoc val"
proof (induction opts)
  case (Cons opt opts)
  then show ?case
    by (simp add: recognition_update_def split: option.split)
qed simp

lemma recognise_oscore:
  "fst (recognise auth rejects (SeenOscore val) opts) = SeenOscore val \<or>
    fst (recognise auth rejects (SeenOscore val) opts) = SeenEdhoc val \<and> HAS_EDHOC auth \<and> (opt_edhoc, []) \<in> set opts"
proof (induction opts)
  case (Cons opt opts)
  then show ?case
    using recognise_edhoc[of auth rejects val opts]
    by (cases opt) (auto simp: recognition_update_def split: option.split)
qed simp

lemma seen_oscore:
  assumes "options request = pre @ (opt_oscore, val) # post" "\<forall>opt\<in>set pre. passes cp opt"
    and "has_oscore auth" "length val \<le> OSCORE_OPTION_LEN"
  shows "recognise auth (not_ignored cp) Start (options request) = recognise auth (not_ignored cp) (SeenOscore val) post"
  using assms by (simp add: recognise_passes recognition_update_def)

text \<open>
  A protected request is never treated as a plain one.  Once an OSCORE option of at most 16 bytes
  is reached, extracting the request is extracting it with that option, whatever options follow; an
  EDHOC message 3 is looked for in the payload only if an empty EDHOC option follows.
\<close>

theorem oscore_not_downgraded:
  assumes "options request = pre @ (opt_oscore, val) # post" "\<forall>opt\<in>set pre. passes cp opt"
    and "has_oscore auth" "length val \<le> OSCORE_OPTION_LEN"
  shows "\<exists>with_edhoc. (with_edhoc \<longrightarrow> HAS_EDHOC auth \<and> (opt_edhoc, []) \<in> set post) \<and>
    extract_request_data mc lk lo auth ih cp now own_nonce st request =
      own_result (extract_oscore_edhoc mc lk lo auth ih cp now st request val with_edhoc)"
proof -
  obtain s extra where s: "recognise auth (not_ignored cp) (SeenOscore val) post = (s, extra)"
    by fastforce
  note e = extract_request_data_def[of mc lk lo auth ih cp now own_nonce st request, unfolded seen_oscore[OF assms] s]
  from recognise_oscore[of auth "not_ignored cp" val post] show ?thesis
  proof
    assume "fst (recognise auth (not_ignored cp) (SeenOscore val) post) = SeenOscore val"
    then show ?thesis
      using e assms(3) s by (intro exI[of _ False]) (simp add: errors_handled_here_def)
  next
    assume a: "fst (recognise auth (not_ignored cp) (SeenOscore val) post) = SeenEdhoc val \<and>
      HAS_EDHOC auth \<and> (opt_edhoc, []) \<in> set post"
    then show ?thesis
      using e s by (intro exI[of _ True]) (simp add: errors_handled_here_def)
  qed
qed

text \<open>
  An option that is rejected in front of the OSCORE option hides it: the options after it are not
  looked at, and the request is answered as a plain one.  Whatever follows, without an authorization
  of unauthenticated peers that covers the outer request it is not allowed.
\<close>

theorem rejected_option_hides_oscore:
  assumes "options request = pre @ opt # post" "\<forall>o'\<in>set pre. passes cp o'"
    and "fst opt \<noteq> opt_oscore" "fst opt \<noteq> uri_path" "not_ignored cp opt = Some e"
  shows "extract_request_data mc lk lo auth ih cp now own_nonce st request =
    bnd (nosec_allows auth now request) (\<lambda>allowed.
      if allowed then
        (case inner_extract ih (inner st) request of
           (h, Inl e) \<Rightarrow> Inr (st\<lparr>inner := h\<rparr>, Inl (Inner e))
         | (h, Inr extracted) \<Rightarrow> Inr (st\<lparr>inner := h\<rparr>, Inr (Inner (Allowed extracted))))
      else Inr (st, Inr (Inner NotAllowed)))"
proof -
  have "recognise auth (not_ignored cp) Start (options request) = (Start, Inl e)"
    using assms by (simp add: recognise_passes recognition_update_def)
  then show ?thesis
    by (simp add: extract_request_data_def errors_handled_here_def)
qed

subsection \<open>Contexts past their time\<close>

lemma take_none:
  assumes "pool_inv auth good rid (ctx_pool st) xs" "take_context auth rid st kid = Inr (st', None)"
  shows "kid \<notin> set (cowns rid xs)"
proof -
  let ?t = "\<lambda>c. corresponding_cown rid c = Some kid"
  have "pool_rep (auth_level auth) MAX_CONTEXTS (ctx_pool st) xs"
    using assms(1) by (simp add: pool_inv_def)
  then have "snd (spec_lookup (auth_level auth) ?t (\<lambda>c. (sec_context_default, c)) xs) = None"
    using pool_lookup_rep[of "auth_level auth" MAX_CONTEXTS "ctx_pool st" xs ?t "\<lambda>c. (sec_context_default, c)"] assms(2)
    by (auto simp: take_context_def)
  then have "dropWhile (Not \<circ> ?t) xs = []"
    by (simp add: spec_lookup_def split: list.splits)
  then show ?thesis
    by (auto simp: in_cowns)
qed

text \<open>
  A context is of no use once its authorization has run out.  A request in a context whose time
  constraint does not hold is refused with 4.00, the inner handler is not asked, and the context is
  gone from the pool.
\<close>

theorem expired_context_discarded:
  fixes st :: "('a, 'r, 'o, 'h) oe_handler"
  assumes "served mc lk lo auth ih cp st" "liboscore_ok lo"
    and kid: "parse_option lo val = Some opt" "option_kid lo opt = Some kid_bytes" "from_kid (words_of kid_bytes) = Some kid"
    and c: "c \<in> set (pool_iter (ctx_pool st))" "protocol_stage c = Oscore ctx" "from_kid (words_of (recipient_id lo ctx)) = Some kid"
      "authorization c = Some a" "\<not> is_valid_with (claims_time_constraint auth a) now"
  shows "\<exists>st'. extract_oscore_edhoc mc lk lo auth ih cp now st request val False = Inr (st', Inl BadRequest) \<and>
    inner st' = inner st \<and> kid \<notin> set (pool_cowns (recipient_id lo) (ctx_pool st'))"
proof -
  let ?rid = "recipient_id lo" and ?l = "auth_level auth"
  obtain xs where xs: "pool_inv auth (\<lambda>_. True) ?rid (ctx_pool st) xs"
    using any.served_inv[OF assms(1,2)] by (auto simp: handler_inv_def)
  have k: "corresponding_cown ?rid c = Some kid" "c \<in> set xs"
    using c pool_iter_inv[OF xs] by (simp_all add: corresponding_cown_def)
  obtain st1 found where t: "take_context auth ?rid st kid = Inr (st1, found)"
    using outcome_total[OF any.take_outcome[OF xs, where bad = False and kid = kid]] by auto
  note taken = outcome_InrD[OF any.take_outcome[OF xs, where bad = True] t]
  have "kid \<in> set (cowns ?rid xs)"
    using k by (auto simp: in_cowns)
  then have "found \<noteq> None"
    using t take_none[OF xs] by metis
  then obtain d where d: "found = Some d"
    by blast
  then obtain as bs where sp: "xs = as @ d # bs" "kid \<notin> set (cowns ?rid (as @ bs))" "corresponding_cown ?rid d = Some kid"
      and ys: "pool_inv auth (\<lambda>_. True) ?rid (ctx_pool st1) (place ?l sec_context_default (as @ bs))"
    using taken by auto
  have "d = c"
    using sp k by (auto simp: in_cowns)
  then have "extract_oscore_edhoc mc lk lo auth ih cp now st request val False = Inr (st1, Inl BadRequest)"
    using kid t d c by (simp add: extract_oscore_edhoc_def process_taken_def continue_oscore_def)
  moreover have "kid \<notin> set (pool_cowns ?rid (ctx_pool st1))"
    using sp(2) pool_iter_inv[OF ys] by (auto simp: pool_cowns_def cowns_def[symmetric] in_cowns set_place)
  ultimately show ?thesis
    using taken by auto
qed

subsection \<open>External authorization data in EDHOC message 3\<close>

text \<open>
  A critical EAD item of message 3 is not refused.  Whatever item other than a token comes with
  message 3, also a critical one nobody has processed, the peer whose credential is known is given a
  context: by the time the item is checked it has been taken out of its variable.
\<close>

theorem critical_ead_3_accepted:
  assumes "message_buffer lk msg = Inr msg_3" "parse_message_3 lk responder msg_3 = Inr (responder1, id_cred_i, Some item)"
    and "ead_label item \<noteq> ead_acetoken" "expand_id_cred_x auth id_cred_i = Some (cred_i, a)"
    and "verify_message_3 lk responder1 cred_i = Inr responder2"
    and "completed_without_message_4 lk responder2 = Inr responder3"
    and "edhoc_oscore_context lk lo responder3 c_r c_i = Inr ctx"
  shows "process_message_3 mc lk lo auth msg responder c_r c_i =
    Inr (Inr \<lparr>authorization = Some a, protocol_stage = Oscore ctx\<rparr>)"
  using assms by (simp add: process_message_3_def option_take_def credential_of_token_def)

subsection \<open>A configuration without credentials\<close>

text \<open>
  The authorities that hold nothing a peer could be admitted by, and what the handler does with one.
\<close>

locale refusing_authority =
  fixes auth :: "('a, 'cred, 'key, 'idc, 'm) authorities"
  assumes no_credential: "own_edhoc_credential auth = None"
    and no_unauthenticated: "nosec_authorization auth = None"
    and no_token: "decrypt_symmetric_token auth headers aad buffer \<noteq> Inr r"
begin

lemma empty_lookup [simp]: "sorted_idx q = [] \<Longrightarrow> pool_lookup level f_test f_use q = Inr (q, None)"
  by (simp add: pool_lookup_def lookup_from.simps)

lemma edhoc_refused: "extract_edhoc lk lo auth st request = Inr (st, Inl NotFound)"
  by (simp add: extract_edhoc_def no_credential)

lemma token_refused: "extract_token mc lo auth own_nonce st pl = Inr (st', r) \<Longrightarrow> st' = st \<and> (\<exists>e. r = Inl e)"
proof -
  assume e: "extract_token mc lo auth own_nonce st pl = Inr (st', r)"
  have "process_acecbor_authz_info mc lo auth pl own_nonce f \<noteq> Inr (Inr x)" for f x
    using no_token by (auto simp: process_acecbor_authz_info_def result_simps)
  then show ?thesis
    using e by (auto simp: extract_token_def panic_simps)
qed

lemma oscore_refused:
  "sorted_idx (ctx_pool st) = [] \<Longrightarrow> extract_oscore_edhoc mc lk lo auth ih cp now st request val we = Inr (st', r) \<Longrightarrow>
    st' = st \<and> (\<exists>e. r = Inl e)"
  by (auto simp: extract_oscore_edhoc_def take_context_def panic_simps)

lemma extract_refused:
  assumes "sorted_idx (ctx_pool st) = []"
    and e: "extract_request_data mc lk lo auth ih cp now own_nonce st request = Inr (st', r)"
  shows "st' = st \<and> ((\<exists>e. r = Inl (Own e)) \<or> r = Inr (Inner NotAllowed))"
  using e
proof (cases rule: request_cases)
  case edhoc
  then show ?thesis
    using own_result_eq[OF edhoc] by (auto simp: edhoc_refused panic_simps)
next
  case token
  show ?thesis
    using own_result_eq[OF token] by (auto simp: panic_simps dest!: token_refused)
next
  case (oscore opt we)
  then show ?thesis
    using own_result_eq[OF oscore] oscore_refused[OF assms(1)] by blast
next
  case plain
  moreover have "nosec_allows auth now request = Inr False"
    by (simp add: nosec_allows_def no_unauthenticated)
  ultimately show ?thesis
    by simp
qed simp

lemma build_keeps_empty:
  "sorted_idx (ctx_pool st) = [] \<Longrightarrow> build_response mc lk lo auth ih cp st response d = Inr (st', m, r) \<Longrightarrow>
    sorted_idx (ctx_pool st') = []"
  by (auto simp: build_response_def build_edhoc_message_2_def build_oscore_response_def panic_simps
      split: or_inner.splits own_request_data.splits authorization_checked.splits if_splits prod.splits sum.splits bool.splits)

lemma served_empty: "served mc lk lo auth ih cp st \<Longrightarrow> sorted_idx (ctx_pool st) = []"
proof (induction rule: served.induct)
  case (boot h st)
  then show ?case
    by (auto simp: oe_handler_new_def pool_new_def panic_simps)
next
  case (request st now own_nonce req st' r)
  then show ?case
    using extract_refused by blast
next
  case (response st msg data st' msg' r)
  then show ?case
    using build_keeps_empty by blast
qed

end

interpretation deny_refuses: refusing_authority deny_all
  by unfold_locales (simp_all add: deny_all_def default_config_def)

interpretation new_refuses: refusing_authority "config_authorities mc cr cs wr config_new"
  by unfold_locales
    (auto simp: config_new_def cfg_nosec_authorization_def cfg_decrypt_ok)

text \<open>
  A configuration nothing was added to admits nobody.  However the handler has been used, a
  request leaves it as it is and is answered with an error of its own or with the refusal of
  unauthorized requests; the inner handler is never asked.
\<close>

theorem empty_config_admits_nobody:
  assumes "served mc lk lo (config_authorities mc cr cs wr config_new) ih cp st"
    and "extract_request_data mc lk lo (config_authorities mc cr cs wr config_new) ih cp now own_nonce st request = Inr (st', r)"
  shows "st' = st \<and> ((\<exists>e. r = Inl (Own e)) \<or> r = Inr (Inner NotAllowed))"
  using new_refuses.extract_refused[OF new_refuses.served_empty[OF assms(1)] assms(2)] .

end
