(* ===== verification/SecExamples.thy ===== *)
theory SecExamples
  imports SecRequests
begin

section \<open>An exchange, evaluated\<close>

text \<open>
  A server with one symmetric key, its own EDHOC credential, one known client and an open scope for
  unauthenticated peers, together with simple instances of the other crates: \<open>liboscore\<close> contexts
  are their recipient identifiers, protected messages are not encrypted and ask for \<open>/a\<close>, and responses are their
  payloads.  The inner handler counts the requests it is asked about.  A token is posted, and then a
  second one; the theorems of the other theories are applied to the states this leads to.
\<close>

subsection \<open>The instances\<close>

definition ex_claims :: cwt_claims_set where
  "ex_claims = \<lparr>cl_aud = Some ''rs'', cl_exp = 100, cl_iat = 1,
     cl_cnf = \<lparr>cnf_osc = Some \<lparr>om_id = ''i'', om_ms = ''secret''\<rparr>, cnf_cose_key = None\<rparr>, cl_scope = ''scope''\<rparr>"

definition ex_mc :: minicbor where
  "ex_mc = example_minicbor
     \<lparr>decode_ace_cbor := (\<lambda>tok. Some \<lparr>access_token = Some tok, nonce1 = Some ''nonce1'', nonce2 = None,
        ace_client_recipientid = Some ''c'', ace_server_recipientid = None\<rparr>),
      decode_encrypt0 := (\<lambda>_. Some (example_token 5)),
      decode_sign1 := (\<lambda>_. Some \<lparr>cs_protected = ''p'', cs_unprotected = \<lparr>hm_alg = Some (- 7), hm_iv = None\<rparr>,
        cs_payload = ''claims'', cs_signature = ''signature''\<rparr>),
      decode_claims := (\<lambda>_. Some ex_claims), decode_byte_slice := (\<lambda>bs. Some (min 1 (length bs))),
      decode_aif := (\<lambda>_. Some [Some (''/a'', 3)])\<rparr>"

definition ex_lo :: "(unit, bytes, bytes, bytes, unit, bytes) liboscore" where
  "ex_lo = \<lparr>hkdf_from_number = (\<lambda>_. Some ()), aead_from_number = (\<lambda>_. Some ()),
     derive_immutables = (\<lambda>hkdf ms salt cid aead s r. Some r), new_from_fresh_material = (\<lambda>imm. imm),
     recipient_id = (\<lambda>ctx. ctx), parse_option = Some, option_kid = Some,
     unprotect_request = (\<lambda>msg opt ctx. (ctx, if code msg = 0 then None else Some ((), msg\<lparr>options := [(uri_path, ''a'')]\<rparr>))),
     protect_begin = (\<lambda>m ctx corr. (m, ctx, True)), protect_end = (\<lambda>m ctx. (m, True))\<rparr>"

definition ex_lk :: "(nat, bytes, bytes, bytes) lakers" where
  "ex_lk = \<lparr>message_buffer = Inr, process_message_1 = (\<lambda>key cred m. Inr (1, ''peer'', None)),
     prepare_message_2 = (\<lambda>r transfer c. Inr (r + 1, ''message 2'')),
     parse_message_3 = (\<lambda>r m. Inr (r + 1, ''client'', Some \<lparr>ead_label = 42, ead_is_critical = True, ead_value = None\<rparr>)),
     verify_message_3 = (\<lambda>r cred. Inr (r + 1)), completed_without_message_4 = (\<lambda>r. Inr (r + 1)),
     edhoc_exporter = (\<lambda>r label c n. replicate n (CHR 0x00)), new_ccs = (\<lambda>bytes pk. bytes),
     max_cred_len = 128, max_buffer_len = 256\<rparr>"

definition ex_cr :: "(unit, unit) crypto" where
  "ex_cr = \<lparr>ccm_decrypt = (\<lambda>key nonce aad ciphertext tag. Some ciphertext), verifying_key = (\<lambda>x y. Some ()),
     signature_from_slice = (\<lambda>bs. Some ()), p256_verify = (\<lambda>key sd sig. True)\<rparr>"

definition ex_cs :: "(bytes, bytes) credentials" where
  "ex_cs = \<lparr>by_kid = Some, by_value = (\<lambda>cred. None), reference_only = (\<lambda>idc. idc = ''client''), get_ccs = Some\<rparr>"

definition ex_wr :: "(bytes, unit) writable" where
  "ex_wr = \<lparr>set_code = (\<lambda>c m. (m, Inr ())), set_payload = (\<lambda>pl m. (pl, Inr ())),
     payload_mut_with_len = (\<lambda>n m. (replicate n (CHR 0x00), Inr ())),
     write_payload = (\<lambda>pl m. pl @ drop (length pl) m), truncate_payload = (\<lambda>n m. (take n m, Inr ()))\<rparr>"

definition ex_cp :: "(bytes, unit) coap" where
  "ex_cp = \<lparr>writable = ex_wr, options_fit = (\<lambda>n opts. True), payload_fits = (\<lambda>n opts pl. length pl \<le> n),
     render_coap_error = (\<lambda>e m. (m, Inr ())), downcast_from = Some, set_u8_code = (\<lambda>c m. m),
     not_ignored = (\<lambda>opt. if fst opt = 1 then Some (BadOption 1) else None)\<rparr>"

definition ex_ih :: "(nat, unit, unit, unit, unit, bytes) handler" where
  "ex_ih = \<lparr>inner_extract = (\<lambda>h m. (h + 1, Inr ())), inner_build = (\<lambda>h d m. (h, ''ok'', Inr ())),
     inner_estimate = (\<lambda>h d. 2), render_extract_error = (\<lambda>e m. (m, Inr ())),
     render_build_error = (\<lambda>e m. (m, Inr ())), render_failure = (\<lambda>e m. (m, True))\<rparr>"

definition ex_config :: "(bytes, bytes) config_builder" where
  "ex_config =
     with_aif_symmetric_as_aesccm256 (replicate 32 (CHR 0x07))
       (with_aif_asymmetric_es256 ''x'' ''y'' ''rs''
         (with_own_edhoc_credential ''own'' ''key''
           (with_known_edhoc_credential ''client'' AllowAll
             (allow_unauthenticated AllowAll config_new))))"

definition ex_auth :: "(config_builder_claims, bytes, bytes, bytes, bytes) authorities" where
  "ex_auth = config_authorities ex_mc ex_cr ex_cs ex_wr ex_config"

lemmas ex_defs = ex_claims_def ex_mc_def ex_lo_def ex_lk_def ex_cr_def ex_cs_def ex_wr_def ex_cp_def ex_ih_def
  ex_config_def ex_auth_def example_minicbor_def

lemma ex_lo_ok: "liboscore_ok ex_lo"
  by (simp add: liboscore_ok_def ex_lo_def)

lemma ex_crates: "crates_total ex_mc ex_lk ex_lo"
  by (simp add: crates_total_def ex_defs)

lemma ex_lengths: "cbor_lengths ex_mc"
  using example_minicbor_lengths by (simp add: cbor_lengths_def ex_mc_def)

lemma ex_aif: "cbor_ignores_trailing (decode_aif ex_mc)"
  by (simp add: cbor_ignores_trailing_def ex_mc_def)

lemma ex_scopes: "cfg_scopes_parsed ex_mc ex_config"
  by (simp add: cfg_scopes_parsed_def scope_parsed_def ex_config_def with_aif_symmetric_as_aesccm256_def
      with_aif_asymmetric_es256_def with_own_edhoc_credential_def with_known_edhoc_credential_def
      allow_unauthenticated_def config_new_def)

subsection \<open>The exchange\<close>

type_synonym ex_handler = "(config_builder_claims, nat, bytes, nat) oe_handler"

text \<open>The context made from the token, under the identifier the server chose.\<close>

definition ex_context :: "char \<Rightarrow> (config_builder_claims, nat, bytes) sec_context_state" where
  "ex_context k =
     \<lparr>authorization = Some \<lparr>cb_scope = AifValue (aif_buffer ''scope''),
        cb_time_constraint = \<lparr>exp_at = Some 100\<rparr>, cb_is_important = False\<rparr>,
      protocol_stage = Oscore [k]\<rparr>"

definition ex_boot :: ex_handler where
  "ex_boot = \<lparr>ctx_pool = \<lparr>entries = [], sorted_idx = []\<rparr>, inner = 0\<rparr>"

definition ex_one :: ex_handler where
  "ex_one = \<lparr>ctx_pool = \<lparr>entries = [ex_context (CHR 0x00)], sorted_idx = [0]\<rparr>, inner = 0\<rparr>"

definition ex_two :: ex_handler where
  "ex_two = \<lparr>ctx_pool = \<lparr>entries = [ex_context (CHR 0x00), ex_context (CHR 0x01)], sorted_idx = [1, 0]\<rparr>, inner = 0\<rparr>"

definition ex_post_token :: message where
  "ex_post_token = \<lparr>code = POST, options = [(uri_path, ''authz-info'')], payload = ''token''\<rparr>"

abbreviation ex_extract where
  "ex_extract now st request \<equiv>
     extract_request_data ex_mc ex_lk ex_lo ex_auth ex_ih ex_cp now (replicate 8 (CHR 0x00)) st request"

lemma ex_first:
  "ex_extract (0, None) ex_boot ex_post_token = Inr (ex_one,
     Inr (Own (ProcessedToken \<lparr>resp_nonce2 = replicate 8 (CHR 0x00), resp_server_recipientid = 0\<rparr>)))"
  by code_simp

lemma ex_second:
  "ex_extract (0, None) ex_one ex_post_token = Inr (ex_two,
     Inr (Own (ProcessedToken \<lparr>resp_nonce2 = replicate 8 (CHR 0x00), resp_server_recipientid = 1\<rparr>)))"
  by code_simp

abbreviation ex_served where
  "ex_served \<equiv> served ex_mc ex_lk ex_lo ex_auth ex_ih ex_cp"

lemma ex_states: "ex_served ex_boot" "ex_served ex_one" "ex_served ex_two"
proof -
  have "oe_handler_new 0 = Inr ex_boot"
    by (simp add: oe_handler_new_def pool_new_def ex_boot_def MAX_CONTEXTS_def LEVEL_COUNT_def)
  then show b: "ex_served ex_boot"
    by (rule served.boot)
  show one: "ex_served ex_one"
    by (rule served.request[OF b ex_first])
  show "ex_served ex_two"
    by (rule served.request[OF one ex_second])
qed

subsection \<open>The theorems, applied\<close>

theorem contexts_wellformed_witness:
  "distinct (pool_cowns (recipient_id ex_lo) (ctx_pool ex_two)) \<and> length (pool_iter (ctx_pool ex_two)) \<le> 4"
  using contexts_wellformed[OF ex_states(3) ex_lo_ok] by (simp add: MAX_CONTEXTS_def)

text \<open>A protected request in the context \<open>k\<close> and a plain one.\<close>

definition ex_protected :: "char \<Rightarrow> message" where
  "ex_protected k = \<lparr>code = POST, options = [(opt_oscore, [k])], payload = ''ciphertext''\<rparr>"

definition ex_plain :: message where
  "ex_plain = \<lparr>code = POST, options = [(uri_path, ''a'')], payload = []\<rparr>"


lemma ex_plain_allowed:
  "ex_extract (7, None) ex_two ex_plain = Inr (ex_two\<lparr>inner := 1\<rparr>, Inr (Inner (Allowed ())))"
  by code_simp

theorem inner_needs_authorization_witness:
  "\<exists>a m res. inner_extract ex_ih 0 m = (1, res) \<and> grants ex_auth (7, None) a m"
  using inner_needs_authorization[OF ex_states(3) ex_lo_ok ex_plain_allowed]
  by (auto simp: ex_two_def reached_def)

lemma ex_unknown_kid: "from_kid (words_of [CHR 0x05]) = Some 5"
  by code_simp

lemma ex_kid_1: "from_kid (words_of [CHR 0x01]) = Some 1"
  by code_simp

lemma ex_protected_done:
  "extract_oscore_edhoc ex_mc ex_lk ex_lo ex_auth ex_ih ex_cp (7, None) ex_two (ex_protected (CHR 0x01)) [CHR 0x01] False =
     Inr (\<lparr>ctx_pool = \<lparr>entries = [ex_context (CHR 0x00), sec_context_default, ex_context (CHR 0x01)],
        sorted_idx = [2, 0, 1]\<rparr>, inner = 1\<rparr>, Inr (EdhocOscoreRequest 1 () (Allowed (Inr ()))))"
  by code_simp

theorem oscore_keeps_other_contexts_witness:
  "ex_context (CHR 0x00) \<in> set (pool_iter \<lparr>entries = [ex_context (CHR 0x00), sec_context_default, ex_context (CHR 0x01)],
     sorted_idx = [2, 0, 1]\<rparr>)"
proof -
  have "parse_option ex_lo [CHR 0x01] = Some [CHR 0x01]" "option_kid ex_lo [CHR 0x01] = Some [CHR 0x01]"
    by (simp_all add: ex_lo_def)
  note keeps = oscore_keeps_other_contexts[OF ex_states(3) ex_lo_ok ex_protected_done this ex_kid_1]
  have "ex_context (CHR 0x00) \<in> set (pool_iter (ctx_pool ex_two))" "protocol_stage (ex_context (CHR 0x00)) \<noteq> Empty"
    by (simp_all add: pool_iter_def ex_two_def ex_context_def)
  moreover have "corresponding_cown (recipient_id ex_lo) (ex_context (CHR 0x00)) \<noteq> Some 1"
    by code_simp
  ultimately show ?thesis
    using keeps by auto
qed

definition ex_message_1 :: message where
  "ex_message_1 = \<lparr>code = POST, options = [(uri_path, ''.well-known''), (uri_path, ''edhoc'')], payload = [CHR 0xF5, CHR 0x03]\<rparr>"

definition ex_handshake :: ex_handler where
  "ex_handshake = \<lparr>ctx_pool =
     \<lparr>entries = [ex_context (CHR 0x00), ex_context (CHR 0x01),
        \<lparr>authorization = cfg_nosec_authorization ex_config, protocol_stage = EdhocResponderProcessedM1 1 2 ''peer'' False\<rparr>],
      sorted_idx = [1, 0, 2]\<rparr>, inner = 0\<rparr>"

lemma ex_message_1_done: "extract_edhoc ex_lk ex_lo ex_auth ex_two ex_message_1 = 
     Inr (ex_handshake, Inr (EdhocOkSend2 2) :: coap_error + (unit, unit) own_request_data)"
  by code_simp

lemma ex_free: "size (oscore_contexts (ctx_pool ex_two)) < MAX_CONTEXTS" "HAS_EDHOC ex_auth"
  by (simp_all add: oscore_contexts_def pool_iter_def ex_two_def ex_context_def is_oscore_def MAX_CONTEXTS_def ex_auth_def)

theorem handshakes_keep_contexts_witness:
  "oscore_contexts (ctx_pool ex_handshake) = oscore_contexts (ctx_pool ex_two)"
  by (rule handshakes_keep_contexts[OF ex_states(3) ex_lo_ok ex_free(2,1)
        handshakes.message_1[OF handshakes.none ex_message_1_done]])

theorem expired_context_discarded_witness:
  "\<exists>st. extract_oscore_edhoc ex_mc ex_lk ex_lo ex_auth ex_ih ex_cp (100, None) ex_two (ex_protected (CHR 0x01)) [CHR 0x01] False =
     Inr (st, Inl BadRequest) \<and> inner st = 0"
proof -
  have c: "parse_option ex_lo [CHR 0x01] = Some [CHR 0x01]" "option_kid ex_lo [CHR 0x01] = Some [CHR 0x01]"
    "ex_context (CHR 0x01) \<in> set (pool_iter (ctx_pool ex_two))" "protocol_stage (ex_context (CHR 0x01)) = Oscore [CHR 0x01]"
    "recipient_id ex_lo [CHR 0x01] = [CHR 0x01]" "inner ex_two = 0"
    by (simp_all add: ex_lo_def pool_iter_def ex_two_def ex_context_def)
  have a: "authorization (ex_context (CHR 0x01)) = Some \<lparr>cb_scope = AifValue (aif_buffer ''scope''),
      cb_time_constraint = \<lparr>exp_at = Some 100\<rparr>, cb_is_important = False\<rparr>"
    "\<not> is_valid_with (claims_time_constraint ex_auth \<lparr>cb_scope = AifValue (aif_buffer ''scope''),
      cb_time_constraint = \<lparr>exp_at = Some 100\<rparr>, cb_is_important = False\<rparr>) (100, None)"
    by (simp_all add: ex_context_def is_valid_with_def ex_auth_def)
  show ?thesis
    using expired_context_discarded[OF ex_states(3) ex_lo_ok c(1,2) ex_kid_1 c(3,4) _ a] ex_kid_1 c(5,6) by auto
qed

theorem oscore_not_downgraded_witness:
  "\<exists>with_edhoc. ex_extract (7, None) ex_two (ex_protected (CHR 0x01)) =
     own_result (extract_oscore_edhoc ex_mc ex_lk ex_lo ex_auth ex_ih ex_cp (7, None) ex_two
       (ex_protected (CHR 0x01)) [CHR 0x01] with_edhoc)"
proof -
  have "options (ex_protected (CHR 0x01)) = [] @ (opt_oscore, [CHR 0x01]) # []" "\<forall>opt\<in>set []. passes ex_cp opt"
    "has_oscore ex_auth" "length [CHR 0x01] \<le> OSCORE_OPTION_LEN"
    by (simp_all add: ex_protected_def has_oscore_def ex_auth_def OSCORE_OPTION_LEN_def)
  from oscore_not_downgraded[OF this] show ?thesis
    by blast
qed

text \<open>With an If-Match option in front, the protected request reaches the inner handler in the clear.\<close>

definition ex_hidden :: message where
  "ex_hidden = \<lparr>code = POST, options = [(1, []), (opt_oscore, [CHR 0x01])], payload = ''ciphertext''\<rparr>"

theorem rejected_option_hides_oscore_witness:
  "ex_extract (7, None) ex_two ex_hidden = Inr (ex_two\<lparr>inner := 1\<rparr>, Inr (Inner (Allowed ())))"
proof -
  have hidden: "options ex_hidden = [(1, []), (opt_oscore, [CHR 0x01])]" "not_ignored ex_cp (1, []) = Some (BadOption 1)"
    "fst (1, []) \<noteq> opt_oscore" "fst (1, []) \<noteq> uri_path"
    by (simp_all add: ex_hidden_def opt_defs ex_cp_def)
  have "nosec_allows ex_auth (7, None) ex_hidden = Inr True"
    by code_simp
  then show ?thesis
    using rejected_option_hides_oscore[of ex_hidden "[]" "(1, [])" "[(opt_oscore, [CHR 0x01])]" ex_cp "BadOption 1"
        ex_mc ex_lk ex_lo ex_auth ex_ih "(7, None)" "replicate 8 (CHR 0x00)" ex_two] hidden
    by (simp add: ex_ih_def ex_two_def)
qed

theorem critical_ead_3_accepted_witness:
  "process_message_3 ex_mc ex_lk ex_lo ex_auth ''message 3'' 2 3 ''peer'' =
     Inr (Inr \<lparr>authorization = Some (known_client_claims AllowAll), protocol_stage = Oscore [CHR 0x03]\<rparr>)"
proof (rule critical_ead_3_accepted)
  show "message_buffer ex_lk ''message 3'' = Inr ''message 3''"
    "parse_message_3 ex_lk 2 ''message 3'' = Inr (3, ''client'', Some \<lparr>ead_label = 42, ead_is_critical = True, ead_value = None\<rparr>)"
    "verify_message_3 ex_lk 3 ''client'' = Inr 4" "completed_without_message_4 ex_lk 4 = Inr 5"
    by (simp_all add: ex_lk_def)
  show "ead_label \<lparr>ead_label = 42, ead_is_critical = True, ead_value = None\<rparr> \<noteq> ead_acetoken"
    by (simp add: ead_acetoken_def)
  show "expand_id_cred_x ex_auth ''client'' = Some (''client'', known_client_claims AllowAll)"
    by code_simp
  show "edhoc_oscore_context ex_lk ex_lo 5 3 ''peer'' = Inr [CHR 0x03]"
    by code_simp
qed

theorem empty_config_admits_nobody_witness:
  "\<exists>r. extract_request_data ex_mc ex_lk ex_lo (config_authorities ex_mc ex_cr ex_cs ex_wr config_new) ex_ih ex_cp
     (7, None) [] ex_boot ex_plain = Inr (ex_boot, r)"
proof -
  have "oe_handler_new 0 = Inr ex_boot"
    by (simp add: oe_handler_new_def pool_new_def ex_boot_def MAX_CONTEXTS_def LEVEL_COUNT_def)
  then have s: "served ex_mc ex_lk ex_lo (config_authorities ex_mc ex_cr ex_cs ex_wr config_new) ex_ih ex_cp ex_boot"
    by (rule served.boot)
  have "extract_request_data ex_mc ex_lk ex_lo (config_authorities ex_mc ex_cr ex_cs ex_wr config_new) ex_ih ex_cp
      (7, None) [] ex_boot ex_plain = Inr (ex_boot, Inr (Inner NotAllowed))"
    by code_simp
  from empty_config_admits_nobody[OF s this] this show ?thesis
    by blast
qed

theorem symmetric_token_accepted_witness:
  "hm_alg (ce_unprotected (example_token 5)) = Some 31"
proof -
  have t: "process_acecbor_authz_info ex_mc ex_lo (config_authorities ex_mc ex_cr ex_cs ex_wr ex_config) ''token''
      (replicate 8 (CHR 0x00)) (\<lambda>peer. Inr 3) =
    Inr (Inr (\<lparr>resp_nonce2 = replicate 8 (CHR 0x00), resp_server_recipientid = 3\<rparr>, [CHR 0x03],
      \<lparr>cb_scope = AifValue (aif_buffer ''scope''), cb_time_constraint = \<lparr>exp_at = Some 100\<rparr>, cb_is_important = False\<rparr>))"
    by code_simp
  show ?thesis
    using symmetric_token_accepted[OF t] by (auto simp: example_token_def)
qed

theorem asymmetric_token_accepted_witness:
  "\<exists>sign. decode_sign1 ex_mc ''ead'' = Some sign \<and> p256_verify ex_cr ()
     (encode_sig_structure ex_mc \<lparr>ss_context = ''Signature1'', ss_body_protected = cs_protected sign,
       ss_external_aad = [], ss_payload = cs_payload sign\<rparr>) ()"
proof -
  let ?mc = "ex_mc\<lparr>decode_encrypt0 := \<lambda>_. None,
      decode_header_map := \<lambda>_. Some \<lparr>hm_alg = Some (- 7), hm_iv = None\<rparr>\<rparr>"
  let ?a = "\<lparr>cb_scope = AifValue (aif_buffer ''scope''), cb_time_constraint = \<lparr>exp_at = Some 100\<rparr>, cb_is_important = False\<rparr>"
  have t: "token_claims ?mc (config_authorities ?mc ex_cr ex_cs ex_wr ex_config) ''ead'' = Inr (?a, ex_claims)"
    by code_simp
  show ?thesis
    using asymmetric_token_accepted[OF t] by (auto simp: ex_cr_def ex_mc_def)
qed

theorem expand_needs_known_client_witness:
  "cfg_expand_id_cred_x ex_cs (ex_config\<lparr>known_edhoc_clients := None\<rparr>) ''stranger'' = None \<and>
   cfg_expand_id_cred_x ex_cs (ex_config\<lparr>known_edhoc_clients := Some (''known'', DenyAll)\<rparr>) ''stranger'' =
     Some (''stranger'', \<lparr>cb_scope = AllowAll, cb_time_constraint = unbounded, cb_is_important = False\<rparr>)"
  using expand_needs_known_client[of ex_config AllowAll ex_cs "''stranger''" "''stranger''" "''known''"]
  by (simp add: ex_config_def ex_cs_def with_aif_symmetric_as_aesccm256_def
      with_aif_asymmetric_es256_def with_own_edhoc_credential_def with_known_edhoc_credential_def
      allow_unauthenticated_def config_new_def)

end
