(* ===== verification/StoredPolicy.thy ===== *)
theory StoredPolicy
  imports Storage SecExamples
begin

section \<open>The policy of the CoAP server (\<open>ariel-os-coap/src/stored.rs\<close>, \<open>build.rs\<close>)\<close>

text \<open>
  The peers of a device are listed in \<open>peers.yml\<close>.  The build script turns the list into Rust code,
  which the server evaluates at run time; its own key pair it keeps in the storage.  The parser of
  CBOR's diagnostic notation, the CBOR encoder, the credentials of \<open>lakers\<close> and the key generator are
  parameters.  A \<open>HashMap\<close> of scopes is the list of its entries in some order.
\<close>

subsection \<open>\<open>peers.yml\<close>\<close>

datatype single_permission = PermGET | PermPOST | PermPUT | PermDELETE | PermFETCH | PermPATCH | PermIPATCH

fun permission_code :: "single_permission \<Rightarrow> 8 word" where
  "permission_code PermGET = 1"
| "permission_code PermPOST = 2"
| "permission_code PermPUT = 3"
| "permission_code PermDELETE = 4"
| "permission_code PermFETCH = 5"
| "permission_code PermPATCH = 6"
| "permission_code PermIPATCH = 7"

datatype permission = PermissionSet "single_permission list" | PermissionSingle single_permission

definition single_mask :: "single_permission \<Rightarrow> 32 word" where
  "single_mask p = push_bit (unat (permission_code p - 1)) 1"

fun permission_mask :: "permission \<Rightarrow> 32 word" where
  "permission_mask (PermissionSet p) = fold (\<lambda>value old. old OR single_mask value) p 0"
| "permission_mask (PermissionSingle p) = single_mask p"

datatype peer_scope = KnownAllowAll | AifScope "(string \<times> permission) list"

datatype known_source = Unauthenticated

record peer =
  peer_kccs :: "string option"
  peer_from :: "known_source option"
  peer_scope :: peer_scope

subsection \<open>The build script\<close>

text \<open>The expressions in the generated code, and the two functions made of them.\<close>

datatype scope_expr = AllowAllExpr | AifParseUnwrapExpr bytes

record flash_peers =
  kccs_chain :: "(bytes \<times> scope_expr) list"
  unauthenticated_expr :: "scope_expr option"

definition masked :: "(string \<times> permission) list \<Rightarrow> (string \<times> 32 word) list" where
  "masked aif = map (\<lambda>(toid, tperm). (toid, permission_mask tperm)) aif"

definition scope_code :: "((string \<times> 32 word) list \<Rightarrow> bytes) \<Rightarrow> peer_scope \<Rightarrow> scope_expr" where
  "scope_code encode scope =
     (case scope of
        KnownAllowAll \<Rightarrow> AllowAllExpr
      | AifScope aif \<Rightarrow> AifParseUnwrapExpr (encode (masked aif)))"

definition build_peer ::
    "((string \<times> 32 word) list \<Rightarrow> bytes) \<Rightarrow> (string \<Rightarrow> bytes option) \<Rightarrow> peer \<Rightarrow> flash_peers \<Rightarrow> panic + flash_peers" where
  "build_peer encode parse_edn p out =
     (let scope = scope_code encode (peer_scope p) in
      case (peer_kccs p, peer_from p) of
        (Some kccs, None) \<Rightarrow>
          bnd (unwrap (parse_edn kccs)) (\<lambda>kccs. Inr (out\<lparr>kccs_chain := kccs_chain out @ [(kccs, scope)]\<rparr>))
      | (None, Some Unauthenticated) \<Rightarrow>
          bnd (require (unauthenticated_expr out = None)) (\<lambda>_. Inr (out\<lparr>unauthenticated_expr := Some scope\<rparr>))
      | _ \<Rightarrow> Inl ExplicitPanic)"

fun build_peers ::
    "((string \<times> 32 word) list \<Rightarrow> bytes) \<Rightarrow> (string \<Rightarrow> bytes option) \<Rightarrow> peer list \<Rightarrow> flash_peers \<Rightarrow> panic + flash_peers" where
  "build_peers encode parse_edn [] out = Inr out"
| "build_peers encode parse_edn (p # peers) out =
     bnd (build_peer encode parse_edn p out) (build_peers encode parse_edn peers)"

definition build_main ::
    "((string \<times> 32 word) list \<Rightarrow> bytes) \<Rightarrow> (string \<Rightarrow> bytes option) \<Rightarrow> peer list \<Rightarrow> panic + flash_peers" where
  "build_main encode parse_edn peers = build_peers encode parse_edn peers \<lparr>kccs_chain = [], unauthenticated_expr = None\<rparr>"

subsection \<open>The generated functions\<close>

definition eval_scope :: "minicbor \<Rightarrow> scope_expr \<Rightarrow> panic + union_scope" where
  "eval_scope mc e =
     (case e of
        AllowAllExpr \<Rightarrow> Inr AllowAll
      | AifParseUnwrapExpr bs \<Rightarrow>
          (case aif_parse (decode_aif mc) bs of Inl _ \<Rightarrow> Inl UnwrapNone | Inr aif \<Rightarrow> Inr (AifValue aif)))"

fun eval_kccs :: "minicbor \<Rightarrow> (bytes \<Rightarrow> 'cred option) \<Rightarrow> (bytes \<times> scope_expr) list \<Rightarrow> panic + ('cred \<times> union_scope) list" where
  "eval_kccs mc parse_ccs [] = Inr []"
| "eval_kccs mc parse_ccs ((kccs, e) # rest) =
     bnd (unwrap (parse_ccs kccs)) (\<lambda>credential.
     bnd (eval_scope mc e) (\<lambda>scope.
     bnd (eval_kccs mc parse_ccs rest) (\<lambda>chain. Inr ((credential, scope) # chain))))"

definition unauthenticated_scope_fn :: "minicbor \<Rightarrow> flash_peers \<Rightarrow> panic + union_scope option" where
  "unauthenticated_scope_fn mc out =
     (case unauthenticated_expr out of None \<Rightarrow> Inr None | Some e \<Rightarrow> bnd (eval_scope mc e) (\<lambda>scope. Inr (Some scope)))"

subsection \<open>\<open>StoredPolicy\<close>\<close>

record stored_claims =
  sc_scope :: union_scope

definition stored_nosec :: "minicbor \<Rightarrow> flash_peers \<Rightarrow> panic + stored_claims option" where
  "stored_nosec mc out = bnd (unauthenticated_scope_fn mc out) (\<lambda>scope. Inr (map_option stored_claims.make scope))"

definition stored_expand ::
    "minicbor \<Rightarrow> (bytes \<Rightarrow> 'cred option) \<Rightarrow> ('cred, 'idc) credentials \<Rightarrow> flash_peers \<Rightarrow> 'idc \<Rightarrow>
     panic + ('cred \<times> stored_claims) option" where
  "stored_expand mc parse_ccs cs out id_cred_x =
     bnd (eval_kccs mc parse_ccs (kccs_chain out)) (\<lambda>kccs.
       case find (\<lambda>(credential, _). by_kid cs credential = Some id_cred_x \<or> by_value cs credential = Some id_cred_x) kccs of
         Some (credential, scope) \<Rightarrow> Inr (Some (credential, \<lparr>sc_scope = scope\<rparr>))
       | None \<Rightarrow>
           (case get_ccs cs id_cred_x of
              None \<Rightarrow> Inr None
            | Some credential_by_value \<Rightarrow>
                bnd (stored_nosec mc out) (\<lambda>unauthorized_claims.
                  Inr (map_option (Pair credential_by_value) unauthorized_claims))))"

text \<open>
  As an implementation of \<open>ServerSecurityConfig\<close>.  Its methods do not panic when the generated
  functions do not (\<open>peers_evaluate\<close>); only then is the record the policy.
\<close>

definition value_of :: "panic + 'a option \<Rightarrow> 'a option" where
  "value_of r = (case r of Inl _ \<Rightarrow> None | Inr v \<Rightarrow> v)"

definition stored_authorities ::
    "minicbor \<Rightarrow> (bytes \<Rightarrow> 'cred option) \<Rightarrow> ('cred, 'idc) credentials \<Rightarrow> flash_peers \<Rightarrow> 'cred \<times> 'key \<Rightarrow>
     (stored_claims, 'cred, 'key, 'idc, 'm) authorities" where
  "stored_authorities mc parse_ccs cs out own =
     (default_config (\<lambda>c. union_request_is_allowed (decode_aif mc) (sc_scope c)) (\<lambda>c. unbounded) (\<lambda>c. False))
       \<lparr>PARSES_TOKENS := False, HAS_EDHOC := True,
        own_edhoc_credential := Some own,
        expand_id_cred_x := (\<lambda>id_cred_x. value_of (stored_expand mc parse_ccs cs out id_cred_x)),
        nosec_authorization := value_of (stored_nosec mc out)\<rparr>"

definition peers_evaluate :: "minicbor \<Rightarrow> (bytes \<Rightarrow> 'cred option) \<Rightarrow> flash_peers \<Rightarrow> bool" where
  "peers_evaluate mc parse_ccs out \<longleftrightarrow>
     (\<forall>(kccs, e) \<in> set (kccs_chain out). parse_ccs kccs \<noteq> None \<and> (\<exists>s. eval_scope mc e = Inr s)) \<and>
     (\<forall>e. unauthenticated_expr out = Some e \<longrightarrow> (\<exists>s. eval_scope mc e = Inr s))"

subsection \<open>The server's own credential\<close>

text \<open>
  A credential is a CCS with an empty key identifier, made of a template whose last 32 bytes are the
  public key.
\<close>

definition OWN_CREDENTIAL_KEY :: string where
  "OWN_CREDENTIAL_KEY = ''ariel-os-coap.own-edhoc-credential''"

definition CCS_TEMPLATE :: bytes where
  "CCS_TEMPLATE = map char_of [0xA1, 0x08, 0xA1, 0x01, 0xA4, 0x01, 0x02, 0x02, 0x40, 0x20, 0x01, 0x21, 0x58, 0x20 :: nat] @
     replicate 32 (CHR 0x00)"

definition generate_credpair :: "('g \<Rightarrow> 'g \<times> bytes \<times> bytes) \<Rightarrow> 'g \<Rightarrow> panic + 'g \<times> bytes \<times> bytes" where
  "generate_credpair p256_generate_key_pair rng =
     (case p256_generate_key_pair rng of
        (rng, private, public) \<Rightarrow>
          bnd (require (length CCS_TEMPLATE \<le> 60)) (\<lambda>_.
            let public_start = length CCS_TEMPLATE - 32 in
            bnd (require (length public = 32)) (\<lambda>_.
              Inr (rng, take public_start CCS_TEMPLATE @ public, private))))"

definition stored_load ::
    "('d, 'e) seq_storage \<Rightarrow> (bytes \<times> bytes) postcard \<Rightarrow> (bytes \<Rightarrow> 'cred option) \<Rightarrow> ('g \<Rightarrow> 'g \<times> bytes \<times> bytes) \<Rightarrow>
     'g \<Rightarrow> 'd global_storage \<Rightarrow> (panic + 'd global_storage \<times> 'g \<times> 'cred \<times> bytes) option" where
  "stored_load ss pc parse_ccs gen rng g =
     obnd (global_get ss pc OWN_CREDENTIAL_KEY g) (\<lambda>(g, r).
     obnd (case r of
             Inl _ \<Rightarrow> Some (Inl UnwrapNone)
           | Inr (Some credpair) \<Rightarrow> Some (Inr (g, rng, credpair))
           | Inr None \<Rightarrow>
               obnd (Some (generate_credpair gen rng)) (\<lambda>(rng, credpair).
               obnd (global_insert ss pc OWN_CREDENTIAL_KEY credpair g) (\<lambda>(g, r).
                 case r of Inl _ \<Rightarrow> Some (Inl UnwrapNone) | Inr _ \<Rightarrow> Some (Inr (g, rng, credpair)))))
       (\<lambda>(g, rng, credential, key).
         Some (bnd (unwrap (parse_ccs credential)) (\<lambda>credential. Inr (g, rng, credential, key)))))"

section \<open>Who may do what\<close>

lemma permission_codes: "permission_code p \<noteq> 0" "unat (permission_code p - 1) < 32"
  by (cases p; simp)+

lemma permission_code_bit: "unat (permission_code p - 1) = unat c - 1 \<Longrightarrow> c \<noteq> 0 \<Longrightarrow> permission_code p = c" for c :: "8 word"
  by (metis add_diff_cancel_left' permission_codes(1) unat_eq_zero unat_minus_one unsigned_word_eqI
      le_add_diff_inverse less_one linorder_not_less)

lemma bit_single_mask: "n < 32 \<Longrightarrow> bit (single_mask p) n \<longleftrightarrow> n = unat (permission_code p - 1)"
  by (auto simp: single_mask_def push_bit_of_1 bit_exp_iff)

fun methods :: "permission \<Rightarrow> single_permission set" where
  "methods (PermissionSet ps) = set ps"
| "methods (PermissionSingle p) = {p}"

lemma bit_fold_mask:
  "n < 32 \<Longrightarrow> bit (fold (\<lambda>value old. old OR single_mask value) ps acc) n \<longleftrightarrow>
    bit acc n \<or> (\<exists>p \<in> set ps. n = unat (permission_code p - 1))"
  by (induction ps arbitrary: acc) (auto simp: bit_or_iff bit_single_mask)

text \<open>The mask of a permission has exactly the bits of its methods.\<close>

lemma bit_permission_mask:
  assumes "c \<noteq> 0" "unat c \<le> 32"
  shows "bit (permission_mask perm) (unat c - 1) \<longleftrightarrow> c \<in> permission_code ` methods perm"
proof -
  have n: "unat c - 1 < 32"
    using assms by (simp add: unat_gt_0)
  have "unat c - 1 = unat (permission_code p - 1) \<longleftrightarrow> c = permission_code p" for p
    using permission_code_bit[of p c] assms(1) permission_codes(1)[of p] by (auto simp: unat_minus_one)
  then show ?thesis
    using n by (cases perm) (auto simp: bit_fold_mask bit_single_mask)
qed

definition peer_permits :: "peer_scope \<Rightarrow> request \<Rightarrow> bool" where
  "peer_permits scope r =
     (case scope of
        KnownAllowAll \<Rightarrow> True
      | AifScope aif \<Rightarrow> \<exists>(path, perm) \<in> set aif. code r \<in> permission_code ` methods perm \<and> pathopts r = segments (tl path))"

text \<open>What the encoder writes for some scopes, the decoder reads.\<close>

definition encoder_ok :: "minicbor \<Rightarrow> ((string \<times> 32 word) list \<Rightarrow> bytes) \<Rightarrow> peer_scope set \<Rightarrow> bool" where
  "encoder_ok mc encode scopes \<longleftrightarrow>
     cbor_ignores_trailing (decode_aif mc) \<and>
     (\<forall>aif. AifScope aif \<in> scopes \<longrightarrow> decode_aif mc (encode (masked aif)) = Some (map Some (masked aif)))"

lemma permission_code_bound: "code r \<in> permission_code ` P \<Longrightarrow> code r \<noteq> 0 \<and> unat (code r) \<le> 32"
proof -
  assume "code r \<in> permission_code ` P"
  then obtain p where "code r = permission_code p"
    by blast
  then show ?thesis
    by (cases p) simp_all
qed

text \<open>What a scope of \<open>peers.yml\<close> allows after it has been compiled, encoded, parsed and evaluated.\<close>

lemma compiled_scope_decision:
  assumes "encoder_ok mc encode scopes" "scope \<in> scopes" "eval_scope mc (scope_code encode scope) = Inr s"
  shows "union_request_is_allowed (decode_aif mc) s r = Inr True \<longleftrightarrow> peer_permits scope r"
proof (cases scope)
  case KnownAllowAll
  then show ?thesis
    using assms(3) by (auto simp: scope_code_def eval_scope_def union_request_is_allowed_def peer_permits_def)
next
  case (AifScope aif)
  let ?items = "masked aif"
  obtain v where v: "aif_parse (decode_aif mc) (encode ?items) = Inr v" and s: "s = AifValue v"
    using assms(3) AifScope by (auto simp: scope_code_def eval_scope_def split: sum.splits)
  have enc: "cbor_ignores_trailing (decode_aif mc)" "decode_aif mc (encode ?items) = Some (map Some ?items)"
    using assms(1,2) AifScope by (simp_all add: encoder_ok_def)
  show ?thesis
  proof (cases "code r = 0")
    case True
    then show ?thesis
      using AifScope s permission_code_bound[of r]
      by (auto simp: union_request_is_allowed_def aif_request_is_allowed_def unwrap_def peer_permits_def)
  next
    case False
    then have "unat (code r) \<noteq> 0"
      by (simp add: unat_eq_zero)
    then have "union_request_is_allowed (decode_aif mc) s r = Inr True \<longleftrightarrow> unat (code r) \<le> 32 \<and>
        (\<exists>(path, perm) \<in> set aif. bit (permission_mask perm) (unat (code r) - 1) \<and> pathopts r = segments (tl path))"
      unfolding s union_request_is_allowed_def union_scope.case aif_decision[OF enc(1) v enc(2) \<open>unat (code r) \<noteq> 0\<close>]
      by (auto simp: masked_def split_beta)
    also have "\<dots> \<longleftrightarrow> peer_permits scope r"
      using bit_permission_mask[OF False] permission_code_bound[of r] AifScope
      by (auto simp: peer_permits_def) blast+
    finally show ?thesis .
  qed
qed

text \<open>The generated code holds the scopes of the peers and nothing else.\<close>

lemma build_peer_exprs:
  assumes "build_peer encode parse_edn p out0 = Inr out"
  shows "snd ` set (kccs_chain out) \<subseteq> insert (scope_code encode (peer_scope p)) (snd ` set (kccs_chain out0)) \<and>
    (unauthenticated_expr out = unauthenticated_expr out0 \<or>
      peer_from p = Some Unauthenticated \<and> unauthenticated_expr out = Some (scope_code encode (peer_scope p)))"
  using assms by (auto simp: build_peer_def Let_def panic_simps split: option.splits known_source.splits)

lemma build_peers_exprs:
  assumes "build_peers encode parse_edn peers out0 = Inr out"
  shows "snd ` set (kccs_chain out) \<subseteq> snd ` set (kccs_chain out0) \<union> scope_code encode ` peer_scope ` set peers"
    "unauthenticated_expr out = Some e \<Longrightarrow> unauthenticated_expr out0 = Some e \<or>
      (\<exists>p \<in> set peers. peer_from p = Some Unauthenticated \<and> e = scope_code encode (peer_scope p))"
proof -
  have "snd ` set (kccs_chain out) \<subseteq> snd ` set (kccs_chain out0) \<union> scope_code encode ` peer_scope ` set peers \<and>
    (\<forall>e. unauthenticated_expr out = Some e \<longrightarrow> unauthenticated_expr out0 = Some e \<or>
      (\<exists>p \<in> set peers. peer_from p = Some Unauthenticated \<and> e = scope_code encode (peer_scope p)))"
    using assms
  proof (induction peers arbitrary: out0)
    case (Cons p peers)
    obtain out1 where rest: "build_peers encode parse_edn peers out1 = Inr out"
      and out1: "build_peer encode parse_edn p out0 = Inr out1"
      using Cons.prems by (auto simp: panic_simps)
    note p = build_peer_exprs[OF out1] and IH = Cons.IH[OF rest]
    have "snd ` set (kccs_chain out) \<subseteq> insert (scope_code encode (peer_scope p)) (snd ` set (kccs_chain out0)) \<union>
        scope_code encode ` peer_scope ` set peers"
      using p IH by (meson Un_mono order_trans subset_refl)
    then show ?case
      using p IH by auto
  qed simp
  then show "snd ` set (kccs_chain out) \<subseteq> snd ` set (kccs_chain out0) \<union> scope_code encode ` peer_scope ` set peers"
    "unauthenticated_expr out = Some e \<Longrightarrow> unauthenticated_expr out0 = Some e \<or>
      (\<exists>p \<in> set peers. peer_from p = Some Unauthenticated \<and> e = scope_code encode (peer_scope p))"
    by blast+
qed

lemma eval_kccs_exprs:
  "eval_kccs mc parse_ccs chain = Inr l \<Longrightarrow> (c, s) \<in> set l \<Longrightarrow> \<exists>e \<in> snd ` set chain. eval_scope mc e = Inr s"
proof (induction chain arbitrary: l)
  case (Cons x chain)
  obtain credential scope rest where "eval_scope mc (snd x) = Inr scope" "eval_kccs mc parse_ccs chain = Inr rest"
    "l = (credential, scope) # rest"
    using Cons.prems(1) by (cases x) (auto simp: panic_simps)
  then show ?case
    using Cons.IH Cons.prems(2) by auto
qed simp

definition policy_scopes :: "minicbor \<Rightarrow> flash_peers \<Rightarrow> union_scope set" where
  "policy_scopes mc out = {s. \<exists>e \<in> snd ` set (kccs_chain out) \<union> set_option (unauthenticated_expr out). eval_scope mc e = Inr s}"

lemma stored_nosec_scope:
  assumes "value_of (stored_nosec mc out) = Some a"
  shows "\<exists>e. unauthenticated_expr out = Some e \<and> eval_scope mc e = Inr (sc_scope a)"
  using assms
  by (auto simp: value_of_def stored_nosec_def unauthenticated_scope_fn_def stored_claims.make_def panic_simps
      split: sum.splits option.splits)

lemma stored_expand_scope:
  assumes "value_of (stored_expand mc parse_ccs cs out idc) = Some (cred, a)"
  shows "sc_scope a \<in> policy_scopes mc out"
proof -
  obtain l where l: "eval_kccs mc parse_ccs (kccs_chain out) = Inr l"
    and r: "stored_expand mc parse_ccs cs out idc = Inr (Some (cred, a))"
    using assms by (auto simp: value_of_def stored_expand_def panic_simps split: sum.splits)
  show ?thesis
  proof (cases "find (\<lambda>(c, _). by_kid cs c = Some idc \<or> by_value cs c = Some idc) l")
    case None
    then have "value_of (stored_nosec mc out) = Some a"
      using r by (auto simp: stored_expand_def l value_of_def panic_simps split: option.splits)
    then show ?thesis
      using stored_nosec_scope by (fastforce simp: policy_scopes_def)
  next
    case (Some found)
    then have "found \<in> set l"
      by (metis (no_types, lifting) find_Some_iff nth_mem)
    moreover have "found = (cred, sc_scope a)"
      using r Some by (cases found) (auto simp: stored_expand_def l)
    ultimately show ?thesis
      using eval_kccs_exprs[OF l] by (fastforce simp: policy_scopes_def)
  qed
qed

lemma stored_sel [simp]:
  "decrypt_symmetric_token (stored_authorities mc parse_ccs cs out own) headers aad buffer = Inl (from_detail KeyNotPresent)"
  "verify_asymmetric_token (stored_authorities mc parse_ccs cs out own) headers sd sig pl = Inl (from_detail KeyNotPresent)"
  "expand_id_cred_x (stored_authorities mc parse_ccs cs out own) idc = value_of (stored_expand mc parse_ccs cs out idc)"
  "nosec_authorization (stored_authorities mc parse_ccs cs out own) = value_of (stored_nosec mc out)"
  "claims_request_is_allowed (stored_authorities mc parse_ccs cs out own) a = union_request_is_allowed (decode_aif mc) (sc_scope a)"
  "HAS_EDHOC (stored_authorities mc parse_ccs cs out own)"
  by (simp_all add: stored_authorities_def default_config_def)

interpretation stored: token_authority "stored_authorities mc parse_ccs cs out own" for mc parse_ccs cs out own
  by unfold_locales simp_all

interpretation stored_sound: sound_authority "stored_authorities mc parse_ccs cs out own" "\<lambda>a. sc_scope a \<in> policy_scopes mc out"
  for mc parse_ccs cs out own
proof unfold_locales
  show "sc_scope a \<in> policy_scopes mc out" if "nosec_authorization (stored_authorities mc parse_ccs cs out own) = Some a" for a
    using stored_nosec_scope that by (fastforce simp: policy_scopes_def)
qed (auto dest: stored_expand_scope)

text \<open>The authorization a protected request is served under is one the authority gave.\<close>

context sound_authority
begin

lemma protected_good:
  fixes st :: "('a, 'r, 'o, 'h) oe_handler"
  assumes lo: "liboscore_ok lo" and inv: "handler_inv auth good (recipient_id lo) st"
    and prot: "protected_by mc lk lo auth st request a m"
  shows "good a"
proof -
  obtain c we c' n ctx where c: "c \<in> set (pool_iter (ctx_pool st))" "process_taken mc lk lo auth request we c = Inr (Inr (c', n))"
    and c': "protocol_stage c' = Oscore ctx" "authorization c' = Some a"
    using prot unfolding protected_by_def by blast
  obtain xs where xs: "pool_inv auth good (recipient_id lo) (ctx_pool st) xs"
    using inv by (auto simp: handler_inv_def)
  have ok: "ctx_ok good (recipient_id lo) c"
    using pool_inv_entries(1)[OF xs] c(1) xs by (auto simp: pool_iter_def pool_inv_def)
  have edhoc: "we \<Longrightarrow> HAS_EDHOC auth"
    using c(2) by (auto simp: process_taken_def split: if_splits)
  show ?thesis
  proof (cases "corresponding_cown (recipient_id lo) c")
    case None
    then have "protocol_stage c = Empty"
      using ok by (auto simp: corresponding_cown_def ctx_ok_def split: sec_context_stage.splits)
    then show ?thesis
      using c(2) c'(1) by (auto simp: process_taken_def process_edhoc_in_payload_def panic_simps split: if_splits sum.splits)
  next
    case (Some kid)
    then show ?thesis
      using taken_outcome[OF lo ok Some, of we mc lk request] edhoc c(2) c'(2) by (auto simp: ctx_ok_def)
  qed
qed

end

text \<open>
  C4: The stored policy, end to end.  Whatever the history of the server is: when a request reaches the
  inner handler, the message it is asked about is permitted by an entry of \<open>peers.yml\<close>, by method and
  path; an unprotected request by an entry for unauthenticated peers.
\<close>

theorem stored_policy_enforced:
  assumes build: "build_main encode parse_edn peers = Inr out" and enc: "encoder_ok mc encode (peer_scope ` set peers)"
    and "peers_evaluate mc parse_ccs out"
    and served: "served mc lk lo (stored_authorities mc parse_ccs cs out own) ih cp st" (is "served _ _ _ ?auth _ _ _") and lo: "liboscore_ok lo"
    and req: "extract_request_data mc lk lo (stored_authorities mc parse_ccs cs out own) ih cp now own_nonce st request = Inr (st', r)"
    and reached: "reached r"
  shows "\<exists>m res p. inner_extract ih (inner st) m = (inner st', res) \<and> p \<in> set peers \<and>
    peer_permits (peer_scope p) (request.truncate m) \<and>
    (m = request \<and> peer_from p = Some Unauthenticated \<or>
     (\<exists>a. protected_by mc lk lo (stored_authorities mc parse_ccs cs out own) st request a m))"
proof -
  note exprs = build_peers_exprs[OF build[unfolded build_main_def], simplified]
  obtain a m res where m: "inner_extract ih (inner st) m = (inner st', res)" and g: "grants ?auth now a m"
    and how: "nosec_authorization ?auth = Some a \<and> m = request \<or> protected_by mc lk lo ?auth st request a m"
    using request_reaches[OF served lo req] reached by blast
  have allowed: "union_request_is_allowed (decode_aif mc) (sc_scope a) (request.truncate m) = Inr True"
    using g by (simp add: grants_def)
  have permits: "peer_permits (peer_scope p) (request.truncate m)"
    if "p \<in> set peers" "eval_scope mc (scope_code encode (peer_scope p)) = Inr (sc_scope a)" for p
    using compiled_scope_decision[OF enc imageI[OF that(1)] that(2)] allowed by simp
  show ?thesis
    using how
  proof (elim disjE conjE)
    assume "nosec_authorization ?auth = Some a" "m = request"
    then obtain e where "unauthenticated_expr out = Some e" "eval_scope mc e = Inr (sc_scope a)"
      using stored_nosec_scope by fastforce
    then obtain p where "p \<in> set peers" "peer_from p = Some Unauthenticated" "eval_scope mc (scope_code encode (peer_scope p)) = Inr (sc_scope a)"
      using exprs(2) by blast
    then show ?thesis
      using m permits \<open>m = request\<close> by blast
  next
    assume prot: "protected_by mc lk lo ?auth st request a m"
    have "sc_scope a \<in> policy_scopes mc out"
      using stored_sound.protected_good[OF lo stored_sound.served_inv[OF served lo] prot] .
    then obtain e where e: "e \<in> snd ` set (kccs_chain out) \<or> unauthenticated_expr out = Some e" "eval_scope mc e = Inr (sc_scope a)"
      by (auto simp: policy_scopes_def)
    then obtain p where "p \<in> set peers" "e = scope_code encode (peer_scope p)"
      using exprs by (auto simp: image_subset_iff)
    then show ?thesis
      using m permits e(2) prot by blast
  qed
qed

text \<open>
  A scope that is too long for an AIF value passes the build, and then every attempt to look a
  credential up panics, once the device runs.
\<close>

lemma oversize_scope_panics:
  assumes "peer_scope p = AifScope aif" "peer_kccs p = Some kccs" "peer_from p = None"
    and "parse_edn kccs = Some bs" "parse_ccs bs \<noteq> None"
    and "AIF_SCOPE_MAX_LEN < length (encode (masked aif))"
  shows "\<exists>out. build_main encode parse_edn [p] = Inr out \<and> stored_expand mc parse_ccs cs out idc = Inl UnwrapNone"
  using assms
  by (auto simp: build_main_def build_peer_def Let_def unwrap_def scope_code_def stored_expand_def eval_scope_def aif_parse_def)

section \<open>The server's identity\<close>

lemma load_course:
  assumes "stored_load ss pc parse_ccs gen rng (Some s) = Some (Inr (g, rng', own))"
  obtains (found) s' credpair where "storage_get ss pc OWN_CREDENTIAL_KEY s = Inr (s', Inr (Some credpair))" "g = Some s'"
      "parse_ccs (fst credpair) = Some (fst own)" "snd credpair = snd own"
  | (generated) s1 s' credpair where "storage_get ss pc OWN_CREDENTIAL_KEY s = Inr (s1, Inr None)"
      "storage_insert ss pc OWN_CREDENTIAL_KEY credpair s1 = Inr (s', Inr ())" "g = Some s'"
      "parse_ccs (fst credpair) = Some (fst own)" "snd credpair = snd own"
proof -
  obtain s1 r where get: "storage_get ss pc OWN_CREDENTIAL_KEY s = Inr (s1, r)"
    using assms by (auto simp: stored_load_def global_get_def with_storage_def panic_simps)
  show thesis
  proof (cases r)
    case (Inl e)
    then show ?thesis
      using assms get by (simp add: stored_load_def global_get_def with_storage_def)
  next
    case (Inr c)
    show ?thesis
    proof (cases c)
      case (Some credpair)
      then show ?thesis
        using assms get Inr found[of s1 credpair]
        by (auto simp: stored_load_def global_get_def with_storage_def panic_simps split: prod.splits)
    next
      case None
      obtain rng1 credpair where gen: "generate_credpair gen rng = Inr (rng1, credpair)"
        using assms get Inr None
        by (cases "generate_credpair gen rng") (auto simp: stored_load_def global_get_def with_storage_def)
      obtain s2 r2 where ins: "storage_insert ss pc OWN_CREDENTIAL_KEY credpair s1 = Inr (s2, r2)"
        using assms get Inr None gen
        by (cases "storage_insert ss pc OWN_CREDENTIAL_KEY credpair s1")
          (auto simp: stored_load_def global_get_def global_insert_def with_storage_def)
      show ?thesis
        using assms get Inr None gen ins generated[of s1 credpair s2]
        by (cases r2) (auto simp: stored_load_def global_get_def global_insert_def with_storage_def panic_simps split: prod.splits)
    qed
  qed
qed


section \<open>Instances\<close>

definition sim_peers :: "peer list" where
  "sim_peers = [\<lparr>peer_kccs = None, peer_from = Some Unauthenticated,
     peer_scope = AifScope [(''/a'', PermissionSet [PermGET, PermPOST])]\<rparr>]"

definition sim_flash_peers :: flash_peers where
  "sim_flash_peers = \<lparr>kccs_chain = [], unauthenticated_expr = Some (AifParseUnwrapExpr ''scope'')\<rparr>"

definition sim_policy :: "(stored_claims, bytes, bytes, bytes, bytes) authorities" where
  "sim_policy = stored_authorities ex_mc Some ex_cs sim_flash_peers (''own'', ''key'')"

definition sim_boot :: "(stored_claims, nat, bytes, nat) oe_handler" where
  "sim_boot = \<lparr>ctx_pool = \<lparr>entries = [], sorted_idx = []\<rparr>, inner = 0\<rparr>"

lemma sim_plain_allowed:
  "extract_request_data ex_mc ex_lk ex_lo sim_policy ex_ih ex_cp (7, None) [] sim_boot ex_plain =
    Inr (sim_boot\<lparr>inner := 1\<rparr>, Inr (Inner (Allowed ())))"
  by code_simp

theorem stored_policy_enforced_witness:
  "\<exists>m res p. inner_extract ex_ih 0 m = (1, res) \<and> p \<in> set sim_peers \<and> peer_permits (peer_scope p) (request.truncate m)"
proof -
  have build: "build_main (\<lambda>_. ''scope'') Some sim_peers = Inr sim_flash_peers"
    by (simp add: build_main_def sim_peers_def build_peer_def scope_code_def sim_flash_peers_def require_def)
  have enc: "encoder_ok ex_mc (\<lambda>_. ''scope'') (peer_scope ` set sim_peers)"
    using ex_aif by (simp add: encoder_ok_def sim_peers_def masked_def ex_mc_def single_mask_def push_bit_of_1)
  have eval: "peers_evaluate ex_mc Some sim_flash_peers"
    by (simp add: peers_evaluate_def sim_flash_peers_def eval_scope_def aif_parse_def ex_mc_def AIF_SCOPE_MAX_LEN_def
        starts_with_slash_def)
  have "oe_handler_new 0 = Inr sim_boot"
    by (simp add: oe_handler_new_def pool_new_def sim_boot_def MAX_CONTEXTS_def LEVEL_COUNT_def)
  then have served: "served ex_mc ex_lk ex_lo sim_policy ex_ih ex_cp sim_boot"
    by (rule served.boot)
  show ?thesis
    using stored_policy_enforced[OF build enc eval served[unfolded sim_policy_def] ex_lo_ok sim_plain_allowed[unfolded sim_policy_def]]
    by (auto simp: sim_boot_def reached_def)
qed

definition credpair_postcard :: "(bytes \<times> bytes) postcard" where
  "credpair_postcard = \<lparr>pc_to_slice = (\<lambda>(c, k) n.
       if length c < 256 \<and> 1 + length c + length k \<le> n then Inr (of_nat (length c) # words_of (c @ k)) else Inl SerializeBufferFull),
     pc_from_bytes = (\<lambda>bs. case bs of [] \<Rightarrow> Inl DeserializeUnexpectedEnd
       | l # ws \<Rightarrow> Inr (bytes_of (take (unat l) ws), bytes_of (drop (unat l) ws)))\<rparr>"

lemma credpair_postcard_ok: "postcard_ok credpair_postcard"
proof -
  have inv: "bytes_of (words_of s) = s" for s
  proof -
    have "char_of (unat (word_of_nat (of_char c) :: 8 word)) = c" for c
      using nat_of_char_less_256[of c] by (simp add: unat_of_nat)
    then show ?thesis
      by (induction s) (simp_all add: words_of_def bytes_of_def)
  qed
  have "words_of (a @ b) = words_of a @ words_of b" "length (words_of a) = length a" for a b
    by (simp_all add: words_of_def)
  then show ?thesis
    by (auto simp: postcard_ok_def credpair_postcard_def unat_of_nat inv split: if_splits)
qed

definition sim_gen :: "nat \<Rightarrow> nat \<times> bytes \<times> bytes" where
  "sim_gen n = (n + 1, replicate 32 (char_of n), replicate 32 (CHR 0x41))"

lemma sim_load_new:
  assumes "m OWN_CREDENTIAL_KEY = None"
  shows "\<exists>b bs own. stored_load sim_seq credpair_postcard Some sim_gen 0 (Some (sim_store m)) =
    Some (Inr (Some (sim_store (m(OWN_CREDENTIAL_KEY \<mapsto> b # bs))), 1, own))"
  using assms
  by (simp add: stored_load_def global_get_def global_insert_def with_storage_def storage_get_def storage_insert_def storage_insert_raw_def
      fetch_item_def store_item_def sim_seq_def sim_store_def key_string_def OWN_CREDENTIAL_KEY_def MAX_KEY_LEN_def DATA_BUFFER_SIZE_def
      postcard_value_def postcard_serialize_into_def credpair_postcard_def generate_credpair_def sim_gen_def CCS_TEMPLATE_def require_def
      unwrap_def Let_def words_of_def) blast

lemma sim_load_again:
  assumes "m OWN_CREDENTIAL_KEY = Some (b # bs)"
  shows "\<exists>own. stored_load sim_seq credpair_postcard Some sim_gen 5 (Some (sim_store m)) = Some (Inr (Some (sim_store m), 5, own))"
  using assms
  by (simp add: stored_load_def global_get_def with_storage_def storage_get_def fetch_item_def sim_seq_def sim_store_def key_string_def
      OWN_CREDENTIAL_KEY_def MAX_KEY_LEN_def postcard_value_def postcard_deserialize_from_def credpair_postcard_def unwrap_def)


end
