(* ===== verification/Signal.thy ===== *)
theory Signal
  imports Prelude
begin

section \<open>The single-slot signal of the sensors crate (\<open>ariel-os-sensors/src/signal.rs\<close>)\<close>

text \<open>
  A \<open>Signal<T>\<close> is one cell holding \<open>SignalState\<close>, accessed under a lock, so every operation is
  atomic.  Wakers are values of the async executor: a parameter type \<open>'w\<close>, with
  \<open>Waker::will_wake\<close> as the parameter \<open>will_wake\<close>.  Calling \<open>wake\<close> on a waker is an output: each
  operation also returns the list of wakers it wakes.
\<close>

datatype ('w, 'v) signal_state = SigNone | SigWaiting 'w | SigReady 'v

definition signal_new :: "('w, 'v) signal_state" where
  "signal_new = SigNone"

definition signal :: "'v \<Rightarrow> ('w, 'v) signal_state \<Rightarrow> ('w, 'v) signal_state \<times> 'w list" where
  "signal new st =
     (case st of
        SigNone \<Rightarrow> (SigReady new, [])
      | SigReady _ \<Rightarrow> (SigReady new, [])
      | SigWaiting read_waker \<Rightarrow> (SigReady new, [read_waker]))"

text \<open>\<open>poll_wait\<close>: \<open>None\<close> is \<open>Poll::Pending\<close>.\<close>

definition poll_wait ::
    "('w \<Rightarrow> 'w \<Rightarrow> bool) \<Rightarrow> 'w \<Rightarrow> ('w, 'v) signal_state \<Rightarrow> ('w, 'v) signal_state \<times> 'v option \<times> 'w list" where
  "poll_wait will_wake cx st =
     (case st of
        SigNone \<Rightarrow> (SigWaiting cx, None, [])
      | SigWaiting prev_waker \<Rightarrow>
          if will_wake prev_waker cx then (SigWaiting prev_waker, None, [])
          else (SigWaiting cx, None, [prev_waker])
      | SigReady res \<Rightarrow> (SigNone, Some res, []))"

definition signal_clear :: "('w, 'v) signal_state \<Rightarrow> ('w, 'v) signal_state" where
  "signal_clear st =
     (case st of
        SigNone \<Rightarrow> SigNone
      | SigReady _ \<Rightarrow> SigNone
      | SigWaiting waker \<Rightarrow> SigWaiting waker)"

subsection \<open>Runs\<close>

text \<open>
  One producer and any number of polling tasks, interleaved.  \<open>asleep\<close> is the set of tasks whose
  last poll was pending and which no waker has woken since: \<open>task w\<close> is the task \<open>w\<close> wakes.
\<close>

record ('w, 'v, 't) signal_sys =
  cell :: "('w, 'v) signal_state"
  asleep :: "'t set"

inductive signal_step ::
    "('w \<Rightarrow> 'w \<Rightarrow> bool) \<Rightarrow> ('w \<Rightarrow> 't) \<Rightarrow> ('w, 'v, 't) signal_sys \<Rightarrow> ('w, 'v, 't) signal_sys \<Rightarrow> bool"
  for will_wake task where
  step_signal: "signal v (cell s) = (c, ws) \<Longrightarrow>
    signal_step will_wake task s \<lparr>cell = c, asleep = asleep s - task ` set ws\<rparr>"
| step_pending: "poll_wait will_wake w (cell s) = (c, None, ws) \<Longrightarrow>
    signal_step will_wake task s \<lparr>cell = c, asleep = insert (task w) (asleep s - task ` set ws)\<rparr>"
| step_ready: "poll_wait will_wake w (cell s) = (c, Some v, ws) \<Longrightarrow>
    signal_step will_wake task s \<lparr>cell = c, asleep = asleep s - {task w} - task ` set ws\<rparr>"
| step_clear: "signal_step will_wake task s \<lparr>cell = signal_clear (cell s), asleep = asleep s\<rparr>"

inductive_simps signal_step_simps: "signal_step will_wake task s s'"

inductive signal_reachable :: "('w \<Rightarrow> 'w \<Rightarrow> bool) \<Rightarrow> ('w \<Rightarrow> 't) \<Rightarrow> ('w, 'v, 't) signal_sys \<Rightarrow> bool"
  for will_wake task where
  reach_new: "signal_reachable will_wake task \<lparr>cell = signal_new, asleep = {}\<rparr>"
| reach_step: "signal_reachable will_wake task s \<Longrightarrow> signal_step will_wake task s s' \<Longrightarrow>
    signal_reachable will_wake task s'"

text \<open>Only the task of the stored waker sleeps.\<close>

definition waiting_tasks :: "('w \<Rightarrow> 't) \<Rightarrow> ('w, 'v) signal_state \<Rightarrow> 't set" where
  "waiting_tasks task st = (case st of SigWaiting w \<Rightarrow> {task w} | _ \<Rightarrow> {})"

lemma signal_wakes: "signal v st = (c, ws) \<Longrightarrow> c = SigReady v \<and> task ` set ws = waiting_tasks task st"
  by (auto simp: signal_def waiting_tasks_def split: signal_state.splits)

lemma poll_pending:
  assumes "\<forall>a b. will_wake a b \<longrightarrow> task a = task b" "poll_wait will_wake w st = (c, None, ws)"
  shows "waiting_tasks task c = {task w}" "waiting_tasks task st \<subseteq> insert (task w) (task ` set ws)"
  using assms by (auto simp: poll_wait_def waiting_tasks_def split: signal_state.splits if_splits)

lemma poll_ready:
  "poll_wait will_wake w st = (c, Some v, ws) \<longleftrightarrow> st = SigReady v \<and> c = SigNone \<and> ws = []"
  by (auto simp: poll_wait_def split: signal_state.splits if_splits)

lemma clear_waiting: "waiting_tasks task (signal_clear st) = waiting_tasks task st"
  by (simp add: signal_clear_def waiting_tasks_def split: signal_state.splits)

lemma signal_step_inv:
  assumes ww: "\<forall>a b. will_wake a b \<longrightarrow> task a = task b"
    and "signal_step will_wake task s s'" "asleep s \<subseteq> waiting_tasks task (cell s)"
  shows "asleep s' \<subseteq> waiting_tasks task (cell s')"
  using assms(2)
proof cases
  case (step_signal v c ws)
  then show ?thesis
    using signal_wakes[OF step_signal(2), of task] assms(3) by auto
next
  case (step_pending w c ws)
  then show ?thesis
    using poll_pending[OF ww step_pending(2)] assms(3) by auto
next
  case (step_ready w c v ws)
  then show ?thesis
    using assms(3) by (auto simp: poll_ready waiting_tasks_def)
next
  case step_clear
  then show ?thesis
    using assms(3) by (simp add: clear_waiting)
qed

lemma signal_inv:
  assumes ww: "\<forall>a b. will_wake a b \<longrightarrow> task a = task b"
    and "signal_reachable will_wake task s"
  shows "asleep s \<subseteq> waiting_tasks task (cell s)"
  using assms(2)
proof induction
  case (reach_step s s')
  then show ?case
    using signal_step_inv[OF ww] by blast
qed simp

text \<open>
  C29: No wakeup is lost.  Whatever the interleaving of \<open>signal\<close>, polls by any number of tasks and
  \<open>clear\<close>, a task whose last poll was pending and which was not woken since is the one whose waker
  is stored: no task ever sleeps while a value is ready, and the next \<open>signal\<close> wakes every
  sleeping task and leaves its value to be returned by the next poll, which takes it out.
  (\<open>will_wake\<close> only relates wakers of the same task, as documented for \<open>Waker\<close>.)
\<close>

theorem signal_no_lost_wakeup:
  assumes "\<forall>a b. will_wake a b \<longrightarrow> task a = task b" "signal_reachable will_wake task s"
  shows "(\<forall>v. cell s = SigReady v \<longrightarrow> asleep s = {}) \<and>
    asleep s \<subseteq> task ` set (snd (signal v (cell s))) \<and>
    poll_wait will_wake w (fst (signal v (cell s))) = (SigNone, Some v, [])"
proof -
  obtain c ws where s: "signal v (cell s) = (c, ws)"
    by fastforce
  have "asleep s \<subseteq> waiting_tasks task (cell s)"
    using signal_inv[OF assms] .
  then show ?thesis
    using signal_wakes[OF s, of task] s by (auto simp: waiting_tasks_def poll_wait_def)
qed

text \<open>Two tasks poll, the second displaces and wakes the first; then a value is signalled.\<close>

lemma two_pollers:
  "signal_reachable (=) id \<lparr>cell = SigWaiting (2 :: nat), asleep = {2 :: nat}\<rparr>"
proof -
  have 1: "signal_reachable (=) id \<lparr>cell = SigWaiting (1 :: nat), asleep = {1}\<rparr>"
    using reach_step[OF reach_new step_pending[of "(=)" 1 _ "SigWaiting 1" "[]" id]]
    by (simp add: poll_wait_def signal_new_def del: One_nat_def)
  show ?thesis
    using reach_step[OF 1 step_pending[of "(=)" 2 _ "SigWaiting 2" "[1]" id]]
    by (simp add: poll_wait_def)
qed

theorem signal_no_lost_wakeup_witness:
  "snd (signal (7 :: nat) (SigWaiting (2 :: nat))) = [2] \<and>
   poll_wait (=) 5 (fst (signal (7 :: nat) (SigWaiting (2 :: nat)))) = (SigNone, Some 7, [])"
  using signal_no_lost_wakeup[OF _ two_pollers, of 7 5] by (simp add: signal_def poll_wait_def)

end
