(* ===== verification/Sensors.thy ===== *)
theory Sensors
  imports Signal
begin

section \<open>Sensor readings (\<open>ariel-os-sensors\<close>, \<open>ariel-os-sensors-utils\<close>)\<close>

text \<open>
  The data a driver returns: samples with their metadata, the channels that say how to read them,
  the pairing of the two, the future a caller waits on, and the driver's state kept in one atomic
  byte.  \<open>i32\<close> and \<open>i8\<close> values are \<open>int\<close>; the arithmetic on them is in \<open>GnssTime\<close>, which writes
  the ranges out.
\<close>

datatype label =
    AccelerationX | AccelerationY | AccelerationZ | Altitude
  | AngularVelocityX | AngularVelocityY | AngularVelocityZ | Co2 | GroundSpeed | Illuminance
  | Latitude | Longitude | Opaque | OpaqueGnssTime | Pressure | RelativeHumidity | Heading
  | Temperature | VerticalSpeed | X | Y | Z

fun label_display :: "label \<Rightarrow> string" where
  "label_display AccelerationX = ''Acceleration X''"
| "label_display AccelerationY = ''Acceleration Y''"
| "label_display AccelerationZ = ''Acceleration Z''"
| "label_display Altitude = ''Altitude''"
| "label_display AngularVelocityX = ''Angular velocity X''"
| "label_display AngularVelocityY = ''Angular velocity Y''"
| "label_display AngularVelocityZ = ''Angular velocity Z''"
| "label_display Co2 = ''CO2 concentration''"
| "label_display GroundSpeed = ''Ground speed''"
| "label_display Illuminance = ''Illuminance''"
| "label_display Latitude = ''Latitude''"
| "label_display Longitude = ''Longitude''"
| "label_display Opaque = ''[opaque]''"
| "label_display OpaqueGnssTime = ''[opaque]''"
| "label_display Pressure = ''Pressure''"
| "label_display RelativeHumidity = ''Relative humidity''"
| "label_display Heading = ''Heading''"
| "label_display Temperature = ''Temperature''"
| "label_display VerticalSpeed = ''Vertical speed''"
| "label_display X = ''X''"
| "label_display Y = ''Y''"
| "label_display Z = ''Z''"

datatype measurement_unit =
    AccelG | Ampere | Becquerel | BoolUnit | Candela | Celsius | Coulomb | Decibel | DecimalDegree
  | Degree | DegreePerSecond | Farad | Gram | Gray | Henry | Hertz | Joule | Katal | Kelvin | Lumen
  | Lux | Meter | MeterPerSecond | Mole | Newton | Ohm | PartsPerMillion | Pascal | Percent
  | PercentageRelativeHumidity | Radian | Second | Siemens | Sievert | Steradian | Tesla | Volt
  | Watt | Weber

subsection \<open>Samples and channels\<close>

datatype sample_error = TemporarilyUnavailable | SampleChannelDisabled

datatype sample_metadata =
    UnknownAccuracy
  | NoMeasurementError
  | SymmetricalError (deviation: nat) (bias: int) (err_scaling: int)
  | ChannelTemporarilyUnavailable
  | ChannelDisabled

record sample =
  s_value :: int
  s_metadata :: sample_metadata

definition sample_new :: "int \<Rightarrow> sample_metadata \<Rightarrow> sample" where
  "sample_new v m = \<lparr>s_value = v, s_metadata = m\<rparr>"

definition sample_value :: "sample \<Rightarrow> sample_error + int" where
  "sample_value s =
     (case s_metadata s of
        ChannelTemporarilyUnavailable \<Rightarrow> Inl TemporarilyUnavailable
      | ChannelDisabled \<Rightarrow> Inl SampleChannelDisabled
      | NoMeasurementError \<Rightarrow> Inr (s_value s)
      | UnknownAccuracy \<Rightarrow> Inr (s_value s)
      | SymmetricalError _ _ _ \<Rightarrow> Inr (s_value s))"

record reading_channel =
  c_label :: label
  c_scaling :: int
  c_unit :: measurement_unit

definition reading_channel_new :: "label \<Rightarrow> int \<Rightarrow> measurement_unit \<Rightarrow> reading_channel" where
  "reading_channel_new l s u = \<lparr>c_label = l, c_scaling = s, c_unit = u\<rparr>"

text \<open>
  \<open>ReadingChannels\<close> and \<open>InnerSamples\<close> hold an array of 1 to 12 elements, one variant per length:
  lists here.  A \<open>Samples\<close> value keeps a reference to its sensor, of which only
  \<open>reading_channels()\<close> is used: \<open>sensor_channels\<close>.
\<close>

record samples =
  inner :: "sample list"
  sensor_channels :: "reading_channel list"

definition samples_from :: "reading_channel list \<Rightarrow> sample list \<Rightarrow> samples" where
  "samples_from channels ss = \<lparr>inner = ss, sensor_channels = channels\<rparr>"

definition channels_first :: "reading_channel list \<Rightarrow> panic + reading_channel" where
  "channels_first cs = (case cs of c # _ \<Rightarrow> Inr c | [] \<Rightarrow> Inl UnreachableCode)"

definition reading_sample :: "samples \<Rightarrow> panic + reading_channel \<times> sample" where
  "reading_sample s =
     (case inner s of
        x # _ \<Rightarrow> bnd (channels_first (sensor_channels s)) (\<lambda>c. Inr (c, x))
      | [] \<Rightarrow> Inl UnreachableCode)"

text \<open>\<open>ChannelsSamplesZip\<close>: the iterator \<open>samples()\<close> returns, with its position \<open>i\<close>.\<close>

record channels_samples_zip =
  z_channels :: "reading_channel list"
  z_samples :: "sample list"
  z_i :: nat

definition zip_new :: "reading_channel list \<Rightarrow> sample list \<Rightarrow> channels_samples_zip" where
  "zip_new cs ss = \<lparr>z_channels = cs, z_samples = ss, z_i = 0\<rparr>"

definition list_nth :: "'a list \<Rightarrow> nat \<Rightarrow> 'a option" where
  "list_nth xs i = (if i < length xs then Some (xs ! i) else None)"

definition zip_next :: "channels_samples_zip \<Rightarrow> channels_samples_zip \<times> (reading_channel \<times> sample) option" where
  "zip_next z =
     (case (list_nth (z_channels z) (z_i z), list_nth (z_samples z) (z_i z)) of
        (Some c, Some s) \<Rightarrow> (z\<lparr>z_i := z_i z + 1\<rparr>, Some (c, s))
      | _ \<Rightarrow> (z, None))"

definition zip_len :: "channels_samples_zip \<Rightarrow> nat" where
  "zip_len z = min (length (z_channels z)) (length (z_samples z))"

text \<open>The items a loop over the iterator sees from its present position on.\<close>

function zip_collect :: "channels_samples_zip \<Rightarrow> (reading_channel \<times> sample) list" where
  "zip_collect z = (case zip_next z of (z', Some x) \<Rightarrow> x # zip_collect z' | (_, None) \<Rightarrow> [])"
  by pat_completeness auto
termination
  by (relation "measure (\<lambda>z. length (z_channels z) - z_i z)")
    (auto simp: zip_next_def list_nth_def split: if_splits)

declare zip_collect.simps [simp del]

definition reading_samples :: "samples \<Rightarrow> channels_samples_zip" where
  "reading_samples s = zip_new (sensor_channels s) (inner s)"

lemma zip_collect_drop:
  "zip_collect z = drop (z_i z) (zip (z_channels z) (z_samples z))"
proof (induction z rule: zip_collect.induct)
  case (1 z)
  show ?case
  proof (cases "z_i z < length (zip (z_channels z) (z_samples z))")
    case True
    then have "zip_next z = (z\<lparr>z_i := z_i z + 1\<rparr>, Some (z_channels z ! z_i z, z_samples z ! z_i z))"
      by (simp add: zip_next_def list_nth_def)
    then show ?thesis
      using 1[of "z\<lparr>z_i := z_i z + 1\<rparr>"] True Cons_nth_drop_Suc[OF True]
      by (subst zip_collect.simps) simp
  next
    case False
    then have "zip_next z = (z, None)"
      by (auto simp: zip_next_def list_nth_def)
    then show ?thesis
      using False by (subst zip_collect.simps) (auto simp: min_le_iff_disj)
  qed
qed

fun nexts :: "nat \<Rightarrow> channels_samples_zip \<Rightarrow> channels_samples_zip" where
  "nexts 0 z = z"
| "nexts (Suc k) z = fst (zip_next (nexts k z))"

lemma nexts_pos:
  "z_channels (nexts k z) = z_channels z" "z_samples (nexts k z) = z_samples z"
  "z_i z = 0 \<Longrightarrow> z_i (nexts k z) = min k (length (zip (z_channels z) (z_samples z)))"
  by (induction k) (auto simp: zip_next_def list_nth_def min_def split: option.splits)

text \<open>
  Iterating over \<open>Samples\<close> pairs the sensor's channels with the samples position by position:
  after \<open>k\<close> calls of \<open>next\<close> the items still to come are the pairs from position \<open>k\<close> on.  The
  iterator's \<open>ExactSizeIterator::len\<close>, which is to be the number of items still to come, however
  stays at the total whatever was already taken.
\<close>

theorem samples_iteration:
  "zip_collect (nexts k (reading_samples s)) = drop k (zip (sensor_channels s) (inner s)) \<and>
   zip_len (nexts k (reading_samples s)) = length (zip (sensor_channels s) (inner s))"
proof -
  have "drop (min k (length xs)) xs = drop k xs" for xs :: "(reading_channel \<times> sample) list"
    by (simp add: min_def)
  then show ?thesis
    using nexts_pos[where k = k and z = "reading_samples s"]
    by (simp add: zip_collect_drop zip_len_def reading_samples_def zip_new_def del: length_zip) (simp add: min_def)
qed

subsection \<open>The future a reading is waited for with\<close>

datatype reading_error = ReadingNonEnabled | SensorAccess | NotMeasuring

datatype reading_waiter = Waiter | WaiterErr reading_error | Resolved

definition reading_waiter_new :: reading_waiter where
  "reading_waiter_new = Waiter"

definition reading_waiter_new_err :: "reading_error \<Rightarrow> reading_waiter" where
  "reading_waiter_new_err e = WaiterErr e"

text \<open>\<open>poll\<close>: a waiting future polls the signal the driver sends its result on.\<close>

definition reading_waiter_poll ::
    "('w \<Rightarrow> 'w \<Rightarrow> bool) \<Rightarrow> 'w \<Rightarrow> reading_waiter \<Rightarrow> ('w, reading_error + samples) signal_state \<Rightarrow>
     panic + reading_waiter \<times> ('w, reading_error + samples) signal_state \<times> (reading_error + samples) option \<times> 'w list" where
  "reading_waiter_poll will_wake cx f st =
     (case f of
        Waiter \<Rightarrow> (case poll_wait will_wake cx st of (st, r, ws) \<Rightarrow> Inr (Waiter, st, r, ws))
      | WaiterErr err \<Rightarrow> Inr (Resolved, st, Some (Inl err), [])
      | Resolved \<Rightarrow> Inl UnreachableCode)"

subsection \<open>The driver state in an atomic byte (\<open>ariel-os-sensors-utils/src/atomic_state.rs\<close>)\<close>

datatype mode = ModeDisabled | ModeEnabled | ModeSleeping

datatype state = Uninitialized | Disabled | Enabled | Measuring | Sleeping

fun state_as_u8 :: "state \<Rightarrow> nat" where
  "state_as_u8 Uninitialized = 0"
| "state_as_u8 Disabled = 1"
| "state_as_u8 Enabled = 2"
| "state_as_u8 Measuring = 3"
| "state_as_u8 Sleeping = 4"

fun state_from_mode :: "mode \<Rightarrow> state" where
  "state_from_mode ModeDisabled = Disabled"
| "state_from_mode ModeEnabled = Enabled"
| "state_from_mode ModeSleeping = Sleeping"

text \<open>\<open>State::try_from\<close>: \<open>None\<close> is \<open>TryFromIntError\<close>.\<close>

definition state_try_from :: "nat \<Rightarrow> state option" where
  "state_try_from n =
     (if n = 0 then Some Uninitialized else if n = 1 then Some Disabled else if n = 2 then Some Enabled
      else if n = 3 then Some Measuring else if n = 4 then Some Sleeping else None)"

type_synonym atomic_state = nat

definition atomic_new :: "state \<Rightarrow> atomic_state" where
  "atomic_new s = state_as_u8 s"

definition atomic_get :: "atomic_state \<Rightarrow> panic + state" where
  "atomic_get a = unwrap (state_try_from a)"

definition atomic_set :: "state \<Rightarrow> atomic_state \<Rightarrow> atomic_state" where
  "atomic_set s a = state_as_u8 s"

text \<open>\<open>set_mode\<close>: \<open>None\<close> in the result is \<open>SetModeError::Uninitialized\<close>.\<close>

definition atomic_set_mode :: "mode \<Rightarrow> atomic_state \<Rightarrow> panic + atomic_state \<times> state option" where
  "atomic_set_mode m a =
     (let new_state = state_from_mode m in
      if a = state_as_u8 Uninitialized then Inr (a, None)
      else bnd (unwrap (state_try_from a)) (\<lambda>s. Inr (state_as_u8 new_state, Some s)))"

lemma state_try_from_u8 [simp]: "state_try_from (state_as_u8 s) = Some s"
  by (cases s) (simp_all add: state_try_from_def)

lemma state_as_u8_inject [simp]: "state_as_u8 s = state_as_u8 t \<longleftrightarrow> s = t"
  by (metis option.inject state_try_from_u8)

inductive atomic_reachable :: "atomic_state \<Rightarrow> bool" where
  "atomic_reachable (atomic_new s)"
| "atomic_reachable a \<Longrightarrow> atomic_reachable (atomic_set s a)"
| "atomic_reachable a \<Longrightarrow> atomic_set_mode m a = Inr (a', r) \<Longrightarrow> atomic_reachable a'"

lemma atomic_reachable_byte: "atomic_reachable a \<Longrightarrow> \<exists>s. a = state_as_u8 s"
  by (induction rule: atomic_reachable.induct)
    (auto simp: atomic_new_def atomic_set_def atomic_set_mode_def Let_def split: if_splits)

text \<open>
  In every state reachable from \<open>AtomicState::new\<close> by \<open>set\<close> and \<open>set_mode\<close> the stored byte is a
  driver state, so \<open>get\<close> never panics; \<open>set_mode\<close> never panics either, refuses to change a driver
  that is uninitialized, and otherwise answers the old state and stores the requested one.
\<close>

theorem atomic_state_total:
  assumes "atomic_reachable a"
  shows "\<exists>s. atomic_get a = Inr s \<and>
    atomic_set_mode m a = Inr (if s = Uninitialized then (a, None) else (state_as_u8 (state_from_mode m), Some s))"
proof -
  obtain s where a: "a = state_as_u8 s"
    using atomic_reachable_byte[OF assms] by blast
  then show ?thesis
    by (intro exI[of _ s]) (simp add: atomic_get_def atomic_set_mode_def Let_def del: state_as_u8.simps)
qed

theorem atomic_state_total_witness:
  "\<exists>s. atomic_get (atomic_set Enabled (atomic_new Uninitialized)) = Inr s \<and> s = Enabled \<and>
     atomic_set_mode ModeSleeping (atomic_set Enabled (atomic_new Uninitialized)) = Inr (4, Some Enabled)"
  using atomic_state_total[OF atomic_reachable.intros(2)[OF atomic_reachable.intros(1)], of Enabled Uninitialized ModeSleeping]
  by (auto simp: atomic_get_def atomic_set_def state_try_from_def)

end
