(* ===== verification/I2cDevices.thy ===== *)
theory I2cDevices
  imports Sensors "HOL-Library.Signed_Division"
begin

unbundle bit_operations_syntax

section \<open>Three sensor devices on an I2C bus (\<open>sensors/ariel-os-sensor-*\<close>)\<close>

text \<open>
  The temperature sensor STTS22H, the pressure sensor LPS22DF and the accelerometer LIS2DU12: their
  registers, how they are reset, and how a measurement is started, awaited and decoded.  The bus is a
  parameter: an access changes the device \<open>'d\<close> and may fail.  The waits between two accesses are
  left out; what happens meanwhile to the device is part of the next access.
\<close>

record 'd i2c =
  i2c_write :: "'d \<Rightarrow> 8 word \<Rightarrow> 8 word list \<Rightarrow> 'd \<times> bool"
  i2c_write_read :: "'d \<Rightarrow> 8 word \<Rightarrow> 8 word list \<Rightarrow> nat \<Rightarrow> 'd \<times> 8 word list option"

text \<open>An access whose error is returned at once; a buffer of \<open>n\<close> bytes starts as zeros.\<close>

definition fill :: "nat \<Rightarrow> 8 word list \<Rightarrow> 8 word list" where
  "fill n bs = take n (bs @ replicate n 0)"

definition bus_write ::
    "'d i2c \<Rightarrow> 'e \<Rightarrow> 'd \<Rightarrow> 8 word \<Rightarrow> 8 word list \<Rightarrow> ('d \<Rightarrow> ('d \<times> ('e + 'a)) option) \<Rightarrow> ('d \<times> ('e + 'a)) option" where
  "bus_write bus e d address bs k =
     (case i2c_write bus d address bs of (d, ok) \<Rightarrow> if ok then k d else Some (d, Inl e))"

definition bus_read ::
    "'d i2c \<Rightarrow> 'e \<Rightarrow> 'd \<Rightarrow> 8 word \<Rightarrow> 8 word list \<Rightarrow> nat \<Rightarrow> ('d \<Rightarrow> 8 word list \<Rightarrow> ('d \<times> ('e + 'a)) option) \<Rightarrow>
     ('d \<times> ('e + 'a)) option" where
  "bus_read bus e d address bs n k =
     (case i2c_write_read bus d address bs n of
        (d, None) \<Rightarrow> Some (d, Inl e)
      | (d, Some buf) \<Rightarrow> k d (fill n buf))"

text \<open>
  The loop that polls a status register until \<open>done\<close> holds of it.  It has no bound: with a device
  that is never done the result is \<open>None\<close>.
\<close>

partial_function (option) poll_status ::
    "'d i2c \<Rightarrow> 8 word \<Rightarrow> 8 word \<Rightarrow> (8 word \<Rightarrow> bool) \<Rightarrow> 'd \<Rightarrow> ('d \<times> (reading_error + unit)) option" where
  "poll_status bus address status is_done d =
     (case i2c_write_read bus d address [status] 1 of
        (d, None) \<Rightarrow> Some (d, Inl SensorAccess)
      | (d, Some buf) \<Rightarrow>
          if is_done (fill 1 buf ! 0) then Some (d, Inr ()) else poll_status bus address status is_done d)"

text \<open>\<open>i16::from_be_bytes\<close>\<close>

definition i16_from_be_bytes :: "8 word \<Rightarrow> 8 word \<Rightarrow> 16 word" where
  "i16_from_be_bytes hi lo = word_cat hi lo"

subsection \<open>STTS22H\<close>

datatype stts22h_register = Whoami | TempHLimit | TempLLimit | Ctrl | Status | TempLOut | TempHOut

fun stts22h_reg :: "stts22h_register \<Rightarrow> 8 word" where
  "stts22h_reg Whoami = 0x01"
| "stts22h_reg TempHLimit = 0x02"
| "stts22h_reg TempLLimit = 0x03"
| "stts22h_reg Ctrl = 0x04"
| "stts22h_reg Status = 0x05"
| "stts22h_reg TempLOut = 0x06"
| "stts22h_reg TempHOut = 0x07"

definition ONE_SHOT_BITS :: "8 word" where "ONE_SHOT_BITS = push_bit 0 1"
definition IF_ADD_INC_BITS :: "8 word" where "IF_ADD_INC_BITS = push_bit 3 1"
definition BDU_BITS :: "8 word" where "BDU_BITS = push_bit 6 1"
definition BUSY_BITS :: "8 word" where "BUSY_BITS = push_bit 0 1"

definition stts22h_accuracy :: "int \<Rightarrow> sample_metadata" where
  "stts22h_accuracy temp =
     (if - 1000 < temp \<and> temp < 6000 then SymmetricalError 50 0 (- 2) else SymmetricalError 100 0 (- 2))"

datatype stts22h_address = AddrVdd | Addr15kOhm | Addr56kOhm | AddrGnd

fun stts22h_address_u8 :: "stts22h_address \<Rightarrow> 8 word" where
  "stts22h_address_u8 AddrVdd = drop_bit 1 0x70"
| "stts22h_address_u8 Addr15kOhm = drop_bit 1 0x78"
| "stts22h_address_u8 Addr56kOhm = drop_bit 1 0x7c"
| "stts22h_address_u8 AddrGnd = drop_bit 1 0x7e"

definition stts22h_reading_channels :: "reading_channel list" where
  "stts22h_reading_channels = [reading_channel_new Temperature (- 2) Celsius]"

definition stts22h_reset :: "'d i2c \<Rightarrow> 'd \<Rightarrow> 8 word \<Rightarrow> ('d \<times> (unit + unit)) option" where
  "stts22h_reset bus d address =
     bus_write bus () d address [stts22h_reg Ctrl, IF_ADD_INC_BITS] (\<lambda>d.
     bus_write bus () d address [stts22h_reg TempHLimit, 0x00, 0x00] (\<lambda>d.
       Some (d, Inr ())))"

definition stts22h_measure :: "'d i2c \<Rightarrow> 8 word \<Rightarrow> 'd \<Rightarrow> ('d \<times> (reading_error + samples)) option" where
  "stts22h_measure bus address d =
     (let ctrl = ONE_SHOT_BITS OR IF_ADD_INC_BITS OR BDU_BITS in
      bus_write bus SensorAccess d address [stts22h_reg Ctrl, ctrl] (\<lambda>d.
        case poll_status bus address (stts22h_reg Status) (\<lambda>b. b AND BUSY_BITS = 0) d of
          None \<Rightarrow> None
        | Some (d, Inl e) \<Rightarrow> Some (d, Inl e)
        | Some (d, Inr _) \<Rightarrow>
            bus_read bus SensorAccess d address [stts22h_reg TempLOut] 2 (\<lambda>d buf.
              let temp = sint (i16_from_be_bytes (buf ! 1) (buf ! 0));
                  sample = sample_new temp (stts22h_accuracy temp)
              in Some (d, Inr (samples_from stts22h_reading_channels [sample])))))"

subsection \<open>LPS22DF\<close>

datatype lps22df_register = WhoAmI | CtrlReg2 | RpdsL | LpsStatus | PressOutXl

fun lps22df_reg :: "lps22df_register \<Rightarrow> 8 word" where
  "lps22df_reg WhoAmI = 0x0f"
| "lps22df_reg CtrlReg2 = 0x11"
| "lps22df_reg RpdsL = 0x1a"
| "lps22df_reg LpsStatus = 0x27"
| "lps22df_reg PressOutXl = 0x28"

definition LPS_ONESHOT_BITS :: "8 word" where "LPS_ONESHOT_BITS = push_bit 0 1"
definition SWRESET_BITS :: "8 word" where "SWRESET_BITS = push_bit 2 1"
definition LPS_BDU_BITS :: "8 word" where "LPS_BDU_BITS = push_bit 3 1"
definition P_DA_BITS :: "8 word" where "P_DA_BITS = push_bit 0 1"
definition T_DA_BITS :: "8 word" where "T_DA_BITS = push_bit 1 1"

definition PRESSURE_SENSITIVITY :: int where "PRESSURE_SENSITIVITY = 4096"
definition TEMP_SENSITIVITY :: int where "TEMP_SENSITIVITY = 100"

definition pressure_accuracy :: "int \<Rightarrow> sample_metadata" where
  "pressure_accuracy pressure = SymmetricalError 150 0 0"

definition temp_accuracy :: "int \<Rightarrow> sample_metadata" where
  "temp_accuracy temp = SymmetricalError 150 0 (- 2)"

text \<open>\<open>i32::from_be_bytes([0, b0, b1, b2])\<close> is the number of its three low bytes.\<close>

definition i32_from_i24_be_bytes :: "8 word \<Rightarrow> 8 word \<Rightarrow> 8 word \<Rightarrow> 32 word" where
  "i32_from_i24_be_bytes b0 b1 b2 =
     (let M = push_bit (24 - 1) 1 in
      ((push_bit 16 (ucast b0) OR push_bit 8 (ucast b1) OR ucast b2) XOR M) - M)"

datatype sa0_address = Sa0Gnd | Sa0Vdd

fun lps22df_address_u8 :: "sa0_address \<Rightarrow> 8 word" where
  "lps22df_address_u8 Sa0Gnd = 0x5c"
| "lps22df_address_u8 Sa0Vdd = 0x5d"

text \<open>\<open>ilog10\<close> of a positive number\<close>

fun ilog10 :: "nat \<Rightarrow> nat" where
  "ilog10 n = (if n < 10 then 0 else ilog10 (n div 10) + 1)"

declare ilog10.simps [simp del]

definition lps22df_reading_channels :: "reading_channel list" where
  "lps22df_reading_channels =
     (let TEMP_SCALING = - int (ilog10 (nat TEMP_SENSITIVITY)) in
      [reading_channel_new Pressure 2 Pascal, reading_channel_new Temperature TEMP_SCALING Celsius])"

definition lps22df_reset :: "'d i2c \<Rightarrow> 'd \<Rightarrow> 8 word \<Rightarrow> ('d \<times> (unit + 16 word)) option" where
  "lps22df_reset bus d address =
     bus_write bus () d address [lps22df_reg CtrlReg2, SWRESET_BITS] (\<lambda>d.
     bus_read bus () d address [lps22df_reg RpdsL] 2 (\<lambda>d buf.
       Some (d, Inr (i16_from_be_bytes (buf ! 1) (buf ! 0)))))"

text \<open>Pressure in \<open>i32\<close>: an addition that wraps and a division that truncates.\<close>

definition lps22df_pressure :: "16 word \<Rightarrow> 32 word \<Rightarrow> int" where
  "lps22df_pressure pressure_offset raw =
     sint (scast pressure_offset + word_of_int (sint raw sdiv PRESSURE_SENSITIVITY) :: 32 word)"

definition lps22df_measure ::
    "'d i2c \<Rightarrow> 16 word \<Rightarrow> 8 word \<Rightarrow> 'd \<Rightarrow> ('d \<times> (reading_error + samples)) option" where
  "lps22df_measure bus pressure_offset address d =
     (let ctrl = LPS_BDU_BITS OR LPS_ONESHOT_BITS in
      bus_write bus SensorAccess d address [lps22df_reg CtrlReg2, ctrl] (\<lambda>d.
        let mask = T_DA_BITS OR P_DA_BITS in
        case poll_status bus address (lps22df_reg LpsStatus) (\<lambda>b. b AND mask = mask) d of
          None \<Rightarrow> None
        | Some (d, Inl e) \<Rightarrow> Some (d, Inl e)
        | Some (d, Inr _) \<Rightarrow>
            bus_read bus SensorAccess d address [lps22df_reg PressOutXl] 5 (\<lambda>d buf.
              let pressure = lps22df_pressure pressure_offset (i32_from_i24_be_bytes (buf ! 2) (buf ! 1) (buf ! 0));
                  temperature = sint (i16_from_be_bytes (buf ! 4) (buf ! 3));
                  pressure_sample = sample_new pressure (pressure_accuracy pressure);
                  temp_sample = sample_new temperature (temp_accuracy temperature)
              in Some (d, Inr (samples_from lps22df_reading_channels [pressure_sample, temp_sample])))))"

subsection \<open>LIS2DU12\<close>

datatype lis2du12_register = Ctrl1 | Ctrl4 | Ctrl5 | LisStatus | OutXL | LisWhoAmI

fun lis2du12_reg :: "lis2du12_register \<Rightarrow> 8 word" where
  "lis2du12_reg Ctrl1 = 0x10"
| "lis2du12_reg Ctrl4 = 0x13"
| "lis2du12_reg Ctrl5 = 0x14"
| "lis2du12_reg LisStatus = 0x25"
| "lis2du12_reg OutXL = 0x28"
| "lis2du12_reg LisWhoAmI = 0x43"

datatype accel_full_scale = Scale2g | Scale4g | Scale8g | Scale16g

fun sensitivity :: "accel_full_scale \<Rightarrow> 32 word" where
  "sensitivity Scale2g = 976"
| "sensitivity Scale4g = 1952"
| "sensitivity Scale8g = 3904"
| "sensitivity Scale16g = 7808"

definition to_microg_from_lsb :: "accel_full_scale \<Rightarrow> 16 word \<Rightarrow> int" where
  "to_microg_from_lsb scale lsb = sint (scast (signed_drop_bit 4 lsb) * sensitivity scale)"

datatype odr =
    PowerDown | Odr1_6HzUltraLp | Odr3HzUltraLp | Odr6HzUltraLp | Odr6HzNormal | Odr12_5HzNormal
  | Odr25HzNormal | Odr50HzNormal | Odr100HzNormal | Odr200HzNormal | Odr400HzNormal | Odr800HzNormal
  | OneShotInt2Pin | OneShotInterface

fun odr_bits :: "odr \<Rightarrow> 8 word" where
  "odr_bits PowerDown = push_bit 4 0x0"
| "odr_bits Odr1_6HzUltraLp = push_bit 4 0x1"
| "odr_bits Odr3HzUltraLp = push_bit 4 0x2"
| "odr_bits Odr6HzUltraLp = push_bit 4 0x3"
| "odr_bits Odr6HzNormal = push_bit 4 0x4"
| "odr_bits Odr12_5HzNormal = push_bit 4 0x5"
| "odr_bits Odr25HzNormal = push_bit 4 0x6"
| "odr_bits Odr50HzNormal = push_bit 4 0x7"
| "odr_bits Odr100HzNormal = push_bit 4 0x8"
| "odr_bits Odr200HzNormal = push_bit 4 0x9"
| "odr_bits Odr400HzNormal = push_bit 4 0xa"
| "odr_bits Odr800HzNormal = push_bit 4 0xb"
| "odr_bits OneShotInt2Pin = push_bit 4 0xe"
| "odr_bits OneShotInterface = push_bit 4 0xf"

definition LIS_IF_ADD_INC_BITS :: "8 word" where "LIS_IF_ADD_INC_BITS = push_bit 4 1"
definition SW_RESET :: "8 word" where "SW_RESET = push_bit 5 1"
definition SOC_BITS :: "8 word" where "SOC_BITS = push_bit 1 1"
definition LIS_BDU_BITS :: "8 word" where "LIS_BDU_BITS = push_bit 5 1"
definition DRDY_BITS :: "8 word" where "DRDY_BITS = push_bit 0 1"

definition accel_accuracy :: sample_metadata where
  "accel_accuracy = SymmetricalError 11 0 (- 3)"

fun lis2du12_address_u8 :: "sa0_address \<Rightarrow> 8 word" where
  "lis2du12_address_u8 Sa0Gnd = 0b0011000"
| "lis2du12_address_u8 Sa0Vdd = 0b0011001"

definition lis2du12_reading_channels :: "reading_channel list" where
  "lis2du12_reading_channels =
     [reading_channel_new AccelerationX (- 6) AccelG, reading_channel_new AccelerationY (- 6) AccelG,
      reading_channel_new AccelerationZ (- 6) AccelG]"

definition lis2du12_reset :: "'d i2c \<Rightarrow> 'd \<Rightarrow> 8 word \<Rightarrow> ('d \<times> (unit + unit)) option" where
  "lis2du12_reset bus d address =
     bus_write bus () d address [lis2du12_reg Ctrl1, SW_RESET] (\<lambda>d.
     bus_write bus () d address [lis2du12_reg Ctrl1, LIS_IF_ADD_INC_BITS] (\<lambda>d.
     bus_write bus () d address [lis2du12_reg Ctrl5, odr_bits OneShotInterface] (\<lambda>d.
       Some (d, Inr ()))))"

definition lis2du12_measure ::
    "'d i2c \<Rightarrow> accel_full_scale \<Rightarrow> 8 word \<Rightarrow> 'd \<Rightarrow> ('d \<times> (reading_error + samples)) option" where
  "lis2du12_measure bus full_scale address d =
     (let ctrl = LIS_BDU_BITS OR SOC_BITS in
      bus_write bus SensorAccess d address [lis2du12_reg Ctrl4, ctrl] (\<lambda>d.
        case poll_status bus address (lis2du12_reg LisStatus) (\<lambda>b. b AND DRDY_BITS = DRDY_BITS) d of
          None \<Rightarrow> None
        | Some (d, Inl e) \<Rightarrow> Some (d, Inl e)
        | Some (d, Inr _) \<Rightarrow>
            bus_read bus SensorAccess d address [lis2du12_reg OutXL] 6 (\<lambda>d buf.
              let accel_x = to_microg_from_lsb full_scale (i16_from_be_bytes (buf ! 1) (buf ! 0));
                  accel_y = to_microg_from_lsb full_scale (i16_from_be_bytes (buf ! 3) (buf ! 2));
                  accel_z = to_microg_from_lsb full_scale (i16_from_be_bytes (buf ! 5) (buf ! 4))
              in Some (d, Inr (samples_from lis2du12_reading_channels
                   [sample_new accel_x accel_accuracy, sample_new accel_y accel_accuracy,
                    sample_new accel_z accel_accuracy])))))"

subsection \<open>Decoding\<close>

lemma three_bytes: "push_bit 16 (ucast b0) OR push_bit 8 (ucast b1) OR ucast b2 =
    (word_of_int (uint (b0 :: 8 word) * 65536 + uint (b1 :: 8 word) * 256 + uint (b2 :: 8 word)) :: 32 word)"
proof -
  have "push_bit 16 (ucast b0) OR push_bit 8 (ucast b1) OR ucast b2 =
      (word_of_int (concat_bit 8 (uint b2) (concat_bit 8 (uint b1) (uint b0))) :: 32 word)"
    by (rule bit_word_eqI) (auto simp: bit_simps bit_concat_bit_iff not_less dest: bit_imp_le_length)
  moreover have "uint b1 mod 256 = uint b1" "uint b2 mod 256 = uint b2"
    using unsigned_less[of b1, where ?'a = int] unsigned_less[of b2, where ?'a = int] by simp_all
  then have "concat_bit 8 (uint b2) (concat_bit 8 (uint b1) (uint b0)) =
      uint b0 * 65536 + uint b1 * 256 + uint b2"
    by (simp add: concat_bit_eq push_bit_eq_mult take_bit_eq_mod)
  ultimately show ?thesis
    by (simp only:)
qed

lemma three_bytes_24: "uint (b0 :: 8 word) * 65536 + uint (b1 :: 8 word) * 256 + uint (b2 :: 8 word) < 2 ^ 24"
  using unsigned_less[of b0, where ?'a = int] unsigned_less[of b1, where ?'a = int] unsigned_less[of b2, where ?'a = int] by simp

lemma sign_extension:
  assumes "take_bit (Suc n) v = v"
  shows "(v XOR 2 ^ n) - 2 ^ n = signed_take_bit n (v :: int)"
proof -
  have "v XOR 2 ^ n = flip_bit n v"
    by (simp add: flip_bit_eq_xor push_bit_eq_mult)
  also have "\<dots> = (if bit v n then v - 2 ^ n else v + 2 ^ n)"
    by (simp add: flip_bit_eq_if set_bit_eq unset_bit_eq)
  finally show ?thesis
    using assms by (simp add: signed_take_bit_eq_take_bit_minus)
qed

lemma i24_value: "sint (i32_from_i24_be_bytes b0 b1 b2) =
    signed_take_bit 23 (uint b0 * 65536 + uint b1 * 256 + uint b2)"
proof -
  let ?v = "uint b0 * 65536 + uint b1 * 256 + uint b2"
  have v: "take_bit (Suc 23) ?v = ?v"
    using three_bytes_24[of b0 b1 b2] by (simp add: take_bit_int_eq_self_iff)
  have "push_bit (24 - 1) (1 :: 32 word) = word_of_int (2 ^ 23)"
    by (simp add: push_bit_eq_mult)
  then have "i32_from_i24_be_bytes b0 b1 b2 = word_of_int ((?v XOR 2 ^ 23) - 2 ^ 23)"
    by (simp only: i32_from_i24_be_bytes_def Let_def three_bytes of_int_xor_eq of_int_diff)
  then have "sint (i32_from_i24_be_bytes b0 b1 b2) = signed_take_bit 31 (signed_take_bit 23 ?v)"
    by (simp only: sign_extension[OF v] signed_of_int) simp
  then show ?thesis
    by (simp add: signed_take_bit_signed_take_bit)
qed

lemma sdiv_4096_bound: "- (2 ^ 23) \<le> n \<Longrightarrow> n < 2 ^ 23 \<Longrightarrow> - 2048 \<le> n sdiv 4096 \<and> n sdiv 4096 \<le> (2048 :: int)"
  by (cases "0 \<le> n") (auto simp: signed_divide_int_def sgn_if)

text \<open>
  C40: A 24-bit pressure is read as the signed number its bytes stand for, and the pressure in hPa is the
  offset plus that number divided by 4096 towards zero: the 32-bit arithmetic never wraps.
\<close>

theorem pressure_decoded:
  "sint (i32_from_i24_be_bytes b0 b1 b2) = signed_take_bit 23 (uint b0 * 65536 + uint b1 * 256 + uint b2) \<and>
   lps22df_pressure pressure_offset (i32_from_i24_be_bytes b0 b1 b2) =
     sint pressure_offset + signed_take_bit 23 (uint b0 * 65536 + uint b1 * 256 + uint b2) sdiv 4096"
proof -
  let ?n = "signed_take_bit 23 (uint b0 * 65536 + uint b1 * 256 + uint b2)"
  have "- (2 ^ 23) \<le> ?n" "?n < 2 ^ 23"
    by (fact signed_take_bit_int_greater_eq_minus_exp, fact signed_take_bit_int_less_exp)
  then obtain k where k: "?n sdiv 4096 = k" "- 2048 \<le> k" "k \<le> 2048"
    using sdiv_4096_bound by blast
  have "- (2 ^ 15) \<le> sint pressure_offset" "sint pressure_offset < 2 ^ 15"
    using sint_ge[of pressure_offset] sint_lt[of pressure_offset] by simp_all
  then have "signed_take_bit 31 (sint pressure_offset + k) = sint pressure_offset + k"
    using k(2,3) by (intro signed_take_bit_int_eq_self) simp_all
  then show ?thesis
    by (simp only: i24_value lps22df_pressure_def PRESSURE_SENSITIVITY_def k(1) scast_eq of_int_add[symmetric]
        signed_of_int) simp
qed

text \<open>
  An acceleration is the signed upper 12 bits of its register times the sensitivity of the scale, at
  most 16 g in size: the 32-bit product never wraps.
\<close>

theorem acceleration_decoded:
  "to_microg_from_lsb scale lsb = (sint lsb div 16) * uint (sensitivity scale) \<and>
   \<bar>to_microg_from_lsb scale lsb\<bar> \<le> 16000000"
proof -
  have "- (2 ^ 15) \<le> sint lsb" "sint lsb < 2 ^ 15"
    using sint_ge[of lsb] sint_lt[of lsb] by simp_all
  then have b: "- 2048 \<le> sint lsb div 16" "sint lsb div 16 \<le> 2047"
    by simp_all
  have s: "sint (signed_drop_bit 4 lsb) = sint lsb div 16"
    by (simp add: sint_signed_drop_bit_eq drop_bit_eq_div)
  obtain n :: int where n: "sensitivity scale = word_of_int n" "uint (sensitivity scale) = n" "n \<in> {976, 1952, 3904, 7808}"
    by (cases scale) auto
  have p: "\<bar>(sint lsb div 16) * n\<bar> \<le> 16000000"
    using b n(3) by auto
  then have "signed_take_bit 31 ((sint lsb div 16) * n) = (sint lsb div 16) * n"
    by (subst signed_take_bit_int_eq_self_iff) auto
  then show ?thesis
    using p by (simp add: to_microg_from_lsb_def n(2)) (simp add: n(1) scast_eq s signed_of_int flip: of_int_mult)
qed

subsection \<open>Measuring\<close>

text \<open>What one read of the status register gives, and that reading it often enough gives an answer.\<close>

definition status_read :: "'d i2c \<Rightarrow> 8 word \<Rightarrow> 8 word \<Rightarrow> 'd \<Rightarrow> 'd \<times> 8 word option" where
  "status_read bus address status d =
     (case i2c_write_read bus d address [status] 1 of (d, buf) \<Rightarrow> (d, map_option (\<lambda>buf. fill 1 buf ! 0) buf))"

inductive answers :: "'d i2c \<Rightarrow> 8 word \<Rightarrow> 8 word \<Rightarrow> (8 word \<Rightarrow> bool) \<Rightarrow> 'd \<Rightarrow> bool" for bus address status is_done where
  fails: "status_read bus address status d = (d', None) \<Longrightarrow> answers bus address status is_done d"
| now: "status_read bus address status d = (d', Some b) \<Longrightarrow> is_done b \<Longrightarrow> answers bus address status is_done d"
| later: "status_read bus address status d = (d', Some b) \<Longrightarrow> answers bus address status is_done d' \<Longrightarrow>
    answers bus address status is_done d"

lemma poll_status_step: "poll_status bus address status is_done d =
    (case status_read bus address status d of
       (d, None) \<Rightarrow> Some (d, Inl SensorAccess)
     | (d, Some b) \<Rightarrow> if is_done b then Some (d, Inr ()) else poll_status bus address status is_done d)"
  by (subst poll_status.simps) (simp add: status_read_def split: prod.splits option.splits)

lemma poll_status_answers: "poll_status bus address status is_done d \<noteq> None \<longleftrightarrow> answers bus address status is_done d"
proof
  have "answers bus address status is_done d" if "poll_status bus address status is_done d = Some y" for y
    by (rule poll_status.raw_induct[OF _ that, where P = "\<lambda>bus address status is_done d _. answers bus address status is_done d"])
      (fastforce simp: status_read_def intro: answers.intros split: prod.splits option.splits if_splits)
  then show "poll_status bus address status is_done d \<noteq> None \<Longrightarrow> answers bus address status is_done d"
    by blast
  show "answers bus address status is_done d \<Longrightarrow> poll_status bus address status is_done d \<noteq> None"
    by (induction rule: answers.induct) (simp_all add: poll_status_step)
qed

lemma poll_status_result:
  assumes "poll_status bus address status is_done d = Some r"
  shows "snd r = Inl SensorAccess \<or> snd r = Inr ()"
  by (rule poll_status.raw_induct[OF _ assms, where P = "\<lambda>_ _ _ _ _ r. snd r = Inl SensorAccess \<or> snd r = Inr ()"])
    (auto split: prod.splits option.splits if_splits)

text \<open>The three measurements share their course: one write, the status, one read.\<close>

lemma measure_course:
  assumes "m = bus_write bus SensorAccess d address bs (\<lambda>d.
        case poll_status bus address status is_done d of
          None \<Rightarrow> None
        | Some (d, Inl e) \<Rightarrow> Some (d, Inl e)
        | Some (d, Inr _) \<Rightarrow> bus_read bus SensorAccess d address rs n (\<lambda>d buf. Some (d, Inr (f buf))))"
  shows "m \<noteq> None \<longleftrightarrow> (snd (i2c_write bus d address bs) \<longrightarrow> answers bus address status is_done (fst (i2c_write bus d address bs)))"
    and "m = Some (d', r) \<Longrightarrow> r = Inl SensorAccess \<or> (\<exists>buf. r = Inr (f (fill n buf)))"
proof -
  obtain d1 ok where w: "i2c_write bus d address bs = (d1, ok)"
    by fastforce
  show "m \<noteq> None \<longleftrightarrow> (snd (i2c_write bus d address bs) \<longrightarrow> answers bus address status is_done (fst (i2c_write bus d address bs)))"
  proof (cases ok)
    case True
    note a = poll_status_answers[of bus address status is_done d1]
    show ?thesis
    proof (cases "poll_status bus address status is_done d1")
      case (Some r)
      obtain d2 x where r: "r = (d2, x)"
        by fastforce
      have "answers bus address status is_done d1"
        using a Some by simp
      moreover have "m \<noteq> None"
        by (cases x) (simp_all add: assms bus_write_def w True Some r bus_read_def split: option.splits prod.splits)
      ultimately show ?thesis
        by (simp add: w)
    qed (use a True w in \<open>simp add: assms bus_write_def\<close>)
  qed (simp add: assms bus_write_def w)
  show "m = Some (d', r) \<Longrightarrow> r = Inl SensorAccess \<or> (\<exists>buf. r = Inr (f (fill n buf)))"
  proof (cases ok)
    case True
    assume m: "m = Some (d', r)"
    then obtain d2 x where p: "poll_status bus address status is_done d1 = Some (d2, x)"
      using True w by (cases "poll_status bus address status is_done d1") (auto simp: assms bus_write_def)
    then show ?thesis
      using poll_status_result[OF p] m True w
      by (cases x) (auto simp: assms bus_write_def bus_read_def split: option.splits prod.splits)
  qed (simp add: assms bus_write_def w)
qed

definition may_return :: "'d i2c \<Rightarrow> 8 word \<Rightarrow> 8 word list \<Rightarrow> 8 word \<Rightarrow> (8 word \<Rightarrow> bool) \<Rightarrow> 'd \<Rightarrow> bool" where
  "may_return bus address start status is_done d \<longleftrightarrow>
     (case i2c_write bus d address start of (d, ok) \<Rightarrow> ok \<longrightarrow> answers bus address status is_done d)"

text \<open>
  A measurement returns exactly when the device cannot be started or its status register, read again
  and again, at last says that the data are there (not busy; both pressure and temperature; data ready)
  or fails to be read.  There is no other bound on the loop.
\<close>

theorem measure_returns:
  "(stts22h_measure bus address d \<noteq> None \<longleftrightarrow>
      may_return bus address [0x04, 0x49] 0x05 (\<lambda>b. \<not> bit b 0) d) \<and>
   (lps22df_measure bus pressure_offset address d \<noteq> None \<longleftrightarrow>
      may_return bus address [0x11, 0x09] 0x27 (\<lambda>b. bit b 0 \<and> bit b 1) d) \<and>
   (lis2du12_measure bus full_scale address d \<noteq> None \<longleftrightarrow>
      may_return bus address [0x13, 0x22] 0x25 (\<lambda>b. bit b 0) d)"
proof (intro conjI)
  have b: "b AND 1 = 0 \<longleftrightarrow> \<not> bit b 0" "b AND 1 = 1 \<longleftrightarrow> bit b 0" for b :: "8 word"
    by (simp_all add: and_one_eq bit_0 odd_iff_mod_2_eq_one)
  have b3: "b AND 3 = 3 \<longleftrightarrow> bit b 0 \<and> bit b 1" for b :: "8 word"
  proof -
    have m: "3 = (mask 2 :: 8 word)"
      by (simp add: mask_eq_exp_minus_1)
    show ?thesis
      unfolding m
    proof
      assume "b AND mask 2 = mask 2"
      then have "bit (b AND mask 2) n = bit (mask 2 :: 8 word) n" for n
        by simp
      from this[of 0] this[of 1] show "bit b 0 \<and> bit b 1"
        by (simp add: bit_simps)
    qed (auto simp: bit_eq_iff[of "b AND mask 2"] bit_simps less_2_cases_iff)
  qed
  show "stts22h_measure bus address d \<noteq> None \<longleftrightarrow> may_return bus address [0x04, 0x49] 0x05 (\<lambda>b. \<not> bit b 0) d"
    unfolding stts22h_measure_def Let_def
    by (subst measure_course(1)[OF refl])
      (simp add: may_return_def b BUSY_BITS_def ONE_SHOT_BITS_def IF_ADD_INC_BITS_def BDU_BITS_def push_bit_eq_mult split: prod.split)
  show "lps22df_measure bus pressure_offset address d \<noteq> None \<longleftrightarrow>
      may_return bus address [0x11, 0x09] 0x27 (\<lambda>b. bit b 0 \<and> bit b 1) d"
    unfolding lps22df_measure_def Let_def
    by (subst measure_course(1)[OF refl])
      (simp add: may_return_def b3 LPS_BDU_BITS_def LPS_ONESHOT_BITS_def T_DA_BITS_def P_DA_BITS_def push_bit_eq_mult split: prod.split)
  show "lis2du12_measure bus full_scale address d \<noteq> None \<longleftrightarrow> may_return bus address [0x13, 0x22] 0x25 (\<lambda>b. bit b 0) d"
    unfolding lis2du12_measure_def Let_def
    by (subst measure_course(1)[OF refl])
      (simp add: may_return_def b LIS_BDU_BITS_def SOC_BITS_def DRDY_BITS_def push_bit_eq_mult split: prod.split)
qed

text \<open>
  Whatever the bus answers, a measurement is an error or one sample per reading channel.
\<close>

lemma readings_match_channels:
  assumes "run \<in> {stts22h_measure bus, lps22df_measure bus pressure_offset, lis2du12_measure bus full_scale}"
    "run address d = Some (d', Inr s)"
  shows "length (inner s) = length (sensor_channels s) \<and> inner s \<noteq> []"
proof -
  consider "stts22h_measure bus address d = Some (d', Inr s)" | "lps22df_measure bus pressure_offset address d = Some (d', Inr s)"
    | "lis2du12_measure bus full_scale address d = Some (d', Inr s)"
    using assms by auto
  then show ?thesis
  proof cases
    case 1
    from measure_course(2)[OF refl this[unfolded stts22h_measure_def Let_def]] show ?thesis
      by (auto simp: samples_from_def stts22h_reading_channels_def)
  next
    case 2
    from measure_course(2)[OF refl this[unfolded lps22df_measure_def Let_def]] show ?thesis
      by (auto simp: samples_from_def lps22df_reading_channels_def)
  next
    case 3
    from measure_course(2)[OF refl this[unfolded lis2du12_measure_def Let_def]] show ?thesis
      by (auto simp: samples_from_def lis2du12_reading_channels_def)
  qed
qed

end
