(* ===== verification/SensorDriver.thy ===== *)
theory SensorDriver
  imports I2cDevices
begin

section \<open>The drivers of the I2C sensors (\<open>sensors/ariel-os-sensor-*/src/i2c.rs\<close>)\<close>

text \<open>
  A driver has its state in an atomic byte, the bus device once it is initialised, a signal that asks for
  a measurement, and a signal that carries the reading.  The first signal is \<open>embassy_sync\<close>'s, a
  parameter: \<open>signal_ops\<close> with the contract \<open>signal_ok\<close>.  The three drivers run the same protocol,
  which is written once here; what differs is in \<open>I2cDevices\<close>.  \<open>run\<close> is a task of its own: between
  its taking a request and its delivering the reading, other tasks may call the driver.
\<close>

record 'c signal_ops =
  sg_new :: 'c
  sg_signal :: "'c \<Rightarrow> 'c"
  sg_poll :: "'c \<Rightarrow> 'c \<times> bool"

definition signal_ok :: "'c signal_ops \<Rightarrow> ('c \<Rightarrow> bool) \<Rightarrow> bool" where
  "signal_ok ops is_set \<longleftrightarrow>
     \<not> is_set (sg_new ops) \<and> (\<forall>c. is_set (sg_signal ops c)) \<and>
     (\<forall>c c' b. sg_poll ops c = (c', b) \<longrightarrow> b = is_set c \<and> \<not> is_set c')"

datatype category =
    Accelerometer | AccelerometerTemperature | AccelerometerGyroscope | AccelerometerGyroscopeTemperature
  | AccelerometerMagnetometerTemperature | Ammeter | Co2Gas | Color | GnssCategory | Gyroscope
  | RelativeHumidityCategory | RelativeHumidityTemperature | Light | Magnetometer | Ph | PressureCategory
  | PressureTemperature | PushButton | TemperatureCategory | Tvoc | Voltage

datatype trigger_error = TriggerNonEnabled

record ('d, 'c, 'w) sensor_driver =
  drv_state :: atomic_state
  drv_label :: "string option"
  drv_i2c :: "'d option"
  drv_address :: "8 word"
  drv_signaling :: 'c
  drv_reading :: "('w, reading_error + samples) signal_state"

record ('d, 'c, 'w) lps22df_driver = "('d, 'c, 'w) sensor_driver" +
  lps_pressure_offset :: "16 word"

record ('d, 'c, 'w) lis2du12_driver = "('d, 'c, 'w) sensor_driver" +
  lis_full_scale :: accel_full_scale

subsection \<open>Initialisation\<close>

definition stts22h_new :: "'c signal_ops \<Rightarrow> string option \<Rightarrow> ('d, 'c, 'w) sensor_driver" where
  "stts22h_new ops name =
     \<lparr>drv_state = atomic_new Uninitialized, drv_label = name, drv_i2c = None,
      drv_address = stts22h_address_u8 AddrVdd, drv_signaling = sg_new ops, drv_reading = signal_new\<rparr>"

definition lps22df_new :: "'c signal_ops \<Rightarrow> string option \<Rightarrow> ('d, 'c, 'w) lps22df_driver" where
  "lps22df_new ops name =
     \<lparr>drv_state = atomic_new Uninitialized, drv_label = name, drv_i2c = None,
      drv_address = lps22df_address_u8 Sa0Vdd, drv_signaling = sg_new ops, drv_reading = signal_new,
      lps_pressure_offset = 0\<rparr>"

definition lis2du12_new :: "'c signal_ops \<Rightarrow> string option \<Rightarrow> ('d, 'c, 'w) lis2du12_driver" where
  "lis2du12_new ops name =
     \<lparr>drv_state = atomic_new Uninitialized, drv_label = name, drv_i2c = None,
      drv_address = lis2du12_address_u8 Sa0Vdd, drv_signaling = sg_new ops, drv_reading = signal_new,
      lis_full_scale = Scale2g\<rparr>"

text \<open>\<open>Ok\<close> of the reset is handed to \<open>keep\<close>; a device that cannot be reset is dropped.\<close>

definition driver_init ::
    "('d \<Rightarrow> 8 word \<Rightarrow> ('d \<times> (unit + 'r)) option) \<Rightarrow> ('r \<Rightarrow> ('d, 'c, 'w, 'z) sensor_driver_scheme \<Rightarrow> ('d, 'c, 'w, 'z) sensor_driver_scheme) \<Rightarrow>
     'd \<Rightarrow> 8 word \<Rightarrow> ('d, 'c, 'w, 'z) sensor_driver_scheme \<Rightarrow> ('d, 'c, 'w, 'z) sensor_driver_scheme option" where
  "driver_init reset keep i2c_device address x =
     (if drv_i2c x = None then
        let x = x\<lparr>drv_address := address\<rparr> in
        case reset i2c_device address of
          None \<Rightarrow> None
        | Some (d, Inl _) \<Rightarrow> Some x
        | Some (d, Inr r) \<Rightarrow>
            let x = keep r x; x = x\<lparr>drv_i2c := Some d\<rparr> in
            Some (x\<lparr>drv_state := atomic_set Enabled (drv_state x)\<rparr>)
      else Some x)"

definition stts22h_init ::
    "'d i2c \<Rightarrow> 'd \<Rightarrow> stts22h_address \<Rightarrow> ('d, 'c, 'w) sensor_driver \<Rightarrow> ('d, 'c, 'w) sensor_driver option" where
  "stts22h_init bus i2c_device address =
     driver_init (stts22h_reset bus) (\<lambda>_ x. x) i2c_device (stts22h_address_u8 address)"

definition lps22df_init ::
    "'d i2c \<Rightarrow> 'd \<Rightarrow> sa0_address \<Rightarrow> ('d, 'c, 'w) lps22df_driver \<Rightarrow> ('d, 'c, 'w) lps22df_driver option" where
  "lps22df_init bus i2c_device address =
     driver_init (lps22df_reset bus) (\<lambda>pressure_offset x. x\<lparr>lps_pressure_offset := pressure_offset\<rparr>)
       i2c_device (lps22df_address_u8 address)"

definition lis2du12_init ::
    "'d i2c \<Rightarrow> 'd \<Rightarrow> sa0_address \<Rightarrow> ('d, 'c, 'w) lis2du12_driver \<Rightarrow> ('d, 'c, 'w) lis2du12_driver option" where
  "lis2du12_init bus i2c_device address =
     driver_init (lis2du12_reset bus) (\<lambda>_ x. x) i2c_device (lis2du12_address_u8 address)"

subsection \<open>The trait \<open>Sensor\<close>\<close>

definition trigger_measurement ::
    "'c signal_ops \<Rightarrow> ('d, 'c, 'w, 'z) sensor_driver_scheme \<Rightarrow>
     panic + ('d, 'c, 'w, 'z) sensor_driver_scheme \<times> (trigger_error + unit)" where
  "trigger_measurement ops x =
     (let x = x\<lparr>drv_reading := signal_clear (drv_reading x)\<rparr>;
          request = (\<lambda>x. Inr (x\<lparr>drv_signaling := sg_signal ops (drv_signaling x)\<rparr>, Inr ())) in
      bnd (atomic_get (drv_state x)) (\<lambda>st.
        case st of
          Measuring \<Rightarrow> request x
        | Enabled \<Rightarrow> request (x\<lparr>drv_state := atomic_set Measuring (drv_state x)\<rparr>)
        | Uninitialized \<Rightarrow> Inr (x, Inl TriggerNonEnabled)
        | Disabled \<Rightarrow> Inr (x, Inl TriggerNonEnabled)
        | Sleeping \<Rightarrow> Inr (x, Inl TriggerNonEnabled)))"

definition wait_for_reading ::
    "('d, 'c, 'w, 'z) sensor_driver_scheme \<Rightarrow> panic + ('d, 'c, 'w, 'z) sensor_driver_scheme \<times> reading_waiter" where
  "wait_for_reading x =
     bnd (atomic_get (drv_state x)) (\<lambda>st.
       case st of
         Measuring \<Rightarrow> Inr (x\<lparr>drv_state := atomic_set Enabled (drv_state x)\<rparr>, reading_waiter_new)
       | Enabled \<Rightarrow> Inr (x, reading_waiter_new_err NotMeasuring)
       | Uninitialized \<Rightarrow> Inr (x, reading_waiter_new_err ReadingNonEnabled)
       | Disabled \<Rightarrow> Inr (x, reading_waiter_new_err ReadingNonEnabled)
       | Sleeping \<Rightarrow> Inr (x, reading_waiter_new_err ReadingNonEnabled))"

definition driver_set_mode ::
    "mode \<Rightarrow> ('d, 'c, 'w, 'z) sensor_driver_scheme \<Rightarrow>
     panic + ('d, 'c, 'w, 'z) sensor_driver_scheme \<times> state option" where
  "driver_set_mode m x =
     bnd (atomic_set_mode m (drv_state x)) (\<lambda>(a, old). Inr (x\<lparr>drv_state := a\<rparr>, old))"

definition driver_state :: "('d, 'c, 'w, 'z) sensor_driver_scheme \<Rightarrow> panic + state" where
  "driver_state x = atomic_get (drv_state x)"

definition stts22h_categories :: "category list" where
  "stts22h_categories = [TemperatureCategory]"

definition lps22df_categories :: "category list" where
  "lps22df_categories = [PressureCategory, PressureTemperature]"

definition lis2du12_categories :: "category list" where
  "lis2du12_categories = [Accelerometer]"

subsection \<open>The task \<open>run\<close>\<close>

text \<open>The two halves of a round of its loop; the device answers in between.\<close>

definition run_take ::
    "'c signal_ops \<Rightarrow> ('d, 'c, 'w, 'z) sensor_driver_scheme \<Rightarrow> ('d, 'c, 'w, 'z) sensor_driver_scheme \<times> bool" where
  "run_take ops x = (case sg_poll ops (drv_signaling x) of (c, b) \<Rightarrow> (x\<lparr>drv_signaling := c\<rparr>, b))"

definition run_deliver ::
    "(8 word \<Rightarrow> 'd \<Rightarrow> ('d \<times> (reading_error + samples)) option) \<Rightarrow> ('d, 'c, 'w, 'z) sensor_driver_scheme \<Rightarrow>
     (('d, 'c, 'w, 'z) sensor_driver_scheme \<times> 'w list) option" where
  "run_deliver take_reading x =
     (case drv_i2c x of
        None \<Rightarrow> None
      | Some d \<Rightarrow>
          (case take_reading (drv_address x) d of
             None \<Rightarrow> None
           | Some (d, r) \<Rightarrow>
               let (rd, woken) = signal r (drv_reading x) in Some (x\<lparr>drv_i2c := Some d, drv_reading := rd\<rparr>, woken)))"

definition stts22h_run_deliver ::
    "'d i2c \<Rightarrow> ('d, 'c, 'w) sensor_driver \<Rightarrow> (('d, 'c, 'w) sensor_driver \<times> 'w list) option" where
  "stts22h_run_deliver bus x = run_deliver (stts22h_measure bus) x"

definition lps22df_run_deliver ::
    "'d i2c \<Rightarrow> ('d, 'c, 'w) lps22df_driver \<Rightarrow> (('d, 'c, 'w) lps22df_driver \<times> 'w list) option" where
  "lps22df_run_deliver bus x = run_deliver (lps22df_measure bus (lps_pressure_offset x)) x"

definition lis2du12_run_deliver ::
    "'d i2c \<Rightarrow> ('d, 'c, 'w) lis2du12_driver \<Rightarrow> (('d, 'c, 'w) lis2du12_driver \<times> 'w list) option" where
  "lis2du12_run_deliver bus x = run_deliver (lis2du12_measure bus (lis_full_scale x)) x"

text \<open>The trait's operations, which the other two drivers repeat word for word.\<close>

definition lps22df_trigger_measurement ::
    "'c signal_ops \<Rightarrow> ('d, 'c, 'w) lps22df_driver \<Rightarrow> panic + ('d, 'c, 'w) lps22df_driver \<times> (trigger_error + unit)" where
  "lps22df_trigger_measurement ops x = trigger_measurement ops x"

definition lps22df_wait_for_reading ::
    "('d, 'c, 'w) lps22df_driver \<Rightarrow> panic + ('d, 'c, 'w) lps22df_driver \<times> reading_waiter" where
  "lps22df_wait_for_reading x = wait_for_reading x"

definition lis2du12_trigger_measurement ::
    "'c signal_ops \<Rightarrow> ('d, 'c, 'w) lis2du12_driver \<Rightarrow> panic + ('d, 'c, 'w) lis2du12_driver \<times> (trigger_error + unit)" where
  "lis2du12_trigger_measurement ops x = trigger_measurement ops x"

definition lis2du12_wait_for_reading ::
    "('d, 'c, 'w) lis2du12_driver \<Rightarrow> panic + ('d, 'c, 'w) lis2du12_driver \<times> reading_waiter" where
  "lis2du12_wait_for_reading x = wait_for_reading x"

subsection \<open>A driver and its callers\<close>

text \<open>
  An initialised driver, its task \<open>run\<close> (\<open>busy\<close> between the two halves of a round), and any number of
  callers.  The numbers record the history: how many triggers succeeded, how many futures for a reading
  were handed out, and how many triggers came before the measurement of the present round and before the
  measurement of the reading delivered last.
\<close>

record ('d, 'c, 'w, 'z) sensor_sys =
  driver :: "('d, 'c, 'w, 'z) sensor_driver_scheme"
  busy :: bool
  triggers :: nat
  waits :: nat
  begun :: nat
  stamp :: nat

datatype sensor_event = EvTrigger | EvWait | EvSetMode | EvPoll | EvTake | EvDeliver

definition started :: "'c signal_ops \<Rightarrow> ('d, 'c, 'w, 'z) sensor_driver_scheme \<Rightarrow> bool" where
  "started ops x \<longleftrightarrow> drv_state x = state_as_u8 Enabled \<and> drv_signaling x = sg_new ops \<and> drv_reading x = signal_new"

inductive sensor_step ::
    "'c signal_ops \<Rightarrow> (8 word \<Rightarrow> 'd \<Rightarrow> ('d \<times> (reading_error + samples)) option) \<Rightarrow> ('w \<Rightarrow> 'w \<Rightarrow> bool) \<Rightarrow>
     ('d, 'c, 'w, 'z) sensor_sys \<Rightarrow> sensor_event \<Rightarrow> ('d, 'c, 'w, 'z) sensor_sys \<Rightarrow> bool" for ops take_reading will_wake where
  trigger: "trigger_measurement ops (driver s) = Inr (x, r) \<Longrightarrow>
    sensor_step ops take_reading will_wake s EvTrigger
      (s\<lparr>driver := x, triggers := triggers s + (if r = Inr () then 1 else 0)\<rparr>)"
| wait: "wait_for_reading (driver s) = Inr (x, f) \<Longrightarrow>
    sensor_step ops take_reading will_wake s EvWait (s\<lparr>driver := x, waits := waits s + (if f = Waiter then 1 else 0)\<rparr>)"
| set_mode: "driver_set_mode m (driver s) = Inr (x, r) \<Longrightarrow>
    sensor_step ops take_reading will_wake s EvSetMode (s\<lparr>driver := x\<rparr>)"
| poll: "poll_wait will_wake w (drv_reading (driver s)) = (rd, r, woken) \<Longrightarrow>
    sensor_step ops take_reading will_wake s EvPoll (s\<lparr>driver := (driver s)\<lparr>drv_reading := rd\<rparr>\<rparr>)"
| take: "\<not> busy s \<Longrightarrow> run_take ops (driver s) = (x, b) \<Longrightarrow>
    sensor_step ops take_reading will_wake s EvTake
      (s\<lparr>driver := x, busy := b, begun := if b then triggers s else begun s\<rparr>)"
| deliver: "busy s \<Longrightarrow> run_deliver take_reading (driver s) = Some (x, woken) \<Longrightarrow>
    sensor_step ops take_reading will_wake s EvDeliver (s\<lparr>driver := x, busy := False, stamp := begun s\<rparr>)"

text \<open>What is reachable by steps that are \<open>allowed\<close>; \<open>quiet\<close> ones do not trigger during a measurement.\<close>

inductive sensor_reach ::
    "(('d, 'c, 'w, 'z) sensor_sys \<Rightarrow> sensor_event \<Rightarrow> bool) \<Rightarrow> 'c signal_ops \<Rightarrow>
     (8 word \<Rightarrow> 'd \<Rightarrow> ('d \<times> (reading_error + samples)) option) \<Rightarrow> ('w \<Rightarrow> 'w \<Rightarrow> bool) \<Rightarrow>
     ('d, 'c, 'w, 'z) sensor_sys \<Rightarrow> bool" for allowed ops take_reading will_wake where
  init: "started ops x \<Longrightarrow> sensor_reach allowed ops take_reading will_wake
    \<lparr>driver = x, busy = False, triggers = 0, waits = 0, begun = 0, stamp = 0\<rparr>"
| step: "sensor_reach allowed ops take_reading will_wake s \<Longrightarrow> allowed s e \<Longrightarrow>
    sensor_step ops take_reading will_wake s e s' \<Longrightarrow> sensor_reach allowed ops take_reading will_wake s'"

definition quiet :: "('d, 'c, 'w, 'z) sensor_sys \<Rightarrow> sensor_event \<Rightarrow> bool" where
  "quiet s e \<longleftrightarrow> (e = EvTrigger \<longrightarrow> \<not> busy s)"

definition anything :: "('d, 'c, 'w, 'z) sensor_sys \<Rightarrow> sensor_event \<Rightarrow> bool" where
  "anything s e \<longleftrightarrow> True"

subsection \<open>The operations by state\<close>

declare state_as_u8.simps [simp del]

lemma atomic_get_u8 [simp]: "atomic_get (state_as_u8 st) = Inr st"
  by (simp add: atomic_get_def)

lemma signal_clear_not_ready [simp]: "signal_clear rd \<noteq> SigReady v"
  by (simp add: signal_clear_def split: signal_state.splits)

lemma poll_not_ready:
  "\<forall>v. rd \<noteq> SigReady v \<Longrightarrow>
    \<exists>w' woken. poll_wait will_wake w rd = (SigWaiting w', None, woken) \<and> (w' = w \<or> will_wake w' w)"
  by (cases rd) (simp_all add: poll_wait_def)

lemma trigger_by_state:
  "drv_state x = state_as_u8 st \<Longrightarrow> trigger_measurement ops x =
    (if st \<in> {Enabled, Measuring} then
       Inr (x\<lparr>drv_reading := signal_clear (drv_reading x), drv_state := state_as_u8 Measuring,
         drv_signaling := sg_signal ops (drv_signaling x)\<rparr>, Inr ())
     else Inr (x\<lparr>drv_reading := signal_clear (drv_reading x)\<rparr>, Inl TriggerNonEnabled))"
  by (cases st) (simp_all add: trigger_measurement_def Let_def atomic_set_def)

lemma wait_by_state:
  "drv_state x = state_as_u8 st \<Longrightarrow> wait_for_reading x =
    (if st = Measuring then Inr (x\<lparr>drv_state := state_as_u8 Enabled\<rparr>, Waiter)
     else Inr (x, WaiterErr (if st = Enabled then NotMeasuring else ReadingNonEnabled)))"
  by (cases st) (simp_all add: wait_for_reading_def atomic_set_def reading_waiter_new_def reading_waiter_new_err_def
     )

lemma set_mode_by_state:
  "drv_state x = state_as_u8 st \<Longrightarrow> driver_set_mode m x =
    (if st = Uninitialized then Inr (x, None) else Inr (x\<lparr>drv_state := state_as_u8 (state_from_mode m)\<rparr>, Some st))"
  by (auto simp add: driver_set_mode_def atomic_set_mode_def Let_def)

lemma new_then_init_started:
  "stts22h_init bus d a (stts22h_new ops name) = Some x \<Longrightarrow> drv_i2c x \<noteq> None \<Longrightarrow> started ops x"
  "lps22df_init bus d b (lps22df_new ops name) = Some y \<Longrightarrow> drv_i2c y \<noteq> None \<Longrightarrow> started ops y"
  "lis2du12_init bus d b (lis2du12_new ops name) = Some z \<Longrightarrow> drv_i2c z \<noteq> None \<Longrightarrow> started ops z"
  by (auto simp: started_def stts22h_init_def stts22h_new_def lps22df_init_def lps22df_new_def lis2du12_init_def
      lis2du12_new_def driver_init_def Let_def atomic_set_def split: option.splits prod.splits sum.splits)

lemma run_deliver_signal:
  "drv_i2c x = Some d \<Longrightarrow> take_reading (drv_address x) d = Some (d', v) \<Longrightarrow>
    \<exists>woken. run_deliver take_reading x = Some (x\<lparr>drv_i2c := Some d', drv_reading := SigReady v\<rparr>, woken) \<and>
      (\<forall>w'. drv_reading x = SigWaiting w' \<longrightarrow> woken = [w'])"
  by (cases "drv_reading x") (simp_all add: run_deliver_def signal_def)

subsection \<open>Invariants\<close>

definition sensor_inv :: "('d, 'c, 'w, 'z) sensor_sys \<Rightarrow> bool" where
  "sensor_inv s \<longleftrightarrow> (\<exists>st. drv_state (driver s) = state_as_u8 st \<and> st \<noteq> Uninitialized \<and>
     waits s + (if st = Measuring then 1 else 0) \<le> triggers s)"

lemma sensor_invE:
  assumes "sensor_inv s"
  obtains st where "drv_state (driver s) = state_as_u8 st" "st \<noteq> Uninitialized"
    "waits s + (if st = Measuring then 1 else 0) \<le> triggers s"
  using assms by (auto simp: sensor_inv_def)

lemma sensor_step_inv:
  assumes "sensor_step ops take_reading will_wake s e s'" "sensor_inv s"
  shows "sensor_inv s'"
proof -
  obtain st where st: "drv_state (driver s) = state_as_u8 st" "st \<noteq> Uninitialized"
    "waits s + (if st = Measuring then 1 else 0) \<le> triggers s"
    using assms(2) by (rule sensor_invE)
  from assms(1) show ?thesis
  proof cases
    case (trigger x r)
    have "drv_state x = state_as_u8 (if st \<in> {Enabled, Measuring} then Measuring else st)"
      "r = Inr () \<longleftrightarrow> st \<in> {Enabled, Measuring}"
      using trigger(3) st(1) by (auto simp: trigger_by_state[OF st(1)] split: if_splits)
    then show ?thesis
      using st(2,3) trigger(2) by (cases "st \<in> {Enabled, Measuring}") (simp_all add: sensor_inv_def split: if_splits)
  next
    case (wait x f)
    have "drv_state x = state_as_u8 (if st = Measuring then Enabled else st)" "f = Waiter \<longleftrightarrow> st = Measuring"
      using wait(3) st(1) by (auto simp: wait_by_state[OF st(1)] split: if_splits)
    then show ?thesis
      using st(2,3) wait(2) by (cases "st = Measuring") (simp_all add: sensor_inv_def)
  next
    case (set_mode m x r)
    have "drv_state x = state_as_u8 (state_from_mode m)"
      using set_mode(3) st(2) by (auto simp add: set_mode_by_state[OF st(1)])
    then show ?thesis
      using st(3) set_mode(2) by (cases m) (simp_all add: sensor_inv_def split: if_splits)
  next
    case (deliver x woken)
    then have "drv_state x = drv_state (driver s)"
      by (auto simp: run_deliver_def Let_def split: option.splits prod.splits)
    then show ?thesis
      using assms(2) deliver by (simp add: sensor_inv_def)
  next
    case (poll w rd r woken)
    then show ?thesis
      using assms(2) by (simp add: sensor_inv_def)
  next
    case (take x b)
    then have "drv_state x = drv_state (driver s)"
      by (auto simp: run_take_def split: prod.splits)
    then show ?thesis
      using assms(2) take by (simp add: sensor_inv_def)
  qed
qed

lemma sensor_reach_inv: "sensor_reach allowed ops take_reading will_wake s \<Longrightarrow> sensor_inv s"
proof (induction rule: sensor_reach.induct)
  case (step s e s')
  then show ?case
    using sensor_step_inv by blast
qed (simp add: sensor_inv_def started_def)

text \<open>In quiet runs the measurement of the present round, and a reading that is ready, follow the last trigger.\<close>

definition reading_fresh :: "('d, 'c, 'w, 'z) sensor_sys \<Rightarrow> bool" where
  "reading_fresh s \<longleftrightarrow>
     (busy s \<longrightarrow> begun s = triggers s) \<and> (\<forall>v. drv_reading (driver s) = SigReady v \<longrightarrow> stamp s = triggers s)"

lemma quiet_step_fresh:
  assumes step: "sensor_step ops take_reading will_wake s e s'" and "quiet s e" "sensor_inv s" "reading_fresh s"
  shows "reading_fresh s'"
proof -
  obtain st where st: "drv_state (driver s) = state_as_u8 st"
    using assms(3) by (rule sensor_invE)
  from step show ?thesis
  proof cases
    case (trigger x r)
    then show ?thesis
      using assms(2) by (auto simp: reading_fresh_def quiet_def trigger_by_state[OF st] split: if_splits)
  next
    case (wait x f)
    then have "drv_reading x = drv_reading (driver s)"
      by (auto simp: wait_by_state[OF st] split: if_splits)
    then show ?thesis
      using wait assms(4) by (simp add: reading_fresh_def)
  next
    case (set_mode m x r)
    then have "drv_reading x = drv_reading (driver s)"
      by (auto simp: set_mode_by_state[OF st] split: if_splits)
    then show ?thesis
      using set_mode assms(4) by (simp add: reading_fresh_def)
  next
    case (poll w rd r woken)
    then have "rd \<noteq> SigReady v" for v
      by (auto simp: poll_wait_def split: signal_state.splits if_splits)
    then show ?thesis
      using poll assms(4) by (simp add: reading_fresh_def)
  next
    case (take x b)
    then have "drv_reading x = drv_reading (driver s)"
      by (auto simp: run_take_def split: prod.splits)
    then show ?thesis
      using take assms(4) by (simp add: reading_fresh_def)
  next
    case (deliver x woken)
    then show ?thesis
      using assms(4) by (simp add: reading_fresh_def)
  qed
qed

lemma quiet_reach_fresh: "sensor_reach quiet ops take_reading will_wake s \<Longrightarrow> reading_fresh s"
proof (induction rule: sensor_reach.induct)
  case (step s e s')
  then show ?case
    using quiet_step_fresh sensor_reach_inv by blast
qed (simp add: reading_fresh_def started_def signal_new_def)


text \<open>
  A trigger is answered.  In any state of an enabled driver, a trigger, then a round of the task
  and the wait of the caller give the caller exactly the reading of the measurement
  made after the trigger, whether the caller polls before or after the measurement ends; a caller that
  polled before is woken.
\<close>

theorem trigger_then_reading:
  assumes ops: "signal_ok ops is_set"
    and st: "drv_state (driver s) \<in> {state_as_u8 Enabled, state_as_u8 Measuring}"
    and d: "drv_i2c (driver s) = Some d" "take_reading (drv_address (driver s)) d = Some (d', v)"
  shows "\<exists>x1 x2 x3 x4 x5 w' woken woken'. trigger_measurement ops (driver s) = Inr (x1, Inr ()) \<and>
    run_take ops x1 = (x2, True) \<and> wait_for_reading x2 = Inr (x3, Waiter) \<and>
    run_deliver take_reading x3 = Some (x4, woken) \<and> poll_wait will_wake w (drv_reading x4) = (SigNone, Some v, []) \<and>
    poll_wait will_wake w (drv_reading x3) = (SigWaiting w', None, woken') \<and> (w' = w \<or> will_wake w' w) \<and>
    run_deliver take_reading (x3\<lparr>drv_reading := SigWaiting w'\<rparr>) = Some (x5, [w']) \<and>
    poll_wait will_wake w (drv_reading x5) = (SigNone, Some v, [])"
proof -
  let ?s = "driver s"
  obtain st0 where st0: "drv_state ?s = state_as_u8 st0" "st0 \<in> {Enabled, Measuring}"
    using st by blast
  define x1 where "x1 = ?s\<lparr>drv_reading := signal_clear (drv_reading ?s), drv_state := state_as_u8 Measuring,
         drv_signaling := sg_signal ops (drv_signaling ?s)\<rparr>"
  obtain c where c: "sg_poll ops (sg_signal ops (drv_signaling ?s)) = (c, True)"
    using ops by (cases "sg_poll ops (sg_signal ops (drv_signaling ?s))") (auto simp: signal_ok_def)
  define x2 where "x2 = x1\<lparr>drv_signaling := c\<rparr>"
  define x3 where "x3 = x2\<lparr>drv_state := state_as_u8 Enabled\<rparr>"
  note x_defs = x1_def x2_def x3_def
  have 1: "trigger_measurement ops ?s = Inr (x1, Inr ())"
    using st0(2) by (auto simp: trigger_by_state[OF st0(1)] x1_def)
  have 2: "run_take ops x1 = (x2, True)"
    by (simp add: run_take_def x1_def x2_def c)
  have "drv_state x2 = state_as_u8 Measuring"
    by (simp add: x_defs)
  then have 3: "wait_for_reading x2 = Inr (x3, Waiter)"
    by (subst wait_by_state) (simp_all add: x3_def)
  have 4: "\<exists>woken. run_deliver take_reading (x3\<lparr>drv_reading := rd\<rparr>) = Some (x3\<lparr>drv_i2c := Some d', drv_reading := SigReady v\<rparr>, woken) \<and>
      (\<forall>w'. rd = SigWaiting w' \<longrightarrow> woken = [w'])" for rd
    using run_deliver_signal[of "x3\<lparr>drv_reading := rd\<rparr>" d take_reading d' v] d by (simp add: x_defs)
  obtain woken where 5: "run_deliver take_reading x3 = Some (x3\<lparr>drv_i2c := Some d', drv_reading := SigReady v\<rparr>, woken)"
    using 4[of "drv_reading x3"] by auto
  obtain w' woken' where 6: "poll_wait will_wake w (drv_reading x3) = (SigWaiting w', None, woken')" "w' = w \<or> will_wake w' w"
    using poll_not_ready[of "drv_reading x3" will_wake w] by (auto simp: x_defs)
  have 7: "poll_wait will_wake w (SigReady v) = (SigNone, Some v, [])"
    by (simp add: poll_wait_def)
  obtain woken2 where 8: "run_deliver take_reading (x3\<lparr>drv_reading := SigWaiting w'\<rparr>) = Some (x3\<lparr>drv_i2c := Some d', drv_reading := SigReady v\<rparr>, [w'])"
    using 4[of "SigWaiting w'"] by auto
  show ?thesis
    using 1 2 3 5 6 7 8
    by (intro exI[of _ x1] exI[of _ x2] exI[of _ x3] exI[of _ "x3\<lparr>drv_i2c := Some d', drv_reading := SigReady v\<rparr>"]
        exI[of _ w'] exI[of _ woken] exI[of _ woken']) simp
qed

text \<open>
  A trigger during a measurement is answered with the measurement already under way: the caller that
  triggers, waits and polls gets a reading whose measurement began before its trigger, although a
  trigger is documented to clear the previous reading.
\<close>

theorem trigger_during_measurement:
  assumes reach: "sensor_reach quiet ops take_reading will_wake s" and "busy s"
    and st: "drv_state (driver s) \<in> {state_as_u8 Enabled, state_as_u8 Measuring}"
    and d: "drv_i2c (driver s) = Some d" "take_reading (drv_address (driver s)) d = Some (d', v)"
  shows "begun s = triggers s \<and> (\<exists>x1 x2 x3 woken. trigger_measurement ops (driver s) = Inr (x1, Inr ()) \<and>
    run_deliver take_reading x1 = Some (x2, woken) \<and> wait_for_reading x2 = Inr (x3, Waiter) \<and>
    poll_wait will_wake w (drv_reading x3) = (SigNone, Some v, []))"
proof
  show "begun s = triggers s"
    using quiet_reach_fresh[OF reach] assms(2) by (simp add: reading_fresh_def)
  obtain st0 where st0: "drv_state (driver s) = state_as_u8 st0" "st0 \<in> {Enabled, Measuring}"
    using st by blast
  obtain x1 where x1: "trigger_measurement ops (driver s) = Inr (x1, Inr ())" "drv_state x1 = state_as_u8 Measuring"
    "drv_i2c x1 = Some d" "drv_address x1 = drv_address (driver s)"
    using st0(2) d(1) by (simp add: trigger_by_state[OF st0(1)])
  obtain x2 woken where x2: "run_deliver take_reading x1 = Some (x2, woken)" "drv_state x2 = state_as_u8 Measuring"
    "drv_reading x2 = SigReady v"
    using run_deliver_signal[OF x1(3), of take_reading d' v] x1(2,4) d(2) by auto
  show "\<exists>x1 x2 x3 woken. trigger_measurement ops (driver s) = Inr (x1, Inr ()) \<and>
    run_deliver take_reading x1 = Some (x2, woken) \<and> wait_for_reading x2 = Inr (x3, Waiter) \<and>
    poll_wait will_wake w (drv_reading x3) = (SigNone, Some v, [])"
    by (rule exI[of _ x1], rule exI[of _ x2]) (simp add: x1(1) x2(1,3) wait_by_state[OF x2(2)] poll_wait_def)
qed

text \<open>
  A trigger that is refused still clears the reading: a caller that waits for the reading of an earlier
  trigger then waits on, with no measurement requested.
\<close>

lemma refused_trigger_clears:
  assumes "drv_state x = state_as_u8 Disabled" "drv_reading x = SigReady v"
  shows "\<exists>x'. trigger_measurement ops x = Inr (x', Inl TriggerNonEnabled) \<and> drv_reading x' = SigNone \<and>
    drv_signaling x' = drv_signaling x"
  using assms by (simp add: trigger_by_state signal_clear_def)

subsection \<open>A simulated device\<close>

text \<open>An STTS22H that counts its measurements, each of which gives the count as the temperature.\<close>

definition sim_bus :: "nat i2c" where
  "sim_bus = \<lparr>i2c_write = (\<lambda>d _ bs. (if bs = [0x04, 0x49] then d + 1 else d, True)),
     i2c_write_read = (\<lambda>d _ bs n. (d, Some (if bs = [0x06] then [word_of_nat d, 0] else replicate n 0)))\<rparr>"

definition bool_signal :: "bool signal_ops" where
  "bool_signal = \<lparr>sg_new = False, sg_signal = (\<lambda>_. True), sg_poll = (\<lambda>c. (False, c))\<rparr>"

lemma bool_signal_ok: "signal_ok bool_signal (\<lambda>c. c)"
  by (simp add: signal_ok_def bool_signal_def)

definition sim_driver :: "(nat, bool, nat) sensor_driver" where
  "sim_driver = \<lparr>drv_state = state_as_u8 Enabled, drv_label = None, drv_i2c = Some 0, drv_address = 0x3f,
     drv_signaling = False, drv_reading = SigNone\<rparr>"

definition sim_reading :: "int \<Rightarrow> reading_error + samples" where
  "sim_reading n = Inr (samples_from stts22h_reading_channels [sample_new n (SymmetricalError 50 0 (- 2))])"

lemma sim_started: "started bool_signal sim_driver"
  by (simp add: started_def sim_driver_def bool_signal_def signal_new_def)

lemma sim_init: "stts22h_init sim_bus 0 AddrGnd (stts22h_new bool_signal None) = Some sim_driver"
  by (simp add: stts22h_init_def driver_init_def stts22h_new_def stts22h_reset_def bus_write_def sim_bus_def
      sim_driver_def bool_signal_def signal_new_def atomic_set_def IF_ADD_INC_BITS_def)

lemma sim_measure: "stts22h_measure sim_bus a 0 = Some (1, sim_reading 1)"
proof -
  have "poll_status sim_bus a 5 (\<lambda>b. b AND BUSY_BITS = 0) d = Some (d, Inr ())" for d
    by (subst poll_status.simps) (simp add: sim_bus_def fill_def)
  moreover have "sint (i16_from_be_bytes 0 1) = 1"
    by code_simp
  ultimately show ?thesis
    by (simp add: stts22h_measure_def bus_write_def bus_read_def sim_bus_def sim_reading_def stts22h_accuracy_def fill_def
        ONE_SHOT_BITS_def IF_ADD_INC_BITS_def BDU_BITS_def)
qed

text \<open>The driver after a trigger, and with its task measuring.\<close>

definition sim_triggered :: "(nat, bool, nat, unit) sensor_sys" where
  "sim_triggered = \<lparr>driver = sim_driver\<lparr>drv_state := state_as_u8 Measuring, drv_signaling := True\<rparr>,
     busy = False, triggers = 1, waits = 0, begun = 0, stamp = 0\<rparr>"

definition sim_measuring :: "(nat, bool, nat, unit) sensor_sys" where
  "sim_measuring = sim_triggered\<lparr>driver := (driver sim_triggered)\<lparr>drv_signaling := False\<rparr>, busy := True, begun := 1\<rparr>"

lemma sim_reach:
  "sensor_reach quiet bool_signal (stts22h_measure sim_bus) (=) sim_triggered"
  "sensor_reach quiet bool_signal (stts22h_measure sim_bus) (=) sim_measuring"
proof -
  let ?s = "\<lparr>driver = sim_driver, busy = False, triggers = 0, waits = 0, begun = 0, stamp = 0\<rparr> :: (nat, bool, nat, unit) sensor_sys"
  have "trigger_measurement bool_signal (driver ?s) = Inr (driver sim_triggered, Inr ())"
    by (subst trigger_by_state[of _ Enabled]) (simp_all add: sim_driver_def sim_triggered_def bool_signal_def signal_clear_def)
  from sensor_step.trigger[OF this, of "stts22h_measure sim_bus" "(=)"]
  have "sensor_step bool_signal (stts22h_measure sim_bus) (=) ?s EvTrigger sim_triggered"
    by (simp add: sim_triggered_def)
  from sensor_reach.step[OF sensor_reach.init[OF sim_started] _ this]
  show t: "sensor_reach quiet bool_signal (stts22h_measure sim_bus) (=) sim_triggered"
    by (simp add: quiet_def)
  have "run_take bool_signal (driver sim_triggered) = (driver sim_measuring, True)"
    by (simp add: run_take_def sim_triggered_def sim_measuring_def bool_signal_def)
  from sensor_step.take[OF _ this, of "stts22h_measure sim_bus" "(=)"]
  have "sensor_step bool_signal (stts22h_measure sim_bus) (=) sim_triggered EvTake sim_measuring"
    by (simp add: sim_triggered_def sim_measuring_def)
  from sensor_reach.step[OF t _ this]
  show "sensor_reach quiet bool_signal (stts22h_measure sim_bus) (=) sim_measuring"
    by (simp add: quiet_def)
qed

lemmas sim_defs = sim_measuring_def sim_triggered_def sim_driver_def

theorem trigger_during_measurement_witness:
  "\<exists>x1 x2 x3 woken. trigger_measurement bool_signal (driver sim_measuring) = Inr (x1, Inr ()) \<and>
    run_deliver (stts22h_measure sim_bus) x1 = Some (x2, woken) \<and> wait_for_reading x2 = Inr (x3, Waiter) \<and>
    poll_wait (=) 7 (drv_reading x3) = (SigNone, Some (sim_reading 1), [])"
  using trigger_during_measurement[OF sim_reach(2), of 0 1 "sim_reading 1" 7]
  by (simp add: sim_defs sim_measure trigger_by_state)


theorem trigger_then_reading_witness:
  "\<exists>x1 x2 x3 x4 woken. trigger_measurement bool_signal (driver sim_triggered) = Inr (x1, Inr ()) \<and>
    run_take bool_signal x1 = (x2, True) \<and> wait_for_reading x2 = Inr (x3, Waiter) \<and>
    run_deliver (stts22h_measure sim_bus) x3 = Some (x4, woken) \<and>
    poll_wait (=) 7 (drv_reading x4) = (SigNone, Some (sim_reading 1), [])"
proof -
  have "drv_i2c (driver sim_triggered) = Some 0" "drv_state (driver sim_triggered) \<in> {state_as_u8 Enabled, state_as_u8 Measuring}"
    by (simp_all add: sim_defs)
  from trigger_then_reading[where s = sim_triggered and take_reading = "stts22h_measure sim_bus" and w = 7, OF bool_signal_ok this(2) this(1) sim_measure] show ?thesis
    by blast
qed

end
