(* ===== verification/GnssTime.thy ===== *)
theory GnssTime
  imports Sensors "HOL-Library.Signed_Division"
begin

section \<open>Time of a GNSS fix in two samples (\<open>ariel-os-sensors-gnss-time-ext/src/lib.rs\<close>)\<close>

text \<open>
  A timestamp of nanoseconds is split into two \<open>i32\<close> samples by the driver and put together by the
  extension.  Fixed-width integers are \<open>int\<close> with their ranges written out; \<open>/\<close> and \<open>%\<close> on them
  truncate towards zero: \<open>sdiv\<close> and \<open>smod\<close>.
\<close>

definition ARIEL_EPOCH :: int where
  "ARIEL_EPOCH = 1735689600"

definition fits :: "nat \<Rightarrow> int \<Rightarrow> bool" where
  "fits w x \<longleftrightarrow> - (2 ^ (w - 1)) \<le> x \<and> x < 2 ^ (w - 1)"

definition try_from_int :: "nat \<Rightarrow> int \<Rightarrow> int option" where
  "try_from_int w x = (if fits w x then Some x else None)"

datatype gnss_time_ext_error = Reading sample_error | InvalidSensor

datatype gnss_time_ext_convert_error = Overflow

definition convert_datetime_to_parts :: "int \<Rightarrow> gnss_time_ext_convert_error + int \<times> int" where
  "convert_datetime_to_parts timestamp_nanos =
     bnd (ok_or Overflow (try_from_int 64 (timestamp_nanos sdiv 1000000000))) (\<lambda>timestamp_seconds.
     bnd (ok_or Overflow (try_from_int 64 (timestamp_seconds - ARIEL_EPOCH))) (\<lambda>d.
     bnd (ok_or Overflow (try_from_int 32 d)) (\<lambda>seconds_since_epoch.
     bnd (ok_or Overflow (try_from_int 32 (timestamp_nanos smod 1000000000))) (\<lambda>nanoseconds.
       Inr (seconds_since_epoch, nanoseconds)))))"

text \<open>The iterator is consumed up to the first channel with the marker, then \<open>nth(position)\<close>.\<close>

fun skip_to_marker :: "(reading_channel \<times> sample) list \<Rightarrow> label \<Rightarrow> (reading_channel \<times> sample) list" where
  "skip_to_marker [] marker = []"
| "skip_to_marker ((c, s) # rest) marker = (if c_label c = marker then (c, s) # rest else skip_to_marker rest marker)"

definition get_element_after_marker ::
    "(reading_channel \<times> sample) list \<Rightarrow> label \<Rightarrow> nat \<Rightarrow> (reading_channel \<times> sample) option" where
  "get_element_after_marker items marker position =
     (case list_nth (skip_to_marker items marker) position of
        Some (c, s) \<Rightarrow> if \<not> (c_label c = Opaque \<or> c_label c = marker) then None else Some (c, s)
      | None \<Rightarrow> None)"

definition sample_reading :: "sample \<Rightarrow> gnss_time_ext_error + int" where
  "sample_reading s = (case sample_value s of Inl e \<Rightarrow> Inl (Reading e) | Inr v \<Rightarrow> Inr v)"

definition time_of_fix_timestamp :: "samples \<Rightarrow> gnss_time_ext_error + int" where
  "time_of_fix_timestamp ss =
     bnd (ok_or InvalidSensor (get_element_after_marker (zip_collect (reading_samples ss)) OpaqueGnssTime 0)) (\<lambda>p.
     bnd (sample_reading (snd p)) (\<lambda>since_ariel_epoch. Inr (ARIEL_EPOCH + since_ariel_epoch)))"

definition time_of_fix_subsec_nanos :: "samples \<Rightarrow> gnss_time_ext_error + int" where
  "time_of_fix_subsec_nanos ss =
     bnd (ok_or InvalidSensor (get_element_after_marker (zip_collect (reading_samples ss)) OpaqueGnssTime 1)) (\<lambda>p.
       sample_reading (snd p))"

definition time_of_fix_timestamp_nanos :: "samples \<Rightarrow> gnss_time_ext_error + int" where
  "time_of_fix_timestamp_nanos ss =
     bnd (time_of_fix_timestamp ss) (\<lambda>t. bnd (time_of_fix_subsec_nanos ss) (\<lambda>n. Inr (t * 1000000000 + n)))"

subsection \<open>Splitting and joining\<close>

lemma smod_bound: "\<bar>t smod 1000000000\<bar> < (1000000000 :: int)"
proof -
  have "\<bar>t smod 1000000000\<bar> = \<bar>t\<bar> mod 1000000000"
    by (simp add: signed_modulo_int_def signed_divide_int_def minus_mult_div_eq_mod sgn_if
        abs_mult sgn_mult abs_sgn_eq abs_minus_commute algebra_simps)
  then show ?thesis
    by simp
qed

lemma smod_fits: "fits 32 (t smod 1000000000)"
  using smod_bound[of t] abs_less_iff[of "t smod 1000000000"] by (simp add: fits_def)

lemma sdiv_smod: "(t sdiv 1000000000) * 1000000000 + t smod 1000000000 = (t :: int)"
  by (simp add: sdiv_mult_smod_eq)

lemma convert_eq:
  "convert_datetime_to_parts t =
    (if fits 32 (t sdiv 1000000000 - ARIEL_EPOCH)
     then Inr (t sdiv 1000000000 - ARIEL_EPOCH, t smod 1000000000) else Inl Overflow)"
proof -
  show ?thesis
    using smod_fits[of t]
    by (auto simp: convert_datetime_to_parts_def try_from_int_def ok_or_def fits_def ARIEL_EPOCH_def)
qed

text \<open>Where the marker is found in a reading.\<close>

definition available :: "sample_metadata \<Rightarrow> bool" where
  "available m \<longleftrightarrow> m \<noteq> ChannelTemporarilyUnavailable \<and> m \<noteq> ChannelDisabled"

lemma sample_value_available: "available (s_metadata s) \<Longrightarrow> sample_value s = Inr (s_value s)"
  by (simp add: sample_value_def available_def split: sample_metadata.splits)

lemma skip_to_marker_append:
  "\<forall>p\<in>set xs. c_label (fst p) \<noteq> m \<Longrightarrow> skip_to_marker (xs @ ys) m = skip_to_marker ys m"
  by (induction xs) auto

lemma marked_elements:
  assumes "length pre = length vpre" "OpaqueGnssTime \<notin> c_label ` set pre"
    and "c_label c1 = OpaqueGnssTime" "c_label c2 = Opaque"
    and "items = zip (pre @ c1 # c2 # post) (vpre @ s1 # s2 # vpost)"
  shows "get_element_after_marker items OpaqueGnssTime 0 = Some (c1, s1)"
    "get_element_after_marker items OpaqueGnssTime 1 = Some (c2, s2)"
proof -
  have i: "items = zip pre vpre @ (c1, s1) # (c2, s2) # zip post vpost"
    using assms(1,5) by simp
  have "\<forall>p\<in>set (zip pre vpre). c_label (fst p) \<noteq> OpaqueGnssTime"
  proof
    fix p
    assume "p \<in> set (zip pre vpre)"
    then have "fst p \<in> set pre"
      by (metis prod.collapse set_zip_leftD)
    then show "c_label (fst p) \<noteq> OpaqueGnssTime"
      using assms(2) by (metis imageI)
  qed
  then have "skip_to_marker items OpaqueGnssTime = (c1, s1) # (c2, s2) # zip post vpost"
    using assms(3) unfolding i by (simp add: skip_to_marker_append)
  then show "get_element_after_marker items OpaqueGnssTime 0 = Some (c1, s1)"
    "get_element_after_marker items OpaqueGnssTime 1 = Some (c2, s2)"
    using assms(3,4) by (simp_all add: get_element_after_marker_def list_nth_def)
qed

lemma reading_collect:
  "zip_collect (reading_samples (samples_from cs ss)) = zip cs ss"
  by (simp add: zip_collect_drop reading_samples_def zip_new_def samples_from_def)

text \<open>
  Splitting a timestamp succeeds exactly when the seconds are within 32 bits of the Ariel epoch
  (2025-01-01), is an overflow error otherwise, and both parts then fit an \<open>i32\<close>; none of the
  intermediate conversions rejects anything else.
\<close>

theorem convert_datetime_bounds:
  "convert_datetime_to_parts t =
    (if - (2 ^ 31) \<le> t sdiv 1000000000 - ARIEL_EPOCH \<and> t sdiv 1000000000 - ARIEL_EPOCH < 2 ^ 31
     then Inr (t sdiv 1000000000 - ARIEL_EPOCH, t smod 1000000000) else Inl Overflow) \<and>
   fits 32 (t smod 1000000000)"
  using convert_eq[of t] smod_fits[of t] by (simp add: fits_def)

text \<open>
  Round trip of a GNSS time: when a driver splits a nanosecond timestamp \<open>t\<close>, before or after
  1970, and returns the parts in available samples on an \<open>OpaqueGnssTime\<close> channel directly followed by
  an \<open>Opaque\<close> one, with any other channels before and after, the extension gives back exactly \<open>t\<close>,
  and its whole seconds and sub-second nanoseconds, each rounded towards zero.
\<close>

theorem gnss_time_round_trip:
  assumes "convert_datetime_to_parts t = Inr (a, b)"
    and "length pre = length vpre" "OpaqueGnssTime \<notin> c_label ` set pre"
    and "c_label c1 = OpaqueGnssTime" "c_label c2 = Opaque" "available m1" "available m2"
    and "ss = samples_from (pre @ c1 # c2 # post) (vpre @ sample_new a m1 # sample_new b m2 # vpost)"
  shows "time_of_fix_timestamp_nanos ss = Inr t \<and>
    time_of_fix_timestamp ss = Inr (t sdiv 1000000000) \<and>
    time_of_fix_subsec_nanos ss = Inr (t smod 1000000000)"
proof -
  note m = marked_elements[OF assms(2-5) refl, of post "sample_new a m1" "sample_new b m2" vpost]
  have r: "sample_reading (sample_new x n) = Inr x" if "available n" for x n
    using that by (simp add: sample_reading_def sample_value_available sample_new_def)
  have ab: "a = t sdiv 1000000000 - ARIEL_EPOCH" "b = t smod 1000000000"
    using assms(1) convert_eq[of t] by (auto split: if_splits)
  have "time_of_fix_timestamp ss = Inr (t sdiv 1000000000)" "time_of_fix_subsec_nanos ss = Inr (t smod 1000000000)"
    using m r assms(6,7) ab unfolding assms(8)
    by (simp_all add: time_of_fix_timestamp_def time_of_fix_subsec_nanos_def reading_collect ok_or_def)
  then show ?thesis
    using sdiv_smod[of t] by (simp add: time_of_fix_timestamp_nanos_def)
qed

text \<open>The crate's test before 1970: 1960-06-23T10:12:04.12345Z.\<close>

theorem gnss_time_round_trip_witness:
  "time_of_fix_timestamp_nanos (samples_from
     [reading_channel_new Altitude 0 Meter, reading_channel_new OpaqueGnssTime 0 Second, reading_channel_new Opaque (- 9) Second]
     [sample_new 0 UnknownAccuracy, sample_new (- 2036238475) UnknownAccuracy, sample_new (- 876550000) UnknownAccuracy])
   = Inr (- 300548875876550000)"
proof -
  have "convert_datetime_to_parts (- 300548875876550000) = Inr (- 2036238475, - 876550000)"
    by (simp add: convert_eq fits_def ARIEL_EPOCH_def)
  then show ?thesis
    using gnss_time_round_trip[of "- 300548875876550000" "- 2036238475" "- 876550000" "[reading_channel_new Altitude 0 Meter]"
      "[sample_new 0 UnknownAccuracy]" "reading_channel_new OpaqueGnssTime 0 Second" "reading_channel_new Opaque (- 9) Second"
      UnknownAccuracy UnknownAccuracy _ "[]" "[]", OF _ _ _ _ _ _ _ refl]
    by (simp add: reading_channel_new_def available_def)
qed

end
