(* ===== verification/GnssDriver.thy ===== *)
theory GnssDriver
  imports SensorDriver GnssTime
begin

unbundle bit_operations_syntax

section \<open>The GNSS driver (\<open>sensors/ariel-os-sensor-nrf91-gnss\<close>)\<close>

text \<open>
  The driver answers calls of the trait \<open>Sensor\<close> and runs a task that starts and stops the modem.  The
  calls tell the task what to do through a channel for one command (\<open>embassy_sync\<close>'s, a parameter with
  the contract \<open>command_channel_ok\<close>).  The modem is a stream of events; whether it starts is the
  parameter \<open>works\<close>.  Floating-point arithmetic and the calendar of the \<open>time\<close> crate are parameters.
\<close>

datatype gnss_command = CmdStart | CmdTrigger | CmdStop

record 'c command_channel =
  cc_new :: 'c
  cc_try_send :: "'c \<Rightarrow> gnss_command \<Rightarrow> 'c \<times> bool"
  cc_receive :: "'c \<Rightarrow> 'c \<times> gnss_command option"

definition command_channel_ok :: "'c command_channel \<Rightarrow> ('c \<Rightarrow> gnss_command option) \<Rightarrow> bool" where
  "command_channel_ok ops pending \<longleftrightarrow>
     pending (cc_new ops) = None \<and>
     (\<forall>c cmd c' ok. cc_try_send ops c cmd = (c', ok) \<longrightarrow>
        ok = (pending c = None) \<and> pending c' = (if pending c = None then Some cmd else pending c)) \<and>
     (\<forall>c c' r. cc_receive ops c = (c', r) \<longrightarrow> r = pending c \<and> pending c' = None)"

subsection \<open>Configuration (\<open>config.rs\<close>)\<close>

datatype operation_mode = Continuous | Periodic nat | SingleShot nat

record gnss_config =
  operation_mode :: operation_mode
  log_nmea :: bool

definition gnss_config_default :: gnss_config where
  "gnss_config_default = \<lparr>operation_mode = Continuous, log_nmea = False\<rparr>"

text \<open>What is handed to the modem; its two enumerations have one value that is used.\<close>

record nmea_mask =
  mask_gga :: bool
  mask_gll :: bool
  mask_gsa :: bool
  mask_gsv :: bool
  mask_rmc :: bool

datatype timing_source = TimingRtc | TimingTcxo

datatype power_mode = PowerSaveDisabled | PowerSaveOther

record modem_config =
  elevation_threshold_angle :: nat
  low_accuracy :: bool
  scheduled_downloads_disable :: bool
  config_nmea_mask :: nmea_mask
  config_timing_source :: timing_source
  config_power_mode :: power_mode

definition convert_gnss_config :: "gnss_config \<Rightarrow> modem_config" where
  "convert_gnss_config cfg =
     \<lparr>elevation_threshold_angle = 5, low_accuracy = False, scheduled_downloads_disable = False,
      config_nmea_mask = \<lparr>mask_gga = log_nmea cfg, mask_gll = log_nmea cfg, mask_gsa = log_nmea cfg,
        mask_gsv = log_nmea cfg, mask_rmc = log_nmea cfg\<rparr>,
      config_timing_source = TimingRtc, config_power_mode = PowerSaveDisabled\<rparr>"

subsection \<open>Samples of a fix\<close>

record 'f pvt_data_frame =
  pvt_year :: nat
  pvt_month :: nat
  pvt_day :: nat
  pvt_hour :: nat
  pvt_minute :: nat
  pvt_seconds :: nat
  pvt_ms :: nat
  pvt_flags :: "8 word"
  pvt_latitude :: 'f
  pvt_longitude :: 'f
  pvt_altitude :: 'f
  pvt_accuracy :: 'f
  pvt_altitude_accuracy :: 'f
  pvt_speed :: 'f
  pvt_speed_accuracy :: 'f
  pvt_vertical_speed :: 'f
  pvt_vertical_speed_accuracy :: 'f
  pvt_heading :: 'f
  pvt_heading_accuracy :: 'f

text \<open>
  \<open>fl_i32 x k\<close> is \<open>(x * k) as i32\<close>, \<open>fl_u8 x k\<close> is \<open>clamp_to_u8(x * k)\<close>; \<open>fl_latitude_accuracy\<close> and
  \<open>fl_longitude_accuracy\<close> turn metres into degrees.  \<open>cal_timestamp\<close> is \<open>None\<close> when the date or the time
  of day is refused, and otherwise \<open>unix_timestamp_nanos\<close>.  The two flags are constants of the modem
  library.
\<close>

record 'f gnss_crates =
  fl_i32 :: "'f \<Rightarrow> nat \<Rightarrow> int"
  fl_u8 :: "'f \<Rightarrow> nat \<Rightarrow> nat"
  fl_latitude_accuracy :: "'f \<Rightarrow> 'f"
  fl_longitude_accuracy :: "'f \<Rightarrow> 'f \<Rightarrow> 'f"
  cal_timestamp :: "nat \<times> nat \<times> nat \<Rightarrow> nat \<times> nat \<times> nat \<times> nat \<Rightarrow> int option"
  FLAG_FIX_VALID :: "32 word"
  FLAG_VELOCITY_VALID :: "32 word"

definition convert_to_time_parts :: "'f gnss_crates \<Rightarrow> 'f pvt_data_frame \<Rightarrow> panic + (int \<times> int) option" where
  "convert_to_time_parts cr data =
     (case cal_timestamp cr (pvt_year data, pvt_month data, pvt_day data)
             (pvt_hour data, pvt_minute data, pvt_seconds data, pvt_ms data) of
        None \<Rightarrow> Inr None
      | Some timestamp \<Rightarrow>
          if pvt_year data = 1980 then Inr None
          else (case convert_datetime_to_parts timestamp of
              Inl _ \<Rightarrow> Inl UnwrapNone
            | Inr parts \<Rightarrow> Inr (Some parts)))"

definition gnss_reading_channels :: "reading_channel list" where
  "gnss_reading_channels =
     [reading_channel_new OpaqueGnssTime 0 Second,
      reading_channel_new Opaque (- 3) Second,
      reading_channel_new Latitude (- 7) DecimalDegree,
      reading_channel_new Longitude (- 7) DecimalDegree,
      reading_channel_new Altitude (- 2) Meter,
      reading_channel_new GroundSpeed (- 6) MeterPerSecond,
      reading_channel_new VerticalSpeed (- 6) MeterPerSecond,
      reading_channel_new Heading (- 6) Degree]"

definition convert_to_samples :: "'f gnss_crates \<Rightarrow> 'f pvt_data_frame \<Rightarrow> panic + samples" where
  "convert_to_samples cr data =
     bnd (convert_to_time_parts cr data) (\<lambda>time_parts.
       let (time_seconds_part, time_nanos_part) =
             (case time_parts of
                Some (secs, nanos) \<Rightarrow> (sample_new secs UnknownAccuracy, sample_new nanos UnknownAccuracy)
              | None \<Rightarrow> (sample_new 0 ChannelTemporarilyUnavailable, sample_new 0 ChannelTemporarilyUnavailable));
           latitude_accuracy = fl_latitude_accuracy cr (pvt_accuracy data);
           longitude_accuracy = fl_longitude_accuracy cr (pvt_accuracy data) (pvt_latitude data);
           latitude_value = fl_i32 cr (pvt_latitude data) 10000000;
           longitude_value = fl_i32 cr (pvt_longitude data) 10000000;
           altitude_value = fl_i32 cr (pvt_altitude data) 100;
           fix_valid = (ucast (pvt_flags data) AND FLAG_FIX_VALID cr \<noteq> 0);
           (latitude, longitude, altitude) =
             (if fix_valid then
                (sample_new latitude_value (SymmetricalError (fl_u8 cr latitude_accuracy 100000) 0 (- 5)),
                 sample_new longitude_value (SymmetricalError (fl_u8 cr longitude_accuracy 100000) 0 (- 5)),
                 sample_new altitude_value (SymmetricalError (fl_u8 cr (pvt_altitude_accuracy data) 10) 0 (- 1)))
              else
                (sample_new latitude_value ChannelTemporarilyUnavailable,
                 sample_new longitude_value ChannelTemporarilyUnavailable,
                 sample_new altitude_value ChannelTemporarilyUnavailable));
           horizontal_speed_value = fl_i32 cr (pvt_speed data) 1000000;
           vertical_speed_value = fl_i32 cr (pvt_vertical_speed data) 1000000;
           heading_value = fl_i32 cr (pvt_heading data) 1000000;
           velocity_valid = (ucast (pvt_flags data) AND FLAG_VELOCITY_VALID cr \<noteq> 0);
           (horizontal_speed, vertical_speed, heading) =
             (if velocity_valid then
                (sample_new horizontal_speed_value (SymmetricalError (fl_u8 cr (pvt_speed_accuracy data) 10) 0 (- 1)),
                 sample_new vertical_speed_value (SymmetricalError (fl_u8 cr (pvt_vertical_speed_accuracy data) 10) 0 (- 1)),
                 sample_new heading_value (SymmetricalError (fl_u8 cr (pvt_heading_accuracy data) 1) 0 0))
              else
                (sample_new horizontal_speed_value ChannelTemporarilyUnavailable,
                 sample_new vertical_speed_value ChannelTemporarilyUnavailable,
                 sample_new heading_value ChannelTemporarilyUnavailable))
       in Inr (samples_from gnss_reading_channels
            [time_seconds_part, time_nanos_part, latitude, longitude, altitude,
             horizontal_speed, vertical_speed, heading]))"

subsection \<open>The driver\<close>

record ('c, 'w) gnss_driver =
  gn_config :: "gnss_config option"
  gn_label :: "string option"
  gn_state :: atomic_state
  gn_channel :: 'c
  gn_result :: "('w, reading_error + samples) signal_state"

definition gnss_new :: "'c command_channel \<Rightarrow> string option \<Rightarrow> ('c, 'w) gnss_driver" where
  "gnss_new ops name =
     \<lparr>gn_config = None, gn_label = name, gn_state = atomic_new Uninitialized, gn_channel = cc_new ops,
      gn_result = signal_new\<rparr>"

definition gnss_init :: "gnss_config \<Rightarrow> ('c, 'w) gnss_driver \<Rightarrow> ('c, 'w) gnss_driver" where
  "gnss_init cfg x =
     (let x = x\<lparr>gn_state := atomic_set Enabled (gn_state x)\<rparr> in
      case gn_config x of None \<Rightarrow> x\<lparr>gn_config := Some cfg\<rparr> | Some _ \<Rightarrow> x)"

definition gnss_trigger_measurement ::
    "'c command_channel \<Rightarrow> ('c, 'w) gnss_driver \<Rightarrow> panic + ('c, 'w) gnss_driver \<times> (trigger_error + unit)" where
  "gnss_trigger_measurement ops x =
     (let x = x\<lparr>gn_result := signal_clear (gn_result x)\<rparr> in
      bnd (atomic_get (gn_state x)) (\<lambda>st.
        case st of
          Measuring \<Rightarrow> Inr (x, Inr ())
        | Enabled \<Rightarrow>
            let x = x\<lparr>gn_state := atomic_set Measuring (gn_state x)\<rparr> in
            Inr (x\<lparr>gn_channel := fst (cc_try_send ops (gn_channel x) CmdTrigger)\<rparr>, Inr ())
        | Disabled \<Rightarrow> Inr (x, Inl TriggerNonEnabled)
        | Sleeping \<Rightarrow> Inr (x, Inl TriggerNonEnabled)
        | Uninitialized \<Rightarrow> Inr (x, Inl TriggerNonEnabled)))"

definition gnss_wait_for_reading :: "('c, 'w) gnss_driver \<Rightarrow> panic + ('c, 'w) gnss_driver \<times> reading_waiter" where
  "gnss_wait_for_reading x =
     bnd (atomic_get (gn_state x)) (\<lambda>st.
       case st of
         Measuring \<Rightarrow> Inr (x\<lparr>gn_state := atomic_set Enabled (gn_state x)\<rparr>, reading_waiter_new)
       | Enabled \<Rightarrow> Inr (x, reading_waiter_new_err NotMeasuring)
       | Disabled \<Rightarrow> Inr (x, reading_waiter_new_err ReadingNonEnabled)
       | Uninitialized \<Rightarrow> Inr (x, reading_waiter_new_err ReadingNonEnabled)
       | Sleeping \<Rightarrow> Inr (x, reading_waiter_new_err ReadingNonEnabled))"

definition gnss_set_mode ::
    "'c command_channel \<Rightarrow> mode \<Rightarrow> ('c, 'w) gnss_driver \<Rightarrow> panic + ('c, 'w) gnss_driver \<times> state option" where
  "gnss_set_mode ops m x =
     bnd (atomic_set_mode m (gn_state x)) (\<lambda>(a, old).
       case old of
         None \<Rightarrow> Inr (x\<lparr>gn_state := a\<rparr>, None)
       | Some old \<Rightarrow>
           let cmd = (case m of ModeEnabled \<Rightarrow> CmdStart | ModeDisabled \<Rightarrow> CmdStop | ModeSleeping \<Rightarrow> CmdStop) in
           Inr (x\<lparr>gn_state := a, gn_channel := fst (cc_try_send ops (gn_channel x) cmd)\<rparr>, Some old))"

subsection \<open>The task\<close>

text \<open>
  Where the task is: at the head of the loop of \<open>run\<close>, receiving a command there or in single-shot
  mode, or in the loop of \<open>handle_gnss_stream\<close> with its two variables.
\<close>

datatype 'f run_phase =
    Top | AwaitStart | AwaitTrigger
  | Streaming (latest_data: "'f pvt_data_frame option") (should_send_update: bool)

datatype 'f stream_event = StreamEnd | StreamError | PositionVelocityTime "'f pvt_data_frame" | Nmea | Agps

definition is_single_shot :: "gnss_config \<Rightarrow> bool" where
  "is_single_shot cfg = (case operation_mode cfg of SingleShot _ \<Rightarrow> True | _ \<Rightarrow> False)"

text \<open>The head of the loop of \<open>handle_gnss_stream\<close>; leaving that loop deactivates the stream.\<close>

definition stream_head :: "state \<Rightarrow> 'f pvt_data_frame option \<Rightarrow> bool \<Rightarrow> 'f run_phase" where
  "stream_head st latest send = (if st = Enabled \<or> st = Measuring then Streaming latest send else Top)"

definition start_stream :: "bool \<Rightarrow> state \<Rightarrow> panic + 'f run_phase" where
  "start_stream works st = (if works then Inr (stream_head st None False) else Inl UnwrapNone)"

definition run_mode :: "bool \<Rightarrow> gnss_config \<Rightarrow> state \<Rightarrow> panic + 'f run_phase" where
  "run_mode works cfg st =
     (case operation_mode cfg of
        Continuous \<Rightarrow> start_stream works st
      | Periodic _ \<Rightarrow> start_stream works st
      | SingleShot _ \<Rightarrow> Inr AwaitTrigger)"

definition run_top :: "bool \<Rightarrow> gnss_config \<Rightarrow> state \<Rightarrow> panic + 'f run_phase" where
  "run_top works cfg st = (if st \<noteq> Enabled then Inr AwaitStart else run_mode works cfg st)"

fun run_command :: "bool \<Rightarrow> gnss_config \<Rightarrow> state \<Rightarrow> gnss_command \<Rightarrow> 'f run_phase \<Rightarrow> panic + 'f run_phase" where
  "run_command works cfg st cmd Top = Inr Top"
| "run_command works cfg st cmd AwaitStart = (if cmd = CmdStart then run_mode works cfg st else Inr Top)"
| "run_command works cfg st CmdTrigger AwaitTrigger = start_stream works st"
| "run_command works cfg st CmdStop AwaitTrigger = Inr Top"
| "run_command works cfg st CmdStart AwaitTrigger = Inr Top"
| "run_command works cfg st CmdStart (Streaming latest send) = Inr (stream_head st latest send)"
| "run_command works cfg st CmdStop (Streaming latest send) = Inr Top"
| "run_command works cfg st CmdTrigger (Streaming latest send) =
     (if send \<or> is_single_shot cfg then Inr (stream_head st latest send) else Inr (stream_head st latest True))"

fun run_stream ::
    "'f gnss_crates \<Rightarrow> gnss_config \<Rightarrow> state \<Rightarrow> 'f stream_event \<Rightarrow> 'f pvt_data_frame option \<Rightarrow> bool \<Rightarrow>
     ('w, reading_error + samples) signal_state \<Rightarrow>
     panic + ('w, reading_error + samples) signal_state \<times> 'w list \<times> 'f run_phase" where
  "run_stream cr cfg st StreamEnd latest send result =
     (if is_single_shot cfg then
        let result = signal_clear result in
        case latest of
          Some data \<Rightarrow>
            bnd (convert_to_samples cr data) (\<lambda>samples.
              let (result, woken) = signal (Inr samples) result in Inr (result, woken, Top))
        | None \<Rightarrow> let (result, woken) = signal (Inl SensorAccess) result in Inr (result, woken, Top)
      else Inr (result, [], Top))"
| "run_stream cr cfg st (PositionVelocityTime pos) latest send result =
     (if send then
        bnd (convert_to_samples cr pos) (\<lambda>samples.
          let (result, woken) = signal (Inr samples) result in Inr (result, woken, stream_head st (Some pos) False))
      else Inr (result, [], stream_head st (Some pos) send))"
| "run_stream cr cfg st Nmea latest send result = Inr (result, [], stream_head st latest send)"
| "run_stream cr cfg st Agps latest send result = Inr (result, [], stream_head st latest send)"
| "run_stream cr cfg st StreamError latest send result = Inr (result, [], stream_head st latest send)"

subsection \<open>Driver, task and callers\<close>

record ('c, 'w, 'f) gnss_sys =
  gs_driver :: "('c, 'w) gnss_driver"
  gs_phase :: "'f run_phase"

datatype gnss_event = GTrigger | GWait | GSetMode | GPoll | GRun

text \<open>Receiving comes before the stream when both are ready.\<close>

inductive gnss_step ::
    "'c command_channel \<Rightarrow> 'f gnss_crates \<Rightarrow> bool \<Rightarrow> ('w \<Rightarrow> 'w \<Rightarrow> bool) \<Rightarrow>
     ('c, 'w, 'f) gnss_sys \<Rightarrow> gnss_event \<Rightarrow> ('c, 'w, 'f) gnss_sys \<Rightarrow> bool" for ops cr works will_wake where
  trigger: "gnss_trigger_measurement ops (gs_driver s) = Inr (x, r) \<Longrightarrow>
    gnss_step ops cr works will_wake s GTrigger (s\<lparr>gs_driver := x\<rparr>)"
| wait: "gnss_wait_for_reading (gs_driver s) = Inr (x, f) \<Longrightarrow>
    gnss_step ops cr works will_wake s GWait (s\<lparr>gs_driver := x\<rparr>)"
| set_mode: "gnss_set_mode ops m (gs_driver s) = Inr (x, r) \<Longrightarrow>
    gnss_step ops cr works will_wake s GSetMode (s\<lparr>gs_driver := x\<rparr>)"
| poll: "poll_wait will_wake w (gn_result (gs_driver s)) = (rd, r, woken) \<Longrightarrow>
    gnss_step ops cr works will_wake s GPoll (s\<lparr>gs_driver := (gs_driver s)\<lparr>gn_result := rd\<rparr>\<rparr>)"
| top: "gs_phase s = Top \<Longrightarrow> gn_config (gs_driver s) = Some cfg \<Longrightarrow> atomic_get (gn_state (gs_driver s)) = Inr st \<Longrightarrow>
    run_top works cfg st = Inr ph \<Longrightarrow> gnss_step ops cr works will_wake s GRun (s\<lparr>gs_phase := ph\<rparr>)"
| command: "gs_phase s \<noteq> Top \<Longrightarrow> gn_config (gs_driver s) = Some cfg \<Longrightarrow> atomic_get (gn_state (gs_driver s)) = Inr st \<Longrightarrow>
    cc_receive ops (gn_channel (gs_driver s)) = (c, Some cmd) \<Longrightarrow> run_command works cfg st cmd (gs_phase s) = Inr ph \<Longrightarrow>
    gnss_step ops cr works will_wake s GRun \<lparr>gs_driver = (gs_driver s)\<lparr>gn_channel := c\<rparr>, gs_phase = ph\<rparr>"
| stream: "gs_phase s = Streaming latest send \<Longrightarrow> gn_config (gs_driver s) = Some cfg \<Longrightarrow>
    atomic_get (gn_state (gs_driver s)) = Inr st \<Longrightarrow> cc_receive ops (gn_channel (gs_driver s)) = (c, None) \<Longrightarrow>
    run_stream cr cfg st ev latest send (gn_result (gs_driver s)) = Inr (rd, woken, ph) \<Longrightarrow>
    gnss_step ops cr works will_wake s GRun \<lparr>gs_driver = (gs_driver s)\<lparr>gn_channel := c, gn_result := rd\<rparr>, gs_phase = ph\<rparr>"

definition gnss_start :: "'c command_channel \<Rightarrow> gnss_config \<Rightarrow> ('c, 'w, 'f) gnss_sys" where
  "gnss_start ops cfg = \<lparr>gs_driver = gnss_init cfg (gnss_new ops None), gs_phase = Top\<rparr>"

text \<open>Steps in which no caller triggers or sets the mode.\<close>

definition passive_step ::
    "'c command_channel \<Rightarrow> 'f gnss_crates \<Rightarrow> bool \<Rightarrow> ('w \<Rightarrow> 'w \<Rightarrow> bool) \<Rightarrow>
     ('c, 'w, 'f) gnss_sys \<Rightarrow> ('c, 'w, 'f) gnss_sys \<Rightarrow> bool" where
  "passive_step ops cr works will_wake s s' \<longleftrightarrow> (\<exists>e. e \<in> {GWait, GPoll, GRun} \<and> gnss_step ops cr works will_wake s e s')"

declare state_as_u8.simps [simp del]

lemma channel_okD:
  assumes "command_channel_ok ops pending"
  shows "pending (cc_new ops) = None"
    and "cc_try_send ops c cmd = (c', ok) \<Longrightarrow> ok = (pending c = None) \<and> pending c' = (if pending c = None then Some cmd else pending c)"
    and "cc_receive ops c = (c', r) \<Longrightarrow> r = pending c \<and> pending c' = None"
  using assms unfolding command_channel_ok_def by blast+

lemma gnss_trigger_by_state:
  "gn_state x = state_as_u8 st \<Longrightarrow> st \<in> {Enabled, Measuring} \<Longrightarrow>
    gnss_trigger_measurement ops x = Inr (x\<lparr>gn_result := signal_clear (gn_result x), gn_state := state_as_u8 Measuring,
      gn_channel := if st = Enabled then fst (cc_try_send ops (gn_channel x) CmdTrigger) else gn_channel x\<rparr>, Inr ())"
  by (auto simp: gnss_trigger_measurement_def Let_def atomic_set_def)

lemma gnss_wait_by_state:
  "gn_state x = state_as_u8 Measuring \<Longrightarrow> gnss_wait_for_reading x = Inr (x\<lparr>gn_state := state_as_u8 Enabled\<rparr>, Waiter)"
  by (simp add: gnss_wait_for_reading_def atomic_set_def reading_waiter_new_def)

lemma gnss_wait_frame:
  assumes "gnss_wait_for_reading x = Inr (x', f)"
  shows "gn_config x' = gn_config x" "gn_result x' = gn_result x" "gn_channel x' = gn_channel x"
proof -
  obtain st where "atomic_get (gn_state x) = Inr st"
    using assms by (auto simp: gnss_wait_for_reading_def panic_simps)
  then show "gn_config x' = gn_config x" "gn_result x' = gn_result x" "gn_channel x' = gn_channel x"
    using assms by (cases st; auto simp: gnss_wait_for_reading_def)+
qed

subsection \<open>A trigger that is lost\<close>

text \<open>The request is thrown away, and nothing else makes the task measure.\<close>

definition trigger_lost :: "('c \<Rightarrow> gnss_command option) \<Rightarrow> gnss_config \<Rightarrow> ('c, 'w, 'f) gnss_sys \<Rightarrow> bool" where
  "trigger_lost pending cfg s \<longleftrightarrow>
     gn_config (gs_driver s) = Some cfg \<and> (\<forall>v. gn_result (gs_driver s) \<noteq> SigReady v) \<and>
     (pending (gn_channel (gs_driver s)) = Some CmdTrigger \<and> gs_phase s = AwaitStart \<or>
      pending (gn_channel (gs_driver s)) = None \<and> gs_phase s \<in> {Top, AwaitStart, AwaitTrigger})"

lemma passive_step_lost:
  assumes ok: "command_channel_ok ops pending" and single: "is_single_shot cfg"
    and step: "passive_step ops cr works will_wake s s'" and lost: "trigger_lost pending cfg s"
  shows "trigger_lost pending cfg s'"
proof -
  obtain e where "e \<in> {GWait, GPoll, GRun}" and step: "gnss_step ops cr works will_wake s e s'"
    using step by (auto simp: passive_step_def)
  from step this(1) show ?thesis
  proof cases
    case (wait x f)
    then show ?thesis
      using gnss_wait_frame[OF wait(3)] lost by (simp add: trigger_lost_def)
  next
    case (poll w rd r woken)
    then have "rd \<noteq> SigReady v" for v
      by (auto simp: poll_wait_def split: signal_state.splits if_splits)
    then show ?thesis
      using poll lost by (simp add: trigger_lost_def)
  next
    case (top cfg' st ph)
    then have "ph \<in> {AwaitStart, AwaitTrigger}" "gs_phase s = Top"
      using single lost
      by (auto simp: run_top_def run_mode_def is_single_shot_def trigger_lost_def split: operation_mode.splits if_splits)
    then show ?thesis
      using top lost by (auto simp: trigger_lost_def)
  next
    case (command cfg' st c cmd ph)
    have "pending (gn_channel (gs_driver s)) = Some cmd" "pending c = None"
      using channel_okD(3)[OF ok command(6)] by simp_all
    then show ?thesis
      using command lost by (auto simp: trigger_lost_def)
  next
    case (stream latest send cfg' st c ev rd woken ph)
    then show ?thesis
      using lost by (simp add: trigger_lost_def)
  qed simp_all
qed

text \<open>
  A single-shot driver loses triggers.  When a fix ends before its caller waits for it, the task goes
  to the head of its loop in state \<open>Measuring\<close> and receives there, where it accepts nothing but
  \<open>Start\<close>: the next trigger is thrown away, and whatever the callers and the task do, short of another
  trigger or a change of mode, the reading never comes.
\<close>

theorem gnss_trigger_swallowed:
  assumes ok: "command_channel_ok ops pending" and cfg: "gn_config (gs_driver s) = Some cfg" "is_single_shot cfg"
    and "gs_phase s = AwaitStart" "gn_state (gs_driver s) = state_as_u8 Enabled"
    and "pending (gn_channel (gs_driver s)) = None"
    and "gnss_step ops cr works will_wake s GTrigger s1" "(passive_step ops cr works will_wake)\<^sup>*\<^sup>* s1 s2"
  shows "poll_wait will_wake w (gn_result (gs_driver s2)) \<noteq> (rd, Some v, woken)"
proof -
  obtain c b where c: "cc_try_send ops (gn_channel (gs_driver s)) CmdTrigger = (c, b)"
    by fastforce
  from assms(7) have "trigger_lost pending cfg s1"
    using channel_okD(2)[OF ok c] assms(2-6) c
    by cases (auto simp: trigger_lost_def gnss_trigger_by_state[OF assms(5)])
  with assms(8) have "trigger_lost pending cfg s2"
    by (induction rule: rtranclp_induct) (use passive_step_lost[OF ok cfg(2)] in blast)+
  then show ?thesis
    by (auto simp: trigger_lost_def poll_wait_def split: signal_state.splits if_splits)
qed

subsection \<open>A trigger that is answered\<close>

text \<open>The position that the events of a stream leave as the latest.\<close>

fun stream_latest :: "'f pvt_data_frame option \<Rightarrow> 'f stream_event list \<Rightarrow> 'f pvt_data_frame option" where
  "stream_latest latest [] = latest"
| "stream_latest latest (ev # evs) =
     stream_latest (case ev of PositionVelocityTime pos \<Rightarrow> Some pos | _ \<Rightarrow> latest) evs"

text \<open>The events of a stream handled one after the other, while no command is pending.\<close>

fun run_events ::
    "'f gnss_crates \<Rightarrow> gnss_config \<Rightarrow> state \<Rightarrow> 'f stream_event list \<Rightarrow> 'f run_phase \<times> ('w, reading_error + samples) signal_state \<Rightarrow>
     panic + 'f run_phase \<times> ('w, reading_error + samples) signal_state" where
  "run_events cr cfg st [] (ph, result) = Inr (ph, result)"
| "run_events cr cfg st (ev # evs) (Streaming latest send, result) =
     bnd (run_stream cr cfg st ev latest send result) (\<lambda>(result, _, ph). run_events cr cfg st evs (ph, result))"
| "run_events cr cfg st (ev # evs) (Top, result) = Inr (Top, result)"
| "run_events cr cfg st (ev # evs) (AwaitStart, result) = Inr (AwaitStart, result)"
| "run_events cr cfg st (ev # evs) (AwaitTrigger, result) = Inr (AwaitTrigger, result)"

lemma run_events_collect:
  assumes "st = Enabled \<or> st = Measuring" "StreamEnd \<notin> set evs"
  shows "run_events cr cfg st (evs @ rest) (Streaming latest False, result) =
    run_events cr cfg st rest (Streaming (stream_latest latest evs) False, result)"
  using assms(2)
proof (induction evs arbitrary: latest)
  case (Cons ev evs)
  then show ?case
    using assms(1) by (cases ev) (auto simp: stream_head_def)
qed simp

text \<open>
  A single-shot driver whose task is ready for a trigger answers it: the trigger starts the modem, and
  when the fix ends, after any other events, a caller gets the samples of the last position, or an
  access error if there was none.  In the other modes a trigger is answered by the next position, once.
\<close>

theorem gnss_trigger_answered:
  assumes ok: "command_channel_ok ops pending" and st: "gn_state x = state_as_u8 Enabled" "pending (gn_channel x) = None"
    and evs: "StreamEnd \<notin> set evs" and conv: "\<And>data. data = pos \<or> stream_latest None evs = Some data \<Longrightarrow> convert_to_samples cr data = Inr (samples_of data)"
  shows "\<exists>x1 c. gnss_trigger_measurement ops x = Inr (x1, Inr ()) \<and> cc_receive ops (gn_channel x1) = (c, Some CmdTrigger) \<and>
    (is_single_shot cfg \<longrightarrow>
      run_command True cfg Measuring CmdTrigger AwaitTrigger = Inr (Streaming (None :: 'f pvt_data_frame option) False) \<and>
      run_events cr cfg Measuring (evs @ [StreamEnd]) (Streaming None False, gn_result x1) =
        Inr (Top, SigReady (case stream_latest None evs of None \<Rightarrow> Inl SensorAccess | Some data \<Rightarrow> Inr (samples_of data)))) \<and>
    (\<not> is_single_shot cfg \<longrightarrow>
      run_command True cfg Measuring CmdTrigger (Streaming latest False) = Inr (Streaming latest True) \<and>
      run_events cr cfg Measuring [PositionVelocityTime pos] (Streaming latest True, gn_result x1) =
        Inr (Streaming (Some pos) False, SigReady (Inr (samples_of pos))))"
proof -
  define x1 where "x1 = x\<lparr>gn_result := signal_clear (gn_result x), gn_state := state_as_u8 Measuring,
    gn_channel := fst (cc_try_send ops (gn_channel x) CmdTrigger)\<rparr>"
  have 1: "gnss_trigger_measurement ops x = Inr (x1, Inr ())"
    by (simp add: gnss_trigger_by_state[OF st(1)] x1_def)
  have "pending (gn_channel x1) = Some CmdTrigger"
    using channel_okD(2)[OF ok prod.collapse[symmetric], of "gn_channel x" CmdTrigger] st(2) by (simp add: x1_def)
  then have 2: "cc_receive ops (gn_channel x1) = (fst (cc_receive ops (gn_channel x1)), Some CmdTrigger)"
    using channel_okD(3)[OF ok prod.collapse[symmetric], of "gn_channel x1"] by (simp add: prod_eq_iff)
  have sig: "fst (signal v rd) = SigReady v" for v :: "reading_error + samples" and rd :: "('b, reading_error + samples) signal_state"
    by (simp add: signal_def split: signal_state.splits)
  have 3: "run_events cr cfg Measuring [StreamEnd] (Streaming l False, rd) =
      Inr (Top, SigReady (case l of None \<Rightarrow> Inl SensorAccess | Some data \<Rightarrow> Inr (samples_of data)))"
    if "is_single_shot cfg" "l = stream_latest None evs" for l and rd :: "('b, reading_error + samples) signal_state"
    using that conv sig by (auto simp: Let_def case_prod_beta split: option.splits)
  have 4: "run_events cr cfg Measuring [PositionVelocityTime pos] (Streaming latest True, gn_result x1) =
        Inr (Streaming (Some pos) False, SigReady (Inr (samples_of pos)))"
    using conv sig by (simp add: Let_def case_prod_beta stream_head_def)
  have 5: "run_events cr cfg Measuring (evs @ [StreamEnd]) (Streaming None False, gn_result x1) =
      Inr (Top, SigReady (case stream_latest None evs of None \<Rightarrow> Inl SensorAccess | Some data \<Rightarrow> Inr (samples_of data)))"
    if "is_single_shot cfg"
    by (simp only: run_events_collect[OF disjI2[OF refl] evs] 3[OF that refl])
  have 6: "run_command True cfg Measuring CmdTrigger AwaitTrigger = Inr (Streaming (None :: 'f pvt_data_frame option) False)"
    "\<not> is_single_shot cfg \<Longrightarrow> run_command True cfg Measuring CmdTrigger (Streaming latest False) = Inr (Streaming latest True)"
    by (simp_all add: start_stream_def stream_head_def)
  show ?thesis
    by (intro exI[of _ x1] exI[of _ "fst (cc_receive ops (gn_channel x1))"] conjI impI)
      (rule 1, rule 2, rule 6(1), rule 5, assumption, rule 6(2), assumption, rule 4)
qed

subsection \<open>What a caller reads\<close>

definition readable_iff :: "bool \<Rightarrow> sample list \<Rightarrow> bool" where
  "readable_iff flag ss \<longleftrightarrow> (\<exists>a b c. ss = [a, b, c] \<and> (\<forall>x\<in>{a, b, c}. (\<exists>v. sample_value x = Inr v) \<longleftrightarrow> flag))"

lemma readable_iff_samples:
  "readable_iff True [sample_new a (SymmetricalError d1 b1 e1), sample_new b (SymmetricalError d2 b2 e2),
     sample_new c (SymmetricalError d3 b3 e3)]"
  "readable_iff False [sample_new a ChannelTemporarilyUnavailable, sample_new b ChannelTemporarilyUnavailable,
     sample_new c ChannelTemporarilyUnavailable]"
  by (simp_all add: readable_iff_def sample_value_def sample_new_def)

lemma samples_shape:
  assumes "convert_to_time_parts cr data = Inr (Some (a, b))"
  shows "\<exists>ps vs. convert_to_samples cr data = Inr (samples_from gnss_reading_channels
      (sample_new a UnknownAccuracy # sample_new b UnknownAccuracy # ps @ vs)) \<and>
    readable_iff (ucast (pvt_flags data) AND FLAG_FIX_VALID cr \<noteq> 0) ps \<and>
    readable_iff (ucast (pvt_flags data) AND FLAG_VELOCITY_VALID cr \<noteq> 0) vs"
proof -
  let ?p = "ucast (pvt_flags data) AND FLAG_FIX_VALID cr \<noteq> 0" and ?v = "ucast (pvt_flags data) AND FLAG_VELOCITY_VALID cr \<noteq> 0"
  have split: "\<exists>ps vs. samples_from gnss_reading_channels [a, b, x1, x2, x3, y1, y2, y3] =
      samples_from gnss_reading_channels (a # b # ps @ vs) \<and> readable_iff p ps \<and> readable_iff v vs"
    if "readable_iff p [x1, x2, x3]" "readable_iff v [y1, y2, y3]" for a b x1 x2 x3 y1 y2 y3 p v
    using that by (intro exI[of _ "[x1, x2, x3]"] exI[of _ "[y1, y2, y3]"]) simp
  show ?thesis
    using assms
    by (cases ?p; cases ?v; simp add: convert_to_samples_def Let_def; intro split; simp add: readable_iff_samples)
qed

text \<open>
  The samples of a position with a valid date carry its time exactly: the extension for GNSS times
  reads back the timestamp of the modem, to the nanosecond.  Position and velocity can be read exactly
  when their flags are set, and there is one sample for each channel.
\<close>

theorem gnss_samples_time:
  assumes "cal_timestamp cr (pvt_year data, pvt_month data, pvt_day data)
      (pvt_hour data, pvt_minute data, pvt_seconds data, pvt_ms data) = Some t"
    and "pvt_year data \<noteq> 1980" "fits 32 (t sdiv 1000000000 - ARIEL_EPOCH)"
  shows "\<exists>ss. convert_to_samples cr data = Inr ss \<and> time_of_fix_timestamp_nanos ss = Inr t \<and>
    length (inner ss) = length (sensor_channels ss) \<and>
    (\<forall>i\<in>{2,3,4}. (\<exists>v. sample_value (inner ss ! i) = Inr v) \<longleftrightarrow> ucast (pvt_flags data) AND FLAG_FIX_VALID cr \<noteq> 0) \<and>
    (\<forall>i\<in>{5,6,7}. (\<exists>v. sample_value (inner ss ! i) = Inr v) \<longleftrightarrow> ucast (pvt_flags data) AND FLAG_VELOCITY_VALID cr \<noteq> 0)"
proof -
  let ?a = "t sdiv 1000000000 - ARIEL_EPOCH" and ?b = "t smod 1000000000"
  have c: "convert_datetime_to_parts t = Inr (?a, ?b)"
    using assms(3) by (simp add: convert_eq)
  then have parts: "convert_to_time_parts cr data = Inr (Some (?a, ?b))"
    using assms(1,2) by (simp add: convert_to_time_parts_def)
  obtain ps vs where ss: "convert_to_samples cr data = Inr (samples_from gnss_reading_channels
      (sample_new ?a UnknownAccuracy # sample_new ?b UnknownAccuracy # ps @ vs))"
    and ps: "readable_iff (ucast (pvt_flags data) AND FLAG_FIX_VALID cr \<noteq> 0) ps"
    and vs: "readable_iff (ucast (pvt_flags data) AND FLAG_VELOCITY_VALID cr \<noteq> 0) vs"
    using samples_shape[OF parts] by blast
  have "time_of_fix_timestamp_nanos (samples_from ([] @ gnss_reading_channels)
      ([] @ sample_new ?a UnknownAccuracy # sample_new ?b UnknownAccuracy # ps @ vs)) = Inr t"
    by (rule gnss_time_round_trip[where ?m1.0 = UnknownAccuracy and ?m2.0 = UnknownAccuracy and pre = "[]" and vpre = "[]"
          and ?c1.0 = "reading_channel_new OpaqueGnssTime 0 Second" and ?c2.0 = "reading_channel_new Opaque (- 3) Second",
          OF c, THEN conjunct1])
      (auto simp: gnss_reading_channels_def reading_channel_new_def available_def)
  then show ?thesis
    using ss ps vs by (auto simp: samples_from_def gnss_reading_channels_def readable_iff_def)
qed

text \<open>
  The second channel is declared in units of \<open>10^-3\<close> s, but carries nanoseconds.
\<close>

lemma gnss_nanos_channel:
  assumes "convert_to_time_parts cr data = Inr (Some (a, b))" "convert_to_samples cr data = Inr ss"
  shows "inner ss ! 1 = sample_new b UnknownAccuracy \<and> c_scaling (sensor_channels ss ! 1) = - 3"
  using samples_shape[OF assms(1)] assms(2)
  by (auto simp: samples_from_def gnss_reading_channels_def reading_channel_new_def)

subsection \<open>Instances\<close>

definition option_channel :: "gnss_command option command_channel" where
  "option_channel = \<lparr>cc_new = None, cc_try_send = (\<lambda>c cmd. if c = None then (Some cmd, True) else (c, False)),
     cc_receive = (\<lambda>c. (None, c))\<rparr>"

lemma option_channel_ok: "command_channel_ok option_channel (\<lambda>c. c)"
  by (simp add: command_channel_ok_def option_channel_def)

text \<open>Integers for numbers, and a calendar that knows the first of January 2026.\<close>

definition sim_crates :: "int gnss_crates" where
  "sim_crates = \<lparr>fl_i32 = (\<lambda>x k. x * int k), fl_u8 = (\<lambda>x k. nat (min 255 (max 0 (x * int k)))),
     fl_latitude_accuracy = (\<lambda>x. x), fl_longitude_accuracy = (\<lambda>x _. x),
     cal_timestamp = (\<lambda>(y, m, d) (h, mi, s, ms). if (y, m, d) = (2026, 1, 1) \<and> h < 24 \<and> mi < 60 \<and> s < 60 \<and> ms < 1000
       then Some (((1767225600 + 3600 * int h + 60 * int mi + int s) * 1000 + int ms) * 1000000) else None),
     FLAG_FIX_VALID = 1, FLAG_VELOCITY_VALID = 4\<rparr>"

definition sim_frame :: "int pvt_data_frame" where
  "sim_frame = \<lparr>pvt_year = 2026, pvt_month = 1, pvt_day = 1, pvt_hour = 12, pvt_minute = 30, pvt_seconds = 15, pvt_ms = 250,
     pvt_flags = 1, pvt_latitude = 48, pvt_longitude = 2, pvt_altitude = 35, pvt_accuracy = 5, pvt_altitude_accuracy = 9,
     pvt_speed = 1, pvt_speed_accuracy = 1, pvt_vertical_speed = 0, pvt_vertical_speed_accuracy = 1, pvt_heading = 90,
     pvt_heading_accuracy = 3\<rparr>"

theorem gnss_samples_time_witness:
  "\<exists>ss. convert_to_samples sim_crates sim_frame = Inr ss \<and> time_of_fix_timestamp_nanos ss = Inr 1767270615250000000"
proof -
  have "(1767270615250000000 :: int) sdiv 1000000000 = 1767270615"
    by code_simp
  then show ?thesis
    using gnss_samples_time[of sim_crates sim_frame 1767270615250000000]
    by (auto simp: sim_crates_def sim_frame_def fits_def ARIEL_EPOCH_def)
qed

definition sim_config :: gnss_config where
  "sim_config = \<lparr>operation_mode = SingleShot 300, log_nmea = False\<rparr>"

definition sim_gnss :: "state \<Rightarrow> gnss_command option \<Rightarrow> (nat, reading_error + samples) signal_state \<Rightarrow> (gnss_command option, nat) gnss_driver" where
  "sim_gnss st cmd rd = \<lparr>gn_config = Some sim_config, gn_label = None, gn_state = state_as_u8 st, gn_channel = cmd, gn_result = rd\<rparr>"

theorem gnss_trigger_answered_witness:
  "\<exists>ss x1 c. convert_to_samples sim_crates sim_frame = Inr ss \<and>
    gnss_trigger_measurement option_channel (sim_gnss Enabled None SigNone) = Inr (x1, Inr ()) \<and>
    cc_receive option_channel (gn_channel x1) = (c, Some CmdTrigger) \<and>
    run_events sim_crates sim_config Measuring [PositionVelocityTime sim_frame, Nmea, StreamEnd] (Streaming None False, gn_result x1) =
      Inr (Top, SigReady (Inr ss))"
proof -
  obtain ss where ss: "convert_to_samples sim_crates sim_frame = Inr ss"
    using gnss_samples_time_witness by blast
  have "data = sim_frame \<or> stream_latest None [PositionVelocityTime sim_frame, Nmea] = Some data \<Longrightarrow>
      convert_to_samples sim_crates data = Inr ss" for data
    using ss by auto
  moreover have "gn_state (sim_gnss Enabled None SigNone) = state_as_u8 Enabled" "gn_channel (sim_gnss Enabled None SigNone) = None"
    "StreamEnd \<notin> set [PositionVelocityTime sim_frame, Nmea]" "is_single_shot sim_config"
    by (simp_all add: sim_gnss_def sim_config_def is_single_shot_def)
  ultimately obtain x1 c where "gnss_trigger_measurement option_channel (sim_gnss Enabled None SigNone) = Inr (x1, Inr ())"
    "cc_receive option_channel (gn_channel x1) = (c, Some CmdTrigger)"
    "run_events sim_crates sim_config Measuring ([PositionVelocityTime sim_frame, Nmea] @ [StreamEnd]) (Streaming None False, gn_result x1) =
      Inr (Top, SigReady (case stream_latest None [PositionVelocityTime sim_frame, Nmea] of None \<Rightarrow> Inl SensorAccess | Some _ \<Rightarrow> Inr ss))"
    using gnss_trigger_answered[OF option_channel_ok, where x = "sim_gnss Enabled None SigNone" and cfg = sim_config and
        evs = "[PositionVelocityTime sim_frame, Nmea]" and pos = sim_frame and cr = sim_crates and samples_of = "\<lambda>_. ss"]
    by blast
  then show ?thesis
    using ss by (intro exI[of _ ss] exI[of _ x1] exI[of _ c]) (simp only: append.simps stream_latest.simps stream_event.case option.case simp_thms)
qed

text \<open>A fix that times out before its caller waits for it.\<close>

definition sim_sys :: "state \<Rightarrow> gnss_command option \<Rightarrow> (nat, reading_error + samples) signal_state \<Rightarrow> int run_phase \<Rightarrow>
    (gnss_command option, nat, int) gnss_sys" where
  "sim_sys st cmd rd ph = \<lparr>gs_driver = sim_gnss st cmd rd, gs_phase = ph\<rparr>"

lemmas sim_gnss_defs = sim_sys_def sim_gnss_def sim_config_def option_channel_def

lemma sim_run:
  defines "R \<equiv> \<lambda>s s'. \<exists>e. gnss_step option_channel sim_crates True (=) s e s'"
  shows "R\<^sup>*\<^sup>* (gnss_start option_channel sim_config) (sim_sys Enabled None SigNone AwaitStart)"
proof -
  have "gnss_start option_channel sim_config = sim_sys Enabled None SigNone Top"
    by (simp add: gnss_start_def gnss_init_def gnss_new_def sim_gnss_defs atomic_set_def signal_new_def)
  moreover have "R (sim_sys Enabled None SigNone Top) (sim_sys Enabled None SigNone AwaitTrigger)"
    unfolding R_def
    using gnss_step.top[of "sim_sys Enabled None SigNone Top" sim_config Enabled True AwaitTrigger option_channel sim_crates "(=)"]
    by (auto simp: sim_gnss_defs run_top_def run_mode_def)
  moreover have "R (sim_sys Enabled None SigNone AwaitTrigger) (sim_sys Measuring (Some CmdTrigger) SigNone AwaitTrigger)"
    unfolding R_def
    using gnss_step.trigger[of option_channel "sim_sys Enabled None SigNone AwaitTrigger" "sim_gnss Measuring (Some CmdTrigger) SigNone" "Inr ()" sim_crates True "(=)"]
    by (auto simp: sim_gnss_defs gnss_trigger_by_state signal_clear_def)
  moreover have "R (sim_sys Measuring (Some CmdTrigger) SigNone AwaitTrigger) (sim_sys Measuring None SigNone (Streaming None False))"
    unfolding R_def
    using gnss_step.command[of "sim_sys Measuring (Some CmdTrigger) SigNone AwaitTrigger" sim_config Measuring option_channel None CmdTrigger True
        "Streaming None False" sim_crates "(=)"]
    by (auto simp: sim_gnss_defs start_stream_def stream_head_def)
  moreover have "R (sim_sys Measuring None SigNone (Streaming None False)) (sim_sys Measuring None (SigReady (Inl SensorAccess)) Top)"
    unfolding R_def
    using gnss_step.stream[of "sim_sys Measuring None SigNone (Streaming None False)" None False sim_config Measuring option_channel None
        sim_crates StreamEnd "SigReady (Inl SensorAccess)" "[]" Top True "(=)"]
    by (auto simp: sim_gnss_defs is_single_shot_def signal_def signal_clear_def)
  moreover have "R (sim_sys Measuring None (SigReady (Inl SensorAccess)) Top) (sim_sys Measuring None (SigReady (Inl SensorAccess)) AwaitStart)"
    unfolding R_def
    using gnss_step.top[of "sim_sys Measuring None (SigReady (Inl SensorAccess)) Top" sim_config Measuring True AwaitStart option_channel sim_crates "(=)"]
    by (auto simp: sim_gnss_defs run_top_def)
  moreover have "R (sim_sys Measuring None (SigReady (Inl SensorAccess)) AwaitStart) (sim_sys Enabled None (SigReady (Inl SensorAccess)) AwaitStart)"
    unfolding R_def
    using gnss_step.wait[of "sim_sys Measuring None (SigReady (Inl SensorAccess)) AwaitStart" "sim_gnss Enabled None (SigReady (Inl SensorAccess))" Waiter
        option_channel sim_crates True "(=)"]
    by (auto simp: sim_gnss_defs gnss_wait_by_state)
  moreover have "R (sim_sys Enabled None (SigReady (Inl SensorAccess)) AwaitStart) (sim_sys Enabled None SigNone AwaitStart)"
    unfolding R_def
    using gnss_step.poll[of "(=)" 7 "sim_sys Enabled None (SigReady (Inl SensorAccess)) AwaitStart" SigNone "Some (Inl SensorAccess)" "[]"
        option_channel sim_crates True]
    by (auto simp: sim_gnss_defs poll_wait_def)
  ultimately show ?thesis
    by (metis (no_types, lifting) converse_rtranclp_into_rtranclp rtranclp.rtrancl_refl)
qed

theorem gnss_trigger_swallowed_witness:
  "(\<lambda>s s'. \<exists>e. gnss_step option_channel sim_crates True (=) s e s')\<^sup>*\<^sup>* (gnss_start option_channel sim_config)
      (sim_sys Enabled None SigNone AwaitStart) \<and>
   gnss_step option_channel sim_crates True (=) (sim_sys Enabled None SigNone AwaitStart) GTrigger
      (sim_sys Measuring (Some CmdTrigger) SigNone AwaitStart) \<and>
   (passive_step option_channel sim_crates True (=))\<^sup>*\<^sup>* (sim_sys Measuring (Some CmdTrigger) SigNone AwaitStart)
      (sim_sys Enabled None SigNone Top) \<and>
   (\<forall>rd v woken. poll_wait (=) 7 (gn_result (gs_driver (sim_sys Enabled None SigNone Top))) \<noteq> (rd, Some v, woken))"
proof -
  let ?s = "sim_sys Enabled None SigNone AwaitStart" and ?s1 = "sim_sys Measuring (Some CmdTrigger) SigNone AwaitStart"
  have step: "gnss_step option_channel sim_crates True (=) ?s GTrigger ?s1"
    using gnss_step.trigger[of option_channel ?s "sim_gnss Measuring (Some CmdTrigger) SigNone" "Inr ()" sim_crates True "(=)"]
    by (auto simp: sim_gnss_defs gnss_trigger_by_state signal_clear_def)
  have "passive_step option_channel sim_crates True (=) ?s1 (sim_sys Measuring None SigNone Top)"
    using gnss_step.command[of ?s1 sim_config Measuring option_channel None CmdTrigger True Top sim_crates "(=)"]
    by (auto simp: sim_gnss_defs passive_step_def)
  moreover have "passive_step option_channel sim_crates True (=) (sim_sys Measuring None SigNone Top) (sim_sys Enabled None SigNone Top)"
    using gnss_step.wait[of "sim_sys Measuring None SigNone Top" "sim_gnss Enabled None SigNone" Waiter option_channel sim_crates True "(=)"]
    by (auto simp: sim_gnss_defs passive_step_def gnss_wait_by_state)
  ultimately have run: "(passive_step option_channel sim_crates True (=))\<^sup>*\<^sup>* ?s1 (sim_sys Enabled None SigNone Top)"
    by auto
  have "gn_config (gs_driver ?s) = Some sim_config" "is_single_shot sim_config" "gs_phase ?s = AwaitStart"
    "gn_state (gs_driver ?s) = state_as_u8 Enabled" "gn_channel (gs_driver ?s) = None"
    by (simp_all add: sim_gnss_defs is_single_shot_def)
  then show ?thesis
    using sim_run step run gnss_trigger_swallowed[OF option_channel_ok _ _ _ _ _ step run] by blast
qed

end
