(* ===== verification/MacAddress.thy ===== *)
theory MacAddress
  imports Prelude
begin

unbundle bit_operations_syntax

section \<open>Interface addresses (\<open>ariel-os-embassy-common/src/identity.rs\<close>)\<close>

text \<open>
  \<open>generate_aai_mac_address\<close> mixes the device identity into a board hash and gives an
  administratively assigned EUI-48.  Bytes are \<open>8 word\<close>, arrays are lists of the array's length;
  the word readings are \<open>u32::from_le_bytes\<close> and its companions of the Rust core library.
\<close>

fun from_le_bytes :: "8 word list \<Rightarrow> 32 word" where
  "from_le_bytes [] = 0"
| "from_le_bytes (b # bs) = ucast b OR push_bit 8 (from_le_bytes bs)"

definition to_le_bytes :: "32 word \<Rightarrow> 8 word list" where
  "to_le_bytes w = map (\<lambda>i. ucast (drop_bit (8 * i) w)) [0..<4]"

definition from_be_bytes :: "8 word list \<Rightarrow> 32 word" where
  "from_be_bytes bs = from_le_bytes (rev bs)"

definition to_be_bytes :: "32 word \<Rightarrow> 8 word list" where
  "to_be_bytes w = rev (to_le_bytes w)"

text \<open>\<open>slice.chunks(4)\<close>: the last chunk may be shorter.\<close>

fun chunks4 :: "'a list \<Rightarrow> 'a list list" where
  "chunks4 (a # b # c # d # xs) = [a, b, c, d] # chunks4 xs"
| "chunks4 [] = []"
| "chunks4 [a] = [[a]]"
| "chunks4 [a, b] = [[a, b]]"
| "chunks4 [a, b, c] = [[a, b, c]]"

text \<open>\<open>full[..chunk.len()].copy_from_slice(chunk)\<close> on four zero bytes.\<close>

definition pad4 :: "8 word list \<Rightarrow> 8 word list" where
  "pad4 c = c @ replicate (4 - length c) 0"

definition xor_chunks :: "32 word \<Rightarrow> 8 word list \<Rightarrow> 32 word" where
  "xor_chunks x dev = foldl (\<lambda>x c. x XOR from_le_bytes (pad4 c)) x (chunks4 dev)"

definition enforce_aai :: "8 word \<Rightarrow> 8 word" where
  "enforce_aai b = (b AND 0xf0) OR 0x02"

definition add_if_index :: "8 word list \<Rightarrow> 32 word \<Rightarrow> 8 word list" where
  "add_if_index eui if_index = take 2 eui @ to_be_bytes (from_be_bytes (drop 2 eui) + if_index)"

text \<open>\<open>eui48[1..5]\<close> is the word the identity is mixed into.\<close>

definition generate_aai_mac_address :: "8 word list \<Rightarrow> 8 word list \<Rightarrow> 32 word \<Rightarrow> 8 word list" where
  "generate_aai_mac_address hash dev if_index =
     (let eui = hash;
          x = xor_chunks (from_le_bytes (take 4 (drop 1 eui))) dev;
          eui = take 1 eui @ to_le_bytes x @ drop 5 eui;
          eui = eui[0 := enforce_aai (eui ! 0)]
      in add_if_index eui if_index)"

text \<open>
  \<open>DeviceId::interface_eui48\<close>.  The SHA-1 hash of the board name, and the device's serialized
  identity, come from other crates: parameters.
\<close>

definition interface_eui48 :: "8 word list \<Rightarrow> 8 word list \<Rightarrow> 32 word \<Rightarrow> 8 word list" where
  "interface_eui48 board_hash device_id_bytes if_index =
     generate_aai_mac_address (take 6 board_hash) device_id_bytes if_index"

text \<open>The simple version in the comment: \<open>eui48[1 + index % 4] ^= byte\<close> for each byte.\<close>

fun mix_simple :: "nat \<Rightarrow> 8 word list \<Rightarrow> 8 word list \<Rightarrow> 8 word list" where
  "mix_simple index eui [] = eui"
| "mix_simple index eui (b # bs) =
     mix_simple (index + 1) (eui[1 + index mod 4 := eui ! (1 + index mod 4) XOR b]) bs"

definition generate_simple :: "8 word list \<Rightarrow> 8 word list \<Rightarrow> 32 word \<Rightarrow> 8 word list" where
  "generate_simple hash dev if_index =
     (let eui = mix_simple 0 hash dev; eui = eui[0 := enforce_aai (eui ! 0)] in add_if_index eui if_index)"

subsection \<open>Byte order round trips\<close>

lemma bit_from_le:
  "bit (from_le_bytes bs) n \<longleftrightarrow> n < 32 \<and> n div 8 < length bs \<and> bit (bs ! (n div 8)) (n mod 8)"
proof (induction bs arbitrary: n)
  case (Cons b bs)
  show ?case
  proof (cases "n < 8")
    case True
    then show ?thesis
      by (simp add: bit_or_iff bit_ucast_iff bit_push_bit_iff)
  next
    case False
    then obtain m where "n = m + 8"
      by (metis add.commute le_Suc_ex not_less)
    moreover have "(m + 8) div 8 = Suc (m div 8)" "(m + 8) mod 8 = m mod 8"
      by (simp_all add: div_add_self2)
    ultimately show ?thesis
      using Cons.IH[of m] bit_imp_le_length[of b "m + 8"]
      by (auto simp: bit_or_iff bit_ucast_iff bit_push_bit_iff)
  qed
qed simp

lemma length_to_le [simp]: "length (to_le_bytes w) = 4"
  by (simp add: to_le_bytes_def)

lemma length_to_be [simp]: "length (to_be_bytes w) = 4"
  by (simp add: to_be_bytes_def)

lemma to_from_le: "length bs = 4 \<Longrightarrow> to_le_bytes (from_le_bytes bs) = bs"
proof (rule nth_equalityI)
  fix i
  assume l: "length bs = 4" and i: "i < length (to_le_bytes (from_le_bytes bs))"
  have "bit (to_le_bytes (from_le_bytes bs) ! i) n \<longleftrightarrow> bit (bs ! i) n" for n
    using i l bit_imp_le_length[of "bs ! i" n]
    by (auto simp: to_le_bytes_def bit_ucast_iff bit_drop_bit_eq bit_from_le)
  then show "to_le_bytes (from_le_bytes bs) ! i = bs ! i"
    by (intro bit_word_eqI) auto
qed simp

lemma from_to_le: "from_le_bytes (to_le_bytes w) = w"
proof (rule bit_word_eqI)
  fix n
  assume n: "n < LENGTH(32)"
  then have "n div 8 < 4"
    by simp
  then show "bit (from_le_bytes (to_le_bytes w)) n \<longleftrightarrow> bit w n"
    using n by (simp add: bit_from_le to_le_bytes_def bit_ucast_iff bit_drop_bit_eq)
qed

lemma from_to_be: "from_be_bytes (to_be_bytes w) = w"
  by (simp add: from_be_bytes_def to_be_bytes_def from_to_le)

lemma to_from_be: "length bs = 4 \<Longrightarrow> to_be_bytes (from_be_bytes bs) = bs"
  by (simp add: from_be_bytes_def to_be_bytes_def to_from_le)

lemma from_le_xor:
  "length as = length bs \<Longrightarrow> from_le_bytes as XOR from_le_bytes bs = from_le_bytes (map2 (XOR) as bs)"
  by (rule bit_word_eqI) (auto simp: bit_from_le bit_xor_iff)

subsection \<open>Mixing in words and mixing in bytes\<close>

lemma six_bytes:
  assumes "length eui = 6"
  obtains h a b c d t where "eui = [h, a, b, c, d, t]"
  using assms by (auto simp: length_Suc_conv numeral_eq_Suc)

lemma pad4_full [simp]: "length c = 4 \<Longrightarrow> pad4 c = c"
  by (simp add: pad4_def)

lemma mix_step:
  "mix_simple (4 * k) [h, a, b, c, d, t] (w # ds) = mix_simple (4 * k + 1) [h, a XOR w, b, c, d, t] ds"
  "mix_simple (4 * k + 1) [h, a, b, c, d, t] (w # ds) = mix_simple (4 * k + 2) [h, a, b XOR w, c, d, t] ds"
  "mix_simple (4 * k + 2) [h, a, b, c, d, t] (w # ds) = mix_simple (4 * k + 3) [h, a, b, c XOR w, d, t] ds"
  "mix_simple (4 * k + 3) [h, a, b, c, d, t] (w # ds) = mix_simple (4 * Suc k) [h, a, b, c, d XOR w, t] ds"
proof -
  have m: "(4 * k) mod 4 = 0" "(4 * k + 1) mod 4 = 1" "(4 * k + 2) mod 4 = 2" "(4 * k + 3) mod 4 = 3"
    by presburger+
  show "mix_simple (4 * k) [h, a, b, c, d, t] (w # ds) = mix_simple (4 * k + 1) [h, a XOR w, b, c, d, t] ds"
    unfolding mix_simple.simps(2) m by simp
  show "mix_simple (4 * k + 1) [h, a, b, c, d, t] (w # ds) = mix_simple (4 * k + 2) [h, a, b XOR w, c, d, t] ds"
    unfolding mix_simple.simps(2) m by (simp add: numeral_eq_Suc)
  show "mix_simple (4 * k + 2) [h, a, b, c, d, t] (w # ds) = mix_simple (4 * k + 3) [h, a, b, c XOR w, d, t] ds"
    unfolding mix_simple.simps(2) m by (simp add: numeral_eq_Suc)
  show "mix_simple (4 * k + 3) [h, a, b, c, d, t] (w # ds) = mix_simple (4 * Suc k) [h, a, b, c, d XOR w, t] ds"
    unfolding mix_simple.simps(2) m by (simp add: numeral_eq_Suc)
qed

lemma xor_chunk:
  "length c \<le> 4 \<Longrightarrow> from_le_bytes [a, b, x, d] XOR from_le_bytes (pad4 c) = from_le_bytes (map2 (XOR) [a, b, x, d] (pad4 c))"
  by (rule from_le_xor) (simp add: pad4_def)

lemma mix_chunks:
  "mix_simple (4 * k) [h, a, b, c, d, t] dev = h # to_le_bytes (xor_chunks (from_le_bytes [a, b, c, d]) dev) @ [t]"
proof (induction dev arbitrary: a b c d k rule: chunks4.induct)
  case (1 w x y z rest)
  have "mix_simple (4 * k) [h, a, b, c, d, t] (w # x # y # z # rest) =
      mix_simple (4 * Suc k) [h, a XOR w, b XOR x, c XOR y, d XOR z, t] rest"
    unfolding mix_step ..
  moreover have "xor_chunks (from_le_bytes [a, b, c, d]) (w # x # y # z # rest) =
      xor_chunks (from_le_bytes [a XOR w, b XOR x, c XOR y, d XOR z]) rest"
    using xor_chunk[of "[w, x, y, z]" a b c d] by (simp add: xor_chunks_def del: from_le_bytes.simps)
  ultimately show ?case
    by (simp only: 1)
next
  case 2
  then show ?case
    using to_from_le[of "[a, b, c, d]"] by (simp add: xor_chunks_def del: from_le_bytes.simps)
next
  case (3 w)
  then show ?case
    using xor_chunk[of "[w]" a b c d] to_from_le[of "[a XOR w, b, c, d]"] unfolding mix_step
    by (simp add: xor_chunks_def pad4_def numeral_eq_Suc del: from_le_bytes.simps)
next
  case (4 w x)
  then show ?case
    using xor_chunk[of "[w, x]" a b c d] to_from_le[of "[a XOR w, b XOR x, c, d]"] unfolding mix_step
    by (simp add: xor_chunks_def pad4_def numeral_eq_Suc del: from_le_bytes.simps)
next
  case (5 w x y)
  then show ?case
    using xor_chunk[of "[w, x, y]" a b c d] to_from_le[of "[a XOR w, b XOR x, c XOR y, d]"] unfolding mix_step
    by (simp add: xor_chunks_def pad4_def numeral_eq_Suc del: from_le_bytes.simps)
qed

lemma length_mix [simp]: "length (mix_simple i eui dev) = length eui"
  by (induction i eui dev rule: mix_simple.induct) auto

lemma mix_flip:
  assumes "i < length dev" "length eui = 6"
  shows "mix_simple index eui (dev[i := dev ! i XOR v]) =
    (mix_simple index eui dev)[1 + (index + i) mod 4 := mix_simple index eui dev ! (1 + (index + i) mod 4) XOR v]"
  using assms
proof (induction dev arbitrary: i index eui)
  case (Cons b dev)
  have flip: "mix_simple n (e[1 + j := e ! (1 + j) XOR u]) ds =
      (mix_simple n e ds)[1 + j := mix_simple n e ds ! (1 + j) XOR u]" if "j < 4" "length e = 6" for n e ds j u
    using that
  proof (induction n e ds rule: mix_simple.induct)
    case (2 n e d ds)
    have "n mod 4 < 4"
      by simp
    then have l: "1 + n mod 4 < 6" "1 + j < 6"
      using 2(2) by linarith+
    have "(e[1 + j := e ! (1 + j) XOR u])[1 + n mod 4 := e[1 + j := e ! (1 + j) XOR u] ! (1 + n mod 4) XOR d] =
       (e[1 + n mod 4 := e ! (1 + n mod 4) XOR d])[1 + j := e[1 + n mod 4 := e ! (1 + n mod 4) XOR d] ! (1 + j) XOR u]"
      using l 2(3) by (cases "j = n mod 4") (auto simp: list_update_swap xor.assoc xor.commute xor.left_commute)
    then show ?case
      using 2 by simp
  qed simp
  show ?case
  proof (cases i)
    case 0
    have "eui[1 + index mod 4 := eui ! (1 + index mod 4) XOR (b XOR v)] =
      (eui[1 + index mod 4 := eui ! (1 + index mod 4) XOR b])[1 + index mod 4 :=
         eui[1 + index mod 4 := eui ! (1 + index mod 4) XOR b] ! (1 + index mod 4) XOR v]"
      using Cons.prems(2) mod_less_divisor[of 4 index] by (simp add: xor.assoc)
    then show ?thesis
      using 0 Cons.prems flip[of "index mod 4" "eui[1 + index mod 4 := eui ! (1 + index mod 4) XOR b]" "index + 1" v dev]
      by simp
  next
    case (Suc j)
    then show ?thesis
      using Cons.IH[of j "eui[1 + index mod 4 := eui ! (1 + index mod 4) XOR b]" "index + 1"] Cons.prems by simp
  qed
qed simp

lemma add_if_index_inj:
  assumes "length e = 6" "length f = 6" "add_if_index e i = add_if_index f j"
  shows "take 2 e = take 2 f" "drop 2 e = drop 2 f \<longleftrightarrow> i = j"
proof -
  show "take 2 e = take 2 f"
    using assms by (simp add: add_if_index_def)
  have "to_be_bytes (from_be_bytes (drop 2 e) + i) = to_be_bytes (from_be_bytes (drop 2 f) + j)"
    using assms by (simp add: add_if_index_def)
  then have eq: "from_be_bytes (drop 2 e) + i = from_be_bytes (drop 2 f) + j"
    by (metis from_to_be)
  have "from_be_bytes (drop 2 e) = from_be_bytes (drop 2 f) \<longleftrightarrow> drop 2 e = drop 2 f"
  proof -
    have "to_be_bytes (from_be_bytes (drop 2 e)) = drop 2 e" "to_be_bytes (from_be_bytes (drop 2 f)) = drop 2 f"
      using assms(1,2) by (simp_all add: to_from_be)
    then show ?thesis
      by metis
  qed
  then show "drop 2 e = drop 2 f \<longleftrightarrow> i = j"
    using eq by auto
qed

lemma generate_is_simple:
  assumes "length hash = 6"
  shows "generate_aai_mac_address hash dev if_index = generate_simple hash dev if_index"
proof -
  obtain h a b c d t where hash: "hash = [h, a, b, c, d, t]"
    using six_bytes[OF assms] .
  have "mix_simple 0 hash dev = h # to_le_bytes (xor_chunks (from_le_bytes [a, b, c, d]) dev) @ [t]"
    using mix_chunks[of 0 h a b c d t dev] hash by simp
  then show ?thesis
    using hash by (simp add: generate_aai_mac_address_def generate_simple_def Let_def del: from_le_bytes.simps)
qed

lemma length_add_if_index: "length e = 6 \<Longrightarrow> length (add_if_index e i) = 6"
  by (simp add: add_if_index_def)

lemma aai_nibble: "enforce_aai b AND 0x0f = 0x02"
  by (simp add: enforce_aai_def bit.conj_disj_distrib2 and.assoc)

text \<open>The mixed bytes before the interface index is added.\<close>

definition mixed :: "8 word list \<Rightarrow> 8 word list \<Rightarrow> 8 word list" where
  "mixed hash dev = (mix_simple 0 hash dev)[0 := enforce_aai (mix_simple 0 hash dev ! 0)]"

lemma generate_mixed: "length hash = 6 \<Longrightarrow> generate_aai_mac_address hash dev i = add_if_index (mixed hash dev) i"
  by (simp add: generate_is_simple generate_simple_def mixed_def Let_def)

lemma word_xor_cancel: "x XOR v = x \<Longrightarrow> v = (0 :: 8 word)"
proof -
  assume "x XOR v = x"
  then have "x XOR (x XOR v) = x XOR x"
    by simp
  then show "v = 0"
    by (simp flip: xor.assoc)
qed

lemma mixed_flip:
  assumes "length hash = 6" "k < length dev" "v \<noteq> 0"
  shows "mixed hash (dev[k := dev ! k XOR v]) \<noteq> mixed hash dev"
proof
  assume "mixed hash (dev[k := dev ! k XOR v]) = mixed hash dev"
  then have "mixed hash (dev[k := dev ! k XOR v]) ! (1 + k mod 4) = mixed hash dev ! (1 + k mod 4)"
    by simp
  moreover have "1 + k mod 4 < 6"
    using mod_less_divisor[of 4 k] by linarith
  ultimately have "mix_simple 0 hash dev ! (1 + k mod 4) XOR v = mix_simple 0 hash dev ! (1 + k mod 4)"
    using mix_flip[OF assms(2,1), of 0 v] assms(1) by (simp add: mixed_def)
  then show False
    using assms(3) word_xor_cancel[of "mix_simple 0 hash dev ! (1 + k mod 4)" v] by simp
qed

text \<open>
  The word-wise mixing of \<open>generate_aai_mac_address\<close> is the byte-wise algorithm its comment gives:
  for every six-byte hash and every device identity, of any length, both yield the same address.
\<close>

theorem mac_mixing_is_bytewise:
  assumes "length hash = 6"
  shows "generate_aai_mac_address hash dev if_index = generate_simple hash dev if_index"
  using generate_is_simple[OF assms] .

text \<open>
  Every generated address has six bytes and carries the administratively assigned pattern
  \<open>?2-??-??-??-??-??\<close>; two interfaces of one device get the same address only if their indices are
  equal; and changing any single byte of the device identity changes the address.
\<close>

theorem mac_addresses_distinct:
  assumes "length hash = 6"
  shows "length (generate_aai_mac_address hash dev i) = 6 \<and>
    generate_aai_mac_address hash dev i ! 0 AND 0x0f = 0x02 \<and>
    (generate_aai_mac_address hash dev i = generate_aai_mac_address hash dev j \<longleftrightarrow> i = j) \<and>
    (\<forall>k v. k < length dev \<and> v \<noteq> 0 \<longrightarrow>
       generate_aai_mac_address hash (dev[k := dev ! k XOR v]) i \<noteq> generate_aai_mac_address hash dev i)"
proof -
  have l: "length (mixed hash ds) = 6" for ds
    using assms by (simp add: mixed_def)
  have "add_if_index (mixed hash dev) i ! 0 = mixed hash dev ! 0"
    using l by (simp add: add_if_index_def nth_append)
  then have "add_if_index (mixed hash dev) i ! 0 AND 0x0f = 0x02"
    using assms aai_nibble by (simp add: mixed_def)
  moreover have "add_if_index (mixed hash dev) i = add_if_index (mixed hash dev) j \<longleftrightarrow> i = j"
    using add_if_index_inj(2)[OF l l, of dev i dev j] by auto
  moreover have "add_if_index (mixed hash (dev[k := dev ! k XOR v])) i \<noteq> add_if_index (mixed hash dev) i"
    if "k < length dev" "v \<noteq> 0" for k v
    using add_if_index_inj[OF l l, of "dev[k := dev ! k XOR v]" i dev i] mixed_flip[OF assms that]
    by (metis append_take_drop_id)
  ultimately show ?thesis
    using l assms by (simp add: generate_mixed length_add_if_index)
qed

text \<open>Concrete hashes and identities.\<close>

theorem mac_mixing_is_bytewise_witness:
  "generate_aai_mac_address [0x47, 0x0f, 0xa8, 0x9b, 0x04, 0xe9] [0xee, 0x13, 0xad, 0xd5, 0x7b] 0x2f =
   [0x42, 0x9a, 0xbb, 0x36, 0xd2, 0x18]"
proof -
  have "generate_simple [0x47, 0x0f, 0xa8, 0x9b, 0x04, 0xe9] [0xee, 0x13, 0xad, 0xd5, 0x7b] 0x2f =
    [0x42, 0x9a, 0xbb, 0x36, 0xd2, 0x18]"
    by code_simp
  then show ?thesis
    using mac_mixing_is_bytewise[of "[0x47, 0x0f, 0xa8, 0x9b, 0x04, 0xe9]" "[0xee, 0x13, 0xad, 0xd5, 0x7b]" "0x2f"]
    by simp
qed

theorem mac_addresses_distinct_witness:
  "generate_aai_mac_address [1, 2, 3, 4, 5, 6] [0xee] 0 \<noteq> generate_aai_mac_address [1, 2, 3, 4, 5, 6] [0xee] 1"
  using mac_addresses_distinct[of "[1, 2, 3, 4, 5, 6]" "[0xee]" 0 1] by simp

end
