(* ===== verification/SupportMatrix.thy ===== *)
theory SupportMatrix
  imports Prelude "HOL-Library.List_Lexorder" "HOL-Library.Char_ord" "HOL-Library.Multiset"
begin

section \<open>The hardware support matrix (\<open>doc/schema.rs\<close>, \<open>doc/gen_book.rs\<close>)\<close>

text \<open>
  The support matrix describes chips, laze builders and boards, and which functionality each supports.
  This theory has its data, its validation and the resolution of the names in it, which gives the
  contents of the pages of the book.  A \<open>HashMap\<close> is the list of its entries in the order in which
  it is iterated, which is arbitrary; \<open>matrix_same\<close> relates two runs that read the same file.
  Strings are lists of bytes, which Rust compares in this way, too.
\<close>

subsection \<open>The input\<close>

type_synonym 'v hash_map = "(string \<times> 'v) list"

datatype support_info =
    StatusOnly string
  | Details string "string list option" "string option"

fun support_status :: "support_info \<Rightarrow> string" where
  "support_status (StatusOnly status) = status"
| "support_status (Details status _ _) = status"

record support_key_info =
  sk_name :: string
  sk_icon :: string
  sk_description :: string

record functionality_info =
  fn_name :: string
  fn_title :: string
  fn_support_criteria :: string
  fn_description :: string

record note_snippet =
  ns_name :: string
  ns_content :: string

record chip_info =
  ci_name :: string
  ci_manufacturer :: string
  ci_description :: "string option"
  ci_support :: "support_info hash_map"
  ci_notes :: "string option"
  ci_note_snippets :: "string list option"

record builder_info =
  bi_chip :: string
  bi_tier :: string
  bi_support :: "support_info hash_map"
  bi_notes :: "string option"
  bi_note_snippets :: "string list option"

record board_info =
  bo_name :: string
  bo_description :: "string option"
  bo_url :: string
  bo_builders :: "string list"

record matrix =
  mx_support_keys :: "support_key_info list"
  mx_functionalities :: "functionality_info list"
  mx_note_snippets :: "note_snippet list"
  mx_chips :: "chip_info hash_map"
  mx_builders :: "builder_info hash_map"
  mx_boards :: "board_info list"

subsection \<open>The pages\<close>

record functionality_support =
  fs_title :: string
  fs_icon :: string
  fs_description :: string
  fs_comments :: "string list option"

record laze_builder =
  lb_chip :: string
  lb_chip_technical_name :: string
  lb_chip_doc :: string
  lb_tier :: string
  lb_technical_name :: string
  lb_functionalities :: "functionality_support list"
  lb_notes :: "string option"

record board_page =
  bp_url :: string
  bp_board_doc :: string
  bp_name :: string
  bp_builders :: "laze_builder list"

record chip_page =
  cp_technical_name :: string
  cp_name :: string
  cp_functionalities :: "functionality_support list"
  cp_notes :: "string option"

text \<open>An error of the operating system is its number.\<close>

datatype io_error = OsError int

datatype book_error =
    InputFile string io_error
  | SummaryTemplateFile string io_error
  | Parsing string string nat
  | ValidationIssues "book_error list"
  | InvalidBuilderName string string
  | InvalidChipName string string
  | InvalidFunctionalityNameBoard string string
  | InvalidFunctionalityNameChip string string
  | InvalidSupportKeyNameBoard string string string
  | InvalidSupportKeyNameChip string string string
  | InvalidNoteSnippetName string
  | MissingSupportInfo string string string
  | WritingOutputFile string io_error
  | ReadingExistingFile string io_error
  | ExistingHtmlNotUpToDate string
  | ExistingMarkdownNotUpToDate string

subsection \<open>Collecting errors\<close>

text \<open>The errors of a list of results, all of which are reported; without any, the values.\<close>

definition errs :: "('e + 'a) list \<Rightarrow> 'e list" where
  "errs rs = map projl (filter isl rs)"

definition collect_all :: "('e + 'a) list \<Rightarrow> 'e list + 'a list" where
  "collect_all rs = (if errs rs = [] then Inr (map projr rs) else Inl (errs rs))"

definition collect_flat :: "('e list + 'a) list \<Rightarrow> 'e list + 'a list" where
  "collect_flat rs = (if concat (errs rs) = [] then Inr (map projr rs) else Inl (concat (errs rs)))"

fun ok_or_err :: "'a option \<Rightarrow> 'e \<Rightarrow> 'e + 'a" where
  "ok_or_err None e = Inl e"
| "ok_or_err (Some v) e = Inr v"

definition or_issues :: "book_error list + 'a \<Rightarrow> book_error + 'a" where
  "or_issues r = (case r of Inl errors \<Rightarrow> Inl (ValidationIssues errors) | Inr v \<Rightarrow> Inr v)"

subsection \<open>Validation\<close>

definition unknown_functionalities :: "matrix \<Rightarrow> support_info hash_map \<Rightarrow> string list" where
  "unknown_functionalities m support =
     filter (\<lambda>f. \<forall>fi \<in> set (mx_functionalities m). fn_name fi \<noteq> f) (map fst support)"

definition validate_input :: "matrix \<Rightarrow> book_error + unit" where
  "validate_input m =
     (let board_errors = concat (map (\<lambda>(builder, info).
            map (\<lambda>f. InvalidFunctionalityNameBoard f builder) (unknown_functionalities m (bi_support info))) (mx_builders m));
          chip_errors = concat (map (\<lambda>c.
            map (\<lambda>f. InvalidFunctionalityNameChip f (ci_name c)) (unknown_functionalities m (ci_support c)))
            (map snd (mx_chips m)));
          errors = board_errors @ chip_errors in
      if errors = [] then Inr () else Inl (ValidationIssues errors))"

subsection \<open>Resolution\<close>

definition find_support_key :: "matrix \<Rightarrow> string \<Rightarrow> support_key_info option" where
  "find_support_key m status = find (\<lambda>s. sk_name s = status) (mx_support_keys m)"

definition find_snippet :: "matrix \<Rightarrow> string \<Rightarrow> book_error + string" where
  "find_snippet m name =
     (case find (\<lambda>s. ns_name s = name) (mx_note_snippets m) of
        None \<Rightarrow> Inl (InvalidNoteSnippetName name)
      | Some s \<Rightarrow> Inr (ns_content s))"

definition resolve_snippets :: "matrix \<Rightarrow> string list option \<Rightarrow> book_error list + string list option" where
  "resolve_snippets m snippets =
     (case snippets of
        None \<Rightarrow> Inr None
      | Some names \<Rightarrow> bnd (collect_all (map (find_snippet m) names)) (\<lambda>contents. Inr (Some contents)))"

fun join_with :: "string \<Rightarrow> string list \<Rightarrow> string" where
  "join_with sep [] = []"
| "join_with sep [s] = s"
| "join_with sep (s # t # ss) = s @ sep @ join_with sep (t # ss)"

definition PARAGRAPH :: string where
  "PARAGRAPH = [CHR 0x0A, CHR 0x0A]"

definition merge_notes :: "string option \<Rightarrow> string list option \<Rightarrow> string option" where
  "merge_notes notes note_snippet_content =
     (case note_snippet_content of
        Some snippets \<Rightarrow>
          (case notes of
             Some notes \<Rightarrow> Some (notes @ PARAGRAPH @ join_with PARAGRAPH snippets)
           | None \<Rightarrow> Some (join_with PARAGRAPH snippets))
      | None \<Rightarrow> notes)"

fun support_comments :: "support_info \<Rightarrow> string list option" where
  "support_comments (StatusOnly _) = None"
| "support_comments (Details _ comments _) = comments"

definition functionality_support_of :: "functionality_info \<Rightarrow> support_key_info \<Rightarrow> support_info \<Rightarrow> functionality_support" where
  "functionality_support_of fi key info =
     \<lparr>fs_title = fn_title fi, fs_icon = sk_icon key, fs_description = sk_description key,
      fs_comments = support_comments info\<rparr>"

text \<open>A builder's own support information goes before that of its chip.\<close>

definition builder_functionality ::
    "matrix \<Rightarrow> board_info \<Rightarrow> builder_info \<Rightarrow> chip_info \<Rightarrow> functionality_info \<Rightarrow> book_error + functionality_support" where
  "builder_functionality m board builder chip fi =
     (let name = fn_name fi in
      bnd (case map_of (bi_support builder) name of
             Some info \<Rightarrow>
               bnd (ok_or_err (find_support_key m (support_status info))
                     (InvalidSupportKeyNameBoard (support_status info) name (bo_name board)))
                 (\<lambda>key. Inr (info, key))
           | None \<Rightarrow>
               bnd (ok_or_err (map_of (ci_support chip) name)
                     (MissingSupportInfo (bo_name board) (bi_chip builder) (fn_title fi)))
                 (\<lambda>info. bnd (ok_or_err (find_support_key m (support_status info))
                     (InvalidSupportKeyNameChip (support_status info) name (ci_name chip)))
                   (\<lambda>key. Inr (info, key))))
        (\<lambda>(info, key). Inr (functionality_support_of fi key info)))"

definition builder_page :: "matrix \<Rightarrow> board_info \<Rightarrow> string \<Rightarrow> book_error list + laze_builder" where
  "builder_page m board technical_name =
     bnd (ok_or_err (map_of (mx_builders m) technical_name) [InvalidBuilderName technical_name (bo_name board)]) (\<lambda>builder.
     bnd (ok_or_err (map_of (mx_chips m) (bi_chip builder)) [InvalidChipName (bi_chip builder) (bo_name board)]) (\<lambda>chip.
     bnd (resolve_snippets m (bi_note_snippets builder)) (\<lambda>note_snippet_content.
     bnd (collect_all (map (builder_functionality m board builder chip) (mx_functionalities m))) (\<lambda>functionalities.
     Inr \<lparr>lb_chip = ci_name chip, lb_chip_technical_name = bi_chip builder,
       lb_chip_doc = ''chips/'' @ bi_chip builder @ ''.html'', lb_tier = bi_tier builder,
       lb_technical_name = technical_name, lb_functionalities = functionalities,
       lb_notes = merge_notes (bi_notes builder) note_snippet_content\<rparr>))))"

definition board_page_of :: "(string \<Rightarrow> string) \<Rightarrow> matrix \<Rightarrow> board_info \<Rightarrow> book_error list + board_page" where
  "board_page_of slugify m board =
     bnd (collect_flat (map (builder_page m board) (bo_builders board))) (\<lambda>builders.
     Inr \<lparr>bp_url = bo_url board, bp_board_doc = ''boards/'' @ slugify (bo_name board) @ ''.html'',
       bp_name = bo_name board, bp_builders = builders\<rparr>)"

definition gen_board_functionalities :: "(string \<Rightarrow> string) \<Rightarrow> matrix \<Rightarrow> book_error + board_page list" where
  "gen_board_functionalities slugify m =
     or_issues (collect_flat (map (board_page_of slugify m) (mx_boards m)))"

definition get_chip_functionality_support :: "string \<Rightarrow> string \<Rightarrow> builder_info hash_map \<Rightarrow> support_info option" where
  "get_chip_functionality_support chip functionality builders =
     (if list_ex (\<lambda>(_, info).
           case map_of (bi_support info) functionality of
             Some s \<Rightarrow> support_status s = ''supported'' \<or> support_status s = ''supported_with_caveats''
           | None \<Rightarrow> False) (filter (\<lambda>(_, info). bi_chip info = chip) builders)
      then Some (StatusOnly ''supported'') else None)"

definition chip_functionality ::
    "matrix \<Rightarrow> string \<Rightarrow> chip_info \<Rightarrow> functionality_info \<Rightarrow> book_error + functionality_support" where
  "chip_functionality m technical_name chip fi =
     bnd (ok_or_err (case map_of (ci_support chip) (fn_name fi) of
             Some info \<Rightarrow> Some info
           | None \<Rightarrow> get_chip_functionality_support technical_name (fn_name fi) (mx_builders m))
           (MissingSupportInfo [] (ci_name chip) (fn_name fi))) (\<lambda>info.
     bnd (ok_or_err (find_support_key m (support_status info))
           (InvalidSupportKeyNameChip (support_status info) (fn_name fi) (ci_name chip))) (\<lambda>key.
     Inr (functionality_support_of fi key info)))"

definition chip_page_of :: "matrix \<Rightarrow> string \<times> chip_info \<Rightarrow> book_error list + chip_page" where
  "chip_page_of m = (\<lambda>(technical_name, chip).
     bnd (resolve_snippets m (ci_note_snippets chip)) (\<lambda>note_snippet_content.
     bnd (collect_all (map (chip_functionality m technical_name chip) (mx_functionalities m))) (\<lambda>functionalities.
     Inr \<lparr>cp_technical_name = technical_name, cp_name = ci_name chip, cp_functionalities = functionalities,
       cp_notes = merge_notes (ci_notes chip) note_snippet_content\<rparr>)))"

definition gen_chip_functionalities :: "matrix \<Rightarrow> book_error + chip_page list" where
  "gen_chip_functionalities m = or_issues (collect_flat (map (chip_page_of m) (mx_chips m)))"

section \<open>What the pages hold\<close>

named_theorems book_simps "when a step of the resolution succeeds, and with which value"

lemma errs_Nil: "errs rs = [] \<longleftrightarrow> (\<forall>r \<in> set rs. \<exists>v. r = Inr v)"
  by (auto simp: errs_def filter_empty_conv isl_def) (metis sum.exhaust)

lemma map_Inr_spec:
  assumes "\<And>x y. x \<in> set xs \<Longrightarrow> f x = Inr y \<longleftrightarrow> P x \<and> y = g x"
  shows "(\<forall>r \<in> set (map f xs). \<exists>v. r = Inr v) \<longleftrightarrow> (\<forall>x \<in> set xs. P x)"
    and "\<forall>x \<in> set xs. P x \<Longrightarrow> map projr (map f xs) = map g xs"
  using assms by auto (metis sum.sel(2))

lemma collect_all_spec:
  assumes "\<And>x y. x \<in> set xs \<Longrightarrow> f x = Inr y \<longleftrightarrow> P x \<and> y = g x"
  shows "collect_all (map f xs) = Inr ys \<longleftrightarrow> (\<forall>x \<in> set xs. P x) \<and> ys = map g xs"
  using map_Inr_spec[of xs f P g, OF assms] by (auto simp: collect_all_def errs_Nil)

lemma collect_all_nonempty [simp]: "collect_all rs \<noteq> Inl []"
  by (simp add: collect_all_def)

lemma concat_errs_Nil: "Inl [] \<notin> set rs \<Longrightarrow> concat (errs rs) = [] \<longleftrightarrow> errs rs = []"
  by (induction rs) (auto simp: errs_def isl_def)

lemma collect_flat_spec:
  assumes "\<And>x y. x \<in> set xs \<Longrightarrow> f x = Inr y \<longleftrightarrow> P x \<and> y = g x" "\<And>x. f x \<noteq> Inl []"
  shows "collect_flat (map f xs) = Inr ys \<longleftrightarrow> (\<forall>x \<in> set xs. P x) \<and> ys = map g xs"
proof -
  have "concat (errs (map f xs)) = [] \<longleftrightarrow> errs (map f xs) = []"
    using assms(2) by (intro concat_errs_Nil) (metis ex_map_conv)
  then show ?thesis
    using map_Inr_spec[of xs f P g, OF assms(1)] by (auto simp: collect_flat_def errs_Nil)
qed

lemma collect_flat_nonempty [simp]: "collect_flat rs \<noteq> Inl []"
  by (simp add: collect_flat_def)

lemma ok_or_err_Inr [book_simps]: "ok_or_err v e = Inr w \<longleftrightarrow> v = Some w"
  by (cases v) auto

lemma ok_or_err_Inl [book_simps]: "ok_or_err v e = Inl e' \<longleftrightarrow> v = None \<and> e' = e"
  by (cases v) auto

subsection \<open>The reference\<close>

text \<open>
  What a cell of the matrix shows: the support information in force, and the key of its status.
  \<open>cell\<close> is \<open>None\<close> if there is no information, or no key for its status.
\<close>

definition effective_support :: "builder_info \<Rightarrow> chip_info \<Rightarrow> functionality_info \<Rightarrow> support_info option" where
  "effective_support builder chip fi =
     (map_of (ci_support chip) ++ map_of (bi_support builder)) (fn_name fi)"

definition supports :: "string \<Rightarrow> string \<Rightarrow> builder_info \<Rightarrow> bool" where
  "supports chip f b \<longleftrightarrow> bi_chip b = chip \<and>
     (\<exists>s. map_of (bi_support b) f = Some s \<and> support_status s \<in> {''supported'', ''supported_with_caveats''})"

definition chip_support :: "matrix \<Rightarrow> string \<Rightarrow> chip_info \<Rightarrow> functionality_info \<Rightarrow> support_info option" where
  "chip_support m technical_name chip fi =
     (case map_of (ci_support chip) (fn_name fi) of
        Some info \<Rightarrow> Some info
      | None \<Rightarrow>
          if \<exists>b \<in> snd ` set (mx_builders m). supports technical_name (fn_name fi) b
          then Some (StatusOnly ''supported'') else None)"

definition cell :: "matrix \<Rightarrow> functionality_info \<Rightarrow> support_info option \<Rightarrow> functionality_support option" where
  "cell m fi info =
     Option.bind info (\<lambda>i. map_option (\<lambda>key. functionality_support_of fi key i) (find_support_key m (support_status i)))"

definition snippet_content :: "matrix \<Rightarrow> string \<Rightarrow> string option" where
  "snippet_content m name = map_option ns_content (find (\<lambda>s. ns_name s = name) (mx_note_snippets m))"

definition snippets_known :: "matrix \<Rightarrow> string list option \<Rightarrow> bool" where
  "snippets_known m snippets \<longleftrightarrow> (\<forall>names. snippets = Some names \<longrightarrow> (\<forall>n \<in> set names. snippet_content m n \<noteq> None))"

definition notes_of :: "matrix \<Rightarrow> string option \<Rightarrow> string list option \<Rightarrow> string option" where
  "notes_of m notes snippets = merge_notes notes (map_option (map (\<lambda>n. the (snippet_content m n))) snippets)"

definition builder_resolves :: "matrix \<Rightarrow> string \<Rightarrow> bool" where
  "builder_resolves m n \<longleftrightarrow>
     (\<exists>b c. map_of (mx_builders m) n = Some b \<and> map_of (mx_chips m) (bi_chip b) = Some c \<and>
        snippets_known m (bi_note_snippets b) \<and>
        (\<forall>fi \<in> set (mx_functionalities m). cell m fi (effective_support b c fi) \<noteq> None))"

definition builder_reference :: "matrix \<Rightarrow> string \<Rightarrow> laze_builder" where
  "builder_reference m n =
     (let b = the (map_of (mx_builders m) n); c = the (map_of (mx_chips m) (bi_chip b)) in
      \<lparr>lb_chip = ci_name c, lb_chip_technical_name = bi_chip b, lb_chip_doc = ''chips/'' @ bi_chip b @ ''.html'',
       lb_tier = bi_tier b, lb_technical_name = n,
       lb_functionalities = map (\<lambda>fi. the (cell m fi (effective_support b c fi))) (mx_functionalities m),
       lb_notes = notes_of m (bi_notes b) (bi_note_snippets b)\<rparr>)"

definition board_reference :: "(string \<Rightarrow> string) \<Rightarrow> matrix \<Rightarrow> board_info \<Rightarrow> board_page" where
  "board_reference slugify m board =
     \<lparr>bp_url = bo_url board, bp_board_doc = ''boards/'' @ slugify (bo_name board) @ ''.html'',
      bp_name = bo_name board, bp_builders = map (builder_reference m) (bo_builders board)\<rparr>"

definition chip_resolves :: "matrix \<Rightarrow> string \<times> chip_info \<Rightarrow> bool" where
  "chip_resolves m = (\<lambda>(n, c). snippets_known m (ci_note_snippets c) \<and>
     (\<forall>fi \<in> set (mx_functionalities m). cell m fi (chip_support m n c fi) \<noteq> None))"

definition chip_reference :: "matrix \<Rightarrow> string \<times> chip_info \<Rightarrow> chip_page" where
  "chip_reference m = (\<lambda>(n, c).
     \<lparr>cp_technical_name = n, cp_name = ci_name c,
      cp_functionalities = map (\<lambda>fi. the (cell m fi (chip_support m n c fi))) (mx_functionalities m),
      cp_notes = notes_of m (ci_notes c) (ci_note_snippets c)\<rparr>)"

lemma find_snippet_spec: "find_snippet m n = Inr y \<longleftrightarrow> snippet_content m n \<noteq> None \<and> y = the (snippet_content m n)"
  by (auto simp: find_snippet_def snippet_content_def split: option.splits)

lemma resolve_snippets_spec [book_simps]:
  "resolve_snippets m snippets = Inr y \<longleftrightarrow>
     snippets_known m snippets \<and> y = map_option (map (\<lambda>n. the (snippet_content m n))) snippets"
  by (cases snippets)
    (auto simp: resolve_snippets_def snippets_known_def panic_simps collect_all_spec[OF find_snippet_spec])

lemma cell_Some: "cell m fi info = Some y \<longleftrightarrow>
    (\<exists>i key. info = Some i \<and> find_support_key m (support_status i) = Some key \<and> y = functionality_support_of fi key i)"
  by (cases info) (auto simp: cell_def)

lemma builder_functionality_spec:
  "builder_functionality m board b c fi = Inr y \<longleftrightarrow>
     cell m fi (effective_support b c fi) \<noteq> None \<and> y = the (cell m fi (effective_support b c fi))"
proof -
  have "builder_functionality m board b c fi = Inr y \<longleftrightarrow> cell m fi (effective_support b c fi) = Some y"
    by (auto simp: builder_functionality_def Let_def panic_simps book_simps cell_Some effective_support_def map_add_def
        split: option.splits)
  then show ?thesis
    by auto
qed

lemma get_chip_support_spec:
  "get_chip_functionality_support n f builders =
     (if \<exists>b \<in> snd ` set builders. supports n f b
      then Some (StatusOnly ''supported'') else None)"
proof -
  have "list_ex (\<lambda>(_, info). case map_of (bi_support info) f of
        Some s \<Rightarrow> support_status s = ''supported'' \<or> support_status s = ''supported_with_caveats''
      | None \<Rightarrow> False) (filter (\<lambda>(_, info). bi_chip info = n) builders) \<longleftrightarrow>
    (\<exists>b \<in> snd ` set builders. supports n f b)"
    by (induction builders) (auto simp: supports_def split: option.splits)
  then show ?thesis
    by (simp add: get_chip_functionality_support_def)
qed

lemma chip_functionality_spec:
  "chip_functionality m n c fi = Inr y \<longleftrightarrow>
     cell m fi (chip_support m n c fi) \<noteq> None \<and> y = the (cell m fi (chip_support m n c fi))"
proof -
  have "chip_functionality m n c fi = Inr y \<longleftrightarrow> cell m fi (chip_support m n c fi) = Some y"
    unfolding chip_functionality_def chip_support_def get_chip_support_spec
    by (auto simp: panic_simps book_simps cell_Some)
  then show ?thesis
    by auto
qed

lemma builder_page_spec: "builder_page m board n = Inr y \<longleftrightarrow> builder_resolves m n \<and> y = builder_reference m n"
  unfolding builder_page_def builder_resolves_def builder_reference_def
  by (auto simp: panic_simps book_simps collect_all_spec[OF builder_functionality_spec] notes_of_def)

lemma chip_page_spec: "chip_page_of m c = Inr y \<longleftrightarrow> chip_resolves m c \<and> y = chip_reference m c"
  unfolding chip_page_of_def chip_resolves_def chip_reference_def
  by (cases c) (auto simp: panic_simps book_simps collect_all_spec[OF chip_functionality_spec] notes_of_def)

lemma page_errors:
  "builder_page m board n \<noteq> Inl []" "chip_page_of m c \<noteq> Inl []" "board_page_of slugify m board \<noteq> Inl []"
  by (auto simp: builder_page_def chip_page_of_def board_page_of_def resolve_snippets_def panic_simps book_simps
      split: option.splits prod.splits)

lemma board_page_spec:
  "board_page_of slugify m board = Inr y \<longleftrightarrow>
     (\<forall>n \<in> set (bo_builders board). builder_resolves m n) \<and> y = board_reference slugify m board"
  unfolding board_page_of_def board_reference_def
  by (auto simp: panic_simps collect_flat_spec[OF builder_page_spec page_errors(1)])

lemma or_issues_Inr [book_simps]: "or_issues r = Inr y \<longleftrightarrow> r = Inr y"
  by (auto simp: or_issues_def split: sum.splits)

lemma boards_resolve_iff:
  "gen_board_functionalities slugify m = Inr pages \<longleftrightarrow>
     (\<forall>board \<in> set (mx_boards m). \<forall>n \<in> set (bo_builders board). builder_resolves m n) \<and>
     pages = map (board_reference slugify m) (mx_boards m)"
  unfolding gen_board_functionalities_def
  by (simp add: book_simps collect_flat_spec[OF board_page_spec page_errors(3)])

text \<open>
  C26: The boards are resolved exactly when every builder of a board is known, with its chip and its note
  snippets, and every functionality has a support status that is known, of the builder itself or
  else inherited from the chip; and the pages then show exactly those, one cell for each builder and
  functionality, in the order of the input.
\<close>

theorem boards_resolved:
  "gen_board_functionalities slugify m = Inr pages \<longleftrightarrow>
     (\<forall>board \<in> set (mx_boards m). \<forall>n \<in> set (bo_builders board). builder_resolves m n) \<and>
     pages = map (board_reference slugify m) (mx_boards m)"
  by (rule boards_resolve_iff)

text \<open>Likewise for the chips, which inherit from their builders that a functionality is supported.\<close>

lemma chips_resolved:
  "gen_chip_functionalities m = Inr pages \<longleftrightarrow>
     (\<forall>c \<in> set (mx_chips m). chip_resolves m c) \<and> pages = map (chip_reference m) (mx_chips m)"
  unfolding gen_chip_functionalities_def
  by (simp add: book_simps collect_flat_spec[OF chip_page_spec page_errors(2)])

section \<open>The order of the hash maps\<close>

text \<open>
  Each process iterates its hash maps in an order of its own.  Two matrices read from one file are
  \<open>matrix_same\<close>: their maps have the same entries.
\<close>

definition hash_same :: "('v \<Rightarrow> 'v \<Rightarrow> bool) \<Rightarrow> 'v hash_map \<Rightarrow> 'v hash_map \<Rightarrow> bool" where
  "hash_same R h h' \<longleftrightarrow>
     distinct (map fst h) \<and> distinct (map fst h') \<and> (\<forall>k. rel_option R (map_of h k) (map_of h' k))"

definition chip_same :: "chip_info \<Rightarrow> chip_info \<Rightarrow> bool" where
  "chip_same c c' \<longleftrightarrow> hash_same (=) (ci_support c) (ci_support c') \<and> c\<lparr>ci_support := []\<rparr> = c'\<lparr>ci_support := []\<rparr>"

definition builder_same :: "builder_info \<Rightarrow> builder_info \<Rightarrow> bool" where
  "builder_same b b' \<longleftrightarrow> hash_same (=) (bi_support b) (bi_support b') \<and> b\<lparr>bi_support := []\<rparr> = b'\<lparr>bi_support := []\<rparr>"

definition matrix_same :: "matrix \<Rightarrow> matrix \<Rightarrow> bool" where
  "matrix_same m m' \<longleftrightarrow>
     hash_same chip_same (mx_chips m) (mx_chips m') \<and> hash_same builder_same (mx_builders m) (mx_builders m') \<and>
     m\<lparr>mx_chips := [], mx_builders := []\<rparr> = m'\<lparr>mx_chips := [], mx_builders := []\<rparr>"

lemma hash_same_eq: "hash_same (=) h h' \<Longrightarrow> map_of h = map_of h'"
  by (simp add: hash_same_def option.rel_eq fun_eq_iff)

lemma chip_sameD:
  "chip_same c c' \<Longrightarrow> map_of (ci_support c) = map_of (ci_support c') \<and> ci_name c = ci_name c' \<and> ci_notes c = ci_notes c' \<and>
     ci_note_snippets c = ci_note_snippets c' \<and> ci_manufacturer c = ci_manufacturer c'"
  by (cases c; cases c') (simp add: chip_same_def hash_same_eq)

lemma builder_sameD:
  "builder_same b b' \<Longrightarrow> map_of (bi_support b) = map_of (bi_support b') \<and> bi_chip b = bi_chip b' \<and> bi_tier b = bi_tier b' \<and>
     bi_notes b = bi_notes b' \<and> bi_note_snippets b = bi_note_snippets b'"
  by (cases b; cases b') (simp add: builder_same_def hash_same_eq)

lemma matrix_sameD:
  assumes "matrix_same m m'"
  shows "mx_support_keys m = mx_support_keys m'" "mx_functionalities m = mx_functionalities m'"
    "mx_note_snippets m = mx_note_snippets m'" "mx_boards m = mx_boards m'"
    "hash_same chip_same (mx_chips m) (mx_chips m')" "hash_same builder_same (mx_builders m) (mx_builders m')"
  using assms by (cases m; cases m'; simp add: matrix_same_def)+

lemma lookups_same:
  assumes "matrix_same m m'"
  shows "find_support_key m = find_support_key m'" "snippet_content m = snippet_content m'"
    "find_snippet m = find_snippet m'" "resolve_snippets m = resolve_snippets m'"
    "snippets_known m = snippets_known m'" "cell m = cell m'" "notes_of m = notes_of m'"
proof -
  note same = matrix_sameD[OF assms]
  show key: "find_support_key m = find_support_key m'" and content: "snippet_content m = snippet_content m'"
    by (simp_all add: fun_eq_iff find_support_key_def snippet_content_def same)
  show snippet: "find_snippet m = find_snippet m'"
    by (simp add: fun_eq_iff find_snippet_def same)
  show "resolve_snippets m = resolve_snippets m'" "snippets_known m = snippets_known m'" "cell m = cell m'" "notes_of m = notes_of m'"
    by (simp_all add: fun_eq_iff resolve_snippets_def snippets_known_def cell_def notes_of_def key content snippet split: option.split)
qed

lemma builder_functionality_same:
  assumes "matrix_same m m'" "builder_same b b'" "chip_same c c'"
  shows "builder_functionality m board b c fi = builder_functionality m' board b' c' fi"
  using builder_sameD[OF assms(2)] chip_sameD[OF assms(3)]
  unfolding builder_functionality_def by (simp add: lookups_same(1)[OF assms(1)] cong: option.case_cong)

lemma builder_page_same:
  assumes "matrix_same m m'"
  shows "builder_page m board n = builder_page m' board n"
proof -
  note same = matrix_sameD[OF assms]
  have b: "rel_option builder_same (map_of (mx_builders m) n) (map_of (mx_builders m') n)"
    using same(6) by (simp add: hash_same_def)
  have c: "rel_option chip_same (map_of (mx_chips m) k) (map_of (mx_chips m') k)" for k
    using same(5) by (simp add: hash_same_def)
  show ?thesis
    using b
  proof (cases rule: option.rel_cases)
    case (Some b b')
    note eqs = builder_sameD[OF Some(3)]
    show ?thesis
      using c[of "bi_chip b"]
    proof (cases rule: option.rel_cases)
      case s: (Some c c')
      have fn_eq: "builder_functionality m board b c = builder_functionality m' board b' c'"
        by (rule ext) (rule builder_functionality_same[OF assms Some(3) s(3)])
      from s show ?thesis
        using Some eqs chip_sameD[OF s(3)] same(2)
        by (simp add: builder_page_def lookups_same(4)[OF assms] fn_eq cong: map_cong)
    qed (use Some eqs in \<open>simp add: builder_page_def\<close>)
  qed (simp add: builder_page_def)
qed

lemma boards_same: "matrix_same m m' \<Longrightarrow> gen_board_functionalities slugify m = gen_board_functionalities slugify m'"
  by (simp add: gen_board_functionalities_def board_page_of_def builder_page_same matrix_sameD(4) fun_eq_iff cong: map_cong)

lemma hash_values:
  assumes "distinct (map fst h)"
  shows "(\<exists>v \<in> snd ` set h. P v) \<longleftrightarrow> (\<exists>k v. map_of h k = Some v \<and> P v)"
  using map_of_eq_Some_iff[OF assms] by (auto simp: Bex_def)

lemma hash_ex_same:
  assumes "hash_same R h h'" "\<And>v v'. R v v' \<Longrightarrow> P v \<longleftrightarrow> P' v'"
  shows "(\<exists>v. map_of h k = Some v \<and> P v) \<longleftrightarrow> (\<exists>v. map_of h' k = Some v \<and> P' v)"
proof -
  have "rel_option R (map_of h k) (map_of h' k)"
    using assms(1) by (simp add: hash_same_def)
  then show ?thesis
    using assms(2) by (cases rule: option.rel_cases) auto
qed

lemma chip_support_same:
  assumes "matrix_same m m'" "chip_same c c'"
  shows "chip_support m n c fi = chip_support m' n c' fi"
proof -
  note b = matrix_sameD(6)[OF assms(1)]
  have "(\<exists>b \<in> snd ` set (mx_builders m). supports n (fn_name fi) b) \<longleftrightarrow>
      (\<exists>k b. map_of (mx_builders m) k = Some b \<and> supports n (fn_name fi) b)"
    using b by (intro hash_values) (simp add: hash_same_def)
  also have "\<dots> \<longleftrightarrow> (\<exists>k b. map_of (mx_builders m') k = Some b \<and> supports n (fn_name fi) b)"
    by (intro ex_cong1 hash_ex_same[OF b]) (simp add: builder_sameD supports_def)
  also have "\<dots> \<longleftrightarrow> (\<exists>b \<in> snd ` set (mx_builders m'). supports n (fn_name fi) b)"
    using b by (intro hash_values[symmetric]) (simp add: hash_same_def)
  finally show ?thesis
    using chip_sameD[OF assms(2)] by (simp only: chip_support_def)
qed

lemma chip_reference_same:
  assumes "matrix_same m m'" "chip_same c c'"
  shows "chip_reference m (n, c) = chip_reference m' (n, c')" "chip_resolves m (n, c) \<longleftrightarrow> chip_resolves m' (n, c')"
  using chip_sameD[OF assms(2)] chip_support_same[OF assms]
  by (simp_all add: chip_reference_def chip_resolves_def lookups_same[OF assms(1)] matrix_sameD(2)[OF assms(1)])

lemma mset_hash:
  assumes "distinct (map fst h)"
  shows "mset (map f h) = image_mset (\<lambda>k. f (k, the (map_of h k))) (mset_set (dom (map_of h)))"
proof -
  have "map f h = map (\<lambda>k. f (k, the (map_of h k))) (map fst h)"
    using assms by auto
  then have "mset (map f h) = image_mset (\<lambda>k. f (k, the (map_of h k))) (mset (map fst h))"
    by (metis mset_map)
  also have "mset (map fst h) = mset_set (dom (map_of h))"
    using assms by (metis dom_map_of_conv_image_fst mset_set_set set_map)
  finally show ?thesis .
qed

lemma hash_image_same:
  assumes "hash_same R h h'" "\<And>k v v'. R v v' \<Longrightarrow> f (k, v) = f' (k, v')"
  shows "mset (map f h) = mset (map f' h')"
proof -
  have r: "rel_option R (map_of h k) (map_of h' k)" for k
    using assms(1) by (simp add: hash_same_def)
  have "map_of h k = None \<longleftrightarrow> map_of h' k = None" for k
    using r[of k] by (auto elim: option.rel_cases)
  then have "dom (map_of h) = dom (map_of h')"
    by (simp add: dom_def)
  moreover have "f (k, the (map_of h k)) = f' (k, the (map_of h' k))" if "k \<in> dom (map_of h)" for k
    using r[of k] that assms(2) by (auto elim: option.rel_cases)
  ultimately show ?thesis
    using assms(1) finite_dom_map_of[of h']
    by (simp add: mset_hash hash_same_def del: mset_map) (auto intro: image_mset_cong)
qed

lemma chips_same:
  assumes "matrix_same m m'" "gen_chip_functionalities m = Inr pages"
  shows "\<exists>pages'. gen_chip_functionalities m' = Inr pages' \<and> mset pages' = mset pages"
proof -
  note c = matrix_sameD(5)[OF assms(1)] and ref = chip_reference_same[OF assms(1)]
  have "mset (map (chip_resolves m) (mx_chips m)) = mset (map (chip_resolves m') (mx_chips m'))"
    "mset (map (chip_reference m) (mx_chips m)) = mset (map (chip_reference m') (mx_chips m'))"
    by (auto intro!: hash_image_same[OF c] ref simp del: mset_map)
  moreover from this(1) have "chip_resolves m ` set (mx_chips m) = chip_resolves m' ` set (mx_chips m')"
    by (metis set_map set_mset_mset)
  ultimately show ?thesis
    using assms(2) by (simp add: chips_resolved) (metis (no_types, lifting) image_iff)
qed

text \<open>Validation accepts what names only functionalities that exist, in any order of the maps.\<close>

definition known_functionalities :: "matrix \<Rightarrow> support_info hash_map \<Rightarrow> bool" where
  "known_functionalities m support \<longleftrightarrow> dom (map_of support) \<subseteq> fn_name ` set (mx_functionalities m)"

lemma unknown_functionalities_Nil: "unknown_functionalities m support = [] \<longleftrightarrow> known_functionalities m support"
  unfolding unknown_functionalities_def known_functionalities_def filter_empty_conv dom_map_of_conv_image_fst
  by (fastforce simp: image_iff subset_iff)

lemma validated:
  "validate_input m = Inr x \<longleftrightarrow>
     (\<forall>b \<in> snd ` set (mx_builders m). known_functionalities m (bi_support b)) \<and>
     (\<forall>c \<in> snd ` set (mx_chips m). known_functionalities m (ci_support c))"
  by (simp add: validate_input_def Let_def unknown_functionalities_Nil split_beta)

lemma hash_ball_same:
  assumes "hash_same R h h'" "\<And>v v'. R v v' \<Longrightarrow> P v \<longleftrightarrow> P' v'"
  shows "(\<forall>v \<in> snd ` set h. P v) \<longleftrightarrow> (\<forall>v \<in> snd ` set h'. P' v)"
proof -
  have "(\<exists>v \<in> snd ` set h. \<not> P v) \<longleftrightarrow> (\<exists>k v. map_of h k = Some v \<and> \<not> P v)"
    using assms(1) by (intro hash_values) (simp add: hash_same_def)
  also have "\<dots> \<longleftrightarrow> (\<exists>k v. map_of h' k = Some v \<and> \<not> P' v)"
    by (intro ex_cong1 hash_ex_same[OF assms(1)]) (simp add: assms(2))
  also have "\<dots> \<longleftrightarrow> (\<exists>v \<in> snd ` set h'. \<not> P' v)"
    using assms(1) by (intro hash_values[symmetric]) (simp add: hash_same_def)
  finally show ?thesis
    by blast
qed

lemma validate_same:
  assumes "matrix_same m m'" "validate_input m = Inr x"
  shows "validate_input m' = Inr x"
proof -
  have k: "known_functionalities m s \<longleftrightarrow> known_functionalities m' s'" if "map_of s = map_of s'" for s s'
    using that by (simp add: known_functionalities_def matrix_sameD(2)[OF assms(1)])
  have "(\<forall>c \<in> snd ` set (mx_chips m). known_functionalities m (ci_support c)) \<longleftrightarrow>
      (\<forall>c \<in> snd ` set (mx_chips m'). known_functionalities m' (ci_support c))"
    by (rule hash_ball_same[OF matrix_sameD(5)[OF assms(1)]]) (simp add: k chip_sameD)
  moreover have "(\<forall>b \<in> snd ` set (mx_builders m). known_functionalities m (bi_support b)) \<longleftrightarrow>
      (\<forall>b \<in> snd ` set (mx_builders m'). known_functionalities m' (bi_support b))"
    by (rule hash_ball_same[OF matrix_sameD(6)[OF assms(1)]]) (simp add: k builder_sameD)
  ultimately show ?thesis
    using assms(2) by (simp only: validated)
qed

end
