(* ===== verification/Book.thy ===== *)
theory Book
  imports SupportMatrix
begin

section \<open>The generator of the book (\<open>doc/gen_book.rs\<close>)\<close>

text \<open>
  Each command renders a template with a part of the support matrix, and either writes the result to
  a file or, with \<open>--check\<close>, compares it with the file.  The file system, the template engine
  \<open>minijinja\<close>, the YAML parser, \<open>slugify\<close> and the Unicode case mapping are a record of functions; so
  are the two uses of \<open>sort_unstable_by_key\<close>, which leaves the order of equal keys open.  The parser
  has a further argument, the random seed of the process, which orders the hash maps.
\<close>

record chip_index =
  cx_name :: string
  cx_technical_name :: string
  cx_manufacturer :: string

datatype book_context =
    MatrixContext matrix "board_page list" string
  | BoardListContext "board_info list"
  | ChipListContext "chip_index list"
  | SummaryContext "board_info list" "chip_info hash_map"
  | BoardPageContext board_page "support_key_info list"
  | ChipPageContext chip_page "support_key_info list" string

record 'f book_env =
  fs_read :: "'f \<Rightarrow> string \<Rightarrow> io_error + string"
  fs_write :: "'f \<Rightarrow> string \<Rightarrow> string \<Rightarrow> 'f \<times> (io_error + unit)"
  compiles :: "string \<Rightarrow> bool"
  render :: "string \<Rightarrow> book_context \<Rightarrow> string option"
  parse_yaml :: "nat \<Rightarrow> string \<Rightarrow> nat option + matrix"
  slugify :: "string \<Rightarrow> string"
  to_lowercase :: "string \<Rightarrow> string"
  sort_builders :: "(laze_builder \<Rightarrow> string) \<Rightarrow> laze_builder list \<Rightarrow> laze_builder list"
  sort_boards :: "(board_page \<Rightarrow> string \<times> string) \<Rightarrow> board_page list \<Rightarrow> board_page list"

record book_args =
  ba_check :: bool
  ba_template_path :: string
  ba_input_path :: string
  ba_output_path :: string

datatype subcommand =
    MatrixCmd book_args
  | ListCmd book_args
  | ChipIndexCmd book_args
  | SummaryCmd book_args
  | BoardPagesCmd book_args
  | ChipPagesCmd book_args string  \<comment> \<open>the second template is that of the matrix\<close>

fun input_path :: "subcommand \<Rightarrow> string" where
  "input_path (MatrixCmd a) = ba_input_path a"
| "input_path (ListCmd a) = ba_input_path a"
| "input_path (ChipIndexCmd a) = ba_input_path a"
| "input_path (SummaryCmd a) = ba_input_path a"
| "input_path (BoardPagesCmd a) = ba_input_path a"
| "input_path (ChipPagesCmd a _) = ba_input_path a"

subsection \<open>Steps that may fail or panic\<close>

datatype stop = Failed book_error | Panicked panic

fun sbnd :: "'f \<times> (stop + 'a) \<Rightarrow> ('f \<Rightarrow> 'a \<Rightarrow> 'f \<times> (stop + 'b)) \<Rightarrow> 'f \<times> (stop + 'b)" where
  "sbnd (fs, Inl e) k = (fs, Inl e)"
| "sbnd (fs, Inr v) k = k fs v"

fun or_fail :: "book_error + 'a \<Rightarrow> stop + 'a" where
  "or_fail (Inl e) = Inl (Failed e)"
| "or_fail (Inr v) = Inr v"

fun or_panic :: "panic + 'a \<Rightarrow> stop + 'a" where
  "or_panic (Inl p) = Inl (Panicked p)"
| "or_panic (Inr v) = Inr v"

fun for_each :: "('f \<Rightarrow> 'a \<Rightarrow> 'f \<times> (stop + unit)) \<Rightarrow> 'f \<Rightarrow> 'a list \<Rightarrow> 'f \<times> (stop + unit)" where
  "for_each body fs [] = (fs, Inr ())"
| "for_each body fs (x # xs) = sbnd (body fs x) (\<lambda>fs _. for_each body fs xs)"

definition read_template :: "'f book_env \<Rightarrow> string \<Rightarrow> 'f \<Rightarrow> 'f \<times> (stop + string)" where
  "read_template env path fs =
     (case fs_read env fs path of
        Inl source \<Rightarrow> (fs, Inl (Failed (SummaryTemplateFile path source)))
      | Inr text \<Rightarrow> (fs, Inr text))"

definition render_template :: "'f book_env \<Rightarrow> string \<Rightarrow> book_context \<Rightarrow> stop + string" where
  "render_template env tmpl ctx =
     (if \<not> compiles env tmpl then Inl (Panicked UnwrapNone)
      else case render env tmpl ctx of None \<Rightarrow> Inl (Panicked UnwrapNone) | Some text \<Rightarrow> Inr text)"

definition publish :: "'f book_env \<Rightarrow> bool \<Rightarrow> (string \<Rightarrow> book_error) \<Rightarrow> string \<Rightarrow> string \<Rightarrow> 'f \<Rightarrow> 'f \<times> (stop + unit)" where
  "publish env check not_up_to_date path text fs =
     (if check then
        (case fs_read env fs path of
           Inl source \<Rightarrow> (fs, Inl (Failed (ReadingExistingFile path source)))
         | Inr existing \<Rightarrow> if existing \<noteq> text then (fs, Inl (Failed (not_up_to_date path))) else (fs, Inr ()))
      else
        (case fs_write env fs path text of
           (fs, Inl source) \<Rightarrow> (fs, Inl (Failed (WritingOutputFile path source)))
         | (fs, Inr _) \<Rightarrow> (fs, Inr ())))"

subsection \<open>Paths\<close>

text \<open>
  \<open>join\<close> and \<open>set_extension\<close> of \<open>std::path::Path\<close>.  A path without a file name (\<open>/\<close>, or one that ends
  in \<open>..\<close>) is left as it is; the extension replaces what follows the last dot of the file name,
  unless that dot is its first character.
\<close>

definition path_join :: "string \<Rightarrow> string \<Rightarrow> string" where
  "path_join p s =
     (if take 1 s = ''/'' then s
      else if p = [] \<or> last p = CHR ''/'' then p @ s
      else p @ ''/'' @ s)"

text \<open>On the reversed path: trailing slashes and \<open>.\<close> components.\<close>

fun trim_end :: "string \<Rightarrow> string" where
  "trim_end (c # cs) =
     (if c = CHR ''/'' \<or> (c = CHR ''.'' \<and> take 1 cs = ''/'') then trim_end cs else c # cs)"
| "trim_end [] = []"

definition set_extension_md :: "string \<Rightarrow> string" where
  "set_extension_md p =
     (let r = trim_end (rev p);
          name = takeWhile (\<lambda>c. c \<noteq> CHR ''/'') r;
          dir = dropWhile (\<lambda>c. c \<noteq> CHR ''/'') r;
          after = takeWhile (\<lambda>c. c \<noteq> CHR ''.'') name;
          before = drop (length after + 1) name in
      if name = [] \<or> name = ''.'' \<or> name = ''..'' then p
      else rev ((if before = [] then name else before) @ dir) @ ''.md'')"

definition page_path :: "string \<Rightarrow> string \<Rightarrow> string" where
  "page_path output name = set_extension_md (path_join output name)"

subsection \<open>The commands\<close>

fun min_by_key :: "('a \<Rightarrow> 'k :: linorder) \<Rightarrow> 'a list \<Rightarrow> 'a option" where
  "min_by_key key [] = None"
| "min_by_key key (x # xs) = Some (fold (\<lambda>y m. if key y < key m then y else m) xs x)"

text \<open>Sorting calls the key function when there are at least two boards.\<close>

definition sort_by_tier :: "'f book_env \<Rightarrow> board_page list \<Rightarrow> panic + board_page list" where
  "sort_by_tier env board_info =
     (let board_info = map (\<lambda>board. board\<lparr>bp_builders := sort_builders env lb_tier (bp_builders board)\<rparr>) board_info in
      if 2 \<le> length board_info \<and> (\<exists>board \<in> set board_info. min_by_key lb_tier (bp_builders board) = None)
      then Inl UnwrapNone
      else Inr (sort_boards env
        (\<lambda>board. (lb_tier (the (min_by_key lb_tier (bp_builders board))), to_lowercase env (bp_name board))) board_info))"

definition run_matrix :: "'f book_env \<Rightarrow> book_args \<Rightarrow> matrix \<Rightarrow> 'f \<Rightarrow> 'f \<times> (stop + unit)" where
  "run_matrix env a m fs =
     sbnd (read_template env (ba_template_path a) fs) (\<lambda>fs matrix_template.
     sbnd (fs, or_fail (gen_board_functionalities (slugify env) m)) (\<lambda>fs board_info.
     sbnd (fs, or_panic (sort_by_tier env board_info)) (\<lambda>fs board_info.
     sbnd (fs, render_template env matrix_template (MatrixContext m board_info [])) (\<lambda>fs matrix_html.
     publish env (ba_check a) ExistingHtmlNotUpToDate (ba_output_path a) matrix_html fs))))"

definition run_list :: "'f book_env \<Rightarrow> book_args \<Rightarrow> matrix \<Rightarrow> 'f \<Rightarrow> 'f \<times> (stop + unit)" where
  "run_list env a m fs =
     sbnd (read_template env (ba_template_path a) fs) (\<lambda>fs board_index_template.
     sbnd (fs, render_template env board_index_template (BoardListContext (mx_boards m))) (\<lambda>fs board_index_md.
     publish env (ba_check a) ExistingMarkdownNotUpToDate (ba_output_path a) board_index_md fs))"

definition chip_index_of :: "matrix \<Rightarrow> chip_index list" where
  "chip_index_of m =
     map (\<lambda>(k, v). \<lparr>cx_name = ci_name v, cx_technical_name = k, cx_manufacturer = ci_manufacturer v\<rparr>) (mx_chips m)"

definition run_chip_index :: "'f book_env \<Rightarrow> book_args \<Rightarrow> matrix \<Rightarrow> 'f \<Rightarrow> 'f \<times> (stop + unit)" where
  "run_chip_index env a m fs =
     sbnd (read_template env (ba_template_path a) fs) (\<lambda>fs chip_index_template.
     sbnd (fs, render_template env chip_index_template (ChipListContext (chip_index_of m))) (\<lambda>fs chip_index_md.
     publish env (ba_check a) ExistingMarkdownNotUpToDate (ba_output_path a) chip_index_md fs))"

definition run_summary :: "'f book_env \<Rightarrow> book_args \<Rightarrow> matrix \<Rightarrow> 'f \<Rightarrow> 'f \<times> (stop + unit)" where
  "run_summary env a m fs =
     sbnd (read_template env (ba_template_path a) fs) (\<lambda>fs summary_template.
     sbnd (fs, render_template env summary_template (SummaryContext (mx_boards m) (mx_chips m))) (\<lambda>fs summary_md.
     publish env (ba_check a) ExistingMarkdownNotUpToDate (ba_output_path a) summary_md fs))"

definition run_board_pages :: "'f book_env \<Rightarrow> book_args \<Rightarrow> matrix \<Rightarrow> 'f \<Rightarrow> 'f \<times> (stop + unit)" where
  "run_board_pages env a m fs =
     sbnd (read_template env (ba_template_path a) fs) (\<lambda>fs board_page_template.
     sbnd (fs, or_fail (gen_board_functionalities (slugify env) m)) (\<lambda>fs board_info.
     for_each (\<lambda>fs board.
       sbnd (fs, render_template env board_page_template (BoardPageContext board (mx_support_keys m))) (\<lambda>fs board_page.
       publish env (ba_check a) ExistingMarkdownNotUpToDate (page_path (ba_output_path a) (slugify env (bp_name board)))
         board_page fs)) fs board_info))"

definition current_boards :: "chip_page \<Rightarrow> board_page list \<Rightarrow> board_page list" where
  "current_boards chip board_info =
     concat (map (\<lambda>b. let builders = filter (\<lambda>x. lb_chip_technical_name x = cp_technical_name chip) (bp_builders b) in
       if 0 < length builders then [b\<lparr>bp_builders := builders\<rparr>] else []) board_info)"

definition board_matrix_html :: "'f book_env \<Rightarrow> string \<Rightarrow> matrix \<Rightarrow> board_page list \<Rightarrow> chip_page \<Rightarrow> stop + string" where
  "board_matrix_html env matrix_template m board_info chip =
     (let boards = current_boards chip board_info in
      if length boards = 0 then Inr []
      else render_template env matrix_template (MatrixContext m boards ''../''))"

definition chip_page_md :: "'f book_env \<Rightarrow> string \<Rightarrow> string \<Rightarrow> matrix \<Rightarrow> board_page list \<Rightarrow> chip_page \<Rightarrow> stop + string" where
  "chip_page_md env matrix_template chip_page_template m board_info chip =
     bnd (board_matrix_html env matrix_template m board_info chip) (\<lambda>html.
     render_template env chip_page_template (ChipPageContext chip (mx_support_keys m) html))"

definition run_chip_pages :: "'f book_env \<Rightarrow> book_args \<Rightarrow> string \<Rightarrow> matrix \<Rightarrow> 'f \<Rightarrow> 'f \<times> (stop + unit)" where
  "run_chip_pages env a matrix_template_path m fs =
     sbnd (read_template env matrix_template_path fs) (\<lambda>fs matrix_template.
     sbnd (read_template env (ba_template_path a) fs) (\<lambda>fs chip_page_template.
     sbnd (fs, or_fail (gen_chip_functionalities m)) (\<lambda>fs chip_info.
     sbnd (fs, or_fail (gen_board_functionalities (slugify env) m)) (\<lambda>fs board_info.
     sbnd (fs, or_panic (sort_by_tier env board_info)) (\<lambda>fs board_info.
     for_each (\<lambda>fs chip.
       sbnd (fs, chip_page_md env matrix_template chip_page_template m board_info chip) (\<lambda>fs chip_page.
       publish env (ba_check a) ExistingMarkdownNotUpToDate (page_path (ba_output_path a) (cp_technical_name chip))
         chip_page fs)) fs chip_info)))))"

fun subcommand_run :: "'f book_env \<Rightarrow> subcommand \<Rightarrow> matrix \<Rightarrow> 'f \<Rightarrow> 'f \<times> (stop + unit)" where
  "subcommand_run env (MatrixCmd a) m fs = run_matrix env a m fs"
| "subcommand_run env (ListCmd a) m fs = run_list env a m fs"
| "subcommand_run env (ChipIndexCmd a) m fs = run_chip_index env a m fs"
| "subcommand_run env (SummaryCmd a) m fs = run_summary env a m fs"
| "subcommand_run env (BoardPagesCmd a) m fs = run_board_pages env a m fs"
| "subcommand_run env (ChipPagesCmd a mt) m fs = run_chip_pages env a mt m fs"

definition book_main :: "'f book_env \<Rightarrow> nat \<Rightarrow> subcommand \<Rightarrow> 'f \<Rightarrow> 'f \<times> (stop + unit)" where
  "book_main env seed cmd fs =
     (case fs_read env fs (input_path cmd) of
        Inl source \<Rightarrow> (fs, Inl (Failed (InputFile (input_path cmd) source)))
      | Inr input_file \<Rightarrow>
          (case parse_yaml env seed input_file of
             Inl location \<Rightarrow>
               (fs, Inl (case location of
                  None \<Rightarrow> Panicked UnwrapNone
                | Some index \<Rightarrow> Failed (Parsing (input_path cmd) input_file index)))
           | Inr m \<Rightarrow>
               sbnd (fs, or_fail (validate_input m)) (\<lambda>fs _. subcommand_run env cmd m fs)))"

section \<open>What is generated is accepted\<close>

text \<open>
  What the generator relies on: a file that was written reads back, and other files keep their
  contents (\<open>same p q\<close> says that two paths may name one file); parsing does not depend on the seed up
  to the order of hash maps.  A template is stable when it does not show that order, either.
\<close>

definition book_env_ok :: "'f book_env \<Rightarrow> (string \<Rightarrow> string \<Rightarrow> bool) \<Rightarrow> bool" where
  "book_env_ok env same \<longleftrightarrow>
     (\<forall>fs p s fs'. fs_write env fs p s = (fs', Inr ()) \<longrightarrow>
        fs_read env fs' p = Inr s \<and> (\<forall>q. \<not> same p q \<longrightarrow> fs_read env fs' q = fs_read env fs q)) \<and>
     (\<forall>seed seed' text m. parse_yaml env seed text = Inr m \<longrightarrow>
        (\<exists>m'. parse_yaml env seed' text = Inr m' \<and> matrix_same m m'))"

definition stable_templates :: "'f book_env \<Rightarrow> bool" where
  "stable_templates env \<longleftrightarrow>
     (\<forall>tmpl m m' boards url. matrix_same m m' \<longrightarrow>
        render env tmpl (MatrixContext m boards url) = render env tmpl (MatrixContext m' boards url)) \<and>
     (\<forall>tmpl m m' boards. matrix_same m m' \<longrightarrow>
        render env tmpl (SummaryContext boards (mx_chips m)) = render env tmpl (SummaryContext boards (mx_chips m'))) \<and>
     (\<forall>tmpl chips chips'. mset chips = mset chips' \<longrightarrow>
        render env tmpl (ChipListContext chips) = render env tmpl (ChipListContext chips'))"

fun with_check :: "subcommand \<Rightarrow> subcommand" where
  "with_check (MatrixCmd a) = MatrixCmd (a\<lparr>ba_check := True\<rparr>)"
| "with_check (ListCmd a) = ListCmd (a\<lparr>ba_check := True\<rparr>)"
| "with_check (ChipIndexCmd a) = ChipIndexCmd (a\<lparr>ba_check := True\<rparr>)"
| "with_check (SummaryCmd a) = SummaryCmd (a\<lparr>ba_check := True\<rparr>)"
| "with_check (BoardPagesCmd a) = BoardPagesCmd (a\<lparr>ba_check := True\<rparr>)"
| "with_check (ChipPagesCmd a mt) = ChipPagesCmd (a\<lparr>ba_check := True\<rparr>) mt"

fun command_args :: "subcommand \<Rightarrow> book_args" where
  "command_args (MatrixCmd a) = a"
| "command_args (ListCmd a) = a"
| "command_args (ChipIndexCmd a) = a"
| "command_args (SummaryCmd a) = a"
| "command_args (BoardPagesCmd a) = a"
| "command_args (ChipPagesCmd a mt) = a"

text \<open>The files a command reads and writes.\<close>

fun inputs :: "subcommand \<Rightarrow> string list" where
  "inputs (ChipPagesCmd a mt) = [ba_input_path a, ba_template_path a, mt]"
| "inputs cmd = [ba_input_path (command_args cmd), ba_template_path (command_args cmd)]"

fun outputs :: "'f book_env \<Rightarrow> subcommand \<Rightarrow> matrix \<Rightarrow> string list" where
  "outputs env (BoardPagesCmd a) m = map (\<lambda>b. page_path (ba_output_path a) (slugify env (bo_name b))) (mx_boards m)"
| "outputs env (ChipPagesCmd a mt) m = map (\<lambda>c. page_path (ba_output_path a) (fst c)) (mx_chips m)"
| "outputs env cmd m = [ba_output_path (command_args cmd)]"

lemma sbnd_Inr: "sbnd r k = (fs', Inr v) \<longleftrightarrow> (\<exists>fs w. r = (fs, Inr w) \<and> k fs w = (fs', Inr v))"
  by (cases "(r, k)" rule: sbnd.cases) auto

lemma read_template_Inr: "read_template env path fs = (fs', Inr text) \<longleftrightarrow> fs' = fs \<and> fs_read env fs path = Inr text"
  by (auto simp: read_template_def split: sum.splits)

lemma or_fail_Inr: "or_fail r = Inr v \<longleftrightarrow> r = Inr v"
  by (cases r) auto

lemma or_panic_Inr: "or_panic r = Inr v \<longleftrightarrow> r = Inr v"
  by (cases r) auto

lemmas step_simps = sbnd_Inr read_template_Inr or_fail_Inr or_panic_Inr

lemma book_env_okD:
  assumes "book_env_ok env same"
  shows "fs_write env fs p s = (fs', Inr u) \<Longrightarrow> fs_read env fs' p = Inr s"
    "fs_write env fs p s = (fs', Inr u) \<Longrightarrow> \<not> same p q \<Longrightarrow> fs_read env fs' q = fs_read env fs q"
    "parse_yaml env seed text = Inr m \<Longrightarrow> \<exists>m'. parse_yaml env seed' text = Inr m' \<and> matrix_same m m'"
  using assms by (simp_all add: book_env_ok_def)

lemma published:
  assumes ok: "book_env_ok env same" and "publish env False stale path text fs = (fs', Inr u)"
  shows "fs_read env fs' path = Inr text" "\<not> same path q \<Longrightarrow> fs_read env fs' q = fs_read env fs q"
    "publish env True stale' path text fs' = (fs', Inr ())"
  using assms(2) book_env_okD(1,2)[OF ok] by (auto simp: publish_def split: prod.splits sum.splits)

text \<open>A loop that renders and publishes a page for each item.\<close>

lemma for_each_published:
  assumes ok: "book_env_ok env same" and body: "body = (\<lambda>fs x. sbnd (fs, g x) (\<lambda>fs t. publish env False stale (p x) t fs))"
    and "for_each body fs xs = (fs', Inr u)" "sorted_wrt (\<lambda>x y. \<not> same (p y) (p x)) xs"
  shows "(\<forall>x \<in> set xs. \<exists>t. g x = Inr t \<and> fs_read env fs' (p x) = Inr t) \<and>
    (\<forall>q. (\<forall>x \<in> set xs. \<not> same (p x) q) \<longrightarrow> fs_read env fs' q = fs_read env fs q)"
  using assms(3,4)
proof (induction xs arbitrary: fs)
  case (Cons x xs)
  then obtain fs1 t where x: "g x = Inr t" "publish env False stale (p x) t fs = (fs1, Inr ())"
    and rest: "for_each body fs1 xs = (fs', Inr u)"
    by (auto simp: body step_simps)
  note IH = Cons.IH[OF rest] and here = published[OF ok x(2)]
  have "fs_read env fs' (p x) = Inr t"
    using IH here(1) Cons.prems(2) by auto
  then show ?case
    using IH here(2) Cons.prems(2) x(1) by auto
qed simp

lemma for_each_checked:
  assumes "\<And>x. x \<in> set xs \<Longrightarrow> \<exists>t. g x = Inr t \<and> fs_read env fs (p x) = Inr t"
  shows "for_each (\<lambda>fs x. sbnd (fs, g x) (\<lambda>fs t. publish env True stale (p x) t fs)) fs xs = (fs, Inr ())"
  using assms
proof (induction xs)
  case (Cons x xs)
  then obtain t where "g x = Inr t" "fs_read env fs (p x) = Inr t"
    by auto
  then show ?case
    using Cons by (simp add: publish_def)
qed simp

lemma render_same:
  assumes "stable_templates env" "matrix_same m m'"
  shows "render_template env t (MatrixContext m boards url) = render_template env t (MatrixContext m' boards url)"
    "render_template env t (SummaryContext bs (mx_chips m)) = render_template env t (SummaryContext bs (mx_chips m'))"
    "render_template env t (ChipListContext (chip_index_of m)) = render_template env t (ChipListContext (chip_index_of m'))"
proof -
  have "mset (chip_index_of m) = mset (chip_index_of m')"
    unfolding chip_index_of_def
    by (rule hash_image_same[OF matrix_sameD(5)[OF assms(2)]]) (simp add: chip_sameD)
  then show "render_template env t (ChipListContext (chip_index_of m)) = render_template env t (ChipListContext (chip_index_of m'))"
    using assms(1) unfolding stable_templates_def render_template_def by metis
  show "render_template env t (MatrixContext m boards url) = render_template env t (MatrixContext m' boards url)"
    "render_template env t (SummaryContext bs (mx_chips m)) = render_template env t (SummaryContext bs (mx_chips m'))"
    using assms unfolding stable_templates_def render_template_def by metis+
qed

lemma chip_page_md_same:
  assumes "stable_templates env" "matrix_same m m'"
  shows "chip_page_md env mt t m boards chip = chip_page_md env mt t m' boards chip"
  by (simp add: chip_page_md_def board_matrix_html_def Let_def render_same(1)[OF assms] matrix_sameD(1)[OF assms(2)])

lemma single_generated:
  assumes ok: "book_env_ok env same" and stable: "stable_templates env" and m: "matrix_same m m'"
    and run: "subcommand_run env cmd m fs = (fs', Inr u)" and nocheck: "\<not> ba_check (command_args cmd)"
    and sep: "\<And>i. i \<in> set (inputs cmd) \<Longrightarrow> \<not> same (ba_output_path (command_args cmd)) i"
    and cmd: "cmd \<in> {MatrixCmd a, ListCmd a, ChipIndexCmd a, SummaryCmd a}"
  shows "subcommand_run env (with_check cmd) m' fs' = (fs', Inr ()) \<and>
    (\<forall>i \<in> set (inputs cmd). fs_read env fs' i = fs_read env fs i)"
proof -
  note eqs = render_same[OF stable m] boards_same[OF m] matrix_sameD(4)[OF m]
  obtain stale out where w: "publish env False stale (ba_output_path a) out fs = (fs', Inr ())"
    and chk: "fs_read env fs' (ba_template_path a) = fs_read env fs (ba_template_path a) \<Longrightarrow>
      subcommand_run env (with_check cmd) m' fs' = publish env True stale (ba_output_path a) out fs'"
    using cmd run nocheck
    by (auto simp: run_matrix_def run_list_def run_chip_index_def run_summary_def step_simps eqs)
      (auto simp: read_template_def)
  have "fs_read env fs' i = fs_read env fs i" if "i \<in> set (inputs cmd)" for i
    using published(2)[OF ok w] sep[OF that] cmd by auto
  moreover have "ba_template_path a \<in> set (inputs cmd)"
    using cmd by auto
  ultimately show ?thesis
    using chk published(3)[OF ok w] by simp
qed

lemma board_pages_generated:
  assumes ok: "book_env_ok env same" and m: "matrix_same m m'"
    and run: "run_board_pages env a m fs = (fs', Inr u)" and nocheck: "\<not> ba_check a"
    and sep: "\<And>i. i \<in> set (inputs (BoardPagesCmd a)) \<Longrightarrow> \<forall>p \<in> set (outputs env (BoardPagesCmd a) m). \<not> same p i"
      "sorted_wrt (\<lambda>p q. \<not> same q p) (outputs env (BoardPagesCmd a) m)"
  shows "run_board_pages env (a\<lparr>ba_check := True\<rparr>) m' fs' = (fs', Inr ()) \<and>
    (\<forall>i \<in> set (inputs (BoardPagesCmd a)). fs_read env fs' i = fs_read env fs i)"
proof -
  define p where "p = (\<lambda>board :: board_page. page_path (ba_output_path a) (slugify env (bp_name board)))"
  obtain t boards where t: "fs_read env fs (ba_template_path a) = Inr t"
    and boards: "gen_board_functionalities (slugify env) m = Inr boards"
    and loop: "for_each (\<lambda>fs board. sbnd (fs, render_template env t (BoardPageContext board (mx_support_keys m)))
      (\<lambda>fs t. publish env False ExistingMarkdownNotUpToDate (p board) t fs)) fs boards = (fs', Inr u)"
    using run nocheck by (auto simp: run_board_pages_def step_simps p_def)
  have out: "outputs env (BoardPagesCmd a) m = map p boards"
    using boards by (simp add: boards_resolve_iff board_reference_def p_def)
  have written: "(\<forall>board \<in> set boards. \<exists>t'. render_template env t (BoardPageContext board (mx_support_keys m)) = Inr t' \<and>
        fs_read env fs' (p board) = Inr t')" and kept: "(\<forall>x \<in> set boards. \<not> same (p x) q) \<Longrightarrow> fs_read env fs' q = fs_read env fs q" for q
    using for_each_published[OF ok refl loop] sep(2)[unfolded out sorted_wrt_map] by blast+
  then have same_in: "fs_read env fs' i = fs_read env fs i" if "i \<in> set (inputs (BoardPagesCmd a))" for i
    using sep(1)[OF that] unfolding out by simp
  have "run_board_pages env (a\<lparr>ba_check := True\<rparr>) m' fs' = (fs', Inr ())"
    using for_each_checked[of boards, OF written[rule_format]] same_in t boards
    by (simp add: run_board_pages_def read_template_def p_def boards_same[OF m, symmetric] matrix_sameD(1)[OF m])
  then show ?thesis
    using same_in by simp
qed

lemma chip_pages_generated:
  assumes ok: "book_env_ok env same" and stable: "stable_templates env" and m: "matrix_same m m'"
    and run: "run_chip_pages env a mt m fs = (fs', Inr u)" and nocheck: "\<not> ba_check a"
    and sep: "\<And>i. i \<in> set (inputs (ChipPagesCmd a mt)) \<Longrightarrow> \<forall>p \<in> set (outputs env (ChipPagesCmd a mt) m). \<not> same p i"
      "sorted_wrt (\<lambda>p q. \<not> same q p) (outputs env (ChipPagesCmd a mt) m)"
  shows "run_chip_pages env (a\<lparr>ba_check := True\<rparr>) mt m' fs' = (fs', Inr ()) \<and>
    (\<forall>i \<in> set (inputs (ChipPagesCmd a mt)). fs_read env fs' i = fs_read env fs i)"
proof -
  define p where "p = (\<lambda>chip :: chip_page. page_path (ba_output_path a) (cp_technical_name chip))"
  obtain t1 t2 chips boards sorted where t: "fs_read env fs mt = Inr t1" "fs_read env fs (ba_template_path a) = Inr t2"
    and chips: "gen_chip_functionalities m = Inr chips"
    and boards: "gen_board_functionalities (slugify env) m = Inr boards" "sort_by_tier env boards = Inr sorted"
    and loop: "for_each (\<lambda>fs chip. sbnd (fs, chip_page_md env t1 t2 m sorted chip)
      (\<lambda>fs t. publish env False ExistingMarkdownNotUpToDate (p chip) t fs)) fs chips = (fs', Inr u)"
    using run nocheck by (auto simp: run_chip_pages_def step_simps p_def)
  have out: "outputs env (ChipPagesCmd a mt) m = map p chips"
    using chips by (simp add: chips_resolved chip_reference_def p_def split_beta)
  obtain chips' where chips': "gen_chip_functionalities m' = Inr chips'" "set chips' = set chips"
    using chips_same[OF m chips] by (metis set_mset_mset)
  have written: "(\<forall>chip \<in> set chips. \<exists>t'. chip_page_md env t1 t2 m sorted chip = Inr t' \<and>
        fs_read env fs' (p chip) = Inr t')" and kept: "(\<forall>x \<in> set chips. \<not> same (p x) q) \<Longrightarrow> fs_read env fs' q = fs_read env fs q" for q
    using for_each_published[OF ok refl loop] sep(2)[unfolded out sorted_wrt_map] by blast+
  then have same_in: "fs_read env fs' i = fs_read env fs i" if "i \<in> set (inputs (ChipPagesCmd a mt))" for i
    using sep(1)[OF that] unfolding out by simp
  have "run_chip_pages env (a\<lparr>ba_check := True\<rparr>) mt m' fs' = (fs', Inr ())"
    using for_each_checked[of chips', unfolded chips'(2), OF written[rule_format]] same_in t boards chips'(1)
    by (simp add: run_chip_pages_def read_template_def p_def boards_same[OF m, symmetric] chip_page_md_same[OF stable m, symmetric])
  then show ?thesis
    using same_in by simp
qed


subsection \<open>Paths of pages\<close>

text \<open>
  The page of a name without dots and slashes has that name; of two such names, different ones have
  different pages.  A dot cuts the name short.
\<close>

lemma path_join_relative:
  assumes "CHR ''/'' \<notin> set name"
  shows "path_join output name = (if output = [] \<or> last output = CHR ''/'' then output else output @ ''/'') @ name"
  using assms by (cases name) (auto simp: path_join_def)

lemma page_path_plain:
  assumes "name \<noteq> []" "CHR ''/'' \<notin> set name" "CHR ''.'' \<notin> set name"
  shows "page_path output name = path_join output name @ ''.md''"
proof -
  define rest where "rest = (if output = [] \<or> last output = CHR ''/'' then output else output @ ''/'')"
  then have rest: "rest = [] \<or> last rest = CHR ''/''"
    by auto
  have p: "path_join output name = rest @ name"
    unfolding rest_def by (rule path_join_relative[OF assms(2)])
  obtain c cs where r: "rev name = c # cs"
    using assms(1) by (cases "rev name") auto
  have c: "c \<noteq> CHR ''/''" "c \<noteq> CHR ''.''"
    using assms(2,3) r by (metis list.set_intros(1) set_rev)+
  then have ne: "rev name \<noteq> []" "rev name \<noteq> ''.''" "rev name \<noteq> ''..''" and
    trim: "trim_end (rev name @ rev rest) = rev name @ rev rest"
    by (simp_all add: r)
  have split: "takeWhile (\<lambda>c. c \<noteq> CHR ''/'') (rev name @ rev rest) = rev name"
    "dropWhile (\<lambda>c. c \<noteq> CHR ''/'') (rev name @ rev rest) = rev rest"
    using assms(2) rest by (auto simp: takeWhile_append dropWhile_append takeWhile_eq_Nil_iff dropWhile_eq_self_iff hd_rev)
  have after: "takeWhile (\<lambda>c. c \<noteq> CHR ''.'') (rev name) = rev name"
    using assms(3) by (auto simp: takeWhile_eq_all_conv)
  show ?thesis
    unfolding page_path_def p set_extension_md_def rev_append trim split after Let_def
    using ne by (simp del: rev_is_Nil_conv)
qed

lemma page_path_inj:
  assumes "name \<noteq> []" "CHR ''/'' \<notin> set name" "CHR ''.'' \<notin> set name"
    and "name' \<noteq> []" "CHR ''/'' \<notin> set name'" "CHR ''.'' \<notin> set name'"
    and "page_path output name = page_path output name'"
  shows "name = name'"
  using assms(7) unfolding page_path_plain[OF assms(1-3)] page_path_plain[OF assms(4-6)]
    path_join_relative[OF assms(2)] path_join_relative[OF assms(5)] by simp

lemma dotted_names_share_a_page: "page_path ''chips'' ''stm32.a'' = page_path ''chips'' ''stm32.b''"
  by (simp add: page_path_def path_join_def set_extension_md_def Let_def)

section \<open>Boards without builders\<close>

text \<open>
  A board without builders passes validation and resolution, but with at least two boards the support
  matrix is sorted by the best tier of each, which unwraps \<open>None\<close>: the command panics exactly then.
\<close>

theorem matrix_panics:
  assumes "fs_read env fs (ba_template_path a) = Inr tmpl" "compiles env tmpl" "\<And>ctx. render env tmpl ctx \<noteq> None"
    and "gen_board_functionalities (slugify env) m = Inr pages"
    and "\<And>key bs. mset (sort_builders env key bs) = mset bs"
  shows "snd (run_matrix env a m fs) = Inl (Panicked UnwrapNone) \<longleftrightarrow>
    2 \<le> length (mx_boards m) \<and> (\<exists>board \<in> set (mx_boards m). bo_builders board = [])"
proof -
  have sort_Nil: "sort_builders env key bs = [] \<longleftrightarrow> bs = []" for key bs
    using assms(5)[of key bs] by (metis mset_zero_iff)
  have min: "min_by_key key bs = None \<longleftrightarrow> bs = []" for key :: "laze_builder \<Rightarrow> string" and bs
    by (cases bs) auto
  have pages: "pages = map (board_reference (slugify env) m) (mx_boards m)"
    using assms(4) by (simp add: boards_resolve_iff)
  have sort: "sort_by_tier env pages = Inl UnwrapNone \<longleftrightarrow>
      2 \<le> length (mx_boards m) \<and> (\<exists>board \<in> set (mx_boards m). bo_builders board = [])"
    and only: "sort_by_tier env pages = Inl x \<Longrightarrow> x = UnwrapNone" for x
    by (auto simp: sort_by_tier_def Let_def pages min sort_Nil board_reference_def split: if_splits)
  have publish: "snd (publish env c ExistingHtmlNotUpToDate p s fs) \<noteq> Inl (Panicked UnwrapNone)" for c p s
    by (auto simp: publish_def split: sum.splits prod.splits)
  have rendered: "\<exists>s. render_template env tmpl ctx = Inr s" for ctx
    using assms(2) assms(3)[of ctx] by (auto simp: render_template_def)
  show ?thesis
  proof (cases "sort_by_tier env pages")
    case (Inr boards)
    moreover obtain s where "render_template env tmpl (MatrixContext m boards []) = Inr s"
      using rendered by blast
    ultimately show ?thesis
      using sort publish assms(1) by (simp add: run_matrix_def read_template_def assms(4))
  qed (use sort only in \<open>auto simp: run_matrix_def read_template_def assms(1,4)\<close>)
qed

section \<open>An instance\<close>

definition sim_chip :: "string \<Rightarrow> chip_info" where
  "sim_chip name = \<lparr>ci_name = name, ci_manufacturer = ''Acme'', ci_description = None,
     ci_support = [(''gpio'', StatusOnly ''supported'')], ci_notes = None, ci_note_snippets = None\<rparr>"

definition sim_builder :: builder_info where
  "sim_builder = \<lparr>bi_chip = ''a'', bi_tier = ''1'', bi_support = [(''gpio'', Details ''needs_testing'' None None)],
     bi_notes = None, bi_note_snippets = None\<rparr>"

definition sim_matrix :: "bool \<Rightarrow> board_info list \<Rightarrow> matrix" where
  "sim_matrix b boards =
     \<lparr>mx_support_keys = [\<lparr>sk_name = ''supported'', sk_icon = ''y'', sk_description = []\<rparr>,
        \<lparr>sk_name = ''needs_testing'', sk_icon = ''t'', sk_description = []\<rparr>],
      mx_functionalities = [\<lparr>fn_name = ''gpio'', fn_title = ''GPIO'', fn_support_criteria = [], fn_description = []\<rparr>],
      mx_note_snippets = [],
      mx_chips = (if b then [(''a'', sim_chip ''A''), (''b'', sim_chip ''B'')] else [(''b'', sim_chip ''B''), (''a'', sim_chip ''A'')]),
      mx_builders = [(''x'', sim_builder)],
      mx_boards = boards\<rparr>"

definition sim_board :: "string list \<Rightarrow> board_info" where
  "sim_board builders = \<lparr>bo_name = ''X'', bo_description = None, bo_url = [], bo_builders = builders\<rparr>"

fun sim_render :: "book_context \<Rightarrow> string" where
  "sim_render (ChipPageContext c _ html) = cp_name c @ html"
| "sim_render _ = ''text''"

definition sim_env :: "(string \<rightharpoonup> string) book_env" where
  "sim_env = \<lparr>fs_read = (\<lambda>fs p. case fs p of None \<Rightarrow> Inl (OsError 2) | Some s \<Rightarrow> Inr s),
     fs_write = (\<lambda>fs p s. (fs(p \<mapsto> s), Inr ())), compiles = (\<lambda>_. True), render = (\<lambda>_ ctx. Some (sim_render ctx)),
     parse_yaml = (\<lambda>seed _. Inr (sim_matrix (seed = 0) [sim_board [''x'']])), slugify = (\<lambda>s. s), to_lowercase = (\<lambda>s. s),
     sort_builders = sort_key, sort_boards = (\<lambda>_ bs. bs)\<rparr>"

definition sim_files :: "string \<rightharpoonup> string" where
  "sim_files = [''in'' \<mapsto> [], ''t'' \<mapsto> [], ''m'' \<mapsto> []]"

definition sim_cmd :: subcommand where
  "sim_cmd = ChipPagesCmd \<lparr>ba_check = False, ba_template_path = ''t'', ba_input_path = ''in'', ba_output_path = ''out''\<rparr> ''m''"

lemma sim_matrix_same: "matrix_same (sim_matrix b boards) (sim_matrix b' boards)"
proof -
  have chip: "chip_same (sim_chip n) (sim_chip n)" for n
    by (simp add: chip_same_def hash_same_def option.rel_eq sim_chip_def)
  have "builder_same sim_builder sim_builder"
    by (simp add: builder_same_def hash_same_def option.rel_eq sim_builder_def)
  with chip show ?thesis
    by (simp add: matrix_same_def sim_matrix_def hash_same_def)
qed

lemma sim_env_ok: "book_env_ok sim_env (=)" "stable_templates sim_env"
  by (auto simp: book_env_ok_def stable_templates_def sim_env_def sim_matrix_same)

lemmas book_sim_defs = sim_env_def sim_cmd_def sim_files_def sim_matrix_def sim_board_def sim_builder_def sim_chip_def

lemma sim_generates: "snd (book_main sim_env 0 sim_cmd sim_files) = Inr ()"
  by code_simp


theorem boards_resolved_witness:
  "gen_board_functionalities (\<lambda>s. s) (sim_matrix True [sim_board [''x'']]) =
     Inr [\<lparr>bp_url = [], bp_board_doc = ''boards/X.html'', bp_name = ''X'',
       bp_builders = [\<lparr>lb_chip = ''A'', lb_chip_technical_name = ''a'', lb_chip_doc = ''chips/a.html'', lb_tier = ''1'',
         lb_technical_name = ''x'',
         lb_functionalities = [\<lparr>fs_title = ''GPIO'', fs_icon = ''t'', fs_description = [], fs_comments = None\<rparr>],
         lb_notes = None\<rparr>]\<rparr>]"
  unfolding boards_resolved
  by (simp add: book_sim_defs builder_resolves_def snippets_known_def cell_def find_support_key_def effective_support_def
      board_reference_def builder_reference_def notes_of_def merge_notes_def functionality_support_of_def)

theorem matrix_panics_witness:
  "snd (run_matrix sim_env \<lparr>ba_check = False, ba_template_path = ''t'', ba_input_path = ''in'', ba_output_path = ''out''\<rparr>
     (sim_matrix True [sim_board [''x''], sim_board []]) sim_files) = Inl (Panicked UnwrapNone)"
proof -
  obtain pages where "gen_board_functionalities (slugify sim_env) (sim_matrix True [sim_board [''x''], sim_board []]) = Inr pages"
    unfolding boards_resolve_iff by (auto simp: book_sim_defs builder_resolves_def snippets_known_def cell_def find_support_key_def effective_support_def)
  then show ?thesis
    by (subst matrix_panics) (auto simp: sim_env_def sim_files_def sim_matrix_def sim_board_def)
qed

end
