(* ===== verification/EditorConfig.thy ===== *)
theory EditorConfig
  imports Prelude "HOL-Library.AList" "HOL-Library.Char_ord" "HOL-Library.List_Lexorder"
begin

section \<open>Editor configuration (\<open>scripts/editor-config.rs\<close>)\<close>

text \<open>
  The script writes the settings of rust-analyzer for the current build into the configuration file
  of an editor, for Visual Studio Code, Zed, Gram, Helix and a plain \<open>rust-analyzer.toml\<close>.  A
  \<open>HashMap\<close> is an association list with distinct keys; nothing below depends on its order.  The
  numbers of a file are of a type \<open>'n\<close>: the script only hands them on.  The parsers and printers of
  the files and the shell lexer \<open>shlex\<close> are parameters.  Texts are ASCII.
\<close>

subsection \<open>Values\<close>

datatype setting =
    SString string
  | SMap "(string \<times> setting) list"
  | SFinalMap "(string \<times> setting) list"
  | SBool bool
  | SArray "setting list"

type_synonym settings = "(string \<times> setting) list"

datatype 'n json =
    JNull
  | JBool bool
  | JNumber 'n
  | JString string
  | JArray "'n json list"
  | JObject "(string \<times> 'n json) list"

datatype 'n toml =
    TString string
  | TNumber 'n    \<comment> \<open>integers, floats and times\<close>
  | TBoolean bool
  | TArray "'n toml list"
  | TTable "(string \<times> 'n toml) list"

primrec json_of :: "setting \<Rightarrow> 'n json" where
  "json_of (SString s) = JString s"
| "json_of (SMap m) = JObject (map (map_prod id json_of) m)"
| "json_of (SFinalMap m) = JObject (map (map_prod id json_of) m)"
| "json_of (SBool b) = JBool b"
| "json_of (SArray vs) = JArray (map json_of vs)"

primrec toml_of :: "setting \<Rightarrow> 'n toml" where
  "toml_of (SString s) = TString s"
| "toml_of (SMap m) = TTable (map (map_prod id toml_of) m)"
| "toml_of (SFinalMap m) = TTable (map (map_prod id toml_of) m)"
| "toml_of (SBool b) = TBoolean b"
| "toml_of (SArray vs) = TArray (map toml_of vs)"

text \<open>Inserting all entries of a map into another one, as the loops of the commands do.\<close>

definition insert_all :: "(string \<times> 'a) list \<Rightarrow> (string \<times> 'a) list \<Rightarrow> (string \<times> 'a) list" where
  "insert_all new m = fold (\<lambda>(k, v). AList.update k v) new m"

text \<open>Visual Studio Code has the hierarchy in the key: nested maps are unwrapped.\<close>

function unwrap_maps ::
    "settings \<Rightarrow> string \<Rightarrow> (string \<times> 'n json) list \<Rightarrow> (string \<times> 'n json) list" where
  "unwrap_maps [] path out = out"
| "unwrap_maps ((key, v) # rest) path out =
     (let new_path = path @ ''.'' @ key
      in unwrap_maps rest path
           (case v of
              SMap m \<Rightarrow> insert_all (unwrap_maps m new_path []) out
            | other \<Rightarrow> AList.update new_path (json_of other) out))"
  by pat_completeness auto
termination
  by (relation "measure (\<lambda>(values, _). size_list (size_prod (\<lambda>_. 0) size) values)") auto

definition parse_recursive :: "settings \<Rightarrow> string \<Rightarrow> (string \<times> 'n json) list" where
  "parse_recursive values path = unwrap_maps values path []"

subsection \<open>The settings of a build\<close>

text \<open>The functions on strings that the script uses.\<close>

definition is_space :: "char \<Rightarrow> bool" where
  "is_space c \<longleftrightarrow> c \<in> set [CHR '' '', CHR 0x09, CHR 0x0A, CHR 0x0B, CHR 0x0C, CHR 0x0D]"

definition trim :: "string \<Rightarrow> string" where
  "trim s = rev (dropWhile is_space (rev (dropWhile is_space s)))"

fun split_at :: "char \<Rightarrow> string \<Rightarrow> string list" where
  "split_at c [] = [[]]"
| "split_at c (x # xs) =
     (if x = c then [] # split_at c xs
      else (case split_at c xs of [] \<Rightarrow> [[x]] | p # ps \<Rightarrow> (x # p) # ps))"

function remove_each :: "string \<Rightarrow> string \<Rightarrow> string" where
  "remove_each pat s =
     (if s = [] then []
      else if pat \<noteq> [] \<and> take (length pat) s = pat then remove_each pat (drop (length pat) s)
      else hd s # remove_each pat (tl s))"
  by pat_completeness auto
termination
  by (relation "measure (\<lambda>(_, s). length s)") auto

declare remove_each.simps [simp del]

definition split_pair :: "char \<Rightarrow> string \<Rightarrow> (string \<times> string) option" where
  "split_pair c s =
     (case dropWhile (\<lambda>x. x \<noteq> c) s of [] \<Rightarrow> None | _ # rest \<Rightarrow> Some (takeWhile (\<lambda>x. x \<noteq> c) s, rest))"

datatype editor_error = EditorIo | EditorJson | EditorTomlDe | EditorTomlSer | CargoEnvNotSet | CargoEnvParse

type_synonym environment = "string \<Rightarrow> string option"

definition extra_args :: "environment \<Rightarrow> setting list" where
  "extra_args env =
     (let cargo_args = (case env ''CARGO_ARGS'' of None \<Rightarrow> '''' | Some s \<Rightarrow> s);
          features_args = (case env ''FEATURES'' of None \<Rightarrow> '''' | Some s \<Rightarrow> s)
      in map SString (split_at CHR '' '' (trim (cargo_args @ '' '' @ features_args))))"

definition check_settings :: "environment \<Rightarrow> settings" where
  "check_settings env =
     (let check = AList.update ''allTargets'' (SBool False) (AList.update ''command'' (SString ''clippy'') [])
      in if extra_args env = [] then check else AList.update ''extraArgs'' (SArray (extra_args env)) check)"

definition build_scripts :: "environment \<Rightarrow> settings" where
  "build_scripts env =
     (if extra_args env = [] then []
      else AList.update ''buildScripts''
             (SMap (AList.update ''overrideCommand''
                (SArray ([SString ''cargo'', SString ''check''] @ extra_args env
                           @ [SString ''--message-format=json''])) [])) [])"

definition features_list :: "environment \<Rightarrow> setting list" where
  "features_list env =
     map (SString \<circ> trim)
       (split_at CHR '','' (remove_each ''--features='' (case env ''FEATURES'' of None \<Rightarrow> '''' | Some s \<Rightarrow> s)))"

definition env_of_tokens :: "string list \<Rightarrow> settings" where
  "env_of_tokens tokens =
     fold (\<lambda>token m. case split_pair CHR ''='' token of None \<Rightarrow> m | Some (k, v) \<Rightarrow> AList.update k (SString v) m)
       tokens []"

definition extra_env :: "(string \<Rightarrow> string list option) \<Rightarrow> environment \<Rightarrow> editor_error + settings" where
  "extra_env shlex env =
     (case env ''CARGO_ENV'' of
        None \<Rightarrow> Inl CargoEnvNotSet
      | Some cargo_env \<Rightarrow>
          (case shlex cargo_env of
             None \<Rightarrow> Inl CargoEnvParse
           | Some tokens \<Rightarrow>
               let m = env_of_tokens tokens;
                   m = AList.update ''CONFIG_WIFI_NETWORK'' (SString ''test-wifi'') m;
                   m = AList.update ''CONFIG_WIFI_PASSWORD'' (SString ''test-password'') m;
                   m = (case env ''_CARGO_TOOLCHAIN'' of
                          Some t \<Rightarrow> if 1 < length t then AList.update ''RUSTUP_TOOLCHAIN'' (SString (drop 1 t)) m else m
                        | None \<Rightarrow> m);
                   m = (case env ''_RUSTFLAGS'' of
                          Some f \<Rightarrow> AList.update ''RUSTFLAGS'' (SString f) m
                        | None \<Rightarrow> m)
               in Inr m))"

definition settings_from_env :: "(string \<Rightarrow> string list option) \<Rightarrow> environment \<Rightarrow> editor_error + settings" where
  "settings_from_env shlex env =
     (let settings = AList.update ''files'' (SMap (AList.update ''watcher'' (SString ''server'') [])) [];
          cargo = build_scripts env;
          settings = AList.update ''check'' (SMap (check_settings env)) settings;
          cargo = (if features_list env = [] then cargo
                   else AList.update ''features'' (SArray (features_list env)) cargo)
      in bnd (extra_env shlex env) (\<lambda>m.
           let cargo = (if m = [] then cargo else AList.update ''extraEnv'' (SFinalMap m) cargo)
           in Inr (AList.update ''cargo'' (SMap cargo) settings)))"

subsection \<open>The commands\<close>

text \<open>
  The disk has directories and files with contents of a type \<open>'f\<close>.  Every access may fail; a write
  that fails leaves the contents that the fault says, or no file.  Opening and reading a file is one
  access.
\<close>

record 'f disk =
  dirs :: "string \<Rightarrow> bool"
  files :: "string \<Rightarrow> 'f option"

record 'f faults =
  create_fault :: "string \<Rightarrow> bool"
  write_fault :: "string \<Rightarrow> 'f \<Rightarrow> 'f option option"
  read_fault :: "string \<Rightarrow> bool"
  absolute_fault :: "string \<Rightarrow> bool"

record ('f, 'v) file_format =
  parse_file :: "'f \<Rightarrow> (string \<times> 'v) list option"
  print_file :: "(string \<times> 'v) list \<Rightarrow> 'f option"
  empty_file :: 'f
  parse_error :: editor_error
  print_error :: editor_error

definition fs_create_dir :: "'f faults \<Rightarrow> string \<Rightarrow> 'f disk \<Rightarrow> 'f disk \<times> (editor_error + unit)" where
  "fs_create_dir os path d =
     (if create_fault os path then (d, Inl EditorIo) else (d\<lparr>dirs := (dirs d)(path := True)\<rparr>, Inr ()))"

definition fs_write :: "'f faults \<Rightarrow> string \<Rightarrow> 'f \<Rightarrow> 'f disk \<Rightarrow> 'f disk \<times> (editor_error + unit)" where
  "fs_write os path c d =
     (case write_fault os path c of
        None \<Rightarrow> (d\<lparr>files := (files d)(path \<mapsto> c)\<rparr>, Inr ())
      | Some left \<Rightarrow> (d\<lparr>files := (files d)(path := left)\<rparr>, Inl EditorIo))"

definition fs_read :: "'f faults \<Rightarrow> string \<Rightarrow> 'f disk \<Rightarrow> editor_error + 'f" where
  "fs_read os path d = (if read_fault os path then Inl EditorIo else ok_or EditorIo (files d path))"

definition attempt :: "'s \<times> ('e + 'a) \<Rightarrow> ('s \<Rightarrow> 'a \<Rightarrow> 's \<times> ('e + 'b)) \<Rightarrow> 's \<times> ('e + 'b)" where
  "attempt r k = (case r of (s, Inl e) \<Rightarrow> (s, Inl e) | (s, Inr a) \<Rightarrow> k s a)"

text \<open>
  What the commands share: the directory, if there is one, and the file are created when they are
  missing, the file is read and parsed, the settings are computed and merged into it, and it is
  written back.
\<close>

definition edit_settings ::
    "(string \<Rightarrow> string list option) \<Rightarrow> environment \<Rightarrow> 'f faults \<Rightarrow> ('f, 'v) file_format \<Rightarrow>
     string option \<Rightarrow> string \<Rightarrow> (settings \<Rightarrow> (string \<times> 'v) list) \<Rightarrow> 'f disk \<Rightarrow> 'f disk \<times> (editor_error + unit)" where
  "edit_settings shlex env os fmt dir path new d =
     attempt (case dir of
                None \<Rightarrow> (d, Inr ())
              | Some p \<Rightarrow> if dirs d p then (d, Inr ()) else fs_create_dir os p d) (\<lambda>d _.
     attempt (if files d path = None then fs_write os path (empty_file fmt) d else (d, Inr ())) (\<lambda>d _.
     attempt (d, fs_read os path d) (\<lambda>d file.
     attempt (d, ok_or (parse_error fmt) (parse_file fmt file)) (\<lambda>d m.
     attempt (d, settings_from_env shlex env) (\<lambda>d settings.
     attempt (d, ok_or (print_error fmt) (print_file fmt (insert_all (new settings) m))) (\<lambda>d file.
     attempt (fs_write os path file d) (\<lambda>d _.
     (d, if absolute_fault os path then Inl EditorIo else Inr ()))))))))"

definition vscode_run where
  "vscode_run shlex env os json =
     edit_settings shlex env os json (Some ''.vscode'') ''.vscode/settings.json''
       (\<lambda>settings. parse_recursive settings ''rust-analyzer'')"

datatype zed_flavor = ZedFlavor | GramFlavor

definition zed_directory :: "zed_flavor \<Rightarrow> string" where
  "zed_directory flavor = (case flavor of ZedFlavor \<Rightarrow> ''.zed'' | GramFlavor \<Rightarrow> ''.gram'')"

definition zed_settings_path :: "zed_flavor \<Rightarrow> string" where
  "zed_settings_path flavor =
     (case flavor of ZedFlavor \<Rightarrow> zed_directory flavor @ ''/settings.json''
      | GramFlavor \<Rightarrow> zed_directory flavor @ ''/settings.jsonc'')"

definition zed_settings :: "settings \<Rightarrow> (string \<times> 'n json) list" where
  "zed_settings settings =
     (let wrapped_settings_rust_analyzer = AList.update ''initialization_options'' (SMap settings) [];
          wrapped_settings_lsp = AList.update ''rust-analyzer'' (SMap wrapped_settings_rust_analyzer) [];
          wrapped_settings = AList.update ''lsp'' (SMap wrapped_settings_lsp) []
      in map (map_prod id json_of) wrapped_settings)"

definition zed_and_forks where
  "zed_and_forks flavor shlex env os json =
     edit_settings shlex env os json (Some (zed_directory flavor)) (zed_settings_path flavor) zed_settings"

definition rust_analyzer_run where
  "rust_analyzer_run shlex env os toml =
     edit_settings shlex env os toml None ''rust-analyzer.toml'' (map (map_prod id toml_of))"

definition toml_table :: "('a \<Rightarrow> 'n toml) \<Rightarrow> (string \<times> 'a) list \<Rightarrow> 'n toml" where
  "toml_table f m = TTable (map (map_prod id f) m)"

definition helix_settings :: "settings \<Rightarrow> (string \<times> 'n toml) list" where
  "helix_settings settings =
     (let wrapped_settings_rust_analyzer = AList.update ''config'' settings [];
          wrapped_settings_language_server = AList.update ''rust-analyzer'' wrapped_settings_rust_analyzer [];
          wrapped_settings = AList.update ''language-server'' wrapped_settings_language_server []
      in map (map_prod id (toml_table (toml_table (toml_table toml_of)))) wrapped_settings)"

definition helix_run where
  "helix_run shlex env os toml =
     edit_settings shlex env os toml (Some ''.helix'') ''.helix/languages.toml'' helix_settings"

datatype sub_command = VsCodeCommand | RustAnalyzerCommand | HelixCommand | ZedCommand | GramCommand

definition editor_main ::
    "sub_command \<Rightarrow> (string \<Rightarrow> string list option) \<Rightarrow> environment \<Rightarrow> 'f faults \<Rightarrow> ('f, 'n json) file_format \<Rightarrow>
     ('f, 'n toml) file_format \<Rightarrow> 'f disk \<Rightarrow> 'f disk \<times> (editor_error + unit)" where
  "editor_main command shlex env os json toml =
     (case command of
        RustAnalyzerCommand \<Rightarrow> rust_analyzer_run shlex env os toml
      | VsCodeCommand \<Rightarrow> vscode_run shlex env os json
      | HelixCommand \<Rightarrow> helix_run shlex env os toml
      | ZedCommand \<Rightarrow> zed_and_forks ZedFlavor shlex env os json
      | GramCommand \<Rightarrow> zed_and_forks GramFlavor shlex env os json)"

subsection \<open>Maps and their merging\<close>

lemma insert_all_simps [simp]:
  "insert_all [] m = m" "insert_all ((k, v) # new) m = insert_all new (AList.update k v m)"
  by (simp_all add: insert_all_def)

lemma map_of_insert_all:
  "distinct (map fst new) \<Longrightarrow> map_of (insert_all new m) k = (case map_of new k of None \<Rightarrow> map_of m k | Some v \<Rightarrow> Some v)"
proof (induction new arbitrary: m)
  case (Cons p new)
  obtain k' v where p: "p = (k', v)" by (cases p)
  have "map_of new k' = None" using Cons(2) by (auto simp: p map_of_eq_None_iff)
  then show ?case
    using Cons by (simp add: p update_conv' split: option.split)
qed simp

lemma distinct_insert_all: "distinct (map fst m) \<Longrightarrow> distinct (map fst (insert_all new m))"
  by (induction new arbitrary: m) (auto simp: distinct_update)

lemma insert_all_present: "(\<And>k v. (k, v) \<in> set new \<Longrightarrow> map_of m k = Some v) \<Longrightarrow> insert_all new m = m"
proof (induction new)
  case (Cons p new)
  obtain k v where p: "p = (k, v)" by (cases p)
  show ?case using Cons by (simp add: p update_triv)
qed simp

lemma insert_all_idem: "distinct (map fst new) \<Longrightarrow> insert_all new (insert_all new m) = insert_all new m"
  by (rule insert_all_present) (simp add: map_of_insert_all)

lemma distinct_unwrap_maps: "distinct (map fst out) \<Longrightarrow> distinct (map fst (unwrap_maps values path out))"
  by (induction "values" path out rule: unwrap_maps.induct)
     (auto simp: Let_def distinct_update distinct_insert_all split: setting.splits)

lemma distinct_parse_recursive: "distinct (map fst (parse_recursive values path))"
  by (simp add: parse_recursive_def distinct_unwrap_maps)

subsection \<open>Unwrapping\<close>

text \<open>
  The setting at the end of a path of keys through maps that are unwrapped; \<open>settings_ok\<close>: the keys
  of these maps are distinct and have no dots.
\<close>

fun leaf_at :: "settings \<Rightarrow> string list \<Rightarrow> setting option" where
  "leaf_at m [] = None"
| "leaf_at m (k # ks) =
     (case map_of m k of
        None \<Rightarrow> None
      | Some (SMap m') \<Rightarrow> leaf_at m' ks
      | Some v \<Rightarrow> if ks = [] then Some v else None)"

function settings_ok :: "settings \<Rightarrow> bool" where
  "settings_ok [] = True"
| "settings_ok ((k, v) # rest) =
     (CHR ''.'' \<notin> set k \<and> k \<notin> fst ` set rest \<and> (case v of SMap m \<Rightarrow> settings_ok m | _ \<Rightarrow> True) \<and> settings_ok rest)"
  by pat_completeness auto
termination
  by (relation "measure (size_list (size_prod (\<lambda>_. 0) size))") auto

definition dotted :: "string \<Rightarrow> string list \<Rightarrow> string" where
  "dotted path ks = path @ concat (map (\<lambda>k. ''.'' @ k) ks)"

lemma dotted_simps [simp]: "dotted path [] = path" "dotted path (k # ks) = dotted (path @ ''.'' @ k) ks"
  by (simp_all add: dotted_def)

lemma settings_okD:
  "settings_ok m \<Longrightarrow> map_of m k = Some v \<Longrightarrow> CHR ''.'' \<notin> set k \<and> (case v of SMap m' \<Rightarrow> settings_ok m' | _ \<Rightarrow> True)"
  by (induction m rule: settings_ok.induct) (auto split: if_splits)

lemma leaf_keys: "settings_ok m \<Longrightarrow> leaf_at m ks = Some v \<Longrightarrow> k \<in> set ks \<Longrightarrow> CHR ''.'' \<notin> set k"
proof (induction m ks rule: leaf_at.induct)
  case (2 m k' ks)
  then show ?case
    using settings_okD[OF 2(2), of k'] by (auto split: option.splits setting.splits if_splits)
qed simp

lemma dotted_append: "dotted (p @ q) ks = p @ dotted q ks"
  by (simp add: dotted_def)

lemma first_key:
  assumes "CHR ''.'' \<notin> set k"
  shows "takeWhile (\<lambda>c. c \<noteq> CHR ''.'') (dotted k ks) = k"
    and "dropWhile (\<lambda>c. c \<noteq> CHR ''.'') (dotted k ks) = dotted [] ks"
proof -
  have k: "\<And>c. c \<in> set k \<Longrightarrow> c \<noteq> CHR ''.''" using assms by auto
  have *: "takeWhile (\<lambda>c. c \<noteq> CHR ''.'') (dotted [] ks) = []"
    "dropWhile (\<lambda>c. c \<noteq> CHR ''.'') (dotted [] ks) = dotted [] ks"
    by (cases ks; simp add: dotted_def)+
  have "dotted k ks = k @ dotted [] ks" by (simp add: dotted_def)
  then show "takeWhile (\<lambda>c. c \<noteq> CHR ''.'') (dotted k ks) = k"
    "dropWhile (\<lambda>c. c \<noteq> CHR ''.'') (dotted k ks) = dotted [] ks"
    using k * by (simp_all add: takeWhile_append2 dropWhile_append2)
qed

lemma dotted_inj:
  "(\<And>k. k \<in> set ks \<union> set ks' \<Longrightarrow> CHR ''.'' \<notin> set k) \<Longrightarrow> dotted path ks = dotted path ks' \<Longrightarrow> ks = ks'"
proof (induction ks arbitrary: ks' path)
  case Nil then show ?case by (cases ks') (auto simp: dotted_def)
next
  case (Cons k ks)
  then obtain k' l where ks': "ks' = k' # l" by (cases ks') (auto simp: dotted_def)
  have eq: "dotted k ks = dotted k' l"
    using Cons(3) by (simp add: ks' dotted_append[of "path @ ''.''", simplified])
  have k: "CHR ''.'' \<notin> set k" "CHR ''.'' \<notin> set k'" using Cons(2) by (auto simp: ks')
  have "k = k'" "dotted [] ks = dotted [] l"
    using first_key[OF k(1), of ks] first_key[OF k(2), of l] eq by auto
  then show ?case using Cons(1)[of l "[]"] Cons(2) by (auto simp: ks')
qed

text \<open>What unwrapping adds to a map.\<close>

definition unwraps :: "settings \<Rightarrow> string \<Rightarrow> (string \<times> 'n json) list \<Rightarrow> (string \<times> 'n json) list \<Rightarrow> bool" where
  "unwraps m path out res \<longleftrightarrow>
     (\<forall>ks v. leaf_at m ks = Some v \<longrightarrow> map_of res (dotted path ks) = Some (json_of v)) \<and>
     (\<forall>x. (\<nexists>ks v. leaf_at m ks = Some v \<and> x = dotted path ks) \<longrightarrow> map_of res x = map_of out x)"

lemma leaf_cons_other: "k \<noteq> k' \<Longrightarrow> leaf_at ((k, v) # rest) (k' # ks) = leaf_at rest (k' # ks)"
  by simp


lemma leaf_at_cons:
  "leaf_at ((k, v) # rest) ks =
     (case ks of [] \<Rightarrow> None
      | k' # ks' \<Rightarrow> if k' = k then (case v of SMap m \<Rightarrow> leaf_at m ks' | _ \<Rightarrow> if ks' = [] then Some v else None)
                   else leaf_at rest ks)"
  by (cases ks) (auto split: setting.split)

lemma unwraps_maps:
  fixes out :: "(string \<times> 'n json) list"
  assumes "settings_ok values"
  shows "unwraps values path out (unwrap_maps values path out)"
  using assms
proof (induction "values" path out rule: unwrap_maps.induct)
  case (1 path out)
  have "leaf_at [] ks = None" for ks by (cases ks) auto
  then show ?case by (auto simp: unwraps_def)
next
  case (2 key v rest path out)
  let ?p = "path @ ''.'' @ key"
  let ?out = "case v of SMap m \<Rightarrow> insert_all (unwrap_maps m ?p []) out
              | other \<Rightarrow> AList.update ?p (json_of other) out"
  have ok: "settings_ok rest" "CHR ''.'' \<notin> set key" "map_of rest key = None"
    using 2(3) by (auto simp: map_of_eq_None_iff)
  have rest: "unwraps rest path ?out (unwrap_maps rest path ?out)"
    using 2(2)[OF refl] ok(1) by simp
  define out' where "out' = ?out"
  have step: "unwrap_maps ((key, v) # rest) path out = unwrap_maps rest path out'" by (simp only: out'_def unwrap_maps.simps Let_def)
  have rest: "leaf_at rest ks = Some w \<Longrightarrow> map_of (unwrap_maps rest path out') (dotted path ks) = Some (json_of w)"
    "\<nexists>ks w. leaf_at rest ks = Some w \<and> x = dotted path ks \<Longrightarrow> map_of (unwrap_maps rest path out') x = map_of out' x"
    for ks w x
    using rest unfolding out'_def[symmetric] unwraps_def by blast+
  have head: "map_of out' (dotted path (key # ks)) = Some (json_of w)"
    if "leaf_at ((key, v) # rest) (key # ks) = Some w" for ks w
  proof (cases v)
    case (SMap m)
    have "unwraps m ?p ([] :: (string \<times> 'n json) list) (unwrap_maps m ?p [])" using 2(1)[OF refl SMap] 2(3) by (simp add: SMap)
    then show ?thesis
      using that by (simp add: out'_def SMap unwraps_def map_of_insert_all distinct_unwrap_maps del: map_of_eq_Some_iff)
  qed (use that in \<open>auto simp: out'_def update_conv' split: if_splits\<close>)
  have apart: "\<not> (\<exists>ks' w'. leaf_at rest ks' = Some w' \<and> dotted path (key # ks) = dotted path ks')"
    if "leaf_at ((key, v) # rest) (key # ks) = Some w" for ks w
  proof safe
    fix ks' w' assume l: "leaf_at rest ks' = Some w'" and d: "dotted path (key # ks) = dotted path ks'"
    have "key # ks = ks'"
      using leaf_keys[OF 2(3) that] leaf_keys[OF ok(1) l] by (intro dotted_inj[OF _ d]) blast
    then show False using l ok(3) by auto
  qed
  have untouched: "map_of out' x = map_of out x"
    if "\<nexists>ks w. leaf_at ((key, v) # rest) (key # ks) = Some w \<and> x = dotted path (key # ks)" for x
  proof (cases v)
    case (SMap m)
    have "unwraps m ?p ([] :: (string \<times> 'n json) list) (unwrap_maps m ?p [])" using 2(1)[OF refl SMap] 2(3) by (simp add: SMap)
    then show ?thesis
      using that by (simp add: out'_def SMap unwraps_def map_of_insert_all distinct_unwrap_maps del: map_of_eq_Some_iff)
  qed (use that[simplified, THEN spec[of _ "[]"]] in \<open>auto simp: out'_def update_conv'\<close>)
  show ?case
    unfolding unwraps_def
  proof safe
    fix ks w assume l: "leaf_at ((key, v) # rest) ks = Some w"
    then obtain k' l' where ks: "ks = k' # l'" by (cases ks) auto
    show "map_of (unwrap_maps ((key, v) # rest) path out) (dotted path ks) = Some (json_of w)"
    proof (cases "k' = key")
      case True
      then show ?thesis
        unfolding step ks True using rest(2)[OF apart] head l[unfolded ks True] by metis
    next
      case False
      then have "leaf_at rest ks = Some w" using l by (simp add: ks)
      then show ?thesis unfolding step by (rule rest(1))
    qed
  next
    fix x assume n: "\<nexists>ks w. leaf_at ((key, v) # rest) ks = Some w \<and> x = dotted path ks"
    have "\<nexists>ks w. leaf_at rest ks = Some w \<and> x = dotted path ks"
    proof safe
      fix ks w assume l: "leaf_at rest ks = Some w" "x = dotted path ks"
      then have "leaf_at ((key, v) # rest) ks = Some w" using ok(3) by (cases ks) auto
      then show False using n l(2) by blast
    qed
    then show "map_of (unwrap_maps ((key, v) # rest) path out) x = map_of out x"
      unfolding step using rest(2) untouched n by metis
  qed
qed

lemma parse_recursive_lookup:
  assumes "settings_ok m"
  shows "map_of (parse_recursive m path) x = Some j \<longleftrightarrow>
         (\<exists>ks v. x = dotted path ks \<and> leaf_at m ks = Some v \<and> j = json_of v)"
  using unwraps_maps[OF assms, of path "[]", unfolded parse_recursive_def[symmetric]]
  unfolding unwraps_def by (metis map_of.simps(1) option.distinct(1) option.inject)


subsection \<open>The settings\<close>

lemma split_at_not_Nil [simp]: "split_at c s \<noteq> []"
  by (cases s) (auto split: list.split)

lemma extra_args_not_Nil [simp]: "extra_args env \<noteq> []" and features_list_not_Nil [simp]: "features_list env \<noteq> []"
  by (simp_all add: extra_args_def features_list_def)

lemma update_not_Nil [simp]: "AList.update k v m \<noteq> []"
  by (induction m) auto

lemma extra_env_not_Nil: "extra_env shlex env = Inr m \<Longrightarrow> m \<noteq> []"
  by (auto simp: extra_env_def Let_def split: option.splits if_splits)

lemma settings_from_env_eq:
  "settings_from_env shlex env = bnd (extra_env shlex env) (\<lambda>m. Inr
     [(''files'', SMap [(''watcher'', SString ''server'')]),
      (''check'', SMap [(''command'', SString ''clippy''), (''allTargets'', SBool False),
                        (''extraArgs'', SArray (extra_args env))]),
      (''cargo'', SMap
        [(''buildScripts'', SMap [(''overrideCommand'',
            SArray ([SString ''cargo'', SString ''check''] @ extra_args env @ [SString ''--message-format=json'']))]),
         (''features'', SArray (features_list env)),
         (''extraEnv'', SFinalMap m)])])"
  by (cases "extra_env shlex env")
     (auto dest: extra_env_not_Nil simp: settings_from_env_def Let_def check_settings_def build_scripts_def)

lemma settings_from_env_ok: "settings_from_env shlex env = Inr s \<Longrightarrow> settings_ok s \<and> distinct (map fst s)"
  by (auto simp: settings_from_env_eq panic_simps)


subsection \<open>The commands\<close>

text \<open>
  What the script relies on of a file format: a file is a map, the empty file is the empty map, a
  printed map is parsed as the same map, and what is printed depends on the map only.
\<close>

definition format_ok :: "('f, 'v) file_format \<Rightarrow> bool" where
  "format_ok fmt \<longleftrightarrow>
     (\<forall>c m. parse_file fmt c = Some m \<longrightarrow> distinct (map fst m)) \<and> parse_file fmt (empty_file fmt) = Some [] \<and>
     (\<forall>m c. distinct (map fst m) \<longrightarrow> print_file fmt m = Some c \<longrightarrow>
        (\<exists>m'. parse_file fmt c = Some m' \<and> map_of m' = map_of m)) \<and>
     (\<forall>m m'. distinct (map fst m) \<longrightarrow> distinct (map fst m') \<longrightarrow> map_of m = map_of m' \<longrightarrow> print_file fmt m = print_file fmt m')"

lemma attempt_simps [simp]: "attempt (s, Inl e) k = (s, Inl e)" "attempt (s, Inr a) k = k s a"
  by (simp_all add: attempt_def)

lemma attempt_eq_Inr:
  "attempt r k = (t, Inr b) \<longleftrightarrow> (\<exists>s a. r = (s, Inr a) \<and> k s a = (t, Inr b))"
  by (cases r; cases "snd r") (auto simp: attempt_def)

lemma attempt_eq_Inl:
  "attempt r k = (t, Inl e) \<longleftrightarrow> r = (t, Inl e) \<or> (\<exists>s a. r = (s, Inr a) \<and> k s a = (t, Inl e))"
  by (cases r; cases "snd r") (auto simp: attempt_def)

lemma edit_settings_Inr:
  assumes "edit_settings shlex env os fmt dir path new d = (d', Inr ())"
  obtains s m c where "settings_from_env shlex env = Inr s"
    "parse_file fmt (case files d path of None \<Rightarrow> empty_file fmt | Some f \<Rightarrow> f) = Some m"
    "print_file fmt (insert_all (new s) m) = Some c" "files d' = (files d)(path \<mapsto> c)"
    "write_fault os path c = None" "\<not> absolute_fault os path" "\<not> read_fault os path" "\<forall>p. dir = Some p \<longrightarrow> dirs d' p"
  using assms unfolding edit_settings_def
  by (auto simp: attempt_eq_Inr fs_create_dir_def fs_write_def fs_read_def ok_or_eq_Inr
        split: if_splits option.splits)

lemma edit_settings_Inl:
  assumes "edit_settings shlex env os fmt dir path new d = (d', Inl e)" "e \<noteq> EditorIo" "files d p = Some f"
  shows "files d' p = Some f"
  using assms unfolding edit_settings_def
  by (auto simp: attempt_eq_Inl fs_create_dir_def fs_write_def fs_read_def ok_or_eq_Inr ok_or_eq_Inl
        split: if_splits option.splits)


text \<open>A successful command merges the new entries into the file and keeps all others.\<close>

lemma edit_settings_merges:
  assumes fmt: "format_ok fmt"
    and run: "edit_settings shlex env os fmt dir path new d = (d', Inr ())"
    and new: "\<And>s. settings_from_env shlex env = Inr s \<Longrightarrow> distinct (map fst (new s))"
  shows "\<exists>s m c' m'. settings_from_env shlex env = Inr s \<and>
           parse_file fmt (case files d path of None \<Rightarrow> empty_file fmt | Some f \<Rightarrow> f) = Some m \<and>
           files d' = (files d)(path \<mapsto> c') \<and> parse_file fmt c' = Some m' \<and> map_of m' = map_of m ++ map_of (new s)"
proof -
  obtain s m c where s: "settings_from_env shlex env = Inr s"
    "parse_file fmt (case files d path of None \<Rightarrow> empty_file fmt | Some f \<Rightarrow> f) = Some m"
    and c: "print_file fmt (insert_all (new s) m) = Some c" "files d' = (files d)(path \<mapsto> c)"
    using run by (rule edit_settings_Inr)
  have m: "distinct (map fst (insert_all (new s) m))"
    using fmt s(2) by (auto simp: format_ok_def intro!: distinct_insert_all)
  obtain m' where m': "parse_file fmt c = Some m'" "map_of m' = map_of (insert_all (new s) m)"
    using fmt m c(1) unfolding format_ok_def by blast
  have "map_of m' = map_of m ++ map_of (new s)"
    using m'(2) by (simp add: fun_eq_iff map_of_insert_all[OF new[OF s(1)]] map_add_def)
  then show ?thesis using s c(2) m'(1) by blast
qed

lemma edit_settings_idem:
  assumes fmt: "format_ok fmt"
    and run: "edit_settings shlex env os fmt dir path new d = (d', Inr ())"
    and new: "\<And>s. settings_from_env shlex env = Inr s \<Longrightarrow> distinct (map fst (new s))"
  shows "edit_settings shlex env os fmt dir path new d' = (d', Inr ())"
proof -
  obtain s m c where s: "settings_from_env shlex env = Inr s"
    "parse_file fmt (case files d path of None \<Rightarrow> empty_file fmt | Some f \<Rightarrow> f) = Some m"
    and c: "print_file fmt (insert_all (new s) m) = Some c" "files d' = (files d)(path \<mapsto> c)"
    and os: "write_fault os path c = None" "\<not> absolute_fault os path" "\<not> read_fault os path"
      "\<forall>p. dir = Some p \<longrightarrow> dirs d' p"
    using run by (rule edit_settings_Inr)
  have m: "distinct (map fst (insert_all (new s) m))"
    using fmt s(2) by (auto simp: format_ok_def intro!: distinct_insert_all)
  obtain m' where m': "parse_file fmt c = Some m'" "map_of m' = map_of (insert_all (new s) m)"
    using fmt m c(1) unfolding format_ok_def by blast
  have dm': "distinct (map fst m')" using fmt m'(1) unfolding format_ok_def by blast
  have "insert_all (new s) m' = m'"
    using new[OF s(1)] by (intro insert_all_present) (simp add: m'(2) map_of_insert_all del: map_of_eq_Some_iff)
  then have "print_file fmt (insert_all (new s) m') = Some c"
    using fmt m m'(2) dm' c(1) unfolding format_ok_def by metis
  then show ?thesis
    using os by (cases dir) (simp_all add: edit_settings_def c(2) fs_read_def m'(1) s(1) fs_write_def fun_upd_idem)
qed

text \<open>The entries of each command have distinct keys.\<close>

lemma distinct_entries [simp]:
  "distinct (map fst (zed_settings s :: (string \<times> 'n json) list))"
  "distinct (map fst (helix_settings s :: (string \<times> 'n toml) list))"
  "distinct (map fst (parse_recursive s path))"
  by (simp_all add: zed_settings_def helix_settings_def distinct_parse_recursive)

lemma map_fst_map_prod [simp]: "map fst (map (map_prod id f) m) = map fst m"
  by (induction m) auto

lemma settings_from_env_distinct: "settings_from_env shlex env = Inr s \<Longrightarrow> distinct (map fst s)"
  using settings_from_env_ok by blast

text \<open>
  Running a command of the editor script a second time changes nothing: in the same environment,
  and when no access fails that did not fail before, it succeeds and leaves the disk as it is.
\<close>

lemma editor_main_idempotent:
  assumes "format_ok json" "format_ok toml"
    and "editor_main command shlex env os json toml d = (d', Inr ())"
  shows "editor_main command shlex env os json toml d' = (d', Inr ())"
  using assms(3) unfolding editor_main_def vscode_run_def rust_analyzer_run_def helix_run_def zed_and_forks_def
  by (cases command) (auto elim!: edit_settings_idem[OF assms(1)] edit_settings_idem[OF assms(2)] simp: settings_from_env_distinct)

text \<open>
  The command for Visual Studio Code writes, for every setting at the end of a path of keys, the
  entry whose key is this path with dots, below \<open>rust-analyzer\<close>, and keeps all other entries of the
  settings file.
\<close>

lemma vscode_settings_written:
  fixes json :: "('f, 'n json) file_format"
  assumes "format_ok json" "files d ''.vscode/settings.json'' = Some c" "parse_file json c = Some m"
    and "vscode_run shlex env os json d = (d', Inr ())"
  shows "\<exists>s c' m'. settings_from_env shlex env = Inr s \<and> files d' ''.vscode/settings.json'' = Some c' \<and>
           parse_file json c' = Some m' \<and>
           (\<forall>x j. map_of m' x = Some j \<longleftrightarrow>
              (\<exists>ks v. x = dotted ''rust-analyzer'' ks \<and> leaf_at s ks = Some v \<and> j = json_of v) \<or>
              (\<nexists>ks v. x = dotted ''rust-analyzer'' ks \<and> leaf_at s ks = Some v) \<and> map_of m x = Some j)"
proof -
  obtain s c' m' where s: "settings_from_env shlex env = Inr s" "files d' = (files d)(''.vscode/settings.json'' \<mapsto> c')"
      "parse_file json c' = Some m'" "map_of m' = map_of m ++ map_of (parse_recursive s ''rust-analyzer'')"
    using edit_settings_merges[OF assms(1) assms(4)[unfolded vscode_run_def]] assms(2,3) by auto
  have look: "map_of (parse_recursive s ''rust-analyzer'') x = Some (j :: 'n json) \<longleftrightarrow>
      (\<exists>ks v. x = dotted ''rust-analyzer'' ks \<and> leaf_at s ks = Some v \<and> j = json_of v)" for x j
    using settings_from_env_ok[OF s(1)] by (intro parse_recursive_lookup) simp
  have none: "map_of (parse_recursive s ''rust-analyzer'' :: (string \<times> 'n json) list) x = None \<longleftrightarrow>
      (\<nexists>ks v. x = dotted ''rust-analyzer'' ks \<and> leaf_at s ks = Some v)" for x
    using look[of x] by (metis not_Some_eq)
  have "map_of m' x = Some j \<longleftrightarrow>
          (\<exists>ks v. x = dotted ''rust-analyzer'' ks \<and> leaf_at s ks = Some v \<and> j = json_of v) \<or>
          (\<nexists>ks v. x = dotted ''rust-analyzer'' ks \<and> leaf_at s ks = Some v) \<and> map_of m x = Some j" for x j
    unfolding s(4) map_add_Some_iff look none by blast
  then show ?thesis using s(1-3) by auto
qed

text \<open>
  A command of the editor script that fails for any other reason than an access to the disk (an
  environment without \<open>CARGO_ENV\<close>, settings that do not parse) leaves every existing file as it was.
\<close>

lemma failed_editor_keeps_files:
  assumes "editor_main command shlex env os json toml d = (d', Inl e)" "e \<noteq> EditorIo" "files d p = Some f"
  shows "files d' p = Some f"
  using assms(1)
  by (auto simp: editor_main_def vscode_run_def rust_analyzer_run_def helix_run_def zed_and_forks_def
        dest!: edit_settings_Inl[OF _ assms(2,3)] split: sub_command.splits)

text \<open>
  The settings of all other language servers are lost: Zed and Gram keep them in the object \<open>lsp\<close>
  and Helix in the table \<open>language-server\<close>, and these are replaced as a whole.
\<close>

lemma zed_replaces_lsp:
  assumes "format_ok json" "zed_and_forks flavor shlex env os json d = (d', Inr ())"
  shows "\<exists>s c m. settings_from_env shlex env = Inr s \<and> files d' (zed_settings_path flavor) = Some c \<and>
           parse_file json c = Some m \<and>
           map_of m ''lsp'' = Some (JObject [(''rust-analyzer'', JObject [(''initialization_options'', json_of (SMap s))])])"
  using edit_settings_merges[OF assms(1) assms(2)[unfolded zed_and_forks_def]]
  by (auto simp: zed_settings_def map_add_Some_iff)

lemma helix_replaces_language_servers:
  assumes "format_ok toml" "helix_run shlex env os toml d = (d', Inr ())"
  shows "\<exists>s c m. settings_from_env shlex env = Inr s \<and> files d' ''.helix/languages.toml'' = Some c \<and>
           parse_file toml c = Some m \<and>
           map_of m ''language-server'' = Some (TTable [(''rust-analyzer'', TTable [(''config'', toml_of (SMap s))])])"
  using edit_settings_merges[OF assms(1) assms(2)[unfolded helix_run_def]]
  by (auto simp: helix_settings_def toml_table_def map_add_Some_iff)

text \<open>
  The tests whether there are arguments or features never fail: splitting the empty text gives one
  empty piece.  Without \<open>CARGO_ARGS\<close> and \<open>FEATURES\<close>, cargo is called with an empty argument and an
  empty feature.
\<close>

lemma no_args_empty_argument:
  assumes "env ''CARGO_ARGS'' = None" "env ''FEATURES'' = None" "settings_from_env shlex env = Inr s"
  shows "leaf_at s [''cargo'', ''buildScripts'', ''overrideCommand''] =
           Some (SArray (map SString [''cargo'', ''check'', '''', ''--message-format=json'']))"
    and "leaf_at s [''cargo'', ''features''] = Some (SArray [SString ''''])"
  using assms(3)
  by (auto simp: settings_from_env_eq panic_simps extra_args_def features_list_def assms(1,2) trim_def
        is_space_def remove_each.simps)

text \<open>
  Existing variables: the variables of \<open>CARGO_ENV\<close> are handed on, the last one of a name, but for the
  four that the script sets itself.
\<close>

lemma env_of_tokens_lookup:
  "map_of (env_of_tokens tokens) k =
     map_option SString (map_of (rev (List.map_filter (split_pair CHR ''='') tokens)) k)"
proof -
  have "map_of (fold (\<lambda>token m. case split_pair CHR ''='' token of None \<Rightarrow> m | Some (k, v) \<Rightarrow> AList.update k (SString v) m)
          tokens acc) k =
        (case map_of (rev (List.map_filter (split_pair CHR ''='') tokens)) k of
           None \<Rightarrow> map_of acc k | Some v \<Rightarrow> Some (SString v))" for acc
    by (induction tokens arbitrary: acc)
       (auto simp: List.map_filter_simps update_conv' map_add_def split: option.splits)
  then show ?thesis by (simp add: env_of_tokens_def split: option.split)
qed

lemma extra_env_lookup:
  assumes "extra_env shlex env = Inr m" "env ''CARGO_ENV'' = Some line" "shlex line = Some tokens"
    and "k \<notin> {''CONFIG_WIFI_NETWORK'', ''CONFIG_WIFI_PASSWORD'', ''RUSTUP_TOOLCHAIN'', ''RUSTFLAGS''}"
  shows "map_of m k = map_option SString (map_of (rev (List.map_filter (split_pair CHR ''='') tokens)) k)"
  using assms by (auto simp: extra_env_def Let_def update_conv' env_of_tokens_lookup split: option.splits if_splits)

subsection \<open>Examples\<close>

text \<open>
  A format whose maps are sorted by their keys, as those of the printers are; the files of one disk
  are of several formats.
\<close>

definition sorted_format :: "((string \<times> 'v) list \<Rightarrow> 'f) \<Rightarrow> ('f \<Rightarrow> (string \<times> 'v) list option) \<Rightarrow> ('f, 'v) file_format" where
  "sorted_format to_file of_file =
     \<lparr>parse_file = \<lambda>c. case of_file c of None \<Rightarrow> None | Some m \<Rightarrow> if distinct (map fst m) then Some m else None,
      print_file = \<lambda>m. Some (to_file (sort_key fst m)),
      empty_file = to_file [], parse_error = EditorJson, print_error = EditorJson\<rparr>"

lemma sorted_format_ok:
  fixes to_file :: "(string \<times> 'v) list \<Rightarrow> 'f"
  assumes "\<And>m. of_file (to_file m) = Some m"
  shows "format_ok (sorted_format to_file of_file)"
proof -
  let ?sort = "sort_key fst :: (string \<times> 'v) list \<Rightarrow> _"
  have parse: "parse_file (sorted_format to_file of_file) (to_file m) = (if distinct (map fst m) then Some m else None)" for m
    by (simp add: sorted_format_def assms)
  have sort: "distinct (map fst (?sort m)) \<and> map_of (?sort m) = map_of m" if m: "distinct (map fst m)" for m
  proof -
    have d: "distinct (map fst (?sort m))" using m by (simp add: distinct_map)
    show ?thesis using map_of_inject_set[OF d m] d by simp
  qed
  have canonical: "?sort m = ?sort m'" if d: "distinct (map fst m)" "distinct (map fst m')" "map_of m = map_of m'" for m m'
  proof -
    have e: "set m = set m'" using map_of_inject_set[OF d(1,2)] d(3) by simp
    have i: "inj_on fst (set (?sort m) \<union> set (?sort m'))" using d(1) e by (simp add: distinct_map)
    show ?thesis
      by (rule map_sorted_distinct_set_unique[OF i]) (simp_all add: sort[OF d(1)] sort[OF d(2)] e)
  qed
  show ?thesis
    unfolding format_ok_def
  proof (intro conjI allI impI)
    fix c m assume "parse_file (sorted_format to_file of_file) c = Some m"
    then show "distinct (map fst m)" by (simp add: sorted_format_def split: option.splits if_splits)
  next
    show "parse_file (sorted_format to_file of_file) (empty_file (sorted_format to_file of_file)) = Some []"
      by (simp add: sorted_format_def assms)
  next
    fix m :: "(string \<times> 'v) list" and c
    assume m: "distinct (map fst m)" and "print_file (sorted_format to_file of_file) m = Some c"
    then have c: "c = to_file (?sort m)" by (simp add: sorted_format_def)
    have "parse_file (sorted_format to_file of_file) c = Some (?sort m)"
      using conjunct1[OF sort[OF m]] by (simp only: c parse if_True)
    then show "\<exists>m'. parse_file (sorted_format to_file of_file) c = Some m' \<and> map_of m' = map_of m"
      using conjunct2[OF sort[OF m]] by (intro exI conjI)
  next
    fix m m' :: "(string \<times> 'v) list"
    assume "distinct (map fst m)" "distinct (map fst m')" "map_of m = map_of m'"
    then have "?sort m = ?sort m'" by (rule canonical)
    then show "print_file (sorted_format to_file of_file) m = print_file (sorted_format to_file of_file) m'"
      by (simp add: sorted_format_def)
  qed
qed

definition example_json :: "((string \<times> int json) list + (string \<times> int toml) list, int json) file_format" where
  "example_json = sorted_format Inl (\<lambda>c. case c of Inl m \<Rightarrow> Some m | Inr _ \<Rightarrow> None)"

definition example_toml :: "((string \<times> int json) list + (string \<times> int toml) list, int toml) file_format" where
  "example_toml = sorted_format Inr (\<lambda>c. case c of Inl _ \<Rightarrow> None | Inr m \<Rightarrow> Some m)"

lemma example_formats_ok: "format_ok example_json" "format_ok example_toml"
  unfolding example_json_def example_toml_def by (rule sorted_format_ok; simp)+

definition example_shlex :: "string \<Rightarrow> string list option" where
  "example_shlex line = Some (split_at CHR '' '' line)"

definition no_faults :: "'f faults" where
  "no_faults = \<lparr>create_fault = \<lambda>_. False, write_fault = \<lambda>_ _. None, read_fault = \<lambda>_. False, absolute_fault = \<lambda>_. False\<rparr>"

definition example_disk :: "((string \<times> int json) list + (string \<times> int toml) list) disk" where
  "example_disk =
     \<lparr>dirs = \<lambda>_. False, files = [''.vscode/settings.json'' \<mapsto> Inl [(''editor.fontSize'', JNumber 12)]]\<rparr>"

definition example_env :: environment where
  "example_env = [''CARGO_ENV'' \<mapsto> ''BOARD=native A=1'', ''FEATURES'' \<mapsto> ''--features=a,b'']"

lemma example_runs:
  "\<exists>d. vscode_run example_shlex example_env no_faults example_json example_disk = (d, Inr ())"
proof -
  have "snd (vscode_run example_shlex example_env no_faults example_json example_disk) = Inr ()"
    by code_simp
  then show ?thesis by (metis prod.collapse)
qed

lemma editor_main_idempotent_witness:
  "\<exists>d. editor_main VsCodeCommand example_shlex example_env no_faults example_json example_toml d = (d, Inr ())"
proof -
  obtain d where "vscode_run example_shlex example_env no_faults example_json example_disk = (d, Inr ())"
    using example_runs by blast
  then have "editor_main VsCodeCommand example_shlex example_env no_faults example_json example_toml example_disk = (d, Inr ())"
    by (simp add: editor_main_def)
  then show ?thesis
    using editor_main_idempotent[OF example_formats_ok] by blast
qed

lemma vscode_settings_written_witness:
  "\<exists>d' c' m'. vscode_run example_shlex example_env no_faults example_json example_disk = (d', Inr ()) \<and>
     files d' ''.vscode/settings.json'' = Some c' \<and> parse_file example_json c' = Some m' \<and>
     map_of m' ''rust-analyzer.files.watcher'' = Some (JString ''server'')"
proof -
  obtain d' where d': "vscode_run example_shlex example_env no_faults example_json example_disk = (d', Inr ())"
    using example_runs by blast
  have old: "files example_disk ''.vscode/settings.json'' = Some (Inl [(''editor.fontSize'', JNumber 12)])"
    "parse_file example_json (Inl [(''editor.fontSize'', JNumber 12)]) = Some [(''editor.fontSize'', JNumber 12)]"
    by (simp_all add: example_disk_def example_json_def sorted_format_def)
  obtain s c' m' where s: "settings_from_env example_shlex example_env = Inr s"
      "files d' ''.vscode/settings.json'' = Some c'" "parse_file example_json c' = Some m'"
      and m': "\<And>x j. map_of m' x = Some j \<longleftrightarrow>
              (\<exists>ks v. x = dotted ''rust-analyzer'' ks \<and> leaf_at s ks = Some v \<and> j = json_of v) \<or>
              (\<nexists>ks v. x = dotted ''rust-analyzer'' ks \<and> leaf_at s ks = Some v) \<and>
                map_of [(''editor.fontSize'', JNumber 12)] x = Some j"
    using vscode_settings_written[OF example_formats_ok(1) old d'] by blast
  have "leaf_at s [''files'', ''watcher''] = Some (SString ''server'')"
    using s(1) by (auto simp: settings_from_env_eq panic_simps)
  then have "map_of m' (dotted ''rust-analyzer'' [''files'', ''watcher'']) = Some (JString ''server'')"
    unfolding m'
    by (intro disjI1 exI[of _ "[''files'', ''watcher'']"] exI[of _ "SString ''server''"]) simp
  then show ?thesis using d' s(2,3) by auto
qed

lemma failed_editor_keeps_files_witness:
  "\<exists>d'. editor_main VsCodeCommand example_shlex (\<lambda>_. None) no_faults example_json example_toml example_disk
           = (d', Inl CargoEnvNotSet) \<and>
     files d' ''.vscode/settings.json'' = Some (Inl [(''editor.fontSize'', JNumber 12)])"
proof -
  let ?r = "editor_main VsCodeCommand example_shlex (\<lambda>_. None) no_faults example_json example_toml example_disk"
  have "snd ?r = Inl CargoEnvNotSet" by code_simp
  then have r: "?r = (fst ?r, Inl CargoEnvNotSet)" by (metis prod.collapse)
  have "files (fst ?r) ''.vscode/settings.json'' = Some (Inl [(''editor.fontSize'', JNumber 12)])"
    by (rule failed_editor_keeps_files[OF r]) (simp_all add: example_disk_def)
  then show ?thesis using r by blast
qed

end
