(* ===== verification/NativeThreads.thy ===== *)
theory NativeThreads
  imports Scheduler
begin

section \<open>Threads on a host system (\<open>arch/native.rs\<close>, feature \<open>infini-core\<close>)\<close>

text \<open>
  Each thread of Ariel OS runs in a thread of the host, and there is no run queue.  A thread that may
  not run waits at the end of its outermost critical section, on its entry of \<open>THREAD_RUNNABLE\<close>.  The
  critical section is a mutex of the host with a flag in each host thread that makes it reentrant.

  A host thread is a record: the thread-local variables \<open>ID\<close> and \<open>IS_LOCKED\<close>, the tokens that its
  open critical sections got from \<open>acquire\<close>, and where it is.  \<open>GLOBAL_MUTEX\<close> is the host thread that
  has it.  \<open>atomic_wait\<close> compares and blocks in one step; \<open>wake_one\<close> wakes one of the threads blocked
  on the variable, the one that \<open>pick\<close> says.  It is documented that \<open>wait\<close> may return without a wake.
\<close>

datatype host_pc =
    HRun
  | HLock          \<comment> \<open>in \<open>acquire\<close>, the flag is set, waiting for \<open>GLOBAL_MUTEX\<close>\<close>
  | HUnlocked      \<comment> \<open>in \<open>release\<close>, the guard is dropped, the flag still set\<close>
  | HWait          \<comment> \<open>about to call \<open>atomic_wait::wait\<close> on the own entry\<close>
  | HBlocked       \<comment> \<open>blocked in \<open>wait\<close>\<close>
  | HCreate nat    \<comment> \<open>in \<open>create_raw\<close>, the host thread of a new thread is spawned\<close>
  | HKick nat      \<comment> \<open>in the loop of \<open>start_threading\<close> over all threads\<close>
  | HGone          \<comment> \<open>the closure of the host thread has returned\<close>

record host =
  h_tid :: "nat option"
  h_locked :: bool
  h_cs :: "bool list"
  h_pc :: host_pc
  h_ended :: bool

record native =
  hosts :: "host list"
  cs_owner :: "nat option"
  runnable :: "32 word list"
  tstates :: "thread_state list"

definition new_host :: "nat option \<Rightarrow> host_pc \<Rightarrow> host" where
  "new_host tid pc = \<lparr>h_tid = tid, h_locked = False, h_cs = [], h_pc = pc, h_ended = False\<rparr>"

text \<open>The process starts with the main thread, which has no identifier.\<close>

definition native_init :: native where
  "native_init =
     \<lparr>hosts = [new_host None HRun], cs_owner = None, runnable = replicate thread_count 0,
      tstates = replicate thread_count Invalid\<rparr>"

definition at_host :: "nat \<Rightarrow> (host \<Rightarrow> host) \<Rightarrow> native \<Rightarrow> native" where
  "at_host h f st = st\<lparr>hosts := (hosts st)[h := f (hosts st ! h)]\<rparr>"

subsection \<open>Waiting and waking\<close>

text \<open>What follows a return from \<open>wait\<close>: the thread goes on, or its closure ends.\<close>

definition resume_host :: "host \<Rightarrow> host" where
  "resume_host H = H\<lparr>h_pc := if h_ended H then HGone else HRun\<rparr>"

definition blocked_hosts :: "nat \<Rightarrow> native \<Rightarrow> nat list" where
  "blocked_hosts t st =
     filter (\<lambda>h. h_pc (hosts st ! h) = HBlocked \<and> h_tid (hosts st ! h) = Some t) [0..<length (hosts st)]"

definition wake_one :: "nat \<Rightarrow> nat \<Rightarrow> native \<Rightarrow> native" where
  "wake_one pick t st =
     (let hs = blocked_hosts t st
      in if hs = [] then st else at_host (hs ! (pick mod length hs)) resume_host st)"

definition set_running :: "nat \<Rightarrow> nat \<Rightarrow> native \<Rightarrow> native" where
  "set_running pick t st =
     (let old = runnable st ! t; st = st\<lparr>runnable := (runnable st)[t := 1]\<rparr>
      in if old = 0 then wake_one pick t st else st)"

definition set_stopped :: "nat \<Rightarrow> native \<Rightarrow> native" where
  "set_stopped t st = st\<lparr>runnable := (runnable st)[t := 0]\<rparr>"

text \<open>\<open>Scheduler::set_state\<close> with this feature; \<open>schedule\<close> does nothing.\<close>

definition native_set_state :: "nat \<Rightarrow> nat \<Rightarrow> thread_state \<Rightarrow> native \<Rightarrow> native" where
  "native_set_state pick t s st =
     (let old_state = tstates st ! t; st = st\<lparr>tstates := (tstates st)[t := s]\<rparr>
      in if s = Running then set_running pick t st
         else if old_state = Running then set_stopped t st
         else st)"

subsection \<open>The critical section\<close>

text \<open>\<open>acquire\<close> returns whether the critical section is nested in another one of the same thread.\<close>

definition cs_acquire :: "nat \<Rightarrow> native \<Rightarrow> native option" where
  "cs_acquire h st =
     (let H = hosts st ! h
      in if h_pc H = HRun then
           Some (at_host h (\<lambda>H. if h_locked H then H\<lparr>h_cs := True # h_cs H\<rparr>
                                else H\<lparr>h_locked := True, h_pc := HLock\<rparr>) st)
         else None)"

definition cs_locked :: "nat \<Rightarrow> native \<Rightarrow> native option" where
  "cs_locked h st =
     (if h_pc (hosts st ! h) = HLock \<and> cs_owner st = None
      then Some (at_host h (\<lambda>H. H\<lparr>h_cs := [False], h_pc := HRun\<rparr>) (st\<lparr>cs_owner := Some h\<rparr>))
      else None)"

text \<open>
  \<open>release\<close> of \<open>ArielCriticalSection\<close>: with the token of the outermost critical section the guard is
  dropped, then the flag is cleared, then a thread with an identifier waits until it is runnable.
\<close>

definition cs_release :: "nat \<Rightarrow> native \<Rightarrow> native option" where
  "cs_release h st =
     (let H = hosts st ! h
      in case h_cs H of
           nested_cs # outer \<Rightarrow>
             if h_pc H = HRun then
               Some (if nested_cs then at_host h (\<lambda>H. H\<lparr>h_cs := outer\<rparr>) st
                     else at_host h (\<lambda>H. H\<lparr>h_cs := outer, h_pc := HUnlocked\<rparr>) (st\<lparr>cs_owner := None\<rparr>))
             else None
         | [] \<Rightarrow> None)"

definition cs_clear_flag :: "nat \<Rightarrow> native \<Rightarrow> native option" where
  "cs_clear_flag h st =
     (if h_pc (hosts st ! h) = HUnlocked
      then Some (at_host h (\<lambda>H. H\<lparr>h_locked := False, h_pc := if h_tid H = None then HRun else HWait\<rparr>) st)
      else None)"

definition wait_runnable :: "nat \<Rightarrow> native \<Rightarrow> native option" where
  "wait_runnable h st =
     (let H = hosts st ! h
      in case h_tid H of
           Some t \<Rightarrow>
             if h_pc H = HWait
             then Some (at_host h (\<lambda>H. if runnable st ! t = 0 then H\<lparr>h_pc := HBlocked\<rparr> else resume_host H) st)
             else None
         | None \<Rightarrow> None)"

definition spurious_return :: "nat \<Rightarrow> native \<Rightarrow> native option" where
  "spurious_return h st = (if h_pc (hosts st ! h) = HBlocked then Some (at_host h resume_host st) else None)"

subsection \<open>Operations inside a critical section\<close>

definition in_cs :: "nat \<Rightarrow> native \<Rightarrow> bool" where
  "in_cs h st \<longleftrightarrow> h_pc (hosts st ! h) = HRun \<and> h_cs (hosts st ! h) \<noteq> [] \<and> \<not> h_ended (hosts st ! h)"

text \<open>A thread takes itself off: it parks, or blocks on a lock, on flags or on a channel.\<close>

definition stop_self :: "nat \<Rightarrow> thread_state \<Rightarrow> native \<Rightarrow> native option" where
  "stop_self h s st =
     (case h_tid (hosts st ! h) of
        Some t \<Rightarrow> if in_cs h st \<and> s \<notin> {Running, Invalid} then Some (native_set_state 0 t s st) else None
      | None \<Rightarrow> None)"

text \<open>A thread wakes another one: \<open>unpark\<close>, the release of a lock, a flag, a message.\<close>

definition wake_other :: "nat \<Rightarrow> nat \<Rightarrow> nat \<Rightarrow> native \<Rightarrow> native option" where
  "wake_other h t pick st =
     (if in_cs h st \<and> t < thread_count \<and> tstates st ! t \<notin> {Running, Invalid}
      then Some (native_set_state pick t Running st) else None)"

text \<open>
  \<open>create_raw\<close>: the slot is taken and the host thread is spawned; it sets its identifier and waits.
  Then the thread is made runnable.  Without a free slot the call panics, which ends the process.
\<close>

definition unused_slot :: "native \<Rightarrow> nat option" where
  "unused_slot st = find (\<lambda>i. tstates st ! i = Invalid) [0..<thread_count]"

definition create_thread :: "nat \<Rightarrow> native \<Rightarrow> native option" where
  "create_thread h st =
     (case unused_slot st of
        Some i \<Rightarrow>
          if in_cs h st
          then Some (st\<lparr>tstates := (tstates st)[i := Parked],
                        hosts := (hosts st)[h := (hosts st ! h)\<lparr>h_pc := HCreate i\<rparr>] @ [new_host (Some i) HWait]\<rparr>)
          else None
      | None \<Rightarrow> None)"

definition start_created :: "nat \<Rightarrow> nat \<Rightarrow> native \<Rightarrow> native option" where
  "start_created h pick st =
     (case h_pc (hosts st ! h) of
        HCreate i \<Rightarrow> Some (native_set_state pick i Running (at_host h (\<lambda>H. H\<lparr>h_pc := HRun\<rparr>) st))
      | _ \<Rightarrow> None)"

text \<open>The end of a thread: its function has returned, and the closure makes the slot free.\<close>

definition end_thread :: "nat \<Rightarrow> native \<Rightarrow> native option" where
  "end_thread h st =
     (case h_tid (hosts st ! h) of
        Some t \<Rightarrow>
          if in_cs h st \<and> h_cs (hosts st ! h) = [False]
          then Some (native_set_state 0 t Invalid (at_host h (\<lambda>H. H\<lparr>h_ended := True\<rparr>) st)) else None
      | None \<Rightarrow> None)"

text \<open>\<open>start_threading\<close>, in the main thread: a pass over all threads, again after each return from \<open>park\<close>.\<close>

definition kick_begin :: "nat \<Rightarrow> native \<Rightarrow> native option" where
  "kick_begin h st =
     (if in_cs h st \<and> h_tid (hosts st ! h) = None then Some (at_host h (\<lambda>H. H\<lparr>h_pc := HKick 0\<rparr>) st) else None)"

definition kick_step :: "nat \<Rightarrow> nat \<Rightarrow> native \<Rightarrow> native option" where
  "kick_step h pick st =
     (case h_pc (hosts st ! h) of
        HKick n \<Rightarrow>
          if n < thread_count
          then Some (at_host h (\<lambda>H. H\<lparr>h_pc := HKick (n + 1)\<rparr>)
                       (if tstates st ! n = Running then set_running pick n st else st))
          else Some (at_host h (\<lambda>H. H\<lparr>h_pc := HRun\<rparr>) st)
      | _ \<Rightarrow> None)"

subsection \<open>Runs\<close>

datatype native_event =
    NAcquire nat | NLocked nat | NRelease nat | NClearFlag nat | NWait nat | NSpurious nat
  | NStop nat thread_state | NWake nat nat nat | NCreate nat | NStart nat nat | NEnd nat
  | NKickBegin nat | NKick nat nat

fun event_host :: "native_event \<Rightarrow> nat" where
  "event_host (NAcquire h) = h" | "event_host (NLocked h) = h" | "event_host (NRelease h) = h"
| "event_host (NClearFlag h) = h" | "event_host (NWait h) = h" | "event_host (NSpurious h) = h"
| "event_host (NStop h s) = h" | "event_host (NWake h t pick) = h" | "event_host (NCreate h) = h"
| "event_host (NStart h pick) = h" | "event_host (NEnd h) = h" | "event_host (NKickBegin h) = h"
| "event_host (NKick h pick) = h"

fun native_step :: "native_event \<Rightarrow> native \<Rightarrow> native option" where
  "native_step (NAcquire h) st = cs_acquire h st"
| "native_step (NLocked h) st = cs_locked h st"
| "native_step (NRelease h) st = cs_release h st"
| "native_step (NClearFlag h) st = cs_clear_flag h st"
| "native_step (NWait h) st = wait_runnable h st"
| "native_step (NSpurious h) st = spurious_return h st"
| "native_step (NStop h s) st = stop_self h s st"
| "native_step (NWake h t pick) st = wake_other h t pick st"
| "native_step (NCreate h) st = create_thread h st"
| "native_step (NStart h pick) st = start_created h pick st"
| "native_step (NEnd h) st = end_thread h st"
| "native_step (NKickBegin h) st = kick_begin h st"
| "native_step (NKick h pick) st = kick_step h pick st"

text \<open>
  \<open>spurious\<close>: \<open>wait\<close> may return without a wake.  \<open>reuse\<close>: a slot may be taken again while the host
  thread of its last thread has not returned; \<open>fresh_slot\<close> is the situation without that.
\<close>

definition fresh_slot :: "native \<Rightarrow> bool" where
  "fresh_slot st \<longleftrightarrow>
     (case unused_slot st of None \<Rightarrow> True
      | Some i \<Rightarrow> list_all (\<lambda>H. h_tid H \<noteq> Some i \<or> h_pc H = HGone) (hosts st))"

fun allowed :: "bool \<Rightarrow> bool \<Rightarrow> native_event \<Rightarrow> native \<Rightarrow> bool" where
  "allowed spurious reuse (NSpurious h) st \<longleftrightarrow> spurious"
| "allowed spurious reuse (NCreate h) st \<longleftrightarrow> reuse \<or> fresh_slot st"
| "allowed spurious reuse e st \<longleftrightarrow> True"

inductive native_reach :: "bool \<Rightarrow> bool \<Rightarrow> native \<Rightarrow> bool" for spurious reuse where
  start: "native_reach spurious reuse native_init"
| step: "native_reach spurious reuse st \<Longrightarrow> event_host e < length (hosts st) \<Longrightarrow> allowed spurious reuse e st \<Longrightarrow>
         native_step e st = Some st' \<Longrightarrow> native_reach spurious reuse st'"

subsection \<open>Effects of the operations\<close>

lemma at_host_simps [simp]:
  "length (hosts (at_host h f st)) = length (hosts st)"
  "cs_owner (at_host h f st) = cs_owner st" "runnable (at_host h f st) = runnable st"
  "tstates (at_host h f st) = tstates st"
  "i < length (hosts st) \<Longrightarrow> hosts (at_host h f st) ! i = (if i = h then f (hosts st ! h) else hosts st ! i)"
  by (auto simp: at_host_def)

lemma resume_host_simps [simp]:
  "h_tid (resume_host H) = h_tid H" "h_locked (resume_host H) = h_locked H" "h_cs (resume_host H) = h_cs H"
  "h_ended (resume_host H) = h_ended H" "h_pc (resume_host H) = (if h_ended H then HGone else HRun)"
  by (simp_all add: resume_host_def)

lemma in_blocked_hosts [simp]:
  "i \<in> set (blocked_hosts t st) \<longleftrightarrow>
     i < length (hosts st) \<and> h_pc (hosts st ! i) = HBlocked \<and> h_tid (hosts st ! i) = Some t"
  by (auto simp: blocked_hosts_def)

lemma wake_one_cases:
  obtains "blocked_hosts t st = []" "wake_one pick t st = st"
  | w where "w \<in> set (blocked_hosts t st)" "wake_one pick t st = at_host w resume_host st"
proof (cases "blocked_hosts t st = []")
  case False
  then have "blocked_hosts t st ! (pick mod length (blocked_hosts t st)) \<in> set (blocked_hosts t st)"
    by (intro nth_mem) simp
  then show ?thesis using that(2) False by (simp add: wake_one_def Let_def)
qed (use that(1) in \<open>simp add: wake_one_def\<close>)

lemma set_state_simps [simp]:
  "length (hosts (native_set_state pick t s st)) = length (hosts st)"
  "cs_owner (native_set_state pick t s st) = cs_owner st"
  "tstates (native_set_state pick t s st) = (tstates st)[t := s]"
  "runnable (native_set_state pick t s st) =
     (if s = Running then (runnable st)[t := 1]
      else if tstates st ! t = Running then (runnable st)[t := 0] else runnable st)"
  by (auto simp: native_set_state_def set_running_def set_stopped_def Let_def wake_one_def)

text \<open>Setting the state of a thread resumes at most host threads blocked for it.\<close>

definition woken_for :: "nat \<Rightarrow> host \<Rightarrow> host \<Rightarrow> bool" where
  "woken_for t H H' \<longleftrightarrow> H' = H \<or> h_pc H = HBlocked \<and> h_tid H = Some t \<and> H' = resume_host H"

lemma set_running_hosts:
  "length (hosts (set_running pick t st)) = length (hosts st)"
  "cs_owner (set_running pick t st) = cs_owner st" "tstates (set_running pick t st) = tstates st"
  "runnable (set_running pick t st) = (runnable st)[t := 1]"
  "i < length (hosts st) \<Longrightarrow> woken_for t (hosts st ! i) (hosts (set_running pick t st) ! i)"
proof -
  let ?st = "st\<lparr>runnable := (runnable st)[t := 1]\<rparr>"
  have b: "blocked_hosts t ?st = blocked_hosts t st" by (simp add: blocked_hosts_def)
  show "length (hosts (set_running pick t st)) = length (hosts st)"
    "cs_owner (set_running pick t st) = cs_owner st" "tstates (set_running pick t st) = tstates st"
    "runnable (set_running pick t st) = (runnable st)[t := 1]"
    "i < length (hosts st) \<Longrightarrow> woken_for t (hosts st ! i) (hosts (set_running pick t st) ! i)"
    by (cases rule: wake_one_cases[of t ?st pick]; auto simp: set_running_def Let_def woken_for_def b)+
qed

lemma set_state_hosts:
  assumes "i < length (hosts st)"
  shows "woken_for t (hosts st ! i) (hosts (native_set_state pick t s st) ! i)"
  using set_running_hosts(5)[of i "st\<lparr>tstates := (tstates st)[t := s]\<rparr>" t pick] assms
  by (auto simp: native_set_state_def Let_def set_stopped_def woken_for_def)

text \<open>With a single host thread for \<open>t\<close>, none is blocked any more when \<open>t\<close> runs.\<close>

lemma set_running_wakes:
  assumes "runnable st ! t = 0" "i < length (hosts st)" "h_pc (hosts st ! i) = HBlocked" "h_tid (hosts st ! i) = Some t"
    and "\<And>j. j \<in> set (blocked_hosts t st) \<Longrightarrow> j = i"
  shows "hosts (set_running pick t st) ! i = resume_host (hosts st ! i)"
proof -
  let ?st = "st\<lparr>runnable := (runnable st)[t := 1]\<rparr>"
  have "set_running pick t st = wake_one pick t ?st" by (simp add: set_running_def assms(1))
  moreover from wake_one_cases[of t ?st pick] have "hosts (wake_one pick t ?st) ! i = resume_host (hosts st ! i)"
  proof cases
    case 1
    then show ?thesis using assms(2-4) in_blocked_hosts[of i t ?st] by simp
  next
    case (2 w)
    then have "w = i" using assms(5)[of w] by (simp add: blocked_hosts_def)
    then show ?thesis using 2(2) assms(2) by simp
  qed
  ultimately show ?thesis by simp
qed

subsection \<open>Mutual exclusion\<close>

text \<open>
  What holds of each host thread: it has \<open>GLOBAL_MUTEX\<close> exactly while it has open critical sections,
  only the outermost of them has the token \<open>False\<close>, and the flag \<open>IS_LOCKED\<close> is set from the start of
  the outermost \<open>acquire\<close> to the end of the matching \<open>release\<close>.
\<close>

definition host_cs_ok :: "bool \<Rightarrow> host \<Rightarrow> bool" where
  "host_cs_ok own H \<longleftrightarrow>
     (own \<longleftrightarrow> h_cs H \<noteq> []) \<and> (h_cs H \<noteq> [] \<longrightarrow> \<not> last (h_cs H) \<and> list_all id (butlast (h_cs H))) \<and>
     (case h_pc H of
        HRun \<Rightarrow> h_locked H = own
      | HLock \<Rightarrow> h_locked H \<and> \<not> own
      | HUnlocked \<Rightarrow> h_locked H \<and> \<not> own
      | HCreate _ \<Rightarrow> h_locked H \<and> own
      | HKick _ \<Rightarrow> h_locked H \<and> own
      | _ \<Rightarrow> \<not> h_locked H \<and> \<not> own)"

definition cs_ok :: "native \<Rightarrow> bool" where
  "cs_ok st \<longleftrightarrow> (\<forall>h < length (hosts st). host_cs_ok (cs_owner st = Some h) (hosts st ! h))"

lemma cs_okD: "cs_ok st \<Longrightarrow> h < length (hosts st) \<Longrightarrow> host_cs_ok (cs_owner st = Some h) (hosts st ! h)"
  by (simp add: cs_ok_def)

lemma host_cs_ok_woken: "host_cs_ok own H \<Longrightarrow> woken_for t H H' \<Longrightarrow> host_cs_ok own H'"
  by (auto simp: host_cs_ok_def woken_for_def)

lemma cs_ok_set_state: "cs_ok st \<Longrightarrow> cs_ok (native_set_state pick t s st)"
  unfolding cs_ok_def using set_state_hosts host_cs_ok_woken by fastforce

lemma cs_ok_set_running: "cs_ok st \<Longrightarrow> cs_ok (set_running pick t st)"
  unfolding cs_ok_def using set_running_hosts host_cs_ok_woken by fastforce

lemma cs_ok_at_host:
  "cs_ok st \<Longrightarrow> (h < length (hosts st) \<Longrightarrow> host_cs_ok (cs_owner st = Some h) (f (hosts st ! h))) \<Longrightarrow> cs_ok (at_host h f st)"
  by (auto simp: cs_ok_def)

lemma native_init_cs: "cs_ok native_init"
  by (simp add: cs_ok_def native_init_def new_host_def host_cs_ok_def)


lemma host_cs_ok_release:
  assumes "host_cs_ok own H" "h_cs H = b # outer" "h_pc H = HRun"
  shows "if b then host_cs_ok own (H\<lparr>h_cs := outer\<rparr>) else outer = [] \<and> host_cs_ok False (H\<lparr>h_cs := outer, h_pc := HUnlocked\<rparr>)"
  using assms by (cases outer) (auto simp: host_cs_ok_def)

lemma cs_ok_others:
  assumes "cs_ok st" "cs_owner st = Some h \<or> cs_owner st = None" "ow = Some h \<or> ow = None"
    "h < length (hosts st) \<Longrightarrow> host_cs_ok (ow = Some h) (f (hosts st ! h))"
  shows "cs_ok (at_host h f (st\<lparr>cs_owner := ow\<rparr>))"
  unfolding cs_ok_def
proof (intro allI impI)
  fix i assume i: "i < length (hosts (at_host h f (st\<lparr>cs_owner := ow\<rparr>)))"
  show "host_cs_ok (cs_owner (at_host h f (st\<lparr>cs_owner := ow\<rparr>)) = Some i) (hosts (at_host h f (st\<lparr>cs_owner := ow\<rparr>)) ! i)"
    using i assms cs_okD[OF assms(1), of i] by (cases "i = h") auto
qed

lemma cs_ok_step:
  assumes "cs_ok st" "native_step e st = Some st'" "event_host e < length (hosts st)"
  shows "cs_ok st'"
proof (cases e)
  case (NAcquire h)
  then show ?thesis
    using assms cs_okD[OF assms(1), of h]
    by (auto simp: cs_acquire_def Let_def host_cs_ok_def split: if_splits intro!: cs_ok_at_host)
next
  case (NLocked h)
  then show ?thesis
    using assms cs_okD[OF assms(1), of h]
    by (auto simp: cs_locked_def host_cs_ok_def split: if_splits intro!: cs_ok_others)
next
  case (NRelease h)
  then obtain b outer where H: "h_cs (hosts st ! h) = b # outer" "h_pc (hosts st ! h) = HRun"
    using assms(2) by (auto simp: cs_release_def Let_def split: list.splits if_splits)
  have own: "cs_owner st = Some h" using cs_okD[OF assms(1), of h] assms(3) NRelease H by (simp add: host_cs_ok_def)
  show ?thesis
    using assms host_cs_ok_release[OF cs_okD[OF assms(1), of h] H] own
      cs_ok_others[OF assms(1), of h None "\<lambda>H. H\<lparr>h_cs := outer, h_pc := HUnlocked\<rparr>"]
    by (cases b) (auto simp: NRelease cs_release_def H intro: cs_ok_at_host)
next
  case (NClearFlag h)
  then show ?thesis
    using assms cs_okD[OF assms(1), of h]
    by (auto simp: cs_clear_flag_def host_cs_ok_def split: if_splits intro!: cs_ok_at_host)
next
  case (NWait h)
  then show ?thesis
    using assms cs_okD[OF assms(1), of h]
    by (auto simp: wait_runnable_def Let_def host_cs_ok_def split: option.splits if_splits intro!: cs_ok_at_host)
next
  case (NSpurious h)
  then show ?thesis
    using assms cs_okD[OF assms(1), of h]
    by (auto simp: spurious_return_def host_cs_ok_def split: if_splits intro!: cs_ok_at_host)
next
  case (NStop h s)
  then show ?thesis
    using assms by (auto simp: stop_self_def split: option.splits if_splits intro!: cs_ok_set_state)
next
  case (NWake h t pick)
  then show ?thesis
    using assms by (auto simp: wake_other_def split: if_splits intro!: cs_ok_set_state)
next
  case (NCreate h)
  then obtain i where cs: "in_cs h st" and st': "st' = st\<lparr>tstates := (tstates st)[i := Parked],
      hosts := (hosts st)[h := (hosts st ! h)\<lparr>h_pc := HCreate i\<rparr>] @ [new_host (Some i) HWait]\<rparr>"
    using assms(2) by (auto simp: create_thread_def split: option.splits if_splits)
  have h: "h < length (hosts st)" using assms(3) NCreate by simp
  have own: "cs_owner st = Some h" "host_cs_ok True ((hosts st ! h)\<lparr>h_pc := HCreate i\<rparr>)"
    using cs_okD[OF assms(1) h] cs by (auto simp: in_cs_def host_cs_ok_def)
  have new: "host_cs_ok False (new_host (Some i) HWait)" by (simp add: host_cs_ok_def new_host_def)
  show ?thesis
    unfolding cs_ok_def
  proof (intro allI impI)
    fix k assume "k < length (hosts st')"
    then consider "k = h" | "k \<noteq> h" "k < length (hosts st)" | "k = length (hosts st)" by (fastforce simp: st')
    then show "host_cs_ok (cs_owner st' = Some k) (hosts st' ! k)"
      using cs_okD[OF assms(1), of k] own new h by cases (simp_all add: st' nth_append)
  qed
next
  case (NStart h pick)
  then show ?thesis
    using assms cs_okD[OF assms(1), of h]
    by (auto simp: start_created_def host_cs_ok_def split: host_pc.splits intro!: cs_ok_set_state cs_ok_at_host)
next
  case (NEnd h)
  then show ?thesis
    using assms cs_okD[OF assms(1), of h]
    by (auto simp: end_thread_def in_cs_def host_cs_ok_def split: option.splits if_splits intro!: cs_ok_set_state cs_ok_at_host)
next
  case (NKickBegin h)
  then show ?thesis
    using assms cs_okD[OF assms(1), of h]
    by (auto simp: kick_begin_def host_cs_ok_def in_cs_def split: if_splits intro!: cs_ok_at_host)
next
  case (NKick h pick)
  show ?thesis
    using assms cs_okD[OF assms(1), of h] set_running_hosts(5)[of h st _ pick]
    by (auto simp: NKick kick_step_def host_cs_ok_def woken_for_def set_running_hosts split: host_pc.splits if_splits
          intro!: cs_ok_set_running cs_ok_at_host)
qed


lemma native_cs_ok: "native_reach spurious reuse st \<Longrightarrow> cs_ok st"
  by (induction rule: native_reach.induct) (auto intro: native_init_cs cs_ok_step)

text \<open>
  The critical section of the native port is exclusive: in every reachable state at most one host
  thread has an open critical section, however deep the sections are nested, and releasing a nested
  one does not give up the lock.
\<close>

lemma native_cs_exclusive:
  assumes "native_reach spurious reuse st" "h < length (hosts st)" "h' < length (hosts st)"
    and "h_cs (hosts st ! h) \<noteq> []" "h_cs (hosts st ! h') \<noteq> []"
  shows "h = h' \<and> cs_owner st = Some h"
  using cs_okD[OF native_cs_ok[OF assms(1)] assms(2)] cs_okD[OF native_cs_ok[OF assms(1)] assms(3)] assms(4,5)
  by (auto simp: host_cs_ok_def)

subsection \<open>Waiting threads\<close>

text \<open>An entry of \<open>THREAD_RUNNABLE\<close> is set exactly while the state of the thread is \<open>Running\<close>.\<close>

definition host_slots_ok :: "host \<Rightarrow> bool" where
  "host_slots_ok H \<longleftrightarrow>
     (case h_tid H of None \<Rightarrow> True | Some t \<Rightarrow> t < thread_count) \<and> (case h_pc H of HCreate i \<Rightarrow> i < thread_count | _ \<Rightarrow> True)"

definition slots_ok :: "native \<Rightarrow> bool" where
  "slots_ok st \<longleftrightarrow>
     length (runnable st) = thread_count \<and> length (tstates st) = thread_count \<and>
     (\<forall>t < thread_count. runnable st ! t \<noteq> 0 \<longleftrightarrow> tstates st ! t = Running) \<and> list_all host_slots_ok (hosts st)"

text \<open>
  What holds of a host thread when no slot is reused: if it is blocked, its thread is not runnable;
  and without spurious returns, while it runs outside critical sections its thread is \<open>Running\<close>.
\<close>

definition host_sound :: "bool \<Rightarrow> native \<Rightarrow> host \<Rightarrow> bool" where
  "host_sound spurious st H \<longleftrightarrow>
     (case h_tid H of
        None \<Rightarrow> True
      | Some t \<Rightarrow> (h_pc H = HBlocked \<longrightarrow> runnable st ! t = 0) \<and>
                  (\<not> spurious \<and> h_pc H \<in> {HRun, HLock} \<and> h_cs H = [] \<longrightarrow> tstates st ! t = Running))"

definition one_host :: "native \<Rightarrow> bool" where
  "one_host st \<longleftrightarrow>
     (\<forall>h < length (hosts st). \<forall>h' < length (hosts st). \<forall>t.
        h_tid (hosts st ! h) = Some t \<longrightarrow> h_tid (hosts st ! h') = Some t \<longrightarrow>
        h_pc (hosts st ! h) \<noteq> HGone \<longrightarrow> h_pc (hosts st ! h') \<noteq> HGone \<longrightarrow> h = h')"

definition hosts_sound :: "bool \<Rightarrow> native \<Rightarrow> bool" where
  "hosts_sound spurious st \<longleftrightarrow> one_host st \<and> (\<forall>h < length (hosts st). host_sound spurious st (hosts st ! h))"

lemma host_slots_woken: "woken_for t H H' \<Longrightarrow> host_slots_ok H \<Longrightarrow> host_slots_ok H'"
  by (auto simp: woken_for_def host_slots_ok_def)

lemma slots_ok_set_state: "slots_ok st \<Longrightarrow> t < thread_count \<Longrightarrow> slots_ok (native_set_state pick t s st)"
  unfolding slots_ok_def list_all_length
  using host_slots_woken[OF set_state_hosts] by (auto simp: nth_list_update)

lemma slots_ok_at_host:
  "slots_ok st \<Longrightarrow> (h < length (hosts st) \<Longrightarrow> host_slots_ok (hosts st ! h) \<Longrightarrow> host_slots_ok (f (hosts st ! h))) \<Longrightarrow>
   slots_ok (at_host h f st)"
  by (auto simp: slots_ok_def list_all_length)

lemma slots_ok_owner [simp]: "slots_ok (st\<lparr>cs_owner := ow\<rparr>) = slots_ok st"
  by (simp add: slots_ok_def)

lemma slots_ok_host: "slots_ok st \<Longrightarrow> h < length (hosts st) \<Longrightarrow> host_slots_ok (hosts st ! h)"
  by (simp add: slots_ok_def list_all_length)

lemma unused_slotD: "unused_slot st = Some i \<Longrightarrow> i < thread_count \<and> tstates st ! i = Invalid"
  unfolding unused_slot_def by (auto dest!: find_SomeD)

lemma set_state_of_running:
  assumes "tstates st ! n = Running"
  shows "native_set_state pick n Running st = set_running pick n st"
proof -
  have "(tstates st)[n := Running] = tstates st" by (metis assms list_update_id)
  then show ?thesis by (simp add: native_set_state_def Let_def)
qed

lemma kick_nothing:
  assumes "slots_ok st" "n < thread_count" "tstates st ! n = Running"
  shows "hosts (set_running pick n st) = hosts st"
proof -
  have "runnable st ! n \<noteq> 0" using assms by (simp add: slots_ok_def)
  then show ?thesis by (simp add: set_running_def Let_def)
qed

lemma slots_ok_set_running:
  assumes "slots_ok st" "n < thread_count" "tstates st ! n = Running"
  shows "slots_ok (set_running pick n st)"
  using assms kick_nothing[OF assms] by (auto simp: slots_ok_def set_running_hosts nth_list_update)

lemma slots_ok_step:
  assumes st: "slots_ok st" and step: "native_step e st = Some st'" and h: "event_host e < length (hosts st)"
  shows "slots_ok st'"
proof (cases e)
  case (NStop h s)
  then show ?thesis
    using assms slots_ok_host[OF st, of h]
    by (auto simp: stop_self_def host_slots_ok_def split: option.splits if_splits intro!: slots_ok_set_state)
next
  case (NWake h t pick)
  then show ?thesis
    using assms by (auto simp: wake_other_def split: if_splits intro!: slots_ok_set_state)
next
  case (NCreate h)
  then obtain i where i: "unused_slot st = Some i" "in_cs h st" and st': "st' = st\<lparr>tstates := (tstates st)[i := Parked],
      hosts := (hosts st)[h := (hosts st ! h)\<lparr>h_pc := HCreate i\<rparr>] @ [new_host (Some i) HWait]\<rparr>"
    using step by (auto simp: create_thread_def split: option.splits if_splits)
  have hh: "h < length (hosts st)" using h NCreate by simp
  have "host_slots_ok ((hosts st ! h)\<lparr>h_pc := HCreate i\<rparr>)" "host_slots_ok (new_host (Some i) HWait)"
    using unused_slotD[OF i(1)] slots_ok_host[OF st, of h] h
    by (auto simp: NCreate host_slots_ok_def new_host_def)
  then show ?thesis
    using st unused_slotD[OF i(1)] hh by (auto simp: st' slots_ok_def nth_list_update list_all_length nth_append)
next
  case (NStart h pick)
  then show ?thesis
    using assms slots_ok_host[OF st, of h]
    by (auto simp: start_created_def host_slots_ok_def split: host_pc.splits intro!: slots_ok_set_state slots_ok_at_host)
next
  case (NEnd h)
  then show ?thesis
    using assms slots_ok_host[OF st, of h]
    by (auto simp: end_thread_def host_slots_ok_def split: option.splits if_splits intro!: slots_ok_set_state slots_ok_at_host)
next
  case (NKick h pick)
  then show ?thesis
    using assms slots_ok_set_running[OF st, of _ pick]
    by (auto simp: kick_step_def host_slots_ok_def split: host_pc.splits if_splits intro!: slots_ok_at_host)
qed (use assms in \<open>auto simp: cs_acquire_def cs_locked_def cs_release_def cs_clear_flag_def wait_runnable_def
        spurious_return_def kick_begin_def Let_def host_slots_ok_def
        split: if_splits list.splits option.splits intro!: slots_ok_at_host\<close>)

lemma native_slots_ok: "native_reach spurious reuse st \<Longrightarrow> slots_ok st"
proof (induction rule: native_reach.induct)
  case start
  show ?case by (simp add: slots_ok_def native_init_def new_host_def host_slots_ok_def)
qed (rule slots_ok_step)

lemma one_host_mono:
  assumes "one_host st" "length (hosts st') = length (hosts st)"
    and "\<And>i. i < length (hosts st) \<Longrightarrow> h_tid (hosts st' ! i) = h_tid (hosts st ! i) \<and>
               (h_pc (hosts st ! i) = HGone \<longrightarrow> h_pc (hosts st' ! i) = HGone)"
  shows "one_host st'"
  using assms unfolding one_host_def by metis

lemma host_sound_cong:
  "runnable st' = runnable st \<Longrightarrow> tstates st' = tstates st \<Longrightarrow> host_sound sp st' H = host_sound sp st H"
  by (cases "h_tid H") (simp_all add: host_sound_def)

lemma woken_tid: "woken_for t H H' \<Longrightarrow> h_tid H' = h_tid H \<and> (h_pc H = HGone \<longrightarrow> h_pc H' = HGone)"
  by (auto simp: woken_for_def)

lemma hosts_sound_at_host:
  assumes "hosts_sound sp st" "\<And>H. h_tid (f H) = h_tid H" "h_pc (hosts st ! h) \<noteq> HGone"
    and "h < length (hosts st) \<Longrightarrow> host_sound sp st (hosts st ! h) \<Longrightarrow> host_sound sp st (f (hosts st ! h))"
  shows "hosts_sound sp (at_host h f st)"
proof -
  have "one_host (at_host h f st)"
    using assms(1-3) by - (rule one_host_mono[of st]; auto simp: hosts_sound_def)
  then show ?thesis
    using assms(1,4) by (auto simp: hosts_sound_def host_sound_cong[of "at_host h f st" st])
qed

lemma hosts_sound_owner [simp]: "hosts_sound sp (st\<lparr>cs_owner := ow\<rparr>) = hosts_sound sp st"
  by (simp add: hosts_sound_def one_host_def host_sound_cong[of "st\<lparr>cs_owner := ow\<rparr>" st])

lemma one_hostD:
  "one_host st \<Longrightarrow> h < length (hosts st) \<Longrightarrow> h' < length (hosts st) \<Longrightarrow> h_tid (hosts st ! h) = Some t \<Longrightarrow>
   h_tid (hosts st ! h') = Some t \<Longrightarrow> h_pc (hosts st ! h) \<noteq> HGone \<Longrightarrow> h_pc (hosts st ! h') \<noteq> HGone \<Longrightarrow> h = h'"
  unfolding one_host_def by blast

lemma hosts_sound_wake:
  assumes sound: "hosts_sound sp st" and slots: "slots_ok st" and t: "t < thread_count"
  shows "hosts_sound sp (native_set_state pick t Running st)"
proof -
  let ?st = "st\<lparr>tstates := (tstates st)[t := Running]\<rparr>" and ?st' = "native_set_state pick t Running st"
  have st': "?st' = set_running pick t ?st" by (simp add: native_set_state_def Let_def)
  have one: "one_host ?st'"
    using sound woken_tid[OF set_state_hosts] by - (rule one_host_mono[of st]; simp add: hosts_sound_def)
  have "host_sound sp ?st' (hosts ?st' ! i)" if i: "i < length (hosts st)" for i
  proof -
    let ?H = "hosts st ! i"
    have H: "host_sound sp st ?H" using sound i by (simp add: hosts_sound_def)
    note w = set_state_hosts[OF i, of t pick Running]
    have resumed: "hosts ?st' ! i = resume_host ?H" if b: "h_pc ?H = HBlocked" "h_tid ?H = Some t"
    proof -
      have r: "runnable st ! t = 0" using H b by (simp add: host_sound_def)
      have only: "j = i" if "j \<in> set (blocked_hosts t ?st)" for j
        using that b i one_hostD[OF conjunct1[OF sound[unfolded hosts_sound_def]], of j i t] by (simp add: blocked_hosts_def)
      have "hosts (set_running pick t ?st) ! i = resume_host (hosts ?st ! i)"
        by (rule set_running_wakes[OF _ _ _ _ only]) (simp_all add: r b i)
      then show ?thesis unfolding st' by simp
    qed
    show ?thesis
    proof (cases "h_tid ?H = Some t")
      case True
      then show ?thesis
        using resumed w slots t unfolding host_sound_def woken_for_def
        by (cases "h_pc ?H = HBlocked") (auto simp: slots_ok_def)
    next
      case False
      then have "hosts ?st' ! i = ?H" using w by (auto simp: woken_for_def)
      then show ?thesis using H False by (auto simp: host_sound_def split: option.splits)
    qed
  qed
  then show ?thesis using one by (simp add: hosts_sound_def)
qed

text \<open>A thread that takes itself off is in a critical section, and no other host thread is its.\<close>

lemma hosts_sound_stop:
  assumes sound: "hosts_sound sp st" and slots: "slots_ok st" and h: "h < length (hosts st)"
    and H: "h_tid (hosts st ! h) = Some t" "h_pc (hosts st ! h) = HRun" "h_cs (hosts st ! h) \<noteq> []" and s: "s \<noteq> Running"
  shows "hosts_sound sp (native_set_state pick t s st)"
proof -
  let ?st' = "native_set_state pick t s st"
  have hosts: "hosts ?st' = hosts st" using s by (simp add: native_set_state_def Let_def set_stopped_def)
  have t: "t < thread_count" using slots_ok_host[OF slots h] H(1) by (simp add: host_slots_ok_def)
  have "host_sound sp ?st' (hosts st ! i)" if i: "i < length (hosts st)" for i
  proof (cases "h_tid (hosts st ! i) = Some t \<and> h_pc (hosts st ! i) \<noteq> HGone")
    case True
    then have "i = h"
      using i h H(1,2) one_hostD[OF conjunct1[OF sound[unfolded hosts_sound_def]], of i h t] by simp
    then show ?thesis using H by (simp add: host_sound_def)
  next
    case False
    then show ?thesis
      using sound i s by (auto simp: hosts_sound_def host_sound_def split: option.splits)
  qed
  moreover have "one_host ?st'" using sound by - (rule one_host_mono[of st]; auto simp: hosts_sound_def hosts)
  ultimately show ?thesis by (simp add: hosts_sound_def hosts)
qed

lemma hosts_sound_create:
  assumes sound: "hosts_sound sp st" and h: "h < length (hosts st)" and cs: "in_cs h st"
    and i: "unused_slot st = Some i" and fresh: "fresh_slot st"
    and st': "st' = st\<lparr>tstates := (tstates st)[i := Parked],
        hosts := (hosts st)[h := (hosts st ! h)\<lparr>h_pc := HCreate i\<rparr>] @ [new_host (Some i) HWait]\<rparr>"
  shows "hosts_sound sp st'"
proof -
  have gone: "h_tid (hosts st ! k) = Some i \<Longrightarrow> h_pc (hosts st ! k) = HGone" if "k < length (hosts st)" for k
    using fresh i that by (auto simp: fresh_slot_def list_all_length)
  have nth: "hosts st' ! k = (if k = length (hosts st) then new_host (Some i) HWait
               else if k = h then (hosts st ! h)\<lparr>h_pc := HCreate i\<rparr> else hosts st ! k)"
    if "k < length (hosts st')" for k
    using that h by (auto simp: st' nth_append)
  have len: "length (hosts st') = Suc (length (hosts st))" by (simp add: st')
  have old: "h_tid (hosts st ! k) = h_tid (hosts st' ! k) \<and> (h_pc (hosts st' ! k) \<noteq> HGone \<longrightarrow> h_pc (hosts st ! k) \<noteq> HGone)"
    if "k < length (hosts st)" for k
    using that cs by (auto simp: nth len in_cs_def)
  have new: "k < length (hosts st) \<Longrightarrow> h_tid (hosts st' ! k) = Some i \<Longrightarrow> h_pc (hosts st' ! k) = HGone" for k
    using gone[of k] old[of k] by metis
  have "one_host st'"
    unfolding one_host_def
  proof (intro allI impI)
    fix k k' t
    assume k: "k < length (hosts st')" "k' < length (hosts st')"
      and t: "h_tid (hosts st' ! k) = Some t" "h_tid (hosts st' ! k') = Some t"
      and pc: "h_pc (hosts st' ! k) \<noteq> HGone" "h_pc (hosts st' ! k') \<noteq> HGone"
    have last: "h_tid (hosts st' ! length (hosts st)) = Some i" by (simp add: nth len new_host_def)
    show "k = k'"
    proof (cases "k < length (hosts st) \<and> k' < length (hosts st)")
      case True
      then show ?thesis
        using one_hostD[OF conjunct1[OF sound[unfolded hosts_sound_def]], of k k' t] old[of k] old[of k'] t pc by simp
    next
      case False
      then have "k = length (hosts st) \<or> k' = length (hosts st)" using k len by linarith
      then have "t = i" using t last by auto
      then show ?thesis using new[of k] new[of k'] t pc k len by fastforce
    qed
  qed
  moreover have "host_sound sp st' (hosts st' ! k)" if k: "k < length (hosts st')" for k
  proof (cases "k = length (hosts st) \<or> k = h")
    case True
    then show ?thesis using h by (auto simp: nth[OF k] host_sound_def new_host_def split: option.splits)
  next
    case False
    then have "host_sound sp st (hosts st ! k)" "h_tid (hosts st ! k) = Some i \<longrightarrow> h_pc (hosts st ! k) = HGone"
      using sound gone k len by (auto simp: hosts_sound_def)
    moreover have "runnable st' = runnable st" "tstates st' = (tstates st)[i := Parked]" by (simp_all add: st')
    ultimately show ?thesis using False by (auto simp: nth[OF k] host_sound_def split: option.splits)
  qed
  ultimately show ?thesis by (simp add: hosts_sound_def)
qed

lemma hosts_sound_step:
  assumes sound: "hosts_sound sp st" and slots: "slots_ok st" and cs: "cs_ok st"
    and step: "native_step e st = Some st'" and h: "event_host e < length (hosts st)" and ok: "allowed sp False e st"
  shows "hosts_sound sp st'"
proof (cases e)
  case (NRelease h)
  then obtain b outer where H: "h_cs (hosts st ! h) = b # outer" "h_pc (hosts st ! h) = HRun"
    using step by (auto simp: cs_release_def Let_def split: list.splits if_splits)
  have "b \<Longrightarrow> outer \<noteq> []" using cs_okD[OF cs, of h] h NRelease H by (auto simp: host_cs_ok_def)
  then show ?thesis
    using step sound H by (cases b) (auto simp: NRelease cs_release_def host_sound_def split: option.splits intro!: hosts_sound_at_host)
next
  case (NWait h)
  then obtain t where t: "h_tid (hosts st ! h) = Some t" "h_pc (hosts st ! h) = HWait"
    and st': "st' = at_host h (\<lambda>H. if runnable st ! t = 0 then H\<lparr>h_pc := HBlocked\<rparr> else resume_host H) st"
    using step by (auto simp: wait_runnable_def Let_def split: option.splits if_splits)
  have "t < thread_count" using slots_ok_host[OF slots, of h] h NWait t by (simp add: host_slots_ok_def)
  then have "runnable st ! t \<noteq> 0 \<Longrightarrow> tstates st ! t = Running" using slots by (auto simp: slots_ok_def)
  then show ?thesis
    unfolding st' using t by (intro hosts_sound_at_host[OF sound]) (auto simp: host_sound_def)
next
  case (NSpurious h)
  then show ?thesis
    using step ok sound by (auto simp: spurious_return_def host_sound_def split: if_splits option.splits intro!: hosts_sound_at_host)
next
  case (NStop h s)
  then show ?thesis
    using step h by (auto simp: stop_self_def in_cs_def split: option.splits if_splits intro!: hosts_sound_stop[OF sound slots])
next
  case (NWake h t pick)
  then show ?thesis
    using step by (auto simp: wake_other_def split: if_splits intro!: hosts_sound_wake[OF sound slots])
next
  case (NCreate h)
  then show ?thesis
    using step ok h hosts_sound_create[OF sound] by (auto simp: create_thread_def split: option.splits if_splits)
next
  case (NStart h pick)
  then obtain i where i: "h_pc (hosts st ! h) = HCreate i"
    and st': "st' = native_set_state pick i Running (at_host h (\<lambda>H. H\<lparr>h_pc := HRun\<rparr>) st)"
    using step by (auto simp: start_created_def split: host_pc.splits)
  have hh: "h < length (hosts st)" using h NStart by simp
  have "i < thread_count" using slots_ok_host[OF slots hh] i by (simp add: host_slots_ok_def)
  moreover have "h_cs (hosts st ! h) \<noteq> []" using cs_okD[OF cs hh] i by (auto simp: host_cs_ok_def)
  ultimately show ?thesis
    unfolding st' using i slots
    by (intro hosts_sound_wake hosts_sound_at_host[OF sound] slots_ok_at_host) (auto simp: host_sound_def host_slots_ok_def split: option.splits)
next
  case (NEnd h)
  then obtain t where t: "h_tid (hosts st ! h) = Some t" "in_cs h st" "h_cs (hosts st ! h) = [False]"
    and st': "st' = native_set_state 0 t Invalid (at_host h (\<lambda>H. H\<lparr>h_ended := True\<rparr>) st)"
    using step by (auto simp: end_thread_def split: option.splits if_splits)
  have "hosts_sound sp (at_host h (\<lambda>H. H\<lparr>h_ended := True\<rparr>) st)" "slots_ok (at_host h (\<lambda>H. H\<lparr>h_ended := True\<rparr>) st)"
    using t slots by (auto simp: in_cs_def host_sound_def host_slots_ok_def intro!: hosts_sound_at_host[OF sound] slots_ok_at_host)
  then show ?thesis
    unfolding st' using t h NEnd by (intro hosts_sound_stop[where h = h]) (auto simp: in_cs_def)
next
  case (NKick h pick)
  then obtain n where n: "h_pc (hosts st ! h) = HKick n" using step by (auto simp: kick_step_def split: host_pc.splits)
  have hh: "h < length (hosts st)" using h NKick by simp
  have own: "h_cs (hosts st ! h) \<noteq> []" using cs_okD[OF cs hh] n by (auto simp: host_cs_ok_def)
  have "hosts_sound sp (set_running pick n st)" if "n < thread_count" "tstates st ! n = Running"
    using hosts_sound_wake[OF sound slots that(1), of pick] set_state_of_running[OF that(2)] by simp
  moreover have "hosts (set_running pick n st) ! h = hosts st ! h" if "n < thread_count" "tstates st ! n = Running"
    using kick_nothing[OF slots that] by simp
  ultimately show ?thesis
    using step n sound own
    by (auto simp: NKick kick_step_def host_sound_def split: if_splits option.splits intro!: hosts_sound_at_host)
qed (use step sound in \<open>auto simp: cs_acquire_def cs_locked_def cs_clear_flag_def kick_begin_def in_cs_def Let_def
        host_sound_def split: if_splits option.splits intro!: hosts_sound_at_host\<close>)

lemma native_hosts_sound: "native_reach sp False st \<Longrightarrow> hosts_sound sp st"
proof (induction rule: native_reach.induct)
  case start
  show ?case by (simp add: hosts_sound_def one_host_def native_init_def new_host_def host_sound_def)
next
  case (step st e st')
  then show ?case using hosts_sound_step native_slots_ok native_cs_ok by blast
qed

text \<open>
  No wake-up is lost in the native port, as long as no slot is reused: in every reachable state a
  host thread is blocked only while its thread is not \<open>Running\<close>.
\<close>

lemma native_no_lost_wakeup:
  assumes "native_reach spurious False st" "h < length (hosts st)" "h_tid (hosts st ! h) = Some t"
    and "h_pc (hosts st ! h) = HBlocked"
  shows "t < thread_count \<and> tstates st ! t \<noteq> Running"
proof -
  have "host_sound spurious st (hosts st ! h)"
    using native_hosts_sound[OF assms(1)] assms(2) by (simp add: hosts_sound_def)
  then have "runnable st ! t = 0" using assms(3,4) by (simp add: host_sound_def)
  moreover have "t < thread_count"
    using slots_ok_host[OF native_slots_ok[OF assms(1)] assms(2)] assms(3) by (simp add: host_slots_ok_def)
  ultimately show ?thesis using native_slots_ok[OF assms(1)] by (auto simp: slots_ok_def)
qed


subsection \<open>Examples\<close>

fun native_run :: "bool \<Rightarrow> bool \<Rightarrow> native_event list \<Rightarrow> native \<Rightarrow> native option" where
  "native_run spurious reuse [] st = Some st"
| "native_run spurious reuse (e # es) st =
     (if event_host e < length (hosts st) \<and> allowed spurious reuse e st
      then (case native_step e st of None \<Rightarrow> None | Some st' \<Rightarrow> native_run spurious reuse es st')
      else None)"

lemma native_run_reach:
  "native_run spurious reuse es st = Some st' \<Longrightarrow> native_reach spurious reuse st \<Longrightarrow> native_reach spurious reuse st'"
  by (induction es arbitrary: st) (auto split: if_splits option.splits intro: native_reach.step)

text \<open>The main thread creates a thread, which starts to run; then it parks itself, or ends.\<close>

definition started_events :: "native_event list" where
  "started_events = [NAcquire 0, NLocked 0, NCreate 0, NStart 0 0, NRelease 0, NClearFlag 0, NWait 1]"

definition parked_events :: "native_event list" where
  "parked_events = started_events @ [NAcquire 1, NLocked 1, NStop 1 Parked, NRelease 1, NClearFlag 1, NWait 1]"

definition ended_events :: "native_event list" where
  "ended_events = started_events @ [NAcquire 1, NLocked 1, NEnd 1, NRelease 1, NClearFlag 1, NWait 1]"

lemma native_run_Some:
  "native_run spurious reuse es native_init \<noteq> None \<Longrightarrow>
   native_reach spurious reuse (the (native_run spurious reuse es native_init))"
  by (auto intro: native_run_reach native_reach.start)

lemma native_cs_exclusive_witness:
  "\<exists>st. native_reach False False st \<and> h_cs (hosts st ! 1) = [True, False] \<and> cs_owner st = Some 1"
proof -
  let ?r = "native_run False False (started_events @ [NAcquire 1, NLocked 1, NAcquire 1]) native_init"
  have r: "?r \<noteq> None" "length (hosts (the ?r)) = 2" "h_cs (hosts (the ?r) ! 1) = [True, False]" by code_simp+
  show ?thesis
    using native_cs_exclusive[OF native_run_Some[OF r(1)], of 1 1] native_run_Some[OF r(1)] r by fastforce
qed

lemma native_no_lost_wakeup_witness:
  "\<exists>st. native_reach False False st \<and> h_pc (hosts st ! 1) = HBlocked \<and> tstates st ! 0 \<noteq> Running"
proof -
  let ?r = "native_run False False parked_events native_init"
  have r: "?r \<noteq> None" "length (hosts (the ?r)) = 2" "h_pc (hosts (the ?r) ! 1) = HBlocked"
    "h_tid (hosts (the ?r) ! 1) = Some 0" by code_simp+
  show ?thesis
    using native_no_lost_wakeup[OF native_run_Some[OF r(1)], of 1 0] native_run_Some[OF r(1)] r by fastforce
qed


text \<open>
  A return of \<open>wait\<close> without a wake, which its documentation allows, lets a parked thread go on: the
  call is not in a loop.
\<close>

lemma native_spurious_unpark:
  "\<exists>st. native_reach True False st \<and> h_tid (hosts st ! 1) = Some 0 \<and> h_pc (hosts st ! 1) = HRun \<and>
        h_cs (hosts st ! 1) = [] \<and> tstates st ! 0 = Parked"
proof -
  let ?r = "native_run True False (parked_events @ [NSpurious 1]) native_init"
  have r: "?r \<noteq> None" "h_tid (hosts (the ?r) ! 1) = Some 0 \<and> h_pc (hosts (the ?r) ! 1) = HRun \<and>
        h_cs (hosts (the ?r) ! 1) = [] \<and> tstates (the ?r) ! 0 = Parked" by code_simp+
  show ?thesis using native_run_Some[OF r(1)] r(2) by blast
qed

text \<open>
  The host thread of an ended thread stays blocked at the end of its last critical section, on the
  entry of its slot.  When the slot is taken again and the new host thread blocks before it is made
  runnable, the only wake can go to the old one.  The new thread never runs: its entry is set, so no
  later call wakes anybody.
\<close>

definition stuck :: "nat \<Rightarrow> nat \<Rightarrow> native \<Rightarrow> bool" where
  "stuck h t st \<longleftrightarrow>
     h < length (hosts st) \<and> h_tid (hosts st ! h) = Some t \<and> h_pc (hosts st ! h) = HBlocked \<and>
     t < thread_count \<and> tstates st ! t = Running \<and> slots_ok st \<and>
     (\<forall>k < length (hosts st). k \<noteq> h \<longrightarrow> h_tid (hosts st ! k) = Some t \<longrightarrow> h_pc (hosts st ! k) = HGone)"

definition native_trans :: "bool \<Rightarrow> bool \<Rightarrow> native \<Rightarrow> native \<Rightarrow> bool" where
  "native_trans spurious reuse st st' \<longleftrightarrow>
     (\<exists>e. event_host e < length (hosts st) \<and> allowed spurious reuse e st \<and> native_step e st = Some st')"

text \<open>What a step without spurious returns may do to a host thread that is stuck, and to the others.\<close>

lemma stuck_change:
  assumes "stuck h t st" "slots_ok st'" "length (hosts st) \<le> length (hosts st')" "tstates st' ! t = Running"
    and "hosts st' ! h = hosts st ! h"
    and "\<And>k. k < length (hosts st) \<Longrightarrow> k \<noteq> h \<Longrightarrow> h_tid (hosts st' ! k) = h_tid (hosts st ! k) \<and>
               (h_pc (hosts st ! k) = HGone \<longrightarrow> h_pc (hosts st' ! k) = HGone)"
    and "\<And>k. length (hosts st) \<le> k \<Longrightarrow> k < length (hosts st') \<Longrightarrow> h_tid (hosts st' ! k) \<noteq> Some t"
  shows "stuck h t st'"
proof -
  have "h_pc (hosts st' ! k) = HGone"
    if "k < length (hosts st')" "k \<noteq> h" "h_tid (hosts st' ! k) = Some t" for k
    using assms(1) assms(6)[of k] assms(7)[of k] that by (cases "k < length (hosts st)") (auto simp: stuck_def)
  then show ?thesis using assms(1-5) by (auto simp: stuck_def)
qed

lemma stuck_at_host:
  assumes "stuck h t st" "k \<noteq> h" "\<And>H. h_tid (f H) = h_tid H" "h_pc (hosts st ! k) \<noteq> HGone" "slots_ok (at_host k f st)"
  shows "stuck h t (at_host k f st)"
  using assms by (intro stuck_change[OF assms(1)]) (auto simp: stuck_def)

lemma stuck_owner [simp]: "stuck h t (st\<lparr>cs_owner := ow\<rparr>) = stuck h t st"
  by (simp add: stuck_def)

lemma stuck_set_state:
  assumes stuck: "stuck h t st" and i: "i < thread_count" and s: "i \<noteq> t \<or> s = Running"
  shows "stuck h t (native_set_state pick i s st)"
proof (rule stuck_change[OF stuck])
  have h: "h < length (hosts st)" "h_tid (hosts st ! h) = Some t" "slots_ok st" "tstates st ! t = Running" "t < thread_count"
    using stuck by (simp_all add: stuck_def)
  show "slots_ok (native_set_state pick i s st)" using h(3) i by (rule slots_ok_set_state)
  show "tstates (native_set_state pick i s st) ! t = Running"
    using s h(3,4,5) by (cases "i = t") (auto simp: slots_ok_def)
  show "hosts (native_set_state pick i s st) ! h = hosts st ! h"
  proof (cases "i = t")
    case True
    have "runnable st ! t \<noteq> 0" using h(3-5) by (simp add: slots_ok_def)
    then show ?thesis using s True by (simp add: native_set_state_def set_running_def Let_def)
  next
    case False
    then show ?thesis using set_state_hosts[OF h(1), of i pick s] h(2) by (auto simp: woken_for_def)
  qed
  show "h_tid (hosts (native_set_state pick i s st) ! k) = h_tid (hosts st ! k) \<and>
      (h_pc (hosts st ! k) = HGone \<longrightarrow> h_pc (hosts (native_set_state pick i s st) ! k) = HGone)"
    if "k < length (hosts st)" for k
    using woken_tid[OF set_state_hosts[OF that]] .
qed simp_all

lemma stuck_others: "stuck h t st \<Longrightarrow> k < length (hosts st) \<Longrightarrow> h_pc (hosts st ! k) \<notin> {HBlocked, HGone} \<Longrightarrow>
    k \<noteq> h \<and> h_tid (hosts st ! k) \<noteq> Some t"
  by (auto simp: stuck_def)

lemma stuck_step:
  assumes stuck: "stuck h t st" and trans: "native_trans False reuse st st'"
  shows "stuck h t st'"
proof -
  obtain e where e: "event_host e < length (hosts st)" "allowed False reuse e st" "native_step e st = Some st'"
    using trans by (auto simp: native_trans_def)
  have slots: "slots_ok st" and slots': "slots_ok st'"
    using stuck slots_ok_step[OF _ e(3,1)] by (auto simp: stuck_def)
  have blocked: "h_pc (hosts st ! h) = HBlocked" using stuck by (simp add: stuck_def)
  note others = stuck_others[OF stuck]
  show ?thesis
  proof (cases e)
    case (NStop k s)
    then show ?thesis
      using e others[of k] slots_ok_host[OF slots, of k]
      by (auto simp: stop_self_def in_cs_def host_slots_ok_def split: option.splits if_splits intro!: stuck_set_state[OF stuck])
  next
    case (NWake k n pick)
    then show ?thesis
      using e by (auto simp: wake_other_def split: if_splits intro!: stuck_set_state[OF stuck])
  next
    case (NCreate k)
    then obtain i where i: "unused_slot st = Some i" "in_cs k st" and st': "st' = st\<lparr>tstates := (tstates st)[i := Parked],
        hosts := (hosts st)[k := (hosts st ! k)\<lparr>h_pc := HCreate i\<rparr>] @ [new_host (Some i) HWait]\<rparr>"
      using e(3) by (auto simp: create_thread_def split: option.splits if_splits)
    have k: "k < length (hosts st)" "k \<noteq> h" "h_pc (hosts st ! k) = HRun"
      using e(1) others[of k] i(2) NCreate by (auto simp: in_cs_def)
    have h: "h < length (hosts st)" "tstates st ! t = Running" using stuck by (simp_all add: stuck_def)
    have "i \<noteq> t" using unused_slotD[OF i(1)] h(2) by auto
    then show ?thesis
      using k h slots' unfolding st'
      by (intro stuck_change[OF stuck]) (auto simp: nth_append nth_list_update new_host_def)
  next
    case (NStart k pick)
    then obtain i where i: "h_pc (hosts st ! k) = HCreate i"
      and st': "st' = native_set_state pick i Running (at_host k (\<lambda>H. H\<lparr>h_pc := HRun\<rparr>) st)"
      using e(3) by (auto simp: start_created_def split: host_pc.splits)
    have "i < thread_count" using slots_ok_host[OF slots, of k] i e(1) NStart by (simp add: host_slots_ok_def)
    then show ?thesis
      unfolding st' using i blocked slots
      by (intro stuck_set_state stuck_at_host[OF stuck] slots_ok_at_host) (auto simp: host_slots_ok_def)
  next
    case (NEnd k)
    then obtain n where n: "h_tid (hosts st ! k) = Some n" "in_cs k st"
      and st': "st' = native_set_state 0 n Invalid (at_host k (\<lambda>H. H\<lparr>h_ended := True\<rparr>) st)"
      using e(3) by (auto simp: end_thread_def split: option.splits if_splits)
    have k: "k < length (hosts st)" using e(1) NEnd by simp
    have "n \<noteq> t" "k \<noteq> h" using others[OF k] n by (auto simp: in_cs_def)
    moreover have "n < thread_count" using slots_ok_host[OF slots k] n(1) by (simp add: host_slots_ok_def)
    ultimately show ?thesis
      unfolding st' using n(2) slots
      by (intro stuck_set_state stuck_at_host[OF stuck] slots_ok_at_host) (auto simp: host_slots_ok_def in_cs_def)
  next
    case (NKick k pick)
    then obtain n where n: "h_pc (hosts st ! k) = HKick n" using e(3) by (auto simp: kick_step_def split: host_pc.splits)
    have k: "k \<noteq> h" "h_pc (hosts st ! k) \<noteq> HGone" using n blocked by auto
    show ?thesis
    proof (cases "n < thread_count \<and> tstates st ! n = Running")
      case True
      then have "hosts (set_running pick n st) = hosts st" "stuck h t (set_running pick n st)"
        using kick_nothing[OF slots] stuck_set_state[OF stuck, of n Running pick] set_state_of_running[of st n pick] by auto
      then show ?thesis
        using e(3) True n k slots' by (auto simp: NKick kick_step_def intro!: stuck_at_host)
    next
      case False
      then show ?thesis
        using e(3) n k slots' by (auto simp: NKick kick_step_def split: if_splits intro!: stuck_at_host[OF stuck])
    qed
  qed (use e(2,3) blocked slots' in \<open>auto simp: cs_acquire_def cs_locked_def cs_release_def cs_clear_flag_def wait_runnable_def
        kick_begin_def in_cs_def Let_def stuck split: if_splits list.splits option.splits intro!: stuck_at_host\<close>)
qed

text \<open>The main thread takes the slot again; the new host thread waits before the old one is woken.\<close>

definition reused_events :: "native_event list" where
  "reused_events = ended_events @ [NAcquire 0, NLocked 0, NCreate 0, NWait 2, NStart 0 0, NRelease 0, NClearFlag 0]"

text \<open>
  C35: When a slot is reused in the native port, the new thread may never run: there is a run at whose
  end the new host thread is blocked although its thread is \<open>Running\<close>, and without a spurious return
  it stays blocked in all states that follow.
\<close>

lemma native_reused_slot_stuck:
  "\<exists>st. native_reach False True st \<and> length (hosts st) = 3 \<and> h_tid (hosts st ! 2) = Some 0 \<and>
        {st'. (native_trans False True)\<^sup>*\<^sup>* st st'} \<subseteq>
        {st'. h_pc (hosts st' ! 2) = HBlocked \<and> tstates st' ! 0 = Running}"
proof -
  let ?r = "native_run False True reused_events native_init"
  have r: "?r \<noteq> None" "length (hosts (the ?r)) = 3" "map h_tid (hosts (the ?r)) = [None, Some 0, Some 0]"
    "map h_pc (hosts (the ?r)) = [HRun, HGone, HBlocked]" "tstates (the ?r) ! 0 = Running" by code_simp+
  let ?st = "the ?r"
  note reach = native_run_Some[OF r(1)]
  have H: "h_tid (hosts ?st ! k) = [None, Some 0, Some 0] ! k" "h_pc (hosts ?st ! k) = [HRun, HGone, HBlocked] ! k"
    if "k < 3" for k
    using that r(2) nth_map[of k "hosts ?st" h_tid, unfolded r(3)] nth_map[of k "hosts ?st" h_pc, unfolded r(4)] by simp_all
  have "stuck 2 0 ?st"
    using native_slots_ok[OF reach] r(2,5) H
    by (auto simp: stuck_def thread_count_def less_Suc_eq numeral_3_eq_3)
  have "stuck 2 0 st'" if "(native_trans False True)\<^sup>*\<^sup>* ?st st'" for st'
    using that by (induction rule: rtranclp_induct) (auto intro: stuck_step \<open>stuck 2 0 ?st\<close>)
  then show ?thesis using reach r(2) H(1)[of 2] by (intro exI[of _ ?st]) (auto simp: stuck_def)
qed

end
