(* ===== verification/Blocker.thy ===== *)
theory Blocker
  imports ThreadFlags
begin

section \<open>Futures in a thread (\<open>blocker.rs\<close>, \<open>thread_executor.rs\<close>)\<close>

text \<open>
  \<open>block_on\<close> polls a future in a thread, and the executor of \<open>ariel-os-embassy\<close> polls its tasks; both
  wait for a thread flag between the polls, which the waker sets.  A future and the raw executor of
  \<open>embassy\<close> are parameters: one poll with a waker changes the future and the scheduler, and with it
  happens whatever interrupts and other threads do meanwhile.  A waker is the pointer it carries, the
  identifier of the thread.  \<open>None\<close> is a call that does not return.
\<close>

definition THREAD_FLAG_WAKER :: "16 word" where
  "THREAD_FLAG_WAKER = 1"

definition waker_wake :: "nat \<Rightarrow> scheduler \<Rightarrow> panic + scheduler" where
  "waker_wake p s = flag_set s (as_u8 p) THREAD_FLAG_WAKER"

datatype 'r poll = Ready 'r | Pending

type_synonym ('f, 'r) future = "'f \<Rightarrow> nat \<Rightarrow> scheduler \<Rightarrow> 'f \<times> scheduler \<times> 'r poll"

partial_function (option) block_on_loop ::
    "('f, 'r) future \<Rightarrow> (scheduler \<Rightarrow> scheduler) \<Rightarrow> nat \<Rightarrow> 'f \<Rightarrow> scheduler \<Rightarrow> (panic + scheduler \<times> 'r) option" where
  "block_on_loop poll env waker fut s =
     (case poll fut waker s of
        (_, s', Ready res) \<Rightarrow> Some (Inr (s', res))
      | (fut', s', Pending) \<Rightarrow>
          (case wait_any env s' THREAD_FLAG_WAKER of
             None \<Rightarrow> None
           | Some (Inl e) \<Rightarrow> Some (Inl e)
           | Some (Inr (s'', _)) \<Rightarrow> block_on_loop poll env waker fut' s''))"

definition block_on :: "('f, 'r) future \<Rightarrow> (scheduler \<Rightarrow> scheduler) \<Rightarrow> 'f \<Rightarrow> scheduler \<Rightarrow> (panic + scheduler \<times> 'r) option" where
  "block_on poll env fut s =
     (case current_tid s of None \<Rightarrow> Some (Inl UnwrapNone) | Some t \<Rightarrow> block_on_loop poll env t fut s)"

subsection \<open>The executor\<close>

definition THREAD_FLAG_WAKEUP :: "16 word" where
  "THREAD_FLAG_WAKEUP = 1"

definition pender :: "nat \<Rightarrow> scheduler \<Rightarrow> panic + scheduler" where
  "pender context s = flag_set s (as_u8 context) THREAD_FLAG_WAKEUP"

text \<open>A raw executor has the context for its pender and its tasks.\<close>

record 'x executor =
  ex_context :: nat
  ex_tasks :: 'x

definition executor_new :: "'x \<Rightarrow> scheduler \<Rightarrow> panic + 'x executor" where
  "executor_new no_tasks s = bnd (unwrap (current_tid s)) (\<lambda>t. Inr \<lparr>ex_context = t, ex_tasks = no_tasks\<rparr>)"

text \<open>One round of the loop of \<open>run\<close>, and the state after some rounds; \<open>run\<close> does not return.\<close>

definition executor_round ::
    "('x executor \<Rightarrow> scheduler \<Rightarrow> 'x executor \<times> scheduler) \<Rightarrow> (scheduler \<Rightarrow> scheduler) \<Rightarrow> 'x executor \<Rightarrow> scheduler \<Rightarrow>
     (panic + 'x executor \<times> scheduler) option" where
  "executor_round poll env ex s =
     (case poll ex s of (ex, s) \<Rightarrow>
        map_option (\<lambda>r. bnd r (\<lambda>(s, _). Inr (ex, s))) (wait_any env s THREAD_FLAG_WAKEUP))"

fun executor_run ::
    "nat \<Rightarrow> ('x executor \<Rightarrow> 'x executor) \<Rightarrow> ('x executor \<Rightarrow> scheduler \<Rightarrow> 'x executor \<times> scheduler) \<Rightarrow> (scheduler \<Rightarrow> scheduler) \<Rightarrow>
     'x executor \<Rightarrow> scheduler \<Rightarrow> (panic + 'x executor \<times> scheduler) option" where
  "executor_run 0 init poll env ex s = Some (Inr (init ex, s))"
| "executor_run (Suc n) init poll env ex s =
     obnd (executor_run n init poll env ex s) (\<lambda>(ex, s). executor_round poll env ex s)"

subsection \<open>A wake between poll and wait is not lost\<close>

text \<open>When the flag is set already, \<open>wait_any\<close> returns at once and clears it.\<close>

lemma wait_any_set:
  assumes "current_thread_data s = Inr (c, th)" "t_flags th AND m \<noteq> 0"
  shows "wait_any env s m = Some (Inr (set_flags s c th (t_flags th AND NOT (t_flags th AND m)), t_flags th AND m))"
  unfolding wait_any_def by (subst flag_wait_loop.simps) (simp add: flag_wait_any_def assms Let_def)

lemma flag_set_current:
  assumes inv: "sched_inv s Q" and c: "current_thread s = Some c" and set: "flag_set s c m = Inr s'"
  shows "\<exists>th Q'. current_thread_data s' = Inr (c, th) \<and> t_flags th AND m = m \<and> sched_inv s' Q' \<and> current_thread s' = Some c"
proof -
  have t: "c < thread_count" using sched_invD(7)[OF inv] c by simp
  obtain Q' where s': "sched_inv s' Q'" "current_thread s' = current_thread s"
    "threads s' = (threads s)[c := (th_of s c)\<lparr>t_flags := t_flags (th_of s c) OR m,
       t_state := if flag_wakes (t_state (th_of s c)) (t_flags (th_of s c) OR m) then Running else t_state (th_of s c)\<rparr>]"
    using flag_set_ok[OF inv t, of m] set by auto
  have "current_thread_data s' = Inr (c, th_of s' c)"
    using current_thread_data_ok[OF s'(1)] s'(2) c by simp
  moreover have "t_flags (th_of s' c) = t_flags (th_of s c) OR m"
    using t sched_invD(2)[OF inv] s'(3) by simp
  moreover have "(t_flags (th_of s c) OR m) AND m = m"
    by (simp add: bit_eq_iff bit_simps)
  ultimately show ?thesis using s'(1,2) c by auto
qed

text \<open>
  A wake that comes between the poll of a future in \<open>block_on\<close> and the wait is not lost: with the
  waker called in that interval for the polling thread, the wait returns at once with the waker's flag
  cleared.
\<close>

lemma waker_not_lost:
  assumes "sched_inv s Q" "current_thread s = Some c" "waker_wake c s = Inr s'"
  shows "\<exists>s''. wait_any env s' THREAD_FLAG_WAKER = Some (Inr (s'', THREAD_FLAG_WAKER)) \<and>
               t_flags (th_of s'' c) AND THREAD_FLAG_WAKER = 0 \<and> current_thread s'' = Some c"
proof -
  have c: "c < thread_count" using sched_invD(7)[OF assms(1)] assms(2) by simp
  then have "flag_set s c THREAD_FLAG_WAKER = Inr s'" using assms(3) by (simp add: waker_wake_def thread_count_def)
  then obtain th Q' where th: "current_thread_data s' = Inr (c, th)" "t_flags th AND THREAD_FLAG_WAKER = THREAD_FLAG_WAKER"
      "sched_inv s' Q'" "current_thread s' = Some c"
    using flag_set_current[OF assms(1,2)] by blast
  let ?s = "set_flags s' c th (t_flags th AND NOT THREAD_FLAG_WAKER)"
  have "wait_any env s' THREAD_FLAG_WAKER = Some (Inr (?s, THREAD_FLAG_WAKER))"
    using wait_any_set[OF th(1), of THREAD_FLAG_WAKER env] by (simp add: th(2)) (simp add: THREAD_FLAG_WAKER_def)
  moreover have "t_flags (th_of ?s c) AND THREAD_FLAG_WAKER = 0"
  proof -
    have "t_flags (th_of ?s c) = t_flags th AND NOT THREAD_FLAG_WAKER" using c sched_invD(2)[OF th(3)] by simp
    then show ?thesis by (simp only:) (simp add: bit_eq_iff bit_simps)
  qed
  ultimately show ?thesis using th(4) by auto
qed

text \<open>
  A future that is ready after some polls, and whose waker has been called by the time each other poll
  returns; the outcome is the state of the last poll and the result.
\<close>

inductive woken_until_ready :: "('f, 'r) future \<Rightarrow> nat \<Rightarrow> 'f \<Rightarrow> scheduler \<Rightarrow> scheduler \<times> 'r \<Rightarrow> bool" for poll c where
  ready: "poll fut c s = (fut', s', Ready res) \<Longrightarrow> woken_until_ready poll c fut s (s', res)"
| pending: "poll fut c s = (fut', s', Pending) \<Longrightarrow> current_thread_data s' = Inr (c, th) \<Longrightarrow>
    t_flags th AND THREAD_FLAG_WAKER = THREAD_FLAG_WAKER \<Longrightarrow>
    woken_until_ready poll c fut' (set_flags s' c th (t_flags th AND NOT THREAD_FLAG_WAKER)) out \<Longrightarrow>
    woken_until_ready poll c fut s out"

text \<open>
  \<open>block_on\<close> returns the result of a future that becomes ready after any number of polls, when its
  waker is called no later than each poll returns; called outside a thread it panics.
\<close>

lemma block_on_returns:
  "(current_tid s = None \<longrightarrow> block_on poll env fut s = Some (Inl UnwrapNone)) \<and>
   (current_tid s = Some c \<longrightarrow> woken_until_ready poll c fut s (s', res) \<longrightarrow> block_on poll env fut s = Some (Inr (s', res)))"
proof -
  have "block_on_loop poll env c fut s = Some (Inr out)" if "woken_until_ready poll c fut s out" for out
    using that
  proof induction
    case (ready fut s fut' s' res)
    then show ?case by (subst block_on_loop.simps) simp
  next
    case (pending fut s fut' s' th out)
    have "wait_any env s' THREAD_FLAG_WAKER =
        Some (Inr (set_flags s' c th (t_flags th AND NOT THREAD_FLAG_WAKER), THREAD_FLAG_WAKER))"
      using wait_any_set[OF pending(2), of THREAD_FLAG_WAKER env]
      by (simp add: pending(3)) (simp add: THREAD_FLAG_WAKER_def)
    then show ?case using pending by (subst block_on_loop.simps) simp
  qed
  then show ?thesis by (simp add: block_on_def)
qed

end
