(* ===== verification/Delegate.thy ===== *)
theory Delegate
  imports Prelude
begin

section \<open>Lending objects between tasks (\<open>delegate.rs\<close> of \<open>ariel-os-embassy\<close>, \<open>cell.rs\<close> of \<open>ariel-os-embassy-common\<close>)\<close>

text \<open>
  A task lends an object to another task of the same executor, which calls a closure on it.  The
  signals of \<open>embassy_sync\<close> are a parameter: a signal holds at most one value, \<open>signal\<close> replaces it
  and a successful poll of \<open>wait\<close> takes it.  The pointer to the object is its address in a memory.
\<close>

subsection \<open>Cells for one executor\<close>

record 'a same_executor_cell =
  executor_id :: nat
  cell_inner :: 'a

text \<open>A spawner is known by the identifier of its executor.\<close>

definition cell_new :: "'a \<Rightarrow> nat \<Rightarrow> 'a same_executor_cell" where
  "cell_new inner spawner = \<lparr>executor_id = spawner, cell_inner = inner\<rparr>"

definition cell_get :: "'a same_executor_cell \<Rightarrow> nat \<Rightarrow> 'a option" where
  "cell_get self spawner = (if spawner = executor_id self then Some (cell_inner self) else None)"

definition cell_get_mut :: "'a same_executor_cell \<Rightarrow> nat \<Rightarrow> ('a \<Rightarrow> 'a) \<Rightarrow> 'a same_executor_cell option" where
  "cell_get_mut self spawner change =
     (if spawner = executor_id self then Some (self\<lparr>cell_inner := change (cell_inner self)\<rparr>) else None)"

text \<open>The asynchronous versions take the executor of the task that calls them.\<close>

definition cell_new_async :: "nat \<Rightarrow> 'a \<Rightarrow> 'a same_executor_cell" where
  "cell_new_async current_executor inner = cell_new inner current_executor"

definition cell_get_async :: "nat \<Rightarrow> 'a same_executor_cell \<Rightarrow> 'a option" where
  "cell_get_async current_executor self = cell_get self current_executor"

definition cell_get_mut_async :: "nat \<Rightarrow> 'a same_executor_cell \<Rightarrow> ('a \<Rightarrow> 'a) \<Rightarrow> 'a same_executor_cell option" where
  "cell_get_mut_async current_executor self = cell_get_mut self current_executor"

subsection \<open>The delegate\<close>

record ('sg, 'v) embassy_signal =
  sig_new :: 'sg
  sig_signal :: "'sg \<Rightarrow> 'v \<Rightarrow> 'sg"
  sig_wait :: "'sg \<Rightarrow> ('sg \<times> 'v) option"    \<comment> \<open>one poll; \<open>None\<close> is pending\<close>

record ('s, 'r) delegate =
  dg_send :: 's
  dg_reply :: 'r
  was_exercised :: bool

type_synonym ('s, 'r) delegate_signals =
  "('s, nat same_executor_cell) embassy_signal \<times> ('r, unit) embassy_signal"

definition delegate_new :: "('s, 'r) delegate_signals \<Rightarrow> ('s, 'r) delegate" where
  "delegate_new sigs = \<lparr>dg_send = sig_new (fst sigs), dg_reply = sig_new (snd sigs), was_exercised = False\<rparr>"

text \<open>\<open>lend\<close>: the pointer is signalled, then the task waits for the reply.\<close>

definition lend_start :: "('s, 'r) delegate_signals \<Rightarrow> nat \<Rightarrow> nat \<Rightarrow> ('s, 'r) delegate \<Rightarrow> ('s, 'r) delegate" where
  "lend_start sigs spawner something self =
     self\<lparr>dg_send := sig_signal (fst sigs) (dg_send self) (cell_new something spawner)\<rparr>"

definition lend_wait :: "('s, 'r) delegate_signals \<Rightarrow> ('s, 'r) delegate \<Rightarrow> ('s, 'r) delegate option" where
  "lend_wait sigs self =
     (case sig_wait (snd sigs) (dg_reply self) of None \<Rightarrow> None | Some (reply, _) \<Rightarrow> Some (self\<lparr>dg_reply := reply\<rparr>))"

text \<open>
  \<open>with\<close>: it panics when it is called again, and otherwise waits for the pointer.  Then it calls the
  closure on the object in memory and replies; a task of another executor panics.
\<close>

definition with_start :: "('s, 'r) delegate \<Rightarrow> panic + ('s, 'r) delegate" where
  "with_start self = bnd (require (\<not> was_exercised self)) (\<lambda>_. Inr (self\<lparr>was_exercised := True\<rparr>))"

definition with_wait ::
    "('s, 'r) delegate_signals \<Rightarrow> nat \<Rightarrow> ('v \<Rightarrow> 'u \<times> 'v) \<Rightarrow> (nat \<Rightarrow> 'v) \<Rightarrow> ('s, 'r) delegate \<Rightarrow>
     (('s, 'r) delegate \<times> (panic + (nat \<Rightarrow> 'v) \<times> 'u)) option" where
  "with_wait sigs spawner func mem self =
     (case sig_wait (fst sigs) (dg_send self) of
        None \<Rightarrow> None
      | Some (send, data) \<Rightarrow>
          let self = self\<lparr>dg_send := send\<rparr>
          in Some (case cell_get data spawner of
               None \<Rightarrow> (self, Inl UnwrapNone)
             | Some p \<Rightarrow>
                 let (result, v) = func (mem p)
                 in (self\<lparr>dg_reply := sig_signal (snd sigs) (dg_reply self) ()\<rparr>, Inr (mem(p := v), result))))"

subsection \<open>Tasks around a delegate\<close>

text \<open>
  One task lends the object at an address, once; any number of tasks of given executors call \<open>with\<close>,
  each with its closure.  The steps of all tasks interleave.
\<close>

datatype lender_pc = LenderStart | LenderWaits | LenderDone
datatype 'u user_pc = UserStart | UserWaits | UserPanicked | UserDone 'u

record ('s, 'r, 'v, 'u) lending =
  dg :: "('s, 'r) delegate"
  memory :: "nat \<Rightarrow> 'v"
  lender :: lender_pc
  users :: "'u user_pc list"

record ('v, 'u) tasks =
  object :: nat
  lender_executor :: nat
  user_executor :: "nat \<Rightarrow> nat"
  closure :: "nat \<Rightarrow> 'v \<Rightarrow> 'u \<times> 'v"

inductive lending_step ::
    "('s, 'r) delegate_signals \<Rightarrow> ('v, 'u) tasks \<Rightarrow> ('s, 'r, 'v, 'u) lending \<Rightarrow> ('s, 'r, 'v, 'u) lending \<Rightarrow> bool"
  for sigs ts where
  lend: "lender st = LenderStart \<Longrightarrow>
    lending_step sigs ts st
      (st\<lparr>dg := lend_start sigs (lender_executor ts) (object ts) (dg st), lender := LenderWaits\<rparr>)"
| reply: "lender st = LenderWaits \<Longrightarrow> lend_wait sigs (dg st) = Some d \<Longrightarrow>
    lending_step sigs ts st (st\<lparr>dg := d, lender := LenderDone\<rparr>)"
| call: "i < length (users st) \<Longrightarrow> users st ! i = UserStart \<Longrightarrow>
    lending_step sigs ts st
      (case with_start (dg st) of
         Inl _ \<Rightarrow> st\<lparr>users := (users st)[i := UserPanicked]\<rparr>
       | Inr d \<Rightarrow> st\<lparr>dg := d, users := (users st)[i := UserWaits]\<rparr>)"
| receive: "i < length (users st) \<Longrightarrow> users st ! i = UserWaits \<Longrightarrow>
    with_wait sigs (user_executor ts i) (closure ts i) (memory st) (dg st) = Some (d, r) \<Longrightarrow>
    lending_step sigs ts st
      (case r of
         Inl _ \<Rightarrow> st\<lparr>dg := d, users := (users st)[i := UserPanicked]\<rparr>
       | Inr (mem, u) \<Rightarrow> st\<lparr>dg := d, memory := mem, users := (users st)[i := UserDone u]\<rparr>)"

definition lending_init :: "('s, 'r) delegate_signals \<Rightarrow> nat \<Rightarrow> (nat \<Rightarrow> 'v) \<Rightarrow> ('s, 'r, 'v, 'u) lending" where
  "lending_init sigs n mem = \<lparr>dg = delegate_new sigs, memory = mem, lender = LenderStart, users = replicate n UserStart\<rparr>"

definition lending_reach ::
    "('s, 'r) delegate_signals \<Rightarrow> ('v, 'u) tasks \<Rightarrow> nat \<Rightarrow> (nat \<Rightarrow> 'v) \<Rightarrow> ('s, 'r, 'v, 'u) lending \<Rightarrow> bool" where
  "lending_reach sigs ts n mem st \<longleftrightarrow> (lending_step sigs ts)\<^sup>*\<^sup>* (lending_init sigs n mem) st"

inductive_cases lending_stepE: "lending_step sigs ts st st'"

subsection \<open>Exclusive access\<close>

definition async_signal_ok :: "('sg, 'v) embassy_signal \<Rightarrow> ('sg \<Rightarrow> 'v option) \<Rightarrow> bool" where
  "async_signal_ok sig val \<longleftrightarrow>
     val (sig_new sig) = None \<and> (\<forall>s v. val (sig_signal sig s v) = Some v) \<and>
     (\<forall>s. (val s = None \<longrightarrow> sig_wait sig s = None) \<and>
          (\<forall>v. val s = Some v \<longrightarrow> (\<exists>s'. sig_wait sig s = Some (s', v) \<and> val s' = None)))"

lemma async_signal_okD:
  assumes "async_signal_ok sig val"
  shows "val (sig_new sig) = None" "val (sig_signal sig s v) = Some v"
    "val s = None \<Longrightarrow> sig_wait sig s = None"
    "sig_wait sig s = Some (s', w) \<Longrightarrow> val s = Some w \<and> val s' = None"
    "val s = Some w \<Longrightarrow> \<exists>s'. sig_wait sig s = Some (s', w) \<and> val s' = None"
  using assms unfolding async_signal_ok_def by (blast, blast, blast, (metis not_Some_eq option.inject prod.inject), blast)

text \<open>
  The state of a run.  The object is with its lender, on offer, being replied for, or lost in a task
  that panicked; \<open>f\<close> is the user whose closure has run, if one has.
\<close>

definition has_run :: "('s, 'r, 'v, 'u) lending \<Rightarrow> nat \<Rightarrow> bool" where
  "has_run st i \<longleftrightarrow> i < length (users st) \<and> (case users st ! i of UserDone _ \<Rightarrow> True | _ \<Rightarrow> False)"

definition entered :: "('s, 'r, 'v, 'u) lending \<Rightarrow> nat \<Rightarrow> bool" where
  "entered st i \<longleftrightarrow> i < length (users st) \<and> (case users st ! i of UserDone _ \<Rightarrow> True | UserWaits \<Rightarrow> True | _ \<Rightarrow> False)"

definition lending_ok ::
    "('s \<Rightarrow> nat same_executor_cell option) \<Rightarrow> ('r \<Rightarrow> unit option) \<Rightarrow> ('v, 'u) tasks \<Rightarrow> (nat \<Rightarrow> 'v) \<Rightarrow> ('s, 'r, 'v, 'u) lending \<Rightarrow> bool" where
  "lending_ok vs vr ts mem st \<longleftrightarrow>
     (\<forall>i j. entered st i \<longrightarrow> entered st j \<longrightarrow> i = j) \<and>
     ((\<exists>i. entered st i) \<longrightarrow> was_exercised (dg st)) \<and>
     (\<forall>c. vs (dg_send (dg st)) = Some c \<longrightarrow>
        lender st = LenderWaits \<and> c = cell_new (object ts) (lender_executor ts) \<and> vr (dg_reply (dg st)) = None \<and> (\<forall>i. \<not> has_run st i)) \<and>
     (vr (dg_reply (dg st)) = Some () \<longrightarrow> lender st = LenderWaits) \<and>
     (vr (dg_reply (dg st)) = Some () \<or> lender st = LenderDone \<longrightarrow> (\<exists>i. has_run st i)) \<and>
     (\<forall>i. has_run st i \<longrightarrow> user_executor ts i = lender_executor ts \<and>
        memory st = mem(object ts := snd (closure ts i (mem (object ts)))) \<and>
        users st ! i = UserDone (fst (closure ts i (mem (object ts)))) \<and> lender st \<noteq> LenderStart) \<and>
     ((\<forall>i. \<not> has_run st i) \<longrightarrow> memory st = mem)"

lemma has_run_entered: "has_run st i \<Longrightarrow> entered st i"
  by (auto simp: has_run_def entered_def split: user_pc.splits)

lemma set_user:
  assumes "i < length (users st)" "users st' = (users st)[i := u]"
  shows "has_run st' j \<longleftrightarrow> (if j = i then (case u of UserDone _ \<Rightarrow> True | _ \<Rightarrow> False) else has_run st j)"
    and "entered st' j \<longleftrightarrow> (if j = i then (case u of UserDone _ \<Rightarrow> True | UserWaits \<Rightarrow> True | _ \<Rightarrow> False) else entered st j)"
  using assms by (auto simp: has_run_def entered_def)

lemma same_users: "users st' = users st \<Longrightarrow> has_run st' = has_run st \<and> entered st' = entered st"
  by (auto simp: has_run_def entered_def fun_eq_iff)

lemma lending_ok_cong:
  assumes "lending_ok vs vr ts mem st" "has_run st' = has_run st" "entered st' = entered st"
    and "dg st' = dg st" "memory st' = memory st" "lender st' = lender st"
    and "\<And>j. has_run st j \<Longrightarrow> users st' ! j = users st ! j"
  shows "lending_ok vs vr ts mem st'"
  using assms(1) unfolding lending_ok_def assms(2-6) by (simp add: assms(7))

lemma lending_step_ok:
  assumes vs: "async_signal_ok (fst sigs) vs" and vr: "async_signal_ok (snd sigs) vr"
    and step: "lending_step sigs ts st st'" and ok: "lending_ok vs vr ts mem st"
  shows "lending_ok vs vr ts mem st'"
  using step
proof cases
  case lend
  have "has_run st' = has_run st" "entered st' = entered st" using same_users[of st' st] lend by simp_all
  moreover have "\<not> has_run st i" "vr (dg_reply (dg st)) = None" for i
    using ok lend unfolding lending_ok_def by (auto, metis not_Some_eq unit.exhaust lender_pc.distinct(1))
  ultimately show ?thesis
    using ok lend async_signal_okD(2)[OF vs] by (auto simp: lending_ok_def lend_start_def)
next
  case (reply d)
  have same: "has_run st' = has_run st" "entered st' = entered st" using same_users[of st' st] reply by simp_all
  obtain r where r: "sig_wait (snd sigs) (dg_reply (dg st)) = Some (r, ())" and d: "d = dg st\<lparr>dg_reply := r\<rparr>"
    using reply by (auto simp: lend_wait_def split: option.splits)
  have *: "vr (dg_reply (dg st)) = Some ()" "vr r = None" using async_signal_okD(4)[OF vr r] by simp_all
  have "vs (dg_send (dg st)) = None" using ok *(1) unfolding lending_ok_def by (metis not_Some_eq option.distinct(1))
  then show ?thesis using ok reply same * by (auto simp: lending_ok_def d)
next
  case (call i)
  note user = set_user[OF call(2)]
  show ?thesis
  proof (cases "was_exercised (dg st)")
    case True
    then have st': "st' = st\<lparr>users := (users st)[i := UserPanicked]\<rparr>" using call by (simp add: with_start_def)
    have i: "\<not> entered st i" "\<not> has_run st i" using call by (simp_all add: entered_def has_run_def)
    have "has_run st' = has_run st" "entered st' = entered st" using user[of st' UserPanicked] i by (auto simp: st' fun_eq_iff)
    moreover have "(users st)[i := UserPanicked] ! j = users st ! j" if "has_run st j" for j
      using i that by (cases "j = i") auto
    ultimately show ?thesis by (intro lending_ok_cong[OF ok]) (simp_all add: st')
  next
    case False
    then have st': "st' = st\<lparr>dg := (dg st)\<lparr>was_exercised := True\<rparr>, users := (users st)[i := UserWaits]\<rparr>"
      using call by (simp add: with_start_def)
    have none: "\<not> entered st j" "\<not> has_run st j" for j using ok False has_run_entered unfolding lending_ok_def by blast+
    have "\<not> has_run st' j" "entered st' j \<longleftrightarrow> j = i" for j using user[of st' UserWaits] none by (auto simp: st')
    then show ?thesis using ok none by (auto simp: lending_ok_def st')
  qed
next
  case (receive i d r)
  note user = set_user[OF receive(2)]
  have ent: "entered st i" using receive(2,3) by (simp add: entered_def)
  have only: "j = i" if "entered st j" for j
    using ok that ent unfolding lending_ok_def by blast
  obtain s c where s: "sig_wait (fst sigs) (dg_send (dg st)) = Some (s, c)"
    using receive(4) by (auto simp: with_wait_def split: option.splits)
  have send: "vs (dg_send (dg st)) = Some c" "vs s = None" using async_signal_okD(4)[OF vs s] by simp_all
  have c: "lender st = LenderWaits" "c = cell_new (object ts) (lender_executor ts)" "vr (dg_reply (dg st)) = None"
    and none: "\<not> has_run st j" and mem: "memory st = mem" for j
    using ok send(1) unfolding lending_ok_def by blast+
  show ?thesis
  proof (cases "user_executor ts i = lender_executor ts")
    case True
    define u v where "u = fst (closure ts i (mem (object ts)))" and "v = snd (closure ts i (mem (object ts)))"
    have st': "st' = st\<lparr>dg := (dg st)\<lparr>dg_send := s, dg_reply := sig_signal (snd sigs) (dg_reply (dg st)) ()\<rparr>,
        memory := mem(object ts := v), users := (users st)[i := UserDone u]\<rparr>"
      using receive(1,4) s True by (auto simp: with_wait_def c(2) cell_get_def cell_new_def mem u_def v_def Let_def split: prod.splits)
    have "has_run st' j \<longleftrightarrow> j = i" "entered st' j \<longleftrightarrow> j = i" for j
      using user[of st' "UserDone u"] none only by (auto simp: st')
    moreover have "users st' ! i = UserDone u" using receive(2) by (simp add: st')
    moreover have "was_exercised (dg st)" using ok ent unfolding lending_ok_def by blast
    ultimately show ?thesis
      using c(1) send(2) True async_signal_okD(2)[OF vr] by (auto simp: lending_ok_def st' u_def v_def)
  next
    case False
    have st': "st' = st\<lparr>dg := (dg st)\<lparr>dg_send := s\<rparr>, users := (users st)[i := UserPanicked]\<rparr>"
      using receive(1,4) s False by (auto simp: with_wait_def c(2) cell_get_def cell_new_def)
    have "\<not> has_run st' j" "\<not> entered st' j" for j
      using user[of st' UserPanicked] none only by (auto simp: st')
    then show ?thesis using c send(2) mem by (auto simp: lending_ok_def st')
  qed
qed

lemma lending_init_ok:
  assumes "async_signal_ok (fst sigs) vs" "async_signal_ok (snd sigs) vr"
  shows "lending_ok vs vr ts mem (lending_init sigs n mem)"
proof -
  have "\<not> has_run (lending_init sigs n mem) i" "\<not> entered (lending_init sigs n mem) i" for i
    by (auto simp: has_run_def entered_def lending_init_def)
  then show ?thesis
    using async_signal_okD(1)[OF assms(1)] async_signal_okD(1)[OF assms(2)]
    by (auto simp: lending_ok_def lending_init_def delegate_new_def)
qed

lemma lending_reach_ok:
  assumes "async_signal_ok (fst sigs) vs" "async_signal_ok (snd sigs) vr" "lending_reach sigs ts n mem st"
  shows "lending_ok vs vr ts mem st"
  using assms(3)[unfolded lending_reach_def]
  by (induction rule: rtranclp_induct) (auto intro: lending_init_ok[OF assms(1,2)] lending_step_ok[OF assms(1,2)])

text \<open>
  C36: The object that is lent is changed by at most one closure, of a task of the lender's executor; the
  lender gets it back only after that, with what this closure made of it.
\<close>

lemma lent_object_used_once:
  assumes "async_signal_ok (fst sigs) vs" "async_signal_ok (snd sigs) vr" "lending_reach sigs ts n mem st"
  shows "(memory st = mem \<and> lender st \<noteq> LenderDone) \<or>
         (\<exists>i. {j. has_run st j} = {i} \<and> user_executor ts i = lender_executor ts \<and> lender st \<noteq> LenderStart \<and>
              memory st = mem(object ts := snd (closure ts i (mem (object ts)))) \<and>
              users st ! i = UserDone (fst (closure ts i (mem (object ts)))))"
proof (cases "\<exists>i. has_run st i")
  case True
  then obtain i where i: "has_run st i" by blast
  have ok: "lending_ok vs vr ts mem st" by (rule lending_reach_ok[OF assms])
  have "{j. has_run st j} = {i}"
    using ok i has_run_entered unfolding lending_ok_def by blast
  then show ?thesis using ok i unfolding lending_ok_def by blast
next
  case False
  then show ?thesis using lending_reach_ok[OF assms] unfolding lending_ok_def by blast
qed

text \<open>The closure runs while the lender waits.\<close>

lemma closure_runs_while_lent:
  assumes "async_signal_ok (fst sigs) vs" "async_signal_ok (snd sigs) vr" "lending_reach sigs ts n mem st"
    and "lending_step sigs ts st st'" "memory st' \<noteq> memory st"
  shows "lender st = LenderWaits \<and> lender st' = LenderWaits"
  using assms(4)
proof cases
  case (receive i d r)
  obtain s c where "sig_wait (fst sigs) (dg_send (dg st)) = Some (s, c)"
    using receive(4) by (auto simp: with_wait_def split: option.splits)
  then have "vs (dg_send (dg st)) = Some c" using async_signal_okD(4)[OF assms(1)] by blast
  then have "lender st = LenderWaits" using lending_reach_ok[OF assms(1-3)] unfolding lending_ok_def by blast
  then show ?thesis using receive(1) by (auto split: sum.splits)
qed (use assms(5) in \<open>auto split: sum.splits\<close>)

text \<open>
  A task of another executor that comes first takes the pointer and panics: the lender has its object
  back never, as all later calls panic too.
\<close>

definition lender_stuck ::
    "('s \<Rightarrow> nat same_executor_cell option) \<Rightarrow> ('r \<Rightarrow> unit option) \<Rightarrow> ('s, 'r, 'v, 'u) lending \<Rightarrow> bool" where
  "lender_stuck vs vr st \<longleftrightarrow>
     lender st = LenderWaits \<and> vs (dg_send (dg st)) = None \<and> vr (dg_reply (dg st)) = None"

lemma foreign_call_loses_object:
  assumes "async_signal_ok (fst sigs) vs" "async_signal_ok (snd sigs) vr"
    and "vs (dg_send (dg st)) = Some (cell_new p e)" "vr (dg_reply (dg st)) = None" "lender st = LenderWaits" "user_executor ts i \<noteq> e"
    and "with_wait sigs (user_executor ts i) (closure ts i) (memory st) (dg st) = Some (d, r)"
  shows "r = Inl UnwrapNone \<and> lender_stuck vs vr (st\<lparr>dg := d, users := (users st)[i := UserPanicked]\<rparr>)"
proof -
  obtain s where "sig_wait (fst sigs) (dg_send (dg st)) = Some (s, cell_new p e)" "vs s = None"
    using async_signal_okD(5)[OF assms(1,3)] by blast
  then show ?thesis using assms(4-7) by (auto simp: with_wait_def cell_get_def cell_new_def lender_stuck_def)
qed

lemma lender_stays_stuck:
  assumes vs: "async_signal_ok (fst sigs) vs" and vr: "async_signal_ok (snd sigs) vr"
    and "lending_step sigs ts st st'" "lender_stuck vs vr st"
  shows "lender_stuck vs vr st'"
  using assms(3)
proof cases
  case (receive i d r)
  then show ?thesis using assms(4) async_signal_okD(3)[OF vs] by (auto simp: with_wait_def lender_stuck_def)
next
  case (reply d)
  then show ?thesis using assms(4) async_signal_okD(3)[OF vr] by (auto simp: lend_wait_def lender_stuck_def)
next
  case (call i)
  then show ?thesis using assms(4) by (auto simp: with_start_def lender_stuck_def require_def)
qed (use assms(4) in \<open>auto simp: lender_stuck_def\<close>)

text \<open>A signal as an optional value.\<close>

definition option_signal :: "('v option, 'v) embassy_signal" where
  "option_signal = \<lparr>sig_new = None, sig_signal = (\<lambda>_ v. Some v), sig_wait = map_option (\<lambda>v. (None, v))\<rparr>"

lemma option_signal_ok: "async_signal_ok option_signal id"
  by (auto simp: async_signal_ok_def option_signal_def)

definition example_tasks :: "(int, string) tasks" where
  "example_tasks = \<lparr>object = 4, lender_executor = 0, user_executor = \<lambda>_. 0, closure = \<lambda>_ v. (''set'', v + 1)\<rparr>"

lemma lent_object_used_once_witness:
  "\<exists>st. lending_reach (option_signal, option_signal) example_tasks 1 (\<lambda>_. 0) st \<and> lender st = LenderDone \<and>
     memory st 4 = 1 \<and> users st ! 0 = UserDone ''set''"
proof -
  let ?sigs = "(option_signal :: (nat same_executor_cell option, _) embassy_signal, option_signal :: (unit option, _) embassy_signal)"
  let ?step = "lending_step ?sigs example_tasks"
  define s0 where "s0 = (lending_init ?sigs 1 (\<lambda>_. 0 :: int) :: (_, _, _, string) lending)"
  define s1 where "s1 = s0\<lparr>dg := lend_start ?sigs 0 4 (dg s0), lender := LenderWaits\<rparr>"
  define s2 where "s2 = s1\<lparr>dg := (dg s1)\<lparr>was_exercised := True\<rparr>, users := [UserWaits]\<rparr>"
  define s3 where "s3 = s2\<lparr>dg := \<lparr>dg_send = None, dg_reply = Some (), was_exercised = True\<rparr>, memory := (\<lambda>_. 0)(4 := 1), users := [UserDone ''set'']\<rparr>"
  define s4 where "s4 = s3\<lparr>dg := \<lparr>dg_send = None, dg_reply = None, was_exercised = True\<rparr>, lender := LenderDone\<rparr>"
  have 1: "?step s0 s1" using lending_step.lend[of s0 ?sigs example_tasks] by (simp add: s0_def s1_def lending_init_def example_tasks_def)
  have 2: "?step s1 s2"
    using lending_step.call[of 0 s1 ?sigs example_tasks]
    by (simp add: s0_def s1_def s2_def lending_init_def with_start_def delegate_new_def lend_start_def)
  have 3: "?step s2 s3"
    using lending_step.receive[of 0 s2 ?sigs example_tasks]
    by (auto simp: s0_def s1_def s2_def s3_def lending_init_def delegate_new_def lend_start_def with_wait_def
          option_signal_def cell_get_def cell_new_def example_tasks_def)
  have 4: "?step s3 s4"
    using lending_step.reply[of s3 ?sigs _ example_tasks]
    by (auto simp: s0_def s1_def s2_def s3_def s4_def lending_init_def lend_wait_def option_signal_def)
  have reach: "lending_reach ?sigs example_tasks 1 (\<lambda>_. 0) s4"
    unfolding lending_reach_def s0_def[symmetric]
    by (rule converse_rtranclp_into_rtranclp[where r = ?step and b = s1, OF 1],
        rule converse_rtranclp_into_rtranclp[where r = ?step and b = s2, OF 2],
        rule converse_rtranclp_into_rtranclp[where r = ?step and b = s3, OF 3],
        rule r_into_rtranclp[where r = ?step, OF 4])
  have fin: "lender s4 = LenderDone" "users s4 = [UserDone ''set'']" by (simp_all add: s3_def s4_def)
  have ok: "async_signal_ok (fst ?sigs) id" "async_signal_ok (snd ?sigs) id" by (simp_all add: option_signal_ok)
  obtain i where "memory s4 = (\<lambda>_. 0)(4 := snd (closure example_tasks i 0))"
    using lent_object_used_once[OF ok reach] fin(1) by (auto simp: example_tasks_def)
  then have "memory s4 4 = 1" by (simp add: example_tasks_def)
  then show ?thesis using reach fin by auto
qed

end
