(* ===== verification/UdpSocket.thy ===== *)
theory UdpSocket
  imports Prelude
begin

section \<open>UDP sockets of the CoAP server (\<open>ariel-os-coap/src/udp_nal\<close>)\<close>

text \<open>
  Sockets with the interface of \<open>embedded_nal_async\<close> on top of those of \<open>embassy_net\<close>.  The latter
  are a parameter: a record of the operations of a socket on the state \<open>'w\<close> of the network stack, and
  of the conversions of the crate.  An operation that waits is one step; \<open>None\<close> never returns.
\<close>

subsection \<open>Addresses (\<open>util.rs\<close>)\<close>

datatype socket_addr =
    SocketAddrV4 "8 word list" "16 word"
  | SocketAddrV6 "8 word list" "16 word" "32 word" "32 word"    \<comment> \<open>octets, port, flow label, scope\<close>

datatype ip_address = Ipv4 "8 word list" | Ipv6 "8 word list"

record ip_endpoint =
  ep_addr :: ip_address
  ep_port :: "16 word"

definition addr_port :: "socket_addr \<Rightarrow> 16 word" where
  "addr_port a = (case a of SocketAddrV4 _ p \<Rightarrow> p | SocketAddrV6 _ p _ _ \<Rightarrow> p)"

definition sockaddr_smol2nal :: "ip_endpoint \<Rightarrow> socket_addr" where
  "sockaddr_smol2nal endpoint =
     (case ep_addr endpoint of
        Ipv4 addr \<Rightarrow> SocketAddrV4 addr (ep_port endpoint)
      | Ipv6 addr \<Rightarrow> SocketAddrV6 addr (ep_port endpoint) 0 0)"

definition is_unspec_ip :: "socket_addr \<Rightarrow> bool" where
  "is_unspec_ip addr =
     (case addr of SocketAddrV4 octets _ \<Rightarrow> octets = replicate 4 0 | SocketAddrV6 octets _ _ _ \<Rightarrow> octets = replicate 16 0)"

subsection \<open>Errors\<close>

datatype udp_recv_error = RecvTruncated
datatype udp_send_error = SendNoRoute | SendSocketNotBound | SendPacketTooLarge
datatype udp_bind_error = BindInvalidState | BindNoRoute

datatype nal_error =
    RecvError udp_recv_error
  | SendError udp_send_error
  | BindError udp_bind_error
  | AddressFamilyUnavailable

datatype error_kind = AddrNotAvailable | KindOutOfMemory | KindOther

fun nal_error_kind :: "nal_error \<Rightarrow> error_kind" where
  "nal_error_kind (SendError SendNoRoute) = AddrNotAvailable"
| "nal_error_kind (BindError BindNoRoute) = AddrNotAvailable"
| "nal_error_kind (SendError SendPacketTooLarge) = KindOutOfMemory"
| "nal_error_kind AddressFamilyUnavailable = AddrNotAvailable"
| "nal_error_kind (SendError SendSocketNotBound) = KindOther"
| "nal_error_kind (BindError BindInvalidState) = KindOther"
| "nal_error_kind (RecvError RecvTruncated) = KindOther"

subsection \<open>Sockets\<close>

record udp_metadata =
  md_endpoint :: ip_endpoint
  md_local_address :: "ip_address option"

text \<open>\<open>bind\<close> gets an optional address and a port: binding to a port only is a different conversion.\<close>

record ('w, 's) udp_net =
  endpoint_of_sockaddr :: "socket_addr \<Rightarrow> ip_endpoint"
  metadata_of_endpoint :: "ip_endpoint \<Rightarrow> udp_metadata"
  is_unspecified :: "ip_address \<Rightarrow> bool"
  udp_bind :: "'w \<Rightarrow> 's \<Rightarrow> ip_address option \<Rightarrow> 16 word \<Rightarrow> 'w \<times> (udp_bind_error + 's)"
  bound_port :: "'s \<Rightarrow> 16 word"
  udp_send_to :: "'w \<Rightarrow> 's \<Rightarrow> 8 word list \<Rightarrow> udp_metadata \<Rightarrow> ('w \<times> (udp_send_error + unit)) option"
  udp_recv_from :: "'w \<Rightarrow> 's \<Rightarrow> nat \<Rightarrow> ('w \<times> (udp_recv_error + 8 word list \<times> udp_metadata)) option"

definition sockaddr_nal2smol :: "('w, 's) udp_net \<Rightarrow> socket_addr \<Rightarrow> nal_error + ip_endpoint" where
  "sockaddr_nal2smol net sockaddr = Inr (endpoint_of_sockaddr net sockaddr)"

record 's connected_udp =
  cu_remote :: ip_endpoint
  cu_local :: "ip_address option"
  cu_socket :: 's

record 's unconnected_udp =
  uu_socket :: 's

text \<open>The part that both constructors share: binding, to the port alone for an unspecified address.\<close>

definition bind_local ::
    "('w, 's) udp_net \<Rightarrow> 'w \<Rightarrow> 's \<Rightarrow> socket_addr \<Rightarrow> 'w \<times> (nal_error + 's)" where
  "bind_local net w socket local =
     (case sockaddr_nal2smol net local of
        Inl e \<Rightarrow> (w, Inl e)
      | Inr bind_to \<Rightarrow>
          apsnd (map_sum BindError id)
            (if is_unspecified net (ep_addr bind_to) then udp_bind net w socket None (ep_port bind_to)
             else udp_bind net w socket (Some (ep_addr bind_to)) (ep_port bind_to)))"

definition connect_from ::
    "('w, 's) udp_net \<Rightarrow> 'w \<Rightarrow> 's \<Rightarrow> socket_addr \<Rightarrow> socket_addr \<Rightarrow> 'w \<times> (nal_error + 's connected_udp)" where
  "connect_from net w socket local remote =
     (case bind_local net w socket local of
        (w, Inl e) \<Rightarrow> (w, Inl e)
      | (w, Inr socket) \<Rightarrow>
          (w, bnd (sockaddr_nal2smol net remote) (\<lambda>remote.
                Inr \<lparr>cu_remote = remote, cu_local = None, cu_socket = socket\<rparr>)))"

definition bind_multiple ::
    "('w, 's) udp_net \<Rightarrow> 'w \<Rightarrow> 's \<Rightarrow> socket_addr \<Rightarrow> 'w \<times> (nal_error + 's unconnected_udp)" where
  "bind_multiple net w socket local =
     (case bind_local net w socket local of
        (w, Inl e) \<Rightarrow> (w, Inl e)
      | (w, Inr socket) \<Rightarrow> (w, Inr \<lparr>uu_socket = socket\<rparr>))"

text \<open>The check of the port of the local address is a \<open>debug_assert!\<close>.\<close>

definition send_metadata :: "('w, 's) udp_net \<Rightarrow> socket_addr \<Rightarrow> socket_addr \<Rightarrow> nal_error + udp_metadata" where
  "send_metadata net local remote =
     bnd (if is_unspec_ip local then Inr None
          else bnd (sockaddr_nal2smol net local) (\<lambda>ep. Inr (Some (ep_addr ep)))) (\<lambda>local_address.
     bnd (sockaddr_nal2smol net remote) (\<lambda>ep.
     Inr ((metadata_of_endpoint net ep)\<lparr>md_local_address := local_address\<rparr>)))"

definition udp_send ::
    "('w, 's) udp_net \<Rightarrow> 'w \<Rightarrow> 's unconnected_udp \<Rightarrow> socket_addr \<Rightarrow> socket_addr \<Rightarrow> 8 word list \<Rightarrow>
     ('w \<times> (nal_error + unit)) option" where
  "udp_send net w self local remote buf =
     (case send_metadata net local remote of
        Inl e \<Rightarrow> Some (w, Inl e)
      | Inr remote_endpoint \<Rightarrow>
          map_option (apsnd (map_sum SendError id)) (udp_send_to net w (uu_socket self) buf remote_endpoint))"

text \<open>
  \<open>receive_into\<close> gives the datagram with the local and the remote address; an absent local address
  is a panic.
\<close>

definition udp_receive_into ::
    "('w, 's) udp_net \<Rightarrow> 'w \<Rightarrow> 's unconnected_udp \<Rightarrow> nat \<Rightarrow>
     (panic + 'w \<times> (nal_error + 8 word list \<times> socket_addr \<times> socket_addr)) option" where
  "udp_receive_into net w self buf =
     (case udp_recv_from net w (uu_socket self) buf of
        None \<Rightarrow> None
      | Some (w, Inl e) \<Rightarrow> Some (Inr (w, Inl (RecvError e)))
      | Some (w, Inr (data, metadata)) \<Rightarrow>
          Some (bnd (unwrap (md_local_address metadata)) (\<lambda>addr.
            Inr (w, Inr (data, sockaddr_smol2nal \<lparr>ep_addr = addr, ep_port = bound_port net (uu_socket self)\<rparr>,
                         sockaddr_smol2nal (md_endpoint metadata))))))"

subsection \<open>Conversions\<close>

text \<open>What the sockets rely on of \<open>embassy_net\<close>.\<close>

definition ip_wf :: "ip_address \<Rightarrow> bool" where
  "ip_wf a = (case a of Ipv4 os \<Rightarrow> length os = 4 | Ipv6 os \<Rightarrow> length os = 16)"

definition udp_net_ok :: "('w, 's) udp_net \<Rightarrow> bool" where
  "udp_net_ok net \<longleftrightarrow>
     (\<forall>os p. endpoint_of_sockaddr net (SocketAddrV4 os p) = \<lparr>ep_addr = Ipv4 os, ep_port = p\<rparr>) \<and>
     (\<forall>os p f s. endpoint_of_sockaddr net (SocketAddrV6 os p f s) = \<lparr>ep_addr = Ipv6 os, ep_port = p\<rparr>) \<and>
     (\<forall>ep. metadata_of_endpoint net ep = \<lparr>md_endpoint = ep, md_local_address = None\<rparr>) \<and>
     (\<forall>a. is_unspecified net a \<longleftrightarrow> (case a of Ipv4 os \<Rightarrow> os = replicate 4 0 | Ipv6 os \<Rightarrow> os = replicate 16 0)) \<and>
     (\<forall>w s n w' data md. udp_recv_from net w s n = Some (w', Inr (data, md)) \<longrightarrow>
        length data \<le> n \<and> md_local_address md \<noteq> None)"

lemma nal2smol_smol2nal: "udp_net_ok net \<Longrightarrow> sockaddr_nal2smol net (sockaddr_smol2nal ep) = Inr ep"
  by (cases ep) (auto simp: udp_net_ok_def sockaddr_nal2smol_def sockaddr_smol2nal_def split: ip_address.split)

text \<open>In the other direction an IPv6 address loses its flow label and its scope.\<close>

lemma smol2nal_nal2smol:
  "udp_net_ok net \<Longrightarrow> bnd (sockaddr_nal2smol net a) (Inr \<circ> sockaddr_smol2nal) =
     Inr (case a of SocketAddrV4 os p \<Rightarrow> SocketAddrV4 os p | SocketAddrV6 os p _ _ \<Rightarrow> SocketAddrV6 os p 0 0)"
  by (auto simp: udp_net_ok_def sockaddr_nal2smol_def sockaddr_smol2nal_def split: socket_addr.split)

lemma unspec_agree: "udp_net_ok net \<Longrightarrow> is_unspec_ip (sockaddr_smol2nal ep) = is_unspecified net (ep_addr ep)"
  by (auto simp: udp_net_ok_def is_unspec_ip_def sockaddr_smol2nal_def split: ip_address.split)

subsection \<open>Sending and receiving\<close>

lemma bind_multiple_spec:
  assumes "udp_net_ok net"
  shows "bind_multiple net w socket local =
     (case udp_bind net w socket
        (if is_unspec_ip local then None else Some (ep_addr (endpoint_of_sockaddr net local))) (addr_port local) of
        (w, Inl e) \<Rightarrow> (w, Inl (BindError e)) | (w, Inr socket) \<Rightarrow> (w, Inr \<lparr>uu_socket = socket\<rparr>))"
  using assms
  by (cases local)
     (auto simp: bind_multiple_def bind_local_def sockaddr_nal2smol_def udp_net_ok_def is_unspec_ip_def addr_port_def
        split: prod.splits sum.splits)

lemma received_local:
  "udp_net_ok net \<Longrightarrow> udp_recv_from net w s n = Some (w', Inr (data, md)) \<Longrightarrow> \<exists>a. md_local_address md = Some a"
  unfolding udp_net_ok_def by (metis option.exhaust)

lemma receive_no_panic: "udp_net_ok net \<Longrightarrow> udp_receive_into net w self n \<noteq> Some (Inl p)"
  by (fastforce simp: udp_receive_into_def udp_net_ok_def unwrap_def split: option.splits sum.splits)

text \<open>
  Receiving never panics, and a reply that is sent with the two addresses that came with a datagram
  goes to the address and the port the datagram came from, from the local address it was sent to.
\<close>

lemma reply_goes_back:
  assumes ok: "udp_net_ok net"
    and rcv: "udp_receive_into net w self n = Some r"
  shows "\<exists>w'. (\<exists>e. r = Inr (w', Inl (RecvError e))) \<or>
     (\<exists>data local remote md a. r = Inr (w', Inr (data, local, remote)) \<and>
        udp_recv_from net w (uu_socket self) n = Some (w', Inr (data, md)) \<and> md_local_address md = Some a \<and>
        (\<forall>w'' buf. udp_send net w'' self local remote buf =
           map_option (apsnd (map_sum SendError id))
             (udp_send_to net w'' (uu_socket self) buf (md\<lparr>md_local_address := if is_unspecified net a then None else Some a\<rparr>))))"
proof (cases "udp_recv_from net w (uu_socket self) n")
  case None
  then show ?thesis using rcv by (simp add: udp_receive_into_def)
next
  case (Some p)
  obtain w' q where p: "p = (w', q)" by (cases p)
  show ?thesis
  proof (cases q)
    case (Inl e)
    then show ?thesis using rcv Some p by (auto simp: udp_receive_into_def)
  next
    case (Inr dm)
    obtain data md where q: "q = Inr (data, md)" using Inr by (cases dm) simp
    then obtain a where a: "md_local_address md = Some a" using received_local[OF ok] Some p by blast
    let ?local = "sockaddr_smol2nal \<lparr>ep_addr = a, ep_port = bound_port net (uu_socket self)\<rparr>"
    have r: "r = Inr (w', Inr (data, ?local, sockaddr_smol2nal (md_endpoint md)))"
      using rcv Some p q a by (simp add: udp_receive_into_def)
    have "send_metadata net ?local (sockaddr_smol2nal (md_endpoint md)) =
            Inr (md\<lparr>md_local_address := if is_unspecified net a then None else Some a\<rparr>)"
      using ok by (simp add: send_metadata_def nal2smol_smol2nal[OF ok] unspec_agree[OF ok]) (simp add: udp_net_ok_def)
    then have "\<forall>w'' buf. udp_send net w'' self ?local (sockaddr_smol2nal (md_endpoint md)) buf =
           map_option (apsnd (map_sum SendError id))
             (udp_send_to net w'' (uu_socket self) buf (md\<lparr>md_local_address := if is_unspecified net a then None else Some a\<rparr>))"
      by (simp add: udp_send_def)
    then show ?thesis using r Some p q a by blast
  qed
qed

text \<open>A network that echoes: what is sent comes back from where it went.\<close>

definition echo_net :: "((8 word list \<times> udp_metadata) list, 16 word) udp_net" where
  "echo_net =
     \<lparr>endpoint_of_sockaddr = (\<lambda>a. case a of SocketAddrV4 os p \<Rightarrow> \<lparr>ep_addr = Ipv4 os, ep_port = p\<rparr>
                                  | SocketAddrV6 os p _ _ \<Rightarrow> \<lparr>ep_addr = Ipv6 os, ep_port = p\<rparr>),
      metadata_of_endpoint = (\<lambda>ep. \<lparr>md_endpoint = ep, md_local_address = None\<rparr>),
      is_unspecified = (\<lambda>a. case a of Ipv4 os \<Rightarrow> os = replicate 4 0 | Ipv6 os \<Rightarrow> os = replicate 16 0),
      udp_bind = (\<lambda>w s a p. (w, Inr p)), bound_port = id,
      udp_send_to = (\<lambda>w s buf md. Some (w @ [(buf, md)], Inr ())),
      udp_recv_from = (\<lambda>w s n. case w of [] \<Rightarrow> None
        | (data, md) # w \<Rightarrow>
            Some (w, if n < length data then Inl RecvTruncated
                     else Inr (data, md\<lparr>md_local_address := Some (Ipv4 [10, 0, 0, 1])\<rparr>)))\<rparr>"

lemma echo_net_ok: "udp_net_ok echo_net"
  by (auto simp: udp_net_ok_def echo_net_def split: list.splits if_splits)

lemma reply_goes_back_witness:
  "udp_send echo_net [] \<lparr>uu_socket = 5683\<rparr> (SocketAddrV4 [10, 0, 0, 1] 5683) (SocketAddrV4 [10, 0, 0, 2] 1234) [7] =
     Some ([([7], \<lparr>md_endpoint = \<lparr>ep_addr = Ipv4 [10, 0, 0, 2], ep_port = 1234\<rparr>,
                    md_local_address = Some (Ipv4 [10, 0, 0, 1])\<rparr>)], Inr ())"
proof -
  let ?md = "\<lparr>md_endpoint = \<lparr>ep_addr = Ipv4 [10, 0, 0, 2], ep_port = 1234\<rparr>, md_local_address = None\<rparr>"
  have "udp_receive_into echo_net [([1, 2], ?md)] \<lparr>uu_socket = 5683\<rparr> 10 =
      Some (Inr ([], Inr ([1, 2], SocketAddrV4 [10, 0, 0, 1] 5683, SocketAddrV4 [10, 0, 0, 2] 1234)))"
    by (simp add: udp_receive_into_def echo_net_def sockaddr_smol2nal_def)
  then obtain md a where md: "udp_recv_from echo_net [([1, 2], ?md)] 5683 10 = Some ([], Inr ([1, 2], md))"
      "md_local_address md = Some a"
    and send: "\<And>w'' buf. udp_send echo_net w'' \<lparr>uu_socket = 5683\<rparr> (SocketAddrV4 [10, 0, 0, 1] 5683)
        (SocketAddrV4 [10, 0, 0, 2] 1234) buf = map_option (apsnd (map_sum SendError id)) (udp_send_to echo_net w'' 5683 buf
          (md\<lparr>md_local_address := if is_unspecified echo_net a then None else Some a\<rparr>))"
    using reply_goes_back[OF echo_net_ok, of "[([1, 2], ?md)]" "\<lparr>uu_socket = 5683\<rparr>" 10] by auto
  have "md = ?md\<lparr>md_local_address := Some (Ipv4 [10, 0, 0, 1])\<rparr>" "a = Ipv4 [10, 0, 0, 1]"
    using md by (auto simp: echo_net_def)
  then show ?thesis unfolding send by (simp add: echo_net_def numeral_eq_Suc)
qed

end
