(* ===== verification/Randomness.thy ===== *)
theory Randomness
  imports Prelude
begin

section \<open>Random numbers (\<open>ariel-os-random\<close>)\<close>

text \<open>
  One global generator is seeded once at start-up.  The fast generators are seeded from it; the
  cryptographic ones are either handles to it, or generators of their own seeded from it.  The
  algorithms are parameters: the three operations of a generator of type \<open>'g\<close>, and how a generator
  is made from another source.  Access to the global generator holds its mutex, so it is one step.
  Before the initialisation the global generator is \<open>None\<close>.
\<close>

record 'r rng_core =
  next_u32 :: "'r \<Rightarrow> 'r \<times> 32 word"
  next_u64 :: "'r \<Rightarrow> 'r \<times> 64 word"
  fill_bytes :: "'r \<Rightarrow> nat \<Rightarrow> 'r \<times> 8 word list"

definition with_global :: "'g option \<Rightarrow> ('g \<Rightarrow> 'g \<times> 'a) \<Rightarrow> panic + 'g option \<times> 'a" where
  "with_global rng action = bnd (unwrap rng) (\<lambda>g. let (g, a) = action g in Inr (Some g, a))"

text \<open>\<open>from_rng\<close> draws a seed from the source and makes a generator of it.\<close>

type_synonym ('s, 'r) from_rng = "'s \<Rightarrow> 's \<times> 'r"

definition construct_rng :: "('h, 'g) from_rng \<Rightarrow> 'g option \<Rightarrow> 'h \<Rightarrow> panic + 'g option \<times> 'h" where
  "construct_rng from_hwrng rng hwrng =
     (let (hwrng, g) = from_hwrng hwrng
      in case rng of None \<Rightarrow> Inr (Some g, hwrng) | Some _ \<Rightarrow> Inl UnwrapNone)"

subsection \<open>Fast generators\<close>

datatype 'f fast_generator = FastRng (fast_inner: 'f)
datatype 'f fast_generator_send = FastRngSend (fast_send_inner: 'f)

definition fast_rng :: "('g, 'f) from_rng \<Rightarrow> 'g option \<Rightarrow> panic + 'g option \<times> 'f fast_generator" where
  "fast_rng pcg_from_rng rng = bnd (with_global rng pcg_from_rng) (\<lambda>(rng, inner). Inr (rng, FastRng inner))"

definition fast_rng_send :: "('g, 'f) from_rng \<Rightarrow> 'g option \<Rightarrow> panic + 'g option \<times> 'f fast_generator_send" where
  "fast_rng_send pcg_from_rng rng = bnd (with_global rng pcg_from_rng) (\<lambda>(rng, inner). Inr (rng, FastRngSend inner))"

text \<open>Both versions of the trait call the inner generator; \<open>try_fill_bytes\<close> does not fail.\<close>

definition fast_core :: "'f rng_core \<Rightarrow> 'f fast_generator rng_core" where
  "fast_core pcg =
     \<lparr>next_u32 = \<lambda>self. apfst FastRng (next_u32 pcg (fast_inner self)),
      next_u64 = \<lambda>self. apfst FastRng (next_u64 pcg (fast_inner self)),
      fill_bytes = \<lambda>self n. apfst FastRng (fill_bytes pcg (fast_inner self) n)\<rparr>"

definition fast_send_core :: "'f rng_core \<Rightarrow> 'f fast_generator_send rng_core" where
  "fast_send_core pcg =
     \<lparr>next_u32 = \<lambda>self. apfst FastRngSend (next_u32 pcg (fast_send_inner self)),
      next_u64 = \<lambda>self. apfst FastRngSend (next_u64 pcg (fast_send_inner self)),
      fill_bytes = \<lambda>self n. apfst FastRngSend (fill_bytes pcg (fast_send_inner self) n)\<rparr>"

definition try_fill_bytes :: "'r rng_core \<Rightarrow> 'r \<Rightarrow> nat \<Rightarrow> 'r \<times> ('e + 8 word list)" where
  "try_fill_bytes core self n = apsnd Inr (fill_bytes core self n)"

subsection \<open>Cryptographic generators (feature \<open>csprng\<close>)\<close>

datatype crypto_generator = CryptoRng
datatype 'g crypto_generator_send = CryptoRngSend (crypto_inner: 'g)

definition crypto_rng :: crypto_generator where
  "crypto_rng = CryptoRng"

definition crypto_next_u32 :: "'g rng_core \<Rightarrow> crypto_generator \<Rightarrow> 'g option \<Rightarrow> panic + 'g option \<times> 32 word" where
  "crypto_next_u32 chacha self rng = with_global rng (next_u32 chacha)"

definition crypto_next_u64 :: "'g rng_core \<Rightarrow> crypto_generator \<Rightarrow> 'g option \<Rightarrow> panic + 'g option \<times> 64 word" where
  "crypto_next_u64 chacha self rng = with_global rng (next_u64 chacha)"

definition crypto_fill_bytes :: "'g rng_core \<Rightarrow> crypto_generator \<Rightarrow> nat \<Rightarrow> 'g option \<Rightarrow> panic + 'g option \<times> 8 word list" where
  "crypto_fill_bytes chacha self n rng = with_global rng (\<lambda>g. fill_bytes chacha g n)"

definition crypto_rng_send :: "('g, 'g) from_rng \<Rightarrow> 'g option \<Rightarrow> panic + 'g option \<times> 'g crypto_generator_send" where
  "crypto_rng_send chacha_from_rng rng =
     bnd (with_global rng chacha_from_rng) (\<lambda>(rng, inner). Inr (rng, CryptoRngSend inner))"

definition crypto_send_core :: "'g rng_core \<Rightarrow> 'g crypto_generator_send rng_core" where
  "crypto_send_core chacha =
     \<lparr>next_u32 = \<lambda>self. apfst CryptoRngSend (next_u32 chacha (crypto_inner self)),
      next_u64 = \<lambda>self. apfst CryptoRngSend (next_u64 chacha (crypto_inner self)),
      fill_bytes = \<lambda>self n. apfst CryptoRngSend (fill_bytes chacha (crypto_inner self) n)\<rparr>"

text \<open>The adapter between the two versions of the trait.\<close>

definition rng_adapter :: "'r rng_core \<Rightarrow> 'r rng_core" where
  "rng_adapter r = \<lparr>next_u32 = next_u32 r, next_u64 = next_u64 r, fill_bytes = fill_bytes r\<rparr>"

text \<open>
  The backend of the crate \<open>getrandom\<close> (\<open>getrandom.rs\<close>): \<open>len\<close> bytes of memory, of which nothing is
  known, are zeroed and filled.
\<close>

definition getrandom_v03_custom :: "'g rng_core \<Rightarrow> 'g option \<Rightarrow> nat \<Rightarrow> panic + 'g option \<times> ('e + 8 word list)" where
  "getrandom_v03_custom chacha rng len =
     (let buf = replicate len (0 :: 8 word)
      in bnd (crypto_fill_bytes chacha crypto_rng (length buf) rng) (\<lambda>(rng, filled). Inr (rng, Inr filled)))"

subsection \<open>The source on a host system (\<open>ariel-os-native/src/hwrng.rs\<close>)\<close>

text \<open>The function \<open>getrandom\<close> of the crate of that name is a parameter; an error is a panic.\<close>

type_synonym 'h getrandom = "'h \<Rightarrow> nat \<Rightarrow> 'h \<times> 8 word list option"

definition getrandom02_fill_bytes :: "'h getrandom \<Rightarrow> 'h \<Rightarrow> nat \<Rightarrow> panic + 'h \<times> 8 word list" where
  "getrandom02_fill_bytes getrandom h n =
     (case getrandom h n of (h, Some bytes) \<Rightarrow> Inr (h, bytes) | (h, None) \<Rightarrow> Inl ExplicitPanic)"

definition word_of_le_bytes :: "8 word list \<Rightarrow> 'w::len word" where
  "word_of_le_bytes bytes = foldr (\<lambda>b w. push_bit 8 w OR ucast b) bytes 0"

definition getrandom02_next_u32 :: "'h getrandom \<Rightarrow> 'h \<Rightarrow> panic + 'h \<times> 32 word" where
  "getrandom02_next_u32 getrandom h =
     bnd (getrandom02_fill_bytes getrandom h 4) (\<lambda>(h, buf). Inr (h, word_of_le_bytes buf))"

definition getrandom02_next_u64 :: "'h getrandom \<Rightarrow> 'h \<Rightarrow> panic + 'h \<times> 64 word" where
  "getrandom02_next_u64 getrandom h =
     bnd (getrandom02_fill_bytes getrandom h 8) (\<lambda>(h, buf). Inr (h, word_of_le_bytes buf))"

subsection \<open>One stream for all handles\<close>

lemma with_global_simps [simp]:
  "with_global None action = Inl UnwrapNone"
  "with_global (Some g) action = (let (g, a) = action g in Inr (Some g, a))"
  by (simp_all add: with_global_def)

text \<open>The global generator is seeded once: a second initialisation panics, whatever happened since.\<close>

lemma construct_rng_once:
  "construct_rng from_hwrng None hwrng = Inr (Some (snd (from_hwrng hwrng)), fst (from_hwrng hwrng))"
  "construct_rng from_hwrng (Some g) hwrng = Inl UnwrapNone"
  by (simp_all add: construct_rng_def split: prod.splits)

text \<open>
  What tasks can do with the global generator: draw from a handle, or seed another generator.  A step
  gives the bytes drawn.
\<close>

datatype global_use = UseBytes nat | SeedFast | SeedCrypto

definition global_step ::
    "'g rng_core \<Rightarrow> ('g, 'f) from_rng \<Rightarrow> ('g, 'g) from_rng \<Rightarrow> global_use \<Rightarrow> 'g option \<Rightarrow> panic + 'g option \<times> 8 word list" where
  "global_step chacha pcg_from chacha_from u rng =
     (case u of
        UseBytes n \<Rightarrow> crypto_fill_bytes chacha crypto_rng n rng
      | SeedFast \<Rightarrow> bnd (fast_rng pcg_from rng) (\<lambda>(rng, _). Inr (rng, []))
      | SeedCrypto \<Rightarrow> bnd (crypto_rng_send chacha_from rng) (\<lambda>(rng, _). Inr (rng, [])))"

fun global_steps where
  "global_steps chacha pcg_from chacha_from [] rng = Inr (rng, [])"
| "global_steps chacha pcg_from chacha_from (u # us) rng =
     bnd (global_step chacha pcg_from chacha_from u rng) (\<lambda>(rng, bs).
     bnd (global_steps chacha pcg_from chacha_from us rng) (\<lambda>(rng, bss). Inr (rng, bs # bss)))"

text \<open>
  The documented behaviour of a generator: it is a position in a stream, and \<open>fill_bytes\<close> gives the
  next bytes of it.  Seeding draws \<open>seed\<close> bytes.
\<close>

definition stream_rng :: "'g rng_core \<Rightarrow> ('g, 'f) from_rng \<Rightarrow> ('g, 'g) from_rng \<Rightarrow> nat \<Rightarrow> nat \<Rightarrow> ('g \<Rightarrow> nat \<Rightarrow> 8 word) \<Rightarrow> bool" where
  "stream_rng chacha pcg_from chacha_from seed1 seed2 bytes_of \<longleftrightarrow>
     (\<forall>g n. snd (fill_bytes chacha g n) = map (bytes_of g) [0..<n] \<and>
            bytes_of (fst (fill_bytes chacha g n)) = (\<lambda>i. bytes_of g (i + n))) \<and>
     (\<forall>g. bytes_of (fst (pcg_from g)) = (\<lambda>i. bytes_of g (i + seed1))) \<and>
     (\<forall>g. bytes_of (fst (chacha_from g)) = (\<lambda>i. bytes_of g (i + seed2)))"

fun used_bytes :: "nat \<Rightarrow> nat \<Rightarrow> global_use \<Rightarrow> nat" where
  "used_bytes seed1 seed2 (UseBytes n) = n"
| "used_bytes seed1 seed2 SeedFast = seed1"
| "used_bytes seed1 seed2 SeedCrypto = seed2"

fun drawn :: "nat \<Rightarrow> nat \<Rightarrow> (nat \<Rightarrow> 8 word) \<Rightarrow> nat \<Rightarrow> global_use list \<Rightarrow> 8 word list list" where
  "drawn seed1 seed2 bytes at [] = []"
| "drawn seed1 seed2 bytes at (u # us) =
     (case u of UseBytes n \<Rightarrow> map bytes [at..<at + n] | _ \<Rightarrow> []) # drawn seed1 seed2 bytes (at + used_bytes seed1 seed2 u) us"

text \<open>
  All handles to the global generator share one stream: over any interleaving of draws and seedings
  after the initialisation nothing panics, each draw gets the bytes that follow those used before,
  and so no byte of the stream is given out twice.
\<close>

lemma handles_share_stream:
  assumes "stream_rng chacha pcg_from chacha_from seed1 seed2 bytes_of"
  shows "\<exists>g'. global_steps chacha pcg_from chacha_from us (Some g) = Inr (Some g', drawn seed1 seed2 (bytes_of g) 0 us)"
proof -
  have shift: "drawn seed1 seed2 (\<lambda>i. f (i + k)) at us = drawn seed1 seed2 f (at + k) us" for f k at us
  proof (induction us arbitrary: at)
    case (Cons u us)
    have "map (\<lambda>i. f (i + k)) [at..<at + n] = map f [at + k..<at + k + n]" for n
      by (rule nth_equalityI) (simp_all add: ac_simps)
    then show ?case using Cons by (simp add: ac_simps split: global_use.split)
  qed simp
  show ?thesis
  proof (induction us arbitrary: g)
    case (Cons u us)
    define g1 where "g1 = (case u of UseBytes n \<Rightarrow> fst (fill_bytes chacha g n) | SeedFast \<Rightarrow> fst (pcg_from g) | SeedCrypto \<Rightarrow> fst (chacha_from g))"
    have step: "global_step chacha pcg_from chacha_from u (Some g) =
        Inr (Some g1, case u of UseBytes n \<Rightarrow> map (bytes_of g) [0..<n] | _ \<Rightarrow> [])"
      using assms
      by (auto simp: global_step_def crypto_fill_bytes_def fast_rng_def crypto_rng_send_def g1_def stream_rng_def
            split: global_use.split prod.splits) (metis fst_conv snd_conv)+
    have "bytes_of g1 = (\<lambda>i. bytes_of g (i + used_bytes seed1 seed2 u))"
      using assms by (cases u) (simp_all add: g1_def stream_rng_def)
    then have "drawn seed1 seed2 (bytes_of g1) 0 us = drawn seed1 seed2 (bytes_of g) (used_bytes seed1 seed2 u) us"
      using shift[of "bytes_of g" "used_bytes seed1 seed2 u" 0] by (simp only: add_0)
    then obtain g' where "global_steps chacha pcg_from chacha_from us (Some g1) =
        Inr (Some g', drawn seed1 seed2 (bytes_of g) (used_bytes seed1 seed2 u) us)"
      using Cons[of g1] by auto
    then show ?case using step by (simp split: global_use.split)
  qed simp
qed

text \<open>A counter as a generator.\<close>

definition counter_core :: "nat rng_core" where
  "counter_core =
     \<lparr>next_u32 = \<lambda>g. (g + 4, word_of_nat g), next_u64 = \<lambda>g. (g + 8, word_of_nat g),
      fill_bytes = \<lambda>g n. (g + n, map (\<lambda>i. word_of_nat (g + i)) [0..<n])\<rparr>"

lemma handles_share_stream_witness:
  "\<exists>g'. global_steps counter_core (\<lambda>g. (g + 16, g)) (\<lambda>g. (g + 32, g)) [UseBytes 2, SeedFast, UseBytes 1] (Some 0) =
     Inr (Some g', [[0, 1], [], [18]])"
proof -
  have "stream_rng counter_core (\<lambda>g. (g + 16, g)) (\<lambda>g. (g + 32, g)) 16 32 (\<lambda>g i. word_of_nat (g + i))"
    by (simp add: stream_rng_def counter_core_def fun_eq_iff ac_simps)
  from handles_share_stream[OF this, of "[UseBytes 2, SeedFast, UseBytes 1]" 0]
  show ?thesis by (simp add: upt_rec)
qed

text \<open>The little-endian reading of the bytes, and that the first byte is the low one.\<close>

lemma word_of_le_bytes_split: "word_of_le_bytes (b # bs) = push_bit 8 (word_of_le_bytes bs) OR ucast b"
  by (simp add: word_of_le_bytes_def)

lemma word_of_le_bytes_low: "take_bit 8 (word_of_le_bytes (b # bs) :: 32 word) = ucast b"
  by (rule bit_word_eqI) (auto simp: word_of_le_bytes_split bit_simps dest: bit_imp_le_length)

end
