(* ===== verification/ExtInt.thy ===== *)
theory ExtInt
  imports Prelude
begin

section \<open>External interrupt channels of STM32 (\<open>extint_registry.rs\<close>)\<close>

text \<open>
  The chips have sixteen channels for external interrupts; pin \<open>i\<close> of every port shares channel \<open>i\<close>.
  The registry takes all channels at start-up and hands each out at most once.  The peripherals are
  the list of the channels that have not been taken; \<open>bit_set\<close> sets a bit and returns its old value,
  in one atomic step.  A pin number is below sixteen, which the crate of the chip guarantees.
\<close>

datatype interrupt_error = IntChannelAlreadyUsed | NoIntChannelAvailable

record extint_registry =
  initialized :: bool
  used_interrupt_channels :: "16 word"

definition extint_new :: extint_registry where
  "extint_new = \<lparr>initialized = False, used_interrupt_channels = 0\<rparr>"

text \<open>\<open>peripherals.EXTIi.take().unwrap()\<close>, for all channels in turn.\<close>

definition take_channel :: "nat \<Rightarrow> nat list \<Rightarrow> panic + nat list" where
  "take_channel i peripherals = (if i \<in> set peripherals then Inr (removeAll i peripherals) else Inl UnwrapNone)"

fun take_channels :: "nat list \<Rightarrow> nat list \<Rightarrow> panic + nat list" where
  "take_channels [] peripherals = Inr peripherals"
| "take_channels (i # is) peripherals = bnd (take_channel i peripherals) (take_channels is)"

definition extint_init :: "extint_registry \<Rightarrow> nat list \<Rightarrow> panic + extint_registry \<times> nat list" where
  "extint_init self peripherals =
     bnd (take_channels [0..<16] peripherals) (\<lambda>rest. Inr (self\<lparr>initialized := True\<rparr>, rest))"

definition bit_set :: "nat \<Rightarrow> 16 word \<Rightarrow> 16 word \<times> bool" where
  "bit_set n w = (w OR push_bit n 1, bit w n)"

definition get_interrupt_channel_for_pin ::
    "extint_registry \<Rightarrow> nat \<Rightarrow> panic + extint_registry \<times> (interrupt_error + nat)" where
  "get_interrupt_channel_for_pin self pin_number =
     bnd (require (initialized self)) (\<lambda>_.
       let (used, was_used) = bit_set pin_number (used_interrupt_channels self);
           self = self\<lparr>used_interrupt_channels := used\<rparr>
       in if was_used then Inr (self, Inl IntChannelAlreadyUsed)
          else if pin_number < 16 then Inr (self, Inr pin_number)
          else Inl UnreachableCode)"

subsection \<open>Each channel at most once\<close>

lemma take_channels_ok:
  "distinct is \<Longrightarrow> set is \<subseteq> set peripherals \<Longrightarrow>
   \<exists>rest. take_channels is peripherals = Inr rest \<and> set rest = set peripherals - set is"
proof (induction "is" arbitrary: peripherals)
  case (Cons i "is")
  have "\<exists>rest. take_channels is (removeAll i peripherals) = Inr rest \<and> set rest = set (removeAll i peripherals) - set is"
    using Cons(2,3) by (intro Cons(1)) auto
  then show ?case using Cons(3) by (auto simp: take_channel_def)
qed simp

lemma extint_init_ok:
  assumes "{..<16} \<subseteq> set peripherals"
  shows "\<exists>rest. extint_init self peripherals = Inr (self\<lparr>initialized := True\<rparr>, rest) \<and> set rest = set peripherals - {..<16}"
  using take_channels_ok[of "[0..<16]" peripherals] assms by (auto simp: extint_init_def atLeast0LessThan)

lemma extint_init_twice:
  assumes "{..<16} \<subseteq> set peripherals" "extint_init self peripherals = Inr (self', rest)"
  shows "extint_init self'' rest = Inl UnwrapNone"
proof -
  have "0 \<notin> set rest" using extint_init_ok[OF assms(1), of self] assms(2) by auto
  then show ?thesis by (simp add: extint_init_def take_channel_def upt_conv_Cons)
qed

text \<open>A sequence of requests for pins, from whatever tasks and interrupts.\<close>

fun request_all :: "extint_registry \<Rightarrow> nat list \<Rightarrow> panic + extint_registry \<times> (interrupt_error + nat) list" where
  "request_all self [] = Inr (self, [])"
| "request_all self (pin # pins) =
     bnd (get_interrupt_channel_for_pin self pin) (\<lambda>(self, r).
     bnd (request_all self pins) (\<lambda>(self, rs). Inr (self, r # rs)))"

lemma get_channel:
  assumes "initialized self" "pin < 16"
  shows "get_interrupt_channel_for_pin self pin =
     Inr (self\<lparr>used_interrupt_channels := used_interrupt_channels self OR push_bit pin 1\<rparr>,
          if bit (used_interrupt_channels self) pin then Inl IntChannelAlreadyUsed else Inr pin)"
  using assms by (simp add: get_interrupt_channel_for_pin_def bit_set_def Let_def)

lemma bit_set_channel:
  "pin < 16 \<Longrightarrow> bit ((w :: 16 word) OR 2 ^ pin) n \<longleftrightarrow> bit w n \<or> n = pin"
  by (auto simp: bit_or_iff bit_exp_iff)

text \<open>The reference: a pin gets its channel when no earlier request was for the same number.\<close>

fun first_requests :: "nat set \<Rightarrow> nat list \<Rightarrow> (interrupt_error + nat) list" where
  "first_requests used [] = []"
| "first_requests used (pin # pins) =
     (if pin \<in> used then Inl IntChannelAlreadyUsed else Inr pin) # first_requests (insert pin used) pins"

lemma request_all_first:
  "initialized self \<Longrightarrow> list_all (\<lambda>pin. pin < 16) pins \<Longrightarrow>
   \<exists>self'. request_all self pins = Inr (self', first_requests {n. bit (used_interrupt_channels self) n} pins)"
proof (induction pins arbitrary: self)
  case (Cons pin pins)
  let ?self = "self\<lparr>used_interrupt_channels := used_interrupt_channels self OR push_bit pin 1\<rparr>"
  have "{n. bit (used_interrupt_channels ?self) n} = insert pin {n. bit (used_interrupt_channels self) n}"
    using Cons(3) by (auto simp: bit_set_channel)
  moreover obtain self' where
    "request_all ?self pins = Inr (self', first_requests {n. bit (used_interrupt_channels ?self) n} pins)"
    using Cons(1)[of ?self] Cons(2,3) by auto
  ultimately show ?case using Cons(2,3) by (simp add: get_channel)
qed simp

lemma first_requests_distinct:
  "distinct (List.map_filter (\<lambda>r. case r of Inr n \<Rightarrow> Some n | _ \<Rightarrow> None) (first_requests used pins)) \<and>
   set (List.map_filter (\<lambda>r. case r of Inr n \<Rightarrow> Some n | _ \<Rightarrow> None) (first_requests used pins)) = set pins - used"
  by (induction pins arbitrary: used) (auto simp: List.map_filter_simps)

text \<open>
  After the start-up, requests for interrupt channels never panic; over any sequence of requests
  each channel is handed out at most once, the channels handed out are those of the requested pins,
  and a refused request is one for a pin number that came before.
\<close>

lemma channels_handed_out_once:
  assumes "{..<16} \<subseteq> set peripherals" "extint_init extint_new peripherals = Inr (self, rest)"
    and "list_all (\<lambda>pin. pin < 16) pins"
  shows "\<exists>self' rs. request_all self pins = Inr (self', rs) \<and> rs = first_requests {} pins \<and>
           distinct (List.map_filter (\<lambda>r. case r of Inr n \<Rightarrow> Some n | _ \<Rightarrow> None) rs) \<and>
           set (List.map_filter (\<lambda>r. case r of Inr n \<Rightarrow> Some n | _ \<Rightarrow> None) rs) = set pins"
proof -
  have self: "self = extint_new\<lparr>initialized := True\<rparr>" using extint_init_ok[OF assms(1), of extint_new] assms(2) by auto
  then show ?thesis
    using request_all_first[of self pins] assms(3) first_requests_distinct[of "{}" pins] by (auto simp: extint_new_def)
qed

lemma channels_handed_out_once_witness:
  "\<exists>self' rs. request_all (extint_new\<lparr>initialized := True\<rparr>) [3, 5, 3] = Inr (self', rs) \<and>
     rs = [Inr 3, Inr 5, Inl IntChannelAlreadyUsed]"
proof -
  obtain self rest where init: "extint_init extint_new [0..<20] = Inr (self, rest)"
    using extint_init_ok[of "[0..<20]" extint_new] by (auto simp: atLeast0LessThan)
  then have "self = extint_new\<lparr>initialized := True\<rparr>"
    using extint_init_ok[of "[0..<20]" extint_new] by (auto simp: atLeast0LessThan)
  then show ?thesis
    using channels_handed_out_once[OF _ init, of "[3, 5, 3]"] by (auto simp: atLeast0LessThan)
qed

text \<open>Before the start-up every request panics.\<close>

lemma request_before_init: "get_interrupt_channel_for_pin extint_new pin = Inl AssertFailed"
  by (simp add: get_interrupt_channel_for_pin_def extint_new_def)

end
