(* ===== verification/Tunables.thy ===== *)
theory Tunables
  imports Prelude
begin

section \<open>Values from environment variables (\<open>ariel-os-utils/src/env.rs\<close>)\<close>

text \<open>
  The macros compute a constant at compile time from an environment variable of the build.  A macro is
  a function of the environment, the name of the variable and its other arguments; a failure is the
  text of the compile-time error.  The parsers of addresses of the crate \<open>const_str\<close> are parameters.
  The width of a \<open>usize\<close> is that of the target.
\<close>

type_synonym build_env = "string \<Rightarrow> string option"

subsection \<open>Integers\<close>

text \<open>\<open>from_str_radix\<close> of an unsigned type of \<open>w\<close> bits, in base ten: a plus sign may come first.\<close>

definition digit_of :: "char \<Rightarrow> nat option" where
  "digit_of c = (if 48 \<le> (of_char c :: nat) \<and> (of_char c :: nat) \<le> 57 then Some (of_char c - 48) else None)"

fun parse_digits :: "nat \<Rightarrow> nat \<Rightarrow> string \<Rightarrow> nat option" where
  "parse_digits w n [] = Some n"
| "parse_digits w n (c # cs) =
     (case digit_of c of
        None \<Rightarrow> None
      | Some d \<Rightarrow>
          if 2 ^ w \<le> n * 10 then None
          else if 2 ^ w \<le> n * 10 + d then None
          else parse_digits w (n * 10 + d) cs)"

definition from_str_radix_10 :: "nat \<Rightarrow> string \<Rightarrow> nat option" where
  "from_str_radix_10 w s =
     (let digits = (case s of c # cs \<Rightarrow> if c = CHR ''+'' \<and> cs \<noteq> [] then cs else s | [] \<Rightarrow> [])
      in if digits = [] then None else parse_digits w 0 digits)"

definition parse_failure :: "string \<Rightarrow> string \<Rightarrow> string \<Rightarrow> string" where
  "parse_failure env_var str_value type_name =
     ''Could not parse environment variable `'' @ env_var @ ''='' @ str_value @ ''` as '' @ type_name"

definition int_from_env_or :: "nat \<Rightarrow> string \<Rightarrow> build_env \<Rightarrow> string \<Rightarrow> nat \<Rightarrow> string + nat" where
  "int_from_env_or w type_name env env_var dflt =
     (case env env_var of
        Some str_value \<Rightarrow>
          (case from_str_radix_10 w str_value of
             Some v \<Rightarrow> Inr v
           | None \<Rightarrow> Inl (parse_failure env_var str_value type_name))
      | None \<Rightarrow> Inr dflt)"

definition usize_from_env_or :: "nat \<Rightarrow> build_env \<Rightarrow> string \<Rightarrow> nat \<Rightarrow> string + nat" where
  "usize_from_env_or usize_bits = int_from_env_or usize_bits ''a usize''"

definition u8_from_env_or :: "build_env \<Rightarrow> string \<Rightarrow> nat \<Rightarrow> string + nat" where
  "u8_from_env_or = int_from_env_or 8 ''a u8''"

subsection \<open>Booleans, texts and addresses\<close>

definition bool_from_env_or :: "build_env \<Rightarrow> string \<Rightarrow> bool \<Rightarrow> string + bool" where
  "bool_from_env_or env env_var dflt =
     (case env env_var of
        Some str_value \<Rightarrow>
          if str_value = ''true'' then Inr True
          else if str_value = ''false'' then Inr False
          else Inl (parse_failure env_var str_value ''a bool'')
      | None \<Rightarrow> Inr dflt)"

definition str_from_env_or :: "build_env \<Rightarrow> string \<Rightarrow> string \<Rightarrow> string + string" where
  "str_from_env_or env env_var dflt = (case env env_var of Some str_value \<Rightarrow> Inr str_value | None \<Rightarrow> Inr dflt)"

definition missing_failure :: "string \<Rightarrow> string \<Rightarrow> string" where
  "missing_failure env_var doc = ''`'' @ env_var @ ''` environment variable was expected to provide the '' @ doc"

definition str_from_env :: "build_env \<Rightarrow> string \<Rightarrow> string \<Rightarrow> string + string" where
  "str_from_env env env_var doc =
     (case env env_var of Some str_value \<Rightarrow> Inr str_value | None \<Rightarrow> Inl (missing_failure env_var doc))"

definition ipv4_addr_from_env :: "(string \<Rightarrow> string + 'a) \<Rightarrow> build_env \<Rightarrow> string \<Rightarrow> string \<Rightarrow> string + 'a" where
  "ipv4_addr_from_env ip_addr_v4 env env_var doc =
     (case env env_var of Some str_value \<Rightarrow> ip_addr_v4 str_value | None \<Rightarrow> Inl (missing_failure env_var doc))"

definition ipv4_addr_from_env_or :: "(string \<Rightarrow> string + 'a) \<Rightarrow> build_env \<Rightarrow> string \<Rightarrow> string \<Rightarrow> string + 'a" where
  "ipv4_addr_from_env_or ip_addr_v4 env env_var dflt =
     (let str_addr = (case env env_var of Some str_value \<Rightarrow> str_value | None \<Rightarrow> dflt) in ip_addr_v4 str_addr)"

definition ipv6_addr_from_env :: "(string \<Rightarrow> string + 'a) \<Rightarrow> build_env \<Rightarrow> string \<Rightarrow> string \<Rightarrow> string + 'a" where
  "ipv6_addr_from_env ip_addr_v6 env env_var doc =
     (case env env_var of Some str_value \<Rightarrow> ip_addr_v6 str_value | None \<Rightarrow> Inl (missing_failure env_var doc))"

definition ipv6_addr_from_env_or :: "(string \<Rightarrow> string + 'a) \<Rightarrow> build_env \<Rightarrow> string \<Rightarrow> string \<Rightarrow> string + 'a" where
  "ipv6_addr_from_env_or ip_addr_v6 env env_var dflt =
     (let str_addr = (case env env_var of Some str_value \<Rightarrow> str_value | None \<Rightarrow> dflt) in ip_addr_v6 str_addr)"

subsection \<open>Integers are read back\<close>

lemma digit_of_less: "digit_of c = Some d \<Longrightarrow> d < 10"
  by (auto simp: digit_of_def split: if_splits)

text \<open>The value of a list of digits, without a bound.\<close>

fun digits_value :: "nat \<Rightarrow> string \<Rightarrow> nat option" where
  "digits_value n [] = Some n"
| "digits_value n (c # cs) = (case digit_of c of None \<Rightarrow> None | Some d \<Rightarrow> digits_value (n * 10 + d) cs)"

lemma digits_value_mono: "digits_value n cs = Some v \<Longrightarrow> n \<le> v"
  by (induction n cs rule: digits_value.induct) (fastforce split: option.splits)+

lemma parse_digits_eq:
  "n < 2 ^ w \<Longrightarrow> parse_digits w n cs = (case digits_value n cs of None \<Rightarrow> None | Some v \<Rightarrow> if v < 2 ^ w then Some v else None)"
proof (induction w n cs rule: parse_digits.induct)
  case (2 w n c cs)
  show ?case
  proof (cases "digit_of c")
    case (Some d)
    show ?thesis
    proof (cases "n * 10 + d < 2 ^ w")
      case True
      then show ?thesis using 2 Some by simp
    next
      case False
      then have "\<not> v < 2 ^ w" if "digits_value (n * 10 + d) cs = Some v" for v
        using digits_value_mono[OF that] by linarith
      then show ?thesis using Some False by (auto split: option.split)
    qed
  qed simp
qed simp

fun decimal :: "nat \<Rightarrow> string" where
  "decimal n = (if n < 10 then [char_of (48 + n)] else decimal (n div 10) @ [char_of (48 + n mod 10)])"

declare decimal.simps [simp del]

lemma digit_of_char: "d < 10 \<Longrightarrow> digit_of (char_of (48 + d)) = Some d"
  by (simp add: digit_of_def of_char_of)

lemma digits_value_append: "digits_value n (cs @ [c]) = (case digits_value n cs of None \<Rightarrow> None | Some v \<Rightarrow> map_option (\<lambda>d. v * 10 + d) (digit_of c))"
  by (induction n cs rule: digits_value.induct) (auto split: option.splits)

lemma digits_value_decimal: "digits_value 0 (decimal n) = Some n"
proof (induction n rule: decimal.induct)
  case (1 n)
  show ?case
    using 1 by (subst decimal.simps) (auto simp: digits_value_append digit_of_char)
qed

lemma decimal_first: "\<exists>c cs. decimal n = c # cs \<and> c \<noteq> CHR ''+''"
proof (induction n rule: decimal.induct)
  case (1 n)
  have "char_of (48 + n) \<noteq> CHR ''+''" if "n < 10"
  proof
    assume "char_of (48 + n) = CHR ''+''"
    then have "of_char (char_of (48 + n) :: char) = (43 :: nat)" by simp
    then show False using that by (simp add: of_char_of)
  qed
  then show ?case using 1 by (subst decimal.simps) auto
qed

text \<open>What the parser accepts: digits, after a plus sign or not, of a number that fits.\<close>

definition strip_plus :: "string \<Rightarrow> string" where
  "strip_plus s = (case s of c # cs \<Rightarrow> if c = CHR ''+'' \<and> cs \<noteq> [] then cs else s | [] \<Rightarrow> [])"

lemma from_str_radix_spec:
  "from_str_radix_10 w s = Some n \<longleftrightarrow> strip_plus s \<noteq> [] \<and> digits_value 0 (strip_plus s) = Some n \<and> n < 2 ^ w"
  by (auto simp: from_str_radix_10_def strip_plus_def[symmetric] Let_def parse_digits_eq split: option.splits if_splits)

text \<open>
  An integer variable that holds the decimal digits of a number gives that number exactly when it
  fits the type, and a compile-time error that names the variable and its value otherwise.
\<close>

lemma int_variable_read:
  "int_from_env_or w type_name (env(env_var \<mapsto> decimal n)) env_var dflt =
     (if n < 2 ^ w then Inr n else Inl (parse_failure env_var (decimal n) type_name))"
proof -
  have "strip_plus (decimal n) = decimal n" "decimal n \<noteq> []"
    using decimal_first[of n] by (auto simp: strip_plus_def)
  then have "from_str_radix_10 w (decimal n) = Some m \<longleftrightarrow> m = n \<and> n < 2 ^ w" for m
    unfolding from_str_radix_spec using digits_value_decimal[of n] by auto
  then show ?thesis
    by (cases "from_str_radix_10 w (decimal n)") (auto simp: int_from_env_or_def)
qed

end
