(* ===== verification/Macros.thy ===== *)
theory Macros
  imports Prelude
begin

section \<open>Attribute macros (\<open>ariel-os-macros\<close>)\<close>

text \<open>
  The macros \<open>task\<close>, \<open>thread\<close>, \<open>spawner\<close> and \<open>config\<close> check their parameters and the item they decorate,
  and produce items.  Expressions are of a type \<open>'e\<close>: the macros only hand them on.  A parameter is a
  path with what follows it.  \<open>syn::meta::parser\<close> hands the parameters to the closure one by one; the
  first error ends it, and so does text after a parameter that the closure has not consumed.  The
  crate \<open>proc_macro_crate\<close> is a parameter.  The texts of the messages are left out.
\<close>

datatype 'e meta_rest = NoRest | BadRest | AssignedValue 'e

type_synonym 'e meta = "string \<times> 'e meta_rest"

datatype macro_panic =
    SelfDependency | CrateMissing | NotAsync | IsAsync | PoolSizeOnAutostart | PeripheralsParamMissing
  | PeripheralsWithoutAutostart | HooksWithoutAutostart | AutostartMissing | SeveralKinds | KindMissing

datatype macro_error = UnsupportedParameter | SyntaxError | SpawnerArgumentMissing | PeripheralsHereMissing

datatype macro_failure = MacroPanic macro_panic | CompileError macro_error

text \<open>\<open>meta.value()?.parse()?\<close>\<close>

definition meta_value :: "'e meta_rest \<Rightarrow> macro_failure + 'e" where
  "meta_value rest = (case rest of AssignedValue e \<Rightarrow> Inr e | _ \<Rightarrow> Inl (CompileError SyntaxError))"

text \<open>The driver of the parsers: a closure that has not consumed the rest leaves a syntax error.\<close>

fun parse_metas :: "('a \<Rightarrow> 'e meta \<Rightarrow> macro_failure + 'a \<times> bool) \<Rightarrow> 'a \<Rightarrow> 'e meta list \<Rightarrow> macro_failure + 'a" where
  "parse_metas parse attrs [] = Inr attrs"
| "parse_metas parse attrs (meta # metas) =
     bnd (parse attrs meta) (\<lambda>(attrs, consumed).
       if \<not> consumed \<and> snd meta \<noteq> NoRest then Inl (CompileError SyntaxError)
       else parse_metas parse attrs metas)"

subsection \<open>Crates (\<open>utils.rs\<close>)\<close>

datatype found_crate = Itself | CrateName string

type_synonym crates = "string \<Rightarrow> found_crate option"

definition find_crate :: "crates \<Rightarrow> string \<Rightarrow> macro_failure + string option" where
  "find_crate crate_name name =
     (case crate_name name of
        Some Itself \<Rightarrow> Inl (MacroPanic SelfDependency)
      | Some (CrateName c) \<Rightarrow> Inr (Some c)
      | None \<Rightarrow> Inr None)"

definition ariel_os_crate_or_internal :: "crates \<Rightarrow> string option \<Rightarrow> macro_failure + string" where
  "ariel_os_crate_or_internal crate_name internal =
     bnd (find_crate crate_name ''ariel-os'') (\<lambda>found.
       case found of
         Some c \<Rightarrow> Inr c
       | None \<Rightarrow>
           bnd (case internal of None \<Rightarrow> Inr None | Some name \<Rightarrow> find_crate crate_name name) (\<lambda>found.
             case found of Some c \<Rightarrow> Inr c | None \<Rightarrow> Inl (MacroPanic CrateMissing)))"

definition ariel_os_crate :: "crates \<Rightarrow> macro_failure + string" where
  "ariel_os_crate crate_name = ariel_os_crate_or_internal crate_name None"

subsection \<open>Items\<close>

record fn_item =
  fn_ident :: string
  fn_async :: bool
  fn_inputs :: nat

text \<open>
  What the macros produce, in the order of the source: a delegate and its entry in a distributed
  slice, a start function in a slice, an executor task, a trampoline and the start of a thread, a
  function for the system to call, and the decorated item.
\<close>

datatype 'e item =
    DelegateStatic string string        \<comment> \<open>name, inner type\<close>
  | DelegateRef string string string string    \<comment> \<open>name, slice, type, delegate\<close>
  | StartTask string string bool string       \<comment> \<open>name, slice, takes peripherals, task that is spawned\<close>
  | StartSpawner string string bool string    \<comment> \<open>name, slice, takes peripherals, function that is called\<close>
  | EmbassyTask string "'e option" fn_item    \<comment> \<open>crate, pool size, function\<close>
  | UserFn fn_item
  | Trampoline string "string option" string    \<comment> \<open>name, event that is waited for, function\<close>
  | AutostartThread string string 'e 'e 'e    \<comment> \<open>crate, function, stack size, priority, affinity\<close>
  | ConfigFn string string string       \<comment> \<open>name, return type, constant\<close>
  | UserConst string

subsection \<open>\<open>task\<close>\<close>

datatype hook = UsbBuilder

definition hook_param_name :: "hook \<Rightarrow> string" where
  "hook_param_name h = (case h of UsbBuilder \<Rightarrow> ''usb_builder_hook'')"

definition hook_type_path :: "hook \<Rightarrow> string" where
  "hook_type_path h = (case h of UsbBuilder \<Rightarrow> ''usb::UsbBuilderHook'')"

definition hook_delegate_ident :: "hook \<Rightarrow> string" where
  "hook_delegate_ident h = (case h of UsbBuilder \<Rightarrow> ''USB_BUILDER_HOOK'')"

record hook_definition =
  hd_kind :: hook
  delegate_inner_type :: string
  distributed_slice_type :: string

definition hook_definitions :: "crates \<Rightarrow> macro_failure + hook_definition list" where
  "hook_definitions crate_name =
     bnd (ariel_os_crate_or_internal crate_name (Some ''ariel-os-embassy'')) (\<lambda>c.
       Inr [\<lparr>hd_kind = UsbBuilder, delegate_inner_type = c @ ''::usb::UsbBuilder'',
             distributed_slice_type = c @ ''::usb::USB_BUILDER_HOOKS''\<rparr>])"

record 'e task_attributes =
  ta_autostart :: bool
  ta_peripherals :: bool
  ta_pool_size :: "'e option"
  ta_hooks :: "hook list"

definition task_attributes_default :: "'e task_attributes" where
  "task_attributes_default = \<lparr>ta_autostart = False, ta_peripherals = False, ta_pool_size = None, ta_hooks = []\<rparr>"

definition task_parse :: "crates \<Rightarrow> 'e task_attributes \<Rightarrow> 'e meta \<Rightarrow> macro_failure + 'e task_attributes \<times> bool" where
  "task_parse crate_name self attr =
     (if fst attr = ''autostart'' then Inr (self\<lparr>ta_autostart := True\<rparr>, False)
      else if fst attr = ''peripherals'' then Inr (self\<lparr>ta_peripherals := True\<rparr>, False)
      else if fst attr = ''pool_size'' then
        bnd (meta_value (snd attr)) (\<lambda>v. Inr (self\<lparr>ta_pool_size := Some v\<rparr>, True))
      else bnd (hook_definitions crate_name) (\<lambda>defs.
        case find (\<lambda>d. fst attr = hook_param_name (hd_kind d)) defs of
          Some d \<Rightarrow> Inr (self\<lparr>ta_hooks := ta_hooks self @ [hd_kind d]\<rparr>, False)
        | None \<Rightarrow> Inl (CompileError UnsupportedParameter)))"

definition generate_delegates :: "string \<Rightarrow> hook_definition list \<Rightarrow> 'e task_attributes \<Rightarrow> 'e item list" where
  "generate_delegates c hooks attrs =
     concat (map (\<lambda>h.
       let delegate = hook_delegate_ident (hd_kind h)
       in [DelegateStatic delegate (delegate_inner_type h),
           DelegateRef (delegate @ ''_REF'') (distributed_slice_type h) (c @ ''::'' @ hook_type_path (hd_kind h)) delegate])
       (filter (\<lambda>h. hd_kind h \<in> set (ta_hooks attrs)) hooks))"

definition task_checks :: "'e task_attributes \<Rightarrow> fn_item \<Rightarrow> macro_failure + unit" where
  "task_checks attrs task_function =
     (if \<not> fn_async task_function then Inl (MacroPanic NotAsync)
      else if ta_autostart attrs then
        if ta_pool_size attrs \<noteq> None then Inl (MacroPanic PoolSizeOnAutostart)
        else if \<not> ta_peripherals attrs \<and> fn_inputs task_function \<noteq> 0 then Inl (MacroPanic PeripheralsParamMissing)
        else Inr ()
      else if ta_peripherals attrs then Inl (MacroPanic PeripheralsWithoutAutostart)
      else if ta_hooks attrs \<noteq> [] then Inl (MacroPanic HooksWithoutAutostart)
      else Inr ())"

text \<open>\<open>one\<close> is the expression \<open>1\<close>, the pool size by default.\<close>

definition task_macro :: "'e \<Rightarrow> crates \<Rightarrow> 'e meta list \<Rightarrow> fn_item \<Rightarrow> macro_failure + 'e item list" where
  "task_macro one crate_name args task_function =
     bnd (parse_metas (task_parse crate_name) task_attributes_default args) (\<lambda>attrs.
     bnd (task_checks attrs task_function) (\<lambda>_.
     bnd (ariel_os_crate_or_internal crate_name (Some ''ariel-os-embassy'')) (\<lambda>c.
       if ta_autostart attrs then
         bnd (hook_definitions crate_name) (\<lambda>hooks.
           Inr (generate_delegates c hooks attrs @
                [StartTask (''__start_'' @ fn_ident task_function) (c @ ''::EMBASSY_TASKS'') (ta_peripherals attrs)
                   (fn_ident task_function),
                 EmbassyTask c None task_function]))
       else
         let pool_size = (case ta_pool_size attrs of None \<Rightarrow> one | Some e \<Rightarrow> e)
         in Inr [EmbassyTask c (Some pool_size) task_function])))"

subsection \<open>\<open>thread\<close>\<close>

record 'e thread_attributes =
  th_autostart :: bool
  th_stack_size :: "'e option"
  th_priority :: "'e option"
  th_affinity :: "'e option"
  th_no_wait :: bool

definition thread_attributes_default :: "'e thread_attributes" where
  "thread_attributes_default =
     \<lparr>th_autostart = False, th_stack_size = None, th_priority = None, th_affinity = None, th_no_wait = False\<rparr>"

definition thread_parse :: "'e thread_attributes \<Rightarrow> 'e meta \<Rightarrow> macro_failure + 'e thread_attributes \<times> bool" where
  "thread_parse self meta =
     (if fst meta = ''autostart'' then Inr (self\<lparr>th_autostart := True\<rparr>, False)
      else if fst meta = ''stacksize'' then
        bnd (meta_value (snd meta)) (\<lambda>v. Inr (self\<lparr>th_stack_size := Some v\<rparr>, True))
      else if fst meta = ''priority'' then
        bnd (meta_value (snd meta)) (\<lambda>v. Inr (self\<lparr>th_priority := Some v\<rparr>, True))
      else if fst meta = ''affinity'' then
        bnd (meta_value (snd meta)) (\<lambda>v. Inr (self\<lparr>th_affinity := Some v\<rparr>, True))
      else if fst meta = ''no_wait'' then Inr (self\<lparr>th_no_wait := True\<rparr>, False)
      else Inl (CompileError UnsupportedParameter))"

text \<open>The expressions that the macro writes itself: the defaults, and \<open>Some(e)\<close>.\<close>

record 'e expressions =
  ex_2048 :: 'e
  ex_1 :: 'e
  ex_None :: 'e
  ex_Some :: "'e \<Rightarrow> 'e"

record 'e thread_parameters =
  tp_stack_size :: 'e
  tp_priority :: 'e
  tp_affinity :: 'e

definition thread_parameters_default :: "'e expressions \<Rightarrow> 'e thread_parameters" where
  "thread_parameters_default ex = \<lparr>tp_stack_size = ex_2048 ex, tp_priority = ex_1 ex, tp_affinity = ex_None ex\<rparr>"

definition unwrap_or :: "'a option \<Rightarrow> 'a \<Rightarrow> 'a" where
  "unwrap_or x d = (case x of None \<Rightarrow> d | Some v \<Rightarrow> v)"

definition thread_parameters_from :: "'e expressions \<Rightarrow> 'e thread_attributes \<Rightarrow> 'e thread_parameters" where
  "thread_parameters_from ex attrs =
     (let dflt = thread_parameters_default ex
      in \<lparr>tp_stack_size = unwrap_or (th_stack_size attrs) (tp_stack_size dflt),
          tp_priority = unwrap_or (th_priority attrs) (tp_priority dflt),
          tp_affinity = unwrap_or (map_option (ex_Some ex) (th_affinity attrs)) (tp_affinity dflt)\<rparr>)"

definition thread_crate :: "crates \<Rightarrow> macro_failure + string" where
  "thread_crate crate_name =
     bnd (find_crate crate_name ''ariel-os'') (\<lambda>ariel_os.
     bnd (find_crate crate_name ''ariel-os-threads'') (\<lambda>ariel_os_threads.
       case (ariel_os, ariel_os_threads) of
         (Some c, _) \<Rightarrow> Inr (c @ ''::thread'')
       | (None, Some c) \<Rightarrow> Inr c
       | (None, None) \<Rightarrow> Inl (MacroPanic CrateMissing)))"

definition thread_macro :: "'e expressions \<Rightarrow> crates \<Rightarrow> 'e meta list \<Rightarrow> fn_item \<Rightarrow> macro_failure + 'e item list" where
  "thread_macro ex crate_name args thread_function =
     bnd (parse_metas thread_parse thread_attributes_default args) (\<lambda>attrs.
     if \<not> th_autostart attrs then Inl (MacroPanic AutostartMissing)
     else bnd (thread_crate crate_name) (\<lambda>c.
       let wait = (if th_no_wait attrs then None else Some (c @ ''::events::THREAD_START_EVENT''));
           trampoline = ''__'' @ fn_ident thread_function @ ''_trampoline'';
           params = thread_parameters_from ex attrs
       in Inr [UserFn thread_function, Trampoline trampoline wait (fn_ident thread_function),
               AutostartThread c trampoline (tp_stack_size params) (tp_priority params) (tp_affinity params)]))"

subsection \<open>\<open>spawner\<close>\<close>

record spawner_attributes =
  sp_autostart :: bool
  sp_peripherals :: bool

definition spawner_parse :: "spawner_attributes \<Rightarrow> 'e meta \<Rightarrow> macro_failure + spawner_attributes \<times> bool" where
  "spawner_parse self attr =
     Inr (if fst attr = ''autostart'' then self\<lparr>sp_autostart := True\<rparr>
          else if fst attr = ''peripherals'' then self\<lparr>sp_peripherals := True\<rparr> else self, False)"

definition spawner_macro :: "crates \<Rightarrow> 'e meta list \<Rightarrow> fn_item \<Rightarrow> macro_failure + 'e item list" where
  "spawner_macro crate_name args spawner_function =
     bnd (parse_metas spawner_parse \<lparr>sp_autostart = False, sp_peripherals = False\<rparr> args) (\<lambda>attrs.
     if \<not> sp_autostart attrs then Inl (MacroPanic AutostartMissing)
     else if fn_async spawner_function then Inl (MacroPanic IsAsync)
     else if fn_inputs spawner_function = 0 then Inl (CompileError SpawnerArgumentMissing)
     else if fn_inputs spawner_function = 2 \<and> \<not> sp_peripherals attrs then Inl (CompileError PeripheralsHereMissing)
     else bnd (ariel_os_crate crate_name) (\<lambda>c.
       Inr [StartSpawner (''__start_'' @ fn_ident spawner_function) (c @ ''::EMBASSY_TASKS'') (sp_peripherals attrs)
              (fn_ident spawner_function),
            UserFn spawner_function]))"

subsection \<open>\<open>config\<close>\<close>

datatype config_kind = NetworkConfig | RccConfig | UsbConfig

definition config_kind_name :: "config_kind \<Rightarrow> string" where
  "config_kind_name kind = (case kind of NetworkConfig \<Rightarrow> ''network'' | RccConfig \<Rightarrow> ''rcc'' | UsbConfig \<Rightarrow> ''usb'')"

definition config_parse :: "config_kind option \<Rightarrow> 'e meta \<Rightarrow> macro_failure + config_kind option \<times> bool" where
  "config_parse self meta =
     (case find (\<lambda>(name, _). fst meta = name) (map (\<lambda>k. (config_kind_name k, k)) [NetworkConfig, RccConfig, UsbConfig]) of
        Some (_, kind) \<Rightarrow> if self \<noteq> None then Inl (MacroPanic SeveralKinds) else Inr (Some kind, False)
      | None \<Rightarrow> Inl (CompileError UnsupportedParameter))"

definition config_macro :: "crates \<Rightarrow> 'e meta list \<Rightarrow> string \<Rightarrow> macro_failure + 'e item list" where
  "config_macro crate_name args config_const_name =
     bnd (parse_metas config_parse None args) (\<lambda>attrs.
     bnd (ariel_os_crate_or_internal crate_name (Some ''ariel-os-embassy'')) (\<lambda>c.
       case attrs of
         Some NetworkConfig \<Rightarrow>
           Inr [UserConst config_const_name,
                ConfigFn ''__ariel_os_network_config'' (c @ ''::reexports::embassy_net::Config'') config_const_name]
       | Some RccConfig \<Rightarrow>
           Inr [UserConst config_const_name,
                ConfigFn ''__ariel_os_rcc_config'' ''embassy_stm32::rcc::Config'' config_const_name]
       | Some UsbConfig \<Rightarrow>
           Inr [UserConst config_const_name,
                ConfigFn ''__ariel_os_usb_config'' (c @ ''::reexports::embassy_usb::Config<'' @ [CHR 0x27] @ ''static>'')
                  config_const_name]
       | None \<Rightarrow> Inl (MacroPanic KindMissing)))"

subsection \<open>What the macros accept\<close>

definition flag_ok :: "string list \<Rightarrow> 'e meta \<Rightarrow> bool" where
  "flag_ok names m \<longleftrightarrow> fst m \<in> set names \<and> snd m = NoRest"

definition value_ok :: "string list \<Rightarrow> 'e meta \<Rightarrow> bool" where
  "value_ok names m \<longleftrightarrow> fst m \<in> set names \<and> (\<exists>e. snd m = AssignedValue e)"

definition has_param :: "string \<Rightarrow> 'e meta list \<Rightarrow> bool" where
  "has_param name args \<longleftrightarrow> name \<in> fst ` set args"

lemma has_param_simps [simp]:
  "has_param name [] = False" "has_param name (m # ms) = (fst m = name \<or> has_param name ms)"
  by (auto simp: has_param_def)

fun assigned :: "'e meta_rest \<Rightarrow> 'e option" where
  "assigned (AssignedValue e) = Some e"
| "assigned r = None"

text \<open>\<open>task\<close>: the parameters as a set.\<close>

definition task_meta_ok :: "'e meta \<Rightarrow> bool" where
  "task_meta_ok m \<longleftrightarrow> flag_ok [''autostart'', ''peripherals'', ''usb_builder_hook''] m \<or> value_ok [''pool_size''] m"

definition task_update :: "'e meta \<Rightarrow> 'e task_attributes \<Rightarrow> 'e task_attributes" where
  "task_update m a =
     (if fst m = ''autostart'' then a\<lparr>ta_autostart := True\<rparr>
      else if fst m = ''peripherals'' then a\<lparr>ta_peripherals := True\<rparr>
      else if fst m = ''pool_size'' then a\<lparr>ta_pool_size := assigned (snd m)\<rparr>
      else a\<lparr>ta_hooks := ta_hooks a @ [UsbBuilder]\<rparr>)"

lemma hook_definitions_eq:
  "ariel_os_crate_or_internal cn (Some ''ariel-os-embassy'') = Inr c \<Longrightarrow>
   hook_definitions cn = Inr [\<lparr>hd_kind = UsbBuilder, delegate_inner_type = c @ ''::usb::UsbBuilder'',
     distributed_slice_type = c @ ''::usb::USB_BUILDER_HOOKS''\<rparr>]"
  by (simp add: hook_definitions_def)

lemma task_parse_eq:
  assumes "ariel_os_crate_or_internal cn (Some ''ariel-os-embassy'') = Inr c"
  shows "parse_metas (task_parse cn) a args = Inr b \<longleftrightarrow> list_all task_meta_ok args \<and> b = fold task_update args a"
proof (induction args arbitrary: a)
  case (Cons m ms)
  obtain n r where m: "m = (n, r)" by (cases m)
  show ?case
    using Cons
    by (cases r) (auto simp: m task_parse_def task_meta_ok_def flag_ok_def value_ok_def task_update_def meta_value_def
        hook_definitions_eq[OF assms] hook_param_name_def)
qed auto

lemma task_fold:
  "list_all task_meta_ok args \<Longrightarrow>
   ta_autostart (fold task_update args a) = (ta_autostart a \<or> has_param ''autostart'' args) \<and>
   ta_peripherals (fold task_update args a) = (ta_peripherals a \<or> has_param ''peripherals'' args) \<and>
   (ta_pool_size (fold task_update args a) \<noteq> None \<longleftrightarrow> ta_pool_size a \<noteq> None \<or> has_param ''pool_size'' args) \<and>
   set (ta_hooks (fold task_update args a)) = set (ta_hooks a) \<union> (if has_param ''usb_builder_hook'' args then {UsbBuilder} else {})"
proof (induction args arbitrary: a)
  case (Cons m ms)
  obtain n r where m: "m = (n, r)" by (cases m)
  have IH: "list_all task_meta_ok ms" "task_meta_ok (n, r)" using Cons(2) by (simp_all add: m)
  note rest = Cons(1)[OF IH(1), of "task_update m a"]
  from IH(2) consider "n = ''autostart''" | "n = ''peripherals''" | "n = ''usb_builder_hook''"
    | e where "n = ''pool_size''" "r = AssignedValue e"
    by (auto simp: task_meta_ok_def flag_ok_def value_ok_def)
  then show ?case
    using rest by cases (simp_all add: m task_update_def)
qed simp

text \<open>When the parameters and the function fit, and what is then produced.\<close>

definition task_allowed :: "'e meta list \<Rightarrow> fn_item \<Rightarrow> bool" where
  "task_allowed args f \<longleftrightarrow>
     list_all task_meta_ok args \<and> fn_async f \<and>
     (if has_param ''autostart'' args
      then \<not> has_param ''pool_size'' args \<and> (has_param ''peripherals'' args \<or> fn_inputs f = 0)
      else \<not> has_param ''peripherals'' args \<and> \<not> has_param ''usb_builder_hook'' args)"

definition task_items :: "'e \<Rightarrow> string \<Rightarrow> 'e meta list \<Rightarrow> fn_item \<Rightarrow> 'e item list" where
  "task_items one c args f =
     (if has_param ''autostart'' args then
        (if has_param ''usb_builder_hook'' args
         then [DelegateStatic ''USB_BUILDER_HOOK'' (c @ ''::usb::UsbBuilder''),
               DelegateRef ''USB_BUILDER_HOOK_REF'' (c @ ''::usb::USB_BUILDER_HOOKS'') (c @ ''::usb::UsbBuilderHook'')
                 ''USB_BUILDER_HOOK'']
         else []) @
        [StartTask (''__start_'' @ fn_ident f) (c @ ''::EMBASSY_TASKS'') (has_param ''peripherals'' args) (fn_ident f),
         EmbassyTask c None f]
      else [EmbassyTask c (Some (unwrap_or (ta_pool_size (fold task_update args task_attributes_default)) one)) f])"

text \<open>
  The macro \<open>task\<close> accepts its parameters, in any order, exactly when each is known and of its form,
  the function is async, an autostarted task has no pool size, and has parameters only with
  \<open>peripherals\<close>, and a task that is not autostarted asks for neither peripherals nor hooks.  It then
  produces the delegates of the hooks, one start function for an autostarted task, and one task.
\<close>

lemma task_macro_spec:
  assumes crate: "ariel_os_crate_or_internal cn (Some ''ariel-os-embassy'') = Inr c"
  shows "task_macro one cn args f = Inr items \<longleftrightarrow> task_allowed args f \<and> items = task_items one c args f"
proof (cases "list_all task_meta_ok args")
  case True
  let ?a = "fold task_update args task_attributes_default"
  have parse: "parse_metas (task_parse cn) task_attributes_default args = Inr ?a"
    using task_parse_eq[OF crate] True by blast
  have a: "ta_autostart ?a = has_param ''autostart'' args" "ta_peripherals ?a = has_param ''peripherals'' args"
    "ta_pool_size ?a \<noteq> None \<longleftrightarrow> has_param ''pool_size'' args"
    "UsbBuilder \<in> set (ta_hooks ?a) \<longleftrightarrow> has_param ''usb_builder_hook'' args"
    "ta_hooks ?a \<noteq> [] \<longleftrightarrow> has_param ''usb_builder_hook'' args"
    using task_fold[OF True, of task_attributes_default] set_empty[of "ta_hooks ?a"]
    by (auto simp: task_attributes_default_def split: if_splits)
  have checks: "task_checks ?a f = Inr () \<longleftrightarrow> task_allowed args f"
    using True by (simp add: task_checks_def task_allowed_def a(1,2,5) a(3)[symmetric])
  have delegates: "generate_delegates c [\<lparr>hd_kind = UsbBuilder, delegate_inner_type = c @ ''::usb::UsbBuilder'',
      distributed_slice_type = c @ ''::usb::USB_BUILDER_HOOKS''\<rparr>] ?a =
      (if has_param ''usb_builder_hook'' args
       then [DelegateStatic ''USB_BUILDER_HOOK'' (c @ ''::usb::UsbBuilder''),
             DelegateRef ''USB_BUILDER_HOOK_REF'' (c @ ''::usb::USB_BUILDER_HOOKS'') (c @ ''::usb::UsbBuilderHook'')
               ''USB_BUILDER_HOOK''] else [])"
    by (simp add: generate_delegates_def a(4) hook_delegate_ident_def hook_type_path_def Let_def)
  show ?thesis
  proof (cases "task_checks ?a f")
    case (Inl e)
    then show ?thesis using checks by (simp add: task_macro_def parse)
  next
    case (Inr u)
    then show ?thesis
      using checks
      by (auto simp: task_macro_def parse crate hook_definitions_eq[OF crate] delegates a(1,2) task_items_def unwrap_or_def)
  qed
next
  case False
  then have "\<nexists>b. parse_metas (task_parse cn) task_attributes_default args = Inr b"
    using task_parse_eq[OF crate] by blast
  then show ?thesis using False by (auto simp: task_macro_def task_allowed_def panic_simps)
qed

definition example_crates :: crates where
  "example_crates = [''ariel-os'' \<mapsto> CrateName ''ariel_os'']"

lemma task_macro_spec_witness:
  "task_macro (1 :: int) example_crates [(''usb_builder_hook'', NoRest), (''autostart'', NoRest)]
     \<lparr>fn_ident = ''run'', fn_async = True, fn_inputs = 0\<rparr> =
   Inr [DelegateStatic ''USB_BUILDER_HOOK'' ''ariel_os::usb::UsbBuilder'',
        DelegateRef ''USB_BUILDER_HOOK_REF'' ''ariel_os::usb::USB_BUILDER_HOOKS'' ''ariel_os::usb::UsbBuilderHook''
          ''USB_BUILDER_HOOK'',
        StartTask ''__start_run'' ''ariel_os::EMBASSY_TASKS'' False ''run'',
        EmbassyTask ''ariel_os'' None \<lparr>fn_ident = ''run'', fn_async = True, fn_inputs = 0\<rparr>]"
proof -
  have "ariel_os_crate_or_internal example_crates (Some ''ariel-os-embassy'') = Inr ''ariel_os''" by code_simp
  then show ?thesis
    unfolding task_macro_spec by (simp add: task_macro_spec task_allowed_def task_items_def task_meta_ok_def flag_ok_def)
qed

text \<open>\<open>config\<close> takes one parameter, the kind of the configuration.\<close>

lemma config_parse_none:
  "config_parse (Some k) m \<noteq> Inr r"
  by (auto simp: config_parse_def split: option.splits)

lemma config_parse_Some: "config_parse None m = Inr (a, c) \<Longrightarrow> \<exists>k. a = Some k \<and> fst m = config_kind_name k"
  by (auto simp: config_parse_def split: if_splits option.splits)

lemma config_parse_args:
  "parse_metas config_parse None args = Inr (Some k) \<longleftrightarrow> args = [(config_kind_name k, NoRest)]"
proof
  assume *: "parse_metas config_parse None args = Inr (Some k)"
  then obtain m ms where args: "args = m # ms" by (cases args) auto
  obtain a where a: "config_parse None m = Inr (a, False)" "snd m = NoRest" "parse_metas config_parse a ms = Inr (Some k)"
    using * by (auto simp: args panic_simps config_parse_def split: option.splits if_splits)
  then obtain k' where k': "a = Some k'" "fst m = config_kind_name k'"
    using config_parse_Some by blast
  then have "ms = []" using a(3) by (cases ms) (auto simp: panic_simps config_parse_none)
  then show "args = [(config_kind_name k, NoRest)]" using a k' by (cases m) (auto simp: args)
qed (cases k; simp add: config_parse_def config_kind_name_def)

lemma config_macro_accepts:
  assumes "ariel_os_crate_or_internal cn (Some ''ariel-os-embassy'') = Inr c"
  shows "(\<exists>items. config_macro cn args name = Inr items) \<longleftrightarrow> (\<exists>k. args = [(config_kind_name k, NoRest)])"
proof -
  have "(\<exists>items. config_macro cn args name = Inr items) \<longleftrightarrow> (\<exists>k. parse_metas config_parse None args = Inr (Some k))"
  proof (cases "parse_metas config_parse None args")
    case (Inr a)
    then show ?thesis
      by (cases a) (simp_all add: config_macro_def assms split: config_kind.split)
  qed (simp add: config_macro_def)
  then show ?thesis by (simp add: config_parse_args)
qed

text \<open>
  \<open>spawner\<close> ignores the parameters it does not know, where the other macros report an error.
\<close>

lemma spawner_ignores_unknown:
  assumes "p \<noteq> ''autostart''" "p \<noteq> ''peripherals''"
  shows "spawner_macro cn (as @ (p, NoRest) # bs) f = spawner_macro cn (as @ bs) f"
proof -
  have "parse_metas spawner_parse a (as @ (p, NoRest) # bs) = parse_metas spawner_parse a (as @ bs)" for a
    by (induction as arbitrary: a) (simp_all add: spawner_parse_def assms)
  then show ?thesis by (simp add: spawner_macro_def)
qed

lemma others_report_unknown:
  "ariel_os_crate_or_internal cn (Some ''ariel-os-embassy'') = Inr c \<Longrightarrow>
   p \<notin> {''autostart'', ''peripherals'', ''usb_builder_hook'', ''pool_size''} \<Longrightarrow>
   \<nexists>items. task_macro one cn (as @ (p, NoRest) # bs) f = Inr items"
  by (auto simp: task_macro_spec task_allowed_def task_meta_ok_def flag_ok_def value_ok_def)

text \<open>\<open>thread\<close>: the values of the parameters, or the defaults.\<close>

lemma thread_macro_defaults:
  assumes "thread_crate cn = Inr c"
  shows "thread_macro ex cn [(''autostart'', NoRest)] f =
     Inr [UserFn f, Trampoline (''__'' @ fn_ident f @ ''_trampoline'') (Some (c @ ''::events::THREAD_START_EVENT'')) (fn_ident f),
          AutostartThread c (''__'' @ fn_ident f @ ''_trampoline'') (ex_2048 ex) (ex_1 ex) (ex_None ex)]"
  by (simp add: thread_macro_def thread_parse_def thread_attributes_default_def assms Let_def
      thread_parameters_from_def thread_parameters_default_def unwrap_or_def)

lemma thread_needs_autostart:
  "list_all (\<lambda>m. fst m \<noteq> ''autostart'') args \<Longrightarrow> \<nexists>items. thread_macro ex cn args f = Inr items"
proof -
  assume args: "list_all (\<lambda>m. fst m \<noteq> ''autostart'') args"
  have "\<not> th_autostart b" if "parse_metas thread_parse a args = Inr b" "\<not> th_autostart a" for a b
    using args that
  proof (induction args arbitrary: a)
    case (Cons m ms)
    obtain a' c where a': "thread_parse a m = Inr (a', c)" "parse_metas thread_parse a' ms = Inr b"
      using Cons(3) by (auto simp: panic_simps split: if_splits)
    have "\<not> th_autostart a'"
      using a'(1) Cons(2,4) by (auto simp: thread_parse_def panic_simps split: if_splits)
    then show ?case using Cons(1)[OF _ a'(2)] Cons(2) by simp
  qed simp
  then show ?thesis by (auto simp: thread_macro_def thread_attributes_default_def panic_simps)
qed

end
