(* ===== verification/RiscV.thy ===== *)
theory RiscV
  imports Scheduler
begin

section \<open>Context switches on RISC-V (\<open>arch/riscv.rs\<close>)\<close>

text \<open>
  The switch is written in assembly, and modelled by its instructions.  A hart has its registers, the
  program counter, \<open>mepc\<close> and \<open>mstatus\<close>, and the memory.  The software interrupt runs \<open>sched\<close>, which
  only chooses the next thread and lets the return from the trap go to \<open>sys_switch\<close>; this code then
  runs with the registers of the interrupted thread and exchanges them.  Words of memory are read and
  written at aligned addresses; another access would be a trap, which the model has as \<open>None\<close>.
\<close>

datatype reg =
    RA | SP | GP | TP | T0 | T1 | T2 | S0 | S1 | A0 | A1 | A2 | A3 | A4 | A5 | A6 | A7
  | S2 | S3 | S4 | S5 | S6 | S7 | S8 | S9 | S10 | S11 | T3 | T4 | T5 | T6

text \<open>The layout of \<open>ThreadData\<close>: the number of the word of each register, then \<open>mstatus\<close> and \<open>mepc\<close>.\<close>

fun slot :: "reg \<Rightarrow> nat" where
  "slot RA = 0" | "slot SP = 1" | "slot GP = 2" | "slot TP = 3" | "slot T0 = 4" | "slot T1 = 5"
| "slot T2 = 6" | "slot S0 = 7" | "slot S1 = 8" | "slot A0 = 9" | "slot A1 = 10" | "slot A2 = 11"
| "slot A3 = 12" | "slot A4 = 13" | "slot A5 = 14" | "slot A6 = 15" | "slot A7 = 16" | "slot S2 = 17"
| "slot S3 = 18" | "slot S4 = 19" | "slot S5 = 20" | "slot S6 = 21" | "slot S7 = 22" | "slot S8 = 23"
| "slot S9 = 24" | "slot S10 = 25" | "slot S11 = 26" | "slot T3 = 27" | "slot T4 = 28" | "slot T5 = 29"
| "slot T6 = 30"

definition mstatus_slot :: nat where "mstatus_slot = 31"

definition mepc_slot :: nat where "mepc_slot = 32"

record hart =
  xr :: "reg \<Rightarrow> 32 word"
  pc :: "32 word"
  mepc :: "32 word"
  mstatus :: "32 word"
  machine_mode :: bool
  hmem :: memory

text \<open>\<open>MIE\<close> is bit 3 of \<open>mstatus\<close>, \<open>MPIE\<close> bit 7 and \<open>MPP\<close> bits 11 and 12.\<close>

definition put_bit :: "nat \<Rightarrow> bool \<Rightarrow> 32 word \<Rightarrow> 32 word" where
  "put_bit n b w = (if b then set_bit n w else unset_bit n w)"

definition trap_entry :: "hart \<Rightarrow> hart" where
  "trap_entry h =
     h\<lparr>mepc := pc h, machine_mode := True,
       mstatus := put_bit 12 (machine_mode h) (put_bit 11 (machine_mode h)
                    (put_bit 7 (bit (mstatus h) 3) (put_bit 3 False (mstatus h))))\<rparr>"

definition mret :: "hart \<Rightarrow> hart" where
  "mret h =
     h\<lparr>pc := mepc h, machine_mode := bit (mstatus h) 11 \<and> bit (mstatus h) 12,
       mstatus := put_bit 12 False (put_bit 11 False
                    (put_bit 7 True (put_bit 3 (bit (mstatus h) 7) (mstatus h))))\<rparr>"

subsection \<open>The assembly\<close>

datatype symbol = CURRENT_CTX_PTR | NEXT_CTX_PTR

datatype instr =
    Addi reg reg "32 word"     \<comment> \<open>destination, source, immediate\<close>
  | Sw reg "32 word" reg       \<comment> \<open>value, offset, base\<close>
  | Lw reg "32 word" reg       \<comment> \<open>destination, offset, base\<close>
  | La reg symbol
  | Beqz reg nat               \<comment> \<open>the number of instructions that are skipped\<close>
  | CsrwMstatus reg
  | CsrwMepc reg
  | Mret

definition aligned :: "32 word \<Rightarrow> bool" where
  "aligned a \<longleftrightarrow> 4 dvd unat a"

definition load_word :: "hart \<Rightarrow> 32 word \<Rightarrow> 32 word option" where
  "load_word h a = (if aligned a then Some (read_word (hmem h) a) else None)"

definition store_word :: "32 word \<Rightarrow> 32 word \<Rightarrow> hart \<Rightarrow> hart option" where
  "store_word a v h = (if aligned a then Some (h\<lparr>hmem := write_word (hmem h) a v\<rparr>) else None)"

definition set_reg :: "reg \<Rightarrow> 32 word \<Rightarrow> hart \<Rightarrow> hart" where
  "set_reg r v h = h\<lparr>xr := (xr h)(r := v)\<rparr>"

function exec :: "(symbol \<Rightarrow> 32 word) \<Rightarrow> instr list \<Rightarrow> hart \<Rightarrow> hart option" where
  "exec loc [] h = None"
| "exec loc (Addi rd rs i # c) h = exec loc c (set_reg rd (xr h rs + i) h)"
| "exec loc (Sw r off base # c) h =
     (case store_word (xr h base + off) (xr h r) h of None \<Rightarrow> None | Some h \<Rightarrow> exec loc c h)"
| "exec loc (Lw r off base # c) h =
     (case load_word h (xr h base + off) of None \<Rightarrow> None | Some v \<Rightarrow> exec loc c (set_reg r v h))"
| "exec loc (La r s # c) h = exec loc c (set_reg r (loc s) h)"
| "exec loc (Beqz r k # c) h = exec loc (if xr h r = 0 then drop k c else c) h"
| "exec loc (CsrwMstatus r # c) h = exec loc c (h\<lparr>mstatus := xr h r\<rparr>)"
| "exec loc (CsrwMepc r # c) h = exec loc c (h\<lparr>mepc := xr h r\<rparr>)"
| "exec loc (Mret # c) h = Some (mret h)"
  by pat_completeness auto
termination
  by (relation "measure (\<lambda>(_, c, _). length c)") auto

definition switch_enter :: "instr list" where
  "switch_enter =
     [Addi SP SP (- 0x10), Sw A0 0 SP, Sw A1 4 SP, Sw T0 8 SP,
      La A0 CURRENT_CTX_PTR, Lw A0 0 A0]"

definition switch_save :: "instr list" where
  "switch_save =
     [Sw RA (0*4) A0, Sw GP (2*4) A0, Sw TP (3*4) A0,
      Lw T0 8 SP, Sw T0 (4*4) A0,
      Sw T1 (5*4) A0, Sw T2 (6*4) A0, Sw S0 (7*4) A0, Sw S1 (8*4) A0,
      Lw T0 0 SP, Sw T0 (9*4) A0,
      Lw T0 4 SP, Sw T0 (10*4) A0,
      Sw A2 (11*4) A0, Sw A3 (12*4) A0, Sw A4 (13*4) A0, Sw A5 (14*4) A0, Sw A6 (15*4) A0, Sw A7 (16*4) A0,
      Sw S2 (17*4) A0, Sw S3 (18*4) A0, Sw S4 (19*4) A0, Sw S5 (20*4) A0, Sw S6 (21*4) A0, Sw S7 (22*4) A0,
      Sw S8 (23*4) A0, Sw S9 (24*4) A0, Sw S10 (25*4) A0, Sw S11 (26*4) A0,
      Sw T3 (27*4) A0, Sw T4 (28*4) A0, Sw T5 (29*4) A0, Sw T6 (30*4) A0,
      Addi T0 SP 0x10, Sw T0 (1*4) A0]"

definition switch_restore :: "instr list" where
  "switch_restore =
     [La A1 NEXT_CTX_PTR, Lw A1 0 A1,
      Lw T0 (31*4) A1, CsrwMstatus T0, Lw T0 (32*4) A1, CsrwMepc T0,
      Lw RA (0*4) A1, Lw SP (1*4) A1, Lw GP (2*4) A1, Lw TP (3*4) A1, Lw T0 (4*4) A1, Lw T1 (5*4) A1,
      Lw T2 (6*4) A1, Lw S0 (7*4) A1, Lw S1 (8*4) A1, Lw A0 (9*4) A1,
      Lw A2 (11*4) A1, Lw A3 (12*4) A1, Lw A4 (13*4) A1, Lw A5 (14*4) A1, Lw A6 (15*4) A1, Lw A7 (16*4) A1,
      Lw S2 (17*4) A1, Lw S3 (18*4) A1, Lw S4 (19*4) A1, Lw S5 (20*4) A1, Lw S6 (21*4) A1, Lw S7 (22*4) A1,
      Lw S8 (23*4) A1, Lw S9 (24*4) A1, Lw S10 (25*4) A1, Lw S11 (26*4) A1,
      Lw T3 (27*4) A1, Lw T4 (28*4) A1, Lw T5 (29*4) A1, Lw T6 (30*4) A1,
      Lw A1 (10*4) A1, Mret]"

definition sys_switch :: "instr list" where
  "sys_switch = switch_enter @ [Beqz A0 (length switch_save)] @ switch_save @ switch_restore"

subsection \<open>What the assembly does\<close>

lemma aligned_numeral [simp]: "aligned (numeral n) \<longleftrightarrow> 4 dvd unat (numeral n :: 32 word)"
  by (simp only: aligned_def)

lemma aligned_0 [simp]: "aligned 0"
  by (simp add: aligned_def)

lemma aligned_add [simp]: "aligned a \<Longrightarrow> aligned b \<Longrightarrow> aligned (a + b)"
  by (simp add: aligned_def unat_word_ariths dvd_mod_iff)

lemma read_write_aligned:
  assumes "aligned a" "aligned b"
  shows "read_word (write_word m a v) b = (if a = b then v else read_word m b)"
proof (cases "a = b")
  case False
  obtain i j where ij: "unat a = 4 * i" "unat b = 4 * j"
    using assms unfolding aligned_def by (auto elim!: dvdE)
  have "unat a < 4294967296" "unat b < 4294967296" using unat32_less by blast+
  moreover have "i \<noteq> j" using False ij by (metis word_unat_eq_iff)
  ultimately show ?thesis using False ij by (auto intro!: read_write_word_other)
qed simp

lemma set_reg_simps [simp]:
  "xr (set_reg r v h) = (xr h)(r := v)" "hmem (set_reg r v h) = hmem h" "mepc (set_reg r v h) = mepc h"
  "mstatus (set_reg r v h) = mstatus h" "pc (set_reg r v h) = pc h"
  "machine_mode (set_reg r v h) = machine_mode h"
  by (simp_all add: set_reg_def)

lemma slot_less: "slot r < 31"
  by (cases r) simp_all

lemma slot_inj: "slot r = slot r' \<longleftrightarrow> r = r'"
  by (cases r; cases r') simp_all

text \<open>A thread's data at an address.\<close>

definition field :: "32 word \<Rightarrow> nat \<Rightarrow> 32 word" where
  "field a k = a + 4 * word_of_nat k"

definition saved_reg :: "memory \<Rightarrow> 32 word \<Rightarrow> reg \<Rightarrow> 32 word" where
  "saved_reg m a r = read_word m (field a (slot r))"

lemma exec_restore:
  assumes "aligned (loc NEXT_CTX_PTR)" "aligned a" "read_word (hmem h) (loc NEXT_CTX_PTR) = a"
  shows "\<exists>h'. exec loc switch_restore h = Some (mret h') \<and> xr h' = saved_reg (hmem h) a \<and> hmem h' = hmem h \<and>
           mstatus h' = read_word (hmem h) (field a mstatus_slot) \<and> mepc h' = read_word (hmem h) (field a mepc_slot)"
  using assms unfolding switch_restore_def
  apply (simp add: load_word_def)
  apply (rule exI, rule conjI, rule refl)
  apply (simp add: field_def mstatus_slot_def mepc_slot_def)
  apply (rule ext)
  subgoal for r by (cases r; simp add: saved_reg_def field_def)
  done

text \<open>Saving: the registers go to the thread's data, three words below the stack pointer are used on the way.\<close>

definition scratch :: "32 word \<Rightarrow> 32 word set" where
  "scratch sp = {sp - 16, sp - 12, sp - 8}"

lemma aligned_minus16: "aligned a \<Longrightarrow> aligned (a - 16)"
proof -
  have e: "(- 16 :: 32 word) = 0xFFFFFFF0" by simp
  show "aligned a \<Longrightarrow> aligned (a - 16)"
    unfolding diff_conv_add_uminus e by (intro aligned_add) simp_all
qed

lemma mret_cong:
  "xr h = xr h' \<Longrightarrow> mepc h = mepc h' \<Longrightarrow> mstatus h = mstatus h' \<Longrightarrow> hmem h = hmem h' \<Longrightarrow> mret h = mret h'"
  for h h' :: hart
  by (cases h; cases h') (simp add: mret_def)

lemma exec_enter:
  assumes "aligned (xr h SP)" "aligned (loc CURRENT_CTX_PTR)" "loc CURRENT_CTX_PTR \<notin> scratch (xr h SP)"
    and "read_word (hmem h) (loc CURRENT_CTX_PTR) = a"
  shows "\<exists>m. exec loc (switch_enter @ c) h =
             exec loc c (h\<lparr>hmem := m, xr := (xr h)(SP := xr h SP - 16, A0 := a)\<rparr>) \<and>
           read_word m (xr h SP - 16) = xr h A0 \<and> read_word m (xr h SP - 12) = xr h A1 \<and>
           read_word m (xr h SP - 8) = xr h T0 \<and>
           (\<forall>y. aligned y \<and> y \<notin> scratch (xr h SP) \<longrightarrow> read_word m y = read_word (hmem h) y)"
proof -
  define s where "s = xr h SP - 16"
  have sp: "xr h SP = s + 16" "xr h SP - 16 = s" "xr h SP - 12 = s + 4" "xr h SP - 8 = s + 8"
    by (simp_all add: s_def)
  have al: "aligned s" unfolding s_def by (rule aligned_minus16[OF assms(1)])
  have loc: "loc CURRENT_CTX_PTR \<noteq> s" "loc CURRENT_CTX_PTR \<noteq> s + 4" "loc CURRENT_CTX_PTR \<noteq> s + 8"
    using assms(3) by (simp_all add: scratch_def sp add.commute)
  let ?m = "write_word (write_word (write_word (hmem h) s (xr h A0)) (s + 4) (xr h A1)) (s + 8) (xr h T0)"
  have "exec loc (switch_enter @ c) h = exec loc c (h\<lparr>hmem := ?m, xr := (xr h)(SP := s, A0 := a)\<rparr>)"
    using al assms(2,4) loc
    by (simp add: switch_enter_def load_word_def store_word_def sp(1) read_write_aligned set_reg_def fun_upd_twist)
  moreover have "read_word ?m y = read_word (hmem h) y" if "aligned y" "y \<notin> scratch (xr h SP)" for y
    using that al by (auto simp: scratch_def sp read_write_aligned)
  ultimately show ?thesis
    using al unfolding sp by (intro exI[of _ ?m]) (simp add: read_write_aligned)
qed

text \<open>Words stored at offsets from an address, the last one first.\<close>

fun stores :: "32 word \<Rightarrow> (32 word \<times> 32 word) list \<Rightarrow> memory \<Rightarrow> memory" where
  "stores a [] m = m"
| "stores a ((x, v) # ws) m = write_word (stores a ws m) (a + x) v"

declare stores.simps(2) [simp del]

lemma store_first: "write_word (stores a ws m) a v = stores a ((0, v) # ws) m"
  by (simp add: stores.simps)

lemma read_stores:
  "aligned a \<Longrightarrow> list_all (\<lambda>(x, v). aligned x) ws \<Longrightarrow> aligned y \<Longrightarrow>
   read_word (stores a ws m) y = (case map_of ws (y - a) of None \<Rightarrow> read_word m y | Some v \<Rightarrow> v)"
  by (induction ws) (auto simp: stores.simps read_write_aligned)

definition saved_words :: "32 word \<Rightarrow> 32 word set" where
  "saved_words a = {a + x | x. aligned x \<and> x < 124}"

lemma read_stores_other:
  assumes "aligned a" "list_all (\<lambda>(x, v). aligned x \<and> x < 124) ws" "aligned y" "y \<notin> saved_words a"
  shows "read_word (stores a ws m) y = read_word m y"
proof -
  have "(y - a, v) \<notin> set ws" for v
  proof
    assume "(y - a, v) \<in> set ws"
    then have "aligned (y - a)" "y - a < 124" using assms(2) by (auto simp: list_all_iff)
    then have "a + (y - a) \<in> saved_words a" unfolding saved_words_def by blast
    then show False using assms(4) by simp
  qed
  then have "map_of ws (y - a) = None"
    by (auto simp: map_of_eq_None_iff)
  moreover have "list_all (\<lambda>(x, v). aligned x) ws" using assms(2) by (auto simp: list_all_iff)
  ultimately show ?thesis using assms(1,3) by (simp add: read_stores)
qed

lemma exec_save:
  assumes "aligned a" "aligned s" "saved_words a \<inter> {s, s + 4, s + 8} = {}" "xr h SP = s" "xr h A0 = a"
  shows "\<exists>h'. exec loc (switch_save @ c) h = exec loc c h' \<and>
           saved_reg (hmem h') a = (xr h)(SP := s + 16, T0 := read_word (hmem h) (s + 8),
                                        A0 := read_word (hmem h) s, A1 := read_word (hmem h) (s + 4)) \<and>
           (\<forall>y. aligned y \<and> y \<notin> saved_words a \<longrightarrow> read_word (hmem h') y = read_word (hmem h) y)"
proof -
  have out: "s \<notin> saved_words a" "s + 4 \<notin> saved_words a" "s + 8 \<notin> saved_words a"
    using assms(3) by auto
  have h: "h = h\<lparr>hmem := stores a [] (hmem h)\<rparr>" by simp
  show ?thesis
    using assms(1,2,4,5)
    apply (subst (1) h)
    apply (simp add: switch_save_def load_word_def store_word_def store_first stores.simps(2)[symmetric] read_stores_other out
           del: stores.simps(1))
    apply (rule exI, rule conjI, rule refl)
    apply (simp add: read_stores_other)
    apply (rule ext)
    subgoal for r by (cases r; simp add: saved_reg_def field_def read_stores)
    done
qed

text \<open>\<open>sys_switch\<close> as a whole: with a null pointer nothing is saved.\<close>

lemma aligned_field [simp]: "aligned a \<Longrightarrow> aligned (field a k)"
  unfolding field_def by (intro aligned_add) (simp_all add: aligned_def unat_word_ariths dvd_mod_iff)

lemma sys_switch_spec:
  assumes cur: "read_word (hmem h) (loc CURRENT_CTX_PTR) = a" and nx: "read_word (hmem h) (loc NEXT_CTX_PTR) = b"
    and al: "aligned (xr h SP)" "aligned a" "aligned b" "\<And>sy. aligned (loc sy)"
    and out: "\<And>sy. loc sy \<notin> scratch (xr h SP)" "\<And>k. k < 33 \<Longrightarrow> field b k \<notin> scratch (xr h SP)"
    and dis: "a \<noteq> 0 \<Longrightarrow> saved_words a \<inter> scratch (xr h SP) = {}" "a \<noteq> 0 \<Longrightarrow> loc NEXT_CTX_PTR \<notin> saved_words a"
      "\<And>k. a \<noteq> 0 \<Longrightarrow> k < 33 \<Longrightarrow> field b k \<notin> saved_words a"
  shows "\<exists>m. exec loc sys_switch h =
             Some (mret (h\<lparr>xr := saved_reg (hmem h) b, mepc := read_word (hmem h) (field b mepc_slot),
                           mstatus := read_word (hmem h) (field b mstatus_slot), hmem := m\<rparr>)) \<and>
           (a \<noteq> 0 \<longrightarrow> saved_reg m a = xr h) \<and>
           (\<forall>y. aligned y \<and> y \<notin> scratch (xr h SP) \<and> (a \<noteq> 0 \<longrightarrow> y \<notin> saved_words a) \<longrightarrow>
                read_word m y = read_word (hmem h) y)"
proof -
  let ?s = "xr h SP - 16"
  have sc: "scratch (xr h SP) = {?s, ?s + 4, ?s + 8}" by (simp add: scratch_def)
  let ?c = "[Beqz A0 (length switch_save)] @ switch_save @ switch_restore"
  obtain m where m: "exec loc sys_switch h = exec loc ?c (h\<lparr>hmem := m, xr := (xr h)(SP := ?s, A0 := a)\<rparr>)"
    "read_word m ?s = xr h A0" "read_word m (?s + 4) = xr h A1" "read_word m (?s + 8) = xr h T0"
    "\<And>y. aligned y \<Longrightarrow> y \<notin> scratch (xr h SP) \<Longrightarrow> read_word m y = read_word (hmem h) y"
    using exec_enter[where c = ?c and loc = loc and h = h, OF al(1) al(4) out(1) cur] by (auto simp: sys_switch_def)
  let ?h = "h\<lparr>hmem := m, xr := (xr h)(SP := ?s, A0 := a)\<rparr>"
  have "\<exists>h1. exec loc sys_switch h = exec loc switch_restore h1 \<and> (a \<noteq> 0 \<longrightarrow> saved_reg (hmem h1) a = xr h) \<and>
      (\<forall>y. aligned y \<and> y \<notin> scratch (xr h SP) \<and> (a \<noteq> 0 \<longrightarrow> y \<notin> saved_words a) \<longrightarrow>
           read_word (hmem h1) y = read_word (hmem h) y)"
  proof (cases "a = 0")
    case True
    then show ?thesis using m(1,5) by (intro exI[of _ ?h]) simp
  next
    case False
    obtain h' where "exec loc (switch_save @ switch_restore) ?h = exec loc switch_restore h'"
      "saved_reg (hmem h') a = xr h" "\<And>y. aligned y \<Longrightarrow> y \<notin> saved_words a \<Longrightarrow> read_word (hmem h') y = read_word m y"
      using exec_save[where c = switch_restore and loc = loc and h = ?h,
          OF al(2) aligned_minus16[OF al(1)] dis(1)[OF False, unfolded sc]] m(2-4) by (auto simp: fun_upd_idem_iff)
    then show ?thesis using False m(1,5) by (intro exI[of _ h']) simp
  qed
  then obtain h1 where h1: "exec loc sys_switch h = exec loc switch_restore h1" "a \<noteq> 0 \<longrightarrow> saved_reg (hmem h1) a = xr h"
    "\<And>y. aligned y \<Longrightarrow> y \<notin> scratch (xr h SP) \<Longrightarrow> (a \<noteq> 0 \<longrightarrow> y \<notin> saved_words a) \<Longrightarrow>
         read_word (hmem h1) y = read_word (hmem h) y" by auto
  have same: "read_word (hmem h1) (field b k) = read_word (hmem h) (field b k)" if "k < 33" for k
    using h1(3) out(2)[OF that] dis(3)[OF _ that] al(3) by simp
  have "read_word (hmem h1) (loc NEXT_CTX_PTR) = b"
    using h1(3)[OF al(4) out(1)] dis(2) nx by simp
  then obtain h2 where h2: "exec loc switch_restore h1 = Some (mret h2)" "xr h2 = saved_reg (hmem h1) b"
    "hmem h2 = hmem h1" "mstatus h2 = read_word (hmem h1) (field b mstatus_slot)"
    "mepc h2 = read_word (hmem h1) (field b mepc_slot)"
    using exec_restore[where loc = loc, OF al(4,3)] by blast
  have "saved_reg (hmem h1) b = saved_reg (hmem h) b"
    using same[OF order.strict_trans[OF slot_less]] by (intro ext) (simp add: saved_reg_def)
  then show ?thesis
    using h1 h2 same by (intro exI[of _ "hmem h1"]) (auto simp: mstatus_slot_def mepc_slot_def intro!: mret_cong)
qed

subsection \<open>\<open>sched\<close> and the interrupt around it\<close>

text \<open>
  Where the linker put things: the two pointers, \<open>sys_switch\<close>, and the data of the threads, which are in
  the table of the scheduler at a fixed distance.
\<close>

record rv_layout =
  locs :: "symbol \<Rightarrow> 32 word"
  switch_at :: "32 word"
  data_base :: nat
  data_stride :: nat

definition data_addr :: "rv_layout \<Rightarrow> nat \<Rightarrow> 32 word" where
  "data_addr L t = word_of_nat (data_base L + data_stride L * t)"

definition switch_to :: "rv_layout \<Rightarrow> 32 word \<Rightarrow> 32 word \<Rightarrow> nat \<Rightarrow> hart \<Rightarrow> hart" where
  "switch_to L mst current_high_regs next_tid h =
     (let nx = data_addr L next_tid;
          m = write_word (hmem h) (field nx mstatus_slot) mst;
          m = write_word m (locs L CURRENT_CTX_PTR) current_high_regs;
          m = write_word m (locs L NEXT_CTX_PTR) nx
      in h\<lparr>hmem := m, mstatus := put_bit 7 False mst, mepc := switch_at L\<rparr>)"

definition rv_sched :: "rv_layout \<Rightarrow> scheduler \<Rightarrow> hart \<Rightarrow> panic + scheduler \<times> hart" where
  "rv_sched L s h =
     (let s = s\<lparr>pending := False\<rparr>; mst = mstatus h
      in bnd (rq_get_next (runq s)) (\<lambda>n.
         bnd (unwrap n) (\<lambda>next_tid.
           case current_thread s of
             Some cur_tid \<Rightarrow>
               if next_tid = cur_tid then Inr (s, h)
               else
                 bnd (get_unchecked s cur_tid) (\<lambda>_.
                 bnd (get_unchecked s next_tid) (\<lambda>_.
                   let cur = data_addr L cur_tid
                   in Inr (s\<lparr>current_thread := Some next_tid\<rparr>,
                           switch_to L mst cur next_tid
                             (h\<lparr>hmem := write_word (hmem h) (field cur mepc_slot) (mepc h)\<rparr>))))
           | None \<Rightarrow>
               bnd (get_unchecked s next_tid) (\<lambda>_.
                 Inr (s\<lparr>current_thread := Some next_tid\<rparr>, switch_to L mst 0 next_tid h)))))"

text \<open>
  The interrupt: the handler of \<open>esp_hal\<close> keeps the registers of what it interrupts, and returns to
  \<open>mepc\<close>.  When that is \<open>sys_switch\<close>, its code runs; interrupts are masked until its end.
\<close>

definition rv_interrupt :: "rv_layout \<Rightarrow> scheduler \<Rightarrow> hart \<Rightarrow> (panic + scheduler \<times> hart) option" where
  "rv_interrupt L s h =
     (case rv_sched L s (trap_entry h) of
        Inl e \<Rightarrow> Some (Inl e)
      | Inr (s, h) \<Rightarrow>
          let h = mret h
          in if pc h = switch_at L then map_option (\<lambda>h. Inr (s, h)) (exec (locs L) sys_switch h)
             else Some (Inr (s, h)))"

text \<open>
  \<open>setup_stack\<close>: the stack stays empty, the first registers are put into the thread's data.  Those of an
  earlier thread in the slot remain in the others.
\<close>

definition rv_setup_stack ::
    "rv_layout \<Rightarrow> 32 word \<Rightarrow> nat \<Rightarrow> thread \<Rightarrow> memory \<Rightarrow> 32 word \<Rightarrow> 32 word \<Rightarrow> 32 word \<Rightarrow> 32 word option \<Rightarrow>
     thread \<times> memory" where
  "rv_setup_stack L cleanup_fn t th m stack_start stack_len func arg =
     (let stack_pos = (stack_start + stack_len) AND 0xFFFFFFE0; d = data_addr L t;
          m = write_word m (field d (slot SP)) stack_pos;
          m = write_word m (field d (slot A0)) (case arg of None \<Rightarrow> 0 | Some a \<Rightarrow> a);
          m = write_word m (field d (slot RA)) cleanup_fn;
          m = write_word m (field d mepc_slot) func;
          th = th\<lparr>t_stack_lowest := stack_start, t_stack_highest := stack_pos\<rparr>
      in (th, stack_paint_init stack_start stack_pos m))"

subsection \<open>The layout of the data\<close>

definition layout_ok :: "rv_layout \<Rightarrow> bool" where
  "layout_ok L \<longleftrightarrow>
     4 dvd data_base L \<and> 4 dvd data_stride L \<and> 132 \<le> data_stride L \<and> 0 < data_base L \<and>
     data_base L + data_stride L * thread_count \<le> 4294967296 \<and> locs L CURRENT_CTX_PTR \<noteq> locs L NEXT_CTX_PTR \<and>
     list_all (\<lambda>a. aligned a \<and> \<not> (data_base L \<le> unat a \<and> unat a < data_base L + data_stride L * thread_count))
       [locs L CURRENT_CTX_PTR, locs L NEXT_CTX_PTR]"

lemma layout_okD:
  assumes "layout_ok L"
  shows "aligned (locs L sy)" "unat (locs L sy) < data_base L \<or> data_base L + data_stride L * thread_count \<le> unat (locs L sy)"
    "locs L CURRENT_CTX_PTR \<noteq> locs L NEXT_CTX_PTR"
  using assms by (cases sy; auto simp: layout_ok_def)+

lemma unat_data_field:
  assumes "layout_ok L" "t < thread_count" "k < 33"
  shows "unat (field (data_addr L t) k) = data_base L + data_stride L * t + 4 * k"
    and "data_base L + data_stride L * t + 4 * k + 4 \<le> data_base L + data_stride L * thread_count"
proof -
  have "data_stride L * (t + 1) \<le> data_stride L * thread_count" using assms(2) by (intro mult_le_mono2) simp
  then have m: "data_stride L * t + data_stride L \<le> data_stride L * thread_count" by (simp only: distrib_left mult_1_right)
  have l: "132 \<le> data_stride L" "data_base L + data_stride L * thread_count \<le> 4294967296"
    using assms(1) unfolding layout_ok_def by blast+
  show b: "data_base L + data_stride L * t + 4 * k + 4 \<le> data_base L + data_stride L * thread_count"
    using assms(3) m l(1) by linarith
  have "field (data_addr L t) k = word_of_nat (data_base L + data_stride L * t + 4 * k)"
    by (simp add: field_def data_addr_def)
  then show "unat (field (data_addr L t) k) = data_base L + data_stride L * t + 4 * k"
    using b l(2) by (simp only:) (rule unat32_of_nat, linarith)
qed

lemma data_field_inj:
  assumes "layout_ok L" "t < thread_count" "u < thread_count" "k < 33" "j < 33"
  shows "field (data_addr L t) k = field (data_addr L u) j \<longleftrightarrow> t = u \<and> k = j"
proof
  assume "field (data_addr L t) k = field (data_addr L u) j"
  then have "unat (field (data_addr L t) k) = unat (field (data_addr L u) j)" by (rule arg_cong)
  then have e: "data_stride L * t + 4 * k = data_stride L * u + 4 * j"
    unfolding unat_data_field(1)[OF assms(1,2,4)] unat_data_field(1)[OF assms(1,3,5)] by linarith
  have "132 \<le> data_stride L" using assms(1) by (simp add: layout_ok_def)
  then have k: "4 * k < data_stride L" "4 * j < data_stride L" using assms(4,5) by linarith+
  have "t = (data_stride L * t + 4 * k) div data_stride L" using k(1) by simp
  also have "\<dots> = u" unfolding e using k(2) by simp
  finally show "t = u \<and> k = j" using e by simp
qed simp

lemma data_addr_inj:
  "layout_ok L \<Longrightarrow> t < thread_count \<Longrightarrow> u < thread_count \<Longrightarrow> data_addr L t = data_addr L u \<longleftrightarrow> t = u"
  using data_field_inj[of L t u 0 0] by (simp add: field_def)

lemma data_addr_ok:
  assumes "layout_ok L" "t < thread_count"
  shows "aligned (data_addr L t)" "data_addr L t \<noteq> 0" "k < 33 \<Longrightarrow> locs L sy \<noteq> field (data_addr L t) k"
proof -
  have u: "unat (data_addr L t) = data_base L + data_stride L * t"
    using unat_data_field[OF assms, of 0] by (simp add: field_def)
  then show "aligned (data_addr L t)" "data_addr L t \<noteq> 0"
    using assms(1) by (auto simp: aligned_def layout_ok_def)
  show "k < 33 \<Longrightarrow> locs L sy \<noteq> field (data_addr L t) k"
    using unat_data_field[OF assms, of k] layout_okD(2)[OF assms(1), of sy] by auto
qed

text \<open>The words that the scheduler and the switch own; the stack of a thread does not reach them.\<close>

definition kernel_words :: "rv_layout \<Rightarrow> 32 word set" where
  "kernel_words L = {field (data_addr L t) k | t k. t < thread_count \<and> k < 33} \<union> range (locs L)"

lemma kernel_wordsI [intro]:
  "t < thread_count \<Longrightarrow> k < 33 \<Longrightarrow> field (data_addr L t) k \<in> kernel_words L" "locs L sy \<in> kernel_words L"
  by (auto simp: kernel_words_def)

definition stack_free :: "rv_layout \<Rightarrow> hart \<Rightarrow> bool" where
  "stack_free L h \<longleftrightarrow> aligned (xr h SP) \<and> scratch (xr h SP) \<inter> kernel_words L = {}"

lemma saved_words_field: "x \<in> saved_words a \<longleftrightarrow> (\<exists>k<31. x = field a k)"
proof
  assume "x \<in> saved_words a"
  then obtain d where d: "x = a + d" "aligned d" "d < 124" by (auto simp: saved_words_def)
  then obtain k where k: "unat d = 4 * k" by (auto simp: aligned_def elim: dvdE)
  then have "k < 31" using d(3) by (simp add: word_less_nat_alt)
  moreover have "unat (4 * word_of_nat k :: 32 word) = unat d"
    using unat32_of_nat[of "4 * k"] k unat32_less[of d] by simp
  then have "d = 4 * word_of_nat k" by (simp add: word_unat_eq_iff)
  ultimately show "\<exists>k<31. x = field a k" using d(1) by (auto simp: field_def)
next
  assume "\<exists>k<31. x = field a k"
  then obtain k where k: "k < 31" "x = a + word_of_nat (4 * k)" by (auto simp: field_def)
  then have "unat (word_of_nat (4 * k) :: 32 word) = 4 * k" by (intro unat32_of_nat) simp
  then show "x \<in> saved_words a"
    using k unfolding saved_words_def by (auto simp: aligned_def word_less_nat_alt simp del: of_nat_mult)
qed

lemma read_switch_to:
  assumes L: "layout_ok L" "n < thread_count" and y: "aligned y"
  shows "read_word (hmem (switch_to L mst a n h)) y =
           (if y = locs L NEXT_CTX_PTR then data_addr L n else if y = locs L CURRENT_CTX_PTR then a
            else if y = field (data_addr L n) mstatus_slot then mst else read_word (hmem h) y)"
  using y layout_okD(1)[OF L(1)] data_addr_ok(1)[OF L]
  by (auto simp: switch_to_def Let_def read_write_aligned)

lemma read_switch_field:
  assumes L: "layout_ok L" "n < thread_count" and t: "t < thread_count" "k < 33"
  shows "read_word (hmem (switch_to L mst a n h)) (field (data_addr L t) k) =
           (if t = n \<and> k = mstatus_slot then mst else read_word (hmem h) (field (data_addr L t) k))"
proof -
  have "field (data_addr L t) k \<noteq> locs L sy" for sy
    using data_addr_ok(3)[OF L(1) t, of sy] by (rule not_sym)
  moreover have "field (data_addr L t) k = field (data_addr L n) mstatus_slot \<longleftrightarrow> t = n \<and> k = mstatus_slot"
    using data_field_inj[OF L(1) t(1) L(2) t(2)] by (simp add: mstatus_slot_def)
  ultimately show ?thesis
    using read_switch_to[OF L, of "field (data_addr L t) k" mst a h] data_addr_ok(1)[OF L(1) t(1)] by simp
qed

text \<open>From the end of \<open>sched\<close> to the first instruction of the next thread.\<close>

lemma exec_switch_to:
  assumes L: "layout_ok L" and n: "n < thread_count"
    and a: "a = 0 \<or> (\<exists>c<thread_count. c \<noteq> n \<and> a = data_addr L c)" and st: "stack_free L h"
  shows "\<exists>m. exec (locs L) sys_switch (mret (switch_to L mst a n h)) =
             Some (mret (h\<lparr>xr := saved_reg (hmem h) (data_addr L n),
                           mepc := read_word (hmem h) (field (data_addr L n) mepc_slot), mstatus := mst, hmem := m\<rparr>)) \<and>
           (a \<noteq> 0 \<longrightarrow> saved_reg m a = xr h) \<and>
           (\<forall>t k. t < thread_count \<and> k < 33 \<and> (t = n \<longrightarrow> k \<noteq> mstatus_slot) \<and> (a = data_addr L t \<longrightarrow> k = mepc_slot) \<longrightarrow>
              read_word m (field (data_addr L t) k) = read_word (hmem h) (field (data_addr L t) k)) \<and>
           (\<forall>y. aligned y \<and> y \<notin> kernel_words L \<union> scratch (xr h SP) \<longrightarrow> read_word m y = read_word (hmem h) y)"
proof -
  let ?h = "mret (switch_to L mst a n h)" and ?b = "data_addr L n"
  have x: "xr ?h = xr h" "hmem ?h = hmem (switch_to L mst a n h)" by (simp_all add: mret_def switch_to_def Let_def)
  note rd = read_switch_to[OF L n, of _ mst a h]
  have al: "aligned (locs L sy)" "aligned a" "aligned ?b" for sy
    using layout_okD(1)[OF L] a data_addr_ok(1)[OF L] n by auto
  have free: "y \<notin> scratch (xr ?h SP)" if "y \<in> kernel_words L" for y
    using st that by (auto simp: stack_free_def x)
  have words: "\<exists>c<thread_count. c \<noteq> n \<and> (\<exists>k<31. y = field (data_addr L c) k)" if "a \<noteq> 0" "y \<in> saved_words a" for y
    using a that by (auto simp: saved_words_field)
  have fields: "read_word (hmem ?h) (field (data_addr L t) k) =
      (if t = n \<and> k = mstatus_slot then mst else read_word (hmem h) (field (data_addr L t) k))"
    if "t < thread_count" "k < 33" for t k
    using read_switch_field[OF L n that] by (simp add: x)
  obtain m where m: "exec (locs L) sys_switch ?h =
        Some (mret (?h\<lparr>xr := saved_reg (hmem ?h) ?b, mepc := read_word (hmem ?h) (field ?b mepc_slot),
                       mstatus := read_word (hmem ?h) (field ?b mstatus_slot), hmem := m\<rparr>))"
    "a \<noteq> 0 \<longrightarrow> saved_reg m a = xr ?h"
    "\<And>y. aligned y \<Longrightarrow> y \<notin> scratch (xr ?h SP) \<Longrightarrow> (a \<noteq> 0 \<longrightarrow> y \<notin> saved_words a) \<Longrightarrow>
         read_word m y = read_word (hmem ?h) y"
  proof -
    have "read_word (hmem ?h) (locs L CURRENT_CTX_PTR) = a" "read_word (hmem ?h) (locs L NEXT_CTX_PTR) = ?b"
      using rd[OF al(1)] layout_okD(3)[OF L] by (simp_all add: x)
    moreover have "saved_words a \<inter> scratch (xr ?h SP) = {}" if "a \<noteq> 0"
      using words[OF that] free by fastforce
    moreover have "locs L NEXT_CTX_PTR \<notin> saved_words a" if "a \<noteq> 0"
      using words[OF that] data_addr_ok(3)[OF L] by fastforce
    moreover have "field ?b k \<notin> saved_words a" if "a \<noteq> 0" "k < 33" for k
      using words[OF that(1)] data_field_inj[OF L n] that(2) by fastforce
    moreover have "aligned (xr ?h SP)" using st by (simp add: x stack_free_def)
    ultimately show ?thesis
      using sys_switch_spec[of ?h "locs L" a ?b] al free kernel_wordsI n that by blast
  qed
  have b: "saved_reg (hmem ?h) ?b = saved_reg (hmem h) ?b"
    "read_word (hmem ?h) (field ?b mepc_slot) = read_word (hmem h) (field ?b mepc_slot)"
    "read_word (hmem ?h) (field ?b mstatus_slot) = mst"
    using fields[OF n] order.strict_trans[OF slot_less] less_imp_neq[OF slot_less]
    by (auto simp: saved_reg_def mepc_slot_def mstatus_slot_def fun_eq_iff)
  have other: "read_word m (field (data_addr L t) k) = read_word (hmem h) (field (data_addr L t) k)"
    if t: "t < thread_count" "k < 33" "t = n \<Longrightarrow> k \<noteq> mstatus_slot" "a = data_addr L t \<Longrightarrow> k = mepc_slot" for t k
  proof -
    have "field (data_addr L t) k \<notin> saved_words a" if na: "a \<noteq> 0"
    proof
      obtain c where c: "c < thread_count" "a = data_addr L c" using a na by blast
      assume "field (data_addr L t) k \<in> saved_words a"
      then obtain j where j: "j < 31" "field (data_addr L t) k = field (data_addr L c) j"
        using c(2) by (auto simp: saved_words_field)
      then have "t = c \<and> k = j" using data_field_inj[OF L t(1) c(1) t(2), of j] by simp
      then show False using t(4) c(2) j(1) by (simp add: mepc_slot_def)
    qed
    then show ?thesis
      using m(3)[OF _ free[OF kernel_wordsI(1)[OF t(1,2)]]] data_addr_ok(1)[OF L t(1)] fields[OF t(1,2)] t(3) by auto
  qed
  have rest: "read_word m y = read_word (hmem h) y" if "aligned y" "y \<notin> kernel_words L \<union> scratch (xr h SP)" for y
  proof -
    have "y \<notin> saved_words a" if "a \<noteq> 0"
      using words[OF that] \<open>y \<notin> _\<close> by (fastforce simp: kernel_words_def)
    moreover have "y \<noteq> locs L sy" "y \<noteq> field ?b mstatus_slot" for sy
      using that(2) n by (auto simp: mstatus_slot_def)
    ultimately show ?thesis using m(3)[OF that(1)] that rd[OF that(1)] by (simp add: x)
  qed
  have "exec (locs L) sys_switch ?h =
      Some (mret (h\<lparr>xr := saved_reg (hmem h) ?b, mepc := read_word (hmem h) (field ?b mepc_slot),
                    mstatus := mst, hmem := m\<rparr>))"
    unfolding m(1) b option.inject by (rule mret_cong) simp_all
  then show ?thesis using m(2) other rest unfolding x by blast
qed

subsection \<open>The interrupt\<close>

lemma bit_put_bit [simp]: "k < 32 \<Longrightarrow> n < 32 \<Longrightarrow> bit (put_bit n b w) k \<longleftrightarrow> (if k = n then b else bit w k)"
  by (auto simp: put_bit_def bit_set_bit_iff bit_unset_bit_iff possible_bit_word)

lemma trap_entry_simps [simp]:
  "xr (trap_entry h) = xr h" "hmem (trap_entry h) = hmem h" "mepc (trap_entry h) = pc h"
  by (simp_all add: trap_entry_def)

lemma mret_simps [simp]: "xr (mret h) = xr h" "hmem (mret h) = hmem h" "pc (mret h) = mepc h"
  by (simp_all add: mret_def)

text \<open>A thread runs in machine mode with interrupts enabled, and its stack has not overflowed.\<close>

definition rv_running :: "rv_layout \<Rightarrow> hart \<Rightarrow> bool" where
  "rv_running L h \<longleftrightarrow> machine_mode h \<and> bit (mstatus h) 3 \<and> pc h \<noteq> switch_at L \<and> stack_free L h"

definition resumes :: "hart \<Rightarrow> (reg \<Rightarrow> 32 word) \<Rightarrow> 32 word \<Rightarrow> bool" where
  "resumes h regs p \<longleftrightarrow> xr h = regs \<and> pc h = p \<and> machine_mode h \<and> bit (mstatus h) 3"

definition suspended :: "rv_layout \<Rightarrow> hart \<Rightarrow> nat \<Rightarrow> (reg \<Rightarrow> 32 word) \<Rightarrow> 32 word \<Rightarrow> bool" where
  "suspended L h t regs p \<longleftrightarrow>
     saved_reg (hmem h) (data_addr L t) = regs \<and> read_word (hmem h) (field (data_addr L t) mepc_slot) = p"

lemma suspended_cong:
  assumes "\<And>k. k < 33 \<Longrightarrow> k \<noteq> mstatus_slot \<Longrightarrow>
             read_word (hmem h') (field (data_addr L t) k) = read_word (hmem h) (field (data_addr L t) k)"
  shows "suspended L h' t = suspended L h t"
proof -
  have "slot r < 33" "slot r \<noteq> mstatus_slot" for r
    using slot_less[of r] by (simp_all add: mstatus_slot_def)
  then show ?thesis
    using assms by (simp add: suspended_def saved_reg_def fun_eq_iff mepc_slot_def mstatus_slot_def)
qed

lemma rv_interrupt_stay:
  assumes "rv_running L h" "rq_get_next (runq s) = Inr (Some c)" "current_thread s = Some c"
  shows "\<exists>h'. rv_interrupt L s h = Some (Inr (s\<lparr>pending := False\<rparr>, h')) \<and> resumes h' (xr h) (pc h) \<and> hmem h' = hmem h"
  using assms
  by (auto simp: rv_interrupt_def rv_sched_def Let_def rv_running_def resumes_def mret_def trap_entry_def)

lemma rv_interrupt_switch:
  assumes L: "layout_ok L" and len: "length (threads s) = thread_count" and run: "rv_running L h"
    and nx: "rq_get_next (runq s) = Inr (Some n)" "n < thread_count" "current_thread s \<noteq> Some n"
    and cur: "\<And>c. current_thread s = Some c \<Longrightarrow> c < thread_count"
  shows "\<exists>h'. rv_interrupt L s h = Some (Inr (s\<lparr>pending := False, current_thread := Some n\<rparr>, h')) \<and>
           (\<forall>regs p. suspended L h n regs p \<longrightarrow> resumes h' regs p) \<and>
           (\<forall>c. current_thread s = Some c \<longrightarrow> suspended L h' c (xr h) (pc h)) \<and>
           (\<forall>t<thread_count. current_thread s \<noteq> Some t \<longrightarrow> suspended L h' t = suspended L h t) \<and>
           (\<forall>y. aligned y \<and> y \<notin> kernel_words L \<union> scratch (xr h SP) \<longrightarrow> read_word (hmem h') y = read_word (hmem h) y)"
proof -
  let ?t = "trap_entry h"
  define a where "a = (case current_thread s of None \<Rightarrow> 0 | Some c \<Rightarrow> data_addr L c)"
  define h0 where "h0 = (case current_thread s of None \<Rightarrow> ?t
    | Some c \<Rightarrow> ?t\<lparr>hmem := write_word (hmem h) (field (data_addr L c) mepc_slot) (pc h)\<rparr>)"
  have x0: "xr h0 = xr h" "mstatus h0 = mstatus ?t" by (simp_all add: h0_def split: option.split)
  have sched: "rv_sched L s ?t =
      Inr (s\<lparr>pending := False, current_thread := Some n\<rparr>, switch_to L (mstatus ?t) a n h0)"
    using nx cur by (auto simp: rv_sched_def Let_def get_unchecked_def len a_def h0_def split: option.splits)
  have f0: "read_word (hmem h0) (field (data_addr L t) k) =
      (if current_thread s = Some t \<and> k = mepc_slot then pc h else read_word (hmem h) (field (data_addr L t) k))"
    if "t < thread_count" "k < 33" for t k
    using data_field_inj[OF L _ that(1) _ that(2), of _ mepc_slot] data_addr_ok(1)[OF L] cur that(1)
    by (auto simp: h0_def read_write_aligned mepc_slot_def split: option.split)
  have free: "stack_free L h0" using run by (simp add: stack_free_def x0 rv_running_def)
  have a: "a = 0 \<or> (\<exists>c<thread_count. c \<noteq> n \<and> a = data_addr L c)"
    using nx(3) cur by (auto simp: a_def split: option.split)
  obtain m where m: "exec (locs L) sys_switch (mret (switch_to L (mstatus ?t) a n h0)) =
        Some (mret (h0\<lparr>xr := saved_reg (hmem h0) (data_addr L n),
                       mepc := read_word (hmem h0) (field (data_addr L n) mepc_slot), mstatus := mstatus ?t, hmem := m\<rparr>))"
    "a \<noteq> 0 \<Longrightarrow> saved_reg m a = xr h0"
    "\<And>t k. t < thread_count \<Longrightarrow> k < 33 \<Longrightarrow> (t = n \<longrightarrow> k \<noteq> mstatus_slot) \<Longrightarrow> (a = data_addr L t \<longrightarrow> k = mepc_slot) \<Longrightarrow>
           read_word m (field (data_addr L t) k) = read_word (hmem h0) (field (data_addr L t) k)"
    "\<And>y. aligned y \<Longrightarrow> y \<notin> kernel_words L \<union> scratch (xr h0 SP) \<Longrightarrow> read_word m y = read_word (hmem h0) y"
    using exec_switch_to[OF L nx(2) a free, of "mstatus ?t"] by blast
  let ?h = "mret (h0\<lparr>xr := saved_reg (hmem h0) (data_addr L n),
                    mepc := read_word (hmem h0) (field (data_addr L n) mepc_slot), mstatus := mstatus ?t, hmem := m\<rparr>)"
  have int: "rv_interrupt L s h = Some (Inr (s\<lparr>pending := False, current_thread := Some n\<rparr>, ?h))"
    using m(1) by (simp add: rv_interrupt_def sched switch_to_def Let_def)
  have "suspended L h0 n = suspended L h n"
    using f0[OF nx(2)] nx(3) by (intro suspended_cong) simp
  then have resumed: "resumes ?h regs p" if "suspended L h n regs p" for regs p
    using that run by (auto simp: resumes_def suspended_def mret_def trap_entry_def rv_running_def fun_eq_iff)
  have saved: "suspended L ?h c (xr h) (pc h)" if c: "current_thread s = Some c" for c
  proof -
    have ac: "a = data_addr L c" "c < thread_count" "c \<noteq> n" using c cur nx(3) by (auto simp: a_def)
    then have "saved_reg m (data_addr L c) = xr h" using m(2) data_addr_ok(2)[OF L ac(2)] by (simp add: x0)
    moreover have "read_word m (field (data_addr L c) mepc_slot) = pc h"
      using m(3)[OF ac(2), of mepc_slot] f0[OF ac(2), of mepc_slot] c ac(3) by (simp add: mepc_slot_def)
    ultimately show ?thesis by (simp add: suspended_def)
  qed
  have others: "suspended L ?h t = suspended L h t" if t: "t < thread_count" "current_thread s \<noteq> Some t" for t
  proof (rule suspended_cong)
    fix k assume k: "k < 33" "k \<noteq> mstatus_slot"
    have "a \<noteq> data_addr L t"
      using t a_def cur data_addr_ok(2)[OF L t(1)] data_addr_inj[OF L _ t(1)]
      by (auto split: option.splits)
    then show "read_word (hmem ?h) (field (data_addr L t) k) = read_word (hmem h) (field (data_addr L t) k)"
      using m(3)[OF t(1) k(1)] f0[OF t(1) k(1)] k(2) t(2) by simp
  qed
  have rest: "read_word (hmem ?h) y = read_word (hmem h) y" if y: "aligned y" "y \<notin> kernel_words L \<union> scratch (xr h SP)" for y
  proof -
    have "y \<noteq> field (data_addr L c) mepc_slot" if "current_thread s = Some c" for c
      using y(2) cur[OF that] by (auto simp: mepc_slot_def)
    then have "read_word (hmem h0) y = read_word (hmem h) y"
      using y(1) data_addr_ok(1)[OF L] cur by (auto simp: h0_def read_write_aligned split: option.split)
    then show ?thesis using m(4)[OF y(1)] y(2) by (simp add: x0)
  qed
  show ?thesis using int resumed saved others rest by blast
qed

text \<open>What the interrupt can have done when it does not panic.\<close>

lemma rv_interrupt_cases:
  assumes L: "layout_ok L" and len: "length (threads s) = thread_count" and run: "rv_running L h"
    and cur: "\<forall>c. current_thread s = Some c \<longrightarrow> c < thread_count"
    and i: "rv_interrupt L s h = Some (Inr (s', h'))"
  obtains (stay) c where "current_thread s = Some c" "s' = s\<lparr>pending := False\<rparr>" "resumes h' (xr h) (pc h)" "hmem h' = hmem h"
  | (switch) n where "n < thread_count" "current_thread s \<noteq> Some n" "s' = s\<lparr>pending := False, current_thread := Some n\<rparr>"
      "\<And>regs p. suspended L h n regs p \<Longrightarrow> resumes h' regs p"
      "\<And>c. current_thread s = Some c \<Longrightarrow> suspended L h' c (xr h) (pc h)"
      "\<And>t. t < thread_count \<Longrightarrow> current_thread s \<noteq> Some t \<Longrightarrow> suspended L h' t = suspended L h t"
proof -
  obtain n where n: "rq_get_next (runq s) = Inr (Some n)" "current_thread s = Some n \<or> n < thread_count"
    using i len by (auto simp: rv_interrupt_def rv_sched_def Let_def panic_simps get_unchecked_def split: sum.splits option.splits if_splits)
  show ?thesis
  proof (cases "current_thread s = Some n")
    case True
    then show ?thesis using rv_interrupt_stay[OF run n(1)] i that(1) by auto
  next
    case False
    then show ?thesis using rv_interrupt_switch[OF L len run n(1) _ False] cur n(2) i that(2)[of n] by auto
  qed
qed

subsection \<open>Runs of the threads\<close>

text \<open>
  The current thread executes: it changes its registers, its memory and, through calls of the scheduler,
  the table; it keeps the data of other live threads.  Or the interrupt comes.
\<close>

inductive rv_step :: "rv_layout \<Rightarrow> scheduler \<times> hart \<Rightarrow> scheduler \<times> hart \<Rightarrow> bool" for L where
  execute: "current_thread s' = current_thread s \<Longrightarrow> length (threads s') = length (threads s) \<Longrightarrow> rv_running L h' \<Longrightarrow>
    (\<And>t k. t < thread_count \<Longrightarrow> k < 33 \<Longrightarrow> current_thread s \<noteq> Some t \<Longrightarrow> t_state (th_of s t) \<noteq> Invalid \<Longrightarrow>
       t_state (th_of s' t) \<noteq> Invalid \<and>
       read_word (hmem h') (field (data_addr L t) k) = read_word (hmem h) (field (data_addr L t) k)) \<Longrightarrow>
    rv_step L (s, h) (s', h')"
| interrupt: "rv_running L h \<Longrightarrow> rv_interrupt L s h = Some (Inr (s', h')) \<Longrightarrow> rv_step L (s, h) (s', h')"

definition rv_away :: "rv_layout \<Rightarrow> nat \<Rightarrow> scheduler \<times> hart \<Rightarrow> scheduler \<times> hart \<Rightarrow> bool" where
  "rv_away L c x y \<longleftrightarrow> rv_step L x y \<and> current_thread (fst y) \<noteq> Some c"

definition waits_in :: "rv_layout \<Rightarrow> nat \<Rightarrow> (reg \<Rightarrow> 32 word) \<Rightarrow> 32 word \<Rightarrow> scheduler \<times> hart \<Rightarrow> bool" where
  "waits_in L c regs p x \<longleftrightarrow>
     length (threads (fst x)) = thread_count \<and> t_state (th_of (fst x) c) \<noteq> Invalid \<and>
     current_thread (fst x) \<noteq> Some c \<and> (\<forall>d. current_thread (fst x) = Some d \<longrightarrow> d < thread_count) \<and>
     suspended L (snd x) c regs p"

lemma rv_away_waits:
  assumes L: "layout_ok L" and c: "c < thread_count" and step: "rv_away L c x y" and w: "waits_in L c regs p x"
  shows "waits_in L c regs p y"
proof -
  obtain s h where x: "x = (s, h)" by (cases x)
  from step have "rv_step L x y" and y: "current_thread (fst y) \<noteq> Some c" by (simp_all add: rv_away_def)
  from this(1) show ?thesis
    unfolding x
  proof cases
    case (execute s' h')
    have "suspended L h' c = suspended L h c"
      using execute(5)[OF c] w by (intro suspended_cong) (auto simp: waits_in_def x)
    then show ?thesis using execute(5)[OF c, of 0] execute(2,3) w y by (auto simp: waits_in_def x execute(1))
  next
    case (interrupt s' h')
    have len: "length (threads s) = thread_count" and cur: "\<forall>d. current_thread s = Some d \<longrightarrow> d < thread_count"
      using w by (simp_all add: waits_in_def x)
    show ?thesis
    proof (cases rule: rv_interrupt_cases[OF L len interrupt(2) cur interrupt(3), case_names stay switch])
      case (stay d)
      have "suspended L h' c = suspended L h c" using stay(4) by (intro suspended_cong) simp
      then show ?thesis using w y stay(1,2) by (simp add: waits_in_def x interrupt(1))
    next
      case (switch n)
      then show ?thesis using w y c by (simp add: waits_in_def x interrupt(1))
    qed
  qed
qed

text \<open>
  C10: Context switches on RISC-V are transparent: a live thread that is preempted continues, after any run of
  other threads, at the same instruction and with all registers as they were, in machine mode and with
  interrupts enabled.
\<close>

theorem riscv_context_survives:
  assumes L: "layout_ok L" and s: "length (threads s) = thread_count" "c < thread_count" "t_state (th_of s c) \<noteq> Invalid"
    and c: "current_thread s = Some c" "rv_running L h"
    and out: "rv_interrupt L s h = Some (Inr (s1, h1))" "current_thread s1 \<noteq> Some c"
    and away: "(rv_away L c)\<^sup>*\<^sup>* (s1, h1) (s2, h2)"
    and ret: "rv_running L h2" "rv_interrupt L s2 h2 = Some (Inr (s3, h3))" "current_thread s3 = Some c"
  shows "xr h3 = xr h \<and> pc h3 = pc h \<and> machine_mode h3 \<and> bit (mstatus h3) 3"
proof -
  have "waits_in L c (xr h) (pc h) (s1, h1)"
    by (cases rule: rv_interrupt_cases[OF L s(1) c(2) _ out(1)]) (use c s out(2) in \<open>auto simp: waits_in_def\<close>)
  with away have w: "waits_in L c (xr h) (pc h) (s2, h2)"
    by (induction rule: rtranclp_induct) (auto intro: rv_away_waits[OF L s(2)])
  have "resumes h3 (xr h) (pc h)"
    by (cases rule: rv_interrupt_cases[OF L _ ret(1) _ ret(2)]) (use w ret(3) in \<open>auto simp: waits_in_def\<close>)
  then show ?thesis by (simp add: resumes_def)
qed

subsection \<open>New threads\<close>

lemma align_down:
  fixes w :: "32 word"
  assumes "n < 32"
  shows "unat (w AND NOT (mask n)) = 2 ^ n * (unat w div 2 ^ n)"
proof -
  have "w AND NOT (mask n) = push_bit n (drop_bit n w)"
    by (rule bit_word_eqI) (auto simp: bit_simps)
  moreover have "unat (push_bit n (drop_bit n w)) = 2 ^ n * (unat w div 2 ^ n)"
  proof -
    have b: "2 ^ n * (unat w div 2 ^ n) < 4294967296"
      using unat32_less[of w] by (meson le_less_trans times_div_less_eq_dividend)
    have "unat w div 2 ^ n < 4294967296"
      using unat32_less[of w] by (meson div_le_dividend le_less_trans)
    moreover have "unat (2 ^ n :: 32 word) = 2 ^ n"
      using unat32_of_nat[of "2 ^ n"] power_strict_increasing[OF assms, of "2 :: nat"] by simp
    ultimately show ?thesis
      using b by (simp add: push_bit_eq_mult drop_bit_eq_div unat_word_ariths unat_div mult.commute)
  qed
  ultimately show ?thesis by simp
qed

lemma read_stack_paint_init:
  assumes "aligned y" "\<And>x. unat y \<le> unat x \<Longrightarrow> unat x < unat y + 4 \<Longrightarrow> \<not> (lo \<le> x \<and> x < sp)"
  shows "read_word (stack_paint_init lo sp m) y = read_word m y"
proof -
  obtain k where "unat y = 4 * k" using assms(1) by (auto simp: aligned_def elim: dvdE)
  then have "unat y + 3 < 4294967296" using unat32_less[of y] by presburger
  then have "unat (y + 1) = unat y + 1" "unat (y + 2) = unat y + 2" "unat (y + 3) = unat y + 3"
    using unat_add_small[of y 1] unat_add_small[of y 2] unat_add_small[of y 3] by simp_all
  then show ?thesis
    using assms(2)[of y] assms(2)[of "y + 1"] assms(2)[of "y + 2"] assms(2)[of "y + 3"]
    by (intro read_word_cong) (auto simp: stack_paint_init_spec)
qed

text \<open>
  A new thread starts at its function, with its argument, an empty stack and \<open>cleanup\<close> as the return address.
  The stack pointer is aligned to 32 bytes, more than the 16 that the comment asks for.
\<close>

lemma riscv_thread_starts:
  assumes L: "layout_ok L" and t: "t < thread_count" "current_thread s \<noteq> Some t" "rq_get_next (runq s) = Inr (Some t)"
    and s: "length (threads s) = thread_count" "\<And>c. current_thread s = Some c \<Longrightarrow> c < thread_count"
    and stack: "unat start + unat len < 4294967296"
      "data_base L + data_stride L * thread_count \<le> unat start \<or> unat start + unat len \<le> data_base L"
    and new: "rv_setup_stack L cleanup_fn t th m start len func arg = (th', m')"
    and run: "rv_running L h" "hmem h = m'"
  shows "\<exists>s' h'. rv_interrupt L s h = Some (Inr (s', h')) \<and> current_thread s' = Some t \<and> pc h' = func \<and>
           xr h' RA = cleanup_fn \<and> xr h' A0 = (case arg of None \<Rightarrow> 0 | Some a \<Rightarrow> a) \<and>
           xr h' SP = t_stack_highest th' \<and> machine_mode h' \<and> bit (mstatus h') 3"
    and "32 dvd unat (t_stack_highest th')" "unat (t_stack_highest th') \<le> unat start + unat len"
      "unat start + unat len < unat (t_stack_highest th') + 32"
proof -
  let ?pos = "(start + len) AND 0xFFFFFFE0" and ?d = "data_addr L t"
  have "(0xFFFFFFE0 :: 32 word) = NOT (mask 5)" by (simp add: mask_eq_decr_exp)
  then have pos: "unat ?pos = 32 * ((unat start + unat len) div 32)"
    using align_down[of 5 "start + len"] stack(1) by (simp add: unat_word_ariths)
  have th': "t_stack_highest th' = ?pos" using new by (auto simp: rv_setup_stack_def Let_def)
  show "32 dvd unat (t_stack_highest th')" "unat (t_stack_highest th') \<le> unat start + unat len"
    "unat start + unat len < unat (t_stack_highest th') + 32"
    unfolding th' pos by simp_all
  have d: "aligned ?d" by (rule data_addr_ok(1)[OF L t(1)])
  note ne = data_field_inj[OF L t(1) t(1)]
  have paint: "read_word (stack_paint_init start ?pos m1) (field ?d k) = read_word m1 (field ?d k)" if "k < 33" for k m1
  proof (rule read_stack_paint_init)
    fix x :: "32 word"
    assume "unat (field ?d k) \<le> unat x" "unat x < unat (field ?d k) + 4"
    moreover have "unat ?pos \<le> unat start + unat len" unfolding pos by simp
    ultimately show "\<not> (start \<le> x \<and> x < ?pos)"
      using unat_data_field[OF L t(1) that] stack(2) unfolding word_le_nat_alt word_less_nat_alt by linarith
  qed (simp add: d)
  have m': "hmem h = stack_paint_init start ?pos
      (write_word (write_word (write_word (write_word m (field ?d (slot SP)) ?pos) (field ?d (slot A0))
        (case arg of None \<Rightarrow> 0 | Some a \<Rightarrow> a)) (field ?d (slot RA)) cleanup_fn) (field ?d mepc_slot) func)"
    using new run(2) by (simp add: rv_setup_stack_def Let_def)
  have "suspended L h t (saved_reg m' ?d) func" "saved_reg m' ?d RA = cleanup_fn"
    "saved_reg m' ?d A0 = (case arg of None \<Rightarrow> 0 | Some a \<Rightarrow> a)" "saved_reg m' ?d SP = ?pos"
    unfolding suspended_def saved_reg_def run(2)[symmetric] m' by (simp_all add: paint d ne mepc_slot_def read_write_aligned)
  then show "\<exists>s' h'. rv_interrupt L s h = Some (Inr (s', h')) \<and> current_thread s' = Some t \<and> pc h' = func \<and>
       xr h' RA = cleanup_fn \<and> xr h' A0 = (case arg of None \<Rightarrow> 0 | Some a \<Rightarrow> a) \<and>
       xr h' SP = t_stack_highest th' \<and> machine_mode h' \<and> bit (mstatus h') 3"
    using rv_interrupt_switch[OF L s(1) run(1) t(3,1,2) s(2)] by (fastforce simp: resumes_def th')
qed

text \<open>The scheduler's choice: the first ready thread of the highest priority, or a panic when none is ready.\<close>

lemma riscv_switches_to_best:
  assumes L: "layout_ok L" and inv: "sched_inv s Q" and run: "rv_running L h"
  shows "first_ready sched_prio_levels Q = None \<Longrightarrow> rv_interrupt L s h = Some (Inl UnwrapNone)"
    and "first_ready sched_prio_levels Q = Some n \<Longrightarrow>
         \<exists>s' h'. rv_interrupt L s h = Some (Inr (s', h')) \<and> current_thread s' = Some n"
proof -
  have g: "rq_get_next (runq s) = Inr (first_ready sched_prio_levels Q)"
    using inv by (auto simp: sched_inv_def intro!: rq_get_next_spec)
  show "first_ready sched_prio_levels Q = None \<Longrightarrow> rv_interrupt L s h = Some (Inl UnwrapNone)"
    using g by (simp add: rv_interrupt_def rv_sched_def Let_def)
  assume n: "first_ready sched_prio_levels Q = Some n"
  show "\<exists>s' h'. rv_interrupt L s h = Some (Inr (s', h')) \<and> current_thread s' = Some n"
  proof (cases "current_thread s = Some n")
    case True
    then show ?thesis using rv_interrupt_stay[OF run, of s n] g n by auto
  next
    case False
    obtain k ts where "Q k = n # ts" using n by (elim first_ready_Some)
    then have "n < thread_count" using sched_inv_queued(1)[OF inv, of n k] by simp
    moreover have "length (threads s) = thread_count" "\<And>c. current_thread s = Some c \<Longrightarrow> c < thread_count"
      using sched_invD(2,7)[OF inv] by blast+
    ultimately show ?thesis using rv_interrupt_switch[OF L _ run, of s n] g n False by auto
  qed
qed

subsection \<open>An example\<close>

definition example_layout :: rv_layout where
  "example_layout =
     \<lparr>locs = (\<lambda>sy. case sy of CURRENT_CTX_PTR \<Rightarrow> 0x2000 | NEXT_CTX_PTR \<Rightarrow> 0x2004), switch_at = 0x40000,
      data_base = 0x3000, data_stride = 256\<rparr>"

definition example_hart :: hart where
  "example_hart =
     \<lparr>xr = (\<lambda>_. 0x8000), pc = 0x1234, mepc = 0, mstatus = 8, machine_mode = True, hmem = (\<lambda>_. 0x20)\<rparr>"

definition example_sched :: "nat \<Rightarrow> nat \<Rightarrow> scheduler" where
  "example_sched cur ready =
     scheduler_new\<lparr>runq := (case rq_add (runq scheduler_new) ready 3 of Inr q \<Rightarrow> q | Inl _ \<Rightarrow> runq scheduler_new),
                   threads := replicate thread_count (thread_default\<lparr>t_state := Running\<rparr>), current_thread := Some cur\<rparr>"

lemma example_layout_ok: "layout_ok example_layout"
  by (simp add: layout_ok_def example_layout_def thread_count_def)

lemma example_next: "rq_get_next (runq (example_sched 0 1)) = Inr (Some 1)" "rq_get_next (runq (example_sched 1 0)) = Inr (Some 0)"
  by code_simp+

lemma example_stack: "xr h SP \<in> {0x8000, 0x20202020} \<Longrightarrow> stack_free example_layout h"
proof -
  assume sp: "xr h SP \<in> {0x8000, 0x20202020}"
  have "unat (field (data_addr example_layout t) k) < 0x7000" if "t < thread_count" "k < 33" for t k
    using unat_data_field(2)[OF example_layout_ok that] unat_data_field(1)[OF example_layout_ok that]
    by (simp add: example_layout_def thread_count_def)
  then have "unat y < 0x7000" if "y \<in> kernel_words example_layout" for y
    using that by (auto simp: kernel_words_def example_layout_def split: symbol.split)
  moreover have "\<not> unat y < 0x7000" if "y \<in> scratch (xr h SP)" for y
    using that sp by (auto simp: scratch_def)
  ultimately show ?thesis using sp by (auto simp: stack_free_def)
qed

lemma riscv_context_survives_witness:
  "\<exists>s h s1 h1 s2 h2 s3 h3. current_thread s = Some 0 \<and> rv_interrupt example_layout s h = Some (Inr (s1, h1)) \<and>
     current_thread s1 = Some 1 \<and> (rv_away example_layout 0)\<^sup>*\<^sup>* (s1, h1) (s2, h2) \<and>
     rv_interrupt example_layout s2 h2 = Some (Inr (s3, h3)) \<and> current_thread s3 = Some 0 \<and>
     xr h3 = xr h \<and> pc h3 = pc h \<and> machine_mode h3 \<and> bit (mstatus h3) 3"
proof -
  let ?L = example_layout and ?h = example_hart and ?s = "example_sched 0 1" and ?s2 = "example_sched 1 0"
  have len: "length (threads (example_sched c r)) = thread_count" "current_thread (example_sched c r) = Some c"
    "t < thread_count \<Longrightarrow> t_state (th_of (example_sched c r) t) \<noteq> Invalid" for c r t
    by (simp_all add: example_sched_def)
  have tc: "0 < thread_count" "1 < thread_count" by (simp_all add: thread_count_def)
  have run: "rv_running ?L ?h"
    using example_stack[of ?h] by (simp add: rv_running_def example_hart_def example_layout_def)
  obtain h1 where h1: "rv_interrupt ?L ?s ?h = Some (Inr (?s\<lparr>pending := False, current_thread := Some 1\<rparr>, h1))"
    "\<And>regs p. suspended ?L ?h 1 regs p \<Longrightarrow> resumes h1 regs p"
    using rv_interrupt_switch[OF example_layout_ok len(1) run example_next(1) tc(2)] len(2) tc by fastforce
  have word: "read_word (hmem ?h) y = 0x20202020" for y by (simp add: read_word_def example_hart_def)
  then have "suspended ?L ?h 1 (\<lambda>_. 0x20202020) 0x20202020" by (simp add: suspended_def saved_reg_def fun_eq_iff)
  from h1(2)[OF this] have run1: "rv_running ?L h1"
    using example_stack[of h1] by (simp add: resumes_def rv_running_def example_layout_def)
  let ?s1 = "?s\<lparr>pending := False, current_thread := Some 1\<rparr>"
  have away: "(rv_away ?L 0)\<^sup>*\<^sup>* (?s1, h1) (?s2, h1)"
    using run1 len by (intro r_into_rtranclp) (auto simp: rv_away_def intro!: rv_step.execute)
  obtain h3 where h3: "rv_interrupt ?L ?s2 h1 = Some (Inr (?s2\<lparr>pending := False, current_thread := Some 0\<rparr>, h3))"
    using rv_interrupt_switch[OF example_layout_ok len(1) run1 example_next(2) tc(1)] len(2) tc by fastforce
  have "xr h3 = xr ?h \<and> pc h3 = pc ?h \<and> machine_mode h3 \<and> bit (mstatus h3) 3"
    using riscv_context_survives[OF example_layout_ok len(1) tc(1) len(3)[OF tc(1)] len(2) run h1(1) _ away run1 h3] by simp
  then show ?thesis using h1(1) h3 away len(2) by (intro exI conjI) (assumption | simp)+
qed

end
