(* ===== verification/Xtensa.thy ===== *)
theory Xtensa
  imports SchedulerSpec
begin

section \<open>The context switch on Xtensa (\<open>arch/xtensa.rs\<close>, one core)\<close>

text \<open>
  On Xtensa the trap handler of \<open>esp_hal\<close> keeps the registers of what it interrupts in a trap frame, which
  \<open>sched\<close> exchanges with that of the next thread.  Of the frame only the fields that \<open>setup_stack\<close>
  writes have names here.  The scheduler is the one of a single core.
\<close>

record 'r trap_frame =
  f_pc :: "32 word"
  f_ps :: "32 word"
  f_a1 :: "32 word"
  f_a4 :: "32 word"
  f_a6 :: "32 word"
  f_rest :: 'r

record 'r xtensa =
  xsched :: scheduler
  xdata :: "'r trap_frame list"    \<comment> \<open>the field \<open>data\<close> of each thread\<close>

definition xtensa_setup_stack ::
    "32 word \<Rightarrow> thread \<Rightarrow> 'r trap_frame \<Rightarrow> memory \<Rightarrow> 32 word \<Rightarrow> 32 word \<Rightarrow> 32 word \<Rightarrow> 32 word option \<Rightarrow>
     thread \<times> 'r trap_frame \<times> memory" where
  "xtensa_setup_stack cleanup_fn th d m stack_start stack_len func arg =
     (let task_stack_ptr = stack_start + stack_len;
          stack_pos = task_stack_ptr - task_stack_ptr mod 0x10;
          d = d\<lparr>f_a1 := stack_pos, f_a6 := (case arg of None \<Rightarrow> 0 | Some a \<Rightarrow> a), f_a4 := cleanup_fn, f_pc := func,
                f_ps := 0x00040000 OR push_bit 16 (1 AND 3)\<rparr>;
          th = th\<lparr>t_stack_lowest := stack_start, t_stack_highest := stack_pos\<rparr>
      in (th, d, stack_paint_init stack_start stack_pos m))"

text \<open>One round of the loop of \<open>sched\<close>; \<open>None\<close> when no thread is ready.\<close>

definition xtensa_round ::
    "'r trap_frame \<Rightarrow> 'r xtensa \<Rightarrow> panic + ('r trap_frame \<times> 'r xtensa) option" where
  "xtensa_round frame st =
     (let s = xsched st
      in bnd (rq_get_next (runq s)) (\<lambda>n.
           case n of
             None \<Rightarrow> Inr None
           | Some next_tid \<Rightarrow>
               if current_thread s = Some next_tid then Inr (Some (frame, st))
               else
                 bnd (case current_thread s of None \<Rightarrow> Inr (xdata st) | Some c \<Rightarrow> upd (xdata st) c frame) (\<lambda>data.
                 bnd (idx data next_tid) (\<lambda>next_frame.
                   Inr (Some (next_frame, \<lparr>xsched = s\<lparr>current_thread := Some next_tid\<rparr>, xdata = data\<rparr>))))))"

text \<open>Between two rounds the core waits for an interrupt; \<open>env\<close> is what the interrupts do.\<close>

partial_function (option) xtensa_sched ::
    "('r xtensa \<Rightarrow> 'r xtensa) \<Rightarrow> 'r trap_frame \<Rightarrow> 'r xtensa \<Rightarrow> (panic + 'r trap_frame \<times> 'r xtensa) option" where
  "xtensa_sched env frame st =
     (case xtensa_round frame st of
        Inl e \<Rightarrow> Some (Inl e)
      | Inr (Some r) \<Rightarrow> Some (Inr r)
      | Inr None \<Rightarrow> xtensa_sched env frame (env st))"

definition from_cpu_intr0 ::
    "('r xtensa \<Rightarrow> 'r xtensa) \<Rightarrow> 'r trap_frame \<Rightarrow> 'r xtensa \<Rightarrow> (panic + 'r trap_frame \<times> 'r xtensa) option" where
  "from_cpu_intr0 env frame st = xtensa_sched env frame (st\<lparr>xsched := (xsched st)\<lparr>pending := False\<rparr>\<rparr>)"

subsection \<open>Context switches\<close>

lemma xtensa_sched_waits:
  assumes "\<And>i. i < k \<Longrightarrow> xtensa_round frame ((env ^^ i) st) = Inr None"
  shows "xtensa_sched env frame st = xtensa_sched env frame ((env ^^ k) st)"
  using assms
proof (induction k)
  case (Suc k)
  have "xtensa_sched env frame ((env ^^ k) st) = xtensa_sched env frame ((env ^^ Suc k) st)"
    using Suc.prems[of k] by (subst xtensa_sched.simps) simp
  then show ?case using Suc by simp
qed simp

text \<open>\<open>sched\<close> returns as soon as some thread is ready, and only then.\<close>

lemma xtensa_sched_returns:
  assumes "\<And>i. i < k \<Longrightarrow> xtensa_round frame ((env ^^ i) st) = Inr None" "xtensa_round frame ((env ^^ k) st) = Inr (Some r)"
  shows "xtensa_sched env frame st = Some (Inr r)"
proof -
  have "xtensa_sched env frame st = xtensa_sched env frame ((env ^^ k) st)"
    by (rule xtensa_sched_waits[OF assms(1)])
  also have "\<dots> = Some (Inr r)" by (subst xtensa_sched.simps) (simp add: assms(2))
  finally show ?thesis .
qed

lemma xtensa_sched_Some:
  assumes "xtensa_sched env frame st = Some (Inr r)"
  shows "\<exists>k. xtensa_round frame ((env ^^ k) st) = Inr (Some r)"
proof -
  have "x = Inr r \<longrightarrow> (\<exists>k. xtensa_round frame ((env ^^ k) st) = Inr (Some r))" if "xtensa_sched env frame st = Some x" for x
  proof (rule xtensa_sched.raw_induct[OF _ that, where P = "\<lambda>env frame st x. x = Inr r \<longrightarrow>
        (\<exists>k. xtensa_round frame ((env ^^ k) st) = Inr (Some r))"], rule impI)
    fix f env frame st x
    assume IH: "\<And>env frame st x. f env frame st = Some x \<Longrightarrow>
          x = Inr r \<longrightarrow> (\<exists>k. xtensa_round frame ((env ^^ k) st) = Inr (Some r))"
      and body: "(case xtensa_round frame st of Inl e \<Rightarrow> Some (Inl e) | Inr None \<Rightarrow> f env frame (env st)
                  | Inr (Some r) \<Rightarrow> Some (Inr r)) = Some x" and x: "x = Inr r"
    show "\<exists>k. xtensa_round frame ((env ^^ k) st) = Inr (Some r)"
    proof (cases "xtensa_round frame st = Inr None")
      case True
      then have "f env frame (env st) = Some x" using body by simp
      then obtain k where "xtensa_round frame ((env ^^ k) (env st)) = Inr (Some r)" using IH x by blast
      then have "xtensa_round frame ((env ^^ Suc k) st) = Inr (Some r)" by (simp add: funpow_swap1)
      then show ?thesis by blast
    next
      case False
      then have "xtensa_round frame ((env ^^ 0) st) = Inr (Some r)" using body x by (auto split: sum.splits option.splits)
      then show ?thesis by blast
    qed
  qed
  then show ?thesis using assms by blast
qed

text \<open>The two kinds of rounds that end the loop.\<close>

lemma xtensa_round_cases:
  assumes "xtensa_round f st = Inr (Some (f', st'))"
  obtains (stay) "f' = f" "st' = st" "current_thread (xsched st) \<noteq> None"
  | (switch) n where "current_thread (xsched st) \<noteq> Some n" "current_thread (xsched st') = Some n"
      "xsched st' = (xsched st)\<lparr>current_thread := Some n\<rparr>" "f' = xdata st ! n" "length (xdata st') = length (xdata st)"
      "\<And>c. current_thread (xsched st) = Some c \<Longrightarrow> c < length (xdata st) \<and> xdata st' ! c = f"
      "\<And>t. current_thread (xsched st) \<noteq> Some t \<Longrightarrow> xdata st' ! t = xdata st ! t"
proof -
  obtain n where n: "rq_get_next (runq (xsched st)) = Inr (Some n)"
    using assms by (auto simp: xtensa_round_def Let_def panic_simps split: option.splits)
  show ?thesis
  proof (cases "current_thread (xsched st) = Some n")
    case True
    then show ?thesis using assms n that(1) by (auto simp: xtensa_round_def Let_def)
  next
    case False
    show ?thesis
      by (rule that(2)[of n]) (use assms n False in \<open>auto simp: xtensa_round_def Let_def panic_simps split: option.splits\<close>)
  qed
qed

text \<open>
  What runs while a thread does not: another thread, or interrupts in the loop, which keep the frames of
  live threads, and the handler.
\<close>

definition keeps :: "'r xtensa \<Rightarrow> 'r xtensa \<Rightarrow> bool" where
  "keeps st st' \<longleftrightarrow>
     current_thread (xsched st') = current_thread (xsched st) \<and>
     (\<forall>t<thread_count. t_state (th_of (xsched st) t) \<noteq> Invalid \<longrightarrow>
          t_state (th_of (xsched st') t) \<noteq> Invalid \<and> xdata st' ! t = xdata st ! t)"

inductive xtensa_step :: "'r trap_frame \<times> 'r xtensa \<Rightarrow> 'r trap_frame \<times> 'r xtensa \<Rightarrow> bool" where
  execute: "current_thread (xsched st') = current_thread (xsched st) \<Longrightarrow>
    (\<And>t. t < thread_count \<Longrightarrow> current_thread (xsched st) \<noteq> Some t \<Longrightarrow> t_state (th_of (xsched st) t) \<noteq> Invalid \<Longrightarrow>
       t_state (th_of (xsched st') t) \<noteq> Invalid \<and> xdata st' ! t = xdata st ! t) \<Longrightarrow>
    xtensa_step (f, st) (f', st')"
| handler: "(\<And>x. keeps x (env x)) \<Longrightarrow> from_cpu_intr0 env f st = Some (Inr (f', st')) \<Longrightarrow>
    xtensa_step (f, st) (f', st')"

definition xtensa_away :: "nat \<Rightarrow> 'r trap_frame \<times> 'r xtensa \<Rightarrow> 'r trap_frame \<times> 'r xtensa \<Rightarrow> bool" where
  "xtensa_away c x y \<longleftrightarrow> xtensa_step x y \<and> current_thread (xsched (snd y)) \<noteq> Some c"

definition frame_kept :: "nat \<Rightarrow> 'r trap_frame \<Rightarrow> 'r xtensa \<Rightarrow> bool" where
  "frame_kept c f st \<longleftrightarrow>
     t_state (th_of (xsched st) c) \<noteq> Invalid \<and> current_thread (xsched st) \<noteq> Some c \<and> xdata st ! c = f"

lemma keeps_trans: "keeps x y \<Longrightarrow> keeps y z \<Longrightarrow> keeps x z"
  by (simp add: keeps_def)

lemma keeps_funpow: "(\<And>x. keeps x (env x)) \<Longrightarrow> keeps st ((env ^^ k) st)"
  by (induction k) (auto intro: keeps_trans simp: keeps_def[of st st])

lemma handler_round:
  assumes "\<And>x. keeps x (env x)" "from_cpu_intr0 env f st = Some (Inr (f', st'))"
  obtains st0 where "keeps st st0" "xtensa_round f st0 = Inr (Some (f', st'))"
proof -
  let ?st = "st\<lparr>xsched := (xsched st)\<lparr>pending := False\<rparr>\<rparr>"
  obtain k where "xtensa_round f ((env ^^ k) ?st) = Inr (Some (f', st'))"
    using xtensa_sched_Some[OF assms(2)[unfolded from_cpu_intr0_def]] by blast
  moreover have "keeps st ?st" by (simp add: keeps_def)
  ultimately show ?thesis using that keeps_trans keeps_funpow[OF assms(1)] by blast
qed

lemma xtensa_away_kept:
  assumes "xtensa_away c x y" "frame_kept c f (snd x)" "c < thread_count"
  shows "frame_kept c f (snd y)"
proof -
  from assms(1) have "xtensa_step x y" "current_thread (xsched (snd y)) \<noteq> Some c" by (simp_all add: xtensa_away_def)
  then show ?thesis
  proof cases
    case (handler env g st g' st')
    obtain st0 where st0: "keeps st st0" "xtensa_round g st0 = Inr (Some (g', st'))"
      by (rule handler_round[OF handler(3,4)])
    have kept: "frame_kept c f st0" using st0(1) assms(2,3) by (simp add: frame_kept_def keeps_def handler(1))
    show ?thesis
      using st0(2)
    proof (cases rule: xtensa_round_cases)
      case (switch n)
      then show ?thesis using kept \<open>current_thread (xsched (snd y)) \<noteq> Some c\<close> by (auto simp: frame_kept_def handler(2))
    qed (use kept in \<open>simp add: handler(2)\<close>)
  qed (use assms in \<open>auto simp: frame_kept_def xtensa_away_def\<close>)
qed

text \<open>
  Context switches on Xtensa are transparent: a live thread that is preempted gets back the trap frame it
  was interrupted with, after any run of other threads and interrupts.
\<close>

theorem xtensa_context_survives:
  assumes c: "current_thread (xsched st) = Some c" "t_state (th_of (xsched st) c) \<noteq> Invalid" "c < thread_count"
    and env: "\<And>x. keeps x (env x)" "\<And>x. keeps x (env' x)"
    and sw: "from_cpu_intr0 env f st = Some (Inr (f1, st1))" "current_thread (xsched st1) \<noteq> Some c"
    and away: "(xtensa_away c)\<^sup>*\<^sup>* (f1, st1) (f2, st2)"
    and ret: "from_cpu_intr0 env' f2 st2 = Some (Inr (f3, st3))" "current_thread (xsched st3) = Some c"
  shows "f3 = f"
proof -
  obtain st0 where st0: "keeps st st0" "xtensa_round f st0 = Inr (Some (f1, st1))"
    by (rule handler_round[OF env(1) sw(1)])
  from st0(2) have "frame_kept c f st1"
    by (cases rule: xtensa_round_cases) (use st0(1) c sw(2) in \<open>auto simp: frame_kept_def keeps_def\<close>)
  then have "frame_kept c f (snd (f1, st1))" by simp
  with away have kept: "frame_kept c f (snd (f2, st2))"
    by (induction rule: rtranclp_induct) (auto intro: xtensa_away_kept[OF _ _ c(3)])
  obtain st4 where st4: "keeps st2 st4" "xtensa_round f2 st4 = Inr (Some (f3, st3))"
    by (rule handler_round[OF env(2) ret(1)])
  from st4(2) show ?thesis
    by (cases rule: xtensa_round_cases) (use st4(1) kept ret(2) c(3) in \<open>auto simp: frame_kept_def keeps_def\<close>)
qed

text \<open>
  A new thread that is switched to starts with the frame \<open>setup_stack\<close> wrote: at its function, with its
  argument in the register that is the first one after the window is shifted, on an empty stack that is
  aligned to 16 bytes.
\<close>

lemma xtensa_thread_starts:
  assumes "xtensa_setup_stack cleanup_fn th d m start len func arg = (th', d', m')"
    and "xdata st ! t = d'" "t < length (xdata st)" "rq_get_next (runq (xsched st)) = Inr (Some t)" "current_thread (xsched st) = None"
    and "unat start + unat len < 4294967296"
  shows "\<exists>st'. xtensa_round f st = Inr (Some (d', st')) \<and> current_thread (xsched st') = Some t"
    and "f_pc d' = func" "f_a4 d' = cleanup_fn" "f_a6 d' = (case arg of None \<Rightarrow> 0 | Some a \<Rightarrow> a)" "f_ps d' = 0x50000"
    and "16 dvd unat (f_a1 d')" "unat (f_a1 d') \<le> unat start + unat len" "unat start + unat len < unat (f_a1 d') + 16"
proof -
  show "\<exists>st'. xtensa_round f st = Inr (Some (d', st')) \<and> current_thread (xsched st') = Some t"
    using assms(2-5) by (simp add: xtensa_round_def Let_def)
  show "f_pc d' = func" "f_a4 d' = cleanup_fn" "f_a6 d' = (case arg of None \<Rightarrow> 0 | Some a \<Rightarrow> a)" "f_ps d' = 0x50000"
    using assms(1) by (auto simp: xtensa_setup_stack_def Let_def)
  let ?p = "start + len"
  have p: "unat ?p = unat start + unat len" using assms(6) by (simp add: unat_word_ariths)
  have "f_a1 d' = ?p - ?p mod 0x10" using assms(1) by (auto simp: xtensa_setup_stack_def Let_def)
  then have "unat (f_a1 d') = unat ?p - unat ?p mod 16"
    by (simp add: unat_sub word_le_nat_alt unat_mod)
  then show "16 dvd unat (f_a1 d')" "unat (f_a1 d') \<le> unat start + unat len" "unat start + unat len < unat (f_a1 d') + 16"
    unfolding p by (simp_all add: minus_mod_eq_mult_div)
qed

subsection \<open>A slot that is used again too early\<close>

text \<open>
  A thread that has ended stays the current one until the next switch.  When an interrupt creates a thread
  before that and it gets the slot, \<open>sched\<close> takes it for the thread that is running already: the ended
  thread goes on in \<open>cleanup\<close>, at its \<open>unreachable!()\<close>, and the stack of the new thread is never used.
\<close>

lemma reused_slot_first:
  assumes inv: "sched_inv s Q" and free: "free_slot s = Some c" and p: "p < sched_prio_levels"
    and top: "\<And>j. j < sched_prio_levels \<Longrightarrow> p \<le> j \<Longrightarrow> Q j = []"
    and new: "create_raw cl s f a start len p = Inr (s', t)"
  shows "t = c \<and> rq_get_next (runq s') = Inr (Some c) \<and> current_thread s' = current_thread s"
proof -
  obtain th where s': "sched_inv s' (Q(p := Q p @ [c]))" "t = c" "current_thread s' = current_thread s"
    using create_raw_ok[OF inv free p, of cl f a start len] new by auto
  have "first_ready sched_prio_levels (Q(p := Q p @ [c])) = Some c"
    using top p by (intro first_readyI[of p _ _ _ "[]"]) auto
  moreover have "rq_get_next (runq s') = Inr (first_ready sched_prio_levels (Q(p := Q p @ [c])))"
    by (rule rq_get_next_spec[OF sched_invD(1)[OF s'(1)]])
  ultimately show ?thesis using s'(2,3) by simp
qed

lemma reused_slot_keeps_dead_frame:
  assumes "sched_inv s Q" "free_slot s = Some c" "p < sched_prio_levels" "\<And>j. j < sched_prio_levels \<Longrightarrow> p \<le> j \<Longrightarrow> Q j = []"
    and "create_raw cl s f a start len p = Inr (s', t)" "current_thread s = Some c"
  shows "xtensa_round frame \<lparr>xsched = s', xdata = data\<rparr> = Inr (Some (frame, \<lparr>xsched = s', xdata = data\<rparr>))"
    and "pend_sv s' = Inr (Some (s'\<lparr>pending := False\<rparr>))"
  using reused_slot_first[OF assms(1-5)] assms(6)
  by (simp_all add: xtensa_round_def Let_def pend_sv_def sched_def)

end
