(* ===== verification/Esp32s3.thy ===== *)
theory Esp32s3
  imports Prelude
begin

unbundle bit_operations_syntax

section \<open>Triggering the scheduler on the ESP32-S3 (\<open>smp/esp32s3.rs\<close>, \<open>smp/mod.rs\<close>)\<close>

text \<open>
  The two cores are asked to switch threads by the software interrupts 0 and 1.  These and the interrupt
  controller are of \<open>esp_hal\<close>: a record of functions on the state \<open>'p\<close> of the peripherals, with what its
  documentation says as the predicate \<open>swi_ok\<close>.  A core number is the byte of a \<open>CoreId\<close>.
\<close>

record 'p swi =
  swi_is_set :: "nat \<Rightarrow> 'p \<Rightarrow> bool option"    \<comment> \<open>\<open>SYSTEM::cpu_intr_from_cpu(n)\<close>; \<open>None\<close>: no such register\<close>
  swi_raise :: "nat \<Rightarrow> 'p \<Rightarrow> 'p"
  swi_reset :: "nat \<Rightarrow> 'p \<Rightarrow> 'p"
  swi_disable :: "nat \<Rightarrow> 'p \<Rightarrow> 'p"          \<comment> \<open>\<open>interrupt::disable\<close>, with the number of the software interrupt\<close>
  swi_enable :: "nat \<Rightarrow> 'p \<Rightarrow> 'p option"    \<comment> \<open>\<open>interrupt::enable\<close>; \<open>None\<close>: the interrupt is a reserved one\<close>

definition swi_ok :: "'p swi \<Rightarrow> bool" where
  "swi_ok h \<longleftrightarrow>
     (\<forall>n st. (swi_is_set h n st \<noteq> None) = (n < 4)) \<and>
     (\<forall>n k st. n < 4 \<longrightarrow> k < 4 \<longrightarrow>
        swi_is_set h k (swi_raise h n st) = (if k = n then Some True else swi_is_set h k st) \<and>
        swi_is_set h k (swi_reset h n st) = (if k = n then Some False else swi_is_set h k st) \<and>
        swi_is_set h k (swi_disable h n st) = swi_is_set h k st \<and>
        (\<exists>st'. swi_enable h n st = Some st' \<and> swi_is_set h k st' = swi_is_set h k st))"

datatype esp_cpu = ProCpu | AppCpu

fun core_of_cpu :: "esp_cpu \<Rightarrow> 8 word" where
  "core_of_cpu ProCpu = 0"
| "core_of_cpu AppCpu = 1"

definition esp_schedule_on_core :: "'p swi \<Rightarrow> 8 word \<Rightarrow> 'p \<Rightarrow> panic + 'p" where
  "esp_schedule_on_core h core st =
     (case swi_is_set h (unat core) st of
        None \<Rightarrow> Inl IndexOutOfBounds
      | Some already_set \<Rightarrow>
          let core = (if already_set then core XOR 1 else core)
          in if core = 0 then Inr (swi_reset h 0 st)
             else if core = 1 then Inr (swi_reset h 1 st)
             else Inl UnreachableCode)"

text \<open>\<open>Cpu::schedule\<close> of \<open>arch/xtensa.rs\<close>, without and with the feature \<open>multi-core\<close>.\<close>

definition xtensa_schedule :: "'p swi \<Rightarrow> bool \<Rightarrow> esp_cpu \<Rightarrow> 'p \<Rightarrow> panic + 'p" where
  "xtensa_schedule h multi_core cpu st =
     (if multi_core then esp_schedule_on_core h (core_of_cpu cpu) st else Inr (swi_raise h 0 st))"

text \<open>
  The first trigger of each core.  The result says whether its scheduler's interrupt is pending and enabled
  at the end, in which case \<open>sched\<close> runs and this code is never returned to.
\<close>

definition xtensa_start_threading :: "'p swi \<Rightarrow> bool \<Rightarrow> 'p \<Rightarrow> panic + bool \<times> 'p" where
  "xtensa_start_threading h multi_core st =
     bnd (xtensa_schedule h multi_core ProCpu (swi_disable h 0 st)) (\<lambda>st.
     case swi_enable h 0 st of
       None \<Rightarrow> Inl UnwrapNone
     | Some st \<Rightarrow> Inr (swi_is_set h 0 st = Some True, st))"

definition esp_start_app_core :: "'p swi \<Rightarrow> 'p \<Rightarrow> panic + 'p" where
  "esp_start_app_core h st =
     bnd (esp_schedule_on_core h (core_of_cpu AppCpu) (swi_disable h 1 st)) (\<lambda>st.
     case swi_enable h 1 st of
       None \<Rightarrow> Inl UnwrapNone
     | Some st \<Rightarrow> if swi_is_set h 1 st = Some True then Inr st else Inl UnreachableCode)"

text \<open>Any calls of \<open>schedule_on_core\<close>, from both cores in any order.\<close>

fun esp_schedules :: "'p swi \<Rightarrow> 8 word list \<Rightarrow> 'p \<Rightarrow> panic + 'p" where
  "esp_schedules h [] st = Inr st"
| "esp_schedules h (core # cores) st = bnd (esp_schedule_on_core h core st) (esp_schedules h cores)"

lemma swi_okD:
  assumes "swi_ok h" "n < 4" "k < 4"
  shows "swi_is_set h k (swi_raise h n st) = (if k = n then Some True else swi_is_set h k st)"
    and "swi_is_set h k (swi_reset h n st) = (if k = n then Some False else swi_is_set h k st)"
    and "swi_is_set h k (swi_disable h n st) = swi_is_set h k st"
  using assms by (simp_all add: swi_ok_def)

lemma swi_enableD:
  assumes "swi_ok h" "n < 4"
  obtains st' where "swi_enable h n st = Some st'" "swi_is_set h n st' = swi_is_set h n st"
  using assms unfolding swi_ok_def by (metis (no_types, lifting))

text \<open>No software interrupt of the scheduler is pending.\<close>

definition idle_swi :: "'p swi \<Rightarrow> 'p \<Rightarrow> bool" where
  "idle_swi h st \<longleftrightarrow> swi_is_set h 0 st = Some False \<and> swi_is_set h 1 st = Some False"

lemma idle_disable: "swi_ok h \<Longrightarrow> n < 4 \<Longrightarrow> idle_swi h st \<Longrightarrow> idle_swi h (swi_disable h n st)"
  by (simp add: idle_swi_def swi_okD)

lemma esp_schedule_idle:
  assumes "swi_ok h" "idle_swi h st" "core < 2"
  shows "\<exists>st'. esp_schedule_on_core h core st = Inr st' \<and> idle_swi h st'"
proof -
  have "unat core = unat (0 :: 8 word) \<or> unat core = unat (1 :: 8 word)"
    using assms(3) by (auto simp: word_less_nat_alt)
  then have "core = 0 \<or> core = 1" by (simp only: word_unat_eq_iff)
  then show ?thesis using assms(1,2)
    by (auto simp: esp_schedule_on_core_def idle_swi_def swi_okD)
qed

lemma esp_schedules_idle:
  assumes "swi_ok h" "idle_swi h st" "list_all (\<lambda>core. core < 2) cores"
  shows "\<exists>st'. esp_schedules h cores st = Inr st' \<and> idle_swi h st'"
  using assms(2,3)
proof (induction cores arbitrary: st)
  case (Cons core cores)
  obtain st' where "esp_schedule_on_core h core st = Inr st'" "idle_swi h st'"
    using esp_schedule_idle[OF assms(1) Cons.prems(1), of core] Cons.prems(2) by auto
  then show ?case using Cons.IH[of st'] Cons.prems(2) by simp
qed simp

text \<open>With one core, \<open>schedule\<close> raises the interrupt and the first thread is switched to.\<close>

lemma xtensa_single_core_starts:
  assumes "swi_ok h"
  shows "\<exists>st'. xtensa_start_threading h False st = Inr (True, st')"
proof -
  obtain st' where "swi_enable h 0 (swi_raise h 0 (swi_disable h 0 st)) = Some st'"
    "swi_is_set h 0 st' = swi_is_set h 0 (swi_raise h 0 (swi_disable h 0 st))"
    by (rule swi_enableD[OF assms, of 0]) auto
  then show ?thesis using assms by (simp add: xtensa_start_threading_def xtensa_schedule_def swi_okD)
qed

text \<open>
  C37: On the ESP32-S3, \<open>schedule_on_core\<close> resets the software interrupt of the core where it means to raise
  it.  From the start, when none is pending, no sequence of calls on any cores makes one pending; so
  \<open>start_threading\<close> returns on the first core without a switch to any thread, and the closure that starts
  the second core reaches its \<open>unreachable!()\<close>.
\<close>

theorem esp32s3_never_triggered:
  assumes h: "swi_ok h" and idle: "idle_swi h st" and cores: "list_all (\<lambda>core. core < 2) cores"
  shows "\<exists>st'. esp_schedules h cores st = Inr st' \<and> idle_swi h st' \<and>
           (\<exists>st''. xtensa_start_threading h True st' = Inr (False, st'')) \<and>
           esp_start_app_core h st' = Inl UnreachableCode"
proof -
  obtain st' where st': "esp_schedules h cores st = Inr st'" "idle_swi h st'"
    using esp_schedules_idle[OF assms] by blast
  have first: "\<exists>st''. xtensa_start_threading h True st' = Inr (False, st'')"
  proof -
    obtain st1 where st1: "esp_schedule_on_core h 0 (swi_disable h 0 st') = Inr st1" "idle_swi h st1"
      using esp_schedule_idle[OF h idle_disable[OF h _ st'(2)], of 0 0] by auto
    obtain st2 where "swi_enable h 0 st1 = Some st2" "swi_is_set h 0 st2 = swi_is_set h 0 st1"
      by (rule swi_enableD[OF h, of 0]) auto
    then show ?thesis using st1 by (simp add: xtensa_start_threading_def xtensa_schedule_def idle_swi_def)
  qed
  have "esp_start_app_core h st' = Inl UnreachableCode"
  proof -
    obtain st1 where st1: "esp_schedule_on_core h 1 (swi_disable h 1 st') = Inr st1" "idle_swi h st1"
      using esp_schedule_idle[OF h idle_disable[OF h _ st'(2)], of 1 1] by auto
    obtain st2 where "swi_enable h 1 st1 = Some st2" "swi_is_set h 1 st2 = swi_is_set h 1 st1"
      by (rule swi_enableD[OF h, of 1]) auto
    then show ?thesis using st1 by (simp add: esp_start_app_core_def idle_swi_def)
  qed
  with st' first show ?thesis by blast
qed

text \<open>A platform whose state is the set of the pending interrupts.\<close>

definition example_swi :: "(nat \<Rightarrow> bool) swi" where
  "example_swi = \<lparr>swi_is_set = \<lambda>n s. if n < 4 then Some (s n) else None, swi_raise = \<lambda>n s. s(n := True),
     swi_reset = \<lambda>n s. s(n := False), swi_disable = \<lambda>n s. s, swi_enable = \<lambda>n s. Some s\<rparr>"

lemma example_swi_ok: "swi_ok example_swi" "idle_swi example_swi (\<lambda>n. False)"
  by (auto simp: swi_ok_def example_swi_def idle_swi_def)

theorem esp32s3_never_triggered_witness:
  "swi_ok example_swi \<and> idle_swi example_swi (\<lambda>n. False) \<and>
   (\<exists>st'. esp_schedules example_swi [0, 1, 1, 0] (\<lambda>n. False) = Inr st' \<and> idle_swi example_swi st' \<and>
      (\<exists>st''. xtensa_start_threading example_swi True st' = Inr (False, st'')) \<and>
      esp_start_app_core example_swi st' = Inl UnreachableCode)"
  using esp32s3_never_triggered[OF example_swi_ok, of "[0, 1, 1, 0]"] example_swi_ok by simp

subsection \<open>The stack limits of the second core\<close>

text \<open>
  Two atomics, which one core writes while the other may read them: a reader that sees \<open>i\<close> of the two
  stores when it loads \<open>highest\<close> sees some \<open>j \<ge> i\<close> of them when it loads \<open>lowest\<close>.
\<close>

record core1_limits =
  stack_bottom_core1 :: nat
  stack_top_core1 :: nat

definition isr_stack_core1_set_limits :: "nat \<times> nat \<Rightarrow> (core1_limits \<Rightarrow> core1_limits) list" where
  "isr_stack_core1_set_limits limits =
     (case limits of (lowest, highest) \<Rightarrow>
        [\<lambda>m. m\<lparr>stack_bottom_core1 := lowest\<rparr>, \<lambda>m. m\<lparr>stack_top_core1 := highest\<rparr>])"

definition isr_stack_core1_get_limits :: "core1_limits \<Rightarrow> core1_limits \<Rightarrow> nat \<times> nat" where
  "isr_stack_core1_get_limits m m' = (let highest = stack_top_core1 m; lowest = stack_bottom_core1 m' in (lowest, highest))"

definition stores_seen :: "nat \<Rightarrow> (core1_limits \<Rightarrow> core1_limits) list \<Rightarrow> core1_limits" where
  "stores_seen i ops = fold (\<lambda>f m. f m) (take i ops) \<lparr>stack_bottom_core1 = 0, stack_top_core1 = 0\<rparr>"

definition esp_limits :: "nat \<Rightarrow> nat \<Rightarrow> nat \<times> nat" where
  "esp_limits mem_ptr len = (mem_ptr, mem_ptr + len)"

text \<open>
  The reader gets the limits of the stack, or a pair that holds no address; but before the limits are set
  that is \<open>(0, 0)\<close>, not the \<open>lowest > highest\<close> that the comment in the code promises.
\<close>

lemma core1_limits_consistent:
  assumes "i \<le> j" and limits: "isr_stack_core1_get_limits (stores_seen i ops) (stores_seen j ops) = (l, h)"
    and ops: "ops = isr_stack_core1_set_limits (esp_limits ptr len)"
  shows "(l, h) = (ptr, ptr + len) \<or> (\<forall>a. \<not> (l \<le> a \<and> a < h))"
proof -
  have "i = 0 \<or> i = 1 \<or> i \<ge> 2" by auto
  then show ?thesis using limits \<open>i \<le> j\<close>
    by (elim disjE) (auto simp: ops isr_stack_core1_get_limits_def stores_seen_def isr_stack_core1_set_limits_def
        esp_limits_def Let_def take_Cons' split: if_splits)
qed

lemma core1_limits_unset:
  "isr_stack_core1_get_limits (stores_seen 0 ops) (stores_seen 0 ops) = (0, 0)"
  by (simp add: isr_stack_core1_get_limits_def stores_seen_def)

end
