(* ===== verification/Spec2Isabelle.thy ===== *)
theory Spec2Isabelle
  imports Kernel SmpRaces ThreadStack ThreadFlags Locks Mutex Channel Timeout RingBuffer
    EspSemaphore EspTimer OrderedPool ConnIds Scope StoredPolicy GnssDriver MacAddress Book
    EditorConfig NativeThreads Blocker Delegate UdpSocket Randomness ExtInt Tunables Macros
    RiscV Xtensa Esp32s3
begin

text \<open>
  Ariel OS, a Rust operating system for microcontrollers: its preemptive threading core, the
  containers that core and the drivers use, its CoAP security library \<open>coapcore\<close> with the policy of a
  device, persistent storage, the sensors, the macros applications are written with, and the tools
  beside it: the generator of the hardware pages of its book and the editor script.  All paths below are under
  \<open>src/\<close> of the repository, or at its top (\<open>doc/\<close>, \<open>scripts/\<close>).

  \<^bold>\<open>The program.\<close>  The scheduler (\<open>ariel-os-threads\<close>) keeps a table of 16 threads, a run queue of
  16 priorities (\<open>ariel-os-runqueue\<close>) and the current thread.  Every operation runs in a critical
  section and at most requests a context switch, which the PendSV exception of the Cortex-M carries
  out later; on RISC-V and Xtensa a software interrupt does.  Synchronisation objects (\<open>sync/\<close>) block the current thread by linking it into a
  \<open>ThreadList\<close> through the scheduler's block list and changing its state, and wake threads by
  popping them.  Timeouts attach a deadline to a thread which a timer callback turns into a
  wake-up.  The other parts do not depend on the scheduler: they are called from drivers and
  servers.  In front of a CoAP server, \<open>coapcore\<close> keeps a pool of security contexts; it recognises
  EDHOC messages, tokens and OSCORE requests by their options and passes on to the inner handler
  what some authorization covers.  On a host system each thread is a thread of the host, and there is no
  run queue.  Asynchronous tasks run in executors, one of which can be a thread; threads can also wait for a
  future themselves.  Who may do what on a device is listed in a file that the build compiles in; the
  device's own key is in persistent storage.

  \<^bold>\<open>Conventions.\<close>  The profile is the release profile: arithmetic wraps and \<open>debug_assert!\<close> is
  compiled out.  A call that may panic has a result \<open>panic + 'a\<close>; \<open>bnd\<close> sequences such calls.
  A loop that might not end is a \<open>partial_function (option)\<close>, whose value \<open>None\<close> is a call that
  never returns, and the properties state that the value is \<open>Some\<close>.  No fuel is used.  \<open>usize\<close> is 32
  bits wide.  Thread and queue numbers (\<open>u8\<close> newtypes) are natural numbers, always compared with
  the array they index; the counters of the ring buffer, flags, registers, addresses and the bit
  cache are words of their width.

  \<^bold>\<open>Theories.\<close>

  \<^item> \<open>Prelude\<close>: panics, sequencing, checked indexing, word facts.
  \<^item> \<open>Clist\<close>, \<open>RunQueue\<close>: \<open>ariel-os-runqueue/src/runqueue.rs\<close>.  \<open>clist_rep\<close> relates the circular
    linked lists to lists of threads, \<open>rq_rep\<close> the bit cache to the non-empty queues.  Each
    operation is shown to implement its list counterpart.  The locale \<open>ready_queue\<close> states the laws a
    scheduler needs and is interpreted on the run queue.
  \<^item> \<open>RingBuffer\<close>: \<open>lib/rbi\<close> and \<open>lib/ringbuffer\<close>, the 8-bit index and the buffer over it; locale
    \<open>bounded_fifo\<close> and its interpretation.
  \<^item> \<open>Stack\<close>, \<open>ThreadStack\<close>: stack bounds, painting and measuring (\<open>ariel-os-rt/src/stack.rs\<close>,
    \<open>thread.rs\<close>) and the initial stack of a thread (\<open>arch/cortex_m.rs\<close>), over a byte-addressed
    memory.
  \<^item> \<open>Scheduler\<close>: the state and the operations of \<open>ariel-os-threads/src/lib.rs\<close> for one core, and
    \<open>sched\<close> and PendSV of \<open>arch/cortex_m.rs\<close>; the invariant \<open>sched_inv\<close>.  \<open>SchedulerSpec\<close>: what
    each operation does to it.  \<open>Kernel\<close>: the step relation \<open>kstep\<close> of the whole single-core system,
    reachability from boot, and the scheduling properties.
  \<^item> \<open>Smp\<close>: the multi-core and core-affinity branches of the same files, \<open>core_affinity.rs\<close>, the
    triggers of \<open>smp/rp.rs\<close> and the start-up of the threads, for two Cortex-M cores.  Operations are
    atomic, as a critical section excludes the other core; moving the registers after \<open>sched\<close> is a step
    of its own.  \<open>SmpInvariant\<close>: the events of both cores in any order (\<open>smp_reach\<close>), the orderly runs
    (\<open>smp_orderly\<close>), in which no thread is made ready that is still current somewhere, and their
    invariant \<open>smp_inv\<close>.  \<open>SmpSwitch\<close>: creation, start-up and the scheduler keep it.  \<open>SmpRaces\<close>: the
    properties, and evaluated runs in which the cores race.
  \<^item> \<open>NativeThreads\<close>: the \<open>infini-core\<close> branches, \<open>arch/native.rs\<close> and the critical section below it, as a
    step relation of host threads.  Whether \<open>atomic_wait\<close> returns without a wake, and whether slots of
    ended threads are used again, are parameters of \<open>native_reach\<close>.
  \<^item> \<open>RiscV\<close>: \<open>arch/riscv.rs\<close>; the assembly \<open>sys_switch\<close> is a list of instructions, which \<open>exec\<close> executes
    on the registers and the memory of a hart.  \<open>Xtensa\<close>: \<open>arch/xtensa.rs\<close> with one core, where the handler
    exchanges trap frames.  \<open>Esp32s3\<close>: \<open>smp/esp32s3.rs\<close> and the stack limits of \<open>smp/mod.rs\<close>; the software
    interrupts have the contract \<open>swi_ok\<close>.
  \<^item> \<open>ThreadFlags\<close>: \<open>thread_flags.rs\<close>.  \<open>Blocker\<close>: \<open>blocker.rs\<close> and \<open>thread_executor.rs\<close> of
    \<open>ariel-os-embassy\<close>, which wait for a flag between two polls; futures are parameters.
  \<^item> \<open>Delegate\<close>: \<open>delegate.rs\<close> of \<open>ariel-os-embassy\<close> and \<open>cell.rs\<close> of \<open>ariel-os-embassy-common\<close>: one task
    lends an object, any tasks ask for it, in every order; the signal has the contract \<open>async_signal_ok\<close>.
  \<^item> \<open>WaitList\<close>: \<open>threadlist.rs\<close>; \<open>tl_rep\<close> relates the links to the list of waiters.  The locale
    \<open>waiters\<close> is the interface the synchronisation objects use.
  \<^item> \<open>Locks\<close>: \<open>sync/lock.rs\<close>, \<open>sync/event.rs\<close>, \<open>sync/wait_queue.rs\<close>.  \<open>Mutex\<close>: \<open>sync/mutex.rs\<close>
    with priority inheritance, and a step relation of threads taking and dropping guards.
    \<open>Channel\<close>: \<open>sync/channel.rs\<close> with an explicit store, as values move through raw addresses.
    \<open>Timeout\<close>: \<open>timeout.rs\<close> and the timed waits; the time driver is a parameter.
  \<^item> \<open>EspRadio\<close>, \<open>EspSemaphore\<close>: \<open>ariel-os-esp\<close>, the threads, wait queues and semaphores the radio
    driver is given (\<open>scheduler.rs\<close>, \<open>wait_queue.rs\<close>, \<open>semaphore.rs\<close>), over the scheduler and the timed
    waits.  \<open>EspTimer\<close>: \<open>time_driver.rs\<close>; the timer queue of \<open>embassy_time_queue_utils\<close> is a parameter
    with the contract \<open>queue_ok\<close>.
  \<^item> \<open>OrderedPool\<close>: \<open>lib/coapcore/src/oluru.rs\<close>, refined to a list ordered by level and recency.
    \<open>ConnIds\<close>: \<open>helpers.rs\<close>.  \<open>Scope\<close>: \<open>scope.rs\<close>, \<open>time.rs\<close> and \<open>generalclaims.rs\<close>, with the CBOR
    decoder as a parameter assumed only to ignore what follows a complete array.
  \<^item> \<open>Ace\<close>: \<open>lib/coapcore/src/ace.rs\<close>, \<open>error.rs\<close> and \<open>iana.rs\<close>, the token structures and their
    processing, and the trait \<open>ServerSecurityConfig\<close> as the record \<open>authorities\<close>.  \<open>SecConfig\<close>:
    \<open>seccfg.rs\<close>, its three configurations; the locale \<open>token_authority\<close> is interpreted on each.
    \<open>SecContext\<close>: \<open>seccontext.rs\<close>, the contexts and the wrapping handler with its two entry points
    \<open>extract_request_data\<close> and \<open>build_response\<close>.  The crates \<open>lakers\<close>, \<open>liboscore\<close>, \<open>minicbor\<close>,
    \<open>ccm\<close> and \<open>p256\<close>, the inner handler and the messages are records of functions; the clock and
    the random nonce are arguments.
  \<^item> \<open>SecInvariant\<close>, \<open>SecHandler\<close>: the invariant \<open>handler_inv\<close>, that every operation keeps it, and the
    relation \<open>served\<close> of the states reachable by requests and responses in any order, in the locale
    \<open>sound_authority\<close>.  \<open>SecProperties\<close>, \<open>SecLifetime\<close>, \<open>SecRequests\<close>: what it means for access, for the
    life of contexts and for the treatment of requests.  The assumptions on the crates are
    \<open>liboscore_ok\<close>, \<open>crates_total\<close> and \<open>cbor_lengths\<close>; \<open>SecExamples\<close> gives instances of all of them
    and evaluates an exchange.
  \<^item> \<open>Storage\<close>: \<open>ariel-os-storage\<close>; the map in flash (\<open>sequential_storage\<close>) is a parameter with the
    contract \<open>seq_storage_ok\<close>, the serialisation one with \<open>postcard_ok\<close>.  \<open>storage_step\<close> are the uses of
    the storage and restarts of the device.
  \<^item> \<open>StoredPolicy\<close>: \<open>ariel-os-coap/build.rs\<close> and \<open>src/stored.rs\<close>, the compilation of \<open>peers.yml\<close>, the
    evaluation of what it generates, and the policy made of it as \<open>authorities\<close>, on which \<open>token_authority\<close> and
    \<open>sound_authority\<close> are interpreted; and the server's own credential.
  \<^item> \<open>SupportMatrix\<close>, \<open>Book\<close>: \<open>doc/schema.rs\<close> and \<open>doc/gen_book.rs\<close>, the resolution of the support
    matrix and the commands that write or check the pages.  File system, templates and YAML are parameters
    with the contracts \<open>book_env_ok\<close> and \<open>stable_templates\<close>; hash maps are lists in any order.
  \<^item> \<open>Signal\<close>, \<open>Sensors\<close>, \<open>GnssTime\<close>: \<open>ariel-os-sensors\<close>, \<open>ariel-os-sensors-utils\<close> and
    \<open>ariel-os-sensors-gnss-time-ext\<close>.
  \<^item> \<open>I2cDevices\<close>, \<open>SensorDriver\<close>: the crates \<open>ariel-os-sensor-stts22h\<close>, \<open>-lps22df\<close> and \<open>-lis2du12\<close>:
    registers, reset and measurement of each device over an I2C bus that is a record of functions, and
    the protocol the three drivers share, as a step relation of callers and the driver's task.
    \<open>GnssDriver\<close>: \<open>ariel-os-sensor-nrf91-gnss\<close>; the modem is a stream of events, its calendar and its
    floating-point arithmetic are parameters.  The signal and the channel of \<open>embassy_sync\<close> have the
    contracts \<open>signal_ok\<close> and \<open>command_channel_ok\<close>.
  \<^item> \<open>MacAddress\<close>: \<open>ariel-os-embassy-common/src/identity.rs\<close>; the board hash is a parameter.
  \<^item> \<open>UdpSocket\<close>: \<open>ariel-os-coap/src/udp_nal\<close>, over the sockets of \<open>embassy_net\<close> with the contract
    \<open>udp_net_ok\<close>.  \<open>Randomness\<close>: \<open>ariel-os-random\<close> and \<open>hwrng.rs\<close> of \<open>ariel-os-native\<close>; generators are
    records of functions.  \<open>ExtInt\<close>: \<open>extint_registry.rs\<close> of \<open>ariel-os-stm32\<close>.
  \<^item> \<open>Tunables\<close>: \<open>ariel-os-utils/src/env.rs\<close>.  \<open>Macros\<close>: \<open>ariel-os-macros\<close>, from the parameters and the
    decorated item to the items produced; expressions are of a type of their own, never looked into.
  \<^item> \<open>EditorConfig\<close>: \<open>scripts/editor-config.rs\<close>, over a disk whose accesses may fail; parsers and printers
    of the files have the contract \<open>format_ok\<close>.

  \<^bold>\<open>What is shown.\<close>  The highest-priority ready thread runs; no scheduler call of a reachable state
  panics; context switches are transparent, on every architecture; equal priorities take turns.  On two cores, orderly runs
  lose no ready thread and run none twice, and each core gets the best thread it may run.  Locks and mutexes hand
  over without a gap, mutexes exclude and pass priorities on, channels deliver, flags and signals
  lose no wake-up, sleeping threads wake on time, a timed take of a semaphore returns, and the ESP timer
  misses nothing.  Access decisions of AIF scopes are exact,
  connection identifiers fresh, the context pool keeps its order.  The inner handler of a CoAP server
  is only asked about requests that an authorization covers; handshakes and failed requests do not
  push out other contexts; tokens are accepted only from the configured authorities, and every
  exchange returns.  On a device with a stored policy, that is what the compiled list of peers permits, and the
  device's identity is the same after every restart.  What is stored is read back.  A sensor reading was measured after the trigger it answers, pressures are decoded
  without a wrap, and GNSS samples carry the time of the modem.  Containers, time stamps and
  addresses round-trip or agree with their reference definitions; so do the pages of the book, and what the
  generator writes it accepts when it checks.  On a host, critical sections exclude, no wake-up is lost and
  parking takes effect in time, as long as no slot is used again.  A wake between a poll and the wait for
  it is not lost; a lent object is used once, by its own executor; replies go back where the datagram came
  from; handles to the global generator share one stream; interrupt channels are handed out once; numbers
  in variables are read exactly when they fit; the macro \<open>task\<close> accepts what it documents; and the editor
  script keeps all other entries of Visual Studio Code, and changes nothing when it runs again.  Some properties record where the
  code does not do what its documentation says: a second sender on a channel, a deadline left over
  from an early wake-up, the result of a timed wait, nested mutexes, the filtered search with 32
  priorities, a path that ends in a slash, the length of an iterator, critical items of EDHOC message
  3, the precedence of token headers, their length, credentials of unauthenticated peers, and options
  that hide an OSCORE option; and, with two cores, a wake-up before the context switch, registers
  saved too late, wake-ups that trigger the same core twice, and triggers of the
  ESP32-S3 that never come; an ended thread that goes on in place of a new one; and that an interrupt which holds a
  semaphore passes for thread 0; and, in the sensor drivers, a trigger during a measurement and a trigger
  the GNSS driver throws away; a read error that erases the storage; scopes that make a server panic;
  boards without builders; on a host, a thread in a reused slot that never runs, and waits that end
  early; a foreign task that loses a lent object; parameters that \<open>spawner\<close> ignores; and an editor script that
  drops the settings of other language servers and passes empty arguments.

  \<^bold>\<open>Not modelled.\<close>  The start-up of the second core of the RP2040; the registration of interrupt
  handlers and the second core in the context switch of Xtensa; locks, flags and timeouts on several cores; cancelled futures around a
  delegate; the decoding and encoding \<open>minicbor\<close> derives for the token structures; the texts of errors
  and log messages; hardware support, networking tasks, USB, logging, allocation and board
  descriptions, which call vendor crates or are generated.
\<close>

end
